(* ===== verification/Prelude.thy ===== *)
theory Prelude
  imports Main "HOL-Library.Word" "HOL-Library.List_Lexorder" "HOL-Library.Char_ord"
begin

text \<open>
  Shared vocabulary of the development.

  \<^item> The \<open>Result\<close> plumbing: a fallible Rust function returns \<open>'e + 'a\<close>, \<open>Inl\<close> being
    \<open>Err\<close>. \<open>rbind\<close> is the \<open>?\<close> operator, \<open>mapM\<close> the \<open>collect::<Result<Vec<_>>>()\<close> over an
    iterator, \<open>foldM\<close> a loop that leaves at the first error.
  \<^item> \<open>ordering\<close> is \<open>std::cmp::Ordering\<close>; \<open>cmp_lin\<close> is \<open>Ord::cmp\<close> of a totally ordered type.
  \<^item> Generic lemmas on lists that several components use.
  \<^item> \<open>result_simps\<close> collects the case analysis of fallible code, so that component proofs
    say \<open>auto simp: result_simps\<close>.
\<close>

named_theorems result_simps \<open>case analysis of fallible code\<close>

type_synonym i64 = "64 word"
type_synonym i32 = "32 word"
type_synonym u8 = "8 word"
type_synonym u32 = "32 word"
type_synonym u64 = "64 word"

section \<open>Fallible computations\<close>

fun rbind :: "'e + 'a \<Rightarrow> ('a \<Rightarrow> 'e + 'b) \<Rightarrow> 'e + 'b" where
  "rbind (Inl e) f = Inl e"
| "rbind (Inr x) f = f x"

fun rmap :: "('a \<Rightarrow> 'b) \<Rightarrow> 'e + 'a \<Rightarrow> 'e + 'b" where
  "rmap f (Inl e) = Inl e"
| "rmap f (Inr x) = Inr (f x)"

fun map_err :: "('e \<Rightarrow> 'e) \<Rightarrow> 'e + 'a \<Rightarrow> 'e + 'a" where
  "map_err f (Inl e) = Inl (f e)"
| "map_err f (Inr x) = Inr x"

fun ok_or :: "'e \<Rightarrow> 'a option \<Rightarrow> 'e + 'a" where
  "ok_or e None = Inl e"
| "ok_or e (Some x) = Inr x"

definition guard :: "bool \<Rightarrow> 'e \<Rightarrow> 'e + unit" where
  "guard b e = (if b then Inr () else Inl e)"

fun is_ok :: "'e + 'a \<Rightarrow> bool" where
  "is_ok (Inl e) = False"
| "is_ok (Inr x) = True"

fun mapM :: "('a \<Rightarrow> 'e + 'b) \<Rightarrow> 'a list \<Rightarrow> 'e + 'b list" where
  "mapM f [] = Inr []"
| "mapM f (x # xs) = rbind (f x) (\<lambda>y. rbind (mapM f xs) (\<lambda>ys. Inr (y # ys)))"

fun foldM :: "('s \<Rightarrow> 'a \<Rightarrow> 'e + 's) \<Rightarrow> 's \<Rightarrow> 'a list \<Rightarrow> 'e + 's" where
  "foldM f s [] = Inr s"
| "foldM f s (x # xs) = rbind (f s x) (\<lambda>s'. foldM f s' xs)"

fun forM :: "('a \<Rightarrow> 'e + unit) \<Rightarrow> 'a list \<Rightarrow> 'e + unit" where
  "forM f [] = Inr ()"
| "forM f (x # xs) = rbind (f x) (\<lambda>_. forM f xs)"

lemma rbind_Inr_iff [result_simps]: "rbind m f = Inr y \<longleftrightarrow> (\<exists>x. m = Inr x \<and> f x = Inr y)"
  by (cases m) auto

lemma rbind_Inl_iff [result_simps]:
  "rbind m f = Inl e \<longleftrightarrow> m = Inl e \<or> (\<exists>x. m = Inr x \<and> f x = Inl e)"
  by (cases m) auto

lemma rmap_Inr_iff [result_simps]: "rmap f m = Inr y \<longleftrightarrow> (\<exists>x. m = Inr x \<and> y = f x)"
  by (cases m) auto

lemma map_err_Inr_iff [result_simps]: "map_err f m = Inr y \<longleftrightarrow> m = Inr y"
  by (cases m) auto

lemma ok_or_Inr_iff [result_simps]: "ok_or e m = Inr y \<longleftrightarrow> m = Some y"
  by (cases m) auto

lemma ok_or_Inl_iff [result_simps]: "ok_or e m = Inl e' \<longleftrightarrow> m = None \<and> e' = e"
  by (cases m) auto

lemma guard_Inr_iff [result_simps]: "guard b e = Inr u \<longleftrightarrow> b"
  by (simp add: guard_def)

lemma guard_Inl_iff [result_simps]: "guard b e = Inl e' \<longleftrightarrow> \<not> b \<and> e' = e"
  by (auto simp: guard_def)

lemma guard_simps [simp]: "guard True e = Inr ()" "guard False e = Inl e"
  by (simp_all add: guard_def)

lemma is_ok_iff [result_simps]: "is_ok m \<longleftrightarrow> (\<exists>x. m = Inr x)"
  by (cases m) auto

lemma rbind_assoc: "rbind (rbind m f) g = rbind m (\<lambda>x. rbind (f x) g)"
  by (cases m) auto

lemma rbind_Inr_id [simp]: "rbind m Inr = m"
  by (cases m) auto

lemma rbind_cong [fundef_cong]:
  "m = m' \<Longrightarrow> (\<And>x. m' = Inr x \<Longrightarrow> f x = f' x) \<Longrightarrow> rbind m f = rbind m' f'"
  by (cases m') auto

lemma mapM_cong [fundef_cong]:
  "xs = ys \<Longrightarrow> (\<And>x. x \<in> set ys \<Longrightarrow> f x = g x) \<Longrightarrow> mapM f xs = mapM g ys"
  by (induction xs arbitrary: ys) auto

lemma mapM_Inr_iff: "mapM f xs = Inr ys \<longleftrightarrow> list_all2 (\<lambda>x y. f x = Inr y) xs ys"
  by (induction xs arbitrary: ys) (auto simp: result_simps list_all2_Cons1)

lemma mapM_Inr_length: "mapM f xs = Inr ys \<Longrightarrow> length ys = length xs"
  by (auto simp: mapM_Inr_iff dest: list_all2_lengthD)

lemma mapM_Inr_nth: "mapM f xs = Inr ys \<Longrightarrow> i < length xs \<Longrightarrow> f (xs ! i) = Inr (ys ! i)"
  by (auto simp: mapM_Inr_iff list_all2_conv_all_nth)

lemma mapM_Inr_set: "mapM f xs = Inr ys \<Longrightarrow> y \<in> set ys \<Longrightarrow> \<exists>x \<in> set xs. f x = Inr y"
  by (induction xs arbitrary: ys) (auto simp: result_simps)

lemma mapM_Inr_map: "(\<And>x. x \<in> set xs \<Longrightarrow> f x = Inr (g x)) \<Longrightarrow> mapM f xs = Inr (map g xs)"
  by (induction xs) auto

lemma mapM_Inr_const [simp]: "mapM (\<lambda>x. Inr (g x)) xs = Inr (map g xs)"
  by (rule mapM_Inr_map) simp

lemma mapM_append:
  "mapM f (xs @ ys) = rbind (mapM f xs) (\<lambda>as. rbind (mapM f ys) (\<lambda>bs. Inr (as @ bs)))"
  by (induction xs) (auto simp: rbind_assoc intro: rbind_cong)

lemma foldM_append: "foldM f s (xs @ ys) = rbind (foldM f s xs) (\<lambda>s'. foldM f s' ys)"
  by (induction xs arbitrary: s) (auto simp: rbind_assoc)

lemma foldM_invariant:
  assumes "foldM f s xs = Inr s'" and "P s"
    and "\<And>s x s'. x \<in> set xs \<Longrightarrow> P s \<Longrightarrow> f s x = Inr s' \<Longrightarrow> P s'"
  shows "P s'"
  using assms
proof (induction xs arbitrary: s)
  case Nil
  then show ?case by simp
next
  case (Cons x xs)
  from Cons.prems(1) obtain t where t: "f s x = Inr t" and r: "foldM f t xs = Inr s'"
    by (auto simp: result_simps)
  have "P t" using Cons.prems(2) t by (rule Cons.prems(3) [OF list.set_intros(1)])
  with r show ?case
    by (rule Cons.IH) (auto intro: Cons.prems(3))
qed

lemma forM_Inr_iff: "forM f xs = Inr u \<longleftrightarrow> (\<forall>x \<in> set xs. f x = Inr ())"
  by (induction xs) (auto simp: result_simps)

lemma forM_Inl_D: "forM f xs = Inl e \<Longrightarrow> \<exists>x \<in> set xs. f x = Inl e"
  by (induction xs) (auto simp: result_simps)

section \<open>Comparison\<close>

datatype ordering = Less | Equal | Greater

fun flip_ord :: "ordering \<Rightarrow> ordering" where
  "flip_ord Less = Greater"
| "flip_ord Equal = Equal"
| "flip_ord Greater = Less"

definition cmp_lin :: "'a::linorder \<Rightarrow> 'a \<Rightarrow> ordering" where
  "cmp_lin a b = (if a < b then Less else if a = b then Equal else Greater)"

lemma cmp_lin_simps [simp]:
  "cmp_lin a b = Less \<longleftrightarrow> a < b"
  "cmp_lin a b = Equal \<longleftrightarrow> a = b"
  "cmp_lin a b = Greater \<longleftrightarrow> b < a"
  by (auto simp: cmp_lin_def)

lemma cmp_lin_flip: "cmp_lin b a = flip_ord (cmp_lin a b)"
  by (auto simp: cmp_lin_def)

text \<open>
  What every user of \<open>Ord for Value\<close> relies on (segment statistics, pruning, min and max
  aggregates): on the values of one column the comparison is a total order. The client
  lemmas are proved once from these laws.
\<close>

locale cmp_order =
  fixes cmp :: "'a \<Rightarrow> 'a \<Rightarrow> ordering"
    and dom_ok :: "'a \<Rightarrow> bool"
  assumes cmp_eq: "dom_ok a \<Longrightarrow> dom_ok b \<Longrightarrow> cmp a b = Equal \<longleftrightarrow> a = b"
    and cmp_sym: "dom_ok a \<Longrightarrow> dom_ok b \<Longrightarrow> cmp b a = flip_ord (cmp a b)"
    and cmp_trans: "dom_ok a \<Longrightarrow> dom_ok b \<Longrightarrow> dom_ok c \<Longrightarrow>
      cmp a b = Less \<Longrightarrow> cmp b c = Less \<Longrightarrow> cmp a c = Less"
begin

lemma cmp_refl: "dom_ok a \<Longrightarrow> cmp a a = Equal"
  by (simp add: cmp_eq)

lemma cmp_gt_iff: "dom_ok a \<Longrightarrow> dom_ok b \<Longrightarrow> cmp a b = Greater \<longleftrightarrow> cmp b a = Less"
  using cmp_sym [of a b] by (cases "cmp a b") auto

lemma le_trans:
  "dom_ok a \<Longrightarrow> dom_ok b \<Longrightarrow> dom_ok c \<Longrightarrow> cmp a b \<noteq> Greater \<Longrightarrow> cmp b c \<noteq> Greater \<Longrightarrow>
   cmp a c \<noteq> Greater"
  using cmp_trans [of a b c] cmp_eq [of a b] cmp_eq [of b c]
  by (metis ordering.exhaust ordering.distinct(3))

lemma less_le_trans:
  "dom_ok a \<Longrightarrow> dom_ok b \<Longrightarrow> dom_ok c \<Longrightarrow> cmp a b = Less \<Longrightarrow> cmp b c \<noteq> Greater \<Longrightarrow>
   cmp a c = Less"
  using cmp_trans [of a b c] cmp_eq [of b c] by (metis ordering.exhaust)

lemma le_less_trans:
  "dom_ok a \<Longrightarrow> dom_ok b \<Longrightarrow> dom_ok c \<Longrightarrow> cmp a b \<noteq> Greater \<Longrightarrow> cmp b c = Less \<Longrightarrow>
   cmp a c = Less"
  using cmp_trans [of a b c] cmp_eq [of a b] by (metis ordering.exhaust)

lemma not_less_iff: "dom_ok a \<Longrightarrow> dom_ok b \<Longrightarrow> cmp a b \<noteq> Less \<longleftrightarrow> cmp b a \<noteq> Greater"
  using cmp_sym [of a b] by (cases "cmp a b") auto

lemma le_antisym:
  "dom_ok a \<Longrightarrow> dom_ok b \<Longrightarrow> cmp a b \<noteq> Greater \<Longrightarrow> cmp b a \<noteq> Greater \<Longrightarrow> a = b"
  by (metis cmp_eq cmp_gt_iff ordering.exhaust)

end

section \<open>Lists\<close>

lemma nth_append_at: "i = length xs \<Longrightarrow> (xs @ y # ys) ! i = y"
  by simp

lemma distinct_map_filter_inj: "distinct (map f xs) \<Longrightarrow> distinct (map f (filter P xs))"
  by (induction xs) auto

lemma find_Some_set: "find P xs = Some x \<Longrightarrow> x \<in> set xs \<and> P x"
  by (induction xs) (auto split: if_splits)

lemma find_None_all: "find P xs = None \<longleftrightarrow> (\<forall>x \<in> set xs. \<not> P x)"
  by (induction xs) auto

lemma find_unique:
  "distinct (map f xs) \<Longrightarrow> x \<in> set xs \<Longrightarrow> find (\<lambda>y. f y = f x) xs = Some x"
  by (induction xs) (auto simp: image_iff)

lemma sum_list_filter_split:
  "sum_list (map f (filter P xs)) + sum_list (map f (filter (\<lambda>x. \<not> P x) xs)) =
   (sum_list (map f xs) :: nat)"
  by (induction xs) auto

lemma list_less_append_left: "ys < zs \<Longrightarrow> (xs @ ys :: 'a::linorder list) < xs @ zs"
  by (induction xs) auto

section \<open>Replayed logs\<close>

text \<open>
  State that is rebuilt from a log: \<open>replay\<close> folds a fallible transition over the logged
  mutations. What the log's owner relies on is that a transition keeps the state well formed.
\<close>

locale replayed =
  fixes step :: "'s \<Rightarrow> 'm \<Rightarrow> 'e + 's"
    and init :: 's
    and ok :: "'s \<Rightarrow> bool"
  assumes ok_init: "ok init"
    and ok_step: "ok s \<Longrightarrow> step s m = Inr s' \<Longrightarrow> ok s'"
begin

lemma replay_ok: "foldM step init ms = Inr s \<Longrightarrow> ok s"
  by (erule foldM_invariant) (auto intro: ok_init ok_step)

lemma replay_snoc: "foldM step init ms = Inr s \<Longrightarrow> step s m = Inr s' \<Longrightarrow> foldM step init (ms @ [m]) = Inr s'"
  by (simp add: foldM_append)

lemma replay_prefix: "foldM step init (ms @ ns) = Inr s \<Longrightarrow> \<exists>s0. foldM step init ms = Inr s0 \<and> foldM step s0 ns = Inr s"
  by (simp add: foldM_append result_simps)

end

end
