(* ===== verification/Errors.thy ===== *)
theory Errors
  imports Prelude
begin

text \<open>
  \<open>crates/adb-core/src/error.rs\<close>: the error every fallible operation returns, its stable
  machine-readable code and (\<open>crates/adb-api/src/error.rs\<close>) the HTTP status it maps to.

  The variants are the source's. The prose of a message is not modelled: a variant keeps the
  payload a caller can branch on (the \<open>kind\<close> of \<open>NotFound\<close> and \<open>AlreadyExists\<close>, the scope of
  \<open>PermissionDenied\<close>, the name of the limit), and drops the formatted text.
\<close>

datatype adb_error =
    InvalidIdentifier
  | InvalidSchema
  | NotFound string
  | AlreadyExists string
  | BadRequest
  | TypeMismatch
  | Unsupported
  | PermissionDenied string
  | LimitExceeded string
  | Storage
  | Corruption
  | Internal

type_synonym 'a result = "adb_error + 'a"

fun error_code :: "adb_error \<Rightarrow> string" where
  "error_code InvalidIdentifier = ''invalid_identifier''"
| "error_code InvalidSchema = ''invalid_schema''"
| "error_code (NotFound _) = ''not_found''"
| "error_code (AlreadyExists _) = ''already_exists''"
| "error_code BadRequest = ''bad_request''"
| "error_code TypeMismatch = ''type_mismatch''"
| "error_code Unsupported = ''unsupported''"
| "error_code (PermissionDenied _) = ''permission_denied''"
| "error_code (LimitExceeded _) = ''limit_exceeded''"
| "error_code Storage = ''storage_error''"
| "error_code Corruption = ''corruption''"
| "error_code Internal = ''internal_error''"

fun status :: "adb_error \<Rightarrow> nat" where
  "status (NotFound _) = 404"
| "status (AlreadyExists _) = 409"
| "status (PermissionDenied _) = 403"
| "status Unsupported = 422"
| "status (LimitExceeded _) = 429"
| "status InvalidIdentifier = 400"
| "status InvalidSchema = 400"
| "status BadRequest = 400"
| "status TypeMismatch = 400"
| "status Storage = 500"
| "status Corruption = 500"
| "status Internal = 500"

end
