(* ===== verification/Float64.thy ===== *)
theory Float64
  imports Prelude
begin

text \<open>
  The part of Rust's \<open>f64\<close> the program uses, on bit patterns: classification, \<open>total_cmp\<close>,
  the comparison operators, the \<open>as\<close> casts from and to \<open>i64\<close>, addition and division. A value is its 64 bits; the
  finite ones denote \<open>(-1)^sign * m * 2^e\<close> with \<open>f64_decode\<close> giving \<open>(sign, m, e)\<close>.
  Rounding is to nearest, ties to even. The payload of a NaN produced by an operation is left
  open by the language; the model takes the default quiet NaN.
\<close>

datatype f64 = F64 (to_bits: "64 word")

definition f64_nat :: "f64 \<Rightarrow> nat" where
  "f64_nat x = unat (to_bits x)"

definition f64_sign :: "f64 \<Rightarrow> bool" where
  "f64_sign x \<longleftrightarrow> 2 ^ 63 \<le> f64_nat x"

definition f64_exp :: "f64 \<Rightarrow> nat" where
  "f64_exp x = (f64_nat x div 2 ^ 52) mod 2048"

definition f64_frac :: "f64 \<Rightarrow> nat" where
  "f64_frac x = f64_nat x mod 2 ^ 52"

definition is_nan :: "f64 \<Rightarrow> bool" where
  "is_nan x \<longleftrightarrow> f64_exp x = 2047 \<and> f64_frac x \<noteq> 0"

definition is_inf :: "f64 \<Rightarrow> bool" where
  "is_inf x \<longleftrightarrow> f64_exp x = 2047 \<and> f64_frac x = 0"

definition is_finite :: "f64 \<Rightarrow> bool" where
  "is_finite x \<longleftrightarrow> f64_exp x \<noteq> 2047"

definition f64_decode :: "f64 \<Rightarrow> bool \<times> nat \<times> int" where
  "f64_decode x =
     (if f64_exp x = 0 then (f64_sign x, f64_frac x, - 1074)
      else (f64_sign x, f64_frac x + 2 ^ 52, int (f64_exp x) - 1075))"

definition f64_of_mag :: "bool \<Rightarrow> nat \<Rightarrow> f64" where
  "f64_of_mag s n = F64 (word_of_nat (n + (if s then 2 ^ 63 else 0)))"

definition f64_nan :: f64 where
  "f64_nan = F64 0x7FF8000000000000"

definition f64_inf :: "bool \<Rightarrow> f64" where
  "f64_inf s = f64_of_mag s (2047 * 2 ^ 52)"

section \<open>Rounding\<close>

fun bit_length :: "nat \<Rightarrow> nat" where
  "bit_length n = (if n = 0 then 0 else Suc (bit_length (n div 2)))"

declare bit_length.simps [simp del]

text \<open>
  The float nearest to \<open>m * 2 ^ e\<close>. The unit in the last place of the result is \<open>2 ^ q\<close>; the
  scaled significand with its implicit bit is added to the biased exponent field, so a carry
  out of the significand increments the exponent, as the hardware does.
\<close>

definition round_shift :: "nat \<Rightarrow> nat \<Rightarrow> nat" where
  "round_shift m d =
     (if d < 2 * (m mod d) \<or> (d = 2 * (m mod d) \<and> odd (m div d)) then m div d + 1 else m div d)"

definition round_sig :: "nat \<Rightarrow> int \<Rightarrow> int \<Rightarrow> nat" where
  "round_sig m e q =
     (if q \<le> e then m * 2 ^ nat (e - q) else round_shift m (2 ^ nat (q - e)))"

definition round_pack :: "bool \<Rightarrow> int \<Rightarrow> nat \<Rightarrow> f64" where
  "round_pack s q sig =
     (if 2047 * 2 ^ 52 \<le> nat (q + 1074) * 2 ^ 52 + sig then f64_inf s
      else f64_of_mag s (nat (q + 1074) * 2 ^ 52 + sig))"

definition round_at :: "bool \<Rightarrow> nat \<Rightarrow> int \<Rightarrow> int \<Rightarrow> f64" where
  "round_at s m e q = round_pack s q (round_sig m e q)"

definition f64_round :: "bool \<Rightarrow> nat \<Rightarrow> int \<Rightarrow> f64" where
  "f64_round s m e =
     (if m = 0 then f64_of_mag s 0
      else round_at s m e (max (int (bit_length m) - 53 + e) (- 1074)))"

section \<open>Casts\<close>

definition f64_of_int :: "int \<Rightarrow> f64" where
  "f64_of_int i = f64_round (i < 0) (nat \<bar>i\<bar>) 0"

definition i64_as_f64 :: "i64 \<Rightarrow> f64" where
  "i64_as_f64 i = f64_of_int (sint i)"

definition f64_trunc :: "f64 \<Rightarrow> int" where
  "f64_trunc x = (case f64_decode x of (s, m, e) \<Rightarrow>
     let a = (if 0 \<le> e then int m * 2 ^ nat e else int (m div 2 ^ nat (- e)))
     in if s then - a else a)"

definition fract_is_zero :: "f64 \<Rightarrow> bool" where
  "fract_is_zero x \<longleftrightarrow> is_finite x \<and>
     (case f64_decode x of (s, m, e) \<Rightarrow> 0 \<le> e \<or> m mod 2 ^ nat (- e) = 0)"

definition i64_min :: int where "i64_min = - (2 ^ 63)"
definition i64_max :: int where "i64_max = 2 ^ 63 - 1"

text \<open>\<open>x as i64\<close>: NaN is 0, everything else is truncated and saturates.\<close>

definition f64_as_i64 :: "f64 \<Rightarrow> i64" where
  "f64_as_i64 x =
     (if is_nan x then 0
      else if is_inf x then word_of_int (if f64_sign x then i64_min else i64_max)
      else word_of_int (max i64_min (min i64_max (f64_trunc x))))"

section \<open>Comparison\<close>

text \<open>
  \<open>total_cmp\<close> compares the bits as signed integers after flipping the lower 63 bits of a
  negative number.
\<close>

definition total_key :: "f64 \<Rightarrow> int" where
  "total_key x = (let i = sint (to_bits x) in if i < 0 then - (2 ^ 63) - 1 - i else i)"

definition total_cmp :: "f64 \<Rightarrow> f64 \<Rightarrow> ordering" where
  "total_cmp x y = cmp_lin (total_key x) (total_key y)"

text \<open>The operators \<open><=\<close> and \<open>>=\<close>: false on NaN, and the two zeros are equal.\<close>

definition num_key :: "f64 \<Rightarrow> int" where
  "num_key x = (let m = int (f64_nat x mod 2 ^ 63) in if f64_sign x then - m else m)"

definition f64_le :: "f64 \<Rightarrow> f64 \<Rightarrow> bool" where
  "f64_le x y \<longleftrightarrow> \<not> is_nan x \<and> \<not> is_nan y \<and> num_key x \<le> num_key y"

section \<open>Arithmetic\<close>

definition f64_signed :: "f64 \<Rightarrow> int \<Rightarrow> int" where
  "f64_signed x e = (case f64_decode x of (s, m, ex) \<Rightarrow>
     let a = int m * 2 ^ nat (ex - e) in if s then - a else a)"

definition f64_of_signed :: "bool \<Rightarrow> int \<Rightarrow> int \<Rightarrow> f64" where
  "f64_of_signed z t e =
     (if t = 0 then f64_of_mag z 0 else f64_round (t < 0) (nat \<bar>t\<bar>) e)"

definition f64_add_at :: "int \<Rightarrow> f64 \<Rightarrow> f64 \<Rightarrow> f64" where
  "f64_add_at e x y =
     f64_of_signed (f64_sign x \<and> f64_sign y) (f64_signed x e + f64_signed y e) e"

definition f64_unit :: "f64 \<Rightarrow> int" where
  "f64_unit x = snd (snd (f64_decode x))"

definition f64_add :: "f64 \<Rightarrow> f64 \<Rightarrow> f64" where
  "f64_add x y =
     (if is_nan x \<or> is_nan y then f64_nan
      else if is_inf x then (if is_inf y \<and> f64_sign x \<noteq> f64_sign y then f64_nan else x)
      else if is_inf y then y
      else f64_add_at (min (f64_unit x) (f64_unit y)) x y)"

definition f64_is_zero :: "f64 \<Rightarrow> bool" where
  "f64_is_zero x \<longleftrightarrow> f64_nat x mod 2 ^ 63 = 0"

text \<open>The quotient is computed with 64 extra bits and a sticky bit, then rounded once.\<close>

definition f64_quot :: "bool \<Rightarrow> nat \<Rightarrow> nat \<Rightarrow> int \<Rightarrow> f64" where
  "f64_quot s n d e = f64_round s (2 * (n div d) + (if n mod d = 0 then 0 else 1)) (e - 1)"

fun f64_div_mag :: "bool \<Rightarrow> bool \<times> nat \<times> int \<Rightarrow> bool \<times> nat \<times> int \<Rightarrow> f64" where
  "f64_div_mag s (_, mx, ex) (_, my, ey) =
     f64_quot s (mx * 2 ^ (64 + bit_length my)) my (ex - ey - int (64 + bit_length my))"

definition f64_div :: "f64 \<Rightarrow> f64 \<Rightarrow> f64" where
  "f64_div x y =
     (if is_nan x \<or> is_nan y \<or> (is_inf x \<and> is_inf y) \<or> (f64_is_zero x \<and> f64_is_zero y)
      then f64_nan
      else if is_inf x \<or> f64_is_zero y then f64_inf (f64_sign x \<noteq> f64_sign y)
      else if is_inf y \<or> f64_is_zero x then f64_of_mag (f64_sign x \<noteq> f64_sign y) 0
      else f64_div_mag (f64_sign x \<noteq> f64_sign y) (f64_decode x) (f64_decode y))"

section \<open>Facts\<close>

lemma total_key_inj: "total_key x = total_key y \<Longrightarrow> x = y"
proof -
  assume eq: "total_key x = total_key y"
  have r: "- (2 ^ 63) \<le> sint (to_bits z)" "sint (to_bits z) < 2 ^ 63" for z
    using sint_range_size [of "to_bits z"] by (simp_all add: word_size)
  have "sint (to_bits x) = sint (to_bits y)"
    using eq r [of x] r [of y] by (auto simp: total_key_def Let_def split: if_splits)
  then have "to_bits x = to_bits y" by (rule signed_word_eqI)
  then show ?thesis by (cases x; cases y) simp
qed

lemma total_cmp_Equal [simp]: "total_cmp x y = Equal \<longleftrightarrow> x = y"
  by (auto simp: total_cmp_def dest: total_key_inj)

lemma total_cmp_flip: "total_cmp y x = flip_ord (total_cmp x y)"
  unfolding total_cmp_def by (rule cmp_lin_flip)

lemma total_cmp_trans:
  "total_cmp x y = Less \<Longrightarrow> total_cmp y z = Less \<Longrightarrow> total_cmp x z = Less"
  by (auto simp: total_cmp_def)

interpretation f64_total: cmp_order total_cmp "\<lambda>_. True"
proof
  show "total_cmp y x = flip_ord (total_cmp x y)" for x y by (rule total_cmp_flip)
qed (auto intro: total_cmp_trans)

lemma bit_length_bounds: "0 < m \<Longrightarrow> 2 ^ (bit_length m - 1) \<le> m \<and> m < 2 ^ bit_length m \<and> 0 < bit_length m"
proof (induction m rule: bit_length.induct)
  case (1 m)
  show ?case
  proof (cases "m div 2 = 0")
    case True
    with "1.prems" have "m = 1" by auto
    then show ?thesis by (simp add: bit_length.simps)
  next
    case False
    define k where "k = bit_length (m div 2)"
    have k: "2 ^ (k - 1) \<le> m div 2" "m div 2 < 2 ^ k" "0 < k"
      using "1.IH" "1.prems" False by (auto simp: k_def)
    have bl: "bit_length m = Suc k"
      using "1.prems" by (simp add: bit_length.simps [of m] k_def)
    have e: "(2::nat) ^ k = 2 * 2 ^ (k - 1)" using k(3) by (cases k) auto
    have "2 ^ k \<le> m" using k(1) e by linarith
    moreover have "m < 2 * 2 ^ k" using k(2) by linarith
    ultimately show ?thesis by (simp add: bl)
  qed
qed

lemma bit_length_le: "0 < m \<Longrightarrow> m < 2 ^ k \<Longrightarrow> bit_length m \<le> k"
proof (rule ccontr)
  assume m: "0 < m" "m < 2 ^ k" "\<not> bit_length m \<le> k"
  then have "(2::nat) ^ k \<le> 2 ^ (bit_length m - 1)"
    by (intro power_increasing) auto
  with bit_length_bounds [OF m(1)] m(2) show False by linarith
qed

lemma f64_nat_of_mag: "n < 2 ^ 63 \<Longrightarrow> f64_nat (f64_of_mag s n) = n + (if s then 2 ^ 63 else 0)"
  unfolding f64_nat_def f64_of_mag_def f64.sel unat_of_nat by simp

lemma f64_decode_of_mag:
  assumes "0 < x" "x < 2047" "r < 2 ^ 52"
  shows "f64_exp (f64_of_mag s (x * 2 ^ 52 + r)) = x"
    and "f64_frac (f64_of_mag s (x * 2 ^ 52 + r)) = r"
    and "f64_sign (f64_of_mag s (x * 2 ^ 52 + r)) = s"
proof -
  have "x * 2 ^ 52 + r < 2 ^ 63" using assms by simp
  then have n: "f64_nat (f64_of_mag s (x * 2 ^ 52 + r)) = x * 2 ^ 52 + r + (if s then 2 ^ 63 else 0)"
    by (rule f64_nat_of_mag)
  define y where "y = x + (if s then 2048 else 0)"
  have y: "f64_nat (f64_of_mag s (x * 2 ^ 52 + r)) = r + y * 2 ^ 52"
    unfolding n y_def by simp
  have "y mod 2048 = x" using assms by (simp add: y_def)
  then show "f64_exp (f64_of_mag s (x * 2 ^ 52 + r)) = x"
    using assms unfolding f64_exp_def y by simp
  show "f64_frac (f64_of_mag s (x * 2 ^ 52 + r)) = r"
    using assms unfolding f64_frac_def y by simp
  show "f64_sign (f64_of_mag s (x * 2 ^ 52 + r)) = s"
    using assms unfolding f64_sign_def n by auto
qed

text \<open>Integers below \<open>2 ^ 53\<close> in magnitude are represented exactly.\<close>

lemma f64_of_int_form:
  assumes "i \<noteq> 0" "\<bar>i\<bar> < 2 ^ 53"
  obtains n r where "0 < n" "n \<le> 53" "r < 2 ^ 52" "nat \<bar>i\<bar> * 2 ^ (53 - n) = 2 ^ 52 + r"
    "f64_of_int i = f64_of_mag (i < 0) ((n + 1022) * 2 ^ 52 + r)"
proof -
  define m where "m = nat \<bar>i\<bar>"
  define n where "n = bit_length m"
  have m: "0 < m" "m < 2 ^ 53" using assms by (auto simp: m_def nat_less_iff)
  have b: "2 ^ (n - 1) \<le> m" "m < 2 ^ n" "0 < n" using bit_length_bounds [OF m(1)] by (auto simp: n_def)
  have n53: "n \<le> 53" using bit_length_le [OF m] by (simp add: n_def)
  define r where "r = m * 2 ^ (53 - n) - 2 ^ 52"
  have p: "(2::nat) ^ (n - 1) * 2 ^ (53 - n) = 2 ^ 52" "(2::nat) ^ n * 2 ^ (53 - n) = 2 ^ 53"
    using b(3) n53 by (simp_all add: power_add [symmetric])
  have lo: "2 ^ 52 \<le> m * 2 ^ (53 - n)"
    using mult_le_mono1 [OF b(1), of "2 ^ (53 - n)"] unfolding p .
  have hi: "m * 2 ^ (53 - n) < 2 ^ 53"
  proof -
    have "m * 2 ^ (53 - n) < 2 ^ n * 2 ^ (53 - n)" using b(2) by (rule mult_less_mono1) simp
    then show ?thesis by (simp only: p)
  qed
  have r: "r < 2 ^ 52" "m * 2 ^ (53 - n) = 2 ^ 52 + r" using lo hi by (auto simp: r_def)
  have q: "max (int n - 53 + 0) (- 1074) = int n - 53" by simp
  have sig: "round_sig m 0 (int n - 53) = 2 ^ 52 + r"
    using n53 r(2) by (simp add: round_sig_def nat_diff_distrib')
  have "nat (int n - 53 + 1074) = n + 1021" by simp
  then have "round_pack (i < 0) (int n - 53) (2 ^ 52 + r) = f64_of_mag (i < 0) ((n + 1022) * 2 ^ 52 + r)"
    using r n53 by (simp add: round_pack_def algebra_simps)
  then have "f64_of_int i = f64_of_mag (i < 0) ((n + 1022) * 2 ^ 52 + r)"
    using m(1) sig q by (simp add: f64_of_int_def f64_round_def round_at_def flip: m_def n_def)
  with b(3) n53 r show ?thesis by (intro that [of n r]) (auto simp: m_def)
qed

lemma f64_of_int_exact:
  assumes "\<bar>i\<bar> < 2 ^ 53"
  shows "f64_trunc (f64_of_int i) = i" and "fract_is_zero (f64_of_int i)"
    and "f64_exp (f64_of_int i) \<noteq> 2047"
proof -
  have "f64_trunc (f64_of_int i) = i \<and> fract_is_zero (f64_of_int i) \<and> f64_exp (f64_of_int i) \<noteq> 2047"
  proof (cases "i = 0")
    case True
    then show ?thesis
      by (simp add: f64_of_int_def f64_round_def f64_trunc_def fract_is_zero_def f64_decode_def is_finite_def
        f64_exp_def f64_frac_def f64_sign_def f64_nat_of_mag)
  next
    case False
    from False assms obtain n r where n: "0 < n" "n \<le> 53" "r < 2 ^ 52"
      and m: "nat \<bar>i\<bar> * 2 ^ (53 - n) = 2 ^ 52 + r"
      and f: "f64_of_int i = f64_of_mag (i < 0) ((n + 1022) * 2 ^ 52 + r)"
      by (rule f64_of_int_form)
    have x: "0 < n + 1022" "n + 1022 < 2047" using n by auto
    note d = f64_decode_of_mag [OF x n(3), of "i < 0", folded f]
    have dec: "f64_decode (f64_of_int i) = (i < 0, r + 2 ^ 52, int n - 53)"
      using x by (simp add: f64_decode_def d)
    have m': "r + 2 ^ 52 = nat \<bar>i\<bar> * 2 ^ (53 - n)" using m by simp
    have s: "n < 53 \<Longrightarrow> nat (53 - int n) = 53 - n" by simp
    have t: "(if 0 \<le> int n - 53 then int (r + 2 ^ 52) * 2 ^ nat (int n - 53)
        else int ((r + 2 ^ 52) div 2 ^ nat (- (int n - 53)))) = \<bar>i\<bar>"
    proof (cases "n = 53")
      case True
      then show ?thesis using m by simp
    next
      case False
      with n have "n < 53" by simp
      then show ?thesis using s unfolding m' by simp
    qed
    have "(r + 2 ^ 52) mod 2 ^ nat (- (int n - 53)) = 0 \<or> 0 \<le> int n - 53"
      using s unfolding m' by (cases "n = 53") (use n in auto)
    then show ?thesis
      using t x by (auto simp: f64_trunc_def fract_is_zero_def dec is_finite_def d Let_def)
  qed
  then show "f64_trunc (f64_of_int i) = i" and "fract_is_zero (f64_of_int i)"
    and "f64_exp (f64_of_int i) \<noteq> 2047" by auto
qed

lemma f64_as_i64_of_int:
  assumes "\<bar>sint v\<bar> < 2 ^ 53"
  shows "f64_as_i64 (i64_as_f64 v) = v"
  using f64_of_int_exact [OF assms] assms
  by (simp add: f64_as_i64_def i64_as_f64_def is_nan_def is_inf_def i64_min_def i64_max_def)

lemmas f64_eval_defs =
  f64_nat_def f64_sign_def f64_exp_def f64_frac_def is_nan_def is_inf_def is_finite_def
  f64_decode_def f64_of_mag_def f64_nan_def f64_inf_def round_shift_def
  round_sig_def round_pack_def round_at_def f64_round_def f64_of_int_def
  f64_trunc_def fract_is_zero_def i64_min_def i64_max_def f64_as_i64_def total_key_def
  total_cmp_def num_key_def f64_le_def f64_signed_def f64_of_signed_def f64_add_at_def
  f64_unit_def f64_add_def f64_is_zero_def f64_quot_def f64_div_def
  i64_as_f64_def

end
