(* ===== verification/Values.thy ===== *)
theory Values
  imports Errors Float64
begin

text \<open>
  \<open>crates/adb-core/src/types.rs\<close>: the type system, scalars, their conversion from and to JSON,
  and the comparison, equality and hashing that statistics, sorts and group keys use.

  Outside the repository, so parameters (record \<open>ext_lib\<close>): the date and time parsers and
  printers of chrono, the UUID parser, and the JSON printer. A serde_json number is represented
  by the two observations the code makes of it, \<open>as_i64\<close> and \<open>as_f64\<close>. Strings are their UTF-8
  bytes, which is also how Rust orders them. Arithmetic wraps where the release build does.
\<close>

datatype data_type = DBool | DInt64 | DFloat64 | DUtf8 | DTimestamp | DDate | DUuid | DJson

datatype adb_value =
    VNull
  | VBool bool
  | VInt i64
  | VFloat f64
  | VStr string
  | VTimestamp i64
  | VDate i32

datatype jnumber = JNum (as_i64_num: "i64 option") (as_f64_num: "f64 option")

datatype json =
    JNull
  | JBool bool
  | JNumber jnumber
  | JString string
  | JArray "json list"
  | JObject "(string \<times> json) list"

record ext_lib =
  parse_rfc3339 :: "string \<Rightarrow> (i64 \<times> i32) option"  \<comment> \<open>microseconds, UTC day counted from the common era\<close>
  parse_datetime :: "string \<Rightarrow> string \<Rightarrow> i64 option"  \<comment> \<open>format, text\<close>
  parse_naive_date :: "string \<Rightarrow> string \<Rightarrow> (i64 \<times> i32) option"  \<comment> \<open>midnight, day\<close>
  uuid_ok :: "string \<Rightarrow> bool"
  json_text :: "json \<Rightarrow> string"
  render_micros :: "i64 \<Rightarrow> string option"
  render_ce_days :: "i32 \<Rightarrow> string option"

section \<open>Types\<close>

fun is_numeric :: "data_type \<Rightarrow> bool" where
  "is_numeric DInt64 = True"
| "is_numeric DFloat64 = True"
| "is_numeric _ = False"

definition is_additive :: "data_type \<Rightarrow> bool" where
  "is_additive ty = is_numeric ty"

definition is_ordered :: "data_type \<Rightarrow> bool" where
  "is_ordered ty \<longleftrightarrow> ty \<noteq> DJson"

fun is_null :: "adb_value \<Rightarrow> bool" where
  "is_null VNull = True"
| "is_null _ = False"

fun data_type_of :: "adb_value \<Rightarrow> data_type option" where
  "data_type_of VNull = None"
| "data_type_of (VBool _) = Some DBool"
| "data_type_of (VInt _) = Some DInt64"
| "data_type_of (VFloat _) = Some DFloat64"
| "data_type_of (VStr _) = Some DUtf8"
| "data_type_of (VTimestamp _) = Some DTimestamp"
| "data_type_of (VDate _) = Some DDate"

fun as_i64 :: "adb_value \<Rightarrow> i64 option" where
  "as_i64 (VInt v) = Some v"
| "as_i64 (VTimestamp v) = Some v"
| "as_i64 (VDate v) = Some (scast v)"
| "as_i64 _ = None"

fun as_f64 :: "adb_value \<Rightarrow> f64 option" where
  "as_f64 (VInt v) = Some (i64_as_f64 v)"
| "as_f64 (VFloat v) = Some v"
| "as_f64 _ = None"

fun as_str :: "adb_value \<Rightarrow> string option" where
  "as_str (VStr s) = Some s"
| "as_str _ = None"

fun as_bool :: "adb_value \<Rightarrow> bool option" where
  "as_bool (VBool b) = Some b"
| "as_bool _ = None"

section \<open>Conversion from and to JSON\<close>

definition saturating_mul :: "i64 \<Rightarrow> int \<Rightarrow> i64" where
  "saturating_mul a k = word_of_int (max i64_min (min i64_max (sint a * k)))"

definition wrapping_abs :: "i64 \<Rightarrow> i64" where
  "wrapping_abs v = (if sint v < 0 then - v else v)"

definition normalize_epoch_to_micros :: "i64 \<Rightarrow> i64" where
  "normalize_epoch_to_micros v =
     (let a = wrapping_abs v in
      if sint a < 100000000000 then saturating_mul v 1000000
      else if sint a < 100000000000000 then saturating_mul v 1000
      else v)"

fun first_some :: "('a \<Rightarrow> 'b option) \<Rightarrow> 'a list \<Rightarrow> 'b option" where
  "first_some f [] = None"
| "first_some f (x # xs) = (case f x of None \<Rightarrow> first_some f xs | Some y \<Rightarrow> Some y)"

definition datetime_formats :: "string list" where
  "datetime_formats =
     [''%Y-%m-%d %H:%M:%S%.f'', ''%Y-%m-%dT%H:%M:%S%.f'', ''%Y-%m-%d %H:%M'']"

definition parse_timestamp_micros :: "ext_lib \<Rightarrow> string \<Rightarrow> i64 result" where
  "parse_timestamp_micros L s =
     (case parse_rfc3339 L s of
        Some (us, _) \<Rightarrow> Inr us
      | None \<Rightarrow>
          (case first_some (\<lambda>fmt. parse_datetime L fmt s) datetime_formats of
             Some us \<Rightarrow> Inr us
           | None \<Rightarrow>
               (case parse_naive_date L ''%Y-%m-%d'' s of
                  Some (us, _) \<Rightarrow> Inr us
                | None \<Rightarrow> Inl TypeMismatch)))"

definition unix_epoch_ce_days :: i32 where
  "unix_epoch_ce_days = 719163"

definition parse_date_days :: "ext_lib \<Rightarrow> string \<Rightarrow> i32 result" where
  "parse_date_days L s =
     (case parse_naive_date L ''%Y-%m-%d'' s of
        Some (_, d) \<Rightarrow> Inr (d - unix_epoch_ce_days)
      | None \<Rightarrow> (case parse_rfc3339 L s of
                   Some (_, d) \<Rightarrow> Inr (d - unix_epoch_ce_days)
                 | None \<Rightarrow> Inl TypeMismatch))"

fun from_json :: "ext_lib \<Rightarrow> json \<Rightarrow> data_type \<Rightarrow> adb_value result" where
  "from_json L JNull ty = Inr VNull"
| "from_json L (JBool b) DBool = Inr (VBool b)"
| "from_json L (JNumber n) DInt64 = rmap VInt (ok_or TypeMismatch (as_i64_num n))"
| "from_json L (JNumber n) DFloat64 = rmap VFloat (ok_or TypeMismatch (as_f64_num n))"
| "from_json L (JString s) DUtf8 = Inr (VStr s)"
| "from_json L (JString s) DUuid = (if uuid_ok L s then Inr (VStr s) else Inl TypeMismatch)"
| "from_json L j DJson = Inr (VStr (json_text L j))"
| "from_json L (JString s) DTimestamp = rmap VTimestamp (parse_timestamp_micros L s)"
| "from_json L (JNumber n) DTimestamp =
     rmap (\<lambda>v. VTimestamp (normalize_epoch_to_micros v)) (ok_or TypeMismatch (as_i64_num n))"
| "from_json L (JString s) DDate = rmap VDate (parse_date_days L s)"
| "from_json L (JNumber n) DDate =
     rmap (\<lambda>v. VDate (ucast v)) (ok_or TypeMismatch (as_i64_num n))"
| "from_json L _ _ = Inl TypeMismatch"

definition json_of_i64 :: "i64 \<Rightarrow> json" where
  "json_of_i64 v = JNumber (JNum (Some v) (Some (i64_as_f64 v)))"

fun to_json :: "ext_lib \<Rightarrow> adb_value \<Rightarrow> json" where
  "to_json L VNull = JNull"
| "to_json L (VBool b) = JBool b"
| "to_json L (VInt v) = json_of_i64 v"
| "to_json L (VFloat v) = (if is_finite v then JNumber (JNum None (Some v)) else JNull)"
| "to_json L (VStr s) = JString s"
| "to_json L (VTimestamp us) =
     (case render_micros L us of Some s \<Rightarrow> JString s | None \<Rightarrow> json_of_i64 us)"
| "to_json L (VDate d) =
     (case render_ce_days L (d + unix_epoch_ce_days) of
        Some s \<Rightarrow> JString s
      | None \<Rightarrow> json_of_i64 (scast d))"

section \<open>Total ordering, equality, hashing\<close>

fun discriminant :: "adb_value \<Rightarrow> nat" where
  "discriminant VNull = 0"
| "discriminant (VBool _) = 1"
| "discriminant (VInt _) = 2"
| "discriminant (VFloat _) = 2"
| "discriminant (VStr _) = 3"
| "discriminant (VTimestamp _) = 4"
| "discriminant (VDate _) = 5"

fun value_cmp :: "adb_value \<Rightarrow> adb_value \<Rightarrow> ordering" where
  "value_cmp VNull VNull = Equal"
| "value_cmp (VBool a) (VBool b) = cmp_lin a b"
| "value_cmp (VInt a) (VInt b) = cmp_lin (sint a) (sint b)"
| "value_cmp (VTimestamp a) (VTimestamp b) = cmp_lin (sint a) (sint b)"
| "value_cmp (VDate a) (VDate b) = cmp_lin (sint a) (sint b)"
| "value_cmp (VStr a) (VStr b) = cmp_lin a b"
| "value_cmp (VFloat a) (VFloat b) = total_cmp a b"
| "value_cmp (VFloat a) (VInt b) = total_cmp a (i64_as_f64 b)"
| "value_cmp (VInt a) (VFloat b) = total_cmp (i64_as_f64 a) b"
| "value_cmp a b = cmp_lin (discriminant a) (discriminant b)"

definition value_eq :: "adb_value \<Rightarrow> adb_value \<Rightarrow> bool" where
  "value_eq a b \<longleftrightarrow> value_cmp a b = Equal"

datatype hash_item = HU8 nat | HBool bool | HI64 i64 | HI32 i32 | HStr string | HU64 u64

definition integral_i64 :: "f64 \<Rightarrow> bool" where
  "integral_i64 v \<longleftrightarrow> fract_is_zero v \<and> is_finite v \<and>
     f64_le (f64_of_int i64_min) v \<and> f64_le v (f64_of_int i64_max)"

fun hash_input :: "adb_value \<Rightarrow> hash_item list" where
  "hash_input VNull = [HU8 0]"
| "hash_input (VBool b) = [HU8 1, HBool b]"
| "hash_input (VInt v) = [HU8 2, HI64 v]"
| "hash_input (VTimestamp v) = [HU8 4, HI64 v]"
| "hash_input (VDate v) = [HU8 5, HI32 v]"
| "hash_input (VStr s) = [HU8 3, HStr s]"
| "hash_input (VFloat v) =
     [HU8 2, if integral_i64 v then HI64 (f64_as_i64 v) else HU64 (to_bits v)]"

section \<open>Typing\<close>

text \<open>
  \<open>conforms ty v\<close>: \<open>v\<close> is a non-null scalar a column of type \<open>ty\<close> stores; \<open>fits\<close> allows NULL.
  These are specification predicates: the code keeps the agreement in the Arrow arrays.
\<close>

fun conforms :: "data_type \<Rightarrow> adb_value \<Rightarrow> bool" where
  "conforms DBool (VBool _) = True"
| "conforms DInt64 (VInt _) = True"
| "conforms DFloat64 (VFloat _) = True"
| "conforms DUtf8 (VStr _) = True"
| "conforms DUuid (VStr _) = True"
| "conforms DJson (VStr _) = True"
| "conforms DTimestamp (VTimestamp _) = True"
| "conforms DDate (VDate _) = True"
| "conforms _ _ = False"

definition fits :: "data_type \<Rightarrow> adb_value \<Rightarrow> bool" where
  "fits ty v \<longleftrightarrow> is_null v \<or> conforms ty v"

lemma is_null_iff [simp]: "is_null v \<longleftrightarrow> v = VNull"
  by (cases v) auto

lemma conforms_not_null [simp]: "\<not> conforms ty VNull"
  by (cases ty) auto

lemma fits_VNull [simp]: "fits ty VNull"
  by (simp add: fits_def)

lemma conforms_fits: "conforms ty v \<Longrightarrow> fits ty v"
  by (simp add: fits_def)

lemma fits_cases:
  assumes "fits ty v"
  obtains "v = VNull"
  | b where "v = VBool b" "ty = DBool"
  | i where "v = VInt i" "ty = DInt64"
  | f where "v = VFloat f" "ty = DFloat64"
  | s where "v = VStr s" "ty = DUtf8 \<or> ty = DUuid \<or> ty = DJson"
  | i where "v = VTimestamp i" "ty = DTimestamp"
  | d where "v = VDate d" "ty = DDate"
  using assms by (cases v; cases ty) (auto simp: fits_def)

lemma sint_inj [simp]: "sint (a::'a::len word) = sint b \<longleftrightarrow> a = b"
  by (auto intro: signed_word_eqI)

lemma value_cmp_eq: "fits ty a \<Longrightarrow> fits ty b \<Longrightarrow> value_cmp a b = Equal \<longleftrightarrow> a = b"
  by (erule fits_cases; erule fits_cases) auto

lemma value_cmp_flip: "value_cmp b a = flip_ord (value_cmp a b)"
  by (cases a; cases b) (auto simp: cmp_lin_def total_cmp_def)

lemma value_cmp_less_trans:
  "fits ty a \<Longrightarrow> fits ty b \<Longrightarrow> fits ty c \<Longrightarrow> value_cmp a b = Less \<Longrightarrow> value_cmp b c = Less \<Longrightarrow>
   value_cmp a c = Less"
  by (erule fits_cases; erule fits_cases; erule fits_cases) (auto intro: total_cmp_trans)

interpretation value_order: cmp_order value_cmp "fits ty" for ty
  by unfold_locales (auto simp: value_cmp_eq intro: value_cmp_flip value_cmp_less_trans)

lemma value_cmp_null_least [simp]:
  "value_cmp VNull v \<noteq> Greater" "v \<noteq> VNull \<Longrightarrow> value_cmp VNull v = Less"
  by (cases v; simp)+


lemma f64_of_int_min_max:
  "f64_of_int i64_min = F64 0xC3E0000000000000" "f64_of_int i64_max = F64 0x43E0000000000000"
  by (simp_all add: f64_of_int_def f64_round_def round_at_def round_pack_def round_sig_def
    round_shift_def f64_of_mag_def i64_min_def i64_max_def bit_length.simps)

lemma i64_as_f64_integral:
  assumes "\<bar>sint i\<bar> < 2 ^ 53"
  shows "integral_i64 (i64_as_f64 i)"
proof -
  define f where "f = i64_as_f64 i"
  have fin: "is_finite f" "\<not> is_nan f" and z: "fract_is_zero f"
    using f64_of_int_exact [OF assms] by (simp_all add: f_def i64_as_f64_def is_finite_def is_nan_def)
  have "\<bar>num_key f\<bar> < 0x43E0000000000000"
  proof (cases "sint i = 0")
    case True
    then show ?thesis
      by (simp add: f_def i64_as_f64_def f64_of_int_def f64_round_def num_key_def f64_nat_of_mag f64_sign_def)
  next
    case False
    with assms obtain n r where n: "0 < n" "n \<le> 53" "r < 2 ^ 52"
      and e: "f = f64_of_mag (sint i < 0) ((n + 1022) * 2 ^ 52 + r)"
      unfolding f_def i64_as_f64_def by (metis f64_of_int_form)
    have lt: "(n + 1022) * 2 ^ 52 + r < 2 ^ 63" using n by simp
    have "f64_nat f mod 2 ^ 63 = (n + 1022) * 2 ^ 52 + r"
      using lt unfolding e f64_nat_of_mag [OF lt] by (cases "sint i < 0") (simp_all only: if_True if_False mod_add_self2 mod_less add_0_right)
    then show ?thesis using n by (simp add: num_key_def Let_def)
  qed
  moreover have "num_key (F64 0xC3E0000000000000) = - 0x43E0000000000000"
      "num_key (F64 0x43E0000000000000) = 0x43E0000000000000"
      "\<not> is_nan (F64 0xC3E0000000000000)" "\<not> is_nan (F64 0x43E0000000000000)"
    by (simp_all add: num_key_def is_nan_def f64_nat_def f64_sign_def f64_exp_def f64_frac_def)
  ultimately show ?thesis
    using fin z by (auto simp: integral_i64_def f64_of_int_min_max f64_le_def simp flip: f_def)
qed

lemma sint_i64_range: "i64_min \<le> sint (v::i64)" "sint v \<le> i64_max"
  using sint_range_size [of v] by (simp_all add: word_size i64_min_def i64_max_def)

lemma sint_of_i64_range: "i64_min \<le> k \<Longrightarrow> k \<le> i64_max \<Longrightarrow> sint (word_of_int k :: i64) = k"
  by (simp add: i64_min_def i64_max_def int_word_sint)

lemma ucast_scast_i32: "(ucast (scast (d :: i32) :: i64) :: i32) = d"
  by (rule bit_word_eqI) (auto simp: bit_simps)

lemma sint_uminus_i64: "v \<noteq> word_of_int i64_min \<Longrightarrow> sint (- v :: i64) = - sint v"
proof -
  assume "v \<noteq> word_of_int i64_min"
  then have "sint v \<noteq> i64_min"
    by (metis sint_of_i64_range sint_inj sint_i64_range(2) order_refl)
  then have "i64_min \<le> - sint v" "- sint v \<le> i64_max"
    using sint_i64_range [of v] by (auto simp: i64_min_def i64_max_def)
  then have "sint (word_of_int (- sint v) :: i64) = - sint v" by (rule sint_of_i64_range)
  then show ?thesis by simp
qed

lemma normalize_epoch_exact_aux:
  assumes "v \<noteq> word_of_int i64_min"
  shows "sint (normalize_epoch_to_micros v) =
    (if \<bar>sint v\<bar> < 100000000000 then sint v * 1000000
     else if \<bar>sint v\<bar> < 100000000000000 then sint v * 1000 else sint v)"
proof -
  have a: "sint (wrapping_abs v) = \<bar>sint v\<bar>"
    using sint_uminus_i64 [OF assms] by (simp add: wrapping_abs_def)
  have m: "sint (saturating_mul v k) = sint v * k" if "\<bar>sint v * k\<bar> \<le> 10 ^ 17" for k
    using that sint_of_i64_range [of "sint v * k"]
    by (simp add: saturating_mul_def i64_min_def i64_max_def abs_le_iff)
  show ?thesis
    by (simp add: normalize_epoch_to_micros_def a m abs_mult)
qed

lemma from_json_fits: "from_json L j ty = Inr v \<Longrightarrow> fits ty v \<and> (v = VNull \<longleftrightarrow> j = JNull)"
  by (cases "(L, j, ty)" rule: from_json.cases) (auto simp: fits_def result_simps split: if_splits)

section \<open>Properties\<close>

text \<open>
  Remark: the comparison of \<open>Value\<close> is a total order on the values of one column, NULL first and
  NaN included; so statistics, sorts and group keys are well defined there.
\<close>

theorem value_cmp_total_order:
  assumes "fits ty a" "fits ty b" "fits ty c"
  shows "(value_eq a b \<longleftrightarrow> a = b) \<and> value_cmp b a = flip_ord (value_cmp a b) \<and>
    (value_cmp a b \<noteq> Greater \<longrightarrow> value_cmp b c \<noteq> Greater \<longrightarrow> value_cmp a c \<noteq> Greater) \<and>
    (a \<noteq> VNull \<longrightarrow> value_cmp VNull a = Less)"
proof (intro conjI impI)
  show "value_eq a b \<longleftrightarrow> a = b"
    using value_order.cmp_eq [OF assms(1,2)] by (simp add: value_eq_def)
  show "value_cmp b a = flip_ord (value_cmp a b)"
    by (rule value_order.cmp_sym [OF assms(1,2)])
  show "value_cmp a c \<noteq> Greater" if "value_cmp a b \<noteq> Greater" "value_cmp b c \<noteq> Greater"
    using assms that by (rule value_order.le_trans)
  show "value_cmp VNull a = Less" if "a \<noteq> VNull"
    using that by simp
qed

theorem value_cmp_total_order_witness:
  "value_cmp (VFloat (F64 0x3FF8000000000000)) (VFloat (F64 0x7FF8000000000000)) \<noteq> Greater"
proof -
  let ?a = "VFloat (F64 0x3FF8000000000000)" and ?b = "VFloat (F64 0x7FF8000000000000)"
  have "fits DFloat64 ?a" "fits DFloat64 VNull" "fits DFloat64 ?b" by (simp_all add: fits_def)
  from value_cmp_total_order [OF this(1,3,2)] have "value_cmp ?b ?a = flip_ord (value_cmp ?a ?b)"
    by simp
  moreover have "value_cmp ?b ?a = Greater" by (simp add: total_cmp_def total_key_def)
  ultimately show ?thesis by (cases "value_cmp ?a ?b") auto
qed

text \<open>
  Remark: across columns of different types equality is not transitive: two distinct integers equal
  the same float, and they hash differently although each compares equal to it.
\<close>

theorem value_eq_not_transitive:
  "value_eq (VInt 9007199254740993) (VFloat (F64 0x4340000000000000)) \<and>
   value_eq (VFloat (F64 0x4340000000000000)) (VInt 9007199254740992) \<and>
   \<not> value_eq (VInt 9007199254740993) (VInt 9007199254740992) \<and>
   hash_input (VInt 9007199254740993) \<noteq> hash_input (VFloat (F64 0x4340000000000000))"
proof -
  have i: "i64_as_f64 9007199254740993 = F64 0x4340000000000000"
      "i64_as_f64 9007199254740992 = F64 0x4340000000000000"
    by (simp_all add: f64_eval_defs bit_length.simps)
  have "integral_i64 (F64 0x4340000000000000)"
    by (simp add: integral_i64_def f64_eval_defs bit_length.simps)
  moreover have "f64_as_i64 (F64 0x4340000000000000) = 9007199254740992"
    by (simp add: f64_eval_defs)
  ultimately show ?thesis by (simp add: value_eq_def i)
qed

text \<open>
  Remark: an integer of magnitude below \<open>2 ^ 53\<close> that compares equal to a float hashes like it, as
  \<open>Hash\<close> must agree with \<open>Eq\<close>.
\<close>

theorem int_float_hash_agree:
  assumes "value_eq (VInt i) (VFloat f)" and "\<bar>sint i\<bar> < 2 ^ 53"
  shows "hash_input (VInt i) = hash_input (VFloat f)"
proof -
  have f: "f = i64_as_f64 i" using assms(1) by (simp add: value_eq_def)
  have "integral_i64 f"
    unfolding f by (rule i64_as_f64_integral [OF assms(2)])
  with f64_as_i64_of_int [OF assms(2)] show ?thesis by (simp add: f)
qed

theorem int_float_hash_agree_witness:
  "hash_input (VInt 2) = hash_input (VFloat (F64 0x4000000000000000))"
  by (rule int_float_hash_agree) (simp_all add: value_eq_def f64_eval_defs bit_length.simps)


text \<open>
  Remark: a value that \<open>from_json\<close> accepts fits the declared type, and is NULL exactly for JSON
  null: type errors never reach a column.
\<close>

theorem from_json_typed:
  assumes "from_json L j ty = Inr v"
  shows "fits ty v \<and> (v = VNull \<longleftrightarrow> j = JNull)"
  using assms by (rule from_json_fits)

definition demo_lib :: ext_lib where
  "demo_lib = \<lparr>parse_rfc3339 = (\<lambda>s. if s = ''t'' then Some (5000000, 719163) else None),
     parse_datetime = (\<lambda>_ _. None),
     parse_naive_date = (\<lambda>_ s. if s = ''d'' then Some (0, 719170) else None),
     uuid_ok = (\<lambda>s. s = ''u''), json_text = (\<lambda>_. ''{}''),
     render_micros = (\<lambda>v. if v = 5000000 then Some ''t'' else None),
     render_ce_days = (\<lambda>d. if d = 719170 then Some ''d'' else None)\<rparr>"

theorem from_json_typed_witness: "fits DTimestamp (VTimestamp 7000000)"
  by (rule from_json_typed [of demo_lib "JNumber (JNum (Some 7) (Some (F64 0x401C000000000000)))",
        THEN conjunct1]) (simp add: normalize_epoch_to_micros_def wrapping_abs_def saturating_mul_def i64_min_def
      i64_max_def Let_def)

text \<open>
  Remark: rendering a stored value as JSON and reading it back gives the value, for every type but
  \<open>json\<close> (whose text is quoted on the way out), given that chrono reads what it prints and
  declines to print only instants outside its range.
\<close>

theorem json_roundtrip:
  assumes "conforms ty v" and "ty \<noteq> DJson"
    and "\<And>f. v = VFloat f \<Longrightarrow> is_finite f"
    and "\<And>s. v = VStr s \<Longrightarrow> ty = DUuid \<Longrightarrow> uuid_ok L s"
    and micros: "\<And>us s. render_micros L us = Some s \<Longrightarrow> \<exists>d. parse_rfc3339 L s = Some (us, d)"
    and micros_range: "\<And>us. v = VTimestamp us \<Longrightarrow> render_micros L us = None \<Longrightarrow>
      100000000000000 \<le> sint (wrapping_abs us)"
    and days: "\<And>d s. render_ce_days L d = Some s \<Longrightarrow>
      \<exists>us. parse_naive_date L ''%Y-%m-%d'' s = Some (us, d)"
  shows "from_json L (to_json L v) ty = Inr v"
proof (cases v)
  case (VTimestamp us)
  then have ty: "ty = DTimestamp" using assms(1) by (cases ty) auto
  show ?thesis
  proof (cases "render_micros L us")
    case None
    then show ?thesis
      using VTimestamp ty micros_range
      by (auto simp: json_of_i64_def normalize_epoch_to_micros_def Let_def)
  next
    case (Some s)
    with micros obtain d where "parse_rfc3339 L s = Some (us, d)" by blast
    then show ?thesis using VTimestamp ty Some by (simp add: parse_timestamp_micros_def)
  qed
next
  case (VDate d)
  then have ty: "ty = DDate" using assms(1) by (cases ty) auto
  show ?thesis
  proof (cases "render_ce_days L (d + unix_epoch_ce_days)")
    case None
    then show ?thesis using VDate ty by (simp add: json_of_i64_def ucast_scast_i32)
  next
    case (Some s)
    with days obtain us where "parse_naive_date L ''%Y-%m-%d'' s = Some (us, d + unix_epoch_ce_days)"
      by blast
    then show ?thesis using VDate ty Some by (simp add: parse_date_days_def)
  qed
qed (use assms(1-4) in \<open>cases ty; auto simp: json_of_i64_def\<close>)+

theorem json_roundtrip_witness:
  "from_json demo_lib (to_json demo_lib (VTimestamp 5000000)) DTimestamp = Inr (VTimestamp 5000000)"
  by (rule json_roundtrip) (auto simp: demo_lib_def unix_epoch_ce_days_def split: if_splits)

text \<open>
  Remark: unit guessing for integer timestamps never saturates: seconds below \<open>10 ^ 11\<close> in magnitude
  scale by exactly \<open>10 ^ 6\<close>, milliseconds below \<open>10 ^ 14\<close> by exactly \<open>10 ^ 3\<close>, and larger values
  are taken as microseconds.
\<close>

theorem normalize_epoch_exact:
  assumes "v \<noteq> word_of_int i64_min"
  shows "sint (normalize_epoch_to_micros v) =
    (if \<bar>sint v\<bar> < 100000000000 then sint v * 1000000
     else if \<bar>sint v\<bar> < 100000000000000 then sint v * 1000 else sint v)"
  using assms normalize_epoch_exact_aux by blast

theorem normalize_epoch_exact_witness:
  "sint (normalize_epoch_to_micros 1767225600) = 1767225600000000"
  using normalize_epoch_exact [of 1767225600] by (simp add: i64_min_def)

text \<open>
  Remark: a JSON number given for a \<open>date\<close> column is narrowed to 32 bits without a range check, so a
  day number outside the \<open>i32\<close> range is accepted and stored as a different day.
\<close>

theorem from_json_date_wraps:
  "from_json L (JNumber (JNum (Some 4294967296) f)) DDate = Inr (VDate 0)"
  by simp

end
