(* ===== verification/Ids.thy ===== *)
theory Ids
  imports Errors "HOL-Library.Sublist"
begin

text \<open>
  \<open>crates/adb-core/src/ids.rs\<close> and \<open>crates/adb-storage/src/paths.rs\<close>: the identifiers that
  become path components, and the storage keys built from them. An identifier type is the
  string it wraps; \<open>new_ident\<close> is its only constructor (deserialization included), so
  \<open>ident_ok\<close> is the invariant of every value of such a type.
\<close>

section \<open>Identifiers\<close>

definition max_ident_len :: nat where
  "max_ident_len = 64"

definition is_ascii_lowercase :: "char \<Rightarrow> bool" where
  "is_ascii_lowercase c \<longleftrightarrow> CHR ''a'' \<le> c \<and> c \<le> CHR ''z''"

definition is_ascii_digit :: "char \<Rightarrow> bool" where
  "is_ascii_digit c \<longleftrightarrow> CHR ''0'' \<le> c \<and> c \<le> CHR ''9''"

definition ident_char :: "char \<Rightarrow> bool" where
  "ident_char c \<longleftrightarrow> is_ascii_lowercase c \<or> is_ascii_digit c \<or> c = CHR ''_'' \<or> c = CHR ''-''"

definition validate_ident :: "string \<Rightarrow> unit result" where
  "validate_ident v =
     (if v = [] then Inl InvalidIdentifier
      else if max_ident_len < length v then Inl InvalidIdentifier
      else if \<not> list_all ident_char v then Inl InvalidIdentifier
      else if \<not> is_ascii_lowercase (hd v) \<and> hd v \<noteq> CHR ''_'' then Inl InvalidIdentifier
      else Inr ())"

definition new_ident :: "string \<Rightarrow> string result" where
  "new_ident v = rbind (validate_ident v) (\<lambda>_. Inr v)"

definition ident_ok :: "string \<Rightarrow> bool" where
  "ident_ok v \<longleftrightarrow> validate_ident v = Inr ()"

section \<open>Splitting and joining\<close>

fun split_on :: "char \<Rightarrow> string \<Rightarrow> string list" where
  "split_on c [] = [[]]"
| "split_on c (x # xs) =
     (if x = c then [] # split_on c xs
      else (case split_on c xs of [] \<Rightarrow> [[x]] | p # ps \<Rightarrow> (x # p) # ps))"

fun join_with :: "string \<Rightarrow> string list \<Rightarrow> string" where
  "join_with sep [] = []"
| "join_with sep [p] = p"
| "join_with sep (p # q # ps) = p @ sep @ join_with sep (q # ps)"

section \<open>Keys\<close>

definition digit :: "nat \<Rightarrow> char" where
  "digit n = ''0123456789'' ! n"

fun show_nat :: "nat \<Rightarrow> string" where
  "show_nat n = (if n < 10 then [digit n] else show_nat (n div 10) @ [digit (n mod 10)])"

declare show_nat.simps [simp del]

definition pad8 :: "string \<Rightarrow> string" where
  "pad8 s = replicate (8 - length s) (CHR ''0'') @ s"

definition system_wal :: string where
  "system_wal = ''system/wal/current.log''"

definition tenant_prefix :: "string \<Rightarrow> string" where
  "tenant_prefix tenant = ''tenants/'' @ tenant"

definition database_prefix :: "string \<Rightarrow> string \<Rightarrow> string" where
  "database_prefix tenant db = ''tenants/'' @ tenant @ ''/databases/'' @ db"

definition table_prefix :: "string \<Rightarrow> string \<Rightarrow> string \<Rightarrow> string" where
  "table_prefix tenant db table = database_prefix tenant db @ ''/tables/'' @ table"

definition partition_prefix :: "string \<Rightarrow> string \<Rightarrow> string \<Rightarrow> nat \<Rightarrow> string" where
  "partition_prefix tenant db table part =
     table_prefix tenant db table @ ''/p'' @ show_nat part"

definition manifest_key :: "string \<Rightarrow> string \<Rightarrow> string \<Rightarrow> nat \<Rightarrow> string" where
  "manifest_key tenant db table part =
     partition_prefix tenant db table part @ ''/manifest.json''"

definition wal_key :: "string \<Rightarrow> string \<Rightarrow> string \<Rightarrow> nat \<Rightarrow> string" where
  "wal_key tenant db table part =
     partition_prefix tenant db table part @ ''/wal/current.log''"

definition segment_key :: "string \<Rightarrow> string \<Rightarrow> string \<Rightarrow> nat \<Rightarrow> nat \<Rightarrow> string" where
  "segment_key tenant db table part segment_id =
     partition_prefix tenant db table part @ ''/segments/seg-'' @ pad8 (show_nat segment_id)
       @ ''.parquet''"

section \<open>Lemmas\<close>

lemma ident_ok_iff:
  "ident_ok v \<longleftrightarrow> v \<noteq> [] \<and> length v \<le> max_ident_len \<and> list_all ident_char v \<and>
     (is_ascii_lowercase (hd v) \<or> hd v = CHR ''_'')"
  by (auto simp: ident_ok_def validate_ident_def)

lemma new_ident_Inr_iff [result_simps]: "new_ident v = Inr w \<longleftrightarrow> w = v \<and> ident_ok v"
  by (auto simp: new_ident_def ident_ok_def result_simps)

lemma ident_char_plain: "ident_char c \<Longrightarrow> c \<noteq> CHR ''/'' \<and> c \<noteq> CHR ''.''"
  by (auto simp: ident_char_def is_ascii_lowercase_def is_ascii_digit_def less_eq_char_def)

lemma ident_ok_no_slash: "ident_ok v \<Longrightarrow> CHR ''/'' \<notin> set v"
  by (auto simp: ident_ok_iff list_all_iff dest: ident_char_plain)

lemma ident_ok_no_dot: "ident_ok v \<Longrightarrow> CHR ''.'' \<notin> set v"
  by (auto simp: ident_ok_iff list_all_iff dest: ident_char_plain)

lemma split_on_nonempty [simp]: "split_on c s \<noteq> []"
  by (cases s) (auto split: list.splits)

lemma split_on_no_sep: "c \<notin> set s \<Longrightarrow> split_on c s = [s]"
  by (induction s) auto

lemma split_on_append: "c \<notin> set p \<Longrightarrow> split_on c (p @ c # s) = p # split_on c s"
  by (induction p) auto

lemma split_on_join:
  "ps \<noteq> [] \<Longrightarrow> \<forall>p \<in> set ps. c \<notin> set p \<Longrightarrow> split_on c (join_with [c] ps) = ps"
  by (induction "[c]" ps rule: join_with.induct) (auto simp: split_on_no_sep split_on_append)

lemma digit_set: "n < 10 \<Longrightarrow> digit n \<in> set ''0123456789''"
  unfolding digit_def by (rule nth_mem) simp

lemma set_show_nat: "set (show_nat n) \<subseteq> set ''0123456789''"
proof (induction n rule: show_nat.induct)
  case (1 n)
  have m: "digit (n mod 10) \<in> set ''0123456789''" by (rule digit_set) simp
  show ?case
  proof (cases "n < 10")
    case True
    then show ?thesis using digit_set [OF True] by (simp add: show_nat.simps [of n])
  next
    case False
    then show ?thesis using 1 m by (simp add: show_nat.simps [of n])
  qed
qed

lemma show_nat_no_slash: "CHR ''/'' \<notin> set (show_nat n)" "CHR ''.'' \<notin> set (show_nat n)"
  using set_show_nat [of n] by auto

definition digit_value :: "char \<Rightarrow> nat" where
  "digit_value c = of_char c - 48"

definition nat_value :: "string \<Rightarrow> nat" where
  "nat_value s = foldl (\<lambda>a c. 10 * a + digit_value c) 0 s"

lemma digit_value_digit [simp]:
  assumes "n < 10"
  shows "digit_value (digit n) = n"
proof -
  have "n \<in> {0, 1, 2, 3, 4, 5, 6, 7, 8, 9}" using assms by auto
  then show ?thesis by (auto simp: digit_value_def digit_def)
qed

lemma nat_value_snoc [simp]: "nat_value (s @ [c]) = 10 * nat_value s + digit_value c"
  by (simp add: nat_value_def)

lemma nat_value_show_nat [simp]: "nat_value (show_nat n) = n"
proof (induction n rule: show_nat.induct)
  case (1 n)
  show ?case
  proof (cases "n < 10")
    case True
    then show ?thesis using nat_value_snoc [of "[]" "digit n"]
      by (simp add: show_nat.simps [of n] nat_value_def)
  next
    case False
    then show ?thesis using 1 by (simp add: show_nat.simps [of n])
  qed
qed

lemma show_nat_inj [simp]: "show_nat a = show_nat b \<longleftrightarrow> a = b"
  by (metis nat_value_show_nat)

lemma nat_value_replicate_zero: "nat_value (replicate k (CHR ''0'') @ s) = nat_value s"
proof -
  have z: "foldl (\<lambda>a c. 10 * a + digit_value c) 0 (replicate k (CHR ''0'')) = 0"
    by (induction k) (auto simp: digit_value_def)
  show ?thesis by (simp add: nat_value_def z)
qed

lemma pad8_inj [simp]: "pad8 (show_nat a) = pad8 (show_nat b) \<longleftrightarrow> a = b"
  by (metis nat_value_replicate_zero nat_value_show_nat pad8_def)

text \<open>The keys of the program, as the list of their components.\<close>

definition key_parts :: "string \<Rightarrow> string \<Rightarrow> string \<Rightarrow> string list" where
  "key_parts tenant db table = [''tenants'', tenant, ''databases'', db, ''tables'', table]"

lemmas key_defs = table_prefix_def database_prefix_def partition_prefix_def manifest_key_def
  wal_key_def segment_key_def tenant_prefix_def

lemma key_joins:
  "tenant_prefix t = join_with ''/'' [''tenants'', t]"
  "database_prefix t d = join_with ''/'' [''tenants'', t, ''databases'', d]"
  "table_prefix t d n = join_with ''/'' (key_parts t d n)"
  "partition_prefix t d n p = join_with ''/'' (key_parts t d n @ [''p'' @ show_nat p])"
  "manifest_key t d n p = join_with ''/'' (key_parts t d n @ [''p'' @ show_nat p, ''manifest.json''])"
  "wal_key t d n p =
     join_with ''/'' (key_parts t d n @ [''p'' @ show_nat p, ''wal'', ''current.log''])"
  "segment_key t d n p i = join_with ''/'' (key_parts t d n @
     [''p'' @ show_nat p, ''segments'', ''seg-'' @ pad8 (show_nat i) @ ''.parquet''])"
  by (simp_all add: key_defs key_parts_def)

lemma set_pad8: "c \<in> set (pad8 s) \<Longrightarrow> c = CHR ''0'' \<or> c \<in> set s"
  by (auto simp: pad8_def)

lemma pad8_no_slash: "CHR ''/'' \<notin> set (pad8 (show_nat i))"
  using show_nat_no_slash set_pad8 by fastforce

lemma split_key:
  assumes "ident_ok t" "ident_ok d" "ident_ok n"
  shows "split_on CHR ''/'' (tenant_prefix t) = [''tenants'', t]"
    and "split_on CHR ''/'' (database_prefix t d) = [''tenants'', t, ''databases'', d]"
    and "split_on CHR ''/'' (table_prefix t d n) = key_parts t d n"
    and "split_on CHR ''/'' (partition_prefix t d n p) = key_parts t d n @ [''p'' @ show_nat p]"
    and "split_on CHR ''/'' (manifest_key t d n p) =
      key_parts t d n @ [''p'' @ show_nat p, ''manifest.json'']"
    and "split_on CHR ''/'' (wal_key t d n p) =
      key_parts t d n @ [''p'' @ show_nat p, ''wal'', ''current.log'']"
    and "split_on CHR ''/'' (segment_key t d n p i) = key_parts t d n @
      [''p'' @ show_nat p, ''segments'', ''seg-'' @ pad8 (show_nat i) @ ''.parquet'']"
  using assms [THEN ident_ok_no_slash] show_nat_no_slash pad8_no_slash
  unfolding key_joins by (subst split_on_join; force simp: key_parts_def)+

text \<open>
  \<open>under p k\<close>: the key \<open>k\<close> is the object \<open>p\<close> or lies in the directory \<open>p\<close>, which is what
  \<open>delete_prefix\<close> and \<open>list\<close> act on.
\<close>

definition under :: "string \<Rightarrow> string \<Rightarrow> bool" where
  "under p k \<longleftrightarrow> k = p \<or> prefix (p @ ''/'') k"

lemma split_on_append_gen: "split_on c (s @ c # r) = split_on c s @ split_on c r"
  by (induction s) (auto split: list.splits)

lemma under_split: "under p k \<Longrightarrow> prefix (split_on CHR ''/'' p) (split_on CHR ''/'' k)"
  using split_on_append_gen [of "CHR ''/''" p] by (auto simp: under_def prefix_def)

lemma nat_value_lt: "set s \<subseteq> set ''0123456789'' \<Longrightarrow> nat_value s < 10 ^ length s"
proof (induction s rule: rev_induct)
  case Nil
  then show ?case by (simp add: nat_value_def)
next
  case (snoc c s)
  then have "digit_value c \<le> 9" by (auto simp: digit_value_def)
  with snoc show ?case by simp
qed

lemma nat_value_Cons: "nat_value (c # s) = digit_value c * 10 ^ length s + nat_value s"
proof (induction s rule: rev_induct)
  case Nil
  then show ?case by (simp add: nat_value_def)
next
  case (snoc x s)
  have "nat_value (c # s @ [x]) = 10 * nat_value (c # s) + digit_value x"
    using nat_value_snoc [of "c # s" x] by simp
  with snoc show ?case by (simp add: algebra_simps)
qed

lemma digits_less:
  assumes "length s = length t" "set s \<subseteq> set ''0123456789''" "set t \<subseteq> set ''0123456789''"
    and "nat_value s < nat_value t"
  shows "s @ u < t @ v"
  using assms
proof (induction s t rule: list_induct2)
  case Nil
  then show ?case by (simp add: nat_value_def)
next
  case (Cons a s b t)
  have s: "nat_value s < 10 ^ length t" "nat_value t < 10 ^ length t"
    using Cons.prems Cons.hyps nat_value_lt [of s] nat_value_lt [of t] by auto
  have dv: "x \<in> set ''0123456789'' \<Longrightarrow> y \<in> set ''0123456789'' \<Longrightarrow>
      x = y \<or> x < y \<or> digit_value y + 1 \<le> digit_value x" for x y
    by (auto simp: digit_value_def)
  have "\<not> digit_value b + 1 \<le> digit_value a"
  proof
    assume "digit_value b + 1 \<le> digit_value a"
    then have "(digit_value b + 1) * 10 ^ length t \<le> digit_value a * 10 ^ length t"
      by (rule mult_le_mono1)
    then show False using Cons.prems(3) Cons.hyps s by (simp add: nat_value_Cons)
  qed
  with dv [of a b] Cons.prems(1,2) have ab: "a = b \<or> a < b" by simp
  show ?case
  proof (cases "a = b")
    case True
    then have "nat_value s < nat_value t"
      using Cons.prems(3) Cons.hyps by (simp add: nat_value_Cons)
    then show ?thesis using Cons.IH Cons.prems(1,2) True by simp
  qed (use ab in simp)
qed

lemma length_show_nat: "n < 10 ^ k \<Longrightarrow> 0 < k \<Longrightarrow> length (show_nat n) \<le> k"
proof (induction n arbitrary: k rule: show_nat.induct)
  case (1 n)
  show ?case
  proof (cases "n < 10")
    case True
    then show ?thesis using 1 by (simp add: show_nat.simps [of n])
  next
    case False
    then obtain j where k: "k = Suc j" "0 < j"
      using 1 by (cases k; cases "k - 1") auto
    then have "n div 10 < 10 ^ j" using 1 by auto
    then show ?thesis using 1 False k by (simp add: show_nat.simps [of n])
  qed
qed

lemma storage_prefix_iff:
  assumes "ident_ok t" "ident_ok d" "ident_ok n" "ident_ok t'" "ident_ok d'" "ident_ok n'"
    and "k \<in> {manifest_key t d n p, wal_key t d n p, segment_key t d n p i}"
  shows "(under (table_prefix t' d' n') k \<longleftrightarrow> t' = t \<and> d' = d \<and> n' = n) \<and>
    (under (database_prefix t' d') k \<longleftrightarrow> t' = t \<and> d' = d) \<and>
    (under (tenant_prefix t') k \<longleftrightarrow> t' = t)"
proof -
  note own = split_key [OF assms(1-3)] and other = split_key [OF assms(4-6)]
  obtain rest where rest: "split_on CHR ''/'' k = key_parts t d n @ rest"
    using assms(7) own by auto
  have self: "under (table_prefix t d n) k" "under (database_prefix t d) k" "under (tenant_prefix t) k"
    using assms(7) by (auto simp: under_def key_defs)
  have "prefix (key_parts t' d' n') (key_parts t d n @ rest)" if "under (table_prefix t' d' n') k"
    using under_split [OF that] rest other(3) by simp
  moreover have "prefix [''tenants'', t', ''databases'', d'] (key_parts t d n @ rest)"
    if "under (database_prefix t' d') k"
    using under_split [OF that] rest other(2) by simp
  moreover have "prefix [''tenants'', t'] (key_parts t d n @ rest)" if "under (tenant_prefix t') k"
    using under_split [OF that] rest other(1) by simp
  ultimately show ?thesis using self unfolding key_parts_def by auto
qed

section \<open>Properties\<close>

text \<open>
  Remark: a string accepted as an identifier is non-empty, at most 64 bytes, starts with a lowercase
  letter or an underscore and contains neither a path separator nor a dot, so it is one plain
  path component.
\<close>

theorem ident_is_path_component:
  assumes "new_ident v = Inr w"
  shows "w = v \<and> v \<noteq> [] \<and> length v \<le> 64 \<and> CHR ''/'' \<notin> set v \<and> CHR ''.'' \<notin> set v \<and>
    (is_ascii_lowercase (hd v) \<or> hd v = CHR ''_'')"
  using assms ident_ok_no_slash [of v] ident_ok_no_dot [of v]
  by (auto simp: result_simps ident_ok_iff max_ident_len_def)

theorem ident_is_path_component_witness: "CHR ''/'' \<notin> set ''order_items''"
  using ident_is_path_component [of "''order_items''" "''order_items''"]
  by (simp add: result_simps ident_ok_iff max_ident_len_def ident_char_def is_ascii_lowercase_def)

text \<open>
  Remark: tenancy selects disjoint storage: every object key of one table (manifest, log, segment)
  lies under the prefix of another table, database or tenant only if that is its own, so dropping
  or listing one tenant's prefix never touches another tenant's objects.
\<close>

theorem storage_prefixes_disjoint:
  assumes "ident_ok t" "ident_ok d" "ident_ok n" "ident_ok t'" "ident_ok d'" "ident_ok n'"
    and "k \<in> {manifest_key t d n p, wal_key t d n p, segment_key t d n p i}"
  shows "(under (table_prefix t' d' n') k \<longleftrightarrow> t' = t \<and> d' = d \<and> n' = n) \<and>
    (under (database_prefix t' d') k \<longleftrightarrow> t' = t \<and> d' = d) \<and>
    (under (tenant_prefix t') k \<longleftrightarrow> t' = t)"
  using assms by (rule storage_prefix_iff)

theorem storage_prefixes_disjoint_witness:
  "\<not> under (tenant_prefix ''acme'') (manifest_key ''acme2'' ''crm'' ''orders'' 0)"
proof -
  have "ident_ok ''acme2''" "ident_ok ''crm''" "ident_ok ''orders''" "ident_ok ''acme''"
    by (simp_all add: ident_ok_iff max_ident_len_def ident_char_def is_ascii_lowercase_def
      is_ascii_digit_def)
  from storage_prefixes_disjoint [OF this(1-4) this(2,3), of "manifest_key ''acme2'' ''crm'' ''orders'' 0" 0 0]
  show ?thesis by simp
qed

text \<open>
  Remark: segment keys are injective in the partition and the segment number, and as long as the
  number has at most eight digits their lexical order is the numeric order of the segments.
\<close>

theorem segment_keys_ordered:
  assumes "a < b" and "b < 100000000"
  shows "segment_key t d n p a < segment_key t d n p b"
proof -
  have len: "length (show_nat a) \<le> 8" "length (show_nat b) \<le> 8"
    using assms length_show_nat [of a 8] length_show_nat [of b 8] by auto
  have set: "set (pad8 (show_nat m)) \<subseteq> set ''0123456789''" for m
    using set_show_nat [of m] set_pad8 [of _ "show_nat m"] by fastforce
  have "pad8 (show_nat a) @ ''.parquet'' < pad8 (show_nat b) @ ''.parquet''"
    by (rule digits_less)
      (use len set assms in \<open>auto simp: pad8_def nat_value_replicate_zero simp del: set_simps\<close>)
  then show ?thesis
    by (simp add: segment_key_def list_less_append_left)
qed

theorem segment_keys_ordered_witness:
  "segment_key ''t'' ''d'' ''x'' 0 9 < segment_key ''t'' ''d'' ''x'' 0 10"
  by (rule segment_keys_ordered) simp_all

text \<open>
  Remark: past eight digits the padding no longer keeps the order: segment 100000000 sorts before
  segment 99999999, whatever the table.
\<close>

theorem segment_keys_unordered_past_padding:
  "segment_key t d n p 100000000 < segment_key t d n p 99999999"
proof -
  have "show_nat 100000000 = ''100000000''" and "show_nat 99999999 = ''99999999''"
    by (simp_all add: show_nat.simps digit_def)
  then have "pad8 (show_nat 100000000) @ ''.parquet'' < pad8 (show_nat 99999999) @ ''.parquet''"
    by (simp add: pad8_def)
  then show ?thesis by (simp add: segment_key_def list_less_append_left)
qed

end
