(* ===== verification/Bytes.thy ===== *)
theory Bytes
  imports Prelude
begin

text \<open>
  Bytes of the standard library: \<open>str::as_bytes\<close>, and the little-endian images of the machine
  integers (\<open>to_le_bytes\<close>, \<open>from_le_bytes\<close>) used by the log frames, the canonical encoding of
  values and the wire form of filters.
\<close>

unbundle bit_operations_syntax

type_synonym bytes = "u8 list"

definition as_bytes :: "string \<Rightarrow> u8 list" where
  "as_bytes s = map (\<lambda>c. word_of_nat (of_char c)) s"

definition le_bytes :: "'a::len word \<Rightarrow> bytes" where
  "le_bytes w = map (\<lambda>k. ucast (drop_bit (8 * k) w)) [0..<LENGTH('a) div 8]"

definition le_word :: "bytes \<Rightarrow> 'a::len word" where
  "le_word bs = foldr (\<lambda>b w. push_bit 8 w OR ucast b) bs 0"

lemma as_bytes_inj [simp]: "as_bytes a = as_bytes b \<longleftrightarrow> a = b"
proof -
  have "inj (\<lambda>c. word_of_nat (of_char c) :: u8)"
  proof (rule injI)
    fix c d assume "(word_of_nat (of_char c) :: u8) = word_of_nat (of_char d)"
    then have "unat (word_of_nat (of_char c) :: u8) = unat (word_of_nat (of_char d) :: u8)" by simp
    then have "(of_char c :: nat) mod 256 = of_char d mod 256" by (simp add: unat_of_nat)
    then show "c = d" by (simp add: of_char_mod_256)
  qed
  then show ?thesis by (simp add: as_bytes_def inj_map_eq_map)
qed

lemma length_as_bytes [simp]: "length (as_bytes s) = length s"
  by (simp add: as_bytes_def)

lemma length_le_bytes [simp]: "length (le_bytes (w :: 'a::len word)) = LENGTH('a) div 8"
  by (simp add: le_bytes_def)

lemma bit_le_word:
  "bit (le_word bs :: 'a::len word) i \<longleftrightarrow>
     i < LENGTH('a) \<and> i div 8 < length bs \<and> bit (bs ! (i div 8)) (i mod 8)"
proof (induction bs arbitrary: i)
  case Nil
  then show ?case by (simp add: le_word_def)
next
  case (Cons b bs)
  have step: "le_word (b # bs) = (push_bit 8 (le_word bs) OR ucast b :: 'a word)"
    by (simp add: le_word_def)
  show ?case
  proof (cases "i < 8")
    case True
    then show ?thesis unfolding step by (auto simp: bit_simps dest: bit_imp_le_length)
  next
    case False
    then have "i div 8 = Suc ((i - 8) div 8)" "i mod 8 = (i - 8) mod 8"
      using le_div_geq [of 8 i] le_mod_geq [of 8 i] by simp_all
    moreover have "\<not> bit (ucast b :: 'a word) i"
      using False by (auto simp: bit_simps dest: bit_imp_le_length)
    ultimately show ?thesis
      unfolding step using False Cons.IH [of "i - 8"] by (auto simp: bit_simps)
  qed
qed

lemma le_word_bytes:
  assumes "8 dvd LENGTH('a)"
  shows "le_word (le_bytes w) = (w :: 'a::len word)"
proof (rule bit_word_eqI)
  fix i assume i: "i < LENGTH('a)"
  then have "i div 8 < LENGTH('a) div 8" using assms by (auto elim!: dvdE simp: less_mult_imp_div_less)
  then show "bit (le_word (le_bytes w) :: 'a word) i = bit w i"
    using i by (auto simp: bit_le_word le_bytes_def bit_simps)
qed

lemma le_word_u32 [simp]: "le_word (le_bytes (w :: u32)) = w"
  by (rule le_word_bytes) simp

lemma le_word_u64 [simp]: "le_word (le_bytes (w :: u64)) = w"
  by (rule le_word_bytes) simp

lemma le_bytes_inj: "8 dvd LENGTH('a) \<Longrightarrow> le_bytes (a :: 'a::len word) = le_bytes b \<longleftrightarrow> a = b"
  by (metis le_word_bytes)

end
