(* ===== verification/ObjectStore.thy ===== *)
theory ObjectStore
  imports Ids Bytes "HOL-Library.AList"
begin

text \<open>
  \<open>crates/adb-storage/src/object_store.rs\<close>: key validation and the filesystem store.

  The directory tree below the store's root is a \<open>fs_store\<close>: the files (an association list
  from the relative path to the bytes), the directories, and the counter and the process id
  from which temporary names are made. System calls are the \<open>sys_\<close> functions, which fail the
  way the file system does when a component of a path is a file or a target is a directory.
  Device faults and symbolic links are not modelled; a crash is a prefix of the sequence of
  states an operation goes through (\<open>put_crash_states\<close>, \<open>put_atomic_crash_states\<close>).
\<close>

record fs_store =
  files :: "(string \<times> bytes) list"
  dirs :: "string list"
  counter :: nat
  pid :: nat

section \<open>Paths\<close>

definition validate_key :: "string \<Rightarrow> unit result" where
  "validate_key key =
     (if key = [] then Inl BadRequest
      else if hd key = CHR ''/'' \<or> last key = CHR ''/'' then Inl BadRequest
      else forM (\<lambda>part. guard (\<not> (part = [] \<or> part = ''.'' \<or> part = ''..'')) BadRequest)
             (split_on CHR ''/'' key))"

definition path_for :: "string \<Rightarrow> string result" where
  "path_for key = rbind (validate_key key) (\<lambda>_.
     if list_ex (\<lambda>c. c = ''..'') (split_on CHR ''/'' key) then Inl BadRequest else Inr key)"

definition ancestors :: "string \<Rightarrow> string list" where
  "ancestors key =
     (let parts = split_on CHR ''/'' key
      in map (\<lambda>n. join_with ''/'' (take n parts)) [1..<length parts])"

definition file_stem :: "string \<Rightarrow> string" where
  "file_stem name =
     (let rest = dropWhile (\<lambda>c. c \<noteq> CHR ''.'') (rev name)
      in if rest = [] \<or> tl rest = [] then name else rev (tl rest))"

definition with_extension :: "string \<Rightarrow> string \<Rightarrow> string" where
  "with_extension key ext =
     (let parts = split_on CHR ''/'' key
      in join_with ''/'' (butlast parts @ [file_stem (last parts) @ ''.'' @ ext]))"

definition temp_key :: "nat \<Rightarrow> nat \<Rightarrow> string \<Rightarrow> string" where
  "temp_key p seq key = with_extension key (''tmp'' @ show_nat p @ ''-'' @ show_nat seq)"

section \<open>System calls\<close>

definition is_file :: "fs_store \<Rightarrow> string \<Rightarrow> bool" where
  "is_file s p \<longleftrightarrow> map_of (files s) p \<noteq> None"

definition is_dir :: "fs_store \<Rightarrow> string \<Rightarrow> bool" where
  "is_dir s p \<longleftrightarrow> p \<in> set (dirs s)"

definition ensure_parent :: "fs_store \<Rightarrow> string \<Rightarrow> fs_store result" where
  "ensure_parent s p =
     (if list_ex (is_file s) (ancestors p) then Inl Storage
      else Inr (s\<lparr>dirs := filter (\<lambda>d. \<not> is_dir s d) (ancestors p) @ dirs s\<rparr>))"

definition sys_write :: "fs_store \<Rightarrow> string \<Rightarrow> bytes \<Rightarrow> fs_store" where
  "sys_write s p bs = s\<lparr>files := AList.update p bs (files s)\<rparr>"

definition sys_create :: "fs_store \<Rightarrow> string \<Rightarrow> fs_store result" where
  "sys_create s p = (if is_dir s p then Inl Storage else Inr (sys_write s p []))"

definition sys_remove :: "fs_store \<Rightarrow> string \<Rightarrow> fs_store" where
  "sys_remove s p = s\<lparr>files := AList.delete p (files s)\<rparr>"

definition sys_rename :: "fs_store \<Rightarrow> string \<Rightarrow> string \<Rightarrow> fs_store result" where
  "sys_rename s src dst =
     (case map_of (files s) src of
        None \<Rightarrow> Inl Storage
      | Some bs \<Rightarrow> if is_dir s dst then Inl Storage else Inr (sys_write (sys_remove s src) dst bs))"

section \<open>Operations\<close>

definition store_put :: "fs_store \<Rightarrow> string \<Rightarrow> bytes \<Rightarrow> fs_store result" where
  "store_put s key bs =
     rbind (path_for key) (\<lambda>p.
     rbind (ensure_parent s p) (\<lambda>s.
     rbind (sys_create s p) (\<lambda>s.
     Inr (sys_write s p bs))))"

definition store_put_atomic :: "fs_store \<Rightarrow> string \<Rightarrow> bytes \<Rightarrow> fs_store result" where
  "store_put_atomic s key bs =
     rbind (path_for key) (\<lambda>p.
     rbind (ensure_parent s p) (\<lambda>s.
     let tmp = temp_key (pid s) (counter s) p; s = s\<lparr>counter := Suc (counter s)\<rparr> in
     rbind (sys_create s tmp) (\<lambda>s.
     sys_rename (sys_write s tmp bs) tmp p)))"

definition store_get :: "fs_store \<Rightarrow> string \<Rightarrow> bytes result" where
  "store_get s key = rbind (path_for key) (\<lambda>p.
     case map_of (files s) p of
       Some bs \<Rightarrow> Inr bs
     | None \<Rightarrow> if is_dir s p \<or> list_ex (is_file s) (ancestors p) then Inl Storage
               else Inl (NotFound ''object''))"

definition store_exists :: "fs_store \<Rightarrow> string \<Rightarrow> bool result" where
  "store_exists s key = rbind (path_for key) (\<lambda>p. Inr (is_file s p \<or> is_dir s p))"

definition store_delete :: "fs_store \<Rightarrow> string \<Rightarrow> fs_store result" where
  "store_delete s key = rbind (path_for key) (\<lambda>p.
     if is_file s p then Inr (sys_remove s p)
     else if is_dir s p \<or> list_ex (is_file s) (ancestors p) then Inl Storage
     else Inr s)"

definition store_delete_prefix :: "fs_store \<Rightarrow> string \<Rightarrow> fs_store result" where
  "store_delete_prefix s pre = rbind (validate_key pre) (\<lambda>_.
     if is_dir s pre then
       Inr (s\<lparr>files := filter (\<lambda>(k, _). \<not> under pre k) (files s),
             dirs := filter (\<lambda>d. \<not> under pre d) (dirs s)\<rparr>)
     else if is_file s pre then Inr (sys_remove s pre)
     else Inr s)"

definition walk :: "fs_store \<Rightarrow> string \<Rightarrow> string list result" where
  "walk s dir =
     (if is_file s dir then Inl Storage
      else if \<not> is_dir s dir then Inr []
      else Inr (filter (under dir) (map fst (files s))))"

definition slashes :: "string \<Rightarrow> string" where
  "slashes = map (\<lambda>c. if c = CHR 0x5C then CHR ''/'' else c)"

definition store_list :: "fs_store \<Rightarrow> string \<Rightarrow> string list result" where
  "store_list s pre = rbind (validate_key pre) (\<lambda>_.
     rbind (walk s pre) (\<lambda>fs.
     Inr (sort (filter (\<lambda>k. \<not> sublist ''.tmp'' k) (map slashes fs)))))"

section \<open>Crash states\<close>

definition put_crash_states :: "fs_store \<Rightarrow> string \<Rightarrow> bytes \<Rightarrow> fs_store list" where
  "put_crash_states s key bs = s #
     (case path_for key of Inl _ \<Rightarrow> [] | Inr p \<Rightarrow>
      (case ensure_parent s p of Inl _ \<Rightarrow> [] | Inr s1 \<Rightarrow> s1 #
       (case sys_create s1 p of Inl _ \<Rightarrow> [] | Inr s2 \<Rightarrow>
          map (\<lambda>n. sys_write s2 p (take n bs)) [0..<Suc (length bs)])))"

definition put_atomic_crash_states :: "fs_store \<Rightarrow> string \<Rightarrow> bytes \<Rightarrow> fs_store list" where
  "put_atomic_crash_states s key bs = s #
     (case path_for key of Inl _ \<Rightarrow> [] | Inr p \<Rightarrow>
      (case ensure_parent s p of Inl _ \<Rightarrow> [] | Inr s1 \<Rightarrow> s1 #
       (let tmp = temp_key (pid s1) (counter s1) p; s1 = s1\<lparr>counter := Suc (counter s1)\<rparr>
        in case sys_create s1 tmp of Inl _ \<Rightarrow> [] | Inr s2 \<Rightarrow>
             map (\<lambda>n. sys_write s2 tmp (take n bs)) [0..<Suc (length bs)] @
             (case sys_rename (sys_write s2 tmp bs) tmp p of Inl _ \<Rightarrow> [] | Inr s3 \<Rightarrow> [s3]))))"

section \<open>The contract of a store\<close>

text \<open>
  What the storage engine relies on: in a state that satisfies \<open>inv\<close>, an object can be written
  under every key of \<open>okey\<close>, is read back, and no operation on one key changes what another
  reads.
\<close>

locale object_store =
  fixes put :: "'s \<Rightarrow> string \<Rightarrow> bytes \<Rightarrow> 's result"
    and get :: "'s \<Rightarrow> string \<Rightarrow> bytes result"
    and delete :: "'s \<Rightarrow> string \<Rightarrow> 's result"
    and inv :: "'s \<Rightarrow> bool"
    and okey :: "string \<Rightarrow> bool"
  assumes put_total: "inv s \<Longrightarrow> okey k \<Longrightarrow> \<exists>s'. put s k b = Inr s'"
    and put_inv: "inv s \<Longrightarrow> okey k \<Longrightarrow> put s k b = Inr s' \<Longrightarrow> inv s'"
    and get_put: "inv s \<Longrightarrow> okey k \<Longrightarrow> okey j \<Longrightarrow> put s k b = Inr s' \<Longrightarrow>
      get s' j = (if j = k then Inr b else get s j)"
    and delete_total: "inv s \<Longrightarrow> okey k \<Longrightarrow> \<exists>s'. delete s k = Inr s'"
    and delete_inv: "inv s \<Longrightarrow> okey k \<Longrightarrow> delete s k = Inr s' \<Longrightarrow> inv s'"
    and get_delete: "inv s \<Longrightarrow> okey k \<Longrightarrow> okey j \<Longrightarrow> delete s k = Inr s' \<Longrightarrow>
      get s' j = (if j = k then Inl (NotFound ''object'') else get s j)"
begin

lemma put_get: "inv s \<Longrightarrow> okey k \<Longrightarrow> put s k b = Inr s' \<Longrightarrow> get s' k = Inr b"
  by (simp add: get_put)

lemma put_frame:
  "inv s \<Longrightarrow> okey k \<Longrightarrow> okey j \<Longrightarrow> j \<noteq> k \<Longrightarrow> put s k b = Inr s' \<Longrightarrow> get s' j = get s j"
  by (simp add: get_put)

lemma puts_get:
  "inv s \<Longrightarrow> \<forall>(k, b) \<in> set ps. okey k \<Longrightarrow> okey j \<Longrightarrow> foldM (\<lambda>s (k, b). put s k b) s ps = Inr s' \<Longrightarrow>
   inv s' \<and> get s' j = (case map_of (rev ps) j of Some b \<Rightarrow> Inr b | None \<Rightarrow> get s j)"
proof (induction ps arbitrary: s)
  case (Cons p ps)
  obtain k b where p: "p = (k, b)" by (cases p)
  obtain s1 where s1: "put s k b = Inr s1" and r: "foldM (\<lambda>s (k, b). put s k b) s1 ps = Inr s'"
    using Cons.prems(4) p by (auto simp: result_simps)
  have "inv s1" and g: "get s1 j = (if j = k then Inr b else get s j)"
    using Cons.prems(1-3) p s1 put_inv get_put by auto
  then show ?case
    using Cons.IH [OF _ _ Cons.prems(3) r] Cons.prems(2) p
    by (auto simp: map_add_def split: option.splits)
qed simp

lemma deletes_get:
  "inv s \<Longrightarrow> \<forall>k \<in> set ks. okey k \<Longrightarrow> okey j \<Longrightarrow> foldM delete s ks = Inr s' \<Longrightarrow>
   inv s' \<and> get s' j = (if j \<in> set ks then Inl (NotFound ''object'') else get s j)"
proof (induction ks arbitrary: s)
  case (Cons k ks)
  obtain s1 where s1: "delete s k = Inr s1" and r: "foldM delete s1 ks = Inr s'"
    using Cons.prems(4) by (auto simp: result_simps)
  have "inv s1" and "get s1 j = (if j = k then Inl (NotFound ''object'') else get s j)"
    using Cons.prems(1-3) s1 delete_inv get_delete by auto
  then show ?case
    using Cons.IH [OF _ _ Cons.prems(3) r] Cons.prems(2) by auto
qed simp

end


section \<open>Lemmas\<close>

lemma join_split: "join_with [c] (split_on c s) = s"
proof (induction s)
  case (Cons x s)
  obtain p ps where p: "split_on c s = p # ps" by (cases "split_on c s") auto
  then show ?case using Cons by (cases ps) auto
qed simp

lemma split_on_inj [simp]: "split_on c s = split_on c t \<longleftrightarrow> s = t"
  by (metis join_split)

lemma split_parts_no_sep: "p \<in> set (split_on c s) \<Longrightarrow> c \<notin> set p"
  by (induction s arbitrary: p) (auto split: list.splits if_splits)

lemma set_join_with: "set (join_with sep ps) \<subseteq> (\<Union>p \<in> set ps. set p) \<union> set sep"
  by (induction sep ps rule: join_with.induct) auto

lemma set_split_on: "p \<in> set (split_on c s) \<Longrightarrow> set p \<subseteq> set s"
  by (induction s arbitrary: p) (fastforce split: list.splits if_splits)+

lemma validate_key_iff:
  "validate_key k = Inr () \<longleftrightarrow> k \<noteq> [] \<and> (\<forall>c \<in> set (split_on CHR ''/'' k). c \<noteq> [] \<and> c \<noteq> ''.'' \<and> c \<noteq> ''..'')"
proof -
  have a: "[] \<in> set (split_on CHR ''/'' k)" if "k \<noteq> []" "hd k = CHR ''/''"
    using that by (cases k) auto
  have b: "[] \<in> set (split_on CHR ''/'' k)" if "k \<noteq> []" "last k = CHR ''/''"
    using that split_on_append_gen [of "CHR ''/''" "butlast k" "[]"] append_butlast_last_id [of k]
    by auto
  show ?thesis
    using a b by (auto simp: validate_key_def forM_Inr_iff result_simps)
qed

lemma path_for_iff [result_simps]: "path_for k = Inr p \<longleftrightarrow> validate_key k = Inr () \<and> p = k"
  by (auto simp: path_for_def result_simps validate_key_iff list_ex_iff)

lemma path_for_ok: "validate_key k = Inr () \<Longrightarrow> path_for k = Inr k"
  by (simp add: path_for_iff)

text \<open>
  Every object the engine writes has a dot in its last component and none before: its path is
  never an ancestor of another object's path.
\<close>

definition object_key :: "string \<Rightarrow> bool" where
  "object_key k \<longleftrightarrow> validate_key k = Inr () \<and> CHR ''.'' \<in> set (last (split_on CHR ''/'' k)) \<and>
     CHR 0x5C \<notin> set k \<and> (\<forall>c \<in> set (butlast (split_on CHR ''/'' k)). CHR ''.'' \<notin> set c)"

definition plain_key :: "string \<Rightarrow> bool" where
  "plain_key k \<longleftrightarrow> object_key k \<and> \<not> sublist ''.tmp'' k"

definition store_ok :: "fs_store \<Rightarrow> bool" where
  "store_ok s \<longleftrightarrow> distinct (map fst (files s)) \<and>
     (\<forall>k \<in> set (map fst (files s)). object_key k \<and> set (ancestors k) \<subseteq> set (dirs s)) \<and>
     (\<forall>d \<in> set (dirs s). CHR ''.'' \<notin> set d)"

lemma plain_object: "plain_key k \<Longrightarrow> object_key k"
  by (simp add: plain_key_def)

lemma object_key_valid: "object_key k \<Longrightarrow> validate_key k = Inr ()"
  by (simp add: object_key_def)

lemma object_key_dot: "object_key k \<Longrightarrow> CHR ''.'' \<in> set k"
  using set_split_on [of "last (split_on CHR ''/'' k)" "CHR ''/''" k] last_in_set
  unfolding object_key_def by fastforce

lemma ancestors_dotless:
  assumes "object_key k" "a \<in> set (ancestors k)"
  shows "CHR ''.'' \<notin> set a"
proof -
  let ?cs = "split_on CHR ''/'' k"
  obtain n where a: "a = join_with ''/'' (take n ?cs)" and n: "n < length ?cs"
    using assms(2) by (auto simp: ancestors_def Let_def)
  have "set (take n ?cs) \<subseteq> set (butlast ?cs)"
    using take_butlast [OF n] set_take_subset [of n "butlast ?cs"] by simp
  then have "\<forall>c \<in> set (take n ?cs). CHR ''.'' \<notin> set c"
    using assms(1) by (auto simp: object_key_def)
  then show ?thesis using set_join_with [of "''/''" "take n ?cs"] a by fastforce
qed

lemma ancestor_not_object: "object_key k \<Longrightarrow> object_key j \<Longrightarrow> j \<notin> set (ancestors k)"
  using ancestors_dotless object_key_dot by blast

lemma not_dir: "store_ok s \<Longrightarrow> object_key k \<Longrightarrow> \<not> is_dir s k"
  using object_key_dot by (auto simp: store_ok_def is_dir_def)

lemma no_file_above: "store_ok s \<Longrightarrow> object_key k \<Longrightarrow> \<not> list_ex (is_file s) (ancestors k)"
  using ancestor_not_object
  by (fastforce simp: store_ok_def is_file_def list_ex_iff dest: map_of_SomeD)

lemma ensure_parent_ok:
  assumes "store_ok s" "object_key k"
  obtains ds where "ensure_parent s k = Inr (s\<lparr>dirs := ds\<rparr>)" "store_ok (s\<lparr>dirs := ds\<rparr>)"
    "set ds = set (ancestors k) \<union> set (dirs s)"
proof -
  let ?ds = "filter (\<lambda>d. \<not> is_dir s d) (ancestors k) @ dirs s"
  have "set ?ds = set (ancestors k) \<union> set (dirs s)" by (auto simp: is_dir_def)
  moreover have "ensure_parent s k = Inr (s\<lparr>dirs := ?ds\<rparr>)"
    using no_file_above [OF assms] by (simp add: ensure_parent_def)
  moreover have "store_ok (s\<lparr>dirs := ?ds\<rparr>)"
    using assms ancestors_dotless by (fastforce simp: store_ok_def)
  ultimately show ?thesis using that by blast
qed

lemma is_dir_update [simp]:
  "is_dir (s\<lparr>files := f\<rparr>) = is_dir s" "is_dir (s\<lparr>counter := n\<rparr>) = is_dir s"
  by (auto simp: is_dir_def)

lemma store_ok_counter [simp]: "store_ok (s\<lparr>counter := n\<rparr>) = store_ok s"
  by (simp add: store_ok_def)

lemma store_ok_write:
  "store_ok s \<Longrightarrow> object_key k \<Longrightarrow> set (ancestors k) \<subseteq> set (dirs s) \<Longrightarrow> store_ok (sys_write s k b)"
  by (auto simp: store_ok_def sys_write_def distinct_update dom_update)

lemma store_ok_remove: "store_ok s \<Longrightarrow> store_ok (sys_remove s k)"
  by (simp add: store_ok_def sys_remove_def delete_keys distinct_removeAll del: list.set_map set_map)

lemma files_write [simp]: "map_of (files (sys_write s k b)) = (map_of (files s))(k \<mapsto> b)"
  by (simp add: sys_write_def update_conv')

lemma files_remove [simp]: "map_of (files (sys_remove s k)) = (map_of (files s))(k := None)"
  by (simp add: sys_remove_def delete_conv')

lemma dirs_sys [simp]:
  "dirs (sys_write s k b) = dirs s" "dirs (sys_remove s k) = dirs s"
  "is_dir (sys_write s k b) = is_dir s" "is_dir (sys_remove s k) = is_dir s"
  by (simp_all add: sys_write_def sys_remove_def)

lemma store_get_eq:
  assumes "store_ok s" "object_key k"
  shows "store_get s k =
    (case map_of (files s) k of Some b \<Rightarrow> Inr b | None \<Rightarrow> Inl (NotFound ''object''))"
  using not_dir [OF assms] no_file_above [OF assms] object_key_valid [OF assms(2)]
  by (auto simp: store_get_def path_for_ok split: option.splits)

lemma store_put_eq:
  assumes "store_ok s" "object_key k"
  obtains s' where "store_put s k b = Inr s'" "store_ok s'"
    "map_of (files s') = (map_of (files s))(k \<mapsto> b)" "set (dirs s') = set (ancestors k) \<union> set (dirs s)"
proof -
  obtain ds where ds: "ensure_parent s k = Inr (s\<lparr>dirs := ds\<rparr>)" "store_ok (s\<lparr>dirs := ds\<rparr>)"
    "set ds = set (ancestors k) \<union> set (dirs s)"
    using ensure_parent_ok [OF assms] .
  let ?s = "s\<lparr>dirs := ds\<rparr>"
  have "store_ok (sys_write ?s k [])" by (rule store_ok_write) (use ds assms in auto)
  then have "store_ok (sys_write (sys_write ?s k []) k b)"
    by (rule store_ok_write) (use ds assms in auto)
  moreover have "store_put s k b = Inr (sys_write (sys_write ?s k []) k b)"
    using ds not_dir [OF ds(2) assms(2)] object_key_valid [OF assms(2)]
    by (simp add: store_put_def path_for_ok sys_create_def)
  ultimately show ?thesis using that ds by simp
qed

lemma store_delete_eq:
  assumes "store_ok s" "object_key k"
  obtains s' where "store_delete s k = Inr s'" "store_ok s'"
    "map_of (files s') = (map_of (files s))(k := None)" "dirs s' = dirs s"
proof (cases "is_file s k")
  case True
  then have "store_delete s k = Inr (sys_remove s k)"
    using object_key_valid [OF assms(2)] by (simp add: store_delete_def path_for_ok)
  then show ?thesis using that store_ok_remove [OF assms(1)] by simp
next
  case False
  then have "store_delete s k = Inr s"
    using object_key_valid [OF assms(2)] not_dir [OF assms] no_file_above [OF assms]
    by (simp add: store_delete_def path_for_ok)
  moreover have "map_of (files s) = (map_of (files s))(k := None)"
    using False by (auto simp: is_file_def)
  ultimately show ?thesis using that assms by blast
qed

lemma set_file_stem: "set (file_stem c) \<subseteq> set c"
proof -
  have "set (tl (dropWhile (\<lambda>c. c \<noteq> CHR ''.'') (rev c))) \<subseteq> set c"
    by (metis dropWhile_eq_drop drop_Suc set_drop_subset set_rev tl_drop drop_tl)
  then show ?thesis by (simp add: file_stem_def Let_def)
qed

lemma stem_no_slash: "CHR ''/'' \<notin> set c \<Longrightarrow> CHR ''/'' \<notin> set (file_stem c)"
  using set_file_stem by blast

lemma split_with_extension:
  assumes "CHR ''/'' \<notin> set ext"
  shows "split_on CHR ''/'' (with_extension k ext) =
     butlast (split_on CHR ''/'' k) @ [file_stem (last (split_on CHR ''/'' k)) @ ''.'' @ ext]"
proof -
  let ?cs = "split_on CHR ''/'' k"
  have "\<forall>c \<in> set ?cs. CHR ''/'' \<notin> set c" using split_parts_no_sep by blast
  then have "\<forall>c \<in> set (butlast ?cs). CHR ''/'' \<notin> set c" "CHR ''/'' \<notin> set (file_stem (last ?cs))"
    using stem_no_slash by (auto dest: in_set_butlastD)
  then show ?thesis
    unfolding with_extension_def Let_def using assms by (subst split_on_join) auto
qed

lemma split_temp:
  "split_on CHR ''/'' (temp_key p n k) =
     butlast (split_on CHR ''/'' k) @
       [file_stem (last (split_on CHR ''/'' k)) @ ''.tmp'' @ show_nat p @ ''-'' @ show_nat n]"
  unfolding temp_key_def by (subst split_with_extension) (auto simp: show_nat_no_slash)

lemma join_with_append1: "join_with [c] (ps @ [q]) = (if ps = [] then q else join_with [c] ps @ [c] @ q)"
  by (induction "[c]" ps rule: join_with.induct) auto

lemma temp_key_sublist: "sublist ''.tmp'' (temp_key p n k)"
proof -
  have "temp_key p n k = join_with ''/'' (split_on CHR ''/'' (temp_key p n k))"
    by (simp add: join_split)
  also have "\<dots> = (if butlast (split_on CHR ''/'' k) = [] then []
      else join_with ''/'' (butlast (split_on CHR ''/'' k)) @ ''/'') @
      file_stem (last (split_on CHR ''/'' k)) @ ''.tmp'' @ show_nat p @ ''-'' @ show_nat n"
    unfolding split_temp by (simp add: join_with_append1)
  finally show ?thesis unfolding sublist_def by (metis append.assoc)
qed

lemma temp_key_not_plain: "\<not> plain_key (temp_key p n k)"
  by (simp add: plain_key_def temp_key_sublist)

lemma with_extension_object:
  assumes "object_key k" "CHR ''/'' \<notin> set ext" "CHR 0x5C \<notin> set ext" "ext \<noteq> []" "hd ext \<noteq> CHR ''.''"
  shows "object_key (with_extension k ext)" "ancestors (with_extension k ext) = ancestors k"
proof -
  let ?cs = "split_on CHR ''/'' k" and ?t = "with_extension k ext"
  have cs: "split_on CHR ''/'' ?t = butlast ?cs @ [file_stem (last ?cs) @ ''.'' @ ext]" (is "_ = _ @ [?l]")
    by (rule split_with_extension [OF assms(2)])
  have "CHR 0x5C \<notin> set c" if "c \<in> set ?cs" for c
    using that set_split_on [of c] assms(1) by (auto simp: object_key_def)
  moreover note set_file_stem [of "last ?cs"] assms(3)
  ultimately have "CHR 0x5C \<notin> set ?l" "\<forall>c \<in> set (butlast ?cs). CHR 0x5C \<notin> set c"
    by (fastforce dest: in_set_butlastD)+
  then have "CHR 0x5C \<notin> set ?t"
    using set_join_with [of "''/''" "split_on CHR ''/'' ?t", unfolded join_split] unfolding cs by auto
  moreover have "?t \<noteq> []" using cs by (metis append_is_Nil_conv join_split join_with_append1 list.distinct(1))
  moreover have "?l \<noteq> ''.''" "?l \<noteq> ''..''"
    using assms(4,5) by (auto simp: append_eq_Cons_conv)
  ultimately show "object_key ?t"
    using assms(1) unfolding object_key_def validate_key_iff cs
    by (auto dest: in_set_butlastD)
  have "length (split_on CHR ''/'' ?t) = length ?cs" unfolding cs by simp
  moreover have "take m (split_on CHR ''/'' ?t) = take m ?cs" if "m < length ?cs" for m
    unfolding cs using that by (simp add: take_butlast)
  ultimately show "ancestors ?t = ancestors k" by (simp add: ancestors_def Let_def)
qed

lemma temp_key_object:
  assumes "object_key k"
  shows "object_key (temp_key p n k)" "ancestors (temp_key p n k) = ancestors k"
proof -
  have "CHR 0x5C \<notin> set (show_nat m)" for m using set_show_nat [of m] by auto
  then show "object_key (temp_key p n k)" "ancestors (temp_key p n k) = ancestors k"
    unfolding temp_key_def
    using with_extension_object [OF assms, of "''tmp'' @ show_nat p @ ''-'' @ show_nat n"]
    by (simp_all add: show_nat_no_slash)
qed

lemma store_put_atomic_eq:
  assumes "store_ok s" "plain_key k"
  obtains s' where "store_put_atomic s k b = Inr s'" "store_ok s'"
    "map_of (files s') = ((map_of (files s))(temp_key (pid s) (counter s) k := None))(k \<mapsto> b)"
proof -
  have k: "object_key k" using assms(2) by (rule plain_object)
  obtain ds where ds: "ensure_parent s k = Inr (s\<lparr>dirs := ds\<rparr>)" "store_ok (s\<lparr>dirs := ds\<rparr>)"
    "set ds = set (ancestors k) \<union> set (dirs s)"
    using ensure_parent_ok [OF assms(1) k] .
  let ?tmp = "temp_key (pid s) (counter s) k"
  let ?s1 = "s\<lparr>dirs := ds, counter := Suc (counter s)\<rparr>"
  let ?s2 = "sys_write ?s1 ?tmp []"
  let ?s3 = "sys_write ?s2 ?tmp b"
  have ok1: "store_ok ?s1" using ds by (simp add: store_ok_def)
  note t = temp_key_object [OF k, of "pid s" "counter s"]
  have "store_ok ?s2" by (rule store_ok_write [OF ok1 t(1)]) (use ds t in auto)
  then have ok3: "store_ok ?s3" by (rule store_ok_write [OF _ t(1)]) (use ds t in auto)
  have "store_ok (sys_write (sys_remove ?s3 ?tmp) k b)"
    by (rule store_ok_write [OF store_ok_remove [OF ok3] k]) (use ds in auto)
  moreover have "store_put_atomic s k b = Inr (sys_write (sys_remove ?s3 ?tmp) k b)"
    using ds(1) not_dir [OF ok1 k] not_dir [OF ok1 t(1)] object_key_valid [OF k]
    by (simp add: store_put_atomic_def path_for_ok sys_create_def sys_rename_def Let_def)
  moreover have "map_of (files (sys_write (sys_remove ?s3 ?tmp) k b)) =
      ((map_of (files s))(?tmp := None))(k \<mapsto> b)"
    by (auto simp: sys_write_def [of ?s1] update_conv')
  ultimately show ?thesis using that by blast
qed

lemma get_cong_files:
  assumes "store_ok s" "store_ok s'" "object_key k" "map_of (files s') k = map_of (files s) k"
  shows "store_get s' k = store_get s k"
  using assms by (simp add: store_get_eq)

interpretation fs: object_store store_put store_get store_delete store_ok object_key
proof
  fix s :: fs_store and k j b s'
  assume s: "store_ok s" and k: "object_key k"
  show "\<exists>s'. store_put s k b = Inr s'" using store_put_eq [OF s k] by metis
  show "\<exists>s'. store_delete s k = Inr s'" using store_delete_eq [OF s k] by metis
  {
    assume "store_put s k b = Inr s'"
    then have *: "store_ok s'" "map_of (files s') = (map_of (files s))(k \<mapsto> b)"
      using store_put_eq [OF s k, of b] by force+
    show "store_ok s'" by (rule *(1))
    show "store_get s' j = (if j = k then Inr b else store_get s j)" if "object_key j"
      using that s k * by (simp add: store_get_eq)
  }
  {
    assume "store_delete s k = Inr s'"
    then have *: "store_ok s'" "map_of (files s') = (map_of (files s))(k := None)"
      using store_delete_eq [OF s k] by force+
    show "store_ok s'" by (rule *(1))
    show "store_get s' j = (if j = k then Inl (NotFound ''object'') else store_get s j)"
      if "object_key j"
      using that s k * by (simp add: store_get_eq)
  }
qed

interpretation atomic: object_store store_put_atomic store_get store_delete store_ok plain_key
proof
  fix s :: fs_store and k j b s'
  assume s: "store_ok s" and pk: "plain_key k"
  note k = plain_object [OF pk]
  show "\<exists>s'. store_put_atomic s k b = Inr s'" using store_put_atomic_eq [OF s pk] by metis
  show "\<exists>s'. store_delete s k = Inr s'" using k s by (rule fs.delete_total [rotated])
  {
    assume "store_put_atomic s k b = Inr s'"
    then have *: "store_ok s'"
      "map_of (files s') = ((map_of (files s))(temp_key (pid s) (counter s) k := None))(k \<mapsto> b)"
      using store_put_atomic_eq [OF s pk, of b] by force+
    show "store_ok s'" by (rule *(1))
    show "store_get s' j = (if j = k then Inr b else store_get s j)" if j: "plain_key j"
      using j s k * plain_object [OF j] temp_key_not_plain by (auto simp: store_get_eq)
  }
  show "store_ok s'" if "store_delete s k = Inr s'" using fs.delete_inv [OF s k that] .
  show "store_get s' j = (if j = k then Inl (NotFound ''object'') else store_get s j)"
    if "plain_key j" "store_delete s k = Inr s'"
    using fs.get_delete [OF s k plain_object [OF that(1)] that(2)] .
qed

lemma write_same_get:
  assumes "store_ok s" "object_key k" "object_key j" "k \<noteq> j" "set (ancestors k) \<subseteq> set (dirs s)"
  shows "store_ok (sys_write s k b) \<and> store_get (sys_write s k b) j = store_get s j"
  using assms store_ok_write [OF assms(1,2,5), of b] by (simp add: store_get_eq)

lemma crash_states_frame:
  assumes "store_ok s" "plain_key k" "plain_key j" "c \<in> set (put_atomic_crash_states s k b)"
  shows "store_ok c \<and> (store_get c j = store_get s j \<or> j = k \<and> store_get c k = Inr b)"
proof -
  have k: "object_key k" "object_key j" using assms plain_object by auto
  obtain ds where ds: "ensure_parent s k = Inr (s\<lparr>dirs := ds\<rparr>)" "store_ok (s\<lparr>dirs := ds\<rparr>)"
    "set ds = set (ancestors k) \<union> set (dirs s)"
    using ensure_parent_ok [OF assms(1) k(1)] .
  let ?tmp = "temp_key (pid s) (counter s) k"
  let ?s1 = "s\<lparr>dirs := ds, counter := Suc (counter s)\<rparr>"
  let ?s2 = "sys_write ?s1 ?tmp []"
  have ok1: "store_ok ?s1" using ds by (simp add: store_ok_def)
  note t = temp_key_object [OF k(1), of "pid s" "counter s"]
  have anc: "set (ancestors ?tmp) \<subseteq> set ds" using ds t by simp
  have tj: "?tmp \<noteq> j" using assms(3) temp_key_not_plain by auto
  have ok2: "store_ok ?s2" by (rule store_ok_write [OF ok1 t(1)]) (use anc in simp)
  have g1: "store_get (s\<lparr>dirs := ds\<rparr>) j = store_get s j" "store_get ?s1 j = store_get s j"
    using get_cong_files [OF assms(1) ds(2) k(2)] get_cong_files [OF assms(1) ok1 k(2)] by simp_all
  have g2: "store_get ?s2 j = store_get s j"
    using write_same_get [OF ok1 t(1) k(2) tj, of "[]"] anc g1 by simp
  have w: "store_ok (sys_write ?s2 ?tmp v)" "store_get (sys_write ?s2 ?tmp v) j = store_get s j" for v
    using write_same_get [OF ok2 t(1) k(2) tj, of v] anc g2 by simp_all
  obtain s' where s': "store_put_atomic s k b = Inr s'" "store_ok s'"
    using store_put_atomic_eq [OF assms(1,2)] by metis
  have "sys_rename (sys_write ?s2 ?tmp b) ?tmp k = Inr s'"
    using s'(1) ds(1) not_dir [OF ok1 t(1)] object_key_valid [OF k(1)]
    by (simp add: store_put_atomic_def path_for_ok sys_create_def Let_def)
  moreover have "store_get s' j = (if j = k then Inr b else store_get s j)"
    using atomic.get_put [OF assms(1,2,3) s'(1)] .
  ultimately show ?thesis
    using assms(1,4) ds(1,2) g1 w s'(2) not_dir [OF ok1 t(1)] object_key_valid [OF k(1)]
    by (auto simp: put_atomic_crash_states_def path_for_ok sys_create_def Let_def split: if_splits)
qed

lemma under_ancestor:
  assumes "under p k" "k \<noteq> p"
  shows "p \<in> set (ancestors k)"
proof -
  obtain r where "k = p @ CHR ''/'' # r" using assms by (auto simp: under_def prefix_def)
  then have s: "split_on CHR ''/'' k = split_on CHR ''/'' p @ split_on CHR ''/'' r"
    by (simp add: split_on_append_gen)
  let ?n = "length (split_on CHR ''/'' p)"
  have "0 < ?n" "?n < length (split_on CHR ''/'' k)" using s by simp_all
  moreover have "join_with ''/'' (take ?n (split_on CHR ''/'' k)) = p" using s by (simp add: join_split)
  ultimately show ?thesis unfolding ancestors_def Let_def set_map
    by (intro image_eqI [of _ _ ?n]) (simp_all add: Suc_le_eq)
qed

lemma slashes_id: "CHR 0x5C \<notin> set k \<Longrightarrow> slashes k = k"
  unfolding slashes_def by (induction k) auto

text \<open>The keys of the layout in \<open>paths.rs\<close> are plain keys.\<close>

definition plain_part :: "string \<Rightarrow> bool" where
  "plain_part c \<longleftrightarrow> c \<noteq> [] \<and> CHR ''.'' \<notin> set c \<and> CHR 0x5C \<notin> set c"

lemma plain_keyI:
  assumes "split_on CHR ''/'' k = cs @ [x @ CHR ''.'' # y # ys]" "list_all plain_part cs"
    "plain_part x" "plain_part (y # ys)" "y \<noteq> CHR ''t''"
  shows "plain_key k"
proof -
  let ?l = "x @ CHR ''.'' # y # ys" and ?d = "if cs = [] then [] else join_with ''/'' cs @ ''/''"
  have "k = join_with ''/'' (split_on CHR ''/'' k)" by (simp add: join_split)
  also have "\<dots> = (?d @ x) @ CHR ''.'' # y # ys"
    unfolding assms(1) by (simp add: join_with_append1)
  finally have k: "k = (?d @ x) @ CHR ''.'' # y # ys" .
  have dot: "CHR ''.'' \<notin> set (?d @ x)" "CHR 0x5C \<notin> set (?d @ x)"
    using assms(2,3) set_join_with [of "''/''" cs] by (auto simp: plain_part_def list_all_iff)
  have "\<not> sublist ''.tmp'' k"
  proof
    assume "sublist ''.tmp'' k"
    then obtain a r where "k = a @ CHR ''.'' # ''tmp'' @ r" by (auto simp: sublist_def)
    with k dot(1) assms(4) have "y # ys = ''tmp'' @ r"
      using append_Cons_eq_iff [of "CHR ''.''" "?d @ x" "y # ys" a "''tmp'' @ r"]
      by (simp add: plain_part_def)
    with assms(5) show False by simp
  qed
  moreover have "CHR 0x5C \<notin> set k" unfolding k using dot assms(4) by (simp add: plain_part_def)
  moreover have "p \<noteq> [] \<and> p \<noteq> ''.'' \<and> p \<noteq> ''..''" if "p \<in> set cs" for p
    using assms(2) that by (auto simp: plain_part_def list_all_iff)
  ultimately show ?thesis
    using k assms(1-3) by (auto simp: plain_key_def object_key_def validate_key_iff plain_part_def
      list_all_iff append_eq_Cons_conv)
qed

lemma ident_plain: "ident_ok v \<Longrightarrow> plain_part v"
  using ident_ok_no_dot [of v]
  by (auto simp: plain_part_def ident_ok_iff list_all_iff ident_char_def is_ascii_lowercase_def
    is_ascii_digit_def less_eq_char_def)

lemma show_nat_plain: "CHR ''.'' \<notin> set (show_nat n)" "CHR 0x5C \<notin> set (show_nat n)"
  using set_show_nat [of n] by auto

lemma pad8_plain: "CHR ''.'' \<notin> set (pad8 (show_nat n))" "CHR 0x5C \<notin> set (pad8 (show_nat n))"
  using show_nat_plain set_pad8 by fastforce+

lemma layout_keys_plain:
  assumes "ident_ok t" "ident_ok d" "ident_ok n"
  shows "plain_key (manifest_key t d n p)" "plain_key (wal_key t d n p)"
    "plain_key (segment_key t d n p i)"
proof -
  note ks = split_key [OF assms]
  have parts: "list_all plain_part (key_parts t d n @ [''p'' @ show_nat p])"
    using assms [THEN ident_plain] show_nat_plain by (auto simp: key_parts_def plain_part_def)
  show "plain_key (manifest_key t d n p)"
    by (rule plain_keyI [of _ "key_parts t d n @ [''p'' @ show_nat p]" "''manifest''"])
      (use ks(5) parts in \<open>auto simp: plain_part_def\<close>)
  show "plain_key (wal_key t d n p)"
    by (rule plain_keyI [of _ "key_parts t d n @ [''p'' @ show_nat p, ''wal'']" "''current''"])
      (use ks(6) parts in \<open>auto simp: plain_part_def\<close>)
  show "plain_key (segment_key t d n p i)"
    by (rule plain_keyI [of _ "key_parts t d n @ [''p'' @ show_nat p, ''segments'']"
        "''seg-'' @ pad8 (show_nat i)"])
      (use ks(7) parts pad8_plain in \<open>auto simp: plain_part_def\<close>)
qed

lemma join_with_append:
  "ps \<noteq> [] \<Longrightarrow> qs \<noteq> [] \<Longrightarrow> join_with [c] (ps @ qs) = join_with [c] ps @ c # join_with [c] qs"
proof (induction "[c]" ps rule: join_with.induct)
  case (2 p)
  then show ?case by (cases qs) auto
qed auto

lemma ancestor_under:
  assumes "a \<in> set (ancestors k)"
  shows "prefix (a @ ''/'') k"
proof -
  let ?cs = "split_on CHR ''/'' k"
  obtain n where a: "a = join_with ''/'' (take n ?cs)" and n: "0 < n" "n < length ?cs"
    using assms by (auto simp: ancestors_def Let_def)
  have "k = join_with ''/'' (take n ?cs @ drop n ?cs)" by (simp add: join_split)
  also have "\<dots> = a @ CHR ''/'' # join_with ''/'' (drop n ?cs)"
    unfolding a using n by (intro join_with_append) auto
  finally show ?thesis by (auto simp: prefix_def)
qed

lemma under_trans_ancestor: "under p a \<Longrightarrow> a \<in> set (ancestors k) \<Longrightarrow> under p k"
  using ancestor_under [of a k]
  by (auto simp: under_def prefix_def)

lemma not_under_dot: "CHR ''.'' \<notin> set p \<Longrightarrow> object_key k \<Longrightarrow> k \<noteq> p"
  using object_key_dot by auto

lemma delete_prefix_spec:
  assumes "store_ok s" "CHR ''.'' \<notin> set pre" "store_delete_prefix s pre = Inr s'"
  shows "store_ok s'" and "map_of (files s') k = (if under pre k then None else map_of (files s) k)"
proof -
  have obj: "object_key j \<and> set (ancestors j) \<subseteq> set (dirs s)" if "j \<in> set (map fst (files s))" for j
    using assms(1) that unfolding store_ok_def by blast
  have nf: "\<not> is_file s pre"
    using obj [of pre] object_key_dot [of pre] assms(2)
    by (auto simp: is_file_def map_of_eq_None_iff)
  have keep: "\<not> under pre j \<Longrightarrow> j \<in> set (map fst (files s)) \<Longrightarrow> a \<in> set (ancestors j) \<Longrightarrow>
      a \<in> set (dirs s) \<and> \<not> under pre a" for j a
    using obj [of j] under_trans_ancestor [of pre a j] by blast
  have mf: "map_of (filter (\<lambda>(k, _). \<not> under pre k) xs) k =
      (if under pre k then None else map_of xs k)" for xs :: "(string \<times> bytes) list"
    by (induction xs) auto
  have "store_ok s' \<and> map_of (files s') k = (if under pre k then None else map_of (files s) k)"
  proof (cases "is_dir s pre")
    case True
    then have s': "s' = s\<lparr>files := filter (\<lambda>(k, _). \<not> under pre k) (files s),
        dirs := filter (\<lambda>d. \<not> under pre d) (dirs s)\<rparr>"
      using assms(3) by (auto simp: store_delete_prefix_def result_simps)
    have "distinct (map fst (files s'))"
      using assms(1) unfolding s' store_ok_def by (auto intro: distinct_map_filter_inj)
    moreover have "object_key j \<and> set (ancestors j) \<subseteq> set (dirs s')"
      if "j \<in> set (map fst (files s'))" for j
    proof -
      have "j \<in> set (map fst (files s))" "\<not> under pre j" using that by (auto simp: s')
      then show ?thesis using obj [of j] keep [of j] by (auto simp: s')
    qed
    moreover have "\<forall>d \<in> set (dirs s'). CHR ''.'' \<notin> set d"
      using assms(1) unfolding s' store_ok_def by auto
    ultimately show ?thesis by (simp add: store_ok_def) (simp add: s' mf)
  next
    case False
    then have s': "s' = s" using nf assms(3) by (auto simp: store_delete_prefix_def result_simps)
    have "map_of (files s) k = None" if "under pre k"
    proof (rule ccontr)
      assume "map_of (files s) k \<noteq> None"
      then have k: "k \<in> set (map fst (files s))" by (simp add: map_of_eq_None_iff)
      then have "k \<noteq> pre" using obj [OF k] assms(2) not_under_dot by blast
      with under_ancestor [OF that] obj [OF k] False show False unfolding is_dir_def by blast
    qed
    then show ?thesis using s' assms(1) by auto
  qed
  then show "store_ok s'" "map_of (files s') k = (if under pre k then None else map_of (files s) k)"
    by auto
qed

section \<open>Properties\<close>

text \<open>
  Remark: a path the store opens stays below its root: an accepted key is relative and none of its
  components is empty, \<open>.\<close> or \<open>..\<close>.
\<close>

theorem path_stays_below_root:
  assumes "path_for key = Inr p"
  shows "p = key \<and> hd key \<noteq> CHR ''/'' \<and>
    (\<forall>c \<in> set (split_on CHR ''/'' key). c \<noteq> [] \<and> c \<noteq> ''.'' \<and> c \<noteq> ''..'')"
proof -
  have v: "validate_key key = Inr ()" and p: "p = key" using assms by (simp_all add: path_for_iff)
  obtain x xs where key: "key = x # xs" using v by (cases key) (auto simp: validate_key_def)
  have "x \<noteq> CHR ''/''" using v by (auto simp: key validate_key_def)
  with v p key show ?thesis by (simp add: validate_key_iff)
qed

theorem path_stays_below_root_witness:
  "hd ''m/a.json'' \<noteq> CHR ''/'' \<and> path_for ''m/../a.json'' = Inl BadRequest"
  using path_stays_below_root [of "''m/a.json''" "''m/a.json''"]
  by (simp add: path_for_def validate_key_def)

text \<open>
  C20: an atomic replace is all or nothing: whatever state a crash inside \<open>put_atomic\<close> leaves, the
  object reads as before or as the new bytes, every other object reads as before, and the store
  is well formed.
\<close>

theorem put_atomic_crash_safe:
  assumes "store_ok s" and "plain_key k" and "c \<in> set (put_atomic_crash_states s k b)"
  shows "store_ok c \<and> (store_get c k = store_get s k \<or> store_get c k = Inr b) \<and>
    (\<forall>j. plain_key j \<longrightarrow> j \<noteq> k \<longrightarrow> store_get c j = store_get s j)"
  using crash_states_frame [OF assms(1,2) _ assms(3)] assms(2) by blast

definition demo_store :: fs_store where
  "demo_store = \<lparr>files = [(''m/a.json'', [1])], dirs = [''m''], counter = 0, pid = 7\<rparr>"

lemma demo_store_ok: "store_ok demo_store" "plain_key ''m/a.json''"
  by (simp_all add: store_ok_def demo_store_def object_key_def plain_key_def validate_key_def
    ancestors_def sublist_code)

theorem put_atomic_crash_safe_witness:
  "list_all (\<lambda>c. store_get c ''m/a.json'' \<in> {Inr [1], Inr [2, 3]})
     (put_atomic_crash_states demo_store ''m/a.json'' [2, 3])"
proof -
  have "store_get demo_store ''m/a.json'' = Inr [1]"
    using demo_store_ok by (simp add: store_get_eq plain_object) (simp add: demo_store_def)
  then show ?thesis
    using put_atomic_crash_safe [OF demo_store_ok, of _ "[2, 3]"] by (auto simp: list_all_iff)
qed

lemma store_list_spec:
  assumes "store_ok s" and "store_list s pre = Inr ks"
  shows "sorted ks \<and> distinct ks \<and>
    set ks = {k. map_of (files s) k \<noteq> None \<and> plain_key k \<and> under pre k}"
proof -
  have nf: "\<not> is_file s pre" and
    ks: "ks = sort (filter (\<lambda>k. \<not> sublist ''.tmp'' k) (map slashes
      (if is_dir s pre then filter (under pre) (map fst (files s)) else [])))"
    using assms(2) by (auto simp: store_list_def walk_def result_simps split: if_splits)
  have obj: "object_key k \<and> set (ancestors k) \<subseteq> set (dirs s)" if "k \<in> set (map fst (files s))" for k
    using assms(1) that unfolding store_ok_def by blast
  then have id: "map slashes (filter P (map fst (files s))) = filter P (map fst (files s))" for P
    by (intro map_idI) (auto intro!: slashes_id simp: object_key_def)
  have dom: "map_of (files s) k \<noteq> None \<longleftrightarrow> k \<in> set (map fst (files s))" for k
    by (simp add: map_of_eq_None_iff)
  have nodir: "\<not> under pre k" if k: "k \<in> set (map fst (files s))" "\<not> is_dir s pre" for k
  proof
    assume u: "under pre k"
    have "k \<noteq> pre" using nf k(1) unfolding is_file_def dom by blast
    with under_ancestor [OF u] obj [OF k(1)] k(2) show False unfolding is_dir_def by blast
  qed
  have "set ks = {k \<in> set (map fst (files s)). plain_key k \<and> under pre k}"
    using obj nodir unfolding ks by (auto simp: id plain_key_def simp del: set_map)
  moreover have "distinct ks"
    using assms(1) unfolding ks by (auto simp: id store_ok_def distinct_map_filter)
  ultimately show ?thesis unfolding dom by (auto simp: ks)
qed

lemma store_list_ok:
  assumes "store_ok s" "validate_key pre = Inr ()" "CHR ''.'' \<notin> set pre"
  obtains ks where "store_list s pre = Inr ks"
proof -
  have "\<not> is_file s pre"
    using assms(1,3) object_key_dot by (force simp: is_file_def store_ok_def dest: map_of_SomeD)
  then have "\<exists>ks. store_list s pre = Inr ks" using assms(2) by (simp add: store_list_def walk_def)
  then show ?thesis using that by blast
qed

text \<open>
  Remark: \<open>list\<close> returns, in lexical order and without repetition, exactly the objects stored under a
  directory, leaving out temporary files.
\<close>

theorem list_exact:
  assumes "store_ok s" and "store_list s pre = Inr ks"
  shows "sorted ks \<and> distinct ks \<and>
    set ks = {k. map_of (files s) k \<noteq> None \<and> plain_key k \<and> under pre k}"
  using assms by (rule store_list_spec)

theorem list_exact_witness:
  "\<exists>ks. store_list demo_store ''m'' = Inr ks \<and> sorted ks \<and> ''m/a.json'' \<in> set ks"
proof -
  obtain ks where ks: "store_list demo_store ''m'' = Inr ks"
    by (simp add: store_list_def validate_key_def walk_def is_file_def is_dir_def demo_store_def)
  then show ?thesis
    using list_exact [OF demo_store_ok(1) ks] demo_store_ok(2)
    by (auto simp: demo_store_def under_def)
qed

text \<open>
  C25: dropping a table removes exactly its own objects: after \<open>delete_prefix\<close> of its directory its
  manifest, log and segments are gone, and every object of every other table, database and tenant
  reads as before.
\<close>

theorem drop_table_isolated:
  assumes "store_ok s" and "ident_ok t" "ident_ok d" "ident_ok n" and "ident_ok t'" "ident_ok d'" "ident_ok n'"
    and "store_delete_prefix s (table_prefix t d n) = Inr s'"
    and "k \<in> {manifest_key t' d' n' p, wal_key t' d' n' p, segment_key t' d' n' p i}"
  shows "store_ok s' \<and> store_get s' k =
    (if t' = t \<and> d' = d \<and> n' = n then Inl (NotFound ''object'') else store_get s k)"
proof -
  have dot: "CHR ''.'' \<notin> set (table_prefix t d n)"
    using assms(2-4) [THEN ident_ok_no_dot] by (simp add: table_prefix_def database_prefix_def)
  have k: "object_key k"
    using assms(9) layout_keys_plain [OF assms(5-7)] plain_object by auto
  have "under (table_prefix t d n) k \<longleftrightarrow> t' = t \<and> d' = d \<and> n' = n"
    using storage_prefix_iff [OF assms(5-7,2-4,9)] by auto
  then show ?thesis
    using delete_prefix_spec [OF assms(1) dot assms(8)] k assms(1) by (simp add: store_get_eq)
qed

definition demo_tables :: fs_store where
  "demo_tables = \<lparr>files = [], dirs = [], counter = 0, pid = 7\<rparr>"

theorem drop_table_isolated_witness:
  "\<exists>s. store_delete_prefix demo_tables (table_prefix ''a'' ''b'' ''c'') = Inr s \<and>
     store_get s (manifest_key ''a2'' ''b'' ''c'' 0) =
     store_get demo_tables (manifest_key ''a2'' ''b'' ''c'' 0)"
proof -
  have ok: "store_ok demo_tables" by (simp add: store_ok_def demo_tables_def)
  have id: "ident_ok ''a''" "ident_ok ''b''" "ident_ok ''c''" "ident_ok ''a2''"
    by (simp_all add: ident_ok_iff max_ident_len_def ident_char_def is_ascii_lowercase_def
      is_ascii_digit_def)
  have d: "store_delete_prefix demo_tables (table_prefix ''a'' ''b'' ''c'') = Inr demo_tables"
    by (simp add: store_delete_prefix_def validate_key_def is_dir_def is_file_def demo_tables_def
      table_prefix_def database_prefix_def)
  from drop_table_isolated [OF ok id(1-3) id(4) id(2,3) d,
      of "manifest_key ''a2'' ''b'' ''c'' 0" 0 0] d
  show ?thesis by simp
qed

text \<open>
  Remark: key validation does not keep callers off the names of temporary files: such a key is
  accepted by \<open>put\<close>, and the object written under it never shows up in \<open>list\<close>.
\<close>

theorem temp_names_accepted:
  "\<exists>s. store_put demo_tables ''m/a.tmp7-0'' [1] = Inr s \<and> store_get s ''m/a.tmp7-0'' = Inr [1] \<and>
     store_list s ''m'' = Inr []"
  by (simp add: store_put_def store_get_def store_list_def validate_key_def path_for_def
    ensure_parent_def ancestors_def is_dir_def is_file_def sys_create_def sys_write_def
    demo_tables_def walk_def under_def slashes_def sublist_code)

end
