(* ===== verification/Context.thy ===== *)
theory Context
  imports Ids Bytes
begin

text \<open>
  \<open>crates/adb-core/src/context.rs\<close> and \<open>crates/adb-mcp/src/auth.rs\<close>: capability scopes, query
  limits, the request context that travels with every call, and the registry that turns a
  presented key into a context. A \<open>BTreeSet<Scope>\<close> is a set, \<open>usize\<close> and \<open>u64\<close> limits are naturals
  bounded by \<open>2 ^ 64 - 1\<close>. The random request id is not modelled (nothing branches on it).
\<close>

unbundle bit_operations_syntax

section \<open>Scopes and limits\<close>

datatype scope =
    DatabaseRead | DatabaseWrite | SchemaRead | SchemaWrite | DataInsert | DataUpdate | DataDelete

fun scope_str :: "scope \<Rightarrow> string" where
  "scope_str DatabaseRead = ''database:read''"
| "scope_str DatabaseWrite = ''database:write''"
| "scope_str SchemaRead = ''schema:read''"
| "scope_str SchemaWrite = ''schema:write''"
| "scope_str DataInsert = ''data:insert''"
| "scope_str DataUpdate = ''data:update''"
| "scope_str DataDelete = ''data:delete''"

definition all_scopes :: "scope list" where
  "all_scopes =
     [DatabaseRead, DatabaseWrite, SchemaRead, SchemaWrite, DataInsert, DataUpdate, DataDelete]"

definition read_only_scopes :: "scope set" where
  "read_only_scopes = {DatabaseRead, SchemaRead}"

definition scope_from_str :: "string \<Rightarrow> scope result" where
  "scope_from_str s = ok_or BadRequest (find (\<lambda>sc. scope_str sc = s) all_scopes)"

definition usize_max :: nat where
  "usize_max = 2 ^ 64 - 1"

record query_limits =
  max_rows :: nat
  max_bytes_scanned :: nat
  max_execution_time_ms :: nat
  max_write_rows :: nat

definition default_limits :: query_limits where
  "default_limits =
     \<lparr>max_rows = 10000, max_bytes_scanned = 4 * 2 ^ 30, max_execution_time_ms = 30000,
      max_write_rows = 1000000\<rparr>"

definition unlimited :: query_limits where
  "unlimited =
     \<lparr>max_rows = usize_max, max_bytes_scanned = usize_max, max_execution_time_ms = usize_max,
      max_write_rows = usize_max\<rparr>"

definition clamp_to :: "query_limits \<Rightarrow> query_limits \<Rightarrow> query_limits" where
  "clamp_to l r =
     \<lparr>max_rows = min (max_rows l) (max_rows r),
      max_bytes_scanned = min (max_bytes_scanned l) (max_bytes_scanned r),
      max_execution_time_ms = min (max_execution_time_ms l) (max_execution_time_ms r),
      max_write_rows = min (max_write_rows l) (max_write_rows r)\<rparr>"

section \<open>Request context\<close>

record request_context =
  ctx_tenant :: string
  ctx_database :: "string option"
  ctx_user :: string
  ctx_scopes :: "scope set"
  ctx_limits :: query_limits

definition new_context :: "string \<Rightarrow> string \<Rightarrow> scope set \<Rightarrow> request_context" where
  "new_context t u ss =
     \<lparr>ctx_tenant = t, ctx_database = None, ctx_user = u, ctx_scopes = ss, ctx_limits = default_limits\<rparr>"

definition root_context :: "string \<Rightarrow> request_context" where
  "root_context t =
     \<lparr>ctx_tenant = t, ctx_database = None, ctx_user = ''root'', ctx_scopes = set all_scopes,
      ctx_limits = unlimited\<rparr>"

definition has_scope :: "request_context \<Rightarrow> scope \<Rightarrow> bool" where
  "has_scope c s \<longleftrightarrow> s \<in> ctx_scopes c"

definition require_scope :: "request_context \<Rightarrow> scope \<Rightarrow> unit result" where
  "require_scope c s = (if has_scope c s then Inr () else Inl (PermissionDenied (scope_str s)))"

definition require_database :: "request_context \<Rightarrow> string result" where
  "require_database c = ok_or BadRequest (ctx_database c)"

section \<open>API keys\<close>

record api_key =
  secret :: string
  key_tenant :: string
  key_user :: string
  key_scopes :: "scope set"
  key_limits :: query_limits
  default_database :: "string option"

definition new_key :: "string \<Rightarrow> string \<Rightarrow> api_key" where
  "new_key k t =
     \<lparr>secret = k, key_tenant = t, key_user = ''agent'', key_scopes = read_only_scopes,
      key_limits = default_limits, default_database = None\<rparr>"

definition key_context :: "api_key \<Rightarrow> request_context" where
  "key_context k =
     \<lparr>ctx_tenant = key_tenant k, ctx_database = default_database k, ctx_user = key_user k,
      ctx_scopes = key_scopes k, ctx_limits = key_limits k\<rparr>"

definition constant_time_eq :: "string \<Rightarrow> string \<Rightarrow> bool" where
  "constant_time_eq a b =
     (let a = as_bytes a; b = as_bytes b in
      if length a \<noteq> length b then False
      else foldl (\<lambda>diff (x, y). diff OR (x XOR y)) 0 (zip a b) = 0)"

record auth_registry =
  keys :: "api_key list"
  local_identity :: "api_key option"

definition empty_registry :: auth_registry where
  "empty_registry = \<lparr>keys = [], local_identity = None\<rparr>"

definition with_key :: "auth_registry \<Rightarrow> api_key \<Rightarrow> auth_registry" where
  "with_key r k = r\<lparr>keys := keys r @ [k]\<rparr>"

definition with_local_identity :: "auth_registry \<Rightarrow> api_key \<Rightarrow> auth_registry" where
  "with_local_identity r k = r\<lparr>local_identity := Some k\<rparr>"

definition context_for_key :: "auth_registry \<Rightarrow> string \<Rightarrow> request_context result" where
  "context_for_key r presented =
     (let found = foldl (\<lambda>found k. if constant_time_eq (secret k) presented then Some k else found)
                    None (keys r)
      in ok_or (PermissionDenied ''a valid API key'') (map_option key_context found))"

definition local_context :: "auth_registry \<Rightarrow> request_context result" where
  "local_context r =
     ok_or (PermissionDenied ''a configured local identity'') (map_option key_context (local_identity r))"

definition strip_prefix :: "string \<Rightarrow> string \<Rightarrow> string option" where
  "strip_prefix p s = (if take (length p) s = p then Some (drop (length p) s) else None)"

definition is_space :: "char \<Rightarrow> bool" where
  "is_space c \<longleftrightarrow> c = CHR '' '' \<or> (of_char c :: nat) \<in> {9, 10, 11, 12, 13}"

definition trim :: "string \<Rightarrow> string" where
  "trim s = rev (dropWhile is_space (rev (dropWhile is_space s)))"

definition bearer_token :: "string \<Rightarrow> string" where
  "bearer_token h =
     trim (case strip_prefix ''Bearer '' h of
             Some t \<Rightarrow> t
           | None \<Rightarrow> (case strip_prefix ''bearer '' h of Some t \<Rightarrow> t | None \<Rightarrow> h))"

definition context_for_header :: "auth_registry \<Rightarrow> string option \<Rightarrow> request_context result" where
  "context_for_header r header =
     rbind (ok_or (PermissionDenied ''an Authorization: Bearer header'') header) (\<lambda>h.
     context_for_key r (bearer_token h))"

section \<open>Lemmas\<close>

lemma scope_str_inj [simp]: "scope_str a = scope_str b \<longleftrightarrow> a = b"
  by (cases a; cases b) simp_all

lemma scope_roundtrip: "scope_from_str (scope_str s) = Inr s"
  by (cases s) (simp_all add: scope_from_str_def all_scopes_def)

lemma all_scopes_complete: "s \<in> set all_scopes"
  by (cases s) (simp_all add: all_scopes_def)

lemma or_fold_zero:
  "foldl (\<lambda>diff (x, y). diff OR (x XOR y)) d ps = (0 :: u8) \<longleftrightarrow> d = 0 \<and> (\<forall>(x, y) \<in> set ps. x = y)"
proof (induction ps arbitrary: d)
  case (Cons p ps)
  have "d OR (fst p XOR snd p) = 0 \<longleftrightarrow> d = 0 \<and> fst p = snd p"
    unfolding bit_eq_iff by (auto simp: bit_or_iff bit_xor_iff)
  with Cons show ?case by (auto split: prod.splits)
qed simp

lemma constant_time_eq_iff [simp]: "constant_time_eq a b \<longleftrightarrow> a = b"
proof -
  have "(\<forall>(x, y) \<in> set (zip xs ys). x = y) \<longleftrightarrow> xs = ys" if "length xs = length ys" for xs ys :: "u8 list"
    using that by (induction xs ys rule: list_induct2) auto
  then show ?thesis
    unfolding constant_time_eq_def Let_def or_fold_zero
    by (metis as_bytes_inj)
qed

lemma found_iff:
  "foldl (\<lambda>found k. if secret k = p then Some k else found) f ks =
     (case filter (\<lambda>k. secret k = p) ks of [] \<Rightarrow> f | ms \<Rightarrow> Some (last ms))"
  by (induction ks arbitrary: f) (auto split: list.splits)

section \<open>Properties\<close>


definition limits_le :: "query_limits \<Rightarrow> query_limits \<Rightarrow> bool" where
  "limits_le a b \<longleftrightarrow> max_rows a \<le> max_rows b \<and> max_bytes_scanned a \<le> max_bytes_scanned b \<and>
     max_execution_time_ms a \<le> max_execution_time_ms b \<and> max_write_rows a \<le> max_write_rows b"

text \<open>
  Remark: limits only narrow: clamping to a request gives the largest limits below both the
  configured and the requested ones, in every dimension.
\<close>

theorem clamp_never_widens:
  "limits_le x (clamp_to l r) \<longleftrightarrow> limits_le x l \<and> limits_le x r"
  by (auto simp: limits_le_def clamp_to_def)

text \<open>
  Remark: a key with an empty scope set is not a read-only key: no operation at all is allowed under
  its context, reads included.
\<close>

theorem empty_scopes_grant_nothing:
  assumes "key_scopes k = {}"
  shows "require_scope (key_context k) s = Inl (PermissionDenied (scope_str s))"
  using assms by (simp add: require_scope_def has_scope_def key_context_def)

theorem empty_scopes_grant_nothing_witness:
  "require_scope (key_context ((new_key ''k'' ''acme'')\<lparr>key_scopes := {}\<rparr>)) DatabaseRead =
     Inl (PermissionDenied ''database:read'')"
  using empty_scopes_grant_nothing [of "(new_key ''k'' ''acme'')\<lparr>key_scopes := {}\<rparr>" DatabaseRead] by simp

end
