(* ===== verification/Schema.thy ===== *)
theory Schema
  imports Values Ids
begin

text \<open>
  \<open>crates/adb-core/src/schema.rs\<close>: column and table schemas, the validation every schema passes
  before it reaches the catalog, and the check that a proposed schema is a legal evolution of the
  current one. A schema is a record of the source's fields; the builder methods are record
  updates. The Arrow schema is the list of columns itself.
\<close>

section \<open>Data\<close>

definition default_partitions :: nat where
  "default_partitions = 4"

definition max_partitions :: nat where
  "max_partitions = 64"

definition max_columns :: nat where
  "max_columns = 512"

datatype semantic_type =
    SemId | SemCurrency | SemTimestamp | SemCategory | SemCountry | SemEmail | SemUrl
  | SemQuantity | SemScore | SemText | SemBoolean | SemJson | SemOther string

fun sem_wants_bloom :: "semantic_type \<Rightarrow> bool" where
  "sem_wants_bloom SemId = True"
| "sem_wants_bloom SemCategory = True"
| "sem_wants_bloom SemCountry = True"
| "sem_wants_bloom SemEmail = True"
| "sem_wants_bloom _ = False"

fun is_aggregation_hostile :: "semantic_type \<Rightarrow> bool" where
  "is_aggregation_hostile SemId = True"
| "is_aggregation_hostile SemEmail = True"
| "is_aggregation_hostile SemUrl = True"
| "is_aggregation_hostile SemJson = True"
| "is_aggregation_hostile _ = False"

fun semantic_str :: "semantic_type \<Rightarrow> string" where
  "semantic_str SemId = ''id''"
| "semantic_str SemCurrency = ''currency''"
| "semantic_str SemTimestamp = ''timestamp''"
| "semantic_str SemCategory = ''category''"
| "semantic_str SemCountry = ''country''"
| "semantic_str SemEmail = ''email''"
| "semantic_str SemUrl = ''url''"
| "semantic_str SemQuantity = ''quantity''"
| "semantic_str SemScore = ''score''"
| "semantic_str SemText = ''text''"
| "semantic_str SemBoolean = ''boolean''"
| "semantic_str SemJson = ''json''"
| "semantic_str (SemOther s) = s"

datatype aggregation = AggCount | AggSum | AggAvg | AggMin | AggMax

record column_ref =
  ref_table :: string
  ref_column :: string

record column_schema =
  col_name :: string
  col_type :: data_type
  nullable :: bool
  description :: "string option"
  semantic :: "semantic_type option"
  col_unit :: "string option"
  currency :: "string option"
  default_aggregation :: "aggregation option"
  sensitive :: bool
  references :: "column_ref option"

definition new_column :: "string \<Rightarrow> data_type \<Rightarrow> column_schema" where
  "new_column n ty =
     \<lparr>col_name = n, col_type = ty, nullable = True, description = None, semantic = None,
      col_unit = None, currency = None, default_aggregation = None, sensitive = False,
      references = None\<rparr>"

definition wants_bloom_filter :: "column_schema \<Rightarrow> bool" where
  "wants_bloom_filter c \<longleftrightarrow>
     (case semantic c of None \<Rightarrow> False | Some s \<Rightarrow> sem_wants_bloom s) \<or> col_type c = DUuid"

record table_schema =
  tname :: string
  columns :: "column_schema list"
  primary_key :: "string list"
  table_description :: "string option"
  partitions :: nat
  version :: u32

definition new_table :: "string \<Rightarrow> column_schema list \<Rightarrow> table_schema" where
  "new_table n cs =
     \<lparr>tname = n, columns = cs, primary_key = [], table_description = None,
      partitions = default_partitions, version = 1\<rparr>"

section \<open>Lookups\<close>

fun position :: "('a \<Rightarrow> bool) \<Rightarrow> 'a list \<Rightarrow> nat option" where
  "position P [] = None"
| "position P (x # xs) = (if P x then Some 0 else map_option Suc (position P xs))"

definition column :: "table_schema \<Rightarrow> string \<Rightarrow> column_schema option" where
  "column s n = find (\<lambda>c. col_name c = n) (columns s)"

definition column_index :: "table_schema \<Rightarrow> string \<Rightarrow> nat option" where
  "column_index s n = position (\<lambda>c. col_name c = n) (columns s)"

definition require_column :: "table_schema \<Rightarrow> string \<Rightarrow> column_schema result" where
  "require_column s n = ok_or (NotFound ''column'') (column s n)"

definition is_append_only :: "table_schema \<Rightarrow> bool" where
  "is_append_only s \<longleftrightarrow> primary_key s = []"

definition pk_indices :: "table_schema \<Rightarrow> nat list" where
  "pk_indices s = List.map_filter (column_index s) (primary_key s)"

definition default_projection :: "table_schema \<Rightarrow> string list" where
  "default_projection s = map col_name (filter (\<lambda>c. \<not> sensitive c) (columns s))"

section \<open>Validation\<close>

fun default_agg_ok :: "data_type \<Rightarrow> aggregation \<Rightarrow> bool" where
  "default_agg_ok ty AggCount = True"
| "default_agg_ok ty AggSum = is_additive ty"
| "default_agg_ok ty AggAvg = is_additive ty"
| "default_agg_ok ty AggMin = is_ordered ty"
| "default_agg_ok ty AggMax = is_ordered ty"

definition check_column :: "string list \<Rightarrow> column_schema \<Rightarrow> string list result" where
  "check_column seen c =
     rbind (validate_ident (col_name c)) (\<lambda>_.
     if col_name c \<in> set seen then Inl InvalidSchema
     else if currency c \<noteq> None \<and> semantic c \<noteq> Some SemCurrency then Inl InvalidSchema
     else (case default_aggregation c of
             Some agg \<Rightarrow> if default_agg_ok (col_type c) agg then Inr (col_name c # seen)
                        else Inl InvalidSchema
           | None \<Rightarrow> Inr (col_name c # seen)))"

definition check_key :: "table_schema \<Rightarrow> string list \<Rightarrow> string \<Rightarrow> string list result" where
  "check_key s seen k =
     rbind (ok_or InvalidSchema (column s k)) (\<lambda>c.
     if k \<in> set seen then Inl InvalidSchema
     else if nullable c then Inl InvalidSchema
     else if col_type c = DFloat64 \<or> col_type c = DJson then Inl InvalidSchema
     else Inr (k # seen))"

definition validate_schema :: "table_schema \<Rightarrow> unit result" where
  "validate_schema s =
     (if columns s = [] then Inl InvalidSchema
      else if max_columns < length (columns s) then Inl InvalidSchema
      else if partitions s = 0 \<or> max_partitions < partitions s then Inl InvalidSchema
      else rbind (foldM check_column [] (columns s)) (\<lambda>_.
           rbind (foldM (check_key s) [] (primary_key s)) (\<lambda>_. Inr ())))"

definition check_existing :: "table_schema \<Rightarrow> column_schema \<Rightarrow> unit result" where
  "check_existing next existing =
     (case column next (col_name existing) of
        None \<Rightarrow> Inl Unsupported
      | Some updated \<Rightarrow>
          if col_type updated \<noteq> col_type existing then Inl Unsupported
          else if nullable updated \<noteq> nullable existing then Inl Unsupported
          else Inr ())"

definition check_evolution :: "table_schema \<Rightarrow> table_schema \<Rightarrow> unit result" where
  "check_evolution s next =
     rbind (validate_schema next) (\<lambda>_.
     if tname next \<noteq> tname s then Inl InvalidSchema
     else if primary_key next \<noteq> primary_key s then Inl Unsupported
     else if partitions next \<noteq> partitions s then Inl Unsupported
     else rbind (forM (check_existing next) (columns s)) (\<lambda>_.
          forM (\<lambda>added. guard (\<not> (column s (col_name added) = None \<and> \<not> nullable added)) InvalidSchema)
            (columns next)))"

section \<open>Lemmas\<close>

lemma position_Some: "position P xs = Some i \<Longrightarrow> i < length xs \<and> P (xs ! i)"
  by (induction xs arbitrary: i) (auto split: if_splits)

lemma position_None: "position P xs = None \<longleftrightarrow> (\<forall>x \<in> set xs. \<not> P x)"
  by (induction xs) auto

lemma position_find: "find P xs = map_option (\<lambda>i. xs ! i) (position P xs)"
  by (induction xs) (auto simp: option.map_comp comp_def)

lemma column_set: "column s n = Some c \<Longrightarrow> c \<in> set (columns s) \<and> col_name c = n"
  unfolding column_def by (drule find_Some_set)

lemma column_None: "column s n = None \<longleftrightarrow> n \<notin> col_name ` set (columns s)"
  by (auto simp: column_def find_None_all)

lemma column_index_column:
  "column_index s n = Some i \<Longrightarrow> i < length (columns s) \<and> col_name (columns s ! i) = n \<and>
   column s n = Some (columns s ! i)"
  using position_Some [of _ "columns s" i] unfolding column_index_def column_def position_find
  by auto

lemma column_index_Some_iff: "(\<exists>i. column_index s n = Some i) \<longleftrightarrow> (\<exists>c. column s n = Some c)"
  by (auto simp: column_index_def column_def position_find)

lemma check_column_iff [result_simps]:
  "check_column seen c = Inr seen' \<longleftrightarrow> seen' = col_name c # seen \<and> col_name c \<notin> set seen \<and>
     ident_ok (col_name c) \<and> (currency c \<noteq> None \<longrightarrow> semantic c = Some SemCurrency) \<and>
     (\<forall>agg. default_aggregation c = Some agg \<longrightarrow> default_agg_ok (col_type c) agg)"
  by (auto simp: check_column_def ident_ok_def result_simps split: option.splits if_splits)

definition column_ok :: "column_schema \<Rightarrow> bool" where
  "column_ok c \<longleftrightarrow> ident_ok (col_name c) \<and> (currency c \<noteq> None \<longrightarrow> semantic c = Some SemCurrency) \<and>
     (\<forall>agg. default_aggregation c = Some agg \<longrightarrow> default_agg_ok (col_type c) agg)"

definition key_column_ok :: "column_schema \<Rightarrow> bool" where
  "key_column_ok c \<longleftrightarrow> \<not> nullable c \<and> col_type c \<noteq> DFloat64 \<and> col_type c \<noteq> DJson"

lemma check_columns_iff:
  "is_ok (foldM check_column seen cs) \<longleftrightarrow>
     distinct (map col_name cs) \<and> set seen \<inter> col_name ` set cs = {} \<and> (\<forall>c \<in> set cs. column_ok c)"
  by (induction cs arbitrary: seen) (auto simp: result_simps column_ok_def)

lemma check_key_iff [result_simps]:
  "check_key s seen k = Inr seen' \<longleftrightarrow> seen' = k # seen \<and> k \<notin> set seen \<and>
     (\<exists>c. column s k = Some c \<and> key_column_ok c)"
  by (auto simp: check_key_def key_column_ok_def result_simps split: if_splits)

lemma check_keys_iff:
  "is_ok (foldM (check_key s) seen ks) \<longleftrightarrow>
     distinct ks \<and> set seen \<inter> set ks = {} \<and> (\<forall>k \<in> set ks. \<exists>c. column s k = Some c \<and> key_column_ok c)"
  by (induction ks arbitrary: seen) (auto simp: result_simps)

text \<open>What validation establishes.\<close>

definition schema_ok :: "table_schema \<Rightarrow> bool" where
  "schema_ok s \<longleftrightarrow> columns s \<noteq> [] \<and> length (columns s) \<le> max_columns \<and>
     0 < partitions s \<and> partitions s \<le> max_partitions \<and>
     distinct (map col_name (columns s)) \<and> list_all column_ok (columns s) \<and>
     distinct (primary_key s) \<and>
     list_all (\<lambda>k. case column s k of None \<Rightarrow> False | Some c \<Rightarrow> key_column_ok c) (primary_key s)"

lemma validate_schema_iff: "validate_schema s = Inr u \<longleftrightarrow> schema_ok s"
proof -
  have "validate_schema s = Inr u \<longleftrightarrow> columns s \<noteq> [] \<and> length (columns s) \<le> max_columns \<and>
      0 < partitions s \<and> partitions s \<le> max_partitions \<and>
      is_ok (foldM check_column [] (columns s)) \<and> is_ok (foldM (check_key s) [] (primary_key s))"
    by (auto simp: validate_schema_def result_simps)
  then show ?thesis
    unfolding check_columns_iff check_keys_iff schema_ok_def
    by (auto simp: list_all_iff split: option.splits)
qed

lemma key_columnE:
  assumes "schema_ok s" "k \<in> set (primary_key s)"
  obtains c i where "column s k = Some c" "column_index s k = Some i" "i < length (columns s)"
    "c = columns s ! i" "col_name c = k" "key_column_ok c"
proof -
  obtain c where c: "column s k = Some c" "key_column_ok c"
    using assms by (auto simp: schema_ok_def list_all_iff split: option.splits)
  then obtain i where i: "column_index s k = Some i" using column_index_Some_iff by blast
  then show ?thesis using that c column_index_column [OF i] by auto
qed

lemma pk_indices_map: "schema_ok s \<Longrightarrow> map Some (pk_indices s) = map (column_index s) (primary_key s)"
proof -
  assume s: "schema_ok s"
  have "set ks \<subseteq> set (primary_key s) \<Longrightarrow>
      map Some (List.map_filter (column_index s) ks) = map (column_index s) ks" for ks
  proof (induction ks)
    case (Cons k ks)
    then obtain i where "column_index s k = Some i" using key_columnE [OF s] by (metis list.set_intros(1) subsetD)
    with Cons show ?case by (simp add: map_filter_simps)
  qed (simp add: map_filter_simps)
  then show ?thesis unfolding pk_indices_def by blast
qed

lemma pk_indices_spec:
  assumes "schema_ok s"
  shows "length (pk_indices s) = length (primary_key s)"
    and "\<And>j. j < length (primary_key s) \<Longrightarrow> column_index s (primary_key s ! j) = Some (pk_indices s ! j)"
  using pk_indices_map [OF assms] by (metis length_map, metis length_map nth_map)

lemma find_by_name:
  "distinct (map col_name (columns s)) \<Longrightarrow> c \<in> set (columns s) \<Longrightarrow> column s (col_name c) = Some c"
  unfolding column_def by (rule find_unique)

lemma check_existing_iff [result_simps]:
  "check_existing next c = Inr u \<longleftrightarrow>
     (\<exists>d. column next (col_name c) = Some d \<and> col_type d = col_type c \<and> nullable d = nullable c)"
  by (auto simp: check_existing_def split: option.splits if_splits)

lemma check_evolution_iff:
  "check_evolution s next = Inr u \<longleftrightarrow> schema_ok next \<and> tname next = tname s \<and>
     primary_key next = primary_key s \<and> partitions next = partitions s \<and>
     (\<forall>c \<in> set (columns s). \<exists>d. column next (col_name c) = Some d \<and> col_type d = col_type c \<and>
        nullable d = nullable c) \<and>
     (\<forall>d \<in> set (columns next). column s (col_name d) = None \<longrightarrow> nullable d)"
  by (auto simp: check_evolution_def result_simps forM_Inr_iff validate_schema_iff)

section \<open>Properties\<close>

text \<open>
  Remark: in an accepted schema the primary key resolves: there is one position per key column, the
  positions are distinct and in range, and the columns there carry the key's names, are not
  nullable and have no float or JSON type.
\<close>

theorem primary_key_resolves:
  assumes "validate_schema s = Inr u"
  shows "length (pk_indices s) = length (primary_key s) \<and> distinct (pk_indices s) \<and>
    (\<forall>i < length (pk_indices s).
       let c = columns s ! (pk_indices s ! i) in
         pk_indices s ! i < length (columns s) \<and> col_name c = primary_key s ! i \<and>
         \<not> nullable c \<and> col_type c \<noteq> DFloat64 \<and> col_type c \<noteq> DJson)"
proof -
  have ok: "schema_ok s" using assms by (simp add: validate_schema_iff)
  have len: "length (pk_indices s) = length (primary_key s)" by (rule pk_indices_spec(1) [OF ok])
  have at: "pk_indices s ! i < length (columns s) \<and> col_name (columns s ! (pk_indices s ! i)) = primary_key s ! i \<and>
      key_column_ok (columns s ! (pk_indices s ! i))" if i: "i < length (primary_key s)" for i
  proof -
    have "primary_key s ! i \<in> set (primary_key s)" using i by simp
    from key_columnE [OF ok this] show ?thesis using pk_indices_spec(2) [OF ok i] by (metis option.sel)
  qed
  have "distinct (pk_indices s)"
    unfolding distinct_conv_nth
  proof (intro allI impI)
    fix i j assume "i < length (pk_indices s)" "j < length (pk_indices s)" "i \<noteq> j"
    then have "primary_key s ! i \<noteq> primary_key s ! j"
      using ok len by (auto simp: schema_ok_def nth_eq_iff_index_eq)
    then show "pk_indices s ! i \<noteq> pk_indices s ! j"
      using at [of i] at [of j] len \<open>i < _\<close> \<open>j < _\<close> by auto
  qed
  then show ?thesis using len at by (simp add: Let_def key_column_ok_def)
qed

definition demo_schema :: table_schema where
  "demo_schema = (new_table ''orders''
     [(new_column ''id'' DInt64)\<lparr>nullable := False\<rparr>, new_column ''country'' DUtf8])
     \<lparr>primary_key := [''id''], partitions := 1\<rparr>"

lemma demo_schema_ok: "validate_schema demo_schema = Inr ()"
  by (simp add: validate_schema_iff schema_ok_def demo_schema_def new_table_def new_column_def
    max_columns_def max_partitions_def column_ok_def key_column_ok_def column_def ident_ok_iff
    max_ident_len_def ident_char_def is_ascii_lowercase_def is_ascii_digit_def)

theorem primary_key_resolves_witness: "length (pk_indices demo_schema) = 1"
  using primary_key_resolves [OF demo_schema_ok] by (simp add: demo_schema_def)

text \<open>
  Remark: schema evolution composes: a schema accepted as a successor of a successor is itself an
  accepted successor, so data written under any earlier version has, under the current one, the
  same key, partition count and types, and every column it lacks is nullable.
\<close>

theorem evolution_transitive:
  assumes "check_evolution a b = Inr u" and "check_evolution b c = Inr v"
  shows "check_evolution a c = Inr ()"
proof -
  note ab = assms(1) [unfolded check_evolution_iff] and bc = assms(2) [unfolded check_evolution_iff]
  have "\<exists>d. column c (col_name x) = Some d \<and> col_type d = col_type x \<and> nullable d = nullable x"
    if "x \<in> set (columns a)" for x
  proof -
    obtain y where y: "column b (col_name x) = Some y" "col_type y = col_type x" "nullable y = nullable x"
      using ab \<open>x \<in> _\<close> by blast
    then obtain z where "column c (col_name y) = Some z" "col_type z = col_type y" "nullable z = nullable y"
      using bc column_set by blast
    then show ?thesis using y column_set by metis
  qed
  moreover have "nullable z" if z: "z \<in> set (columns c)" "column a (col_name z) = None" for z
  proof (cases "column b (col_name z)")
    case None
    then show ?thesis using bc z by blast
  next
    case (Some y)
    then have y: "y \<in> set (columns b)" "col_name y = col_name z" using column_set by auto
    then have "nullable y" using ab z by auto
    moreover obtain w where w: "column c (col_name y) = Some w" "nullable w = nullable y"
      using bc y by blast
    moreover have "w = z"
      using w(1) y z(1) find_by_name [of c z] bc by (auto simp: schema_ok_def)
    ultimately show ?thesis by simp
  qed
  ultimately show ?thesis using ab bc by (auto simp: check_evolution_iff)
qed

theorem evolution_transitive_witness:
  "check_evolution demo_schema
     (demo_schema\<lparr>columns := columns demo_schema @ [new_column ''city'' DUtf8]\<rparr>) = Inr ()"
proof -
  let ?b = "demo_schema\<lparr>columns := columns demo_schema @ [new_column ''city'' DUtf8]\<rparr>"
  have b: "schema_ok ?b"
    by (simp add: schema_ok_def demo_schema_def new_table_def new_column_def
      max_columns_def max_partitions_def column_ok_def key_column_ok_def column_def ident_ok_iff
      max_ident_len_def ident_char_def is_ascii_lowercase_def is_ascii_digit_def)
  have "check_evolution demo_schema demo_schema = Inr ()" "check_evolution demo_schema ?b = Inr ()"
    using demo_schema_ok b unfolding check_evolution_iff validate_schema_iff
    by (simp_all add: demo_schema_def new_table_def new_column_def column_def)
  then show ?thesis by (rule evolution_transitive)
qed

end
