(* ===== verification/Maps.thy ===== *)
theory Maps
  imports Prelude "HOL-Library.AList"
begin

text \<open>
  Finite maps. \<open>BTreeMap\<close> is an association list kept in the order of its keys (iteration
  order matters: \<open>list_tables\<close>, segment order), \<open>HashMap\<close> an association list without repeated
  keys (the code never depends on its iteration order). \<open>finite_map\<close> is the contract both
  give; its client lemmas are about batches of updates.
\<close>

type_synonym ('k, 'v) btree = "('k \<times> 'v) list"

fun bt_insert :: "'k::linorder \<Rightarrow> 'v \<Rightarrow> ('k, 'v) btree \<Rightarrow> ('k, 'v) btree" where
  "bt_insert k v [] = [(k, v)]"
| "bt_insert k v ((k', v') # m) =
     (if k < k' then (k, v) # (k', v') # m
      else if k = k' then (k, v) # m
      else (k', v') # bt_insert k v m)"

definition bt_get :: "('k, 'v) btree \<Rightarrow> 'k \<Rightarrow> 'v option" where
  "bt_get m k = map_of m k"

definition bt_remove :: "'k \<Rightarrow> ('k, 'v) btree \<Rightarrow> ('k, 'v) btree" where
  "bt_remove k m = filter (\<lambda>(k', _). k' \<noteq> k) m"

definition bt_keys :: "('k, 'v) btree \<Rightarrow> 'k list" where
  "bt_keys m = map fst m"

definition bt_values :: "('k, 'v) btree \<Rightarrow> 'v list" where
  "bt_values m = map snd m"

definition bt_ok :: "('k::linorder, 'v) btree \<Rightarrow> bool" where
  "bt_ok m \<longleftrightarrow> sorted_wrt (<) (map fst m)"

lemma bt_get_Nil [simp]: "bt_get [] k = None"
  by (simp add: bt_get_def)

lemma bt_ok_Nil [simp]: "bt_ok []"
  by (simp add: bt_ok_def)

lemma fst_bt_insert: "fst ` set (bt_insert k v m) = insert k (fst ` set m)"
  by (induction k v m rule: bt_insert.induct) auto

lemma bt_ok_insert: "bt_ok m \<Longrightarrow> bt_ok (bt_insert k v m)"
proof (induction k v m rule: bt_insert.induct)
  case (2 k v k' v' m)
  then show ?case
    using fst_bt_insert [of k v m] by (auto simp: bt_ok_def order.strict_trans)
qed (simp add: bt_ok_def)

lemma bt_get_insert: "bt_ok m \<Longrightarrow> bt_get (bt_insert k v m) j = (if j = k then Some v else bt_get m j)"
  by (induction k v m rule: bt_insert.induct) (auto simp: bt_get_def bt_ok_def)

lemma bt_ok_remove: "bt_ok m \<Longrightarrow> bt_ok (bt_remove k m)"
  by (induction m) (auto simp: bt_ok_def bt_remove_def)

lemma bt_get_remove: "bt_get (bt_remove k m) j = (if j = k then None else bt_get m j)"
  by (induction m) (auto simp: bt_get_def bt_remove_def)

lemma bt_get_set: "bt_get m k = Some v \<Longrightarrow> (k, v) \<in> set m"
  unfolding bt_get_def by (rule map_of_SomeD)

lemma bt_ok_distinct: "bt_ok m \<Longrightarrow> distinct (map fst m)"
  by (simp add: bt_ok_def strict_sorted_iff)

lemma bt_set_get: "bt_ok m \<Longrightarrow> (k, v) \<in> set m \<longleftrightarrow> bt_get m k = Some v"
  unfolding bt_get_def by (metis bt_ok_distinct map_of_eq_Some_iff)

lemma set_bt_insert: "set (bt_insert k v m) \<subseteq> insert (k, v) (set m)"
  by (induction k v m rule: bt_insert.induct) auto

lemma set_bt_remove: "set (bt_remove k m) \<subseteq> set m"
  by (auto simp: bt_remove_def)

locale finite_map =
  fixes get :: "'m \<Rightarrow> 'k \<Rightarrow> 'v option"
    and insert :: "'k \<Rightarrow> 'v \<Rightarrow> 'm \<Rightarrow> 'm"
    and remove :: "'k \<Rightarrow> 'm \<Rightarrow> 'm"
    and keys :: "'m \<Rightarrow> 'k list"
    and ok :: "'m \<Rightarrow> bool"
  assumes get_insert: "ok m \<Longrightarrow> get (insert k v m) j = (if j = k then Some v else get m j)"
    and get_remove: "ok m \<Longrightarrow> get (remove k m) j = (if j = k then None else get m j)"
    and ok_insert: "ok m \<Longrightarrow> ok (insert k v m)"
    and ok_remove: "ok m \<Longrightarrow> ok (remove k m)"
    and keys_exact: "ok m \<Longrightarrow> distinct (keys m) \<and> set (keys m) = {k. get m k \<noteq> None}"
begin

lemma get_inserts:
  "ok m \<Longrightarrow> ok (fold (\<lambda>(k, v). insert k v) kvs m) \<and>
   get (fold (\<lambda>(k, v). insert k v) kvs m) j =
     (case map_of (rev kvs) j of Some v \<Rightarrow> Some v | None \<Rightarrow> get m j)"
proof (induction kvs arbitrary: m)
  case (Cons kv kvs)
  obtain k v where kv: "kv = (k, v)" by (cases kv)
  have "ok (insert k v m)" using Cons.prems by (rule ok_insert)
  from Cons.IH [OF this] show ?case
    using get_insert [OF Cons.prems] by (auto simp: kv map_add_def split: option.splits)
qed simp

lemma get_removes:
  "ok m \<Longrightarrow> ok (fold remove ks m) \<and> get (fold remove ks m) j = (if j \<in> set ks then None else get m j)"
proof (induction ks arbitrary: m)
  case (Cons k ks)
  have "ok (remove k m)" using Cons.prems by (rule ok_remove)
  from Cons.IH [OF this] show ?case using get_remove [OF Cons.prems] by auto
qed simp

lemma finite_dom: "ok m \<Longrightarrow> finite {k. get m k \<noteq> None}"
  using keys_exact by (metis List.finite_set)

lemma length_keys: "ok m \<Longrightarrow> length (keys m) = card {k. get m k \<noteq> None}"
  using keys_exact [of m] distinct_card by fastforce

end

interpretation bt: finite_map bt_get bt_insert bt_remove bt_keys bt_ok
proof
  fix m :: "('k::linorder, 'v) btree"
  assume "bt_ok m"
  then show "distinct (bt_keys m) \<and> set (bt_keys m) = {k. bt_get m k \<noteq> None}"
    by (auto simp: bt_keys_def bt_get_def map_of_eq_None_iff dest: bt_ok_distinct)
qed (auto simp: bt_get_insert bt_get_remove bt_ok_insert bt_ok_remove)

interpretation hm: finite_map map_of AList.update AList.delete "map fst" "\<lambda>m. distinct (map fst m)"
  by unfold_locales
    (auto simp: update_conv' delete_conv' distinct_update distinct_delete map_of_eq_None_iff)

end
