(* ===== verification/Catalog.thy ===== *)
theory Catalog
  imports Schema Maps
begin

text \<open>
  \<open>crates/adb-core/src/catalog.rs\<close>: the catalog of tenants, databases and tables, the mutations
  that change it, their replay, and the lock-free \<open>Catalog\<close> around it. \<open>Arc\<close> is transparent: a
  snapshot is a value. The cell of \<open>ArcSwap\<close> is a pointer identity with the snapshot behind it,
  so that the compare-and-swap loop of \<open>Catalog::apply\<close> can be run by several threads
  (\<open>cas_step\<close>).
\<close>

section \<open>Snapshots and mutations\<close>

datatype ddl_mutation =
    CreateDatabase string string
  | DropDatabase string string
  | CreateTable string string table_schema
  | DropTable string string string
  | UpdateSchema string string table_schema

fun ddl_tenant :: "ddl_mutation \<Rightarrow> string" where
  "ddl_tenant (CreateDatabase t d) = t"
| "ddl_tenant (DropDatabase t d) = t"
| "ddl_tenant (CreateTable t d s) = t"
| "ddl_tenant (DropTable t d n) = t"
| "ddl_tenant (UpdateSchema t d s) = t"

fun ddl_database :: "ddl_mutation \<Rightarrow> string" where
  "ddl_database (CreateDatabase t d) = d"
| "ddl_database (DropDatabase t d) = d"
| "ddl_database (CreateTable t d s) = d"
| "ddl_database (DropTable t d n) = d"
| "ddl_database (UpdateSchema t d s) = d"

record database_meta =
  tables :: "(string, table_schema) btree"

record catalog_snapshot =
  tenants :: "(string, (string, database_meta) btree) btree"
  epoch :: nat

definition empty_catalog :: catalog_snapshot where
  "empty_catalog = \<lparr>tenants = [], epoch = 0\<rparr>"

definition databases :: "catalog_snapshot \<Rightarrow> string \<Rightarrow> string list" where
  "databases c t = (case bt_get (tenants c) t of Some dbs \<Rightarrow> bt_keys dbs | None \<Rightarrow> [])"

definition database :: "catalog_snapshot \<Rightarrow> string \<Rightarrow> string \<Rightarrow> database_meta result" where
  "database c t d =
     ok_or (NotFound ''database'') (Option.bind (bt_get (tenants c) t) (\<lambda>dbs. bt_get dbs d))"

definition has_database :: "catalog_snapshot \<Rightarrow> string \<Rightarrow> string \<Rightarrow> bool" where
  "has_database c t d = is_ok (database c t d)"

definition list_tables :: "catalog_snapshot \<Rightarrow> string \<Rightarrow> string \<Rightarrow> table_schema list result" where
  "list_tables c t d = rbind (database c t d) (\<lambda>db. Inr (bt_values (tables db)))"

definition lookup_table :: "catalog_snapshot \<Rightarrow> string \<Rightarrow> string \<Rightarrow> string \<Rightarrow> table_schema result" where
  "lookup_table c t d n =
     rbind (database c t d) (\<lambda>db. ok_or (NotFound ''table'') (bt_get (tables db) n))"

text \<open>Write back a database that \<open>get_mut\<close> gave.\<close>

definition put_database ::
    "catalog_snapshot \<Rightarrow> string \<Rightarrow> string \<Rightarrow> database_meta \<Rightarrow> catalog_snapshot" where
  "put_database c t d db =
     (let dbs = (case bt_get (tenants c) t of Some dbs \<Rightarrow> dbs | None \<Rightarrow> [])
      in c\<lparr>tenants := bt_insert t (bt_insert d db dbs) (tenants c)\<rparr>)"

fun apply_ddl :: "catalog_snapshot \<Rightarrow> ddl_mutation \<Rightarrow> catalog_snapshot result" where
  "apply_ddl c (CreateDatabase t d) =
     (let next = c\<lparr>epoch := epoch c + 1\<rparr>;
          dbs = (case bt_get (tenants next) t of Some dbs \<Rightarrow> dbs | None \<Rightarrow> [])
      in if bt_get dbs d \<noteq> None then Inl (AlreadyExists ''database'')
         else Inr (put_database next t d \<lparr>tables = []\<rparr>))"
| "apply_ddl c (DropDatabase t d) =
     (let next = c\<lparr>epoch := epoch c + 1\<rparr> in
      rbind (ok_or (NotFound ''database'') (bt_get (tenants next) t)) (\<lambda>dbs.
      rbind (ok_or (NotFound ''database'') (bt_get dbs d)) (\<lambda>_.
      Inr (next\<lparr>tenants := bt_insert t (bt_remove d dbs) (tenants next)\<rparr>))))"
| "apply_ddl c (CreateTable t d s) =
     (let next = c\<lparr>epoch := epoch c + 1\<rparr> in
      rbind (validate_schema s) (\<lambda>_.
      rbind (database next t d) (\<lambda>db.
      if bt_get (tables db) (tname s) \<noteq> None then Inl (AlreadyExists ''table'')
      else Inr (put_database next t d (db\<lparr>tables := bt_insert (tname s) s (tables db)\<rparr>)))))"
| "apply_ddl c (DropTable t d n) =
     (let next = c\<lparr>epoch := epoch c + 1\<rparr> in
      rbind (database next t d) (\<lambda>db.
      rbind (ok_or (NotFound ''table'') (bt_get (tables db) n)) (\<lambda>_.
      Inr (put_database next t d (db\<lparr>tables := bt_remove n (tables db)\<rparr>)))))"
| "apply_ddl c (UpdateSchema t d s) =
     (let next = c\<lparr>epoch := epoch c + 1\<rparr> in
      rbind (database next t d) (\<lambda>db.
      rbind (ok_or (NotFound ''table'') (bt_get (tables db) (tname s))) (\<lambda>existing.
      rbind (check_evolution existing s) (\<lambda>_.
      Inr (put_database next t d
        (db\<lparr>tables := bt_insert (tname s) (s\<lparr>version := version existing + 1\<rparr>) (tables db)\<rparr>))))))"

definition replay_ddl :: "ddl_mutation list \<Rightarrow> catalog_snapshot result" where
  "replay_ddl ms = foldM apply_ddl empty_catalog ms"

section \<open>Well-formed catalogs\<close>

definition table_entry_ok :: "string \<Rightarrow> table_schema \<Rightarrow> bool" where
  "table_entry_ok n s \<longleftrightarrow> tname s = n \<and> schema_ok s"

definition database_ok :: "database_meta \<Rightarrow> bool" where
  "database_ok db \<longleftrightarrow> bt_ok (tables db) \<and>
     (\<forall>n s. bt_get (tables db) n = Some s \<longrightarrow> table_entry_ok n s)"

definition catalog_ok :: "catalog_snapshot \<Rightarrow> bool" where
  "catalog_ok c \<longleftrightarrow> bt_ok (tenants c) \<and>
     (\<forall>t dbs. bt_get (tenants c) t = Some dbs \<longrightarrow>
        bt_ok dbs \<and> (\<forall>d db. bt_get dbs d = Some db \<longrightarrow> database_ok db))"

lemma catalog_ok_empty [simp]: "catalog_ok empty_catalog"
  by (simp add: catalog_ok_def empty_catalog_def)

lemma catalog_ok_epoch [simp]: "catalog_ok (c\<lparr>epoch := n\<rparr>) = catalog_ok c"
  by (simp add: catalog_ok_def)

lemma database_epoch [simp]: "database (c\<lparr>epoch := n\<rparr>) = database c"
  by (intro ext) (simp add: database_def)

lemma database_Inr [result_simps]:
  "database c t d = Inr db \<longleftrightarrow> (\<exists>dbs. bt_get (tenants c) t = Some dbs \<and> bt_get dbs d = Some db)"
  by (auto simp: database_def result_simps bind_eq_Some_conv)

lemma database_wf: "catalog_ok c \<Longrightarrow> database c t d = Inr db \<Longrightarrow> database_ok db"
  by (auto simp: catalog_ok_def result_simps)

lemma catalog_ok_put: "catalog_ok c \<Longrightarrow> database_ok db \<Longrightarrow> catalog_ok (put_database c t d db)"
  by (auto simp: catalog_ok_def put_database_def Let_def bt_get_insert bt_ok_insert
      split: option.splits if_splits)

lemma database_put:
  "catalog_ok c \<Longrightarrow>
   database (put_database c t d db) t' d' = (if t' = t \<and> d' = d then Inr db else database c t' d')"
  by (auto simp: catalog_ok_def put_database_def Let_def database_def bt_get_insert
      split: option.splits)

lemma database_ok_insert:
  "database_ok db \<Longrightarrow> table_entry_ok n s \<Longrightarrow> database_ok (db\<lparr>tables := bt_insert n s (tables db)\<rparr>)"
  by (auto simp: database_ok_def bt_get_insert bt_ok_insert split: if_splits)

lemma database_ok_remove: "database_ok db \<Longrightarrow> database_ok (db\<lparr>tables := bt_remove n (tables db)\<rparr>)"
  by (auto simp: database_ok_def bt_get_remove bt_ok_remove split: if_splits)

lemma schema_ok_version [simp]: "schema_ok (s\<lparr>version := v\<rparr>) = schema_ok s"
  by (simp add: schema_ok_def column_def)

lemma apply_ddl_ok:
  assumes "catalog_ok c" "apply_ddl c m = Inr c'"
  shows "catalog_ok c'"
proof (cases m)
  case (CreateDatabase t d)
  then show ?thesis
    using assms by (auto simp: Let_def database_ok_def intro!: catalog_ok_put split: if_splits)
next
  case (DropDatabase t d)
  then show ?thesis
    using assms
    by (auto simp: Let_def result_simps catalog_ok_def bt_get_insert bt_get_remove bt_ok_insert
        bt_ok_remove split: if_splits)
next
  case (CreateTable t d s)
  then show ?thesis
    using assms database_wf [of c t d]
    by (auto simp: Let_def result_simps table_entry_ok_def validate_schema_iff
        intro!: catalog_ok_put database_ok_insert split: if_splits)
next
  case (DropTable t d n)
  then show ?thesis
    using assms database_wf [of c t d]
    by (auto simp: Let_def result_simps intro!: catalog_ok_put database_ok_remove)
next
  case (UpdateSchema t d s)
  then show ?thesis
    using assms database_wf [of c t d]
    by (auto simp: Let_def result_simps table_entry_ok_def check_evolution_iff
        intro!: catalog_ok_put database_ok_insert)
qed

section \<open>The abstract catalog\<close>

text \<open>
  What the catalog promises, free of its nesting: which databases exist and the schema of every
  table. \<open>ddl_spec\<close> says when a mutation is accepted, with which error it is refused and what it
  changes.
\<close>

type_synonym abstract_catalog = "string \<times> string \<Rightarrow> (string \<Rightarrow> table_schema option) option"

definition catalog_abs :: "catalog_snapshot \<Rightarrow> abstract_catalog" where
  "catalog_abs c = (\<lambda>(t, d). case database c t d of Inl _ \<Rightarrow> None | Inr db \<Rightarrow> Some (bt_get (tables db)))"

fun ddl_spec :: "abstract_catalog \<Rightarrow> ddl_mutation \<Rightarrow> abstract_catalog result" where
  "ddl_spec A (CreateDatabase t d) =
     (if A (t, d) \<noteq> None then Inl (AlreadyExists ''database'')
      else Inr (A((t, d) \<mapsto> \<lambda>_. None)))"
| "ddl_spec A (DropDatabase t d) =
     (if A (t, d) = None then Inl (NotFound ''database'') else Inr (A((t, d) := None)))"
| "ddl_spec A (CreateTable t d s) =
     rbind (validate_schema s) (\<lambda>_. case A (t, d) of
       None \<Rightarrow> Inl (NotFound ''database'')
     | Some T \<Rightarrow> if T (tname s) \<noteq> None then Inl (AlreadyExists ''table'')
                else Inr (A((t, d) \<mapsto> T(tname s \<mapsto> s))))"
| "ddl_spec A (DropTable t d n) = (case A (t, d) of
       None \<Rightarrow> Inl (NotFound ''database'')
     | Some T \<Rightarrow> if T n = None then Inl (NotFound ''table'')
                else Inr (A((t, d) \<mapsto> T(n := None))))"
| "ddl_spec A (UpdateSchema t d s) = (case A (t, d) of
       None \<Rightarrow> Inl (NotFound ''database'')
     | Some T \<Rightarrow> (case T (tname s) of
           None \<Rightarrow> Inl (NotFound ''table'')
         | Some old \<Rightarrow> rbind (check_evolution old s) (\<lambda>_.
             Inr (A((t, d) \<mapsto> T(tname s \<mapsto> s\<lparr>version := version old + 1\<rparr>))))))"

lemma catalog_abs_epoch [simp]: "catalog_abs (c\<lparr>epoch := n\<rparr>) = catalog_abs c"
  by (simp add: catalog_abs_def)

lemma catalog_abs_put:
  "catalog_ok c \<Longrightarrow> catalog_abs (put_database c t d db) = (catalog_abs c)((t, d) \<mapsto> bt_get (tables db))"
  by (auto simp: catalog_abs_def database_put fun_eq_iff)

lemma database_Inl: "database c t d = Inl e \<Longrightarrow> e = NotFound ''database''"
  by (auto simp: database_def result_simps)

lemma catalog_abs_None: "catalog_abs c (t, d) = None \<longleftrightarrow> database c t d = Inl (NotFound ''database'')"
  using database_Inl by (auto simp: catalog_abs_def split: sum.splits)

lemma catalog_abs_Some:
  "catalog_abs c (t, d) = Some T \<longleftrightarrow> (\<exists>db. database c t d = Inr db \<and> T = bt_get (tables db))"
  by (auto simp: catalog_abs_def split: sum.splits)

lemma bt_get_fun_insert: "bt_ok m \<Longrightarrow> bt_get (bt_insert k v m) = (bt_get m)(k \<mapsto> v)"
  by (auto simp: bt_get_insert fun_eq_iff)

lemma bt_get_fun_remove: "bt_get (bt_remove k m) = (bt_get m)(k := None)"
  by (auto simp: bt_get_remove fun_eq_iff)

lemma catalog_abs_drop:
  assumes "catalog_ok c" "bt_get (tenants c) t = Some dbs"
  shows "catalog_abs (c\<lparr>tenants := bt_insert t (bt_remove d dbs) (tenants c)\<rparr>) = (catalog_abs c)((t, d) := None)"
  using assms
  by (auto simp: catalog_abs_def database_def bt_get_insert bt_get_remove catalog_ok_def fun_eq_iff)

lemma no_database:
  "database c t d = Inl e \<longleftrightarrow> e = NotFound ''database'' \<and>
     (case bt_get (tenants c) t of None \<Rightarrow> True | Some dbs \<Rightarrow> bt_get dbs d = None)"
  by (auto simp: database_def result_simps split: option.splits)

lemma apply_ddl_refines:
  assumes "catalog_ok c"
  shows "rmap catalog_abs (apply_ddl c m) = ddl_spec (catalog_abs c) m"
proof (cases m)
  case (CreateDatabase t d)
  let ?c = "c\<lparr>epoch := epoch c + 1\<rparr>"
  have "bt_get (case bt_get (tenants c) t of Some dbs \<Rightarrow> dbs | None \<Rightarrow> []) d \<noteq> None \<longleftrightarrow>
      catalog_abs c (t, d) \<noteq> None"
    unfolding catalog_abs_None no_database by (auto split: option.splits)
  then show ?thesis
    using catalog_abs_put [of ?c t d "\<lparr>tables = []\<rparr>"] assms
    by (auto simp: CreateDatabase Let_def fun_eq_iff)
next
  case (DropDatabase t d)
  let ?c = "c\<lparr>epoch := epoch c + 1\<rparr>"
  show ?thesis
  proof (cases "catalog_abs c (t, d)")
    case None
    then show ?thesis unfolding catalog_abs_None no_database
      by (auto simp: DropDatabase Let_def catalog_abs_None no_database split: option.splits)
  next
    case (Some T)
    then obtain dbs db where "bt_get (tenants c) t = Some dbs" "bt_get dbs d = Some db"
      by (auto simp: catalog_abs_Some result_simps)
    then show ?thesis using catalog_abs_drop [of ?c t dbs d] assms Some
      by (simp add: DropDatabase Let_def)
  qed
next
  case (CreateTable t d s)
  let ?c = "c\<lparr>epoch := epoch c + 1\<rparr>"
  show ?thesis
  proof (cases "database c t d")
    case (Inl e)
    then have "catalog_abs c (t, d) = None" using database_Inl by (auto simp: catalog_abs_None)
    then show ?thesis using Inl database_Inl [OF Inl]
      by (cases "validate_schema s") (simp_all add: CreateTable Let_def)
  next
    case (Inr db)
    have "catalog_abs c (t, d) = Some (bt_get (tables db))" using Inr by (auto simp: catalog_abs_Some)
    then show ?thesis
      using Inr catalog_abs_put [of ?c t d] assms database_wf [OF assms Inr]
      by (cases "validate_schema s")
        (auto simp: CreateTable Let_def bt_get_fun_insert database_ok_def)
  qed
next
  case (DropTable t d n)
  let ?c = "c\<lparr>epoch := epoch c + 1\<rparr>"
  show ?thesis
  proof (cases "database c t d")
    case (Inl e)
    then have "catalog_abs c (t, d) = None" using database_Inl by (auto simp: catalog_abs_None)
    then show ?thesis using Inl database_Inl [OF Inl] by (simp add: DropTable Let_def)
  next
    case (Inr db)
    have "catalog_abs c (t, d) = Some (bt_get (tables db))" using Inr by (auto simp: catalog_abs_Some)
    then show ?thesis
      using Inr catalog_abs_put [of ?c t d] assms
      by (cases "bt_get (tables db) n") (auto simp: DropTable Let_def bt_get_fun_remove)
  qed
next
  case (UpdateSchema t d s)
  let ?c = "c\<lparr>epoch := epoch c + 1\<rparr>"
  show ?thesis
  proof (cases "database c t d")
    case (Inl e)
    then have "catalog_abs c (t, d) = None" using database_Inl by (auto simp: catalog_abs_None)
    then show ?thesis using Inl database_Inl [OF Inl] by (simp add: UpdateSchema Let_def)
  next
    case (Inr db)
    have abs: "catalog_abs c (t, d) = Some (bt_get (tables db))" using Inr by (auto simp: catalog_abs_Some)
    show ?thesis
    proof (cases "bt_get (tables db) (tname s)")
      case None
      then show ?thesis using Inr abs by (simp add: UpdateSchema Let_def)
    next
      case (Some old)
      then show ?thesis
        using Inr abs catalog_abs_put [of ?c t d] assms database_wf [OF assms Inr]
        by (cases "check_evolution old s")
          (auto simp: UpdateSchema Let_def bt_get_fun_insert database_ok_def)
    qed
  qed
qed

interpretation ddl: replayed apply_ddl empty_catalog catalog_ok
  by unfold_locales (auto intro: apply_ddl_ok)

lemma apply_ddl_epoch: "apply_ddl c m = Inr c' \<Longrightarrow> epoch c' = epoch c + 1"
  by (cases m) (auto simp: Let_def result_simps put_database_def split: if_splits)

lemma foldM_ddl_epoch: "foldM apply_ddl c ms = Inr c' \<Longrightarrow> epoch c' = epoch c + length ms"
  by (induction ms arbitrary: c) (auto simp: result_simps dest!: apply_ddl_epoch)

lemma ddl_spec_frame: "ddl_spec A m = Inr B \<Longrightarrow> x \<noteq> (ddl_tenant m, ddl_database m) \<Longrightarrow> B x = A x"
  by (cases m) (auto simp: result_simps split: option.splits if_splits)

section \<open>The shared catalog\<close>

text \<open>
  Several threads in \<open>Catalog::apply\<close>. \<open>cell\<close> is the current pointer (its identity and the
  snapshot behind it), \<open>fresh\<close> the next identity, \<open>loaded\<close> what a thread inside the loop has
  loaded, \<open>todo\<close> the mutations it still has to apply. \<open>applied\<close> records the mutations whose
  call returned \<open>Ok\<close>, in the order of their swaps. A thread holds an \<open>Arc\<close> of what it loaded,
  so an identity is not reused while a thread can still compare with it.
\<close>

record cas_state =
  cell :: "nat \<times> catalog_snapshot"
  fresh :: nat
  loaded :: "nat \<Rightarrow> (nat \<times> catalog_snapshot) option"
  todo :: "nat \<Rightarrow> ddl_mutation list"
  applied :: "ddl_mutation list"

definition cas_init :: "(nat \<Rightarrow> ddl_mutation list) \<Rightarrow> cas_state" where
  "cas_init w = \<lparr>cell = (0, empty_catalog), fresh = 1, loaded = \<lambda>_. None, todo = w, applied = []\<rparr>"

inductive cas_step :: "cas_state \<Rightarrow> cas_state \<Rightarrow> bool" where
  cas_load: "todo s t \<noteq> [] \<Longrightarrow> loaded s t = None \<Longrightarrow>
    cas_step s (s\<lparr>loaded := (loaded s)(t \<mapsto> cell s)\<rparr>)"
| cas_fail: "todo s t = m # ms \<Longrightarrow> loaded s t = Some (i, c) \<Longrightarrow> apply_ddl c m = Inl e \<Longrightarrow>
    cas_step s (s\<lparr>loaded := (loaded s)(t := None), todo := (todo s)(t := ms)\<rparr>)"
| cas_swap: "todo s t = m # ms \<Longrightarrow> loaded s t = Some (i, c) \<Longrightarrow> apply_ddl c m = Inr c' \<Longrightarrow>
    fst (cell s) = i \<Longrightarrow>
    cas_step s (s\<lparr>cell := (fresh s, c'), fresh := Suc (fresh s), loaded := (loaded s)(t := None),
      todo := (todo s)(t := ms), applied := applied s @ [m]\<rparr>)"
| cas_retry: "todo s t = m # ms \<Longrightarrow> loaded s t = Some (i, c) \<Longrightarrow> apply_ddl c m = Inr c' \<Longrightarrow>
    fst (cell s) \<noteq> i \<Longrightarrow> cas_step s (s\<lparr>loaded := (loaded s)(t := None)\<rparr>)"

inductive_cases cas_stepE: "cas_step s s'"

definition cas_inv :: "cas_state \<Rightarrow> bool" where
  "cas_inv s \<longleftrightarrow> replay_ddl (applied s) = Inr (snd (cell s)) \<and> fst (cell s) < fresh s \<and>
     (\<forall>t i c. loaded s t = Some (i, c) \<longrightarrow> i < fresh s \<and> (i = fst (cell s) \<longrightarrow> c = snd (cell s)))"

lemma cas_inv_init: "cas_inv (cas_init w)"
  by (simp add: cas_inv_def cas_init_def replay_ddl_def)

lemma cas_inv_step: "cas_step s s' \<Longrightarrow> cas_inv s \<Longrightarrow> cas_inv s'"
proof (induction rule: cas_step.induct)
  case (cas_swap s t m ms i c c')
  have "loaded s t = Some (i, c)" "i = fst (cell s)" using cas_swap by auto
  then have c: "c = snd (cell s)" using cas_swap.prems unfolding cas_inv_def by blast
  have "foldM apply_ddl empty_catalog (applied s) = Inr c"
    using cas_swap.prems unfolding c by (simp add: cas_inv_def replay_ddl_def)
  then have "replay_ddl (applied s @ [m]) = Inr c'"
    unfolding replay_ddl_def by (rule ddl.replay_snoc) (rule cas_swap.hyps(3))
  with cas_swap.prems show ?case by (auto simp: cas_inv_def less_Suc_eq)
qed (auto simp: cas_inv_def)

lemma cas_inv_reach: "cas_step\<^sup>*\<^sup>* (cas_init w) s \<Longrightarrow> cas_inv s"
  by (induction rule: rtranclp_induct) (auto intro: cas_inv_init cas_inv_step)

section \<open>Properties\<close>

text \<open>
  C26: the catalog implements its specification: on a well-formed snapshot \<open>apply\<close> accepts exactly
  the mutations the specification accepts, refuses the others with the same error, and a success
  changes exactly what the specification says.
\<close>

theorem catalog_refines:
  assumes "catalog_ok c"
  shows "rmap catalog_abs (apply_ddl c m) = ddl_spec (catalog_abs c) m"
  using assms by (rule apply_ddl_refines)

theorem catalog_refines_witness:
  "rmap catalog_abs (apply_ddl empty_catalog (CreateDatabase ''acme'' ''crm'')) =
     Inr ((\<lambda>_. None)((''acme'', ''crm'') \<mapsto> \<lambda>_. None))"
proof -
  have "catalog_abs empty_catalog = (\<lambda>_. None)"
    by (auto simp: catalog_abs_def database_def empty_catalog_def fun_eq_iff)
  then show ?thesis using catalog_refines [OF catalog_ok_empty, of "CreateDatabase ''acme'' ''crm''"]
    by simp
qed

text \<open>
  C27: a catalog rebuilt from the log is well formed (every table is filed under its own name with
  a schema that passed validation) and its epoch counts the mutations, and a mutation of one
  tenant's database changes no other tenant's and no other database.
\<close>

theorem replay_wellformed_isolated:
  assumes "replay_ddl ms = Inr c"
  shows "catalog_ok c \<and> epoch c = length ms \<and>
    (\<forall>m c' t d. apply_ddl c m = Inr c' \<longrightarrow> (t, d) \<noteq> (ddl_tenant m, ddl_database m) \<longrightarrow>
       catalog_abs c' (t, d) = catalog_abs c (t, d))"
proof -
  have ok: "catalog_ok c" using assms unfolding replay_ddl_def by (rule ddl.replay_ok)
  have "epoch c = length ms"
    using assms foldM_ddl_epoch [of empty_catalog ms c] by (simp add: replay_ddl_def empty_catalog_def)
  moreover have "catalog_abs c' x = catalog_abs c x"
    if "apply_ddl c m = Inr c'" "x \<noteq> (ddl_tenant m, ddl_database m)" for m c' x
  proof -
    have "ddl_spec (catalog_abs c) m = Inr (catalog_abs c')"
      using apply_ddl_refines [OF ok, of m] that(1) by simp
    then show ?thesis using that(2) by (rule ddl_spec_frame)
  qed
  ultimately show ?thesis using ok by blast
qed

theorem replay_wellformed_isolated_witness:
  "\<exists>c. replay_ddl [CreateDatabase ''acme'' ''crm'', CreateTable ''acme'' ''crm'' demo_schema] = Inr c \<and>
     catalog_ok c \<and> epoch c = 2"
proof -
  have "is_ok (replay_ddl [CreateDatabase ''acme'' ''crm'', CreateTable ''acme'' ''crm'' demo_schema])"
    using demo_schema_ok
    by (simp add: replay_ddl_def empty_catalog_def database_def put_database_def bt_get_def Let_def)
  then obtain c where
    c: "replay_ddl [CreateDatabase ''acme'' ''crm'', CreateTable ''acme'' ''crm'' demo_schema] = Inr c"
    by (auto simp: result_simps)
  then show ?thesis using replay_wellformed_isolated [OF c] by auto
qed

text \<open>
  C19: the compare-and-swap loop loses no update: however the threads inside \<open>Catalog::apply\<close> are
  interleaved, the current snapshot is the replay, in the order of the swaps, of exactly the
  mutations whose call succeeded.
\<close>

theorem catalog_swap_linearizable:
  assumes "cas_step\<^sup>*\<^sup>* (cas_init w) s"
  shows "replay_ddl (applied s) = Inr (snd (cell s)) \<and> catalog_ok (snd (cell s))"
proof -
  have "replay_ddl (applied s) = Inr (snd (cell s))"
    using cas_inv_reach [OF assms] by (simp add: cas_inv_def)
  then show ?thesis unfolding replay_ddl_def by (auto dest: ddl.replay_ok)
qed

theorem catalog_swap_linearizable_witness:
  "\<exists>s. cas_step\<^sup>*\<^sup>* (cas_init (\<lambda>t. if t < 2 then [CreateDatabase ''acme'' ''crm''] else [])) s \<and>
     applied s = [CreateDatabase ''acme'' ''crm''] \<and> catalog_ok (snd (cell s))"
proof -
  let ?m = "CreateDatabase ''acme'' ''crm''"
  define s0 where "s0 = cas_init (\<lambda>t. if t < 2 then [?m] else [])"
  define s1 where "s1 = s0\<lparr>loaded := (loaded s0)(0 \<mapsto> cell s0)\<rparr>"
  obtain c where c: "apply_ddl empty_catalog ?m = Inr c"
    by (simp add: empty_catalog_def)
  define s2 where "s2 = s1\<lparr>cell := (fresh s1, c), fresh := Suc (fresh s1),
    loaded := (loaded s1)(0 := None), todo := (todo s1)(0 := []), applied := applied s1 @ [?m]\<rparr>"
  have 1: "cas_step s0 s1"
    unfolding s1_def by (rule cas_load) (simp_all add: s0_def cas_init_def)
  have 2: "cas_step s1 s2"
    unfolding s2_def
    by (rule cas_swap [of _ _ _ _ 0 empty_catalog]) (use c in \<open>simp_all add: s1_def s0_def cas_init_def\<close>)
  have reach: "cas_step\<^sup>*\<^sup>* (cas_init (\<lambda>t. if t < 2 then [?m] else [])) s2"
    using 1 2 unfolding s0_def [symmetric] by (meson rtranclp.simps)
  then show ?thesis
    using catalog_swap_linearizable [OF reach]
    by (intro exI [of _ s2]) (simp add: s2_def s1_def s0_def cas_init_def)
qed

end
