(* ===== verification/B64.thy ===== *)
theory B64
  imports Errors
begin

text \<open>
  \<open>crates/adb-storage/src/b64.rs\<close>: the base64 in which Roaring bitmaps and bloom filters are
  embedded in the JSON manifest, a persistent format. Bytes are \<open>u8\<close>, the 24-bit group is a \<open>u32\<close>
  with the source's shifts and masks.
\<close>

unbundle bit_operations_syntax

definition alphabet :: string where
  "alphabet = ''ABCDEFGHIJKLMNOPQRSTUVWXYZabcdefghijklmnopqrstuvwxyz0123456789+/''"

definition sextet :: "u32 \<Rightarrow> nat \<Rightarrow> u32" where
  "sextet n k = drop_bit k n AND 63"

definition b64_char :: "u32 \<Rightarrow> nat \<Rightarrow> char" where
  "b64_char n k = alphabet ! unat (sextet n k)"

definition b64_group :: "u8 \<Rightarrow> u8 \<Rightarrow> u8 \<Rightarrow> u32" where
  "b64_group b0 b1 b2 = push_bit 16 (ucast b0) OR push_bit 8 (ucast b1) OR ucast b2"

fun b64_encode :: "u8 list \<Rightarrow> string" where
  "b64_encode [] = []"
| "b64_encode [a] =
     (let n = b64_group a 0 0 in [b64_char n 18, b64_char n 12, CHR ''='', CHR ''=''])"
| "b64_encode [a, b] =
     (let n = b64_group a b 0 in [b64_char n 18, b64_char n 12, b64_char n 6, CHR ''=''])"
| "b64_encode (a # b # c # rest) =
     (let n = b64_group a b c
      in [b64_char n 18, b64_char n 12, b64_char n 6, b64_char n 0] @ b64_encode rest)"

definition decode_char :: "char \<Rightarrow> u32 result" where
  "decode_char c =
     (let b = (of_char c :: nat) in
      if of_char CHR ''A'' \<le> b \<and> b \<le> of_char CHR ''Z'' then Inr (word_of_nat (b - of_char CHR ''A''))
      else if of_char CHR ''a'' \<le> b \<and> b \<le> of_char CHR ''z'' then Inr (word_of_nat (b - of_char CHR ''a'' + 26))
      else if of_char CHR ''0'' \<le> b \<and> b \<le> of_char CHR ''9'' then Inr (word_of_nat (b - of_char CHR ''0'' + 52))
      else if c = CHR ''+'' then Inr 62
      else if c = CHR ''/'' then Inr 63
      else Inl Corruption)"

definition decode_sextet :: "char \<Rightarrow> u32 result" where
  "decode_sextet c = (if c = CHR ''='' then Inr 0 else decode_char c)"

definition quad_bits :: "u32 \<Rightarrow> u32 \<Rightarrow> u32 \<Rightarrow> u32 \<Rightarrow> u32" where
  "quad_bits v0 v1 v2 v3 = push_bit 18 v0 OR push_bit 12 v1 OR push_bit 6 v2 OR v3"

definition decode_quad :: "char \<Rightarrow> char \<Rightarrow> char \<Rightarrow> char \<Rightarrow> u8 list result" where
  "decode_quad c0 c1 c2 c3 =
     (let pad = length (filter (\<lambda>c. c = CHR ''='') [c0, c1, c2, c3]) in
      if 2 < pad \<or> (0 < pad \<and> c3 \<noteq> CHR ''='') then Inl Corruption
      else
        rbind (decode_sextet c0) (\<lambda>v0.
        rbind (decode_sextet c1) (\<lambda>v1.
        rbind (decode_sextet c2) (\<lambda>v2.
        rbind (decode_sextet c3) (\<lambda>v3.
        let n = quad_bits v0 v1 v2 v3 in
        Inr ([ucast (drop_bit 16 n)] @
             (if pad < 2 then [ucast (drop_bit 8 n)] else []) @
             (if pad < 1 then [ucast n] else [])))))))"

fun decode_chunks :: "string \<Rightarrow> u8 list result" where
  "decode_chunks (c0 # c1 # c2 # c3 # rest) =
     rbind (decode_quad c0 c1 c2 c3) (\<lambda>bs. rbind (decode_chunks rest) (\<lambda>bs'. Inr (bs @ bs')))"
| "decode_chunks _ = Inr []"

definition b64_decode :: "string \<Rightarrow> u8 list result" where
  "b64_decode s = (if length s mod 4 \<noteq> 0 then Inl Corruption else decode_chunks s)"

section \<open>Round trip\<close>

lemma and_63_take: "w AND 63 = take_bit 6 (w :: u32)"
  by (simp add: take_bit_eq_mask mask_eq_exp_minus_1)

lemma and_63: "unat (w AND 63 :: u32) < 64"
  using take_bit_nat_less_exp [of 6 "unat w"] by (simp add: and_63_take unsigned_take_bit_eq)

lemma decode_alphabet: "list_all (\<lambda>i. decode_sextet (alphabet ! i) = Inr (word_of_nat i) \<and> alphabet ! i \<noteq> CHR ''='') [0..<64]"
  by (simp add: upt_rec alphabet_def decode_sextet_def decode_char_def)

lemma decode_b64_char: "decode_sextet (b64_char n k) = Inr (sextet n k)"
  "b64_char n k \<noteq> CHR ''=''"
  using decode_alphabet and_63 [of "drop_bit k n"] by (auto simp: b64_char_def sextet_def list_all_iff)

lemma group_bits: "bit (b64_group a b c) i \<Longrightarrow> i < 24"
  by (auto simp: b64_group_def bit_simps dest: bit_imp_le_length)

lemma regroup:
  "quad_bits (sextet (b64_group a b c) 18) (sextet (b64_group a b c) 12) (sextet (b64_group a b c) 6)
     (sextet (b64_group a b c) 0) = b64_group a b c" (is "?l = ?n")
proof (rule bit_word_eqI)
  fix i :: nat
  assume "i < LENGTH(32)"
  have "bit ?n i \<Longrightarrow> i < 24" by (rule group_bits)
  then show "bit ?l i = bit ?n i"
    using \<open>i < _\<close>
    unfolding quad_bits_def sextet_def and_63_take bit_or_iff bit_push_bit_iff bit_take_bit_iff bit_drop_bit_eq
    by (cases "i < 6"; cases "i < 12"; cases "i < 18"; cases "i < 24") (auto simp: bit_simps)
qed

lemma ungroup:
  "ucast (drop_bit 16 (b64_group a b c)) = (a :: u8)"
  "ucast (drop_bit 8 (b64_group a b c)) = (b :: u8)"
  "ucast (b64_group a b c) = (c :: u8)"
  by (rule bit_word_eqI; auto simp: b64_group_def bit_simps dest: bit_imp_le_length)+

lemma group_tail:
  "sextet (b64_group a b 0) 0 = 0" "sextet (b64_group a 0 0) 6 = 0"
  unfolding sextet_def and_63_take by (rule bit_word_eqI; auto simp: b64_group_def bit_simps)+

lemma decode_pad: "decode_sextet (CHR ''='') = Inr 0"
  by (simp add: decode_sextet_def)

lemma decode_quad_full:
  "n = b64_group a b c \<Longrightarrow>
   decode_quad (b64_char n 18) (b64_char n 12) (b64_char n 6) (b64_char n 0) = Inr [a, b, c]"
  by (simp add: decode_quad_def decode_b64_char regroup ungroup)

lemma decode_quad_two:
  "n = b64_group a b 0 \<Longrightarrow>
   decode_quad (b64_char n 18) (b64_char n 12) (b64_char n 6) (CHR ''='') = Inr [a, b]"
  using regroup [of a b 0]
  by (simp add: decode_quad_def decode_b64_char group_tail decode_pad ungroup)

lemma decode_quad_one:
  "n = b64_group a 0 0 \<Longrightarrow>
   decode_quad (b64_char n 18) (b64_char n 12) (CHR ''='') (CHR ''='') = Inr [a]"
  using regroup [of a 0 0]
  by (simp add: decode_quad_def decode_b64_char group_tail decode_pad ungroup)

lemma mod_4_step: "Suc (Suc (Suc (Suc n))) mod 4 = n mod 4"
  by presburger

lemma decode_encode: "decode_chunks (b64_encode bs) = Inr bs \<and> length (b64_encode bs) mod 4 = 0"
  by (induction bs rule: b64_encode.induct)
    (simp_all add: Let_def decode_quad_full decode_quad_two decode_quad_one mod_4_step)

lemma b64_decode_encode: "b64_decode (b64_encode bs) = Inr bs"
  using decode_encode [of bs] by (simp add: b64_decode_def)

section \<open>Properties\<close>

text \<open>
  Remark: decoding is a left inverse of encoding for every byte string, so bitmaps and filters
  survive the manifest.
\<close>

theorem b64_roundtrip: "b64_decode (b64_encode bs) = Inr bs"
  by (rule b64_decode_encode)

text \<open>
  Remark: the decoder is laxer than the encoder: padding in the middle of a group and non-zero unused
  bits are accepted, so several texts decode to the same bytes.
\<close>

theorem b64_decode_lax:
  "b64_decode ''A=A='' = Inr [0] \<and> b64_decode ''AB=='' = Inr [0] \<and> b64_encode [0] = ''AA==''"
  by (simp add: b64_decode_def decode_quad_def decode_sextet_def decode_char_def b64_group_def
    b64_char_def alphabet_def quad_bits_def sextet_def)

end
