(* ===== verification/Bloom.thy ===== *)
theory Bloom
  imports Values B64 Bytes
begin

text \<open>
  \<open>crates/adb-storage/src/hash.rs\<close> and \<open>crates/adb-storage/src/bloom.rs\<close>: the fixed FNV-1a hash of
  persisted structures, and the bloom filters of segment metadata. The size of a new filter goes
  through \<open>f64::ln\<close>; the two roundings of that computation are the parameters \<open>raw_bits\<close> and
  \<open>raw_probes\<close>, which the code clamps. \<open>membership_filter\<close> is what pruning relies on: a value put
  in is never reported absent.
\<close>

unbundle bit_operations_syntax

section \<open>Stable hashing\<close>

definition fnv_offset :: u64 where
  "fnv_offset = 0xcbf29ce484222325"

definition fnv_prime :: u64 where
  "fnv_prime = 0x00000100000001b3"

definition fnv1a :: "u64 \<Rightarrow> bytes \<Rightarrow> u64" where
  "fnv1a seed bs = foldl (\<lambda>h b. (h XOR ucast b) * fnv_prime) (fnv_offset XOR (seed * fnv_prime)) bs"

fun canonical_bytes :: "adb_value \<Rightarrow> bytes" where
  "canonical_bytes VNull = [0]"
| "canonical_bytes (VBool b) = [1, if b then 1 else 0]"
| "canonical_bytes (VInt v) = 2 # le_bytes v"
| "canonical_bytes (VTimestamp v) = 2 # le_bytes v"
| "canonical_bytes (VDate v) = 2 # le_bytes (scast v :: i64)"
| "canonical_bytes (VFloat f) =
     (if integral_i64 f then 2 # le_bytes (f64_as_i64 f) else 4 # le_bytes (to_bits f))"
| "canonical_bytes (VStr s) = 3 # as_bytes s"

definition hash_value :: "adb_value \<Rightarrow> u64 \<Rightarrow> u64" where
  "hash_value v seed = fnv1a seed (canonical_bytes v)"

definition hash_key :: "adb_value list \<Rightarrow> u64" where
  "hash_key vs = foldl (\<lambda>h v. fnv1a h (canonical_bytes v)) fnv_offset vs"

section \<open>Filters\<close>

record bloom_filter =
  bf_bits :: "u64 list"
  bf_k :: nat

record bloom_math =
  raw_bits :: "nat \<Rightarrow> nat"
  raw_probes :: "nat \<Rightarrow> nat \<Rightarrow> nat"

definition bloom_new :: "bloom_math \<Rightarrow> nat \<Rightarrow> bloom_filter" where
  "bloom_new M expected =
     (let expected = max expected 1;
          m_bits = min (2 ^ 24) (max 64 (raw_bits M expected));
          words = (m_bits + 63) div 64;
          k = min 16 (max 1 (raw_probes M m_bits expected))
      in \<lparr>bf_bits = replicate words 0, bf_k = k\<rparr>)"

definition probes :: "bloom_filter \<Rightarrow> adb_value \<Rightarrow> nat list" where
  "probes f v =
     (let h1 = hash_value v 0x9E3779B97F4A7C15;
          h2 = hash_value v 0xC2B2AE3D27D4EB4F OR 1;
          m = word_of_nat (length (bf_bits f) * 64) :: u64
      in map (\<lambda>i. unat ((h1 + h2 * word_of_nat i) mod m)) [0..<bf_k f])"

definition set_bit_at :: "u64 list \<Rightarrow> nat \<Rightarrow> u64 list" where
  "set_bit_at bs pos = bs[pos div 64 := bs ! (pos div 64) OR push_bit (pos mod 64) 1]"

definition bloom_insert :: "bloom_filter \<Rightarrow> adb_value \<Rightarrow> bloom_filter" where
  "bloom_insert f v =
     (if is_null v then f else f\<lparr>bf_bits := foldl set_bit_at (bf_bits f) (probes f v)\<rparr>)"

definition bloom_contains :: "bloom_filter \<Rightarrow> adb_value \<Rightarrow> bool" where
  "bloom_contains f v \<longleftrightarrow>
     is_null v \<or>
     list_all (\<lambda>pos. bf_bits f ! (pos div 64) AND push_bit (pos mod 64) 1 \<noteq> 0) (probes f v)"

definition size_bytes :: "bloom_filter \<Rightarrow> nat" where
  "size_bytes f = length (bf_bits f) * 8"

record bloom_wire =
  wire_k :: nat
  wire_bits :: string

definition bloom_serialize :: "bloom_filter \<Rightarrow> bloom_wire" where
  "bloom_serialize f = \<lparr>wire_k = bf_k f, wire_bits = b64_encode (concat (map le_bytes (bf_bits f)))\<rparr>"

fun as_chunks8 :: "bytes \<Rightarrow> bytes list" where
  "as_chunks8 bs = (if length bs < 8 then [] else take 8 bs # as_chunks8 (drop 8 bs))"

declare as_chunks8.simps [simp del]

definition bloom_deserialize :: "bloom_wire \<Rightarrow> bloom_filter result" where
  "bloom_deserialize w =
     rbind (b64_decode (wire_bits w)) (\<lambda>raw.
     if length raw mod 8 \<noteq> 0 \<or> raw = [] then Inl Corruption
     else if wire_k w = 0 \<or> 16 < wire_k w then Inl Corruption
     else Inr \<lparr>bf_bits = map le_word (as_chunks8 raw), bf_k = wire_k w\<rparr>)"

definition bloom_build :: "bloom_math \<Rightarrow> adb_value list \<Rightarrow> bloom_filter option" where
  "bloom_build M vs =
     (if vs = [] then None else Some (foldl bloom_insert (bloom_new M (length vs)) vs))"

fun is_filterable :: "data_type \<Rightarrow> bool" where
  "is_filterable DInt64 = True"
| "is_filterable DUtf8 = True"
| "is_filterable DUuid = True"
| "is_filterable DTimestamp = True"
| "is_filterable DDate = True"
| "is_filterable DBool = True"
| "is_filterable _ = False"

section \<open>The contract of a filter\<close>

locale membership_filter =
  fixes add :: "'f \<Rightarrow> 'v \<Rightarrow> 'f"
    and maybe :: "'f \<Rightarrow> 'v \<Rightarrow> bool"
    and ok :: "'f \<Rightarrow> bool"
  assumes ok_add: "ok f \<Longrightarrow> ok (add f v)"
    and maybe_add: "ok f \<Longrightarrow> maybe (add f v) v"
    and maybe_mono: "ok f \<Longrightarrow> maybe f w \<Longrightarrow> maybe (add f v) w"
begin

lemma ok_adds: "ok f \<Longrightarrow> ok (foldl add f vs)"
  by (induction vs arbitrary: f) (auto intro: ok_add)

lemma maybe_adds_old: "ok f \<Longrightarrow> maybe f w \<Longrightarrow> maybe (foldl add f vs) w"
  by (induction vs arbitrary: f) (auto intro: ok_add maybe_mono)

lemma maybe_adds: "ok f \<Longrightarrow> w \<in> set vs \<Longrightarrow> maybe (foldl add f vs) w"
  by (induction vs arbitrary: f) (auto intro: ok_add maybe_add maybe_adds_old)

end

definition bloom_ok :: "bloom_filter \<Rightarrow> bool" where
  "bloom_ok f \<longleftrightarrow> bf_bits f \<noteq> [] \<and> length (bf_bits f) \<le> 2 ^ 18 \<and> 0 < bf_k f \<and> bf_k f \<le> 16"

lemma bloom_ok_new: "bloom_ok (bloom_new M n)"
proof -
  have "(min (2 ^ 24) (max 64 r) + 63) div 64 \<le> (2 ^ 18 :: nat)" for r :: nat
    by (rule order.trans [OF div_le_mono [of _ "2 ^ 24 + 63"]]) simp_all
  moreover have "0 < (min (2 ^ 24) (max 64 r) + 63) div (64 :: nat)" for r :: nat
    by (simp add: div_greater_zero_iff)
  ultimately show ?thesis by (simp add: bloom_ok_def bloom_new_def Let_def)
qed

lemma length_set_bits [simp]: "length (foldl set_bit_at bs ps) = length bs"
  by (induction ps arbitrary: bs) (auto simp: set_bit_at_def)

lemma bloom_ok_insert: "bloom_ok f \<Longrightarrow> bloom_ok (bloom_insert f v)"
  by (auto simp: bloom_ok_def bloom_insert_def simp flip: length_greater_0_conv)

lemma probes_insert [simp]: "probes (bloom_insert f v) w = probes f w"
  by (simp add: probes_def bloom_insert_def)

lemma unat_small: "n < 2 ^ 64 \<Longrightarrow> unat (word_of_nat n :: u64) = n"
  by (simp add: unat_of_nat)

lemma probe_range:
  assumes "bloom_ok f" "p \<in> set (probes f v)"
  shows "p div 64 < length (bf_bits f)"
proof -
  let ?m = "word_of_nat (length (bf_bits f) * 64) :: u64"
  have lt: "length (bf_bits f) * 64 < 2 ^ 64" "0 < length (bf_bits f)"
    using assms(1) by (auto simp: bloom_ok_def)
  then have m: "unat ?m = length (bf_bits f) * 64" by (intro unat_small)
  obtain x :: u64 where "p = unat (x mod ?m)" using assms(2) by (auto simp: probes_def Let_def)
  then have "p < length (bf_bits f) * 64" using m lt by (simp add: unat_mod)
  then show ?thesis by (simp add: less_mult_imp_div_less)
qed


lemma set_bits_bit:
  "\<forall>p \<in> set ps. p div 64 < length bs \<Longrightarrow> q div 64 < length bs \<Longrightarrow>
   bit (foldl set_bit_at bs ps ! (q div 64)) (q mod 64) \<longleftrightarrow>
     q \<in> set ps \<or> bit (bs ! (q div 64)) (q mod 64)"
proof (induction ps arbitrary: bs)
  case (Cons p ps)
  have "bit (set_bit_at bs p ! (q div 64)) (q mod 64) \<longleftrightarrow> q = p \<or> bit (bs ! (q div 64)) (q mod 64)"
  proof (cases "q div 64 = p div 64")
    case True
    then have "q = p \<longleftrightarrow> q mod 64 = p mod 64" by (metis div_mult_mod_eq)
    then show ?thesis using True Cons.prems by (auto simp: set_bit_at_def bit_simps)
  next
    case False
    then show ?thesis by (auto simp: set_bit_at_def)
  qed
  moreover have "length (set_bit_at bs p) = length bs" by (simp add: set_bit_at_def)
  ultimately show ?case using Cons.IH [of "set_bit_at bs p"] Cons.prems by auto
qed simp

lemma bloom_contains_iff:
  "bloom_contains f v \<longleftrightarrow> v = VNull \<or> (\<forall>p \<in> set (probes f v). bit (bf_bits f ! (p div 64)) (p mod 64))"
  unfolding bloom_contains_def list_all_iff bit_iff_and_push_bit_not_eq_0 by simp

lemma contains_insert_iff:
  assumes "bloom_ok f"
  shows "bloom_contains (bloom_insert f v) w \<longleftrightarrow> w = VNull \<or>
    (\<forall>p \<in> set (probes f w). v \<noteq> VNull \<and> p \<in> set (probes f v) \<or> bit (bf_bits f ! (p div 64)) (p mod 64))"
proof (cases "v = VNull")
  case True
  then show ?thesis by (simp add: bloom_contains_iff bloom_insert_def)
next
  case False
  have "bit (bf_bits (bloom_insert f v) ! (p div 64)) (p mod 64) \<longleftrightarrow>
      p \<in> set (probes f v) \<or> bit (bf_bits f ! (p div 64)) (p mod 64)" if "p \<in> set (probes f w)" for p
    using set_bits_bit [of "probes f v" "bf_bits f" p] probe_range [OF assms] that False
    by (auto simp: bloom_insert_def)
  then show ?thesis using False by (simp add: bloom_contains_iff)
qed

interpretation bloom: membership_filter bloom_insert bloom_contains bloom_ok
proof
  fix f v w
  assume ok: "bloom_ok f"
  show "bloom_ok (bloom_insert f v)" by (rule bloom_ok_insert [OF ok])
  show "bloom_contains (bloom_insert f v) v" using contains_insert_iff [OF ok] by simp
  show "bloom_contains (bloom_insert f v) w" if "bloom_contains f w"
    using contains_insert_iff [OF ok, of v w] that unfolding bloom_contains_iff [of f w] by auto
qed

lemma concat_le_chunks: "as_chunks8 (concat (map le_bytes (ws :: u64 list))) = map le_bytes ws"
  by (induction ws) (simp_all add: as_chunks8.simps)

lemma map_le_word: "map (le_word \<circ> le_bytes) (ws :: u64 list) = ws"
  by (rule map_idI) simp

section \<open>Properties\<close>

text \<open>
  C23: no false negatives: a filter built over a column's values answers "maybe" for every value of
  the column, whatever else was inserted, so pruning on a negative answer never skips a match.
\<close>

theorem bloom_no_false_negatives:
  assumes "bloom_build M vs = Some f" and "v \<in> set vs"
  shows "bloom_contains f v"
  using assms bloom.maybe_adds [OF bloom_ok_new] by (auto simp: bloom_build_def split: if_splits)

theorem bloom_no_false_negatives_witness:
  "\<exists>f. bloom_build \<lparr>raw_bits = \<lambda>n. 10 * n, raw_probes = \<lambda>m n. 7\<rparr> [VInt 4, VNull, VInt 5] = Some f \<and>
     bloom_contains f (VInt 5)"
proof -
  obtain f where f: "bloom_build \<lparr>raw_bits = \<lambda>n. 10 * n, raw_probes = \<lambda>m n. 7\<rparr> [VInt 4, VNull, VInt 5] = Some f"
    by (simp add: bloom_build_def)
  then show ?thesis using bloom_no_false_negatives [OF f, of "VInt 5"] by auto
qed

text \<open>
  Remark: a filter survives the manifest: reading its wire form back gives the same filter, for every
  filter the engine builds.
\<close>

theorem bloom_wire_roundtrip:
  assumes "bloom_build M vs = Some f"
  shows "bloom_deserialize (bloom_serialize f) = Inr f"
proof -
  have ok: "bloom_ok f"
    using assms bloom.ok_adds [OF bloom_ok_new] by (auto simp: bloom_build_def split: if_splits)
  let ?raw = "concat (map le_bytes (bf_bits f))"
  have len: "length ?raw = 8 * length (bf_bits f)" by (simp add: length_concat comp_def sum_list_triv)
  have "length ?raw mod 8 = 0" unfolding len by simp
  moreover have "?raw \<noteq> []"
  proof
    assume "?raw = []"
    then have "length ?raw = 0" by (simp only: list.size)
    then show False using ok len by (simp add: bloom_ok_def)
  qed
  ultimately show ?thesis
    using ok unfolding bloom_deserialize_def bloom_serialize_def
    by (simp only: bloom_wire.simps b64_decode_encode rbind.simps concat_le_chunks list.map_comp
      map_le_word bloom_ok_def) simp
qed

theorem bloom_wire_roundtrip_witness:
  "\<exists>f. bloom_build \<lparr>raw_bits = \<lambda>n. 10 * n, raw_probes = \<lambda>m n. 7\<rparr> [VInt 4] = Some f \<and>
     bloom_deserialize (bloom_serialize f) = Inr f"
proof -
  obtain f where f: "bloom_build \<lparr>raw_bits = \<lambda>n. 10 * n, raw_probes = \<lambda>m n. 7\<rparr> [VInt 4] = Some f"
    by (simp add: bloom_build_def)
  then show ?thesis using bloom_wire_roundtrip [OF f] by auto
qed

end
