(* ===== verification/Wal.thy ===== *)
theory Wal
  imports ObjectStore Values
begin

text \<open>
  \<open>crates/adb-storage/src/wal.rs\<close>: the write-ahead log. A log file is the bytes stored in the
  file system at the log's key; \<open>file_log\<close> is the handle with its two counters. A log sequence
  number is a natural number (the source's \<open>u64\<close> counts single appends).

  Outside the repository, so parameters (record \<open>wal_lib\<close>): bincode and CRC-32. \<open>wal_lib_ok\<close> is
  what is relied on: decoding undoes encoding and an encoding is not empty. A crash in \<open>append\<close>
  leaves a prefix of the frame at the end of the file (\<open>append_crash_states\<close>); that fsync makes
  a returned append durable is the file system's promise.
\<close>

section \<open>Records\<close>

datatype mutation =
    MDdl string
  | MInsert bytes
  | MUpsert bytes
  | MDelete "adb_value list list"

fun mutation_kind :: "mutation \<Rightarrow> string" where
  "mutation_kind (MDdl _) = ''ddl''"
| "mutation_kind (MInsert _) = ''insert''"
| "mutation_kind (MUpsert _) = ''upsert''"
| "mutation_kind (MDelete _) = ''delete''"

record log_entry =
  lsn :: nat
  entry_mutation :: mutation

record wal_lib =
  bincode_serialize :: "log_entry \<Rightarrow> bytes option"
  bincode_deserialize :: "bytes \<Rightarrow> log_entry option"
  crc32 :: "bytes \<Rightarrow> u32"

definition wal_magic :: bytes where
  "wal_magic = as_bytes ''ADBWAL01''"

definition header_len :: nat where
  "header_len = 8"

definition frame_header_len :: nat where
  "frame_header_len = 8"

definition max_record_bytes :: nat where
  "max_record_bytes = 2 ^ 30"

definition frame :: "wal_lib \<Rightarrow> bytes \<Rightarrow> bytes" where
  "frame L payload =
     le_bytes (word_of_nat (length payload) :: u32) @ le_bytes (crc32 L payload) @ payload"

section \<open>Scanning\<close>

text \<open>
  The loop of \<open>scan\<close> over the bytes from the current offset on: the entries, and how many bytes
  the intact records take.
\<close>

function scan_frames :: "wal_lib \<Rightarrow> bytes \<Rightarrow> (log_entry list \<times> nat) result" where
  "scan_frames L bs =
     (if bs = [] then Inr ([], 0)
      else if length bs < frame_header_len then Inr ([], 0)
      else
        let payload_len = unat (le_word (take 4 bs) :: u32);
            crc = le_word (take 4 (drop 4 bs)) :: u32 in
        if payload_len = 0 \<or> max_record_bytes < payload_len then Inr ([], 0)
        else if length bs < frame_header_len + payload_len then Inr ([], 0)
        else
          let payload = take payload_len (drop frame_header_len bs);
              rest = drop (frame_header_len + payload_len) bs in
          if crc32 L payload \<noteq> crc then (if rest = [] then Inr ([], 0) else Inl Corruption)
          else (case bincode_deserialize L payload of
                  Some e \<Rightarrow> rbind (scan_frames L rest) (\<lambda>(es, n).
                    Inr (e # es, frame_header_len + payload_len + n))
                | None \<Rightarrow> if rest = [] then Inr ([], 0) else Inl Corruption))"
  by pat_completeness auto

termination
  by (relation "measure (\<lambda>(L, bs). length bs)") (auto simp: frame_header_len_def)

declare scan_frames.simps [simp del]

definition wal_scan :: "wal_lib \<Rightarrow> bytes \<Rightarrow> (log_entry list \<times> nat) result" where
  "wal_scan L file =
     (if length file < header_len then Inl Corruption
      else if take 8 file \<noteq> wal_magic then Inl Corruption
      else rmap (\<lambda>(es, n). (es, header_len + n)) (scan_frames L (drop 8 file)))"

section \<open>The log store\<close>

record file_log =
  log_key :: string
  next_lsn :: nat
  last_lsn :: nat

record recovered_log =
  rec_store :: file_log
  rec_entries :: "log_entry list"
  truncated_bytes :: nat

definition log_open :: "wal_lib \<Rightarrow> fs_store \<Rightarrow> string \<Rightarrow> (fs_store \<times> recovered_log) result" where
  "log_open L s key =
     rbind (ensure_parent s key) (\<lambda>s.
     rbind (if is_file s key then Inr s else sys_create s key) (\<lambda>s.
     let file = the (map_of (files s) key);
         s = (if file = [] then sys_write s key wal_magic else s);
         file = the (map_of (files s) key) in
     rbind (wal_scan L file) (\<lambda>(entries, good_end).
     let truncated = length file - good_end;
         s = (if 0 < truncated then sys_write s key (take good_end file) else s);
         last = (if entries = [] then 0 else lsn (last entries)) in
     Inr (s, \<lparr>rec_store = \<lparr>log_key = key, next_lsn = last + 1, last_lsn = last\<rparr>,
              rec_entries = entries, truncated_bytes = truncated\<rparr>))))"

definition advance_to :: "file_log \<Rightarrow> nat \<Rightarrow> file_log" where
  "advance_to log l = log\<lparr>next_lsn := max (next_lsn log) (l + 1), last_lsn := max (last_lsn log) l\<rparr>"

definition read_all :: "wal_lib \<Rightarrow> fs_store \<Rightarrow> file_log \<Rightarrow> log_entry list result" where
  "read_all L s log =
     rbind (ok_or Storage (map_of (files s) (log_key log))) (\<lambda>file. rmap fst (wal_scan L file))"

text \<open>\<open>append\<close> consumes a sequence number even when it fails, so the handle is returned either way.\<close>

definition log_append ::
    "wal_lib \<Rightarrow> fs_store \<times> file_log \<Rightarrow> mutation \<Rightarrow> nat result \<times> fs_store \<times> file_log" where
  "log_append L st m =
     (let (s, log) = st;
          n = next_lsn log;
          log = log\<lparr>next_lsn := n + 1\<rparr>
      in case bincode_serialize L \<lparr>lsn = n, entry_mutation = m\<rparr> of
           None \<Rightarrow> (Inl Internal, s, log)
         | Some payload \<Rightarrow>
             if max_record_bytes < unat (word_of_nat (length payload) :: u32)
             then (Inl BadRequest, s, log)
             else (case map_of (files s) (log_key log) of
                     None \<Rightarrow> (Inl Storage, s, log)
                   | Some file \<Rightarrow>
                       (Inr n, sys_write s (log_key log) (file @ frame L payload),
                        log\<lparr>last_lsn := max (last_lsn log) n\<rparr>)))"

definition append_crash_states :: "wal_lib \<Rightarrow> fs_store \<times> file_log \<Rightarrow> mutation \<Rightarrow> fs_store list" where
  "append_crash_states L st m =
     (let (s, log) = st in
      case bincode_serialize L \<lparr>lsn = next_lsn log, entry_mutation = m\<rparr> of
        None \<Rightarrow> [s]
      | Some payload \<Rightarrow>
          if max_record_bytes < unat (word_of_nat (length payload) :: u32) then [s]
          else (case map_of (files s) (log_key log) of
                  None \<Rightarrow> [s]
                | Some file \<Rightarrow>
                    map (\<lambda>k. sys_write s (log_key log) (file @ take k (frame L payload)))
                      [0..<Suc (length (frame L payload))]))"

definition entries_from :: "wal_lib \<Rightarrow> fs_store \<times> file_log \<Rightarrow> nat \<Rightarrow> log_entry list result" where
  "entries_from L st from =
     rmap (filter (\<lambda>e. from \<le> lsn e)) (read_all L (fst st) (snd st))"

definition encode_entries :: "wal_lib \<Rightarrow> log_entry list \<Rightarrow> bytes list result" where
  "encode_entries L es =
     mapM (\<lambda>e. rmap (frame L) (ok_or Internal (bincode_serialize L e))) es"

definition truncate_prefix ::
    "wal_lib \<Rightarrow> fs_store \<times> file_log \<Rightarrow> nat \<Rightarrow> (fs_store \<times> file_log) result" where
  "truncate_prefix L st up_to =
     (let (s, log) = st in
      rbind (read_all L s log) (\<lambda>entries.
      rbind (encode_entries L (filter (\<lambda>e. up_to < lsn e) entries)) (\<lambda>frames.
      let buf = wal_magic @ concat frames;
          tmp = with_extension (log_key log) ''log.compacting'' in
      rbind (sys_create s tmp) (\<lambda>s.
      rbind (sys_rename (sys_write s tmp buf) tmp (log_key log)) (\<lambda>s. Inr (s, log))))))"

section \<open>Recovery of an image\<close>

definition wal_lib_ok :: "wal_lib \<Rightarrow> bool" where
  "wal_lib_ok L \<longleftrightarrow>
     (\<forall>e. \<exists>bs. bincode_serialize L e = Some bs \<and> bs \<noteq> [] \<and> bincode_deserialize L bs = Some e)"

definition payload_of :: "wal_lib \<Rightarrow> log_entry \<Rightarrow> bytes" where
  "payload_of L e = the (bincode_serialize L e)"

definition fits_record :: "wal_lib \<Rightarrow> log_entry \<Rightarrow> bool" where
  "fits_record L e \<longleftrightarrow> length (payload_of L e) \<le> max_record_bytes"

definition image :: "wal_lib \<Rightarrow> log_entry list \<Rightarrow> bytes" where
  "image L es = concat (map (\<lambda>e. frame L (payload_of L e)) es)"

lemma wal_libD:
  assumes "wal_lib_ok L"
  shows "bincode_serialize L e = Some (payload_of L e)" "payload_of L e \<noteq> []"
    "bincode_deserialize L (payload_of L e) = Some e"
  using assms by (metis payload_of_def option.sel wal_lib_ok_def)+

lemma length_frame [simp]: "length (frame L p) = 8 + length p"
  by (simp add: frame_def)

lemma frame_fields:
  "take 4 (frame L p @ r) = le_bytes (word_of_nat (length p) :: u32)"
  "take 4 (drop 4 (frame L p @ r)) = le_bytes (crc32 L p)"
  "drop 8 (frame L p @ r) = p @ r"
  by (simp_all add: frame_def)

lemma unat_len: "n \<le> max_record_bytes \<Longrightarrow> unat (word_of_nat n :: u32) = n"
  by (simp add: unat_of_nat max_record_bytes_def)

lemma scan_frame:
  assumes "wal_lib_ok L" "fits_record L e"
  shows "scan_frames L (frame L (payload_of L e) @ r) =
    rbind (scan_frames L r) (\<lambda>(es, n). Inr (e # es, 8 + length (payload_of L e) + n))"
proof -
  let ?p = "payload_of L e"
  define B where "B = frame L ?p @ r"
  note wal_libD [OF assms(1), of e]
  moreover have "length ?p \<le> max_record_bytes" using assms(2) by (simp add: fits_record_def)
  moreover have "unat (le_word (take 4 B) :: u32) = length ?p"
    unfolding B_def frame_fields using assms(2) by (simp add: unat_len fits_record_def)
  moreover have "le_word (take 4 (drop 4 B)) = crc32 L ?p" unfolding B_def frame_fields by simp
  moreover have d: "drop 8 B = ?p @ r" unfolding B_def by (rule frame_fields(3))
  moreover have "drop (8 + length ?p) B = r" using d by (metis append_eq_conv_conj drop_drop add.commute)
  moreover have "length B = 8 + length ?p + length r" by (simp add: B_def)
  moreover have "B \<noteq> []" using \<open>length B = _\<close> by (metis add_is_0 list.size(3) zero_neq_numeral)
  ultimately show ?thesis
    unfolding B_def [symmetric] by (subst scan_frames.simps) (simp add: frame_header_len_def)
qed

lemma scan_image:
  assumes "wal_lib_ok L"
  shows "list_all (fits_record L) es \<Longrightarrow>
    scan_frames L (image L es @ r) =
      rbind (scan_frames L r) (\<lambda>(es', n). Inr (es @ es', length (image L es) + n))"
proof (induction es)
  case Nil
  then show ?case by (cases "scan_frames L r") (auto simp: image_def)
next
  case (Cons e es)
  then show ?case
    using scan_frame [OF assms, of e "image L es @ r"]
    by (cases "scan_frames L r") (auto simp: image_def)
qed

lemma scan_Nil [simp]: "scan_frames L [] = Inr ([], 0)"
  by (simp add: scan_frames.simps)

lemma scan_torn:
  assumes "p \<noteq> []" "length p \<le> max_record_bytes" "k < length (frame L p)"
  shows "scan_frames L (take k (frame L p)) = Inr ([], 0)"
proof (cases "k < 8")
  case True
  then show ?thesis by (subst scan_frames.simps) (simp add: frame_header_len_def)
next
  case False
  then have "take 4 (take k (frame L p)) = take 4 (frame L p)" by (simp add: min_def)
  then have "unat (le_word (take 4 (take k (frame L p))) :: u32) = length p"
    using frame_fields(1) [of L p "[]"] assms(2) by (simp add: unat_len)
  then show ?thesis
    using assms False by (subst scan_frames.simps) (simp add: frame_header_len_def Let_def)
qed

lemma length_wal_magic [simp]: "length wal_magic = 8"
  by (simp add: wal_magic_def)

lemma wal_scan_magic: "wal_scan L (wal_magic @ bs) = rmap (\<lambda>(es, n). (es, 8 + n)) (scan_frames L bs)"
  by (simp add: wal_scan_def header_len_def)

lemma wal_scan_image:
  "wal_lib_ok L \<Longrightarrow> list_all (fits_record L) es \<Longrightarrow>
   wal_scan L (wal_magic @ image L es) = Inr (es, length (wal_magic @ image L es))"
  using scan_image [of L es "[]"] by (simp add: wal_scan_magic)

lemma wal_scan_torn:
  "wal_lib_ok L \<Longrightarrow> list_all (fits_record L) es \<Longrightarrow> fits_record L e \<Longrightarrow>
   k < length (frame L (payload_of L e)) \<Longrightarrow>
   wal_scan L (wal_magic @ image L es @ take k (frame L (payload_of L e))) =
     Inr (es, length (wal_magic @ image L es))"
  using scan_image [of L es] scan_torn [of "payload_of L e" k L] wal_libD(2) [of L e]
  by (simp add: wal_scan_magic fits_record_def)

section \<open>The contract of a log\<close>

text \<open>
  What the partitions and the catalog rely on (the trait \<open>LogStore\<close>). \<open>contents\<close> is the
  abstract log, the pairs of sequence number and mutation in log order.
\<close>

locale log_store =
  fixes append :: "'s \<Rightarrow> 'm \<Rightarrow> nat result \<times> 's"
    and truncate :: "'s \<Rightarrow> nat \<Rightarrow> 's result"
    and contents :: "'s \<Rightarrow> (nat \<times> 'm) list"
    and inv :: "'s \<Rightarrow> bool"
    and loggable :: "'s \<Rightarrow> 'm \<Rightarrow> bool"
  assumes append_inv: "inv s \<Longrightarrow> loggable s m \<Longrightarrow> append s m = (r, s') \<Longrightarrow> inv s'"
    and append_ok: "inv s \<Longrightarrow> loggable s m \<Longrightarrow> append s m = (Inr n, s') \<Longrightarrow>
      contents s' = contents s @ [(n, m)] \<and> (\<forall>(k, _) \<in> set (contents s). k < n)"
    and append_err: "inv s \<Longrightarrow> append s m = (Inl e, s') \<Longrightarrow> contents s' = contents s"
    and truncate_ok: "inv s \<Longrightarrow> truncate s u = Inr s' \<Longrightarrow>
      inv s' \<and> contents s' = filter (\<lambda>(k, _). u < k) (contents s)"
begin

text \<open>Truncating what a checkpoint covers leaves the part that recovery replays as it was.\<close>

lemma truncate_replay:
  assumes "inv s" "truncate s u = Inr s'" "u \<le> a"
  shows "filter (\<lambda>(k, _). a < k) (contents s') = filter (\<lambda>(k, _). a < k) (contents s)"
proof -
  have "contents s' = filter (\<lambda>(k, _). u < k) (contents s)" using truncate_ok assms(1,2) by blast
  moreover have "filter (\<lambda>(k, _). a < k) (filter (\<lambda>(k, _). u < k) xs) = filter (\<lambda>(k, _). a < k) xs"
    for xs :: "(nat \<times> 'm) list"
    using assms(3) by (induction xs) auto
  ultimately show ?thesis by simp
qed

lemma append_replay:
  assumes "inv s" "loggable s m" "append s m = (Inr n, s')" "\<forall>(k, _) \<in> set (contents s). a < k \<or> k \<le> a"
    and "a < n"
  shows "filter (\<lambda>(k, _). a < k) (contents s') = filter (\<lambda>(k, _). a < k) (contents s) @ [(n, m)]"
  using append_ok [OF assms(1-3)] assms(5) by simp

lemma append_contents_subset:
  assumes "inv s" "loggable s m" "append s m = (r, s')"
  shows "set (contents s) \<subseteq> set (contents s')"
  using append_ok [OF assms(1,2)] append_err [OF assms(1)] assms(3) by (cases r) auto

end

definition log_contents :: "wal_lib \<Rightarrow> fs_store \<times> file_log \<Rightarrow> (nat \<times> mutation) list" where
  "log_contents L st =
     (case entries_from L st 0 of Inl _ \<Rightarrow> []
      | Inr es \<Rightarrow> map (\<lambda>e. (lsn e, entry_mutation e)) es)"

definition log_holds :: "wal_lib \<Rightarrow> fs_store \<times> file_log \<Rightarrow> log_entry list \<Rightarrow> bool" where
  "log_holds L st es \<longleftrightarrow> wal_lib_ok L \<and> store_ok (fst st) \<and> object_key (log_key (snd st)) \<and>
     map_of (files (fst st)) (log_key (snd st)) = Some (wal_magic @ image L es) \<and>
     list_all (fits_record L) es \<and> sorted_wrt (<) (map lsn es) \<and>
     (\<forall>e \<in> set es. 0 < lsn e \<and> lsn e \<le> last_lsn (snd st)) \<and> last_lsn (snd st) < next_lsn (snd st)"

definition log_inv :: "wal_lib \<Rightarrow> fs_store \<times> file_log \<Rightarrow> bool" where
  "log_inv L st \<longleftrightarrow> (\<exists>es. log_holds L st es)"

definition loggable :: "wal_lib \<Rightarrow> fs_store \<times> file_log \<Rightarrow> mutation \<Rightarrow> bool" where
  "loggable L st m \<longleftrightarrow>
     length (payload_of L \<lparr>lsn = next_lsn (snd st), entry_mutation = m\<rparr>) < 2 ^ 32"

lemma read_all_holds: "log_holds L (s, log) es \<Longrightarrow> read_all L s log = Inr es"
  by (simp add: log_holds_def read_all_def wal_scan_image)

lemma contents_holds: "log_holds L st es \<Longrightarrow> log_contents L st = map (\<lambda>e. (lsn e, entry_mutation e)) es"
  by (cases st) (simp add: log_contents_def entries_from_def read_all_holds)

lemma object_file_dirs:
  "store_ok s \<Longrightarrow> map_of (files s) k = Some b \<Longrightarrow> object_key k \<and> set (ancestors k) \<subseteq> set (dirs s)"
proof -
  assume s: "store_ok s" and "map_of (files s) k = Some b"
  then have "k \<in> set (map fst (files s))" by (metis map_of_eq_None_iff option.distinct(1) set_map)
  then show "object_key k \<and> set (ancestors k) \<subseteq> set (dirs s)"
    using s unfolding store_ok_def by blast
qed

lemma image_snoc: "image L (es @ [e]) = image L es @ frame L (payload_of L e)"
  by (simp add: image_def)

lemma log_append_cases:
  assumes "log_holds L (s, log) es" "loggable L (s, log) m"
  defines "e \<equiv> \<lparr>lsn = next_lsn log, entry_mutation = m\<rparr>"
  shows "log_append L (s, log) m =
    (if fits_record L e
     then (Inr (next_lsn log), sys_write s (log_key log) (wal_magic @ image L (es @ [e])),
           log\<lparr>next_lsn := next_lsn log + 1, last_lsn := next_lsn log\<rparr>)
     else (Inl BadRequest, s, log\<lparr>next_lsn := next_lsn log + 1\<rparr>))"
proof -
  have L: "wal_lib_ok L" using assms(1) by (simp add: log_holds_def)
  have "unat (word_of_nat (length (payload_of L e)) :: u32) = length (payload_of L e)"
    using assms(2) by (simp add: unat_of_nat loggable_def e_def)
  moreover have "max (last_lsn log) (next_lsn log) = next_lsn log"
    using assms(1) by (simp add: log_holds_def)
  ultimately show ?thesis
    using assms(1) wal_libD(1) [OF L, of e]
    by (simp add: log_append_def log_holds_def fits_record_def image_snoc Let_def flip: e_def)
qed

lemma holds_append:
  assumes "log_holds L (s, log) es" "fits_record L \<lparr>lsn = next_lsn log, entry_mutation = m\<rparr>"
  shows "log_holds L (sys_write s (log_key log) (wal_magic @ image L (es @ [\<lparr>lsn = next_lsn log, entry_mutation = m\<rparr>])),
    log\<lparr>next_lsn := next_lsn log + 1, last_lsn := next_lsn log\<rparr>) (es @ [\<lparr>lsn = next_lsn log, entry_mutation = m\<rparr>])"
  using assms object_file_dirs [of s "log_key log"]
  by (auto simp: log_holds_def sorted_wrt_append intro!: store_ok_write)

lemma encode_entries_ok:
  assumes "wal_lib_ok L"
  shows "encode_entries L es = Inr (map (\<lambda>e. frame L (payload_of L e)) es)"
  unfolding encode_entries_def by (rule mapM_Inr_map) (simp add: wal_libD(1) [OF assms])

lemma compacting_object:
  "object_key k \<Longrightarrow> object_key (with_extension k ''log.compacting'')"
  "object_key k \<Longrightarrow> ancestors (with_extension k ''log.compacting'') = ancestors k"
  by (rule with_extension_object; simp)+

lemma truncate_holds:
  assumes "log_holds L (s, log) es"
  obtains s' where "truncate_prefix L (s, log) u = Inr (s', log)"
    "log_holds L (s', log) (filter (\<lambda>e. u < lsn e) es)"
    "map_of (files s') = ((map_of (files s))(with_extension (log_key log) ''log.compacting'' := None))
       (log_key log \<mapsto> wal_magic @ image L (filter (\<lambda>e. u < lsn e) es))"
proof -
  let ?k = "log_key log" and ?es = "filter (\<lambda>e. u < lsn e) es"
  let ?t = "with_extension ?k ''log.compacting''"
  have L: "wal_lib_ok L" and s: "store_ok s" and k: "object_key ?k"
    using assms by (auto simp: log_holds_def)
  have anc: "set (ancestors ?k) \<subseteq> set (dirs s)"
    using assms object_file_dirs [OF s] by (auto simp: log_holds_def)
  note t = compacting_object [OF k]
  let ?b = "wal_magic @ image L ?es"
  let ?s1 = "sys_write s ?t []"
  let ?s2 = "sys_write ?s1 ?t ?b"
  have "store_ok ?s1" by (rule store_ok_write [OF s t(1)]) (use anc t(2) in simp)
  then have s2: "store_ok ?s2" by (rule store_ok_write [OF _ t(1)]) (use anc t(2) in simp)
  let ?s' = "sys_write (sys_remove ?s2 ?t) ?k ?b"
  have s': "store_ok ?s'" by (rule store_ok_write [OF store_ok_remove [OF s2] k]) (use anc in simp)
  have f: "map_of (files ?s') = ((map_of (files s))(?t := None))(?k \<mapsto> ?b)"
    by (auto simp: sys_write_def [of s] update_conv')
  have "truncate_prefix L (s, log) u = Inr (?s', log)"
    using not_dir [OF s t(1)] not_dir [OF s k]
    by (simp add: truncate_prefix_def read_all_holds [OF assms] encode_entries_ok [OF L]
      sys_create_def sys_rename_def image_def Let_def)
  moreover have "log_holds L (?s', log) ?es"
    using assms s' by (auto simp: log_holds_def list_all_iff sorted_wrt_map intro: sorted_wrt_filter)
  ultimately show ?thesis using that f by blast
qed

interpretation log: log_store "log_append L" "truncate_prefix L" "log_contents L" "log_inv L" "loggable L" for L
proof
  fix st :: "fs_store \<times> file_log" and m r st' n e u
  obtain s log where st: "st = (s, log)" by (cases st)
  assume inv: "log_inv L st"
  then obtain es where es: "log_holds L (s, log) es" by (auto simp: log_inv_def st)
  let ?e = "\<lparr>lsn = next_lsn log, entry_mutation = m\<rparr>"
  have bump: "log_holds L (s, log\<lparr>next_lsn := next_lsn log + 1\<rparr>) es"
    using es by (auto simp: log_holds_def)
  show "log_inv L st'" if "loggable L st m" "log_append L st m = (r, st')"
    using log_append_cases [OF es, of m] that holds_append [OF es, of m] bump
    by (auto simp: log_inv_def st split: if_splits)
  show "log_contents L st' = log_contents L st @ [(n, m)] \<and> (\<forall>(k, _) \<in> set (log_contents L st). k < n)"
    if "loggable L st m" "log_append L st m = (Inr n, st')"
  proof -
    have *: "n = next_lsn log" "log_holds L st' (es @ [?e])"
      using log_append_cases [OF es, of m] that holds_append [OF es, of m] by (auto simp: st split: if_splits)
    then show ?thesis
      using contents_holds [OF *(2)] contents_holds [OF es] es
      by (auto simp: st log_holds_def)
  qed
  show "log_contents L st' = log_contents L st" if "log_append L st m = (Inl e, st')"
  proof -
    have "st' = (s, log\<lparr>next_lsn := next_lsn log + 1\<rparr>)"
      using that by (auto simp: st log_append_def Let_def split: option.splits if_splits)
    then show ?thesis using contents_holds [OF bump] contents_holds [OF es] by (simp add: st)
  qed
  show "log_inv L st' \<and> log_contents L st' = filter (\<lambda>(k, _). u < k) (log_contents L st)"
    if "truncate_prefix L st u = Inr st'"
  proof -
    have "log_holds L st' (filter (\<lambda>e. u < lsn e) es)"
      using truncate_holds [OF es, of u] that by (auto simp: st)
    then show ?thesis
      using contents_holds [OF es] contents_holds by (auto simp: log_inv_def st filter_map comp_def)
  qed
qed

section \<open>Opening\<close>

lemma is_file_sys [simp]: "is_file (s\<lparr>dirs := d\<rparr>) = is_file s" "is_file (sys_write s k b) k"
  by (auto simp: is_file_def)

lemma log_open_scanned:
  assumes "store_ok s" "object_key key" "map_of (files s) key = Some file" "file \<noteq> []"
    and "wal_scan L file = Inr (es, n)" "n \<le> length file"
  obtains s' where
    "log_open L s key = Inr (s', \<lparr>rec_store = \<lparr>log_key = key,
        next_lsn = (if es = [] then 0 else lsn (last es)) + 1,
        last_lsn = (if es = [] then 0 else lsn (last es))\<rparr>,
      rec_entries = es, truncated_bytes = length file - n\<rparr>)"
    "store_ok s'" "map_of (files s') = (map_of (files s))(key \<mapsto> take n file)"
proof -
  obtain ds where ds: "ensure_parent s key = Inr (s\<lparr>dirs := ds\<rparr>)" "store_ok (s\<lparr>dirs := ds\<rparr>)"
    "set ds = set (ancestors key) \<union> set (dirs s)"
    using ensure_parent_ok [OF assms(1,2)] .
  let ?s = "s\<lparr>dirs := ds\<rparr>"
  let ?s' = "if 0 < length file - n then sys_write ?s key (take n file) else ?s"
  have "store_ok (sys_write ?s key (take n file))"
    by (rule store_ok_write [OF ds(2) assms(2)]) (use ds in auto)
  then have "store_ok ?s'" using ds by simp
  moreover have "map_of (files ?s') = (map_of (files s))(key \<mapsto> take n file)"
    using assms(3,6) by (auto simp: fun_eq_iff)
  moreover have "is_file s key" using assms(3) by (simp add: is_file_def)
  moreover have "log_open L s key = Inr (?s', \<lparr>rec_store = \<lparr>log_key = key,
        next_lsn = (if es = [] then 0 else lsn (last es)) + 1,
        last_lsn = (if es = [] then 0 else lsn (last es))\<rparr>,
      rec_entries = es, truncated_bytes = length file - n\<rparr>)"
    using ds(1) assms(3-5) \<open>is_file s key\<close> by (simp add: log_open_def Let_def)
  ultimately show ?thesis using that by blast
qed

lemma log_open_fresh:
  assumes "store_ok s" "object_key key" "map_of (files s) key = None \<or> map_of (files s) key = Some []"
  obtains s' where "log_open L s key = Inr (s', \<lparr>rec_store = \<lparr>log_key = key, next_lsn = 1, last_lsn = 0\<rparr>,
      rec_entries = [], truncated_bytes = 0\<rparr>)"
    "store_ok s'" "map_of (files s') = (map_of (files s))(key \<mapsto> wal_magic)"
proof -
  obtain ds where ds: "ensure_parent s key = Inr (s\<lparr>dirs := ds\<rparr>)" "store_ok (s\<lparr>dirs := ds\<rparr>)"
    "set ds = set (ancestors key) \<union> set (dirs s)"
    using ensure_parent_ok [OF assms(1,2)] .
  let ?s = "s\<lparr>dirs := ds\<rparr>"
  let ?s1 = "if is_file s key then ?s else sys_write ?s key []"
  have s1: "store_ok ?s1" using ds store_ok_write [OF ds(2) assms(2), of "[]"] by simp
  have ok: "store_ok (sys_write ?s1 key wal_magic)"
    by (rule store_ok_write [OF s1 assms(2)]) (use ds in auto)
  have f: "map_of (files (sys_write ?s1 key wal_magic)) = (map_of (files s))(key \<mapsto> wal_magic)"
    by (auto simp: fun_eq_iff)
  have "map_of (files ?s1) key = Some []" "\<not> is_dir ?s key"
    using assms(3) not_dir [OF ds(2) assms(2)] by (auto simp: is_file_def)
  moreover have "wal_scan L wal_magic = Inr ([], 8)"
    using wal_scan_magic [of L "[]"] by simp
  moreover have "(if is_file s key then Inr ?s else sys_create ?s key) = Inr ?s1"
    using not_dir [OF ds(2) assms(2)] by (simp add: sys_create_def)
  ultimately have "log_open L s key = Inr (sys_write ?s1 key wal_magic,
      \<lparr>rec_store = \<lparr>log_key = key, next_lsn = 1, last_lsn = 0\<rparr>, rec_entries = [], truncated_bytes = 0\<rparr>)"
    using ds(1) by (simp add: log_open_def Let_def)
  then show ?thesis using that ok f by blast
qed

lemma append_crash_image:
  assumes "log_holds L (s, log) es" "loggable L (s, log) m" "c \<in> set (append_crash_states L (s, log) m)"
  defines "e \<equiv> \<lparr>lsn = next_lsn log, entry_mutation = m\<rparr>"
  obtains es' tail where "map_of (files c) = (map_of (files s))(log_key log \<mapsto> wal_magic @ image L es' @ tail)"
    "wal_scan L (wal_magic @ image L es' @ tail) = Inr (es', length (wal_magic @ image L es'))"
    "es' = es \<or> es' = es @ [e] \<and> fits_record L e" "store_ok c"
proof -
  have L: "wal_lib_ok L" and s: "store_ok s" and k: "object_key (log_key log)" and f: "list_all (fits_record L) es"
    and disk: "map_of (files s) (log_key log) = Some (wal_magic @ image L es)"
    using assms(1) by (auto simp: log_holds_def)
  have u: "unat (word_of_nat (length (payload_of L e)) :: u32) = length (payload_of L e)"
    using assms(2) by (simp add: unat_of_nat loggable_def e_def)
  show ?thesis
  proof (cases "fits_record L e")
    case False
    then have "c = s"
      using assms(3) u wal_libD(1) [OF L, of e]
      by (auto simp: append_crash_states_def fits_record_def simp flip: e_def)
    then show ?thesis using that [of es "[]"] disk wal_scan_image [OF L f] s by (auto simp: fun_eq_iff)
  next
    case True
    let ?F = "frame L (payload_of L e)"
    have "c \<in> (\<lambda>j. sys_write s (log_key log) (wal_magic @ image L es @ take j ?F)) ` set [0..<Suc (length ?F)]"
      using assms(3) True u wal_libD(1) [OF L, of e] disk
      by (simp add: append_crash_states_def fits_record_def del: upt_Suc flip: e_def)
    then obtain j where j: "j < Suc (length ?F)" "c = sys_write s (log_key log) (wal_magic @ image L es @ take j ?F)"
      by auto
    have c: "store_ok c" unfolding j(2)
      by (rule store_ok_write [OF s k]) (use object_file_dirs [OF s disk] in blast)
    show ?thesis
    proof (cases "j = length ?F")
      case True
      have "list_all (fits_record L) (es @ [e])" using f \<open>fits_record L e\<close> by simp
      from wal_scan_image [OF L this] show ?thesis
        using that [of "es @ [e]" "[]"] j True \<open>fits_record L e\<close> c by (simp add: image_snoc)
    next
      case False
      then show ?thesis
        using that [of es "take j ?F"] j wal_scan_torn [OF L f \<open>fits_record L e\<close>, of j] c by simp
    qed
  qed
qed

lemma last_lsn_bound:
  "sorted_wrt (<) (map lsn es) \<Longrightarrow> e \<in> set es \<Longrightarrow> lsn e \<le> lsn (last es)"
  by (induction es rule: rev_induct) (auto simp: sorted_wrt_append)

lemma log_open_holds:
  assumes "wal_lib_ok L" "store_ok c" "object_key key" "map_of (files c) key = Some (wal_magic @ image L es @ torn)"
    and "wal_scan L (wal_magic @ image L es @ torn) = Inr (es, length (wal_magic @ image L es))"
    and "list_all (fits_record L) es" "sorted_wrt (<) (map lsn es)" "\<forall>e \<in> set es. 0 < lsn e"
  obtains s' r where "log_open L c key = Inr (s', r)" "rec_entries r = es" "log_key (rec_store r) = key"
    "log_holds L (s', rec_store r) es" "truncated_bytes r = length torn"
    "last_lsn (rec_store r) = (if es = [] then 0 else lsn (last es))"
    "next_lsn (rec_store r) = (if es = [] then 0 else lsn (last es)) + 1"
    "map_of (files s') = (map_of (files c))(key \<mapsto> wal_magic @ image L es)"
proof -
  obtain s' where s': "log_open L c key = Inr (s', \<lparr>rec_store = \<lparr>log_key = key,
        next_lsn = (if es = [] then 0 else lsn (last es)) + 1,
        last_lsn = (if es = [] then 0 else lsn (last es))\<rparr>,
      rec_entries = es, truncated_bytes = length (wal_magic @ image L es @ torn) - length (wal_magic @ image L es)\<rparr>)"
    "store_ok s'" "map_of (files s') = (map_of (files c))(key \<mapsto>
       take (length (wal_magic @ image L es)) (wal_magic @ image L es @ torn))"
    by (rule log_open_scanned [OF assms(2-4) _ assms(5)]) (auto simp: wal_magic_def as_bytes_def)
  have "log_holds L (s', \<lparr>log_key = key, next_lsn = (if es = [] then 0 else lsn (last es)) + 1,
      last_lsn = (if es = [] then 0 else lsn (last es))\<rparr>) es"
    using assms s' last_lsn_bound [OF assms(7)] by (auto simp: log_holds_def)
  then show ?thesis using s' by (intro that [OF s'(1)]) auto
qed

end
