(* ===== verification/Codec.thy ===== *)
theory Codec
  imports Values Bytes
begin

text \<open>
  A small length-prefixed codec: encoders and decoders of naturals, lists, strings and scalars
  with their round-trip laws. It is not a format of the program; the concrete instances of the
  external codecs (log records, batches, manifests) that the witnesses run on are built from it.
\<close>

type_synonym 'a decoder = "bytes \<Rightarrow> ('a \<times> bytes) option"

definition decodes :: "('a \<Rightarrow> bytes) \<Rightarrow> 'a decoder \<Rightarrow> bool" where
  "decodes enc dec \<longleftrightarrow> (\<forall>x r. dec (enc x @ r) = Some (x, r))"

fun dec_bind :: "('a \<times> bytes) option \<Rightarrow> ('a \<Rightarrow> 'b decoder) \<Rightarrow> ('b \<times> bytes) option" where
  "dec_bind None f = None"
| "dec_bind (Some (x, r)) f = f x r"

definition enc_nat :: "nat \<Rightarrow> bytes" where
  "enc_nat n = replicate n 1 @ [0]"

fun dec_nat :: "nat decoder" where
  "dec_nat [] = None"
| "dec_nat (b # bs) = (if b = 0 then Some (0, bs) else dec_bind (dec_nat bs) (\<lambda>n r. Some (Suc n, r)))"

definition enc_list :: "('a \<Rightarrow> bytes) \<Rightarrow> 'a list \<Rightarrow> bytes" where
  "enc_list enc xs = enc_nat (length xs) @ concat (map enc xs)"

fun dec_rep :: "'a decoder \<Rightarrow> nat \<Rightarrow> 'a list decoder" where
  "dec_rep dec 0 bs = Some ([], bs)"
| "dec_rep dec (Suc n) bs =
     dec_bind (dec bs) (\<lambda>x r. dec_bind (dec_rep dec n r) (\<lambda>xs r. Some (x # xs, r)))"

definition dec_list :: "'a decoder \<Rightarrow> 'a list decoder" where
  "dec_list dec bs = dec_bind (dec_nat bs) (dec_rep dec)"

definition enc_byte :: "u8 \<Rightarrow> bytes" where
  "enc_byte b = [b]"

fun dec_byte :: "u8 decoder" where
  "dec_byte [] = None"
| "dec_byte (b # bs) = Some (b, bs)"

definition enc_char :: "char \<Rightarrow> bytes" where
  "enc_char c = [word_of_nat (of_char c)]"

fun dec_char :: "char decoder" where
  "dec_char [] = None"
| "dec_char (b # bs) = Some (char_of (unat b), bs)"

definition dec_u64 :: "u64 decoder" where
  "dec_u64 bs = Some (le_word (take 8 bs), drop 8 bs)"

definition dec_u32 :: "u32 decoder" where
  "dec_u32 bs = Some (le_word (take 4 bs), drop 4 bs)"

fun enc_value :: "adb_value \<Rightarrow> bytes" where
  "enc_value VNull = [0]"
| "enc_value (VBool b) = [1, if b then 1 else 0]"
| "enc_value (VInt v) = 2 # le_bytes v"
| "enc_value (VFloat v) = 3 # le_bytes (to_bits v)"
| "enc_value (VStr s) = 4 # enc_list enc_char s"
| "enc_value (VTimestamp v) = 5 # le_bytes v"
| "enc_value (VDate v) = 6 # le_bytes v"

fun dec_value :: "adb_value decoder" where
  "dec_value [] = None"
| "dec_value (t # bs) =
     (if t = 0 then Some (VNull, bs)
      else if t = 1 then dec_bind (dec_byte bs) (\<lambda>b r. Some (VBool (b = 1), r))
      else if t = 2 then dec_bind (dec_u64 bs) (\<lambda>v r. Some (VInt v, r))
      else if t = 3 then dec_bind (dec_u64 bs) (\<lambda>v r. Some (VFloat (F64 v), r))
      else if t = 4 then dec_bind (dec_list dec_char bs) (\<lambda>s r. Some (VStr s, r))
      else if t = 5 then dec_bind (dec_u64 bs) (\<lambda>v r. Some (VTimestamp v, r))
      else dec_bind (dec_u32 bs) (\<lambda>v r. Some (VDate v, r)))"

lemma dec_nat_enc: "dec_nat (enc_nat n @ r) = Some (n, r)"
  by (induction n) (simp_all add: enc_nat_def)

lemma dec_rep_enc: "decodes enc dec \<Longrightarrow> dec_rep dec (length xs) (concat (map enc xs) @ r) = Some (xs, r)"
  by (induction xs) (simp_all add: decodes_def)

lemma decodes_list: "decodes enc dec \<Longrightarrow> decodes (enc_list enc) (dec_list dec)"
  by (simp add: decodes_def [of "enc_list enc"] enc_list_def dec_list_def dec_nat_enc dec_rep_enc)

lemma decodes_byte: "decodes enc_byte dec_byte"
  by (simp add: decodes_def enc_byte_def)

lemma decodes_char: "decodes enc_char dec_char"
  by (simp add: decodes_def enc_char_def unat_of_nat of_char_mod_256)

lemma dec_words [simp]:
  "dec_u64 (le_bytes (v :: u64) @ r) = Some (v, r)" "dec_u32 (le_bytes (d :: u32) @ r) = Some (d, r)"
  by (simp_all add: dec_u64_def dec_u32_def)

lemma decodes_value: "decodes enc_value dec_value"
  unfolding decodes_def
proof (intro allI)
  fix v r
  show "dec_value (enc_value v @ r) = Some (v, r)"
    using decodes_list [OF decodes_char] by (cases v) (simp_all add: decodes_def)
qed

end
