(* ===== verification/WalRecovery.thy ===== *)
theory WalRecovery
  imports Wal Codec
begin

text \<open>
  What the log guarantees across crashes and corruption, for any codec that satisfies
  \<open>wal_lib_ok\<close>. \<open>demo_wal\<close> is a concrete instance of the parameters on which the witnesses run:
  a length-prefixed encoding of log entries and a checksum.
\<close>

section \<open>A concrete codec\<close>

fun enc_mutation :: "mutation \<Rightarrow> bytes" where
  "enc_mutation (MDdl s) = 0 # enc_list enc_char s"
| "enc_mutation (MInsert b) = 1 # enc_list enc_byte b"
| "enc_mutation (MUpsert b) = 2 # enc_list enc_byte b"
| "enc_mutation (MDelete ks) = 3 # enc_list (enc_list enc_value) ks"

fun dec_mutation :: "mutation decoder" where
  "dec_mutation [] = None"
| "dec_mutation (t # bs) =
     (if t = 0 then dec_bind (dec_list dec_char bs) (\<lambda>s r. Some (MDdl s, r))
      else if t = 1 then dec_bind (dec_list dec_byte bs) (\<lambda>b r. Some (MInsert b, r))
      else if t = 2 then dec_bind (dec_list dec_byte bs) (\<lambda>b r. Some (MUpsert b, r))
      else dec_bind (dec_list (dec_list dec_value) bs) (\<lambda>ks r. Some (MDelete ks, r)))"

definition enc_entry :: "log_entry \<Rightarrow> bytes" where
  "enc_entry e = enc_nat (lsn e) @ enc_mutation (entry_mutation e)"

definition dec_entry :: "log_entry decoder" where
  "dec_entry bs = dec_bind (dec_nat bs) (\<lambda>n r.
     dec_bind (dec_mutation r) (\<lambda>m r. Some (\<lparr>lsn = n, entry_mutation = m\<rparr>, r)))"

definition demo_wal :: wal_lib where
  "demo_wal = \<lparr>bincode_serialize = \<lambda>e. Some (enc_entry e),
     bincode_deserialize = \<lambda>bs. map_option fst (dec_entry bs),
     crc32 = \<lambda>bs. foldl (\<lambda>h b. h * 31 + ucast b) 7 bs\<rparr>"

lemma decodes_mutation: "decodes enc_mutation dec_mutation"
  unfolding decodes_def
proof (intro allI)
  fix m r
  show "dec_mutation (enc_mutation m @ r) = Some (m, r)"
    using decodes_list [OF decodes_char] decodes_list [OF decodes_byte]
      decodes_list [OF decodes_list [OF decodes_value]]
    by (cases m) (simp_all add: decodes_def)
qed

lemma decodes_entry: "dec_entry (enc_entry e @ r) = Some (e, r)"
  using decodes_mutation by (simp add: dec_entry_def enc_entry_def dec_nat_enc decodes_def)

lemma demo_wal_ok: "wal_lib_ok demo_wal"
  using decodes_entry [of _ "[]"]
  by (simp add: wal_lib_ok_def demo_wal_def enc_entry_def enc_nat_def)

section \<open>A concrete log\<close>

definition demo_entry :: log_entry where
  "demo_entry = \<lparr>lsn = 1, entry_mutation = MDelete [[VInt 7]]\<rparr>"

definition demo_log_state :: "fs_store \<times> file_log" where
  "demo_log_state =
     (\<lparr>files = [(''w/current.log'', wal_magic @ image demo_wal [demo_entry])], dirs = [''w''],
       counter = 0, pid = 7\<rparr>,
      \<lparr>log_key = ''w/current.log'', next_lsn = 2, last_lsn = 1\<rparr>)"

lemma demo_object_key: "object_key ''w/current.log''" "ancestors ''w/current.log'' = [''w'']"
  by (simp_all add: object_key_def validate_key_def ancestors_def)

lemma demo_payload_length:
  "length (payload_of demo_wal \<lparr>lsn = n, entry_mutation = MDelete [[VInt k]]\<rparr>) = n + 15"
  by (simp add: payload_of_def demo_wal_def enc_entry_def enc_nat_def enc_list_def)

lemma demo_fits: "fits_record demo_wal demo_entry"
  by (simp add: fits_record_def demo_entry_def demo_payload_length max_record_bytes_def)

lemma demo_log_holds: "log_holds demo_wal demo_log_state [demo_entry]"
  using demo_object_key
  by (simp add: log_holds_def demo_log_state_def demo_wal_ok store_ok_def fits_record_def
    demo_entry_def demo_payload_length max_record_bytes_def)

lemma demo_loggable: "loggable demo_wal demo_log_state (MDelete [[VInt 8]])"
  by (simp add: loggable_def demo_log_state_def demo_payload_length)

section \<open>Properties\<close>

text \<open>
  C18: append is crash safe: from a log holding the records \<open>es\<close>, whatever prefix of the new frame
  a crash leaves, reopening succeeds and recovers either exactly \<open>es\<close> or \<open>es\<close> with the new record,
  with the log again well formed and the next sequence number following the last recovered one.
\<close>

theorem append_crash_recovers:
  assumes "log_holds L (s, log) es" and "loggable L (s, log) m"
    and "c \<in> set (append_crash_states L (s, log) m)"
  shows "\<exists>s' r. log_open L c (log_key log) = Inr (s', r) \<and>
    (rec_entries r = es \<or> rec_entries r = es @ [\<lparr>lsn = next_lsn log, entry_mutation = m\<rparr>]) \<and>
    log_holds L (s', rec_store r) (rec_entries r) \<and>
    next_lsn (rec_store r) = (if rec_entries r = [] then 0 else lsn (last (rec_entries r))) + 1"
proof -
  let ?e = "\<lparr>lsn = next_lsn log, entry_mutation = m\<rparr>"
  obtain es' torn where c: "map_of (files c) = (map_of (files s))(log_key log \<mapsto> wal_magic @ image L es' @ torn)"
    and sc: "wal_scan L (wal_magic @ image L es' @ torn) = Inr (es', length (wal_magic @ image L es'))"
    and es': "es' = es \<or> es' = es @ [?e] \<and> fits_record L ?e" and ok: "store_ok c"
    by (rule append_crash_image [OF assms])
  have h: "wal_lib_ok L" "object_key (log_key log)" "list_all (fits_record L) es" "sorted_wrt (<) (map lsn es)"
    "\<forall>e \<in> set es. 0 < lsn e \<and> lsn e \<le> last_lsn log" "last_lsn log < next_lsn log"
    using assms(1) by (auto simp: log_holds_def)
  have "\<forall>e \<in> set es. lsn e < next_lsn log" using h(5,6) by fastforce
  then have "list_all (fits_record L) es'" "sorted_wrt (<) (map lsn es')" "\<forall>e \<in> set es'. 0 < lsn e"
    using es' h by (auto simp: sorted_wrt_append)
  moreover have "map_of (files c) (log_key log) = Some (wal_magic @ image L es' @ torn)" using c by simp
  ultimately show ?thesis using log_open_holds [OF h(1) ok h(2) _ sc] es' by metis
qed

theorem append_crash_recovers_witness:
  "\<exists>s' r. log_open demo_wal (fst demo_log_state) ''w/current.log'' = Inr (s', r) \<and>
     next_lsn (rec_store r) \<in> {2, 3}"
proof -
  obtain s log where st: "demo_log_state = (s, log)" by (cases demo_log_state)
  have log: "log_key log = ''w/current.log''" "next_lsn log = 2" using st by (auto simp: demo_log_state_def)
  let ?cs = "append_crash_states demo_wal (s, log) (MDelete [[VInt 8]])"
  have "s \<in> set ?cs"
  proof -
    let ?F = "frame demo_wal (payload_of demo_wal \<lparr>lsn = 2, entry_mutation = MDelete [[VInt 8]]\<rparr>)"
    have "bincode_serialize demo_wal \<lparr>lsn = 2, entry_mutation = MDelete [[VInt 8]]\<rparr> =
        Some (payload_of demo_wal \<lparr>lsn = 2, entry_mutation = MDelete [[VInt 8]]\<rparr>)"
      by (rule wal_libD(1) [OF demo_wal_ok])
    moreover have "map_of (files s) (log_key log) = Some (wal_magic @ image demo_wal [demo_entry])"
      "sys_write s (log_key log) (wal_magic @ image demo_wal [demo_entry]) = s"
      using st by (auto simp: demo_log_state_def sys_write_def)
    ultimately have "s = sys_write s (log_key log) ((wal_magic @ image demo_wal [demo_entry]) @ take 0 ?F)"
      and "?cs = map (\<lambda>k. sys_write s (log_key log) ((wal_magic @ image demo_wal [demo_entry]) @ take k ?F))
        [0..<Suc (length ?F)]"
      by (simp_all add: append_crash_states_def log demo_payload_length max_record_bytes_def del: upt_Suc)
    then show ?thesis by (metis (no_types, lifting) atLeastLessThan_iff bot_nat_0.extremum imageI list.set_map set_upt zero_less_Suc)
  qed
  from append_crash_recovers [OF demo_log_holds [unfolded st] demo_loggable [unfolded st] this]
  show ?thesis unfolding st log by (auto simp: demo_entry_def)
qed

text \<open>
  Remark: the log numbers its records densely enough to replay: a successful append adds exactly one
  record at the end, with a number above every number in the log, a failed one adds none, and
  truncation after a checkpoint removes exactly the records up to the checkpoint.
\<close>

theorem log_append_truncate_exact:
  assumes "log_inv L st" and "loggable L st m"
  shows "(case log_append L st m of
      (Inr n, st') \<Rightarrow> log_inv L st' \<and> log_contents L st' = log_contents L st @ [(n, m)] \<and>
        (\<forall>(k, _) \<in> set (log_contents L st). k < n)
    | (Inl _, st') \<Rightarrow> log_inv L st' \<and> log_contents L st' = log_contents L st) \<and>
    (\<exists>st''. truncate_prefix L st u = Inr st'' \<and> log_inv L st'' \<and>
       log_contents L st'' = filter (\<lambda>(k, _). u < k) (log_contents L st))"
proof -
  obtain r st' where a: "log_append L st m = (r, st')" by (cases "log_append L st m")
  obtain s lg es where st: "st = (s, lg)" and "log_holds L (s, lg) es"
    using assms(1) by (cases st) (auto simp: log_inv_def)
  then obtain s2 where t: "truncate_prefix L st u = Inr (s2, lg)" using truncate_holds by blast
  show ?thesis
    using a t log.append_inv [OF assms a] log.append_ok [OF assms] log.append_err [OF assms(1)]
      log.truncate_ok [OF assms(1) t]
    by (cases r) auto
qed

theorem log_append_truncate_exact_witness:
  "\<exists>n st'. log_append demo_wal demo_log_state (MDelete [[VInt 8]]) = (Inr n, st') \<and>
     map fst (log_contents demo_wal st') = [1, n] \<and> 1 < n"
proof -
  have inv: "log_inv demo_wal demo_log_state" using demo_log_holds by (auto simp: log_inv_def)
  have c: "log_contents demo_wal demo_log_state = [(1, MDelete [[VInt 7]])]"
    using contents_holds [OF demo_log_holds] by (simp add: demo_entry_def)
  have "fst (log_append demo_wal demo_log_state (MDelete [[VInt 8]])) = Inr 2"
    using log_append_cases [of demo_wal "fst demo_log_state" "snd demo_log_state" "[demo_entry]" "MDelete [[VInt 8]]"]
      demo_log_holds demo_loggable
    by (simp add: fits_record_def demo_payload_length max_record_bytes_def demo_log_state_def)
  then show ?thesis
    using log_append_truncate_exact [OF inv demo_loggable] c
    by (cases "log_append demo_wal demo_log_state (MDelete [[VInt 8]])") auto
qed



text \<open>
  C40: a record whose length field is zero is taken for the end of the log wherever it stands:
  everything after it, intact records included, is dropped as a torn tail without an error.
\<close>

theorem zero_length_drops_rest:
  assumes "wal_lib_ok L" and "list_all (fits_record L) es"
  shows "wal_scan L (wal_magic @ image L es @ le_bytes (0 :: u32) @ le_bytes crc @ image L later) =
    Inr (es, length (wal_magic @ image L es))"
proof -
  define B where "B = le_bytes (0 :: u32) @ le_bytes crc @ image L later"
  have "unat (le_word (take 4 B) :: u32) = 0" by (simp add: B_def)
  then have "scan_frames L B = Inr ([], 0)" by (subst scan_frames.simps) simp
  then show ?thesis
    using scan_image [OF assms, of B] by (simp add: wal_scan_magic B_def)
qed

theorem zero_length_drops_rest_witness:
  "wal_scan demo_wal (wal_magic @ image demo_wal [] @ le_bytes (0 :: u32) @ le_bytes (0 :: u32) @
     image demo_wal [demo_entry]) = Inr ([], length (wal_magic @ image demo_wal []))"
  by (rule zero_length_drops_rest [OF demo_wal_ok]) simp

text \<open>
  Remark: a crash while the header of a new log is being written leaves a file no later open accepts:
  every file of one to seven bytes is reported as corrupt.
\<close>

theorem torn_header_unopenable:
  assumes "store_ok s" and "object_key key" and "map_of (files s) key = Some b" and "b \<noteq> []" and "length b < 8"
  shows "log_open L s key = Inl Corruption"
proof -
  obtain ds where "ensure_parent s key = Inr (s\<lparr>dirs := ds\<rparr>)"
    using ensure_parent_ok [OF assms(1,2)] by metis
  then show ?thesis
    using assms(3-5) by (simp add: log_open_def is_file_def wal_scan_def header_len_def)
qed

theorem torn_header_unopenable_witness:
  "log_open demo_wal \<lparr>files = [(''w/current.log'', [65, 68])], dirs = [''w''], counter = 0, pid = 7\<rparr>
     ''w/current.log'' = Inl Corruption"
  by (rule torn_header_unopenable [where b = "[65, 68]"]) (use demo_object_key in \<open>simp_all add: store_ok_def\<close>)

text \<open>
  Remark: the size limit of a record is checked on the length modulo \<open>2 ^ 32\<close>: a payload just above
  four gibibytes passes it and is appended.
\<close>

theorem oversize_record_accepted:
  assumes "bincode_serialize L \<lparr>lsn = next_lsn log, entry_mutation = m\<rparr> = Some p"
    and "length p = 2 ^ 32 + k" and "k \<le> max_record_bytes" and "map_of (files s) (log_key log) \<noteq> None"
  shows "fst (log_append L (s, log) m) = Inr (next_lsn log)"
proof -
  have "unat (word_of_nat (length p) :: u32) = k"
    unfolding unat_of_nat assms(2) using assms(3) by (simp add: max_record_bytes_def)
  then show ?thesis using assms(1,3,4) by (auto simp: log_append_def Let_def)
qed

theorem oversize_record_accepted_witness:
  "fst (log_append \<lparr>bincode_serialize = \<lambda>e. Some (replicate (2 ^ 32 + 1) 0), bincode_deserialize = \<lambda>_. None,
     crc32 = \<lambda>_. 0\<rparr> demo_log_state (MDdl [])) = Inr 2"
proof -
  let ?L = "\<lparr>bincode_serialize = \<lambda>e. Some (replicate (2 ^ 32 + 1) 0), bincode_deserialize = \<lambda>_. None,
     crc32 = \<lambda>_. 0\<rparr> :: wal_lib"
  obtain s log where st: "demo_log_state = (s, log)" by (cases demo_log_state)
  have "fst (log_append ?L (s, log) (MDdl [])) = Inr (next_lsn log)"
    by (rule oversize_record_accepted [where k = 1 and p = "replicate (2 ^ 32 + 1) 0"])
      (use st in \<open>auto simp: demo_log_state_def max_record_bytes_def\<close>)
  then show ?thesis using st by (auto simp: demo_log_state_def)
qed

end
