(* ===== verification/Batch.thy ===== *)
theory Batch
  imports Schema Codec
begin

text \<open>
  \<open>crates/adb-storage/src/rows.rs\<close>: JSON rows to columnar batches and back.

  A \<open>RecordBatch\<close> is represented by what the code observes of it: its fields and, row by row, the
  values its columns hold (\<open>value_at\<close> on an array is the value itself). The Arrow kernels and the
  IPC and Parquet codecs are outside the repository: they are the fields of \<open>arrow_lib\<close>, and
  \<open>arrow_ok\<close> states the documented behaviour of each on well-formed batches. Row ordinals are
  naturals.
\<close>

section \<open>Batches\<close>

datatype arrow_type = ABoolean | AInt64 | AFloat64 | AUtf8 | ATimestampUtc | ADate32

fun arrow_type_of :: "data_type \<Rightarrow> arrow_type" where
  "arrow_type_of DBool = ABoolean"
| "arrow_type_of DInt64 = AInt64"
| "arrow_type_of DFloat64 = AFloat64"
| "arrow_type_of DUtf8 = AUtf8"
| "arrow_type_of DUuid = AUtf8"
| "arrow_type_of DJson = AUtf8"
| "arrow_type_of DTimestamp = ATimestampUtc"
| "arrow_type_of DDate = ADate32"

record field =
  f_name :: string
  f_type :: arrow_type
  f_nullable :: bool

record batch =
  bfields :: "field list"
  brows :: "adb_value list list"

type_synonym row = "adb_value list"

definition arrow_field :: "column_schema \<Rightarrow> field" where
  "arrow_field c = \<lparr>f_name = col_name c, f_type = arrow_type_of (col_type c), f_nullable = nullable c\<rparr>"

definition arrow_schema :: "table_schema \<Rightarrow> field list" where
  "arrow_schema s = map arrow_field (columns s)"

definition num_rows :: "batch \<Rightarrow> nat" where
  "num_rows b = length (brows b)"

definition num_columns :: "batch \<Rightarrow> nat" where
  "num_columns b = length (bfields b)"

definition batch_column :: "batch \<Rightarrow> nat \<Rightarrow> adb_value list" where
  "batch_column b i = map (\<lambda>r. r ! i) (brows b)"

definition index_of :: "batch \<Rightarrow> string \<Rightarrow> nat option" where
  "index_of b n = position (\<lambda>f. f_name f = n) (bfields b)"

definition rows_of_columns :: "nat \<Rightarrow> adb_value list list \<Rightarrow> row list" where
  "rows_of_columns n cols = map (\<lambda>i. map (\<lambda>c. c ! i) cols) [0..<n]"

record arrow_lib =
  try_new :: "field list \<Rightarrow> adb_value list list \<Rightarrow> batch result"
  take_batch :: "batch \<Rightarrow> nat list \<Rightarrow> batch result"
  concat_batches :: "field list \<Rightarrow> batch list \<Rightarrow> batch result"
  slice :: "batch \<Rightarrow> nat \<Rightarrow> nat \<Rightarrow> batch"
  memory_size :: "batch \<Rightarrow> nat"
  ipc_write :: "batch \<Rightarrow> bytes result"
  ipc_read :: "bytes \<Rightarrow> (field list \<times> batch list) result"
  parquet_write :: "batch \<Rightarrow> bytes result"
  parquet_read :: "bytes \<Rightarrow> (field list \<times> batch list) result"

section \<open>Building batches\<close>

datatype builder_kind = BuildBool | BuildInt | BuildFloat | BuildStr | BuildTimestamp | BuildDate

fun builder_for :: "data_type \<Rightarrow> builder_kind" where
  "builder_for DBool = BuildBool"
| "builder_for DInt64 = BuildInt"
| "builder_for DFloat64 = BuildFloat"
| "builder_for DUtf8 = BuildStr"
| "builder_for DUuid = BuildStr"
| "builder_for DJson = BuildStr"
| "builder_for DTimestamp = BuildTimestamp"
| "builder_for DDate = BuildDate"

type_synonym column_builder = "builder_kind \<times> adb_value list"

text \<open>The value a builder stores, or the type mismatch of \<open>ColumnBuilder::append\<close>.\<close>

fun builder_value :: "builder_kind \<Rightarrow> adb_value \<Rightarrow> adb_value result" where
  "builder_value k VNull = Inr VNull"
| "builder_value BuildBool (VBool v) = Inr (VBool v)"
| "builder_value BuildInt (VInt v) = Inr (VInt v)"
| "builder_value BuildFloat (VFloat v) = Inr (VFloat v)"
| "builder_value BuildFloat (VInt v) = Inr (VFloat (i64_as_f64 v))"
| "builder_value BuildStr (VStr v) = Inr (VStr v)"
| "builder_value BuildTimestamp (VTimestamp v) = Inr (VTimestamp v)"
| "builder_value BuildDate (VDate v) = Inr (VDate v)"
| "builder_value _ _ = Inl TypeMismatch"

definition builder_append :: "column_builder \<Rightarrow> adb_value \<Rightarrow> column_builder result" where
  "builder_append b v = rmap (\<lambda>x. (fst b, snd b @ [x])) (builder_value (fst b) v)"

record row_batch_builder =
  rb_schema :: table_schema
  rb_rows :: nat
  rb_builders :: "column_builder list"

definition new_builder :: "table_schema \<Rightarrow> row_batch_builder" where
  "new_builder s =
     \<lparr>rb_schema = s, rb_rows = 0, rb_builders = map (\<lambda>c. (builder_for (col_type c), [])) (columns s)\<rparr>"

type_synonym json_row = "(string \<times> json) list"

definition json_field :: "ext_lib \<Rightarrow> json_row \<Rightarrow> column_schema \<Rightarrow> adb_value result" where
  "json_field L r c =
     (case map_of r (col_name c) of
        None \<Rightarrow> if \<not> nullable c then Inl BadRequest else Inr VNull
      | Some JNull \<Rightarrow> if \<not> nullable c then Inl BadRequest else Inr VNull
      | Some j \<Rightarrow> from_json L j (col_type c))"

definition push_json :: "ext_lib \<Rightarrow> row_batch_builder \<Rightarrow> json_row \<Rightarrow> row_batch_builder result" where
  "push_json L B r =
     rbind (forM (\<lambda>k. guard (column (rb_schema B) k \<noteq> None) (NotFound ''column'')) (map fst r)) (\<lambda>_.
     rbind (mapM (\<lambda>(c, b). rbind (json_field L r c) (builder_append b))
              (zip (columns (rb_schema B)) (rb_builders B))) (\<lambda>bs.
     Inr (B\<lparr>rb_builders := bs, rb_rows := rb_rows B + 1\<rparr>)))"

definition push_values :: "row_batch_builder \<Rightarrow> row \<Rightarrow> row_batch_builder result" where
  "push_values B vs =
     (if length vs \<noteq> length (columns (rb_schema B)) then Inl BadRequest
      else rbind (mapM (\<lambda>(v, c, b). if is_null v \<and> \<not> nullable c then Inl BadRequest else builder_append b v)
              (zip vs (zip (columns (rb_schema B)) (rb_builders B)))) (\<lambda>bs.
           Inr (B\<lparr>rb_builders := bs, rb_rows := rb_rows B + 1\<rparr>)))"

definition finish_batch :: "arrow_lib \<Rightarrow> row_batch_builder \<Rightarrow> batch result" where
  "finish_batch A B = try_new A (arrow_schema (rb_schema B)) (map snd (rb_builders B))"

definition batch_from_json_rows :: "ext_lib \<Rightarrow> arrow_lib \<Rightarrow> table_schema \<Rightarrow> json_row list \<Rightarrow> batch result" where
  "batch_from_json_rows L A s rs = rbind (foldM (push_json L) (new_builder s) rs) (finish_batch A)"

section \<open>Reading batches\<close>

definition batch_to_json_rows :: "ext_lib \<Rightarrow> batch \<Rightarrow> json_row list" where
  "batch_to_json_rows L b = map (\<lambda>r. zip (map f_name (bfields b)) (map (to_json L) r)) (brows b)"

definition row_key :: "nat list \<Rightarrow> row \<Rightarrow> adb_value list" where
  "row_key pk r = map (\<lambda>i. r ! i) pk"

definition key_at :: "batch \<Rightarrow> nat list \<Rightarrow> nat \<Rightarrow> adb_value list" where
  "key_at b pk i = row_key pk (brows b ! i)"

definition encode_ipc :: "arrow_lib \<Rightarrow> batch \<Rightarrow> bytes result" where
  "encode_ipc A b = ipc_write A b"

definition decode_ipc :: "arrow_lib \<Rightarrow> bytes \<Rightarrow> batch result" where
  "decode_ipc A bs =
     rbind (ipc_read A bs) (\<lambda>(fs, batches).
     case batches of [b] \<Rightarrow> Inr b | _ \<Rightarrow> concat_batches A fs batches)"

definition project_batch :: "arrow_lib \<Rightarrow> batch \<Rightarrow> string list \<Rightarrow> batch result" where
  "project_batch A b names =
     rbind (mapM (\<lambda>n. ok_or (NotFound ''column'') (index_of b n)) names) (\<lambda>is.
     try_new A (map (\<lambda>i. bfields b ! i) is) (map (batch_column b) is))"

definition empty_batch :: "table_schema \<Rightarrow> string list \<Rightarrow> batch result" where
  "empty_batch s names =
     rbind (mapM (\<lambda>n. rmap arrow_field (require_column s n)) names) (\<lambda>fs.
     Inr \<lparr>bfields = fs, brows = []\<rparr>)"

section \<open>Documented behaviour of the kernels\<close>

fun arrow_fits :: "arrow_type \<Rightarrow> adb_value \<Rightarrow> bool" where
  "arrow_fits _ VNull = True"
| "arrow_fits ABoolean (VBool _) = True"
| "arrow_fits AInt64 (VInt _) = True"
| "arrow_fits AFloat64 (VFloat _) = True"
| "arrow_fits AUtf8 (VStr _) = True"
| "arrow_fits ATimestampUtc (VTimestamp _) = True"
| "arrow_fits ADate32 (VDate _) = True"
| "arrow_fits _ _ = False"

definition field_fits :: "field \<Rightarrow> adb_value \<Rightarrow> bool" where
  "field_fits f v \<longleftrightarrow> arrow_fits (f_type f) v \<and> (v = VNull \<longrightarrow> f_nullable f)"

definition row_ok :: "field list \<Rightarrow> row \<Rightarrow> bool" where
  "row_ok fs r \<longleftrightarrow> list_all2 field_fits fs r"

definition batch_ok :: "batch \<Rightarrow> bool" where
  "batch_ok b \<longleftrightarrow> bfields b \<noteq> [] \<and> list_all (row_ok (bfields b)) (brows b)"

definition columns_ok :: "field list \<Rightarrow> nat \<Rightarrow> adb_value list list \<Rightarrow> bool" where
  "columns_ok fs n cols \<longleftrightarrow> fs \<noteq> [] \<and> length cols = length fs \<and>
     (\<forall>i < length fs. length (cols ! i) = n \<and> (\<forall>v \<in> set (cols ! i). field_fits (fs ! i) v))"

definition kernels_ok :: "arrow_lib \<Rightarrow> bool" where
  "kernels_ok A \<longleftrightarrow>
     (\<forall>fs n cols. columns_ok fs n cols \<longrightarrow>
        try_new A fs cols = Inr \<lparr>bfields = fs, brows = rows_of_columns n cols\<rparr>) \<and>
     (\<forall>b is. batch_ok b \<longrightarrow> (\<forall>i \<in> set is. i < num_rows b) \<longrightarrow>
        take_batch A b is = Inr (b\<lparr>brows := map (\<lambda>i. brows b ! i) is\<rparr>)) \<and>
     (\<forall>fs bs. bs \<noteq> [] \<longrightarrow> (\<forall>b \<in> set bs. batch_ok b \<and> bfields b = fs) \<longrightarrow>
        concat_batches A fs bs = Inr \<lparr>bfields = fs, brows = concat (map brows bs)\<rparr>) \<and>
     (\<forall>b k n. k + n \<le> num_rows b \<longrightarrow> slice A b k n = b\<lparr>brows := take n (drop k (brows b))\<rparr>)"

definition ipc_ok :: "arrow_lib \<Rightarrow> bool" where
  "ipc_ok A \<longleftrightarrow> (\<forall>b. batch_ok b \<longrightarrow> (\<exists>bs. ipc_write A b = Inr bs \<and> ipc_read A bs = Inr (bfields b, [b])))"

definition parquet_ok :: "arrow_lib \<Rightarrow> bool" where
  "parquet_ok A \<longleftrightarrow> (\<forall>b. batch_ok b \<longrightarrow> (\<exists>bs parts. parquet_write A b = Inr bs \<and>
     parquet_read A bs = Inr (bfields b, parts) \<and>
     (\<forall>p \<in> set parts. batch_ok p \<and> bfields p = bfields b) \<and> concat (map brows parts) = brows b))"

definition arrow_ok :: "arrow_lib \<Rightarrow> bool" where
  "arrow_ok A \<longleftrightarrow> kernels_ok A \<and> ipc_ok A \<and> parquet_ok A"

lemma arrow_try_new:
  "arrow_ok A \<Longrightarrow> columns_ok fs n cols \<Longrightarrow>
   try_new A fs cols = Inr \<lparr>bfields = fs, brows = rows_of_columns n cols\<rparr>"
  unfolding arrow_ok_def kernels_ok_def by blast

lemma arrow_take:
  "arrow_ok A \<Longrightarrow> batch_ok b \<Longrightarrow> (\<And>i. i \<in> set is \<Longrightarrow> i < num_rows b) \<Longrightarrow>
   take_batch A b is = Inr (b\<lparr>brows := map (\<lambda>i. brows b ! i) is\<rparr>)"
  unfolding arrow_ok_def kernels_ok_def by blast

lemma arrow_concat:
  "arrow_ok A \<Longrightarrow> bs \<noteq> [] \<Longrightarrow> (\<And>b. b \<in> set bs \<Longrightarrow> batch_ok b \<and> bfields b = fs) \<Longrightarrow>
   concat_batches A fs bs = Inr \<lparr>bfields = fs, brows = concat (map brows bs)\<rparr>"
  unfolding arrow_ok_def kernels_ok_def by (elim conjE) simp

lemma arrow_slice:
  "arrow_ok A \<Longrightarrow> k + n \<le> num_rows b \<Longrightarrow> slice A b k n = b\<lparr>brows := take n (drop k (brows b))\<rparr>"
  unfolding arrow_ok_def kernels_ok_def by blast

lemma arrow_parquet:
  assumes "arrow_ok A" "batch_ok b"
  obtains bs parts where "parquet_write A b = Inr bs" "parquet_read A bs = Inr (bfields b, parts)"
    "\<forall>p \<in> set parts. batch_ok p \<and> bfields p = bfields b" "concat (map brows parts) = brows b"
  using assms unfolding arrow_ok_def parquet_ok_def by blast

lemma ipc_roundtrip:
  assumes "arrow_ok A" "batch_ok b"
  obtains bs where "encode_ipc A b = Inr bs" "decode_ipc A bs = Inr b"
proof -
  obtain bs where bs: "ipc_write A b = Inr bs" "ipc_read A bs = Inr (bfields b, [b])"
    using assms unfolding arrow_ok_def ipc_ok_def by blast
  then have "decode_ipc A bs = Inr b" by (simp add: decode_ipc_def)
  with bs(1) show ?thesis using that by (simp add: encode_ipc_def)
qed

lemma batch_ok_rows:
  "batch_ok b \<Longrightarrow> set rs \<subseteq> set (brows b) \<Longrightarrow> batch_ok (b\<lparr>brows := rs\<rparr>)"
  by (auto simp: batch_ok_def list_all_iff)

lemma row_ok_length: "row_ok fs r \<Longrightarrow> length r = length fs"
  by (simp add: row_ok_def list_all2_lengthD)

lemma fits_arrow: "arrow_fits (arrow_type_of ty) v \<longleftrightarrow> fits ty v"
  by (cases ty; cases v) (auto simp: fits_def)

section \<open>Ingest\<close>

text \<open>The row-wise reference: unknown columns are refused, then every column is coerced.\<close>

definition ingest_row :: "ext_lib \<Rightarrow> table_schema \<Rightarrow> json_row \<Rightarrow> row result" where
  "ingest_row L s r =
     rbind (forM (\<lambda>k. guard (column s k \<noteq> None) (NotFound ''column'')) (map fst r)) (\<lambda>_.
     mapM (json_field L r) (columns s))"

definition row_columns :: "nat \<Rightarrow> row list \<Rightarrow> adb_value list list" where
  "row_columns n D = map (\<lambda>i. map (\<lambda>r. r ! i) D) [0..<n]"

definition builders_of :: "column_schema list \<Rightarrow> adb_value list list \<Rightarrow> column_builder list" where
  "builders_of cs vss = map2 (\<lambda>c vs. (builder_for (col_type c), vs)) cs vss"

definition builder_with :: "table_schema \<Rightarrow> row list \<Rightarrow> row_batch_builder" where
  "builder_with s D =
     \<lparr>rb_schema = s, rb_rows = length D,
      rb_builders = builders_of (columns s) (row_columns (length (columns s)) D)\<rparr>"

lemma json_field_fits:
  "json_field L r c = Inr v \<Longrightarrow> fits (col_type c) v \<and> (v = VNull \<longrightarrow> nullable c)"
  by (auto simp: json_field_def split: option.splits json.splits if_splits dest: from_json_fits)

lemma builder_value_fits: "fits ty v \<Longrightarrow> builder_value (builder_for ty) v = Inr v"
  by (erule fits_cases) auto

lemma builders_of_simps [simp]:
  "builders_of [] [] = []"
  "builders_of (c # cs) (vs # vss) = (builder_for (col_type c), vs) # builders_of cs vss"
  by (simp_all add: builders_of_def)

lemma length_row_columns [simp]: "length (row_columns n D) = n"
  by (simp add: row_columns_def)

lemma mapM_builders:
  "length vss = length cs \<Longrightarrow> (\<And>c v. c \<in> set cs \<Longrightarrow> g c = Inr v \<Longrightarrow> fits (col_type c) v) \<Longrightarrow>
   mapM (\<lambda>(c, b). rbind (g c) (builder_append b)) (zip cs (builders_of cs vss)) =
     rmap (\<lambda>x. builders_of cs (map2 (\<lambda>vs v. vs @ [v]) vss x)) (mapM g cs)"
proof (induction vss cs rule: list_induct2)
  case (Cons vs vss c cs)
  have IH: "mapM (\<lambda>(c, b). rbind (g c) (builder_append b)) (zip cs (builders_of cs vss)) =
     rmap (\<lambda>x. builders_of cs (map2 (\<lambda>vs v. vs @ [v]) vss x)) (mapM g cs)"
    using Cons by auto
  show ?case
  proof (cases "g c")
    case (Inr v)
    then have "builder_value (builder_for (col_type c)) v = Inr v"
      using Cons.prems by (intro builder_value_fits) auto
    then have "builder_append (builder_for (col_type c), vs) v = Inr (builder_for (col_type c), vs @ [v])"
      by (simp add: builder_append_def)
    then show ?thesis using Inr IH by (cases "mapM g cs") simp_all
  qed simp
qed simp

lemma row_columns_snoc:
  "length x = n \<Longrightarrow> row_columns n (D @ [x]) = map2 (\<lambda>vs v. vs @ [v]) (row_columns n D) x"
  by (rule nth_equalityI) (auto simp: row_columns_def)

lemma push_json_with:
  "push_json L (builder_with s D) r = rmap (\<lambda>x. builder_with s (D @ [x])) (ingest_row L s r)"
proof -
  let ?n = "length (columns s)"
  have m: "mapM (\<lambda>(c, b). rbind (json_field L r c) (builder_append b))
      (zip (columns s) (builders_of (columns s) (row_columns ?n D))) =
      rmap (\<lambda>x. builders_of (columns s) (map2 (\<lambda>vs v. vs @ [v]) (row_columns ?n D) x))
        (mapM (json_field L r) (columns s))"
    by (rule mapM_builders) (auto simp: row_columns_def dest: json_field_fits)
  show ?thesis
  proof (cases "mapM (json_field L r) (columns s)")
    case (Inl e)
    then show ?thesis
      by (cases "forM (\<lambda>k. guard (column s k \<noteq> None) (NotFound ''column'')) (map fst r)")
        (simp_all add: push_json_def builder_with_def ingest_row_def m)
  next
    case (Inr x)
    then have "length x = ?n" by (rule mapM_Inr_length)
    then show ?thesis using Inr
      by (cases "forM (\<lambda>k. guard (column s k \<noteq> None) (NotFound ''column'')) (map fst r)")
        (simp_all add: push_json_def builder_with_def ingest_row_def m row_columns_snoc)
  qed
qed

lemma push_all_with:
  "foldM (push_json L) (builder_with s D) rs =
     rmap (\<lambda>xs. builder_with s (D @ xs)) (mapM (ingest_row L s) rs)"
proof (induction rs arbitrary: D)
  case (Cons r rs)
  show ?case
  proof (cases "ingest_row L s r")
    case (Inr x)
    then show ?thesis
      using Cons.IH [of "D @ [x]"] by (cases "mapM (ingest_row L s) rs") (simp_all add: push_json_with)
  qed (simp add: push_json_with)
qed simp

lemma new_builder_with: "new_builder s = builder_with s []"
  by (auto simp: new_builder_def builder_with_def builders_of_def row_columns_def intro: nth_equalityI)

lemma map_snd_builders: "length vss = length cs \<Longrightarrow> map snd (builders_of cs vss) = vss"
  by (induction vss cs rule: list_induct2) simp_all

lemma rows_of_row_columns:
  "\<forall>r \<in> set D. length r = n \<Longrightarrow> rows_of_columns (length D) (row_columns n D) = D"
  by (rule nth_equalityI) (auto simp: rows_of_columns_def row_columns_def intro!: nth_equalityI)

lemma ingest_row_ok: "ingest_row L s r = Inr x \<Longrightarrow> row_ok (arrow_schema s) x"
  unfolding ingest_row_def row_ok_def arrow_schema_def
  by (auto simp: result_simps mapM_Inr_iff list_all2_conv_all_nth arrow_field_def field_fits_def
      fits_arrow dest: json_field_fits)

lemma row_columns_ok:
  assumes "fs \<noteq> []" "\<forall>r \<in> set D. row_ok fs r"
  shows "columns_ok fs (length D) (row_columns (length fs) D)"
  using assms by (auto simp: columns_ok_def row_columns_def row_ok_def list_all2_conv_all_nth)

lemma batch_from_rows_eq:
  assumes "arrow_ok A" "columns s \<noteq> []"
  shows "batch_from_json_rows L A s rs =
    rmap (\<lambda>D. \<lparr>bfields = arrow_schema s, brows = D\<rparr>) (mapM (ingest_row L s) rs)"
proof (cases "mapM (ingest_row L s) rs")
  case (Inr D)
  then have ok: "\<forall>r \<in> set D. row_ok (arrow_schema s) r"
    by (auto dest!: mapM_Inr_set intro: ingest_row_ok)
  have n: "length (arrow_schema s) = length (columns s)" by (simp add: arrow_schema_def)
  have ne: "arrow_schema s \<noteq> []" using assms(2) by (simp add: arrow_schema_def)
  have "finish_batch A (builder_with s D) = Inr \<lparr>bfields = arrow_schema s, brows = D\<rparr>"
    using arrow_try_new [OF assms(1) row_columns_ok [OF ne ok]]
      rows_of_row_columns [of D "length (columns s)"] ok row_ok_length
    by (simp add: finish_batch_def builder_with_def map_snd_builders flip: n)
  then show ?thesis using Inr push_all_with [of L s "[]" rs]
    by (simp add: batch_from_json_rows_def new_builder_with)
next
  case (Inl e)
  then show ?thesis using push_all_with [of L s "[]" rs]
    by (simp add: batch_from_json_rows_def new_builder_with)
qed

section \<open>A concrete instance of the kernels\<close>

definition enc_arrow :: "arrow_type \<Rightarrow> bytes" where
  "enc_arrow a = (case a of ABoolean \<Rightarrow> [0] | AInt64 \<Rightarrow> [1] | AFloat64 \<Rightarrow> [2] | AUtf8 \<Rightarrow> [3]
     | ATimestampUtc \<Rightarrow> [4] | ADate32 \<Rightarrow> [5])"

fun dec_arrow :: "arrow_type decoder" where
  "dec_arrow [] = None"
| "dec_arrow (b # r) =
     Some (if b = 0 then ABoolean else if b = 1 then AInt64 else if b = 2 then AFloat64
       else if b = 3 then AUtf8 else if b = 4 then ATimestampUtc else ADate32, r)"

definition enc_bool :: "bool \<Rightarrow> bytes" where
  "enc_bool b = [if b then 1 else 0]"

fun dec_bool :: "bool decoder" where
  "dec_bool [] = None"
| "dec_bool (b # r) = Some (b = 1, r)"

definition enc_field :: "field \<Rightarrow> bytes" where
  "enc_field f = enc_list enc_char (f_name f) @ enc_arrow (f_type f) @ enc_bool (f_nullable f)"

definition dec_field :: "field decoder" where
  "dec_field bs = dec_bind (dec_list dec_char bs) (\<lambda>n r. dec_bind (dec_arrow r) (\<lambda>t r.
     dec_bind (dec_bool r) (\<lambda>b r. Some (\<lparr>f_name = n, f_type = t, f_nullable = b\<rparr>, r))))"

definition enc_batch :: "batch \<Rightarrow> bytes" where
  "enc_batch b = enc_list enc_field (bfields b) @ enc_list (enc_list enc_value) (brows b)"

definition dec_batch :: "batch decoder" where
  "dec_batch bs = dec_bind (dec_list dec_field bs) (\<lambda>fs r.
     dec_bind (dec_list (dec_list dec_value) r) (\<lambda>rs r. Some (\<lparr>bfields = fs, brows = rs\<rparr>, r)))"

lemma decodes_field: "decodes enc_field dec_field"
  unfolding decodes_def
proof (intro allI)
  fix f :: field and r
  show "dec_field (enc_field f @ r) = Some (f, r)"
    using decodes_list [OF decodes_char]
    by (cases "f_type f") (simp_all add: decodes_def enc_field_def dec_field_def enc_arrow_def enc_bool_def)
qed

lemma dec_batch_enc: "dec_batch (enc_batch b @ r) = Some (b, r)"
  using decodes_list [OF decodes_field] decodes_list [OF decodes_list [OF decodes_value]]
  by (simp add: decodes_def enc_batch_def dec_batch_def)

definition read_batch :: "bytes \<Rightarrow> (field list \<times> batch list) result" where
  "read_batch bs = (case dec_batch bs of None \<Rightarrow> Inl Internal | Some (b, _) \<Rightarrow> Inr (bfields b, [b]))"

definition demo_arrow :: arrow_lib where
  "demo_arrow =
     \<lparr>try_new = \<lambda>fs cols. Inr \<lparr>bfields = fs, brows = rows_of_columns (length (hd cols)) cols\<rparr>,
      take_batch = \<lambda>b is. Inr (b\<lparr>brows := map (\<lambda>i. brows b ! i) is\<rparr>),
      concat_batches = \<lambda>fs bs. Inr \<lparr>bfields = fs, brows = concat (map brows bs)\<rparr>,
      slice = \<lambda>b k n. b\<lparr>brows := take n (drop k (brows b))\<rparr>,
      memory_size = \<lambda>b. length (brows b) * 64,
      ipc_write = \<lambda>b. Inr (enc_batch b), ipc_read = read_batch,
      parquet_write = \<lambda>b. Inr (enc_batch b), parquet_read = read_batch\<rparr>"

lemma read_batch_enc [simp]: "read_batch (enc_batch b) = Inr (bfields b, [b])"
  using dec_batch_enc [of b "[]"] by (simp add: read_batch_def)

lemma demo_arrow_ok: "arrow_ok demo_arrow"
proof -
  have "length (hd cols) = n" if "columns_ok fs n cols" for fs n cols
  proof -
    have "cols \<noteq> []" "length (cols ! 0) = n" using that by (auto simp: columns_ok_def)
    then show ?thesis by (simp add: hd_conv_nth)
  qed
  then show ?thesis
    by (auto simp: arrow_ok_def kernels_ok_def ipc_ok_def parquet_ok_def demo_arrow_def)
qed

section \<open>Properties\<close>

text \<open>
  C24: building a batch column by column gives exactly what coercing the rows one by one would:
  the same rows in the same order, or the first row's error; and an accepted batch has the table's
  Arrow schema with every value of its column's type and no NULL in a required column.
\<close>

theorem ingest_rowwise:
  assumes "arrow_ok A" and "columns s \<noteq> []"
  shows "batch_from_json_rows L A s rs =
      rmap (\<lambda>D. \<lparr>bfields = arrow_schema s, brows = D\<rparr>) (mapM (ingest_row L s) rs) \<and>
    (\<forall>b. batch_from_json_rows L A s rs = Inr b \<longrightarrow> batch_ok b \<and> num_rows b = length rs)"
proof -
  have "batch_ok b \<and> num_rows b = length rs" if b: "batch_from_json_rows L A s rs = Inr b" for b
  proof -
    obtain D where D: "mapM (ingest_row L s) rs = Inr D" "b = \<lparr>bfields = arrow_schema s, brows = D\<rparr>"
      using b batch_from_rows_eq [OF assms, of L rs] by (cases "mapM (ingest_row L s) rs") auto
    then have "\<forall>r \<in> set D. row_ok (arrow_schema s) r"
      by (auto dest!: mapM_Inr_set intro: ingest_row_ok)
    then show ?thesis
      using D assms(2) mapM_Inr_length [OF D(1)]
      by (auto simp: batch_ok_def list_all_iff num_rows_def arrow_schema_def)
  qed
  then show ?thesis using batch_from_rows_eq [OF assms] by blast
qed

theorem ingest_rowwise_witness:
  "batch_from_json_rows demo_lib demo_arrow demo_schema [[(''id'', json_of_i64 7)]] =
     Inr \<lparr>bfields = arrow_schema demo_schema, brows = [[VInt 7, VNull]]\<rparr> \<and>
   batch_from_json_rows demo_lib demo_arrow demo_schema [[(''idd'', json_of_i64 7)]] =
     Inl (NotFound ''column'')"
proof -
  have "columns demo_schema \<noteq> []" by (simp add: demo_schema_def new_table_def)
  note eq = ingest_rowwise [OF demo_arrow_ok this, of demo_lib, THEN conjunct1]
  show ?thesis unfolding eq
    by (simp add: ingest_row_def json_field_def demo_schema_def new_table_def new_column_def
      column_def json_of_i64_def)
qed

end
