(* ===== verification/Segment.thy ===== *)
theory Segment
  imports Batch Bloom Maps ObjectStore
begin

text \<open>
  \<open>crates/adb-storage/src/segment.rs\<close>: the statistics kept for each segment, and writing and
  reading its Parquet file. Compression and row-group settings do not change what is read back and
  are left to \<open>parquet_write\<close>.
\<close>

section \<open>Statistics\<close>

record column_stats =
  st_min :: "adb_value option"
  st_max :: "adb_value option"
  null_count :: nat
  st_bloom :: "bloom_filter option"

definition empty_stats :: column_stats where
  "empty_stats = \<lparr>st_min = None, st_max = None, null_count = 0, st_bloom = None\<rparr>"

definition all_null :: "column_stats \<Rightarrow> bool" where
  "all_null st \<longleftrightarrow> st_min st = None"

record segment_meta =
  seg_id :: nat
  seg_key :: string
  row_count :: nat
  seg_bytes :: nat
  seg_schema_version :: u32
  seg_columns :: "(string, column_stats) btree"

definition stats_of :: "segment_meta \<Rightarrow> string \<Rightarrow> column_stats option" where
  "stats_of m c = bt_get (seg_columns m) c"

definition stats_step :: "data_type \<Rightarrow> column_stats \<Rightarrow> adb_value \<Rightarrow> column_stats" where
  "stats_step ty st v =
     (if is_null v then st\<lparr>null_count := null_count st + 1\<rparr>
      else if ty = DJson then st
      else
        let st = (case st_min st of
                    Some m \<Rightarrow> if value_cmp v m \<noteq> Less then st else st\<lparr>st_min := Some v\<rparr>
                  | None \<Rightarrow> st\<lparr>st_min := Some v\<rparr>)
        in (case st_max st of
              Some m \<Rightarrow> if value_cmp v m \<noteq> Greater then st else st\<lparr>st_max := Some v\<rparr>
            | None \<Rightarrow> st\<lparr>st_max := Some v\<rparr>))"

definition column_stats_of :: "bloom_math \<Rightarrow> column_schema \<Rightarrow> adb_value list \<Rightarrow> column_stats" where
  "column_stats_of M c vs =
     (let st = foldl (stats_step (col_type c)) empty_stats vs
      in if wants_bloom_filter c \<and> is_filterable (col_type c)
         then st\<lparr>st_bloom := bloom_build M vs\<rparr> else st)"

definition compute_stats :: "bloom_math \<Rightarrow> table_schema \<Rightarrow> batch \<Rightarrow> (string, column_stats) btree" where
  "compute_stats M s b =
     foldl (\<lambda>out (idx, c). bt_insert (col_name c) (column_stats_of M c (batch_column b idx)) out) []
       (enumerate 0 (take (num_columns b) (columns s)))"

section \<open>Files\<close>

definition write_segment ::
    "bloom_math \<Rightarrow> arrow_lib \<Rightarrow> fs_store \<Rightarrow> string \<Rightarrow> nat \<Rightarrow> table_schema \<Rightarrow> batch \<Rightarrow>
     (fs_store \<times> segment_meta) result" where
  "write_segment M A s key sid schema b =
     (let cols = compute_stats M schema b in
      rbind (map_err (\<lambda>_. Storage) (parquet_write A b)) (\<lambda>buf.
      rbind (store_put s key buf) (\<lambda>s.
      Inr (s, \<lparr>seg_id = sid, seg_key = key, row_count = num_rows b, seg_bytes = length buf,
               seg_schema_version = version schema, seg_columns = cols\<rparr>))))"

definition backfill_column :: "batch \<Rightarrow> string \<Rightarrow> adb_value list" where
  "backfill_column b name =
     (case index_of b name of
        Some idx \<Rightarrow> batch_column b idx
      | None \<Rightarrow> replicate (num_rows b) VNull)"

definition project_with_backfill :: "arrow_lib \<Rightarrow> batch \<Rightarrow> table_schema \<Rightarrow> string list \<Rightarrow> batch result" where
  "project_with_backfill A b s names =
     rbind (mapM (\<lambda>n. rmap (\<lambda>c. (arrow_field c, backfill_column b n)) (require_column s n)) names) (\<lambda>fcs.
     try_new A (map fst fcs) (map snd fcs))"

definition read_batches :: "arrow_lib \<Rightarrow> bytes \<Rightarrow> batch result" where
  "read_batches A bs =
     rbind (map_err (\<lambda>_. Storage) (parquet_read A bs)) (\<lambda>(file_schema, batches).
     case batches of
       [] \<Rightarrow> Inr \<lparr>bfields = file_schema, brows = []\<rparr>
     | [b] \<Rightarrow> Inr b
     | _ \<Rightarrow> concat_batches A (bfields (hd batches)) batches)"

definition read_segment ::
    "arrow_lib \<Rightarrow> fs_store \<Rightarrow> segment_meta \<Rightarrow> table_schema \<Rightarrow> string list option \<Rightarrow> batch result" where
  "read_segment A s m schema projection =
     rbind (store_get s (seg_key m)) (\<lambda>bs.
     rbind (read_batches A bs) (\<lambda>b.
     case projection of None \<Rightarrow> Inr b | Some cols \<Rightarrow> project_with_backfill A b schema cols))"

section \<open>Statistics are sound\<close>

text \<open>\<open>bounded ty st v\<close>: what the pruner reads off the statistics about a stored value.\<close>

definition bounded :: "column_stats \<Rightarrow> adb_value \<Rightarrow> bool" where
  "bounded st v \<longleftrightarrow> (\<exists>lo hi. st_min st = Some lo \<and> st_max st = Some hi \<and>
     value_cmp lo v \<noteq> Greater \<and> value_cmp v hi \<noteq> Greater)"

definition stats_range_ok :: "data_type \<Rightarrow> column_stats \<Rightarrow> bool" where
  "stats_range_ok ty st \<longleftrightarrow> (case st_min st of None \<Rightarrow> st_max st = None
     | Some lo \<Rightarrow> conforms ty lo \<and> (case st_max st of None \<Rightarrow> False | Some hi \<Rightarrow> conforms ty hi))"

lemma stats_step_json: "st_min (stats_step DJson st v) = st_min st" "st_max (stats_step DJson st v) = st_max st"
  by (simp_all add: stats_step_def)

lemma cmp_not_less: "fits ty a \<Longrightarrow> fits ty b \<Longrightarrow> value_cmp a b \<noteq> Less \<longleftrightarrow> value_cmp b a \<noteq> Greater"
  by (rule value_order.not_less_iff)

lemma cmp_refl_ok: "fits ty a \<Longrightarrow> value_cmp a a \<noteq> Greater"
  using value_order.cmp_refl [of ty a] by simp

lemma stats_step_range:
  assumes "stats_range_ok ty st" "fits ty v"
  shows "stats_range_ok ty (stats_step ty st v)"
  using assms by (auto simp: stats_range_ok_def stats_step_def fits_def Let_def split: option.splits)

lemma stats_step_new:
  assumes "stats_range_ok ty st" "conforms ty v" "ty \<noteq> DJson"
  shows "bounded (stats_step ty st v) v"
proof (cases "st_min st")
  case None
  then show ?thesis
    using assms cmp_refl_ok [OF conforms_fits [OF assms(2)]]
    by (auto simp: stats_range_ok_def stats_step_def bounded_def Let_def split: option.splits)
next
  case (Some lo)
  then obtain hi where hi: "st_max st = Some hi" "conforms ty lo" "conforms ty hi"
    using assms(1) by (auto simp: stats_range_ok_def split: option.splits)
  have n: "v \<noteq> VNull" using assms(2) by auto
  note f = hi(2,3) [THEN conforms_fits] conforms_fits [OF assms(2)]
  show ?thesis
    using Some hi n assms(3) cmp_refl_ok [OF f(3)] cmp_not_less [OF f(3) f(1)]
    by (auto simp: stats_step_def bounded_def Let_def)
qed

lemma stats_step_old:
  assumes "stats_range_ok ty st" "bounded st w" "fits ty v" "fits ty w"
  shows "bounded (stats_step ty st v) w"
proof -
  obtain lo hi where lh: "st_min st = Some lo" "st_max st = Some hi"
    "value_cmp lo w \<noteq> Greater" "value_cmp w hi \<noteq> Greater" "conforms ty lo" "conforms ty hi"
    using assms(1,2) by (auto simp: bounded_def stats_range_ok_def)
  note f = lh(5,6) [THEN conforms_fits]
  have "value_cmp v w \<noteq> Greater" if "value_cmp v lo = Less"
    using value_order.le_trans [OF assms(3) f(1) assms(4)] that lh(3) by simp
  moreover have "value_cmp w v \<noteq> Greater" if "value_cmp v hi = Greater"
    using value_order.le_trans [OF assms(4) f(2) assms(3) lh(4)] that
      value_order.cmp_gt_iff [OF assms(3) f(2)] by simp
  ultimately show ?thesis
    using lh by (auto simp: stats_step_def bounded_def Let_def)
qed

lemma foldl_stats:
  assumes "\<forall>v \<in> set vs. fits ty v"
  shows "stats_range_ok ty st \<Longrightarrow>
    stats_range_ok ty (foldl (stats_step ty) st vs) \<and>
    (\<forall>w. fits ty w \<and> bounded st w \<longrightarrow> bounded (foldl (stats_step ty) st vs) w) \<and>
    (ty \<noteq> DJson \<longrightarrow> (\<forall>w \<in> set vs. w \<noteq> VNull \<longrightarrow> bounded (foldl (stats_step ty) st vs) w))"
  using assms
proof (induction vs arbitrary: st)
  case (Cons v vs)
  have v: "fits ty v" using Cons.prems by simp
  have r: "stats_range_ok ty (stats_step ty st v)" using Cons.prems(1) v by (rule stats_step_range)
  have IH: "stats_range_ok ty (foldl (stats_step ty) (stats_step ty st v) vs) \<and>
    (\<forall>w. fits ty w \<and> bounded (stats_step ty st v) w \<longrightarrow> bounded (foldl (stats_step ty) (stats_step ty st v) vs) w) \<and>
    (ty \<noteq> DJson \<longrightarrow> (\<forall>w \<in> set vs. w \<noteq> VNull \<longrightarrow> bounded (foldl (stats_step ty) (stats_step ty st v) vs) w))"
    using Cons.IH [OF r] Cons.prems by simp
  have "bounded (stats_step ty st v) v" if "v \<noteq> VNull" "ty \<noteq> DJson"
    using that v stats_step_new [OF Cons.prems(1)] by (auto simp: fits_def)
  moreover have "bounded (stats_step ty st v) w" if "fits ty w" "bounded st w" for w
    using stats_step_old [OF Cons.prems(1) that(2) v that(1)] .
  ultimately show ?case using IH v by auto
qed simp

lemma null_count_step [simp]:
  "null_count (stats_step ty st v) = null_count st + (if v = VNull then 1 else 0)"
  by (auto simp: stats_step_def Let_def split: option.splits)

lemma null_count_foldl:
  "null_count (foldl (stats_step ty) st vs) = null_count st + length (filter (\<lambda>v. v = VNull) vs)"
  by (induction vs arbitrary: st) auto

lemma range_ok_empty: "stats_range_ok ty empty_stats"
  by (simp add: stats_range_ok_def empty_stats_def)

lemma min_witness:
  "st_min st = None \<Longrightarrow> st_min (foldl (stats_step ty) st vs) \<noteq> None \<Longrightarrow> \<exists>v \<in> set vs. v \<noteq> VNull"
proof (induction vs arbitrary: st)
  case (Cons v vs)
  show ?case
  proof (cases "v = VNull")
    case True
    then have "st_min (stats_step ty st v) = None" using Cons.prems by (simp add: stats_step_def)
    then show ?thesis using Cons.IH [of "stats_step ty st v"] Cons.prems by auto
  qed auto
qed simp

lemma column_stats_sound:
  fixes M :: bloom_math
  assumes "\<forall>v \<in> set vs. fits (col_type c) v"
  defines "st \<equiv> column_stats_of M c vs"
  shows "null_count st = length (filter (\<lambda>v. v = VNull) vs)"
    and "stats_range_ok (col_type c) st"
    and "col_type c \<noteq> DJson \<Longrightarrow> v \<in> set vs \<Longrightarrow> v \<noteq> VNull \<Longrightarrow> bounded st v"
    and "st_bloom st = Some f \<Longrightarrow> v \<in> set vs \<Longrightarrow> bloom_contains f v"
    and "st_min st \<noteq> None \<Longrightarrow> \<exists>v \<in> set vs. v \<noteq> VNull"
proof -
  let ?f = "foldl (stats_step (col_type c)) empty_stats vs"
  have st: "null_count st = null_count ?f" "st_min st = st_min ?f" "st_max st = st_max ?f"
    by (simp_all add: st_def column_stats_of_def Let_def)
  note F = foldl_stats [OF assms(1) range_ok_empty]
  show "null_count st = length (filter (\<lambda>v. v = VNull) vs)"
    unfolding st null_count_foldl by (simp add: empty_stats_def)
  show "stats_range_ok (col_type c) st" using F unfolding stats_range_ok_def st by blast
  show "bounded st v" if "col_type c \<noteq> DJson" "v \<in> set vs" "v \<noteq> VNull"
    using F that unfolding bounded_def st by blast
  show "bloom_contains f v" if "st_bloom st = Some f" "v \<in> set vs"
  proof -
    have "st_bloom ?f = None"
    proof -
      have "st_bloom (foldl (stats_step ty) s0 vs) = st_bloom s0" for ty s0
        by (induction vs arbitrary: s0) (auto simp: stats_step_def Let_def split: option.splits)
      then show ?thesis by (simp add: empty_stats_def)
    qed
    then have "bloom_build M vs = Some f"
      using that(1) by (auto simp: st_def column_stats_of_def Let_def split: if_splits)
    then show ?thesis
      using that(2) bloom.maybe_adds [OF bloom_ok_new] by (auto simp: bloom_build_def split: if_splits)
  qed
  show "\<exists>v \<in> set vs. v \<noteq> VNull" if "st_min st \<noteq> None"
    using that min_witness [of empty_stats] unfolding st by (auto simp: empty_stats_def)
qed

lemma stats_fold_get:
  assumes "bt_ok m" "distinct (map (col_name \<circ> snd) ics)"
  shows "bt_ok (foldl (\<lambda>out (idx, c). bt_insert (col_name c) (f idx c) out) m ics) \<and>
    bt_get (foldl (\<lambda>out (idx, c). bt_insert (col_name c) (f idx c) out) m ics) n =
      (case find (\<lambda>(idx, c). col_name c = n) ics of Some (idx, c) \<Rightarrow> Some (f idx c) | None \<Rightarrow> bt_get m n)"
  using assms
proof (induction ics arbitrary: m)
  case (Cons ic ics)
  obtain i c where ic: "ic = (i, c)" by (cases ic)
  have "bt_ok (bt_insert (col_name c) (f i c) m)" using Cons.prems(1) by (rule bt_ok_insert)
  from Cons.IH [OF this] Cons.prems show ?case
  proof (cases "col_name c = n")
    case True
    then have "find (\<lambda>(idx, c). col_name c = n) ics = None"
      using Cons.prems(2) by (force simp: ic find_None_all)
    then show ?thesis
      using Cons.IH [OF \<open>bt_ok (bt_insert _ _ _)\<close>] Cons.prems True by (simp add: ic bt_get_insert)
  qed (auto simp: ic bt_get_insert split: option.splits)
qed simp

lemma find_enumerate:
  "i < length cs \<Longrightarrow> distinct (map col_name cs) \<Longrightarrow>
   find (\<lambda>(idx, c). col_name c = col_name (cs ! i)) (enumerate k cs) = Some (k + i, cs ! i)"
proof (induction cs arbitrary: i k)
  case (Cons c cs)
  show ?case
  proof (cases i)
    case (Suc j)
    then have "cs ! j \<in> set cs" using Cons.prems by simp
    then have "col_name (cs ! j) \<noteq> col_name c" using Cons.prems by (metis distinct.simps(2) imageI list.map(2) set_map)
    then show ?thesis using Cons.IH [of j "Suc k"] Cons.prems Suc by auto
  qed simp
qed simp

lemma stats_of_column:
  assumes "distinct (map col_name (columns s))" "i < length (columns s)" "i < num_columns b"
  shows "bt_get (compute_stats M s b) (col_name (columns s ! i)) =
    Some (column_stats_of M (columns s ! i) (batch_column b i))"
proof -
  let ?cs = "take (num_columns b) (columns s)"
  have d: "distinct (map col_name ?cs)" using assms(1) by (metis distinct_take take_map)
  have e: "map (col_name \<circ> snd) (enumerate 0 ?cs) = map col_name ?cs"
    by (simp flip: map_map)
  have f: "find (\<lambda>(idx, c). col_name c = col_name (columns s ! i)) (enumerate 0 ?cs) =
      Some (i, columns s ! i)"
    using find_enumerate [of i ?cs 0] assms d by simp
  show ?thesis
    unfolding compute_stats_def
    using stats_fold_get [of "[]" "enumerate 0 ?cs" "\<lambda>idx c. column_stats_of M c (batch_column b idx)"
      "col_name (columns s ! i)"] d e f by simp
qed

section \<open>Reading back\<close>

text \<open>
  \<open>covers s fs\<close>: a file with the fields \<open>fs\<close> can be read under the schema \<open>s\<close>, which is what
  \<open>check_evolution\<close> keeps: a column of \<open>s\<close> is in the file as declared, or is nullable.
\<close>

definition covers :: "table_schema \<Rightarrow> field list \<Rightarrow> bool" where
  "covers s fs \<longleftrightarrow> list_all (\<lambda>c. case find (\<lambda>f. f_name f = col_name c) fs of
     Some f \<Rightarrow> f = arrow_field c | None \<Rightarrow> nullable c) (columns s)"

definition backfill_row :: "field list \<Rightarrow> string list \<Rightarrow> row \<Rightarrow> row" where
  "backfill_row fs names r =
     map (\<lambda>n. case position (\<lambda>f. f_name f = n) fs of Some i \<Rightarrow> r ! i | None \<Rightarrow> VNull) names"

definition fields_of :: "table_schema \<Rightarrow> string list \<Rightarrow> field list" where
  "fields_of s names = map (\<lambda>n. arrow_field (the (column s n))) names"

lemma covers_own: "distinct (map col_name (columns s)) \<Longrightarrow> covers s (arrow_schema s)"
proof -
  assume d: "distinct (map col_name (columns s))"
  have "find (\<lambda>f. f_name f = col_name c) (arrow_schema s) = Some (arrow_field c)" if "c \<in> set (columns s)" for c
    using find_unique [of f_name "arrow_schema s" "arrow_field c"] d that
    by (simp add: arrow_schema_def arrow_field_def comp_def)
  then show ?thesis by (simp add: covers_def list_all_iff)
qed

lemma backfill_columns_ok:
  assumes "batch_ok b" "covers s (bfields b)" "names \<noteq> []" "\<forall>n \<in> set names. column s n \<noteq> None"
  shows "columns_ok (fields_of s names) (num_rows b) (map (backfill_column b) names)"
proof -
  have "length (backfill_column b n) = num_rows b \<and>
      (\<forall>v \<in> set (backfill_column b n). field_fits (arrow_field (the (column s n))) v)"
    if "n \<in> set names" for n
  proof -
    obtain c where c: "column s n = Some c" "c \<in> set (columns s)" "col_name c = n"
      using assms(4) \<open>n \<in> set names\<close> column_set by blast
    show ?thesis
    proof (cases "index_of b n")
      case None
      then have "find (\<lambda>f. f_name f = col_name c) (bfields b) = None"
        using c by (simp add: index_of_def position_find)
      then have "nullable c" using assms(2) c(2) by (auto simp: covers_def list_all_iff)
      then show ?thesis using None c by (auto simp: backfill_column_def field_fits_def arrow_field_def)
    next
      case (Some i)
      then have i: "i < length (bfields b)" and "find (\<lambda>f. f_name f = col_name c) (bfields b) = Some (bfields b ! i)"
        using c position_Some [of _ "bfields b" i] by (auto simp: index_of_def position_find)
      then have f: "bfields b ! i = arrow_field c" using assms(2) c(2) by (auto simp: covers_def list_all_iff)
      have "field_fits (bfields b ! i) (r ! i)" if "r \<in> set (brows b)" for r
        using assms(1) that i by (auto simp: batch_ok_def row_ok_def list_all_iff list_all2_conv_all_nth)
      then show ?thesis
        using Some c f by (auto simp: backfill_column_def batch_column_def num_rows_def)
    qed
  qed
  then show ?thesis using assms(3) by (auto simp: columns_ok_def fields_of_def)
qed

lemma rows_of_backfill:
  "rows_of_columns (num_rows b) (map (backfill_column b) names) = map (backfill_row (bfields b) names) (brows b)"
proof (rule nth_equalityI)
  fix i assume "i < length (rows_of_columns (num_rows b) (map (backfill_column b) names))"
  then have i: "i < length (brows b)" by (simp add: rows_of_columns_def num_rows_def)
  have "backfill_column b n ! i = (case position (\<lambda>f. f_name f = n) (bfields b) of Some j \<Rightarrow> brows b ! i ! j | None \<Rightarrow> VNull)"
    for n
    using i by (auto simp: backfill_column_def index_of_def batch_column_def num_rows_def split: option.splits)
  then show "rows_of_columns (num_rows b) (map (backfill_column b) names) ! i = map (backfill_row (bfields b) names) (brows b) ! i"
    using i by (simp add: rows_of_columns_def num_rows_def backfill_row_def)
qed (simp add: rows_of_columns_def num_rows_def)

lemma project_backfill_eq:
  assumes "arrow_ok A" "batch_ok b" "covers s (bfields b)" "names \<noteq> []" "\<forall>n \<in> set names. column s n \<noteq> None"
  shows "project_with_backfill A b s names =
    Inr \<lparr>bfields = fields_of s names, brows = map (backfill_row (bfields b) names) (brows b)\<rparr>"
proof -
  have "mapM (\<lambda>n. rmap (\<lambda>c. (arrow_field c, backfill_column b n)) (require_column s n)) names =
      Inr (map (\<lambda>n. (arrow_field (the (column s n)), backfill_column b n)) names)"
    using assms(5) by (intro mapM_Inr_map) (auto simp: require_column_def)
  then show ?thesis
    using arrow_try_new [OF assms(1) backfill_columns_ok [OF assms(2-5)]]
    by (simp add: project_with_backfill_def rows_of_backfill fields_of_def comp_def)
qed

lemma read_batches_written:
  assumes "arrow_ok A" "batch_ok b"
  obtains bs where "parquet_write A b = Inr bs" "read_batches A bs = Inr b"
proof -
  obtain bs parts where p: "parquet_write A b = Inr bs" "parquet_read A bs = Inr (bfields b, parts)"
    "\<forall>p \<in> set parts. batch_ok p \<and> bfields p = bfields b" "concat (map brows parts) = brows b"
    using arrow_parquet [OF assms] .
  have "read_batches A bs = Inr b"
  proof (cases parts rule: remdups_adj.cases)
    case 1
    then have "brows b = []" using p(4) by simp
    then show ?thesis using p(2) 1 by (simp add: read_batches_def)
  next
    case (2 x)
    then have "brows b = brows x" "bfields b = bfields x" using p(3,4) by simp_all
    then have "b = x" by simp
    then show ?thesis using p(2) 2 by (simp add: read_batches_def)
  next
    case (3 x y zs)
    have "concat_batches A (bfields b) parts = Inr \<lparr>bfields = bfields b, brows = concat (map brows parts)\<rparr>"
      using p(3) 3 by (intro arrow_concat [OF assms(1)]) auto
    moreover have "bfields (hd parts) = bfields b" using p(3) 3 by simp
    ultimately show ?thesis using p(2,4) 3 by (simp add: read_batches_def)
  qed
  then show ?thesis using that p(1) by blast
qed

lemma write_segment_spec:
  assumes "arrow_ok A" "batch_ok b" "store_ok s" "object_key key"
  obtains s' m bs where "write_segment M A s key sid schema b = Inr (s', m)"
    "store_put s key bs = Inr s'" "store_ok s'" "read_batches A bs = Inr b"
    "m = \<lparr>seg_id = sid, seg_key = key, row_count = num_rows b, seg_bytes = length bs,
          seg_schema_version = version schema, seg_columns = compute_stats M schema b\<rparr>"
    "map_of (files s') = (map_of (files s))(key \<mapsto> bs)"
proof -
  obtain bs where bs: "parquet_write A b = Inr bs" "read_batches A bs = Inr b"
    using read_batches_written [OF assms(1,2)] .
  obtain s' where s': "store_put s key bs = Inr s'" "store_ok s'" "map_of (files s') = (map_of (files s))(key \<mapsto> bs)"
    using store_put_eq [OF assms(3,4)] by metis
  show ?thesis using that bs s' by (simp add: write_segment_def)
qed

lemma read_segment_eq:
  assumes "arrow_ok A" "store_get s (seg_key m) = Inr bs" "read_batches A bs = Inr b" "batch_ok b"
    and "covers schema (bfields b)" "names \<noteq> []" "\<forall>n \<in> set names. column schema n \<noteq> None"
  shows "read_segment A s m schema (Some names) =
    Inr \<lparr>bfields = fields_of schema names, brows = map (backfill_row (bfields b) names) (brows b)\<rparr>"
  using project_backfill_eq [OF assms(1,4-7)] assms(2,3) by (simp add: read_segment_def)

lemma position_nth_distinct:
  "distinct (map f xs) \<Longrightarrow> i < length xs \<Longrightarrow> position (\<lambda>x. f x = f (xs ! i)) xs = Some i"
proof (induction xs arbitrary: i)
  case (Cons x xs)
  then show ?case
  proof (cases i)
    case (Suc j)
    then have "xs ! j \<in> set xs" using Cons.prems by simp
    then have "f x \<noteq> f (xs ! j)" using Cons.prems by (metis distinct.simps(2) imageI list.map(2) set_map)
    then show ?thesis using Cons Suc by simp
  qed simp
qed simp

definition column_names :: "table_schema \<Rightarrow> string list" where
  "column_names s = map col_name (columns s)"

lemma arrow_schema_names: "map f_name (arrow_schema s) = map col_name (columns s)"
  by (simp add: arrow_schema_def arrow_field_def)

lemma backfill_own:
  assumes "distinct (map col_name (columns s))" "length r = length (columns s)"
  shows "backfill_row (arrow_schema s) (column_names s) r = r"
proof (rule nth_equalityI)
  show "length (backfill_row (arrow_schema s) (column_names s) r) = length r"
    using assms by (simp add: backfill_row_def column_names_def)
  fix i assume "i < length (backfill_row (arrow_schema s) (column_names s) r)"
  then have i: "i < length (columns s)" by (simp add: backfill_row_def column_names_def)
  have "position (\<lambda>f. f_name f = f_name (arrow_schema s ! i)) (arrow_schema s) = Some i"
    using assms(1) i by (intro position_nth_distinct) (simp_all add: arrow_schema_names, simp add: arrow_schema_def)
  then show "backfill_row (arrow_schema s) (column_names s) r ! i = r ! i"
    using i by (simp add: backfill_row_def column_names_def arrow_schema_def arrow_field_def)
qed

lemma fields_of_own: "distinct (map col_name (columns s)) \<Longrightarrow> fields_of s (column_names s) = arrow_schema s"
  by (auto simp: fields_of_def column_names_def arrow_schema_def find_by_name)

lemma column_names_exist: "\<forall>n \<in> set (column_names s). column s n \<noteq> None"
  by (auto simp: column_names_def column_None)

section \<open>Properties\<close>

text \<open>
  C21: segment statistics are sound: for every column of a written batch the null count is exact,
  every non-null value of a column other than JSON lies between the recorded minimum and maximum,
  a minimum is recorded only if there is a non-null value, and a recorded filter contains every
  value.
\<close>

theorem segment_stats_sound:
  assumes "batch_ok b" and "bfields b = arrow_schema s" and "validate_schema s = Inr ()"
    and "i < length (columns s)" and "r \<in> set (brows b)"
  shows "\<exists>st. bt_get (compute_stats M s b) (col_name (columns s ! i)) = Some st \<and>
    null_count st = length (filter (\<lambda>r. r ! i = VNull) (brows b)) \<and>
    (col_type (columns s ! i) \<noteq> DJson \<longrightarrow> r ! i \<noteq> VNull \<longrightarrow> bounded st (r ! i)) \<and>
    (st_min st \<noteq> None \<longrightarrow> (\<exists>q \<in> set (brows b). q ! i \<noteq> VNull)) \<and>
    (\<forall>f. st_bloom st = Some f \<longrightarrow> bloom_contains f (r ! i))"
proof -
  let ?c = "columns s ! i" and ?vs = "batch_column b i"
  have d: "distinct (map col_name (columns s))" using assms(3) by (simp add: validate_schema_iff schema_ok_def)
  have n: "i < num_columns b" using assms(2,4) by (simp add: num_columns_def arrow_schema_def)
  have "fits (col_type ?c) (q ! i)" if "q \<in> set (brows b)" for q
    using assms(1,2,4) that
    by (auto simp: batch_ok_def row_ok_def list_all_iff list_all2_conv_all_nth field_fits_def arrow_schema_def
        arrow_field_def fits_arrow)
  then have f: "\<forall>v \<in> set ?vs. fits (col_type ?c) v" by (simp add: batch_column_def)
  have r: "r ! i \<in> set ?vs" using assms(5) by (auto simp: batch_column_def)
  note S = column_stats_sound [OF f, where M = M]
  have "null_count (column_stats_of M ?c ?vs) = length (filter (\<lambda>r. r ! i = VNull) (brows b))"
    using S(1) by (simp add: batch_column_def filter_map comp_def)
  moreover have "\<exists>q \<in> set (brows b). q ! i \<noteq> VNull" if "st_min (column_stats_of M ?c ?vs) \<noteq> None"
    using S(5) [OF that] by (auto simp: batch_column_def)
  ultimately show ?thesis
    using stats_of_column [OF d assms(4) n, where M = M] S(3) [OF _ r] S(4) [OF _ r] by auto
qed

definition demo_math :: bloom_math where
  "demo_math = \<lparr>raw_bits = \<lambda>n. 10 * n, raw_probes = \<lambda>m n. 7\<rparr>"

definition demo_batch :: batch where
  "demo_batch = \<lparr>bfields = arrow_schema demo_schema,
     brows = [[VInt 1, VStr ''uae''], [VInt 5, VNull], [VInt 3, VStr ''usa'']]\<rparr>"

lemma demo_batch_ok: "batch_ok demo_batch"
  by (simp add: batch_ok_def demo_batch_def arrow_schema_def demo_schema_def new_table_def new_column_def
    row_ok_def field_fits_def arrow_field_def)

theorem segment_stats_sound_witness:
  "\<exists>st. bt_get (compute_stats demo_math demo_schema demo_batch) ''id'' = Some st \<and>
     null_count st = 0 \<and> bounded st (VInt 3)"
proof -
  have s: "columns demo_schema ! 0 = (new_column ''id'' DInt64)\<lparr>nullable := False\<rparr>" "0 < length (columns demo_schema)"
    by (simp_all add: demo_schema_def new_table_def)
  have "[VInt 3, VStr ''usa''] \<in> set (brows demo_batch)" by (simp add: demo_batch_def)
  from segment_stats_sound [OF demo_batch_ok _ demo_schema_ok s(2) this, where M = demo_math]
  show ?thesis unfolding s by (auto simp: demo_batch_def new_column_def)
qed

text \<open>
  Remark: a JSON column keeps no minimum, so its statistics say "all null" whatever it holds.
\<close>

theorem json_stats_claim_all_null:
  assumes "col_type c = DJson"
  shows "all_null (column_stats_of M c vs)"
proof -
  have "st_min (foldl (stats_step DJson) st vs) = st_min st" for st
    by (induction vs arbitrary: st) (simp_all add: stats_step_json)
  then show ?thesis using assms by (simp add: all_null_def column_stats_of_def empty_stats_def Let_def)
qed

theorem json_stats_claim_all_null_witness:
  "all_null (column_stats_of demo_math (new_column ''doc'' DJson) [VStr ''{}''])"
  by (rule json_stats_claim_all_null) (simp add: new_column_def)

text \<open>
  C22: a segment reads back what was written: under any schema that covers the file, a projection
  returns the stored rows in order, each column by name, NULL where the file predates the column.
\<close>

theorem segment_roundtrip:
  assumes "arrow_ok A" and "batch_ok b" and "store_ok s" and "object_key key"
    and "covers later (bfields b)" and "names \<noteq> []" and "\<forall>n \<in> set names. column later n \<noteq> None"
  shows "\<exists>s' m. write_segment M A s key sid schema b = Inr (s', m) \<and> row_count m = num_rows b \<and>
    read_segment A s' m later (Some names) =
      Inr \<lparr>bfields = fields_of later names, brows = map (backfill_row (bfields b) names) (brows b)\<rparr>"
proof -
  obtain s' m bs where w: "write_segment M A s key sid schema b = Inr (s', m)" "store_put s key bs = Inr s'"
    "read_batches A bs = Inr b" "m = \<lparr>seg_id = sid, seg_key = key, row_count = num_rows b, seg_bytes = length bs,
          seg_schema_version = version schema, seg_columns = compute_stats M schema b\<rparr>"
    using write_segment_spec [OF assms(1-4)] by metis
  have "store_get s' (seg_key m) = Inr bs" using fs.put_get [OF assms(3,4) w(2)] w(4) by simp
  from read_segment_eq [OF assms(1) this w(3) assms(2,5-7)] show ?thesis using w by auto
qed

theorem segment_roundtrip_witness:
  "\<exists>s' m. write_segment demo_math demo_arrow demo_store ''m/a.json'' 1 demo_schema demo_batch = Inr (s', m) \<and>
     row_count m = 3"
proof -
  have c: "covers demo_schema (bfields demo_batch)"
    using covers_own [of demo_schema] by (simp add: demo_batch_def demo_schema_def new_table_def new_column_def)
  have n: "\<forall>n \<in> set [''id'']. column demo_schema n \<noteq> None"
    by (simp add: column_def demo_schema_def new_table_def new_column_def)
  from segment_roundtrip [OF demo_arrow_ok demo_batch_ok demo_store_ok(1) plain_object [OF demo_store_ok(2)] c _ n]
  show ?thesis by (fastforce simp: num_rows_def demo_batch_def)
qed

end
