(* ===== verification/Compaction.thy ===== *)
theory Compaction
  imports Float64 "HOL-Library.Product_Lexorder"
begin

text \<open>
  \<open>crates/adb-storage/src/compaction.rs\<close>: which segments a partition merges. Only the decision;
  theory Partition performs the merge. \<open>sort_by_key\<close> is stable, as \<open>sort_key\<close> is.
\<close>

record compaction_policy =
  min_segments :: nat
  max_input_bytes :: nat
  suppressed_ratio :: f64
  max_inputs :: nat

definition default_policy :: compaction_policy where
  "default_policy = \<lparr>min_segments = 8, max_input_bytes = 512 * 2 ^ 20,
     suppressed_ratio = F64 0x3FD0000000000000, max_inputs = 16\<rparr>"

record segment_facts =
  fact_id :: nat
  fact_rows :: nat
  fact_bytes :: nat
  fact_suppressed :: nat

definition dead_ratio :: "segment_facts \<Rightarrow> f64" where
  "dead_ratio f =
     (if fact_rows f = 0 then F64 0x3FF0000000000000
      else f64_div (f64_of_int (int (fact_suppressed f))) (f64_of_int (int (fact_rows f))))"

definition is_dead :: "compaction_policy \<Rightarrow> segment_facts \<Rightarrow> bool" where
  "is_dead p f \<longleftrightarrow> f64_le (suppressed_ratio p) (dead_ratio f)"

text \<open>The budgeted loop both branches share.\<close>

fun pick :: "nat \<Rightarrow> nat \<Rightarrow> nat list \<Rightarrow> segment_facts list \<Rightarrow> nat list" where
  "pick limit budget out [] = out"
| "pick limit budget out (f # fs) =
     (if limit \<le> length out \<or> budget < fact_bytes f then out
      else pick limit (budget - fact_bytes f) (out @ [fact_id f]) fs)"

definition select :: "segment_facts list \<Rightarrow> compaction_policy \<Rightarrow> nat list" where
  "select facts p =
     (let dead = filter (is_dead p) facts;
          out = pick (max_inputs p) (max_input_bytes p) [] (sort_key fact_id dead)
      in if dead \<noteq> [] \<and> out \<noteq> [] then out
         else if length facts < min_segments p then []
         else
           let chosen = pick (max_inputs p) (max_input_bytes p) []
                 (sort_key (\<lambda>f. (fact_bytes f, fact_id f)) facts)
           in if length chosen < 2 then [] else sort chosen)"

section \<open>Lemmas\<close>

definition bytes_of :: "segment_facts list \<Rightarrow> nat list \<Rightarrow> nat" where
  "bytes_of fs ids = sum_list (map fact_bytes (filter (\<lambda>f. fact_id f \<in> set ids) fs))"

lemma pick_prefix:
  "\<exists>k \<le> length fs. pick limit budget out fs = out @ map fact_id (take k fs) \<and>
     sum_list (map fact_bytes (take k fs)) \<le> budget \<and> (length out \<le> limit \<longrightarrow> length out + k \<le> limit)"
proof (induction limit budget out fs rule: pick.induct)
  case (2 limit budget out f fs)
  show ?case
  proof (cases "limit \<le> length out \<or> budget < fact_bytes f")
    case False
    then obtain k where "k \<le> length fs"
      "pick limit (budget - fact_bytes f) (out @ [fact_id f]) fs = (out @ [fact_id f]) @ map fact_id (take k fs)"
      "sum_list (map fact_bytes (take k fs)) \<le> budget - fact_bytes f" "length out + 1 + k \<le> limit"
      using 2 by fastforce
    then show ?thesis using False by (intro exI [of _ "Suc k"]) auto
  qed (auto intro: exI [of _ 0])
qed simp

lemma bytes_of_subset:
  assumes "distinct (map fact_id facts)" "distinct gs" "set gs \<subseteq> set facts"
  shows "bytes_of facts (map fact_id gs) = sum_list (map fact_bytes gs)"
proof -
  have inj: "inj_on fact_id (set facts)" and d: "distinct facts"
    using assms(1) by (simp_all add: distinct_map)
  have "set (filter (\<lambda>f. fact_id f \<in> set (map fact_id gs)) facts) = set gs"
    using inj assms(3) by (auto simp: inj_on_def)
  moreover have "distinct (filter (\<lambda>f. fact_id f \<in> set (map fact_id gs)) facts)" using d by simp
  ultimately show ?thesis
    unfolding bytes_of_def using assms(2) by (metis sum_list_distinct_conv_sum_set)
qed

lemma pick_ok:
  fixes limit budget :: nat
  assumes "distinct (map fact_id facts)" "set gs \<subseteq> set facts" "distinct gs"
  defines "out \<equiv> pick limit budget [] gs"
  shows "set out \<subseteq> fact_id ` set gs \<and> distinct out \<and> length out \<le> limit \<and> bytes_of facts out \<le> budget"
proof -
  obtain k where k: "out = map fact_id (take k gs)" "sum_list (map fact_bytes (take k gs)) \<le> budget" "k \<le> limit" "k \<le> length gs"
    using pick_prefix [of gs limit budget "[]"] by (auto simp: out_def)
  have sub: "set (take k gs) \<subseteq> set facts" using assms(2) set_take_subset [of k gs] by blast
  have "inj_on fact_id (set facts)" using assms(1) by (simp add: distinct_map)
  then have "distinct out" using sub assms(3) unfolding k(1) by (simp add: distinct_map inj_on_subset)
  moreover have "bytes_of facts out = sum_list (map fact_bytes (take k gs))"
    unfolding k(1) by (rule bytes_of_subset) (use assms(1,3) sub in auto)
  ultimately show ?thesis using k set_take_subset [of k gs] by auto
qed

lemma sorted_pick: "sorted (map fact_id gs) \<Longrightarrow> sorted (pick limit budget [] gs)"
  using pick_prefix [of gs limit budget "[]"] by (auto simp flip: take_map intro: sorted_wrt_take)

lemma bytes_of_sort [simp]: "bytes_of facts (sort xs) = bytes_of facts xs"
  by (simp add: bytes_of_def)

lemma select_bounded:
  assumes "distinct (map fact_id facts)"
  shows "sorted (select facts p) \<and> distinct (select facts p) \<and>
    set (select facts p) \<subseteq> set (map fact_id facts) \<and>
    length (select facts p) \<le> max_inputs p \<and>
    bytes_of facts (select facts p) \<le> max_input_bytes p \<and>
    (\<forall>i. select facts p = [i] \<longrightarrow> (\<exists>f \<in> set facts. fact_id f = i \<and> is_dead p f))"
proof -
  let ?dead = "sort_key fact_id (filter (is_dead p) facts)"
  let ?size = "sort_key (\<lambda>f. (fact_bytes f, fact_id f)) facts"
  have d: "distinct facts" using assms by (simp add: distinct_map)
  have "set ?dead \<subseteq> set facts" "distinct ?dead" using d by auto
  note P = pick_ok [OF assms this, where limit = "max_inputs p" and budget = "max_input_bytes p"]
  have "set ?size \<subseteq> set facts" "distinct ?size" using d by auto
  note Q = pick_ok [OF assms this, where limit = "max_inputs p" and budget = "max_input_bytes p"]
  have s: "sorted (pick (max_inputs p) (max_input_bytes p) [] ?dead)" by (rule sorted_pick) simp
  have "select facts p = [] \<or>
      select facts p = pick (max_inputs p) (max_input_bytes p) [] ?dead \<or>
      select facts p = sort (pick (max_inputs p) (max_input_bytes p) [] ?size) \<and>
        2 \<le> length (pick (max_inputs p) (max_input_bytes p) [] ?size)"
    unfolding select_def Let_def by auto
  then consider "select facts p = []"
    | "select facts p = pick (max_inputs p) (max_input_bytes p) [] ?dead"
    | "select facts p = sort (pick (max_inputs p) (max_input_bytes p) [] ?size)"
      "2 \<le> length (select facts p)"
    by (metis length_sort)
  then show ?thesis
  proof cases
    case 1
    then show ?thesis by (simp add: bytes_of_def)
  next
    case 2
    have "\<exists>f \<in> set facts. fact_id f = i \<and> is_dead p f" if "select facts p = [i]" for i
    proof -
      have "i \<in> fact_id ` set ?dead" using P that unfolding 2 by auto
      then show ?thesis by auto
    qed
    moreover have "fact_id ` set ?dead \<subseteq> set (map fact_id facts)" by auto
    ultimately show ?thesis using P s unfolding 2 by blast
  next
    case 3
    have "select facts p \<noteq> [i]" for i using 3(2) by auto
    moreover have "fact_id ` set ?size \<subseteq> set (map fact_id facts)" by auto
    ultimately show ?thesis using Q unfolding 3(1) sorted_sort distinct_sort set_sort length_sort bytes_of_sort
      by auto
  qed
qed

section \<open>Properties\<close>

text \<open>
  Remark: a merge is bounded and well ordered: the selected ids are distinct segments of the partition
  in ascending order, at most \<open>max_inputs\<close> of them and at most \<open>max_input_bytes\<close> in total, and a
  single segment is selected only when its dead rows reach the policy's ratio.
\<close>

theorem compaction_select_bounded:
  assumes "distinct (map fact_id facts)"
  shows "sorted (select facts p) \<and> distinct (select facts p) \<and>
    set (select facts p) \<subseteq> set (map fact_id facts) \<and>
    length (select facts p) \<le> max_inputs p \<and>
    bytes_of facts (select facts p) \<le> max_input_bytes p \<and>
    (\<forall>i. select facts p = [i] \<longrightarrow> (\<exists>f \<in> set facts. fact_id f = i \<and> is_dead p f))"
  using assms by (rule select_bounded)

theorem compaction_select_bounded_witness:
  "sorted (select [\<lparr>fact_id = 2, fact_rows = 4, fact_bytes = 9, fact_suppressed = 0\<rparr>,
      \<lparr>fact_id = 1, fact_rows = 0, fact_bytes = 5, fact_suppressed = 0\<rparr>] default_policy)"
  using compaction_select_bounded [of "[\<lparr>fact_id = 2, fact_rows = 4, fact_bytes = 9, fact_suppressed = 0\<rparr>,
      \<lparr>fact_id = 1, fact_rows = 0, fact_bytes = 5, fact_suppressed = 0\<rparr>]" default_policy] by simp

end
