(* ===== verification/Partition.thy ===== *)
theory Partition
  imports Segment Compaction Wal
begin

text \<open>
  \<open>crates/adb-storage/src/memtable.rs\<close>, \<open>keyindex.rs\<close>, \<open>manifest.rs\<close> and the \<open>Partition\<close> of
  \<open>table.rs\<close>: the state of one partition, the application of logged mutations, flush,
  checkpoint, compaction and opening.

  An operation takes and returns the file system and the partition, because an early return
  leaves what was done before it. A Roaring bitmap is the set of its members. A \<open>HashMap\<close> keyed by
  \<open>Vec<Value>\<close> is an association list: on keys of one table \<open>Value\<close>'s equality is equality
  (\<open>value_cmp_eq\<close>). Outside the repository (record \<open>storage_lib\<close>): the Arrow and Parquet kernels,
  bincode, the serialization of bitmaps and the JSON text of a manifest.
\<close>

section \<open>Memtable\<close>

record memtable =
  mt_schema :: table_schema
  mt_batches :: "batch list"
  mt_rows :: nat
  mt_bytes :: nat

definition mt_new :: "table_schema \<Rightarrow> memtable" where
  "mt_new s = \<lparr>mt_schema = s, mt_batches = [], mt_rows = 0, mt_bytes = 0\<rparr>"

definition mt_append :: "arrow_lib \<Rightarrow> memtable \<Rightarrow> batch \<Rightarrow> memtable" where
  "mt_append A m b =
     (if num_rows b = 0 then m
      else m\<lparr>mt_rows := mt_rows m + num_rows b, mt_bytes := mt_bytes m + memory_size A b,
             mt_batches := mt_batches m @ [b]\<rparr>)"

definition mt_is_empty :: "memtable \<Rightarrow> bool" where
  "mt_is_empty m \<longleftrightarrow> mt_rows m = 0"

fun with_offsets :: "nat \<Rightarrow> batch list \<Rightarrow> (nat \<times> batch) list" where
  "with_offsets k [] = []"
| "with_offsets k (b # bs) = (k, b) # with_offsets (k + num_rows b) bs"

definition batches_with_offsets :: "memtable \<Rightarrow> (nat \<times> batch) list" where
  "batches_with_offsets m = with_offsets 0 (mt_batches m)"

fun locate_from :: "nat \<Rightarrow> nat \<Rightarrow> batch list \<Rightarrow> nat \<Rightarrow> (nat \<times> nat) option" where
  "locate_from idx start [] ordinal = None"
| "locate_from idx start (b # bs) ordinal =
     (if ordinal < start + num_rows b then Some (idx, ordinal - start)
      else locate_from (idx + 1) (start + num_rows b) bs ordinal)"

definition mt_locate :: "memtable \<Rightarrow> nat \<Rightarrow> (nat \<times> nat) option" where
  "mt_locate m ordinal = locate_from 0 0 (mt_batches m) ordinal"

definition mt_concat :: "arrow_lib \<Rightarrow> memtable \<Rightarrow> batch option result" where
  "mt_concat A m =
     (case mt_batches m of
        [] \<Rightarrow> Inr None
      | [b] \<Rightarrow> Inr (Some b)
      | bs \<Rightarrow> rmap Some (concat_batches A (arrow_schema (mt_schema m)) bs))"

definition mt_clear :: "memtable \<Rightarrow> memtable" where
  "mt_clear m = m\<lparr>mt_batches := [], mt_rows := 0, mt_bytes := 0\<rparr>"

definition mt_set_schema :: "memtable \<Rightarrow> table_schema \<Rightarrow> memtable" where
  "mt_set_schema m s = m\<lparr>mt_schema := s\<rparr>"

section \<open>Key index\<close>

type_synonym row_key = "adb_value list"

datatype source = Memtable | SegmentSource nat

record locator =
  loc_source :: source
  loc_ordinal :: nat

definition mem_locator :: "nat \<Rightarrow> locator" where
  "mem_locator n = \<lparr>loc_source = Memtable, loc_ordinal = n\<rparr>"

definition seg_locator :: "nat \<Rightarrow> nat \<Rightarrow> locator" where
  "seg_locator i n = \<lparr>loc_source = SegmentSource i, loc_ordinal = n\<rparr>"

type_synonym key_index = "(row_key \<times> locator) list"

definition ki_get :: "key_index \<Rightarrow> row_key \<Rightarrow> locator option" where
  "ki_get m k = map_of m k"

definition ki_contains :: "key_index \<Rightarrow> row_key \<Rightarrow> bool" where
  "ki_contains m k \<longleftrightarrow> map_of m k \<noteq> None"

definition ki_insert :: "row_key \<Rightarrow> locator \<Rightarrow> key_index \<Rightarrow> locator option \<times> key_index" where
  "ki_insert k l m = (map_of m k, AList.update k l m)"

definition ki_remove :: "row_key \<Rightarrow> key_index \<Rightarrow> locator option \<times> key_index" where
  "ki_remove k m = (map_of m k, AList.delete k m)"

definition relocate :: "row_key \<Rightarrow> locator \<Rightarrow> locator \<Rightarrow> key_index \<Rightarrow> key_index" where
  "relocate k from to m = (if map_of m k = Some from then AList.update k to m else m)"

section \<open>Manifest\<close>

definition manifest_format :: nat where
  "manifest_format = 1"

record manifest =
  mf_format :: nat
  mf_partition :: nat
  mf_schema_version :: u32
  mf_applied_lsn :: nat
  mf_next_segment :: nat
  mf_segments :: "segment_meta list"
  mf_suppressed :: "(nat, string) btree"

record storage_lib =
  sl_arrow :: arrow_lib
  sl_wal :: wal_lib
  sl_math :: bloom_math
  manifest_json :: "manifest \<Rightarrow> bytes"
  manifest_parse :: "bytes \<Rightarrow> manifest option"
  bitmap_write :: "nat set \<Rightarrow> bytes"
  bitmap_read :: "bytes \<Rightarrow> nat set option"

definition new_manifest :: "nat \<Rightarrow> u32 \<Rightarrow> manifest" where
  "new_manifest part v =
     \<lparr>mf_format = manifest_format, mf_partition = part, mf_schema_version = v, mf_applied_lsn = 0,
      mf_next_segment = 1, mf_segments = [], mf_suppressed = []\<rparr>"

definition manifest_load :: "storage_lib \<Rightarrow> fs_store \<Rightarrow> string \<Rightarrow> manifest option result" where
  "manifest_load L s key =
     rbind (store_exists s key) (\<lambda>ex.
     if \<not> ex then Inr None
     else
       rbind (store_get s key) (\<lambda>bs.
       rbind (ok_or Corruption (manifest_parse L bs)) (\<lambda>m.
       if mf_format m \<noteq> manifest_format then Inl Corruption else Inr (Some m))))"

definition manifest_save :: "storage_lib \<Rightarrow> fs_store \<Rightarrow> string \<Rightarrow> manifest \<Rightarrow> fs_store result" where
  "manifest_save L s key m = store_put_atomic s key (manifest_json L m)"

definition suppressed_bitmap :: "storage_lib \<Rightarrow> manifest \<Rightarrow> nat \<Rightarrow> nat set result" where
  "suppressed_bitmap L m i =
     (case bt_get (mf_suppressed m) i of
        None \<Rightarrow> Inr {}
      | Some encoded \<Rightarrow> rbind (b64_decode encoded) (\<lambda>raw. ok_or Corruption (bitmap_read L raw)))"

definition set_suppressed :: "storage_lib \<Rightarrow> manifest \<Rightarrow> nat \<Rightarrow> nat set \<Rightarrow> manifest" where
  "set_suppressed L m i bitmap =
     (if bitmap = {} then m\<lparr>mf_suppressed := bt_remove i (mf_suppressed m)\<rparr>
      else m\<lparr>mf_suppressed := bt_insert i (b64_encode (bitmap_write L bitmap)) (mf_suppressed m)\<rparr>)"

definition segment_keys :: "manifest \<Rightarrow> string list" where
  "segment_keys m = map seg_key (mf_segments m)"

section \<open>Partition state\<close>

record segment_entry =
  se_meta :: segment_meta
  se_suppressed :: "nat set"

definition entry_visible_rows :: "segment_entry \<Rightarrow> nat" where
  "entry_visible_rows e = row_count (se_meta e) - card (se_suppressed e)"

record partition_state =
  ps_schema :: table_schema
  ps_memtable :: memtable
  ps_mem_suppressed :: "nat set"
  ps_segments :: "segment_entry list"
  ps_key_index :: key_index
  ps_applied_lsn :: nat
  ps_last_lsn :: nat
  ps_next_segment :: nat

record storage_config =
  memtable_max_rows :: nat
  memtable_max_bytes :: nat
  cfg_compaction :: compaction_policy
  auto_compact :: bool

record partition =
  pt_id :: nat
  pt_tenant :: string
  pt_database :: string
  pt_table :: string
  pt_manifest_key :: string
  pt_log :: file_log
  pt_state :: partition_state
  pt_config :: storage_config

type_synonym part_st = "fs_store \<times> partition"

fun suppress_entry :: "nat \<Rightarrow> nat \<Rightarrow> segment_entry list \<Rightarrow> segment_entry list" where
  "suppress_entry i n [] = []"
| "suppress_entry i n (e # es) =
     (if seg_id (se_meta e) = i then e\<lparr>se_suppressed := insert n (se_suppressed e)\<rparr> # es
      else e # suppress_entry i n es)"

definition suppress :: "locator \<Rightarrow> partition_state \<Rightarrow> partition_state" where
  "suppress l st =
     (case loc_source l of
        Memtable \<Rightarrow> st\<lparr>ps_mem_suppressed := insert (loc_ordinal l) (ps_mem_suppressed st)\<rparr>
      | SegmentSource i \<Rightarrow> st\<lparr>ps_segments := suppress_entry i (loc_ordinal l) (ps_segments st)\<rparr>)"

definition suppress_opt :: "locator option \<Rightarrow> partition_state \<Rightarrow> partition_state" where
  "suppress_opt l st = (case l of None \<Rightarrow> st | Some l \<Rightarrow> suppress l st)"

definition index_row :: "row_key \<Rightarrow> locator \<Rightarrow> partition_state \<Rightarrow> partition_state" where
  "index_row k l st =
     (let (previous, m) = ki_insert k l (ps_key_index st)
      in suppress_opt previous (st\<lparr>ps_key_index := m\<rparr>))"

definition apply_rows :: "arrow_lib \<Rightarrow> batch \<Rightarrow> nat \<Rightarrow> partition_state \<Rightarrow> partition_state" where
  "apply_rows A b n st =
     (let st =
        (if 0 < num_rows b \<and> \<not> is_append_only (ps_schema st) then
           let pk = pk_indices (ps_schema st); start = mt_rows (ps_memtable st)
           in foldl (\<lambda>st row. index_row (key_at b pk row) (mem_locator (start + row)) st) st [0..<num_rows b]
         else st)
      in st\<lparr>ps_memtable := mt_append A (ps_memtable st) b, ps_last_lsn := max (ps_last_lsn st) n\<rparr>)"

definition delete_key :: "partition_state \<Rightarrow> row_key \<Rightarrow> partition_state" where
  "delete_key st k =
     (let (previous, m) = ki_remove k (ps_key_index st)
      in suppress_opt previous (st\<lparr>ps_key_index := m\<rparr>))"

definition apply_deletes :: "row_key list \<Rightarrow> nat \<Rightarrow> partition_state \<Rightarrow> partition_state" where
  "apply_deletes ks n st =
     (let st = foldl delete_key st ks in st\<lparr>ps_last_lsn := max (ps_last_lsn st) n\<rparr>)"

definition apply_entry :: "arrow_lib \<Rightarrow> partition_state \<Rightarrow> log_entry \<Rightarrow> partition_state result" where
  "apply_entry A st e =
     (case entry_mutation e of
        MDdl _ \<Rightarrow> Inl Corruption
      | MInsert ipc \<Rightarrow> rbind (decode_ipc A ipc) (\<lambda>b. Inr (apply_rows A b (lsn e) st))
      | MUpsert ipc \<Rightarrow> rbind (decode_ipc A ipc) (\<lambda>b. Inr (apply_rows A b (lsn e) st))
      | MDelete ks \<Rightarrow> Inr (apply_deletes ks (lsn e) st))"

definition facts_of :: "partition_state \<Rightarrow> segment_facts list" where
  "facts_of st = map (\<lambda>e. \<lparr>fact_id = seg_id (se_meta e), fact_rows = row_count (se_meta e),
     fact_bytes = seg_bytes (se_meta e), fact_suppressed = card (se_suppressed e)\<rparr>) (ps_segments st)"

section \<open>Opening\<close>

definition index_segment_rows :: "segment_entry \<Rightarrow> batch \<Rightarrow> key_index \<Rightarrow> key_index" where
  "index_segment_rows e b m =
     foldl (\<lambda>m row. if row \<in> se_suppressed e then m
                    else snd (ki_insert (key_at b [0..<num_columns b] row) (seg_locator (seg_id (se_meta e)) row) m))
       m [0..<num_rows b]"

definition rebuild_key_index ::
    "arrow_lib \<Rightarrow> fs_store \<Rightarrow> table_schema \<Rightarrow> partition_state \<Rightarrow> partition_state result" where
  "rebuild_key_index A s schema st =
     rbind (foldM (\<lambda>m e. rbind (read_segment A s (se_meta e) schema (Some (primary_key schema))) (\<lambda>b.
              Inr (index_segment_rows e b m))) (ps_key_index st) (ps_segments st)) (\<lambda>m.
     Inr (st\<lparr>ps_key_index := m\<rparr>))"

definition remove_orphans :: "fs_store \<Rightarrow> string \<Rightarrow> string list \<Rightarrow> fs_store result" where
  "remove_orphans s pre referenced =
     rbind (store_list s pre) (\<lambda>ks.
     foldM (\<lambda>s k. if k \<in> set referenced then Inr s else store_delete s k) s ks)"

definition partition_open ::
    "storage_lib \<Rightarrow> fs_store \<Rightarrow> string \<Rightarrow> string \<Rightarrow> table_schema \<Rightarrow> nat \<Rightarrow> storage_config \<Rightarrow> part_st result" where
  "partition_open L s t d schema part cfg =
     (let table = tname schema; mkey = manifest_key t d table part; wkey = wal_key t d table part in
      rbind (map_err (\<lambda>_. Unsupported) (path_for wkey)) (\<lambda>wal_path.
      rbind (manifest_load L s mkey) (\<lambda>loaded.
      let mf = (case loaded of Some m \<Rightarrow> m | None \<Rightarrow> new_manifest part (version schema)) in
      rbind (remove_orphans s (partition_prefix t d table part @ ''/segments'') (segment_keys mf)) (\<lambda>s.
      rbind (mapM (\<lambda>m. rmap (\<lambda>b. \<lparr>se_meta = m, se_suppressed = b\<rparr>) (suppressed_bitmap L mf (seg_id m)))
              (mf_segments mf)) (\<lambda>segments.
      let segments = sort_key (\<lambda>e. seg_id (se_meta e)) segments;
          st = \<lparr>ps_schema = schema, ps_memtable = mt_new schema, ps_mem_suppressed = {},
                ps_segments = segments, ps_key_index = [], ps_applied_lsn = mf_applied_lsn mf,
                ps_last_lsn = mf_applied_lsn mf, ps_next_segment = mf_next_segment mf\<rparr> in
      rbind (if is_append_only schema then Inr st else rebuild_key_index (sl_arrow L) s schema st) (\<lambda>st.
      rbind (log_open (sl_wal L) s wal_path) (\<lambda>(s, recovered).
      let log = advance_to (rec_store recovered) (mf_applied_lsn mf) in
      rbind (foldM (apply_entry (sl_arrow L)) st
              (filter (\<lambda>e. mf_applied_lsn mf < lsn e) (rec_entries recovered))) (\<lambda>st.
      Inr (s, \<lparr>pt_id = part, pt_tenant = t, pt_database = d, pt_table = table, pt_manifest_key = mkey,
               pt_log = log, pt_state = st, pt_config = cfg\<rparr>)))))))))"

section \<open>Writing\<close>

definition with_state :: "partition \<Rightarrow> partition_state \<Rightarrow> partition" where
  "with_state p st = p\<lparr>pt_state := st\<rparr>"

definition should_flush :: "partition \<Rightarrow> bool" where
  "should_flush p \<longleftrightarrow>
     memtable_max_rows (pt_config p) \<le> mt_rows (ps_memtable (pt_state p)) \<or>
     memtable_max_bytes (pt_config p) \<le> mt_bytes (ps_memtable (pt_state p))"

definition pt_segment_key :: "partition \<Rightarrow> nat \<Rightarrow> string" where
  "pt_segment_key p i = segment_key (pt_tenant p) (pt_database p) (pt_table p) (pt_id p) i"

definition manifest_of :: "storage_lib \<Rightarrow> partition \<Rightarrow> manifest" where
  "manifest_of L p =
     (let st = pt_state p;
          m = (new_manifest (pt_id p) (version (ps_schema st)))
                \<lparr>mf_applied_lsn := ps_applied_lsn st, mf_next_segment := ps_next_segment st\<rparr>
      in foldl (\<lambda>m e. set_suppressed L (m\<lparr>mf_segments := mf_segments m @ [se_meta e]\<rparr>)
                        (seg_id (se_meta e)) (se_suppressed e)) m (ps_segments st))"

definition commit_manifest :: "storage_lib \<Rightarrow> part_st \<Rightarrow> fs_store result" where
  "commit_manifest L st = manifest_save L (fst st) (pt_manifest_key (snd st)) (manifest_of L (snd st))"

definition take_rows :: "arrow_lib \<Rightarrow> batch \<Rightarrow> nat list \<Rightarrow> batch result" where
  "take_rows A b is = take_batch A b is"

definition live_ordinals :: "batch \<Rightarrow> nat set \<Rightarrow> nat list" where
  "live_ordinals b dead = filter (\<lambda>i. i \<notin> dead) [0..<num_rows b]"

definition survivors :: "arrow_lib \<Rightarrow> batch \<Rightarrow> nat list \<Rightarrow> batch result" where
  "survivors A b keep = (if length keep = num_rows b then Inr b else take_rows A b keep)"

text \<open>The merge of \<open>compact_locked\<close>: the inputs with their live rows and ordinals.\<close>

definition kept_rows ::
    "storage_lib \<Rightarrow> fs_store \<Rightarrow> table_schema \<Rightarrow> segment_entry list \<Rightarrow> (nat \<times> batch \<times> nat list) list result" where
  "kept_rows L s schema inputs =
     rmap concat (mapM (\<lambda>e.
       rbind (read_segment (sl_arrow L) s (se_meta e) schema (Some (column_names schema))) (\<lambda>b.
       let keep = live_ordinals b (se_suppressed e) in
       if keep = [] then Inr []
       else rmap (\<lambda>sv. [(seg_id (se_meta e), sv, keep)]) (survivors (sl_arrow L) b keep))) inputs)"

definition merge_batches :: "arrow_lib \<Rightarrow> batch list \<Rightarrow> batch result" where
  "merge_batches A bs = (case bs of [b] \<Rightarrow> Inr b | _ \<Rightarrow> concat_batches A (bfields (hd bs)) bs)"

text \<open>The moves of the merge: per input row its key, its old and its new address.\<close>

definition merge_moves :: "nat list \<Rightarrow> nat \<Rightarrow> (nat \<times> batch \<times> nat list) list \<Rightarrow> (row_key \<times> locator \<times> locator) list" where
  "merge_moves pk new_id kept =
     (let rows = concat (map (\<lambda>(old_id, sv, keep).
            map (\<lambda>(row, old). (key_at sv pk row, seg_locator old_id old)) (enumerate 0 keep)) kept)
      in map (\<lambda>(n, k, from). (k, from, seg_locator new_id n)) (enumerate 0 rows))"

definition relocate_all :: "(row_key \<times> locator \<times> locator) list \<Rightarrow> key_index \<Rightarrow> key_index" where
  "relocate_all moves m = foldl (\<lambda>m (k, from, to). relocate k from to m) m moves"

fun delete_all :: "fs_store \<Rightarrow> string list \<Rightarrow> unit result \<times> fs_store" where
  "delete_all s [] = (Inr (), s)"
| "delete_all s (k # ks) =
     (case store_delete s k of Inl e \<Rightarrow> (Inl e, s) | Inr s \<Rightarrow> delete_all s ks)"

definition compact_inputs :: "nat list \<Rightarrow> partition_state \<Rightarrow> segment_entry list" where
  "compact_inputs ids state = sort_key (\<lambda>e. seg_id (se_meta e))
     (List.map_filter (\<lambda>i. find (\<lambda>e. seg_id (se_meta e) = i) (ps_segments state)) ids)"

definition write_merged ::
    "storage_lib \<Rightarrow> part_st \<Rightarrow> (nat \<times> batch \<times> nat list) list \<Rightarrow> (fs_store \<times> segment_entry option) result" where
  "write_merged L st kept =
     (let (s, p) = st; new_id = ps_next_segment (pt_state p) in
      if kept = [] then Inr (s, None)
      else rbind (merge_batches (sl_arrow L) (map (\<lambda>(_, b, _). b) kept)) (\<lambda>merged.
           rbind (write_segment (sl_math L) (sl_arrow L) s (pt_segment_key p new_id) new_id (ps_schema (pt_state p)) merged)
             (\<lambda>(s, m). Inr (s, Some \<lparr>se_meta = m, se_suppressed = {}\<rparr>))))"

definition replace_inputs ::
    "segment_entry list \<Rightarrow> (nat \<times> batch \<times> nat list) list \<Rightarrow> segment_entry option \<Rightarrow> partition_state \<Rightarrow> partition_state" where
  "replace_inputs inputs kept new_entry state =
     (let new_id = ps_next_segment state; schema = ps_schema state;
          index = (if kept \<noteq> [] \<and> \<not> is_append_only schema
            then relocate_all (merge_moves (pk_indices schema) new_id kept) (ps_key_index state)
            else ps_key_index state);
          merged_ids = set (map (\<lambda>e. seg_id (se_meta e)) inputs);
          rest = filter (\<lambda>e. seg_id (se_meta e) \<notin> merged_ids) (ps_segments state)
            @ (case new_entry of None \<Rightarrow> [] | Some e \<Rightarrow> [e])
      in state\<lparr>ps_key_index := index, ps_segments := sort_key (\<lambda>e. seg_id (se_meta e)) rest,
           ps_next_segment := new_id + 1\<rparr>)"

definition compact_locked :: "storage_lib \<Rightarrow> nat list \<Rightarrow> part_st \<Rightarrow> nat option result \<times> part_st" where
  "compact_locked L ids st =
     (let (s, p) = st; inputs = compact_inputs ids (pt_state p) in
      if inputs = [] then (Inr None, st)
      else case kept_rows L s (ps_schema (pt_state p)) inputs of
        Inl e \<Rightarrow> (Inl e, st)
      | Inr kept \<Rightarrow>
        (case write_merged L (s, p) kept of
           Inl e \<Rightarrow> (Inl e, st)
         | Inr (s, new_entry) \<Rightarrow>
           let new_id = ps_next_segment (pt_state p);
               p = with_state p (replace_inputs inputs kept new_entry (pt_state p))
           in (case commit_manifest L (s, p) of
                 Inl e \<Rightarrow> (Inl e, (s, p))
               | Inr s \<Rightarrow>
                 (case delete_all s (map (\<lambda>e. seg_key (se_meta e)) inputs) of
                    (Inl e, s) \<Rightarrow> (Inl e, (s, p))
                  | (Inr _, s) \<Rightarrow> (Inr (Some new_id), (s, p))))))"

definition auto_compaction :: "storage_lib \<Rightarrow> part_st \<Rightarrow> unit result \<times> part_st" where
  "auto_compaction L st =
     (let cfg = pt_config (snd st); ids = select (facts_of (pt_state (snd st))) (cfg_compaction cfg)
      in if auto_compact cfg \<and> ids \<noteq> []
         then (case compact_locked L ids st of (r, st) \<Rightarrow> (rmap (\<lambda>_. ()) r, st))
         else (Inr (), st))"

text \<open>The tail of \<open>flush_locked\<close>: publish the manifest, drop the log prefix, compact.\<close>

definition checkpoint :: "storage_lib \<Rightarrow> nat option \<Rightarrow> part_st \<Rightarrow> nat option result \<times> part_st" where
  "checkpoint L created st =
     (let (s, p) = st; state = pt_state p; state = state\<lparr>ps_applied_lsn := ps_last_lsn state\<rparr>;
          p = with_state p state
      in case commit_manifest L (s, p) of
           Inl e \<Rightarrow> (Inl e, (s, p))
         | Inr s \<Rightarrow>
           (case truncate_prefix (sl_wal L) (s, pt_log p) (ps_applied_lsn state) of
              Inl e \<Rightarrow> (Inl e, (s, p))
            | Inr (s, lg) \<Rightarrow>
              (case auto_compaction L (s, p\<lparr>pt_log := lg\<rparr>) of
                 (Inl e, st) \<Rightarrow> (Inl e, st)
               | (Inr _, st) \<Rightarrow> (Inr created, st))))"

definition clear_memtable :: "partition_state \<Rightarrow> partition_state" where
  "clear_memtable st = st\<lparr>ps_memtable := mt_clear (ps_memtable st), ps_mem_suppressed := {}\<rparr>"

text \<open>The middle of \<open>flush_locked\<close>: the live memtable rows become a segment.\<close>

definition flush_segment :: "storage_lib \<Rightarrow> batch \<Rightarrow> nat list \<Rightarrow> part_st \<Rightarrow> (nat \<times> part_st) result" where
  "flush_segment L b keep st =
     (let (s, p) = st; state = pt_state p; schema = ps_schema state; sid = ps_next_segment state in
      rbind (survivors (sl_arrow L) b keep) (\<lambda>seg_batch.
      rbind (write_segment (sl_math L) (sl_arrow L) s (pt_segment_key p sid) sid schema seg_batch) (\<lambda>(s, m).
      let index = (if is_append_only schema then ps_key_index state
            else relocate_all (map (\<lambda>(new, old).
              (key_at b (pk_indices schema) old, mem_locator old, seg_locator sid new)) (enumerate 0 keep))
              (ps_key_index state));
          state = state\<lparr>ps_key_index := index,
            ps_segments := ps_segments state @ [\<lparr>se_meta = m, se_suppressed = {}\<rparr>],
            ps_next_segment := sid + 1\<rparr>
      in Inr (sid, (s, with_state p state)))))"

definition flush_locked :: "storage_lib \<Rightarrow> part_st \<Rightarrow> nat option result \<times> part_st" where
  "flush_locked L st =
     (let (s, p) = st; state = pt_state p
      in case mt_concat (sl_arrow L) (ps_memtable state) of
           Inl e \<Rightarrow> (Inl e, st)
         | Inr None \<Rightarrow>
             if ps_last_lsn state = ps_applied_lsn state then (Inr None, st) else checkpoint L None st
         | Inr (Some b) \<Rightarrow>
             let keep = live_ordinals b (ps_mem_suppressed state) in
             if keep = [] then checkpoint L None (s, with_state p (clear_memtable state))
             else (case flush_segment L b keep st of
                     Inl e \<Rightarrow> (Inl e, st)
                   | Inr (sid, (s, p)) \<Rightarrow>
                       checkpoint L (Some sid) (s, with_state p (clear_memtable (pt_state p)))))"

definition append_rows :: "storage_lib \<Rightarrow> batch \<Rightarrow> bool \<Rightarrow> part_st \<Rightarrow> nat result \<times> part_st" where
  "append_rows L b upsert st =
     (let (s, p) = st in
      case encode_ipc (sl_arrow L) b of
        Inl e \<Rightarrow> (Inl e, st)
      | Inr ipc \<Rightarrow>
          (case log_append (sl_wal L) (s, pt_log p) (if upsert then MUpsert ipc else MInsert ipc) of
             (Inl e, (s, lg)) \<Rightarrow> (Inl e, (s, p\<lparr>pt_log := lg\<rparr>))
           | (Inr n, (s, lg)) \<Rightarrow>
               let p = (p\<lparr>pt_log := lg\<rparr>)\<lparr>pt_state := apply_rows (sl_arrow L) b n (pt_state p)\<rparr>
               in if should_flush p
                  then (case flush_locked L (s, p) of
                          (Inl e, st) \<Rightarrow> (Inl e, st)
                        | (Inr flushed, st) \<Rightarrow> (Inr (if flushed = None then 0 else 1), st))
                  else (Inr 0, (s, p))))"

definition delete_keys :: "storage_lib \<Rightarrow> row_key list \<Rightarrow> part_st \<Rightarrow> nat result \<times> part_st" where
  "delete_keys L ks st =
     (let (s, p) = st; present = filter (ki_contains (ps_key_index (pt_state p))) ks
      in if present = [] then (Inr 0, st)
         else (case log_append (sl_wal L) (s, pt_log p) (MDelete present) of
                 (Inl e, (s, lg)) \<Rightarrow> (Inl e, (s, p\<lparr>pt_log := lg\<rparr>))
               | (Inr n, (s, lg)) \<Rightarrow>
                   (Inr (length present),
                    (s, (p\<lparr>pt_log := lg\<rparr>)\<lparr>pt_state := apply_deletes present n (pt_state p)\<rparr>))))"

definition compact :: "storage_lib \<Rightarrow> part_st \<Rightarrow> nat option result \<times> part_st" where
  "compact L st =
     (let ids = select (facts_of (pt_state (snd st))) (cfg_compaction (pt_config (snd st)))
      in if ids = [] then (Inr None, st) else compact_locked L ids st)"

definition set_partition_schema :: "storage_lib \<Rightarrow> table_schema \<Rightarrow> part_st \<Rightarrow> unit result \<times> part_st" where
  "set_partition_schema L schema st =
     (let (s, p) = st; state = pt_state p;
          p = with_state p (state\<lparr>ps_schema := schema, ps_memtable := mt_set_schema (ps_memtable state) schema\<rparr>)
      in case commit_manifest L (s, p) of
           Inl e \<Rightarrow> (Inl e, (s, p))
         | Inr s \<Rightarrow> (Inr (), (s, p)))"

section \<open>Snapshots\<close>

record partition_snapshot =
  sn_partition :: nat
  sn_schema :: table_schema
  sn_memtable :: "batch list"
  sn_mem_suppressed :: "nat set"
  sn_segments :: "segment_entry list"
  sn_applied_lsn :: nat

definition snapshot :: "partition \<Rightarrow> partition_snapshot" where
  "snapshot p =
     (let st = pt_state p in
      \<lparr>sn_partition = pt_id p, sn_schema = ps_schema st, sn_memtable = mt_batches (ps_memtable st),
       sn_mem_suppressed = ps_mem_suppressed st, sn_segments = ps_segments st,
       sn_applied_lsn = ps_applied_lsn st\<rparr>)"

definition visible_rows :: "partition_snapshot \<Rightarrow> nat" where
  "visible_rows sn =
     (sum_list (map num_rows (sn_memtable sn)) - card (sn_mem_suppressed sn)) +
     sum_list (map entry_visible_rows (sn_segments sn))"

definition scan_bytes :: "arrow_lib \<Rightarrow> partition_snapshot \<Rightarrow> nat" where
  "scan_bytes A sn =
     sum_list (map (memory_size A) (sn_memtable sn)) +
     sum_list (map (\<lambda>e. seg_bytes (se_meta e)) (sn_segments sn))"

end
