(* ===== verification/PartitionView.thy ===== *)
theory PartitionView
  imports Partition
begin

text \<open>
  What a partition holds: its visible rows with their addresses, the invariant of the key index,
  and the effect of index updates, upserts, deletes, flush moves and merges on the visible rows.
  The rows of the segments (\<open>R\<close>) and of the memtable (\<open>M\<close>) are arguments, so the lemmas are about
  the addresses only.
\<close>

section \<open>Visible rows\<close>

definition live :: "(nat \<Rightarrow> locator) \<Rightarrow> row list \<Rightarrow> nat set \<Rightarrow> (locator \<times> row) list" where
  "live mk rows dead = map (\<lambda>i. (mk i, rows ! i)) (filter (\<lambda>i. i \<notin> dead) [0..<length rows])"

definition seg_live :: "(nat \<Rightarrow> row list) \<Rightarrow> segment_entry \<Rightarrow> (locator \<times> row) list" where
  "seg_live R e = live (seg_locator (seg_id (se_meta e))) (R (seg_id (se_meta e))) (se_suppressed e)"

definition seg_visible :: "(nat \<Rightarrow> row list) \<Rightarrow> segment_entry list \<Rightarrow> (locator \<times> row) list" where
  "seg_visible R es = concat (map (seg_live R) es)"

definition visible :: "(nat \<Rightarrow> row list) \<Rightarrow> row list \<Rightarrow> partition_state \<Rightarrow> (locator \<times> row) list" where
  "visible R M st = seg_visible R (ps_segments st) @ live mem_locator M (ps_mem_suppressed st)"

text \<open>Segments are addressed by distinct numbers and only existing rows are suppressed.\<close>

definition addr_ok :: "(nat \<Rightarrow> row list) \<Rightarrow> row list \<Rightarrow> partition_state \<Rightarrow> bool" where
  "addr_ok R M st \<longleftrightarrow> distinct (map (\<lambda>e. seg_id (se_meta e)) (ps_segments st)) \<and>
     ps_mem_suppressed st \<subseteq> {..<length M} \<and>
     (\<forall>e \<in> set (ps_segments st). se_suppressed e \<subseteq> {..<length (R (seg_id (se_meta e)))})"

text \<open>The key index maps each key to the one visible row that has it.\<close>

definition index_ok :: "nat list \<Rightarrow> (locator \<times> row) list \<Rightarrow> key_index \<Rightarrow> bool" where
  "index_ok pk V m \<longleftrightarrow> (\<forall>k l. map_of m k = Some l \<longleftrightarrow> (\<exists>r. (l, r) \<in> set V \<and> row_key pk r = k))"

section \<open>The specification\<close>

definition spec_upsert_row :: "nat list \<Rightarrow> row list \<Rightarrow> row \<Rightarrow> row list" where
  "spec_upsert_row pk V r = filter (\<lambda>v. row_key pk v \<noteq> row_key pk r) V @ [r]"

definition spec_append :: "nat list \<Rightarrow> row list \<Rightarrow> row list \<Rightarrow> row list" where
  "spec_append pk V rs = (if pk = [] then V @ rs else foldl (spec_upsert_row pk) V rs)"

definition spec_delete :: "nat list \<Rightarrow> row list \<Rightarrow> row_key list \<Rightarrow> row list" where
  "spec_delete pk V ks = (if pk = [] then V else filter (\<lambda>v. row_key pk v \<notin> set ks) V)"

section \<open>Lemmas\<close>

lemma locator_simps [simp]:
  "loc_source (mem_locator i) = Memtable" "loc_ordinal (mem_locator i) = i"
  "loc_source (seg_locator j i) = SegmentSource j" "loc_ordinal (seg_locator j i) = i"
  "mem_locator i \<noteq> seg_locator j i'" "seg_locator j i' \<noteq> mem_locator i"
  "mem_locator i = mem_locator k \<longleftrightarrow> i = k"
  "seg_locator j i = seg_locator j' i' \<longleftrightarrow> j = j' \<and> i = i'"
  by (auto simp: mem_locator_def seg_locator_def)

lemma in_live: "(l, r) \<in> set (live mk rows dead) \<longleftrightarrow> (\<exists>i < length rows. i \<notin> dead \<and> l = mk i \<and> r = rows ! i)"
  by (auto simp: live_def)

lemma in_seg_visible:
  "(l, r) \<in> set (seg_visible R es) \<longleftrightarrow> (\<exists>e \<in> set es. \<exists>i < length (R (seg_id (se_meta e))).
     i \<notin> se_suppressed e \<and> l = seg_locator (seg_id (se_meta e)) i \<and> r = R (seg_id (se_meta e)) ! i)"
  by (auto simp: seg_visible_def seg_live_def in_live)

lemma seg_visible_simps [simp]:
  "seg_visible R [] = []" "seg_visible R (e # es) = seg_live R e @ seg_visible R es"
  "seg_visible R (es @ fs) = seg_visible R es @ seg_visible R fs"
  by (simp_all add: seg_visible_def)

lemma live_Nil [simp]: "live mk [] dead = []"
  by (simp add: live_def)

lemma live_all: "live mk rows {} = map (\<lambda>i. (mk i, rows ! i)) [0..<length rows]"
  by (simp add: live_def)

lemma live_snoc: "dead \<subseteq> {..<length rows} \<Longrightarrow> live mk (rows @ [r]) dead = live mk rows dead @ [(mk (length rows), r)]"
  by (auto simp: live_def nth_append intro!: map_cong)

lemma live_insert:
  assumes "inj mk"
  shows "live mk rows (insert i dead) = filter (\<lambda>(l, _). l \<noteq> mk i) (live mk rows dead)"
  using assms by (auto simp: live_def filter_map comp_def inj_eq intro!: arg_cong [where f = "map _"] filter_cong)

lemma inj_mem_locator [simp]: "inj mem_locator" and inj_seg_locator [simp]: "inj (seg_locator j)"
  by (auto simp: inj_on_def)

lemma live_no_seg: "filter (\<lambda>(l, _). l \<noteq> seg_locator j i) (live mem_locator M dead) = live mem_locator M dead"
  by (auto simp: live_def filter_id_conv)

lemma seg_visible_no_mem:
  "filter (\<lambda>(l, _). l \<noteq> mem_locator i) (seg_visible R es) = seg_visible R es"
  by (auto simp: in_seg_visible filter_id_conv)

lemma suppress_entry_ids [simp]:
  "map (\<lambda>e. seg_id (se_meta e)) (suppress_entry j i es) = map (\<lambda>e. seg_id (se_meta e)) es"
  by (induction es) auto

lemma seg_visible_other:
  "j \<notin> set (map (\<lambda>e. seg_id (se_meta e)) es) \<Longrightarrow>
   filter (\<lambda>(l, _). l \<noteq> seg_locator j i) (seg_visible R es) = seg_visible R es"
  by (auto simp: in_seg_visible filter_id_conv)

lemma seg_visible_suppress:
  "distinct (map (\<lambda>e. seg_id (se_meta e)) es) \<Longrightarrow>
   seg_visible R (suppress_entry j i es) = filter (\<lambda>(l, _). l \<noteq> seg_locator j i) (seg_visible R es)"
proof (induction es)
  case (Cons e es)
  show ?case
  proof (cases "seg_id (se_meta e) = j")
    case True
    then show ?thesis
      using Cons.prems seg_visible_other [of j es i R] by (simp add: seg_live_def live_insert)
  next
    case False
    then have "filter (\<lambda>(l, _). l \<noteq> seg_locator j i) (seg_live R e) = seg_live R e"
      by (auto simp: seg_live_def in_live filter_id_conv)
    then show ?thesis using Cons False by simp
  qed
qed simp

lemma suppress_fields [simp]:
  "ps_key_index (suppress l st) = ps_key_index st" "ps_schema (suppress l st) = ps_schema st"
  "ps_memtable (suppress l st) = ps_memtable st" "ps_applied_lsn (suppress l st) = ps_applied_lsn st"
  "ps_last_lsn (suppress l st) = ps_last_lsn st" "ps_next_segment (suppress l st) = ps_next_segment st"
  by (simp_all add: suppress_def split: source.split)

lemma visible_cong:
  "ps_segments st' = ps_segments st \<Longrightarrow> ps_mem_suppressed st' = ps_mem_suppressed st \<Longrightarrow>
   visible R M st' = visible R M st"
  by (simp add: visible_def)

lemma visible_suppress:
  assumes "addr_ok R M st"
  shows "visible R M (suppress l st) = filter (\<lambda>(l', _). l' \<noteq> l) (visible R M st)"
proof (cases "loc_source l")
  case Memtable
  then obtain i where l: "l = mem_locator i" by (cases l) (simp add: mem_locator_def)
  then show ?thesis
    using seg_visible_no_mem [of i R "ps_segments st"]
    by (simp add: visible_def suppress_def live_insert)
next
  case (SegmentSource j)
  then obtain i where l: "l = seg_locator j i" by (cases l) (simp add: seg_locator_def)
  then show ?thesis
    using assms seg_visible_suppress [of "ps_segments st" R j i] live_no_seg [of j i M]
    by (simp add: visible_def suppress_def addr_ok_def)
qed

lemma suppress_entry_metas [simp]: "map se_meta (suppress_entry j i es) = map se_meta es"
  by (induction es) auto

lemma suppress_metas [simp]: "map se_meta (ps_segments (suppress l st)) = map se_meta (ps_segments st)"
  by (simp add: suppress_def split: source.split)

lemma suppress_entry_bounds:
  "\<forall>e \<in> set es. se_suppressed e \<subseteq> {..<length (R (seg_id (se_meta e)))} \<Longrightarrow> i < length (R j) \<Longrightarrow>
   \<forall>e \<in> set (suppress_entry j i es). se_suppressed e \<subseteq> {..<length (R (seg_id (se_meta e)))}"
  by (induction es) auto

lemma addr_ok_suppress:
  assumes "addr_ok R M st" "(l, r) \<in> set (visible R M st)"
  shows "addr_ok R M (suppress l st)"
proof (cases "loc_source l")
  case Memtable
  then obtain i where l: "l = mem_locator i" by (cases l) (simp add: mem_locator_def)
  then have "i < length M" using assms(2) by (auto simp: visible_def in_live in_seg_visible)
  then show ?thesis using assms(1) l by (simp add: addr_ok_def suppress_def)
next
  case (SegmentSource j)
  then obtain i where l: "l = seg_locator j i" by (cases l) (simp add: seg_locator_def)
  then have "i < length (R j)" using assms(2) by (auto simp: visible_def in_live in_seg_visible)
  then show ?thesis
    using assms(1) l suppress_entry_bounds [of "ps_segments st" R i j] by (simp add: addr_ok_def suppress_def)
qed

lemma addr_ok_snoc: "addr_ok R M st \<Longrightarrow> addr_ok R (M @ [r]) st"
  by (auto simp: addr_ok_def)

lemma visible_snoc: "addr_ok R M st \<Longrightarrow> visible R (M @ [r]) st = visible R M st @ [(mem_locator (length M), r)]"
  by (simp add: visible_def addr_ok_def live_snoc)

lemma visible_mem_bound: "(mem_locator i, r) \<in> set (visible R M st) \<Longrightarrow> i < length M"
  by (auto simp: visible_def in_live in_seg_visible)

lemma index_keys_unique:
  "index_ok pk V m \<Longrightarrow> (l, r) \<in> set V \<Longrightarrow> (l', r') \<in> set V \<Longrightarrow> row_key pk r = row_key pk r' \<Longrightarrow> l = l'"
  unfolding index_ok_def by (metis option.inject)

lemma visible_functional: "addr_ok R M st \<Longrightarrow> (l, r) \<in> set (visible R M st) \<Longrightarrow> (l, r') \<in> set (visible R M st) \<Longrightarrow> r = r'"
  by (auto simp: visible_def in_live in_seg_visible)

lemma filter_key_loc:
  assumes "index_ok pk V m" "map_of m k = Some l" "\<And>r r'. (l, r) \<in> set V \<Longrightarrow> (l, r') \<in> set V \<Longrightarrow> r = r'"
  shows "filter (\<lambda>(l', _). l' \<noteq> l) V = filter (\<lambda>(_, r). row_key pk r \<noteq> k) V"
proof (rule filter_cong [OF refl])
  fix x assume x: "x \<in> set V"
  obtain r0 where r0: "(l, r0) \<in> set V" "row_key pk r0 = k"
    using assms(1,2) unfolding index_ok_def by metis
  obtain l' r where lr: "x = (l', r)" by (cases x)
  have "l' = l \<longleftrightarrow> row_key pk r = k"
    using index_keys_unique [OF assms(1) r0(1)] r0 x lr assms(3) by blast
  then show "(case x of (l', _) \<Rightarrow> l' \<noteq> l) = (case x of (_, r) \<Rightarrow> row_key pk r \<noteq> k)" using lr by simp
qed

lemma index_absent: "index_ok pk V m \<Longrightarrow> map_of m k = None \<Longrightarrow> filter (\<lambda>(_, r). row_key pk r \<noteq> k) V = V"
  unfolding index_ok_def by (auto simp: filter_id_conv) (metis option.distinct(1))

lemma visible_suppress_key:
  assumes "addr_ok R M st" "index_ok pk (visible R M st) m" "map_of m k = l"
  shows "visible R M (suppress_opt l st) = filter (\<lambda>(_, r). row_key pk r \<noteq> k) (visible R M st)"
proof (cases l)
  case None
  then show ?thesis using index_absent [OF assms(2)] assms(3) by (simp add: suppress_opt_def)
next
  case (Some l0)
  then have "filter (\<lambda>(l', _). l' \<noteq> l0) (visible R M st) = filter (\<lambda>(_, r). row_key pk r \<noteq> k) (visible R M st)"
    using filter_key_loc [OF assms(2)] assms(3) visible_functional [OF assms(1)] by blast
  then show ?thesis using Some visible_suppress [OF assms(1)] by (simp add: suppress_opt_def)
qed

lemma addr_ok_suppress_key:
  assumes "addr_ok R M st" "index_ok pk (visible R M st) m" "map_of m k = l"
  shows "addr_ok R M (suppress_opt l st)"
  using assms addr_ok_suppress [OF assms(1)]
  by (fastforce simp: suppress_opt_def index_ok_def split: option.split)

lemma addr_ok_index [simp]: "addr_ok R M (st\<lparr>ps_key_index := m\<rparr>) = addr_ok R M st"
  by (simp add: addr_ok_def)

lemma visible_index [simp]: "visible R M (st\<lparr>ps_key_index := m\<rparr>) = visible R M st"
  by (simp add: visible_def)

lemma suppress_opt_fields [simp]:
  "ps_key_index (suppress_opt l st) = ps_key_index st" "ps_schema (suppress_opt l st) = ps_schema st"
  "ps_memtable (suppress_opt l st) = ps_memtable st" "ps_applied_lsn (suppress_opt l st) = ps_applied_lsn st"
  "ps_last_lsn (suppress_opt l st) = ps_last_lsn st" "ps_next_segment (suppress_opt l st) = ps_next_segment st"
  "map se_meta (ps_segments (suppress_opt l st)) = map se_meta (ps_segments st)"
  by (simp_all add: suppress_opt_def split: option.split)

definition view_ok :: "nat list \<Rightarrow> (nat \<Rightarrow> row list) \<Rightarrow> row list \<Rightarrow> partition_state \<Rightarrow> bool" where
  "view_ok pk R M st \<longleftrightarrow> addr_ok R M st \<and> index_ok pk (visible R M st) (ps_key_index st)"

lemma index_ok_delete:
  "index_ok pk V m \<Longrightarrow> index_ok pk (filter (\<lambda>(_, r). row_key pk r \<noteq> k) V) (AList.delete k m)"
  by (auto simp: index_ok_def delete_conv')

lemma index_ok_update:
  assumes "index_ok pk V m" "row_key pk r = k" "\<And>r. (l, r) \<notin> set V"
  shows "index_ok pk (filter (\<lambda>(_, r). row_key pk r \<noteq> k) V @ [(l, r)]) (AList.update k l m)"
  using assms unfolding index_ok_def update_conv' by (auto split: if_splits)

text \<open>One row indexed at the next memtable address, and one key removed.\<close>

lemma index_row_view:
  fixes r :: row and pk :: "nat list"
  defines "k \<equiv> row_key pk r"
  assumes "view_ok pk R M st"
  shows "view_ok pk R (M @ [r]) (index_row k (mem_locator (length M)) st)"
    and "visible R (M @ [r]) (index_row k (mem_locator (length M)) st) =
      filter (\<lambda>(_, v). row_key pk v \<noteq> k) (visible R M st) @ [(mem_locator (length M), r)]"
proof -
  let ?m = "AList.update k (mem_locator (length M)) (ps_key_index st)"
  let ?l = "map_of (ps_key_index st) k"
  have a: "addr_ok R M st" and x: "index_ok pk (visible R M st) (ps_key_index st)"
    using assms(2) by (simp_all add: view_ok_def)
  have i: "index_row k (mem_locator (length M)) st = suppress_opt ?l (st\<lparr>ps_key_index := ?m\<rparr>)"
    by (simp add: index_row_def ki_insert_def)
  have ok: "addr_ok R M (suppress_opt ?l (st\<lparr>ps_key_index := ?m\<rparr>))"
    using addr_ok_suppress_key [of R M "st\<lparr>ps_key_index := ?m\<rparr>" pk "ps_key_index st" k ?l] a x by simp
  have v: "visible R M (suppress_opt ?l (st\<lparr>ps_key_index := ?m\<rparr>)) = filter (\<lambda>(_, v). row_key pk v \<noteq> k) (visible R M st)"
    using visible_suppress_key [of R M "st\<lparr>ps_key_index := ?m\<rparr>" pk "ps_key_index st" k ?l] a x by simp
  show eq: "visible R (M @ [r]) (index_row k (mem_locator (length M)) st) =
      filter (\<lambda>(_, v). row_key pk v \<noteq> k) (visible R M st) @ [(mem_locator (length M), r)]"
    using visible_snoc [OF ok] v i by simp
  have "(mem_locator (length M), r') \<notin> set (visible R M st)" for r'
    using visible_mem_bound by fastforce
  then have "index_ok pk (filter (\<lambda>(_, v). row_key pk v \<noteq> k) (visible R M st) @ [(mem_locator (length M), r)]) ?m"
    using index_ok_update [OF x] k_def by simp
  then show "view_ok pk R (M @ [r]) (index_row k (mem_locator (length M)) st)"
    using addr_ok_snoc [OF ok] eq i by (simp add: view_ok_def)
qed

lemma delete_key_view:
  assumes "view_ok pk R M st"
  shows "view_ok pk R M (delete_key st k)"
    and "visible R M (delete_key st k) = filter (\<lambda>(_, v). row_key pk v \<noteq> k) (visible R M st)"
proof -
  let ?m = "AList.delete k (ps_key_index st)"
  let ?l = "map_of (ps_key_index st) k"
  have a: "addr_ok R M st" and x: "index_ok pk (visible R M st) (ps_key_index st)"
    using assms by (simp_all add: view_ok_def)
  have i: "delete_key st k = suppress_opt ?l (st\<lparr>ps_key_index := ?m\<rparr>)"
    by (simp add: delete_key_def ki_remove_def)
  show v: "visible R M (delete_key st k) = filter (\<lambda>(_, v). row_key pk v \<noteq> k) (visible R M st)"
    using visible_suppress_key [of R M "st\<lparr>ps_key_index := ?m\<rparr>" pk "ps_key_index st" k ?l] a x i by simp
  have "addr_ok R M (delete_key st k)"
    using addr_ok_suppress_key [of R M "st\<lparr>ps_key_index := ?m\<rparr>" pk "ps_key_index st" k ?l] a x i by simp
  then show "view_ok pk R M (delete_key st k)"
    using index_ok_delete [OF x] v i by (simp add: view_ok_def)
qed

section \<open>Replaying logged mutations\<close>

fun spec_apply :: "arrow_lib \<Rightarrow> nat list \<Rightarrow> row list \<Rightarrow> mutation \<Rightarrow> row list" where
  "spec_apply A pk V (MInsert ipc) = (case decode_ipc A ipc of Inr b \<Rightarrow> spec_append pk V (brows b) | Inl _ \<Rightarrow> V)"
| "spec_apply A pk V (MUpsert ipc) = (case decode_ipc A ipc of Inr b \<Rightarrow> spec_append pk V (brows b) | Inl _ \<Rightarrow> V)"
| "spec_apply A pk V (MDelete ks) = spec_delete pk V ks"
| "spec_apply A pk V (MDdl _) = V"

definition spec_replay :: "arrow_lib \<Rightarrow> nat list \<Rightarrow> row list \<Rightarrow> mutation list \<Rightarrow> row list" where
  "spec_replay A pk = foldl (spec_apply A pk)"

fun touched_keys :: "arrow_lib \<Rightarrow> nat list \<Rightarrow> mutation \<Rightarrow> row_key set" where
  "touched_keys A pk (MInsert ipc) = (case decode_ipc A ipc of Inr b \<Rightarrow> row_key pk ` set (brows b) | Inl _ \<Rightarrow> {})"
| "touched_keys A pk (MUpsert ipc) = (case decode_ipc A ipc of Inr b \<Rightarrow> row_key pk ` set (brows b) | Inl _ \<Rightarrow> {})"
| "touched_keys A pk (MDelete ks) = set ks"
| "touched_keys A pk (MDdl _) = {}"

definition untouched :: "arrow_lib \<Rightarrow> nat list \<Rightarrow> mutation list \<Rightarrow> row \<Rightarrow> bool" where
  "untouched A pk ms v \<longleftrightarrow> pk = [] \<or> (\<forall>m \<in> set ms. row_key pk v \<notin> touched_keys A pk m)"

lemma spec_upserts_split:
  "foldl (spec_upsert_row pk) (V @ W) rs =
   filter (\<lambda>v. row_key pk v \<notin> row_key pk ` set rs) V @ foldl (spec_upsert_row pk) W rs"
  by (induction rs arbitrary: V W) (auto simp: spec_upsert_row_def intro!: filter_cong)

lemma spec_apply_split:
  "spec_apply A pk (V @ W) m = filter (untouched A pk [m]) V @ spec_apply A pk W m"
  by (cases m)
    (auto simp: untouched_def spec_append_def spec_delete_def spec_upserts_split split: sum.splits intro!: filter_cong)

lemma spec_replay_simps [simp]:
  "spec_replay A pk V [] = V"
  "spec_replay A pk V (m # ms) = spec_replay A pk (spec_apply A pk V m) ms"
  "spec_replay A pk V (ms @ ms') = spec_replay A pk (spec_replay A pk V ms) ms'"
  by (simp_all add: spec_replay_def)

lemma spec_replay_split:
  "spec_replay A pk (V @ W) ms = filter (untouched A pk ms) V @ spec_replay A pk W ms"
proof (induction ms arbitrary: V W)
  case Nil
  then show ?case by (auto simp: untouched_def)
next
  case (Cons m ms)
  have "untouched A pk (m # ms) v \<longleftrightarrow> untouched A pk ms v \<and> untouched A pk [m] v" for v
    by (auto simp: untouched_def)
  then show ?case using Cons by (simp add: spec_apply_split conj_commute)
qed

lemma spec_replay_base: "spec_replay A pk V ms = filter (untouched A pk ms) V @ spec_replay A pk [] ms"
  using spec_replay_split [of A pk V "[]" ms] by simp

text \<open>Replaying over rows that already reflect the mutations changes nothing.\<close>

lemma spec_replay_idem:
  "spec_replay A pk (filter (untouched A pk ms) V) ms = spec_replay A pk V ms"
  using spec_replay_base [of A pk V ms] spec_replay_base [of A pk "filter (untouched A pk ms) V" ms] by simp

section \<open>Applying mutations\<close>

definition seg_part :: "(nat \<Rightarrow> row list) \<Rightarrow> partition_state \<Rightarrow> row list" where
  "seg_part R st = map snd (seg_visible R (ps_segments st))"

definition mem_part :: "row list \<Rightarrow> partition_state \<Rightarrow> row list" where
  "mem_part M st = map snd (live mem_locator M (ps_mem_suppressed st))"

definition contents :: "(nat \<Rightarrow> row list) \<Rightarrow> row list \<Rightarrow> partition_state \<Rightarrow> row list" where
  "contents R M st = seg_part R st @ mem_part M st"

text \<open>The invariant of the addresses, for keyed and for append-only tables.\<close>

definition state_ok :: "nat list \<Rightarrow> (nat \<Rightarrow> row list) \<Rightarrow> row list \<Rightarrow> partition_state \<Rightarrow> bool" where
  "state_ok pk R M st \<longleftrightarrow> addr_ok R M st \<and>
     (if pk = [] then ps_key_index st = [] else index_ok pk (visible R M st) (ps_key_index st))"

lemma state_ok_keyed: "pk \<noteq> [] \<Longrightarrow> state_ok pk R M st = view_ok pk R M st"
  by (simp add: state_ok_def view_ok_def)

lemma map_snd_filter: "map snd (filter (\<lambda>(_, v). P v) V) = filter P (map snd V)"
  by (induction V) auto

lemma visible_parts:
  "map snd (filter (\<lambda>(l, _). loc_source l \<noteq> Memtable) (visible R M st)) = seg_part R st"
  "map snd (filter (\<lambda>(l, _). loc_source l = Memtable) (visible R M st)) = mem_part M st"
proof -
  have "filter (\<lambda>(l, _). loc_source l \<noteq> Memtable) (seg_visible R es) = seg_visible R es"
    "filter (\<lambda>(l, _). loc_source l = Memtable) (seg_visible R es) = []" for es
    by (auto simp: in_seg_visible filter_id_conv filter_empty_conv)
  moreover have "filter (\<lambda>(l, _). loc_source l \<noteq> Memtable) (live mem_locator M d) = []"
    "filter (\<lambda>(l, _). loc_source l = Memtable) (live mem_locator M d) = live mem_locator M d" for d
    by (auto simp: in_live filter_id_conv filter_empty_conv)
  ultimately show "map snd (filter (\<lambda>(l, _). loc_source l \<noteq> Memtable) (visible R M st)) = seg_part R st"
    "map snd (filter (\<lambda>(l, _). loc_source l = Memtable) (visible R M st)) = mem_part M st"
    by (simp_all add: visible_def seg_part_def mem_part_def)
qed

lemma filter_parts:
  "map snd (filter (\<lambda>(l, _). Q l) (filter (\<lambda>(_, v). P v) V)) = filter P (map snd (filter (\<lambda>(l, _). Q l) V))"
  by (induction V) auto

lemma parts_filter:
  assumes "visible R M' st' = filter (\<lambda>(_, v). P v) (visible R M st)"
  shows "seg_part R st' = filter P (seg_part R st)" "mem_part M' st' = filter P (mem_part M st)"
  unfolding visible_parts [of R M' st', symmetric] assms filter_parts unfolding visible_parts by simp_all

lemma parts_snoc:
  assumes "visible R M' st' = filter (\<lambda>(_, v). P v) (visible R M st) @ [(mem_locator i, r)]"
  shows "seg_part R st' = filter P (seg_part R st)" "mem_part M' st' = filter P (mem_part M st) @ [r]"
  unfolding visible_parts [of R M' st', symmetric] assms filter_append map_append filter_parts
  unfolding visible_parts by simp_all

lemma index_row_parts:
  assumes "view_ok pk R M st"
  shows "seg_part R (index_row (row_key pk r) (mem_locator (length M)) st) =
      filter (\<lambda>v. row_key pk v \<noteq> row_key pk r) (seg_part R st)"
    "mem_part (M @ [r]) (index_row (row_key pk r) (mem_locator (length M)) st) =
      spec_upsert_row pk (mem_part M st) r"
  using parts_snoc [OF index_row_view(2) [OF assms]] by (simp_all add: spec_upsert_row_def)

lemma index_rows_view:
  fixes rs :: "row list" and pk :: "nat list" and R :: "nat \<Rightarrow> row list" and M :: "row list"
  defines "st' \<equiv> \<lambda>st n. foldl (\<lambda>st i. index_row (row_key pk (rs ! i)) (mem_locator (length M + i)) st) st [0..<n]"
  assumes "view_ok pk R M st" "n \<le> length rs"
  shows "view_ok pk R (M @ take n rs) (st' st n) \<and>
    seg_part R (st' st n) = filter (\<lambda>v. row_key pk v \<notin> row_key pk ` set (take n rs)) (seg_part R st) \<and>
    mem_part (M @ take n rs) (st' st n) = foldl (spec_upsert_row pk) (mem_part M st) (take n rs)"
  using assms(3)
proof (induction n)
  case 0
  then show ?case using assms(2) by (simp add: st'_def)
next
  case (Suc n)
  then have t: "take (Suc n) rs = take n rs @ [rs ! n]" by (simp add: take_Suc_conv_app_nth)
  have s: "st' st (Suc n) = index_row (row_key pk (rs ! n)) (mem_locator (length (M @ take n rs))) (st' st n)"
    using Suc.prems by (simp add: st'_def)
  have IH: "view_ok pk R (M @ take n rs) (st' st n)"
    "seg_part R (st' st n) = filter (\<lambda>v. row_key pk v \<notin> row_key pk ` set (take n rs)) (seg_part R st)"
    "mem_part (M @ take n rs) (st' st n) = foldl (spec_upsert_row pk) (mem_part M st) (take n rs)"
    using Suc by simp_all
  show ?case
    using index_row_view(1) [OF IH(1), of "rs ! n"] index_row_parts [OF IH(1), of "rs ! n"] IH(2,3)
    by (simp add: t s conj_commute flip: append_assoc)
qed

lemma index_rows_fields [simp]:
  "ps_schema (foldl (\<lambda>st i. index_row (k i) (l i) st) st xs) = ps_schema st"
  "ps_memtable (foldl (\<lambda>st i. index_row (k i) (l i) st) st xs) = ps_memtable st"
  "ps_applied_lsn (foldl (\<lambda>st i. index_row (k i) (l i) st) st xs) = ps_applied_lsn st"
  "ps_last_lsn (foldl (\<lambda>st i. index_row (k i) (l i) st) st xs) = ps_last_lsn st"
  "ps_next_segment (foldl (\<lambda>st i. index_row (k i) (l i) st) st xs) = ps_next_segment st"
  "map se_meta (ps_segments (foldl (\<lambda>st i. index_row (k i) (l i) st) st xs)) = map se_meta (ps_segments st)"
  by (induction xs arbitrary: st) (simp_all add: index_row_def ki_insert_def)

lemma delete_keys_fields [simp]:
  "ps_schema (foldl delete_key st ks) = ps_schema st"
  "ps_memtable (foldl delete_key st ks) = ps_memtable st"
  "ps_applied_lsn (foldl delete_key st ks) = ps_applied_lsn st"
  "ps_last_lsn (foldl delete_key st ks) = ps_last_lsn st"
  "ps_next_segment (foldl delete_key st ks) = ps_next_segment st"
  "map se_meta (ps_segments (foldl delete_key st ks)) = map se_meta (ps_segments st)"
  by (induction ks arbitrary: st) (simp_all add: delete_key_def ki_remove_def)

lemma state_ok_cong:
  "ps_segments st' = ps_segments st \<Longrightarrow> ps_mem_suppressed st' = ps_mem_suppressed st \<Longrightarrow>
   ps_key_index st' = ps_key_index st \<Longrightarrow> state_ok pk R M st' = state_ok pk R M st"
  using visible_cong [of st' st R M] by (simp add: state_ok_def addr_ok_def)

lemma parts_cong:
  "ps_segments st' = ps_segments st \<Longrightarrow> seg_part R st' = seg_part R st"
  "ps_mem_suppressed st' = ps_mem_suppressed st \<Longrightarrow> mem_part M st' = mem_part M st"
  by (simp_all add: seg_part_def mem_part_def)

lemma live_append:
  "dead \<subseteq> {..<length rows} \<Longrightarrow>
   live mk (rows @ rs) dead = live mk rows dead @ map (\<lambda>i. (mk (length rows + i), rs ! i)) [0..<length rs]"
proof (induction rs rule: rev_induct)
  case (snoc r rs)
  then have "dead \<subseteq> {..<length (rows @ rs)}" by auto
  then show ?case using live_snoc [of dead "rows @ rs" mk r] snoc by (simp add: nth_append)
qed simp

lemma mem_part_append: "addr_ok R M st \<Longrightarrow> mem_part (M @ rs) st = mem_part M st @ rs"
  by (simp add: mem_part_def addr_ok_def live_append comp_def map_nth)

lemma apply_rows_fields [simp]:
  "ps_schema (apply_rows A b n st) = ps_schema st"
  "ps_memtable (apply_rows A b n st) = mt_append A (ps_memtable st) b"
  "ps_applied_lsn (apply_rows A b n st) = ps_applied_lsn st"
  "ps_last_lsn (apply_rows A b n st) = max (ps_last_lsn st) n"
  "ps_next_segment (apply_rows A b n st) = ps_next_segment st"
  "map se_meta (ps_segments (apply_rows A b n st)) = map se_meta (ps_segments st)"
  by (simp_all add: apply_rows_def Let_def)

lemma apply_deletes_fields [simp]:
  "ps_schema (apply_deletes ks n st) = ps_schema st"
  "ps_memtable (apply_deletes ks n st) = ps_memtable st"
  "ps_applied_lsn (apply_deletes ks n st) = ps_applied_lsn st"
  "ps_last_lsn (apply_deletes ks n st) = max (ps_last_lsn st) n"
  "ps_next_segment (apply_deletes ks n st) = ps_next_segment st"
  "map se_meta (ps_segments (apply_deletes ks n st)) = map se_meta (ps_segments st)"
  by (simp_all add: apply_deletes_def)

text \<open>The keys an append replaces.\<close>

definition kept_by :: "nat list \<Rightarrow> row list \<Rightarrow> row \<Rightarrow> bool" where
  "kept_by pk rs = (\<lambda>v. pk = [] \<or> row_key pk v \<notin> row_key pk ` set rs)"

lemma apply_rows_view:
  fixes pk :: "nat list" and st :: partition_state
  defines "pk \<equiv> pk_indices (ps_schema st)"
  assumes "state_ok pk R M st" "mt_rows (ps_memtable st) = length M"
    "pk = [] \<longleftrightarrow> is_append_only (ps_schema st)"
  shows "state_ok pk R (M @ brows b) (apply_rows A b n st)"
    "seg_part R (apply_rows A b n st) = filter (kept_by pk (brows b)) (seg_part R st)"
    "mem_part (M @ brows b) (apply_rows A b n st) = spec_append pk (mem_part M st) (brows b)"
proof -
  let ?rs = "brows b" and ?st' = "apply_rows A b n st"
  let ?st = "foldl (\<lambda>st i. index_row (row_key pk (?rs ! i)) (mem_locator (length M + i)) st) st [0..<length ?rs]"
  have "state_ok pk R (M @ ?rs) ?st' \<and> seg_part R ?st' = filter (kept_by pk ?rs) (seg_part R st) \<and>
    mem_part (M @ ?rs) ?st' = spec_append pk (mem_part M st) ?rs"
  proof (cases "pk = []")
    case True
    have "ps_segments ?st' = ps_segments st" "ps_mem_suppressed ?st' = ps_mem_suppressed st"
      "ps_key_index ?st' = ps_key_index st"
      using True assms(4) by (simp_all add: apply_rows_def Let_def)
    then show ?thesis
      using state_ok_cong [of ?st' st] parts_cong [of ?st' st] assms(2) True mem_part_append [of R M st ?rs]
      by (auto simp: spec_append_def state_ok_def addr_ok_def kept_by_def filter_id_conv)
  next
    case False
    have f: "ps_segments ?st' = ps_segments ?st" "ps_mem_suppressed ?st' = ps_mem_suppressed ?st"
      "ps_key_index ?st' = ps_key_index ?st"
      using False assms(3,4) by (auto simp: apply_rows_def Let_def pk_def key_at_def num_rows_def)
    show ?thesis
      using index_rows_view [of pk R M st "length ?rs" ?rs] assms(2) False
        state_ok_cong [OF f] parts_cong(1) [OF f(1)] parts_cong(2) [OF f(2)]
      by (simp add: state_ok_keyed spec_append_def kept_by_def)
  qed
  then show "state_ok pk R (M @ brows b) (apply_rows A b n st)"
    "seg_part R (apply_rows A b n st) = filter (kept_by pk (brows b)) (seg_part R st)"
    "mem_part (M @ brows b) (apply_rows A b n st) = spec_append pk (mem_part M st) (brows b)"
    by simp_all
qed

lemma delete_fold_view:
  "view_ok pk R M st \<Longrightarrow> view_ok pk R M (foldl delete_key st ks) \<and>
   seg_part R (foldl delete_key st ks) = filter (\<lambda>v. row_key pk v \<notin> set ks) (seg_part R st) \<and>
   mem_part M (foldl delete_key st ks) = filter (\<lambda>v. row_key pk v \<notin> set ks) (mem_part M st)"
proof (induction ks arbitrary: st)
  case (Cons k ks)
  then show ?case
    using delete_key_view(1) [OF Cons.prems, of k] parts_filter [OF delete_key_view(2) [OF Cons.prems, of k]]
    by (simp add: conj_commute)
qed simp

lemma delete_fold_empty: "ps_key_index st = [] \<Longrightarrow> foldl delete_key st ks = st"
proof (induction ks)
  case (Cons k ks)
  then have "delete_key st k = st"
    by (cases st) (simp add: delete_key_def ki_remove_def suppress_opt_def)
  then show ?case using Cons by simp
qed simp

lemma apply_deletes_view:
  assumes "state_ok pk R M st"
  shows "state_ok pk R M (apply_deletes ks n st)"
    "seg_part R (apply_deletes ks n st) = spec_delete pk (seg_part R st) ks"
    "mem_part M (apply_deletes ks n st) = spec_delete pk (mem_part M st) ks"
proof -
  let ?st = "foldl delete_key st ks" and ?st' = "apply_deletes ks n st"
  have "state_ok pk R M ?st \<and> seg_part R ?st = spec_delete pk (seg_part R st) ks \<and>
    mem_part M ?st = spec_delete pk (mem_part M st) ks"
  proof (cases "pk = []")
    case True
    then show ?thesis using assms delete_fold_empty [of st ks] by (simp add: state_ok_def spec_delete_def)
  next
    case False
    then show ?thesis using assms delete_fold_view [of pk R M st ks] by (simp add: state_ok_keyed spec_delete_def)
  qed
  then show "state_ok pk R M ?st'" "seg_part R ?st' = spec_delete pk (seg_part R st) ks"
    "mem_part M ?st' = spec_delete pk (mem_part M st) ks"
    using state_ok_cong [of ?st' ?st] parts_cong [of ?st' ?st] by (simp_all add: apply_deletes_def)
qed

section \<open>Moving rows\<close>

definition moves :: "nat list \<Rightarrow> (nat \<Rightarrow> locator) \<Rightarrow> (locator \<times> row) list \<Rightarrow> (row_key \<times> locator \<times> locator) list" where
  "moves pk mk X = map (\<lambda>(n, x). (row_key pk (snd x), fst x, mk n)) (enumerate 0 X)"

lemma map_of_relocate:
  "map_of (relocate k' src dst m) k = (if k = k' \<and> map_of m k = Some src then Some dst else map_of m k)"
  by (auto simp: relocate_def update_conv')

lemma map_of_relocate_all:
  "distinct (map fst mv) \<Longrightarrow> map_of (relocate_all mv m) k =
   (case map_of mv k of Some (src, dst) \<Rightarrow> if map_of m k = Some src then Some dst else map_of m k
    | None \<Rightarrow> map_of m k)"
proof (induction mv arbitrary: m)
  case (Cons x mv)
  obtain k' src dst where x: "x = (k', src, dst)" by (cases x)
  have IH: "map_of (relocate_all (x # mv) m) k =
      (case map_of mv k of Some (src', dst') \<Rightarrow>
         if map_of (relocate k' src dst m) k = Some src' then Some dst' else map_of (relocate k' src dst m) k
       | None \<Rightarrow> map_of (relocate k' src dst m) k)"
    using Cons x by (simp add: relocate_all_def)
  show ?case
  proof (cases "k = k'")
    case True
    then have "map_of mv k = None" using Cons.prems x by (simp add: map_of_eq_None_iff)
    then show ?thesis using IH True x by (simp add: map_of_relocate)
  next
    case False
    then have "map_of (relocate k' src dst m) k = map_of m k" by (simp add: map_of_relocate)
    then show ?thesis using IH x False by (cases "map_of mv k") auto
  qed
qed (simp add: relocate_all_def)

lemma index_keys_distinct:
  assumes "index_ok pk V m" "distinct (map fst V)"
  shows "distinct (map (\<lambda>(l, r). row_key pk r) V)"
proof -
  have "inj_on (\<lambda>(l, r). row_key pk r) (set V)"
  proof (rule inj_onI, clarify)
    fix l r l' r' assume "(l, r) \<in> set V" "(l', r') \<in> set V" "row_key pk r = row_key pk r'"
    moreover from this have "l = l'" using index_keys_unique [OF assms(1)] by blast
    ultimately show "l = l' \<and> r = r'" using eq_key_imp_eq_value [OF assms(2)] by blast
  qed
  then show ?thesis using assms(2) by (simp add: distinct_map)
qed

lemma in_enumerate: "(n, x) \<in> set (enumerate 0 X) \<longleftrightarrow> n < length X \<and> x = X ! n"
  by (auto simp: in_set_enumerate_eq)

lemma in_map_enumerate: "y \<in> set (map f (enumerate 0 X)) \<longleftrightarrow> (\<exists>n < length X. y = f (n, X ! n))"
  by (force simp: in_enumerate)

lemma moves_index:
  assumes "index_ok pk V m" "distinct (map fst V)" "set X \<subseteq> set V" "distinct (map fst X)"
    and "set V' = (set V - set X) \<union> set (map (\<lambda>(n, x). (mk n, snd x)) (enumerate 0 X))"
  shows "index_ok pk V' (relocate_all (moves pk mk X) m)"
proof -
  have kX: "distinct (map (\<lambda>(l, r). row_key pk r) X)"
    using index_keys_distinct [OF assms(1,2)] assms(3,4) inj_on_subset
    unfolding distinct_map by blast
  have keys: "map fst (moves pk mk X) = map (\<lambda>(l, r). row_key pk r) X"
    by (rule nth_equalityI) (simp_all add: moves_def nth_enumerate_eq case_prod_unfold)
  then have d: "distinct (map fst (moves pk mk X))" using kX by simp
  have some: "map_of (moves pk mk X) k = Some (l, l') \<longleftrightarrow>
      (\<exists>n < length X. row_key pk (snd (X ! n)) = k \<and> fst (X ! n) = l \<and> l' = mk n)" for k l l'
  proof -
    have "map_of (moves pk mk X) k = Some (l, l') \<longleftrightarrow> (k, l, l') \<in> set (moves pk mk X)"
      using map_of_eq_Some_iff [OF d] .
    then show ?thesis unfolding moves_def in_map_enumerate by auto
  qed
  have old: "map_of m (row_key pk r) = Some l" if "(l, r) \<in> set X" for l r
    using assms(1,3) that unfolding index_ok_def by blast
  have mem: "(l, r) \<in> set V' \<longleftrightarrow> (l, r) \<in> set V - set X \<or> (\<exists>n < length X. l = mk n \<and> r = snd (X ! n))" for l r
    unfolding assms(5) Un_iff in_map_enumerate by simp
  have inj: "i = n" if "i < length X" "n < length X" "row_key pk (snd (X ! i)) = row_key pk (snd (X ! n))" for i n
    using kX that nth_eq_iff_index_eq [of "map (\<lambda>(l, r). row_key pk r) X" i n] by (simp add: case_prod_unfold)
  show ?thesis
    unfolding index_ok_def
  proof (intro allI)
    fix k l'
    show "map_of (relocate_all (moves pk mk X) m) k = Some l' \<longleftrightarrow> (\<exists>r. (l', r) \<in> set V' \<and> row_key pk r = k)"
    proof (cases "map_of (moves pk mk X) k")
      case None
      have no: "row_key pk r \<noteq> k" if "(l, r) \<in> set X" for l r
      proof
        assume "row_key pk r = k"
        moreover obtain n where "n < length X" "X ! n = (l, r)" using \<open>(l, r) \<in> set X\<close> by (metis in_set_conv_nth)
        ultimately have "map_of (moves pk mk X) k = Some (l, mk n)" using some by force
        then show False using None by simp
      qed
      have "map_of m k = Some l' \<longleftrightarrow> (\<exists>r. (l', r) \<in> set V \<and> row_key pk r = k)"
        using assms(1) by (simp add: index_ok_def)
      also have "\<dots> \<longleftrightarrow> (\<exists>r. (l', r) \<in> set V' \<and> row_key pk r = k)"
      proof -
        have "(l', r) \<in> set V' \<longleftrightarrow> (l', r) \<in> set V" if "row_key pk r = k" for r
        proof -
          have "(l', r) \<notin> set X" using no that by blast
          moreover have "r \<noteq> snd (X ! n)" if "n < length X" for n
            using no [of "fst (X ! n)" "snd (X ! n)"] that \<open>row_key pk r = k\<close> by auto
          ultimately show ?thesis using mem [of l' r] by auto
        qed
        then show ?thesis by blast
      qed
      finally show ?thesis using None by (simp add: map_of_relocate_all [OF d])
    next
      case (Some ft)
      then obtain n where n': "n < length X" "row_key pk (snd (X ! n)) = k" "ft = (fst (X ! n), mk n)"
        using some by (metis surj_pair)
      then obtain l r where n: "n < length X" "X ! n = (l, r)" "row_key pk r = k" "ft = (l, mk n)"
        by (metis prod.collapse)
      then have x: "(l, r) \<in> set X" by (metis nth_mem)
      have lhs: "map_of (relocate_all (moves pk mk X) m) k = Some (mk n)"
        using Some n old [OF x] by (simp add: map_of_relocate_all [OF d])
      have new: "(mk n, r) \<in> set V'" using mem n by force
      have only: "l'' = mk n" if "(l'', r') \<in> set V'" "row_key pk r' = k" for l'' r'
      proof -
        have "(l'', r') \<notin> set V - set X"
        proof
          assume "(l'', r') \<in> set V - set X"
          moreover from this have "l'' = l"
            using index_keys_unique [OF assms(1)] x assms(3) n(3) that(2) by blast
          moreover have "r' = r"
            using eq_key_imp_eq_value [OF assms(2)] calculation x assms(3) by blast
          ultimately show False using x by blast
        qed
        then have "\<exists>i < length X. l'' = mk i \<and> r' = snd (X ! i)" using mem [of l'' r'] that(1) by metis
        then obtain i where i: "i < length X" "snd (X ! i) = r'" "l'' = mk i" by auto
        have "i = n" using inj i(1,2) n(1-3) that(2) by simp
        then show ?thesis using i by simp
      qed
      show ?thesis
      proof
        assume "map_of (relocate_all (moves pk mk X) m) k = Some l'"
        then have "l' = mk n" using lhs by simp
        then show "\<exists>r. (l', r) \<in> set V' \<and> row_key pk r = k" using new n(3) by blast
      next
        assume "\<exists>r. (l', r) \<in> set V' \<and> row_key pk r = k"
        then have "l' = mk n" using only by blast
        then show "map_of (relocate_all (moves pk mk X) m) k = Some l'" using lhs by simp
      qed
    qed
  qed
qed

end
