(* ===== verification/PartitionOps.thy ===== *)
theory PartitionOps
  imports PartitionView
begin

text \<open>
  The invariant of a partition and the effect of each operation on its rows: appending and
  deleting (\<open>apply_entry\<close>), flushing (\<open>flush_segment\<close>), merging (\<open>compact_locked\<close>).
\<close>

section \<open>What the engine relies on\<close>

definition value_finite :: "adb_value \<Rightarrow> bool" where
  "value_finite v = (case v of VFloat f \<Rightarrow> is_finite f | _ \<Rightarrow> True)"

definition stats_plain :: "column_stats \<Rightarrow> bool" where
  "stats_plain st \<longleftrightarrow> (case st_min st of None \<Rightarrow> True | Some v \<Rightarrow> value_finite v) \<and>
     (case st_max st of None \<Rightarrow> True | Some v \<Rightarrow> value_finite v) \<and>
     (case st_bloom st of None \<Rightarrow> True | Some f \<Rightarrow> bloom_ok f)"

text \<open>Segment metadata whose JSON text has no \<open>null\<close> in place of a number.\<close>

definition meta_plain :: "segment_meta \<Rightarrow> bool" where
  "meta_plain m \<longleftrightarrow> list_all (\<lambda>(_, st). stats_plain st) (seg_columns m)"

text \<open>
  The JSON printer and parser agree up to the last bit of a floating-point number, which only
  occurs in the statistics of a segment.
\<close>

definition same_meta :: "segment_meta \<Rightarrow> segment_meta \<Rightarrow> bool" where
  "same_meta m n \<longleftrightarrow> seg_id m = seg_id n \<and> seg_key m = seg_key n \<and> row_count m = row_count n \<and>
     seg_bytes m = seg_bytes n \<and> seg_schema_version m = seg_schema_version n"

definition same_manifest :: "manifest \<Rightarrow> manifest \<Rightarrow> bool" where
  "same_manifest m n \<longleftrightarrow> mf_format m = mf_format n \<and> mf_partition m = mf_partition n \<and>
     mf_schema_version m = mf_schema_version n \<and> mf_applied_lsn m = mf_applied_lsn n \<and>
     mf_next_segment m = mf_next_segment n \<and> list_all2 same_meta (mf_segments m) (mf_segments n) \<and>
     mf_suppressed m = mf_suppressed n"

definition manifest_codec_ok :: "storage_lib \<Rightarrow> bool" where
  "manifest_codec_ok L \<longleftrightarrow> (\<forall>m. list_all meta_plain (mf_segments m) \<longrightarrow>
     (\<exists>n. manifest_parse L (manifest_json L m) = Some n \<and> same_manifest m n \<and> list_all meta_plain (mf_segments n)))"

definition bitmap_codec_ok :: "storage_lib \<Rightarrow> bool" where
  "bitmap_codec_ok L \<longleftrightarrow> (\<forall>S. finite S \<longrightarrow> bitmap_read L (bitmap_write L S) = Some S)"

definition storage_ok :: "storage_lib \<Rightarrow> bool" where
  "storage_ok L \<longleftrightarrow> arrow_ok (sl_arrow L) \<and> wal_lib_ok (sl_wal L) \<and> manifest_codec_ok L \<and> bitmap_codec_ok L"

lemma storage_okD:
  "storage_ok L \<Longrightarrow> arrow_ok (sl_arrow L)" "storage_ok L \<Longrightarrow> wal_lib_ok (sl_wal L)"
  "storage_ok L \<Longrightarrow> manifest_codec_ok L" "storage_ok L \<Longrightarrow> bitmap_codec_ok L"
  by (simp_all add: storage_ok_def)

section \<open>The invariant of a partition in memory\<close>

definition mem_rows :: "memtable \<Rightarrow> row list" where
  "mem_rows m = concat (map brows (mt_batches m))"

text \<open>A batch of the table: its Arrow schema, values of the column types, finite floats.\<close>

definition batch_fits :: "table_schema \<Rightarrow> batch \<Rightarrow> bool" where
  "batch_fits schema b \<longleftrightarrow> batch_ok b \<and> bfields b = arrow_schema schema \<and>
     list_all (list_all value_finite) (brows b)"

definition memtable_ok :: "table_schema \<Rightarrow> memtable \<Rightarrow> bool" where
  "memtable_ok schema m \<longleftrightarrow> mt_schema m = schema \<and> mt_rows m = length (mem_rows m) \<and>
     list_all (batch_fits schema) (mt_batches m)"

text \<open>
  \<open>stored L s schema R m\<close>: the file of the segment is on disk, and under the current schema its
  rows are \<open>R\<close> of its number.
\<close>

definition stored :: "storage_lib \<Rightarrow> fs_store \<Rightarrow> table_schema \<Rightarrow> (nat \<Rightarrow> row list) \<Rightarrow> segment_meta \<Rightarrow> bool" where
  "stored L s schema R m \<longleftrightarrow>
     (\<exists>bs b. map_of (files s) (seg_key m) = Some bs \<and> read_batches (sl_arrow L) bs = Inr b \<and>
        batch_ok b \<and> covers schema (bfields b) \<and> set (map f_name (bfields b)) \<subseteq> set (column_names schema) \<and>
        list_all (list_all value_finite) (brows b) \<and>
        R (seg_id m) = map (backfill_row (bfields b) (column_names schema)) (brows b) \<and>
        row_count m = num_rows b) \<and>
     meta_plain m"

definition segs_ok ::
    "storage_lib \<Rightarrow> fs_store \<Rightarrow> table_schema \<Rightarrow> (nat \<Rightarrow> string) \<Rightarrow> nat \<Rightarrow> (nat \<Rightarrow> row list) \<Rightarrow> segment_meta list \<Rightarrow> bool" where
  "segs_ok L s schema key_of limit R ms \<longleftrightarrow> sorted_wrt (<) (map seg_id ms) \<and>
     (\<forall>m \<in> set ms. stored L s schema R m \<and> seg_key m = key_of (seg_id m) \<and> seg_id m < limit)"

definition st_inv :: "storage_lib \<Rightarrow> fs_store \<Rightarrow> (nat \<Rightarrow> string) \<Rightarrow> (nat \<Rightarrow> row list) \<Rightarrow> partition_state \<Rightarrow> bool" where
  "st_inv L s key_of R st \<longleftrightarrow> schema_ok (ps_schema st) \<and> memtable_ok (ps_schema st) (ps_memtable st) \<and>
     segs_ok L s (ps_schema st) key_of (ps_next_segment st) R (map se_meta (ps_segments st)) \<and>
     state_ok (pk_indices (ps_schema st)) R (mem_rows (ps_memtable st)) st"

definition names_ok :: "partition \<Rightarrow> bool" where
  "names_ok p \<longleftrightarrow> ident_ok (pt_tenant p) \<and> ident_ok (pt_database p) \<and> ident_ok (pt_table p) \<and>
     pt_manifest_key p = manifest_key (pt_tenant p) (pt_database p) (pt_table p) (pt_id p) \<and>
     log_key (pt_log p) = wal_key (pt_tenant p) (pt_database p) (pt_table p) (pt_id p)"

definition part_inv :: "storage_lib \<Rightarrow> fs_store \<Rightarrow> partition \<Rightarrow> (nat \<Rightarrow> row list) \<Rightarrow> bool" where
  "part_inv L s p R \<longleftrightarrow> storage_ok L \<and> store_ok s \<and> names_ok p \<and>
     tname (ps_schema (pt_state p)) = pt_table p \<and> st_inv L s (pt_segment_key p) R (pt_state p)"

text \<open>The rows a partition holds, read back through the code's own reader.\<close>

definition seg_rows :: "storage_lib \<Rightarrow> fs_store \<Rightarrow> table_schema \<Rightarrow> segment_entry \<Rightarrow> row list" where
  "seg_rows L s schema e =
     (case read_segment (sl_arrow L) s (se_meta e) schema (Some (column_names schema)) of
        Inr b \<Rightarrow> brows b | Inl _ \<Rightarrow> [])"

definition rows_at :: "storage_lib \<Rightarrow> fs_store \<Rightarrow> partition_state \<Rightarrow> nat \<Rightarrow> row list" where
  "rows_at L s st i =
     (case find (\<lambda>e. seg_id (se_meta e) = i) (ps_segments st) of
        Some e \<Rightarrow> seg_rows L s (ps_schema st) e | None \<Rightarrow> [])"

definition partition_rows :: "storage_lib \<Rightarrow> part_st \<Rightarrow> row list" where
  "partition_rows L st =
     (let ps = pt_state (snd st) in contents (rows_at L (fst st) ps) (mem_rows (ps_memtable ps)) ps)"

section \<open>Lemmas\<close>

lemma pk_nil_iff: "schema_ok s \<Longrightarrow> pk_indices s = [] \<longleftrightarrow> is_append_only s"
  using pk_indices_spec(1) [of s] by (auto simp: is_append_only_def)

lemma schema_names:
  "schema_ok s \<Longrightarrow> column_names s \<noteq> []" "schema_ok s \<Longrightarrow> distinct (map col_name (columns s))"
  by (auto simp: schema_ok_def column_names_def)

lemma read_stored:
  assumes "storage_ok L" "store_ok s" "stored L s schema R m" "object_key (seg_key m)"
    and "names \<noteq> []" "set names \<subseteq> set (column_names schema)"
  obtains b where "map_of (files s) (seg_key m) \<noteq> None" "batch_ok b" "covers schema (bfields b)"
    "read_segment (sl_arrow L) s m schema (Some names) =
       Inr \<lparr>bfields = fields_of schema names, brows = map (backfill_row (bfields b) names) (brows b)\<rparr>"
    "R (seg_id m) = map (backfill_row (bfields b) (column_names schema)) (brows b)"
    "list_all (list_all value_finite) (brows b)" "row_count m = length (brows b)"
proof -
  obtain bs b where b: "map_of (files s) (seg_key m) = Some bs" "read_batches (sl_arrow L) bs = Inr b"
    "batch_ok b" "covers schema (bfields b)" "list_all (list_all value_finite) (brows b)"
    "R (seg_id m) = map (backfill_row (bfields b) (column_names schema)) (brows b)" "row_count m = num_rows b"
    using assms(3) unfolding stored_def by blast
  have "store_get s (seg_key m) = Inr bs" using b(1) by (simp add: store_get_eq [OF assms(2,4)])
  moreover have "\<forall>n \<in> set names. column schema n \<noteq> None" using assms(6) column_names_exist by blast
  ultimately have "read_segment (sl_arrow L) s m schema (Some names) =
      Inr \<lparr>bfields = fields_of schema names, brows = map (backfill_row (bfields b) names) (brows b)\<rparr>"
    using read_segment_eq [OF storage_okD(1) [OF assms(1)] _ b(2-4) assms(5)] by simp
  then show ?thesis using that b by (simp add: num_rows_def)
qed

lemma stored_length: "stored L s schema R m \<Longrightarrow> row_count m = length (R (seg_id m))"
  by (auto simp: stored_def num_rows_def)

lemma seg_rows_stored:
  assumes "storage_ok L" "store_ok s" "schema_ok schema" "stored L s schema R (se_meta e)" "object_key (seg_key (se_meta e))"
  shows "seg_rows L s schema e = R (seg_id (se_meta e))"
  using read_stored [OF assms(1,2,4,5) schema_names(1) [OF assms(3)]] by (fastforce simp: seg_rows_def)

lemma seg_key_object: "names_ok p \<Longrightarrow> plain_key (pt_segment_key p i)"
  by (simp add: names_ok_def pt_segment_key_def layout_keys_plain)

lemma seg_visible_cong:
  "(\<And>e. e \<in> set es \<Longrightarrow> R (seg_id (se_meta e)) = R' (seg_id (se_meta e))) \<Longrightarrow> seg_visible R es = seg_visible R' es"
  by (simp add: seg_visible_def seg_live_def cong: map_cong)

lemma part_invD:
  assumes "part_inv L s p R"
  shows "storage_ok L" "store_ok s" "names_ok p" "tname (ps_schema (pt_state p)) = pt_table p"
    "st_inv L s (pt_segment_key p) R (pt_state p)"
  using assms by (simp_all add: part_inv_def)

lemma st_invD:
  assumes "st_inv L s key_of R st"
  shows "schema_ok (ps_schema st)" "memtable_ok (ps_schema st) (ps_memtable st)"
    "segs_ok L s (ps_schema st) key_of (ps_next_segment st) R (map se_meta (ps_segments st))"
    "state_ok (pk_indices (ps_schema st)) R (mem_rows (ps_memtable st)) st"
  using assms by (simp_all add: st_inv_def)

lemma segs_okD:
  assumes "segs_ok L s schema key_of limit R ms"
  shows "distinct (map seg_id ms)"
    "m \<in> set ms \<Longrightarrow> stored L s schema R m" "m \<in> set ms \<Longrightarrow> seg_key m = key_of (seg_id m)"
    "m \<in> set ms \<Longrightarrow> seg_id m < limit"
  using assms strict_sorted_iff [of "map seg_id ms"] by (auto simp: segs_ok_def)

lemma partition_rows_eq:
  assumes "part_inv L s p R"
  shows "partition_rows L (s, p) = contents R (mem_rows (ps_memtable (pt_state p))) (pt_state p)"
proof -
  let ?st = "pt_state p"
  note inv = part_invD [OF assms]
  note st = st_invD [OF inv(5)]
  have "rows_at L s ?st (seg_id (se_meta e)) = R (seg_id (se_meta e))" if e: "e \<in> set (ps_segments ?st)" for e
  proof -
    have m: "se_meta e \<in> set (map se_meta (ps_segments ?st))" using e by simp
    have "find (\<lambda>x. seg_id (se_meta x) = seg_id (se_meta e)) (ps_segments ?st) = Some e"
      using find_unique [of "\<lambda>x. seg_id (se_meta x)" _ e] segs_okD(1) [OF st(3)] e by (simp add: comp_def)
    then show ?thesis
      using seg_rows_stored [OF inv(1,2) st(1) segs_okD(2) [OF st(3) m]] segs_okD(3) [OF st(3) m]
        plain_object [OF seg_key_object [OF inv(3)]] by (simp add: rows_at_def)
  qed
  then have "seg_part (rows_at L s ?st) ?st = seg_part R ?st"
    unfolding seg_part_def by (metis seg_visible_cong)
  then show ?thesis by (simp add: partition_rows_def contents_def Let_def)
qed

section \<open>Appending and deleting\<close>

lemma mt_append_rows: "mem_rows (mt_append A m b) = mem_rows m @ brows b"
  by (auto simp: mt_append_def mem_rows_def num_rows_def)

lemma memtable_ok_append:
  "memtable_ok schema m \<Longrightarrow> batch_fits schema b \<Longrightarrow> memtable_ok schema (mt_append A m b)"
  by (auto simp: memtable_ok_def mt_append_rows) (auto simp: mt_append_def num_rows_def)

lemma apply_rows_inv:
  assumes "st_inv L s key_of R st" "batch_fits (ps_schema st) b"
  shows "st_inv L s key_of R (apply_rows A b n st)"
    "seg_part R (apply_rows A b n st) = filter (kept_by (pk_indices (ps_schema st)) (brows b)) (seg_part R st)"
    "mem_part (mem_rows (ps_memtable (apply_rows A b n st))) (apply_rows A b n st) =
       spec_append (pk_indices (ps_schema st)) (mem_part (mem_rows (ps_memtable st)) st) (brows b)"
proof -
  note st = st_invD [OF assms(1)]
  note v = apply_rows_view [OF st(4) _ pk_nil_iff [OF st(1)], where b = b and A = A and n = n]
  have len: "mt_rows (ps_memtable st) = length (mem_rows (ps_memtable st))" using st(2) by (simp add: memtable_ok_def)
  show "seg_part R (apply_rows A b n st) = filter (kept_by (pk_indices (ps_schema st)) (brows b)) (seg_part R st)"
    using v(2) [OF len] .
  show "mem_part (mem_rows (ps_memtable (apply_rows A b n st))) (apply_rows A b n st) =
      spec_append (pk_indices (ps_schema st)) (mem_part (mem_rows (ps_memtable st)) st) (brows b)"
    using v(3) [OF len] by (simp add: mt_append_rows)
  show "st_inv L s key_of R (apply_rows A b n st)"
    using st v(1) [OF len] memtable_ok_append [OF st(2) assms(2)] by (simp add: st_inv_def mt_append_rows)
qed

lemma apply_deletes_inv:
  assumes "st_inv L s key_of R st"
  shows "st_inv L s key_of R (apply_deletes ks n st)"
    "seg_part R (apply_deletes ks n st) = spec_delete (pk_indices (ps_schema st)) (seg_part R st) ks"
    "mem_part (mem_rows (ps_memtable (apply_deletes ks n st))) (apply_deletes ks n st) =
       spec_delete (pk_indices (ps_schema st)) (mem_part (mem_rows (ps_memtable st)) st) ks"
  using st_invD [OF assms] apply_deletes_view [OF st_invD(4) [OF assms], of ks n]
  by (simp_all add: st_inv_def)

end
