(* ===== verification/PartitionFlush.thy ===== *)
theory PartitionFlush
  imports PartitionOps
begin

text \<open>
  Flushing and merging: writing a segment under a fresh key leaves the other objects alone, moving
  the live rows keeps the rows of the partition, and the moved rows keep their index entries.
\<close>

section \<open>Keys of one partition\<close>

lemma pt_keys:
  assumes "names_ok p"
  shows "pt_segment_key p i = pt_segment_key p j \<longleftrightarrow> i = j"
    "pt_segment_key p i \<noteq> pt_manifest_key p" "pt_segment_key p i \<noteq> log_key (pt_log p)"
    "log_key (pt_log p) \<noteq> pt_manifest_key p"
    "plain_key (pt_segment_key p i)" "plain_key (pt_manifest_key p)" "plain_key (log_key (pt_log p))"
proof -
  have n: "ident_ok (pt_tenant p)" "ident_ok (pt_database p)" "ident_ok (pt_table p)"
    "pt_manifest_key p = manifest_key (pt_tenant p) (pt_database p) (pt_table p) (pt_id p)"
    "log_key (pt_log p) = wal_key (pt_tenant p) (pt_database p) (pt_table p) (pt_id p)"
    using assms by (simp_all add: names_ok_def)
  note ks = split_key [OF n(1-3)]
  show "plain_key (pt_segment_key p i)" "plain_key (pt_manifest_key p)" "plain_key (log_key (pt_log p))"
    using layout_keys_plain [OF n(1-3)] n by (simp_all add: pt_segment_key_def)
  show "pt_segment_key p i = pt_segment_key p j \<longleftrightarrow> i = j" by (simp add: pt_segment_key_def segment_key_def)
  show "pt_segment_key p i \<noteq> pt_manifest_key p" "pt_segment_key p i \<noteq> log_key (pt_log p)"
    "log_key (pt_log p) \<noteq> pt_manifest_key p"
    unfolding n pt_segment_key_def split_on_inj [of "CHR ''/''", symmetric] ks by simp_all
qed

section \<open>Reading a segment under the current schema\<close>

lemma columns_ok_rows:
  "columns_ok fs n cols \<Longrightarrow> r \<in> set (rows_of_columns n cols) \<Longrightarrow> row_ok fs r"
  by (auto simp: columns_ok_def rows_of_columns_def row_ok_def list_all2_conv_all_nth)

lemma backfill_finite:
  "list_all value_finite r \<Longrightarrow> length r = length fs \<Longrightarrow> list_all value_finite (backfill_row fs names r)"
  by (auto simp: backfill_row_def list_all_length value_finite_def split: option.splits dest!: position_Some)

lemma backfill_fits:
  assumes "batch_ok b" "covers schema (bfields b)" "schema_ok schema" "list_all (list_all value_finite) (brows b)"
  shows "batch_fits schema \<lparr>bfields = arrow_schema schema, brows = map (backfill_row (bfields b) (column_names schema)) (brows b)\<rparr>"
proof -
  let ?names = "column_names schema"
  have f: "fields_of schema ?names = arrow_schema schema" by (rule fields_of_own [OF schema_names(2) [OF assms(3)]])
  have "columns_ok (arrow_schema schema) (num_rows b) (map (backfill_column b) ?names)"
    using backfill_columns_ok [OF assms(1,2) schema_names(1) [OF assms(3)] column_names_exist] f by simp
  then have "list_all (row_ok (arrow_schema schema)) (map (backfill_row (bfields b) ?names) (brows b))"
    using columns_ok_rows rows_of_backfill [of b ?names] unfolding list_all_iff by metis
  moreover have "arrow_schema schema \<noteq> []" using assms(3) by (simp add: arrow_schema_def schema_ok_def)
  moreover have "list_all value_finite (backfill_row (bfields b) ?names r)" if "r \<in> set (brows b)" for r
  proof -
    have "row_ok (bfields b) r" "list_all value_finite r" using assms(1,4) that by (auto simp: batch_ok_def list_all_iff)
    then show ?thesis using backfill_finite row_ok_length by metis
  qed
  ultimately show ?thesis by (auto simp: batch_fits_def batch_ok_def list_all_iff)
qed

lemma read_all_columns:
  assumes "storage_ok L" "store_ok s" "stored L s schema R m" "object_key (seg_key m)" "schema_ok schema"
  shows "read_segment (sl_arrow L) s m schema (Some (column_names schema)) =
      Inr \<lparr>bfields = arrow_schema schema, brows = R (seg_id m)\<rparr>"
    and "batch_fits schema \<lparr>bfields = arrow_schema schema, brows = R (seg_id m)\<rparr>"
proof -
  obtain b where b: "batch_ok b" "covers schema (bfields b)" "list_all (list_all value_finite) (brows b)"
    "read_segment (sl_arrow L) s m schema (Some (column_names schema)) =
       Inr \<lparr>bfields = fields_of schema (column_names schema), brows = map (backfill_row (bfields b) (column_names schema)) (brows b)\<rparr>"
    "R (seg_id m) = map (backfill_row (bfields b) (column_names schema)) (brows b)"
    using read_stored [OF assms(1-4) schema_names(1) [OF assms(5)]] by blast
  then show "read_segment (sl_arrow L) s m schema (Some (column_names schema)) =
      Inr \<lparr>bfields = arrow_schema schema, brows = R (seg_id m)\<rparr>"
    using fields_of_own [OF schema_names(2) [OF assms(5)]] by simp
  show "batch_fits schema \<lparr>bfields = arrow_schema schema, brows = R (seg_id m)\<rparr>"
    using backfill_fits [OF b(1,2) assms(5) b(3)] b(5) by simp
qed

lemma batch_fits_sub:
  assumes "batch_fits schema b" "set rs \<subseteq> set (brows b)" "bfields c = bfields b" "brows c = rs"
  shows "batch_fits schema c"
  using assms by (auto simp: batch_fits_def batch_ok_def list_all_iff)

section \<open>Statistics of finite rows are plain\<close>

lemma bt_insert_set: "x \<in> set (bt_insert k v m) \<Longrightarrow> x = (k, v) \<or> x \<in> set m"
  by (induction k v m rule: bt_insert.induct) (auto split: if_splits)

lemma stats_step_finite:
  "stats_plain st \<Longrightarrow> value_finite v \<Longrightarrow> stats_plain (stats_step ty st v)"
  by (auto simp: stats_step_def stats_plain_def Let_def split: option.splits)

lemma column_stats_plain: "list_all value_finite vs \<Longrightarrow> stats_plain (column_stats_of M c vs)"
proof -
  assume v: "list_all value_finite vs"
  have "stats_plain st \<Longrightarrow> list_all value_finite vs \<Longrightarrow> stats_plain (foldl (stats_step ty) st vs)" for st ty
    by (induction vs arbitrary: st) (simp_all add: stats_step_finite)
  then have p: "stats_plain (foldl (stats_step (col_type c)) empty_stats vs)"
    using v by (simp add: stats_plain_def empty_stats_def)
  have "bloom_ok f" if "bloom_build M vs = Some f" for f
    using that bloom.ok_adds [OF bloom_ok_new] by (auto simp: bloom_build_def split: if_splits)
  then show ?thesis using p by (auto simp: column_stats_of_def stats_plain_def Let_def split: option.splits)
qed

lemma batch_column_finite:
  assumes "batch_ok b" "list_all (list_all value_finite) (brows b)" "i < num_columns b"
  shows "list_all value_finite (batch_column b i)"
proof -
  have "length r = length (bfields b)" if "r \<in> set (brows b)" for r
    using assms(1) that row_ok_length by (auto simp: batch_ok_def list_all_iff)
  then show ?thesis using assms(2,3) by (auto simp: batch_column_def num_columns_def list_all_iff)
qed

lemma compute_stats_plain:
  assumes "batch_ok b" "list_all (list_all value_finite) (brows b)"
  shows "list_all (\<lambda>(_, st). stats_plain st) (compute_stats M s b)"
proof -
  have loop: "list_all (\<lambda>(_, st). stats_plain st) out \<Longrightarrow> \<forall>(i, c) \<in> set ics. i < num_columns b \<Longrightarrow>
    list_all (\<lambda>(_, st). stats_plain st)
      (foldl (\<lambda>out (idx, c). bt_insert (col_name c) (column_stats_of M c (batch_column b idx)) out) out ics)" for out ics
  proof (induction ics arbitrary: out)
    case (Cons x ics)
    obtain i c where x: "x = (i, c)" by (cases x)
    have "list_all (\<lambda>(_, st). stats_plain st) (bt_insert (col_name c) (column_stats_of M c (batch_column b i)) out)"
      using Cons.prems x column_stats_plain [OF batch_column_finite [OF assms, of i]]
      by (auto simp: list_all_iff dest!: bt_insert_set)
    then show ?case using Cons x by simp
  qed simp
  show ?thesis
    unfolding compute_stats_def by (rule loop) (auto simp: in_set_enumerate_eq)
qed

section \<open>Writing a segment\<close>

lemma mt_concat_eq:
  assumes "arrow_ok A" "memtable_ok schema m"
  obtains "mt_batches m = []" "mt_concat A m = Inr None" "mem_rows m = []"
  | b where "mt_concat A m = Inr (Some b)" "batch_fits schema b" "brows b = mem_rows m"
proof (cases "mt_batches m" rule: remdups_adj.cases)
  case 1
  then show ?thesis using that(1) by (simp add: mt_concat_def mem_rows_def)
next
  case (2 b)
  then show ?thesis using that(2) [of b] assms(2) by (simp add: mt_concat_def mem_rows_def memtable_ok_def)
next
  case (3 b c bs)
  have all: "list_all (batch_fits schema) (mt_batches m)" using assms(2) by (simp add: memtable_ok_def)
  have "concat_batches A (arrow_schema (mt_schema m)) (mt_batches m) =
      Inr \<lparr>bfields = arrow_schema schema, brows = mem_rows m\<rparr>"
    unfolding mem_rows_def using assms(2) 3 all
    by (subst arrow_concat [OF assms(1)]) (auto simp: memtable_ok_def batch_fits_def list_all_iff)
  moreover have "batch_fits schema \<lparr>bfields = arrow_schema schema, brows = mem_rows m\<rparr>"
    using all 3 by (auto simp: batch_fits_def batch_ok_def list_all_iff mem_rows_def)
  ultimately show ?thesis using that(2) 3 by (simp add: mt_concat_def)
qed

lemma survivors_eq:
  assumes "arrow_ok A" "batch_ok b" "keep = live_ordinals b dead"
  obtains c where "survivors A b keep = Inr c" "bfields c = bfields b" "brows c = map (\<lambda>i. brows b ! i) keep"
proof (cases "length keep = num_rows b")
  case True
  then have "keep = [0..<num_rows b]"
    using assms(3) length_filter_less [of _ "[0..<num_rows b]" "\<lambda>i. i \<notin> dead"]
    by (auto simp: live_ordinals_def filter_id_conv)
  then show ?thesis using that [of b] True by (simp add: survivors_def num_rows_def map_nth)
next
  case False
  have "take_batch A b keep = Inr (b\<lparr>brows := map (\<lambda>i. brows b ! i) keep\<rparr>)"
    by (rule arrow_take [OF assms(1,2)]) (simp add: assms(3) live_ordinals_def)
  then show ?thesis
    by (intro that [of "b\<lparr>brows := map (\<lambda>i. brows b ! i) keep\<rparr>"]) (use False in \<open>simp_all add: survivors_def take_rows_def\<close>)
qed

text \<open>A segment written under a new key: the file and its metadata, every other object unchanged.\<close>

lemma write_new_segment:
  fixes R :: "nat \<Rightarrow> row list"
  assumes "storage_ok L" "store_ok s" "schema_ok schema" "batch_fits schema b" "object_key key"
  obtains s' m where "write_segment (sl_math L) (sl_arrow L) s key sid schema b = Inr (s', m)" "store_ok s'"
    "\<And>k. k \<noteq> key \<Longrightarrow> map_of (files s') k = map_of (files s) k"
    "seg_id m = sid" "seg_key m = key" "stored L s' schema (R(sid := brows b)) m"
proof -
  have b: "batch_ok b" "bfields b = arrow_schema schema" "list_all (list_all value_finite) (brows b)"
    using assms(4) by (simp_all add: batch_fits_def)
  obtain s' m bs where w: "write_segment (sl_math L) (sl_arrow L) s key sid schema b = Inr (s', m)" "store_ok s'"
    "read_batches (sl_arrow L) bs = Inr b"
    "m = \<lparr>seg_id = sid, seg_key = key, row_count = num_rows b, seg_bytes = length bs,
          seg_schema_version = version schema, seg_columns = compute_stats (sl_math L) schema b\<rparr>"
    "map_of (files s') = (map_of (files s))(key \<mapsto> bs)"
    using write_segment_spec [OF storage_okD(1) [OF assms(1)] b(1) assms(2,5)] by metis
  have "length r = length (columns schema)" if "r \<in> set (brows b)" for r
    using b(1,2) that row_ok_length by (fastforce simp: batch_ok_def list_all_iff arrow_schema_def)
  then have "map (backfill_row (bfields b) (column_names schema)) (brows b) = brows b"
    using backfill_own [OF schema_names(2) [OF assms(3)]] b(2) by (simp add: map_idI)
  moreover have "covers schema (bfields b)" using covers_own [OF schema_names(2) [OF assms(3)]] b(2) by simp
  moreover have "set (map f_name (bfields b)) \<subseteq> set (column_names schema)"
    using b(2) by (auto simp: arrow_schema_def column_names_def arrow_field_def)
  ultimately have "stored L s' schema (R(sid := brows b)) m"
    using w(3-5) b compute_stats_plain [OF b(1,3)] by (auto simp: stored_def meta_plain_def)
  then show ?thesis using that w by simp
qed

lemma stored_frame:
  "stored L s schema R m \<Longrightarrow> map_of (files s') (seg_key m) = map_of (files s) (seg_key m) \<Longrightarrow>
   R' (seg_id m) = R (seg_id m) \<Longrightarrow> stored L s' schema R' m"
  by (simp add: stored_def)

lemma segs_ok_frame:
  assumes "segs_ok L s schema key_of limit R ms"
    and "\<And>m. m \<in> set ms \<Longrightarrow> map_of (files s') (seg_key m) = map_of (files s) (seg_key m)"
    and "\<And>m. m \<in> set ms \<Longrightarrow> R' (seg_id m) = R (seg_id m)" "limit \<le> limit'"
  shows "segs_ok L s' schema key_of limit' R' ms"
  using assms stored_frame by (fastforce simp: segs_ok_def)

lemma segs_ok_snoc:
  assumes "segs_ok L s schema key_of limit R ms" "stored L s schema R m" "seg_key m = key_of (seg_id m)"
    "limit \<le> seg_id m" "seg_id m < limit'"
  shows "segs_ok L s schema key_of limit' R (ms @ [m])"
  using assms by (fastforce simp: segs_ok_def sorted_wrt_append)

section \<open>Flushing\<close>

lemma moves_map_enumerate:
  "map (\<lambda>(new, old). (row_key pk (M ! old), mk old, to new)) (enumerate 0 keep) =
   moves pk to (map (\<lambda>i. (mk i, M ! i)) keep)"
  by (rule nth_equalityI) (simp_all add: moves_def nth_enumerate_eq)

lemma visible_distinct:
  assumes "addr_ok R M st"
  shows "distinct (map fst (visible R M st))"
proof -
  have l: "distinct (map fst (live mk rows dead))" if "inj mk" for mk :: "nat \<Rightarrow> locator" and rows dead
    using that by (auto simp: live_def comp_def distinct_map inj_on_def)
  have "distinct (map (\<lambda>e. seg_id (se_meta e)) es) \<Longrightarrow> distinct (map fst (seg_visible R es))" for es
  proof (induction es)
    case (Cons e es)
    have "l \<notin> fst ` set (seg_visible R es)" if "l \<in> fst ` set (seg_live R e)" for l
      using that Cons.prems by (auto simp: seg_live_def in_live in_seg_visible)
    then show ?case using Cons l [of "seg_locator (seg_id (se_meta e))"] by (auto simp: seg_live_def)
  qed simp
  moreover have "fst ` set (seg_visible R es) \<inter> fst ` set (live mem_locator M d) = {}" for es d
    by (auto simp: in_live in_seg_visible)
  ultimately show ?thesis
    using assms l [of mem_locator] by (auto simp: visible_def addr_ok_def)
qed

text \<open>The state after the live memtable rows became the segment \<open>m\<close>.\<close>

definition flushed_state :: "partition_state \<Rightarrow> segment_meta \<Rightarrow> key_index \<Rightarrow> partition_state" where
  "flushed_state st m index = st\<lparr>ps_key_index := index,
     ps_segments := ps_segments st @ [\<lparr>se_meta = m, se_suppressed = {}\<rparr>], ps_next_segment := seg_id m + 1,
     ps_memtable := mt_clear (ps_memtable st), ps_mem_suppressed := {}\<rparr>"

lemma flush_view:
  assumes st: "state_ok pk R M st" and new: "\<forall>e \<in> set (ps_segments st). seg_id (se_meta e) \<noteq> seg_id m"
  fixes keep
  defines "keep \<equiv> filter (\<lambda>i. i \<notin> ps_mem_suppressed st) [0..<length M]"
  defines "R' \<equiv> R(seg_id m := map (\<lambda>i. M ! i) keep)"
  defines "index \<equiv> if pk = [] then ps_key_index st
    else relocate_all (moves pk (seg_locator (seg_id m)) (map (\<lambda>i. (mem_locator i, M ! i)) keep)) (ps_key_index st)"
  shows "state_ok pk R' [] (flushed_state st m index)"
    "seg_part R' (flushed_state st m index) = contents R M st"
proof -
  let ?st = "flushed_state st m index" and ?X = "map (\<lambda>i. (mem_locator i, M ! i)) keep"
  have a: "addr_ok R M st" using st by (simp add: state_ok_def)
  have X: "?X = live mem_locator M (ps_mem_suppressed st)" by (simp add: live_def keep_def)
  have segs: "seg_visible R' (ps_segments st) = seg_visible R (ps_segments st)"
    using new by (intro seg_visible_cong) (simp add: R'_def)
  have V: "visible R' [] ?st = seg_visible R (ps_segments st) @
      map (\<lambda>i. (seg_locator (seg_id m) i, map (\<lambda>i. M ! i) keep ! i)) [0..<length keep]"
    using segs by (simp add: visible_def flushed_state_def seg_live_def live_all R'_def)
  show "seg_part R' ?st = contents R M st"
  proof -
    have "visible R' [] ?st = seg_visible R' (ps_segments ?st)" by (simp add: visible_def)
    then have "seg_part R' ?st = map snd (visible R' [] ?st)" by (simp add: seg_part_def)
    also have "\<dots> = seg_part R st @ map (\<lambda>i. map (\<lambda>i. M ! i) keep ! i) [0..<length keep]"
      by (simp add: V seg_part_def comp_def)
    also have "map (\<lambda>i. map (\<lambda>i. M ! i) keep ! i) [0..<length keep] = mem_part M st"
      using map_nth [of "map (\<lambda>i. M ! i) keep"] by (simp add: mem_part_def X [symmetric] comp_def)
    finally show ?thesis by (simp add: contents_def)
  qed
  have a': "addr_ok R' [] ?st" using a new by (auto simp: addr_ok_def flushed_state_def R'_def)
  show "state_ok pk R' [] ?st"
  proof (cases "pk = []")
    case True
    then show ?thesis using st a' by (simp add: state_ok_def flushed_state_def index_def)
  next
    case False
    have ix: "index_ok pk (visible R M st) (ps_key_index st)" using st False by (simp add: state_ok_def)
    have "index_ok pk (visible R' [] ?st) (relocate_all (moves pk (seg_locator (seg_id m)) ?X) (ps_key_index st))"
    proof (rule moves_index [OF ix visible_distinct [OF a]])
      show "set ?X \<subseteq> set (visible R M st)" by (simp add: X visible_def)
      show "distinct (map fst ?X)" by (simp add: keep_def comp_def distinct_map inj_on_def)
      have "set (visible R M st) - set ?X = set (seg_visible R (ps_segments st))"
        unfolding X by (auto simp: visible_def in_live in_seg_visible)
      moreover have "map (\<lambda>(n, x). (seg_locator (seg_id m) n, snd x)) (enumerate 0 ?X) =
          map (\<lambda>i. (seg_locator (seg_id m) i, map (\<lambda>i. M ! i) keep ! i)) [0..<length keep]"
        by (rule nth_equalityI) (simp_all add: nth_enumerate_eq)
      ultimately show "set (visible R' [] ?st) = (set (visible R M st) - set ?X) \<union>
          set (map (\<lambda>(n, x). (seg_locator (seg_id m) n, snd x)) (enumerate 0 ?X))"
        by (simp only: V set_append)
    qed
    then show ?thesis using a' False by (simp add: state_ok_def flushed_state_def index_def visible_def)
  qed
qed

text \<open>What an operation leaves alone: every object but those of \<open>K\<close>.\<close>

definition others_same :: "string set \<Rightarrow> fs_store \<Rightarrow> fs_store \<Rightarrow> bool" where
  "others_same K s s' \<longleftrightarrow> (\<forall>k. k \<notin> K \<longrightarrow> plain_key k \<longrightarrow> map_of (files s') k = map_of (files s) k)"

lemma others_same_trans: "others_same K s s' \<Longrightarrow> others_same K' s' s'' \<Longrightarrow> others_same (K \<union> K') s s''"
  by (simp add: others_same_def)

lemma others_same_mono: "others_same K s s' \<Longrightarrow> K \<subseteq> K' \<Longrightarrow> others_same K' s s'"
  by (auto simp: others_same_def)

text \<open>The keys of a partition: everything under its directory.\<close>

definition own_keys :: "partition \<Rightarrow> string set" where
  "own_keys p = {k. prefix (key_parts (pt_tenant p) (pt_database p) (pt_table p) @ [''p'' @ show_nat (pt_id p)])
     (split_on CHR ''/'' k)}"

lemma own_keys_of:
  assumes "names_ok p"
  shows "pt_segment_key p i \<in> own_keys p" "pt_manifest_key p \<in> own_keys p" "log_key (pt_log p) \<in> own_keys p"
proof -
  have n: "ident_ok (pt_tenant p)" "ident_ok (pt_database p)" "ident_ok (pt_table p)"
    "pt_manifest_key p = manifest_key (pt_tenant p) (pt_database p) (pt_table p) (pt_id p)"
    "log_key (pt_log p) = wal_key (pt_tenant p) (pt_database p) (pt_table p) (pt_id p)"
    using assms by (simp_all add: names_ok_def)
  show "pt_segment_key p i \<in> own_keys p" "pt_manifest_key p \<in> own_keys p" "log_key (pt_log p) \<in> own_keys p"
    using split_key [OF n(1-3)] by (simp_all add: own_keys_def n(4,5) pt_segment_key_def)
qed

lemma own_keys_disjoint:
  assumes "pt_tenant q = pt_tenant p" "pt_database q = pt_database p" "pt_table q = pt_table p" "pt_id q \<noteq> pt_id p"
  shows "own_keys q \<inter> own_keys p = {}"
proof -
  have eq: "ys = zs" if "prefix (xs @ [ys]) ws" "prefix (xs @ [zs]) ws" for xs ys zs and ws :: "string list"
    using that by (auto simp: prefix_def)
  have "False" if "k \<in> own_keys q" "k \<in> own_keys p" for k
  proof -
    have "''p'' @ show_nat (pt_id q) = ''p'' @ show_nat (pt_id p)"
      using that unfolding own_keys_def assms(1-3) by (intro eq) simp_all
    then show False using assms(4) by simp
  qed
  then show ?thesis by blast
qed

lemma segs_ok_others:
  assumes "segs_ok L s schema (pt_segment_key p) limit R ms" "names_ok p" "others_same K s s'"
    and "\<And>m. m \<in> set ms \<Longrightarrow> pt_segment_key p (seg_id m) \<notin> K"
    and "\<And>m. m \<in> set ms \<Longrightarrow> R' (seg_id m) = R (seg_id m)" "limit \<le> limit'"
  shows "segs_ok L s' schema (pt_segment_key p) limit' R' ms"
proof (rule segs_ok_frame [OF assms(1) _ assms(5,6)])
  fix m assume m: "m \<in> set ms"
  then show "map_of (files s') (seg_key m) = map_of (files s) (seg_key m)"
    using assms(3) assms(4) [OF m] segs_okD(3) [OF assms(1) m] pt_keys(5) [OF assms(2)]
    by (simp add: others_same_def)
qed

lemma pt_segment_key_state [simp]: "pt_segment_key (with_state p st) = pt_segment_key p"
  by (simp add: fun_eq_iff pt_segment_key_def with_state_def)

lemma with_state_fields [simp]:
  "pt_state (with_state p st) = st" "pt_log (with_state p st) = pt_log p"
  "pt_manifest_key (with_state p st) = pt_manifest_key p" "pt_table (with_state p st) = pt_table p"
  "pt_id (with_state p st) = pt_id p" "pt_config (with_state p st) = pt_config p"
  "with_state (with_state p st) st' = with_state p st'" "names_ok (with_state p st) = names_ok p"
  "pt_tenant (with_state p st) = pt_tenant p" "pt_database (with_state p st) = pt_database p"
  "own_keys (with_state p st) = own_keys p"
  by (simp_all add: with_state_def names_ok_def own_keys_def)

lemma flush_segment_ok:
  assumes inv: "part_inv L s p R"
    and b: "mt_concat (sl_arrow L) (ps_memtable (pt_state p)) = Inr (Some b)"
    and keep: "keep = live_ordinals b (ps_mem_suppressed (pt_state p))"
  obtains s' p' m R' index where
    "flush_segment L b keep (s, p) = Inr (ps_next_segment (pt_state p), (s', p'))"
    "with_state p' (clear_memtable (pt_state p')) = with_state p (flushed_state (pt_state p) m index)"
    "part_inv L s' (with_state p (flushed_state (pt_state p) m index)) R'"
    "seg_part R' (flushed_state (pt_state p) m index) = partition_rows L (s, p)"
    "others_same {pt_segment_key p (ps_next_segment (pt_state p))} s s'"
    "seg_id m = ps_next_segment (pt_state p)"
proof -
  let ?st = "pt_state p" and ?key = "pt_segment_key p (ps_next_segment (pt_state p))"
  let ?sid = "ps_next_segment ?st" and ?pk = "pk_indices (ps_schema ?st)" and ?M = "mem_rows (ps_memtable ?st)"
  note I = part_invD [OF inv]
  note S = st_invD [OF I(5)]
  obtain b' where "mt_concat (sl_arrow L) (ps_memtable ?st) = Inr (Some b')" "batch_fits (ps_schema ?st) b'" "brows b' = ?M"
    using mt_concat_eq [OF storage_okD(1) [OF I(1)] S(2)] b by force
  then have bf: "batch_fits (ps_schema ?st) b" and bM: "brows b = ?M" using b by simp_all
  then have bo: "batch_ok b" by (simp add: batch_fits_def)
  have kp: "keep = filter (\<lambda>i. i \<notin> ps_mem_suppressed ?st) [0..<length ?M]"
    using keep bM by (simp add: live_ordinals_def num_rows_def)
  obtain c where c: "survivors (sl_arrow L) b keep = Inr c" "bfields c = bfields b" "brows c = map (\<lambda>i. ?M ! i) keep"
    using survivors_eq [OF storage_okD(1) [OF I(1)] bo keep] bM by metis
  have cf: "batch_fits (ps_schema ?st) c"
    by (rule batch_fits_sub [OF bf _ c(2) refl]) (use c(3) bM kp in auto)
  obtain s' m where w: "write_segment (sl_math L) (sl_arrow L) s ?key ?sid (ps_schema ?st) c = Inr (s', m)" "store_ok s'"
    "\<And>k. k \<noteq> ?key \<Longrightarrow> map_of (files s') k = map_of (files s) k"
    "seg_id m = ?sid" "seg_key m = ?key" "stored L s' (ps_schema ?st) (R(?sid := brows c)) m"
    by (rule write_new_segment [OF I(1,2) S(1) cf plain_object [OF seg_key_object [OF I(3), of ?sid]], of ?sid R])
      (rule that; assumption)
  let ?R = "R(?sid := brows c)"
  define index where "index = (if ?pk = [] then ps_key_index ?st
    else relocate_all (moves ?pk (seg_locator ?sid) (map (\<lambda>i. (mem_locator i, ?M ! i)) keep)) (ps_key_index ?st))"
  let ?st' = "flushed_state ?st m index"
  have oth: "others_same {?key} s s'" using w(3) by (simp add: others_same_def)
  have fresh: "seg_id x \<noteq> ?sid" if "x \<in> set (map se_meta (ps_segments ?st))" for x
    using segs_okD(4) [OF S(3) that] by simp
  have new: "\<forall>e \<in> set (ps_segments ?st). seg_id (se_meta e) \<noteq> seg_id m" using fresh w(4) by simp
  have view: "state_ok ?pk ?R [] ?st'" "seg_part ?R ?st' = contents R ?M ?st"
    using flush_view [OF S(4) new] unfolding w(4) c(3) kp index_def by simp_all
  have "segs_ok L s' (ps_schema ?st) (pt_segment_key p) ?sid ?R (map se_meta (ps_segments ?st))"
    by (rule segs_ok_others [OF S(3) I(3) oth]) (use fresh pt_keys(1) [OF I(3)] in auto)
  then have segs: "segs_ok L s' (ps_schema ?st) (pt_segment_key p) (?sid + 1) ?R (map se_meta (ps_segments ?st'))"
    using segs_ok_snoc [OF _ w(6)] w(4,5) by (simp add: flushed_state_def)
  have inv': "part_inv L s' (with_state p ?st') ?R"
    using I S segs view(1) w(2,4)
    by (simp add: part_inv_def st_inv_def flushed_state_def memtable_ok_def mt_clear_def mem_rows_def)
  have key: "key_at b pk i = row_key pk (?M ! i)" for pk i using bM by (simp add: key_at_def)
  have "flush_segment L b keep (s, p) = Inr (?sid, (s', with_state p (?st\<lparr>ps_key_index := index,
      ps_segments := ps_segments ?st @ [\<lparr>se_meta = m, se_suppressed = {}\<rparr>], ps_next_segment := ?sid + 1\<rparr>)))"
    using c(1) w(1) pk_nil_iff [OF S(1)] moves_map_enumerate [of ?pk ?M mem_locator "seg_locator ?sid" keep]
    by (simp add: flush_segment_def Let_def index_def key)
  then show ?thesis
    using inv' view(2) oth w(4)
    by (intro that) (auto simp: flushed_state_def clear_memtable_def partition_rows_eq [OF inv])
qed

end
