(* ===== verification/PartitionDisk.thy ===== *)
theory PartitionDisk
  imports PartitionFlush
begin

text \<open>
  The published state of a partition: what a committed manifest says when it is loaded back, and
  the invariant that ties manifest, log and memory together.
\<close>

section \<open>The manifest of a state\<close>

lemma set_suppressed_fields [simp]:
  "mf_segments (set_suppressed L m i b) = mf_segments m" "mf_applied_lsn (set_suppressed L m i b) = mf_applied_lsn m"
  "mf_next_segment (set_suppressed L m i b) = mf_next_segment m" "mf_format (set_suppressed L m i b) = mf_format m"
  by (simp_all add: set_suppressed_def)

lemma set_suppressed_get:
  assumes "bitmap_codec_ok L" "bt_ok (mf_suppressed m)" "finite b"
  shows "bt_ok (mf_suppressed (set_suppressed L m i b)) \<and>
    suppressed_bitmap L (set_suppressed L m i b) j = (if j = i then Inr b else suppressed_bitmap L m j)"
proof -
  have "bitmap_read L (bitmap_write L b) = Some b" using assms(1,3) by (simp add: bitmap_codec_ok_def)
  then show ?thesis
    using bt.get_insert [OF assms(2)] bt.get_remove [OF assms(2)] bt.ok_insert [OF assms(2)] bt.ok_remove [OF assms(2)]
    by (simp add: set_suppressed_def suppressed_bitmap_def b64_decode_encode)
qed

lemma manifest_fold:
  fixes es :: "segment_entry list"
  assumes "bitmap_codec_ok L" "bt_ok (mf_suppressed m)" "\<forall>e \<in> set es. finite (se_suppressed e)"
    "distinct (map (\<lambda>e. seg_id (se_meta e)) es)"
  defines "m' \<equiv> foldl (\<lambda>m e. set_suppressed L (m\<lparr>mf_segments := mf_segments m @ [se_meta e]\<rparr>)
                        (seg_id (se_meta e)) (se_suppressed e)) m es"
  shows "mf_segments m' = mf_segments m @ map se_meta es \<and> mf_applied_lsn m' = mf_applied_lsn m \<and>
    mf_next_segment m' = mf_next_segment m \<and> mf_format m' = mf_format m \<and>
    (\<forall>e \<in> set es. suppressed_bitmap L m' (seg_id (se_meta e)) = Inr (se_suppressed e)) \<and>
    (\<forall>j. j \<notin> (\<lambda>e. seg_id (se_meta e)) ` set es \<longrightarrow> suppressed_bitmap L m' j = suppressed_bitmap L m j)"
  using assms(2-4) unfolding m'_def
proof (induction es arbitrary: m)
  case (Cons e es)
  let ?m = "set_suppressed L (m\<lparr>mf_segments := mf_segments m @ [se_meta e]\<rparr>) (seg_id (se_meta e)) (se_suppressed e)"
  have g: "bt_ok (mf_suppressed ?m)"
    "\<And>j. suppressed_bitmap L ?m j = (if j = seg_id (se_meta e) then Inr (se_suppressed e) else suppressed_bitmap L m j)"
    using set_suppressed_get [OF assms(1), of "m\<lparr>mf_segments := mf_segments m @ [se_meta e]\<rparr>" "se_suppressed e" "seg_id (se_meta e)"]
      Cons.prems by (simp_all add: suppressed_bitmap_def)
  have "distinct (map (\<lambda>e. seg_id (se_meta e)) es)" "\<forall>e \<in> set es. finite (se_suppressed e)" using Cons.prems by simp_all
  from Cons.IH [OF g(1) this(2,1)] show ?case using g(2) Cons.prems(3) by auto
qed simp

lemma manifest_of_spec:
  assumes "storage_ok L" "\<forall>e \<in> set (ps_segments (pt_state p)). finite (se_suppressed e)"
    "distinct (map (\<lambda>e. seg_id (se_meta e)) (ps_segments (pt_state p)))"
  shows "mf_segments (manifest_of L p) = map se_meta (ps_segments (pt_state p))"
    "mf_applied_lsn (manifest_of L p) = ps_applied_lsn (pt_state p)"
    "mf_next_segment (manifest_of L p) = ps_next_segment (pt_state p)"
    "mf_format (manifest_of L p) = manifest_format"
    "e \<in> set (ps_segments (pt_state p)) \<Longrightarrow> suppressed_bitmap L (manifest_of L p) (seg_id (se_meta e)) = Inr (se_suppressed e)"
  using manifest_fold [OF storage_okD(4) [OF assms(1)] _ assms(2,3), of "(new_manifest (pt_id p) (version (ps_schema (pt_state p))))
      \<lparr>mf_applied_lsn := ps_applied_lsn (pt_state p), mf_next_segment := ps_next_segment (pt_state p)\<rparr>"]
  by (simp_all add: manifest_of_def Let_def new_manifest_def bt_ok_def)

section \<open>The manifest on disk\<close>

text \<open>
  \<open>published L s key applied next es\<close>: loading the manifest under \<open>key\<close> gives the entries \<open>es\<close>
  (metadata and bitmaps), or there is none and the partition is new.
\<close>

definition published :: "storage_lib \<Rightarrow> fs_store \<Rightarrow> string \<Rightarrow> nat \<Rightarrow> nat \<Rightarrow> segment_entry list \<Rightarrow> bool" where
  "published L s key applied nxt es \<longleftrightarrow>
     (case map_of (files s) key of
        None \<Rightarrow> applied = 0 \<and> nxt = 1 \<and> es = []
      | Some bs \<Rightarrow> (\<exists>m. manifest_parse L bs = Some m \<and> mf_format m = manifest_format \<and>
          mf_applied_lsn m = applied \<and> mf_next_segment m = nxt \<and> mf_segments m = map se_meta es \<and>
          list_all meta_plain (mf_segments m) \<and>
          (\<forall>e \<in> set es. suppressed_bitmap L m (seg_id (se_meta e)) = Inr (se_suppressed e))))"

definition same_entries :: "segment_entry list \<Rightarrow> segment_entry list \<Rightarrow> bool" where
  "same_entries es es' \<longleftrightarrow> list_all2 (\<lambda>e e'. same_meta (se_meta e) (se_meta e') \<and> se_suppressed e = se_suppressed e') es es'"

lemma same_entries_visible: "same_entries es es' \<Longrightarrow> seg_visible R es' = seg_visible R es"
proof -
  assume "same_entries es es'"
  then show ?thesis
    unfolding same_entries_def
    by (induction rule: list_all2_induct) (simp_all add: same_meta_def seg_live_def)
qed

lemma segs_ok_same:
  assumes "segs_ok L s schema key_of limit R ms" "list_all2 same_meta ms ms'" "list_all meta_plain ms'"
  shows "segs_ok L s schema key_of limit R ms'"
proof -
  have "map seg_id ms' = map seg_id ms"
    using assms(2) by (induction rule: list_all2_induct) (simp_all add: same_meta_def)
  moreover have "stored L s schema R m' \<and> seg_key m' = key_of (seg_id m') \<and> seg_id m' < limit" if m': "m' \<in> set ms'" for m'
  proof -
    obtain m where m: "m \<in> set ms" "same_meta m m'"
      using assms(2) m' by (metis list_all2_conv_all_nth in_set_conv_nth)
    have "meta_plain m'" using assms(3) m' by (simp add: list_all_iff)
    then show ?thesis using assms(1) m by (auto simp: segs_ok_def stored_def same_meta_def)
  qed
  ultimately show ?thesis using assms(1) by (simp add: segs_ok_def)
qed

lemma part_inv_finite:
  assumes "part_inv L s p R" "e \<in> set (ps_segments (pt_state p))"
  shows "finite (se_suppressed e)"
  using part_invD(5) [OF assms(1)] assms(2) finite_subset by (fastforce simp: st_inv_def state_ok_def addr_ok_def)

lemma same_manifest_bitmap: "same_manifest m n \<Longrightarrow> suppressed_bitmap L n = suppressed_bitmap L m"
  by (simp add: fun_eq_iff same_manifest_def suppressed_bitmap_def)

lemma part_inv_store:
  assumes "part_inv L s p R" "others_same K s s'" "store_ok s'"
    and "\<And>i. i \<in> (\<lambda>e. seg_id (se_meta e)) ` set (ps_segments (pt_state p)) \<Longrightarrow> pt_segment_key p i \<notin> K"
  shows "part_inv L s' p R"
  using assms segs_ok_others [OF st_invD(3) [OF part_invD(5) [OF assms(1)]] part_invD(3) [OF assms(1)] assms(2)]
  by (force simp: part_inv_def st_inv_def)

text \<open>Committing publishes the entries of the state and touches no other object.\<close>

lemma commit_manifest_ok:
  assumes inv: "part_inv L s p R"
  obtains s' es where "commit_manifest L (s, p) = Inr s'" "store_ok s'"
    "others_same {pt_manifest_key p} s s'" "part_inv L s' p R"
    "published L s' (pt_manifest_key p) (ps_applied_lsn (pt_state p)) (ps_next_segment (pt_state p)) es"
    "same_entries (ps_segments (pt_state p)) es"
proof -
  let ?st = "pt_state p" and ?k = "pt_manifest_key p" and ?m = "manifest_of L p"
  note I = part_invD [OF inv]
  note S = st_invD [OF I(5)]
  have d: "distinct (map (\<lambda>e. seg_id (se_meta e)) (ps_segments ?st))"
    using segs_okD(1) [OF S(3)] by (simp add: comp_def)
  have fin: "\<forall>e \<in> set (ps_segments ?st). finite (se_suppressed e)" using part_inv_finite [OF inv] by blast
  note spec = manifest_of_spec [OF I(1) fin d]
  have "list_all meta_plain (mf_segments ?m)"
    using segs_okD(2) [OF S(3)] by (auto simp: spec(1) list_all_iff stored_def)
  then obtain n where n: "manifest_parse L (manifest_json L ?m) = Some n" "same_manifest ?m n" "list_all meta_plain (mf_segments n)"
    using storage_okD(3) [OF I(1)] unfolding manifest_codec_ok_def by blast
  obtain s' where s': "store_put_atomic s ?k (manifest_json L ?m) = Inr s'" "store_ok s'"
    "map_of (files s') = ((map_of (files s))(temp_key (pid s) (counter s) ?k := None))(?k \<mapsto> manifest_json L ?m)"
    using store_put_atomic_eq [OF I(2) pt_keys(6) [OF I(3)]] .
  have oth: "others_same {?k} s s'"
    unfolding others_same_def s'(3) using temp_key_not_plain [of "pid s" "counter s" ?k] by auto
  define es where "es = map2 (\<lambda>m e. \<lparr>se_meta = m, se_suppressed = se_suppressed e\<rparr>) (mf_segments n) (ps_segments ?st)"
  have ms: "list_all2 same_meta (map se_meta (ps_segments ?st)) (mf_segments n)"
    using n(2) spec(1) by (simp add: same_manifest_def)
  then have len: "length (mf_segments n) = length (ps_segments ?st)" by (metis length_map list_all2_lengthD)
  have same: "same_entries (ps_segments ?st) es"
    using ms len by (auto simp: same_entries_def es_def list_all2_conv_all_nth)
  have metas: "mf_segments n = map se_meta es"
    using len by (intro nth_equalityI) (simp_all add: es_def)
  have "suppressed_bitmap L n (seg_id (se_meta e')) = Inr (se_suppressed e')" if e': "e' \<in> set es" for e'
  proof -
    obtain i where i: "i < length es" "es ! i = e'" using e' by (metis in_set_conv_nth)
    then have i': "i < length (ps_segments ?st)" using len by (simp add: es_def)
    have "same_meta (se_meta (ps_segments ?st ! i)) (se_meta e')" "se_suppressed (ps_segments ?st ! i) = se_suppressed e'"
      using same i i' by (auto simp: same_entries_def list_all2_conv_all_nth)
    then show ?thesis
      using spec(5) [of "ps_segments ?st ! i"] i' same_manifest_bitmap [OF n(2), of L] by (simp add: same_meta_def)
  qed
  then have "published L s' ?k (ps_applied_lsn ?st) (ps_next_segment ?st) es"
    using n spec s'(3) metas by (auto simp: published_def same_manifest_def)
  moreover have "part_inv L s' p R"
    by (rule part_inv_store [OF inv oth s'(2)]) (use pt_keys(2) [OF I(3)] in auto)
  ultimately show ?thesis
    using that [of s' es] s'(1,2) oth same by (simp add: commit_manifest_def manifest_save_def)
qed

end
