(* ===== verification/PartitionMerge.thy ===== *)
theory PartitionMerge
  imports PartitionDisk "HOL-Library.Multiset"
begin

text \<open>
  Compaction: the merged segment holds exactly the live rows of its inputs, their index entries
  follow them, and the rows of the partition are the same up to order.
\<close>

section \<open>The rows of a merge\<close>

lemma filter_nonempty_live: "live mk rows dead = [] \<longleftrightarrow> filter (\<lambda>i. i \<notin> dead) [0..<length rows] = []"
  by (simp add: live_def)

lemma kept_rows_eq:
  assumes "storage_ok L" "store_ok s" "schema_ok schema"
    and "\<forall>e \<in> set es. stored L s schema R (se_meta e) \<and> object_key (seg_key (se_meta e))"
  obtains kept where "kept_rows L s schema es = Inr kept"
    "concat (map (\<lambda>(_, b, _). brows b) kept) = map snd (seg_visible R es)"
    "\<forall>(_, b, _) \<in> set kept. batch_fits schema b \<and> brows b \<noteq> []"
    "\<And>pk. concat (map (\<lambda>(old_id, sv, keep). map (\<lambda>(row, old). (key_at sv pk row, seg_locator old_id old)) (enumerate 0 keep)) kept)
      = map (\<lambda>(l, r). (row_key pk r, l)) (seg_visible R es)"
proof -
  let ?f = "\<lambda>e. rbind (read_segment (sl_arrow L) s (se_meta e) schema (Some (column_names schema))) (\<lambda>b.
       let keep = live_ordinals b (se_suppressed e) in
       if keep = [] then Inr []
       else rmap (\<lambda>sv. [(seg_id (se_meta e), sv, keep)]) (survivors (sl_arrow L) b keep))"
  have one: "\<exists>k. ?f e = Inr k \<and> concat (map (\<lambda>(_, b, _). brows b) k) = map snd (seg_live R e) \<and>
      (\<forall>(_, b, _) \<in> set k. batch_fits schema b \<and> brows b \<noteq> []) \<and>
      (\<forall>pk. concat (map (\<lambda>(old_id, sv, keep). map (\<lambda>(row, old). (key_at sv pk row, seg_locator old_id old)) (enumerate 0 keep)) k)
        = map (\<lambda>(l, r). (row_key pk r, l)) (seg_live R e))"
    if e: "stored L s schema R (se_meta e)" "object_key (seg_key (se_meta e))" for e
  proof -
    let ?i = "seg_id (se_meta e)"
    let ?b = "\<lparr>bfields = arrow_schema schema, brows = R ?i\<rparr>"
    note rd = read_all_columns [OF assms(1,2) e assms(3)]
    define keep where "keep = live_ordinals ?b (se_suppressed e)"
    have X: "seg_live R e = map (\<lambda>i. (seg_locator ?i i, R ?i ! i)) keep"
      by (simp add: seg_live_def live_def keep_def live_ordinals_def num_rows_def)
    show ?thesis
    proof (cases "keep = []")
      case True
      then show ?thesis using rd(1) X by (simp add: keep_def)
    next
      case False
      have "batch_ok ?b" using rd(2) by (simp add: batch_fits_def)
      then obtain c where c: "survivors (sl_arrow L) ?b keep = Inr c" "bfields c = bfields ?b" "brows c = map (\<lambda>i. R ?i ! i) keep"
        using survivors_eq [OF storage_okD(1) [OF assms(1)] _ keep_def] by (metis batch.select_convs(2))
      have "batch_fits schema c"
        by (rule batch_fits_sub [OF rd(2) _ c(2) refl]) (auto simp: c(3) keep_def live_ordinals_def num_rows_def)
      moreover have "map (\<lambda>(row, old). (key_at c pk row, seg_locator ?i old)) (enumerate 0 keep) =
          map (\<lambda>(l, r). (row_key pk r, l)) (seg_live R e)" for pk
        by (rule nth_equalityI) (simp_all add: X nth_enumerate_eq key_at_def c(3))
      moreover have "?f e = Inr [(?i, c, keep)]"
        using rd(1) c(1) False by (simp add: keep_def Let_def)
      ultimately show ?thesis using c(3) X False by (simp add: comp_def)
    qed
  qed
  have "\<exists>ks. mapM ?f es = Inr ks \<and> concat (map (\<lambda>(_, b, _). brows b) (concat ks)) = map snd (seg_visible R es) \<and>
      (\<forall>(_, b, _) \<in> set (concat ks). batch_fits schema b \<and> brows b \<noteq> []) \<and>
      (\<forall>pk. concat (map (\<lambda>(old_id, sv, keep). map (\<lambda>(row, old). (key_at sv pk row, seg_locator old_id old)) (enumerate 0 keep)) (concat ks))
        = map (\<lambda>(l, r). (row_key pk r, l)) (seg_visible R es))"
    using assms(4)
  proof (induction es)
    case (Cons e es)
    obtain k where k: "?f e = Inr k" "concat (map (\<lambda>(_, b, _). brows b) k) = map snd (seg_live R e)"
      "\<forall>(_, b, _) \<in> set k. batch_fits schema b \<and> brows b \<noteq> []"
      "\<And>pk. concat (map (\<lambda>(old_id, sv, keep). map (\<lambda>(row, old). (key_at sv pk row, seg_locator old_id old)) (enumerate 0 keep)) k)
        = map (\<lambda>(l, r). (row_key pk r, l)) (seg_live R e)"
      using one [of e] Cons.prems by auto
    obtain ks where ks: "mapM ?f es = Inr ks" "concat (map (\<lambda>(_, b, _). brows b) (concat ks)) = map snd (seg_visible R es)"
      "\<forall>(_, b, _) \<in> set (concat ks). batch_fits schema b \<and> brows b \<noteq> []"
      "\<And>pk. concat (map (\<lambda>(old_id, sv, keep). map (\<lambda>(row, old). (key_at sv pk row, seg_locator old_id old)) (enumerate 0 keep)) (concat ks))
        = map (\<lambda>(l, r). (row_key pk r, l)) (seg_visible R es)"
      using Cons by auto
    have "mapM ?f (e # es) = Inr (k # ks)" using k(1) ks(1) by simp
    then show ?case using k(2-4) ks(2-4) by (intro exI [of _ "k # ks"]) (auto simp del: mapM.simps)
  qed simp
  then obtain ks where ks: "mapM ?f es = Inr ks" "concat (map (\<lambda>(_, b, _). brows b) (concat ks)) = map snd (seg_visible R es)"
      "\<forall>(_, b, _) \<in> set (concat ks). batch_fits schema b \<and> brows b \<noteq> []"
      "\<And>pk. concat (map (\<lambda>(old_id, sv, keep). map (\<lambda>(row, old). (key_at sv pk row, seg_locator old_id old)) (enumerate 0 keep)) (concat ks))
        = map (\<lambda>(l, r). (row_key pk r, l)) (seg_visible R es)"
    by blast
  show ?thesis
    by (rule that [of "concat ks"]) (use ks in \<open>simp_all add: kept_rows_def\<close>)
qed

lemma merge_batches_eq:
  assumes "storage_ok L" "bs \<noteq> []" "\<forall>b \<in> set bs. batch_fits schema b"
  obtains c where "merge_batches (sl_arrow L) bs = Inr c" "batch_fits schema c" "brows c = concat (map brows bs)"
proof (cases bs rule: remdups_adj.cases)
  case 1
  then show ?thesis using assms(2) by simp
next
  case (2 b)
  then show ?thesis using that [of b] assms(3) by (simp add: merge_batches_def)
next
  case (3 b c bs')
  let ?m = "\<lparr>bfields = arrow_schema schema, brows = concat (map brows bs)\<rparr>"
  have "concat_batches (sl_arrow L) (arrow_schema schema) bs = Inr ?m"
    by (rule arrow_concat [OF storage_okD(1) [OF assms(1)] assms(2)]) (use assms(3) in \<open>simp add: batch_fits_def\<close>)
  moreover have "bfields (hd bs) = arrow_schema schema" using 3 assms(3) by (simp add: batch_fits_def)
  moreover have "batch_fits schema ?m" using assms(3) 3 by (auto simp: batch_fits_def batch_ok_def list_all_iff)
  ultimately show ?thesis using that [of ?m] 3 by (simp add: merge_batches_def)
qed

section \<open>The state after a merge\<close>

definition merged_state ::
    "partition_state \<Rightarrow> nat set \<Rightarrow> segment_entry list \<Rightarrow> nat \<Rightarrow> key_index \<Rightarrow> partition_state" where
  "merged_state st ids new nxt index = st\<lparr>ps_key_index := index,
     ps_segments := filter (\<lambda>e. seg_id (se_meta e) \<notin> ids) (ps_segments st) @ new, ps_next_segment := nxt\<rparr>"

lemma seg_visible_filter_mset:
  "mset (seg_visible R es) = mset (seg_visible R (filter P es)) + mset (seg_visible R (filter (\<lambda>e. \<not> P e) es))"
  by (induction es) auto

lemma merge_view:
  assumes st: "state_ok pk R M st"
    and new: "\<forall>e \<in> set (ps_segments st). seg_id (se_meta e) < seg_id m"
  fixes ids
  defines "X \<equiv> seg_visible R (filter (\<lambda>e. seg_id (se_meta e) \<in> ids) (ps_segments st))"
  defines "R' \<equiv> R(seg_id m := map snd X)"
  defines "index \<equiv> if pk = [] then ps_key_index st
    else relocate_all (moves pk (seg_locator (seg_id m)) X) (ps_key_index st)"
  defines "entries \<equiv> if X = [] then [] else [\<lparr>se_meta = m, se_suppressed = {}\<rparr>]"
  shows "state_ok pk R' M (merged_state st ids entries nxt index)"
    "mset (seg_part R' (merged_state st ids entries nxt index)) = mset (seg_part R st)"
    "mem_part M (merged_state st ids entries nxt index) = mem_part M st"
    "set (seg_part R' (merged_state st ids entries nxt index)) = set (seg_part R st)"
proof -
  let ?st = "merged_state st ids entries nxt index"
  let ?keep = "filter (\<lambda>e. seg_id (se_meta e) \<notin> ids) (ps_segments st)"
  have a: "addr_ok R M st" using st by (simp add: state_ok_def)
  have segs: "seg_visible R' (filter P (ps_segments st)) = seg_visible R (filter P (ps_segments st))" for P
    using new by (intro seg_visible_cong) (auto simp: R'_def)
  have newv: "seg_visible R' entries = map (\<lambda>i. (seg_locator (seg_id m) i, map snd X ! i)) [0..<length X]"
    by (simp add: entries_def seg_live_def live_all R'_def)
  have V: "visible R' M ?st = seg_visible R ?keep @
      map (\<lambda>i. (seg_locator (seg_id m) i, map snd X ! i)) [0..<length X] @ live mem_locator M (ps_mem_suppressed st)"
    using segs newv by (simp add: visible_def merged_state_def)
  have sp: "seg_part R' ?st = map snd (seg_visible R ?keep) @ map snd X"
    using segs newv map_nth [of "map snd X"] by (simp add: seg_part_def merged_state_def comp_def)
  show ms: "mset (seg_part R' ?st) = mset (seg_part R st)"
    unfolding sp unfolding seg_part_def mset_append mset_map X_def
      seg_visible_filter_mset [of R "ps_segments st" "\<lambda>e. seg_id (se_meta e) \<in> ids"] by simp
  then show "set (seg_part R' ?st) = set (seg_part R st)" by (metis set_mset_mset)
  show "mem_part M ?st = mem_part M st" by (simp add: mem_part_def merged_state_def)
  have a': "addr_ok R' M ?st"
    using a new by (auto simp: addr_ok_def merged_state_def R'_def entries_def distinct_map_filter)
  show "state_ok pk R' M ?st"
  proof (cases "pk = []")
    case True
    then show ?thesis using st a' by (simp add: state_ok_def merged_state_def index_def)
  next
    case False
    have ix: "index_ok pk (visible R M st) (ps_key_index st)" using st False by (simp add: state_ok_def)
    have "index_ok pk (visible R' M ?st) (relocate_all (moves pk (seg_locator (seg_id m)) X) (ps_key_index st))"
    proof (rule moves_index [OF ix visible_distinct [OF a]])
      have sub: "set (seg_visible R (filter P es)) \<subseteq> set (seg_visible R es)" for P es
        by (auto simp: seg_visible_def)
      then show "set X \<subseteq> set (visible R M st)" by (auto simp: X_def visible_def)
      have "mset (map fst (visible R M st)) = mset (map fst X) + mset (map fst (seg_visible R ?keep)) +
          mset (map fst (live mem_locator M (ps_mem_suppressed st)))"
        unfolding visible_def X_def mset_append mset_map map_append
          seg_visible_filter_mset [of R "ps_segments st" "\<lambda>e. seg_id (se_meta e) \<in> ids"] by simp
      also have "\<dots> = mset (map fst X @ map fst (seg_visible R ?keep) @
          map fst (live mem_locator M (ps_mem_suppressed st)))" by simp
      finally have d: "distinct (map fst X @ map fst (seg_visible R ?keep) @
          map fst (live mem_locator M (ps_mem_suppressed st)))"
        using visible_distinct [OF a] mset_eq_imp_distinct_iff by blast
      then show "distinct (map fst X)" by simp
      have "set (visible R M st) = set X \<union> set (seg_visible R ?keep) \<union> set (live mem_locator M (ps_mem_suppressed st))"
        unfolding visible_def X_def
        using seg_visible_filter_mset [of R "ps_segments st" "\<lambda>e. seg_id (se_meta e) \<in> ids"]
        by (metis set_append set_mset_mset set_mset_union)
      moreover have "set X \<inter> set ys = {}" if "fst ` set X \<inter> fst ` set ys = {}" for ys
        using that by blast
      moreover have "fst ` set X \<inter> fst ` set (seg_visible R ?keep) = {}"
        "fst ` set X \<inter> fst ` set (live mem_locator M (ps_mem_suppressed st)) = {}"
        using d by auto
      ultimately have "set (visible R M st) - set X = set (seg_visible R ?keep) \<union> set (live mem_locator M (ps_mem_suppressed st))"
        by blast
      moreover have "map (\<lambda>(n, x). (seg_locator (seg_id m) n, snd x)) (enumerate 0 X) =
          map (\<lambda>i. (seg_locator (seg_id m) i, map snd X ! i)) [0..<length X]"
        by (rule nth_equalityI) (simp_all add: nth_enumerate_eq)
      ultimately show "set (visible R' M ?st) = (set (visible R M st) - set X) \<union>
          set (map (\<lambda>(n, x). (seg_locator (seg_id m) n, snd x)) (enumerate 0 X))"
        by (simp only: V set_append Un_ac)
    qed
    then show ?thesis using a' False by (simp add: state_ok_def merged_state_def index_def visible_def)
  qed
qed

section \<open>The inputs\<close>

lemma set_map_filter: "set (List.map_filter f xs) = {y. \<exists>x \<in> set xs. f x = Some y}"
  by (induction xs) (auto simp: map_filter_simps split: option.splits)

lemma sort_key_sub:
  fixes es :: "segment_entry list"
  assumes "sorted_wrt (<) (map (\<lambda>e. seg_id (se_meta e)) es)" "distinct ids"
  shows "sort_key (\<lambda>e. seg_id (se_meta e)) (List.map_filter (\<lambda>i. find (\<lambda>e. seg_id (se_meta e) = i) es) ids) =
    filter (\<lambda>e. seg_id (se_meta e) \<in> set ids) es"
proof (rule map_sorted_distinct_set_unique [where f = "\<lambda>e. seg_id (se_meta e)"])
  let ?f = "\<lambda>e::segment_entry. seg_id (se_meta e)"
  let ?xs = "List.map_filter (\<lambda>i. find (\<lambda>e. ?f e = i) es) ids"
  have de: "distinct (map ?f es)" using assms(1) strict_sorted_iff by blast
  have found: "find (\<lambda>e. ?f e = i) es = Some e \<longleftrightarrow> e \<in> set es \<and> ?f e = i" for i e
    using find_unique [OF de, of e] find_Some_set [of "\<lambda>e. ?f e = i" es e] by auto
  have set_xs: "set ?xs = {e \<in> set es. ?f e \<in> set ids}"
    by (auto simp: set_map_filter found)
  have d: "distinct (map ?f ?xs)"
    using assms(2)
  proof (induction ids)
    case (Cons i ids)
    show ?case
    proof (cases "find (\<lambda>e. ?f e = i) es")
      case None
      then show ?thesis using Cons by (simp add: map_filter_simps)
    next
      case (Some e)
      have "?f e \<notin> ?f ` set (List.map_filter (\<lambda>i. find (\<lambda>e. ?f e = i) es) ids)"
        using Some Cons.prems by (auto simp: set_map_filter found)
      then show ?thesis using Cons Some by (simp add: map_filter_simps)
    qed
  qed (simp add: map_filter_simps)
  show "sorted (map ?f (sort_key ?f ?xs))" by simp
  show "distinct (map ?f (sort_key ?f ?xs))"
    using d mset_eq_imp_distinct_iff [of "map ?f (sort_key ?f ?xs)" "map ?f ?xs"] by simp
  show "sorted (map ?f (filter (\<lambda>e. ?f e \<in> set ids) es))"
    using assms(1) strict_sorted_iff sorted_filter by blast
  show "distinct (map ?f (filter (\<lambda>e. ?f e \<in> set ids) es))" using de distinct_map_filter by blast
  show "inj_on ?f (set (sort_key ?f ?xs) \<union> set (filter (\<lambda>e. ?f e \<in> set ids) es))"
    using de set_xs by (auto simp: distinct_map intro: inj_on_subset)
  show "set (sort_key ?f ?xs) = set (filter (\<lambda>e. ?f e \<in> set ids) es)" using set_xs by simp
qed

section \<open>Compaction\<close>

lemma delete_all_ok:
  assumes "store_ok s" "\<forall>k \<in> set ks. object_key k"
  obtains s' where "delete_all s ks = (Inr (), s')" "store_ok s'"
    "\<And>k. map_of (files s') k = (if k \<in> set ks then None else map_of (files s) k)"
proof -
  have "\<exists>s'. delete_all s ks = (Inr (), s') \<and> store_ok s' \<and>
      (\<forall>k. map_of (files s') k = (if k \<in> set ks then None else map_of (files s) k))"
    using assms
  proof (induction ks arbitrary: s)
    case (Cons k ks)
    obtain s1 where s1: "store_delete s k = Inr s1" "store_ok s1" "map_of (files s1) = (map_of (files s))(k := None)"
      using store_delete_eq [OF Cons.prems(1), of k] Cons.prems(2) by auto
    obtain s' where "delete_all s1 ks = (Inr (), s')" "store_ok s'"
      "\<forall>j. map_of (files s') j = (if j \<in> set ks then None else map_of (files s1) j)"
      using Cons.IH [OF s1(2)] Cons.prems(2) by auto
    then show ?case using s1 by auto
  qed simp
  then show ?thesis using that by blast
qed

lemma merge_moves_eq:
  assumes "concat (map (\<lambda>(old_id, sv, keep). map (\<lambda>(row, old). (key_at sv pk row, seg_locator old_id old)) (enumerate 0 keep)) kept)
    = map (\<lambda>(l, r). (row_key pk r, l)) X"
  shows "merge_moves pk nid kept = moves pk (seg_locator nid) X"
  unfolding merge_moves_def Let_def assms
  by (rule nth_equalityI) (simp_all add: moves_def nth_enumerate_eq case_prod_unfold)

lemma segs_ok_filter: "segs_ok L s schema key_of limit R ms \<Longrightarrow> segs_ok L s schema key_of limit R (filter P ms)"
  by (auto simp: segs_ok_def sorted_wrt_map intro: sorted_wrt_filter)

lemma part_inv_segments:
  assumes "part_inv L s p R"
  shows "\<forall>e \<in> set (ps_segments (pt_state p)). stored L s (ps_schema (pt_state p)) R (se_meta e) \<and>
      seg_key (se_meta e) = pt_segment_key p (seg_id (se_meta e)) \<and> object_key (seg_key (se_meta e)) \<and>
      seg_id (se_meta e) < ps_next_segment (pt_state p)"
    "sorted_wrt (<) (map (\<lambda>e. seg_id (se_meta e)) (ps_segments (pt_state p)))"
proof -
  note S = st_invD(3) [OF part_invD(5) [OF assms]]
  show "\<forall>e \<in> set (ps_segments (pt_state p)). stored L s (ps_schema (pt_state p)) R (se_meta e) \<and>
      seg_key (se_meta e) = pt_segment_key p (seg_id (se_meta e)) \<and> object_key (seg_key (se_meta e)) \<and>
      seg_id (se_meta e) < ps_next_segment (pt_state p)"
  proof
    fix e assume "e \<in> set (ps_segments (pt_state p))"
    then have m: "se_meta e \<in> set (map se_meta (ps_segments (pt_state p)))" by simp
    show "stored L s (ps_schema (pt_state p)) R (se_meta e) \<and>
      seg_key (se_meta e) = pt_segment_key p (seg_id (se_meta e)) \<and> object_key (seg_key (se_meta e)) \<and>
      seg_id (se_meta e) < ps_next_segment (pt_state p)"
      unfolding segs_okD(3) [OF S m]
      using segs_okD(2) [OF S m] segs_okD(4) [OF S m] plain_object [OF seg_key_object [OF part_invD(3) [OF assms]]] by blast
  qed
  show "sorted_wrt (<) (map (\<lambda>e. seg_id (se_meta e)) (ps_segments (pt_state p)))"
    using S by (simp add: segs_ok_def comp_def)
qed

text \<open>The merged segment on disk and the state that refers to it, before the manifest is published.\<close>

lemma merge_written:
  assumes inv: "part_inv L s p R" and kept: "kept_rows L s (ps_schema (pt_state p))
      (filter (\<lambda>e. seg_id (se_meta e) \<in> ids) (ps_segments (pt_state p))) = Inr kept"
    and batches: "concat (map (\<lambda>(_, b, _). brows b) kept) =
        map snd (seg_visible R (filter (\<lambda>e. seg_id (se_meta e) \<in> ids) (ps_segments (pt_state p))))"
      "\<forall>(_, b, _) \<in> set kept. batch_fits (ps_schema (pt_state p)) b \<and> brows b \<noteq> []"
  defines "nid \<equiv> ps_next_segment (pt_state p)"
  defines "X \<equiv> seg_visible R (filter (\<lambda>e. seg_id (se_meta e) \<in> ids) (ps_segments (pt_state p)))"
  obtains s' m where
    "write_merged L (s, p) kept =
      Inr (s', if X = [] then None else Some \<lparr>se_meta = m, se_suppressed = {}\<rparr>)"
    "store_ok s'" "others_same {pt_segment_key p nid} s s'" "seg_id m = nid"
    "X \<noteq> [] \<longrightarrow> seg_key m = pt_segment_key p nid \<and> stored L s' (ps_schema (pt_state p)) (R(nid := map snd X)) m"
    "kept = [] \<longleftrightarrow> X = []"
proof -
  note I = part_invD [OF inv]
  note S = st_invD [OF I(5)]
  have iff: "kept = [] \<longleftrightarrow> X = []"
    using batches by (cases kept) (auto simp: X_def)
  show ?thesis
  proof (cases "X = []")
    case True
    then show ?thesis
      using iff I(2) by (intro that [of s "\<lparr>seg_id = nid, seg_key = [], row_count = 0, seg_bytes = 0, seg_schema_version = 0, seg_columns = []\<rparr>"])
        (simp_all add: others_same_def write_merged_def)
  next
    case False
    then have "map (\<lambda>(_, b, _). b) kept \<noteq> []" "\<forall>b \<in> set (map (\<lambda>(_, b, _). b) kept). batch_fits (ps_schema (pt_state p)) b"
      using iff batches(2) by auto
    then obtain c where c: "merge_batches (sl_arrow L) (map (\<lambda>(_, b, _). b) kept) = Inr c"
      "batch_fits (ps_schema (pt_state p)) c" "brows c = concat (map brows (map (\<lambda>(_, b, _). b) kept))"
      using merge_batches_eq [OF I(1)] by blast
    have "map brows (map (\<lambda>(_, b, _). b) kept) = map (\<lambda>(_, b, _). brows b) kept" by auto
    then have cX: "brows c = map snd X" using c(3) batches(1) unfolding X_def by metis
    obtain s' m where w: "write_segment (sl_math L) (sl_arrow L) s (pt_segment_key p nid) nid (ps_schema (pt_state p)) c = Inr (s', m)"
      "store_ok s'" "\<And>k. k \<noteq> pt_segment_key p nid \<Longrightarrow> map_of (files s') k = map_of (files s) k"
      "seg_id m = nid" "seg_key m = pt_segment_key p nid" "stored L s' (ps_schema (pt_state p)) (R(nid := brows c)) m"
      by (rule write_new_segment [OF I(1,2) S(1) c(2) plain_object [OF seg_key_object [OF I(3), of nid]], of nid R])
        (rule that; assumption)
    show ?thesis
      by (rule that [of s' m]) (use w c(1) cX False iff in \<open>simp_all add: others_same_def write_merged_def nid_def\<close>)
  qed
qed

text \<open>The stages of a merge: what is read, written, published and deleted.\<close>

lemma compact_stages:
  assumes inv: "part_inv L s p R" and ids: "distinct ids"
  obtains (nothing) "compact_inputs ids (pt_state p) = []"
  | (merged) kept s1 entry st' R' s2 es s3 where
    "compact_inputs ids (pt_state p) \<noteq> []"
    "kept_rows L s (ps_schema (pt_state p)) (compact_inputs ids (pt_state p)) = Inr kept"
    "write_merged L (s, p) kept = Inr (s1, entry)" "store_ok s1"
    "others_same {pt_segment_key p (ps_next_segment (pt_state p))} s s1"
    "st' = replace_inputs (compact_inputs ids (pt_state p)) kept entry (pt_state p)"
    "part_inv L s1 (with_state p st') R'"
    "mset (seg_part R' st') = mset (seg_part R (pt_state p))"
    "mem_part (mem_rows (ps_memtable st')) st' = mem_part (mem_rows (ps_memtable (pt_state p))) (pt_state p)"
    "commit_manifest L (s1, with_state p st') = Inr s2" "store_ok s2" "others_same {pt_manifest_key p} s1 s2"
    "part_inv L s2 (with_state p st') R'"
    "published L s2 (pt_manifest_key p) (ps_applied_lsn st') (ps_next_segment st') es"
    "same_entries (ps_segments st') es"
    "delete_all s2 (map (\<lambda>e. seg_key (se_meta e)) (compact_inputs ids (pt_state p))) = (Inr (), s3)" "store_ok s3"
    "set (map (\<lambda>e. seg_key (se_meta e)) (compact_inputs ids (pt_state p))) \<subseteq>
       pt_segment_key p ` (- (\<lambda>e. seg_id (se_meta e)) ` set (ps_segments st'))"
    "others_same (set (map (\<lambda>e. seg_key (se_meta e)) (compact_inputs ids (pt_state p)))) s2 s3"
    "ps_schema st' = ps_schema (pt_state p)" "ps_applied_lsn st' = ps_applied_lsn (pt_state p)"
    "ps_last_lsn st' = ps_last_lsn (pt_state p)" "ps_memtable st' = ps_memtable (pt_state p)"
proof -
  let ?st = "pt_state p" and ?nid = "ps_next_segment (pt_state p)" and ?schema = "ps_schema (pt_state p)"
  let ?pk = "pk_indices ?schema" and ?M = "mem_rows (ps_memtable (pt_state p))"
  note I = part_invD [OF inv]
  note S = st_invD [OF I(5)]
  note G = part_inv_segments [OF inv]
  let ?in = "filter (\<lambda>e. seg_id (se_meta e) \<in> set ids) (ps_segments ?st)"
  let ?out = "filter (\<lambda>e. seg_id (se_meta e) \<notin> set ids) (ps_segments ?st)"
  note inputs = sort_key_sub [OF G(2) ids]
  show ?thesis
  proof (cases "?in = []")
    case True
    then have "compact_inputs ids (pt_state p) = []" using inputs by (simp add: compact_inputs_def)
    then show ?thesis by (rule nothing)
  next
    case False
    have "\<forall>e \<in> set ?in. stored L s ?schema R (se_meta e) \<and> object_key (seg_key (se_meta e))"
      using G(1) unfolding set_filter by blast
    then obtain kept where k: "kept_rows L s ?schema ?in = Inr kept"
      "concat (map (\<lambda>(_, b, _). brows b) kept) = map snd (seg_visible R ?in)"
      "\<forall>(_, b, _) \<in> set kept. batch_fits ?schema b \<and> brows b \<noteq> []"
      "\<And>pk. concat (map (\<lambda>(old_id, sv, keep). map (\<lambda>(row, old). (key_at sv pk row, seg_locator old_id old)) (enumerate 0 keep)) kept)
        = map (\<lambda>(l, r). (row_key pk r, l)) (seg_visible R ?in)"
      by (rule kept_rows_eq [OF I(1,2) S(1)]) (rule that; assumption)
    define X where "X = seg_visible R ?in"
    obtain s1 m where w: "write_merged L (s, p) kept =
        Inr (s1, if X = [] then None else Some \<lparr>se_meta = m, se_suppressed = {}\<rparr>)"
      "store_ok s1" "others_same {pt_segment_key p ?nid} s s1" "seg_id m = ?nid"
      "X \<noteq> [] \<longrightarrow> seg_key m = pt_segment_key p ?nid \<and> stored L s1 ?schema (R(?nid := map snd X)) m"
      "kept = [] \<longleftrightarrow> X = []"
      by (rule merge_written [OF inv k(1-3), folded X_def]) (rule that; assumption)
    define entries where "entries = (if X = [] then [] else [\<lparr>se_meta = m, se_suppressed = {}\<rparr>])"
    define index where "index = (if ?pk = [] then ps_key_index ?st
      else relocate_all (moves ?pk (seg_locator ?nid) X) (ps_key_index ?st))"
    define R' where "R' = R(?nid := map snd X)"
    define st' where "st' = merged_state ?st (set ids) entries (?nid + 1) index"
    have new: "\<forall>e \<in> set (ps_segments ?st). seg_id (se_meta e) < seg_id m" using G(1) w(4) by simp
    note view = merge_view [OF S(4) new, of "set ids" "?nid + 1"]
    have v: "state_ok ?pk R' ?M st'" "mset (seg_part R' st') = mset (seg_part R ?st)" "mem_part ?M st' = mem_part ?M ?st"
      using view unfolding w(4) st'_def R'_def index_def entries_def X_def by simp_all
    have oldkeys: "segs_ok L s1 ?schema (pt_segment_key p) ?nid R' (map se_meta ?out)"
    proof (rule segs_ok_others [OF _ I(3) w(3)])
      show "segs_ok L s ?schema (pt_segment_key p) ?nid R (map se_meta ?out)"
        using segs_ok_filter [OF S(3), of "\<lambda>m. seg_id m \<notin> set ids"] by (simp add: filter_map comp_def)
    qed (use G(1) pt_keys(1) [OF I(3)] in \<open>auto simp: R'_def\<close>)
    have "segs_ok L s1 ?schema (pt_segment_key p) (?nid + 1) R' (map se_meta ?out @ map se_meta entries)"
    proof (cases "X = []")
      case True
      then show ?thesis using oldkeys by (auto simp: entries_def segs_ok_def)
    next
      case False
      then show ?thesis using segs_ok_snoc [OF oldkeys, of m] w(4,5) by (simp add: entries_def R'_def)
    qed
    then have segs: "segs_ok L s1 ?schema (pt_segment_key p) (ps_next_segment st') R' (map se_meta (ps_segments st'))"
      by (simp add: st'_def merged_state_def)
    have f: "ps_schema st' = ?schema" "ps_memtable st' = ps_memtable ?st" "ps_applied_lsn st' = ps_applied_lsn ?st"
      "ps_last_lsn st' = ps_last_lsn ?st" by (simp_all add: st'_def merged_state_def)
    have inv1: "part_inv L s1 (with_state p st') R'"
      using I S(1,2) segs v(1) w(2) f by (simp add: part_inv_def st_inv_def)
    obtain s2 es where c: "commit_manifest L (s1, with_state p st') = Inr s2" "store_ok s2"
      "others_same {pt_manifest_key p} s1 s2" "part_inv L s2 (with_state p st') R'"
      "published L s2 (pt_manifest_key p) (ps_applied_lsn st') (ps_next_segment st') es"
      "same_entries (ps_segments st') es"
      using commit_manifest_ok [OF inv1] by auto
    have "\<forall>k \<in> set (map (\<lambda>e. seg_key (se_meta e)) ?in). object_key k" using G(1) unfolding set_map set_filter by blast
    then obtain s3 where d: "delete_all s2 (map (\<lambda>e. seg_key (se_meta e)) ?in) = (Inr (), s3)" "store_ok s3"
      "\<And>k. map_of (files s3) k = (if k \<in> set (map (\<lambda>e. seg_key (se_meta e)) ?in) then None else map_of (files s2) k)"
      using delete_all_ok [OF c(2)] by blast
    have keys: "set (map (\<lambda>e. seg_key (se_meta e)) ?in) \<subseteq> pt_segment_key p ` (set ids \<inter> {..<?nid})"
    proof
      fix k assume "k \<in> set (map (\<lambda>e. seg_key (se_meta e)) ?in)"
      then obtain e where "e \<in> set (ps_segments ?st)" "seg_id (se_meta e) \<in> set ids" "k = seg_key (se_meta e)" by auto
      then show "k \<in> pt_segment_key p ` (set ids \<inter> {..<?nid})" using G(1) by blast
    qed
    have oth: "others_same (set (map (\<lambda>e. seg_key (se_meta e)) ?in)) s2 s3" using d(3) by (auto simp: others_same_def)
    have ids': "i \<notin> set ids \<inter> {..<?nid}" if "i \<in> (\<lambda>e. seg_id (se_meta e)) ` set (ps_segments st')" for i
      using that w(4) by (auto simp: st'_def merged_state_def entries_def split: if_splits)
    have keys': "set (map (\<lambda>e. seg_key (se_meta e)) ?in) \<subseteq>
        pt_segment_key p ` (- (\<lambda>e. seg_id (se_meta e)) ` set (ps_segments st'))"
      using keys ids' by blast
    have sorted: "sorted (map (\<lambda>e. seg_id (se_meta e)) (?out @ entries))"
      using segs strict_sorted_iff by (auto simp: segs_ok_def st'_def merged_state_def comp_def)
    have mids: "filter (\<lambda>e. seg_id (se_meta e) \<notin> set (map (\<lambda>e. seg_id (se_meta e)) ?in)) (ps_segments ?st) = ?out"
      by (rule filter_cong) auto
    have rest: "sort_key (\<lambda>e. seg_id (se_meta e))
        (filter (\<lambda>e. seg_id (se_meta e) \<notin> set (map (\<lambda>e. seg_id (se_meta e)) ?in)) (ps_segments ?st) @
         (case if X = [] then None else Some \<lparr>se_meta = m, se_suppressed = {}\<rparr> of None \<Rightarrow> [] | Some e \<Rightarrow> [e])) = ?out @ entries"
      unfolding mids using sort_key_id_if_sorted [OF sorted] by (cases "X = []") (simp_all add: entries_def)
    have ix: "(if kept \<noteq> [] \<and> \<not> is_append_only ?schema
        then relocate_all (merge_moves ?pk ?nid kept) (ps_key_index ?st) else ps_key_index ?st) = index"
      using merge_moves_eq [OF k(4)] pk_nil_iff [OF S(1)] w(6)
      by (auto simp: index_def X_def moves_def relocate_all_def)
    have ci: "compact_inputs ids ?st = ?in" using inputs by (simp add: compact_inputs_def)
    have st': "st' = replace_inputs ?in kept (if X = [] then None else Some \<lparr>se_meta = m, se_suppressed = {}\<rparr>) ?st"
      using ix rest by (simp add: replace_inputs_def Let_def st'_def merged_state_def)
    show ?thesis
      by (rule merged [unfolded ci, OF False k(1) w(1-3) st' inv1 v(2) _ c d(1,2) keys' oth f(1,3,4,2)]) (simp add: v(3) f(2))
  qed
qed

lemma segment_key_outside:
  assumes "names_ok p" "K \<subseteq> pt_segment_key p ` (- S)" "i \<in> S"
  shows "pt_segment_key p i \<notin> K"
proof
  assume "pt_segment_key p i \<in> K"
  then have "pt_segment_key p i \<in> pt_segment_key p ` (- S)" using assms(2) by (rule rev_subsetD)
  then show False using assms(3) pt_keys(1) [OF assms(1)] by auto
qed

lemma compact_locked_ok:
  assumes inv: "part_inv L s p R" and ids: "distinct ids"
  obtains (nothing) "compact_locked L ids (s, p) = (Inr None, (s, p))"
  | (merged) s' st' R' es where
    "compact_locked L ids (s, p) = (Inr (Some (ps_next_segment (pt_state p))), (s', with_state p st'))"
    "part_inv L s' (with_state p st') R'" "mset (seg_part R' st') = mset (seg_part R (pt_state p))"
    "mem_part (mem_rows (ps_memtable st')) st' = mem_part (mem_rows (ps_memtable (pt_state p))) (pt_state p)"
    "ps_schema st' = ps_schema (pt_state p)" "ps_applied_lsn st' = ps_applied_lsn (pt_state p)"
    "ps_last_lsn st' = ps_last_lsn (pt_state p)" "ps_memtable st' = ps_memtable (pt_state p)"
    "published L s' (pt_manifest_key p) (ps_applied_lsn st') (ps_next_segment st') es"
    "same_entries (ps_segments st') es"
    "others_same (insert (pt_manifest_key p) (range (pt_segment_key p))) s s'"
proof (cases rule: compact_stages [OF assms])
  case 1
  then have "compact_locked L ids (s, p) = (Inr None, (s, p))" by (simp add: compact_locked_def)
  then show ?thesis by (rule nothing)
next
  case (2 kept s1 entry st' R' s2 es s3)
  let ?keys = "set (map (\<lambda>e. seg_key (se_meta e)) (compact_inputs ids (pt_state p)))"
  note K = pt_keys [OF part_invD(3) [OF inv]]
  have inv3: "part_inv L s3 (with_state p st') R'"
    by (rule part_inv_store [OF 2(13) 2(19,17)])
      (use segment_key_outside [OF part_invD(3) [OF inv] 2(18)] in simp)
  have "pt_manifest_key p \<notin> ?keys" using 2(18) not_sym [OF K(2)] by auto
  then have pub: "published L s3 (pt_manifest_key p) (ps_applied_lsn st') (ps_next_segment st') es"
    using 2(14,19) K(6) by (simp add: published_def others_same_def)
  have oth: "others_same (insert (pt_manifest_key p) (range (pt_segment_key p))) s s3"
    by (rule others_same_mono [OF others_same_trans [OF others_same_trans [OF 2(5,12)] 2(19)]]) (use 2(18) in auto)
  have "compact_locked L ids (s, p) = (Inr (Some (ps_next_segment (pt_state p))), (s3, with_state p st'))"
    using 2 by (simp add: compact_locked_def Let_def)
  then show ?thesis
    by (rule merged [OF _ inv3 2(8,9,20-23) pub 2(15) oth])
qed

end
