(* ===== verification/PartitionRecovery.thy ===== *)
theory PartitionRecovery
  imports PartitionMerge
begin

text \<open>
  Recovery: opening a partition from what is on disk gives the rows the manifest refers to with the
  logged mutations after its checkpoint replayed over them.
\<close>

section \<open>The log on disk\<close>

text \<open>What a crash can leave of a log: no file, an empty one, or the image of the records \<open>es\<close>
  followed by the torn start of another.\<close>

definition log_disk :: "wal_lib \<Rightarrow> fs_store \<Rightarrow> string \<Rightarrow> log_entry list \<Rightarrow> bool" where
  "log_disk L s key es \<longleftrightarrow>
     es = [] \<and> (map_of (files s) key = None \<or> map_of (files s) key = Some []) \<or>
     (\<exists>torn. map_of (files s) key = Some (wal_magic @ image L es @ torn) \<and>
        wal_scan L (wal_magic @ image L es @ torn) = Inr (es, length (wal_magic @ image L es)) \<and>
        list_all (fits_record L) es \<and> sorted_wrt (<) (map lsn es) \<and> (\<forall>e \<in> set es. 0 < lsn e))"

lemma log_open_disk:
  assumes "wal_lib_ok L" "store_ok s" "object_key key" "log_disk L s key es"
  obtains s' r where "log_open L s key = Inr (s', r)" "rec_entries r = es" "log_key (rec_store r) = key"
    "log_holds L (s', rec_store r) es" "\<And>k. k \<noteq> key \<Longrightarrow> map_of (files s') k = map_of (files s) k"
proof (cases "map_of (files s) key = None \<or> map_of (files s) key = Some []")
  case True
  then have es: "es = []" using assms(4) by (auto simp: log_disk_def wal_magic_def as_bytes_def)
  obtain s' where "log_open L s key = Inr (s', \<lparr>rec_store = \<lparr>log_key = key, next_lsn = 1, last_lsn = 0\<rparr>,
      rec_entries = [], truncated_bytes = 0\<rparr>)"
    "store_ok s'" "map_of (files s') = (map_of (files s))(key \<mapsto> wal_magic)"
    using log_open_fresh [OF assms(2,3) True] .
  then show ?thesis using that assms(1,3) es by (simp add: log_holds_def image_def)
next
  case False
  then obtain torn where t: "map_of (files s) key = Some (wal_magic @ image L es @ torn)"
    "wal_scan L (wal_magic @ image L es @ torn) = Inr (es, length (wal_magic @ image L es))"
    "list_all (fits_record L) es" "sorted_wrt (<) (map lsn es)" "\<forall>e \<in> set es. 0 < lsn e"
    using assms(4) by (auto simp: log_disk_def)
  obtain s' r where "log_open L s key = Inr (s', r)" "rec_entries r = es" "log_key (rec_store r) = key"
    "log_holds L (s', rec_store r) es" "map_of (files s') = (map_of (files s))(key \<mapsto> wal_magic @ image L es)"
    by (rule log_open_holds [OF assms(1-3) t]) (rule that; assumption)
  then show ?thesis using that by simp
qed

lemma holds_log_disk: "log_holds L (s, lg) es \<Longrightarrow> log_disk L s (log_key lg) es"
  unfolding log_disk_def log_holds_def
  by (intro disjI2 exI [of _ "[]"]) (auto simp: wal_scan_image)

lemma holds_advance: "log_holds L (s, lg) es \<Longrightarrow> log_holds L (s, advance_to lg a) es"
  by (auto simp: log_holds_def advance_to_def)

lemma advance_fields [simp]:
  "log_key (advance_to lg a) = log_key lg" "a < next_lsn (advance_to lg a)"
  by (simp_all add: advance_to_def)

section \<open>Replay\<close>

definition entry_fits :: "arrow_lib \<Rightarrow> table_schema \<Rightarrow> mutation \<Rightarrow> bool" where
  "entry_fits A schema m =
     (case m of
        MInsert ipc \<Rightarrow> (case decode_ipc A ipc of Inr b \<Rightarrow> batch_fits schema b | Inl _ \<Rightarrow> False)
      | MUpsert ipc \<Rightarrow> (case decode_ipc A ipc of Inr b \<Rightarrow> batch_fits schema b | Inl _ \<Rightarrow> False)
      | MDelete _ \<Rightarrow> True
      | MDdl _ \<Rightarrow> False)"

definition live_ops :: "nat \<Rightarrow> log_entry list \<Rightarrow> mutation list" where
  "live_ops a es = map entry_mutation (filter (\<lambda>e. a < lsn e) es)"

lemma live_ops_simps [simp]:
  "live_ops a [] = []" "live_ops a (es @ fs) = live_ops a es @ live_ops a fs"
  "live_ops a (e # es) = (if a < lsn e then entry_mutation e # live_ops a es else live_ops a es)"
  by (simp_all add: live_ops_def)

lemma live_ops_none: "\<forall>e \<in> set es. lsn e \<le> a \<Longrightarrow> live_ops a es = []"
  by (auto simp: live_ops_def filter_empty_conv)

lemma live_ops_truncated: "u \<le> a \<Longrightarrow> live_ops a (filter (\<lambda>e. u < lsn e) es) = live_ops a es"
  by (induction es) auto

lemma apply_entry_inv:
  assumes "st_inv L s key_of R st" "entry_fits A (ps_schema st) (entry_mutation e)"
  defines "pk \<equiv> pk_indices (ps_schema st)"
  obtains st' where "apply_entry A st e = Inr st'" "st_inv L s key_of R st'"
    "seg_part R st' = filter (untouched A pk [entry_mutation e]) (seg_part R st)"
    "mem_part (mem_rows (ps_memtable st')) st' = spec_apply A pk (mem_part (mem_rows (ps_memtable st)) st) (entry_mutation e)"
    "ps_schema st' = ps_schema st" "ps_applied_lsn st' = ps_applied_lsn st" "ps_next_segment st' = ps_next_segment st"
    "map se_meta (ps_segments st') = map se_meta (ps_segments st)" "ps_last_lsn st' = max (ps_last_lsn st) (lsn e)"
proof (cases "entry_mutation e")
  case (MDelete ks)
  have "spec_delete pk (seg_part R st) ks = filter (untouched A pk [entry_mutation e]) (seg_part R st)"
    using MDelete by (auto simp: spec_delete_def untouched_def intro!: filter_cong)
  then show ?thesis
    using that [of "apply_deletes ks (lsn e) st"] apply_deletes_inv [OF assms(1), of ks "lsn e"] MDelete
    by (simp add: apply_entry_def pk_def)
next
  case (MDdl x)
  then show ?thesis using assms(2) by (simp add: entry_fits_def)
next
  case (MInsert ipc)
  then obtain b where b: "decode_ipc A ipc = Inr b" "batch_fits (ps_schema st) b"
    using assms(2) by (auto simp: entry_fits_def split: sum.splits)
  have "filter (kept_by pk (brows b)) (seg_part R st) = filter (untouched A pk [entry_mutation e]) (seg_part R st)"
    using MInsert b(1) by (auto simp: kept_by_def untouched_def intro!: filter_cong)
  then show ?thesis
    using that [of "apply_rows A b (lsn e) st"] apply_rows_inv [OF assms(1) b(2), of A "lsn e"] MInsert b(1)
    by (simp add: apply_entry_def pk_def)
next
  case (MUpsert ipc)
  then obtain b where b: "decode_ipc A ipc = Inr b" "batch_fits (ps_schema st) b"
    using assms(2) by (auto simp: entry_fits_def split: sum.splits)
  have "filter (kept_by pk (brows b)) (seg_part R st) = filter (untouched A pk [entry_mutation e]) (seg_part R st)"
    using MUpsert b(1) by (auto simp: kept_by_def untouched_def intro!: filter_cong)
  then show ?thesis
    using that [of "apply_rows A b (lsn e) st"] apply_rows_inv [OF assms(1) b(2), of A "lsn e"] MUpsert b(1)
    by (simp add: apply_entry_def pk_def)
qed

lemma untouched_Cons: "filter (untouched A pk (m # ms)) V = filter (untouched A pk ms) (filter (untouched A pk [m]) V)"
  by (auto simp: untouched_def intro!: filter_cong)

lemma replay_inv:
  assumes "st_inv L s key_of R st" "list_all (entry_fits A (ps_schema st)) (map entry_mutation es)"
  defines "pk \<equiv> pk_indices (ps_schema st)"
  obtains st' where "foldM (apply_entry A) st es = Inr st'" "st_inv L s key_of R st'"
    "seg_part R st' = filter (untouched A pk (map entry_mutation es)) (seg_part R st)"
    "mem_part (mem_rows (ps_memtable st')) st' =
      spec_replay A pk (mem_part (mem_rows (ps_memtable st)) st) (map entry_mutation es)"
    "ps_schema st' = ps_schema st" "ps_applied_lsn st' = ps_applied_lsn st" "ps_next_segment st' = ps_next_segment st"
    "map se_meta (ps_segments st') = map se_meta (ps_segments st)"
    "ps_last_lsn st' = foldl max (ps_last_lsn st) (map lsn es)"
  using assms(1,2) unfolding pk_def
proof (induction es arbitrary: st thesis)
  case Nil
  have "filter (untouched A (pk_indices (ps_schema st)) []) (seg_part R st) = seg_part R st"
    by (simp add: untouched_def filter_id_conv)
  then show ?case by (intro Nil.prems(1) [of st]) (use Nil.prems(2) in simp_all)
next
  case (Cons e es)
  let ?pk = "pk_indices (ps_schema st)"
  obtain st1 where a: "apply_entry A st e = Inr st1" "st_inv L s key_of R st1"
    "seg_part R st1 = filter (untouched A ?pk [entry_mutation e]) (seg_part R st)"
    "mem_part (mem_rows (ps_memtable st1)) st1 = spec_apply A ?pk (mem_part (mem_rows (ps_memtable st)) st) (entry_mutation e)"
    "ps_schema st1 = ps_schema st" "ps_applied_lsn st1 = ps_applied_lsn st" "ps_next_segment st1 = ps_next_segment st"
    "map se_meta (ps_segments st1) = map se_meta (ps_segments st)" "ps_last_lsn st1 = max (ps_last_lsn st) (lsn e)"
    using apply_entry_inv [OF Cons.prems(2), of A e] Cons.prems(3) by auto
  have f: "list_all (entry_fits A (ps_schema st1)) (map entry_mutation es)" using Cons.prems(3) a(5) by simp
  obtain st' where r: "foldM (apply_entry A) st1 es = Inr st'" "st_inv L s key_of R st'"
    "seg_part R st' = filter (untouched A ?pk (map entry_mutation es)) (seg_part R st1)"
    "mem_part (mem_rows (ps_memtable st')) st' =
      spec_replay A ?pk (mem_part (mem_rows (ps_memtable st1)) st1) (map entry_mutation es)"
    "ps_schema st' = ps_schema st" "ps_applied_lsn st' = ps_applied_lsn st" "ps_next_segment st' = ps_next_segment st"
    "map se_meta (ps_segments st') = map se_meta (ps_segments st)"
    "ps_last_lsn st' = foldl max (ps_last_lsn st1) (map lsn es)"
    using Cons.IH [OF _ a(2) f] unfolding a(5-8) by metis
  have "seg_part R st' = filter (untouched A ?pk (map entry_mutation (e # es))) (seg_part R st)"
    unfolding r(3) a(3) list.map untouched_Cons [of A ?pk "entry_mutation e" "map entry_mutation es"] ..
  then show ?case
    by (intro Cons.prems(1) [of st']) (simp_all add: r(1,2,4-9) a(1,4,9))
qed

section \<open>Rebuilding the key index\<close>

definition index_rows :: "nat list \<Rightarrow> key_index \<Rightarrow> (locator \<times> row) list \<Rightarrow> key_index" where
  "index_rows pk = foldl (\<lambda>m (l, r). AList.update (row_key pk r) l m)"

lemma index_rows_simps [simp]:
  "index_rows pk m [] = m" "index_rows pk m (V @ W) = index_rows pk (index_rows pk m V) W"
  "index_rows pk m ((l, r) # V) = index_rows pk (AList.update (row_key pk r) l m) V"
  by (simp_all add: index_rows_def)

lemma index_rows_ok:
  "distinct (map (\<lambda>(l, r). row_key pk r) V) \<Longrightarrow> index_ok pk V (index_rows pk [] V)"
proof (induction V rule: rev_induct)
  case Nil
  then show ?case by (simp add: index_ok_def)
next
  case (snoc x V)
  obtain l r where x: "x = (l, r)" by (cases x)
  have IH: "index_ok pk V (index_rows pk [] V)" using snoc by simp
  have no: "(l', r') \<in> set V \<Longrightarrow> row_key pk r' \<noteq> row_key pk r" for l' r' using snoc.prems x by force
  show ?case
    unfolding index_ok_def
  proof (intro allI)
    fix k l'
    have "map_of (index_rows pk [] (V @ [x])) k = (if k = row_key pk r then Some l else map_of (index_rows pk [] V) k)"
      by (simp add: x update_conv')
    then show "map_of (index_rows pk [] (V @ [x])) k = Some l' \<longleftrightarrow> (\<exists>ra. (l', ra) \<in> set (V @ [x]) \<and> row_key pk ra = k)"
      using IH no x by (auto simp: index_ok_def)
  qed
qed

lemma backfill_key:
  assumes "schema_ok schema"
  shows "backfill_row fs (primary_key schema) r = row_key (pk_indices schema) (backfill_row fs (column_names schema) r)"
proof (rule nth_equalityI)
  note pk = pk_indices_spec [OF assms]
  show "length (backfill_row fs (primary_key schema) r) =
      length (row_key (pk_indices schema) (backfill_row fs (column_names schema) r))"
    by (simp add: backfill_row_def row_key_def pk(1))
  fix j assume "j < length (backfill_row fs (primary_key schema) r)"
  then have j: "j < length (primary_key schema)" by (simp add: backfill_row_def)
  have "pk_indices schema ! j < length (columns schema)"
    "col_name (columns schema ! (pk_indices schema ! j)) = primary_key schema ! j"
    using column_index_column [OF pk(2) [OF j]] by auto
  then show "backfill_row fs (primary_key schema) r ! j =
      row_key (pk_indices schema) (backfill_row fs (column_names schema) r) ! j"
    using j pk(1) by (simp add: backfill_row_def row_key_def column_names_def)
qed

lemma index_segment_eq:
  assumes "batch_ok \<lparr>bfields = fs, brows = map (row_key pk) (R (seg_id (se_meta e)))\<rparr>" "length fs = length pk"
  shows "index_segment_rows e \<lparr>bfields = fs, brows = map (row_key pk) (R (seg_id (se_meta e)))\<rparr> m =
    index_rows pk m (seg_live R e)"
proof -
  let ?i = "seg_id (se_meta e)"
  let ?b = "\<lparr>bfields = fs, brows = map (row_key pk) (R ?i)\<rparr>"
  have key: "key_at ?b [0..<num_columns ?b] j = row_key pk (R ?i ! j)" if "j < length (R ?i)" for j
    using that assms(2) map_nth [of "row_key pk (R ?i ! j)"]
    by (simp add: key_at_def row_key_def num_columns_def)
  have "foldl (\<lambda>m row. if row \<in> se_suppressed e then m
        else snd (ki_insert (key_at ?b [0..<num_columns ?b] row) (seg_locator ?i row) m)) m js =
      index_rows pk m (map (\<lambda>j. (seg_locator ?i j, R ?i ! j)) (filter (\<lambda>j. j \<notin> se_suppressed e) js))"
    if "set js \<subseteq> {..<length (R ?i)}" for js
    using that by (induction js arbitrary: m) (simp_all add: key ki_insert_def)
  from this [of "[0..<length (R ?i)]"] show ?thesis
    by (simp add: index_segment_rows_def seg_live_def live_def num_rows_def lessThan_atLeast0)
qed

lemma rebuild_ok:
  assumes "storage_ok L" "store_ok s" "schema_ok schema" "\<not> is_append_only schema"
    and "\<forall>e \<in> set (ps_segments st). stored L s schema R (se_meta e) \<and> object_key (seg_key (se_meta e))"
    and "ps_key_index st = []"
    and "distinct (map (\<lambda>(l, r). row_key (pk_indices schema) r) (seg_visible R (ps_segments st)))"
  obtains m where "rebuild_key_index (sl_arrow L) s schema st = Inr (st\<lparr>ps_key_index := m\<rparr>)"
    "index_ok (pk_indices schema) (seg_visible R (ps_segments st)) m"
proof -
  let ?pk = "pk_indices schema"
  have ne: "primary_key schema \<noteq> []" using assms(4) by (simp add: is_append_only_def)
  have sub: "set (primary_key schema) \<subseteq> set (column_names schema)"
  proof
    fix k assume "k \<in> set (primary_key schema)"
    then obtain c where "column schema k = Some c" using key_columnE [OF assms(3)] by metis
    then show "k \<in> set (column_names schema)" using column_set by (fastforce simp: column_names_def)
  qed
  have one: "read_segment (sl_arrow L) s (se_meta e) schema (Some (primary_key schema)) =
      Inr \<lparr>bfields = fields_of schema (primary_key schema), brows = map (row_key ?pk) (R (seg_id (se_meta e)))\<rparr> \<and>
      batch_ok \<lparr>bfields = fields_of schema (primary_key schema), brows = map (row_key ?pk) (R (seg_id (se_meta e)))\<rparr>"
    if e: "stored L s schema R (se_meta e)" "object_key (seg_key (se_meta e))" for e
  proof -
    obtain b where b: "batch_ok b" "covers schema (bfields b)"
      "read_segment (sl_arrow L) s (se_meta e) schema (Some (primary_key schema)) =
        Inr \<lparr>bfields = fields_of schema (primary_key schema), brows = map (backfill_row (bfields b) (primary_key schema)) (brows b)\<rparr>"
      "R (seg_id (se_meta e)) = map (backfill_row (bfields b) (column_names schema)) (brows b)"
      using read_stored [OF assms(1,2) e ne sub] by blast
    have rows: "map (backfill_row (bfields b) (primary_key schema)) (brows b) = map (row_key ?pk) (R (seg_id (se_meta e)))"
      by (simp add: b(4) backfill_key [OF assms(3)])
    have "\<forall>n \<in> set (primary_key schema). column schema n \<noteq> None" using sub column_names_exist by blast
    then have "columns_ok (fields_of schema (primary_key schema)) (num_rows b) (map (backfill_column b) (primary_key schema))"
      using backfill_columns_ok [OF b(1,2) ne] by blast
    then have "list_all (row_ok (fields_of schema (primary_key schema))) (map (backfill_row (bfields b) (primary_key schema)) (brows b))"
      using columns_ok_rows rows_of_backfill [of b "primary_key schema"] unfolding list_all_iff by metis
    then show ?thesis using b(3) rows ne by (simp add: batch_ok_def fields_of_def)
  qed
  have "foldM (\<lambda>m e. rbind (read_segment (sl_arrow L) s (se_meta e) schema (Some (primary_key schema))) (\<lambda>b.
      Inr (index_segment_rows e b m))) m es = Inr (index_rows ?pk m (seg_visible R es))"
    if "\<forall>e \<in> set es. stored L s schema R (se_meta e) \<and> object_key (seg_key (se_meta e))" for m es
    using that
  proof (induction es arbitrary: m)
    case (Cons e es)
    have "length (fields_of schema (primary_key schema)) = length ?pk"
      by (simp add: fields_of_def pk_indices_spec(1) [OF assms(3)])
    then show ?case
      using Cons one [of e] index_segment_eq [of "fields_of schema (primary_key schema)" ?pk R e m] by simp
  qed simp
  then have "rebuild_key_index (sl_arrow L) s schema st =
      Inr (st\<lparr>ps_key_index := index_rows ?pk [] (seg_visible R (ps_segments st))\<rparr>)"
    using assms(5,6) by (simp add: rebuild_key_index_def)
  then show ?thesis using that index_rows_ok [OF assms(7)] by blast
qed

section \<open>Orphans\<close>

lemma remove_orphans_ok:
  assumes "store_ok s" "validate_key pre = Inr ()" "CHR ''.'' \<notin> set pre"
  obtains s' where "remove_orphans s pre ref = Inr s'" "store_ok s'"
    "others_same {k. under pre k \<and> k \<notin> set ref} s s'"
proof -
  obtain ks where ks: "store_list s pre = Inr ks" using store_list_ok [OF assms] .
  have obj: "\<forall>k \<in> set ks. object_key k \<and> under pre k"
    using store_list_spec [OF assms(1) ks] plain_object by auto
  have "\<exists>s'. foldM (\<lambda>s k. if k \<in> set ref then Inr s else store_delete s k) s ks = Inr s' \<and> store_ok s' \<and>
      others_same {k. under pre k \<and> k \<notin> set ref} s s'"
    using assms(1) obj
  proof (induction ks arbitrary: s)
    case (Cons k ks)
    show ?case
    proof (cases "k \<in> set ref")
      case True
      then show ?thesis using Cons by simp
    next
      case False
      obtain s1 where s1: "store_delete s k = Inr s1" "store_ok s1" "map_of (files s1) = (map_of (files s))(k := None)"
        using store_delete_eq [OF Cons.prems(1), of k] Cons.prems(2) by auto
      then have "others_same {k. under pre k \<and> k \<notin> set ref} s s1"
        using False Cons.prems(2) by (auto simp: others_same_def)
      moreover obtain s' where "foldM (\<lambda>s k. if k \<in> set ref then Inr s else store_delete s k) s1 ks = Inr s'"
        "store_ok s'" "others_same {k. under pre k \<and> k \<notin> set ref} s1 s'"
        using Cons.IH [OF s1(2)] Cons.prems(2) by auto
      ultimately show ?thesis
        using s1(1) False others_same_trans [of "{k. under pre k \<and> k \<notin> set ref}" s s1 "{k. under pre k \<and> k \<notin> set ref}" s']
        by simp
    qed
  qed (simp add: others_same_def)
  then show ?thesis using that ks by (auto simp: remove_orphans_def)
qed

section \<open>What is on disk and what is durable\<close>

text \<open>
  \<open>disk_ok\<close>: the manifest publishes the entries \<open>vs\<close> with the checkpoint \<open>applied\<close>, their files are
  there and hold every key once, and the log holds \<open>es\<close>, of which those after the checkpoint are
  mutations of this table.
\<close>

definition disk_ok ::
    "storage_lib \<Rightarrow> fs_store \<Rightarrow> partition \<Rightarrow> (nat \<Rightarrow> row list) \<Rightarrow> nat \<Rightarrow> nat \<Rightarrow> segment_entry list \<Rightarrow> log_entry list \<Rightarrow> bool" where
  "disk_ok L s p R applied nxt vs es \<longleftrightarrow> (let schema = ps_schema (pt_state p) in
     storage_ok L \<and> store_ok s \<and> names_ok p \<and> schema_ok schema \<and> tname schema = pt_table p \<and>
     published L s (pt_manifest_key p) applied nxt vs \<and>
     segs_ok L s schema (pt_segment_key p) nxt R (map se_meta vs) \<and>
     (\<forall>e \<in> set vs. se_suppressed e \<subseteq> {..<length (R (seg_id (se_meta e)))}) \<and>
     (pk_indices schema \<noteq> [] \<longrightarrow> distinct (map (\<lambda>(l, r). row_key (pk_indices schema) r) (seg_visible R vs))) \<and>
     log_disk (sl_wal L) s (log_key (pt_log p)) es \<and>
     list_all (entry_fits (sl_arrow L) schema) (live_ops applied es))"

definition disk_rows :: "storage_lib \<Rightarrow> table_schema \<Rightarrow> (nat \<Rightarrow> row list) \<Rightarrow> nat \<Rightarrow> segment_entry list \<Rightarrow> log_entry list \<Rightarrow> row list" where
  "disk_rows L schema R applied vs es =
     spec_replay (sl_arrow L) (pk_indices schema) (map snd (seg_visible R vs)) (live_ops applied es)"

definition durable :: "storage_lib \<Rightarrow> fs_store \<Rightarrow> partition \<Rightarrow> (nat \<Rightarrow> row list) \<Rightarrow> segment_entry list \<Rightarrow> log_entry list \<Rightarrow> bool" where
  "durable L s p R vs es \<longleftrightarrow> (let st = pt_state p; pk = pk_indices (ps_schema st); ops = live_ops (ps_applied_lsn st) es in
     part_inv L s p R \<and> log_holds (sl_wal L) (s, pt_log p) es \<and>
     disk_ok L s p R (ps_applied_lsn st) (ps_next_segment st) vs es \<and>
     list_all2 same_meta (map se_meta (ps_segments st)) (map se_meta vs) \<and>
     seg_part R st = filter (untouched (sl_arrow L) pk ops) (map snd (seg_visible R vs)) \<and>
     mem_part (mem_rows (ps_memtable st)) st = spec_replay (sl_arrow L) pk [] ops \<and>
     (\<forall>e \<in> set es. lsn e \<le> ps_last_lsn st) \<and> ps_applied_lsn st \<le> ps_last_lsn st \<and>
     ps_last_lsn st < next_lsn (pt_log p))"

lemma durableD:
  assumes "durable L s p R vs es"
  defines "st \<equiv> pt_state p"
  defines "pk \<equiv> pk_indices (ps_schema st)"
  shows "part_inv L s p R" "log_holds (sl_wal L) (s, pt_log p) es"
    "disk_ok L s p R (ps_applied_lsn st) (ps_next_segment st) vs es"
    "list_all2 same_meta (map se_meta (ps_segments st)) (map se_meta vs)"
    "seg_part R st = filter (untouched (sl_arrow L) pk (live_ops (ps_applied_lsn st) es)) (map snd (seg_visible R vs))"
    "mem_part (mem_rows (ps_memtable st)) st = spec_replay (sl_arrow L) pk [] (live_ops (ps_applied_lsn st) es)"
    "\<forall>e \<in> set es. lsn e \<le> ps_last_lsn st" "ps_applied_lsn st \<le> ps_last_lsn st" "ps_last_lsn st < next_lsn (pt_log p)"
  using assms(1) by (simp_all add: durable_def st_def pk_def Let_def)

text \<open>The rows in memory are the rows recovery would give.\<close>

lemma durable_rows:
  assumes "durable L s p R vs es"
  shows "partition_rows L (s, p) = disk_rows L (ps_schema (pt_state p)) R (ps_applied_lsn (pt_state p)) vs es"
  using durableD [OF assms] partition_rows_eq [OF durableD(1) [OF assms]]
    spec_replay_base [of "sl_arrow L" "pk_indices (ps_schema (pt_state p))" "map snd (seg_visible R vs)"]
  by (simp add: contents_def disk_rows_def)

section \<open>Opening\<close>

lemma segments_prefix:
  fixes t d n :: string and part :: nat
  assumes "ident_ok t" "ident_ok d" "ident_ok n"
  defines "pre \<equiv> partition_prefix t d n part @ ''/segments''"
  shows "validate_key pre = Inr ()" "CHR ''.'' \<notin> set pre"
    "\<not> under pre (manifest_key t d n part)" "\<not> under pre (wal_key t d n part)"
proof -
  note ks = split_key [OF assms(1-3)]
  have sp: "split_on CHR ''/'' pre = key_parts t d n @ [''p'' @ show_nat part, ''segments'']"
    using split_on_append_gen [of "CHR ''/''" "partition_prefix t d n part" "''segments''"]
    by (simp add: pre_def ks(4))
  have plain: "list_all plain_part (split_on CHR ''/'' pre)"
    unfolding sp using assms(1-3) [THEN ident_plain] show_nat_plain by (auto simp: key_parts_def plain_part_def)
  have "pre \<noteq> []" by (simp add: pre_def)
  moreover have "\<forall>c \<in> set (split_on CHR ''/'' pre). c \<noteq> [] \<and> c \<noteq> ''.'' \<and> c \<noteq> ''..''"
  proof
    fix c assume "c \<in> set (split_on CHR ''/'' pre)"
    then have "plain_part c" using plain by (simp add: list_all_iff)
    then show "c \<noteq> [] \<and> c \<noteq> ''.'' \<and> c \<noteq> ''..''" by (auto simp: plain_part_def)
  qed
  ultimately show "validate_key pre = Inr ()" by (simp only: validate_key_iff) simp
  show "CHR ''.'' \<notin> set pre"
    using plain set_join_with [of "''/''" "split_on CHR ''/'' pre"]
    by (auto simp: join_split list_all_iff plain_part_def)
  show "\<not> under pre (manifest_key t d n part)" "\<not> under pre (wal_key t d n part)"
    by (rule notI, drule under_split, simp add: sp ks)+
qed

lemma manifest_load_published:
  assumes "store_ok s" "plain_key key" "published L s key applied nxt vs"
  obtains "manifest_load L s key = Inr None" "applied = 0" "nxt = 1" "vs = []"
  | m where "manifest_load L s key = Inr (Some m)" "mf_applied_lsn m = applied" "mf_next_segment m = nxt"
    "mf_segments m = map se_meta vs" "\<forall>e \<in> set vs. suppressed_bitmap L m (seg_id (se_meta e)) = Inr (se_suppressed e)"
proof (cases "map_of (files s) key")
  case None
  then have "manifest_load L s key = Inr None"
    using not_dir [OF assms(1) plain_object [OF assms(2)]] object_key_valid [OF plain_object [OF assms(2)]]
    by (simp add: manifest_load_def store_exists_def path_for_ok is_file_def)
  then show ?thesis using that(1) assms(3) None by (simp add: published_def)
next
  case (Some bs)
  then obtain m where m: "manifest_parse L bs = Some m" "mf_format m = manifest_format" "mf_applied_lsn m = applied"
    "mf_next_segment m = nxt" "mf_segments m = map se_meta vs"
    "\<forall>e \<in> set vs. suppressed_bitmap L m (seg_id (se_meta e)) = Inr (se_suppressed e)"
    using assms(3) by (auto simp: published_def)
  have "manifest_load L s key = Inr (Some m)"
    using Some m(1,2) object_key_valid [OF plain_object [OF assms(2)]]
    by (simp add: manifest_load_def store_exists_def path_for_ok is_file_def
      store_get_eq [OF assms(1) plain_object [OF assms(2)]])
  then show ?thesis using that(2) m by blast
qed

lemma mapM_bitmaps:
  assumes "\<forall>e \<in> set vs. f (seg_id (se_meta e)) = Inr (se_suppressed e)"
  shows "mapM (\<lambda>m. rmap (\<lambda>b. \<lparr>se_meta = m, se_suppressed = b\<rparr>) (f (seg_id m))) (map se_meta vs) = Inr vs"
  using assms by (induction vs) simp_all

lemma published_files:
  "published L s key a n vs \<Longrightarrow> map_of (files s') key = map_of (files s) key \<Longrightarrow> published L s' key a n vs"
  by (simp add: published_def)

lemma disk_okD:
  assumes "disk_ok L s p R applied nxt vs es"
  defines "schema \<equiv> ps_schema (pt_state p)"
  shows "storage_ok L" "store_ok s" "names_ok p" "schema_ok schema" "tname schema = pt_table p"
    "published L s (pt_manifest_key p) applied nxt vs"
    "segs_ok L s schema (pt_segment_key p) nxt R (map se_meta vs)"
    "\<forall>e \<in> set vs. se_suppressed e \<subseteq> {..<length (R (seg_id (se_meta e)))}"
    "pk_indices schema \<noteq> [] \<longrightarrow> distinct (map (\<lambda>(l, r). row_key (pk_indices schema) r) (seg_visible R vs))"
    "log_disk (sl_wal L) s (log_key (pt_log p)) es" "list_all (entry_fits (sl_arrow L) schema) (live_ops applied es)"
  using assms(1) by (simp_all add: disk_ok_def schema_def Let_def)

text \<open>The state before the log is replayed.\<close>

definition opened_state :: "table_schema \<Rightarrow> segment_entry list \<Rightarrow> key_index \<Rightarrow> nat \<Rightarrow> nat \<Rightarrow> partition_state" where
  "opened_state schema vs m applied nxt = \<lparr>ps_schema = schema, ps_memtable = mt_new schema, ps_mem_suppressed = {},
     ps_segments = vs, ps_key_index = m, ps_applied_lsn = applied, ps_last_lsn = applied, ps_next_segment = nxt\<rparr>"

lemma opened_fields [simp]:
  "ps_segments (opened_state schema vs m a n) = vs" "ps_key_index (opened_state schema vs m a n) = m"
  "ps_schema (opened_state schema vs m a n) = schema" "ps_applied_lsn (opened_state schema vs m a n) = a"
  "ps_last_lsn (opened_state schema vs m a n) = a" "ps_next_segment (opened_state schema vs m a n) = n"
  "ps_memtable (opened_state schema vs m a n) = mt_new schema" "ps_mem_suppressed (opened_state schema vs m a n) = {}"
  "(opened_state schema vs m a n)\<lparr>ps_key_index := m'\<rparr> = opened_state schema vs m' a n"
  by (simp_all add: opened_state_def)

lemma opened_inv:
  assumes "disk_ok L s p R applied nxt vs es"
    and "if pk_indices (ps_schema (pt_state p)) = [] then m = [] else index_ok (pk_indices (ps_schema (pt_state p))) (seg_visible R vs) m"
  shows "st_inv L s (pt_segment_key p) R (opened_state (ps_schema (pt_state p)) vs m applied nxt)"
    "seg_part R (opened_state (ps_schema (pt_state p)) vs m applied nxt) = map snd (seg_visible R vs)"
    "mem_part [] (opened_state (ps_schema (pt_state p)) vs m applied nxt) = []"
proof -
  note D = disk_okD [OF assms(1)]
  let ?st = "opened_state (ps_schema (pt_state p)) vs m applied nxt"
  have "addr_ok R [] ?st"
    using D(8) segs_okD(1) [OF D(7)] by (simp add: addr_ok_def opened_state_def comp_def)
  moreover have "visible R [] ?st = seg_visible R vs" by (simp add: visible_def opened_state_def)
  ultimately have "state_ok (pk_indices (ps_schema (pt_state p))) R [] ?st"
    using assms(2) by (simp add: state_ok_def opened_state_def split: if_splits)
  then show "st_inv L s (pt_segment_key p) R ?st"
    using D(4,7) by (simp add: st_inv_def opened_state_def memtable_ok_def mt_new_def mem_rows_def)
  show "seg_part R ?st = map snd (seg_visible R vs)" "mem_part [] ?st = []"
    by (simp_all add: seg_part_def mem_part_def opened_state_def)
qed

lemma same_meta_refl [simp]: "same_meta m m"
  by (simp add: same_meta_def)

lemma foldl_max_bounds:
  fixes a :: nat
  shows "a \<le> foldl max a xs" "x \<in> set xs \<Longrightarrow> x \<le> foldl max a xs" "foldl max a xs = a \<or> foldl max a xs \<in> set xs"
proof -
  show "a \<le> foldl max a xs" by (induction xs arbitrary: a) (auto intro: order_trans [OF max.cobounded1])
  show "x \<le> foldl max a xs" if "x \<in> set xs"
    using that
  proof (induction xs rule: rev_induct)
    case (snoc y ys)
    then show ?case by (auto simp: le_max_iff_disj)
  qed simp
  show "foldl max a xs = a \<or> foldl max a xs \<in> set xs"
    by (induction xs rule: rev_induct) (auto simp: max_def)
qed

lemma others_sameD:
  "others_same K s s' \<Longrightarrow> k \<notin> K \<Longrightarrow> plain_key k \<Longrightarrow> map_of (files s') k = map_of (files s) k"
  by (simp add: others_same_def)

lemma part_inv_others:
  assumes "segs_ok L s schema (pt_segment_key p) nxt R ms" "names_ok p" "others_same K s s'"
    "\<And>m. m \<in> set ms \<Longrightarrow> seg_key m \<notin> K"
  shows "segs_ok L s' schema (pt_segment_key p) nxt R ms"
proof (rule segs_ok_frame [OF assms(1) _ refl order_refl])
  fix m assume m: "m \<in> set ms"
  have "plain_key (seg_key m)" using segs_okD(3) [OF assms(1) m] pt_keys(5) [OF assms(2)] by simp
  then show "map_of (files s') (seg_key m) = map_of (files s) (seg_key m)"
    using assms(3) assms(4) [OF m] by (simp add: others_same_def)
qed

lemma partition_open_ok:
  assumes D: "disk_ok L s p R applied nxt vs es"
  obtains s' p' where
    "partition_open L s (pt_tenant p) (pt_database p) (ps_schema (pt_state p)) (pt_id p) cfg = Inr (s', p')"
    "durable L s' p' R vs es" "ps_schema (pt_state p') = ps_schema (pt_state p)"
    "ps_applied_lsn (pt_state p') = applied" "pt_id p' = pt_id p" "pt_config p' = cfg"
    "pt_tenant p' = pt_tenant p" "pt_database p' = pt_database p" "pt_table p' = pt_table p" "others_same (own_keys p) s s'"
proof -
  let ?schema = "ps_schema (pt_state p)" and ?A = "sl_arrow L" and ?mkey = "pt_manifest_key p" and ?wkey = "log_key (pt_log p)"
  let ?pk = "pk_indices ?schema" and ?pre = "partition_prefix (pt_tenant p) (pt_database p) (pt_table p) (pt_id p) @ ''/segments''"
  note d = disk_okD [OF D]
  have n: "ident_ok (pt_tenant p)" "ident_ok (pt_database p)" "ident_ok (pt_table p)"
    "?mkey = manifest_key (pt_tenant p) (pt_database p) (pt_table p) (pt_id p)"
    "?wkey = wal_key (pt_tenant p) (pt_database p) (pt_table p) (pt_id p)"
    using d(3) by (simp_all add: names_ok_def)
  note K = pt_keys [OF d(3)]
  note pre = segments_prefix [OF n(1-3), of "pt_id p"]
  obtain loaded mf where load: "manifest_load L s ?mkey = Inr loaded"
    "mf = (case loaded of Some m \<Rightarrow> m | None \<Rightarrow> new_manifest (pt_id p) (version ?schema))"
    "mf_applied_lsn mf = applied" "mf_next_segment mf = nxt" "mf_segments mf = map se_meta vs"
    "\<forall>e \<in> set vs. suppressed_bitmap L mf (seg_id (se_meta e)) = Inr (se_suppressed e)"
    by (rule manifest_load_published [OF d(2) K(6) d(6)]) (force simp: new_manifest_def)+
  obtain s1 where s1: "remove_orphans s ?pre (segment_keys mf) = Inr s1" "store_ok s1"
    "others_same {k. under ?pre k \<and> k \<notin> set (segment_keys mf)} s s1"
    by (rule remove_orphans_ok [OF d(2) pre(1,2), of "segment_keys mf"]) (rule that; assumption)
  have ref: "set (segment_keys mf) = seg_key ` set (map se_meta vs)" by (simp add: segment_keys_def load(5) image_image)
  have segs1: "segs_ok L s1 ?schema (pt_segment_key p) nxt R (map se_meta vs)"
    by (rule part_inv_others [OF d(7) d(3) s1(3)]) (simp add: ref)
  have keep: "map_of (files s1) ?wkey = map_of (files s) ?wkey" "map_of (files s1) ?mkey = map_of (files s) ?mkey"
    by (rule others_sameD [OF s1(3) _ K(7)], use pre(4) n(5) in simp,
        rule others_sameD [OF s1(3) _ K(6)], use pre(3) n(4) in simp)
  have ld1: "log_disk (sl_wal L) s1 ?wkey es" using d(10) keep(1) by (simp add: log_disk_def)
  have D1: "disk_ok L s1 p R applied nxt vs es"
    using D segs1 s1(2) ld1 published_files [OF d(6) keep(2)] by (simp add: disk_ok_def Let_def)
  have sorted: "sort_key (\<lambda>e. seg_id (se_meta e)) vs = vs"
    using d(7) strict_sorted_iff by (intro sort_key_id_if_sorted) (auto simp: segs_ok_def comp_def)
  obtain m where m: "(if is_append_only ?schema then Inr (opened_state ?schema vs [] applied nxt)
        else rebuild_key_index ?A s1 ?schema (opened_state ?schema vs [] applied nxt)) = Inr (opened_state ?schema vs m applied nxt)"
    "if ?pk = [] then m = [] else index_ok ?pk (seg_visible R vs) m"
  proof (cases "is_append_only ?schema")
    case True
    then show ?thesis using that [of "[]"] pk_nil_iff [OF d(4)] by simp
  next
    case False
    let ?st0 = "opened_state ?schema vs [] applied nxt"
    have files: "\<forall>e \<in> set (ps_segments ?st0). stored L s1 ?schema R (se_meta e) \<and> object_key (seg_key (se_meta e))"
    proof
      fix e assume "e \<in> set (ps_segments ?st0)"
      then have e: "se_meta e \<in> set (map se_meta vs)" by simp
      show "stored L s1 ?schema R (se_meta e) \<and> object_key (seg_key (se_meta e))"
        using segs_okD(2) [OF segs1 e] plain_object [OF K(5)] unfolding segs_okD(3) [OF segs1 e] by simp
    qed
    have keys: "distinct (map (\<lambda>(l, r). row_key ?pk r) (seg_visible R (ps_segments ?st0)))"
      using d(9) False pk_nil_iff [OF d(4)] by (simp add: opened_state_def)
    obtain m where "rebuild_key_index ?A s1 ?schema ?st0 = Inr (?st0\<lparr>ps_key_index := m\<rparr>)"
      "index_ok ?pk (seg_visible R (ps_segments ?st0)) m"
      by (rule rebuild_ok [OF d(1) s1(2) d(4) False files opened_fields(2) keys]) (rule that; assumption)
    then show ?thesis using that [of m] False pk_nil_iff [OF d(4)] by simp
  qed
  let ?st1 = "opened_state ?schema vs m applied nxt"
  note O = opened_inv [OF D1 m(2)]
  obtain s2 r where r: "log_open (sl_wal L) s1 ?wkey = Inr (s2, r)" "rec_entries r = es" "log_key (rec_store r) = ?wkey"
    "log_holds (sl_wal L) (s2, rec_store r) es" "\<And>k. k \<noteq> ?wkey \<Longrightarrow> map_of (files s2) k = map_of (files s1) k"
    by (rule log_open_disk [OF storage_okD(2) [OF d(1)] s1(2) plain_object [OF K(7)] ld1]) (rule that; assumption)
  let ?live = "filter (\<lambda>e. applied < lsn e) es"
  have fits: "list_all (entry_fits ?A (ps_schema ?st1)) (map entry_mutation ?live)"
    using d(11) by (simp add: live_ops_def opened_state_def)
  obtain st' where st': "foldM (apply_entry ?A) ?st1 ?live = Inr st'" "st_inv L s1 (pt_segment_key p) R st'"
    "seg_part R st' = filter (untouched ?A (pk_indices (ps_schema ?st1)) (map entry_mutation ?live)) (seg_part R ?st1)"
    "mem_part (mem_rows (ps_memtable st')) st' =
      spec_replay ?A (pk_indices (ps_schema ?st1)) (mem_part (mem_rows (ps_memtable ?st1)) ?st1) (map entry_mutation ?live)"
    "ps_schema st' = ps_schema ?st1" "ps_applied_lsn st' = ps_applied_lsn ?st1" "ps_next_segment st' = ps_next_segment ?st1"
    "map se_meta (ps_segments st') = map se_meta (ps_segments ?st1)"
    "ps_last_lsn st' = foldl max (ps_last_lsn ?st1) (map lsn ?live)"
    using replay_inv [OF O(1) fits] by metis
  let ?p' = "\<lparr>pt_id = pt_id p, pt_tenant = pt_tenant p, pt_database = pt_database p, pt_table = tname ?schema,
    pt_manifest_key = ?mkey, pt_log = advance_to (rec_store r) applied, pt_state = st', pt_config = cfg\<rparr>"
  have keyfun: "pt_segment_key ?p' = pt_segment_key p" by (simp add: fun_eq_iff pt_segment_key_def d(5))
  have names: "names_ok ?p'" using d(3,5) r(3) by (simp add: names_ok_def)
  have ok2: "store_ok s2" using r(4) by (simp add: log_holds_def)
  have oth2: "others_same {?wkey} s1 s2" using r(5) by (simp add: others_same_def)
  have segs2: "segs_ok L s2 ?schema (pt_segment_key p) nxt R (map se_meta vs)"
    by (rule segs_ok_others [OF segs1 d(3) oth2]) (use K(3) in auto)
  have f: "ps_schema st' = ?schema" "ps_applied_lsn st' = applied" "ps_next_segment st' = nxt"
    "map se_meta (ps_segments st') = map se_meta vs" "ps_last_lsn st' = foldl max applied (map lsn ?live)"
    using st'(5-9) by (simp_all add: opened_state_def)
  have inv: "part_inv L s2 ?p' R"
    using st'(2) segs2 d(1,5) ok2 names f keyfun by (simp add: part_inv_def st_inv_def)
  have log: "log_holds (sl_wal L) (s2, pt_log ?p') es" using holds_advance [OF r(4)] by simp
  have D2: "disk_ok L s2 ?p' R applied nxt vs es"
    using D1 segs2 ok2 names f keyfun published_files [of L s1 ?mkey applied nxt vs s2] r(5) K(4) d(6) keep(2)
      published_files [OF d(6), of s1] holds_log_disk [OF log]
    by (simp add: disk_ok_def Let_def)
  have lastb: "\<forall>e \<in> set es. lsn e \<le> ps_last_lsn st'"
  proof
    fix e assume e: "e \<in> set es"
    show "lsn e \<le> ps_last_lsn st'"
    proof (cases "applied < lsn e")
      case True
      then show ?thesis using e f(5) foldl_max_bounds(2) [of "lsn e" "map lsn ?live" applied] by simp
    next
      case False
      then show ?thesis using f(5) foldl_max_bounds(1) [of applied "map lsn ?live"] by simp
    qed
  qed
  have next_bound: "ps_last_lsn st' < next_lsn (pt_log ?p')"
  proof -
    have "lsn e < next_lsn (pt_log ?p')" if "e \<in> set es" for e
      using log that by (auto simp: log_holds_def)
    moreover have "applied < next_lsn (pt_log ?p')" by simp
    ultimately show ?thesis using f(5) foldl_max_bounds(3) [of applied "map lsn ?live"] by auto
  qed
  have ops: "map entry_mutation ?live = live_ops applied es" by (simp add: live_ops_def)
  have mem0: "mem_part (mem_rows (ps_memtable ?st1)) ?st1 = []"
    using O(3) by (simp add: opened_state_def mt_new_def mem_rows_def)
  have schema1: "ps_schema ?st1 = ?schema" by (simp add: opened_state_def)
  have "durable L s2 ?p' R vs es"
    using inv log D2 st'(3,4) f lastb next_bound O(2) mem0 foldl_max_bounds(1) [of applied "map lsn ?live"]
    by (simp add: durable_def Let_def ops schema1 list_all2_refl)
  moreover have "partition_open L s (pt_tenant p) (pt_database p) ?schema (pt_id p) cfg = Inr (s2, ?p')"
    using load s1(1) m(1) r(1,2) st'(1) sorted object_key_valid [OF plain_object [OF K(7)]] d(5)
      mapM_bitmaps [OF load(6)]
    by (cases "is_append_only ?schema")
      (simp_all add: partition_open_def Let_def opened_state_def n(4,5) path_for_ok)
  moreover have shorter: "prefix (xs @ [a, b]) ys \<Longrightarrow> prefix (xs @ [a]) ys" for xs ys and a b :: string
    by (auto simp: prefix_def)
  have "others_same (own_keys p) s s2"
    by (rule others_same_mono [OF others_same_trans [OF s1(3) oth2]])
      (use under_split [of ?pre] own_keys_of(3) [OF d(3)] split_key(4) [OF n(1-3)] in
        \<open>auto simp: own_keys_def split_on_append_gen [of "CHR ''/''" _ "''segments''", simplified] intro: shorter\<close>)
  ultimately show ?thesis using that f d(5) by simp
qed

end
