(* ===== verification/PartitionSafety.thy ===== *)
theory PartitionSafety
  imports PartitionRecovery
begin

text \<open>
  Every operation of a partition keeps it durable, with the effect on its rows that the
  specification says, and the rows survive reopening.
\<close>

section \<open>Publishing\<close>

lemma part_inv_keys:
  assumes "part_inv L s p R"
  defines "pk \<equiv> pk_indices (ps_schema (pt_state p))"
  shows "pk \<noteq> [] \<longrightarrow> distinct (map (\<lambda>(l, r). row_key pk r) (seg_visible R (ps_segments (pt_state p))))"
    "\<forall>e \<in> set (ps_segments (pt_state p)). se_suppressed e \<subseteq> {..<length (R (seg_id (se_meta e)))}"
proof -
  have st: "state_ok pk R (mem_rows (ps_memtable (pt_state p))) (pt_state p)"
    using st_invD(4) [OF part_invD(5) [OF assms(1)]] by (simp add: pk_def)
  then have a: "addr_ok R (mem_rows (ps_memtable (pt_state p))) (pt_state p)" by (simp add: state_ok_def)
  then show "\<forall>e \<in> set (ps_segments (pt_state p)). se_suppressed e \<subseteq> {..<length (R (seg_id (se_meta e)))}"
    by (simp add: addr_ok_def)
  show "pk \<noteq> [] \<longrightarrow> distinct (map (\<lambda>(l, r). row_key pk r) (seg_visible R (ps_segments (pt_state p))))"
    using st index_keys_distinct [OF _ visible_distinct [OF a]] by (auto simp: state_ok_def visible_def)
qed

lemma same_entries_same: "same_entries es es' \<Longrightarrow> list_all2 same_meta (map se_meta es) (map se_meta es')"
  by (simp add: same_entries_def list_all2_map1 list_all2_map2 list_all2_mono)

lemma same_entries_bounds:
  assumes "same_entries es es'" "\<forall>e \<in> set es. se_suppressed e \<subseteq> {..<length (R (seg_id (se_meta e)))}"
  shows "\<forall>e \<in> set es'. se_suppressed e \<subseteq> {..<length (R (seg_id (se_meta e)))}"
  using assms unfolding same_entries_def
  by (induction rule: list_all2_induct) (simp_all add: same_meta_def)

lemma published_durable:
  assumes inv: "part_inv L s p R" and log: "log_holds (sl_wal L) (s, pt_log p) es"
    and pub: "published L s (pt_manifest_key p) (ps_applied_lsn (pt_state p)) (ps_next_segment (pt_state p)) vs"
    and same: "same_entries (ps_segments (pt_state p)) vs" "list_all meta_plain (map se_meta vs)"
    and ops: "ops = live_ops (ps_applied_lsn (pt_state p)) es" "pk = pk_indices (ps_schema (pt_state p))"
      "\<forall>v \<in> set (seg_part R (pt_state p)). untouched (sl_arrow L) pk ops v"
      "mem_part (mem_rows (ps_memtable (pt_state p))) (pt_state p) = spec_replay (sl_arrow L) pk [] ops"
      "list_all (entry_fits (sl_arrow L) (ps_schema (pt_state p))) ops"
    and lsns: "\<forall>e \<in> set es. lsn e \<le> ps_last_lsn (pt_state p)" "ps_applied_lsn (pt_state p) \<le> ps_last_lsn (pt_state p)"
      "ps_last_lsn (pt_state p) < next_lsn (pt_log p)"
  shows "durable L s p R vs es"
proof -
  note I = part_invD [OF inv]
  note S = st_invD [OF I(5)]
  note same_metas = same_entries_same [OF same(1)]
  note vis = same_entries_visible [OF same(1), of R]
  have "segs_ok L s (ps_schema (pt_state p)) (pt_segment_key p) (ps_next_segment (pt_state p)) R (map se_meta vs)"
    by (rule segs_ok_same [OF S(3) same_metas same(2)])
  then have "disk_ok L s p R (ps_applied_lsn (pt_state p)) (ps_next_segment (pt_state p)) vs es"
    using I S(1) pub part_inv_keys [OF inv] same_entries_bounds [OF same(1)] holds_log_disk [OF log] ops(1,5)
    by (simp add: disk_ok_def Let_def vis)
  moreover have "filter (untouched (sl_arrow L) pk ops) (map snd (seg_visible R vs)) = seg_part R (pt_state p)"
    using ops(3) by (simp add: vis filter_id_conv flip: seg_part_def)
  ultimately show ?thesis
    using inv log same_metas ops(1,2,4) lsns by (simp add: durable_def Let_def)
qed

lemma published_plain: "published L s k a n vs \<Longrightarrow> list_all meta_plain (map se_meta vs)"
  by (auto simp: published_def split: option.splits)

section \<open>Logged mutations\<close>

lemma log_step:
  assumes dur: "durable L s p R vs es" and fits: "entry_fits (sl_arrow L) (ps_schema (pt_state p)) m"
    and small: "fits_record (sl_wal L) \<lparr>lsn = next_lsn (pt_log p), entry_mutation = m\<rparr>"
  defines "e \<equiv> \<lparr>lsn = next_lsn (pt_log p), entry_mutation = m\<rparr>"
  obtains s' lg' st' where
    "others_same (own_keys p) s s'" "own_keys (p\<lparr>pt_log := lg', pt_state := st'\<rparr>) = own_keys p"
    "log_append (sl_wal L) (s, pt_log p) m = (Inr (lsn e), s', lg')"
    "apply_entry (sl_arrow L) (pt_state p) e = Inr st'"
    "durable L s' (p\<lparr>pt_log := lg', pt_state := st'\<rparr>) R vs (es @ [e])" "ps_schema st' = ps_schema (pt_state p)"
    "partition_rows L (s', p\<lparr>pt_log := lg', pt_state := st'\<rparr>) =
      spec_apply (sl_arrow L) (pk_indices (ps_schema (pt_state p))) (partition_rows L (s, p)) m"
proof -
  let ?W = "sl_wal L" and ?lg = "pt_log p" and ?A = "sl_arrow L"
  let ?pk = "pk_indices (ps_schema (pt_state p))" and ?a = "ps_applied_lsn (pt_state p)"
  note d = durableD [OF dur]
  note I = part_invD [OF d(1)]
  note D = disk_okD [OF d(3)]
  let ?s' = "sys_write s (log_key ?lg) (wal_magic @ image ?W (es @ [e]))"
  let ?lg' = "?lg\<lparr>next_lsn := next_lsn ?lg + 1, last_lsn := next_lsn ?lg\<rparr>"
  have log': "log_holds ?W (?s', ?lg') (es @ [e])"
    using holds_append [OF d(2)] small by (simp add: e_def)
  have len: "length (payload_of ?W e) \<le> max_record_bytes" using small by (simp add: fits_record_def e_def)
  then have "loggable ?W (s, ?lg) m"
    by (simp add: loggable_def max_record_bytes_def flip: e_def)
  then have app: "log_append ?W (s, ?lg) m = (Inr (lsn e), ?s', ?lg')"
    using log_append_cases [OF d(2)] small by (simp add: e_def)
  obtain st' where st': "apply_entry ?A (pt_state p) e = Inr st'" "st_inv L s (pt_segment_key p) R st'"
    "seg_part R st' = filter (untouched ?A ?pk [m]) (seg_part R (pt_state p))"
    "mem_part (mem_rows (ps_memtable st')) st' =
       spec_apply ?A ?pk (mem_part (mem_rows (ps_memtable (pt_state p))) (pt_state p)) m"
    "ps_schema st' = ps_schema (pt_state p)" "ps_applied_lsn st' = ?a"
    "ps_next_segment st' = ps_next_segment (pt_state p)"
    "map se_meta (ps_segments st') = map se_meta (ps_segments (pt_state p))"
    "ps_last_lsn st' = max (ps_last_lsn (pt_state p)) (lsn e)"
    using apply_entry_inv [OF I(5), of ?A e] fits by (auto simp: e_def)
  let ?p' = "p\<lparr>pt_log := ?lg', pt_state := st'\<rparr>"
  have oth: "others_same {log_key ?lg} s ?s'" by (simp add: others_same_def)
  have ok': "store_ok ?s'" using log' by (simp add: log_holds_def)
  have names: "names_ok ?p'" and keys: "pt_segment_key ?p' = pt_segment_key p"
    using I(3) by (simp_all add: names_ok_def fun_eq_iff pt_segment_key_def)
  note K = pt_keys [OF I(3)]
  have frame: "segs_ok L ?s' schema (pt_segment_key p) n R ms" if "segs_ok L s schema (pt_segment_key p) n R ms" for schema n ms
    by (rule segs_ok_others [OF that I(3) oth]) (use K(3) in auto)
  have inv': "part_inv L ?s' ?p' R"
    using I(1,4) ok' names keys st'(2,5) frame by (simp add: part_inv_def st_inv_def)
  have ops: "live_ops ?a (es @ [e]) = live_ops ?a es @ [m]"
    using d(8,9) by (simp add: e_def)
  have pub: "published L ?s' (pt_manifest_key p) ?a (ps_next_segment (pt_state p)) vs"
    by (rule published_files [OF D(6)]) (use K(4) in simp)
  have D': "disk_ok L ?s' ?p' R ?a (ps_next_segment (pt_state p)) vs (es @ [e])"
    using d(3) ok' names keys st'(5) frame pub holds_log_disk [OF log'] fits ops
    by (simp add: disk_ok_def Let_def)
  have split: "filter (untouched ?A ?pk (ops @ [m])) V = filter (untouched ?A ?pk [m]) (filter (untouched ?A ?pk ops) V)"
    for ops V by (auto simp: untouched_def intro!: filter_cong)
  have bound: "\<forall>x \<in> set es. lsn x \<le> next_lsn ?lg" using d(7,9) by (auto dest!: bspec)
  have dur': "durable L ?s' ?p' R vs (es @ [e])"
    using inv' log' D' d(4) st'(3-9) d(5,6) ops split [of "live_ops ?a es"] d(7-9) bound
    by (simp add: durable_def Let_def e_def le_max_iff_disj)
  have "partition_rows L (?s', ?p') = seg_part R st' @ mem_part (mem_rows (ps_memtable st')) st'"
    using partition_rows_eq [OF inv'] by (simp add: contents_def)
  also have "\<dots> = spec_apply ?A ?pk (partition_rows L (s, p)) m"
    by (simp add: st'(3,4) spec_apply_split partition_rows_eq [OF d(1)] contents_def)
  finally show ?thesis
    using that [OF others_same_mono [OF oth] _ app st'(1) dur' st'(5)] own_keys_of(3) [OF I(3)] by (simp add: own_keys_def)
qed

lemma log_refused:
  assumes dur: "durable L s p R vs es" and big: "\<not> fits_record (sl_wal L) \<lparr>lsn = next_lsn (pt_log p), entry_mutation = m\<rparr>"
    and "loggable (sl_wal L) (s, pt_log p) m"
  defines "lg' \<equiv> (pt_log p)\<lparr>next_lsn := next_lsn (pt_log p) + 1\<rparr>"
  shows "log_append (sl_wal L) (s, pt_log p) m = (Inl BadRequest, s, lg')" "durable L s (p\<lparr>pt_log := lg'\<rparr>) R vs es"
    "partition_rows L (s, p\<lparr>pt_log := lg'\<rparr>) = partition_rows L (s, p)"
proof -
  note d = durableD [OF dur]
  note D = disk_okD [OF d(3)]
  show "log_append (sl_wal L) (s, pt_log p) m = (Inl BadRequest, s, lg')"
    using log_append_cases [OF d(2) assms(3)] big by (simp add: lg'_def)
  have "log_holds (sl_wal L) (s, lg') es" using d(2) by (auto simp: log_holds_def lg'_def)
  moreover have "names_ok (p\<lparr>pt_log := lg'\<rparr>)" "pt_segment_key (p\<lparr>pt_log := lg'\<rparr>) = pt_segment_key p"
    using D(3) by (simp_all add: names_ok_def lg'_def fun_eq_iff pt_segment_key_def)
  ultimately show "durable L s (p\<lparr>pt_log := lg'\<rparr>) R vs es"
    using dur by (simp add: durable_def Let_def part_inv_def disk_ok_def) (simp add: lg'_def)
  show "partition_rows L (s, p\<lparr>pt_log := lg'\<rparr>) = partition_rows L (s, p)" by (simp add: partition_rows_def)
qed

section \<open>Compaction\<close>

definition log_tmp :: "partition \<Rightarrow> string" where
  "log_tmp p = with_extension (log_key (pt_log p)) ''log.compacting''"

lemma log_tmp_key:
  assumes "names_ok p"
  shows "log_tmp p \<noteq> pt_segment_key p i" "log_tmp p \<noteq> pt_manifest_key p" "log_tmp p \<noteq> log_key (pt_log p)"
proof -
  have n: "ident_ok (pt_tenant p)" "ident_ok (pt_database p)" "ident_ok (pt_table p)"
    "pt_manifest_key p = manifest_key (pt_tenant p) (pt_database p) (pt_table p) (pt_id p)"
    "log_key (pt_log p) = wal_key (pt_tenant p) (pt_database p) (pt_table p) (pt_id p)"
    using assms by (simp_all add: names_ok_def)
  note ks = split_key [OF n(1-3)]
  have "split_on CHR ''/'' (log_tmp p) = butlast (split_on CHR ''/'' (log_key (pt_log p))) @
      [file_stem (last (split_on CHR ''/'' (log_key (pt_log p)))) @ ''.log.compacting'']"
    unfolding log_tmp_def by (subst split_with_extension) simp_all
  then have sp: "split_on CHR ''/'' (log_tmp p) =
      key_parts (pt_tenant p) (pt_database p) (pt_table p) @ [''p'' @ show_nat (pt_id p), ''wal'', ''current.log.compacting'']"
    by (simp add: n(5) ks(6) butlast_append file_stem_def)
  show "log_tmp p \<noteq> pt_segment_key p i" "log_tmp p \<noteq> pt_manifest_key p" "log_tmp p \<noteq> log_key (pt_log p)"
    unfolding n pt_segment_key_def split_on_inj [of "CHR ''/''", symmetric] ks sp by simp_all
qed

lemma log_tmp_own: "names_ok p \<Longrightarrow> log_tmp p \<in> own_keys p"
proof -
  assume n: "names_ok p"
  have "split_on CHR ''/'' (log_tmp p) = butlast (split_on CHR ''/'' (log_key (pt_log p))) @
      [file_stem (last (split_on CHR ''/'' (log_key (pt_log p)))) @ ''.log.compacting'']"
    unfolding log_tmp_def by (subst split_with_extension) simp_all
  moreover have "log_key (pt_log p) = wal_key (pt_tenant p) (pt_database p) (pt_table p) (pt_id p)"
    "ident_ok (pt_tenant p)" "ident_ok (pt_database p)" "ident_ok (pt_table p)"
    using n by (simp_all add: names_ok_def)
  ultimately show "log_tmp p \<in> own_keys p"
    using split_key(6) by (simp add: own_keys_def butlast_append)
qed

lemma segment_ids_distinct: "part_inv L s p R \<Longrightarrow> distinct (map fact_id (facts_of (pt_state p)))"
  using segs_okD(1) [OF st_invD(3) [OF part_invD(5)]] by (simp add: facts_of_def comp_def)

lemma contents_mset:
  "mset (seg_part R' st') = mset (seg_part R st) \<Longrightarrow> mem_part M st' = mem_part M' st \<Longrightarrow>
   mset (contents R' M st') = mset (contents R M' st)"
  by (simp add: contents_def)

text \<open>The manifest of a merge is published: the same rows, whether the inputs are deleted or not.\<close>

lemma merged_durable:
  assumes dur: "durable L s p R vs es" and inv: "part_inv L s' (with_state p st') R'"
    and parts: "mset (seg_part R' st') = mset (seg_part R (pt_state p))"
      "mem_part (mem_rows (ps_memtable st')) st' = mem_part (mem_rows (ps_memtable (pt_state p))) (pt_state p)"
    and f: "ps_schema st' = ps_schema (pt_state p)" "ps_applied_lsn st' = ps_applied_lsn (pt_state p)"
      "ps_last_lsn st' = ps_last_lsn (pt_state p)"
    and pub: "published L s' (pt_manifest_key p) (ps_applied_lsn st') (ps_next_segment st') vs'"
      "same_entries (ps_segments st') vs'"
    and oth: "others_same (insert (pt_manifest_key p) (range (pt_segment_key p))) s s'"
  shows "durable L s' (with_state p st') R' vs' es"
    "mset (partition_rows L (s', with_state p st')) = mset (partition_rows L (s, p))"
proof -
  note d = durableD [OF dur]
  note K = pt_keys [OF part_invD(3) [OF d(1)]]
  have wal: "map_of (files s') (log_key (pt_log p)) = map_of (files s) (log_key (pt_log p))"
    by (rule others_sameD [OF oth _ K(7)]) (use K(4) not_sym [OF K(3)] in auto)
  have log': "log_holds (sl_wal L) (s', pt_log p) es"
    using d(2) wal part_invD(2) [OF inv] by (simp add: log_holds_def)
  have "set (seg_part R' st') = set (seg_part R (pt_state p))" using parts(1) by (metis set_mset_mset)
  then have un: "\<forall>v \<in> set (seg_part R' st'). untouched (sl_arrow L) (pk_indices (ps_schema (pt_state p)))
      (live_ops (ps_applied_lsn (pt_state p)) es) v"
    using d(5) by auto
  show "durable L s' (with_state p st') R' vs' es"
    by (rule published_durable [OF inv _ _ _ published_plain [OF pub(1)] refl refl])
      (use pub parts f log' d un disk_okD(11) [OF d(3)] in simp_all)
  show "mset (partition_rows L (s', with_state p st')) = mset (partition_rows L (s, p))"
    using partition_rows_eq [OF inv] partition_rows_eq [OF d(1)] contents_mset [OF parts] by simp
qed

lemma compact_durable:
  assumes dur: "durable L s p R vs es" and ids: "distinct ids"
  obtains r s' st' R' vs' where "compact_locked L ids (s, p) = (Inr r, (s', with_state p st'))"
    "durable L s' (with_state p st') R' vs' es" "ps_schema st' = ps_schema (pt_state p)"
    "mset (partition_rows L (s', with_state p st')) = mset (partition_rows L (s, p))"
    "ps_applied_lsn st' = ps_applied_lsn (pt_state p)" "ps_last_lsn st' = ps_last_lsn (pt_state p)"
    "others_same (own_keys p) s s'"
proof (cases rule: compact_locked_ok [OF durableD(1) [OF dur] ids, case_names none merged])
  case none
  have eq: "with_state p (pt_state p) = p" by (simp add: with_state_def)
  show ?thesis by (rule that [of None s "pt_state p" R vs]) (simp_all add: eq none dur others_same_def)
next
  case (merged s' st' R' vs')
  note m = merged_durable [OF dur merged(2-7,9-11)]
  have "others_same (own_keys p) s s'"
    by (rule others_same_mono [OF merged(11)]) (use own_keys_of [OF part_invD(3) [OF durableD(1) [OF dur]]] in auto)
  then show ?thesis by (rule that [OF merged(1) m(1) merged(5) m(2) merged(6,7)])
qed

section \<open>Checkpoint and flush\<close>

text \<open>The live rows of the memtable are in segments: what a checkpoint may start from.\<close>

definition drained :: "storage_lib \<Rightarrow> fs_store \<Rightarrow> partition \<Rightarrow> (nat \<Rightarrow> row list) \<Rightarrow> log_entry list \<Rightarrow> bool" where
  "drained L s p R es \<longleftrightarrow> part_inv L s p R \<and> log_holds (sl_wal L) (s, pt_log p) es \<and>
     mem_rows (ps_memtable (pt_state p)) = [] \<and> (\<forall>e \<in> set es. lsn e \<le> ps_last_lsn (pt_state p)) \<and>
     ps_last_lsn (pt_state p) < next_lsn (pt_log p)"

lemma drainedD:
  assumes "drained L s p R es"
  shows "part_inv L s p R" "log_holds (sl_wal L) (s, pt_log p) es" "mem_rows (ps_memtable (pt_state p)) = []"
    "\<forall>e \<in> set es. lsn e \<le> ps_last_lsn (pt_state p)" "ps_last_lsn (pt_state p) < next_lsn (pt_log p)"
  using assms by (simp_all add: drained_def)

text \<open>The same partition, in a later state.\<close>

definition same_names :: "partition \<Rightarrow> partition \<Rightarrow> bool" where
  "same_names p p' \<longleftrightarrow> pt_tenant p' = pt_tenant p \<and> pt_database p' = pt_database p \<and>
     pt_table p' = pt_table p \<and> pt_id p' = pt_id p \<and> pt_config p' = pt_config p"

lemma same_names_simps [simp]:
  "same_names p p" "same_names p (with_state p' st) = same_names p p'" "same_names (with_state p' st) p = same_names p' p"
  "same_names p (p'\<lparr>pt_log := lg\<rparr>) = same_names p p'" "same_names p (p'\<lparr>pt_state := st\<rparr>) = same_names p p'"
  "same_names (p'\<lparr>pt_log := lg\<rparr>) p = same_names p' p" "same_names (p'\<lparr>pt_state := st\<rparr>) p = same_names p' p"
  by (simp_all add: same_names_def with_state_def)

lemma same_names_trans [trans]: "same_names p q \<Longrightarrow> same_names q r \<Longrightarrow> same_names p r"
  by (simp add: same_names_def)

lemma same_names_keys: "same_names p p' \<Longrightarrow> own_keys p' = own_keys p"
  by (simp add: same_names_def own_keys_def)

definition checkpointed :: "partition \<Rightarrow> partition" where
  "checkpointed p = with_state p ((pt_state p)\<lparr>ps_applied_lsn := ps_last_lsn (pt_state p)\<rparr>)"

lemma checkpointed_fields [simp]:
  "pt_log (checkpointed p) = pt_log p" "pt_manifest_key (checkpointed p) = pt_manifest_key p"
  "pt_config (checkpointed p) = pt_config p" "ps_schema (pt_state (checkpointed p)) = ps_schema (pt_state p)"
  "ps_applied_lsn (pt_state (checkpointed p)) = ps_last_lsn (pt_state p)" "own_keys (checkpointed p) = own_keys p"
  by (simp_all add: checkpointed_def)

lemma same_names_checkpointed [simp]: "same_names p (checkpointed p) = True"
  by (simp add: checkpointed_def)

lemma checkpointed_log [simp]: "(checkpointed p)\<lparr>pt_log := pt_log p\<rparr> = checkpointed p"
  by (simp add: checkpointed_def with_state_def)

lemma checkpoint_stages:
  assumes ready: "drained L s p R es"
  obtains s1 vs s2 where
    "commit_manifest L (s, checkpointed p) = Inr s1" "others_same {pt_manifest_key p} s s1"
    "durable L s1 (checkpointed p) R vs es" "partition_rows L (s1, checkpointed p) = partition_rows L (s, p)"
    "truncate_prefix (sl_wal L) (s1, pt_log p) (ps_last_lsn (pt_state p)) = Inr (s2, pt_log p)"
    "map_of (files s2) = ((map_of (files s1))(log_tmp p := None))(log_key (pt_log p) \<mapsto> wal_magic @ image (sl_wal L) [])"
    "durable L s2 (checkpointed p) R vs []" "partition_rows L (s2, checkpointed p) = partition_rows L (s, p)"
    "part_inv L s (checkpointed p) R" "others_same (own_keys p) s s2"
proof -
  let ?st = "pt_state (checkpointed p)" and ?p = "checkpointed p"
  note d = drainedD [OF ready]
  note inv = d(1)
  note K = pt_keys [OF part_invD(3) [OF inv]]
  have st: "?st = (pt_state p)\<lparr>ps_applied_lsn := ps_last_lsn (pt_state p)\<rparr>" by (simp add: checkpointed_def)
  have st_ok: "state_ok pk R M ?st = state_ok pk R M (pt_state p)" for pk M by (rule state_ok_cong) (simp_all add: st)
  have inv1: "part_inv L s ?p R" using inv st_ok by (simp add: part_inv_def st_inv_def) (simp add: checkpointed_def)
  have rows1: "partition_rows L (s, ?p) = partition_rows L (s, p)"
    using partition_rows_eq [OF inv1] partition_rows_eq [OF inv] parts_cong [of ?st "pt_state p"]
    by (simp add: contents_def st)
  obtain s1 vs where c: "commit_manifest L (s, ?p) = Inr s1" "store_ok s1" "others_same {pt_manifest_key ?p} s s1"
    "part_inv L s1 ?p R" "published L s1 (pt_manifest_key ?p) (ps_applied_lsn ?st) (ps_next_segment ?st) vs"
    "same_entries (ps_segments ?st) vs"
    by (rule commit_manifest_ok [OF inv1]) (rule that; assumption)
  have wal1: "map_of (files s1) (log_key (pt_log p)) = map_of (files s) (log_key (pt_log p))"
    by (rule others_sameD [OF c(3) _ K(7)]) (use K(4) in simp)
  have log1: "log_holds (sl_wal L) (s1, pt_log p) es" using d(2) wal1 c(2) by (simp add: log_holds_def)
  have old: "filter (\<lambda>e. ps_last_lsn (pt_state p) < lsn e) es = []" using d(4) by (auto simp: filter_empty_conv)
  then have ops: "live_ops (ps_applied_lsn ?st) es = []" by (simp add: live_ops_def)
  have dur1: "durable L s1 ?p R vs es"
    by (rule published_durable [OF c(4) _ c(5,6) published_plain [OF c(5)] refl refl])
      (use log1 d(3,4,5) ops in \<open>simp_all add: untouched_def mem_part_def st\<close>)
  obtain s2 where t: "truncate_prefix (sl_wal L) (s1, pt_log p) (ps_last_lsn (pt_state p)) = Inr (s2, pt_log p)"
    "log_holds (sl_wal L) (s2, pt_log p) []"
    "map_of (files s2) = ((map_of (files s1))(log_tmp p := None))(log_key (pt_log p) \<mapsto> wal_magic @ image (sl_wal L) [])"
    using truncate_holds [OF log1, of "ps_last_lsn (pt_state p)"] unfolding old log_tmp_def by metis
  note T = log_tmp_key [OF part_invD(3) [OF inv]]
  have oth2: "others_same {log_tmp p, log_key (pt_log p)} s1 s2" using t(3) by (simp add: others_same_def)
  have ok2: "store_ok s2" using t(2) by (simp add: log_holds_def)
  have inv2: "part_inv L s2 ?p R"
    by (rule part_inv_store [OF c(4) oth2 ok2]) (use K(3) T(1) in \<open>auto simp: eq_commute checkpointed_def\<close>)
  have pub2: "published L s2 (pt_manifest_key ?p) (ps_applied_lsn ?st) (ps_next_segment ?st) vs"
    by (rule published_files [OF c(5)]) (use t(3) K(4) T(2) in \<open>simp add: eq_commute\<close>)
  have dur2: "durable L s2 ?p R vs []"
    by (rule published_durable [OF inv2 _ pub2 c(6) published_plain [OF pub2] refl refl])
      (use t(2) d(3,5) in \<open>simp_all add: untouched_def mem_part_def st\<close>)
  have rows: "partition_rows L (s1, ?p) = partition_rows L (s, p)" "partition_rows L (s2, ?p) = partition_rows L (s, p)"
    using partition_rows_eq [OF inv2] partition_rows_eq [OF c(4)] partition_rows_eq [OF inv1] rows1 by simp_all
  have "others_same (own_keys p) s s2"
    by (rule others_same_mono [OF others_same_trans [OF c(3) oth2]])
      (use own_keys_of [OF part_invD(3) [OF inv]] log_tmp_own [OF part_invD(3) [OF inv]] in simp)
  then show ?thesis by (intro that [OF c(1) _ dur1 rows(1) t(1,3) dur2 rows(2) inv1]) (use c(3) in simp_all)
qed

lemma auto_compact_ids: "part_inv L s p R \<Longrightarrow> distinct (select (facts_of (pt_state p)) pol)"
  using select_bounded [OF segment_ids_distinct] by blast

lemma checkpoint_ok:
  assumes ready: "drained L s p R es"
  obtains s' p' R' vs' where "checkpoint L created (s, p) = (Inr created, (s', p'))"
    "durable L s' p' R' vs' []" "ps_schema (pt_state p') = ps_schema (pt_state p)"
    "mset (partition_rows L (s', p')) = mset (partition_rows L (s, p))"
    "others_same (own_keys p) s s'" "same_names p p'"
proof -
  let ?p = "checkpointed p"
  obtain s1 vs s2 where c: "commit_manifest L (s, ?p) = Inr s1"
    "truncate_prefix (sl_wal L) (s1, pt_log p) (ps_last_lsn (pt_state p)) = Inr (s2, pt_log p)"
    "durable L s2 ?p R vs []" "partition_rows L (s2, ?p) = partition_rows L (s, p)" "others_same (own_keys p) s s2"
    by (rule checkpoint_stages [OF ready]) (rule that; assumption)
  let ?ids = "select (facts_of (pt_state ?p)) (cfg_compaction (pt_config ?p))"
  note dur2 = c(3)
  have ids: "distinct ?ids" by (rule auto_compact_ids [OF durableD(1) [OF dur2]])
  show ?thesis
  proof (cases "auto_compact (pt_config p) \<and> ?ids \<noteq> []")
    case False
    then have "checkpoint L created (s, p) = (Inr created, (s2, ?p))"
      using c(1,2) by (auto simp: checkpoint_def Let_def auto_compaction_def simp flip: checkpointed_def)
    then show ?thesis by (rule that [OF _ dur2]) (use c(4,5) in simp_all)
  next
    case True
    obtain r s3 st3 R3 vs3 where m: "compact_locked L ?ids (s2, ?p) = (Inr r, (s3, with_state ?p st3))"
      "durable L s3 (with_state ?p st3) R3 vs3 []" "ps_schema st3 = ps_schema (pt_state ?p)"
      "mset (partition_rows L (s3, with_state ?p st3)) = mset (partition_rows L (s2, ?p))"
      "others_same (own_keys ?p) s2 s3"
      using compact_durable [OF dur2 ids] by metis
    have "checkpoint L created (s, p) = (Inr created, (s3, with_state ?p st3))"
      using c(1,2) True m(1) by (simp add: checkpoint_def Let_def auto_compaction_def flip: checkpointed_def)
    then show ?thesis
      by (rule that [OF _ m(2)]) (use m(3,4) c(4) others_same_trans [OF c(5) m(5)] in simp_all)
  qed
qed

lemma mt_concat_none: "mt_concat A m = Inr None \<Longrightarrow> mem_rows m = []"
  by (auto simp: mt_concat_def mem_rows_def result_simps split: list.splits)

lemma clear_memtable_inv:
  assumes inv: "part_inv L s p R" and dead: "mem_part (mem_rows (ps_memtable (pt_state p))) (pt_state p) = []"
  defines "p' \<equiv> with_state p (clear_memtable (pt_state p))"
  shows "part_inv L s p' R" "partition_rows L (s, p') = partition_rows L (s, p)"
proof -
  let ?st = "pt_state p" and ?st' = "clear_memtable (pt_state p)"
  let ?pk = "pk_indices (ps_schema ?st)" and ?M = "mem_rows (ps_memtable ?st)"
  note S = st_invD [OF part_invD(5) [OF inv]]
  have M: "mem_rows (ps_memtable ?st') = []" by (simp add: clear_memtable_def mt_clear_def mem_rows_def)
  have vis: "visible R [] ?st' = visible R ?M ?st"
    using dead by (simp add: visible_def clear_memtable_def mem_part_def)
  have "state_ok ?pk R [] ?st'"
    using S(4) vis by (auto simp: state_ok_def addr_ok_def clear_memtable_def split: if_splits)
  moreover have "memtable_ok (ps_schema ?st) (ps_memtable ?st')"
    using S(2) by (simp add: memtable_ok_def clear_memtable_def mt_clear_def mem_rows_def)
  ultimately show inv': "part_inv L s p' R"
    using part_invD [OF inv] S M by (simp add: part_inv_def p'_def st_inv_def) (simp add: clear_memtable_def)
  have "seg_part R ?st' = seg_part R ?st" "mem_part [] ?st' = []"
    by (simp_all add: seg_part_def mem_part_def clear_memtable_def)
  then show "partition_rows L (s, p') = partition_rows L (s, p)"
    using dead M by (simp add: partition_rows_eq [OF inv'] partition_rows_eq [OF inv] contents_def)
      (simp add: p'_def contents_def)
qed

text \<open>How a flush starts: nothing to do, nothing to write, or a new segment.\<close>

lemma flush_cases:
  assumes dur: "durable L s p R vs es"
  obtains (idle) "mt_concat (sl_arrow L) (ps_memtable (pt_state p)) = Inr None"
    "ps_last_lsn (pt_state p) = ps_applied_lsn (pt_state p)"
  | (empty) "mt_concat (sl_arrow L) (ps_memtable (pt_state p)) = Inr None"
    "ps_last_lsn (pt_state p) \<noteq> ps_applied_lsn (pt_state p)" "drained L s p R es"
  | (cleared) b p1 where "mt_concat (sl_arrow L) (ps_memtable (pt_state p)) = Inr (Some b)"
    "live_ordinals b (ps_mem_suppressed (pt_state p)) = []" "p1 = with_state p (clear_memtable (pt_state p))"
    "drained L s p1 R es" "partition_rows L (s, p1) = partition_rows L (s, p)"
    "ps_schema (pt_state p1) = ps_schema (pt_state p)"
  | (written) b s1 p0 st1 R1 where "mt_concat (sl_arrow L) (ps_memtable (pt_state p)) = Inr (Some b)"
    "live_ordinals b (ps_mem_suppressed (pt_state p)) \<noteq> []"
    "flush_segment L b (live_ordinals b (ps_mem_suppressed (pt_state p))) (s, p) = Inr (ps_next_segment (pt_state p), (s1, p0))"
    "with_state p0 (clear_memtable (pt_state p0)) = with_state p st1"
    "drained L s1 (with_state p st1) R1 es" "partition_rows L (s1, with_state p st1) = partition_rows L (s, p)"
    "others_same {pt_segment_key p (ps_next_segment (pt_state p))} s s1" "ps_schema st1 = ps_schema (pt_state p)"
proof -
  let ?st = "pt_state p"
  note d = durableD [OF dur]
  note I = part_invD [OF d(1)]
  note S = st_invD [OF I(5)]
  note K = pt_keys [OF I(3)]
  consider (no_rows) "mt_concat (sl_arrow L) (ps_memtable ?st) = Inr None" "mem_rows (ps_memtable ?st) = []"
    | (rows) b where "mt_concat (sl_arrow L) (ps_memtable ?st) = Inr (Some b)" "brows b = mem_rows (ps_memtable ?st)"
    by (rule mt_concat_eq [OF storage_okD(1) [OF I(1)] S(2)]) (rule that; assumption)+
  then show ?thesis
  proof cases
    case no_rows
    then have "drained L s p R es" using d(1,2,7,9) by (simp add: drained_def)
    then show ?thesis using idle [OF no_rows(1)] empty [OF no_rows(1)] by blast
  next
    case (rows b)
    let ?keep = "live_ordinals b (ps_mem_suppressed ?st)"
    show ?thesis
    proof (cases "?keep = []")
      case True
      let ?p = "with_state p (clear_memtable ?st)"
      have "mem_part (mem_rows (ps_memtable ?st)) ?st = []"
        using True rows(2) by (simp add: mem_part_def live_def live_ordinals_def num_rows_def)
      note cl = clear_memtable_inv [OF d(1) this]
      have "drained L s ?p R es"
        using cl(1) d(2,7,9) by (simp add: drained_def) (simp add: clear_memtable_def mt_clear_def mem_rows_def)
      then show ?thesis by (rule cleared [OF rows(1) True refl _ cl(2)]) (simp add: clear_memtable_def)
    next
      case False
      obtain s1 p1 m R1 index where f: "flush_segment L b ?keep (s, p) = Inr (ps_next_segment ?st, (s1, p1))"
        "with_state p1 (clear_memtable (pt_state p1)) = with_state p (flushed_state ?st m index)"
        "part_inv L s1 (with_state p (flushed_state ?st m index)) R1"
        "seg_part R1 (flushed_state ?st m index) = partition_rows L (s, p)"
        "others_same {pt_segment_key p (ps_next_segment ?st)} s s1"
        by (rule flush_segment_ok [OF d(1) rows(1) refl]) (rule that; assumption)
      let ?p = "with_state p (flushed_state ?st m index)"
      have st: "mem_rows (ps_memtable (pt_state ?p)) = []" "ps_last_lsn (pt_state ?p) = ps_last_lsn ?st"
        "ps_schema (pt_state ?p) = ps_schema ?st" "ps_mem_suppressed (pt_state ?p) = {}"
        by (simp_all add: flushed_state_def mt_clear_def mem_rows_def)
      have rws: "partition_rows L (s1, ?p) = partition_rows L (s, p)"
        using partition_rows_eq [OF f(3)] f(4) st by (simp add: contents_def mem_part_def)
      have "map_of (files s1) (log_key (pt_log p)) = map_of (files s) (log_key (pt_log p))"
        by (rule others_sameD [OF f(5) _ K(7)]) (use not_sym [OF K(3)] in auto)
      then have "drained L s1 ?p R1 es"
        using d(2,7,9) st f(3) part_invD(2) [OF f(3)] by (simp add: drained_def log_holds_def)
      then show ?thesis by (rule written [OF rows(1) False f(1,2) _ rws f(5)]) (use st in simp)
    qed
  qed
qed

lemma flush_ok:
  assumes dur: "durable L s p R vs es"
  obtains r s' p' R' vs' es' where "flush_locked L (s, p) = (Inr r, (s', p'))" "durable L s' p' R' vs' es'"
    "ps_schema (pt_state p') = ps_schema (pt_state p)"
    "mset (partition_rows L (s', p')) = mset (partition_rows L (s, p))"
    "others_same (own_keys p) s s'" "same_names p p'"
proof (cases rule: flush_cases [OF dur])
  case 1
  then have "flush_locked L (s, p) = (Inr None, (s, p))" by (simp add: flush_locked_def)
  then show ?thesis by (rule that [OF _ dur]) (simp_all add: others_same_def)
next
  case 2
  obtain s' p' R' vs' where c: "checkpoint L None (s, p) = (Inr None, (s', p'))" "durable L s' p' R' vs' []"
    "ps_schema (pt_state p') = ps_schema (pt_state p)" "mset (partition_rows L (s', p')) = mset (partition_rows L (s, p))"
    "others_same (own_keys p) s s'" "same_names p p'"
    by (rule checkpoint_ok [OF 2(3)]) (rule that; assumption)
  have "flush_locked L (s, p) = (Inr None, (s', p'))" using 2 c(1) by (simp add: flush_locked_def)
  then show ?thesis by (rule that [OF _ c(2-6)])
next
  case (3 b p1)
  obtain s' p' R' vs' where c: "checkpoint L None (s, p1) = (Inr None, (s', p'))" "durable L s' p' R' vs' []"
    "ps_schema (pt_state p') = ps_schema (pt_state p1)" "mset (partition_rows L (s', p')) = mset (partition_rows L (s, p1))"
    "others_same (own_keys p1) s s'" "same_names p1 p'"
    by (rule checkpoint_ok [OF 3(4)]) (rule that; assumption)
  have "flush_locked L (s, p) = (Inr None, (s', p'))" using 3 c(1) by (simp add: flush_locked_def)
  then show ?thesis by (rule that [OF _ c(2)]) (use c(3-6) 3(3,5,6) in simp_all)
next
  case (4 b s1 p0 st1 R1)
  let ?sid = "Some (ps_next_segment (pt_state p))" and ?p1 = "with_state p st1"
  obtain s' p' R' vs' where c: "checkpoint L ?sid (s1, ?p1) = (Inr ?sid, (s', p'))" "durable L s' p' R' vs' []"
    "ps_schema (pt_state p') = ps_schema (pt_state ?p1)" "mset (partition_rows L (s', p')) = mset (partition_rows L (s1, ?p1))"
    "others_same (own_keys ?p1) s1 s'" "same_names ?p1 p'"
    by (rule checkpoint_ok [OF 4(5)]) (rule that; assumption)
  have "others_same (own_keys p) s s1"
    by (rule others_same_mono [OF 4(7)]) (use own_keys_of [OF part_invD(3) [OF durableD(1) [OF dur]]] in simp)
  then have oth: "others_same (own_keys p) s s'" using others_same_trans c(5) by fastforce
  have "flush_locked L (s, p) = (Inr ?sid, (s', p'))" using 4 c(1) by (simp add: flush_locked_def Let_def)
  then show ?thesis by (rule that [OF _ c(2)]) (use c(3,4,6) 4(6,8) oth in simp_all)
qed

end
