(* ===== verification/PartitionTheorems.thy ===== *)
theory PartitionTheorems
  imports PartitionSafety
begin

text \<open>
  What a partition promises: every operation keeps it \<open>sound\<close> and changes its rows as the
  specification of upserts and deletes says, and reopening gives the same rows.
\<close>

section \<open>Soundness\<close>

text \<open>
  A partition is sound when its memory and its disk agree: there are segment rows, published
  entries and log records for which it is durable.
\<close>

definition sound :: "storage_lib \<Rightarrow> part_st \<Rightarrow> bool" where
  "sound L st \<longleftrightarrow> (\<exists>R vs es. durable L (fst st) (snd st) R vs es)"

abbreviation schema_of :: "part_st \<Rightarrow> table_schema" where
  "schema_of st \<equiv> ps_schema (pt_state (snd st))"

abbreviation key_columns :: "part_st \<Rightarrow> nat list" where
  "key_columns st \<equiv> pk_indices (schema_of st)"

lemma soundI: "durable L s p R vs es \<Longrightarrow> sound L (s, p)"
  by (auto simp: sound_def)

lemma soundE:
  assumes "sound L st"
  obtains s p R vs es where "st = (s, p)" "durable L s p R vs es"
  using assms by (cases st) (auto simp: sound_def)

section \<open>Appending\<close>

definition write_op :: "bool \<Rightarrow> bytes \<Rightarrow> mutation" where
  "write_op upsert ipc = (if upsert then MUpsert ipc else MInsert ipc)"

text \<open>The log record of the batch is below 4 GiB, so its length fits the 32-bit field.\<close>

definition batch_loggable :: "storage_lib \<Rightarrow> part_st \<Rightarrow> batch \<Rightarrow> bool \<Rightarrow> bool" where
  "batch_loggable L st b upsert =
     (case encode_ipc (sl_arrow L) b of
        Inr ipc \<Rightarrow> loggable (sl_wal L) (fst st, pt_log (snd st)) (write_op upsert ipc)
      | Inl _ \<Rightarrow> True)"

lemma write_op_spec:
  assumes "decode_ipc A ipc = Inr b"
  shows "spec_apply A pk V (write_op upsert ipc) = spec_append pk V (brows b)"
    "entry_fits A schema (write_op upsert ipc) = batch_fits schema b"
    "apply_entry A st \<lparr>lsn = n, entry_mutation = write_op upsert ipc\<rparr> = Inr (apply_rows A b n st)"
  using assms by (simp_all add: write_op_def entry_fits_def apply_entry_def)

lemma append_ok:
  assumes dur: "durable L s p R vs es" and fit: "batch_fits (ps_schema (pt_state p)) b"
    and small: "batch_loggable L (s, p) b upsert"
  obtains (refused) p' where "append_rows L b upsert (s, p) = (Inl BadRequest, (s, p'))" "durable L s p' R vs es"
    "pt_state p' = pt_state p" "partition_rows L (s, p') = partition_rows L (s, p)" "same_names p p'"
  | (accepted) n s' p' R' vs' es' where "append_rows L b upsert (s, p) = (Inr n, (s', p'))" "durable L s' p' R' vs' es'"
    "ps_schema (pt_state p') = ps_schema (pt_state p)"
    "mset (partition_rows L (s', p')) =
       mset (spec_append (pk_indices (ps_schema (pt_state p))) (partition_rows L (s, p)) (brows b))"
    "others_same (own_keys p) s s'" "same_names p p'"
proof -
  let ?W = "sl_wal L" and ?A = "sl_arrow L"
  note d = durableD [OF dur]
  have "arrow_ok ?A" "batch_ok b" using storage_okD(1) part_invD(1) [OF d(1)] fit by (simp_all add: batch_fits_def)
  then obtain ipc where ipc: "encode_ipc ?A b = Inr ipc" "decode_ipc ?A ipc = Inr b" using ipc_roundtrip by blast
  let ?m = "write_op upsert ipc"
  let ?e = "\<lparr>lsn = next_lsn (pt_log p), entry_mutation = ?m\<rparr>"
  note spec = write_op_spec [OF ipc(2)]
  have log: "loggable ?W (s, pt_log p) ?m" using small ipc(1) by (simp add: batch_loggable_def)
  show ?thesis
  proof (cases "fits_record ?W ?e")
    case False
    note r = log_refused [OF dur False log]
    show ?thesis by (rule refused [OF _ r(2) _ r(3)]) (use ipc r(1) in \<open>simp_all add: append_rows_def write_op_def\<close>)
  next
    case True
    have fits: "entry_fits ?A (ps_schema (pt_state p)) ?m" using fit by (simp add: spec)
    obtain s1 lg1 st1 where oth: "others_same (own_keys p) s s1" "own_keys (p\<lparr>pt_log := lg1, pt_state := st1\<rparr>) = own_keys p"
      and r: "log_append ?W (s, pt_log p) ?m = (Inr (lsn ?e), s1, lg1)"
      "apply_entry ?A (pt_state p) ?e = Inr st1"
      "durable L s1 (p\<lparr>pt_log := lg1, pt_state := st1\<rparr>) R vs (es @ [?e])" "ps_schema st1 = ps_schema (pt_state p)"
      "partition_rows L (s1, p\<lparr>pt_log := lg1, pt_state := st1\<rparr>) =
        spec_apply ?A (pk_indices (ps_schema (pt_state p))) (partition_rows L (s, p)) ?m"
      by (rule log_step [OF dur fits True]) (rule that; assumption)
    let ?p1 = "p\<lparr>pt_log := lg1, pt_state := st1\<rparr>"
    have st1: "st1 = apply_rows ?A b (lsn ?e) (pt_state p)" using r(2) by (simp add: spec)
    show ?thesis
    proof (cases "should_flush ?p1")
      case False
      have "append_rows L b upsert (s, p) = (Inr 0, (s1, ?p1))"
        using ipc(1) r(1) False st1 by (simp add: append_rows_def write_op_def Let_def)
      then show ?thesis by (rule accepted [OF _ r(3)]) (use r(4,5) spec oth in simp_all)
    next
      case True
      obtain f s' p' R' vs' es' where f: "flush_locked L (s1, ?p1) = (Inr f, (s', p'))" "durable L s' p' R' vs' es'"
        "ps_schema (pt_state p') = ps_schema (pt_state ?p1)"
        "mset (partition_rows L (s', p')) = mset (partition_rows L (s1, ?p1))"
        "others_same (own_keys ?p1) s1 s'" "same_names ?p1 p'"
        by (rule flush_ok [OF r(3)]) (rule that; assumption)
      have "append_rows L b upsert (s, p) = (Inr (if f = None then 0 else 1), (s', p'))"
        using ipc(1) r(1) True st1 f(1) by (simp add: append_rows_def write_op_def Let_def)
      moreover have "others_same (own_keys p) s s'" using others_same_trans [OF oth(1) f(5)] oth(2) by simp
      ultimately show ?thesis by (intro accepted [OF _ f(2)]) (use r(4,5) f(3,4,6) spec in simp_all)
    qed
  qed
qed

section \<open>Deleting\<close>

definition present_keys :: "partition \<Rightarrow> row_key list \<Rightarrow> row_key list" where
  "present_keys p = filter (ki_contains (ps_key_index (pt_state p)))"

lemma index_keys:
  assumes "part_inv L s p R"
  defines "pk \<equiv> pk_indices (ps_schema (pt_state p))"
  shows "ki_contains (ps_key_index (pt_state p)) k \<longleftrightarrow> pk \<noteq> [] \<and> k \<in> row_key pk ` set (partition_rows L (s, p))"
proof -
  let ?st = "pt_state p" and ?M = "mem_rows (ps_memtable (pt_state p))"
  have rows: "partition_rows L (s, p) = map snd (visible R ?M ?st)"
    by (simp add: partition_rows_eq [OF assms(1)] contents_def visible_def seg_part_def mem_part_def)
  have st: "state_ok pk R ?M ?st" using st_invD(4) [OF part_invD(5) [OF assms(1)]] by (simp add: pk_def)
  show ?thesis
  proof (cases "pk = []")
    case True
    then show ?thesis using st by (simp add: state_ok_def ki_contains_def)
  next
    case False
    then have ix: "index_ok pk (visible R ?M ?st) (ps_key_index ?st)" using st by (simp add: state_ok_def)
    have "(\<exists>l. map_of (ps_key_index ?st) k = Some l) \<longleftrightarrow> (\<exists>l r. (l, r) \<in> set (visible R ?M ?st) \<and> row_key pk r = k)"
      using ix unfolding index_ok_def by blast
    then show ?thesis using False unfolding rows ki_contains_def by force
  qed
qed

lemma spec_delete_present:
  assumes "\<And>k. k \<in> set ks \<Longrightarrow> P k \<longleftrightarrow> pk \<noteq> [] \<and> k \<in> row_key pk ` set V"
  shows "spec_delete pk V (filter P ks) = spec_delete pk V ks"
  using assms by (auto simp: spec_delete_def intro!: filter_cong)

lemma delete_ok:
  assumes dur: "durable L s p R vs es" and small: "loggable (sl_wal L) (s, pt_log p) (MDelete (present_keys p ks))"
  obtains (refused) p' where "delete_keys L ks (s, p) = (Inl BadRequest, (s, p'))" "durable L s p' R vs es"
    "pt_state p' = pt_state p" "partition_rows L (s, p') = partition_rows L (s, p)" "same_names p p'"
  | (accepted) s' p' es' where "delete_keys L ks (s, p) = (Inr (length (present_keys p ks)), (s', p'))"
    "durable L s' p' R vs es'" "ps_schema (pt_state p') = ps_schema (pt_state p)"
    "partition_rows L (s', p') = spec_delete (pk_indices (ps_schema (pt_state p))) (partition_rows L (s, p)) ks"
    "others_same (own_keys p) s s'" "same_names p p'"
proof -
  let ?W = "sl_wal L" and ?A = "sl_arrow L" and ?ks = "present_keys p ks"
  let ?pk = "pk_indices (ps_schema (pt_state p))" and ?V = "partition_rows L (s, p)"
  let ?m = "MDelete ?ks" and ?e = "\<lparr>lsn = next_lsn (pt_log p), entry_mutation = MDelete (present_keys p ks)\<rparr>"
  note d = durableD [OF dur]
  have same: "spec_delete ?pk ?V ?ks = spec_delete ?pk ?V ks"
    unfolding present_keys_def by (rule spec_delete_present) (rule index_keys [OF d(1)])
  show ?thesis
  proof (cases "?ks = []")
    case True
    then have "delete_keys L ks (s, p) = (Inr (length ?ks), (s, p))"
      by (simp add: delete_keys_def present_keys_def Let_def)
    moreover have nil: "spec_delete ?pk ?V [] = ?V" by (simp add: spec_delete_def)
    have "?V = spec_delete ?pk ?V ks" using same unfolding True nil .
    ultimately show ?thesis by (intro accepted [OF _ dur refl]) (simp_all add: others_same_def)
  next
    case False
    show ?thesis
    proof (cases "fits_record ?W ?e")
      case big: False
      note r = log_refused [OF dur big small]
      show ?thesis
        by (rule refused [OF _ r(2) _ r(3)]) (use False r(1) in \<open>simp_all add: delete_keys_def present_keys_def Let_def\<close>)
    next
      case True
      obtain s1 lg1 st1 where oth: "others_same (own_keys p) s s1"
        and r: "log_append ?W (s, pt_log p) ?m = (Inr (lsn ?e), s1, lg1)"
        "apply_entry ?A (pt_state p) ?e = Inr st1"
        "durable L s1 (p\<lparr>pt_log := lg1, pt_state := st1\<rparr>) R vs (es @ [?e])" "ps_schema st1 = ps_schema (pt_state p)"
        "partition_rows L (s1, p\<lparr>pt_log := lg1, pt_state := st1\<rparr>) = spec_apply ?A ?pk ?V ?m"
        by (rule log_step [OF dur _ True]) (auto simp: entry_fits_def intro: that)
      have "delete_keys L ks (s, p) = (Inr (length ?ks), (s1, p\<lparr>pt_log := lg1, pt_state := st1\<rparr>))"
        using False r(1,2) by (simp add: delete_keys_def present_keys_def Let_def apply_entry_def)
      then show ?thesis by (rule accepted [OF _ r(3)]) (use r(4,5) same oth in simp_all)
    qed
  qed
qed

lemma sound_keys:
  assumes "sound L st" "key_columns st \<noteq> []"
  shows "distinct (map (row_key (key_columns st)) (partition_rows L st)) \<and>
    (\<forall>k. ki_contains (ps_key_index (pt_state (snd st))) k \<longleftrightarrow>
      k \<in> row_key (key_columns st) ` set (partition_rows L st))"
proof -
  obtain s p R vs es where st: "st = (s, p)" and dur: "durable L s p R vs es" using soundE [OF assms(1)] .
  let ?st = "pt_state p" and ?M = "mem_rows (ps_memtable (pt_state p))"
  note inv = durableD(1) [OF dur]
  have rows: "partition_rows L (s, p) = map snd (visible R ?M ?st)"
    by (simp add: partition_rows_eq [OF inv] contents_def visible_def seg_part_def mem_part_def)
  have ok: "state_ok (pk_indices (ps_schema ?st)) R ?M ?st" using st_invD(4) [OF part_invD(5) [OF inv]] .
  then have a: "addr_ok R ?M ?st" and ix: "index_ok (pk_indices (ps_schema ?st)) (visible R ?M ?st) (ps_key_index ?st)"
    using assms(2) st by (simp_all add: state_ok_def)
  have eq: "map (row_key pk) (map snd V) = map (\<lambda>(l, r). row_key pk r) V" for pk V by (induction V) auto
  have "distinct (map (row_key (pk_indices (ps_schema ?st))) (partition_rows L (s, p)))"
    unfolding rows eq by (rule index_keys_distinct [OF ix visible_distinct [OF a]])
  then show ?thesis using index_keys [OF inv] assms(2) st by simp
qed

end
