(* ===== verification/PartitionCrash.thy ===== *)
theory PartitionCrash
  imports PartitionTheorems
begin

text \<open>
  Crash safety of a partition. \<open>flush_crash_states\<close>, \<open>compact_crash_states\<close> and
  \<open>append_rows_crash_states\<close> list the file systems a crash during the operation can leave: every
  prefix of its disk effects, with files half written. From each of them the partition opens with
  the rows of before the operation or, once the log record is complete, those after it.
\<close>

section \<open>The states a crash can leave\<close>

definition segment_crash_states :: "storage_lib \<Rightarrow> fs_store \<Rightarrow> string \<Rightarrow> batch \<Rightarrow> fs_store list" where
  "segment_crash_states L s key b =
     (case parquet_write (sl_arrow L) b of Inl _ \<Rightarrow> [s] | Inr bs \<Rightarrow> put_crash_states s key bs)"

definition commit_crash_states :: "storage_lib \<Rightarrow> part_st \<Rightarrow> fs_store list" where
  "commit_crash_states L st =
     put_atomic_crash_states (fst st) (pt_manifest_key (snd st)) (manifest_json L (manifest_of L (snd st)))"

definition truncate_crash_states :: "wal_lib \<Rightarrow> fs_store \<times> file_log \<Rightarrow> nat \<Rightarrow> fs_store list" where
  "truncate_crash_states W st up_to =
     (let (s, log) = st in
      case rbind (read_all W s log) (\<lambda>entries. encode_entries W (filter (\<lambda>e. up_to < lsn e) entries)) of
        Inl _ \<Rightarrow> [s]
      | Inr frames \<Rightarrow>
          let buf = wal_magic @ concat frames; tmp = with_extension (log_key log) ''log.compacting'' in
          s # (case sys_create s tmp of Inl _ \<Rightarrow> [] | Inr s1 \<Rightarrow>
                 map (\<lambda>n. sys_write s1 tmp (take n buf)) [0..<Suc (length buf)] @
                 (case sys_rename (sys_write s1 tmp buf) tmp (log_key log) of Inl _ \<Rightarrow> [] | Inr s2 \<Rightarrow> [s2])))"

fun delete_crash_states :: "fs_store \<Rightarrow> string list \<Rightarrow> fs_store list" where
  "delete_crash_states s [] = [s]"
| "delete_crash_states s (k # ks) =
     s # (case store_delete s k of Inl _ \<Rightarrow> [] | Inr s \<Rightarrow> delete_crash_states s ks)"

definition compact_crash_states :: "storage_lib \<Rightarrow> nat list \<Rightarrow> part_st \<Rightarrow> fs_store list" where
  "compact_crash_states L ids st =
     (let (s, p) = st; inputs = compact_inputs ids (pt_state p) in
      if inputs = [] then [s]
      else case kept_rows L s (ps_schema (pt_state p)) inputs of
        Inl _ \<Rightarrow> [s]
      | Inr kept \<Rightarrow>
        (if kept = [] then [s]
         else case merge_batches (sl_arrow L) (map (\<lambda>(_, b, _). b) kept) of
           Inl _ \<Rightarrow> [s]
         | Inr b \<Rightarrow> segment_crash_states L s (pt_segment_key p (ps_next_segment (pt_state p))) b) @
        (case write_merged L (s, p) kept of
           Inl _ \<Rightarrow> []
         | Inr (s, new_entry) \<Rightarrow>
           let p = with_state p (replace_inputs inputs kept new_entry (pt_state p)) in
           commit_crash_states L (s, p) @
           (case commit_manifest L (s, p) of
              Inl _ \<Rightarrow> []
            | Inr s \<Rightarrow> delete_crash_states s (map (\<lambda>e. seg_key (se_meta e)) inputs))))"

definition checkpoint_crash_states :: "storage_lib \<Rightarrow> part_st \<Rightarrow> fs_store list" where
  "checkpoint_crash_states L st =
     (let (s, p) = st; state = pt_state p; state = state\<lparr>ps_applied_lsn := ps_last_lsn state\<rparr>;
          p = with_state p state
      in commit_crash_states L (s, p) @
         (case commit_manifest L (s, p) of
            Inl _ \<Rightarrow> []
          | Inr s \<Rightarrow>
            truncate_crash_states (sl_wal L) (s, pt_log p) (ps_applied_lsn state) @
            (case truncate_prefix (sl_wal L) (s, pt_log p) (ps_applied_lsn state) of
               Inl _ \<Rightarrow> []
             | Inr (s, lg) \<Rightarrow>
               let p = p\<lparr>pt_log := lg\<rparr>; ids = select (facts_of (pt_state p)) (cfg_compaction (pt_config p))
               in if auto_compact (pt_config p) \<and> ids \<noteq> [] then compact_crash_states L ids (s, p) else [s])))"

definition flush_crash_states :: "storage_lib \<Rightarrow> part_st \<Rightarrow> fs_store list" where
  "flush_crash_states L st =
     (let (s, p) = st; state = pt_state p in
      case mt_concat (sl_arrow L) (ps_memtable state) of
        Inl _ \<Rightarrow> [s]
      | Inr None \<Rightarrow> if ps_last_lsn state = ps_applied_lsn state then [s] else checkpoint_crash_states L st
      | Inr (Some b) \<Rightarrow>
          let keep = live_ordinals b (ps_mem_suppressed state) in
          if keep = [] then checkpoint_crash_states L (s, with_state p (clear_memtable state))
          else (case survivors (sl_arrow L) b keep of
                  Inl _ \<Rightarrow> [s]
                | Inr sb \<Rightarrow> segment_crash_states L s (pt_segment_key p (ps_next_segment state)) sb) @
               (case flush_segment L b keep st of
                  Inl _ \<Rightarrow> []
                | Inr (_, (s, p)) \<Rightarrow> checkpoint_crash_states L (s, with_state p (clear_memtable (pt_state p)))))"

definition append_rows_crash_states :: "storage_lib \<Rightarrow> batch \<Rightarrow> bool \<Rightarrow> part_st \<Rightarrow> fs_store list" where
  "append_rows_crash_states L b upsert st =
     (let (s, p) = st in
      case encode_ipc (sl_arrow L) b of
        Inl _ \<Rightarrow> [s]
      | Inr ipc \<Rightarrow>
          append_crash_states (sl_wal L) (s, pt_log p) (write_op upsert ipc) @
          (case log_append (sl_wal L) (s, pt_log p) (write_op upsert ipc) of
             (Inl _, _) \<Rightarrow> []
           | (Inr n, (s, lg)) \<Rightarrow>
               let p = (p\<lparr>pt_log := lg\<rparr>)\<lparr>pt_state := apply_rows (sl_arrow L) b n (pt_state p)\<rparr>
               in if should_flush p then flush_crash_states L (s, p) else []))"

section \<open>Stores\<close>

lemma put_crash:
  assumes "store_ok s" "object_key k" "c \<in> set (put_crash_states s k b)"
  shows "store_ok c" "j \<noteq> k \<Longrightarrow> map_of (files c) j = map_of (files s) j"
proof -
  obtain ds where ds: "ensure_parent s k = Inr (s\<lparr>dirs := ds\<rparr>)" "store_ok (s\<lparr>dirs := ds\<rparr>)"
    "set ds = set (ancestors k) \<union> set (dirs s)"
    using ensure_parent_ok [OF assms(1,2)] .
  let ?s1 = "s\<lparr>dirs := ds\<rparr>"
  have w: "store_ok (sys_write ?s1 k [])" by (rule store_ok_write) (use ds assms in auto)
  have w2: "store_ok (sys_write (sys_write ?s1 k []) k v)" for v
    by (rule store_ok_write [OF w assms(2)]) (use ds in auto)
  have c: "c = s \<or> c = ?s1 \<or> (\<exists>v. c = sys_write (sys_write ?s1 k []) k v)"
    using assms(3) ds(1) not_dir [OF ds(2) assms(2)] object_key_valid [OF assms(2)]
    by (auto simp: put_crash_states_def path_for_ok sys_create_def)
  then show "store_ok c" using assms(1) ds(2) w2 by auto
  show "map_of (files c) j = map_of (files s) j" if "j \<noteq> k" using c that by auto
qed

lemma get_same_files:
  assumes "store_ok s" "store_ok c" "object_key j" "store_get c j = store_get s j"
  shows "map_of (files c) j = map_of (files s) j"
  using assms by (simp add: store_get_eq split: option.splits)

lemma atomic_crash:
  assumes "store_ok s" "plain_key k" "c \<in> set (put_atomic_crash_states s k b)"
  shows "store_ok c" "others_same {k} s c" "map_of (files c) k = map_of (files s) k \<or> map_of (files c) k = Some b"
proof -
  note f = crash_states_frame [OF assms(1,2) _ assms(3)]
  show ok: "store_ok c" using f [OF assms(2)] by simp
  show "others_same {k} s c"
    unfolding others_same_def
  proof (intro allI impI)
    fix j assume "j \<notin> {k}" "plain_key j"
    then show "map_of (files c) j = map_of (files s) j"
      using f [of j] get_same_files [OF assms(1) ok plain_object] by auto
  qed
  consider "store_get c k = store_get s k" | "store_get c k = Inr b" using f [OF assms(2)] by blast
  then show "map_of (files c) k = map_of (files s) k \<or> map_of (files c) k = Some b"
  proof cases
    case 1
    then show ?thesis using get_same_files [OF assms(1) ok plain_object [OF assms(2)]] by simp
  next
    case 2
    then show ?thesis using store_get_eq [OF ok plain_object [OF assms(2)]] by (simp split: option.splits)
  qed
qed

lemma segment_crash:
  assumes "store_ok s" "object_key k" "c \<in> set (segment_crash_states L s k b)"
  shows "store_ok c" "others_same {k} s c"
proof -
  have "c = s \<or> (\<exists>bs. c \<in> set (put_crash_states s k bs))"
    using assms(3) by (auto simp: segment_crash_states_def split: sum.splits)
  then show "store_ok c" "others_same {k} s c"
    using put_crash [OF assms(1,2)] assms(1) by (auto simp: others_same_def)
qed

lemma delete_crash:
  assumes "store_ok s" "\<forall>k \<in> set ks. object_key k" "c \<in> set (delete_crash_states s ks)"
  shows "store_ok c \<and> others_same (set ks) s c"
  using assms
proof (induction ks arbitrary: s)
  case (Cons k ks)
  obtain s1 where s1: "store_delete s k = Inr s1" "store_ok s1" "map_of (files s1) = (map_of (files s))(k := None)"
    using store_delete_eq [OF Cons.prems(1), of k] Cons.prems(2) by auto
  show ?case
  proof (cases "c = s")
    case True
    then show ?thesis using Cons.prems(1) by (simp add: others_same_def)
  next
    case False
    then have "store_ok c \<and> others_same (set ks) s1 c" using Cons.IH [OF s1(2)] Cons.prems s1(1) by simp
    then show ?thesis using s1(3) by (auto simp: others_same_def)
  qed
qed (simp add: others_same_def)

lemma truncate_crash:
  assumes log: "log_holds W (s, lg) es" and none: "filter (\<lambda>e. u < lsn e) es = []"
    and c: "c \<in> set (truncate_crash_states W (s, lg) u)"
  defines "tmp \<equiv> with_extension (log_key lg) ''log.compacting''"
  shows "store_ok c \<and> (\<forall>k. k \<notin> {tmp, log_key lg} \<longrightarrow> map_of (files c) k = map_of (files s) k) \<and>
    (tmp \<noteq> log_key lg \<longrightarrow> map_of (files c) (log_key lg) = map_of (files s) (log_key lg) \<or>
     map_of (files c) (log_key lg) = Some (wal_magic @ image W []))"
proof -
  let ?k = "log_key lg"
  have W: "wal_lib_ok W" and s: "store_ok s" and k: "object_key ?k"
    using log by (auto simp: log_holds_def)
  have anc: "set (ancestors ?k) \<subseteq> set (dirs s)" using log object_file_dirs [OF s] by (auto simp: log_holds_def)
  note t = compacting_object [OF k, folded tmp_def]
  have frames: "rbind (read_all W s lg) (\<lambda>entries. encode_entries W (filter (\<lambda>e. u < lsn e) entries)) = Inr []"
    by (simp add: read_all_holds [OF log] none encode_entries_ok [OF W])
  let ?s1 = "sys_write s tmp []"
  have s1: "store_ok ?s1" by (rule store_ok_write [OF s t(1)]) (use anc t(2) in simp)
  have s2: "store_ok (sys_write ?s1 tmp v)" for v by (rule store_ok_write [OF s1 t(1)]) (use anc t(2) in simp)
  let ?b = "wal_magic @ concat []" and ?r = "sys_write (sys_remove (sys_write ?s1 tmp wal_magic) tmp) ?k wal_magic"
  have r: "store_ok ?r" by (rule store_ok_write [OF store_ok_remove [OF s2] k]) (use anc in simp)
  have ren: "sys_rename (sys_write ?s1 tmp wal_magic) tmp ?k = Inr ?r" "sys_create s tmp = Inr ?s1"
    using not_dir [OF s2 k] not_dir [OF s t(1)] by (simp_all add: sys_rename_def sys_create_def)
  have "c = s \<or> (\<exists>v. c = sys_write ?s1 tmp v) \<or> c = ?r"
    using c frames ren by (auto simp: truncate_crash_states_def Let_def simp flip: tmp_def)
  then show ?thesis using s s2 r by (auto simp: image_def)
qed

section \<open>Crash safety\<close>

text \<open>A disk state from which the partition opens with the rows \<open>V\<close>, in some order.\<close>

definition survives :: "storage_lib \<Rightarrow> partition \<Rightarrow> row list \<Rightarrow> fs_store \<Rightarrow> bool" where
  "survives L p V c \<longleftrightarrow> (\<exists>R a n vs es. disk_ok L c p R a n vs es \<and>
     mset (disk_rows L (ps_schema (pt_state p)) R a vs es) = mset V)"

lemma disk_ok_frame:
  assumes "disk_ok L s p R a n vs es" "store_ok c" "others_same K s c"
    and "pt_manifest_key p \<notin> K" "log_key (pt_log p) \<notin> K"
    and "\<And>i. i \<in> set (map seg_id (map se_meta vs)) \<Longrightarrow> pt_segment_key p i \<notin> K"
  shows "disk_ok L c p R a n vs es"
proof -
  note D = disk_okD [OF assms(1)]
  note K = pt_keys [OF D(3)]
  have "segs_ok L c (ps_schema (pt_state p)) (pt_segment_key p) n R (map se_meta vs)"
    by (rule segs_ok_others [OF D(7,3) assms(3)]) (use assms(6) in auto)
  moreover have "published L c (pt_manifest_key p) a n vs"
    by (rule published_files [OF D(6)]) (rule others_sameD [OF assms(3,4) K(6)])
  moreover have "log_disk (sl_wal L) c (log_key (pt_log p)) es"
    using D(10) others_sameD [OF assms(3,5) K(7)] by (simp add: log_disk_def)
  ultimately show ?thesis using assms(1,2) by (simp add: disk_ok_def Let_def)
qed

lemma disk_ok_partition:
  assumes "disk_ok L c p R a n vs es" "ps_schema (pt_state p') = ps_schema (pt_state p)" "names_ok p'"
    "pt_manifest_key p' = pt_manifest_key p" "pt_table p' = pt_table p" "log_key (pt_log p') = log_key (pt_log p)"
    "pt_segment_key p' = pt_segment_key p"
  shows "disk_ok L c p' R a n vs es"
  using assms by (simp add: disk_ok_def Let_def)

lemma survives_with_state:
  "ps_schema st = ps_schema (pt_state p) \<Longrightarrow> survives L (with_state p st) V c = survives L p V c"
  by (simp add: survives_def disk_ok_def Let_def)

lemma survives_frame:
  assumes "durable L s p R vs es" "store_ok c" "others_same K s c"
    "pt_manifest_key p \<notin> K" "log_key (pt_log p) \<notin> K"
    "\<And>i. i \<in> set (map seg_id (map se_meta vs)) \<Longrightarrow> pt_segment_key p i \<notin> K"
    "mset (partition_rows L (s, p)) = mset V"
  shows "survives L p V c"
  using disk_ok_frame [OF durableD(3) [OF assms(1)] assms(2-6)] durable_rows [OF assms(1)] assms(7)
  unfolding survives_def by metis

lemma durable_survives:
  assumes "durable L s p R vs es" "mset (partition_rows L (s, p)) = mset V"
  shows "survives L p V s"
  using durableD(3) [OF assms(1)] durable_rows [OF assms(1)] assms(2) unfolding survives_def by metis

lemma others_same_back:
  "others_same {k} s c \<Longrightarrow> map_of (files c) k = map_of (files s) k \<Longrightarrow> others_same {} s c"
  unfolding others_same_def by (metis singletonD)

lemma published_ids:
  assumes "durable L s p R vs es"
  shows "map seg_id (map se_meta vs) = map seg_id (map se_meta (ps_segments (pt_state p)))"
    "i \<in> set (map seg_id (map se_meta vs)) \<Longrightarrow> i < ps_next_segment (pt_state p)"
proof -
  show "map seg_id (map se_meta vs) = map seg_id (map se_meta (ps_segments (pt_state p)))"
    using durableD(4) [OF assms] unfolding same_meta_def
    by (simp add: list_all2_map1 list_all2_map2)
      (smt (verit, best) list_all2_conv_all_nth length_map nth_equalityI nth_map comp_def)
  show "i < ps_next_segment (pt_state p)" if "i \<in> set (map seg_id (map se_meta vs))"
    using that segs_okD(4) [OF disk_okD(7) [OF durableD(3) [OF assms]]] by auto
qed

text \<open>A crash while a new segment is written: the manifest does not mention it yet.\<close>

lemma new_segment_crash:
  assumes dur: "durable L s p R vs es" and c: "store_ok c" "others_same {pt_segment_key p (ps_next_segment (pt_state p))} s c"
  shows "disk_ok L c p R (ps_applied_lsn (pt_state p)) (ps_next_segment (pt_state p)) vs es"
    "survives L p (partition_rows L (s, p)) c"
proof -
  note K = pt_keys [OF part_invD(3) [OF durableD(1) [OF dur]]]
  show d: "disk_ok L c p R (ps_applied_lsn (pt_state p)) (ps_next_segment (pt_state p)) vs es"
  proof (rule disk_ok_frame [OF durableD(3) [OF dur] c])
    fix i assume "i \<in> set (map seg_id (map se_meta vs))"
    then have "i < ps_next_segment (pt_state p)" by (rule published_ids(2) [OF dur])
    then show "pt_segment_key p i \<notin> {pt_segment_key p (ps_next_segment (pt_state p))}" using K(1) by simp
  qed (use not_sym [OF K(2)] not_sym [OF K(3)] in auto)
  show "survives L p (partition_rows L (s, p)) c"
    using d durable_rows [OF dur] unfolding survives_def by metis
qed

text \<open>A crash while a manifest is replaced: the old or the new one is there.\<close>

lemma commit_crash:
  assumes inv: "part_inv L s p' R'" and commit: "commit_manifest L (s, p') = Inr s1"
    and old: "disk_ok L s p R a n vs es" "mset (disk_rows L (ps_schema (pt_state p)) R a vs es) = mset V"
    and new: "durable L s1 p' R' vs' es'" "mset (partition_rows L (s1, p')) = mset V" "others_same {pt_manifest_key p'} s s1"
    and same: "p' = with_state p st'" "ps_schema st' = ps_schema (pt_state p)"
    and c: "c \<in> set (commit_crash_states L (s, p'))"
  shows "survives L p V c"
proof -
  let ?k = "pt_manifest_key p'" and ?b = "manifest_json L (manifest_of L p')"
  note D = disk_okD [OF old(1)]
  note K = pt_keys [OF D(3)]
  have k: "?k = pt_manifest_key p" "plain_key ?k" using same K by simp_all
  have c': "c \<in> set (put_atomic_crash_states s ?k ?b)" using c by (simp add: commit_crash_states_def)
  note A = atomic_crash [OF D(2) k(2) c']
  obtain s' where s': "store_put_atomic s ?k ?b = Inr s'"
    "map_of (files s') = ((map_of (files s))(temp_key (pid s) (counter s) ?k := None))(?k \<mapsto> ?b)"
    by (rule store_put_atomic_eq [OF D(2) k(2), of ?b]) (rule that; assumption)
  then have s1k: "map_of (files s1) ?k = Some ?b" using commit by (simp add: commit_manifest_def manifest_save_def)
  consider (old) "map_of (files c) ?k = map_of (files s) ?k" | (new) "map_of (files c) ?k = map_of (files s1) ?k"
    using A(3) s1k by auto
  then show ?thesis
  proof cases
    case old
    then have "others_same {} s c" using others_same_back [OF A(2)] by simp
    then have "disk_ok L c p R a n vs es" by (rule disk_ok_frame [OF \<open>disk_ok L s p R a n vs es\<close> A(1)]) simp_all
    then show ?thesis using \<open>mset (disk_rows _ _ _ _ _ _) = mset V\<close> unfolding survives_def by blast
  next
    case new
    moreover have "others_same {?k} s1 c" using A(2) \<open>others_same {?k} s s1\<close> by (simp add: others_same_def)
    ultimately have "others_same {} s1 c" using others_same_back by blast
    then have "survives L p' V c" by (rule survives_frame [OF \<open>durable L s1 p' R' vs' es'\<close> A(1)]) (use assms(6) in simp_all)
    then show ?thesis using same survives_with_state by simp
  qed
qed

lemma compact_crash:
  assumes dur: "durable L s p R vs es" and ids: "distinct ids" and c: "c \<in> set (compact_crash_states L ids (s, p))"
  shows "survives L p (partition_rows L (s, p)) c"
proof (cases rule: compact_stages [OF durableD(1) [OF dur] ids])
  case 1
  then have "c = s" using c by (simp add: compact_crash_states_def)
  then show ?thesis using durable_survives [OF dur refl] by simp
next
  case (2 kept s1 entry st' R' s2 vs' s3)
  let ?V = "partition_rows L (s, p)" and ?key = "pt_segment_key p (ps_next_segment (pt_state p))"
  let ?in = "compact_inputs ids (pt_state p)" and ?p = "with_state p st'"
  let ?keys = "map (\<lambda>e. seg_key (se_meta e)) (compact_inputs ids (pt_state p))"
  note d = durableD [OF dur]
  note names = part_invD(3) [OF d(1)]
  note K = pt_keys [OF names]
  have oth2: "others_same (insert (pt_manifest_key p) (range (pt_segment_key p))) s s2"
    by (rule others_same_mono [OF others_same_trans [OF 2(5,12)]]) auto
  note m = merged_durable [OF dur 2(13,8,9,20-22,14,15) oth2]
  note old = new_segment_crash [OF dur 2(4,5)]
  consider (writing) "c = s \<or> (\<exists>b. c \<in> set (segment_crash_states L s ?key b))"
    | (commit) "c \<in> set (commit_crash_states L (s1, ?p))" | (delete) "c \<in> set (delete_crash_states s2 ?keys)"
    using c 2(1-3,6,10) by (auto simp: compact_crash_states_def Let_def split: if_splits sum.splits)
  then show ?thesis
  proof cases
    case writing
    then have "store_ok c \<and> others_same {?key} s c"
      using segment_crash [OF part_invD(2) [OF d(1)] plain_object [OF K(5)]] part_invD(2) [OF d(1)]
      by (auto simp: others_same_def)
    then show ?thesis using new_segment_crash(2) [OF dur] by blast
  next
    case commit
    show ?thesis
      by (rule commit_crash [OF 2(7,10) old(1) _ m(1,2) _ refl 2(20) commit])
        (use durable_rows [OF dur] 2(12) in simp_all)
  next
    case delete
    have keys: "set ?keys \<subseteq> pt_segment_key p ` (- (\<lambda>e. seg_id (se_meta e)) ` set (ps_segments st'))" using 2(18) by simp
    have "\<forall>k \<in> set ?keys. object_key k"
      using keys plain_object [OF K(5)] by blast
    then have cs: "store_ok c" "others_same (set ?keys) s2 c" using delete_crash [OF 2(11) _ delete] by simp_all
    have "survives L ?p ?V c"
    proof (rule survives_frame [OF m(1) cs _ _ _ m(2)])
      fix i assume "i \<in> set (map seg_id (map se_meta vs'))"
      then have "i \<in> (\<lambda>e. seg_id (se_meta e)) ` set (ps_segments st')"
        unfolding published_ids(1) [OF m(1)] by (simp add: image_image)
      then show "pt_segment_key ?p i \<notin> set ?keys" using segment_key_outside [OF names keys] by simp
    qed (use keys not_sym [OF K(2)] not_sym [OF K(3)] in auto)
    then show ?thesis using survives_with_state [OF 2(20)] by simp
  qed
qed

lemma checkpoint_crash:
  assumes ready: "drained L s p1 R1 es" and rows: "mset (partition_rows L (s, p1)) = mset V"
    and p1: "p1 = with_state p st1" "ps_schema st1 = ps_schema (pt_state p)"
    and old: "disk_ok L s p R a n vs es" "mset (disk_rows L (ps_schema (pt_state p)) R a vs es) = mset V"
    and c: "c \<in> set (checkpoint_crash_states L (s, p1))"
  shows "survives L p V c"
proof -
  let ?p = "checkpointed p1"
  obtain s1 vs1 s2 where k: "commit_manifest L (s, ?p) = Inr s1" "others_same {pt_manifest_key p1} s s1"
    "durable L s1 ?p R1 vs1 es" "partition_rows L (s1, ?p) = partition_rows L (s, p1)"
    "truncate_prefix (sl_wal L) (s1, pt_log p1) (ps_last_lsn (pt_state p1)) = Inr (s2, pt_log p1)"
    "map_of (files s2) = ((map_of (files s1))(log_tmp p1 := None))(log_key (pt_log p1) \<mapsto> wal_magic @ image (sl_wal L) [])"
    "durable L s2 ?p R1 vs1 []" "partition_rows L (s2, ?p) = partition_rows L (s, p1)" "part_inv L s ?p R1"
    by (rule checkpoint_stages [OF ready]) (rule that; assumption)
  define st' where "st' = (pt_state p1)\<lparr>ps_applied_lsn := ps_last_lsn (pt_state p1)\<rparr>"
  have p': "?p = with_state p st'" "ps_schema st' = ps_schema (pt_state p)"
    using p1 by (simp_all add: checkpointed_def st'_def)
  note same = survives_with_state [OF p'(2), of L V, folded p'(1)]
  note names = part_invD(3) [OF k(9)]
  note K = pt_keys [OF names]
  note T = log_tmp_key [OF names]
  have tmp: "log_tmp ?p = log_tmp p1" by (simp add: log_tmp_def)
  let ?ids = "select (facts_of (pt_state ?p)) (cfg_compaction (pt_config ?p))"
  have old1: "filter (\<lambda>e. ps_last_lsn (pt_state p1) < lsn e) es = []"
    using drainedD(4) [OF ready] by (auto simp: filter_empty_conv)
  consider (commit) "c \<in> set (commit_crash_states L (s, ?p))"
    | (trunc) "c \<in> set (truncate_crash_states (sl_wal L) (s1, pt_log p1) (ps_last_lsn (pt_state p1)))"
    | (comp) "c \<in> set (compact_crash_states L ?ids (s2, ?p))" | (done_all) "c = s2"
    using c k(1,5) by (auto simp: checkpoint_crash_states_def Let_def split: if_splits simp flip: checkpointed_def)
  then show ?thesis
  proof cases
    case commit
    show ?thesis
      by (rule commit_crash [OF k(9,1) old k(3) _ _ p' commit]) (use k(2,4) rows in simp_all)
  next
    case trunc
    let ?tmp = "log_tmp p1" and ?lk = "log_key (pt_log p1)"
    have tr: "store_ok c" "\<And>j. j \<notin> {?tmp, ?lk} \<Longrightarrow> map_of (files c) j = map_of (files s1) j"
      "map_of (files c) ?lk = map_of (files s1) ?lk \<or> map_of (files c) ?lk = Some (wal_magic @ image (sl_wal L) [])"
      using truncate_crash [OF durableD(2) [OF k(3), simplified] old1 trunc] T(3) by (simp_all add: tmp flip: log_tmp_def)
    have out: "pt_manifest_key ?p \<notin> {?tmp}" "log_key (pt_log ?p) \<notin> {?tmp}" "pt_segment_key ?p i \<notin> {?tmp}" for i
      using T not_sym [OF T(1)] not_sym [OF T(2)] not_sym [OF T(3)] by (simp_all add: tmp)
    have "survives L ?p V c"
    proof (cases "map_of (files c) ?lk = map_of (files s1) ?lk")
      case True
      then have "others_same {?tmp} s1 c" using tr(2) by (auto simp: others_same_def)
      then show ?thesis
        by (rule survives_frame [OF k(3) tr(1)]) (use out k(4) rows in simp_all)
    next
      case False
      then have lk: "map_of (files c) ?lk = map_of (files s2) ?lk" using tr(3) k(6) by simp
      have "others_same {?tmp} s2 c" unfolding others_same_def
      proof (intro allI impI)
        fix j assume "j \<notin> {?tmp}" "plain_key j"
        then show "map_of (files c) j = map_of (files s2) j"
          using tr(2) [of j] lk k(6) by (cases "j = ?lk") simp_all
      qed
      then show ?thesis
        by (rule survives_frame [OF k(7) tr(1)]) (use out k(8) rows in simp_all)
    qed
    then show ?thesis using same by simp
  next
    case comp
    have "survives L ?p (partition_rows L (s2, ?p)) c"
      by (rule compact_crash [OF k(7) auto_compact_ids [OF durableD(1) [OF k(7)]] comp])
    then have "survives L ?p V c" using rows k(8) by (simp add: survives_def)
    then show ?thesis using same by simp
  next
    case done_all
    then have "survives L ?p V c" using durable_survives [OF k(7)] k(8) rows by simp
    then show ?thesis using same by simp
  qed
qed

lemma flush_crash:
  assumes dur: "durable L s p R vs es" and c: "c \<in> set (flush_crash_states L (s, p))"
  shows "survives L p (partition_rows L (s, p)) c"
proof -
  note d = durableD [OF dur]
  note K = pt_keys [OF part_invD(3) [OF d(1)]]
  have rows: "mset (disk_rows L (ps_schema (pt_state p)) R (ps_applied_lsn (pt_state p)) vs es) =
      mset (partition_rows L (s, p))" by (simp add: durable_rows [OF dur])
  show ?thesis
  proof (cases rule: flush_cases [OF dur])
    case 1
    then have "c = s" using c by (simp add: flush_crash_states_def)
    then show ?thesis using durable_survives [OF dur refl] by simp
  next
    case 2
    then have c': "c \<in> set (checkpoint_crash_states L (s, p))" using c by (simp add: flush_crash_states_def)
    have p: "p = with_state p (pt_state p)" by (simp add: with_state_def)
    show ?thesis by (rule checkpoint_crash [OF 2(3) refl p refl d(3) rows c'])
  next
    case (3 b p1)
    then have c': "c \<in> set (checkpoint_crash_states L (s, p1))" using c by (simp add: flush_crash_states_def)
    show ?thesis
      by (rule checkpoint_crash [OF 3(4) _ 3(3) _ d(3) rows c']) (use 3 in simp_all)
  next
    case (4 b s1 p0 st1 R1)
    let ?key = "pt_segment_key p (ps_next_segment (pt_state p))"
    consider "c = s \<or> (\<exists>b. c \<in> set (segment_crash_states L s ?key b))" | "c \<in> set (checkpoint_crash_states L (s1, with_state p st1))"
      using c 4(1-4) by (auto simp: flush_crash_states_def Let_def split: sum.splits)
    then show ?thesis
    proof cases
      case 1
      then have "store_ok c \<and> others_same {?key} s c"
        using segment_crash [OF part_invD(2) [OF d(1)] plain_object [OF K(5)]] part_invD(2) [OF d(1)]
        by (auto simp: others_same_def)
      then show ?thesis using new_segment_crash(2) [OF dur] by blast
    next
      case c': 2
      have old: "disk_ok L s1 p R (ps_applied_lsn (pt_state p)) (ps_next_segment (pt_state p)) vs es"
        by (rule new_segment_crash(1) [OF dur part_invD(2) [OF drainedD(1) [OF 4(5)]] 4(7)])
      show ?thesis by (rule checkpoint_crash [OF 4(5) _ refl 4(8) old rows c']) (use 4(6) in simp)
    qed
  qed
qed

lemma survives_partition:
  assumes "survives L p' V c" "names_ok p" "names_ok p'" "ps_schema (pt_state p') = ps_schema (pt_state p)"
    "pt_tenant p' = pt_tenant p" "pt_database p' = pt_database p" "pt_table p' = pt_table p" "pt_id p' = pt_id p"
  shows "survives L p V c"
proof -
  have "pt_manifest_key p' = pt_manifest_key p" "log_key (pt_log p') = log_key (pt_log p)"
    "pt_segment_key p' = pt_segment_key p"
    using assms by (simp_all add: names_ok_def fun_eq_iff pt_segment_key_def)
  then show ?thesis using assms unfolding survives_def by (auto simp: disk_ok_def Let_def)
qed

lemma log_append_crash:
  assumes dur: "durable L s p R vs es" and fits: "entry_fits (sl_arrow L) (ps_schema (pt_state p)) m"
    and small: "loggable (sl_wal L) (s, pt_log p) m" and c: "c \<in> set (append_crash_states (sl_wal L) (s, pt_log p) m)"
  shows "survives L p (partition_rows L (s, p)) c \<or>
    survives L p (spec_apply (sl_arrow L) (pk_indices (ps_schema (pt_state p))) (partition_rows L (s, p)) m) c"
proof -
  let ?W = "sl_wal L" and ?lk = "log_key (pt_log p)" and ?a = "ps_applied_lsn (pt_state p)"
  let ?e = "\<lparr>lsn = next_lsn (pt_log p), entry_mutation = m\<rparr>" and ?V = "partition_rows L (s, p)"
  let ?pk = "pk_indices (ps_schema (pt_state p))"
  note d = durableD [OF dur]
  note D = disk_okD [OF d(3)]
  note K = pt_keys [OF D(3)]
  obtain es' torn where i: "map_of (files c) = (map_of (files s))(?lk \<mapsto> wal_magic @ image ?W es' @ torn)"
    "wal_scan ?W (wal_magic @ image ?W es' @ torn) = Inr (es', length (wal_magic @ image ?W es'))"
    "es' = es \<or> es' = es @ [?e] \<and> fits_record ?W ?e" "store_ok c"
    by (rule append_crash_image [OF d(2) small c]) (rule that; assumption)
  have h: "list_all (fits_record ?W) es" "sorted_wrt (<) (map lsn es)" "\<forall>e \<in> set es. 0 < lsn e \<and> lsn e \<le> last_lsn (pt_log p)"
    "last_lsn (pt_log p) < next_lsn (pt_log p)" using d(2) by (simp_all add: log_holds_def)
  have "\<forall>e \<in> set es. lsn e < next_lsn (pt_log p)" using h(3,4) by fastforce
  then have "list_all (fits_record ?W) es'" "sorted_wrt (<) (map lsn es')" "\<forall>e \<in> set es'. 0 < lsn e"
    using i(3) h by (auto simp: sorted_wrt_append)
  then have log: "log_disk ?W c ?lk es'" using i(1,2) by (auto simp: log_disk_def)
  have ops: "live_ops ?a (es @ [?e]) = live_ops ?a es @ [m]" using d(8,9) by simp
  have segs: "segs_ok L c (ps_schema (pt_state p)) (pt_segment_key p) (ps_next_segment (pt_state p)) R (map se_meta vs)"
    by (rule segs_ok_others [OF D(7,3), of "{?lk}"]) (use i(1) K(3) in \<open>auto simp: others_same_def\<close>)
  have pub: "published L c (pt_manifest_key p) ?a (ps_next_segment (pt_state p)) vs"
    by (rule published_files [OF D(6)]) (use i(1) K(4) in simp)
  have disk: "disk_ok L c p R ?a (ps_next_segment (pt_state p)) vs es'"
    using d(3) log segs pub i(3,4) fits ops by (auto simp: disk_ok_def Let_def)
  show ?thesis
  proof (cases "es' = es")
    case True
    then have "survives L p ?V c" using disk durable_rows [OF dur] unfolding survives_def by metis
    then show ?thesis ..
  next
    case False
    then have "es' = es @ [?e]" using i(3) by simp
    then have "disk_rows L (ps_schema (pt_state p)) R ?a vs es' = spec_apply (sl_arrow L) ?pk ?V m"
      using ops durable_rows [OF dur] by (simp add: disk_rows_def)
    then have "survives L p (spec_apply (sl_arrow L) ?pk ?V m) c" using disk unfolding survives_def by metis
    then show ?thesis ..
  qed
qed

lemma append_crash:
  assumes dur: "durable L s p R vs es" and fit: "batch_fits (ps_schema (pt_state p)) b"
    and small: "batch_loggable L (s, p) b upsert" and c: "c \<in> set (append_rows_crash_states L b upsert (s, p))"
  shows "survives L p (partition_rows L (s, p)) c \<or>
    survives L p (spec_append (pk_indices (ps_schema (pt_state p))) (partition_rows L (s, p)) (brows b)) c"
proof -
  let ?W = "sl_wal L" and ?A = "sl_arrow L"
  note d = durableD [OF dur]
  have "arrow_ok ?A" "batch_ok b" using storage_okD(1) part_invD(1) [OF d(1)] fit by (simp_all add: batch_fits_def)
  then obtain ipc where ipc: "encode_ipc ?A b = Inr ipc" "decode_ipc ?A ipc = Inr b" using ipc_roundtrip by blast
  let ?m = "write_op upsert ipc" and ?e = "\<lparr>lsn = next_lsn (pt_log p), entry_mutation = write_op upsert ipc\<rparr>"
  note spec = write_op_spec [OF ipc(2)]
  have log: "loggable ?W (s, pt_log p) ?m" using small ipc(1) by (simp add: batch_loggable_def)
  have fits: "entry_fits ?A (ps_schema (pt_state p)) ?m" using fit by (simp add: spec)
  show ?thesis
  proof (cases "c \<in> set (append_crash_states ?W (s, pt_log p) ?m)")
    case True
    then show ?thesis using log_append_crash [OF dur fits log] by (simp add: spec)
  next
    case not_log: False
    have True: "fits_record ?W ?e"
    proof (rule ccontr)
      assume "\<not> fits_record ?W ?e"
      from log_refused(1) [OF dur this log] show False
        using c not_log ipc(1) by (simp add: append_rows_crash_states_def)
    qed
    obtain s1 lg1 st1 where r: "log_append ?W (s, pt_log p) ?m = (Inr (lsn ?e), s1, lg1)"
      "apply_entry ?A (pt_state p) ?e = Inr st1"
      "durable L s1 (p\<lparr>pt_log := lg1, pt_state := st1\<rparr>) R vs (es @ [?e])" "ps_schema st1 = ps_schema (pt_state p)"
      "partition_rows L (s1, p\<lparr>pt_log := lg1, pt_state := st1\<rparr>) =
        spec_apply ?A (pk_indices (ps_schema (pt_state p))) (partition_rows L (s, p)) ?m"
      by (rule log_step [OF dur fits True]) (rule that; assumption)
    let ?p1 = "p\<lparr>pt_log := lg1, pt_state := st1\<rparr>"
    have st1: "st1 = apply_rows ?A b (lsn ?e) (pt_state p)" using r(2) by (simp add: spec)
    have "c \<in> set (flush_crash_states L (s1, ?p1))"
      using c not_log ipc(1) r(1) st1 by (simp add: append_rows_crash_states_def Let_def split: if_splits)
    then have "survives L ?p1 (partition_rows L (s1, ?p1)) c" by (rule flush_crash [OF r(3)])
    then have "survives L p (partition_rows L (s1, ?p1)) c"
      by (rule survives_partition) (use part_invD(3) [OF d(1)] part_invD(3) [OF durableD(1) [OF r(3)]] r(4) in simp_all)
    then show ?thesis using r(5) by (simp add: spec)
  qed
qed

text \<open>A surviving state opens, with the rows it stands for.\<close>

lemma survives_open:
  assumes "survives L p V c"
  obtains s' p' where
    "partition_open L c (pt_tenant p) (pt_database p) (ps_schema (pt_state p)) (pt_id p) cfg = Inr (s', p')"
    "sound L (s', p')" "ps_schema (pt_state p') = ps_schema (pt_state p)" "mset (partition_rows L (s', p')) = mset V"
proof -
  obtain R a n vs es where D: "disk_ok L c p R a n vs es" "mset (disk_rows L (ps_schema (pt_state p)) R a vs es) = mset V"
    using assms unfolding survives_def by blast
  obtain s' p' where op: "partition_open L c (pt_tenant p) (pt_database p) (ps_schema (pt_state p)) (pt_id p) cfg = Inr (s', p')"
    "durable L s' p' R vs es" "ps_schema (pt_state p') = ps_schema (pt_state p)" "ps_applied_lsn (pt_state p') = a"
    by (rule partition_open_ok [OF D(1)]) (rule that; assumption)
  show ?thesis by (rule that [OF op(1) soundI [OF op(2)] op(3)]) (use durable_rows [OF op(2)] op(3,4) D(2) in simp)
qed

end
