(* ===== verification/PartitionDemo.thy ===== *)
theory PartitionDemo
  imports PartitionCrash WalRecovery
begin

text \<open>
  Concrete instances of the storage codecs, and a partition opened on an empty store: the input of
  the witnesses.
\<close>

section \<open>Codecs\<close>

fun enc_option :: "('a \<Rightarrow> bytes) \<Rightarrow> 'a option \<Rightarrow> bytes" where
  "enc_option enc None = [0]"
| "enc_option enc (Some x) = 1 # enc x"

fun dec_option :: "'a decoder \<Rightarrow> 'a option decoder" where
  "dec_option dec [] = None"
| "dec_option dec (b # r) = (if b = 0 then Some (None, r) else dec_bind (dec r) (\<lambda>x r. Some (Some x, r)))"

definition enc_bloom :: "bloom_filter \<Rightarrow> bytes" where
  "enc_bloom f = enc_list le_bytes (bf_bits f) @ enc_nat (bf_k f)"

definition dec_bloom :: "bloom_filter decoder" where
  "dec_bloom bs = dec_bind (dec_list dec_u64 bs) (\<lambda>ws r. dec_bind (dec_nat r) (\<lambda>k r.
     Some (\<lparr>bf_bits = ws, bf_k = k\<rparr>, r)))"

definition enc_stats :: "column_stats \<Rightarrow> bytes" where
  "enc_stats st = enc_option enc_value (st_min st) @ enc_option enc_value (st_max st) @
     enc_nat (null_count st) @ enc_option enc_bloom (st_bloom st)"

definition dec_stats :: "column_stats decoder" where
  "dec_stats bs = dec_bind (dec_option dec_value bs) (\<lambda>a r. dec_bind (dec_option dec_value r) (\<lambda>b r.
     dec_bind (dec_nat r) (\<lambda>n r. dec_bind (dec_option dec_bloom r) (\<lambda>f r.
     Some (\<lparr>st_min = a, st_max = b, null_count = n, st_bloom = f\<rparr>, r)))))"

definition enc_pair :: "('a \<Rightarrow> bytes) \<Rightarrow> ('b \<Rightarrow> bytes) \<Rightarrow> 'a \<times> 'b \<Rightarrow> bytes" where
  "enc_pair ea eb x = ea (fst x) @ eb (snd x)"

definition dec_pair :: "'a decoder \<Rightarrow> 'b decoder \<Rightarrow> ('a \<times> 'b) decoder" where
  "dec_pair da db bs = dec_bind (da bs) (\<lambda>a r. dec_bind (db r) (\<lambda>b r. Some ((a, b), r)))"

definition enc_meta :: "segment_meta \<Rightarrow> bytes" where
  "enc_meta m = enc_nat (seg_id m) @ enc_list enc_char (seg_key m) @ enc_nat (row_count m) @
     enc_nat (seg_bytes m) @ le_bytes (seg_schema_version m) @
     enc_list (enc_pair (enc_list enc_char) enc_stats) (seg_columns m)"

definition dec_meta :: "segment_meta decoder" where
  "dec_meta bs = dec_bind (dec_nat bs) (\<lambda>i r. dec_bind (dec_list dec_char r) (\<lambda>k r.
     dec_bind (dec_nat r) (\<lambda>n r. dec_bind (dec_nat r) (\<lambda>b r. dec_bind (dec_u32 r) (\<lambda>v r.
     dec_bind (dec_list (dec_pair (dec_list dec_char) dec_stats) r) (\<lambda>cs r.
     Some (\<lparr>seg_id = i, seg_key = k, row_count = n, seg_bytes = b, seg_schema_version = v, seg_columns = cs\<rparr>, r)))))))"

definition enc_manifest :: "manifest \<Rightarrow> bytes" where
  "enc_manifest m = enc_nat (mf_format m) @ enc_nat (mf_partition m) @ le_bytes (mf_schema_version m) @
     enc_nat (mf_applied_lsn m) @ enc_nat (mf_next_segment m) @ enc_list enc_meta (mf_segments m) @
     enc_list (enc_pair enc_nat (enc_list enc_char)) (mf_suppressed m)"

definition dec_manifest :: "manifest decoder" where
  "dec_manifest bs = dec_bind (dec_nat bs) (\<lambda>f r. dec_bind (dec_nat r) (\<lambda>p r. dec_bind (dec_u32 r) (\<lambda>v r.
     dec_bind (dec_nat r) (\<lambda>a r. dec_bind (dec_nat r) (\<lambda>n r. dec_bind (dec_list dec_meta r) (\<lambda>ms r.
     dec_bind (dec_list (dec_pair dec_nat (dec_list dec_char)) r) (\<lambda>sup r.
     Some (\<lparr>mf_format = f, mf_partition = p, mf_schema_version = v, mf_applied_lsn = a,
       mf_next_segment = n, mf_segments = ms, mf_suppressed = sup\<rparr>, r))))))))"

lemma decodes_nat: "decodes enc_nat dec_nat"
  by (simp add: decodes_def dec_nat_enc)

lemma decodes_option: "decodes enc dec \<Longrightarrow> decodes (enc_option enc) (dec_option dec)"
  unfolding decodes_def by (intro allI, case_tac x) simp_all

lemma decodes_pair: "decodes ea da \<Longrightarrow> decodes eb db \<Longrightarrow> decodes (enc_pair ea eb) (dec_pair da db)"
  by (simp add: decodes_def enc_pair_def dec_pair_def)

lemma decodes_bloom: "decodes enc_bloom dec_bloom"
proof -
  have "decodes le_bytes dec_u64" by (simp add: decodes_def)
  note words = decodes_list [OF this]
  show ?thesis using words decodes_nat by (simp add: decodes_def enc_bloom_def dec_bloom_def)
qed

lemma decodes_stats: "decodes enc_stats dec_stats"
  using decodes_option [OF decodes_value] decodes_option [OF decodes_bloom] decodes_nat
  by (simp add: decodes_def enc_stats_def dec_stats_def)

lemma decodes_meta: "decodes enc_meta dec_meta"
  using decodes_nat decodes_list [OF decodes_char] decodes_list [OF decodes_pair [OF decodes_list [OF decodes_char] decodes_stats]]
  by (simp add: decodes_def enc_meta_def dec_meta_def)

lemma decodes_manifest: "decodes enc_manifest dec_manifest"
  using decodes_nat decodes_list [OF decodes_meta] decodes_list [OF decodes_pair [OF decodes_nat decodes_list [OF decodes_char]]]
  by (simp add: decodes_def enc_manifest_def dec_manifest_def)

definition demo_lib :: storage_lib where
  "demo_lib = \<lparr>sl_arrow = demo_arrow, sl_wal = demo_wal, sl_math = demo_math,
     manifest_json = enc_manifest, manifest_parse = \<lambda>bs. map_option fst (dec_manifest bs),
     bitmap_write = \<lambda>S. enc_list enc_nat (sorted_list_of_set S),
     bitmap_read = \<lambda>bs. map_option (\<lambda>x. set (fst x)) (dec_list dec_nat bs)\<rparr>"

lemma demo_lib_ok: "storage_ok demo_lib"
proof -
  have m: "dec_manifest (enc_manifest m) = Some (m, [])" for m
    using decodes_manifest [unfolded decodes_def, rule_format, of m "[]"] by simp
  have b: "dec_list dec_nat (enc_list enc_nat xs) = Some (xs, [])" for xs
    using decodes_list [OF decodes_nat, unfolded decodes_def, rule_format, of xs "[]"] by simp
  have "same_manifest m m" for m by (simp add: same_manifest_def list_all2_refl)
  then show ?thesis
    by (auto simp: storage_ok_def demo_lib_def demo_arrow_ok demo_wal_ok manifest_codec_ok_def
      bitmap_codec_ok_def m b)
qed

section \<open>A partition\<close>

definition demo_config :: storage_config where
  "demo_config = \<lparr>memtable_max_rows = 2, memtable_max_bytes = 1000, cfg_compaction = default_policy, auto_compact = True\<rparr>"

text \<open>The state after a first opening: no segment, an empty memtable, the header of the log.\<close>

definition fresh_partition :: "string \<Rightarrow> string \<Rightarrow> table_schema \<Rightarrow> nat \<Rightarrow> storage_config \<Rightarrow> partition" where
  "fresh_partition t d schema i cfg =
     \<lparr>pt_id = i, pt_tenant = t, pt_database = d, pt_table = tname schema, pt_manifest_key = manifest_key t d (tname schema) i,
      pt_log = \<lparr>log_key = wal_key t d (tname schema) i, next_lsn = 1, last_lsn = 0\<rparr>,
      pt_state = opened_state schema [] [] 0 1, pt_config = cfg\<rparr>"

text \<open>The files after the first opening of the partitions \<open>is\<close> of a table.\<close>

definition fresh_fs :: "string \<Rightarrow> string \<Rightarrow> string \<Rightarrow> nat list \<Rightarrow> fs_store" where
  "fresh_fs t d n is = \<lparr>files = map (\<lambda>i. (wal_key t d n i, wal_magic)) is,
     dirs = concat (map (\<lambda>i. ancestors (wal_key t d n i)) is), counter = 0, pid = 7\<rparr>"

lemma map_of_const: "map_of (map (\<lambda>i. (f i, c)) is) k = (if k \<in> f ` set is then Some c else None)"
  by (induction "is") auto

lemma fresh_durable:
  assumes L: "storage_ok L" and schema: "schema_ok schema" and names: "ident_ok t" "ident_ok d" "ident_ok (tname schema)"
    and i: "i \<in> set is" "distinct is"
  shows "durable L (fresh_fs t d (tname schema) is) (fresh_partition t d schema i cfg) (\<lambda>_. []) [] []"
proof -
  let ?s = "fresh_fs t d (tname schema) is" and ?q = "\<lambda>i. fresh_partition t d schema i cfg" and ?p = "fresh_partition t d schema i cfg"
  let ?w = "wal_key t d (tname schema)"
  have n: "names_ok (?q j)" for j using names by (simp add: names_ok_def fresh_partition_def)
  have w: "object_key (?w j)" for j using plain_object [OF pt_keys(7) [OF n [of j]]] by (simp add: fresh_partition_def)
  have own: "?w j \<in> own_keys (?q j)" "pt_manifest_key (?q j) \<in> own_keys (?q j)" for j
    using own_keys_of(2,3) [OF n [of j]] by (simp_all add: fresh_partition_def)
  have apart: "own_keys (?q j) \<inter> own_keys (?q k) = {}" if "j \<noteq> k" for j k
    by (rule own_keys_disjoint) (use that in \<open>simp_all add: fresh_partition_def\<close>)
  have inj: "?w j = ?w k \<longleftrightarrow> j = k" for j k using own(1) [of j] own(1) [of k] apart [of j k] by (metis IntI empty_iff)
  have s: "store_ok ?s"
    using w ancestors_dotless [OF w] i(2) inj by (auto simp: store_ok_def fresh_fs_def comp_def distinct_map inj_on_def)
  have wal: "map_of (files ?s) (?w i) = Some (wal_magic @ image (sl_wal L) [])"
    using i(1) by (simp add: fresh_fs_def image_def map_of_const)
  have log: "log_holds (sl_wal L) (?s, pt_log ?p) []"
    using s w wal storage_okD(2) [OF L] by (simp add: log_holds_def fresh_partition_def)
  have "pt_manifest_key ?p \<noteq> ?w j" for j
    using own [of j] own(2) [of i] apart [of i j] pt_keys(4) [OF n [of i]] by (cases "j = i") (auto simp: fresh_partition_def)
  then have mf: "map_of (files ?s) (pt_manifest_key ?p) = None"
    by (auto simp: fresh_fs_def map_of_const)
  have disk: "disk_ok L ?s ?p (\<lambda>_. []) 0 1 [] []"
    using L s n [of i] schema mf holds_log_disk [OF log]
    by (simp add: disk_ok_def published_def segs_ok_def) (simp add: fresh_partition_def)
  have st: "pt_state ?p = opened_state schema [] [] 0 1" by (simp add: fresh_partition_def)
  have inv: "part_inv L ?s ?p (\<lambda>_. [])"
    using opened_inv(1) [OF disk, of "[]"] L s n [of i] st
    by (simp add: part_inv_def) (simp add: fresh_partition_def index_ok_def)
  show ?thesis
    using inv log disk by (simp add: durable_def Let_def st seg_part_def mem_part_def mt_new_def mem_rows_def)
      (simp add: fresh_partition_def)
qed

definition demo_part :: part_st where
  "demo_part = (fresh_fs ''acme'' ''shop'' ''orders'' [0], fresh_partition ''acme'' ''shop'' demo_schema 0 demo_config)"

lemma demo_idents: "ident_ok ''acme''" "ident_ok ''shop''" "ident_ok ''orders''"
  by code_simp+

lemma demo_durable: "durable demo_lib (fst demo_part) (snd demo_part) (\<lambda>_. []) [] []"
proof -
  have "tname demo_schema = ''orders''" by (simp add: demo_schema_def new_table_def)
  then show ?thesis
    using fresh_durable [OF demo_lib_ok, of demo_schema "''acme''" "''shop''" 0 "[0]" demo_config] demo_schema_ok
    by (simp add: demo_part_def validate_schema_iff demo_idents)
qed

lemma demo_sound: "sound demo_lib demo_part"
  using demo_durable by (auto simp: sound_def)

lemma demo_rows: "partition_rows demo_lib demo_part = []"
proof -
  have "partition_rows demo_lib (fst demo_part, snd demo_part) = []"
    unfolding durable_rows [OF demo_durable] by (simp add: disk_rows_def live_ops_def)
  then show ?thesis by simp
qed

lemma demo_fields: "ps_schema (pt_state (snd demo_part)) = demo_schema" "next_lsn (pt_log (snd demo_part)) = 1"
  "pt_tenant (snd demo_part) = ''acme''" "pt_database (snd demo_part) = ''shop''" "pt_id (snd demo_part) = 0"
  by (simp_all add: demo_part_def fresh_partition_def)

definition demo_rows_batch :: batch where
  "demo_rows_batch = \<lparr>bfields = arrow_schema demo_schema, brows = [[VInt 1, VStr ''uae''], [VInt 5, VNull]]\<rparr>"

lemma demo_rows_fit: "batch_fits demo_schema demo_rows_batch"
  by (simp add: batch_fits_def batch_ok_def demo_rows_batch_def arrow_schema_def demo_schema_def new_table_def
    new_column_def row_ok_def field_fits_def arrow_field_def value_finite_def)

lemma enc_bytes_length: "length (concat (map enc_byte bs)) = length bs"
  by (induction bs) (simp_all add: enc_byte_def)

lemma demo_rows_loggable: "batch_loggable demo_lib demo_part demo_rows_batch True"
  by (simp add: batch_loggable_def loggable_def demo_lib_def demo_arrow_def encode_ipc_def demo_fields write_op_def
    payload_of_def demo_wal_def enc_entry_def enc_nat_def enc_list_def enc_batch_def enc_field_def enc_arrow_def
    enc_bool_def enc_char_def enc_byte_def enc_bytes_length demo_rows_batch_def arrow_schema_def demo_schema_def new_table_def new_column_def arrow_field_def)

end
