(* ===== verification/PartitionProps.thy ===== *)
theory PartitionProps
  imports PartitionDemo
begin

text \<open>
  The properties of a partition: the effect of each operation on its rows, recovery, crash safety
  of every operation, and their composition along runs with crashes.
\<close>

section \<open>Runs\<close>

datatype part_op = OpAppend batch bool | OpDelete "row_key list" | OpFlush | OpCompact | OpReopen

datatype outcome = Acked | Refused | Crashed

fun outcome_of :: "'a result \<Rightarrow> outcome" where
  "outcome_of (Inl _) = Refused"
| "outcome_of (Inr _) = Acked"

definition reopen :: "storage_lib \<Rightarrow> storage_config \<Rightarrow> partition \<Rightarrow> fs_store \<Rightarrow> part_st result" where
  "reopen L cfg p s = partition_open L s (pt_tenant p) (pt_database p) (ps_schema (pt_state p)) (pt_id p) cfg"

fun exec_op :: "storage_lib \<Rightarrow> storage_config \<Rightarrow> part_op \<Rightarrow> part_st \<Rightarrow> outcome \<times> part_st" where
  "exec_op L cfg (OpAppend b upsert) st = (let (r, st') = append_rows L b upsert st in (outcome_of r, st'))"
| "exec_op L cfg (OpDelete ks) st = (let (r, st') = delete_keys L ks st in (outcome_of r, st'))"
| "exec_op L cfg OpFlush st = (let (r, st') = flush_locked L st in (outcome_of r, st'))"
| "exec_op L cfg OpCompact st = (let (r, st') = compact L st in (outcome_of r, st'))"
| "exec_op L cfg OpReopen st =
     (case reopen L cfg (snd st) (fst st) of Inl _ \<Rightarrow> (Refused, st) | Inr st' \<Rightarrow> (Acked, st'))"

definition delete_keys_crash_states :: "storage_lib \<Rightarrow> row_key list \<Rightarrow> part_st \<Rightarrow> fs_store list" where
  "delete_keys_crash_states L ks st =
     (let (s, p) = st; present = present_keys p ks
      in if present = [] then [s] else append_crash_states (sl_wal L) (s, pt_log p) (MDelete present))"

fun op_crash_states :: "storage_lib \<Rightarrow> part_op \<Rightarrow> part_st \<Rightarrow> fs_store list" where
  "op_crash_states L (OpAppend b upsert) st = append_rows_crash_states L b upsert st"
| "op_crash_states L (OpDelete ks) st = delete_keys_crash_states L ks st"
| "op_crash_states L OpFlush st = flush_crash_states L st"
| "op_crash_states L OpCompact st =
     compact_crash_states L (select (facts_of (pt_state (snd st))) (cfg_compaction (pt_config (snd st)))) st"
| "op_crash_states L OpReopen st = [fst st]"

text \<open>What the caller owes: batches of the table's schema, log records below 4 GiB.\<close>

fun op_ok :: "storage_lib \<Rightarrow> part_op \<Rightarrow> part_st \<Rightarrow> bool" where
  "op_ok L (OpAppend b upsert) st \<longleftrightarrow> batch_fits (schema_of st) b \<and> batch_loggable L st b upsert"
| "op_ok L (OpDelete ks) st \<longleftrightarrow> loggable (sl_wal L) (fst st, pt_log (snd st)) (MDelete (present_keys (snd st) ks))"
| "op_ok L _ st \<longleftrightarrow> True"

inductive partition_run ::
    "storage_lib \<Rightarrow> storage_config \<Rightarrow> part_st \<Rightarrow> (part_op \<times> outcome) list \<Rightarrow> part_st \<Rightarrow> bool" for L cfg st where
  run_start: "partition_run L cfg st [] st"
| run_op: "partition_run L cfg st tr st1 \<Longrightarrow> op_ok L x st1 \<Longrightarrow> exec_op L cfg x st1 = (out, st2) \<Longrightarrow>
    partition_run L cfg st (tr @ [(x, out)]) st2"
| run_crash: "partition_run L cfg st tr st1 \<Longrightarrow> op_ok L x st1 \<Longrightarrow> c \<in> set (op_crash_states L x st1) \<Longrightarrow>
    reopen L cfg (snd st1) c = Inr st2 \<Longrightarrow> partition_run L cfg st (tr @ [(x, Crashed)]) st2"

text \<open>The specification: what each operation does to the rows.\<close>

fun spec_op :: "nat list \<Rightarrow> row list \<Rightarrow> part_op \<Rightarrow> row list" where
  "spec_op pk V (OpAppend b _) = spec_append pk V (brows b)"
| "spec_op pk V (OpDelete ks) = spec_delete pk V ks"
| "spec_op pk V _ = V"

text \<open>
  Which operations of a run took effect: every acknowledged one, no refused one, and of those cut
  by a crash any.
\<close>

definition applied_ok :: "(part_op \<times> outcome) list \<Rightarrow> bool list \<Rightarrow> bool" where
  "applied_ok tr bs \<longleftrightarrow> list_all2 (\<lambda>(x, out) b. (out = Acked \<longrightarrow> b) \<and> (out = Refused \<longrightarrow> \<not> b)) tr bs"

definition applied_ops :: "(part_op \<times> outcome) list \<Rightarrow> bool list \<Rightarrow> part_op list" where
  "applied_ops tr bs = map (\<lambda>((x, _), _). x) (filter snd (zip tr bs))"

section \<open>Lemmas\<close>

lemma applied_snoc:
  assumes "applied_ok tr bs" "(out = Acked \<longrightarrow> b) \<and> (out = Refused \<longrightarrow> \<not> b)"
  shows "applied_ok (tr @ [(x, out)]) (bs @ [b])"
    "applied_ops (tr @ [(x, out)]) (bs @ [b]) = applied_ops tr bs @ (if b then [x] else [])"
  using assms list_all2_lengthD [of _ tr bs] by (auto simp: applied_ok_def applied_ops_def list_all2_appendI)


lemma spec_append_mset: "mset V = mset W \<Longrightarrow> mset (spec_append pk V rs) = mset (spec_append pk W rs)"
proof -
  assume eq: "mset V = mset W"
  then have "mset (foldl (spec_upsert_row pk) V rs) = mset (foldl (spec_upsert_row pk) W rs)"
  proof (induction rs arbitrary: V W)
    case (Cons r rs)
    have "mset (spec_upsert_row pk V r) = mset (spec_upsert_row pk W r)"
      by (simp only: spec_upsert_row_def mset_append mset_filter Cons.prems)
    then show ?case unfolding foldl_Cons by (rule Cons.IH)
  qed simp
  then show ?thesis using eq by (simp add: spec_append_def)
qed

lemma spec_delete_mset: "mset V = mset W \<Longrightarrow> mset (spec_delete pk V ks) = mset (spec_delete pk W ks)"
  by (simp only: spec_delete_def mset_filter split: if_splits) simp

lemma spec_op_mset:
  assumes "mset V = mset W"
  shows "mset (spec_op pk V x) = mset (spec_op pk W x)"
  by (cases x) (use assms spec_append_mset [OF assms] spec_delete_mset [OF assms] in simp_all)

lemma reopen_ok:
  assumes "durable L s p R vs es"
  obtains st' where "reopen L cfg p s = Inr st'" "sound L st'" "partition_rows L st' = partition_rows L (s, p)"
    "schema_of st' = ps_schema (pt_state p)"
proof -
  obtain s' p' where r: "partition_open L s (pt_tenant p) (pt_database p) (ps_schema (pt_state p)) (pt_id p) cfg = Inr (s', p')"
    "durable L s' p' R vs es"
    "ps_schema (pt_state p') = ps_schema (pt_state p)" "ps_applied_lsn (pt_state p') = ps_applied_lsn (pt_state p)"
    by (rule partition_open_ok [OF durableD(3) [OF assms], where cfg = cfg]) (rule that; assumption)
  show ?thesis
    by (rule that [OF r(1) [folded reopen_def] soundI [OF r(2)]]) (use durable_rows [OF assms] durable_rows [OF r(2)] r(3,4) in simp_all)
qed

lemma survives_reopen:
  assumes "survives L p V c"
  obtains st' where "reopen L cfg p c = Inr st'" "sound L st'" "schema_of st' = ps_schema (pt_state p)"
    "mset (partition_rows L st') = mset V"
  by (rule survives_open [OF assms, where cfg = cfg]) (rule that; simp add: reopen_def)

text \<open>The rows after the operation are the specified ones, when it is not refused.\<close>

lemma exec_op_ok:
  assumes snd_st: "sound L st" and ok: "op_ok L x st" and run: "exec_op L cfg x st = (out, st')"
  shows "sound L st'" "schema_of st' = schema_of st" "out \<noteq> Crashed"
    "out = Acked \<Longrightarrow> mset (partition_rows L st') = mset (spec_op (key_columns st) (partition_rows L st) x)"
    "out = Refused \<Longrightarrow> partition_rows L st' = partition_rows L st"
proof -
  obtain s p R vs es where st: "st = (s, p)" and dur: "durable L s p R vs es" using soundE [OF snd_st] .
  have "sound L st' \<and> schema_of st' = schema_of st \<and> out \<noteq> Crashed \<and>
    (out = Acked \<longrightarrow> mset (partition_rows L st') = mset (spec_op (key_columns st) (partition_rows L st) x)) \<and>
    (out = Refused \<longrightarrow> partition_rows L st' = partition_rows L st)"
  proof (cases x)
    case (OpAppend b u)
    have b: "batch_fits (ps_schema (pt_state p)) b" "batch_loggable L (s, p) b u" using ok OpAppend st by simp_all
    show ?thesis
      by (cases rule: append_ok [OF dur b]) (use run OpAppend st in \<open>auto intro: soundI\<close>)
  next
    case (OpDelete ks)
    have "loggable (sl_wal L) (s, pt_log p) (MDelete (present_keys p ks))" using ok OpDelete st by simp
    then show ?thesis
      by (cases rule: delete_ok [OF dur]) (use run OpDelete st in \<open>auto intro: soundI\<close>)
  next
    case OpFlush
    show ?thesis
      by (rule flush_ok [OF dur]) (use run OpFlush st in \<open>auto intro: soundI\<close>)
  next
    case OpCompact
    let ?ids = "select (facts_of (pt_state p)) (cfg_compaction (pt_config p))"
    show ?thesis
    proof (cases "?ids = []")
      case True
      then show ?thesis using run OpCompact st snd_st by (auto simp: compact_def)
    next
      case False
      show ?thesis
        by (rule compact_durable [OF dur auto_compact_ids [OF durableD(1) [OF dur], of "cfg_compaction (pt_config p)"]])
          (use run OpCompact st False in \<open>auto simp: compact_def intro: soundI\<close>)
    qed
  next
    case OpReopen
    show ?thesis
      by (rule reopen_ok [OF dur, of cfg]) (use run OpReopen st in auto)
  qed
  then show "sound L st'" "schema_of st' = schema_of st" "out \<noteq> Crashed"
    "out = Acked \<Longrightarrow> mset (partition_rows L st') = mset (spec_op (key_columns st) (partition_rows L st) x)"
    "out = Refused \<Longrightarrow> partition_rows L st' = partition_rows L st"
    by simp_all
qed

lemma op_crash_ok:
  assumes snd_st: "sound L st" and ok: "op_ok L x st" and c: "c \<in> set (op_crash_states L x st)"
  shows "survives L (snd st) (partition_rows L st) c \<or>
    survives L (snd st) (spec_op (key_columns st) (partition_rows L st) x) c"
proof -
  obtain s p R vs es where st: "st = (s, p)" and dur: "durable L s p R vs es" using soundE [OF snd_st] .
  have now: "survives L p (partition_rows L (s, p)) s" by (rule durable_survives [OF dur refl])
  show ?thesis
  proof (cases x)
    case (OpAppend b u)
    then show ?thesis using append_crash [OF dur, of b u c] ok c st by simp
  next
    case (OpDelete ks)
    let ?m = "MDelete (present_keys p ks)" and ?pk = "pk_indices (ps_schema (pt_state p))"
    have log: "loggable (sl_wal L) (s, pt_log p) ?m" using ok OpDelete st by simp
    have same: "spec_delete ?pk (partition_rows L (s, p)) (present_keys p ks) = spec_delete ?pk (partition_rows L (s, p)) ks"
      unfolding present_keys_def by (rule spec_delete_present) (rule index_keys [OF durableD(1) [OF dur]])
    have "c = s \<or> c \<in> set (append_crash_states (sl_wal L) (s, pt_log p) ?m)"
      using c OpDelete st by (auto simp: delete_keys_crash_states_def Let_def split: if_splits)
    then show ?thesis
      using log_append_crash [OF dur _ log, of c] now st OpDelete same by (auto simp: entry_fits_def)
  next
    case OpFlush
    then show ?thesis using flush_crash [OF dur, of c] c st by simp
  next
    case OpCompact
    then show ?thesis using compact_crash [OF dur auto_compact_ids [OF durableD(1) [OF dur]], of c] c st by simp
  next
    case OpReopen
    then show ?thesis using now c st by simp
  qed
qed

lemma length_live: "dead \<subseteq> {..<length rows} \<Longrightarrow> length (live mk rows dead) = length rows - card dead"
proof -
  assume d: "dead \<subseteq> {..<length rows}"
  have "length (live mk rows dead) = card ({..<length rows} - dead)"
    by (simp add: live_def length_filter_conv_card) (rule arg_cong [where f = card]; auto)
  also have "\<dots> = length rows - card dead" using d by (simp add: card_Diff_subset finite_subset)
  finally show ?thesis .
qed

lemma mem_rows_length: "length (mem_rows m) = sum_list (map num_rows (mt_batches m))"
  by (simp add: mem_rows_def length_concat num_rows_def [abs_def] comp_def)

lemma seg_visible_length:
  assumes "\<forall>e \<in> set es. se_suppressed e \<subseteq> {..<length (R (seg_id (se_meta e)))}"
    "\<forall>e \<in> set es. row_count (se_meta e) = length (R (seg_id (se_meta e)))"
  shows "length (seg_visible R es) = sum_list (map entry_visible_rows es)"
  using assms by (induction es) (simp_all add: seg_live_def length_live entry_visible_rows_def)

section \<open>Properties\<close>

text \<open>
  C15: appending a batch of the table's schema to a sound partition leaves it sound. When the call
  is acknowledged the rows are the old ones with every row of the batch upserted by primary key (or
  added, without one), also when the append triggers a flush and a compaction; when it is refused
  the error is \<open>BadRequest\<close>, for a log record above the limit, and the rows are the old ones.
\<close>

theorem append_rows_exact:
  assumes "sound L st" "batch_fits (schema_of st) b" "batch_loggable L st b upsert"
  shows "case append_rows L b upsert st of (r, st') \<Rightarrow> sound L st' \<and> schema_of st' = schema_of st \<and>
    (case r of
       Inr _ \<Rightarrow> mset (partition_rows L st') = mset (spec_append (key_columns st) (partition_rows L st) (brows b))
     | Inl e \<Rightarrow> e = BadRequest \<and> partition_rows L st' = partition_rows L st)"
proof -
  obtain s p R vs es where st: "st = (s, p)" and dur: "durable L s p R vs es" using soundE [OF assms(1)] .
  have b: "batch_fits (ps_schema (pt_state p)) b" "batch_loggable L (s, p) b upsert" using assms(2,3) st by simp_all
  show ?thesis
    by (cases rule: append_ok [OF dur b]) (use st in \<open>auto intro: soundI\<close>)
qed

theorem append_rows_exact_witness:
  "case append_rows demo_lib demo_rows_batch True demo_part of (r, st') \<Rightarrow> sound demo_lib st' \<and>
    (case r of Inr _ \<Rightarrow> mset (partition_rows demo_lib st') = {#[VInt 1, VStr ''uae''], [VInt 5, VNull]#}
     | Inl e \<Rightarrow> e = BadRequest \<and> partition_rows demo_lib st' = [])"
proof -
  have pk: "pk_indices demo_schema = [0]" by code_simp
  have "mset (spec_append [0] [] (brows demo_rows_batch)) = {#[VInt 1, VStr ''uae''], [VInt 5, VNull]#}"
    by (simp add: spec_append_def spec_upsert_row_def row_key_def demo_rows_batch_def)
  then show ?thesis
    using append_rows_exact [OF demo_sound _ demo_rows_loggable] demo_rows_fit
    by (auto simp: demo_fields demo_rows pk split: prod.splits sum.splits)
qed

text \<open>
  Remark: deleting keys from a sound partition removes exactly the rows with one of the keys, reports
  how many entries of the list were keys of visible rows, and keeps the partition sound; a refused
  call changes no row.
\<close>

theorem delete_keys_exact:
  assumes "sound L st" "loggable (sl_wal L) (fst st, pt_log (snd st)) (MDelete (present_keys (snd st) ks))"
  shows "case delete_keys L ks st of (r, st') \<Rightarrow> sound L st' \<and> schema_of st' = schema_of st \<and>
    (case r of
       Inr n \<Rightarrow> partition_rows L st' = spec_delete (key_columns st) (partition_rows L st) ks \<and>
         n = length (filter (\<lambda>k. key_columns st \<noteq> [] \<and> k \<in> row_key (key_columns st) ` set (partition_rows L st)) ks)
     | Inl e \<Rightarrow> e = BadRequest \<and> partition_rows L st' = partition_rows L st)"
proof -
  obtain s p R vs es where st: "st = (s, p)" and dur: "durable L s p R vs es" using soundE [OF assms(1)] .
  have log: "loggable (sl_wal L) (s, pt_log p) (MDelete (present_keys p ks))" using assms(2) st by simp
  have "present_keys p ks = filter (\<lambda>k. pk_indices (ps_schema (pt_state p)) \<noteq> [] \<and>
      k \<in> row_key (pk_indices (ps_schema (pt_state p))) ` set (partition_rows L (s, p))) ks"
    unfolding present_keys_def by (rule filter_cong [OF refl]) (rule index_keys [OF durableD(1) [OF dur]])
  then show ?thesis
    by (cases rule: delete_ok [OF dur log]) (use st in \<open>auto intro: soundI\<close>)
qed

theorem delete_keys_exact_witness:
  "case delete_keys demo_lib [[VInt 1]] demo_part of (r, st') \<Rightarrow> sound demo_lib st' \<and>
    (case r of Inr n \<Rightarrow> n = 0 \<and> partition_rows demo_lib st' = [] | Inl _ \<Rightarrow> partition_rows demo_lib st' = [])"
proof -
  have "present_keys (snd demo_part) [[VInt 1]] = []"
    by (simp add: present_keys_def ki_contains_def demo_part_def fresh_partition_def)
  then have "loggable (sl_wal demo_lib) (fst demo_part, pt_log (snd demo_part)) (MDelete (present_keys (snd demo_part) [[VInt 1]]))"
    by (simp add: loggable_def demo_lib_def demo_fields payload_of_def demo_wal_def enc_entry_def enc_nat_def enc_list_def)
  from delete_keys_exact [OF demo_sound this] show ?thesis
    by (auto simp: demo_rows spec_delete_def split: prod.splits sum.splits)
qed

text \<open>
  Remark: reopening a sound partition succeeds and gives a sound partition with the same rows in the
  same order, rebuilt from the manifest, the segments and the log.
\<close>

theorem reopen_same_rows:
  assumes "sound L (s, p)"
  shows "\<exists>st'. partition_open L s (pt_tenant p) (pt_database p) (ps_schema (pt_state p)) (pt_id p) cfg = Inr st' \<and>
    sound L st' \<and> schema_of st' = ps_schema (pt_state p) \<and> partition_rows L st' = partition_rows L (s, p)"
proof -
  obtain R vs es where dur: "durable L s p R vs es" using soundE [OF assms] by blast
  show ?thesis by (rule reopen_ok [OF dur, of cfg]) (auto simp: reopen_def)
qed

theorem reopen_same_rows_witness:
  "\<exists>st'. partition_open demo_lib (fst demo_part) ''acme'' ''shop'' demo_schema 0 demo_config = Inr st' \<and>
    sound demo_lib st' \<and> partition_rows demo_lib st' = []"
  using reopen_same_rows [of demo_lib "fst demo_part" "snd demo_part" demo_config] demo_sound demo_rows
  by (auto simp: demo_fields)

text \<open>
  C16: flushing and compacting a sound partition succeed, keep it sound and keep its rows.
\<close>

theorem maintenance_keeps_rows:
  assumes "sound L st"
  shows "(\<exists>r st'. flush_locked L st = (Inr r, st') \<and> sound L st' \<and>
      mset (partition_rows L st') = mset (partition_rows L st)) \<and>
    (\<exists>r st'. compact L st = (Inr r, st') \<and> sound L st' \<and>
      mset (partition_rows L st') = mset (partition_rows L st))"
proof -
  obtain s p R vs es where st: "st = (s, p)" and dur: "durable L s p R vs es" using soundE [OF assms] .
  let ?ids = "select (facts_of (pt_state p)) (cfg_compaction (pt_config p))"
  have "\<exists>r st'. flush_locked L st = (Inr r, st') \<and> sound L st' \<and>
      mset (partition_rows L st') = mset (partition_rows L st)"
    by (rule flush_ok [OF dur]) (use st in \<open>auto intro: soundI\<close>)
  moreover have "\<exists>r st'. compact L st = (Inr r, st') \<and> sound L st' \<and>
      mset (partition_rows L st') = mset (partition_rows L st)"
  proof (cases "?ids = []")
    case True
    then show ?thesis using assms st by (simp add: compact_def)
  next
    case False
    show ?thesis
      by (rule compact_durable [OF dur auto_compact_ids [OF durableD(1) [OF dur], of "cfg_compaction (pt_config p)"]])
        (use False st in \<open>auto simp: compact_def intro: soundI\<close>)
  qed
  ultimately show ?thesis ..
qed

theorem maintenance_keeps_rows_witness:
  "\<exists>r st'. flush_locked demo_lib demo_part = (Inr r, st') \<and> mset (partition_rows demo_lib st') = {#}"
  using maintenance_keeps_rows [OF demo_sound] by (auto simp: demo_rows)

text \<open>
  C14: at whatever point a crash stops an append, a delete, a flush or a compaction, the partition
  opens again on what is on disk, is sound, and has the rows of before the operation or those after
  it; a flush and a compaction never show.
\<close>

theorem crash_safe:
  assumes "sound L st" "op_ok L x st" "c \<in> set (op_crash_states L x st)"
  shows "\<exists>st'. reopen L cfg (snd st) c = Inr st' \<and> sound L st' \<and>
    (mset (partition_rows L st') = mset (partition_rows L st) \<or>
     mset (partition_rows L st') = mset (spec_op (key_columns st) (partition_rows L st) x))"
  using op_crash_ok [OF assms] survives_reopen [of L "snd st" _ c cfg] by metis

theorem crash_safe_witness:
  "\<exists>st'. reopen demo_lib demo_config (snd demo_part) (fst demo_part) = Inr st' \<and> sound demo_lib st' \<and>
    mset (partition_rows demo_lib st') = {#}"
proof -
  have "fst demo_part \<in> set (op_crash_states demo_lib OpReopen demo_part)" by simp
  from crash_safe [OF demo_sound _ this, of demo_config] show ?thesis by (simp add: demo_rows)
qed

lemma run_rows:
  assumes "partition_run L cfg st tr st'" "sound L st"
  shows "sound L st' \<and> schema_of st' = schema_of st \<and> (\<exists>bs. applied_ok tr bs \<and>
    mset (partition_rows L st') = mset (foldl (spec_op (key_columns st)) (partition_rows L st) (applied_ops tr bs)))"
  using assms
proof (induction rule: partition_run.induct)
  case run_start
  then show ?case by (intro conjI exI [of _ "[]"]) (simp_all add: applied_ok_def applied_ops_def)
next
  case (run_op tr st1 x out st2)
  then obtain bs where IH: "sound L st1" "schema_of st1 = schema_of st" "applied_ok tr bs"
    "mset (partition_rows L st1) = mset (foldl (spec_op (key_columns st)) (partition_rows L st) (applied_ops tr bs))"
    by blast
  note x = exec_op_ok [OF IH(1) run_op.hyps(2,3)]
  note snoc = applied_snoc [OF IH(3), of out "out = Acked"]
  have "mset (partition_rows L st2) = mset (foldl (spec_op (key_columns st)) (partition_rows L st)
      (applied_ops (tr @ [(x, out)]) (bs @ [out = Acked])))"
    using x(3-5) IH(2) IH(4) spec_op_mset [OF IH(4)] snoc(2) by (cases out) simp_all
  then show ?case using x(1,2) IH(2) snoc(1) by auto
next
  case (run_crash tr st1 x c st2)
  then obtain bs where IH: "sound L st1" "schema_of st1 = schema_of st" "applied_ok tr bs"
    "mset (partition_rows L st1) = mset (foldl (spec_op (key_columns st)) (partition_rows L st) (applied_ops tr bs))"
    by blast
  obtain V where V: "survives L (snd st1) V c" "V = partition_rows L st1 \<or> V = spec_op (key_columns st1) (partition_rows L st1) x"
    using op_crash_ok [OF IH(1) run_crash.hyps(2,3)] by blast
  have op: "sound L st2" "schema_of st2 = schema_of st1" "mset (partition_rows L st2) = mset V"
    by (rule survives_reopen [OF V(1), of cfg]; use run_crash.hyps(4) in simp)+
  let ?b = "mset (partition_rows L st2) \<noteq> mset (partition_rows L st1)"
  note snoc = applied_snoc [OF IH(3), of Crashed ?b]
  have "mset (partition_rows L st2) = mset (foldl (spec_op (key_columns st)) (partition_rows L st)
      (applied_ops (tr @ [(x, Crashed)]) (bs @ [?b])))"
    using op(3) V(2) IH(2,4) spec_op_mset [OF IH(4)] snoc(2) by auto
  then show ?case using op(1,2) IH(2) snoc(1) by auto
qed

text \<open>
  C12: along every run of appends, deletes, flushes, compactions and reopenings, each completed,
  refused or cut by a crash and followed by recovery, the partition stays sound and its rows are
  those of a sequence of the operations that contains every acknowledged one, no refused one, and
  of those cut by a crash some, each whole and in its place.
\<close>

theorem run_durable:
  assumes "partition_run L cfg st tr st'" "sound L st"
  shows "sound L st' \<and> (\<exists>bs. applied_ok tr bs \<and>
    mset (partition_rows L st') = mset (foldl (spec_op (key_columns st)) (partition_rows L st) (applied_ops tr bs)))"
  using run_rows [OF assms] by blast

theorem run_durable_witness:
  "\<exists>out st'. exec_op demo_lib demo_config (OpAppend demo_rows_batch True) demo_part = (out, st') \<and>
    (out = Acked \<longrightarrow> mset (partition_rows demo_lib st') = {#[VInt 1, VStr ''uae''], [VInt 5, VNull]#})"
proof -
  obtain out st' where run: "exec_op demo_lib demo_config (OpAppend demo_rows_batch True) demo_part = (out, st')"
    by (cases "exec_op demo_lib demo_config (OpAppend demo_rows_batch True) demo_part")
  have "partition_run demo_lib demo_config demo_part ([] @ [(OpAppend demo_rows_batch True, out)]) st'"
    by (rule run_op [OF run_start _ run]) (use demo_rows_fit demo_rows_loggable in \<open>simp add: demo_fields\<close>)
  from run_durable [OF this demo_sound] obtain bs where bs: "applied_ok [(OpAppend demo_rows_batch True, out)] bs"
    "mset (partition_rows demo_lib st') = mset (foldl (spec_op (key_columns demo_part)) [] (applied_ops [(OpAppend demo_rows_batch True, out)] bs))"
    by (auto simp: demo_rows)
  have pk: "pk_indices demo_schema = [0]" by code_simp
  have "mset (partition_rows demo_lib st') = {#[VInt 1, VStr ''uae''], [VInt 5, VNull]#}" if "out = Acked"
    using bs that by (auto simp: applied_ok_def applied_ops_def list_all2_Cons1 demo_fields pk
      spec_append_def spec_upsert_row_def row_key_def demo_rows_batch_def)
  then show ?thesis using run by blast
qed



lemma snapshot_length:
  assumes inv: "part_inv L s p R"
  shows "visible_rows (snapshot p) = length (partition_rows L (s, p))"
proof -
  let ?st = "pt_state p" and ?M = "mem_rows (ps_memtable (pt_state p))"
  note S = st_invD [OF part_invD(5) [OF inv]]
  have a: "addr_ok R ?M ?st" using S(4) by (simp add: state_ok_def)
  have rc: "\<forall>e \<in> set (ps_segments ?st). row_count (se_meta e) = length (R (seg_id (se_meta e)))"
  proof
    fix e assume "e \<in> set (ps_segments ?st)"
    then have "se_meta e \<in> set (map se_meta (ps_segments ?st))" by simp
    then show "row_count (se_meta e) = length (R (seg_id (se_meta e)))"
      using stored_length segs_okD(2) [OF S(3)] by blast
  qed
  have "length (seg_part R ?st) = sum_list (map entry_visible_rows (ps_segments ?st))"
    using a rc by (simp add: seg_part_def seg_visible_length addr_ok_def)
  moreover have "length (mem_part ?M ?st) = sum_list (map num_rows (mt_batches (ps_memtable ?st))) - card (ps_mem_suppressed ?st)"
    using a by (simp add: mem_part_def length_live addr_ok_def mem_rows_length)
  ultimately show ?thesis
    by (simp add: visible_rows_def snapshot_def Let_def partition_rows_eq [OF inv] contents_def)
qed

text \<open>
  Remark: the row count a snapshot reports is the number of rows of the partition.
\<close>

theorem snapshot_count:
  assumes "sound L (s, p)"
  shows "visible_rows (snapshot p) = length (partition_rows L (s, p))"
proof -
  obtain R vs es where "durable L s p R vs es" using soundE [OF assms] by blast
  then show ?thesis using snapshot_length durableD(1) by blast
qed

theorem snapshot_count_witness: "visible_rows (snapshot (snd demo_part)) = 0"
  using snapshot_count [of demo_lib "fst demo_part" "snd demo_part"] demo_sound demo_rows by simp

end
