(* ===== verification/Table.thy ===== *)
theory Table
  imports PartitionTheorems Bloom
begin

text \<open>
  \<open>TableStore\<close> of \<open>crates/adb-storage/src/table.rs\<close>: a table as its partitions, the routing of
  rows by the hash of their key, point lookups and schema changes. The partitions share the file
  system; an operation runs on them one after the other and stops at the first error, leaving what
  was done before it.
\<close>

section \<open>State\<close>

record table_store =
  ts_tenant :: string
  ts_database :: string
  ts_schema :: table_schema
  ts_partitions :: "partition list"
  ts_config :: storage_config

type_synonym table_st = "fs_store \<times> table_store"

record write_outcome =
  wo_rows :: nat
  segments_flushed :: nat

definition on_partition :: "nat \<Rightarrow> (part_st \<Rightarrow> 'r \<times> part_st) \<Rightarrow> table_st \<Rightarrow> 'r \<times> table_st" where
  "on_partition i f st =
     (let (s, t) = st; (r, (s', p')) = f (s, ts_partitions t ! i)
      in (r, (s', t\<lparr>ts_partitions := (ts_partitions t)[i := p']\<rparr>)))"

fun run_steps :: "(nat \<times> (part_st \<Rightarrow> nat result \<times> part_st)) list \<Rightarrow> nat \<Rightarrow> table_st \<Rightarrow> nat result \<times> table_st" where
  "run_steps [] acc st = (Inr acc, st)"
| "run_steps ((i, f) # steps) acc st =
     (case on_partition i f st of
        (Inl e, st') \<Rightarrow> (Inl e, st')
      | (Inr n, st') \<Rightarrow> run_steps steps (acc + n) st')"

section \<open>Opening\<close>

fun open_partitions ::
    "storage_lib \<Rightarrow> string \<Rightarrow> string \<Rightarrow> table_schema \<Rightarrow> storage_config \<Rightarrow> nat list \<Rightarrow> fs_store \<Rightarrow> (fs_store \<times> partition list) result" where
  "open_partitions L t d schema cfg [] s = Inr (s, [])"
| "open_partitions L t d schema cfg (i # is) s =
     rbind (partition_open L s t d schema i cfg) (\<lambda>(s, p).
     rbind (open_partitions L t d schema cfg is s) (\<lambda>(s, ps). Inr (s, p # ps)))"

definition table_open :: "storage_lib \<Rightarrow> fs_store \<Rightarrow> string \<Rightarrow> string \<Rightarrow> table_schema \<Rightarrow> storage_config \<Rightarrow> table_st result" where
  "table_open L s t d schema cfg =
     rbind (validate_schema schema) (\<lambda>_.
     rbind (open_partitions L t d schema cfg [0..<partitions schema] s) (\<lambda>(s, ps).
     Inr (s, \<lparr>ts_tenant = t, ts_database = d, ts_schema = schema, ts_partitions = ps, ts_config = cfg\<rparr>)))"

section \<open>Reading\<close>

definition table_snapshots :: "table_store \<Rightarrow> partition_snapshot list" where
  "table_snapshots t = map snapshot (ts_partitions t)"

definition table_row_count :: "table_store \<Rightarrow> nat" where
  "table_row_count t = sum_list (map visible_rows (table_snapshots t))"

definition stored_bytes :: "table_store \<Rightarrow> nat" where
  "stored_bytes t = sum_list (map (\<lambda>e. seg_bytes (se_meta e)) (concat (map sn_segments (table_snapshots t))))"

section \<open>Writing\<close>

definition target :: "nat \<Rightarrow> row_key \<Rightarrow> nat" where
  "target n k = unat (hash_key k) mod n"

definition groups_of :: "nat \<Rightarrow> row_key list \<Rightarrow> nat list list" where
  "groups_of n keys = map (\<lambda>i. filter (\<lambda>row. target n (keys ! row) = i) [0..<length keys]) [0..<n]"

definition append_group :: "storage_lib \<Rightarrow> batch \<Rightarrow> bool \<Rightarrow> nat list \<Rightarrow> part_st \<Rightarrow> nat result \<times> part_st" where
  "append_group L b upsert rows st =
     (case (if length rows = num_rows b then Inr b else take_rows (sl_arrow L) b rows) of
        Inl e \<Rightarrow> (Inl e, st)
      | Inr sub \<Rightarrow> append_rows L sub upsert st)"

definition div_ceil :: "nat \<Rightarrow> nat \<Rightarrow> nat" where
  "div_ceil a b = (a + b - 1) div b"

definition outcome :: "nat \<Rightarrow> nat result \<times> table_st \<Rightarrow> write_outcome result \<times> table_st" where
  "outcome rows r = (rmap (\<lambda>n. \<lparr>wo_rows = rows, segments_flushed = n\<rparr>) (fst r), snd r)"

definition spread_steps :: "storage_lib \<Rightarrow> batch \<Rightarrow> nat \<Rightarrow> (nat \<times> (part_st \<Rightarrow> nat result \<times> part_st)) list" where
  "spread_steps L b n =
     (let total = num_rows b; per = div_ceil total n in
      map (\<lambda>i. (i, append_rows L (slice (sl_arrow L) b (i * per) (min per (total - i * per))) False))
        (takeWhile (\<lambda>i. i * per < total) [0..<n]))"

definition group_steps :: "storage_lib \<Rightarrow> batch \<Rightarrow> bool \<Rightarrow> nat list list \<Rightarrow> (nat \<times> (part_st \<Rightarrow> nat result \<times> part_st)) list" where
  "group_steps L b upsert groups =
     map (\<lambda>(i, g). (i, append_group L b upsert g)) (filter (\<lambda>(i, g). g \<noteq> []) (enumerate 0 groups))"

definition key_taken :: "table_store \<Rightarrow> row_key list \<Rightarrow> nat list list \<Rightarrow> bool" where
  "key_taken t keys groups \<longleftrightarrow>
     list_ex (\<lambda>(i, g). list_ex (\<lambda>row. ki_contains (ps_key_index (pt_state (ts_partitions t ! i))) (keys ! row)) g)
       (enumerate 0 groups)"

definition table_write :: "storage_lib \<Rightarrow> batch \<Rightarrow> bool \<Rightarrow> table_st \<Rightarrow> write_outcome result \<times> table_st" where
  "table_write L b upsert st =
     (let t = snd st; schema = ts_schema t; n = length (ts_partitions t) in
      if bfields b \<noteq> arrow_schema schema then (Inl InvalidSchema, st)
      else if num_rows b = 0 then (Inr \<lparr>wo_rows = 0, segments_flushed = 0\<rparr>, st)
      else if upsert \<and> is_append_only schema then (Inl BadRequest, st)
      else if is_append_only schema then outcome (num_rows b) (run_steps (spread_steps L b n) 0 st)
      else
        let keys = map (key_at b (pk_indices schema)) [0..<num_rows b] in
        if \<not> distinct keys \<and> \<not> upsert then (Inl BadRequest, st)
        else
          let groups = groups_of n keys in
          if \<not> upsert \<and> key_taken t keys groups then (Inl (AlreadyExists ''row''), st)
          else outcome (num_rows b) (run_steps (group_steps L b upsert groups) 0 st))"

definition key_groups :: "nat \<Rightarrow> row_key list \<Rightarrow> row_key list list" where
  "key_groups n keys = map (\<lambda>i. filter (\<lambda>k. target n k = i) keys) [0..<n]"

definition table_delete :: "storage_lib \<Rightarrow> row_key list \<Rightarrow> table_st \<Rightarrow> nat result \<times> table_st" where
  "table_delete L keys st =
     (let t = snd st; schema = ts_schema t; n = length (ts_partitions t) in
      if is_append_only schema then (Inl BadRequest, st)
      else if list_ex (\<lambda>k. length k \<noteq> length (primary_key schema)) keys then (Inl BadRequest, st)
      else run_steps (map (\<lambda>(i, g). (i, delete_keys L g)) (filter (\<lambda>(i, g). g \<noteq> []) (enumerate 0 (key_groups n keys)))) 0 st)"

section \<open>Point lookups\<close>

text \<open>
  \<open>get\<close> in its two phases: the addresses of the keys, then the rows behind them, source by source.
  Between the phases no lock is held. The sources are taken in the order of their first request;
  the \<open>HashMap\<close> gives some order, which the final permutation makes unobservable.
\<close>

type_synonym located = "nat \<times> nat \<times> locator"

definition locate_keys :: "table_store \<Rightarrow> row_key list \<Rightarrow> located list result" where
  "locate_keys t keys =
     (let n = length (ts_partitions t) in
      rmap concat (mapM (\<lambda>(request, k).
        if length k \<noteq> length (primary_key (ts_schema t)) then Inl BadRequest
        else
          let i = target n k in
          case ki_get (ps_key_index (pt_state (ts_partitions t ! i))) k of
            None \<Rightarrow> Inr []
          | Some l \<Rightarrow> Inr [(request, i, l)]) (enumerate 0 keys)))"

definition by_source :: "located list \<Rightarrow> ((nat \<times> source) \<times> (nat \<times> nat) list) list" where
  "by_source located =
     map (\<lambda>src. (src, map (\<lambda>(request, _, l). (request, loc_ordinal l))
                       (filter (\<lambda>(_, i, l). (i, loc_source l) = src) located)))
       (remdups (map (\<lambda>(_, i, l). (i, loc_source l)) located))"

definition source_batch :: "storage_lib \<Rightarrow> fs_store \<Rightarrow> table_schema \<Rightarrow> partition \<Rightarrow> source \<Rightarrow> batch option result" where
  "source_batch L s schema p src =
     (case src of
        Memtable \<Rightarrow>
          rbind (mt_concat (sl_arrow L) (ps_memtable (pt_state p))) (\<lambda>ob.
          case ob of None \<Rightarrow> Inr None
          | Some b \<Rightarrow> rmap Some (project_with_backfill (sl_arrow L) b schema (column_names schema)))
      | SegmentSource i \<Rightarrow>
          (case find (\<lambda>e. seg_id (se_meta e) = i) (ps_segments (pt_state p)) of
             None \<Rightarrow> Inr None
           | Some e \<Rightarrow> rmap Some (read_segment (sl_arrow L) s (se_meta e) schema (Some (column_names schema)))))"

definition fetch_group ::
    "storage_lib \<Rightarrow> table_schema \<Rightarrow> table_st \<Rightarrow> (nat \<times> source) \<times> (nat \<times> nat) list \<Rightarrow> (nat list \<times> batch) list result" where
  "fetch_group L schema st g =
     (let ((i, src), wanted) = g; wanted = sort_key snd wanted in
      rbind (source_batch L (fst st) schema (ts_partitions (snd st) ! i) src) (\<lambda>ob.
      case ob of None \<Rightarrow> Inr []
      | Some all_rows \<Rightarrow> rmap (\<lambda>b. [(map fst wanted, b)]) (take_rows (sl_arrow L) all_rows (map snd wanted))))"

definition fetch_located :: "storage_lib \<Rightarrow> table_schema \<Rightarrow> table_st \<Rightarrow> located list \<Rightarrow> batch result" where
  "fetch_located L schema st located =
     (if located = [] then empty_batch schema (column_names schema)
      else
        rbind (rmap concat (mapM (fetch_group L schema st) (by_source located))) (\<lambda>pieces.
        if pieces = [] then empty_batch schema (column_names schema)
        else
          rbind (case pieces of [(_, b)] \<Rightarrow> Inr b
                 | _ \<Rightarrow> concat_batches (sl_arrow L) (bfields (snd (hd pieces))) (map snd pieces)) (\<lambda>combined.
          let request_order = concat (map fst pieces);
              permutation = sort_key fst (map (\<lambda>(position, request). (request, position)) (enumerate 0 request_order))
          in take_rows (sl_arrow L) combined (map snd permutation))))"

definition table_get :: "storage_lib \<Rightarrow> row_key list \<Rightarrow> table_st \<Rightarrow> batch result" where
  "table_get L keys st =
     (let schema = ts_schema (snd st) in
      if is_append_only schema then Inl BadRequest
      else rbind (locate_keys (snd st) keys) (fetch_located L schema st))"

section \<open>Maintenance\<close>

definition count_some :: "'a option result \<times> part_st \<Rightarrow> nat result \<times> part_st" where
  "count_some r = (rmap (\<lambda>x. if x = None then 0 else 1) (fst r), snd r)"

definition all_partitions :: "table_store \<Rightarrow> nat list" where
  "all_partitions t = [0..<length (ts_partitions t)]"

definition table_flush :: "storage_lib \<Rightarrow> table_st \<Rightarrow> nat result \<times> table_st" where
  "table_flush L st = run_steps (map (\<lambda>i. (i, \<lambda>ps. count_some (flush_locked L ps))) (all_partitions (snd st))) 0 st"

definition table_compact :: "storage_lib \<Rightarrow> table_st \<Rightarrow> nat result \<times> table_st" where
  "table_compact L st = run_steps (map (\<lambda>i. (i, \<lambda>ps. count_some (compact L ps))) (all_partitions (snd st))) 0 st"

definition no_count :: "unit result \<times> part_st \<Rightarrow> nat result \<times> part_st" where
  "no_count r = (rmap (\<lambda>_. 0) (fst r), snd r)"

definition table_set_schema :: "storage_lib \<Rightarrow> table_schema \<Rightarrow> table_st \<Rightarrow> unit result \<times> table_st" where
  "table_set_schema L schema st =
     (case check_evolution (ts_schema (snd st)) schema of
        Inl e \<Rightarrow> (Inl e, st)
      | Inr _ \<Rightarrow>
          (case table_flush L st of
             (Inl e, st) \<Rightarrow> (Inl e, st)
           | (Inr _, st) \<Rightarrow>
               (case run_steps (map (\<lambda>i. (i, \<lambda>ps. no_count (set_partition_schema L schema ps))) (all_partitions (snd st))) 0 st of
                  (Inl e, st) \<Rightarrow> (Inl e, st)
                | (Inr _, (s, t)) \<Rightarrow> (Inr (), (s, t\<lparr>ts_schema := schema\<rparr>)))))"

definition table_destroy :: "table_st \<Rightarrow> fs_store result" where
  "table_destroy st = store_delete_prefix (fst st)
     (table_prefix (ts_tenant (snd st)) (ts_database (snd st)) (tname (ts_schema (snd st))))"

end
