(* ===== verification/TableInv.thy ===== *)
theory TableInv
  imports Table
begin

text \<open>
  The invariant of a table, and how an operation on its partitions, one after the other, acts on
  the rows of the table.
\<close>

section \<open>The invariant\<close>

definition table_rows :: "storage_lib \<Rightarrow> table_st \<Rightarrow> row list" where
  "table_rows L st = concat (map (\<lambda>p. partition_rows L (fst st, p)) (ts_partitions (snd st)))"

abbreviation key_of_row :: "table_store \<Rightarrow> row \<Rightarrow> row_key" where
  "key_of_row t \<equiv> row_key (pk_indices (ts_schema t))"

definition placed :: "storage_lib \<Rightarrow> fs_store \<Rightarrow> table_store \<Rightarrow> nat \<Rightarrow> bool" where
  "placed L s t i \<longleftrightarrow> (let p = ts_partitions t ! i in
     sound L (s, p) \<and> pt_id p = i \<and> pt_tenant p = ts_tenant t \<and> pt_database p = ts_database t \<and>
     pt_table p = tname (ts_schema t) \<and> ps_schema (pt_state p) = ts_schema t \<and>
     (\<not> is_append_only (ts_schema t) \<longrightarrow>
        (\<forall>r \<in> set (partition_rows L (s, p)). target (length (ts_partitions t)) (key_of_row t r) = i)))"

definition table_sound :: "storage_lib \<Rightarrow> table_st \<Rightarrow> bool" where
  "table_sound L st \<longleftrightarrow> ts_partitions (snd st) \<noteq> [] \<and>
     (\<forall>i < length (ts_partitions (snd st)). placed L (fst st) (snd st) i)"

lemma placedD:
  assumes "placed L s t i"
  shows "sound L (s, ts_partitions t ! i)" "pt_id (ts_partitions t ! i) = i"
    "pt_tenant (ts_partitions t ! i) = ts_tenant t" "pt_database (ts_partitions t ! i) = ts_database t"
    "pt_table (ts_partitions t ! i) = tname (ts_schema t)" "ps_schema (pt_state (ts_partitions t ! i)) = ts_schema t"
    "\<not> is_append_only (ts_schema t) \<Longrightarrow> r \<in> set (partition_rows L (s, ts_partitions t ! i)) \<Longrightarrow>
      target (length (ts_partitions t)) (key_of_row t r) = i"
  using assms by (simp_all add: placed_def Let_def)

section \<open>Other partitions are not touched\<close>

lemma disk_frame:
  assumes disk: "disk_ok L s q R a n vs es" and ok: "store_ok s'" and oth: "others_same K s s'" and K: "own_keys q \<inter> K = {}"
  shows "disk_ok L s' q R a n vs es"
proof -
  note D = disk_okD [OF disk]
  have out: "pt_segment_key q i \<notin> K" "pt_manifest_key q \<notin> K" "log_key (pt_log q) \<notin> K" for i
    using own_keys_of [OF D(3)] K by auto
  have "segs_ok L s' (ps_schema (pt_state q)) (pt_segment_key q) n R (map se_meta vs)"
    by (rule segs_ok_others [OF D(7) D(3) oth]) (use out in auto)
  moreover have "published L s' (pt_manifest_key q) a n vs"
    by (rule published_files [OF D(6)]) (rule others_sameD [OF oth out(2) pt_keys(6) [OF D(3)]])
  moreover have "log_disk (sl_wal L) s' (log_key (pt_log q)) es"
    using D(10) others_sameD [OF oth out(3) pt_keys(7) [OF D(3)]] by (simp add: log_disk_def)
  ultimately show ?thesis using disk ok by (simp add: disk_ok_def Let_def)
qed

lemma durable_frame:
  assumes dur: "durable L s q R vs es" and ok: "store_ok s'" and oth: "others_same K s s'" and K: "own_keys q \<inter> K = {}"
  shows "durable L s' q R vs es"
proof -
  note d = durableD [OF dur]
  note n = part_invD(3) [OF d(1)]
  have out: "pt_segment_key q i \<notin> K" "log_key (pt_log q) \<notin> K" for i
    using own_keys_of [OF n] K by auto
  have inv: "part_inv L s' q R" by (rule part_inv_store [OF d(1) oth ok]) (rule out)
  have "log_holds (sl_wal L) (s', pt_log q) es"
    using d(2) ok others_sameD [OF oth out(2) pt_keys(7) [OF n]] by (simp add: log_holds_def)
  then show ?thesis using dur inv disk_frame [OF d(3) ok oth K] by (simp add: durable_def Let_def)
qed

lemma sound_frame:
  assumes "sound L (s, q)" "store_ok s'" "others_same K s s'" "own_keys q \<inter> K = {}"
  shows "sound L (s', q)" "partition_rows L (s', q) = partition_rows L (s, q)"
proof -
  obtain R vs es where d: "durable L s q R vs es" using soundE [OF assms(1)] by blast
  note d' = durable_frame [OF d assms(2-4)]
  show "sound L (s', q)" by (rule soundI [OF d'])
  show "partition_rows L (s', q) = partition_rows L (s, q)" by (simp add: durable_rows [OF d] durable_rows [OF d'])
qed

lemma sound_store: "sound L (s, p) \<Longrightarrow> store_ok s"
  using part_invD(2) [OF durableD(1)] by (auto simp: sound_def)

section \<open>Steps\<close>

text \<open>
  \<open>step_ok L f E st\<close>: on the partition state \<open>st\<close> the operation \<open>f\<close> keeps the partition sound,
  touches no other, and acts on its rows as \<open>E\<close> when it succeeds, not at all when it fails.
\<close>

definition step_ok :: "storage_lib \<Rightarrow> (part_st \<Rightarrow> nat result \<times> part_st) \<Rightarrow> (row list \<Rightarrow> row list) \<Rightarrow> part_st \<Rightarrow> bool" where
  "step_ok L f E st \<longleftrightarrow> (case f st of (r, (s', p')) \<Rightarrow>
     sound L (s', p') \<and> same_names (snd st) p' \<and> ps_schema (pt_state p') = ps_schema (pt_state (snd st)) \<and>
     others_same (own_keys (snd st)) (fst st) s' \<and>
     mset (partition_rows L (s', p')) =
       mset (case r of Inr _ \<Rightarrow> E (partition_rows L st) | Inl _ \<Rightarrow> partition_rows L st))"

lemma on_partition_sound:
  assumes inv: "table_sound L (s, t)" and i: "i < length (ts_partitions t)"
    and f: "f (s, ts_partitions t ! i) = (r, (s', p'))"
    and p': "sound L (s', p')" "same_names (ts_partitions t ! i) p'"
      "ps_schema (pt_state p') = ps_schema (pt_state (ts_partitions t ! i))" "others_same (own_keys (ts_partitions t ! i)) s s'"
    and route: "\<not> is_append_only (ts_schema t) \<longrightarrow>
      (\<forall>r \<in> set (partition_rows L (s', p')). target (length (ts_partitions t)) (key_of_row t r) = i)"
  defines "t' \<equiv> t\<lparr>ts_partitions := (ts_partitions t)[i := p']\<rparr>"
  shows "on_partition i f (s, t) = (r, (s', t'))" "table_sound L (s', t')"
    "j < length (ts_partitions t) \<Longrightarrow> j \<noteq> i \<Longrightarrow>
      partition_rows L (s', ts_partitions t ! j) = partition_rows L (s, ts_partitions t ! j)"
proof -
  show "on_partition i f (s, t) = (r, (s', t'))" using f by (simp add: on_partition_def t'_def)
  have P: "placed L s t j" if "j < length (ts_partitions t)" for j
    using inv that by (simp add: table_sound_def)
  have other: "sound L (s', ts_partitions t ! j)" "partition_rows L (s', ts_partitions t ! j) = partition_rows L (s, ts_partitions t ! j)"
    if j: "j < length (ts_partitions t)" "j \<noteq> i" for j
  proof -
    have "own_keys (ts_partitions t ! j) \<inter> own_keys (ts_partitions t ! i) = {}"
      by (rule own_keys_disjoint) (use placedD [OF P [OF i]] placedD [OF P [OF j(1)]] j(2) in simp_all)
    then show "sound L (s', ts_partitions t ! j)" "partition_rows L (s', ts_partitions t ! j) = partition_rows L (s, ts_partitions t ! j)"
      using sound_frame [OF placedD(1) [OF P [OF j(1)]] sound_store [OF p'(1)] p'(4)] by simp_all
  qed
  then show "partition_rows L (s', ts_partitions t ! j) = partition_rows L (s, ts_partitions t ! j)"
    if "j < length (ts_partitions t)" "j \<noteq> i" using that by simp
  have "placed L s' t' j" if j: "j < length (ts_partitions t)" for j
  proof (cases "j = i")
    case True
    then show ?thesis
      using p' route placedD [OF P [OF i]] i by (simp add: placed_def t'_def same_names_def Let_def)
  next
    case False
    then show ?thesis
      using other [OF j False] P [OF j] by (simp add: placed_def t'_def Let_def)
  qed
  then show "table_sound L (s', t')" using inv by (simp add: table_sound_def t'_def)
qed

text \<open>
  The steps run in order on distinct partitions. Those that ran are a prefix of the list, all of it
  when the run succeeds; each acted on the rows of its partition as its effect says.
\<close>

type_synonym step = "nat \<times> (part_st \<Rightarrow> nat result \<times> part_st) \<times> (row list \<Rightarrow> row list)"

definition part_rows :: "storage_lib \<Rightarrow> table_st \<Rightarrow> nat \<Rightarrow> row list" where
  "part_rows L st i = partition_rows L (fst st, ts_partitions (snd st) ! i)"

definition effect_of :: "step list \<Rightarrow> nat \<Rightarrow> row list \<Rightarrow> row list" where
  "effect_of steps i = (case map_of steps i of None \<Rightarrow> \<lambda>V. V | Some (f, E) \<Rightarrow> E)"

definition same_shape :: "table_store \<Rightarrow> table_store \<Rightarrow> bool" where
  "same_shape t t' \<longleftrightarrow> ts_schema t' = ts_schema t \<and> length (ts_partitions t') = length (ts_partitions t) \<and>
     ts_tenant t' = ts_tenant t \<and> ts_database t' = ts_database t"

definition steps_ok :: "storage_lib \<Rightarrow> step list \<Rightarrow> table_store \<Rightarrow> bool" where
  "steps_ok L steps t \<longleftrightarrow> distinct (map fst steps) \<and>
     (\<forall>(i, f, E) \<in> set steps. i < length (ts_partitions t) \<and>
        (\<forall>s. sound L (s, ts_partitions t ! i) \<longrightarrow> step_ok L f E (s, ts_partitions t ! i)) \<and>
        (\<not> is_append_only (ts_schema t) \<longrightarrow>
           (\<forall>V. (\<forall>r \<in> set V. target (length (ts_partitions t)) (key_of_row t r) = i) \<longrightarrow>
                (\<forall>r \<in> set (E V). target (length (ts_partitions t)) (key_of_row t r) = i))))"

lemma steps_ok_Cons:
  assumes "steps_ok L ((i, f, E) # steps) t" "ts_schema t' = ts_schema t" "length (ts_partitions t') = length (ts_partitions t)"
    "\<And>j. j \<noteq> i \<Longrightarrow> ts_partitions t' ! j = ts_partitions t ! j"
  shows "steps_ok L steps t'"
proof -
  let ?P = "\<lambda>t (j, f, E). j < length (ts_partitions t) \<and>
        (\<forall>s. sound L (s, ts_partitions t ! j) \<longrightarrow> step_ok L f E (s, ts_partitions t ! j)) \<and>
        (\<not> is_append_only (ts_schema t) \<longrightarrow>
           (\<forall>V. (\<forall>r \<in> set V. target (length (ts_partitions t)) (key_of_row t r) = j) \<longrightarrow>
                (\<forall>r \<in> set (E V). target (length (ts_partitions t)) (key_of_row t r) = j)))"
  have all: "\<forall>x \<in> set steps. ?P t x" and d: "distinct (map fst ((i, f, E) # steps))"
    using assms(1) by (simp_all add: steps_ok_def)
  have "?P t' x" if x: "x \<in> set steps" for x
  proof -
    obtain j g F where jgF: "x = (j, g, F)" by (cases x)
    have "j \<in> set (map fst steps)" using x jgF by force
    then have "j \<noteq> i" using d by auto
    then show ?thesis using bspec [OF all x] assms(2,3) assms(4) [of j] by (simp add: jgF)
  qed
  then show ?thesis using d by (simp add: steps_ok_def)
qed

text \<open>The count a step reports: what its operation returns on the rows its partition has.\<close>

definition step_count :: "storage_lib \<Rightarrow> table_st \<Rightarrow> step \<Rightarrow> nat \<Rightarrow> bool" where
  "step_count L st = (\<lambda>(i, f, E) n. let p = ts_partitions (snd st) ! i in
     \<exists>s. sound L (s, p) \<and> partition_rows L (s, p) = part_rows L st i \<and> fst (f (s, p)) = Inr n)"

definition step_error :: "storage_lib \<Rightarrow> table_st \<Rightarrow> adb_error \<Rightarrow> step \<Rightarrow> bool" where
  "step_error L st e = (\<lambda>(i, f, E). let p = ts_partitions (snd st) ! i in
     \<exists>s. sound L (s, p) \<and> partition_rows L (s, p) = part_rows L st i \<and> fst (f (s, p)) = Inl e)"

lemma run_steps_ok:
  assumes "table_sound L (s, t)" "steps_ok L steps t"
  obtains r s' t' dn where "run_steps (map (\<lambda>(i, f, E). (i, f)) steps) acc (s, t) = (r, (s', t'))"
    "table_sound L (s', t')" "same_shape t t'" "prefix dn steps" "is_ok r \<longleftrightarrow> dn = steps"
    "\<And>i. i < length (ts_partitions t) \<Longrightarrow>
      mset (part_rows L (s', t') i) = mset (effect_of dn i (part_rows L (s, t) i))"
    "\<And>m. r = Inr m \<Longrightarrow> \<exists>ns. m = acc + sum_list ns \<and> list_all2 (step_count L (s, t)) steps ns"
    "\<And>e. r = Inl e \<Longrightarrow> \<exists>x \<in> set steps. step_error L (s, t) e x"
  using assms
proof (induction steps arbitrary: s t acc thesis)
  case Nil
  show ?case by (rule Nil(1) [of "Inr acc" s t "[]"]) (use Nil(2) in \<open>simp_all add: same_shape_def effect_of_def\<close>)
next
  case (Cons x steps)
  obtain i f E where x: "x = (i, f, E)" by (cases x)
  let ?p = "ts_partitions t ! i"
  have i: "i < length (ts_partitions t)" using Cons.prems(3) by (simp add: steps_ok_def x)
  have P: "placed L s t i" using Cons.prems(2) i by (simp add: table_sound_def)
  have step: "step_ok L f E (s, ?p)" using Cons.prems(3) placedD(1) [OF P] by (simp add: steps_ok_def x)
  obtain r s' p' where f: "f (s, ?p) = (r, (s', p'))" by (metis prod_cases3)
  have so: "sound L (s', p')" "same_names ?p p'" "ps_schema (pt_state p') = ps_schema (pt_state ?p)" "others_same (own_keys ?p) s s'"
    "mset (partition_rows L (s', p')) =
      mset (case r of Inr _ \<Rightarrow> E (partition_rows L (s, ?p)) | Inl _ \<Rightarrow> partition_rows L (s, ?p))"
    using step f by (simp_all add: step_ok_def)
  have rows': "set (partition_rows L (s', p')) =
      set (case r of Inr _ \<Rightarrow> E (partition_rows L (s, ?p)) | Inl _ \<Rightarrow> partition_rows L (s, ?p))"
    using so(5) by (metis set_mset_mset)
  have route: "\<not> is_append_only (ts_schema t) \<longrightarrow>
    (\<forall>r \<in> set (partition_rows L (s', p')). target (length (ts_partitions t)) (key_of_row t r) = i)"
  proof
    assume k: "\<not> is_append_only (ts_schema t)"
    have now: "\<forall>r \<in> set (partition_rows L (s, ?p)). target (length (ts_partitions t)) (key_of_row t r) = i"
      using placedD(7) [OF P k] by blast
    then have "\<forall>r \<in> set (E (partition_rows L (s, ?p))). target (length (ts_partitions t)) (key_of_row t r) = i"
      using Cons.prems(3) k by (simp add: steps_ok_def x)
    then show "\<forall>r \<in> set (partition_rows L (s', p')). target (length (ts_partitions t)) (key_of_row t r) = i"
      unfolding rows' using now by (cases r) simp_all
  qed
  note on = on_partition_sound [where f = f, OF Cons.prems(2) i f so(1-4) route]
  let ?t = "t\<lparr>ts_partitions := (ts_partitions t)[i := p']\<rparr>"
  have shape: "same_shape t ?t" by (simp add: same_shape_def)
  have rows1: "mset (part_rows L (s', ?t) j) = mset (effect_of (if is_ok r then [x] else []) j (part_rows L (s, t) j))"
    if j: "j < length (ts_partitions t)" for j
    using on(3) [OF j] so(5) i by (cases "j = i"; cases r) (simp_all add: part_rows_def effect_of_def x)
  show ?case
  proof (cases r)
    case (Inl e)
    show ?thesis
      by (rule Cons.prems(1) [of "Inl e" s' ?t "[]"])
        (use on Inl x shape rows1 f placedD(1) [OF P] in \<open>auto simp: step_error_def part_rows_def Let_def intro!: exI [of _ s]\<close>)
  next
    case (Inr n)
    have ok': "steps_ok L steps ?t"
      by (rule steps_ok_Cons [OF Cons.prems(3) [unfolded x]]) simp_all
    obtain r2 s2 t2 dn where IH: "run_steps (map (\<lambda>(i, f, E). (i, f)) steps) (acc + n) (s', ?t) = (r2, (s2, t2))"
      "table_sound L (s2, t2)" "same_shape ?t t2" "prefix dn steps" "is_ok r2 \<longleftrightarrow> dn = steps"
      "\<And>j. j < length (ts_partitions ?t) \<Longrightarrow> mset (part_rows L (s2, t2) j) = mset (effect_of dn j (part_rows L (s', ?t) j))"
      "\<And>m. r2 = Inr m \<Longrightarrow> \<exists>ns. m = acc + n + sum_list ns \<and> list_all2 (step_count L (s', ?t)) steps ns"
      "\<And>e. r2 = Inl e \<Longrightarrow> \<exists>y \<in> set steps. step_error L (s', ?t) e y"
      by (rule Cons.IH [OF _ on(2) ok', of "acc + n"]) (rule that; assumption)
    have ni: "i \<notin> set (map fst dn)"
      using Cons.prems(3) IH(4) set_mono_prefix [OF IH(4)] by (auto simp: steps_ok_def x)
    have rows2: "mset (part_rows L (s2, t2) j) = mset (effect_of (x # dn) j (part_rows L (s, t) j))"
      if j: "j < length (ts_partitions t)" for j
    proof (cases "j = i")
      case True
      have "map_of dn j = None" using ni True map_of_eq_None_iff [of dn j] by simp
      then have "effect_of dn j = (\<lambda>V. V)" by (simp add: effect_of_def)
      then show ?thesis using IH(6) [of j] rows1 [OF j] True Inr i by (simp add: effect_of_def x)
    next
      case False
      then have "part_rows L (s', ?t) j = part_rows L (s, t) j" using on(3) [OF j False] by (simp add: part_rows_def)
      then show ?thesis using IH(6) [of j] j False by (simp add: effect_of_def x)
    qed
    have elsewhere: "j \<noteq> i" "j < length (ts_partitions t)" if y: "(j, g, F) \<in> set steps" for j g F
    proof -
      have "j \<in> set (map fst steps)" using y by force
      then show "j \<noteq> i" using Cons.prems(3) by (auto simp: steps_ok_def x)
      show "j < length (ts_partitions t)" using y Cons.prems(3) by (auto simp: steps_ok_def)
    qed
    have errors: "\<exists>y \<in> set (x # steps). step_error L (s, t) e y" if e: "r2 = Inl e" for e
    proof -
      obtain j g F where y: "(j, g, F) \<in> set steps" "step_error L (s', ?t) e (j, g, F)"
        using IH(8) [OF e] by (metis prod_cases3)
      then have "step_error L (s, t) e (j, g, F)"
        using on(3) [OF elsewhere(2) [OF y(1)] elsewhere(1) [OF y(1)]] elsewhere [OF y(1)] by (auto simp: step_error_def part_rows_def Let_def)
      then show ?thesis using y(1) by auto
    qed
    have counts: "\<exists>ns. m = acc + sum_list ns \<and> list_all2 (step_count L (s, t)) (x # steps) ns" if m: "r2 = Inr m" for m
    proof -
      obtain ns where ns: "m = acc + n + sum_list ns" "list_all2 (step_count L (s', ?t)) steps ns" using IH(7) [OF m] by blast
      have "step_count L (s, t) y k" if y: "y \<in> set steps" and k: "step_count L (s', ?t) y k" for y k
        proof -
        obtain j g F where jgF: "y = (j, g, F)" by (cases y)
        show ?thesis
          using k on(3) [OF elsewhere(2) [OF y [unfolded jgF]] elsewhere(1) [OF y [unfolded jgF]]] elsewhere [OF y [unfolded jgF]]
          by (auto simp: jgF step_count_def part_rows_def Let_def)
      qed
      then have "list_all2 (step_count L (s, t)) steps ns"
        using ns(2) by (rule list.rel_mono_strong [rotated])
      moreover have "step_count L (s, t) x n"
        using f Inr placedD(1) [OF P] by (auto simp: step_count_def x part_rows_def Let_def intro!: exI [of _ s])
      ultimately show ?thesis using ns(1) by (intro exI [of _ "n # ns"]) simp
    qed
    show ?thesis
      by (rule Cons.prems(1) [of r2 s2 t2 "x # dn"])
        (use on(1) Inr IH(1-5) x shape rows2 counts errors in \<open>simp_all add: same_shape_def\<close>)
  qed
qed

end
