(* ===== verification/TableWrite.thy ===== *)
theory TableWrite
  imports TableInv
begin

text \<open>
  Writing to a table: the batch is split by the hash of the primary key, or evenly, and each part
  goes to its partition. The effect on the table is the specified one on the whole batch.
\<close>

section \<open>Operations as steps\<close>

lemma append_step:
  assumes "sound L (s, p)" "batch_fits (ps_schema (pt_state p)) b" "batch_loggable L (s, p) b upsert"
  shows "step_ok L (append_rows L b upsert) (\<lambda>V. spec_append (pk_indices (ps_schema (pt_state p))) V (brows b)) (s, p)"
proof -
  obtain R vs es where dur: "durable L s p R vs es" using soundE [OF assms(1)] by blast
  show ?thesis
  proof (cases rule: append_ok [OF dur assms(2,3)])
    case (1 p')
    then show ?thesis by (simp add: step_ok_def soundI others_same_def)
  next
    case (2 n s' p' R' vs' es')
    then show ?thesis by (simp add: step_ok_def soundI)
  qed
qed

lemma delete_step:
  assumes "sound L (s, p)" "loggable (sl_wal L) (s, pt_log p) (MDelete (present_keys p ks))"
  shows "step_ok L (delete_keys L ks) (\<lambda>V. spec_delete (pk_indices (ps_schema (pt_state p))) V ks) (s, p)"
proof -
  obtain R vs es where dur: "durable L s p R vs es" using soundE [OF assms(1)] by blast
  show ?thesis
  proof (cases rule: delete_ok [OF dur assms(2)])
    case (1 p')
    then show ?thesis by (simp add: step_ok_def soundI others_same_def)
  next
    case (2 s' p' es')
    then show ?thesis by (simp add: step_ok_def soundI)
  qed
qed

lemma flush_step: "sound L (s, p) \<Longrightarrow> step_ok L (\<lambda>ps. count_some (flush_locked L ps)) (\<lambda>V. V) (s, p)"
proof -
  assume "sound L (s, p)"
  then obtain R vs es where dur: "durable L s p R vs es" using soundE by blast
  show ?thesis
    by (rule flush_ok [OF dur]) (simp add: step_ok_def count_some_def soundI)
qed

lemma compact_step: "sound L (s, p) \<Longrightarrow> step_ok L (\<lambda>ps. count_some (compact L ps)) (\<lambda>V. V) (s, p)"
proof -
  assume snd_p: "sound L (s, p)"
  then obtain R vs es where dur: "durable L s p R vs es" using soundE by blast
  let ?ids = "select (facts_of (pt_state p)) (cfg_compaction (pt_config p))"
  show ?thesis
  proof (cases "?ids = []")
    case True
    then show ?thesis using snd_p by (simp add: step_ok_def count_some_def compact_def others_same_def)
  next
    case False
    show ?thesis
      by (rule compact_durable [OF dur auto_compact_ids [OF durableD(1) [OF dur], of "cfg_compaction (pt_config p)"]])
        (simp add: step_ok_def count_some_def compact_def False soundI)
  qed
qed

section \<open>Routing\<close>

lemma filter_nth: "map ((!) xs) (filter (\<lambda>i. P (xs ! i)) [0..<length xs]) = filter P xs"
  using filter_map [of P "(!) xs" "[0..<length xs]"] by (simp add: map_nth comp_def)

lemma upserts_routed:
  "filter (\<lambda>r. Q (row_key pk r)) (foldl (spec_upsert_row pk) V rs) =
   foldl (spec_upsert_row pk) (filter (\<lambda>r. Q (row_key pk r)) V) (filter (\<lambda>r. Q (row_key pk r)) rs)"
proof (induction rs arbitrary: V)
  case (Cons r rs)
  have "filter (\<lambda>r. Q (row_key pk r)) (spec_upsert_row pk V r) =
      (if Q (row_key pk r) then spec_upsert_row pk (filter (\<lambda>r. Q (row_key pk r)) V) r
       else filter (\<lambda>r. Q (row_key pk r)) V)"
    by (auto simp: spec_upsert_row_def conj_commute intro!: filter_cong)
  then show ?case using Cons by simp
qed simp

lemma spec_append_routed:
  assumes "pk \<noteq> []"
  shows "filter (\<lambda>r. Q (row_key pk r)) (spec_append pk V rs) =
    spec_append pk (filter (\<lambda>r. Q (row_key pk r)) V) (filter (\<lambda>r. Q (row_key pk r)) rs)"
  using assms by (simp add: spec_append_def upserts_routed)

lemma set_spec_append: "set (spec_append pk V rs) \<subseteq> set V \<union> set rs"
proof -
  have "set (foldl (spec_upsert_row pk) V rs) \<subseteq> set V \<union> set rs"
    by (induction rs arbitrary: V) (force simp: spec_upsert_row_def)+
  then show ?thesis by (simp add: spec_append_def)
qed

lemma routed_concat:
  assumes "\<forall>i < n. \<forall>r \<in> set (f i). route r = i" "i < n"
  shows "filter (\<lambda>r. route r = i) (concat (map f [0..<n])) = f i"
  using assms
proof (induction n)
  case (Suc n)
  have "filter (\<lambda>r. route r = i) (f n) = (if i = n then f n else [])"
    using Suc.prems(1) by (auto simp: filter_id_conv filter_empty_conv)
  moreover have other: "route r \<noteq> n" if "j < n" "r \<in> set (f j)" for j r
  proof -
    have "route r = j" using Suc.prems(1) that by simp
    then show ?thesis using that(1) by simp
  qed
  have "filter (\<lambda>r. route r = n) (concat (map f [0..<n])) = []"
    using other by (auto simp: filter_empty_conv)
  ultimately show ?case using Suc by (cases "i = n") simp_all
qed simp

lemma mset_routed:
  assumes "\<forall>r \<in> set W. route r < n"
  shows "mset (concat (map (\<lambda>i. filter (\<lambda>r. route r = i) W) [0..<n])) = mset W"
  using assms
proof (induction W)
  case (Cons r W)
  have one: "mset (concat (map (\<lambda>i. if i = j then [r] else []) [0..<n])) = (if j < n then {#r#} else {#})" for j
    by (induction n) auto
  have "mset (concat (map (\<lambda>i. filter (\<lambda>x. route x = i) (r # W)) [0..<n])) =
      mset (concat (map (\<lambda>i. if i = route r then [r] else []) [0..<n])) +
      mset (concat (map (\<lambda>i. filter (\<lambda>x. route x = i) W) [0..<n]))"
    by (induction n) auto
  then show ?case using Cons one [of "route r"] by simp
qed simp

lemma mset_concat_cong:
  "(\<And>i. i < n \<Longrightarrow> mset (f i) = mset (g i)) \<Longrightarrow> mset (concat (map f [0..<n])) = mset (concat (map g [0..<n]))"
  by (induction n) simp_all

lemma mset_concat_append:
  "mset (concat (map (\<lambda>i. f i @ h i) xs)) = mset (concat (map f xs)) + mset (concat (map h xs))"
  by (induction xs) simp_all

lemma concat_upto: "m \<le> n \<Longrightarrow> concat (map (\<lambda>i. if i < m then h i else []) [0..<n]) = concat (map h [0..<m])"
proof (induction n)
  case (Suc n)
  show ?case
  proof (cases "m = Suc n")
    case True
    then show ?thesis by (intro arg_cong [where f = concat] map_cong) auto
  next
    case False
    then show ?thesis using Suc by simp
  qed
qed simp

lemma table_rows_parts:
  "table_rows L st = concat (map (part_rows L st) [0..<length (ts_partitions (snd st))])"
proof -
  have "map (\<lambda>p. partition_rows L (fst st, p)) ps = map (\<lambda>i. partition_rows L (fst st, ps ! i)) [0..<length ps]" for ps
    by (rule nth_equalityI) simp_all
  then show ?thesis by (simp add: table_rows_def part_rows_def [abs_def])
qed

lemma target_bound: "0 < n \<Longrightarrow> target n k < n"
  by (simp add: target_def)

text \<open>Upserting each part of the rows into its partition is upserting them into the table.\<close>

lemma keyed_total:
  assumes "pk \<noteq> []" "0 < n" and old: "\<forall>i < n. \<forall>r \<in> set (f i). target n (row_key pk r) = i"
    and new: "\<And>i. i < n \<Longrightarrow> mset (g i) = mset (spec_append pk (f i) (filter (\<lambda>r. target n (row_key pk r) = i) rs))"
  shows "mset (concat (map g [0..<n])) = mset (spec_append pk (concat (map f [0..<n])) rs)"
proof -
  let ?W = "spec_append pk (concat (map f [0..<n])) rs"
  have "mset (concat (map g [0..<n])) = mset (concat (map (\<lambda>i. filter (\<lambda>r. target n (row_key pk r) = i) ?W) [0..<n]))"
  proof (rule mset_concat_cong)
    fix i assume i: "i < n"
    have "filter (\<lambda>r. target n (row_key pk r) = i) ?W =
        spec_append pk (f i) (filter (\<lambda>r. target n (row_key pk r) = i) rs)"
      using spec_append_routed [OF assms(1), of "\<lambda>k. target n k = i"]
        routed_concat [OF old i] by simp
    then show "mset (g i) = mset (filter (\<lambda>r. target n (row_key pk r) = i) ?W)" using new [OF i] by simp
  qed
  also have "\<dots> = mset ?W" by (rule mset_routed) (simp add: target_bound assms(2))
  finally show ?thesis .
qed

section \<open>The parts of a batch\<close>

definition route_rows :: "nat list \<Rightarrow> nat \<Rightarrow> row list \<Rightarrow> nat \<Rightarrow> row list" where
  "route_rows pk n rs i = filter (\<lambda>r. target n (row_key pk r) = i) rs"

definition slice_rows :: "nat \<Rightarrow> row list \<Rightarrow> nat \<Rightarrow> row list" where
  "slice_rows per rs i = take per (drop (i * per) rs)"

definition write_plan :: "batch \<Rightarrow> table_store \<Rightarrow> (nat \<times> batch) list" where
  "write_plan b t =
     (let n = length (ts_partitions t); pk = pk_indices (ts_schema t); per = div_ceil (num_rows b) n in
      map (\<lambda>i. (i, b\<lparr>brows := if is_append_only (ts_schema t) then slice_rows per (brows b) i
                       else route_rows pk n (brows b) i\<rparr>)) [0..<n])"

lemma div_ceil_covers: "0 < n \<Longrightarrow> a \<le> n * div_ceil a n"
proof -
  assume n: "0 < n"
  have "(a + n - 1) mod n < n" using n by simp
  moreover have "n * ((a + n - 1) div n) + (a + n - 1) mod n = a + n - 1" by simp
  ultimately show ?thesis unfolding div_ceil_def using n by linarith
qed

lemma slices_prefix: "concat (map (slice_rows per rs) [0..<k]) = take (k * per) rs"
proof (induction k)
  case (Suc k)
  have "take (k * per + per) rs = take (k * per) rs @ slice_rows per rs k"
    by (simp only: take_add slice_rows_def)
  then show ?case using Suc by (simp add: add.commute)
qed simp

lemma slice_in_range:
  assumes "arrow_ok A" "i * per < num_rows b"
  shows "slice A b (i * per) (min per (num_rows b - i * per)) = b\<lparr>brows := slice_rows per (brows b) i\<rparr>"
proof -
  have "take (min per (num_rows b - i * per)) (drop (i * per) (brows b)) = slice_rows per (brows b) i"
    by (simp add: slice_rows_def num_rows_def min_def)
  then show ?thesis using arrow_slice [OF assms(1), of "i * per" "min per (num_rows b - i * per)" b] assms(2) by simp
qed

lemma takeWhile_upt:
  obtains k where "takeWhile P [0..<n] = [0..<k]" "k \<le> n" "\<forall>i < k. P i" "k < n \<longrightarrow> \<not> P k"
proof
  let ?k = "length (takeWhile P [0..<n])"
  have le: "?k \<le> n" using length_takeWhile_le [of P "[0..<n]"] by simp
  show eq: "takeWhile P [0..<n] = [0..<?k]" by (subst takeWhile_eq_take) (use le in simp)
  show "?k \<le> n" by (rule le)
  show "\<forall>i < ?k. P i" using set_takeWhileD [of _ P "[0..<n]"] by (metis atLeastLessThan_iff eq le0 set_upt)
  show "?k < n \<longrightarrow> \<not> P ?k" using nth_length_takeWhile [of P "[0..<n]"] by simp
qed

section \<open>Writing\<close>

lemma mapM_take_group:
  assumes "arrow_ok A" "batch_ok b" "\<forall>row \<in> set g. row < num_rows b" "length g = num_rows b \<longrightarrow> g = [0..<num_rows b]"
  shows "(if length g = num_rows b then Inr b else take_rows A b g) = Inr (b\<lparr>brows := map ((!) (brows b)) g\<rparr>)"
proof (cases "length g = num_rows b")
  case True
  then have "map ((!) (brows b)) g = brows b" using assms(4) by (simp add: num_rows_def map_nth)
  then show ?thesis using True by simp
next
  case False
  then show ?thesis using arrow_take [OF assms(1,2)] assms(3) by (simp add: take_rows_def)
qed

lemma filter_full: "length (filter P xs) = length xs \<longleftrightarrow> filter P xs = xs"
  by (metis filter_id_conv length_filter_less order_less_irrefl)

definition write_steps :: "storage_lib \<Rightarrow> batch \<Rightarrow> bool \<Rightarrow> table_store \<Rightarrow> step list" where
  "write_steps L b upsert t =
     (let pk = pk_indices (ts_schema t); n = length (ts_partitions t) in
      if is_append_only (ts_schema t)
      then map (\<lambda>i. (i, append_rows L (slice (sl_arrow L) b (i * div_ceil (num_rows b) n)
             (min (div_ceil (num_rows b) n) (num_rows b - i * div_ceil (num_rows b) n))) False,
             \<lambda>V. V @ slice_rows (div_ceil (num_rows b) n) (brows b) i))
           (takeWhile (\<lambda>i. i * div_ceil (num_rows b) n < num_rows b) [0..<n])
      else map (\<lambda>(i, g). (i, append_group L b upsert g, \<lambda>V. spec_append pk V (route_rows pk n (brows b) i)))
           (filter (\<lambda>(i, g). g \<noteq> []) (enumerate 0 (groups_of n (map (key_at b pk) [0..<num_rows b])))))"

lemma groups_rows:
  fixes b :: batch and pk :: "nat list"
  assumes "i < n"
  defines "keys \<equiv> map (key_at b pk) [0..<num_rows b]"
  shows "map ((!) (brows b)) (groups_of n keys ! i) = route_rows pk n (brows b) i"
    "\<forall>row \<in> set (groups_of n keys ! i). row < num_rows b"
    "length (groups_of n keys ! i) = num_rows b \<longrightarrow> groups_of n keys ! i = [0..<num_rows b]"
proof -
  have g: "groups_of n keys ! i = filter (\<lambda>row. target n (row_key pk (brows b ! row)) = i) [0..<num_rows b]"
    using assms(1) by (auto simp: groups_of_def keys_def key_at_def intro!: filter_cong)
  show "map ((!) (brows b)) (groups_of n keys ! i) = route_rows pk n (brows b) i"
    unfolding g route_rows_def num_rows_def by (rule filter_nth)
  show "\<forall>row \<in> set (groups_of n keys ! i). row < num_rows b" unfolding g by simp
  show "length (groups_of n keys ! i) = num_rows b \<longrightarrow> groups_of n keys ! i = [0..<num_rows b]"
    unfolding g using filter_full [of _ "[0..<num_rows b]"] by auto
qed

lemma length_groups [simp]: "length (groups_of n keys) = n"
  by (simp add: groups_of_def)

lemma batch_loggable_store: "batch_loggable L (s, p) b upsert = batch_loggable L (s', p) b upsert"
  by (simp add: batch_loggable_def loggable_def split: sum.splits)

lemma write_steps_ok:
  assumes inv: "table_sound L (s, t)" and fit: "batch_fits (ts_schema t) b"
    and plan: "\<forall>(i, sub) \<in> set (write_plan b t). batch_loggable L (s, ts_partitions t ! i) sub upsert"
    and ap: "is_append_only (ts_schema t) \<longrightarrow> \<not> upsert"
  shows "steps_ok L (write_steps L b upsert t) t"
proof -
  let ?n = "length (ts_partitions t)" and ?pk = "pk_indices (ts_schema t)" and ?A = "sl_arrow L"
  let ?per = "div_ceil (num_rows b) ?n"
  have P: "placed L s t i" if "i < ?n" for i using inv that by (simp add: table_sound_def)
  have log: "batch_loggable L (s', ts_partitions t ! i) sub upsert" if "(i, sub) \<in> set (write_plan b t)" for i sub s'
    using plan that batch_loggable_store by blast
  have n0: "0 < ?n" using inv by (simp add: table_sound_def)
  obtain R vs es where dur: "durable L s (ts_partitions t ! 0) R vs es" using soundE [OF placedD(1) [OF P [OF n0]]] by blast
  note d = durableD [OF dur]
  note D = disk_okD [OF d(3)]
  have A: "arrow_ok ?A" using storage_okD(1) [OF D(1)] .
  have pk: "?pk = [] \<longleftrightarrow> is_append_only (ts_schema t)" using pk_nil_iff [OF D(4)] placedD(6) [OF P [OF n0]] by simp
  have bo: "batch_ok b" using fit by (simp add: batch_fits_def)
  have sub: "batch_fits (ts_schema t) (b\<lparr>brows := rs\<rparr>)" if "set rs \<subseteq> set (brows b)" for rs
    by (rule batch_fits_sub [OF fit that]) simp_all
  show ?thesis
  proof (cases "is_append_only (ts_schema t)")
    case True
    obtain k where k: "takeWhile (\<lambda>i. i * ?per < num_rows b) [0..<?n] = [0..<k]" "k \<le> ?n" "\<forall>i < k. i * ?per < num_rows b"
      by (rule takeWhile_upt) (rule that; assumption)
    have "step_ok L (append_rows L (slice ?A b (i * ?per) (min ?per (num_rows b - i * ?per))) False)
        (\<lambda>V. V @ slice_rows ?per (brows b) i) (s', ts_partitions t ! i)"
      if i: "i < k" and so: "sound L (s', ts_partitions t ! i)" for i s'
    proof -
      let ?b = "b\<lparr>brows := slice_rows ?per (brows b) i\<rparr>"
      have sl: "slice ?A b (i * ?per) (min ?per (num_rows b - i * ?per)) = ?b"
        by (rule slice_in_range [OF A]) (use k(3) i in simp)
      have "batch_fits (ts_schema t) ?b"
        by (rule sub) (auto simp: slice_rows_def dest: in_set_takeD in_set_dropD)
      moreover have "(i, ?b) \<in> set (write_plan b t)" using i k(2) True by (auto simp: write_plan_def Let_def)
      ultimately show ?thesis
        using append_step [OF so, of ?b False] placedD(6) [OF P, of i] i k(2) log pk True ap
        by (force simp: sl spec_append_def)
    qed
    then show ?thesis using True k(1,2) by (auto simp: steps_ok_def write_steps_def Let_def comp_def)
  next
    case False
    let ?groups = "groups_of ?n (map (key_at b ?pk) [0..<num_rows b])"
    have step: "step_ok L (append_group L b upsert (?groups ! i)) (\<lambda>V. spec_append ?pk V (route_rows ?pk ?n (brows b) i)) (s', ts_partitions t ! i)"
      if i: "i < ?n" and so: "sound L (s', ts_partitions t ! i)" for i s'
    proof -
      let ?b = "b\<lparr>brows := route_rows ?pk ?n (brows b) i\<rparr>"
      note G = groups_rows [OF i, of b ?pk]
      have g: "append_group L b upsert (?groups ! i) st = append_rows L ?b upsert st" for st
        using mapM_take_group [OF A bo G(2,3)] by (simp add: append_group_def G(1))
      have "batch_fits (ts_schema t) ?b" by (rule sub) (auto simp: route_rows_def)
      moreover have "(i, ?b) \<in> set (write_plan b t)" using i False by (auto simp: write_plan_def Let_def)
      ultimately have "step_ok L (append_rows L ?b upsert) (\<lambda>V. spec_append ?pk V (route_rows ?pk ?n (brows b) i)) (s', ts_partitions t ! i)"
        using append_step [OF so, of ?b upsert] placedD(6) [OF P [OF i]] log by force
      then show ?thesis by (simp add: step_ok_def g)
    qed
    have route: "\<forall>r \<in> set (spec_append ?pk V (route_rows ?pk ?n (brows b) i)). target ?n (key_of_row t r) = i"
      if "\<forall>r \<in> set V. target ?n (key_of_row t r) = i" for V i
      using set_spec_append [of ?pk V "route_rows ?pk ?n (brows b) i"] that by (auto simp: route_rows_def)
    have dist: "distinct (map fst (filter (\<lambda>(i, g). g \<noteq> []) (enumerate 0 ?groups)))"
      by (simp add: distinct_map_filter)
    have mem: "\<exists>i < ?n. x = (i, append_group L b upsert (?groups ! i), \<lambda>V. spec_append ?pk V (route_rows ?pk ?n (brows b) i))"
      if "x \<in> set (write_steps L b upsert t)" for x
      using that False by (auto simp: write_steps_def Let_def in_set_enumerate_eq)
    have fsts: "map fst (write_steps L b upsert t) = map fst (filter (\<lambda>(i, g). g \<noteq> []) (enumerate 0 ?groups))"
      using False by (simp add: write_steps_def Let_def comp_def case_prod_unfold)
    show ?thesis unfolding steps_ok_def
    proof (intro conjI ballI)
      show "distinct (map fst (write_steps L b upsert t))" unfolding fsts by (rule dist)
      fix x assume "x \<in> set (write_steps L b upsert t)"
      then obtain i where i: "i < ?n"
        "x = (i, append_group L b upsert (?groups ! i), \<lambda>V. spec_append ?pk V (route_rows ?pk ?n (brows b) i))"
        using mem by blast
      show "case x of (i, f, E) \<Rightarrow> i < ?n \<and>
          (\<forall>s. sound L (s, ts_partitions t ! i) \<longrightarrow> step_ok L f E (s, ts_partitions t ! i)) \<and>
          (\<not> is_append_only (ts_schema t) \<longrightarrow> (\<forall>V. (\<forall>r \<in> set V. target ?n (key_of_row t r) = i) \<longrightarrow>
             (\<forall>r \<in> set (E V). target ?n (key_of_row t r) = i)))"
        unfolding i(2) prod.case using i(1) step [OF i(1)] route by blast
    qed
  qed
qed

lemma effect_of_map:
  assumes "distinct (map fst dn)" "\<And>i f E. (i, f, E) \<in> set dn \<Longrightarrow> E = F i"
  shows "effect_of dn i = (if i \<in> set (map fst dn) then F i else (\<lambda>V. V))"
proof (cases "map_of dn i")
  case None
  then show ?thesis using map_of_eq_None_iff [of dn i] by (auto simp: effect_of_def)
next
  case (Some x)
  then have "(i, fst x, snd x) \<in> set dn" using map_of_SomeD by fastforce
  then show ?thesis using Some assms(2) by (force simp: effect_of_def split: prod.splits)
qed

lemma keyed_write_total:
  assumes "pk \<noteq> []" "0 < n" and old: "\<forall>i < n. \<forall>r \<in> set (f i). target n (row_key pk r) = i"
    and new: "\<And>i. i < n \<Longrightarrow> mset (g i) = mset (if i \<in> J then spec_append pk (f i) (route_rows pk n rs i) else f i)"
  shows "mset (concat (map g [0..<n])) =
    mset (spec_append pk (concat (map f [0..<n])) (filter (\<lambda>r. target n (row_key pk r) \<in> J) rs))"
proof (rule keyed_total [OF assms(1,2) old])
  fix i assume i: "i < n"
  have "filter (\<lambda>r. target n (row_key pk r) = i) (filter (\<lambda>r. target n (row_key pk r) \<in> J) rs) =
      (if i \<in> J then route_rows pk n rs i else [])"
    by (auto simp: route_rows_def filter_empty_conv intro!: filter_cong)
  then show "mset (g i) = mset (spec_append pk (f i)
      (filter (\<lambda>r. target n (row_key pk r) = i) (filter (\<lambda>r. target n (row_key pk r) \<in> J) rs)))"
    using new [OF i] assms(1) by (simp add: spec_append_def)
qed

text \<open>What the steps that ran did to the table: they wrote a part of the batch, all of it when they all ran.\<close>

lemma write_total:
  assumes pk: "pk_indices (ts_schema t) = [] \<longleftrightarrow> is_append_only (ts_schema t)" and n: "0 < length (ts_partitions t)"
    and old: "\<not> is_append_only (ts_schema t) \<Longrightarrow> \<forall>i < length (ts_partitions t). \<forall>r \<in> set (f i).
      target (length (ts_partitions t)) (key_of_row t r) = i"
    and dn: "prefix dn (write_steps L b upsert t)" "distinct (map fst (write_steps L b upsert t))"
    and new: "\<And>i. i < length (ts_partitions t) \<Longrightarrow> mset (g i) = mset (effect_of dn i (f i))"
  obtains sub where "subseq sub (brows b)" "dn = write_steps L b upsert t \<Longrightarrow> sub = brows b"
    "mset (concat (map g [0..<length (ts_partitions t)])) =
      mset (spec_append (pk_indices (ts_schema t)) (concat (map f [0..<length (ts_partitions t)])) sub)"
proof -
  let ?n = "length (ts_partitions t)" and ?pk = "pk_indices (ts_schema t)"
  let ?per = "div_ceil (num_rows b) ?n" and ?J = "set (map fst dn)"
  have dd: "distinct (map fst dn)" using dn by (auto simp: prefix_def)
  have in_steps: "x \<in> set dn \<Longrightarrow> x \<in> set (write_steps L b upsert t)" for x using set_mono_prefix [OF dn(1)] by blast
  show ?thesis
  proof (cases "is_append_only (ts_schema t)")
    case False
    let ?groups = "groups_of ?n (map (key_at b ?pk) [0..<num_rows b])"
    have "E = (\<lambda>V. spec_append ?pk V (route_rows ?pk ?n (brows b) i))" if "(i, h, E) \<in> set dn" for i h E
      using in_steps [OF that] False by (auto simp: write_steps_def Let_def)
    note eff = effect_of_map [OF dd this]
    let ?sub = "filter (\<lambda>r. target ?n (row_key ?pk r) \<in> ?J) (brows b)"
    have "mset (concat (map g [0..<?n])) = mset (spec_append ?pk (concat (map f [0..<?n])) ?sub)"
      by (rule keyed_write_total [OF _ n old [OF False]]) (use new False pk in \<open>simp_all add: eff\<close>)
    moreover have "?sub = brows b" if all: "dn = write_steps L b upsert t"
    proof (rule filter_True, intro ballI)
      fix r assume r: "r \<in> set (brows b)"
      let ?i = "target ?n (row_key ?pk r)"
      have i: "?i < ?n" by (rule target_bound [OF n])
      have "r \<in> set (route_rows ?pk ?n (brows b) ?i)" using r by (simp add: route_rows_def)
      then have "?groups ! ?i \<noteq> []" using groups_rows(1) [OF i, of b ?pk] by auto
      then have "(?i, ?groups ! ?i) \<in> set (filter (\<lambda>(i, g). g \<noteq> []) (enumerate 0 ?groups))"
        using i by (simp add: in_set_enumerate_eq)
      then show "?i \<in> ?J" using all False by (force simp: write_steps_def Let_def)
    qed
    ultimately show ?thesis using that [of ?sub] by (simp add: subseq_filter)
  next
    case True
    obtain k where k: "takeWhile (\<lambda>i. i * ?per < num_rows b) [0..<?n] = [0..<k]" "k \<le> ?n" "\<forall>i < k. i * ?per < num_rows b"
      "k < ?n \<longrightarrow> \<not> k * ?per < num_rows b"
      by (rule takeWhile_upt) (rule that; assumption)
    have fsts: "map fst (write_steps L b upsert t) = [0..<k]" using True k(1) by (simp add: write_steps_def Let_def comp_def)
    obtain m where m: "dn = take m (write_steps L b upsert t)" "m \<le> k"
    proof -
      have len: "length (write_steps L b upsert t) = k" using arg_cong [OF fsts, of length] by simp
      have "dn = take (length dn) (write_steps L b upsert t)" using dn(1) by (auto simp: prefix_def)
      moreover have "length dn \<le> k" using prefix_length_le [OF dn(1)] len by simp
      ultimately show ?thesis using that by blast
    qed
    have J: "?J = {..<m}" using fsts m by (simp add: take_map [symmetric] atLeast0LessThan lessThan_def)
    have "E = (\<lambda>V. V @ slice_rows ?per (brows b) i)" if "(i, h, E) \<in> set dn" for i h E
      using in_steps [OF that] True by (auto simp: write_steps_def Let_def)
    note eff = effect_of_map [OF dd this]
    let ?sub = "take (m * ?per) (brows b)"
    have gi: "mset (g i) = mset (f i @ (if i < m then slice_rows ?per (brows b) i else []))" if "i < ?n" for i
      using new [OF that] J by (simp add: eff)
    have "mset (concat (map g [0..<?n])) = mset (concat (map (\<lambda>i. f i @ (if i < m then slice_rows ?per (brows b) i else [])) [0..<?n]))"
      by (rule mset_concat_cong) (rule gi)
    also have "\<dots> = mset (concat (map f [0..<?n])) + mset (concat (map (\<lambda>i. if i < m then slice_rows ?per (brows b) i else []) [0..<?n]))"
      by (rule mset_concat_append)
    also have "concat (map (\<lambda>i. if i < m then slice_rows ?per (brows b) i else []) [0..<?n]) = concat (map (slice_rows ?per (brows b)) [0..<m])"
      by (rule concat_upto) (use m(2) k(2) in simp)
    also have "\<dots> = ?sub" by (rule slices_prefix)
    finally have "mset (concat (map g [0..<?n])) = mset (spec_append ?pk (concat (map f [0..<?n])) ?sub)"
      using pk True by (simp add: spec_append_def)
    moreover have "?sub = brows b" if all: "dn = write_steps L b upsert t"
    proof -
      have "map fst dn = [0..<m]" using m fsts by (simp add: take_map [symmetric])
      then have "m = k" using all fsts by (metis length_upt minus_nat.diff_0)
      moreover have "num_rows b \<le> k * ?per"
        using k(2,4) div_ceil_covers [OF n, of "num_rows b"] by (cases "k = ?n") auto
      ultimately show ?thesis by (simp add: num_rows_def)
    qed
    moreover have "subseq ?sub (brows b)" by (metis append_take_drop_id prefixI prefix_imp_subseq)
    ultimately show ?thesis using that [of ?sub] by blast
  qed
qed

end
