(* ===== verification/TableProps.thy ===== *)
theory TableProps
  imports TableWrite PartitionDemo
begin

text \<open>
  The properties of a table: routing keeps keys unique over all partitions, writes and deletes act
  on the table as on one list of rows, lookups find exactly the rows of the keys.
\<close>

section \<open>Writes\<close>

lemma table_facts:
  assumes "table_sound L (s, t)"
  shows "0 < length (ts_partitions t)" "i < length (ts_partitions t) \<Longrightarrow> placed L s t i"
    "storage_ok L" "store_ok s" "schema_ok (ts_schema t)" "pk_indices (ts_schema t) = [] \<longleftrightarrow> is_append_only (ts_schema t)"
    "\<not> is_append_only (ts_schema t) \<Longrightarrow> \<forall>i < length (ts_partitions t). \<forall>r \<in> set (part_rows L (s, t) i).
      target (length (ts_partitions t)) (key_of_row t r) = i"
proof -
  show n: "0 < length (ts_partitions t)" using assms by (simp add: table_sound_def)
  show P: "placed L s t i" if "i < length (ts_partitions t)" for i using assms that by (simp add: table_sound_def)
  obtain R vs es where dur: "durable L s (ts_partitions t ! 0) R vs es" using soundE [OF placedD(1) [OF P [OF n]]] by blast
  note D = disk_okD [OF durableD(3) [OF dur]]
  show "storage_ok L" "store_ok s" "schema_ok (ts_schema t)" using D(1,2,4) placedD(6) [OF P [OF n]] by simp_all
  show "pk_indices (ts_schema t) = [] \<longleftrightarrow> is_append_only (ts_schema t)"
    using pk_nil_iff [OF D(4)] placedD(6) [OF P [OF n]] by simp
  show "\<forall>i < length (ts_partitions t). \<forall>r \<in> set (part_rows L (s, t) i). target (length (ts_partitions t)) (key_of_row t r) = i"
    if "\<not> is_append_only (ts_schema t)"
    using placedD(7) [OF P that] by (simp add: part_rows_def)
qed

lemma write_run:
  "\<not> is_append_only (ts_schema t) \<Longrightarrow>
     map (\<lambda>(i, f, E). (i, f)) (write_steps L b upsert t) =
     group_steps L b upsert (groups_of (length (ts_partitions t)) (map (key_at b (pk_indices (ts_schema t))) [0..<num_rows b]))"
  "is_append_only (ts_schema t) \<Longrightarrow>
     map (\<lambda>(i, f, E). (i, f)) (write_steps L b upsert t) = spread_steps L b (length (ts_partitions t))"
  by (simp_all add: write_steps_def group_steps_def spread_steps_def Let_def comp_def case_prod_unfold)

definition batch_keys :: "table_store \<Rightarrow> batch \<Rightarrow> row_key list" where
  "batch_keys t b = map (key_of_row t) (brows b)"

lemma batch_keys_at: "map (key_at b (pk_indices (ts_schema t))) [0..<num_rows b] = batch_keys t b"
  by (rule nth_equalityI) (simp_all add: batch_keys_def key_at_def num_rows_def)

lemma ex_nth: "(\<exists>k \<in> set ks. P k) \<longleftrightarrow> (\<exists>row < length ks. P (ks ! row))"
  by (metis in_set_conv_nth)

lemma key_taken_iff:
  assumes inv: "table_sound L (s, t)" and keyed: "\<not> is_append_only (ts_schema t)"
  shows "key_taken t (batch_keys t b) (groups_of (length (ts_partitions t)) (batch_keys t b)) \<longleftrightarrow>
    (\<exists>k \<in> set (batch_keys t b). k \<in> key_of_row t ` set (table_rows L (s, t)))"
proof -
  let ?n = "length (ts_partitions t)" and ?pk = "pk_indices (ts_schema t)"
  note T = table_facts [OF inv]
  have at: "ki_contains (ps_key_index (pt_state (ts_partitions t ! i))) k \<longleftrightarrow> k \<in> key_of_row t ` set (part_rows L (s, t) i)"
    if i: "i < ?n" for i k
  proof -
    obtain R vs es where dur: "durable L s (ts_partitions t ! i) R vs es"
      using soundE [OF placedD(1) [OF T(2) [OF i]]] by blast
    show ?thesis
      using index_keys [OF durableD(1) [OF dur], of k] placedD(6) [OF T(2) [OF i]] T(6) keyed by (simp add: part_rows_def)
  qed
  have all: "k \<in> key_of_row t ` set (table_rows L (s, t)) \<longleftrightarrow> k \<in> key_of_row t ` set (part_rows L (s, t) (target ?n k))" for k
  proof
    assume "k \<in> key_of_row t ` set (table_rows L (s, t))"
    then obtain i r where i: "i < ?n" "r \<in> set (part_rows L (s, t) i)" "k = key_of_row t r"
      by (auto simp: table_rows_parts)
    then have "target ?n k = i" using T(7) [OF keyed] by simp
    then show "k \<in> key_of_row t ` set (part_rows L (s, t) (target ?n k))" using i by simp
  next
    assume "k \<in> key_of_row t ` set (part_rows L (s, t) (target ?n k))"
    then obtain r where r: "r \<in> set (part_rows L (s, t) (target ?n k))" "k = key_of_row t r" by blast
    have "r \<in> set (table_rows L (s, t))"
      using r(1) target_bound [OF T(1), of k] by (auto simp: table_rows_parts intro!: bexI [of _ "target ?n k"])
    then show "k \<in> key_of_row t ` set (table_rows L (s, t))" using r(2) by blast
  qed
  have enum: "set (enumerate 0 (groups_of n ks)) =
      (\<lambda>i. (i, filter (\<lambda>row. target n (ks ! row) = i) [0..<length ks])) ` {..<n}" for n ks
    by (auto simp: in_set_enumerate_eq groups_of_def image_iff)
  have "key_taken t (batch_keys t b) (groups_of ?n (batch_keys t b)) \<longleftrightarrow>
      (\<exists>i < ?n. \<exists>row < length (batch_keys t b). target ?n (batch_keys t b ! row) = i \<and>
        ki_contains (ps_key_index (pt_state (ts_partitions t ! i))) (batch_keys t b ! row))"
    unfolding key_taken_def list_ex_iff enum by auto
  also have "\<dots> \<longleftrightarrow> (\<exists>k \<in> set (batch_keys t b). ki_contains (ps_key_index (pt_state (ts_partitions t ! target ?n k))) k)"
    using target_bound [OF T(1)] by (simp add: ex_nth) blast
  also have "\<dots> \<longleftrightarrow> (\<exists>k \<in> set (batch_keys t b). k \<in> key_of_row t ` set (table_rows L (s, t)))"
    using at [OF target_bound [OF T(1)]] all by simp
  finally show ?thesis .
qed

lemma table_write_cases:
  assumes inv: "table_sound L (s, t)" and fit: "batch_fits (ts_schema t) b"
    and plan: "\<forall>(i, sub) \<in> set (write_plan b t). batch_loggable L (s, ts_partitions t ! i) sub upsert"
  obtains (no_key) "is_append_only (ts_schema t)" "upsert" "num_rows b \<noteq> 0" "table_write L b upsert (s, t) = (Inl BadRequest, (s, t))"
  | (repeated) "\<not> is_append_only (ts_schema t)" "\<not> upsert" "num_rows b \<noteq> 0" "\<not> distinct (batch_keys t b)"
    "table_write L b upsert (s, t) = (Inl BadRequest, (s, t))"
  | (taken) "\<not> is_append_only (ts_schema t)" "\<not> upsert" "distinct (batch_keys t b)"
    "\<exists>k \<in> set (batch_keys t b). k \<in> key_of_row t ` set (table_rows L (s, t))"
    "table_write L b upsert (s, t) = (Inl (AlreadyExists ''row''), (s, t))"
  | (ran) r s' t' sub where "table_write L b upsert (s, t) = (r, (s', t'))" "table_sound L (s', t')" "same_shape t t'"
    "subseq sub (brows b)" "\<And>out. r = Inr out \<Longrightarrow> sub = brows b \<and> wo_rows out = num_rows b"
    "mset (table_rows L (s', t')) = mset (spec_append (pk_indices (ts_schema t)) (table_rows L (s, t)) sub)"
    "\<not> is_append_only (ts_schema t) \<Longrightarrow> \<not> upsert \<Longrightarrow> distinct (batch_keys t b) \<and>
       (\<forall>k \<in> set (batch_keys t b). k \<notin> key_of_row t ` set (table_rows L (s, t)))"
proof -
  let ?n = "length (ts_partitions t)" and ?pk = "pk_indices (ts_schema t)" and ?ap = "is_append_only (ts_schema t)"
  note T = table_facts [OF inv]
  have fields: "bfields b = arrow_schema (ts_schema t)" using fit by (simp add: batch_fits_def)
  note tw_def = table_write_def [of L b upsert "(s, t)", unfolded Let_def snd_conv batch_keys_at, simplified fields, simplified]
  let ?taken = "key_taken t (batch_keys t b) (groups_of ?n (batch_keys t b))"
  note taken_iff = key_taken_iff [OF inv]
  show ?thesis
  proof (cases "num_rows b = 0")
    case True
    then have "brows b = []" by (simp add: num_rows_def)
    then show ?thesis
      by (intro ran [of "Inr \<lparr>wo_rows = 0, segments_flushed = 0\<rparr>" s t "[]"])
        (use True inv tw_def in \<open>auto simp: same_shape_def spec_append_def batch_keys_def\<close>)
  next
    case some: False
    show ?thesis
    proof (cases "?ap \<and> upsert \<or> \<not> ?ap \<and> \<not> upsert \<and> (\<not> distinct (batch_keys t b) \<or> ?taken)")
      case True
      then consider "?ap" "upsert" | "\<not> ?ap" "\<not> upsert" "\<not> distinct (batch_keys t b)"
        | "\<not> ?ap" "\<not> upsert" "distinct (batch_keys t b)" "?taken" by blast
      then show ?thesis
      proof cases
        case 1
        have "table_write L b upsert (s, t) = (Inl BadRequest, (s, t))" using tw_def some 1 by simp
        then show ?thesis by (rule no_key [OF 1 some])
      next
        case 2
        have "table_write L b upsert (s, t) = (Inl BadRequest, (s, t))" using tw_def some 2 by simp
        then show ?thesis by (rule repeated [OF 2(1,2) some 2(3)])
      next
        case 3
        have "table_write L b upsert (s, t) = (Inl (AlreadyExists ''row''), (s, t))" using tw_def some 3 by simp
        then show ?thesis by (rule taken [OF 3(1-3) taken_iff [OF 3(1), THEN iffD1, OF 3(4)]])
      qed
    next
      case False
      have ap: "?ap \<longrightarrow> \<not> upsert" using False by blast
      note ok = write_steps_ok [OF inv fit plan ap]
      obtain r s' t' dn where run: "run_steps (map (\<lambda>(i, f, E). (i, f)) (write_steps L b upsert t)) 0 (s, t) = (r, (s', t'))"
        "table_sound L (s', t')" "same_shape t t'" "prefix dn (write_steps L b upsert t)" "is_ok r \<longleftrightarrow> dn = write_steps L b upsert t"
        "\<And>i. i < ?n \<Longrightarrow> mset (part_rows L (s', t') i) = mset (effect_of dn i (part_rows L (s, t) i))"
        by (rule run_steps_ok [OF inv ok, of 0]) (rule that; assumption)
      have d: "distinct (map fst (write_steps L b upsert t))" using ok by (simp add: steps_ok_def)
      obtain sub where sub: "subseq sub (brows b)" "dn = write_steps L b upsert t \<Longrightarrow> sub = brows b"
        "mset (concat (map (part_rows L (s', t')) [0..<?n])) = mset (spec_append ?pk (concat (map (part_rows L (s, t)) [0..<?n])) sub)"
        by (rule write_total [OF T(6,1,7) run(4) d run(6)]) (assumption | (rule that; assumption))+
      have rows: "mset (table_rows L (s', t')) = mset (spec_append ?pk (table_rows L (s, t)) sub)"
        using sub(3) run(3) by (simp add: table_rows_parts same_shape_def)
      have "table_write L b upsert (s, t) = outcome (num_rows b) (r, (s', t'))"
        using tw_def some False ap write_run [of t L b upsert, unfolded batch_keys_at] run(1) by (cases ?ap) auto
      then have tw: "table_write L b upsert (s, t) = (rmap (\<lambda>n. \<lparr>wo_rows = num_rows b, segments_flushed = n\<rparr>) r, (s', t'))"
        by (simp add: outcome_def)
      show ?thesis
        by (rule ran [OF tw run(2,3) sub(1) _ rows])
          (use run(5) sub(2) False taken_iff in \<open>auto simp: result_simps\<close>)
    qed
  qed
qed

end
