(* ===== verification/TableGet.thy ===== *)
theory TableGet
  imports TableProps
begin

text \<open>Point lookups: the rows of the keys that exist, in the order of the request.\<close>

section \<open>Sorting and grouping\<close>

lemma insort_key_map: "insort_key g (f x) (map f ys) = map f (insort_key (\<lambda>y. g (f y)) x ys)"
  by (induction ys) simp_all

lemma sort_key_map: "sort_key g (map f xs) = map f (sort_key (\<lambda>x. g (f x)) xs)"
  by (induction xs) (simp_all add: insort_key_map)

lemma filter_self: "distinct xs \<Longrightarrow> k \<in> set xs \<Longrightarrow> filter (\<lambda>x. x = k) xs = [k]"
  by (induction xs) (auto simp: filter_empty_conv)

lemma concat_pick: "distinct ks \<Longrightarrow> y \<in> set ks \<Longrightarrow> concat (map (\<lambda>k. if y = k then [x] else []) ks) = [x]"
  by (induction ks) (auto simp: concat_eq_Nil_conv)

lemma sort_key_unique:
  assumes "distinct (map f xs)" "mset ys = mset xs" "sorted (map f ys)"
  shows "sort_key f xs = ys"
proof (rule properties_for_sort_key [OF assms(2) _ assms(3)])
  fix k assume k: "k \<in> set ys"
  have eq: "mset (filter (\<lambda>x. f k = f x) ys) = mset (filter (\<lambda>x. f k = f x) xs)" using assms(2) by simp
  have "inj_on f (set xs)" using assms(1) by (simp add: distinct_map)
  moreover have kx: "k \<in> set xs" using k assms(2) by (metis set_mset_mset)
  ultimately have "filter (\<lambda>x. f k = f x) xs = filter (\<lambda>x. x = k) xs"
    by (intro filter_cong) (auto simp: inj_on_def)
  moreover have "distinct xs" using assms(1) by (simp add: distinct_map)
  ultimately have one: "filter (\<lambda>x. f k = f x) xs = [k]" using filter_self [OF _ kx] by simp
  then have "mset (filter (\<lambda>x. f k = f x) ys) = {#k#}" using eq by (simp only: mset.simps)
  then have "filter (\<lambda>x. f k = f x) ys = [k]" by (simp only: mset_single_iff)
  then show "filter (\<lambda>x. f k = f x) ys = filter (\<lambda>x. f k = f x) xs" using one by simp
qed

lemma mset_group:
  assumes "distinct ks" "set (map key xs) \<subseteq> set ks"
  shows "mset (concat (map (\<lambda>k. filter (\<lambda>x. key x = k) xs) ks)) = mset xs"
  using assms(2)
proof (induction xs)
  case (Cons x xs)
  have one: "concat (map (\<lambda>k. if key x = k then [x] else []) ks) = [x]"
    by (rule concat_pick [OF assms(1)]) (use Cons.prems in simp)
  have "map (\<lambda>k. filter (\<lambda>y. key y = k) (x # xs)) ks =
      map (\<lambda>k. (if key x = k then [x] else []) @ filter (\<lambda>y. key y = k) xs) ks" by simp
  then show ?case using Cons one by (simp only: mset_concat_append) simp
qed (simp add: concat_eq_Nil_conv)

section \<open>Addresses\<close>

text \<open>The row behind an address of a partition.\<close>

definition row_at :: "(nat \<Rightarrow> row list) \<Rightarrow> row list \<Rightarrow> locator \<Rightarrow> row" where
  "row_at R M l = (case loc_source l of Memtable \<Rightarrow> M ! loc_ordinal l | SegmentSource j \<Rightarrow> R j ! loc_ordinal l)"

definition source_rows :: "(nat \<Rightarrow> row list) \<Rightarrow> row list \<Rightarrow> source \<Rightarrow> row list" where
  "source_rows R M src = (case src of Memtable \<Rightarrow> M | SegmentSource j \<Rightarrow> R j)"

lemma visible_row:
  assumes "(l, r) \<in> set (visible R M st)" "addr_ok R M st"
  shows "r = source_rows R M (loc_source l) ! loc_ordinal l" "loc_ordinal l < length (source_rows R M (loc_source l))"
    "loc_source l = SegmentSource j \<Longrightarrow> j \<in> set (map seg_id (map se_meta (ps_segments st)))"
  using assms by (auto simp: visible_def in_live in_seg_visible source_rows_def)

lemma index_row:
  assumes dur: "durable L s p R vs es" and k: "ki_get (ps_key_index (pt_state p)) k = Some l"
  defines "M \<equiv> mem_rows (ps_memtable (pt_state p))"
  shows "row_key (pk_indices (ps_schema (pt_state p))) (source_rows R M (loc_source l) ! loc_ordinal l) = k"
    "source_rows R M (loc_source l) ! loc_ordinal l \<in> set (partition_rows L (s, p))"
    "loc_ordinal l < length (source_rows R M (loc_source l))"
    "loc_source l = SegmentSource j \<Longrightarrow> j \<in> set (map seg_id (map se_meta (ps_segments (pt_state p))))"
proof -
  let ?st = "pt_state p" and ?pk = "pk_indices (ps_schema (pt_state p))"
  note inv = durableD(1) [OF dur]
  have ok: "state_ok ?pk R M ?st" using st_invD(4) [OF part_invD(5) [OF inv]] by (simp add: M_def)
  then have a: "addr_ok R M ?st" by (simp add: state_ok_def)
  have "?pk \<noteq> []" using ok k by (auto simp: state_ok_def ki_get_def)
  then have ix: "index_ok ?pk (visible R M ?st) (ps_key_index ?st)" using ok by (simp add: state_ok_def)
  then obtain r where r: "(l, r) \<in> set (visible R M ?st)" "row_key ?pk r = k"
    using k unfolding index_ok_def ki_get_def by blast
  have rows: "partition_rows L (s, p) = map snd (visible R M ?st)"
    by (simp add: partition_rows_eq [OF inv] contents_def visible_def seg_part_def mem_part_def M_def)
  note v = visible_row [OF r(1) a]
  show "row_key ?pk (source_rows R M (loc_source l) ! loc_ordinal l) = k" using r(2) v(1) by simp
  show "source_rows R M (loc_source l) ! loc_ordinal l \<in> set (partition_rows L (s, p))"
    unfolding rows using r(1) v(1) by force
  show "loc_ordinal l < length (source_rows R M (loc_source l))" by (rule v(2))
  show "loc_source l = SegmentSource j \<Longrightarrow> j \<in> set (map seg_id (map se_meta (ps_segments ?st)))" by (rule v(3))
qed

lemma source_batch_eq:
  assumes dur: "durable L s p R vs es"
    and src: "case src of Memtable \<Rightarrow> mem_rows (ps_memtable (pt_state p)) \<noteq> []
      | SegmentSource j \<Rightarrow> j \<in> set (map seg_id (map se_meta (ps_segments (pt_state p))))"
  defines "all_rows \<equiv> \<lparr>bfields = arrow_schema (ps_schema (pt_state p)),
    brows = source_rows R (mem_rows (ps_memtable (pt_state p))) src\<rparr>"
  shows "source_batch L s (ps_schema (pt_state p)) p src = Inr (Some all_rows) \<and> batch_ok all_rows"
proof -
  let ?st = "pt_state p" and ?schema = "ps_schema (pt_state p)"
  note inv = durableD(1) [OF dur]
  note I = part_invD [OF inv]
  note S = st_invD [OF I(5)]
  note names = schema_names [OF S(1)]
  note exist = column_names_exist [of ?schema]
  show ?thesis
  proof (cases src)
    case Memtable
    then have mem: "mem_rows (ps_memtable ?st) \<noteq> []" using src by simp
    obtain b where b: "mt_concat (sl_arrow L) (ps_memtable ?st) = Inr (Some b)" "batch_fits ?schema b" "brows b = mem_rows (ps_memtable ?st)"
      using mt_concat_eq [OF storage_okD(1) [OF I(1)] S(2)] mem by force
    have bo: "batch_ok b" "bfields b = arrow_schema ?schema" using b(2) by (simp_all add: batch_fits_def)
    have "covers ?schema (bfields b)" unfolding bo(2) by (rule covers_own [OF names(2)])
    note pr = project_backfill_eq [OF storage_okD(1) [OF I(1)] bo(1) this names(1) exist]
    have "map (backfill_row (bfields b) (column_names ?schema)) (brows b) = brows b"
    proof (rule map_idI)
      fix r assume "r \<in> set (brows b)"
      then have "length r = length (columns ?schema)"
        using bo by (auto simp: batch_ok_def list_all_iff arrow_schema_def dest!: row_ok_length)
      then show "backfill_row (bfields b) (column_names ?schema) r = r"
        unfolding bo(2) by (rule backfill_own [OF names(2)])
    qed
    moreover have "batch_ok all_rows" using bo b(3) Memtable by (simp add: all_rows_def source_rows_def batch_ok_def)
    ultimately show ?thesis
      using b(1,3) pr fields_of_own [OF names(2)] Memtable by (simp add: source_batch_def source_rows_def all_rows_def)
  next
    case (SegmentSource j)
    then obtain e where e: "e \<in> set (ps_segments ?st)" "seg_id (se_meta e) = j" using src by auto
    have m: "se_meta e \<in> set (map se_meta (ps_segments ?st))" using e(1) by simp
    have f: "find (\<lambda>x. seg_id (se_meta x) = j) (ps_segments ?st) = Some e"
      using find_unique [of "\<lambda>x. seg_id (se_meta x)" _ e] segs_okD(1) [OF S(3)] e by (simp add: comp_def)
    have key: "object_key (seg_key (se_meta e))"
      unfolding segs_okD(3) [OF S(3) m] by (rule plain_object [OF seg_key_object [OF I(3)]])
    obtain b :: batch where b: "read_segment (sl_arrow L) s (se_meta e) ?schema (Some (column_names ?schema)) =
        Inr \<lparr>bfields = fields_of ?schema (column_names ?schema), brows = map (backfill_row (bfields b) (column_names ?schema)) (brows b)\<rparr>"
      "R (seg_id (se_meta e)) = map (backfill_row (bfields b) (column_names ?schema)) (brows b)"
      "batch_ok b" "covers ?schema (bfields b)" "list_all (list_all value_finite) (brows b)"
      by (rule read_stored [OF I(1,2) segs_okD(2) [OF S(3) m] key names(1) subset_refl]) (rule that; assumption)
    have "batch_ok all_rows"
      using backfill_fits [OF b(3,4) S(1) b(5)] b(2) e(2) SegmentSource
      by (simp add: all_rows_def source_rows_def batch_fits_def)
    then show ?thesis
      using f b(1,2) e(2) fields_of_own [OF names(2)] SegmentSource by (simp add: source_batch_def source_rows_def all_rows_def)
  qed
qed

section \<open>Lookups\<close>

text \<open>The requests that are found, with the row of each.\<close>

definition found :: "storage_lib \<Rightarrow> table_st \<Rightarrow> row_key list \<Rightarrow> (nat \<times> row) list" where
  "found L st keys = List.map_filter (\<lambda>(request, k).
     map_option (Pair request) (find (\<lambda>r. key_of_row (snd st) r = k) (table_rows L st))) (enumerate 0 keys)"

lemma concat_map_filter: "concat (map (\<lambda>x. case f x of None \<Rightarrow> [] | Some y \<Rightarrow> [y]) xs) = List.map_filter f xs"
  by (induction xs) (simp_all add: map_filter_simps split: option.splits)

lemma locate_keys_eq:
  assumes "\<forall>k \<in> set keys. length k = length (primary_key (ts_schema t))"
  shows "locate_keys t keys = Inr (List.map_filter (\<lambda>(request, k).
    let i = target (length (ts_partitions t)) k
    in map_option (\<lambda>l. (request, i, l)) (ki_get (ps_key_index (pt_state (ts_partitions t ! i))) k)) (enumerate 0 keys))"
proof -
  let ?f = "\<lambda>(request, k). let i = target (length (ts_partitions t)) k
    in map_option (\<lambda>l. (request, i, l)) (ki_get (ps_key_index (pt_state (ts_partitions t ! i))) k)"
  have "mapM (\<lambda>(request, k).
      if length k \<noteq> length (primary_key (ts_schema t)) then Inl BadRequest
      else let i = target (length (ts_partitions t)) k in
        case ki_get (ps_key_index (pt_state (ts_partitions t ! i))) k of None \<Rightarrow> Inr [] | Some l \<Rightarrow> Inr [(request, i, l)])
      (enumerate 0 keys) = Inr (map (\<lambda>x. case ?f x of None \<Rightarrow> [] | Some y \<Rightarrow> [y]) (enumerate 0 keys))"
    using assms by (intro mapM_Inr_map) (auto simp: in_set_enumerate_eq Let_def split: option.splits)
  then show ?thesis by (simp add: locate_keys_def Let_def concat_map_filter)
qed

lemma map_filter_requests:
  "sorted_wrt (<) (map fst (List.map_filter (\<lambda>(request, k). map_option (Pair request) (g k)) (enumerate n ks))) \<and>
   (\<forall>x \<in> set (List.map_filter (\<lambda>(request, k). map_option (Pair request) (g k)) (enumerate n ks)). n \<le> fst x)"
proof (induction ks arbitrary: n)
  case (Cons k ks)
  let ?F = "\<lambda>n. List.map_filter (\<lambda>(request, k). map_option (Pair request) (g k)) (enumerate n ks)"
  have tail: "sorted_wrt (<) (map fst (?F (Suc n)))" "\<forall>x \<in> set (?F (Suc n)). Suc n \<le> fst x"
    using Cons.IH [of "Suc n"] by blast+
  then have "\<forall>x \<in> set (?F (Suc n)). n < fst x" by fastforce
  then show ?case using tail(1) by (cases "g k") (auto simp: map_filter_simps intro: less_imp_le)
qed (simp add: map_filter_simps)

text \<open>The permutation at the end of a lookup puts the rows back in request order.\<close>

lemma permute_back:
  assumes "mset (zip ro vs) = mset fs" "length ro = length vs" "sorted_wrt (<) (map fst fs)"
  shows "map (\<lambda>i. vs ! i) (map snd (sort_key fst (map (\<lambda>(position, request). (request, position)) (enumerate 0 ro)))) = map snd fs"
    "\<forall>i \<in> set (map snd (sort_key fst (map (\<lambda>(position, request). (request, position)) (enumerate 0 ro)))). i < length vs"
proof -
  let ?e = "map (\<lambda>(position, request). (request, position)) (enumerate 0 ro)" and ?f = "\<lambda>(request, position). (request, vs ! position)"
  have pairs: "map ?f ?e = zip ro vs"
    by (rule nth_equalityI) (use assms(2) in \<open>simp_all add: nth_enumerate_eq\<close>)
  have fst_f: "(\<lambda>x. fst (?f x)) = fst" by (auto simp: fun_eq_iff split: prod.splits)
  have "distinct (map fst fs)" using assms(3) strict_sorted_iff by blast
  then have "distinct (map fst (zip ro vs))"
    using assms(1) by (metis mset_eq_imp_distinct_iff mset_map)
  moreover have "sorted (map fst fs)" using assms(3) strict_sorted_iff by blast
  ultimately have "sort_key fst (zip ro vs) = fs" using assms(1) by (intro sort_key_unique) simp_all
  then have "map ?f (sort_key fst ?e) = fs"
    using sort_key_map [of fst ?f ?e] unfolding pairs fst_f by simp
  then have "map snd (map ?f (sort_key fst ?e)) = map snd fs" by simp
  then show "map (\<lambda>i. vs ! i) (map snd (sort_key fst ?e)) = map snd fs" by (simp add: comp_def case_prod_unfold)
  show "\<forall>i \<in> set (map snd (sort_key fst ?e)). i < length vs"
    using assms(2) by (auto simp: in_set_enumerate_eq)
qed

lemma concat_batches_pieces:
  assumes "arrow_ok A" "bs \<noteq> []" "\<forall>b \<in> set bs. batch_ok b \<and> bfields b = fs"
  shows "(case bs of [b] \<Rightarrow> Inr b | _ \<Rightarrow> concat_batches A (bfields (hd bs)) bs) =
    Inr \<lparr>bfields = fs, brows = concat (map brows bs)\<rparr>"
proof -
  have "bfields (hd bs) = fs" using assms(2,3) by (cases bs) simp_all
  then have "concat_batches A (bfields (hd bs)) bs = Inr \<lparr>bfields = fs, brows = concat (map brows bs)\<rparr>"
    using arrow_concat [OF assms(1,2)] assms(3) by simp
  then have many: "concat_batches A (bfields (hd bs)) bs = Inr \<lparr>bfields = fs, brows = concat (map brows bs)\<rparr>" .
  show ?thesis
  proof (cases bs rule: remdups_adj.cases)
    case (2 b)
    then show ?thesis using assms(3) by simp
  next
    case (3 b c cs)
    then show ?thesis using many by simp
  qed (use assms(2) in simp)
qed

section \<open>Keys over all partitions\<close>

lemma distinct_routed:
  assumes "\<And>i. i < n \<Longrightarrow> distinct (map g (f i))" "\<forall>i < n. \<forall>r \<in> set (f i). route (g r) = i"
  shows "distinct (map g (concat (map f [0..<n])))"
  using assms
proof (induction n)
  case (Suc n)
  have "g r \<noteq> g r'" if "i < n" "r \<in> set (f i)" "r' \<in> set (f n)" for i r r'
  proof -
    have "route (g r) = i" "route (g r') = n" using Suc.prems(2) that by simp_all
    then show ?thesis using that(1) by force
  qed
  then have "g ` set (concat (map f [0..<n])) \<inter> g ` set (f n) = {}" by fastforce
  then show ?case using Suc by (simp add: image_Un)
qed simp

lemma table_keys:
  assumes inv: "table_sound L (s, t)" and keyed: "\<not> is_append_only (ts_schema t)"
  shows "distinct (map (key_of_row t) (table_rows L (s, t)))"
proof -
  note T = table_facts [OF inv]
  have "distinct (map (key_of_row t) (part_rows L (s, t) i))" if "i < length (ts_partitions t)" for i
    using sound_keys [OF placedD(1) [OF T(2) [OF that]]] T(6) keyed placedD(6) [OF T(2) [OF that]]
    by (simp add: part_rows_def)
  then show ?thesis
    using distinct_routed [where g = "key_of_row t" and route = "target (length (ts_partitions t))" and f = "part_rows L (s, t)"]
      T(7) [OF keyed] by (simp add: table_rows_parts)
qed

lemma find_key:
  "distinct (map g xs) \<Longrightarrow> x \<in> set xs \<Longrightarrow> find (\<lambda>y. g y = g x) xs = Some x"
  by (induction xs) force+

lemma find_absent: "k \<notin> g ` set xs \<Longrightarrow> find (\<lambda>y. g y = k) xs = None"
  by (auto simp: find_None_iff)

section \<open>The lookup\<close>

text \<open>The rows behind a source of a table whose segments hold the rows \<open>R\<close>.\<close>

definition rows_of :: "(nat \<Rightarrow> nat \<Rightarrow> row list) \<Rightarrow> table_store \<Rightarrow> nat \<times> source \<Rightarrow> row list" where
  "rows_of R t = (\<lambda>(i, src). source_rows (R i) (mem_rows (ps_memtable (pt_state (ts_partitions t ! i)))) src)"

definition located_row :: "(nat \<Rightarrow> nat \<Rightarrow> row list) \<Rightarrow> table_store \<Rightarrow> located \<Rightarrow> row" where
  "located_row R t = (\<lambda>(_, i, l). rows_of R t (i, loc_source l) ! loc_ordinal l)"

lemma locate_found:
  assumes inv: "table_sound L (s, t)" and keyed: "\<not> is_append_only (ts_schema t)"
    and dur: "\<And>i. i < length (ts_partitions t) \<Longrightarrow> \<exists>vs es. durable L s (ts_partitions t ! i) (R i) vs es"
    and keys: "\<forall>k \<in> set keys. length k = length (primary_key (ts_schema t))"
  obtains Ls where "locate_keys t keys = Inr Ls"
    "map (\<lambda>x. (fst x, located_row R t x)) Ls = found L (s, t) keys"
    "\<And>q i l. (q, i, l) \<in> set Ls \<Longrightarrow> i < length (ts_partitions t) \<and>
       ki_get (ps_key_index (pt_state (ts_partitions t ! i))) (key_of_row t (located_row R t (q, i, l))) = Some l"
proof -
  let ?n = "length (ts_partitions t)"
  note T = table_facts [OF inv]
  let ?g = "\<lambda>k. ki_get (ps_key_index (pt_state (ts_partitions t ! target ?n k))) k"
  let ?loc = "\<lambda>(q, k). let i = target ?n k in map_option (\<lambda>l. (q, i, l)) (ki_get (ps_key_index (pt_state (ts_partitions t ! i))) k)"
  let ?Ls = "List.map_filter ?loc (enumerate 0 keys)"
  have hit: "located_row R t (q, target ?n k, l) \<in> set (table_rows L (s, t)) \<and> key_of_row t (located_row R t (q, target ?n k, l)) = k"
    if l: "?g k = Some l" for q k l
  proof -
    let ?i = "target ?n k"
    have i: "?i < ?n" by (rule target_bound [OF T(1)])
    obtain vs es where d: "durable L s (ts_partitions t ! ?i) (R ?i) vs es" using dur [OF i] by blast
    have S: "ps_schema (pt_state (ts_partitions t ! ?i)) = ts_schema t" by (rule placedD(6) [OF T(2) [OF i]])
    have "located_row R t (q, ?i, l) \<in> set (part_rows L (s, t) ?i)"
      using index_row(2) [OF d l] by (simp add: located_row_def rows_of_def part_rows_def)
    then have "located_row R t (q, ?i, l) \<in> set (table_rows L (s, t))" using i by (auto simp: table_rows_parts)
    then show ?thesis using index_row(1) [OF d l] by (simp add: located_row_def rows_of_def S)
  qed
  have miss: "k \<notin> key_of_row t ` set (table_rows L (s, t))" if k: "?g k = None" for k
  proof
    let ?i = "target ?n k"
    assume "k \<in> key_of_row t ` set (table_rows L (s, t))"
    then obtain i r where r: "i < ?n" "r \<in> set (part_rows L (s, t) i)" "k = key_of_row t r" by (auto simp: table_rows_parts)
    have i: "i = ?i" using T(7) [OF keyed] r by simp
    obtain vs es where d: "durable L s (ts_partitions t ! i) (R i) vs es" using dur [OF r(1)] by blast
    have "ki_contains (ps_key_index (pt_state (ts_partitions t ! i))) k"
      using index_keys [OF durableD(1) [OF d], of k] r placedD(6) [OF T(2) [OF r(1)]] T(6) keyed by (simp add: part_rows_def)
    then show False using k i by (simp add: ki_contains_def ki_get_def)
  qed
  have one: "map_option (\<lambda>x. (fst x, located_row R t x)) (?loc (q, k)) =
      map_option (Pair q) (find (\<lambda>r. key_of_row t r = k) (table_rows L (s, t)))" for q k
  proof (cases "?g k")
    case None
    then show ?thesis using find_absent [OF miss [OF None]] by (simp add: Let_def)
  next
    case (Some l)
    then show ?thesis
      using find_key [OF table_keys [OF inv keyed], of "located_row R t (q, target ?n k, l)"] hit [OF Some, of q]
      by (simp add: Let_def)
  qed
  have push: "map h (List.map_filter f xs) = List.map_filter (\<lambda>x. map_option h (f x)) xs" for h f and xs :: "(nat \<times> row_key) list"
    by (induction xs) (simp_all add: map_filter_simps split: option.splits)
  have "map (\<lambda>x. (fst x, located_row R t x)) ?Ls = found L (s, t) keys"
    unfolding push found_def using one by (intro arg_cong [where f = "\<lambda>f. List.map_filter f _"]) (auto simp: fun_eq_iff)
  moreover have "i < ?n \<and> ki_get (ps_key_index (pt_state (ts_partitions t ! i))) (key_of_row t (located_row R t (q, i, l))) = Some l"
    if "(q, i, l) \<in> set ?Ls" for q i l
    using that hit target_bound [OF T(1)] by (auto simp: set_map_filter Let_def)
  ultimately show ?thesis using locate_keys_eq [OF keys] by (intro that [of ?Ls]) simp_all
qed

lemma empty_batch_own:
  "distinct (map col_name (columns s)) \<Longrightarrow> empty_batch s (column_names s) = Inr \<lparr>bfields = arrow_schema s, brows = []\<rparr>"
proof -
  assume d: "distinct (map col_name (columns s))"
  have "mapM (\<lambda>n. rmap arrow_field (require_column s n)) (column_names s) = Inr (fields_of s (column_names s))"
    unfolding fields_of_def
    by (rule mapM_Inr_map) (use column_names_exist [of s] in \<open>auto simp: require_column_def dest!: bspec\<close>)
  then show ?thesis using fields_of_own [OF d] by (simp add: empty_batch_def)
qed

abbreviation src_of :: "located \<Rightarrow> nat \<times> source" where
  "src_of \<equiv> \<lambda>(_, i, l). (i, loc_source l)"

definition wanted_of :: "located list \<Rightarrow> nat \<times> source \<Rightarrow> (nat \<times> nat) list" where
  "wanted_of Ls src = sort_key snd (map (\<lambda>(request, _, l). (request, loc_ordinal l)) (filter (\<lambda>x. src_of x = src) Ls))"

definition piece_of :: "(nat \<Rightarrow> nat \<Rightarrow> row list) \<Rightarrow> table_store \<Rightarrow> located list \<Rightarrow> nat \<times> source \<Rightarrow> nat list \<times> batch" where
  "piece_of R t Ls src =
     (map fst (wanted_of Ls src),
      \<lparr>bfields = arrow_schema (ts_schema t), brows = map ((!) (rows_of R t src)) (map snd (wanted_of Ls src))\<rparr>)"

lemma mapM_map: "mapM f (map g xs) = mapM (\<lambda>x. f (g x)) xs"
  by (induction xs) simp_all

lemma fetch_pieces:
  assumes inv: "table_sound L (s, t)"
    and dur: "\<And>i. i < length (ts_partitions t) \<Longrightarrow> \<exists>vs es. durable L s (ts_partitions t ! i) (R i) vs es"
    and Ls: "\<And>q i l. (q, i, l) \<in> set Ls \<Longrightarrow> i < length (ts_partitions t) \<and>
      (\<exists>k. ki_get (ps_key_index (pt_state (ts_partitions t ! i))) k = Some l)"
  shows "mapM (fetch_group L (ts_schema t) (s, t)) (by_source Ls) =
    Inr (map (\<lambda>src. [piece_of R t Ls src]) (remdups (map src_of Ls)))"
    "\<forall>src \<in> set (map src_of Ls). batch_ok (snd (piece_of R t Ls src))"
proof -
  note T = table_facts [OF inv]
  have addr: "loc_ordinal l < length (rows_of R t (i, loc_source l)) \<and>
      source_batch L s (ts_schema t) (ts_partitions t ! i) (loc_source l) =
        Inr (Some \<lparr>bfields = arrow_schema (ts_schema t), brows = rows_of R t (i, loc_source l)\<rparr>) \<and>
      batch_ok \<lparr>bfields = arrow_schema (ts_schema t), brows = rows_of R t (i, loc_source l)\<rparr>"
    if x: "(q, i, l) \<in> set Ls" for q i l
  proof -
    obtain k where i: "i < length (ts_partitions t)" and k: "ki_get (ps_key_index (pt_state (ts_partitions t ! i))) k = Some l"
      using Ls [OF x] by blast
    obtain vs es where d: "durable L s (ts_partitions t ! i) (R i) vs es" using dur [OF i] by blast
    note ix = index_row(3,4) [OF d k]
    have "case loc_source l of Memtable \<Rightarrow> mem_rows (ps_memtable (pt_state (ts_partitions t ! i))) \<noteq> []
        | SegmentSource j \<Rightarrow> j \<in> set (map seg_id (map se_meta (ps_segments (pt_state (ts_partitions t ! i)))))"
      using ix by (auto simp: source_rows_def split: source.splits)
    from source_batch_eq [OF d this] ix(1) show ?thesis
      by (simp add: rows_of_def placedD(6) [OF T(2) [OF i]])
  qed
  have member: "\<exists>l. loc_source l = snd src \<and> (q, fst src, l) \<in> set Ls \<and> loc_ordinal l = n"
    if "(q, n) \<in> set (wanted_of Ls src)" for q n src
    using that by (auto simp: wanted_of_def)
  have in_range: "n < length (rows_of R t src)" if "(q, n) \<in> set (wanted_of Ls src)" for q n src
    using member [OF that] addr by (cases src) fastforce
  have some: "source_batch L s (ts_schema t) (ts_partitions t ! fst src) (snd src) =
        Inr (Some \<lparr>bfields = arrow_schema (ts_schema t), brows = rows_of R t src\<rparr>) \<and>
      batch_ok \<lparr>bfields = arrow_schema (ts_schema t), brows = rows_of R t src\<rparr>"
    if "src \<in> set (map src_of Ls)" for src
  proof -
    obtain x where "x \<in> set Ls" "src = src_of x" using \<open>src \<in> set (map src_of Ls)\<close> by (auto simp only: set_map)
    then obtain q i l where "(q, i, l) \<in> set Ls" "src = (i, loc_source l)" by (cases x rule: prod_cases3) auto
    then show ?thesis using addr by simp
  qed
  have A: "arrow_ok (sl_arrow L)" by (rule storage_okD(1) [OF T(3)])
  have "fetch_group L (ts_schema t) (s, t) (src, map (\<lambda>(request, _, l). (request, loc_ordinal l)) (filter (\<lambda>x. src_of x = src) Ls)) =
      Inr [piece_of R t Ls src]" if src: "src \<in> set (map src_of Ls)" for src
  proof -
    obtain i c where ic: "src = (i, c)" by (cases src)
    note sm = some [OF src, unfolded ic fst_conv snd_conv]
    have "take_rows (sl_arrow L) \<lparr>bfields = arrow_schema (ts_schema t), brows = rows_of R t (i, c)\<rparr> (map snd (wanted_of Ls (i, c))) =
        Inr (snd (piece_of R t Ls (i, c)))"
      unfolding take_rows_def
      by (subst arrow_take [OF A conjunct2 [OF sm]])
        (use in_range in \<open>force simp: num_rows_def piece_of_def\<close>)+
    then show ?thesis using sm by (simp add: fetch_group_def ic wanted_of_def [symmetric] piece_of_def Let_def)
  qed
  then have "mapM (fetch_group L (ts_schema t) (s, t)) (map (\<lambda>src. (src, map (\<lambda>(request, _, l). (request, loc_ordinal l))
        (filter (\<lambda>x. src_of x = src) Ls))) (remdups (map src_of Ls))) =
      Inr (map (\<lambda>src. [piece_of R t Ls src]) (remdups (map src_of Ls)))"
    unfolding mapM_map by (intro mapM_Inr_map) simp
  then show "mapM (fetch_group L (ts_schema t) (s, t)) (by_source Ls) =
      Inr (map (\<lambda>src. [piece_of R t Ls src]) (remdups (map src_of Ls)))"
    by (simp add: by_source_def case_prod_unfold)
  have pick: "batch_ok b \<Longrightarrow> (\<And>j. j \<in> set js \<Longrightarrow> j < length (brows b)) \<Longrightarrow> batch_ok (b\<lparr>brows := map ((!) (brows b)) js\<rparr>)" for b :: batch and js
    by (auto simp: batch_ok_def list_all_iff)
  show "\<forall>src \<in> set (map src_of Ls). batch_ok (snd (piece_of R t Ls src))"
  proof
    fix src assume src: "src \<in> set (map src_of Ls)"
    have "j < length (rows_of R t src)" if j: "j \<in> set (map snd (wanted_of Ls src))" for j
    proof -
      obtain q where "(q, j) \<in> set (wanted_of Ls src)" using j by force
      then show ?thesis by (rule in_range)
    qed
    then show "batch_ok (snd (piece_of R t Ls src))"
      using pick [OF conjunct2 [OF some [OF src]], of "map snd (wanted_of Ls src)"] by (simp add: piece_of_def)
  qed
qed

lemma zip_concat_map:
  "(\<And>x. x \<in> set xs \<Longrightarrow> length (f x) = length (g x)) \<Longrightarrow>
   zip (concat (map f xs)) (concat (map g xs)) = concat (map (\<lambda>x. zip (f x) (g x)) xs)"
  by (induction xs) simp_all

lemma length_concat_map:
  "(\<And>x. x \<in> set xs \<Longrightarrow> length (f x) = length (g x)) \<Longrightarrow> length (concat (map f xs)) = length (concat (map g xs))"
  by (induction xs) simp_all

lemma mset_concat_map_cong:
  "(\<And>x. x \<in> set xs \<Longrightarrow> mset (f x) = mset (g x)) \<Longrightarrow> mset (concat (map f xs)) = mset (concat (map g xs))"
  by (induction xs) simp_all

lemma pieces_rows:
  defines "srcs Ls \<equiv> remdups (map src_of Ls)"
  shows "mset (zip (concat (map (\<lambda>src. fst (piece_of R t Ls src)) (srcs Ls)))
           (concat (map (\<lambda>src. brows (snd (piece_of R t Ls src))) (srcs Ls)))) =
    mset (map (\<lambda>x. (fst x, located_row R t x)) Ls)"
proof -
  let ?F = "\<lambda>x. (fst x, located_row R t x)"
  have "zip (concat (map (\<lambda>src. fst (piece_of R t Ls src)) (srcs Ls))) (concat (map (\<lambda>src. brows (snd (piece_of R t Ls src))) (srcs Ls))) =
      concat (map (\<lambda>src. map (\<lambda>(q, n). (q, rows_of R t src ! n)) (wanted_of Ls src)) (srcs Ls))"
    by (subst zip_concat_map) (simp_all add: piece_of_def zip_map_map zip_same_conv_map comp_def case_prod_unfold)
  also have "mset \<dots> = mset (concat (map (\<lambda>src. map ?F (filter (\<lambda>x. src_of x = src) Ls)) (srcs Ls)))"
  proof (rule mset_concat_map_cong)
    fix src
    have "mset (map (\<lambda>(q, n). (q, rows_of R t src ! n)) (wanted_of Ls src)) =
        mset (map (\<lambda>(q, n). (q, rows_of R t src ! n)) (map (\<lambda>(q, _, l). (q, loc_ordinal l)) (filter (\<lambda>x. src_of x = src) Ls)))"
      by (simp only: wanted_of_def mset_map mset_sort)
    also have "map (\<lambda>(q, n). (q, rows_of R t src ! n)) (map (\<lambda>(q, _, l). (q, loc_ordinal l)) (filter (\<lambda>x. src_of x = src) Ls)) =
        map ?F (filter (\<lambda>x. src_of x = src) Ls)"
      by (auto simp: located_row_def)
    finally show "mset (map (\<lambda>(q, n). (q, rows_of R t src ! n)) (wanted_of Ls src)) = mset (map ?F (filter (\<lambda>x. src_of x = src) Ls))" .
  qed
  also have "\<dots> = image_mset ?F (mset (concat (map (\<lambda>src. filter (\<lambda>x. src_of x = src) Ls) (srcs Ls))))"
    by (simp add: mset_map [symmetric] map_concat comp_def del: mset_map)
  also have "mset (concat (map (\<lambda>src. filter (\<lambda>x. src_of x = src) Ls) (srcs Ls))) = mset Ls"
    by (rule mset_group) (simp_all add: srcs_def)
  finally show ?thesis by simp
qed

lemma table_get_eq:
  assumes inv: "table_sound L (s, t)" and keyed: "\<not> is_append_only (ts_schema t)"
    and keys: "\<forall>k \<in> set keys. length k = length (primary_key (ts_schema t))"
  shows "table_get L keys (s, t) = Inr \<lparr>bfields = arrow_schema (ts_schema t), brows = map snd (found L (s, t) keys)\<rparr>"
proof -
  note T = table_facts [OF inv]
  let ?n = "length (ts_partitions t)"
  have "\<exists>R. \<forall>i < ?n. \<exists>vs es. durable L s (ts_partitions t ! i) (R i) vs es"
  proof -
    have "\<forall>i. \<exists>R. i < ?n \<longrightarrow> (\<exists>vs es. durable L s (ts_partitions t ! i) R vs es)"
      using placedD(1) [OF T(2)] by (auto simp: sound_def)
    then show ?thesis by metis
  qed
  then obtain R where dur: "\<And>i. i < ?n \<Longrightarrow> \<exists>vs es. durable L s (ts_partitions t ! i) (R i) vs es" by blast
  obtain Ls where Ls: "locate_keys t keys = Inr Ls" "map (\<lambda>x. (fst x, located_row R t x)) Ls = found L (s, t) keys"
    "\<And>q i l. (q, i, l) \<in> set Ls \<Longrightarrow> i < ?n \<and>
       ki_get (ps_key_index (pt_state (ts_partitions t ! i))) (key_of_row t (located_row R t (q, i, l))) = Some l"
    by (rule locate_found [where R = R, OF inv keyed dur keys]) (assumption | (rule that; assumption))+
  have get: "table_get L keys (s, t) = fetch_located L (ts_schema t) (s, t) Ls"
    using keyed Ls(1) by (simp add: table_get_def)
  show ?thesis
  proof (cases "Ls = []")
    case True
    then have "found L (s, t) keys = []" using Ls(2) by simp
    then show ?thesis
      using get True empty_batch_own [OF schema_names(2) [OF T(5)]] by (simp add: fetch_located_def)
  next
    case False
    let ?srcs = "remdups (map src_of Ls)" and ?piece = "piece_of R t Ls"
    let ?ro = "concat (map (\<lambda>src. fst (?piece src)) ?srcs)" and ?vs = "concat (map (\<lambda>src. brows (snd (?piece src))) ?srcs)"
    let ?all = "\<lparr>bfields = arrow_schema (ts_schema t), brows = ?vs\<rparr>"
    have pieces: "mapM (fetch_group L (ts_schema t) (s, t)) (by_source Ls) = Inr (map (\<lambda>src. [?piece src]) ?srcs)"
      and ok: "\<forall>src \<in> set (map src_of Ls). batch_ok (snd (?piece src))"
      using fetch_pieces [OF inv dur, of Ls] Ls(3) by blast+
    have ne: "map ?piece ?srcs \<noteq> []" using False by simp
    have singles: "concat (map (\<lambda>src. [?piece src]) ?srcs) = map ?piece ?srcs" by (induction "?srcs") simp_all
    have A: "arrow_ok (sl_arrow L)" by (rule storage_okD(1) [OF T(3)])
    have "(case map snd (map ?piece ?srcs) of [b] \<Rightarrow> Inr b
        | _ \<Rightarrow> concat_batches (sl_arrow L) (bfields (hd (map snd (map ?piece ?srcs)))) (map snd (map ?piece ?srcs))) = Inr ?all"
      using concat_batches_pieces [OF A, of "map snd (map ?piece ?srcs)" "arrow_schema (ts_schema t)"] ne ok
      by (simp add: piece_of_def comp_def)
    moreover have "(case ps of [(_, b)] \<Rightarrow> Inr b | _ \<Rightarrow> concat_batches (sl_arrow L) (bfields (snd (hd ps))) (map snd ps)) =
        (case map snd ps of [b] \<Rightarrow> Inr b | _ \<Rightarrow> concat_batches (sl_arrow L) (bfields (hd (map snd ps))) (map snd ps))"
      if "ps \<noteq> []" for ps :: "(nat list \<times> batch) list"
      using that by (cases ps rule: remdups_adj.cases) auto
    ultimately have combined: "(case map ?piece ?srcs of [(_, b)] \<Rightarrow> Inr b
        | _ \<Rightarrow> concat_batches (sl_arrow L) (bfields (snd (hd (map ?piece ?srcs)))) (map snd (map ?piece ?srcs))) = Inr ?all"
      using ne by metis
    have ms: "mset (zip ?ro ?vs) = mset (found L (s, t) keys)" using pieces_rows [of R t Ls] Ls(2) by simp
    have len: "length ?ro = length ?vs" by (rule length_concat_map) (simp add: piece_of_def)
    have srt: "sorted_wrt (<) (map fst (found L (s, t) keys))"
      using map_filter_requests [of "\<lambda>k. find (\<lambda>r. key_of_row t r = k) (table_rows L (s, t))" 0 keys] by (simp add: found_def)
    note perm = permute_back [OF ms len srt]
    have "batch_ok (snd (?piece (src_of (hd Ls))))" using ok False by (cases Ls) simp_all
    then have all_ok: "batch_ok ?all" using ok by (auto simp: batch_ok_def list_all_iff piece_of_def)
    let ?perm = "map snd (sort_key fst (map (\<lambda>(position, request). (request, position)) (enumerate 0 ?ro)))"
    have "take_rows (sl_arrow L) ?all ?perm = Inr (?all\<lparr>brows := map ((!) ?vs) ?perm\<rparr>)"
      unfolding take_rows_def using arrow_take [OF A all_ok, of ?perm] perm(2) by (simp add: num_rows_def)
    then have taken: "take_rows (sl_arrow L) ?all ?perm =
        Inr \<lparr>bfields = arrow_schema (ts_schema t), brows = map snd (found L (s, t) keys)\<rparr>"
      using perm(1) by simp
    have ro: "concat (map fst (map ?piece ?srcs)) = ?ro" by (simp add: comp_def)
    show ?thesis
      unfolding get fetch_located_def Let_def pieces rmap.simps rbind.simps singles if_not_P [OF False] if_not_P [OF ne] combined ro taken ..
  qed
qed

end
