(* ===== verification/TableOps.thy ===== *)
theory TableOps
  imports TableGet
begin

text \<open>
  Deletes and maintenance of a table. The partitions own disjoint objects, so what is shown of one
  partition carries over to the table.
\<close>

section \<open>Deletes\<close>

definition delete_plan :: "row_key list \<Rightarrow> table_store \<Rightarrow> (nat \<times> row_key list) list" where
  "delete_plan keys t = filter (\<lambda>(i, g). g \<noteq> []) (enumerate 0 (key_groups (length (ts_partitions t)) keys))"

definition delete_steps :: "storage_lib \<Rightarrow> row_key list \<Rightarrow> table_store \<Rightarrow> step list" where
  "delete_steps L keys t =
     map (\<lambda>(i, g). (i, delete_keys L g, \<lambda>V. spec_delete (pk_indices (ts_schema t)) V g)) (delete_plan keys t)"

lemma delete_plan_in:
  assumes "(i, g) \<in> set (delete_plan keys t)"
  shows "i < length (ts_partitions t)" "g = filter (\<lambda>k. target (length (ts_partitions t)) k = i) keys" "g \<noteq> []"
  using assms by (auto simp: delete_plan_def in_set_enumerate_eq key_groups_def)

lemma distinct_enumerate_fst: "distinct (map fst (filter P (enumerate n xs)))"
  by (rule distinct_map_filter) simp

lemma delete_steps_ok:
  assumes inv: "table_sound L (s, t)"
    and small: "\<forall>(i, g) \<in> set (delete_plan keys t).
      loggable (sl_wal L) (s, pt_log (ts_partitions t ! i)) (MDelete (present_keys (ts_partitions t ! i) g))"
  shows "steps_ok L (delete_steps L keys t) t"
proof -
  note T = table_facts [OF inv]
  have "i < length (ts_partitions t) \<and> (\<forall>s. sound L (s, ts_partitions t ! i) \<longrightarrow>
      step_ok L (delete_keys L g) (\<lambda>V. spec_delete (pk_indices (ts_schema t)) V g) (s, ts_partitions t ! i))"
    if x: "(i, g) \<in> set (delete_plan keys t)" for i g
  proof (intro conjI allI impI)
    show i: "i < length (ts_partitions t)" by (rule delete_plan_in(1) [OF x])
    fix s' assume "sound L (s', ts_partitions t ! i)"
    from delete_step [OF this, of g] show "step_ok L (delete_keys L g) (\<lambda>V. spec_delete (pk_indices (ts_schema t)) V g) (s', ts_partitions t ! i)"
      using bspec [OF small x] placedD(6) [OF T(2) [OF i]] by (simp add: loggable_def)
  qed
  moreover have "distinct (map fst (delete_steps L keys t))"
    using distinct_enumerate_fst by (simp add: delete_steps_def delete_plan_def comp_def case_prod_unfold)
  ultimately show ?thesis by (auto simp: steps_ok_def delete_steps_def spec_delete_def split: if_splits)
qed

text \<open>The keys of the partitions a run reached.\<close>

definition reached :: "step list \<Rightarrow> row_key list \<Rightarrow> table_store \<Rightarrow> row_key list" where
  "reached dn keys t = filter (\<lambda>k. target (length (ts_partitions t)) k \<in> set (map fst dn)) keys"

lemma reached_all: "0 < length (ts_partitions t) \<Longrightarrow> reached (delete_steps L keys t) keys t = keys"
proof -
  assume n: "0 < length (ts_partitions t)"
  have "target (length (ts_partitions t)) k \<in> fst ` set (delete_plan keys t)" if k: "k \<in> set keys" for k
  proof -
    let ?i = "target (length (ts_partitions t)) k"
    have "(?i, filter (\<lambda>k'. target (length (ts_partitions t)) k' = ?i) keys) \<in> set (delete_plan keys t)"
      using k target_bound [OF n, of k] by (auto simp: delete_plan_def in_set_enumerate_eq key_groups_def filter_empty_conv)
    then show ?thesis by force
  qed
  then show ?thesis by (simp add: reached_def delete_steps_def comp_def case_prod_unfold)
qed

lemma delete_total:
  assumes inv: "table_sound L (s, t)" and keyed: "\<not> is_append_only (ts_schema t)"
    and dn: "prefix dn (delete_steps L keys t)"
    and new: "\<And>i. i < length (ts_partitions t) \<Longrightarrow> mset (g i) = mset (effect_of dn i (part_rows L (s, t) i))"
  shows "mset (concat (map g [0..<length (ts_partitions t)])) =
    mset (spec_delete (pk_indices (ts_schema t)) (table_rows L (s, t)) (reached dn keys t))"
proof -
  let ?n = "length (ts_partitions t)" and ?pk = "pk_indices (ts_schema t)" and ?gone = "set (reached dn keys t)"
  note T = table_facts [OF inv]
  have pk: "?pk \<noteq> []" using T(6) keyed by simp
  have in_plan: "\<exists>g. (i, f, E) = (i, delete_keys L g, \<lambda>V. spec_delete ?pk V g) \<and> (i, g) \<in> set (delete_plan keys t)"
    if "(i, f, E) \<in> set dn" for i f E
    using set_mono_prefix [OF dn] that by (auto simp: delete_steps_def)
  have dd: "distinct (map fst dn)"
  proof -
    have "distinct (map fst (delete_steps L keys t))"
      using distinct_enumerate_fst by (simp add: delete_steps_def delete_plan_def comp_def case_prod_unfold)
    then show ?thesis using dn by (auto simp: prefix_def)
  qed
  have eff: "effect_of dn i V = filter (\<lambda>r. row_key ?pk r \<notin> ?gone) V"
    if V: "\<forall>r \<in> set V. target ?n (row_key ?pk r) = i" for i V
  proof (cases "map_of dn i")
    case None
    then have "i \<notin> set (map fst dn)" using map_of_eq_None_iff [of dn i] by simp
    then have "filter (\<lambda>r. row_key ?pk r \<notin> ?gone) V = V" using V by (auto simp: reached_def filter_id_conv)
    then show ?thesis using None by (simp add: effect_of_def)
  next
    case (Some fE)
    obtain f E where fE: "fE = (f, E)" by (cases fE)
    have mem: "(i, f, E) \<in> set dn" using Some fE by (simp add: map_of_SomeD)
    obtain h where h: "E = (\<lambda>V. spec_delete ?pk V h)" "(i, h) \<in> set (delete_plan keys t)" using in_plan [OF mem] by blast
    have "i \<in> set (map fst dn)" using mem by force
    then have "row_key ?pk r \<in> set h \<longleftrightarrow> row_key ?pk r \<in> ?gone" if "r \<in> set V" for r
      using delete_plan_in(2) [OF h(2)] V that by (auto simp: reached_def)
    then have "filter (\<lambda>r. row_key ?pk r \<notin> set h) V = filter (\<lambda>r. row_key ?pk r \<notin> ?gone) V" by (intro filter_cong) auto
    then show ?thesis using Some fE h(1) pk by (simp add: effect_of_def spec_delete_def)
  qed
  have "mset (concat (map g [0..<?n])) = mset (concat (map (\<lambda>i. filter (\<lambda>r. row_key ?pk r \<notin> ?gone) (part_rows L (s, t) i)) [0..<?n]))"
  proof (rule mset_concat_cong)
    fix i assume i: "i < ?n"
    have "\<forall>r \<in> set (part_rows L (s, t) i). target ?n (row_key ?pk r) = i" using T(7) [OF keyed] i by blast
    from new [OF i] eff [OF this] show "mset (g i) = mset (filter (\<lambda>r. row_key ?pk r \<notin> ?gone) (part_rows L (s, t) i))" by simp
  qed
  then show ?thesis using pk by (simp add: spec_delete_def table_rows_parts filter_concat comp_def)
qed

lemma delete_step_count:
  assumes inv: "table_sound L (s, t)" and keyed: "\<not> is_append_only (ts_schema t)" and x: "(i, g) \<in> set (delete_plan keys t)"
    and small: "loggable (sl_wal L) (s, pt_log (ts_partitions t ! i)) (MDelete (present_keys (ts_partitions t ! i) g))"
  shows "step_count L (s, t) (i, delete_keys L g, E) n \<Longrightarrow>
      n = length (filter (\<lambda>k. k \<in> key_of_row t ` set (part_rows L (s, t) i)) g)"
    "step_error L (s, t) e (i, delete_keys L g, E) \<Longrightarrow> e = BadRequest"
proof -
  note T = table_facts [OF inv]
  let ?p = "ts_partitions t ! i"
  have i: "i < length (ts_partitions t)" by (rule delete_plan_in(1) [OF x])
  have S: "ps_schema (pt_state ?p) = ts_schema t" by (rule placedD(6) [OF T(2) [OF i]])
  have one: "fst (delete_keys L g (s', ?p)) = Inl BadRequest \<or>
      fst (delete_keys L g (s', ?p)) = Inr (length (filter (\<lambda>k. k \<in> key_of_row t ` set (part_rows L (s, t) i)) g))"
    if snd_p: "sound L (s', ?p)" and rows: "partition_rows L (s', ?p) = part_rows L (s, t) i" for s'
  proof -
    obtain R vs es where dur: "durable L s' ?p R vs es" using soundE [OF snd_p] by blast
    have P: "present_keys ?p g = filter (\<lambda>k. k \<in> key_of_row t ` set (part_rows L (s, t) i)) g"
      unfolding present_keys_def using index_keys [OF durableD(1) [OF dur]] S rows T(6) keyed by (intro filter_cong) simp_all
    moreover have "loggable (sl_wal L) (s', pt_log ?p) (MDelete (present_keys ?p g))" using small by (simp add: loggable_def)
    ultimately show ?thesis
      using P by (cases rule: delete_ok [OF dur, of g]) auto
  qed
  show "step_count L (s, t) (i, delete_keys L g, E) n \<Longrightarrow>
      n = length (filter (\<lambda>k. k \<in> key_of_row t ` set (part_rows L (s, t) i)) g)"
    using one by (force simp: step_count_def Let_def)
  show "step_error L (s, t) e (i, delete_keys L g, E) \<Longrightarrow> e = BadRequest"
    using one by (force simp: step_error_def Let_def)
qed

text \<open>The keys, partition by partition, are the keys.\<close>

lemma routed_count:
  assumes "0 < n" and P: "\<And>k i. target n k = i \<Longrightarrow> P i k = Q k"
  shows "sum_list (map (\<lambda>(i, g). length (filter (P i) g)) (filter (\<lambda>(i, g). g \<noteq> []) (enumerate 0 (key_groups n keys)))) =
    length (filter Q keys)"
proof -
  have drop: "sum_list (map (\<lambda>(i, g). length (filter (P i) g)) (filter (\<lambda>(i, g). g \<noteq> []) xs)) =
      sum_list (map (\<lambda>(i, g). length (filter (P i) g)) xs)" for xs :: "(nat \<times> row_key list) list"
    by (induction xs) auto
  have "enumerate 0 (key_groups n keys) = map (\<lambda>i. (i, filter (\<lambda>k. target n k = i) keys)) [0..<n]"
    by (rule nth_equalityI) (simp_all add: key_groups_def nth_enumerate_eq)
  then have "sum_list (map (\<lambda>(i, g). length (filter (P i) g)) (enumerate 0 (key_groups n keys))) =
      sum_list (map (\<lambda>i. length (filter (P i) (filter (\<lambda>k. target n k = i) keys))) [0..<n])"
    by (simp add: comp_def)
  also have "\<dots> = length (concat (map (\<lambda>i. filter (\<lambda>k. target n k = i) (filter Q keys)) [0..<n]))"
    using P by (auto simp: length_concat comp_def intro!: arg_cong [where f = sum_list] arg_cong [where f = length] filter_cong)
  also have "\<dots> = size (mset (concat (map (\<lambda>i. filter (\<lambda>k. target n k = i) (filter Q keys)) [0..<n])))" by simp
  also have "\<dots> = size (mset (filter Q keys))"
  proof -
    have "mset (concat (map (\<lambda>i. filter (\<lambda>k. target n k = i) W) [0..<n])) = mset W" for W
      using mset_group [where ks = "[0..<n]" and key = "target n" and xs = W] target_bound [OF assms(1)] by (simp add: image_subset_iff)
    then show ?thesis by (simp only:)
  qed
  finally show ?thesis unfolding drop by (simp only: size_mset)
qed

lemma key_in_part:
  assumes inv: "table_sound L (s, t)" and keyed: "\<not> is_append_only (ts_schema t)" and i: "target (length (ts_partitions t)) k = i"
  shows "k \<in> key_of_row t ` set (part_rows L (s, t) i) \<longleftrightarrow> k \<in> key_of_row t ` set (table_rows L (s, t))"
proof
  note T = table_facts [OF inv]
  show "k \<in> key_of_row t ` set (table_rows L (s, t))" if "k \<in> key_of_row t ` set (part_rows L (s, t) i)"
    using that target_bound [OF T(1), of k] i
    by (auto simp: table_rows_parts intro!: imageI bexI [of _ "target (length (ts_partitions t)) k"])
  assume "k \<in> key_of_row t ` set (table_rows L (s, t))"
  then obtain j r where r: "j < length (ts_partitions t)" "r \<in> set (part_rows L (s, t) j)" "k = key_of_row t r"
    by (auto simp: table_rows_parts)
  then have "j = i" using T(7) [OF keyed] i by simp
  then show "k \<in> key_of_row t ` set (part_rows L (s, t) i)" using r by blast
qed

lemma found_rows:
  assumes inv: "table_sound L (s, t)" and keyed: "\<not> is_append_only (ts_schema t)"
  shows "map snd (found L (s, t) keys) = concat (map (\<lambda>k. filter (\<lambda>r. key_of_row t r = k) (table_rows L (s, t))) keys)"
proof -
  have one: "filter (\<lambda>r. g r = k) xs = (case find (\<lambda>r. g r = k) xs of None \<Rightarrow> [] | Some r \<Rightarrow> [r])"
    if "distinct (map g xs)" for g k and xs :: "row list"
    using that
  proof (induction xs)
    case (Cons x xs)
    show ?case
    proof (cases "g x = k")
      case True
      then have "filter (\<lambda>r. g r = k) xs = []" using Cons.prems by (metis (mono_tags, lifting) distinct.simps(2) filter_empty_conv image_eqI list.simps(9) set_map)
      then show ?thesis using True by simp
    qed (use Cons in simp)
  qed simp
  have "map snd (List.map_filter (\<lambda>(q, k). map_option (Pair q) (find (\<lambda>r. key_of_row t r = k) V)) (enumerate n keys)) =
      concat (map (\<lambda>k. case find (\<lambda>r. key_of_row t r = k) V of None \<Rightarrow> [] | Some r \<Rightarrow> [r]) keys)" for V n
    by (induction keys arbitrary: n) (simp_all add: map_filter_simps split: option.splits)
  then show ?thesis by (simp add: found_def one [OF table_keys [OF inv keyed]])
qed

section \<open>Maintenance\<close>

text \<open>An operation that always succeeds on a sound partition and keeps its rows, run on every partition.\<close>

lemma maintain_all:
  assumes inv: "table_sound L (s, t)"
    and step: "\<And>s p. sound L (s, p) \<Longrightarrow> step_ok L f (\<lambda>V. V) (s, p) \<and> is_ok (fst (f (s, p)))"
  obtains n s' t' where "run_steps (map (\<lambda>i. (i, f)) (all_partitions t)) 0 (s, t) = (Inr n, (s', t'))"
    "table_sound L (s', t')" "same_shape t t'" "mset (table_rows L (s', t')) = mset (table_rows L (s, t))"
proof -
  let ?steps = "map (\<lambda>i. (i, f, \<lambda>V. V)) (all_partitions t) :: step list"
  have ok: "steps_ok L ?steps t"
    using step by (auto simp: steps_ok_def all_partitions_def comp_def)
  obtain r s' t' dn where run: "run_steps (map (\<lambda>(i, f, E). (i, f)) ?steps) 0 (s, t) = (r, (s', t'))"
    "table_sound L (s', t')" "same_shape t t'" "prefix dn ?steps" "is_ok r \<longleftrightarrow> dn = ?steps"
    "\<And>i. i < length (ts_partitions t) \<Longrightarrow> mset (part_rows L (s', t') i) = mset (effect_of dn i (part_rows L (s, t) i))"
    "\<And>m. r = Inr m \<Longrightarrow> \<exists>ns. m = 0 + sum_list ns \<and> list_all2 (step_count L (s, t)) ?steps ns"
    "\<And>e. r = Inl e \<Longrightarrow> \<exists>x \<in> set ?steps. step_error L (s, t) e x"
    by (rule run_steps_ok [OF inv ok, of 0]) (rule that; assumption)
  have "\<not> step_error L (s, t) e x" if "x \<in> set ?steps" for e x
    using that step by (fastforce simp: step_error_def Let_def)
  then have "is_ok r" using run(8) by (cases r) auto
  then obtain n where n: "r = Inr n" by (cases r) auto
  have "E = (\<lambda>V. V)" if "map_of dn i = Some (g, E)" for i g E
    using set_mono_prefix [OF run(4)] map_of_SomeD [OF that] by auto
  then have eff: "effect_of dn i V = V" for i V by (auto simp: effect_of_def split: option.splits)
  have "mset (table_rows L (s', t')) = mset (table_rows L (s, t))"
    using run(3,6) eff by (simp only: table_rows_parts same_shape_def snd_conv) (intro mset_concat_cong, simp)
  then show ?thesis by (intro that [OF _ run(2,3)]) (use run(1) n in \<open>simp_all add: comp_def\<close>)
qed

lemma flush_maintains: "sound L (s, p) \<Longrightarrow> is_ok (fst (count_some (flush_locked L (s, p))))"
proof -
  assume "sound L (s, p)"
  then obtain R vs es where dur: "durable L s p R vs es" using soundE by blast
  show ?thesis by (rule flush_ok [OF dur]) (simp add: count_some_def)
qed

lemma compact_maintains: "sound L (s, p) \<Longrightarrow> is_ok (fst (count_some (compact L (s, p))))"
proof -
  assume "sound L (s, p)"
  then obtain R vs es where dur: "durable L s p R vs es" using soundE by blast
  show ?thesis
  proof (cases "select (facts_of (pt_state p)) (cfg_compaction (pt_config p)) = []")
    case False
    show ?thesis
      by (rule compact_durable [OF dur auto_compact_ids [OF durableD(1) [OF dur], of "cfg_compaction (pt_config p)"]])
        (use False in \<open>simp add: count_some_def compact_def\<close>)
  qed (simp add: count_some_def compact_def)
qed

lemma table_flush_ok:
  assumes "table_sound L (s, t)"
  obtains n s' t' where "table_flush L (s, t) = (Inr n, (s', t'))" "table_sound L (s', t')" "same_shape t t'"
    "mset (table_rows L (s', t')) = mset (table_rows L (s, t))"
  by (rule maintain_all [OF assms, of "\<lambda>ps. count_some (flush_locked L ps)"])
    (use flush_step flush_maintains in \<open>auto simp: table_flush_def\<close>)

lemma table_compact_ok:
  assumes "table_sound L (s, t)"
  obtains n s' t' where "table_compact L (s, t) = (Inr n, (s', t'))" "table_sound L (s', t')" "same_shape t t'"
    "mset (table_rows L (s', t')) = mset (table_rows L (s, t))"
  by (rule maintain_all [OF assms, of "\<lambda>ps. count_some (compact L ps)"])
    (use compact_step compact_maintains in \<open>auto simp: table_compact_def\<close>)

end
