(* ===== verification/TableDisk.thy ===== *)
theory TableDisk
  imports TableOps
begin

text \<open>
  Opening a table from what is on disk: partitions whose files are intact, an empty directory, or a
  sound table that was open before.
\<close>

section \<open>Partitions on disk\<close>

text \<open>What is on disk for a partition: the rows that opening it will give.\<close>

definition on_disk :: "storage_lib \<Rightarrow> fs_store \<Rightarrow> partition \<Rightarrow> row list \<Rightarrow> bool" where
  "on_disk L s p V \<longleftrightarrow> (\<exists>R a n vs es. disk_ok L s p R a n vs es \<and> V = disk_rows L (ps_schema (pt_state p)) R a vs es)"

lemma on_disk_frame: "on_disk L s q V \<Longrightarrow> store_ok s' \<Longrightarrow> others_same K s s' \<Longrightarrow> own_keys q \<inter> K = {} \<Longrightarrow> on_disk L s' q V"
  unfolding on_disk_def using disk_frame by blast

lemma sound_on_disk: "sound L (s, p) \<Longrightarrow> on_disk L s p (partition_rows L (s, p))"
  using durableD(3) durable_rows by (fastforce simp: sound_def on_disk_def)

section \<open>Opening\<close>

definition part_of :: "string \<Rightarrow> string \<Rightarrow> table_schema \<Rightarrow> nat \<Rightarrow> partition \<Rightarrow> bool" where
  "part_of tn d schema i p \<longleftrightarrow> pt_id p = i \<and> pt_tenant p = tn \<and> pt_database p = d \<and> pt_table p = tname schema \<and>
     ps_schema (pt_state p) = schema"

lemma part_of_keys:
  "part_of tn d schema i p \<Longrightarrow> part_of tn d schema i q \<Longrightarrow> own_keys q = own_keys p"
  "part_of tn d schema i p \<Longrightarrow> part_of tn d schema j q \<Longrightarrow> i \<noteq> j \<Longrightarrow> own_keys p \<inter> own_keys q = {}"
  using own_keys_disjoint [of p q] by (simp_all add: part_of_def own_keys_def)

lemma open_partitions_disk:
  assumes "store_ok s" "distinct is" "\<And>i. i \<in> set is \<Longrightarrow> on_disk L s (q i) (V i) \<and> part_of tn d schema i (q i)"
  obtains s' ps where "open_partitions L tn d schema cfg is s = Inr (s', ps)" "store_ok s'"
    "others_same (\<Union>i \<in> set is. own_keys (q i)) s s'"
    "list_all2 (\<lambda>i p. sound L (s', p) \<and> part_of tn d schema i p \<and> partition_rows L (s', p) = V i) is ps"
  using assms
proof (induction "is" arbitrary: s thesis)
  case Nil
  show ?case by (rule Nil.prems(1) [of s "[]"]) (use Nil.prems(2) in \<open>simp_all add: others_same_def\<close>)
next
  case (Cons i "is")
  have qi: "part_of tn d schema i (q i)" and disk: "on_disk L s (q i) (V i)" using Cons.prems(4) by simp_all
  obtain R a n vs es where dur: "disk_ok L s (q i) R a n vs es" "V i = disk_rows L (ps_schema (pt_state (q i))) R a vs es"
    using disk unfolding on_disk_def by blast
  obtain s1 p1 where p1: "partition_open L s (pt_tenant (q i)) (pt_database (q i)) (ps_schema (pt_state (q i))) (pt_id (q i)) cfg = Inr (s1, p1)"
    "durable L s1 p1 R vs es" "ps_schema (pt_state p1) = ps_schema (pt_state (q i))"
    "ps_applied_lsn (pt_state p1) = a" "pt_id p1 = pt_id (q i)" "pt_config p1 = cfg"
    "pt_tenant p1 = pt_tenant (q i)" "pt_database p1 = pt_database (q i)" "pt_table p1 = pt_table (q i)"
    "others_same (own_keys (q i)) s s1"
    by (rule partition_open_ok [OF dur(1), of cfg]) (rule that; assumption)
  have own1: "part_of tn d schema i p1" using qi p1(3,5,7-9) by (simp add: part_of_def)
  have s1: "store_ok s1" using sound_store [OF soundI [OF p1(2)]] .
  have rest: "on_disk L s1 (q j) (V j) \<and> part_of tn d schema j (q j)" if j: "j \<in> set is" for j
  proof -
    have "own_keys (q j) \<inter> own_keys (q i) = {}"
      by (rule part_of_keys(2) [of tn d schema j _ i]) (use Cons.prems(3,4) j qi in auto)
    then show ?thesis using on_disk_frame [OF _ s1 p1(10)] Cons.prems(4) j by auto
  qed
  obtain s' ps where IH: "open_partitions L tn d schema cfg is s1 = Inr (s', ps)" "store_ok s'"
    "others_same (\<Union>i \<in> set is. own_keys (q i)) s1 s'"
    "list_all2 (\<lambda>i p. sound L (s', p) \<and> part_of tn d schema i p \<and> partition_rows L (s', p) = V i) is ps"
    by (rule Cons.IH [OF _ s1]) (use Cons.prems(3) rest in auto)
  have "own_keys p1 \<inter> (\<Union>j \<in> set is. own_keys (q j)) = {}"
    using part_of_keys(2) [OF own1] rest(1) Cons.prems(3) by fastforce
  note fr = sound_frame [OF soundI [OF p1(2)] IH(2,3) this]
  have "partition_rows L (s', p1) = V i"
    using fr(2) by (simp add: durable_rows [OF p1(2)] dur(2) p1(3,4))
  moreover have "others_same (\<Union>j \<in> set (i # is). own_keys (q j)) s s'"
    using p1(10) IH(3) by (simp add: others_same_def)
  ultimately show ?case
    using qi p1(1) IH(1,2,4) fr(1) own1 by (intro Cons.prems(1) [of s' "p1 # ps"]) (simp_all add: part_of_def)
qed


text \<open>The keys of a table: everything under its directory.\<close>

definition table_dir :: "string \<Rightarrow> string \<Rightarrow> string \<Rightarrow> string set" where
  "table_dir t d n = {k. prefix (key_parts t d n) (split_on CHR ''/'' k)}"

lemma own_keys_dir: "own_keys p \<subseteq> table_dir (pt_tenant p) (pt_database p) (pt_table p)"
  by (auto simp: own_keys_def table_dir_def prefix_def)

lemma table_dir_disjoint: "(t, d, n) \<noteq> (t', d', n') \<Longrightarrow> table_dir t d n \<inter> table_dir t' d' n' = {}"
  by (auto simp: table_dir_def key_parts_def prefix_def)

abbreviation dir_of :: "table_store \<Rightarrow> string set" where
  "dir_of t \<equiv> table_dir (ts_tenant t) (ts_database t) (tname (ts_schema t))"

lemma table_open_disk:
  assumes s: "store_ok s" and schema: "schema_ok schema"
    and q: "\<And>i. i < partitions schema \<Longrightarrow> on_disk L s (q i) (V i) \<and> part_of tn d schema i (q i)"
    and route: "\<And>i r. \<not> is_append_only schema \<Longrightarrow> i < partitions schema \<Longrightarrow> r \<in> set (V i) \<Longrightarrow>
      target (partitions schema) (row_key (pk_indices schema) r) = i"
  obtains s' t' where "table_open L s tn d schema cfg = Inr (s', t')" "table_sound L (s', t')"
    "ts_tenant t' = tn" "ts_database t' = d" "ts_schema t' = schema" "length (ts_partitions t') = partitions schema"
    "table_rows L (s', t') = concat (map V [0..<partitions schema])" "ts_config t' = cfg" "others_same (table_dir tn d (tname schema)) s s'"
proof -
  let ?n = "partitions schema"
  have q': "on_disk L s (q i) (V i) \<and> part_of tn d schema i (q i)" if "i \<in> set [0..<?n]" for i using q that by simp
  obtain s' ps where o: "open_partitions L tn d schema cfg [0..<?n] s = Inr (s', ps)"
    "others_same (\<Union>i \<in> set [0..<?n]. own_keys (q i)) s s'"
    "list_all2 (\<lambda>i p. sound L (s', p) \<and> part_of tn d schema i p \<and> partition_rows L (s', p) = V i) [0..<?n] ps"
    by (rule open_partitions_disk [OF s distinct_upt q', where cfg = cfg]) (assumption | (rule that; assumption))+
  let ?t = "\<lparr>ts_tenant = tn, ts_database = d, ts_schema = schema, ts_partitions = ps, ts_config = cfg\<rparr>"
  have len: "length ps = ?n" using list_all2_lengthD [OF o(3)] by simp
  have at: "sound L (s', ps ! i)" "part_of tn d schema i (ps ! i)" "partition_rows L (s', ps ! i) = V i" if "i < ?n" for i
    using list_all2_nthD [OF o(3), of i] that by simp_all
  have n0: "0 < ?n" using schema by (simp add: schema_ok_def)
  have "table_sound L (s', ?t)"
    using n0 at len route by (auto simp: table_sound_def placed_def part_of_def Let_def)
  moreover have "table_rows L (s', ?t) = concat (map V [0..<?n])"
    unfolding table_rows_parts using at(3) len
    by (intro arg_cong [where f = concat] map_cong) (simp_all add: part_rows_def)
  moreover have "validate_schema schema = Inr ()" using schema by (simp add: validate_schema_iff)
  moreover have "others_same (table_dir tn d (tname schema)) s s'"
    by (rule others_same_mono [OF o(2)]) (use q own_keys_dir in \<open>fastforce simp: part_of_def\<close>)
  ultimately show ?thesis
    using o(1) len by (intro that [of s' ?t]) (simp_all add: table_open_def)
qed

lemma table_open_ok:
  assumes inv: "table_sound L (s, t)" and n: "length (ts_partitions t) = partitions (ts_schema t)"
  obtains s' t' where "table_open L s (ts_tenant t) (ts_database t) (ts_schema t) cfg = Inr (s', t')"
    "table_sound L (s', t')" "same_shape t t'" "table_rows L (s', t') = table_rows L (s, t)" "ts_config t' = cfg"
    "others_same (dir_of t) s s'"
proof -
  let ?q = "\<lambda>i. ts_partitions t ! i" and ?n = "partitions (ts_schema t)"
  note T = table_facts [OF inv]
  have q: "on_disk L s (?q i) (part_rows L (s, t) i) \<and> part_of (ts_tenant t) (ts_database t) (ts_schema t) i (?q i)" if "i < ?n" for i
    using placedD [OF T(2), of i] that n sound_on_disk by (simp add: part_of_def part_rows_def)
  have route: "target ?n (row_key (pk_indices (ts_schema t)) r) = i"
    if "\<not> is_append_only (ts_schema t)" "i < ?n" "r \<in> set (part_rows L (s, t) i)" for i r
    using T(7) [OF that(1)] that(2,3) n by simp
  show ?thesis
    by (rule table_open_disk [where q = ?q and V = "part_rows L (s, t)" and cfg = cfg, OF T(4,5) q route])
      (assumption+, rule that, simp_all add: same_shape_def n table_rows_parts)
qed

text \<open>A table whose directory is empty opens without rows.\<close>

definition vacant :: "fs_store \<Rightarrow> string set \<Rightarrow> bool" where
  "vacant s K \<longleftrightarrow> (\<forall>k \<in> K. plain_key k \<longrightarrow> map_of (files s) k = None)"

lemma vacant_disk:
  assumes L: "storage_ok L" "store_ok s" and schema: "schema_ok schema" and names: "ident_ok t" "ident_ok d" "ident_ok (tname schema)"
    and v: "vacant s (table_dir t d (tname schema))"
  shows "on_disk L s (fresh_partition t d schema i cfg) [] \<and> part_of t d schema i (fresh_partition t d schema i cfg)"
proof -
  let ?p = "fresh_partition t d schema i cfg"
  have f: "pt_tenant ?p = t" "pt_database ?p = d" "pt_table ?p = tname schema" "pt_id ?p = i" "ps_schema (pt_state ?p) = schema"
    by (simp_all add: fresh_partition_def)
  have n: "names_ok ?p" using names by (simp add: names_ok_def fresh_partition_def)
  have "map_of (files s) k = None" if "k \<in> own_keys ?p" "plain_key k" for k
    using v own_keys_dir [of ?p] that by (auto simp: vacant_def f)
  then have "map_of (files s) (pt_manifest_key ?p) = None" "map_of (files s) (log_key (pt_log ?p)) = None"
    using own_keys_of(2,3) [OF n] pt_keys(6,7) [OF n] by blast+
  then have "disk_ok L s ?p (\<lambda>_. []) 0 1 [] []"
    using L schema n by (simp add: disk_ok_def published_def segs_ok_def log_disk_def f)
  moreover have "[] = disk_rows L (ps_schema (pt_state ?p)) (\<lambda>_. []) 0 [] []" by (simp add: disk_rows_def live_ops_def)
  ultimately have "on_disk L s ?p []" unfolding on_disk_def by blast
  then show ?thesis by (simp add: part_of_def f)
qed

lemma table_open_fresh:
  assumes L: "storage_ok L" "store_ok s" and schema: "schema_ok schema" and names: "ident_ok t" "ident_ok d" "ident_ok (tname schema)"
    and v: "vacant s (table_dir t d (tname schema))"
  obtains s' t' where "table_open L s t d schema cfg = Inr (s', t')" "table_sound L (s', t')"
    "ts_tenant t' = t" "ts_database t' = d" "ts_schema t' = schema" "length (ts_partitions t') = partitions schema"
    "table_rows L (s', t') = []" "ts_config t' = cfg" "others_same (table_dir t d (tname schema)) s s'"
  by (rule table_open_disk [where q = "\<lambda>i. fresh_partition t d schema i cfg" and V = "\<lambda>_. []" and cfg = cfg, OF L(2) schema vacant_disk [OF assms]])
    (simp, rule that, simp_all add: concat_replicate_trivial map_replicate_const)

end
