(* ===== verification/TableFrame.thy ===== *)
theory TableFrame
  imports TableDisk
begin

text \<open>Operations on one table leave the files of every other table alone.\<close>

lemma run_steps_frame:
  assumes "table_sound L (s, t)" "steps_ok L steps t" "run_steps (map (\<lambda>(i, f, E). (i, f)) steps) acc (s, t) = (r, (s', t'))"
  shows "others_same (dir_of t) s s'"
  using assms
proof (induction steps arbitrary: s t acc)
  case Nil
  then show ?case by (simp add: others_same_def)
next
  case (Cons x steps)
  obtain i f E where x: "x = (i, f, E)" by (cases x)
  let ?p = "ts_partitions t ! i"
  have i: "i < length (ts_partitions t)" using Cons.prems(2) by (simp add: steps_ok_def x)
  have P: "placed L s t i" using Cons.prems(1) i by (simp add: table_sound_def)
  have step: "step_ok L f E (s, ?p)" using Cons.prems(2) placedD(1) [OF P] by (simp add: steps_ok_def x)
  obtain r1 s1 p1 where f: "f (s, ?p) = (r1, (s1, p1))" by (metis prod_cases3)
  have own: "own_keys ?p \<subseteq> dir_of t" using own_keys_dir [of ?p] placedD(3-5) [OF P] by simp
  have oth: "others_same (dir_of t) s s1" using step f by (intro others_same_mono [OF _ own]) (simp add: step_ok_def)
  let ?t = "t\<lparr>ts_partitions := (ts_partitions t)[i := p1]\<rparr>"
  have on: "on_partition i f (s, t) = (r1, (s1, ?t))" using f by (simp add: on_partition_def)
  show ?case
  proof (cases r1)
    case (Inl e)
    then show ?thesis using Cons.prems(3) oth on by (simp add: x)
  next
    case (Inr n)
    have one: "steps_ok L [(i, f, E)] t" using Cons.prems(2) by (simp add: steps_ok_def x)
    have "run_steps (map (\<lambda>(i, f, E). (i, f)) [(i, f, E)]) acc (s, t) = (Inr (acc + n), (s1, ?t))" using on Inr by simp
    then have sd: "table_sound L (s1, ?t)"
      using run_steps_ok [OF Cons.prems(1) one, of acc] by (metis prod.inject)
    have ok': "steps_ok L steps ?t" by (rule steps_ok_Cons [OF Cons.prems(2) [unfolded x]]) simp_all
    have "others_same (dir_of ?t) s1 s'"
      by (rule Cons.IH [OF sd ok', of "acc + n"]) (use Cons.prems(3) on Inr in \<open>simp add: x\<close>)
    then show ?thesis using others_same_trans [OF oth, of "dir_of t" s'] by simp
  qed
qed

text \<open>
  An operation is \<open>within_dir\<close> when it keeps a table sound and of the same shape and touches only the
  files below the directory of the table.
\<close>

definition within_dir :: "storage_lib \<Rightarrow> table_st \<Rightarrow> 'a \<times> table_st \<Rightarrow> bool" where
  "within_dir L st res \<longleftrightarrow> (case res of (_, st') \<Rightarrow>
     table_sound L st' \<and> same_shape (snd st) (snd st') \<and> others_same (dir_of (snd st)) (fst st) (fst st'))"

lemma within_same: "table_sound L st \<Longrightarrow> within_dir L st (r, st)"
  by (simp add: within_dir_def same_shape_def others_same_def)

lemma within_run:
  assumes "table_sound L (s, t)" "steps_ok L steps t"
  shows "within_dir L (s, t) (run_steps (map (\<lambda>(i, f, E). (i, f)) steps) acc (s, t))"
proof -
  obtain r s' t' where run: "run_steps (map (\<lambda>(i, f, E). (i, f)) steps) acc (s, t) = (r, (s', t'))" "table_sound L (s', t')" "same_shape t t'"
    by (rule run_steps_ok [OF assms, of acc])
  then show ?thesis using run_steps_frame [OF assms run(1)] by (simp add: within_dir_def)
qed

lemma within_write:
  assumes inv: "table_sound L (s, t)" and fit: "batch_fits (ts_schema t) b"
    and plan: "\<forall>(i, sub) \<in> set (write_plan b t). batch_loggable L (s, ts_partitions t ! i) sub upsert"
  shows "within_dir L (s, t) (table_write L b upsert (s, t))"
proof (cases "is_append_only (ts_schema t) \<and> upsert")
  case True
  then show ?thesis by (simp add: table_write_def Let_def within_same [OF inv])
next
  case False
  have run: "within_dir L (s, t) (outcome (num_rows b) (run_steps (map (\<lambda>(i, f, E). (i, f)) (write_steps L b upsert t)) 0 (s, t)))"
    using within_run [OF inv write_steps_ok [OF inv fit plan], of 0] False
    by (auto simp: within_dir_def outcome_def split: prod.splits)
  show ?thesis
    using run write_run [of t L b upsert] False
    by (cases "is_append_only (ts_schema t)") (auto simp: table_write_def Let_def within_same [OF inv])
qed

lemma within_delete:
  assumes inv: "table_sound L (s, t)"
    and small: "\<forall>(i, g) \<in> set (delete_plan keys t). loggable (sl_wal L) (s, pt_log (ts_partitions t ! i)) (MDelete (present_keys (ts_partitions t ! i) g))"
  shows "within_dir L (s, t) (table_delete L keys (s, t))"
proof -
  have "within_dir L (s, t) (run_steps (map (\<lambda>(i, f, E). (i, f)) (delete_steps L keys t)) 0 (s, t))"
    by (rule within_run [OF inv delete_steps_ok [OF inv small]])
  then show ?thesis
    by (auto simp: table_delete_def Let_def delete_steps_def delete_plan_def comp_def case_prod_unfold within_same [OF inv])
qed

lemma within_maintain:
  assumes inv: "table_sound L (s, t)" and step: "\<And>s p. sound L (s, p) \<Longrightarrow> step_ok L f (\<lambda>V. V) (s, p)"
  shows "within_dir L (s, t) (run_steps (map (\<lambda>i. (i, f)) (all_partitions t)) 0 (s, t))"
proof -
  have "steps_ok L (map (\<lambda>i. (i, f, \<lambda>V. V)) (all_partitions t)) t"
    using step by (auto simp: steps_ok_def all_partitions_def comp_def)
  from within_run [OF inv this, of 0] show ?thesis by (simp add: comp_def)
qed

lemma within_flush: "table_sound L (s, t) \<Longrightarrow> within_dir L (s, t) (table_flush L (s, t))"
  unfolding table_flush_def snd_conv by (rule within_maintain) (simp_all add: flush_step)

lemma within_compact: "table_sound L (s, t) \<Longrightarrow> within_dir L (s, t) (table_compact L (s, t))"
  unfolding table_compact_def snd_conv by (rule within_maintain) (simp_all add: compact_step)

text \<open>A change elsewhere in the store keeps a table sound, with the same rows.\<close>

lemma table_frame:
  assumes inv: "table_sound L (s, t)" and s': "store_ok s'" "others_same K s s'" "dir_of t \<inter> K = {}"
  shows "table_sound L (s', t)" "table_rows L (s', t) = table_rows L (s, t)"
proof -
  have f: "sound L (s', ts_partitions t ! i)" "partition_rows L (s', ts_partitions t ! i) = partition_rows L (s, ts_partitions t ! i)"
    if i: "i < length (ts_partitions t)" for i
  proof -
    have P: "placed L s t i" using inv i by (simp add: table_sound_def)
    have "own_keys (ts_partitions t ! i) \<inter> K = {}" using own_keys_dir [of "ts_partitions t ! i"] placedD(3-5) [OF P] s'(3) by auto
    then show "sound L (s', ts_partitions t ! i)" "partition_rows L (s', ts_partitions t ! i) = partition_rows L (s, ts_partitions t ! i)"
      using sound_frame [OF placedD(1) [OF P] s'(1,2)] by simp_all
  qed
  show "table_sound L (s', t)" using inv f by (simp add: table_sound_def placed_def Let_def)
  show "table_rows L (s', t) = table_rows L (s, t)"
    unfolding table_rows_parts using f by (intro arg_cong [where f = concat] map_cong) (simp_all add: part_rows_def)
qed

end
