(* ===== verification/TableTheorems.thy ===== *)
theory TableTheorems
  imports TableFrame
begin

text \<open>
  The properties of a table: a write or delete acts on all partitions as on one list of rows, keys
  are unique over the partitions, lookups return the rows of the keys in request order, maintenance
  and reopening keep the rows.
\<close>

section \<open>A concrete table of two partitions\<close>

definition two_schema :: table_schema where
  "two_schema = demo_schema\<lparr>partitions := 2\<rparr>"

definition two_table :: table_st where
  "two_table = (fresh_fs ''acme'' ''shop'' ''orders'' [0, 1],
     \<lparr>ts_tenant = ''acme'', ts_database = ''shop'', ts_schema = two_schema,
      ts_partitions = [fresh_partition ''acme'' ''shop'' two_schema 0 demo_config, fresh_partition ''acme'' ''shop'' two_schema 1 demo_config],
      ts_config = demo_config\<rparr>)"

lemma two_schema_ok: "schema_ok two_schema" "tname two_schema = ''orders''" "\<not> is_append_only two_schema"
  "pk_indices two_schema = [0]" "primary_key two_schema = [''id'']" "arrow_schema two_schema = arrow_schema demo_schema"
  using demo_schema_ok unfolding validate_schema_iff
  by (auto simp: two_schema_def schema_ok_def max_partitions_def demo_schema_def new_table_def is_append_only_def
    pk_indices_def column_index_def new_column_def arrow_schema_def column_ok_def key_column_ok_def column_def List.map_filter_def)

lemma two_durable:
  assumes "i < 2"
  shows "durable demo_lib (fst two_table) (fresh_partition ''acme'' ''shop'' two_schema i demo_config) (\<lambda>_. []) [] []"
  using fresh_durable [OF demo_lib_ok two_schema_ok(1), of "''acme''" "''shop''" i "[0, 1]" demo_config] assms
  by (auto simp: two_table_def two_schema_ok demo_idents less_2_cases_iff)

lemma two_rows: "i < 2 \<Longrightarrow> partition_rows demo_lib (fst two_table, fresh_partition ''acme'' ''shop'' two_schema i demo_config) = []"
  unfolding durable_rows [OF two_durable] by (simp add: disk_rows_def live_ops_def)

lemma two_parts: "i < 2 \<Longrightarrow> ts_partitions (snd two_table) ! i = fresh_partition ''acme'' ''shop'' two_schema i demo_config"
  by (auto simp: two_table_def less_2_cases_iff)

lemma two_fields: "ts_schema (snd two_table) = two_schema" "length (ts_partitions (snd two_table)) = 2"
  "ts_tenant (snd two_table) = ''acme''" "ts_database (snd two_table) = ''shop''" "ts_partitions (snd two_table) \<noteq> []"
  by (simp_all add: two_table_def)

lemma two_sound: "table_sound demo_lib two_table"
proof -
  have "placed demo_lib (fst two_table) (snd two_table) i" if "i < 2" for i
    using soundI [OF two_durable [OF that]] two_rows [OF that]
    by (simp add: placed_def Let_def two_parts [OF that] two_fields two_schema_ok)
      (simp add: fresh_partition_def two_schema_ok)
  then show ?thesis by (simp add: table_sound_def two_fields)
qed

lemma two_table_rows: "table_rows demo_lib two_table = []"
  using two_rows [of 0] two_rows [of 1] by (simp add: table_rows_def two_table_def)

lemma two_sound': "table_sound demo_lib (fst two_table, snd two_table)"
  using two_sound by simp

lemma two_fit: "batch_fits two_schema demo_rows_batch"
  using demo_rows_fit two_schema_ok(1,6) by (simp add: batch_fits_def)

definition plan_loggable :: "storage_lib \<Rightarrow> table_st \<Rightarrow> batch \<Rightarrow> bool \<Rightarrow> bool" where
  "plan_loggable L st b upsert \<longleftrightarrow>
     (\<forall>(i, sub) \<in> set (write_plan b (snd st)). batch_loggable L (fst st, ts_partitions (snd st) ! i) sub upsert)"

lemma two_loggable: "plan_loggable demo_lib two_table demo_rows_batch upsert"
proof -
  have "batch_loggable demo_lib (fst two_table, fresh_partition ''acme'' ''shop'' two_schema i demo_config)
      (demo_rows_batch\<lparr>brows := filter P (brows demo_rows_batch)\<rparr>) upsert" for i P
    by (simp add: batch_loggable_def loggable_def demo_lib_def demo_arrow_def encode_ipc_def fresh_partition_def write_op_def
      payload_of_def demo_wal_def enc_entry_def enc_nat_def enc_list_def enc_batch_def enc_field_def enc_arrow_def
      enc_bool_def enc_char_def enc_byte_def enc_bytes_length demo_rows_batch_def arrow_schema_def demo_schema_def new_table_def new_column_def arrow_field_def)
  then show ?thesis
    by (auto simp: plan_loggable_def write_plan_def two_fields two_schema_ok two_parts route_rows_def Let_def)
qed

lemma mset_short: "mset xs = mset ys \<Longrightarrow> length ys \<le> 1 \<Longrightarrow> xs = ys"
proof (cases ys)
  case (Cons y zs)
  assume "mset xs = mset ys" "length ys \<le> 1"
  then have "mset xs = {#y#}" using Cons by simp
  then show "xs = ys" using Cons \<open>length ys \<le> 1\<close> by simp
qed simp

section \<open>Properties\<close>

text \<open>
  C4: writing a batch to a sound table either stores every row, upserted by key over all partitions
  exactly as into one list of rows, or fails with only a part of the rows stored; either way the
  table is sound. The module says a write over several partitions is all or nothing; this shows what
  holds, and the failing case is reached when a later partition refuses its part.
\<close>

theorem table_write_exact:
  assumes "table_sound L st" "batch_fits (ts_schema (snd st)) b" "plan_loggable L st b upsert"
  shows "case table_write L b upsert st of (r, st') \<Rightarrow> table_sound L st' \<and> same_shape (snd st) (snd st') \<and>
    (case r of
       Inr out \<Rightarrow> wo_rows out = num_rows b \<and>
         mset (table_rows L st') = mset (spec_append (pk_indices (ts_schema (snd st))) (table_rows L st) (brows b))
     | Inl _ \<Rightarrow> \<exists>part. subseq part (brows b) \<and>
         mset (table_rows L st') = mset (spec_append (pk_indices (ts_schema (snd st))) (table_rows L st) part))"
proof -
  obtain s t where st: "st = (s, t)" by (cases st)
  have keep: "spec_append pk V [] = V" for pk V by (simp add: spec_append_def)
  have A: "table_sound L (s, t)" "batch_fits (ts_schema t) b"
    "\<forall>(i, sub) \<in> set (write_plan b t). batch_loggable L (s, ts_partitions t ! i) sub upsert"
    using assms by (simp_all add: st plan_loggable_def)
  show ?thesis
  proof (cases rule: table_write_cases [OF A])
    case (4 r s' t' sub)
    then show ?thesis by (cases r) (auto simp: st)
  qed (use A(1) in \<open>auto simp: st same_shape_def intro!: exI [of _ "[]"] simp: keep\<close>)
qed

theorem table_write_exact_witness:
  "case table_write demo_lib demo_rows_batch True two_table of (r, st') \<Rightarrow> table_sound demo_lib st' \<and>
    (case r of
       Inr out \<Rightarrow> wo_rows out = 2 \<and> mset (table_rows demo_lib st') = {#[VInt 1, VStr ''uae''], [VInt 5, VNull]#}
     | Inl _ \<Rightarrow> length (table_rows demo_lib st') \<le> 2)"
proof -
  have a: "spec_append [0] [] (brows demo_rows_batch) = [[VInt 1, VStr ''uae''], [VInt 5, VNull]]"
    by (simp add: spec_append_def spec_upsert_row_def row_key_def demo_rows_batch_def)
  have len: "length (foldl (spec_upsert_row pk) V rs) \<le> length V + length rs" for pk V rs
  proof (induction rs arbitrary: V)
    case (Cons r rs)
    have "length (spec_upsert_row pk V r) \<le> Suc (length V)"
      by (simp add: spec_upsert_row_def le_SucI)
    then show ?case using Cons [of "spec_upsert_row pk V r"] by simp
  qed simp
  have small: "subseq part (brows demo_rows_batch) \<Longrightarrow> mset V = mset (spec_append [0] [] part) \<Longrightarrow> length V \<le> 2" for part V
    using len [of "[0]" "[]" part] list_emb_length [of "(=)" part "brows demo_rows_batch"]
    by (auto simp: spec_append_def demo_rows_batch_def dest!: mset_eq_length)
  have "table_rows demo_lib two_table = []" by (rule two_table_rows)
  moreover have "num_rows demo_rows_batch = 2" by (simp add: num_rows_def demo_rows_batch_def)
  ultimately show ?thesis
    using table_write_exact [OF two_sound _ two_loggable [of True]] two_fit a small
    by (auto simp: two_fields two_schema_ok split: prod.splits sum.splits)
qed

text \<open>
  C7: an insert into a keyed table is refused as a whole, the table unchanged, when a key repeats in
  the batch or a row of the table, in any partition, already has one of its keys.
\<close>

theorem table_insert_refused:
  assumes "table_sound L st" "batch_fits (ts_schema (snd st)) b" "\<not> is_append_only (ts_schema (snd st))"
    and "\<not> distinct (batch_keys (snd st) b) \<or>
      (\<exists>k \<in> set (batch_keys (snd st) b). k \<in> key_of_row (snd st) ` set (table_rows L st))"
  shows "table_write L b False st =
    (Inl (if distinct (batch_keys (snd st) b) then AlreadyExists ''row'' else BadRequest), st)"
proof -
  obtain s t where st: "st = (s, t)" by (cases st)
  have inv: "table_sound L (s, t)" and keyed: "\<not> is_append_only (ts_schema t)" and fit: "batch_fits (ts_schema t) b"
    using assms(1-3) by (simp_all add: st)
  have fields: "bfields b = arrow_schema (ts_schema t)" using fit by (simp add: batch_fits_def)
  have some: "num_rows b \<noteq> 0" using assms(4) by (auto simp: st batch_keys_def num_rows_def)
  note tw = table_write_def [of L b False "(s, t)", unfolded Let_def snd_conv batch_keys_at, simplified fields, simplified]
  show ?thesis using tw some keyed assms(4) key_taken_iff [OF inv keyed, of b] by (auto simp: st)
qed

theorem table_insert_refused_witness:
  "table_write demo_lib (demo_rows_batch\<lparr>brows := [[VInt 5, VNull], [VInt 5, VNull]]\<rparr>) False two_table = (Inl BadRequest, two_table)"
proof -
  let ?b = "demo_rows_batch\<lparr>brows := [[VInt 5, VNull], [VInt 5, VNull]]\<rparr>"
  have keys: "batch_keys (snd two_table) ?b = [[VInt 5], [VInt 5]]"
    by (simp add: batch_keys_def two_fields two_schema_ok row_key_def)
  have "batch_fits two_schema ?b"
    using two_schema_ok(1) by (simp add: batch_fits_def batch_ok_def demo_rows_batch_def two_schema_ok(6)) (simp add: arrow_schema_def demo_schema_def new_table_def
      new_column_def row_ok_def field_fits_def arrow_field_def value_finite_def)
  then show ?thesis
    using table_insert_refused [OF two_sound, of ?b] two_schema_ok(3) by (simp add: keys two_fields)
qed

text \<open>
  C6: a delete on a keyed table removes exactly the rows with one of the keys, in whatever partition
  they are, and reports how many entries of the list were keys of rows (an entry given twice counts
  twice); when a partition refuses its part, only keys of the list were removed. The table stays
  sound, and append-only tables and keys of a wrong length are refused with nothing changed.
\<close>

theorem table_delete_exact:
  assumes "table_sound L st"
    and "\<forall>(i, g) \<in> set (delete_plan keys (snd st)).
      loggable (sl_wal L) (fst st, pt_log (ts_partitions (snd st) ! i)) (MDelete (present_keys (ts_partitions (snd st) ! i) g))"
  shows "case table_delete L keys st of (r, st') \<Rightarrow> table_sound L st' \<and> same_shape (snd st) (snd st') \<and>
    (case r of
       Inr n \<Rightarrow> mset (table_rows L st') = mset (spec_delete (pk_indices (ts_schema (snd st))) (table_rows L st) keys) \<and>
         n = length (filter (\<lambda>k. k \<in> key_of_row (snd st) ` set (table_rows L st)) keys)
     | Inl e \<Rightarrow> e = BadRequest \<and> (\<exists>gone. subseq gone keys \<and>
         mset (table_rows L st') = mset (spec_delete (pk_indices (ts_schema (snd st))) (table_rows L st) gone)))"
proof -
  obtain s t where st: "st = (s, t)" by (cases st)
  let ?n = "length (ts_partitions t)" and ?pk = "pk_indices (ts_schema t)"
  have inv: "table_sound L (s, t)" and small: "\<forall>(i, g) \<in> set (delete_plan keys t).
      loggable (sl_wal L) (s, pt_log (ts_partitions t ! i)) (MDelete (present_keys (ts_partitions t ! i) g))"
    using assms by (simp_all add: st)
  note T = table_facts [OF inv]
  have nothing_gone: "spec_delete ?pk V [] = V" for V by (simp add: spec_delete_def)
  show ?thesis
  proof (cases "is_append_only (ts_schema t) \<or> (\<exists>k \<in> set keys. length k \<noteq> length (primary_key (ts_schema t)))")
    case True
    then have "table_delete L keys (s, t) = (Inl BadRequest, (s, t))" by (auto simp: table_delete_def Let_def list_ex_iff)
    then show ?thesis using inv by (auto simp: st same_shape_def nothing_gone intro!: exI [of _ "[]"])
  next
    case False
    then have keyed: "\<not> is_append_only (ts_schema t)" by simp
    obtain r s' t' dn where run: "run_steps (map (\<lambda>(i, f, E). (i, f)) (delete_steps L keys t)) 0 (s, t) = (r, (s', t'))"
      "table_sound L (s', t')" "same_shape t t'" "prefix dn (delete_steps L keys t)" "is_ok r \<longleftrightarrow> dn = delete_steps L keys t"
      "\<And>i. i < ?n \<Longrightarrow> mset (part_rows L (s', t') i) = mset (effect_of dn i (part_rows L (s, t) i))"
      "\<And>m. r = Inr m \<Longrightarrow> \<exists>ns. m = 0 + sum_list ns \<and> list_all2 (step_count L (s, t)) (delete_steps L keys t) ns"
      "\<And>e. r = Inl e \<Longrightarrow> \<exists>x \<in> set (delete_steps L keys t). step_error L (s, t) e x"
      by (rule run_steps_ok [OF inv delete_steps_ok [OF inv small], of 0]) (rule that; assumption)
    have del: "table_delete L keys (s, t) = (r, (s', t'))"
      using False run(1) by (auto simp: table_delete_def Let_def list_ex_iff delete_steps_def delete_plan_def comp_def case_prod_unfold)
    have rows: "mset (table_rows L (s', t')) = mset (spec_delete ?pk (table_rows L (s, t)) (reached dn keys t))"
      using delete_total [OF inv keyed run(4,6)] run(3) by (simp add: table_rows_parts same_shape_def)
    show ?thesis
    proof (cases r)
      case (Inl e)
      obtain i g E where "(i, g) \<in> set (delete_plan keys t)" "step_error L (s, t) e (i, delete_keys L g, E)"
        using run(8) [OF Inl] by (auto simp: delete_steps_def)
      then have "e = BadRequest" using delete_step_count(2) [OF inv keyed] small by blast
      moreover have "subseq (reached dn keys t) keys" by (simp add: reached_def subseq_filter_left)
      ultimately show ?thesis using del run(2,3) rows Inl by (auto simp: st)
    next
      case (Inr m)
      have "is_ok r" using Inr by simp
      then have all: "dn = delete_steps L keys t" using run(5) by simp
      obtain ns where ns: "m = sum_list ns" "list_all2 (step_count L (s, t)) (delete_steps L keys t) ns"
        using run(7) [OF Inr] by auto
      let ?P = "\<lambda>i k. k \<in> key_of_row t ` set (part_rows L (s, t) i)" and ?Q = "\<lambda>k. k \<in> key_of_row t ` set (table_rows L (s, t))"
      have "list_all2 (\<lambda>x n. n = (\<lambda>(i, g). length (filter (?P i) g)) x) (delete_plan keys t) ns"
        using ns(2) unfolding delete_steps_def list_all2_map1
        by (rule list.rel_mono_strong) (use delete_step_count(1) [OF inv keyed] small in \<open>auto split: prod.splits\<close>)
      then have "ns = map (\<lambda>(i, g). length (filter (?P i) g)) (delete_plan keys t)"
        by (auto simp: list_all2_conv_all_nth intro!: nth_equalityI)
      then have "m = sum_list (map (\<lambda>(i, g). length (filter (?P i) g)) (delete_plan keys t))" using ns(1) by simp
      also have "\<dots> = length (filter ?Q keys)"
        unfolding delete_plan_def by (rule routed_count [OF T(1)]) (rule key_in_part [OF inv keyed])
      finally show ?thesis using del run(2,3) rows Inr reached_all [OF T(1)] all by (simp add: st)
    qed
  qed
qed

theorem table_delete_exact_witness:
  "case table_delete demo_lib [[VInt 1]] two_table of (r, st') \<Rightarrow> table_sound demo_lib st' \<and> table_rows demo_lib st' = [] \<and>
    (case r of Inr n \<Rightarrow> n = 0 | Inl e \<Rightarrow> e = BadRequest)"
proof -
  have none: "present_keys (fresh_partition ''acme'' ''shop'' two_schema i demo_config) g = []" for i g
    by (simp add: present_keys_def ki_contains_def fresh_partition_def)
  have "\<forall>(i, g) \<in> set (delete_plan [[VInt 1]] (snd two_table)).
      loggable (sl_wal demo_lib) (fst two_table, pt_log (ts_partitions (snd two_table) ! i)) (MDelete (present_keys (ts_partitions (snd two_table) ! i) g))"
  proof (intro ballI, clarify)
    fix i g assume "(i, g) \<in> set (delete_plan [[VInt 1]] (snd two_table))"
    then have "i < 2" using delete_plan_in(1) [of i g "[[VInt 1]]" "snd two_table"] by (simp add: two_fields)
    then show "loggable (sl_wal demo_lib) (fst two_table, pt_log (ts_partitions (snd two_table) ! i)) (MDelete (present_keys (ts_partitions (snd two_table) ! i) g))"
      by (simp add: two_parts none loggable_def)
        (simp add: demo_lib_def fresh_partition_def payload_of_def demo_wal_def enc_entry_def enc_nat_def enc_list_def)
  qed
  from table_delete_exact [OF two_sound this] show ?thesis
    by (auto simp: two_table_rows two_fields two_schema_ok spec_delete_def split: prod.splits sum.splits)
qed

text \<open>
  C5: a lookup on a keyed table returns, in the order of the request, exactly the rows of those keys
  that have one, read from the memtables and segments of all partitions; keys given twice give the
  row twice.
\<close>

theorem table_get_exact:
  assumes "table_sound L st" "\<not> is_append_only (ts_schema (snd st))"
    and "\<forall>k \<in> set keys. length k = length (primary_key (ts_schema (snd st)))"
  shows "\<exists>b. table_get L keys st = Inr b \<and> bfields b = arrow_schema (ts_schema (snd st)) \<and>
    brows b = concat (map (\<lambda>k. filter (\<lambda>r. key_of_row (snd st) r = k) (table_rows L st)) keys)"
proof -
  obtain s t where st: "st = (s, t)" by (cases st)
  have inv: "table_sound L (s, t)" and keyed: "\<not> is_append_only (ts_schema t)"
    and keys: "\<forall>k \<in> set keys. length k = length (primary_key (ts_schema t))"
    using assms by (simp_all add: st)
  show ?thesis
    using table_get_eq [OF inv keyed keys] found_rows [OF inv keyed] by (simp add: st)
qed

theorem table_get_exact_witness:
  "case table_write demo_lib demo_rows_batch True two_table of
     (Inr out, st') \<Rightarrow> \<exists>b. table_get demo_lib [[VInt 5], [VInt 9], [VInt 1]] st' = Inr b \<and> brows b = [[VInt 5, VNull], [VInt 1, VStr ''uae'']]
   | (Inl e, st') \<Rightarrow> \<exists>b. table_get demo_lib [[VInt 5], [VInt 9], [VInt 1]] two_table = Inr b \<and> brows b = []"
proof -
  have P: "\<forall>(i, sub) \<in> set (write_plan demo_rows_batch (snd two_table)). batch_loggable demo_lib (fst two_table, ts_partitions (snd two_table) ! i) sub True"
    using two_loggable [of True] by (simp add: plan_loggable_def)
  have F: "batch_fits (ts_schema (snd two_table)) demo_rows_batch" using two_fit by (simp add: two_fields)
  let ?keys = "[[VInt 5], [VInt 9], [VInt 1]] :: row_key list"
  have before: "\<exists>b. table_get demo_lib ?keys two_table = Inr b \<and> brows b = []"
    using table_get_exact [OF two_sound, of ?keys] by (auto simp: two_fields two_schema_ok two_table_rows)
  show ?thesis
  proof (cases rule: table_write_cases [OF two_sound' F P])
    case (4 r s' t' sub)
    show ?thesis
    proof (cases r)
      case (Inr out)
      have S: "ts_schema t' = two_schema" using 4(3) by (simp add: same_shape_def two_fields)
      have ms: "mset (table_rows demo_lib (s', t')) = {#[VInt 1, VStr ''uae''], [VInt 5, VNull]#}"
        using 4(5,6) Inr by (simp add: two_table_rows two_fields two_schema_ok spec_append_def spec_upsert_row_def row_key_def demo_rows_batch_def)
      have one: "filter (\<lambda>r. row_key [0] r = k) (table_rows demo_lib (s', t')) =
          (if k = [VInt 5] then [[VInt 5, VNull]] else if k = [VInt 1] then [[VInt 1, VStr ''uae'']] else [])"
        if "k \<in> set ?keys" for k
      proof -
        have "mset (filter (\<lambda>r. row_key [0] r = k) (table_rows demo_lib (s', t'))) =
            filter_mset (\<lambda>r. row_key [0] r = k) {#[VInt 1, VStr ''uae''], [VInt 5, VNull]#}"
          by (simp only: mset_filter ms)
        also have "\<dots> = (if k = [VInt 5] then {#[VInt 5, VNull]#} else if k = [VInt 1] then {#[VInt 1, VStr ''uae'']#} else {#})"
          using that by (auto simp: row_key_def)
        also have "\<dots> = mset (if k = [VInt 5] then [[VInt 5, VNull]] else if k = [VInt 1] then [[VInt 1, VStr ''uae'']] else [])" by simp
        finally show ?thesis by (rule mset_short) simp
      qed
      show ?thesis
        using table_get_exact [OF 4(2), of ?keys] 4(1) Inr one by (auto simp: S two_schema_ok)
    qed (use 4(1) before in simp)
  qed (use before in simp_all)
qed



text \<open>
  C11: flushing and compacting a sound table always succeed, keep it sound and keep its rows.
\<close>

theorem table_maintenance:
  assumes "table_sound L st"
  shows "(\<exists>n st'. table_flush L st = (Inr n, st') \<and> table_sound L st' \<and> mset (table_rows L st') = mset (table_rows L st)) \<and>
    (\<exists>n st'. table_compact L st = (Inr n, st') \<and> table_sound L st' \<and> mset (table_rows L st') = mset (table_rows L st))"
proof -
  obtain s t where st: "st = (s, t)" by (cases st)
  then have inv: "table_sound L (s, t)" using assms by simp
  have "\<exists>n st'. table_flush L (s, t) = (Inr n, st') \<and> table_sound L st' \<and> mset (table_rows L st') = mset (table_rows L (s, t))"
    by (rule table_flush_ok [OF inv]) blast
  moreover have "\<exists>n st'. table_compact L (s, t) = (Inr n, st') \<and> table_sound L st' \<and> mset (table_rows L st') = mset (table_rows L (s, t))"
    by (rule table_compact_ok [OF inv]) blast
  ultimately show ?thesis by (simp add: st)
qed

theorem table_maintenance_witness:
  "\<exists>n st'. table_flush demo_lib two_table = (Inr n, st') \<and> table_sound demo_lib st' \<and> mset (table_rows demo_lib st') = {#}"
  using table_maintenance [OF two_sound] by (auto simp: two_table_rows)

text \<open>
  C9: opening a table again from its files succeeds and gives a sound table with the same rows in the
  same order, when the schema names the number of partitions the table has.
\<close>

theorem table_reopen:
  assumes "table_sound L st" "length (ts_partitions (snd st)) = partitions (ts_schema (snd st))"
  shows "\<exists>st'. table_open L (fst st) (ts_tenant (snd st)) (ts_database (snd st)) (ts_schema (snd st)) cfg = Inr st' \<and>
    table_sound L st' \<and> same_shape (snd st) (snd st') \<and> table_rows L st' = table_rows L st"
proof -
  obtain s t where st: "st = (s, t)" by (cases st)
  then have inv: "table_sound L (s, t)" and n: "length (ts_partitions t) = partitions (ts_schema t)" using assms by simp_all
  show ?thesis by (rule table_open_ok [OF inv n, of cfg]) (simp add: st)
qed

theorem table_reopen_witness:
  "\<exists>st'. table_open demo_lib (fst two_table) ''acme'' ''shop'' two_schema demo_config = Inr st' \<and>
    table_sound demo_lib st' \<and> table_rows demo_lib st' = []"
  using table_reopen [OF two_sound, of demo_config] by (auto simp: two_fields two_schema_def two_table_rows)

end
