(* ===== verification/Expr.thy ===== *)
theory Expr
  imports Values
begin

text \<open>
  \<open>crates/adb-planner/src/expr.rs\<close>: scalar expressions, the columns they mention, renaming, and the
  coercion of literals to a column's type; then their three-valued SQL meaning on one row, which the
  planner and the executor are measured against. A \<open>BTreeSet\<close> of names is its sorted list.
\<close>

datatype binary_op =
  OpEq | OpNotEq | OpLt | OpLtEq | OpGt | OpGtEq | OpAnd | OpOr | OpAdd | OpSub | OpMul | OpDiv | OpLike

datatype expr =
    EColumn string
  | ELiteral adb_value
  | EBinary binary_op expr expr
  | ENot expr
  | EIsNull expr
  | EIsNotNull expr
  | EInList expr "adb_value list" bool
  | EBetween expr adb_value adb_value bool

section \<open>Operators\<close>

fun op_str :: "binary_op \<Rightarrow> string" where
  "op_str OpEq = ''=''"
| "op_str OpNotEq = ''!=''"
| "op_str OpLt = ''<''"
| "op_str OpLtEq = ''<=''"
| "op_str OpGt = ''>''"
| "op_str OpGtEq = ''>=''"
| "op_str OpAnd = ''and''"
| "op_str OpOr = ''or''"
| "op_str OpAdd = ''+''"
| "op_str OpSub = ''-''"
| "op_str OpMul = ''*''"
| "op_str OpDiv = ''/''"
| "op_str OpLike = ''like''"

definition is_comparison :: "binary_op \<Rightarrow> bool" where
  "is_comparison op \<longleftrightarrow> op \<in> {OpEq, OpNotEq, OpLt, OpLtEq, OpGt, OpGtEq}"

definition is_logical :: "binary_op \<Rightarrow> bool" where
  "is_logical op \<longleftrightarrow> op \<in> {OpAnd, OpOr}"

definition is_arithmetic :: "binary_op \<Rightarrow> bool" where
  "is_arithmetic op \<longleftrightarrow> op \<in> {OpAdd, OpSub, OpMul, OpDiv}"

fun flipped :: "binary_op \<Rightarrow> binary_op option" where
  "flipped OpEq = Some OpEq"
| "flipped OpNotEq = Some OpNotEq"
| "flipped OpLt = Some OpGt"
| "flipped OpLtEq = Some OpGtEq"
| "flipped OpGt = Some OpLt"
| "flipped OpGtEq = Some OpLtEq"
| "flipped _ = None"

section \<open>Expressions\<close>

fun reduce :: "('a \<Rightarrow> 'a \<Rightarrow> 'a) \<Rightarrow> 'a list \<Rightarrow> 'a option" where
  "reduce f [] = None"
| "reduce f (x # xs) = Some (foldl f x xs)"

definition all_of :: "expr list \<Rightarrow> expr option" where
  "all_of ps = reduce (EBinary OpAnd) ps"

fun conjuncts :: "expr \<Rightarrow> expr list" where
  "conjuncts (EBinary OpAnd l r) = conjuncts l @ conjuncts r"
| "conjuncts e = [e]"

definition set_insert :: "string \<Rightarrow> string list \<Rightarrow> string list" where
  "set_insert x xs = (if x \<in> set xs then xs else insort x xs)"

fun collect_columns :: "expr \<Rightarrow> string list \<Rightarrow> string list" where
  "collect_columns (EColumn n) out = set_insert n out"
| "collect_columns (ELiteral _) out = out"
| "collect_columns (EBinary _ l r) out = collect_columns r (collect_columns l out)"
| "collect_columns (ENot e) out = collect_columns e out"
| "collect_columns (EIsNull e) out = collect_columns e out"
| "collect_columns (EIsNotNull e) out = collect_columns e out"
| "collect_columns (EInList e _ _) out = collect_columns e out"
| "collect_columns (EBetween e _ _ _) out = collect_columns e out"

definition referenced_columns :: "expr \<Rightarrow> string list" where
  "referenced_columns e = collect_columns e []"

fun rewrite_columns :: "(string \<Rightarrow> string option) \<Rightarrow> expr \<Rightarrow> expr result" where
  "rewrite_columns m (EColumn n) = rmap EColumn (ok_or (NotFound ''column'') (m n))"
| "rewrite_columns m (ELiteral v) = Inr (ELiteral v)"
| "rewrite_columns m (EBinary op l r) =
     rbind (rewrite_columns m l) (\<lambda>l'. rbind (rewrite_columns m r) (\<lambda>r'. Inr (EBinary op l' r')))"
| "rewrite_columns m (ENot e) = rmap ENot (rewrite_columns m e)"
| "rewrite_columns m (EIsNull e) = rmap EIsNull (rewrite_columns m e)"
| "rewrite_columns m (EIsNotNull e) = rmap EIsNotNull (rewrite_columns m e)"
| "rewrite_columns m (EInList e vs neg) = rmap (\<lambda>e'. EInList e' vs neg) (rewrite_columns m e)"
| "rewrite_columns m (EBetween e lo hi neg) = rmap (\<lambda>e'. EBetween e' lo hi neg) (rewrite_columns m e)"

fun as_column :: "expr \<Rightarrow> string option" where
  "as_column (EColumn n) = Some n"
| "as_column _ = None"

fun as_literal :: "expr \<Rightarrow> adb_value option" where
  "as_literal (ELiteral v) = Some v"
| "as_literal _ = None"

definition i32_of_i64 :: "i64 \<Rightarrow> i32 option" where
  "i32_of_i64 v = (if - (2 ^ 31) \<le> sint v \<and> sint v < 2 ^ 31 then Some (ucast v) else None)"

fun coerce_literal :: "ext_lib \<Rightarrow> adb_value \<Rightarrow> data_type \<Rightarrow> adb_value result" where
  "coerce_literal L VNull _ = Inr VNull"
| "coerce_literal L (VBool b) DBool = Inr (VBool b)"
| "coerce_literal L (VInt i) DInt64 = Inr (VInt i)"
| "coerce_literal L (VFloat f) DInt64 = (if fract_is_zero f then Inr (VInt (f64_as_i64 f)) else Inl TypeMismatch)"
| "coerce_literal L (VFloat f) DFloat64 = Inr (VFloat f)"
| "coerce_literal L (VInt i) DFloat64 = Inr (VFloat (i64_as_f64 i))"
| "coerce_literal L (VStr s) DUtf8 = Inr (VStr s)"
| "coerce_literal L (VStr s) DUuid = Inr (VStr s)"
| "coerce_literal L (VStr s) DJson = Inr (VStr s)"
| "coerce_literal L (VTimestamp t) DTimestamp = Inr (VTimestamp t)"
| "coerce_literal L (VStr s) DTimestamp = rmap VTimestamp (parse_timestamp_micros L s)"
| "coerce_literal L (VInt i) DTimestamp = Inr (VTimestamp (normalize_epoch_to_micros i))"
| "coerce_literal L (VDate d) DDate = Inr (VDate d)"
| "coerce_literal L (VStr s) DDate = rmap VDate (parse_date_days L s)"
| "coerce_literal L (VInt i) DDate = rmap VDate (ok_or TypeMismatch (i32_of_i64 i))"
| "coerce_literal L _ _ = Inl TypeMismatch"

section \<open>The meaning of an expression on a row\<close>

text \<open>
  SQL's three-valued logic: NULL is unknown. The arithmetic and pattern matching of the executor's
  kernels are parameters here as there.
\<close>

record sql_lib =
  sql_arith :: "binary_op \<Rightarrow> adb_value \<Rightarrow> adb_value \<Rightarrow> adb_value"
  sql_like :: "string \<Rightarrow> string \<Rightarrow> bool"

type_synonym env = "string \<Rightarrow> adb_value"

fun kleene_and :: "adb_value \<Rightarrow> adb_value \<Rightarrow> adb_value" where
  "kleene_and (VBool False) _ = VBool False"
| "kleene_and _ (VBool False) = VBool False"
| "kleene_and (VBool True) (VBool True) = VBool True"
| "kleene_and _ _ = VNull"

fun kleene_not :: "adb_value \<Rightarrow> adb_value" where
  "kleene_not (VBool b) = VBool (\<not> b)"
| "kleene_not _ = VNull"

definition kleene_or :: "adb_value \<Rightarrow> adb_value \<Rightarrow> adb_value" where
  "kleene_or a b = kleene_not (kleene_and (kleene_not a) (kleene_not b))"

fun cmp_ok :: "binary_op \<Rightarrow> ordering \<Rightarrow> bool" where
  "cmp_ok OpEq c = (c = Equal)"
| "cmp_ok OpNotEq c = (c \<noteq> Equal)"
| "cmp_ok OpLt c = (c = Less)"
| "cmp_ok OpLtEq c = (c \<noteq> Greater)"
| "cmp_ok OpGt c = (c = Greater)"
| "cmp_ok OpGtEq c = (c \<noteq> Less)"
| "cmp_ok _ _ = False"

definition compare_values :: "binary_op \<Rightarrow> adb_value \<Rightarrow> adb_value \<Rightarrow> adb_value" where
  "compare_values op a b = (if a = VNull \<or> b = VNull then VNull else VBool (cmp_ok op (value_cmp a b)))"

fun like_values :: "(string \<Rightarrow> string \<Rightarrow> bool) \<Rightarrow> adb_value \<Rightarrow> adb_value \<Rightarrow> adb_value" where
  "like_values f (VStr s) (VStr p) = VBool (f s p)"
| "like_values _ _ _ = VNull"

definition sql_binary :: "sql_lib \<Rightarrow> binary_op \<Rightarrow> adb_value \<Rightarrow> adb_value \<Rightarrow> adb_value" where
  "sql_binary S op a b =
     (if op = OpAnd then kleene_and a b
      else if op = OpOr then kleene_or a b
      else if op = OpLike then like_values (sql_like S) a b
      else if is_comparison op then compare_values op a b
      else if a = VNull \<or> b = VNull then VNull else sql_arith S op a b)"

definition sql_in :: "adb_value \<Rightarrow> adb_value list \<Rightarrow> adb_value" where
  "sql_in v vs = foldr (\<lambda>w acc. kleene_or (compare_values OpEq v w) acc) vs (VBool False)"

definition negate_if :: "bool \<Rightarrow> adb_value \<Rightarrow> adb_value" where
  "negate_if neg v = (if neg then kleene_not v else v)"

fun sql :: "sql_lib \<Rightarrow> env \<Rightarrow> expr \<Rightarrow> adb_value" where
  "sql S env (EColumn n) = env n"
| "sql S env (ELiteral v) = v"
| "sql S env (EBinary op l r) = sql_binary S op (sql S env l) (sql S env r)"
| "sql S env (ENot e) = kleene_not (sql S env e)"
| "sql S env (EIsNull e) = VBool (sql S env e = VNull)"
| "sql S env (EIsNotNull e) = VBool (sql S env e \<noteq> VNull)"
| "sql S env (EInList e vs neg) = negate_if neg (sql_in (sql S env e) vs)"
| "sql S env (EBetween e lo hi neg) =
     negate_if neg (kleene_and (compare_values OpGtEq (sql S env e) lo) (compare_values OpLtEq (sql S env e) hi))"

definition sql_holds :: "sql_lib \<Rightarrow> env \<Rightarrow> expr \<Rightarrow> bool" where
  "sql_holds S env e \<longleftrightarrow> sql S env e = VBool True"

section \<open>Lemmas\<close>

lemma kleene_and_true [simp]: "kleene_and a b = VBool True \<longleftrightarrow> a = VBool True \<and> b = VBool True"
  by (induction a b rule: kleene_and.induct) auto

lemma kleene_not_true [simp]: "kleene_not a = VBool True \<longleftrightarrow> a = VBool False"
  by (cases a) auto

lemma kleene_not_false [simp]: "kleene_not a = VBool False \<longleftrightarrow> a = VBool True"
  by (cases a) auto

lemma kleene_and_false [simp]: "kleene_and a b = VBool False \<longleftrightarrow> a = VBool False \<or> b = VBool False"
  by (induction a b rule: kleene_and.induct) auto

lemma kleene_or_true [simp]: "kleene_or a b = VBool True \<longleftrightarrow> a = VBool True \<or> b = VBool True"
  by (simp add: kleene_or_def)

lemma compare_true: "compare_values op a b = VBool True \<longleftrightarrow> a \<noteq> VNull \<and> b \<noteq> VNull \<and> cmp_ok op (value_cmp a b)"
  by (simp add: compare_values_def)

lemma sql_in_true: "sql_in v vs = VBool True \<longleftrightarrow> (\<exists>w \<in> set vs. v \<noteq> VNull \<and> w \<noteq> VNull \<and> value_cmp v w = Equal)"
  by (induction vs) (auto simp: sql_in_def compare_true)

lemma sql_and [simp]: "sql_holds S env (EBinary OpAnd l r) \<longleftrightarrow> sql_holds S env l \<and> sql_holds S env r"
  by (simp add: sql_holds_def sql_binary_def)

lemma holds_conjuncts: "sql_holds S env e \<longleftrightarrow> (\<forall>c \<in> set (conjuncts e). sql_holds S env c)"
  by (induction e rule: conjuncts.induct) auto

lemma cmp_flipped: "flipped op = Some op' \<Longrightarrow> compare_values op a b = compare_values op' b a"
  by (cases op; cases "value_cmp a b") (auto simp: compare_values_def value_cmp_flip [of b a])

lemma set_set_insert [simp]: "set (set_insert x xs) = insert x (set xs)"
  by (auto simp: set_insert_def set_insort_key)

lemma sorted_set_insert [simp]: "sorted xs \<and> distinct xs \<Longrightarrow> sorted (set_insert x xs) \<and> distinct (set_insert x xs)"
  by (auto simp: set_insert_def sorted_insort distinct_insort)

fun expr_columns :: "expr \<Rightarrow> string set" where
  "expr_columns (EColumn n) = {n}"
| "expr_columns (ELiteral _) = {}"
| "expr_columns (EBinary _ l r) = expr_columns l \<union> expr_columns r"
| "expr_columns (ENot e) = expr_columns e"
| "expr_columns (EIsNull e) = expr_columns e"
| "expr_columns (EIsNotNull e) = expr_columns e"
| "expr_columns (EInList e _ _) = expr_columns e"
| "expr_columns (EBetween e _ _ _) = expr_columns e"

lemma set_collect [simp]: "set (collect_columns e out) = expr_columns e \<union> set out"
  by (induction e arbitrary: out) auto

lemma sorted_collect: "sorted out \<and> distinct out \<Longrightarrow> sorted (collect_columns e out) \<and> distinct (collect_columns e out)"
  by (induction e arbitrary: out) auto

lemma set_referenced [simp]: "set (referenced_columns e) = expr_columns e"
  by (simp add: referenced_columns_def)

lemma sql_cong: "(\<And>n. n \<in> expr_columns e \<Longrightarrow> env n = env' n) \<Longrightarrow> sql S env e = sql S env' e"
  by (induction e) auto

lemma rewrite_sql:
  "rewrite_columns m e = Inr e' \<Longrightarrow> sql S env e' = sql S (\<lambda>n. env (the (m n))) e"
  by (induction e arbitrary: e') (auto simp: result_simps)

lemma rewrite_columns_set:
  "rewrite_columns m e = Inr e' \<Longrightarrow> expr_columns e' = (\<lambda>n. the (m n)) ` expr_columns e \<and> (\<forall>n \<in> expr_columns e. m n \<noteq> None)"
  by (induction e arbitrary: e') (auto simp: result_simps)

lemma rewrite_columns_ok: "(\<forall>n \<in> expr_columns e. m n \<noteq> None) \<Longrightarrow> \<exists>e'. rewrite_columns m e = Inr e'"
  by (induction e) (auto simp: result_simps)

lemma coerce_fits: "coerce_literal L v ty = Inr w \<Longrightarrow> fits ty w \<and> (w = VNull \<longleftrightarrow> v = VNull)"
  by (induction L v ty rule: coerce_literal.induct) (auto simp: fits_def result_simps split: if_splits)

lemma coerce_fitting: "fits ty v \<Longrightarrow> coerce_literal L v ty = Inr v"
  by (erule fits_cases) auto

section \<open>Properties\<close>

text \<open>
  Remark: a coerced literal has the column's type and is NULL only for NULL, and coercing it again, or
  coercing a literal that already has the type, changes nothing.
\<close>

theorem coerce_literal_typed:
  assumes "coerce_literal L v ty = Inr w"
  shows "fits ty w \<and> (w = VNull \<longleftrightarrow> v = VNull) \<and> coerce_literal L w ty = Inr w"
  using coerce_fits [OF assms] coerce_fitting by blast

theorem coerce_literal_typed_witness: "fits DInt64 (VInt (f64_as_i64 (F64 0x4014000000000000)))"
proof -
  have "coerce_literal demo_lib (VFloat (F64 0x4014000000000000)) DInt64 = Inr (VInt (f64_as_i64 (F64 0x4014000000000000)))"
    by (simp add: f64_eval_defs)
  from coerce_literal_typed [OF this] show ?thesis by blast
qed

text \<open>
  Remark: coercing a float literal to an integer column saturates instead of failing: a literal above
  every 64-bit integer becomes the largest one.
\<close>

theorem coerce_literal_saturates:
  "coerce_literal L (VFloat (F64 0x7E37E43C8800759C)) DInt64 = Inr (VInt 0x7FFFFFFFFFFFFFFF)"
  by (simp add: f64_eval_defs)

end
