(* ===== verification/Query.thy ===== *)
theory Query
  imports Expr Schema
begin

text \<open>
  \<open>crates/adb-planner/src/ir.rs\<close>: the logical query plan. The builders of the source are its
  constructors; the plan printer is not modelled.
\<close>

record table_ref =
  tr_database :: "string option"
  tr_table :: string

datatype aggregate_func = FCount | FSum | FAvg | FMin | FMax

fun func_str :: "aggregate_func \<Rightarrow> string" where
  "func_str FCount = ''count''"
| "func_str FSum = ''sum''"
| "func_str FAvg = ''avg''"
| "func_str FMin = ''min''"
| "func_str FMax = ''max''"

fun from_aggregation :: "aggregation \<Rightarrow> aggregate_func" where
  "from_aggregation AggCount = FCount"
| "from_aggregation AggSum = FSum"
| "from_aggregation AggAvg = FAvg"
| "from_aggregation AggMin = FMin"
| "from_aggregation AggMax = FMax"

fun output_type :: "aggregate_func \<Rightarrow> data_type option \<Rightarrow> data_type" where
  "output_type FCount _ = DInt64"
| "output_type FAvg _ = DFloat64"
| "output_type FSum arg = (if arg = Some DInt64 then DInt64 else DFloat64)"
| "output_type FMin arg = (case arg of Some ty \<Rightarrow> ty | None \<Rightarrow> DFloat64)"
| "output_type FMax arg = (case arg of Some ty \<Rightarrow> ty | None \<Rightarrow> DFloat64)"

record agg_expr =
  ag_func :: aggregate_func
  ag_column :: "string option"
  ag_alias :: string

definition count_star :: "string \<Rightarrow> agg_expr" where
  "count_star a = \<lparr>ag_func = FCount, ag_column = None, ag_alias = a\<rparr>"

definition default_alias :: "aggregate_func \<Rightarrow> string option \<Rightarrow> string" where
  "default_alias f c = (case c of Some c \<Rightarrow> func_str f @ ''_'' @ c | None \<Rightarrow> ''count'')"

record sort_expr =
  so_column :: string
  so_ascending :: bool
  so_nulls_first :: bool

definition sort_asc :: "string \<Rightarrow> sort_expr" where
  "sort_asc c = \<lparr>so_column = c, so_ascending = True, so_nulls_first = False\<rparr>"

definition sort_desc :: "string \<Rightarrow> sort_expr" where
  "sort_desc c = \<lparr>so_column = c, so_ascending = False, so_nulls_first = False\<rparr>"

datatype query =
    QScan table_ref "string list option"
  | QFilter query expr
  | QProject query "(expr \<times> string) list"
  | QAggregate query "string list" "agg_expr list"
  | QSort query "sort_expr list"
  | QLimit query nat nat
  | QJoin query query expr

fun query_input :: "query \<Rightarrow> query option" where
  "query_input (QScan _ _) = None"
| "query_input (QFilter q _) = Some q"
| "query_input (QProject q _) = Some q"
| "query_input (QAggregate q _ _) = Some q"
| "query_input (QSort q _) = Some q"
| "query_input (QLimit q _ _) = Some q"
| "query_input (QJoin l _ _) = Some l"

fun query_table :: "query \<Rightarrow> table_ref option" where
  "query_table (QScan t _) = Some t"
| "query_table (QFilter q _) = query_table q"
| "query_table (QProject q _) = query_table q"
| "query_table (QAggregate q _ _) = query_table q"
| "query_table (QSort q _) = query_table q"
| "query_table (QLimit q _ _) = query_table q"
| "query_table (QJoin l _ _) = query_table l"

record column_meta =
  cm_name :: string
  cm_type :: data_type
  cm_nullable :: bool

type_synonym output_schema = "column_meta list"

definition out_column :: "output_schema \<Rightarrow> string \<Rightarrow> column_meta option" where
  "out_column sc n = find (\<lambda>c. cm_name c = n) sc"

definition out_names :: "output_schema \<Rightarrow> string list" where
  "out_names sc = map cm_name sc"

lemma out_column_name: "out_column sc n = Some c \<Longrightarrow> cm_name c = n \<and> c \<in> set sc \<and> n \<in> set (out_names sc)"
  using find_Some_set [of "\<lambda>c. cm_name c = n" sc c] by (auto simp: out_column_def out_names_def)

lemma out_column_None: "out_column sc n = None \<longleftrightarrow> n \<notin> set (out_names sc)"
  by (auto simp: out_column_def out_names_def find_None_all)

end
