(* ===== verification/Validate.thy ===== *)
theory Validate
  imports Query Context Ids
begin

text \<open>
  \<open>crates/adb-planner/src/validate.rs\<close>: the check every plan passes before it can run. It resolves
  columns, coerces literals, derives the output schema, clamps limits. A warning keeps the numbers
  its text is made of.
\<close>

datatype warning = LimitReduced nat nat

record validated_query =
  vq_query :: query
  vq_schema :: output_schema
  vq_warnings :: "warning list"

section \<open>Expressions\<close>

type_synonym typed_expr = "expr \<times> data_type option"

definition expect_bool :: "data_type option \<Rightarrow> unit result" where
  "expect_bool ty = guard (ty = Some DBool \<or> ty = None) TypeMismatch"

definition require_type :: "data_type option \<Rightarrow> data_type result" where
  "require_type ty = ok_or BadRequest ty"

definition coerce_to :: "ext_lib \<Rightarrow> data_type option \<Rightarrow> adb_value \<Rightarrow> adb_value result" where
  "coerce_to L ty v = (case ty of Some t \<Rightarrow> coerce_literal L v t | None \<Rightarrow> Inr v)"

text \<open>A literal on one side takes the type of the other side.\<close>

definition coerce_sides :: "ext_lib \<Rightarrow> typed_expr \<Rightarrow> typed_expr \<Rightarrow> (typed_expr \<times> typed_expr) result" where
  "coerce_sides L l r =
     (case (snd l, fst r) of
        (Some t, ELiteral v) \<Rightarrow> rmap (\<lambda>w. (l, (ELiteral w, Some t))) (coerce_literal L v t)
      | _ \<Rightarrow> (case (fst l, snd r) of
                (ELiteral v, Some t) \<Rightarrow> rmap (\<lambda>w. ((ELiteral w, Some t), r)) (coerce_literal L v t)
              | _ \<Rightarrow> Inr (l, r)))"

definition check_sides :: "ext_lib \<Rightarrow> binary_op \<Rightarrow> typed_expr \<Rightarrow> typed_expr \<Rightarrow> typed_expr result" where
  "check_sides L op l r =
     (if is_logical op then
        rbind (expect_bool (snd l)) (\<lambda>_. rbind (expect_bool (snd r)) (\<lambda>_.
        Inr (EBinary op (fst l) (fst r), Some DBool)))
      else if op = OpLike then
        (if snd l \<noteq> None \<and> snd l \<noteq> Some DUtf8 \<and> snd l \<noteq> Some DUuid then Inl TypeMismatch
         else case as_literal (fst r) of
                Some (VStr _) \<Rightarrow> Inr (EBinary op (fst l) (fst r), Some DBool)
              | _ \<Rightarrow> Inl BadRequest)
      else
        rbind (coerce_sides L l r) (\<lambda>(l, r).
        if is_arithmetic op then
          rbind (require_type (snd l)) (\<lambda>lt. rbind (require_type (snd r)) (\<lambda>rt.
          if \<not> is_numeric lt \<or> \<not> is_numeric rt then Inl TypeMismatch
          else Inr (EBinary op (fst l) (fst r), Some (if lt = DFloat64 \<or> rt = DFloat64 then DFloat64 else DInt64))))
        else
          rbind (case (snd l, snd r) of
                   (Some lt, Some rt) \<Rightarrow>
                     if lt \<noteq> rt \<and> \<not> (is_numeric lt \<and> is_numeric rt) then Inl TypeMismatch
                     else if \<not> is_ordered lt \<and> op \<noteq> OpEq \<and> op \<noteq> OpNotEq then Inl BadRequest
                     else Inr ()
                 | _ \<Rightarrow> Inr ()) (\<lambda>_.
          Inr (EBinary op (fst l) (fst r), Some DBool))))"

fun check_expr :: "ext_lib \<Rightarrow> output_schema \<Rightarrow> expr \<Rightarrow> typed_expr result" where
  "check_expr L sc (EColumn n) = rmap (\<lambda>m. (EColumn n, Some (cm_type m))) (ok_or (NotFound ''column'') (out_column sc n))"
| "check_expr L sc (ELiteral v) = Inr (ELiteral v, data_type_of v)"
| "check_expr L sc (ENot e) =
     rbind (check_expr L sc e) (\<lambda>(e, ty). rbind (expect_bool ty) (\<lambda>_. Inr (ENot e, Some DBool)))"
| "check_expr L sc (EIsNull e) = rmap (\<lambda>(e, _). (EIsNull e, Some DBool)) (check_expr L sc e)"
| "check_expr L sc (EIsNotNull e) = rmap (\<lambda>(e, _). (EIsNotNull e, Some DBool)) (check_expr L sc e)"
| "check_expr L sc (EInList e vs neg) =
     rbind (check_expr L sc e) (\<lambda>(e, ty).
     if vs = [] then Inl BadRequest
     else rmap (\<lambda>ws. (EInList e ws neg, Some DBool)) (mapM (coerce_to L ty) vs))"
| "check_expr L sc (EBetween e lo hi neg) =
     rbind (check_expr L sc e) (\<lambda>(e, ty).
     rbind (coerce_to L ty lo) (\<lambda>lo. rbind (coerce_to L ty hi) (\<lambda>hi.
     if value_cmp lo hi = Greater then Inl BadRequest
     else Inr (EBetween e lo hi neg, Some DBool))))"
| "check_expr L sc (EBinary op l r) =
     rbind (check_expr L sc l) (\<lambda>l. rbind (check_expr L sc r) (\<lambda>r. check_sides L op l r))"

section \<open>Nodes\<close>

definition meta_of :: "column_schema \<Rightarrow> column_meta" where
  "meta_of c = \<lparr>cm_name = col_name c, cm_type = col_type c, cm_nullable = nullable c\<rparr>"

fun requested :: "table_schema \<Rightarrow> string list \<Rightarrow> string list \<Rightarrow> unit result" where
  "requested t seen [] = Inr ()"
| "requested t seen (n # ns) =
     rbind (require_column t n) (\<lambda>_. if n \<in> set seen then Inl BadRequest else requested t (n # seen) ns)"

definition scan_names :: "table_schema \<Rightarrow> string list option \<Rightarrow> string list result" where
  "scan_names t cols =
     (case cols of
        Some ns \<Rightarrow> if ns = [] then Inl BadRequest else rmap (\<lambda>_. ns) (requested t [] ns)
      | None \<Rightarrow> Inr (default_projection t))"

definition check_scan :: "table_schema \<Rightarrow> table_ref \<Rightarrow> string list option \<Rightarrow> (query \<times> output_schema) result" where
  "check_scan t tr cols =
     (if tr_table tr \<noteq> tname t then Inl Internal
      else rbind (scan_names t cols) (\<lambda>ns.
           rmap (\<lambda>sc. (QScan tr (Some ns), sc)) (mapM (\<lambda>n. rmap meta_of (require_column t n)) ns)))"

fun check_project :: "output_schema \<Rightarrow> string list \<Rightarrow> (expr \<times> string) list \<Rightarrow> ((expr \<times> string) \<times> column_meta) list result" where
  "check_project sc seen [] = Inr []"
| "check_project sc seen ((e, a) # es) =
     rbind (ok_or Unsupported (as_column e)) (\<lambda>src.
     rbind (ok_or (NotFound ''column'') (out_column sc src)) (\<lambda>m.
     rbind (validate_ident a) (\<lambda>_.
     if a \<in> set seen then Inl BadRequest
     else rmap (\<lambda>rest. ((EColumn src, a), m\<lparr>cm_name := a\<rparr>) # rest) (check_project sc (a # seen) es))))"

fun check_groups :: "output_schema \<Rightarrow> string list \<Rightarrow> string list \<Rightarrow> column_meta list result" where
  "check_groups sc seen [] = Inr []"
| "check_groups sc seen (k # ks) =
     rbind (ok_or (NotFound ''column'') (out_column sc k)) (\<lambda>m.
     if \<not> is_ordered (cm_type m) then Inl BadRequest
     else if k \<in> set seen then Inl BadRequest
     else rmap ((#) m) (check_groups sc (k # seen) ks))"

definition check_aggregate :: "table_schema \<Rightarrow> output_schema \<Rightarrow> agg_expr \<Rightarrow> agg_expr result" where
  "check_aggregate t sc a =
     (let al = (if ag_alias a = [] then default_alias (ag_func a) (ag_column a) else ag_alias a) in
      rbind (validate_ident al) (\<lambda>_.
      case ag_column a of
        None \<Rightarrow> if ag_func a \<noteq> FCount then Inl BadRequest else Inr (a\<lparr>ag_alias := al\<rparr>)
      | Some c \<Rightarrow>
          rbind (ok_or (NotFound ''column'') (out_column sc c)) (\<lambda>m.
          let ok = (case ag_func a of FCount \<Rightarrow> True
                    | FSum \<Rightarrow> is_additive (cm_type m) | FAvg \<Rightarrow> is_additive (cm_type m)
                    | FMin \<Rightarrow> is_ordered (cm_type m) | FMax \<Rightarrow> is_ordered (cm_type m)) in
          if \<not> ok then Inl BadRequest
          else if (ag_func a = FSum \<or> ag_func a = FAvg) \<and>
                  (case column t c of None \<Rightarrow> False
                   | Some col \<Rightarrow> (case semantic col of None \<Rightarrow> False | Some st \<Rightarrow> is_aggregation_hostile st))
          then Inl BadRequest
          else Inr (a\<lparr>ag_alias := al\<rparr>))))"

definition agg_meta :: "output_schema \<Rightarrow> agg_expr \<Rightarrow> column_meta" where
  "agg_meta sc a =
     \<lparr>cm_name = ag_alias a,
      cm_type = output_type (ag_func a) (map_option cm_type (Option.bind (ag_column a) (out_column sc))),
      cm_nullable = (ag_func a \<noteq> FCount)\<rparr>"

fun check_aggregates :: "table_schema \<Rightarrow> output_schema \<Rightarrow> string list \<Rightarrow> agg_expr list \<Rightarrow> agg_expr list result" where
  "check_aggregates t sc seen [] = Inr []"
| "check_aggregates t sc seen (a # as) =
     rbind (check_aggregate t sc a) (\<lambda>a.
     if ag_alias a \<in> set seen then Inl BadRequest
     else rmap ((#) a) (check_aggregates t sc (ag_alias a # seen) as))"

definition check_sort :: "output_schema \<Rightarrow> sort_expr \<Rightarrow> sort_expr result" where
  "check_sort sc k =
     rbind (ok_or (NotFound ''column'') (out_column sc (so_column k))) (\<lambda>m.
     if is_ordered (cm_type m) then Inr k else Inl BadRequest)"

type_synonym walked = "query \<times> output_schema \<times> warning list"

fun walk_plan :: "ext_lib \<Rightarrow> table_schema \<Rightarrow> query_limits \<Rightarrow> query \<Rightarrow> walked result" where
  "walk_plan L t lim (QScan tr cols) = rmap (\<lambda>(q, sc). (q, sc, [])) (check_scan t tr cols)"
| "walk_plan L t lim (QFilter q p) =
     rbind (walk_plan L t lim q) (\<lambda>(q, sc, ws).
     rbind (check_expr L sc p) (\<lambda>(p, ty).
     if ty = Some DBool \<or> ty = None then Inr (QFilter q p, sc, ws) else Inl TypeMismatch))"
| "walk_plan L t lim (QProject q es) =
     rbind (walk_plan L t lim q) (\<lambda>(q, sc, ws).
     if es = [] then Inl BadRequest
     else rmap (\<lambda>rs. (QProject q (map fst rs), map snd rs, ws)) (check_project sc [] es))"
| "walk_plan L t lim (QAggregate q gs as) =
     rbind (walk_plan L t lim q) (\<lambda>(q, sc, ws).
     if as = [] then Inl BadRequest
     else rbind (check_groups sc [] gs) (\<lambda>ms.
          rmap (\<lambda>as. (QAggregate q gs as, ms @ map (agg_meta sc) as, ws)) (check_aggregates t sc (rev gs) as)))"
| "walk_plan L t lim (QSort q ks) =
     rbind (walk_plan L t lim q) (\<lambda>(q, sc, ws).
     if ks = [] then Inl BadRequest
     else rmap (\<lambda>ks. (QSort q ks, sc, ws)) (mapM (check_sort sc) ks))"
| "walk_plan L t lim (QLimit q n skip) =
     rmap (\<lambda>(q, sc, ws).
       if max_rows lim < n then (QLimit q (max_rows lim) skip, sc, ws @ [LimitReduced n (max_rows lim)])
       else (QLimit q n skip, sc, ws)) (walk_plan L t lim q)"
| "walk_plan L t lim (QJoin _ _ _) = Inl Unsupported"

definition validate :: "ext_lib \<Rightarrow> table_schema \<Rightarrow> query_limits \<Rightarrow> query \<Rightarrow> validated_query result" where
  "validate L t lim q =
     rbind (walk_plan L t lim q) (\<lambda>(q, sc, ws).
     if sc = [] then Inl BadRequest
     else Inr \<lparr>vq_query = q, vq_schema = sc, vq_warnings = ws\<rparr>)"

end
