(* ===== verification/Prune.thy ===== *)
theory Prune
  imports Expr Segment
begin

text \<open>
  Segment pruning: \<open>crates/adb-planner/src/optimize.rs\<close> takes from a predicate the constraints on
  one column each that every matching row meets, \<open>crates/adb-exec/src/prune.rs\<close> holds them against
  the statistics of a segment. Skipping must never lose a matching row; it does for JSON columns,
  whose statistics keep no minimum.
\<close>

section \<open>Extraction\<close>

datatype prune_op = PEq | PLt | PLtEq | PGt | PGtEq | PIn | PIsNull | PIsNotNull

record prune_atom =
  pa_column :: string
  pa_op :: prune_op
  pa_values :: "adb_value list"

definition atom_binary :: "string \<Rightarrow> prune_op \<Rightarrow> adb_value \<Rightarrow> prune_atom" where
  "atom_binary c op v = \<lparr>pa_column = c, pa_op = op, pa_values = [v]\<rparr>"

definition atom_unary :: "string \<Rightarrow> prune_op \<Rightarrow> prune_atom" where
  "atom_unary c op = \<lparr>pa_column = c, pa_op = op, pa_values = []\<rparr>"

fun prune_op_of :: "binary_op \<Rightarrow> prune_op option" where
  "prune_op_of OpEq = Some PEq"
| "prune_op_of OpLt = Some PLt"
| "prune_op_of OpLtEq = Some PLtEq"
| "prune_op_of OpGt = Some PGt"
| "prune_op_of OpGtEq = Some PGtEq"
| "prune_op_of _ = None"

definition comparison_atoms :: "string \<Rightarrow> binary_op option \<Rightarrow> adb_value \<Rightarrow> prune_atom list" where
  "comparison_atoms c op v =
     (if is_null v then []
      else case Option.bind op prune_op_of of None \<Rightarrow> [] | Some p \<Rightarrow> [atom_binary c p v])"

fun conjunct_atoms :: "expr \<Rightarrow> prune_atom list" where
  "conjunct_atoms (EBinary op l r) =
     (if \<not> is_comparison op then []
      else case (as_column l, as_literal r) of
        (Some c, Some v) \<Rightarrow> comparison_atoms c (Some op) v
      | _ \<Rightarrow> (case (as_literal l, as_column r) of
                (Some v, Some c) \<Rightarrow> comparison_atoms c (flipped op) v
              | _ \<Rightarrow> []))"
| "conjunct_atoms (EBetween e lo hi False) =
     (case as_column e of None \<Rightarrow> [] | Some c \<Rightarrow> [atom_binary c PGtEq lo, atom_binary c PLtEq hi])"
| "conjunct_atoms (EInList e vs False) =
     (case as_column e of None \<Rightarrow> []
      | Some c \<Rightarrow> if vs \<noteq> [] \<and> list_all (\<lambda>v. \<not> is_null v) vs then [\<lparr>pa_column = c, pa_op = PIn, pa_values = vs\<rparr>] else [])"
| "conjunct_atoms (EIsNull e) = (case as_column e of None \<Rightarrow> [] | Some c \<Rightarrow> [atom_unary c PIsNull])"
| "conjunct_atoms (EIsNotNull e) = (case as_column e of None \<Rightarrow> [] | Some c \<Rightarrow> [atom_unary c PIsNotNull])"
| "conjunct_atoms _ = []"

definition extract_prune_atoms :: "expr \<Rightarrow> prune_atom list" where
  "extract_prune_atoms e = concat (map conjunct_atoms (conjuncts e))"

section \<open>Skipping\<close>

definition bloom_allows :: "column_stats \<Rightarrow> adb_value \<Rightarrow> bool" where
  "bloom_allows st v = (case st_bloom st of None \<Rightarrow> True | Some f \<Rightarrow> bloom_contains f v)"

definition impossible :: "column_stats \<Rightarrow> adb_value \<Rightarrow> adb_value \<Rightarrow> adb_value \<Rightarrow> bool" where
  "impossible st lo hi v \<longleftrightarrow> value_cmp v lo = Less \<or> value_cmp v hi = Greater \<or> \<not> bloom_allows st v"

fun first_value :: "(adb_value \<Rightarrow> bool) \<Rightarrow> adb_value list \<Rightarrow> bool" where
  "first_value P [] = False"
| "first_value P (v # _) = P v"

definition atom_excludes :: "segment_meta \<Rightarrow> prune_atom \<Rightarrow> bool" where
  "atom_excludes m a =
     (case stats_of m (pa_column a) of
        None \<Rightarrow> False
      | Some st \<Rightarrow>
          (case pa_op a of
             PIsNull \<Rightarrow> null_count st = 0
           | PIsNotNull \<Rightarrow> null_count st = row_count m
           | p \<Rightarrow>
               if all_null st then True
               else (case (st_min st, st_max st) of
                  (Some lo, Some hi) \<Rightarrow>
                    (case p of
                       PEq \<Rightarrow> first_value (impossible st lo hi) (pa_values a)
                     | PLt \<Rightarrow> first_value (\<lambda>v. value_cmp lo v \<noteq> Less) (pa_values a)
                     | PLtEq \<Rightarrow> first_value (\<lambda>v. value_cmp lo v = Greater) (pa_values a)
                     | PGt \<Rightarrow> first_value (\<lambda>v. value_cmp hi v \<noteq> Greater) (pa_values a)
                     | PGtEq \<Rightarrow> first_value (\<lambda>v. value_cmp hi v = Less) (pa_values a)
                     | _ \<Rightarrow> pa_values a \<noteq> [] \<and> list_all (impossible st lo hi) (pa_values a))
                | _ \<Rightarrow> False)))"

definition can_skip :: "segment_meta \<Rightarrow> prune_atom list \<Rightarrow> bool" where
  "can_skip m atoms \<longleftrightarrow> row_count m = 0 \<or> list_ex (atom_excludes m) atoms"

section \<open>What an atom says\<close>

fun op_of_atom :: "prune_op \<Rightarrow> binary_op" where
  "op_of_atom PEq = OpEq"
| "op_of_atom PLt = OpLt"
| "op_of_atom PLtEq = OpLtEq"
| "op_of_atom PGt = OpGt"
| "op_of_atom PGtEq = OpGtEq"
| "op_of_atom _ = OpAnd"

definition atom_holds :: "prune_atom \<Rightarrow> env \<Rightarrow> bool" where
  "atom_holds a env =
     (let v = env (pa_column a) in
      case pa_op a of
        PIsNull \<Rightarrow> v = VNull
      | PIsNotNull \<Rightarrow> v \<noteq> VNull
      | PIn \<Rightarrow> \<exists>w \<in> set (pa_values a). compare_values OpEq v w = VBool True
      | p \<Rightarrow> \<exists>w. pa_values a = [w] \<and> compare_values (op_of_atom p) v w = VBool True)"

lemma prune_op_back: "prune_op_of op = Some p \<Longrightarrow> op_of_atom p = op \<and> p \<notin> {PIn, PIsNull, PIsNotNull}"
  by (cases op) auto

lemma as_column_iff [simp]: "as_column e = Some c \<longleftrightarrow> e = EColumn c" "Some c = as_column e \<longleftrightarrow> e = EColumn c"
  by (cases e; auto)+

lemma as_literal_iff [simp]: "as_literal e = Some v \<longleftrightarrow> e = ELiteral v" "Some v = as_literal e \<longleftrightarrow> e = ELiteral v"
  by (cases e; auto)+

lemma comparison_atoms_hold:
  assumes "a \<in> set (comparison_atoms c (Some op) v)" "compare_values op (env c) v = VBool True"
  shows "atom_holds a env"
proof -
  obtain p where p: "prune_op_of op = Some p" "a = atom_binary c p v"
    using assms(1) by (cases "prune_op_of op") (auto simp: comparison_atoms_def split: if_splits)
  then show ?thesis using prune_op_back [OF p(1)] assms(2) by (cases p) (auto simp: atom_holds_def atom_binary_def)
qed

lemma comparison_sql: "is_comparison op \<Longrightarrow> sql_binary S op a b = compare_values op a b"
  by (auto simp: is_comparison_def sql_binary_def)

lemma conjunct_atoms_hold:
  assumes "sql_holds S env e" "a \<in> set (conjunct_atoms e)"
  shows "atom_holds a env"
proof (cases e rule: conjunct_atoms.cases)
  case (1 op l r)
  have op: "is_comparison op" using assms(2) 1 by (auto split: if_splits)
  have cmp: "compare_values op (sql S env l) (sql S env r) = VBool True"
    using assms(1) comparison_sql [OF op] by (simp add: 1 sql_holds_def)
  consider (right) c v where "l = EColumn c" "r = ELiteral v" "a \<in> set (comparison_atoms c (Some op) v)"
    | (left) c v where "l = ELiteral v" "r = EColumn c" "a \<in> set (comparison_atoms c (flipped op) v)"
    using assms(2) op by (auto simp: 1 split: option.splits)
  then show ?thesis
  proof cases
    case right
    then show ?thesis using cmp by (auto intro: comparison_atoms_hold)
  next
    case left
    then obtain op' where f: "flipped op = Some op'" by (cases "flipped op") (auto simp: comparison_atoms_def split: if_splits)
    show ?thesis
      by (rule comparison_atoms_hold [of a c op' v]) (use left cmp f cmp_flipped [OF f, of v "env c"] in auto)
  qed
next
  case (2 e lo hi)
  then show ?thesis
    using assms by (auto simp: sql_holds_def negate_if_def atom_holds_def atom_binary_def split: option.splits)
next
  case (3 e vs)
  then show ?thesis
    using assms by (auto simp: sql_holds_def negate_if_def atom_holds_def sql_in_true compare_true split: option.splits if_splits)
qed (use assms in \<open>auto simp: sql_holds_def atom_holds_def atom_unary_def split: option.splits\<close>)

lemma extracted_hold:
  assumes "sql_holds S env e" "a \<in> set (extract_prune_atoms e)"
  shows "atom_holds a env"
  using assms conjunct_atoms_hold unfolding holds_conjuncts [of S env e] by (auto simp: extract_prune_atoms_def)

section \<open>What the statistics say\<close>

text \<open>\<open>summarised m ty env\<close>: the statistics of a segment hold for the row \<open>env\<close> of it.\<close>

definition summarised :: "segment_meta \<Rightarrow> (string \<Rightarrow> data_type) \<Rightarrow> env \<Rightarrow> bool" where
  "summarised m ty env \<longleftrightarrow> row_count m \<noteq> 0 \<and> (\<forall>c st. stats_of m c = Some st \<longrightarrow>
     fits (ty c) (env c) \<and> stats_range_ok (ty c) st \<and>
     (null_count st = 0 \<longrightarrow> env c \<noteq> VNull) \<and> (null_count st = row_count m \<longrightarrow> env c = VNull) \<and>
     (ty c \<noteq> DJson \<longrightarrow> env c \<noteq> VNull \<longrightarrow> bounded st (env c)) \<and> bloom_allows st (env c))"

definition atom_typed :: "(string \<Rightarrow> data_type) \<Rightarrow> prune_atom \<Rightarrow> bool" where
  "atom_typed ty a \<longleftrightarrow> list_all (fits (ty (pa_column a))) (pa_values a) \<and>
     (ty (pa_column a) = DJson \<longrightarrow> pa_op a \<in> {PIsNull, PIsNotNull})"

lemma atom_not_excluded:
  assumes m: "summarised m ty env" and a: "atom_typed ty a" "atom_holds a env"
  shows "\<not> atom_excludes m a"
proof
  assume x: "atom_excludes m a"
  let ?c = "pa_column a" and ?v = "env (pa_column a)"
  obtain st where st: "stats_of m ?c = Some st" using x by (auto simp: atom_excludes_def split: option.splits)
  have S: "fits (ty ?c) ?v" "stats_range_ok (ty ?c) st" "null_count st = 0 \<longrightarrow> ?v \<noteq> VNull" "null_count st = row_count m \<longrightarrow> ?v = VNull"
    "ty ?c \<noteq> DJson \<longrightarrow> ?v \<noteq> VNull \<longrightarrow> bounded st ?v" "bloom_allows st ?v"
    using m st by (auto simp: summarised_def)
  show False
  proof (cases "pa_op a \<in> {PIsNull, PIsNotNull}")
    case True
    then show ?thesis using x a(2) S(3,4) st by (auto simp: atom_excludes_def atom_holds_def)
  next
    case False
    then have nj: "ty ?c \<noteq> DJson" using a(1) by (auto simp: atom_typed_def)
    have nn: "?v \<noteq> VNull" using a(2) False by (cases "pa_op a") (auto simp: atom_holds_def compare_true)
    obtain lo hi where b: "st_min st = Some lo" "st_max st = Some hi" "value_cmp lo ?v \<noteq> Greater" "value_cmp ?v hi \<noteq> Greater"
      using S(5) nj nn by (auto simp: bounded_def)
    have t: "fits (ty ?c) lo" "fits (ty ?c) hi" using S(2) b(1,2) by (auto simp: stats_range_ok_def intro: conforms_fits)
    have vals: "fits (ty ?c) w" if "w \<in> set (pa_values a)" for w using a(1) that by (simp add: atom_typed_def list_all_iff)
    have eq: "\<not> impossible st lo hi w" if w: "w \<in> set (pa_values a)" "value_cmp ?v w = Equal" for w
    proof -
      have "?v = w" using value_cmp_eq [OF S(1) vals [OF w(1)]] w(2) by simp
      then show ?thesis using b(3,4) S(6) value_cmp_flip [of lo ?v] by (cases "value_cmp lo ?v") (auto simp: impossible_def)
    qed
    have less: "value_cmp lo w = Less" if w: "fits (ty ?c) w" "value_cmp ?v w = Less" for w
      using value_order.le_less_trans [OF t(1) S(1) w(1) b(3) w(2)] .
    have greater: "value_cmp hi w = Greater" if w: "fits (ty ?c) w" "value_cmp ?v w = Greater" for w
    proof -
      have "value_cmp w ?v = Less" using w(2) value_cmp_flip [of w ?v] by (cases "value_cmp w ?v") auto
      then have "value_cmp w hi = Less" using value_order.less_le_trans [OF w(1) S(1) t(2) _ b(4)] by simp
      then show ?thesis using value_cmp_flip [of hi w] by simp
    qed
    have le: "value_cmp lo w \<noteq> Greater" if w: "fits (ty ?c) w" "value_cmp ?v w \<noteq> Greater" for w
      using value_order.le_trans [OF t(1) S(1) w(1) b(3) w(2)] .
    have ge: "value_cmp hi w \<noteq> Less" if w: "fits (ty ?c) w" "value_cmp ?v w \<noteq> Less" for w
    proof
      assume "value_cmp hi w = Less"
      then have "value_cmp ?v w = Less" using value_order.le_less_trans [OF S(1) t(2) w(1) b(4)] by simp
      then show False using w(2) by simp
    qed
    have ann: "\<not> all_null st" using b(1) by (simp add: all_null_def)
    show ?thesis
      using x a(2) False st b(1,2) ann eq vals less greater le ge
      by (cases "pa_op a") (auto simp: atom_excludes_def atom_holds_def compare_true list_all_iff Let_def)
  qed
qed

lemma skip_sound:
  assumes "summarised m ty env" "\<forall>a \<in> set (extract_prune_atoms e). atom_typed ty a" "sql_holds S env e"
  shows "\<not> can_skip m (extract_prune_atoms e)"
  using assms atom_not_excluded extracted_hold
  by (fastforce simp: can_skip_def list_ex_iff summarised_def)

section \<open>Rows of a written segment\<close>

definition row_env :: "table_schema \<Rightarrow> row \<Rightarrow> env" where
  "row_env s r n = (case column_index s n of Some i \<Rightarrow> r ! i | None \<Rightarrow> VNull)"

definition type_of_column :: "table_schema \<Rightarrow> string \<Rightarrow> data_type" where
  "type_of_column s n = (case column s n of Some c \<Rightarrow> col_type c | None \<Rightarrow> DBool)"

lemma row_env_nth:
  assumes "distinct (map col_name (columns s))" "i < length (columns s)"
  shows "row_env s r (col_name (columns s ! i)) = r ! i" "type_of_column s (col_name (columns s ! i)) = col_type (columns s ! i)"
  using position_nth_distinct [OF assms] find_by_name [OF assms(1), of "columns s ! i"] assms(2)
  by (simp_all add: row_env_def type_of_column_def column_index_def)

lemma stats_of_name:
  assumes d: "distinct (map col_name (columns s))" and n: "num_columns b = length (columns s)"
    and st: "bt_get (compute_stats M s b) n = Some st"
  obtains i where "i < length (columns s)" "n = col_name (columns s ! i)" "st = column_stats_of M (columns s ! i) (batch_column b i)"
proof -
  have "map (col_name \<circ> snd) (enumerate 0 (columns s)) = map col_name (columns s)" by (simp flip: map_map)
  then have "(case find (\<lambda>(idx, c). col_name c = n) (enumerate 0 (columns s)) of
      Some (idx, c) \<Rightarrow> Some (column_stats_of M c (batch_column b idx)) | None \<Rightarrow> None) = Some st"
    using stats_fold_get [of "[]" "enumerate 0 (columns s)" "\<lambda>idx c. column_stats_of M c (batch_column b idx)" n] d st n
    by (simp add: compute_stats_def cong: option.case_cong)
  then obtain i c where ic: "find (\<lambda>(idx, c). col_name c = n) (enumerate 0 (columns s)) = Some (i, c)"
      "st = column_stats_of M c (batch_column b i)"
    by (auto split: option.splits)
  have "(i, c) \<in> set (enumerate 0 (columns s))" "col_name c = n" using find_Some_set [OF ic(1)] by auto
  then show ?thesis using ic(2) by (intro that [of i]) (auto simp: in_set_enumerate_eq)
qed

lemma written_summarised:
  assumes b: "batch_ok b" "bfields b = arrow_schema s" and s: "schema_ok s"
    and m: "row_count m = num_rows b" "seg_columns m = compute_stats M s b" and r: "r \<in> set (brows b)"
  shows "summarised m (type_of_column s) (row_env s r)"
proof -
  have d: "distinct (map col_name (columns s))" using s by (simp add: schema_ok_def)
  have nc: "num_columns b = length (columns s)" using b(2) by (simp add: num_columns_def arrow_schema_def)
  have "row_count m \<noteq> 0" using m(1) r by (auto simp: num_rows_def)
  moreover have "fits (type_of_column s c) (row_env s r c) \<and> stats_range_ok (type_of_column s c) st \<and>
     (null_count st = 0 \<longrightarrow> row_env s r c \<noteq> VNull) \<and> (null_count st = row_count m \<longrightarrow> row_env s r c = VNull) \<and>
     (type_of_column s c \<noteq> DJson \<longrightarrow> row_env s r c \<noteq> VNull \<longrightarrow> bounded st (row_env s r c)) \<and> bloom_allows st (row_env s r c)"
    if st: "stats_of m c = Some st" for c st
  proof -
    obtain i where i: "i < length (columns s)" "c = col_name (columns s ! i)" "st = column_stats_of M (columns s ! i) (batch_column b i)"
      using stats_of_name [OF d nc, of M c st] st m(2) by (auto simp: stats_of_def)
    let ?vs = "batch_column b i"
    have e: "row_env s r c = r ! i" "type_of_column s c = col_type (columns s ! i)" using row_env_nth [OF d i(1)] i(2) by simp_all
    have "fits (col_type (columns s ! i)) (q ! i)" if "q \<in> set (brows b)" for q
      using b i(1) that
      by (auto simp: batch_ok_def row_ok_def list_all_iff list_all2_conv_all_nth field_fits_def arrow_schema_def arrow_field_def fits_arrow)
    then have f: "\<forall>v \<in> set ?vs. fits (col_type (columns s ! i)) v" by (simp add: batch_column_def)
    have ri: "r ! i \<in> set ?vs" using r by (auto simp: batch_column_def)
    note S = column_stats_sound [OF f, where M = M]
    have nulls: "null_count st = length (filter (\<lambda>v. v = VNull) ?vs)" using S(1) i(3) by simp
    have "null_count st = 0 \<longrightarrow> r ! i \<noteq> VNull" using nulls ri by (auto simp: filter_empty_conv)
    moreover have "null_count st = row_count m \<longrightarrow> r ! i = VNull"
    proof
      assume "null_count st = row_count m"
      then have "length (filter (\<lambda>v. v = VNull) ?vs) = length ?vs" using nulls m(1) by (simp add: num_rows_def batch_column_def)
      then show "r ! i = VNull" using ri by (metis (mono_tags, lifting) filter_id_conv length_filter_less order_less_irrefl)
    qed
    ultimately show ?thesis
      using f ri S(2) S(3) [OF _ ri] S(4) [OF _ ri] i(3) e by (auto simp: bloom_allows_def split: option.splits)
  qed
  ultimately show ?thesis by (simp add: summarised_def)
qed

definition prunable :: "table_schema \<Rightarrow> expr \<Rightarrow> bool" where
  "prunable s e \<longleftrightarrow> list_all (atom_typed (type_of_column s)) (extract_prune_atoms e)"

section \<open>Properties\<close>

text \<open>
  Remark: pruning loses no row: a segment that holds a row the predicate accepts is never skipped on the
  constraints extracted from the predicate, whose literals have their columns' types and which
  compare no JSON column.
\<close>

theorem prune_sound:
  assumes "batch_ok b" "bfields b = arrow_schema s" "validate_schema s = Inr ()"
    and "row_count m = num_rows b" "seg_columns m = compute_stats M s b"
    and "r \<in> set (brows b)" "prunable s e" "sql_holds S (row_env s r) e"
  shows "\<not> can_skip m (extract_prune_atoms e)"
proof (rule skip_sound [OF written_summarised _ assms(8)])
  show "schema_ok s" using assms(3) by (simp add: validate_schema_iff)
  show "\<forall>a \<in> set (extract_prune_atoms e). atom_typed (type_of_column s) a"
    using assms(7) by (simp add: prunable_def list_all_iff)
qed (rule assms)+

definition demo_sql :: sql_lib where
  "demo_sql = \<lparr>sql_arith = \<lambda>_ _ _. VNull, sql_like = \<lambda>s p. s = p\<rparr>"

definition demo_meta :: segment_meta where
  "demo_meta = \<lparr>seg_id = 1, seg_key = ''k'', row_count = num_rows demo_batch, seg_bytes = 9, seg_schema_version = 1,
     seg_columns = compute_stats demo_math demo_schema demo_batch\<rparr>"

lemma demo_names: "column_index demo_schema ''id'' = Some 0" "column_index demo_schema ''country'' = Some 1"
  "type_of_column demo_schema ''id'' = DInt64" "type_of_column demo_schema ''country'' = DUtf8"
  by (simp_all add: column_index_def type_of_column_def column_def demo_schema_def new_table_def new_column_def)

theorem prune_sound_witness:
  "\<not> can_skip demo_meta (extract_prune_atoms (EBinary OpAnd (EBinary OpGt (EColumn ''id'') (ELiteral (VInt 2)))
     (EIsNotNull (EColumn ''country''))))"
proof -
  let ?e = "EBinary OpAnd (EBinary OpGt (EColumn ''id'') (ELiteral (VInt 2))) (EIsNotNull (EColumn ''country''))"
  have p: "prunable demo_schema ?e"
    by (simp add: prunable_def extract_prune_atoms_def is_comparison_def comparison_atoms_def atom_typed_def atom_binary_def
      atom_unary_def demo_names fits_def)
  have h: "sql_holds demo_sql (row_env demo_schema [VInt 3, VStr ''usa'']) ?e"
    unfolding sql_and by (simp add: sql_holds_def sql_binary_def is_comparison_def compare_values_def row_env_def demo_names)
  have r: "[VInt 3, VStr ''usa''] \<in> set (brows demo_batch)" by (simp add: demo_batch_def)
  show ?thesis
    by (rule prune_sound [OF demo_batch_ok _ demo_schema_ok _ _ r p h, where M = demo_math])
      (simp_all add: demo_batch_def demo_meta_def)
qed

text \<open>
  C38: a defect: on a JSON column an equality skips every segment, also one with a row that satisfies
  it, because the missing minimum of its statistics is taken for a column of NULLs.
\<close>

theorem json_prune_loses_rows:
  assumes "batch_ok b" "bfields b = arrow_schema s" "validate_schema s = Inr ()"
    and "seg_columns m = compute_stats M s b"
    and "i < length (columns s)" "col_type (columns s ! i) = DJson" "r \<in> set (brows b)" "r ! i = VStr doc"
  shows "sql_holds S (row_env s r) (EBinary OpEq (EColumn (col_name (columns s ! i))) (ELiteral (VStr doc))) \<and>
    can_skip m (extract_prune_atoms (EBinary OpEq (EColumn (col_name (columns s ! i))) (ELiteral (VStr doc))))"
proof -
  have d: "distinct (map col_name (columns s))" using assms(3) by (simp add: validate_schema_iff schema_ok_def)
  have n: "i < num_columns b" using assms(2,5) by (simp add: num_columns_def arrow_schema_def)
  let ?st = "column_stats_of M (columns s ! i) (batch_column b i)"
  have st: "stats_of m (col_name (columns s ! i)) = Some ?st"
    using stats_of_column [OF d assms(5) n] assms(4) by (simp add: stats_of_def)
  have "st_min (foldl (stats_step DJson) st0 vs) = st_min st0" for st0 vs
    by (induction vs arbitrary: st0) (simp_all add: stats_step_json)
  then have "all_null ?st" using assms(6) by (simp add: all_null_def column_stats_of_def empty_stats_def Let_def)
  then have "can_skip m (extract_prune_atoms (EBinary OpEq (EColumn (col_name (columns s ! i))) (ELiteral (VStr doc))))"
    using st by (simp add: can_skip_def extract_prune_atoms_def is_comparison_def comparison_atoms_def atom_binary_def atom_excludes_def)
  moreover have "sql_holds S (row_env s r) (EBinary OpEq (EColumn (col_name (columns s ! i))) (ELiteral (VStr doc)))"
    using row_env_nth(1) [OF d assms(5), of r] assms(8) by (simp add: sql_holds_def sql_binary_def is_comparison_def compare_values_def)
  ultimately show ?thesis by blast
qed

definition json_schema :: table_schema where
  "json_schema = (new_table ''docs'' [(new_column ''id'' DInt64)\<lparr>nullable := False\<rparr>, new_column ''doc'' DJson])
     \<lparr>primary_key := [''id''], partitions := 1\<rparr>"

theorem json_prune_loses_rows_witness:
  "let b = \<lparr>bfields = arrow_schema json_schema, brows = [[VInt 1, VStr ''{}'']]\<rparr>;
       m = \<lparr>seg_id = 1, seg_key = ''k'', row_count = 1, seg_bytes = 9, seg_schema_version = 1,
            seg_columns = compute_stats demo_math json_schema b\<rparr>
   in can_skip m (extract_prune_atoms (EBinary OpEq (EColumn ''doc'') (ELiteral (VStr ''{}''))))"
proof -
  let ?b = "\<lparr>bfields = arrow_schema json_schema, brows = [[VInt 1, VStr ''{}'']]\<rparr>"
  have ok: "validate_schema json_schema = Inr ()"
    by (simp add: validate_schema_iff schema_ok_def json_schema_def new_table_def new_column_def
      max_columns_def max_partitions_def column_ok_def key_column_ok_def column_def ident_ok_iff
      max_ident_len_def ident_char_def is_ascii_lowercase_def is_ascii_digit_def)
  have b: "batch_ok ?b"
    by (simp add: batch_ok_def arrow_schema_def json_schema_def new_table_def new_column_def row_ok_def field_fits_def arrow_field_def)
  have c: "columns json_schema = [(new_column ''id'' DInt64)\<lparr>nullable := False\<rparr>, new_column ''doc'' DJson]"
    by (simp add: json_schema_def new_table_def)
  show ?thesis
    using json_prune_loses_rows [OF b _ ok, of _ demo_math 1 "[VInt 1, VStr ''{}'']" "''{}''"] by (simp add: c new_column_def Let_def)
qed

end
