(* ===== verification/ValidateProps.thy ===== *)
theory ValidateProps
  imports Validate Prune
begin

text \<open>
  What validation guarantees: the types of expressions and literals, distinct output names, clamped
  limits, and that a validated plan is a fixed point of the validator.
\<close>

section \<open>Checked expressions\<close>

lemma data_type_fits: "data_type_of v = Some t \<Longrightarrow> fits t v"
  by (cases v) (auto simp: fits_def)

lemma data_type_None [simp]: "data_type_of v = None \<longleftrightarrow> v = VNull"
  by (cases v) auto

lemma coerce_to_fits: "coerce_to L (Some t) v = Inr w \<Longrightarrow> fits t w"
  by (auto simp: coerce_to_def dest: coerce_fits)

lemma coerce_to_idem: "coerce_to L ty v = Inr w \<Longrightarrow> coerce_to L ty w = Inr w"
  by (cases ty) (auto simp: coerce_to_def dest!: coerce_fits intro: coerce_fitting)

lemma coerce_sides_cases:
  assumes "coerce_sides L l r = Inr (l', r')"
  obtains (right) t v w where "snd l = Some t" "fst r = ELiteral v" "coerce_literal L v t = Inr w" "l' = l" "r' = (ELiteral w, Some t)"
  | (left) t v w where "fst l = ELiteral v" "snd r = Some t" "coerce_literal L v t = Inr w" "l' = (ELiteral w, Some t)" "r' = r"
      "snd l = None \<or> (\<forall>u. fst r \<noteq> ELiteral u)"
  | (keep) "l' = l" "r' = r" "snd l = None \<or> (\<forall>v. fst r \<noteq> ELiteral v)" "snd r = None \<or> (\<forall>v. fst l \<noteq> ELiteral v)"
  using assms by (cases "snd l"; cases "snd r"; cases "fst r"; cases "fst l") (auto simp: coerce_sides_def result_simps)

text \<open>How a binary expression is checked, with its two sides.\<close>

lemma check_sides_cases:
  assumes "check_sides L op l r = Inr (e, ty)"
  obtains (logical) "is_logical op" "e = EBinary op (fst l) (fst r)" "ty = Some DBool"
      "snd l \<in> {Some DBool, None}" "snd r \<in> {Some DBool, None}"
  | (like) s where "op = OpLike" "e = EBinary op (fst l) (fst r)" "ty = Some DBool" "fst r = ELiteral (VStr s)"
      "snd l \<in> {None, Some DUtf8, Some DUuid}"
  | (arith) l' r' lt rt where "is_arithmetic op" "coerce_sides L l r = Inr (l', r')" "e = EBinary op (fst l') (fst r')"
      "snd l' = Some lt" "snd r' = Some rt" "is_numeric lt" "is_numeric rt"
      "ty = Some (if lt = DFloat64 \<or> rt = DFloat64 then DFloat64 else DInt64)"
  | (comparison) l' r' where "is_comparison op" "coerce_sides L l r = Inr (l', r')" "e = EBinary op (fst l') (fst r')" "ty = Some DBool"
      "\<forall>lt rt. snd l' = Some lt \<longrightarrow> snd r' = Some rt \<longrightarrow>
        (lt = rt \<or> is_numeric lt \<and> is_numeric rt) \<and> (is_ordered lt \<or> op \<in> {OpEq, OpNotEq})"
proof -
  consider "is_logical op" | "op = OpLike" | "is_arithmetic op" | "is_comparison op"
    by (cases op) (auto simp: is_logical_def is_arithmetic_def is_comparison_def)
  then show ?thesis
  proof cases
    case 1
    then show ?thesis using assms logical by (auto simp: check_sides_def expect_bool_def result_simps)
  next
    case 2
    then show ?thesis using assms like
      by (auto simp: check_sides_def is_logical_def split: if_splits option.splits adb_value.splits)
  next
    case 3
    then have "\<not> is_logical op" "op \<noteq> OpLike" by (auto simp: is_arithmetic_def is_logical_def)
    then obtain l' r' where c: "coerce_sides L l r = Inr (l', r')" using assms by (auto simp: check_sides_def result_simps)
    then show ?thesis using assms arith [OF 3 c] 3 \<open>\<not> is_logical op\<close> \<open>op \<noteq> OpLike\<close>
      by (auto simp: check_sides_def result_simps require_type_def split: if_splits)
  next
    case 4
    then have n: "\<not> is_logical op" "op \<noteq> OpLike" "\<not> is_arithmetic op" by (auto simp: is_arithmetic_def is_logical_def is_comparison_def)
    then obtain l' r' where c: "coerce_sides L l r = Inr (l', r')" using assms by (auto simp: check_sides_def result_simps)
    have "e = EBinary op (fst l') (fst r') \<and> ty = Some DBool \<and> (\<forall>lt rt. snd l' = Some lt \<longrightarrow> snd r' = Some rt \<longrightarrow>
        (lt = rt \<or> is_numeric lt \<and> is_numeric rt) \<and> (is_ordered lt \<or> op \<in> {OpEq, OpNotEq}))"
      using assms n c by (cases "snd l'"; cases "snd r'") (auto simp: check_sides_def result_simps split: if_splits)
    then show ?thesis using comparison [OF 4 c] by blast
  qed
qed

definition env_typed :: "output_schema \<Rightarrow> env \<Rightarrow> bool" where
  "env_typed sc env \<longleftrightarrow> (\<forall>c \<in> set sc. fits (cm_type c) (env (cm_name c)))"

definition arith_typed :: "sql_lib \<Rightarrow> bool" where
  "arith_typed S \<longleftrightarrow> (\<forall>op t u a b. is_arithmetic op \<longrightarrow> is_numeric t \<longrightarrow> is_numeric u \<longrightarrow> fits t a \<longrightarrow> fits u b \<longrightarrow>
     fits (if t = DFloat64 \<or> u = DFloat64 then DFloat64 else DInt64) (sql_arith S op a b))"

definition has_type :: "data_type option \<Rightarrow> adb_value \<Rightarrow> bool" where
  "has_type ty v \<longleftrightarrow> (case ty of Some t \<Rightarrow> fits t v | None \<Rightarrow> v = VNull)"

lemma fits_bool [simp]: "fits DBool v \<longleftrightarrow> v = VNull \<or> (\<exists>b. v = VBool b)"
  by (cases v) (auto simp: fits_def)

lemma kleene_and_fits: "kleene_and a c = VNull \<or> (\<exists>b. kleene_and a c = VBool b)"
  by (induction a c rule: kleene_and.induct) auto

lemma kleene_not_fits: "kleene_not a = VNull \<or> (\<exists>b. kleene_not a = VBool b)"
  by (cases a) auto

lemma kleene_or_fits: "kleene_or a c = VNull \<or> (\<exists>b. kleene_or a c = VBool b)"
  unfolding kleene_or_def by (rule kleene_not_fits)

lemma sql_in_fits: "sql_in v vs = VNull \<or> (\<exists>b. sql_in v vs = VBool b)"
  unfolding sql_in_def by (cases vs) (auto simp del: ex_simps simp: kleene_or_fits)

lemma negate_fits: "v = VNull \<or> (\<exists>b. v = VBool b) \<Longrightarrow> negate_if neg v = VNull \<or> (\<exists>b. negate_if neg v = VBool b)"
  unfolding negate_if_def by (cases neg) (auto simp: kleene_not_fits)

lemma like_fits: "like_values f a c = VNull \<or> (\<exists>b. like_values f a c = VBool b)"
  by (induction f a c rule: like_values.induct) auto

lemma sql_binary_bool: "\<not> is_arithmetic op \<Longrightarrow> sql_binary S op u v = VNull \<or> (\<exists>b. sql_binary S op u v = VBool b)"
  by (cases op) (auto simp: sql_binary_def is_arithmetic_def is_comparison_def compare_values_def kleene_and_fits kleene_or_fits like_fits)

lemma check_expr_typed:
  assumes "env_typed sc env" "arith_typed S" "check_expr L sc e = Inr (e', ty)"
  shows "has_type ty (sql S env e')"
  using assms(3)
proof (induction e arbitrary: e' ty)
  case (EColumn n)
  then show ?case using assms(1) by (auto simp: has_type_def result_simps env_typed_def dest: out_column_name)
next
  case (ELiteral v)
  then show ?case by (auto simp: has_type_def data_type_fits split: option.splits)
next
  case (EBinary op l r)
  obtain l1 r1 where lr: "check_expr L sc l = Inr l1" "check_expr L sc r = Inr r1" and c: "check_sides L op l1 r1 = Inr (e', ty)"
    using EBinary.prems by (auto simp: result_simps)
  have I: "has_type (snd l1) (sql S env (fst l1))" "has_type (snd r1) (sql S env (fst r1))"
    using EBinary.IH(1) [of "fst l1" "snd l1"] EBinary.IH(2) [of "fst r1" "snd r1"] lr by simp_all
  show ?case using c
  proof (cases rule: check_sides_cases)
    case (arith l' r' lt rt)
    have "has_type (snd l') (sql S env (fst l'))" "has_type (snd r') (sql S env (fst r'))"
      using arith(2) I by (cases rule: coerce_sides_cases; auto simp: has_type_def dest: coerce_fits)+
    moreover have "sql_binary S op u v = (if u = VNull \<or> v = VNull then VNull else sql_arith S op u v)" for u v
      using arith(1) by (auto simp: sql_binary_def is_arithmetic_def is_comparison_def)
    ultimately show ?thesis
      using arith(1,3-8) assms(2) by (simp add: has_type_def arith_typed_def)
  next
    case logical
    then have "\<not> is_arithmetic op" by (auto simp: is_logical_def is_arithmetic_def)
    then show ?thesis using logical sql_binary_bool [of op S] by (auto simp: has_type_def)
  next
    case (like s)
    then have "\<not> is_arithmetic op" by (auto simp: is_arithmetic_def)
    then show ?thesis using like sql_binary_bool [of op S] by (auto simp: has_type_def)
  next
    case (comparison l' r')
    then have "\<not> is_arithmetic op" by (auto simp: is_comparison_def is_arithmetic_def)
    then show ?thesis using comparison sql_binary_bool [of op S] by (auto simp: has_type_def)
  qed
next
  case (ENot e)
  then show ?case using kleene_not_fits by (auto simp: result_simps has_type_def)
next
  case (EIsNull e)
  then show ?case by (auto simp: result_simps has_type_def)
next
  case (EIsNotNull e)
  then show ?case by (auto simp: result_simps has_type_def)
next
  case (EInList e vs neg)
  then show ?case using negate_fits [OF sql_in_fits] by (auto simp: result_simps has_type_def split: if_splits)
next
  case (EBetween e lo hi neg)
  then show ?case using negate_fits [OF kleene_and_fits] by (auto simp: result_simps has_type_def split: if_splits)
qed

lemma check_expr_columns: "check_expr L sc e = Inr (e', ty) \<Longrightarrow> expr_columns e' = expr_columns e \<and> expr_columns e \<subseteq> set (out_names sc)"
proof (induction e arbitrary: e' ty)
  case (EBinary op l r)
  obtain l1 r1 where lr: "check_expr L sc l = Inr l1" "check_expr L sc r = Inr r1" and c: "check_sides L op l1 r1 = Inr (e', ty)"
    using EBinary.prems by (auto simp: result_simps)
  have I: "expr_columns (fst l1) = expr_columns l \<and> expr_columns l \<subseteq> set (out_names sc)"
      "expr_columns (fst r1) = expr_columns r \<and> expr_columns r \<subseteq> set (out_names sc)"
    using EBinary.IH(1) [of "fst l1" "snd l1"] EBinary.IH(2) [of "fst r1" "snd r1"] lr by simp_all
  have S: "coerce_sides L l1 r1 = Inr (l', r') \<Longrightarrow> expr_columns (fst l') = expr_columns l \<and> expr_columns (fst r') = expr_columns r" for l' r'
    using I by (auto elim!: coerce_sides_cases)
  show ?case using c I S by (cases rule: check_sides_cases) auto
qed (auto simp: result_simps split: if_splits dest: out_column_name)

text \<open>A checked expression is a fixed point of the check.\<close>

lemma coerce_sides_idem:
  assumes "coerce_sides L l r = Inr (l', r')" and "\<And>v. fst l = ELiteral v \<Longrightarrow> snd l = data_type_of v"
    and "\<And>v. fst r = ELiteral v \<Longrightarrow> snd r = data_type_of v"
    and "l2 = (fst l', case fst l' of ELiteral v \<Rightarrow> data_type_of v | _ \<Rightarrow> snd l')"
    and "r2 = (fst r', case fst r' of ELiteral v \<Rightarrow> data_type_of v | _ \<Rightarrow> snd r')"
  shows "coerce_sides L l2 r2 = Inr (l', r')"
  using assms(1)
proof (cases rule: coerce_sides_cases)
  case (right t v w)
  have "coerce_literal L w t = Inr w" using coerce_fits [OF right(3)] coerce_fitting by blast
  then show ?thesis using right assms(2-5)
    by (cases "fst l") (auto simp: coerce_sides_def prod_eq_iff)
next
  case (left t v w)
  have "coerce_literal L w t = Inr w" using coerce_fits [OF left(3)] coerce_fitting by blast
  then show ?thesis using left assms(2-5) coerce_fits [OF left(3)]
    by (cases "fst r"; cases "data_type_of w"; cases "snd r") (auto simp: coerce_sides_def prod_eq_iff split: option.split)
next
  case keep
  then have "l2 = l" "r2 = r" using assms(2-5) by (cases "fst l"; cases "fst r"; auto simp: prod_eq_iff)+
  then show ?thesis using assms(1) by simp
qed

lemma coerce_sides_shape:
  assumes "coerce_sides L l r = Inr (l', r')"
  shows "(l' = l \<or> (\<exists>w. fst l' = ELiteral w)) \<and> (r' = r \<or> (\<exists>w. fst r' = ELiteral w))"
  using assms by (cases rule: coerce_sides_cases) auto


lemma check_literal: "check_expr L sc e = Inr (ELiteral v, ty) \<Longrightarrow> ty = data_type_of v"
  by (cases e) (auto simp: result_simps split: if_splits elim!: check_sides_cases)

lemma check_sides_congr:
  assumes "check_sides L op l r = Inr (e, ty)" "e = EBinary op' a b" "is_comparison op \<or> is_arithmetic op"
    and "coerce_sides L l2 r2 = coerce_sides L l r"
  shows "check_sides L op l2 r2 = Inr (e, ty)"
  using assms by (auto simp: check_sides_def is_comparison_def is_arithmetic_def is_logical_def)

lemma mapM_coerce_idem: "mapM (coerce_to L ty) vs = Inr ws \<Longrightarrow> mapM (coerce_to L ty) ws = Inr ws"
  by (induction vs arbitrary: ws) (auto simp: result_simps coerce_to_idem)

lemma check_expr_idem: "check_expr L sc e = Inr (e', ty) \<Longrightarrow> check_expr L sc e' = Inr (e', ty)"
proof (induction e arbitrary: e' ty)
  case (EBinary op l r)
  obtain l1 r1 where lr: "check_expr L sc l = Inr l1" "check_expr L sc r = Inr r1" and c: "check_sides L op l1 r1 = Inr (e', ty)"
    using EBinary.prems by (auto simp: result_simps)
  have I: "check_expr L sc (fst l1) = Inr l1" "check_expr L sc (fst r1) = Inr r1"
    using EBinary.IH(1) [of "fst l1" "snd l1"] EBinary.IH(2) [of "fst r1" "snd r1"] lr by simp_all
  have lit: "fst l1 = ELiteral v \<Longrightarrow> snd l1 = data_type_of v" "fst r1 = ELiteral v \<Longrightarrow> snd r1 = data_type_of v" for v
    using check_literal [of L sc l v "snd l1"] check_literal [of L sc r v "snd r1"] lr by (metis prod.collapse)+
  have sides: "check_expr L sc (EBinary op (fst l') (fst r')) = Inr (e', ty)"
    if s: "coerce_sides L l1 r1 = Inr (l', r')" and op: "is_comparison op \<or> is_arithmetic op" and e: "e' = EBinary op (fst l') (fst r')" for l' r'
  proof -
    let ?l = "(fst l', case fst l' of ELiteral v \<Rightarrow> data_type_of v | _ \<Rightarrow> snd l')"
    let ?r = "(fst r', case fst r' of ELiteral v \<Rightarrow> data_type_of v | _ \<Rightarrow> snd r')"
    have "check_expr L sc (fst l') = Inr ?l"
      using coerce_sides_shape [OF s] I(1) lit(1) by (cases l1; cases l'; cases "fst l'") auto
    moreover have "check_expr L sc (fst r') = Inr ?r"
      using coerce_sides_shape [OF s] I(2) lit(2) by (cases r1; cases r'; cases "fst r'") auto
    moreover have "coerce_sides L ?l ?r = coerce_sides L l1 r1"
      using coerce_sides_idem [OF s lit refl refl] s by simp
    ultimately show ?thesis using check_sides_congr [OF c e op] by simp
  qed
  show ?case using c
  proof (cases rule: check_sides_cases)
    case logical
    then show ?thesis using I c by simp
  next
    case (like s)
    then show ?thesis using I c by simp
  next
    case (arith l' r' lt rt)
    then show ?thesis using sides by simp
  next
    case (comparison l' r')
    then show ?thesis using sides by simp
  qed
next
  case (EInList e vs neg)
  from EInList.prems obtain d t ws where c: "check_expr L sc e = Inr (d, t)" "vs \<noteq> []" "mapM (coerce_to L t) vs = Inr ws"
      "e' = EInList d ws neg" "ty = Some DBool"
    by (auto simp: result_simps split: if_splits)
  have "ws \<noteq> []" using mapM_Inr_length [OF c(3)] c(2) by auto
  then show ?case using EInList.IH [OF c(1)] mapM_coerce_idem [OF c(3)] c(4,5) by simp
next
  case (EBetween e lo hi neg)
  from EBetween.prems obtain d t lo' hi' where c: "check_expr L sc e = Inr (d, t)" "coerce_to L t lo = Inr lo'" "coerce_to L t hi = Inr hi'"
      "value_cmp lo' hi' \<noteq> Greater" "e' = EBetween d lo' hi' neg" "ty = Some DBool"
    by (auto simp: result_simps split: if_splits)
  then show ?case using EBetween.IH [OF c(1)] coerce_to_idem [OF c(2)] coerce_to_idem [OF c(3)] by simp
next
  case (ENot e)
  from ENot.prems obtain d t where c: "check_expr L sc e = Inr (d, t)" "expect_bool t = Inr ()" "e' = ENot d" "ty = Some DBool"
    by (auto simp: result_simps)
  then show ?case using ENot.IH [OF c(1)] by simp
next
  case (EIsNull e)
  from EIsNull.prems obtain d t where c: "check_expr L sc e = Inr (d, t)" "e' = EIsNull d" "ty = Some DBool"
    by (auto simp: result_simps)
  then show ?case using EIsNull.IH [OF c(1)] by simp
next
  case (EIsNotNull e)
  from EIsNotNull.prems obtain d t where c: "check_expr L sc e = Inr (d, t)" "e' = EIsNotNull d" "ty = Some DBool"
    by (auto simp: result_simps)
  then show ?case using EIsNotNull.IH [OF c(1)] by simp
next
  case (EColumn n)
  then show ?case by (auto simp: result_simps)
next
  case (ELiteral v)
  then show ?case by auto
qed

section \<open>Constraints of a checked predicate\<close>

definition atom_literals :: "output_schema \<Rightarrow> prune_atom \<Rightarrow> bool" where
  "atom_literals sc a \<longleftrightarrow> (\<exists>m. out_column sc (pa_column a) = Some m \<and> list_all (fits (cm_type m)) (pa_values a))"

lemma check_column: "check_expr L sc e = Inr (EColumn n, ty) \<Longrightarrow> \<exists>m. out_column sc n = Some m \<and> ty = Some (cm_type m)"
  by (cases e) (auto simp: result_simps split: if_splits elim!: check_sides_cases)

lemma comparison_atom: "a \<in> set (comparison_atoms c op v) \<Longrightarrow> pa_column a = c \<and> pa_values a = [v]"
  by (auto simp: comparison_atoms_def atom_binary_def split: if_splits option.splits)

lemma conjunct_atoms_typed:
  assumes "check_expr L sc e = Inr (e', ty)" "a \<in> set (conjunct_atoms e')"
  shows "atom_literals sc a"
proof -
  have typed: "\<exists>m. out_column sc c = Some m \<and> fits (cm_type m) v"
    if d: "check_expr L sc d = Inr (EBinary op l r, ty)" and op: "is_comparison op"
      and c: "l = EColumn c \<and> r = ELiteral v \<or> l = ELiteral v \<and> r = EColumn c" for d op l r c v
  proof -
    obtain op' dl dr l1 r1 where dd: "d = EBinary op' dl dr" and lr: "check_expr L sc dl = Inr l1" "check_expr L sc dr = Inr r1"
        and s: "check_sides L op' l1 r1 = Inr (EBinary op l r, ty)"
      using d by (cases d) (auto simp: result_simps split: if_splits)
    have o: "op' = op" using s by (auto elim!: check_sides_cases)
    obtain l' r' where k: "coerce_sides L l1 r1 = Inr (l', r')" "l = fst l'" "r = fst r'"
      using s op o by (cases rule: check_sides_cases) (auto simp: is_comparison_def is_logical_def is_arithmetic_def)
    have col: "\<exists>m. out_column sc c = Some m \<and> snd x = Some (cm_type m)" if "x = l1 \<or> x = r1" "fst x = EColumn c" for x
      using that lr check_column [of L sc dl c "snd l1"] check_column [of L sc dr c "snd r1"] by (auto simp: prod_eq_iff)
    show ?thesis using k(1)
    proof (cases rule: coerce_sides_cases)
      case (right t w w')
      then have "l1 = l'" "fst l1 = EColumn c" "v = w'" using c k(2,3) by auto
      then show ?thesis using col [of l1] right coerce_fits [OF right(3)] by auto
    next
      case (left t w w')
      then have "r1 = r'" "fst r1 = EColumn c" "v = w'" using c k(2,3) by auto
      then show ?thesis using col [of r1] left coerce_fits [OF left(3)] by auto
    next
      case keep
      then show ?thesis using c k(2,3) col [of l1] col [of r1] by auto
    qed
  qed
  have vals: "\<exists>m. out_column sc c = Some m \<and> (\<forall>w \<in> set ws. fits (cm_type m) w)"
    if "check_expr L sc d = Inr (EColumn c, ty)" "mapM (coerce_to L ty) vs = Inr ws" for d c ty vs ws
    using check_column [OF that(1)] mapM_Inr_set [OF that(2)] by (auto dest: coerce_to_fits)
  show ?thesis
  proof (cases e' rule: conjunct_atoms.cases)
    case (1 op l r)
    have op: "is_comparison op" using assms(2) 1 by (auto split: if_splits)
    consider (right) c v where "l = EColumn c" "r = ELiteral v" "a \<in> set (comparison_atoms c (Some op) v)"
      | (left) c v where "l = ELiteral v" "r = EColumn c" "a \<in> set (comparison_atoms c (flipped op) v)"
      using assms(2) op by (auto simp: 1 split: option.splits)
    then show ?thesis
    proof cases
      case right
      then show ?thesis using typed [OF assms(1) [unfolded 1] op, of c v] comparison_atom [of a] by (auto simp: atom_literals_def)
    next
      case left
      then show ?thesis using typed [OF assms(1) [unfolded 1] op, of c v] comparison_atom [of a] by (auto simp: atom_literals_def)
    qed
  next
    case (2 d lo hi)
    then obtain c where d: "d = EColumn c" "a \<in> {atom_binary c PGtEq lo, atom_binary c PLtEq hi}"
      using assms(2) by (auto split: option.splits)
    obtain f t lo0 hi0 where f: "check_expr L sc f = Inr (EColumn c, t)" "mapM (coerce_to L t) [lo0, hi0] = Inr [lo, hi]"
      using assms(1) 2 d(1) by (cases e) (auto simp: result_simps split: if_splits elim!: check_sides_cases)
    show ?thesis using vals [OF f] d(2) by (auto simp: atom_literals_def atom_binary_def)
  next
    case (3 d vs)
    then obtain c where d: "d = EColumn c" "a = \<lparr>pa_column = c, pa_op = PIn, pa_values = vs\<rparr>"
      using assms(2) by (auto split: option.splits if_splits)
    obtain f t vs0 where f: "check_expr L sc f = Inr (EColumn c, t)" "mapM (coerce_to L t) vs0 = Inr vs"
      using assms(1) 3 d(1) by (cases e) (auto simp: result_simps split: if_splits elim!: check_sides_cases)
    show ?thesis using vals [OF f] d(2) by (auto simp: atom_literals_def list_all_iff)
  next
    case (4 d)
    then obtain c where d: "d = EColumn c" "a = atom_unary c PIsNull" using assms(2) by (auto split: option.splits)
    obtain f t where f: "check_expr L sc f = Inr (EColumn c, t)"
      using assms(1) 4 d(1) by (cases e) (auto simp: result_simps split: if_splits elim!: check_sides_cases)
    show ?thesis using check_column [OF f] d(2) by (auto simp: atom_literals_def atom_unary_def)
  next
    case (5 d)
    then obtain c where d: "d = EColumn c" "a = atom_unary c PIsNotNull" using assms(2) by (auto split: option.splits)
    obtain f t where f: "check_expr L sc f = Inr (EColumn c, t)"
      using assms(1) 5 d(1) by (cases e) (auto simp: result_simps split: if_splits elim!: check_sides_cases)
    show ?thesis using check_column [OF f] d(2) by (auto simp: atom_literals_def atom_unary_def)
  qed (use assms(2) in auto)
qed

lemma conjuncts_single: "check_expr L sc e = Inr (e', ty) \<Longrightarrow> conjuncts e' = [e'] \<or> (\<exists>l r. e = EBinary OpAnd l r)"
proof (cases e)
  case (EBinary op l r)
  assume "check_expr L sc e = Inr (e', ty)"
  then obtain l' r' where "e' = EBinary op l' r'" using EBinary by (auto simp: result_simps elim!: check_sides_cases)
  then show ?thesis using EBinary by (cases op) auto
qed (auto simp: result_simps split: if_splits)

lemma conjuncts_other:
  "check_expr L sc e = Inr (e', ty) \<Longrightarrow> c \<in> set (conjuncts e') \<Longrightarrow> \<forall>op l r. e \<noteq> EBinary op l r \<Longrightarrow> check_expr L sc e = Inr (c, ty)"
  using conjuncts_single by fastforce

lemma check_conjuncts:
  assumes "check_expr L sc e = Inr (e', ty)" "c \<in> set (conjuncts e')"
  shows "\<exists>d ty'. check_expr L sc d = Inr (c, ty')"
  using assms
proof (induction e arbitrary: e' ty)
  case (EBinary op l r)
  show ?case
  proof (cases "op = OpAnd")
    case True
    obtain l1 r1 where lr: "check_expr L sc l = Inr l1" "check_expr L sc r = Inr r1" and s: "check_sides L op l1 r1 = Inr (e', ty)"
      using EBinary.prems by (auto simp: result_simps)
    from s have "e' = EBinary OpAnd (fst l1) (fst r1)"
      using True by (cases rule: check_sides_cases) (auto simp: is_arithmetic_def is_comparison_def)
    then have "c \<in> set (conjuncts (fst l1)) \<or> c \<in> set (conjuncts (fst r1))" using EBinary.prems(2) by simp
    then show ?thesis using EBinary.IH(1) [of "fst l1" "snd l1"] EBinary.IH(2) [of "fst r1" "snd r1"] lr by auto
  next
    case False
    then show ?thesis using conjuncts_single [OF EBinary.prems(1)] EBinary.prems by (metis expr.inject(3) empty_iff set_ConsD set_empty)
  qed
qed (blast dest: conjuncts_other)+

section \<open>Checked plans\<close>

fun plan_limits :: "query \<Rightarrow> nat list" where
  "plan_limits (QScan _ _) = []"
| "plan_limits (QFilter q _) = plan_limits q"
| "plan_limits (QProject q _) = plan_limits q"
| "plan_limits (QAggregate q _ _) = plan_limits q"
| "plan_limits (QSort q _) = plan_limits q"
| "plan_limits (QLimit q n _) = plan_limits q @ [n]"
| "plan_limits (QJoin l r _) = plan_limits l @ plan_limits r"

lemma walk_limits:
  "walk_plan L t lim q = Inr (q', sc, ws) \<Longrightarrow>
     plan_limits q' = map (\<lambda>n. min n (max_rows lim)) (plan_limits q) \<and>
     ws = map (\<lambda>n. LimitReduced n (max_rows lim)) (filter (\<lambda>n. max_rows lim < n) (plan_limits q))"
proof (induction q arbitrary: q' sc ws)
  case (QScan tr cols)
  then show ?case by (auto simp: check_scan_def result_simps split: if_splits)
qed (fastforce simp: result_simps split: if_splits)+

lemma requested_distinct: "requested t seen ns = Inr () \<longleftrightarrow>
    distinct ns \<and> set ns \<inter> set seen = {} \<and> (\<forall>n \<in> set ns. \<exists>c. require_column t n = Inr c)"
  by (induction ns arbitrary: seen) (auto simp: result_simps)

lemma check_project_names:
  "check_project sc seen es = Inr rs \<Longrightarrow> out_names (map snd rs) = map snd es \<and> distinct (map snd es) \<and> set (map snd es) \<inter> set seen = {} \<and>
     (\<forall>a \<in> set (map snd es). validate_ident a = Inr ()) \<and> map fst rs = es"
proof (induction es arbitrary: seen rs)
  case (Cons x es)
  obtain e a where x: "x = (e, a)" by (cases x)
  obtain src m rest where c: "as_column e = Some src" "validate_ident a = Inr ()" "a \<notin> set seen" "check_project sc (a # seen) es = Inr rest"
      "rs = ((EColumn src, a), m\<lparr>cm_name := a\<rparr>) # rest"
    using Cons.prems by (auto simp: x result_simps split: if_splits)
  then show ?case using Cons.IH [OF c(4)] by (auto simp: x out_names_def)
qed (simp add: out_names_def)

lemma check_groups_names:
  "check_groups sc seen ks = Inr ms \<Longrightarrow> out_names ms = ks \<and> distinct ks \<and> set ks \<inter> set seen = {} \<and> (\<forall>m \<in> set ms. m \<in> set sc)"
proof (induction ks arbitrary: seen ms)
  case (Cons k ks)
  obtain m rest where c: "out_column sc k = Some m" "k \<notin> set seen" "check_groups sc (k # seen) ks = Inr rest" "ms = m # rest"
    using Cons.prems by (auto simp: result_simps split: if_splits)
  then show ?case using Cons.IH [OF c(3)] out_column_name [OF c(1)] by (auto simp: out_names_def)
qed (simp add: out_names_def)

lemma check_aggregate_alias:
  assumes "check_aggregate t sc a = Inr b"
  shows "validate_ident (ag_alias b) = Inr () \<and> check_aggregate t sc b = Inr b"
proof -
  define al where "al = (if ag_alias a = [] then default_alias (ag_func a) (ag_column a) else ag_alias a)"
  have v: "validate_ident al = Inr ()" using assms by (auto simp: check_aggregate_def Let_def al_def [symmetric] result_simps)
  have b: "b = a\<lparr>ag_alias := al\<rparr>"
    using assms v by (cases "ag_column a") (auto simp: check_aggregate_def Let_def al_def [symmetric] result_simps split: if_splits)
  have "al \<noteq> []" using v by (auto simp: validate_ident_def)
  then have "check_aggregate t sc b = check_aggregate t sc a"
    by (cases a; cases "ag_alias a = []"; cases "ag_column a") (simp_all add: b check_aggregate_def Let_def al_def cong: if_cong)
  then show ?thesis using assms v b by simp
qed

lemma check_aggregates_names:
  "check_aggregates t sc seen as = Inr bs \<Longrightarrow> distinct (map ag_alias bs) \<and> set (map ag_alias bs) \<inter> set seen = {} \<and>
     (\<forall>b \<in> set bs. validate_ident (ag_alias b) = Inr ()) \<and> length bs = length as"
proof (induction as arbitrary: seen bs)
  case (Cons a as)
  obtain b rest where c: "check_aggregate t sc a = Inr b" "ag_alias b \<notin> set seen" "check_aggregates t sc (ag_alias b # seen) as = Inr rest" "bs = b # rest"
    using Cons.prems by (auto simp: result_simps split: if_splits)
  then show ?case using Cons.IH [OF c(3)] check_aggregate_alias [OF c(1)] by auto
qed simp

lemma check_aggregates_idem: "check_aggregates t sc seen as = Inr bs \<Longrightarrow> check_aggregates t sc seen bs = Inr bs"
proof (induction as arbitrary: seen bs)
  case (Cons a as)
  obtain b rest where c: "check_aggregate t sc a = Inr b" "ag_alias b \<notin> set seen" "check_aggregates t sc (ag_alias b # seen) as = Inr rest" "bs = b # rest"
    using Cons.prems by (auto simp: result_simps split: if_splits)
  then show ?case using Cons.IH [OF c(3)] check_aggregate_alias [OF c(1)] by simp
qed simp

lemma check_sort_idem: "mapM (check_sort sc) ks = Inr js \<Longrightarrow> js = ks"
proof (induction ks arbitrary: js)
  case (Cons k ks)
  then show ?case by (auto simp: check_sort_def result_simps split: if_splits)
qed simp

text \<open>The names a scan reads, and the names the table has.\<close>

lemma scan_names_ok:
  assumes "schema_ok t" "scan_names t cols = Inr ns"
  shows "distinct ns \<and> set ns \<subseteq> set (map col_name (columns t)) \<and> (ns \<noteq> [] \<longrightarrow> requested t [] ns = Inr ())"
proof -
  have d: "distinct (map col_name (columns t))" using assms(1) by (simp add: schema_ok_def)
  have has: "(\<exists>c. require_column t n = Inr c) \<longleftrightarrow> n \<in> set (map col_name (columns t))" for n
    using find_None_all [of "\<lambda>c. col_name c = n" "columns t"]
    by (cases "column t n") (auto simp: require_column_def column_def dest!: find_Some_set)
  have "distinct ns \<and> set ns \<subseteq> set (map col_name (columns t))"
  proof (cases cols)
    case None
    then have "ns = map col_name (filter (\<lambda>c. \<not> sensitive c) (columns t))" using assms(2) by (auto simp: scan_names_def default_projection_def)
    then show ?thesis using d by (auto intro: distinct_map_filter)
  next
    case (Some rs)
    then show ?thesis using assms(2) has by (auto simp: scan_names_def requested_distinct result_simps split: if_splits)
  qed
  then show ?thesis using has by (auto simp: requested_distinct)
qed

lemma check_scan_cases:
  assumes "check_scan t tr cols = Inr (q, sc)"
  obtains ns where "tr_table tr = tname t" "scan_names t cols = Inr ns" "q = QScan tr (Some ns)" "out_names sc = ns"
    "mapM (\<lambda>n. rmap meta_of (require_column t n)) ns = Inr sc"
proof -
  obtain ns where n: "tr_table tr = tname t" "scan_names t cols = Inr ns" "q = QScan tr (Some ns)"
      "mapM (\<lambda>n. rmap meta_of (require_column t n)) ns = Inr sc"
    using assms by (auto simp: check_scan_def result_simps split: if_splits)
  have "out_names sc = ns"
    using n(4) by (induction ns arbitrary: sc) (auto simp: out_names_def result_simps require_column_def column_def meta_of_def dest!: find_Some_set)
  then show ?thesis using that n by blast
qed

lemma out_names_append [simp]: "out_names (xs @ ys) = out_names xs @ out_names ys"
  by (simp add: out_names_def)

lemma out_names_agg [simp]: "out_names (map (agg_meta sc) as) = map ag_alias as"
  by (simp add: out_names_def agg_meta_def)

lemma walk_names:
  assumes "schema_ok t" "walk_plan L t lim q = Inr (q', sc, ws)"
  shows "distinct (out_names sc)"
  using assms(2)
proof (induction q arbitrary: q' sc ws)
  case (QScan tr cols)
  then show ?case using scan_names_ok [OF assms(1)] by (auto simp: result_simps elim!: check_scan_cases)
next
  case (QProject q es)
  then show ?case by (auto simp: result_simps dest!: check_project_names split: if_splits)
next
  case (QAggregate q gs as)
  then show ?case by (auto simp: result_simps dest!: check_groups_names check_aggregates_names split: if_splits) blast
qed (fastforce simp: result_simps split: if_splits)+

end
