(* ===== verification/ValidateTheorems.thy ===== *)
theory ValidateTheorems
  imports ValidateProps
begin

text \<open>
  The properties of plan validation, and a small query over the demo table on which they are applied.
\<close>

section \<open>Validation again\<close>

lemma check_project_idem: "check_project sc seen es = Inr rs \<Longrightarrow> check_project sc seen (map fst rs) = Inr rs"
  using check_project_names by metis

lemma walk_idem:
  assumes "schema_ok t" "default_projection t \<noteq> []" "walk_plan L t lim q = Inr (q', sc, ws)"
  shows "walk_plan L t lim q' = Inr (q', sc, [])"
  using assms(3)
proof (induction q arbitrary: q' sc ws)
  case (QScan tr cols)
  then obtain c: "check_scan t tr cols = Inr (q', sc)" by (auto simp: result_simps)
  obtain ns where n: "tr_table tr = tname t" "scan_names t cols = Inr ns" "q' = QScan tr (Some ns)"
      "mapM (\<lambda>n. rmap meta_of (require_column t n)) ns = Inr sc"
    using c by (rule check_scan_cases)
  have "ns \<noteq> []" using n(2) assms(2) by (auto simp: scan_names_def result_simps split: option.splits if_splits)
  then have "requested t [] ns = Inr ()" using scan_names_ok [OF assms(1) n(2)] by blast
  then show ?case using n \<open>ns \<noteq> []\<close> by (simp add: check_scan_def scan_names_def)
next
  case (QFilter q p)
  from QFilter.prems obtain r p' ty where c: "walk_plan L t lim q = Inr (r, sc, ws)" "check_expr L sc p = Inr (p', ty)" "ty = Some DBool \<or> ty = None"
      "q' = QFilter r p'"
    by (auto simp: result_simps split: if_splits)
  then show ?case using QFilter.IH [OF c(1)] check_expr_idem [OF c(2)] by auto
next
  case (QProject q es)
  from QProject.prems obtain r sc0 rs where c: "walk_plan L t lim q = Inr (r, sc0, ws)" "es \<noteq> []" "check_project sc0 [] es = Inr rs"
      "q' = QProject r (map fst rs)" "sc = map snd rs"
    by (auto simp: result_simps split: if_splits)
  have "map fst rs \<noteq> []" using check_project_names [OF c(3)] c(2) by simp
  then show ?case using QProject.IH [OF c(1)] check_project_idem [OF c(3)] c(4,5) by simp
next
  case (QAggregate q gs as)
  from QAggregate.prems obtain r sc0 ms bs where c: "walk_plan L t lim q = Inr (r, sc0, ws)" "as \<noteq> []" "check_groups sc0 [] gs = Inr ms"
      "check_aggregates t sc0 (rev gs) as = Inr bs" "q' = QAggregate r gs bs" "sc = ms @ map (agg_meta sc0) bs"
    by (auto simp: result_simps split: if_splits)
  have "bs \<noteq> []" using check_aggregates_names [OF c(4)] c(2) by auto
  then show ?case using QAggregate.IH [OF c(1)] check_aggregates_idem [OF c(4)] c(3,5,6) by simp
next
  case (QSort q ks)
  from QSort.prems obtain r where c: "walk_plan L t lim q = Inr (r, sc, ws)" "ks \<noteq> []" "mapM (check_sort sc) ks = Inr ks" "q' = QSort r ks"
    by (auto simp: result_simps split: if_splits dest: check_sort_idem)
  then show ?case using QSort.IH [OF c(1)] by simp
next
  case (QLimit q n k)
  from QLimit.prems obtain r ws0 m where c: "walk_plan L t lim q = Inr (r, sc, ws0)" "q' = QLimit r m k" "m \<le> max_rows lim"
    by (auto simp: result_simps split: if_splits)
  show ?case using QLimit.IH [OF c(1)] c(2,3) by simp
next
  case (QJoin l r p)
  from QJoin.prems show ?case by simp
qed

section \<open>What a plan reads\<close>

fun scan_request :: "query \<Rightarrow> string list option" where
  "scan_request (QScan _ cols) = cols"
| "scan_request (QFilter q _) = scan_request q"
| "scan_request (QProject q _) = scan_request q"
| "scan_request (QAggregate q _ _) = scan_request q"
| "scan_request (QSort q _) = scan_request q"
| "scan_request (QLimit q _ _) = scan_request q"
| "scan_request (QJoin l _ _) = scan_request l"

lemma walk_request: "walk_plan L t lim q = Inr (q', sc, ws) \<Longrightarrow> \<exists>ns. scan_request q' = Some ns \<and> scan_names t (scan_request q) = Inr ns"
proof (induction q arbitrary: q' sc ws)
  case (QScan tr cols)
  then show ?case by (auto simp: result_simps elim!: check_scan_cases)
qed (fastforce simp: result_simps split: if_splits)+

lemma scan_names_visible:
  assumes "scan_names t cols = Inr ns" "n \<in> set ns"
  shows "(\<exists>c \<in> set (columns t). col_name c = n \<and> \<not> sensitive c) \<or> (\<exists>ms. cols = Some ms \<and> n \<in> set ms)"
  using assms by (auto simp: scan_names_def default_projection_def result_simps split: option.splits if_splits)

lemma checked_atoms:
  assumes c: "check_scan s tr cols = Inr (q, sc)" "check_expr L sc p = Inr (e, ty)"
  shows "\<forall>a \<in> set (extract_prune_atoms e). list_all (fits (type_of_column s (pa_column a))) (pa_values a)"
proof
  fix a
  assume a: "a \<in> set (extract_prune_atoms e)"
  obtain d where d: "d \<in> set (conjuncts e)" "a \<in> set (conjunct_atoms d)" using a by (auto simp: extract_prune_atoms_def)
  obtain f tf where f: "check_expr L sc f = Inr (d, tf)" using check_conjuncts [OF c(2) d(1)] by blast
  obtain m where m: "out_column sc (pa_column a) = Some m" "list_all (fits (cm_type m)) (pa_values a)"
    using conjunct_atoms_typed [OF f d(2)] by (auto simp: atom_literals_def)
  obtain ns where n: "mapM (\<lambda>n. rmap meta_of (require_column s n)) ns = Inr sc" using c(1) by (rule check_scan_cases)
  obtain n where "rmap meta_of (require_column s n) = Inr m" using mapM_Inr_set [OF n, of m] out_column_name [OF m(1)] by auto
  then obtain c where cc: "column s n = Some c" "m = meta_of c" by (auto simp: require_column_def result_simps)
  have "col_name c = n" using find_Some_set [OF cc(1) [unfolded column_def]] by simp
  then have "type_of_column s (pa_column a) = cm_type m"
    using out_column_name [OF m(1)] cc by (simp add: type_of_column_def meta_of_def)
  then show "list_all (fits (type_of_column s (pa_column a))) (pa_values a)" using m(2) by simp
qed

lemma filter_scan_checked:
  assumes "walk_plan L s lim (QFilter (QScan tr cols) p) = Inr (QFilter q e, sc, ws)"
  shows "\<forall>a \<in> set (extract_prune_atoms e). list_all (fits (type_of_column s (pa_column a))) (pa_values a)"
  using assms checked_atoms by (auto simp: result_simps split: if_splits)

section \<open>The demo query\<close>

definition demo_limits :: query_limits where
  "demo_limits = default_limits\<lparr>max_rows := 100\<rparr>"

definition demo_predicate :: expr where
  "demo_predicate = EBinary OpAnd (EBinary OpGt (EColumn ''id'') (ELiteral (VFloat (F64 0x4000000000000000)))) (EIsNotNull (EColumn ''country''))"

definition demo_checked :: expr where
  "demo_checked = EBinary OpAnd (EBinary OpGt (EColumn ''id'') (ELiteral (VInt 2))) (EIsNotNull (EColumn ''country''))"

definition demo_query :: query where
  "demo_query = QLimit (QFilter (QScan \<lparr>tr_database = None, tr_table = tname demo_schema\<rparr> None) demo_predicate) 500 0"

lemma demo_scan_checked: "check_scan demo_schema \<lparr>tr_database = None, tr_table = tname demo_schema\<rparr> None =
    Inr (QScan \<lparr>tr_database = None, tr_table = tname demo_schema\<rparr> (Some [''id'', ''country'']),
      [\<lparr>cm_name = ''id'', cm_type = DInt64, cm_nullable = False\<rparr>, \<lparr>cm_name = ''country'', cm_type = DUtf8, cm_nullable = True\<rparr>])"
  by (simp add: check_scan_def scan_names_def default_projection_def require_column_def column_def meta_of_def
    demo_schema_def new_table_def new_column_def)

lemma demo_two: "fract_is_zero (F64 0x4000000000000000)" "f64_as_i64 (F64 0x4000000000000000) = 2"
  by (simp_all add: f64_eval_defs)

lemma demo_check_expr:
  "check_expr demo_lib [\<lparr>cm_name = ''id'', cm_type = DInt64, cm_nullable = False\<rparr>, \<lparr>cm_name = ''country'', cm_type = DUtf8, cm_nullable = True\<rparr>]
     demo_predicate = Inr (demo_checked, Some DBool)"
  by (simp add: demo_predicate_def demo_checked_def out_column_def check_sides_def is_logical_def is_arithmetic_def is_comparison_def
    coerce_sides_def demo_two is_ordered_def expect_bool_def)

lemma demo_walk: "walk_plan demo_lib demo_schema demo_limits demo_query =
    Inr (QLimit (QFilter (QScan \<lparr>tr_database = None, tr_table = tname demo_schema\<rparr> (Some [''id'', ''country''])) demo_checked) 100 0,
      [\<lparr>cm_name = ''id'', cm_type = DInt64, cm_nullable = False\<rparr>, \<lparr>cm_name = ''country'', cm_type = DUtf8, cm_nullable = True\<rparr>],
      [LimitReduced 500 100])"
  by (simp add: demo_query_def demo_scan_checked demo_check_expr demo_limits_def default_limits_def)

definition demo_validated :: validated_query where
  "demo_validated =
     \<lparr>vq_query = QLimit (QFilter (QScan \<lparr>tr_database = None, tr_table = tname demo_schema\<rparr> (Some [''id'', ''country''])) demo_checked) 100 0,
      vq_schema = [\<lparr>cm_name = ''id'', cm_type = DInt64, cm_nullable = False\<rparr>, \<lparr>cm_name = ''country'', cm_type = DUtf8, cm_nullable = True\<rparr>],
      vq_warnings = [LimitReduced 500 100]\<rparr>"

lemma demo_validate: "validate demo_lib demo_schema demo_limits demo_query = Inr demo_validated"
  by (simp add: validate_def demo_walk demo_validated_def)

lemma demo_default: "default_projection demo_schema \<noteq> []"
  by (simp add: default_projection_def demo_schema_def new_table_def new_column_def)

section \<open>Properties\<close>

text \<open>
  C29: type soundness of expressions: a checked expression mentions the columns of the one it was made
  from, all known, and on every row of the declared types it evaluates to a value of the type the
  check computed (NULL fits every type), whatever well-typed arithmetic the kernels have.
\<close>

theorem check_expr_sound:
  assumes "check_expr L sc e = Inr (e', ty)" "env_typed sc env" "arith_typed S"
  shows "has_type ty (sql S env e') \<and> expr_columns e' = expr_columns e \<and> expr_columns e \<subseteq> set (out_names sc)"
  using check_expr_typed [OF assms(2,3,1)] check_expr_columns [OF assms(1)] by blast

theorem check_expr_sound_witness:
  "has_type (Some DBool) (sql demo_sql (\<lambda>n. if n = ''id'' then VInt 3 else VNull) demo_checked)"
proof -
  have "arith_typed demo_sql" by (simp add: arith_typed_def demo_sql_def)
  then show ?thesis
    using check_expr_sound [OF demo_check_expr, of "\<lambda>n. if n = ''id'' then VInt 3 else VNull" demo_sql]
    by (simp add: env_typed_def fits_def)
qed

text \<open>
  C30: a validated plan is a fixed point of the validator: validating it again gives the same plan and
  the same output schema, without a warning. (When every column of a table is sensitive a scan of all
  columns reads none, and only then can the second validation differ.)
\<close>

theorem validate_idempotent:
  assumes "validate_schema t = Inr ()" "default_projection t \<noteq> []" "validate L t lim q = Inr v"
  shows "validate L t lim (vq_query v) = Inr (v\<lparr>vq_warnings := []\<rparr>)"
proof -
  obtain ws where w: "walk_plan L t lim q = Inr (vq_query v, vq_schema v, ws)" "vq_schema v \<noteq> []"
    using assms(3) by (auto simp: validate_def result_simps split: if_splits)
  have "schema_ok t" using assms(1) by (simp add: validate_schema_iff)
  then show ?thesis using walk_idem [OF _ assms(2) w(1)] w(2) by (simp add: validate_def)
qed

theorem validate_idempotent_witness:
  "validate demo_lib demo_schema demo_limits (vq_query demo_validated) = Inr (demo_validated\<lparr>vq_warnings := []\<rparr>)"
  by (rule validate_idempotent [OF demo_schema_ok demo_default demo_validate])

text \<open>
  C31: no limit of a validated plan exceeds the row budget of the request: each is the smaller of what
  was asked for and the budget, and exactly the reduced ones are reported, innermost first.
\<close>

theorem validate_limits:
  assumes "validate L t lim q = Inr v"
  shows "plan_limits (vq_query v) = map (\<lambda>n. min n (max_rows lim)) (plan_limits q) \<and>
    vq_warnings v = map (\<lambda>n. LimitReduced n (max_rows lim)) (filter (\<lambda>n. max_rows lim < n) (plan_limits q))"
  using assms walk_limits [of L t lim q] by (auto simp: validate_def result_simps split: if_splits)

theorem validate_limits_witness:
  "plan_limits (vq_query demo_validated) = [min 500 (max_rows demo_limits)]"
  using validate_limits [OF demo_validate] by (simp add: demo_query_def)

text \<open>
  Remark: the shape of a validated plan: it has at least one output column, the output names are
  distinct, and a sensitive column is read only when the query names it.
\<close>

theorem validated_columns:
  assumes "validate_schema t = Inr ()" "validate L t lim q = Inr v"
  shows "vq_schema v \<noteq> [] \<and> distinct (out_names (vq_schema v)) \<and>
    (\<exists>ns. scan_request (vq_query v) = Some ns \<and>
       (\<forall>n \<in> set ns. (\<exists>c \<in> set (columns t). col_name c = n \<and> \<not> sensitive c) \<or> (\<exists>ms. scan_request q = Some ms \<and> n \<in> set ms)))"
proof -
  obtain ws where w: "walk_plan L t lim q = Inr (vq_query v, vq_schema v, ws)" "vq_schema v \<noteq> []"
    using assms(2) by (auto simp: validate_def result_simps split: if_splits)
  obtain ns where "scan_request (vq_query v) = Some ns" "scan_names t (scan_request q) = Inr ns" using walk_request [OF w(1)] by blast
  then show ?thesis using w walk_names [OF _ w(1)] assms(1) scan_names_visible by (auto simp: validate_schema_iff)
qed

theorem validated_columns_witness: "distinct (out_names (vq_schema demo_validated))"
  using validated_columns [OF demo_schema_ok demo_validate] by blast



end
