(* ===== verification/Physical.thy ===== *)
theory Physical
  imports Validate Prune
begin

text \<open>
  \<open>crates/adb-planner/src/physical.rs\<close>: lowering a validated plan to the linear pipeline
  scan, filter, aggregate, rename, sort, limit. The code's loop over the nodes, innermost first, is a
  fold of \<open>lower_node\<close> over a record of its local variables.
\<close>

section \<open>Plans\<close>

record agg_spec =
  as_group_by :: "string list"
  as_aggregates :: "agg_expr list"

type_synonym rename_map = "(string \<times> string) list"

record physical_plan =
  pp_table :: table_ref
  pp_projection :: "string list"
  pp_pruning :: "prune_atom list"
  pp_filter :: "expr option"
  pp_aggregate :: "agg_spec option"
  pp_rename :: "rename_map option"
  pp_sort :: "sort_expr list"
  pp_limit :: "nat option"
  pp_offset :: nat
  pp_output :: output_schema

definition saturating_add :: "nat \<Rightarrow> nat \<Rightarrow> nat" where
  "saturating_add a b = min (a + b) usize_max"

definition is_streaming_limit :: "physical_plan \<Rightarrow> bool" where
  "is_streaming_limit p \<longleftrightarrow> pp_limit p \<noteq> None \<and> pp_sort p = [] \<and> pp_aggregate p = None"

definition fetch_rows :: "physical_plan \<Rightarrow> nat option" where
  "fetch_rows p = map_option (\<lambda>n. saturating_add n (pp_offset p)) (pp_limit p)"

section \<open>Stages\<close>

datatype stage = SScan | SFilter | SAggregate | SRename | SSort | SLimit

fun stage_rank :: "stage \<Rightarrow> nat" where
  "stage_rank SScan = 0"
| "stage_rank SFilter = 1"
| "stage_rank SAggregate = 2"
| "stage_rank SRename = 3"
| "stage_rank SSort = 4"
| "stage_rank SLimit = 5"

instantiation stage :: linorder
begin

definition less_eq_stage :: "stage \<Rightarrow> stage \<Rightarrow> bool" where
  "less_eq_stage a b \<longleftrightarrow> stage_rank a \<le> stage_rank b"

definition less_stage :: "stage \<Rightarrow> stage \<Rightarrow> bool" where
  "less_stage a b \<longleftrightarrow> stage_rank a < stage_rank b"

instance
proof
  fix a b :: stage
  show "a \<le> b \<Longrightarrow> b \<le> a \<Longrightarrow> a = b" by (cases a; cases b) (auto simp: less_eq_stage_def)
qed (auto simp: less_eq_stage_def less_stage_def)

end

fun node_stage :: "query \<Rightarrow> stage result" where
  "node_stage (QScan _ _) = Inr SScan"
| "node_stage (QFilter _ _) = Inr SFilter"
| "node_stage (QAggregate _ _ _) = Inr SAggregate"
| "node_stage (QProject _ _) = Inr SRename"
| "node_stage (QSort _ _) = Inr SSort"
| "node_stage (QLimit _ _ _) = Inr SLimit"
| "node_stage (QJoin _ _ _) = Inl Unsupported"

section \<open>Lowering\<close>

record lowering =
  lo_table :: "table_ref option"
  lo_columns :: "string list"
  lo_filter :: "expr option"
  lo_aggregate :: "agg_spec option"
  lo_rename :: "rename_map option"
  lo_sort :: "sort_expr list"
  lo_limit :: "nat option"
  lo_offset :: nat
  lo_stage :: stage

definition lo_start :: lowering where
  "lo_start = \<lparr>lo_table = None, lo_columns = [], lo_filter = None, lo_aggregate = None, lo_rename = None,
     lo_sort = [], lo_limit = None, lo_offset = 0, lo_stage = SScan\<rparr>"

definition source_of :: "rename_map \<Rightarrow> string \<Rightarrow> string option" where
  "source_of m n = map_option fst (find (\<lambda>(_, a). a = n) m)"

definition stage_allowed :: "lowering \<Rightarrow> stage \<Rightarrow> bool" where
  "stage_allowed st s \<longleftrightarrow>
     \<not> s < lo_stage st \<or>
     (lo_stage st = SRename \<and> s = SFilter \<and> lo_aggregate st = None) \<or>
     (lo_stage st = SRename \<and> s = SAggregate)"

definition lower_filter :: "lowering \<Rightarrow> expr \<Rightarrow> lowering result" where
  "lower_filter st p =
     rbind (case lo_rename st of None \<Rightarrow> Inr p | Some m \<Rightarrow> rewrite_columns (source_of m) p) (\<lambda>p.
     Inr (st\<lparr>lo_filter := Some (case lo_filter st of None \<Rightarrow> p | Some e \<Rightarrow> EBinary OpAnd e p)\<rparr>))"

definition lower_aggregate :: "lowering \<Rightarrow> string list \<Rightarrow> agg_expr list \<Rightarrow> lowering result" where
  "lower_aggregate st gs as =
     (if lo_aggregate st \<noteq> None then Inl Unsupported
      else rbind (case lo_rename st of
                    None \<Rightarrow> Inr st
                  | Some m \<Rightarrow> if list_ex (\<lambda>(s, a). s \<noteq> a) m then Inl Unsupported else Inr (st\<lparr>lo_rename := None\<rparr>)) (\<lambda>st.
           Inr (st\<lparr>lo_aggregate := Some \<lparr>as_group_by = gs, as_aggregates = as\<rparr>\<rparr>)))"

definition compose_rename :: "rename_map option \<Rightarrow> rename_map \<Rightarrow> rename_map" where
  "compose_rename old m =
     (case old of
        None \<Rightarrow> m
      | Some ex \<Rightarrow> map (\<lambda>(s, a). (case source_of ex s of Some base \<Rightarrow> base | None \<Rightarrow> s, a)) m)"

definition lower_project :: "lowering \<Rightarrow> (expr \<times> string) list \<Rightarrow> lowering result" where
  "lower_project st es =
     rbind (mapM (\<lambda>(e, a). rmap (\<lambda>s. (s, a)) (ok_or Unsupported (as_column e))) es) (\<lambda>m.
     Inr (st\<lparr>lo_rename := Some (compose_rename (lo_rename st) m)\<rparr>))"

definition lower_node :: "lowering \<Rightarrow> query \<Rightarrow> lowering result" where
  "lower_node st q =
     rbind (node_stage q) (\<lambda>s.
     if \<not> stage_allowed st s then Inl Unsupported
     else rmap (\<lambda>st. st\<lparr>lo_stage := max (lo_stage st) s\<rparr>)
       (case q of
          QScan tr cols \<Rightarrow> Inr (st\<lparr>lo_table := Some tr, lo_columns := (case cols of Some ns \<Rightarrow> ns | None \<Rightarrow> [])\<rparr>)
        | QFilter _ p \<Rightarrow> lower_filter st p
        | QAggregate _ gs as \<Rightarrow> lower_aggregate st gs as
        | QProject _ es \<Rightarrow> lower_project st es
        | QSort _ ks \<Rightarrow> if lo_sort st \<noteq> [] then Inl Unsupported else Inr (st\<lparr>lo_sort := ks\<rparr>)
        | QLimit _ n skip \<Rightarrow>
            Inr (st\<lparr>lo_limit := Some (case lo_limit st of None \<Rightarrow> n | Some m \<Rightarrow> min m n),
                    lo_offset := saturating_add (lo_offset st) skip\<rparr>)
        | QJoin _ _ _ \<Rightarrow> Inl Unsupported))"

text \<open>The nodes of a plan, outermost first, by the code's cursor; the fold runs over them reversed.\<close>

function nodes_from :: "query \<Rightarrow> query list" where
  "nodes_from q = q # (case query_input q of None \<Rightarrow> [] | Some p \<Rightarrow> nodes_from p)"
  by pat_completeness auto

lemma query_input_size: "query_input q = Some p \<Longrightarrow> size p < size q"
  by (cases q) auto

termination nodes_from
  by (relation "measure size") (simp_all add: query_input_size)

declare nodes_from.simps [simp del]

section \<open>Projection pushdown\<close>

definition insert_all :: "string list \<Rightarrow> string list \<Rightarrow> string list" where
  "insert_all xs acc = foldl (\<lambda>acc x. set_insert x acc) acc xs"

definition sort_source :: "rename_map option \<Rightarrow> sort_expr \<Rightarrow> string result" where
  "sort_source ren k =
     (case ren of None \<Rightarrow> Inr (so_column k) | Some m \<Rightarrow> ok_or Unsupported (source_of m (so_column k)))"

definition needed_columns :: "lowering \<Rightarrow> string list result" where
  "needed_columns st =
     (let base = (case lo_filter st of None \<Rightarrow> [] | Some p \<Rightarrow> insert_all (referenced_columns p) []) in
      case lo_aggregate st of
        Some sp \<Rightarrow> Inr (insert_all (List.map_filter ag_column (as_aggregates sp)) (insert_all (as_group_by sp) base))
      | None \<Rightarrow>
          rmap (\<lambda>srcs. insert_all srcs (insert_all (case lo_rename st of Some m \<Rightarrow> map fst m | None \<Rightarrow> lo_columns st) base))
            (mapM (sort_source (lo_rename st)) (lo_sort st)))"

definition pushed_projection :: "string list \<Rightarrow> string list \<Rightarrow> string list result" where
  "pushed_projection cols needed =
     (let ps = (if cols = [] then needed else filter (\<lambda>c. c \<in> set needed) cols) in
      if ps \<noteq> [] then Inr ps
      else case cols of
             c # _ \<Rightarrow> Inr [c]
           | [] \<Rightarrow> (case needed of n # _ \<Rightarrow> Inr [n] | [] \<Rightarrow> Inl Internal))"

definition build_plan :: "validated_query \<Rightarrow> physical_plan result" where
  "build_plan v =
     rbind (foldM lower_node lo_start (rev (nodes_from (vq_query v)))) (\<lambda>st.
     rbind (ok_or Internal (lo_table st)) (\<lambda>tr.
     rbind (needed_columns st) (\<lambda>needed.
     rbind (pushed_projection (lo_columns st) needed) (\<lambda>projection.
     Inr \<lparr>pp_table = tr, pp_projection = projection,
          pp_pruning = (case lo_filter st of None \<Rightarrow> [] | Some p \<Rightarrow> extract_prune_atoms p),
          pp_filter = lo_filter st, pp_aggregate = lo_aggregate st, pp_rename = lo_rename st, pp_sort = lo_sort st,
          pp_limit = lo_limit st, pp_offset = lo_offset st, pp_output = vq_schema v\<rparr>))))"

end
