(* ===== verification/Meaning.thy ===== *)
theory Meaning
  imports Physical ValidateTheorems "HOL-Library.Multiset"
begin

text \<open>
  What a plan means: the answers of a logical plan over the rows of a table, and the answers of the
  pipeline of a physical plan. A row is a function from column names to values. Sorting may leave ties
  in any order, so a plan has a set of answers. \<open>F\<close> computes an aggregate from the argument of each row
  of a group (\<open>None\<close> for \<open>count(*)\<close>).
\<close>

section \<open>Operators on rows\<close>

type_synonym agg_lib = "agg_expr \<Rightarrow> adb_value option list \<Rightarrow> adb_value"

definition restrict_env :: "string list \<Rightarrow> env \<Rightarrow> env" where
  "restrict_env ns e n = (if n \<in> set ns then e n else VNull)"

definition rename_env :: "rename_map \<Rightarrow> env \<Rightarrow> env" where
  "rename_env m e n = (case source_of m n of Some s \<Rightarrow> e s | None \<Rightarrow> VNull)"

definition first_occurrences :: "'a list \<Rightarrow> 'a list" where
  "first_occurrences xs = rev (remdups (rev xs))"

definition agg_env :: "agg_lib \<Rightarrow> agg_spec \<Rightarrow> adb_value list \<Rightarrow> env list \<Rightarrow> env" where
  "agg_env F sp k es n =
     (case map_of (zip (as_group_by sp) k) n of
        Some v \<Rightarrow> v
      | None \<Rightarrow> (case find (\<lambda>a. ag_alias a = n) (as_aggregates sp) of
                   Some a \<Rightarrow> F a (map (\<lambda>e. map_option e (ag_column a)) es)
                 | None \<Rightarrow> VNull))"

text \<open>One row per group in the order groups first appear; without group columns, always one row.\<close>

definition agg_rows :: "agg_lib \<Rightarrow> agg_spec \<Rightarrow> env list \<Rightarrow> env list" where
  "agg_rows F sp es =
     map (\<lambda>k. agg_env F sp k (filter (\<lambda>e. map e (as_group_by sp) = k) es))
       (if as_group_by sp = [] then [[]] else first_occurrences (map (\<lambda>e. map e (as_group_by sp)) es))"

definition key_cmp :: "sort_expr \<Rightarrow> adb_value \<Rightarrow> adb_value \<Rightarrow> ordering" where
  "key_cmp k a b =
     (if a = VNull \<and> b = VNull then Equal
      else if a = VNull then (if so_nulls_first k then Less else Greater)
      else if b = VNull then (if so_nulls_first k then Greater else Less)
      else if so_ascending k then value_cmp a b else value_cmp b a)"

fun keys_cmp :: "sort_expr list \<Rightarrow> env \<Rightarrow> env \<Rightarrow> ordering" where
  "keys_cmp [] a b = Equal"
| "keys_cmp (k # ks) a b =
     (case key_cmp k (a (so_column k)) (b (so_column k)) of Equal \<Rightarrow> keys_cmp ks a b | c \<Rightarrow> c)"

definition sorted_by :: "sort_expr list \<Rightarrow> env list \<Rightarrow> bool" where
  "sorted_by ks es \<longleftrightarrow> sorted_wrt (\<lambda>a b. keys_cmp ks a b \<noteq> Greater) es"

definition sort_answers :: "sort_expr list \<Rightarrow> env list \<Rightarrow> env list set" where
  "sort_answers ks es = (if ks = [] then {es} else {out. mset out = mset es \<and> sorted_by ks out})"

definition window :: "nat option \<Rightarrow> nat \<Rightarrow> 'a list \<Rightarrow> 'a list" where
  "window lim skip xs = (case lim of None \<Rightarrow> drop skip xs | Some n \<Rightarrow> take n (drop skip xs))"

section \<open>Logical plans\<close>

definition project_map :: "(expr \<times> string) list \<Rightarrow> rename_map" where
  "project_map es = map (\<lambda>(e, a). (the (as_column e), a)) es"

fun answers :: "sql_lib \<Rightarrow> agg_lib \<Rightarrow> env list \<Rightarrow> query \<Rightarrow> env list set" where
  "answers S F es (QScan tr cols) = {map (restrict_env (the cols)) es}"
| "answers S F es (QFilter q p) = filter (\<lambda>e. sql_holds S e p) ` answers S F es q"
| "answers S F es (QProject q xs) = map (rename_env (project_map xs)) ` answers S F es q"
| "answers S F es (QAggregate q gs as) = agg_rows F \<lparr>as_group_by = gs, as_aggregates = as\<rparr> ` answers S F es q"
| "answers S F es (QSort q ks) = (\<Union>out \<in> answers S F es q. sort_answers ks out)"
| "answers S F es (QLimit q n skip) = window (Some n) skip ` answers S F es q"
| "answers S F es (QJoin l r p) = {}"

section \<open>Pipelines\<close>

definition filtered :: "sql_lib \<Rightarrow> expr option \<Rightarrow> env list \<Rightarrow> env list" where
  "filtered S p es = (case p of None \<Rightarrow> es | Some p \<Rightarrow> filter (\<lambda>e. sql_holds S e p) es)"

definition aggregated :: "agg_lib \<Rightarrow> agg_spec option \<Rightarrow> env list \<Rightarrow> env list" where
  "aggregated F sp es = (case sp of None \<Rightarrow> es | Some sp \<Rightarrow> agg_rows F sp es)"

definition renamed :: "rename_map option \<Rightarrow> env list \<Rightarrow> env list" where
  "renamed m es = (case m of None \<Rightarrow> es | Some m \<Rightarrow> map (rename_env m) es)"

definition rendered :: "string list \<Rightarrow> env list \<Rightarrow> row list" where
  "rendered ns es = map (\<lambda>e. map e ns) es"

definition pipeline :: "sql_lib \<Rightarrow> agg_lib \<Rightarrow> physical_plan \<Rightarrow> env list \<Rightarrow> env list set" where
  "pipeline S F p es =
     window (pp_limit p) (pp_offset p) `
       sort_answers (pp_sort p)
         (renamed (pp_rename p) (aggregated F (pp_aggregate p)
            (filtered S (pp_filter p) (map (restrict_env (pp_projection p)) es))))"

definition lowered :: "sql_lib \<Rightarrow> agg_lib \<Rightarrow> lowering \<Rightarrow> env list \<Rightarrow> env list set" where
  "lowered S F st es =
     window (lo_limit st) (lo_offset st) `
       sort_answers (lo_sort st)
         (renamed (lo_rename st) (aggregated F (lo_aggregate st) (filtered S (lo_filter st) es)))"

section \<open>Lemmas on the operators\<close>

lemma restrict_env_in [simp]: "n \<in> set ns \<Longrightarrow> restrict_env ns e n = e n"
  by (simp add: restrict_env_def)

lemma source_of_Some: "source_of m n = Some s \<Longrightarrow> (s, n) \<in> set m"
  using find_Some_set [of "\<lambda>(_, a). a = n" m] by (fastforce simp: source_of_def)

lemma source_of_in: "n \<in> set (map snd m) \<Longrightarrow> \<exists>s. source_of m n = Some s"
proof -
  assume "n \<in> set (map snd m)"
  then have "find (\<lambda>(_, a). a = n) m \<noteq> None" by (auto simp: find_None_all)
  then show ?thesis by (auto simp: source_of_def)
qed

lemma source_of_id:
  assumes "\<forall>(s, a) \<in> set m. s = a" "n \<in> set (map snd m)"
  shows "source_of m n = Some n"
proof -
  obtain s where s: "source_of m n = Some s" using source_of_in [OF assms(2)] by blast
  then show ?thesis using source_of_Some [OF s] assms(1) by auto
qed

lemma rename_env_in: "source_of m n = Some s \<Longrightarrow> rename_env m e n = e s"
  by (simp add: rename_env_def)

lemma filter_agree:
  assumes "\<And>n e. n \<in> expr_columns p \<Longrightarrow> g e n = e n"
  shows "filter (\<lambda>e. sql_holds S e p) (map g es) = map g (filter (\<lambda>e. sql_holds S e p) es)"
proof -
  have "sql_holds S (g e) p = sql_holds S e p" for e using assms by (simp add: sql_holds_def cong: sql_cong)
  then show ?thesis by (simp add: filter_map comp_def)
qed

definition spec_columns :: "agg_spec \<Rightarrow> string set" where
  "spec_columns sp = set (as_group_by sp) \<union> {c. \<exists>a \<in> set (as_aggregates sp). ag_column a = Some c}"

lemma agg_rows_agree:
  assumes "\<And>n e. n \<in> spec_columns sp \<Longrightarrow> g e n = e n"
  shows "agg_rows F sp (map g es) = agg_rows F sp es"
proof -
  have k: "map (g e) (as_group_by sp) = map e (as_group_by sp)" for e
    using assms by (simp add: spec_columns_def)
  have a: "map_option (g e) (ag_column a) = map_option e (ag_column a)" if "a \<in> set (as_aggregates sp)" for e a
    using assms that by (cases "ag_column a") (auto simp: spec_columns_def)
  have "agg_env F sp k (map g fs) n = agg_env F sp k fs n" for k fs n
    using a find_Some_set [of "\<lambda>a. ag_alias a = n" "as_aggregates sp"]
    by (auto simp: agg_env_def comp_def split: option.splits)
  then have "agg_env F sp k (map g fs) = agg_env F sp k fs" for k fs by blast
  then show ?thesis by (simp add: agg_rows_def filter_map comp_def k)
qed

lemma window_window:
  "window (Some n) k (window None off xs) = window (Some n) (off + k) xs"
  "window (Some n) 0 (window (Some m) off xs) = window (Some (min m n)) off xs"
  by (simp_all add: window_def add.commute min.commute)

lemma window_none [simp]: "window None 0 xs = xs"
  by (simp add: window_def)

lemma rename_compose:
  assumes "set (map fst m) \<subseteq> set (map snd ex)"
  shows "rename_env m (rename_env ex e) = rename_env (compose_rename (Some ex) m) e"
proof
  fix n
  have "source_of (compose_rename (Some ex) m) n = map_option (\<lambda>s. the (source_of ex s)) (source_of m n)"
    using assms
  proof (induction m)
    case Nil
    then show ?case by (simp add: source_of_def compose_rename_def)
  next
    case (Cons x m)
    obtain s a where x: "x = (s, a)" by (cases x)
    obtain b where "source_of ex s = Some b" using source_of_in [of s ex] Cons.prems x by auto
    then show ?case using Cons x by (auto simp: source_of_def compose_rename_def)
  qed
  moreover have "source_of m n = Some s \<Longrightarrow> \<exists>b. source_of ex s = Some b" for s
    using source_of_in [of s ex] source_of_Some [of m n s] assms by force
  ultimately show "rename_env m (rename_env ex e) n = rename_env (compose_rename (Some ex) m) e n"
    by (cases "source_of m n") (fastforce simp: rename_env_def)+
qed

end
