(* ===== verification/LowerProps.thy ===== *)
theory LowerProps
  imports Meaning
begin

text \<open>
  Lowering is correct: the pipeline of a plan has the answers of the plan, and reads only the columns
  the pipeline touches.
\<close>

section \<open>The plan a lowering state stands for\<close>

fun flat_limits :: "query \<Rightarrow> bool" where
  "flat_limits (QScan _ _) = True"
| "flat_limits (QFilter q _) = flat_limits q"
| "flat_limits (QProject q _) = flat_limits q"
| "flat_limits (QAggregate q _ _) = flat_limits q"
| "flat_limits (QSort q _) = flat_limits q"
| "flat_limits (QLimit q n skip) = (flat_limits q \<and> skip \<le> usize_max \<and> (skip = 0 \<or> plan_limits q = []))"
| "flat_limits (QJoin l r _) = (flat_limits l \<and> flat_limits r)"

definition opt_columns :: "expr option \<Rightarrow> string set" where
  "opt_columns p = (case p of None \<Rightarrow> {} | Some p \<Rightarrow> expr_columns p)"

definition opt_spec_columns :: "agg_spec option \<Rightarrow> string set" where
  "opt_spec_columns sp = (case sp of None \<Rightarrow> {} | Some sp \<Rightarrow> spec_columns sp)"

definition names_ok :: "lowering \<Rightarrow> output_schema \<Rightarrow> bool" where
  "names_ok st sc \<longleftrightarrow>
     (case lo_rename st of
        None \<Rightarrow> (lo_aggregate st = None \<longrightarrow> out_names sc = lo_columns st)
      | Some m \<Rightarrow> out_names sc = map snd m \<and> (lo_aggregate st = None \<longrightarrow> set (map fst m) \<subseteq> set (lo_columns st)))"

lemma names_ok_update [simp]:
  "names_ok (st\<lparr>lo_sort := ks\<rparr>) sc = names_ok st sc" "names_ok (st\<lparr>lo_limit := n\<rparr>) sc = names_ok st sc"
  "names_ok (st\<lparr>lo_offset := k\<rparr>) sc = names_ok st sc" "names_ok (st\<lparr>lo_stage := s\<rparr>) sc = names_ok st sc"
  "names_ok (st\<lparr>lo_filter := p\<rparr>) sc = names_ok st sc"
  by (cases "lo_rename st"; simp add: names_ok_def)+

definition lower_inv :: "lowering \<Rightarrow> query \<Rightarrow> output_schema \<Rightarrow> bool" where
  "lower_inv st q sc \<longleftrightarrow>
     lo_table st \<noteq> None \<and> scan_request q = Some (lo_columns st) \<and>
     opt_columns (lo_filter st) \<subseteq> set (lo_columns st) \<and> opt_spec_columns (lo_aggregate st) \<subseteq> set (lo_columns st) \<and>
     names_ok st sc \<and>
     (lo_aggregate st = None \<longrightarrow> so_column ` set (lo_sort st) \<subseteq> set (out_names sc)) \<and>
     (lo_aggregate st \<noteq> None \<longrightarrow> SAggregate \<le> lo_stage st) \<and>
     (lo_rename st \<noteq> None \<longrightarrow> SRename \<le> lo_stage st) \<and>
     (lo_sort st \<noteq> [] \<longrightarrow> SSort \<le> lo_stage st) \<and>
     (lo_limit st \<noteq> None \<longrightarrow> lo_stage st = SLimit) \<and>
     (lo_limit st = None \<longleftrightarrow> plan_limits q = []) \<and> (lo_limit st = None \<longrightarrow> lo_offset st = 0) \<and> lo_offset st \<le> usize_max"

definition lower_sem :: "lowering \<Rightarrow> query \<Rightarrow> bool" where
  "lower_sem st q \<longleftrightarrow> (\<forall>S F es. answers S F es q = lowered S F st (map (restrict_env (lo_columns st)) es))"

lemma stage_less: "a < b \<longleftrightarrow> stage_rank a < stage_rank b" for a b :: stage
  by (simp add: less_stage_def)

lemma stage_le: "a \<le> b \<longleftrightarrow> stage_rank a \<le> stage_rank b" for a b :: stage
  by (simp add: less_eq_stage_def)

lemma max_stage_le [simp]: "a \<le> max b c \<longleftrightarrow> a \<le> b \<or> a \<le> c" for a b c :: stage
  by (rule le_max_iff_disj)

text \<open>What is still empty when a node of a stage is accepted.\<close>

lemma allowed_early:
  assumes "lower_inv st q sc" "stage_allowed st s" "s \<le> SRename"
  shows "lo_sort st = [] \<and> lo_limit st = None \<and> lo_offset st = 0"
  using assms by (cases s; cases "lo_stage st") (auto simp: lower_inv_def stage_allowed_def stage_less stage_le)

lemma allowed_filter:
  assumes "lower_inv st q sc" "stage_allowed st SFilter"
  shows "lo_aggregate st = None"
  using assms by (cases "lo_stage st") (auto simp: lower_inv_def stage_allowed_def stage_less stage_le)

lemma allowed_sort:
  assumes "lower_inv st q sc" "stage_allowed st SSort"
  shows "lo_limit st = None \<and> lo_offset st = 0"
  using assms by (cases "lo_stage st") (auto simp: lower_inv_def stage_allowed_def stage_less stage_le)

section \<open>One node\<close>

lemma lower_sem_early:
  assumes "lo_sort st = []" "lo_limit st = None" "lo_offset st = 0"
  shows "lowered S F st es = {renamed (lo_rename st) (aggregated F (lo_aggregate st) (filtered S (lo_filter st) es))}"
  using assms by (simp add: lowered_def sort_answers_def)

lemma filter_renamed:
  assumes "(case ren of None \<Rightarrow> Inr p | Some m \<Rightarrow> rewrite_columns (source_of m) p) = Inr p'"
  shows "filter (\<lambda>e. sql_holds S e p) (renamed ren es) = renamed ren (filter (\<lambda>e. sql_holds S e p') es)"
proof (cases ren)
  case None
  then show ?thesis using assms by (simp add: renamed_def)
next
  case (Some m)
  then have r: "rewrite_columns (source_of m) p = Inr p'" using assms by simp
  have "sql S e p' = sql S (rename_env m e) p" for e
    unfolding rewrite_sql [OF r] using rewrite_columns_set [OF r] by (intro sql_cong) (auto simp: rename_env_def)
  then show ?thesis by (simp add: Some renamed_def filter_map comp_def sql_holds_def)
qed

lemma rewritten_columns:
  assumes "(case lo_rename st of None \<Rightarrow> Inr p | Some m \<Rightarrow> rewrite_columns (source_of m) p) = Inr p'"
    and "names_ok st sc" "lo_aggregate st = None" "expr_columns p \<subseteq> set (out_names sc)"
  shows "expr_columns p' \<subseteq> set (lo_columns st)"
proof (cases "lo_rename st")
  case None
  then show ?thesis using assms by (auto simp: names_ok_def)
next
  case (Some m)
  then have r: "rewrite_columns (source_of m) p = Inr p'" using assms by simp
  show ?thesis
  proof
    fix c
    assume "c \<in> expr_columns p'"
    then obtain n where n: "n \<in> expr_columns p" "c = the (source_of m n)" using rewrite_columns_set [OF r] by auto
    then obtain s where s: "source_of m n = Some s" using rewrite_columns_set [OF r] by (cases "source_of m n") auto
    have "s \<in> set (map fst m)" using source_of_Some [OF s] by force
    then show "c \<in> set (lo_columns st)" using assms(2,3) Some n(2) s by (auto simp: names_ok_def)
  qed
qed

lemma lower_filter_step:
  assumes inv: "lower_inv st q sc" and sem: "lower_sem st q" and a: "stage_allowed st SFilter"
    and e: "expr_columns p \<subseteq> set (out_names sc)" and l: "lower_filter st p = Inr st'"
  shows "lower_inv (st'\<lparr>lo_stage := max (lo_stage st') SFilter\<rparr>) (QFilter q p) sc"
    "lower_sem (st'\<lparr>lo_stage := max (lo_stage st') SFilter\<rparr>) (QFilter q p)"
proof -
  have r: "SFilter \<le> SRename" by (simp add: stage_le)
  note early = allowed_early [OF inv a r] allowed_filter [OF inv a]
  obtain p' where p': "(case lo_rename st of None \<Rightarrow> Inr p | Some m \<Rightarrow> rewrite_columns (source_of m) p) = Inr p'"
    and st': "st' = st\<lparr>lo_filter := Some (case lo_filter st of None \<Rightarrow> p' | Some e \<Rightarrow> EBinary OpAnd e p')\<rparr>"
    using l by (auto simp: lower_filter_def result_simps)
  have n: "names_ok st sc" using inv by (simp add: lower_inv_def)
  have c: "expr_columns p' \<subseteq> set (lo_columns st)" using rewritten_columns [OF p' n _ e] early by simp
  show "lower_inv (st'\<lparr>lo_stage := max (lo_stage st') SFilter\<rparr>) (QFilter q p) sc"
    using inv c early by (auto simp: st' lower_inv_def opt_columns_def split: option.splits)
  have "filtered S (lo_filter st') es = filter (\<lambda>e. sql_holds S e p') (filtered S (lo_filter st) es)" for S es
    by (cases "lo_filter st") (auto simp: st' filtered_def conj_commute cong: filter_cong)
  then show "lower_sem (st'\<lparr>lo_stage := max (lo_stage st') SFilter\<rparr>) (QFilter q p)"
    using sem early filter_renamed [OF p']
    by (simp add: lower_sem_def lower_sem_early st' aggregated_def)
qed

lemma aggregate_columns_known: "check_aggregate t sc a = Inr b \<Longrightarrow> ag_column b = Some c \<Longrightarrow> c \<in> set (out_names sc)"
  by (auto simp: check_aggregate_def Let_def result_simps dest: out_column_name split: option.splits if_splits)

lemma check_aggregates_columns:
  "check_aggregates t sc seen as = Inr bs \<Longrightarrow> b \<in> set bs \<Longrightarrow> ag_column b = Some c \<Longrightarrow> c \<in> set (out_names sc)"
proof (induction as arbitrary: seen bs)
  case (Cons a as)
  obtain d rest where d: "check_aggregate t sc a = Inr d" "check_aggregates t sc (ag_alias d # seen) as = Inr rest" "bs = d # rest"
    using Cons.prems(1) by (auto simp: result_simps split: if_splits)
  then show ?case using Cons.IH [OF d(2)] Cons.prems(2,3) aggregate_columns_known [OF d(1)] by auto
qed simp

lemma lower_aggregate_step:
  assumes inv: "lower_inv st q sc" and sem: "lower_sem st q" and a: "stage_allowed st SAggregate"
    and g: "set gs \<subseteq> set (out_names sc)" and c: "\<And>b c. b \<in> set as \<Longrightarrow> ag_column b = Some c \<Longrightarrow> c \<in> set (out_names sc)"
    and l: "lower_aggregate st gs as = Inr st'"
  shows "lower_inv (st'\<lparr>lo_stage := max (lo_stage st') SAggregate\<rparr>) (QAggregate q gs as) sc'"
    "lower_sem (st'\<lparr>lo_stage := max (lo_stage st') SAggregate\<rparr>) (QAggregate q gs as)"
proof -
  have r: "SAggregate \<le> SRename" by (simp add: stage_le)
  note early = allowed_early [OF inv a r]
  let ?sp = "\<lparr>as_group_by = gs, as_aggregates = as\<rparr>"
  have n: "lo_aggregate st = None" and id: "\<And>m. lo_rename st = Some m \<Longrightarrow> \<forall>(s, a) \<in> set m. s = a"
    and st': "st' = st\<lparr>lo_rename := None, lo_aggregate := Some ?sp\<rparr>"
    using l by (auto simp: lower_aggregate_def list_ex_iff result_simps split: option.splits if_splits)
  have nm: "names_ok st sc" using inv by (simp add: lower_inv_def)
  have cols: "spec_columns ?sp \<subseteq> set (out_names sc)" using g c by (auto simp: spec_columns_def)
  have sub: "set (out_names sc) \<subseteq> set (lo_columns st)"
  proof (cases "lo_rename st")
    case None
    then show ?thesis using nm n by (simp add: names_ok_def)
  next
    case (Some m)
    have "map fst m = map snd m" using id [OF Some] by auto
    then show ?thesis using Some nm n by (simp add: names_ok_def)
  qed
  show "lower_inv (st'\<lparr>lo_stage := max (lo_stage st') SAggregate\<rparr>) (QAggregate q gs as) sc'"
    using inv early n cols sub by (auto simp: st' lower_inv_def names_ok_def opt_spec_columns_def)
  have "agg_rows F ?sp (renamed (lo_rename st) es) = agg_rows F ?sp es" for F es
  proof (cases "lo_rename st")
    case None
    then show ?thesis by (simp add: renamed_def)
  next
    case (Some m)
    have "rename_env m e x = e x" if "x \<in> spec_columns ?sp" for x e
    proof -
      have "x \<in> set (map snd m)" using that cols nm Some by (auto simp: names_ok_def)
      then have "source_of m x = Some x" using source_of_id [OF id [OF Some]] by blast
      then show ?thesis by (simp add: rename_env_def)
    qed
    then show ?thesis using agg_rows_agree [of ?sp "rename_env m"] by (simp add: renamed_def Some)
  qed
  then show "lower_sem (st'\<lparr>lo_stage := max (lo_stage st') SAggregate\<rparr>) (QAggregate q gs as)"
    using sem early n by (simp add: lower_sem_def lower_sem_early st' aggregated_def renamed_def [of None])
qed

lemma renamed_compose:
  assumes "\<And>ex. old = Some ex \<Longrightarrow> set (map fst m) \<subseteq> set (map snd ex)"
  shows "renamed (Some (compose_rename old m)) es = map (rename_env m) (renamed old es)"
proof (cases old)
  case None
  then show ?thesis by (simp add: renamed_def compose_rename_def)
next
  case (Some ex)
  then show ?thesis using rename_compose [OF assms [OF Some]] by (simp add: renamed_def)
qed

lemma compose_snd [simp]: "map snd (compose_rename old m) = map snd m"
  by (auto simp: compose_rename_def comp_def case_prod_beta split: option.splits)

lemma compose_fst:
  assumes "set (map fst m) \<subseteq> set (map snd ex)"
  shows "set (map fst (compose_rename (Some ex) m)) \<subseteq> set (map fst ex)"
proof
  fix b
  assume "b \<in> set (map fst (compose_rename (Some ex) m))"
  then obtain s a where s: "(s, a) \<in> set m" "b = (case source_of ex s of Some base \<Rightarrow> base | None \<Rightarrow> s)"
    by (auto simp: compose_rename_def)
  obtain d where d: "source_of ex s = Some d" using source_of_in [of s ex] s(1) assms by force
  show "b \<in> set (map fst ex)" using source_of_Some [OF d] s(2) d by force
qed

lemma project_sources: "mapM (\<lambda>(e, a). rmap (\<lambda>s. (s, a)) (ok_or Unsupported (as_column e))) es = Inr m \<Longrightarrow> m = project_map es"
  by (induction es arbitrary: m) (auto simp: project_map_def result_simps)

lemma lower_project_step:
  assumes inv: "lower_inv st q sc" and sem: "lower_sem st q" and a: "stage_allowed st SRename"
    and c: "set (map fst (project_map es)) \<subseteq> set (out_names sc)" and o: "out_names sc' = map snd es" and l: "lower_project st es = Inr st'"
  shows "lower_inv (st'\<lparr>lo_stage := max (lo_stage st') SRename\<rparr>) (QProject q es) sc'"
    "lower_sem (st'\<lparr>lo_stage := max (lo_stage st') SRename\<rparr>) (QProject q es)"
proof -
  have r: "SRename \<le> SRename" by simp
  note early = allowed_early [OF inv a r]
  let ?m = "project_map es"
  have st': "st' = st\<lparr>lo_rename := Some (compose_rename (lo_rename st) ?m)\<rparr>"
    using l by (auto simp: lower_project_def result_simps dest: project_sources)
  have nm: "names_ok st sc" using inv by (simp add: lower_inv_def)
  have s: "map snd ?m = map snd es" by (auto simp: project_map_def)
  have ex: "\<And>ex. lo_rename st = Some ex \<Longrightarrow> set (map fst ?m) \<subseteq> set (map snd ex)" using nm c by (simp add: names_ok_def)
  have "set (map fst (compose_rename (lo_rename st) ?m)) \<subseteq> set (lo_columns st)" if n: "lo_aggregate st = None"
  proof (cases "lo_rename st")
    case None
    then show ?thesis using nm c n by (simp add: names_ok_def compose_rename_def)
  next
    case (Some m)
    then have "set (map fst m) \<subseteq> set (lo_columns st)" using nm n by (simp add: names_ok_def)
    then show ?thesis using compose_fst [OF ex [OF Some]] Some by simp
  qed
  then show "lower_inv (st'\<lparr>lo_stage := max (lo_stage st') SRename\<rparr>) (QProject q es) sc'"
    using inv early o s by (auto simp: st' lower_inv_def names_ok_def)
  show "lower_sem (st'\<lparr>lo_stage := max (lo_stage st') SRename\<rparr>) (QProject q es)"
    using sem early renamed_compose [OF ex] by (simp add: lower_sem_def lower_sem_early st')
qed

lemma lower_sort_step:
  assumes inv: "lower_inv st q sc" and sem: "lower_sem st q" and a: "stage_allowed st SSort"
    and c: "so_column ` set ks \<subseteq> set (out_names sc)" and k: "ks \<noteq> []" "lo_sort st = []"
  shows "lower_inv (st\<lparr>lo_sort := ks, lo_stage := max (lo_stage st) SSort\<rparr>) (QSort q ks) sc"
    "lower_sem (st\<lparr>lo_sort := ks, lo_stage := max (lo_stage st) SSort\<rparr>) (QSort q ks)"
proof -
  have "names_ok (st\<lparr>lo_sort := ks, lo_stage := max (lo_stage st) SSort\<rparr>) sc = names_ok st sc" by simp
  then show "lower_inv (st\<lparr>lo_sort := ks, lo_stage := max (lo_stage st) SSort\<rparr>) (QSort q ks) sc"
    using inv allowed_sort [OF inv a] c k by (auto simp: lower_inv_def)
  show "lower_sem (st\<lparr>lo_sort := ks, lo_stage := max (lo_stage st) SSort\<rparr>) (QSort q ks)"
    using sem allowed_sort [OF inv a] k by (simp add: lower_sem_def lowered_def sort_answers_def)
qed

lemma lower_limit_step:
  assumes inv: "lower_inv st q sc" and sem: "lower_sem st q" and f: "flat_limits (QLimit q n skip)"
  defines "st' \<equiv> st\<lparr>lo_limit := Some (case lo_limit st of None \<Rightarrow> n | Some m \<Rightarrow> min m n),
                     lo_offset := saturating_add (lo_offset st) skip, lo_stage := max (lo_stage st) SLimit\<rparr>"
  shows "lower_inv st' (QLimit q n skip) sc" "lower_sem st' (QLimit q n skip)"
proof -
  have m: "max s SLimit = SLimit" for s by (cases s) (simp_all add: max_def stage_le)
  show "lower_inv st' (QLimit q n skip) sc"
    using inv by (auto simp: st'_def lower_inv_def saturating_add_def m stage_le)
  show "lower_sem st' (QLimit q n skip)"
  proof (cases "lo_limit st")
    case None
    then have "lo_offset st = 0" using inv by (simp add: lower_inv_def)
    then show ?thesis using sem None f
      by (auto simp: st'_def lower_sem_def lowered_def saturating_add_def image_image)
  next
    case (Some k)
    then have "skip = 0" using inv f by (auto simp: lower_inv_def)
    moreover have "lo_offset st \<le> usize_max" using inv by (simp add: lower_inv_def)
    ultimately show ?thesis using sem Some
      by (auto simp: st'_def lower_sem_def lowered_def saturating_add_def image_image window_window)
  qed
qed

section \<open>A whole plan\<close>

lemma nodes_from_simps [simp]:
  "nodes_from (QScan tr cols) = [QScan tr cols]"
  "nodes_from (QFilter q p) = QFilter q p # nodes_from q"
  "nodes_from (QProject q es) = QProject q es # nodes_from q"
  "nodes_from (QAggregate q gs as) = QAggregate q gs as # nodes_from q"
  "nodes_from (QSort q ks) = QSort q ks # nodes_from q"
  "nodes_from (QLimit q n k) = QLimit q n k # nodes_from q"
  "nodes_from (QJoin l r p) = QJoin l r p # nodes_from l"
  by (subst nodes_from.simps; simp)+

lemma lower_node_Inr:
  "lower_node u (QScan tr cols) = Inr st \<longleftrightarrow> stage_allowed u SScan \<and>
     st = u\<lparr>lo_table := Some tr, lo_columns := (case cols of Some ns \<Rightarrow> ns | None \<Rightarrow> []), lo_stage := max (lo_stage u) SScan\<rparr>"
  "lower_node u (QFilter q p) = Inr st \<longleftrightarrow> stage_allowed u SFilter \<and>
     (\<exists>v. lower_filter u p = Inr v \<and> st = v\<lparr>lo_stage := max (lo_stage v) SFilter\<rparr>)"
  "lower_node u (QProject q es) = Inr st \<longleftrightarrow> stage_allowed u SRename \<and>
     (\<exists>v. lower_project u es = Inr v \<and> st = v\<lparr>lo_stage := max (lo_stage v) SRename\<rparr>)"
  "lower_node u (QAggregate q gs as) = Inr st \<longleftrightarrow> stage_allowed u SAggregate \<and>
     (\<exists>v. lower_aggregate u gs as = Inr v \<and> st = v\<lparr>lo_stage := max (lo_stage v) SAggregate\<rparr>)"
  "lower_node u (QSort q ks) = Inr st \<longleftrightarrow> stage_allowed u SSort \<and> lo_sort u = [] \<and>
     st = u\<lparr>lo_sort := ks, lo_stage := max (lo_stage u) SSort\<rparr>"
  "lower_node u (QLimit q n k) = Inr st \<longleftrightarrow> stage_allowed u SLimit \<and>
     st = u\<lparr>lo_limit := Some (case lo_limit u of None \<Rightarrow> n | Some m \<Rightarrow> min m n),
            lo_offset := saturating_add (lo_offset u) k, lo_stage := max (lo_stage u) SLimit\<rparr>"
  by (auto simp: lower_node_def result_simps split: if_splits)

lemma foldM_snoc: "foldM f s (xs @ [x]) = Inr s' \<longleftrightarrow> (\<exists>u. foldM f s xs = Inr u \<and> f u x = Inr s')"
  by (simp add: foldM_append result_simps)

lemma check_project_sources: "check_project sc seen es = Inr rs \<Longrightarrow> set (map fst (project_map es)) \<subseteq> set (out_names sc)"
proof (induction es arbitrary: seen rs)
  case (Cons x es)
  obtain e a where x: "x = (e, a)" by (cases x)
  from Cons.prems obtain src m rest where c: "as_column e = Some src" "out_column sc src = Some m" "check_project sc (a # seen) es = Inr rest"
    by (auto simp: x result_simps split: if_splits)
  then show ?case using Cons.IH [OF c(3)] out_column_name [OF c(2)] by (auto simp: x project_map_def)
qed (simp add: project_map_def)

lemma check_sort_column: "check_sort sc k = Inr j \<Longrightarrow> so_column k \<in> set (out_names sc)"
  by (auto simp: check_sort_def result_simps dest: out_column_name split: if_splits)

lemma check_sort_columns: "mapM (check_sort sc) ks = Inr js \<Longrightarrow> so_column ` set ks \<subseteq> set (out_names sc)"
proof (induction ks arbitrary: js)
  case (Cons k ks)
  from Cons.prems obtain j rest where c: "check_sort sc k = Inr j" "mapM (check_sort sc) ks = Inr rest"
    by (auto simp: result_simps)
  then show ?case using Cons.IH [OF c(2)] check_sort_column [OF c(1)] by auto
qed simp

lemma lower_walk:
  assumes "walk_plan L t lim q0 = Inr (q, sc, ws)" "flat_limits q" "foldM lower_node lo_start (rev (nodes_from q)) = Inr st"
  shows "lower_inv st q sc \<and> lower_sem st q"
  using assms
proof (induction q0 arbitrary: q sc ws st)
  case (QScan tr cols)
  from QScan.prems(1) have c: "check_scan t tr cols = Inr (q, sc)" by (auto simp: result_simps)
  obtain ns where n: "q = QScan tr (Some ns)" "out_names sc = ns" using c by (rule check_scan_cases)
  then have "st = lo_start\<lparr>lo_table := Some tr, lo_columns := ns\<rparr>"
    using QScan.prems(3) by (auto simp: lower_node_Inr lo_start_def max_def stage_le)
  then show ?case using n
    by (auto simp: lower_inv_def lower_sem_def lo_start_def names_ok_def opt_columns_def opt_spec_columns_def lowered_def sort_answers_def
      renamed_def aggregated_def filtered_def)
next
  case (QFilter q1 p0)
  from QFilter.prems(1) obtain r p ty where w: "walk_plan L t lim q1 = Inr (r, sc, ws)" "check_expr L sc p0 = Inr (p, ty)" "q = QFilter r p"
    by (auto simp: result_simps split: if_splits)
  from QFilter.prems(3) obtain u st' where u: "foldM lower_node lo_start (rev (nodes_from r)) = Inr u" "stage_allowed u SFilter"
      "lower_filter u p = Inr st'" "st = st'\<lparr>lo_stage := max (lo_stage st') SFilter\<rparr>"
    by (auto simp: w(3) foldM_snoc lower_node_Inr)
  have f: "flat_limits r" using QFilter.prems(2) w(3) by simp
  note I = QFilter.IH [OF w(1) f u(1)]
  have e: "expr_columns p \<subseteq> set (out_names sc)" using check_expr_columns [OF w(2)] by simp
  then show ?case using lower_filter_step [OF I [THEN conjunct1] I [THEN conjunct2] u(2) e u(3)] u(4) w(3) by simp
next
  case (QProject q1 es)
  from QProject.prems(1) obtain r sc0 rs where w: "walk_plan L t lim q1 = Inr (r, sc0, ws)" "check_project sc0 [] es = Inr rs"
      "q = QProject r (map fst rs)" "sc = map snd rs"
    by (auto simp: result_simps split: if_splits)
  note N = check_project_names [OF w(2)]
  from QProject.prems(3) obtain u st' where u: "foldM lower_node lo_start (rev (nodes_from r)) = Inr u" "stage_allowed u SRename"
      "lower_project u es = Inr st'" "st = st'\<lparr>lo_stage := max (lo_stage st') SRename\<rparr>"
    using N by (auto simp: w(3) foldM_snoc lower_node_Inr)
  have f: "flat_limits r" using QProject.prems(2) w(3) by simp
  note I = QProject.IH [OF w(1) f u(1)]
  have o: "out_names sc = map snd es" using N w(4) by simp
  then show ?case
    using lower_project_step [OF I [THEN conjunct1] I [THEN conjunct2] u(2) check_project_sources [OF w(2)] o u(3)] u(4) w(3) N by simp
next
  case (QAggregate q1 gs as)
  from QAggregate.prems(1) obtain r sc0 ms bs where w: "walk_plan L t lim q1 = Inr (r, sc0, ws)" "check_groups sc0 [] gs = Inr ms"
      "check_aggregates t sc0 (rev gs) as = Inr bs" "q = QAggregate r gs bs"
    by (auto simp: result_simps split: if_splits)
  from QAggregate.prems(3) obtain u st' where u: "foldM lower_node lo_start (rev (nodes_from r)) = Inr u" "stage_allowed u SAggregate"
      "lower_aggregate u gs bs = Inr st'" "st = st'\<lparr>lo_stage := max (lo_stage st') SAggregate\<rparr>"
    by (auto simp: w(4) foldM_snoc lower_node_Inr)
  have f: "flat_limits r" using QAggregate.prems(2) w(4) by simp
  note I = QAggregate.IH [OF w(1) f u(1)]
  have g: "set gs \<subseteq> set (out_names sc0)" using check_groups_names [OF w(2)] by (auto simp: out_names_def)
  then show ?case
    using lower_aggregate_step [OF I [THEN conjunct1] I [THEN conjunct2] u(2) g check_aggregates_columns [OF w(3)] u(3)] u(4) w(4) by simp
next
  case (QSort q1 ks)
  from QSort.prems(1) obtain r js where w: "walk_plan L t lim q1 = Inr (r, sc, ws)" "ks \<noteq> []" "mapM (check_sort sc) ks = Inr js" "q = QSort r js"
    by (auto simp: result_simps split: if_splits)
  have j: "js = ks" using check_sort_idem [OF w(3)] .
  from QSort.prems(3) obtain u where u: "foldM lower_node lo_start (rev (nodes_from r)) = Inr u" "stage_allowed u SSort"
      "lo_sort u = []" "st = u\<lparr>lo_sort := ks, lo_stage := max (lo_stage u) SSort\<rparr>"
    by (auto simp: w(4) j foldM_snoc lower_node_Inr)
  have f: "flat_limits r" using QSort.prems(2) w(4) by simp
  note I = QSort.IH [OF w(1) f u(1)]
  show ?case
    using lower_sort_step [OF I [THEN conjunct1] I [THEN conjunct2] u(2) check_sort_columns [OF w(3)] w(2) u(3)] u(4) w(4) j by simp
next
  case (QLimit q1 n0 k)
  from QLimit.prems(1) obtain r ws0 n where w: "walk_plan L t lim q1 = Inr (r, sc, ws0)" "q = QLimit r n k"
    by (auto simp: result_simps split: if_splits)
  from QLimit.prems(3) obtain u where u: "foldM lower_node lo_start (rev (nodes_from r)) = Inr u"
      "st = u\<lparr>lo_limit := Some (case lo_limit u of None \<Rightarrow> n | Some m \<Rightarrow> min m n),
               lo_offset := saturating_add (lo_offset u) k, lo_stage := max (lo_stage u) SLimit\<rparr>"
    by (auto simp: w(2) foldM_snoc lower_node_Inr)
  have f: "flat_limits r" using QLimit.prems(2) w(2) by simp
  note I = QLimit.IH [OF w(1) f u(1)]
  show ?case using lower_limit_step [OF I [THEN conjunct1] I [THEN conjunct2] QLimit.prems(2) [unfolded w(2)]] u(2) w(2) by simp
next
  case (QJoin l r p)
  from QJoin.prems(1) show ?case by simp
qed

section \<open>Projection pushdown\<close>

lemma set_insert_all [simp]: "set (insert_all xs acc) = set xs \<union> set acc"
  unfolding insert_all_def by (induction xs arbitrary: acc) auto

lemma pushed_projection_cases:
  assumes "pushed_projection cols needed = Inr P" "set needed \<subseteq> set cols"
  shows "cols \<noteq> []" "P \<noteq> []" "set needed \<subseteq> set P" "set P \<subseteq> set cols" "set needed = set cols \<Longrightarrow> P = cols"
  using assms by (auto simp: pushed_projection_def Let_def filter_empty_conv split: if_splits list.splits)

lemma mapM_sort_sources:
  assumes "mapM (sort_source ren) ks = Inr srcs" "so_column ` set ks \<subseteq> set ns"
    and "ren = None \<Longrightarrow> set ns \<subseteq> C" "\<And>m. ren = Some m \<Longrightarrow> set (map fst m) \<subseteq> C"
  shows "set srcs \<subseteq> C"
proof
  fix s
  assume "s \<in> set srcs"
  then obtain k where k: "k \<in> set ks" "sort_source ren k = Inr s" using mapM_Inr_set [OF assms(1)] by blast
  show "s \<in> C"
  proof (cases ren)
    case None
    then show ?thesis using k assms(2,3) by (auto simp: sort_source_def)
  next
    case (Some m)
    then have "source_of m (so_column k) = Some s" using k(2) by (simp add: sort_source_def ok_or_Inr_iff)
    then show ?thesis using source_of_Some assms(4) [OF Some] by force
  qed
qed

lemma needed_within:
  assumes "lower_inv st q sc" "needed_columns st = Inr needed"
  shows "set needed \<subseteq> set (lo_columns st)" "opt_columns (lo_filter st) \<subseteq> set needed" "opt_spec_columns (lo_aggregate st) \<subseteq> set needed"
    "lo_aggregate st = None \<Longrightarrow> lo_rename st = Some m \<Longrightarrow> set (map fst m) \<subseteq> set needed"
    "lo_aggregate st = None \<Longrightarrow> lo_rename st = None \<Longrightarrow> set (lo_columns st) \<subseteq> set needed"
proof -
  have f: "opt_columns (lo_filter st) \<subseteq> set (lo_columns st)" "opt_spec_columns (lo_aggregate st) \<subseteq> set (lo_columns st)" "names_ok st sc"
    and s: "lo_aggregate st = None \<longrightarrow> so_column ` set (lo_sort st) \<subseteq> set (out_names sc)"
    using assms(1) by (simp_all add: lower_inv_def)
  let ?base = "case lo_filter st of None \<Rightarrow> [] | Some p \<Rightarrow> insert_all (referenced_columns p) []"
  have b: "set ?base = opt_columns (lo_filter st)" by (simp add: opt_columns_def split: option.split)
  have "set needed \<subseteq> set (lo_columns st) \<and> opt_columns (lo_filter st) \<subseteq> set needed \<and> opt_spec_columns (lo_aggregate st) \<subseteq> set needed \<and>
     (lo_aggregate st = None \<longrightarrow> (\<forall>m. lo_rename st = Some m \<longrightarrow> set (map fst m) \<subseteq> set needed) \<and>
        (lo_rename st = None \<longrightarrow> set (lo_columns st) \<subseteq> set needed))"
  proof (cases "lo_aggregate st")
    case (Some sp)
    have "set (List.map_filter ag_column (as_aggregates sp)) \<union> set (as_group_by sp) = spec_columns sp"
      by (force simp: spec_columns_def map_filter_def)
    moreover have "set needed = set (List.map_filter ag_column (as_aggregates sp)) \<union> (set (as_group_by sp) \<union> set ?base)"
      using assms(2) Some by (simp only: needed_columns_def Let_def option.case sum.inject) (metis set_insert_all)
    ultimately have "set needed = spec_columns sp \<union> opt_columns (lo_filter st)" using b by auto
    then show ?thesis using Some f by (simp add: opt_spec_columns_def)
  next
    case None
    obtain srcs where m: "mapM (sort_source (lo_rename st)) (lo_sort st) = Inr srcs"
        "needed = insert_all srcs (insert_all (case lo_rename st of Some m \<Rightarrow> map fst m | None \<Rightarrow> lo_columns st) ?base)"
      using assms(2) None by (auto simp: needed_columns_def Let_def result_simps)
    have srcs: "set srcs \<subseteq> set (lo_columns st)"
    proof (rule mapM_sort_sources [OF m(1), of "out_names sc"])
      show "so_column ` set (lo_sort st) \<subseteq> set (out_names sc)" using s None by simp
      show "lo_rename st = None \<Longrightarrow> set (out_names sc) \<subseteq> set (lo_columns st)" using f(3) None by (simp add: names_ok_def)
      show "\<And>m. lo_rename st = Some m \<Longrightarrow> set (map fst m) \<subseteq> set (lo_columns st)" using f(3) None by (simp add: names_ok_def)
    qed
    have ren: "\<And>m. lo_rename st = Some m \<Longrightarrow> set (map fst m) \<subseteq> set (lo_columns st)" using f(3) None by (simp add: names_ok_def)
    show ?thesis
      unfolding m(2) using srcs f(1) ren None by (auto simp: b opt_spec_columns_def split: option.splits)
  qed
  then show "set needed \<subseteq> set (lo_columns st)" "opt_columns (lo_filter st) \<subseteq> set needed" "opt_spec_columns (lo_aggregate st) \<subseteq> set needed"
    "lo_aggregate st = None \<Longrightarrow> lo_rename st = Some m \<Longrightarrow> set (map fst m) \<subseteq> set needed"
    "lo_aggregate st = None \<Longrightarrow> lo_rename st = None \<Longrightarrow> set (lo_columns st) \<subseteq> set needed" by auto
qed

lemma filtered_restrict:
  assumes "opt_columns p \<subseteq> set ns"
  shows "filtered S p (map (restrict_env ns) es) = map (restrict_env ns) (filtered S p es)"
proof (cases p)
  case None
  then show ?thesis by (simp add: filtered_def)
next
  case (Some e)
  then have "restrict_env ns f n = f n" if "n \<in> expr_columns e" for n f using assms that by (auto simp: opt_columns_def)
  then show ?thesis using filter_agree [of e "restrict_env ns" S es] Some by (simp add: filtered_def)
qed

lemma restricted_pipeline:
  assumes "opt_columns p \<subseteq> set ns" "opt_spec_columns sp \<subseteq> set ns" "sp = None \<Longrightarrow> \<exists>m. ren = Some m \<and> set (map fst m) \<subseteq> set ns"
  shows "renamed ren (aggregated F sp (filtered S p (map (restrict_env ns) es))) = renamed ren (aggregated F sp (filtered S p es))"
proof (cases sp)
  case None
  then obtain m where m: "ren = Some m" "set (map fst m) \<subseteq> set ns" using assms(3) by blast
  have "rename_env m (restrict_env ns e) = rename_env m e" for e
    using m(2) source_of_Some [of m] by (fastforce simp: rename_env_def split: option.splits)
  then show ?thesis using m None assms(1) by (simp add: renamed_def aggregated_def filtered_restrict)
next
  case (Some sp')
  then have "restrict_env ns f n = f n" if "n \<in> spec_columns sp'" for n f using assms(2) that by (auto simp: opt_spec_columns_def)
  then show ?thesis using assms(1) agg_rows_agree [of sp' "restrict_env ns"] Some
    by (simp add: aggregated_def filtered_restrict)
qed

lemma build_plan_cases:
  assumes "build_plan v = Inr p"
  obtains st tr needed where "foldM lower_node lo_start (rev (nodes_from (vq_query v))) = Inr st" "lo_table st = Some tr"
    "needed_columns st = Inr needed" "pushed_projection (lo_columns st) needed = Inr (pp_projection p)"
    "pp_filter p = lo_filter st" "pp_aggregate p = lo_aggregate st" "pp_rename p = lo_rename st" "pp_sort p = lo_sort st"
    "pp_limit p = lo_limit st" "pp_offset p = lo_offset st" "pp_output p = vq_schema v" "pp_table p = tr"
    "pp_pruning p = (case lo_filter st of None \<Rightarrow> [] | Some e \<Rightarrow> extract_prune_atoms e)"
  using assms by (auto simp: build_plan_def result_simps)

lemma pipeline_lowered:
  assumes "lower_inv st q sc" "needed_columns st = Inr needed" "pushed_projection (lo_columns st) needed = Inr P"
  shows "lowered S F st (map (restrict_env P) es) = lowered S F st (map (restrict_env (lo_columns st)) es)"
proof -
  note N = needed_within [OF assms(1,2)] and P = pushed_projection_cases [OF assms(3) needed_within(1) [OF assms(1,2)]]
  show ?thesis
  proof (cases "lo_aggregate st = None \<and> lo_rename st = None")
    case True
    then show ?thesis using P(5) N(1,5) by auto
  next
    case False
    have "renamed (lo_rename st) (aggregated F (lo_aggregate st) (filtered S (lo_filter st) (map (restrict_env ns) es))) =
        renamed (lo_rename st) (aggregated F (lo_aggregate st) (filtered S (lo_filter st) es))" if "set needed \<subseteq> set ns" for ns
      using N(2-4) that False by (intro restricted_pipeline) auto
    then show ?thesis using P(3) N(1) by (simp add: lowered_def)
  qed
qed

end
