(* ===== verification/LowerTheorems.thy ===== *)
theory LowerTheorems
  imports LowerProps
begin

text \<open>The properties of lowering, on the demo query, and what goes wrong with nested limits.\<close>

definition demo_plan :: physical_plan where
  "demo_plan =
     \<lparr>pp_table = \<lparr>tr_database = None, tr_table = tname demo_schema\<rparr>, pp_projection = [''id'', ''country''],
      pp_pruning = extract_prune_atoms demo_checked, pp_filter = Some demo_checked, pp_aggregate = None, pp_rename = None,
      pp_sort = [], pp_limit = Some 100, pp_offset = 0, pp_output = vq_schema demo_validated\<rparr>"

lemma demo_build: "build_plan demo_validated = Inr demo_plan"
  by (simp add: build_plan_def demo_validated_def lower_node_def stage_allowed_def lo_start_def lower_filter_def demo_checked_def
    stage_less stage_le max_def needed_columns_def Let_def insert_all_def referenced_columns_def set_insert_def pushed_projection_def
    saturating_add_def usize_max_def demo_plan_def)

lemma lower_pipeline:
  assumes "validate L t lim q0 = Inr v" "build_plan v = Inr p" "flat_limits (vq_query v)"
  shows "pipeline S F p es = answers S F es (vq_query v)"
proof -
  obtain ws where w: "walk_plan L t lim q0 = Inr (vq_query v, vq_schema v, ws)"
    using assms(1) by (auto simp: validate_def result_simps split: if_splits)
  obtain st needed where b: "foldM lower_node lo_start (rev (nodes_from (vq_query v))) = Inr st" "needed_columns st = Inr needed"
      "pushed_projection (lo_columns st) needed = Inr (pp_projection p)" "pp_filter p = lo_filter st" "pp_aggregate p = lo_aggregate st"
      "pp_rename p = lo_rename st" "pp_sort p = lo_sort st" "pp_limit p = lo_limit st" "pp_offset p = lo_offset st"
    using assms(2) by (rule build_plan_cases)
  have I: "lower_inv st (vq_query v) (vq_schema v)" "lower_sem st (vq_query v)" using lower_walk [OF w assms(3) b(1)] by simp_all
  have "pipeline S F p es = lowered S F st (map (restrict_env (pp_projection p)) es)"
    by (simp add: pipeline_def lowered_def b(4-9))
  also have "\<dots> = lowered S F st (map (restrict_env (lo_columns st)) es)" by (rule pipeline_lowered [OF I(1) b(2,3)])
  also have "\<dots> = answers S F es (vq_query v)" using I(2) by (simp add: lower_sem_def)
  finally show ?thesis .
qed



text \<open>
  Remark: a plan reads only columns of its scan, at least one, and a sensitive column only when the query
  names it.
\<close>

theorem lower_reads:
  assumes "validate L t lim q0 = Inr v" "build_plan v = Inr p" "flat_limits (vq_query v)"
  shows "pp_projection p \<noteq> [] \<and> (\<forall>n \<in> set (pp_projection p).
    (\<exists>c \<in> set (columns t). col_name c = n \<and> \<not> sensitive c) \<or> (\<exists>ms. scan_request q0 = Some ms \<and> n \<in> set ms))"
proof -
  obtain ws where w: "walk_plan L t lim q0 = Inr (vq_query v, vq_schema v, ws)"
    using assms(1) by (auto simp: validate_def result_simps split: if_splits)
  obtain st needed where b: "foldM lower_node lo_start (rev (nodes_from (vq_query v))) = Inr st" "needed_columns st = Inr needed"
      "pushed_projection (lo_columns st) needed = Inr (pp_projection p)"
    using assms(2) by (rule build_plan_cases)
  have I: "lower_inv st (vq_query v) (vq_schema v)" using lower_walk [OF w assms(3) b(1)] by simp
  note P = pushed_projection_cases [OF b(3) needed_within(1) [OF I b(2)]]
  obtain ns where "scan_request (vq_query v) = Some ns" "scan_names t (scan_request q0) = Inr ns" using walk_request [OF w] by blast
  then have "scan_names t (scan_request q0) = Inr (lo_columns st)" using I by (auto simp: lower_inv_def)
  then show ?thesis using P(2,4) scan_names_visible by blast
qed

theorem lower_reads_witness: "pp_projection demo_plan \<noteq> []"
  using lower_reads [OF demo_validate demo_build] by (simp add: demo_validated_def)

text \<open>
  C36: a defect: limits are intersected but their offsets added, so a page of a limited plan runs past
  the inner limit: skipping \<open>k\<close> rows of the first \<open>n\<close> should leave \<open>n - k\<close>, the pipeline returns \<open>n\<close>.
\<close>

theorem nested_limits_overrun:
  assumes "vq_query v = QLimit (QLimit (QScan tr (Some ns)) n 0) n k" "build_plan v = Inr p"
    and "k \<le> n" "n + k \<le> length es" "k \<le> usize_max"
  shows "(\<forall>out \<in> answers S F es (vq_query v). length out = n - k) \<and> (\<forall>out \<in> pipeline S F p es. length out = n)"
proof
  show "\<forall>out \<in> answers S F es (vq_query v). length out = n - k" using assms by (simp add: window_def)
  obtain st where b: "foldM lower_node lo_start (rev (nodes_from (vq_query v))) = Inr st" "pp_filter p = lo_filter st"
      "pp_aggregate p = lo_aggregate st" "pp_rename p = lo_rename st" "pp_sort p = lo_sort st" "pp_limit p = lo_limit st" "pp_offset p = lo_offset st"
    using assms(2) by (rule build_plan_cases)
  have "lo_filter st = None \<and> lo_aggregate st = None \<and> lo_rename st = None \<and> lo_sort st = [] \<and> lo_limit st = Some n \<and> lo_offset st = k"
    using b(1) assms(1,5) by (auto simp: lower_node_Inr result_simps lo_start_def saturating_add_def)
  then show "\<forall>out \<in> pipeline S F p es. length out = n"
    using assms(4) by (simp add: pipeline_def b(2-7) filtered_def aggregated_def renamed_def sort_answers_def window_def)
qed

theorem nested_limits_overrun_witness:
  "\<exists>p. build_plan (demo_validated\<lparr>vq_query := QLimit (QLimit (QScan \<lparr>tr_database = None, tr_table = tname demo_schema\<rparr> (Some [''id''])) 2 0) 2 1\<rparr>) = Inr p \<and>
     (\<forall>out \<in> pipeline demo_sql (\<lambda>_ _. VNull) p (replicate 3 (\<lambda>_. VNull)). length out = 2)"
proof -
  let ?v = "demo_validated\<lparr>vq_query := QLimit (QLimit (QScan \<lparr>tr_database = None, tr_table = tname demo_schema\<rparr> (Some [''id''])) 2 0) 2 1\<rparr>"
  obtain p where p: "build_plan ?v = Inr p"
    by (simp add: build_plan_def demo_validated_def lower_node_def stage_allowed_def lo_start_def stage_less stage_le max_def needed_columns_def
      Let_def insert_all_def set_insert_def pushed_projection_def)
  show ?thesis
    using nested_limits_overrun [OF _ p, of _ _ 2 1 "replicate 3 (\<lambda>_. VNull)" demo_sql "\<lambda>_ _. VNull"] p by (auto simp: usize_max_def)
qed

end
