(* ===== verification/Eval.thy ===== *)
theory Eval
  imports Expr Batch
begin

text \<open>
  \<open>crates/adb-exec/src/eval.rs\<close>: vectorised evaluation of expressions. An operand is a column or a
  scalar, held as an array of length one. The Arrow kernels are the fields of \<open>kernel_lib\<close>;
  \<open>eval_kernels_ok\<close> states their documented behaviour. The type \<open>None\<close> of an array is Arrow's
  \<open>Null\<close>; boolean arrays are lists of \<open>VBool\<close> and \<open>VNull\<close>.
\<close>

section \<open>Operands and kernels\<close>

record carray =
  ca_type :: "arrow_type option"
  ca_values :: "adb_value list"

datatype operand = OArray carray | OScalar carray

type_synonym mask = "adb_value list"

record kernel_lib =
  kn_cmp :: "binary_op \<Rightarrow> operand \<Rightarrow> operand \<Rightarrow> mask result"
  kn_like :: "operand \<Rightarrow> operand \<Rightarrow> mask result"
  kn_arith :: "binary_op \<Rightarrow> operand \<Rightarrow> operand \<Rightarrow> carray result"
  kn_cast :: "carray \<Rightarrow> arrow_type \<Rightarrow> carray result"
  kn_take :: "carray \<Rightarrow> nat list \<Rightarrow> carray result"
  kn_not :: "mask \<Rightarrow> mask result"
  kn_and :: "mask \<Rightarrow> mask \<Rightarrow> mask result"
  kn_or :: "mask \<Rightarrow> mask \<Rightarrow> mask result"
  kn_is_null :: "carray \<Rightarrow> mask result"
  kn_is_not_null :: "carray \<Rightarrow> mask result"
  kn_prep_null_mask :: "mask \<Rightarrow> mask"
  kn_filter :: "batch \<Rightarrow> mask \<Rightarrow> batch result"

fun operand_array :: "operand \<Rightarrow> carray" where
  "operand_array (OArray a) = a"
| "operand_array (OScalar a) = a"

definition operand_type :: "operand \<Rightarrow> arrow_type option" where
  "operand_type x = ca_type (operand_array x)"

definition cast_to :: "kernel_lib \<Rightarrow> arrow_type \<Rightarrow> operand \<Rightarrow> operand result" where
  "cast_to K t x =
     (if operand_type x = Some t then Inr x
      else case x of
             OArray a \<Rightarrow> rmap OArray (kn_cast K a t)
           | OScalar a \<Rightarrow> rmap OScalar (kn_cast K a t))"

definition into_array :: "kernel_lib \<Rightarrow> nat \<Rightarrow> operand \<Rightarrow> carray result" where
  "into_array K rows x = (case x of OArray a \<Rightarrow> Inr a | OScalar a \<Rightarrow> kn_take K a (replicate rows 0))"

definition mask_array :: "mask \<Rightarrow> carray" where
  "mask_array m = \<lparr>ca_type = Some ABoolean, ca_values = m\<rparr>"

definition as_mask :: "carray \<Rightarrow> mask result" where
  "as_mask a = (if ca_type a = Some ABoolean then Inr (ca_values a) else Inl Internal)"

definition mask_of :: "kernel_lib \<Rightarrow> nat \<Rightarrow> operand \<Rightarrow> mask result" where
  "mask_of K rows x = rbind (into_array K rows x) as_mask"

fun unify :: "arrow_type option \<Rightarrow> arrow_type option \<Rightarrow> arrow_type option" where
  "unify (Some AInt64) (Some AFloat64) = Some AFloat64"
| "unify (Some AFloat64) (Some AInt64) = Some AFloat64"
| "unify (Some ATimestampUtc) (Some ATimestampUtc) = Some ATimestampUtc"
| "unify _ _ = None"

definition literal_type :: "adb_value \<Rightarrow> arrow_type option" where
  "literal_type v = map_option arrow_type_of (data_type_of v)"

fun literal_cell :: "arrow_type option \<Rightarrow> adb_value \<Rightarrow> adb_value result" where
  "literal_cell (Some ABoolean) (VBool b) = Inr (VBool b)"
| "literal_cell (Some AInt64) (VInt i) = Inr (VInt i)"
| "literal_cell (Some AInt64) (VFloat f) = (if fract_is_zero f then Inr (VInt (f64_as_i64 f)) else Inl TypeMismatch)"
| "literal_cell (Some AFloat64) (VFloat f) = Inr (VFloat f)"
| "literal_cell (Some AFloat64) (VInt i) = Inr (VFloat (i64_as_f64 i))"
| "literal_cell (Some AUtf8) (VStr s) = Inr (VStr s)"
| "literal_cell (Some ATimestampUtc) (VTimestamp t) = Inr (VTimestamp t)"
| "literal_cell (Some ADate32) (VDate d) = Inr (VDate d)"
| "literal_cell _ _ = Inl TypeMismatch"

definition literal_array :: "adb_value \<Rightarrow> arrow_type option option \<Rightarrow> carray result" where
  "literal_array v hint =
     (let t = (case hint of Some t \<Rightarrow> t | None \<Rightarrow> literal_type v) in
      if is_null v then Inr \<lparr>ca_type = t, ca_values = [VNull]\<rparr>
      else rmap (\<lambda>c. \<lparr>ca_type = t, ca_values = [c]\<rparr>) (literal_cell t v))"

section \<open>Evaluation\<close>

definition compare_operands :: "kernel_lib \<Rightarrow> binary_op \<Rightarrow> operand \<Rightarrow> operand \<Rightarrow> operand result" where
  "compare_operands K op l r =
     rbind (if operand_type l = operand_type r then Inr (l, r)
            else rbind (ok_or TypeMismatch (unify (operand_type l) (operand_type r))) (\<lambda>t.
                 rbind (cast_to K t l) (\<lambda>l. rmap (Pair l) (cast_to K t r)))) (\<lambda>(l, r).
     if op = OpLike then rmap (\<lambda>m. OArray (mask_array m)) (kn_like K l r)
     else if is_arithmetic op then rmap OArray (kn_arith K op l r)
     else rmap (\<lambda>m. OArray (mask_array m)) (kn_cmp K op l r))"

definition in_step :: "kernel_lib \<Rightarrow> operand \<Rightarrow> mask option \<Rightarrow> adb_value \<Rightarrow> mask option result" where
  "in_step K target acc v =
     rbind (literal_array v (Some (operand_type target))) (\<lambda>a.
     rbind (kn_cmp K OpEq target (OScalar a)) (\<lambda>eq.
     case acc of None \<Rightarrow> Inr (Some eq) | Some prev \<Rightarrow> rmap Some (kn_or K prev eq)))"

definition negate_mask :: "kernel_lib \<Rightarrow> bool \<Rightarrow> mask \<Rightarrow> mask result" where
  "negate_mask K neg m = (if neg then kn_not K m else Inr m)"

definition compare_literal :: "kernel_lib \<Rightarrow> binary_op \<Rightarrow> operand \<Rightarrow> adb_value \<Rightarrow> operand result" where
  "compare_literal K op x v =
     rbind (literal_array v (Some (operand_type x))) (\<lambda>a. compare_operands K op x (OScalar a))"

fun is_literal :: "expr \<Rightarrow> bool" where
  "is_literal (ELiteral _) = True"
| "is_literal _ = False"

text \<open>
  \<open>eval_operand\<close> is \<open>eval_operand\<close> and \<open>eval_binary\<close> of the code. A range evaluates its operand once
  for each bound, as the two comparisons the code builds do; both evaluations give the same operand.
\<close>

fun eval_operand :: "kernel_lib \<Rightarrow> batch \<Rightarrow> arrow_type option option \<Rightarrow> expr \<Rightarrow> operand result" where
  "eval_operand K b hint (EColumn n) =
     rmap (\<lambda>i. OArray \<lparr>ca_type = Some (f_type (bfields b ! i)), ca_values = batch_column b i\<rparr>)
       (ok_or (NotFound ''column'') (index_of b n))"
| "eval_operand K b hint (ELiteral v) = rmap OScalar (literal_array v hint)"
| "eval_operand K b hint (ENot e) =
     rbind (eval_operand K b None e) (\<lambda>x. rbind (mask_of K (num_rows b) x) (\<lambda>m.
     rmap (\<lambda>m. OArray (mask_array m)) (kn_not K m)))"
| "eval_operand K b hint (EIsNull e) =
     rbind (eval_operand K b None e) (\<lambda>x. rbind (into_array K (num_rows b) x) (\<lambda>a.
     rmap (\<lambda>m. OArray (mask_array m)) (kn_is_null K a)))"
| "eval_operand K b hint (EIsNotNull e) =
     rbind (eval_operand K b None e) (\<lambda>x. rbind (into_array K (num_rows b) x) (\<lambda>a.
     rmap (\<lambda>m. OArray (mask_array m)) (kn_is_not_null K a)))"
| "eval_operand K b hint (EInList e vs neg) =
     rbind (eval_operand K b None e) (\<lambda>x.
     rbind (foldM (in_step K x) None vs) (\<lambda>m.
     rbind (ok_or BadRequest m) (\<lambda>m.
     rmap (\<lambda>m. OArray (mask_array m)) (negate_mask K neg m))))"
| "eval_operand K b hint (EBetween e lo hi neg) =
     rbind (eval_operand K b None e) (\<lambda>x.
     rbind (compare_literal K OpGtEq x lo) (\<lambda>l. rbind (mask_of K (num_rows b) l) (\<lambda>l.
     rbind (compare_literal K OpLtEq x hi) (\<lambda>h. rbind (mask_of K (num_rows b) h) (\<lambda>h.
     rbind (kn_and K l h) (\<lambda>m.
     rmap (\<lambda>m. OArray (mask_array m)) (negate_mask K neg m)))))))"
| "eval_operand K b hint (EBinary op l r) =
     (if is_logical op then
        rbind (eval_operand K b None l) (\<lambda>x. rbind (mask_of K (num_rows b) x) (\<lambda>x.
        rbind (eval_operand K b None r) (\<lambda>y. rbind (mask_of K (num_rows b) y) (\<lambda>y.
        rmap (\<lambda>m. OArray (mask_array m)) (if op = OpAnd then kn_and K x y else kn_or K x y)))))
      else if is_literal r then
        rbind (eval_operand K b None l) (\<lambda>x.
        rbind (eval_operand K b (Some (operand_type x)) r) (\<lambda>y. compare_operands K op x y))
      else if is_literal l then
        rbind (eval_operand K b None r) (\<lambda>y.
        rbind (eval_operand K b (Some (operand_type y)) l) (\<lambda>x. compare_operands K op x y))
      else
        rbind (eval_operand K b None l) (\<lambda>x.
        rbind (eval_operand K b None r) (\<lambda>y. compare_operands K op x y)))"

definition eval_expr :: "kernel_lib \<Rightarrow> expr \<Rightarrow> batch \<Rightarrow> carray result" where
  "eval_expr K e b = rbind (eval_operand K b None e) (into_array K (num_rows b))"

definition eval_bool :: "kernel_lib \<Rightarrow> expr \<Rightarrow> batch \<Rightarrow> mask result" where
  "eval_bool K e b = rbind (eval_expr K e b) as_mask"

definition eval_predicate :: "kernel_lib \<Rightarrow> expr \<Rightarrow> batch \<Rightarrow> mask result" where
  "eval_predicate K e b =
     rmap (\<lambda>m. if VNull \<notin> set m then m else kn_prep_null_mask K m) (eval_bool K e b)"

definition filter_batch :: "kernel_lib \<Rightarrow> expr \<Rightarrow> batch \<Rightarrow> batch result" where
  "filter_batch K e b = rbind (eval_predicate K e b) (kn_filter K b)"

section \<open>Documented behaviour of the kernels\<close>

definition cell_at :: "operand \<Rightarrow> nat \<Rightarrow> adb_value" where
  "cell_at x i = (case x of OArray a \<Rightarrow> ca_values a ! i | OScalar a \<Rightarrow> ca_values a ! 0)"

text \<open>Operands of a batch of \<open>n\<close> rows: arrays have \<open>n\<close> elements, scalars one.\<close>

definition sized :: "nat \<Rightarrow> operand \<Rightarrow> bool" where
  "sized n x \<longleftrightarrow> (case x of OArray a \<Rightarrow> length (ca_values a) = n | OScalar a \<Rightarrow> length (ca_values a) = 1)"

definition datum_rows :: "nat \<Rightarrow> operand \<Rightarrow> operand \<Rightarrow> nat" where
  "datum_rows n x y = (case (x, y) of (OScalar _, OScalar _) \<Rightarrow> 1 | _ \<Rightarrow> n)"

fun cast_float :: "adb_value \<Rightarrow> adb_value" where
  "cast_float (VInt i) = VFloat (i64_as_f64 i)"
| "cast_float v = v"

definition eval_kernels_ok :: "sql_lib \<Rightarrow> kernel_lib \<Rightarrow> bool" where
  "eval_kernels_ok S K \<longleftrightarrow>
     (\<forall>op x y n. is_comparison op \<longrightarrow> operand_type x = operand_type y \<longrightarrow> sized n x \<longrightarrow> sized n y \<longrightarrow>
        kn_cmp K op x y = Inr (map (\<lambda>i. compare_values op (cell_at x i) (cell_at y i)) [0..<datum_rows n x y])) \<and>
     (\<forall>x y n. operand_type x = Some AUtf8 \<longrightarrow> operand_type y = Some AUtf8 \<longrightarrow> sized n x \<longrightarrow> sized n y \<longrightarrow>
        kn_like K x y = Inr (map (\<lambda>i. like_values (sql_like S) (cell_at x i) (cell_at y i)) [0..<datum_rows n x y])) \<and>
     (\<forall>a. ca_type a = Some AInt64 \<longrightarrow>
        kn_cast K a AFloat64 = Inr \<lparr>ca_type = Some AFloat64, ca_values = map cast_float (ca_values a)\<rparr>) \<and>
     (\<forall>a is. (\<forall>i \<in> set is. i < length (ca_values a)) \<longrightarrow>
        kn_take K a is = Inr (a\<lparr>ca_values := map (\<lambda>i. ca_values a ! i) is\<rparr>)) \<and>
     (\<forall>m. kn_not K m = Inr (map kleene_not m)) \<and>
     (\<forall>m p. length m = length p \<longrightarrow> kn_and K m p = Inr (map2 kleene_and m p) \<and> kn_or K m p = Inr (map2 kleene_or m p)) \<and>
     (\<forall>a. kn_is_null K a = Inr (map (\<lambda>v. VBool (v = VNull)) (ca_values a)) \<and>
          kn_is_not_null K a = Inr (map (\<lambda>v. VBool (v \<noteq> VNull)) (ca_values a))) \<and>
     (\<forall>m. kn_prep_null_mask K m = map (\<lambda>v. if v = VNull then VBool False else v) m) \<and>
     (\<forall>b m. length m = num_rows b \<longrightarrow>
        kn_filter K b m = Inr (b\<lparr>brows := map fst (filter (\<lambda>(_, v). v = VBool True) (zip (brows b) m))\<rparr>))"

lemma eval_kernels_okD:
  assumes "eval_kernels_ok S K"
  shows "is_comparison op \<Longrightarrow> operand_type x = operand_type y \<Longrightarrow> sized n x \<Longrightarrow> sized n y \<Longrightarrow>
        kn_cmp K op x y = Inr (map (\<lambda>i. compare_values op (cell_at x i) (cell_at y i)) [0..<datum_rows n x y])"
    and "operand_type x = Some AUtf8 \<Longrightarrow> operand_type y = Some AUtf8 \<Longrightarrow> sized n x \<Longrightarrow> sized n y \<Longrightarrow>
        kn_like K x y = Inr (map (\<lambda>i. like_values (sql_like S) (cell_at x i) (cell_at y i)) [0..<datum_rows n x y])"
    and "ca_type a = Some AInt64 \<Longrightarrow> kn_cast K a AFloat64 = Inr \<lparr>ca_type = Some AFloat64, ca_values = map cast_float (ca_values a)\<rparr>"
    and "\<forall>i \<in> set is. i < length (ca_values a) \<Longrightarrow> kn_take K a is = Inr (a\<lparr>ca_values := map (\<lambda>i. ca_values a ! i) is\<rparr>)"
    and "kn_not K m = Inr (map kleene_not m)"
    and "length m = length p \<Longrightarrow> kn_and K m p = Inr (map2 kleene_and m p)"
    and "length m = length p \<Longrightarrow> kn_or K m p = Inr (map2 kleene_or m p)"
    and "kn_is_null K a = Inr (map (\<lambda>v. VBool (v = VNull)) (ca_values a))"
    and "kn_is_not_null K a = Inr (map (\<lambda>v. VBool (v \<noteq> VNull)) (ca_values a))"
    and "kn_prep_null_mask K m = map (\<lambda>v. if v = VNull then VBool False else v) m"
    and "length m = num_rows b \<Longrightarrow> kn_filter K b m = Inr (b\<lparr>brows := map fst (filter (\<lambda>(_, v). v = VBool True) (zip (brows b) m))\<rparr>)"
proof -
  note C = assms [unfolded eval_kernels_ok_def]
  show "is_comparison op \<Longrightarrow> operand_type x = operand_type y \<Longrightarrow> sized n x \<Longrightarrow> sized n y \<Longrightarrow>
        kn_cmp K op x y = Inr (map (\<lambda>i. compare_values op (cell_at x i) (cell_at y i)) [0..<datum_rows n x y])"
    using C [THEN conjunct1] by blast
  show "operand_type x = Some AUtf8 \<Longrightarrow> operand_type y = Some AUtf8 \<Longrightarrow> sized n x \<Longrightarrow> sized n y \<Longrightarrow>
        kn_like K x y = Inr (map (\<lambda>i. like_values (sql_like S) (cell_at x i) (cell_at y i)) [0..<datum_rows n x y])"
    using C [THEN conjunct2, THEN conjunct1] by blast
  note C = C [THEN conjunct2, THEN conjunct2]
  show "ca_type a = Some AInt64 \<Longrightarrow> kn_cast K a AFloat64 = Inr \<lparr>ca_type = Some AFloat64, ca_values = map cast_float (ca_values a)\<rparr>"
    using C [THEN conjunct1] by blast
  note C = C [THEN conjunct2]
  show "\<forall>i \<in> set is. i < length (ca_values a) \<Longrightarrow> kn_take K a is = Inr (a\<lparr>ca_values := map (\<lambda>i. ca_values a ! i) is\<rparr>)"
    using C [THEN conjunct1] by blast
  note C = C [THEN conjunct2]
  show "kn_not K m = Inr (map kleene_not m)" using C [THEN conjunct1] by blast
  note C = C [THEN conjunct2]
  show "length m = length p \<Longrightarrow> kn_and K m p = Inr (map2 kleene_and m p)"
    and "length m = length p \<Longrightarrow> kn_or K m p = Inr (map2 kleene_or m p)" using C [THEN conjunct1] by blast+
  note C = C [THEN conjunct2]
  show "kn_is_null K a = Inr (map (\<lambda>v. VBool (v = VNull)) (ca_values a))"
    and "kn_is_not_null K a = Inr (map (\<lambda>v. VBool (v \<noteq> VNull)) (ca_values a))" using C [THEN conjunct1] by blast+
  note C = C [THEN conjunct2]
  show "kn_prep_null_mask K m = map (\<lambda>v. if v = VNull then VBool False else v) m" using C [THEN conjunct1] by blast
  show "length m = num_rows b \<Longrightarrow> kn_filter K b m = Inr (b\<lparr>brows := map fst (filter (\<lambda>(_, v). v = VBool True) (zip (brows b) m))\<rparr>)"
    using C [THEN conjunct2] by blast
qed

section \<open>Expressions the kernels evaluate row by row\<close>

text \<open>
  The Arrow type of an expression that is evaluated row by row: comparisons have a side that is not a
  literal, literals have the type of the other side. Arithmetic is left out: its kernels fail on
  overflow and on division by zero.
\<close>

fun ev_type :: "(string \<Rightarrow> arrow_type option) \<Rightarrow> expr \<Rightarrow> arrow_type option" where
  "ev_type T (EColumn n) = T n"
| "ev_type T (ELiteral v) = literal_type v"
| "ev_type T (ENot e) = (if ev_type T e = Some ABoolean then Some ABoolean else None)"
| "ev_type T (EIsNull e) = (if ev_type T e = None then None else Some ABoolean)"
| "ev_type T (EIsNotNull e) = (if ev_type T e = None then None else Some ABoolean)"
| "ev_type T (EInList e vs neg) =
     (case ev_type T e of
        Some t \<Rightarrow> if \<not> is_literal e \<and> vs \<noteq> [] \<and> list_all (arrow_fits t) vs then Some ABoolean else None
      | None \<Rightarrow> None)"
| "ev_type T (EBetween e lo hi neg) =
     (case ev_type T e of
        Some t \<Rightarrow> if \<not> is_literal e \<and> arrow_fits t lo \<and> arrow_fits t hi then Some ABoolean else None
      | None \<Rightarrow> None)"
| "ev_type T (EBinary op l r) =
     (if is_arithmetic op then None
      else if is_logical op then (if ev_type T l = Some ABoolean \<and> ev_type T r = Some ABoolean then Some ABoolean else None)
      else if op = OpLike then
        (case as_literal r of
           Some (VStr _) \<Rightarrow> if \<not> is_literal l \<and> ev_type T l = Some AUtf8 then Some ABoolean else None
         | _ \<Rightarrow> None)
      else case (as_literal l, as_literal r) of
        (None, Some v) \<Rightarrow> (case ev_type T l of Some t \<Rightarrow> if arrow_fits t v then Some ABoolean else None | None \<Rightarrow> None)
      | (Some v, None) \<Rightarrow> (case ev_type T r of Some t \<Rightarrow> if arrow_fits t v then Some ABoolean else None | None \<Rightarrow> None)
      | (None, None) \<Rightarrow>
          (if ev_type T l \<noteq> None \<and> ev_type T r \<noteq> None \<and>
              (ev_type T l = ev_type T r \<or> {ev_type T l, ev_type T r} = {Some AInt64, Some AFloat64})
           then Some ABoolean else None)
      | _ \<Rightarrow> None)"

definition batch_env :: "batch \<Rightarrow> row \<Rightarrow> env" where
  "batch_env b r n = (case index_of b n of Some i \<Rightarrow> r ! i | None \<Rightarrow> VNull)"

definition batch_type :: "batch \<Rightarrow> string \<Rightarrow> arrow_type option" where
  "batch_type b n = map_option (\<lambda>i. f_type (bfields b ! i)) (index_of b n)"

definition row_values :: "sql_lib \<Rightarrow> batch \<Rightarrow> expr \<Rightarrow> adb_value list" where
  "row_values S b e = map (\<lambda>r. sql S (batch_env b r) e) (brows b)"

lemma length_row_values [simp]: "length (row_values S b e) = num_rows b"
  by (simp add: row_values_def num_rows_def)

lemma literal_array_fits:
  assumes "arrow_fits t v"
  shows "literal_array v (Some (Some t)) = Inr \<lparr>ca_type = Some t, ca_values = [v]\<rparr>"
  using assms by (cases t; cases v) (simp_all add: literal_array_def Let_def)

lemma literal_own:
  assumes "literal_type v = Some t"
  shows "literal_array v None = Inr \<lparr>ca_type = Some t, ca_values = [v]\<rparr>"
  using assms by (cases v) (auto simp: literal_array_def literal_type_def Let_def)

text \<open>\<open>evaluates S b e t x\<close>: the operand \<open>x\<close> holds the value of \<open>e\<close> on every row of \<open>b\<close>.\<close>

definition evaluates :: "sql_lib \<Rightarrow> batch \<Rightarrow> expr \<Rightarrow> arrow_type \<Rightarrow> operand \<Rightarrow> bool" where
  "evaluates S b e t x \<longleftrightarrow> operand_type x = Some t \<and>
     (if is_literal e then \<exists>v. e = ELiteral v \<and> x = OScalar \<lparr>ca_type = Some t, ca_values = [v]\<rparr>
      else x = OArray \<lparr>ca_type = Some t, ca_values = row_values S b e\<rparr>)"

lemma evaluates_sized: "evaluates S b e t x \<Longrightarrow> sized (num_rows b) x"
  by (auto simp: evaluates_def sized_def split: if_splits)

lemma evaluates_array:
  assumes "eval_kernels_ok S K" "evaluates S b e t x"
  shows "into_array K (num_rows b) x = Inr \<lparr>ca_type = Some t, ca_values = row_values S b e\<rparr>"
proof (cases "is_literal e")
  case True
  then obtain v where v: "e = ELiteral v" "x = OScalar \<lparr>ca_type = Some t, ca_values = [v]\<rparr>" using assms(2) by (auto simp: evaluates_def)
  have "kn_take K \<lparr>ca_type = Some t, ca_values = [v]\<rparr> (replicate (num_rows b) 0) =
      Inr (\<lparr>ca_type = Some t, ca_values = [v]\<rparr>\<lparr>ca_values := map (\<lambda>i. [v] ! i) (replicate (num_rows b) 0)\<rparr>)"
    using eval_kernels_okD(4) [OF assms(1), of "replicate (num_rows b) 0" "\<lparr>ca_type = Some t, ca_values = [v]\<rparr>"] by simp
  moreover have "map (\<lambda>i. [v] ! i) (replicate (num_rows b) 0) = row_values S b e"
    by (simp add: v row_values_def num_rows_def map_replicate_const [symmetric] map_replicate)
  ultimately show ?thesis by (simp add: into_array_def v)
next
  case False
  then show ?thesis using assms(2) by (simp add: evaluates_def into_array_def)
qed

lemma evaluates_mask:
  assumes "eval_kernels_ok S K" "evaluates S b e ABoolean x"
  shows "mask_of K (num_rows b) x = Inr (row_values S b e)"
  using evaluates_array [OF assms] by (simp add: mask_of_def as_mask_def)

lemma evaluates_mask_array:
  assumes "\<not> is_literal e" "m = row_values S b e"
  shows "evaluates S b e ABoolean (OArray (mask_array m))"
  using assms by (simp add: evaluates_def mask_array_def operand_type_def)

end
