(* ===== verification/EvalProps.thy ===== *)
theory EvalProps
  imports Eval LowerTheorems
begin

text \<open>
  Vectorised evaluation computes the three-valued SQL meaning of a predicate on every row, and
  filtering a batch keeps exactly the rows the predicate accepts.
\<close>

section \<open>Three-valued logic\<close>

lemma kleene_and_eq:
  "kleene_and a b = (if a = VBool False \<or> b = VBool False then VBool False
     else if a = VBool True \<and> b = VBool True then VBool True else VNull)"
  by (induction a b rule: kleene_and.induct) auto

lemma kleene_or_eq:
  "kleene_or a b = (if a = VBool True \<or> b = VBool True then VBool True
     else if a = VBool False \<and> b = VBool False then VBool False else VNull)"
  by (cases a; cases b) (auto simp: kleene_or_def kleene_and_eq)

lemma kleene_or_assoc: "kleene_or (kleene_or a b) c = kleene_or a (kleene_or b c)"
  by (simp add: kleene_or_eq)

lemma compare_bool: "compare_values op a b = VNull \<or> (\<exists>c. compare_values op a b = VBool c)"
  by (simp add: compare_values_def)

lemma sql_in_fold:
  "foldl (\<lambda>acc w. kleene_or acc (compare_values OpEq v w)) (kleene_or acc (compare_values OpEq v w)) ws =
     kleene_or acc (sql_in v (w # ws))"
proof (induction ws arbitrary: acc w)
  case Nil
  then show ?case using compare_bool [of OpEq v w] by (auto simp: sql_in_def kleene_or_eq)
next
  case (Cons u ws)
  show ?case using Cons.IH [of "kleene_or acc (compare_values OpEq v w)" u] by (simp add: sql_in_def kleene_or_assoc)
qed

lemma sql_in_first: "foldl (\<lambda>acc w. kleene_or acc (compare_values OpEq v w)) (compare_values OpEq v w) ws = sql_in v (w # ws)"
proof -
  have "kleene_or (VBool False) c = c" if "c = VNull \<or> (\<exists>d. c = VBool d)" for c using that by (auto simp: kleene_or_eq)
  then show ?thesis using sql_in_fold [of v "VBool False" w ws] compare_bool [of OpEq v w] sql_in_fits [of v "w # ws"] by metis
qed

section \<open>Types\<close>

lemma is_literal_iff: "is_literal e \<longleftrightarrow> as_literal e \<noteq> None"
  by (cases e) auto

lemma arrow_fits_bool [simp]: "arrow_fits ABoolean v \<longleftrightarrow> v = VNull \<or> (\<exists>b. v = VBool b)"
  by (cases v) auto

lemma ev_bool:
  assumes "ev_type T e = Some t" "\<And>n. e \<noteq> EColumn n" "\<not> is_literal e"
  shows "t = ABoolean \<and> (sql S env e = VNull \<or> (\<exists>b. sql S env e = VBool b))"
proof (cases e)
  case (EBinary op l r)
  then have "\<not> is_arithmetic op" "t = ABoolean" using assms(1) by (auto split: if_splits option.splits adb_value.splits)
  then show ?thesis using EBinary sql_binary_bool [of op S] by auto
qed (use assms kleene_not_fits negate_fits [OF sql_in_fits] negate_fits [OF kleene_and_fits] in
  \<open>auto split: if_splits option.splits\<close>)

lemma batch_env_fits:
  assumes "batch_ok b" "r \<in> set (brows b)" "batch_type b n = Some t"
  shows "arrow_fits t (batch_env b r n)"
proof -
  obtain i where i: "index_of b n = Some i" "t = f_type (bfields b ! i)" using assms(3) by (auto simp: batch_type_def)
  then have "i < length (bfields b)" using position_Some [of _ "bfields b" i] by (auto simp: index_of_def)
  then show ?thesis
    using assms(1,2) i by (auto simp: batch_ok_def row_ok_def list_all_iff list_all2_conv_all_nth field_fits_def batch_env_def)
qed

lemma ev_fits:
  assumes "batch_ok b" "r \<in> set (brows b)" "ev_type (batch_type b) e = Some t"
  shows "arrow_fits t (sql S (batch_env b r) e)"
proof -
  consider n where "e = EColumn n" | v where "e = ELiteral v" | "\<And>n. e \<noteq> EColumn n" "\<not> is_literal e" by (cases e) auto
  then show ?thesis
  proof cases
    case 1
    then show ?thesis using batch_env_fits [OF assms(1,2)] assms(3) by simp
  next
    case 2
    then show ?thesis using assms(3) by (cases v) (auto simp: literal_type_def)
  next
    case 3
    then show ?thesis using ev_bool [OF assms(3)] by auto
  qed
qed

section \<open>Comparing operands\<close>

lemma evaluates_cell:
  assumes "evaluates S b e t x" "i < num_rows b"
  shows "cell_at x i = sql S (batch_env b (brows b ! i)) e"
  using assms by (auto simp: evaluates_def cell_at_def row_values_def num_rows_def split: if_splits)

lemma datum_rows_array:
  assumes "evaluates S b l t x" "evaluates S b r u y" "\<not> (is_literal l \<and> is_literal r)"
  shows "datum_rows (num_rows b) x y = num_rows b"
  using assms by (auto simp: evaluates_def datum_rows_def split: if_splits)

lemma map_cells:
  assumes "\<And>i. i < num_rows b \<Longrightarrow> f i = sql S (batch_env b (brows b ! i)) e"
  shows "map f [0..<num_rows b] = row_values S b e"
  using assms by (auto simp: row_values_def num_rows_def intro!: nth_equalityI)

lemma operand_type_ev: "evaluates S b e t x \<Longrightarrow> operand_type x = Some t"
  by (simp add: evaluates_def)

lemma compare_same:
  assumes K: "eval_kernels_ok S K" and x: "evaluates S b l t x" "evaluates S b r t y" and n: "\<not> (is_literal l \<and> is_literal r)"
    and op: "is_comparison op \<or> op = OpLike \<and> t = AUtf8"
  shows "compare_operands K op x y = Inr (OArray (mask_array (row_values S b (EBinary op l r))))"
proof -
  have ty: "operand_type x = Some t" "operand_type y = Some t" using x by (simp_all add: operand_type_ev)
  note d = datum_rows_array [OF x n]
  have na: "\<not> is_arithmetic op" "op \<noteq> OpLike \<longrightarrow> \<not> is_logical op" using op by (auto simp: is_comparison_def is_arithmetic_def is_logical_def)
  have cells: "map (\<lambda>i. sql_binary S op (cell_at x i) (cell_at y i)) [0..<num_rows b] = row_values S b (EBinary op l r)"
    by (rule map_cells) (simp add: evaluates_cell [OF x(1)] evaluates_cell [OF x(2)])
  show ?thesis
  proof (cases "op = OpLike")
    case True
    then have "kn_like K x y = Inr (map (\<lambda>i. like_values (sql_like S) (cell_at x i) (cell_at y i)) [0..<num_rows b])"
      using eval_kernels_okD(2) [OF K _ _ evaluates_sized [OF x(1)] evaluates_sized [OF x(2)]] ty op d by (auto simp: is_comparison_def)
    then show ?thesis using cells True ty by (simp add: compare_operands_def sql_binary_def)
  next
    case False
    then have c: "is_comparison op" using op by simp
    have "kn_cmp K op x y = Inr (map (\<lambda>i. compare_values op (cell_at x i) (cell_at y i)) [0..<num_rows b])"
      using eval_kernels_okD(1) [OF K c _ evaluates_sized [OF x(1)] evaluates_sized [OF x(2)]] ty d by simp
    then show ?thesis using cells False ty na comparison_sql [OF c] by (simp add: compare_operands_def)
  qed
qed

lemma compare_cast:
  assumes "arrow_fits AInt64 u" "arrow_fits AFloat64 v"
  shows "compare_values op (cast_float u) v = compare_values op u v" "compare_values op v (cast_float u) = compare_values op v u"
  using assms by (cases u; cases v; simp add: compare_values_def)+

lemma arrow_float_cast [simp]: "arrow_fits AFloat64 v \<Longrightarrow> cast_float v = v"
  by (cases v) auto

lemma compare_mixed:
  assumes K: "eval_kernels_ok S K" and b: "batch_ok b" and op: "is_comparison op"
    and x: "evaluates S b l t x" "evaluates S b r u y" "\<not> is_literal l" "\<not> is_literal r"
    and ty: "ev_type (batch_type b) l = Some t" "ev_type (batch_type b) r = Some u" "{Some t, Some u} = {Some AInt64, Some AFloat64}"
  shows "compare_operands K op x y = Inr (OArray (mask_array (row_values S b (EBinary op l r))))"
proof -
  have xs: "x = OArray \<lparr>ca_type = Some t, ca_values = row_values S b l\<rparr>" "y = OArray \<lparr>ca_type = Some u, ca_values = row_values S b r\<rparr>"
    using x by (simp_all add: evaluates_def)
  let ?c = "\<lambda>e. OArray \<lparr>ca_type = Some AFloat64, ca_values = map cast_float (row_values S b e)\<rparr>"
  have tu: "t = AInt64 \<and> u = AFloat64 \<or> t = AFloat64 \<and> u = AInt64" using ty(3) by (auto simp: doubleton_eq_iff)
  have cast: "cast_to K AFloat64 (OArray \<lparr>ca_type = Some w, ca_values = row_values S b e\<rparr>) = Inr (?c e)"
    if "w = AInt64 \<or> w = AFloat64" "ev_type (batch_type b) e = Some w" for w e
  proof (cases "w = AInt64")
    case True
    then show ?thesis using eval_kernels_okD(3) [OF K] by (simp add: cast_to_def operand_type_def)
  next
    case False
    then have w: "w = AFloat64" using that by simp
    have "map cast_float (row_values S b e) = row_values S b e"
      using ev_fits [OF b _ that(2)] w by (intro map_idI) (auto simp: row_values_def)
    then show ?thesis using w by (simp add: cast_to_def operand_type_def)
  qed
  have k: "kn_cmp K op (?c l) (?c r) = Inr (map (\<lambda>i. compare_values op (cell_at (?c l) i) (cell_at (?c r) i)) [0..<num_rows b])"
    using eval_kernels_okD(1) [OF K op, of "?c l" "?c r" "num_rows b"] by (simp add: operand_type_def sized_def datum_rows_def)
  have "map (\<lambda>i. compare_values op (cell_at (?c l) i) (cell_at (?c r) i)) [0..<num_rows b] = row_values S b (EBinary op l r)"
  proof (rule map_cells)
    fix i
    assume i: "i < num_rows b"
    let ?r = "brows b ! i"
    have r: "?r \<in> set (brows b)" using i by (simp add: num_rows_def)
    have f: "arrow_fits t (sql S (batch_env b ?r) l)" "arrow_fits u (sql S (batch_env b ?r) r)"
      using ev_fits [OF b r ty(1)] ev_fits [OF b r ty(2)] by simp_all
    have "compare_values op (cast_float (sql S (batch_env b ?r) l)) (cast_float (sql S (batch_env b ?r) r)) =
        compare_values op (sql S (batch_env b ?r) l) (sql S (batch_env b ?r) r)"
      using tu f compare_cast by auto
    then show "compare_values op (cell_at (?c l) i) (cell_at (?c r) i) = sql S (batch_env b ?r) (EBinary op l r)"
      using i comparison_sql [OF op] by (simp add: cell_at_def row_values_def num_rows_def)
  qed
  moreover have "\<not> is_arithmetic op" "op \<noteq> OpLike" using op by (auto simp: is_comparison_def is_arithmetic_def)
  moreover have "unify (Some t) (Some u) = Some AFloat64" "Some t \<noteq> Some u" using tu by auto
  moreover have "cast_to K AFloat64 x = Inr (?c l)" "cast_to K AFloat64 y = Inr (?c r)"
    using cast [of t l] cast [of u r] ty tu xs by auto
  ultimately show ?thesis
    using k xs by (simp add: compare_operands_def operand_type_def)
qed

lemma literal_evaluates: "evaluates S b (ELiteral v) t (OScalar \<lparr>ca_type = Some t, ca_values = [v]\<rparr>)"
  by (simp add: evaluates_def operand_type_def)

lemma compare_literal_eq:
  assumes "eval_kernels_ok S K" "evaluates S b e t x" "\<not> is_literal e" "arrow_fits t v" "is_comparison op"
  shows "compare_literal K op x v = Inr (OArray (mask_array (row_values S b (EBinary op e (ELiteral v)))))"
  using compare_same [OF assms(1,2) literal_evaluates] assms(3-5) literal_array_fits [OF assms(4)] operand_type_ev [OF assms(2)]
  by (simp add: compare_literal_def)

section \<open>Evaluation\<close>

lemma in_step_eq:
  assumes K: "eval_kernels_ok S K" and x: "evaluates S b e t x" "\<not> is_literal e" and v: "arrow_fits t v"
  shows "in_step K x None v = Inr (Some (map (\<lambda>r. compare_values OpEq (sql S (batch_env b r) e) v) (brows b)))"
    and "in_step K x (Some (map f (brows b))) v =
      Inr (Some (map (\<lambda>r. kleene_or (f r) (compare_values OpEq (sql S (batch_env b r) e) v)) (brows b)))"
proof -
  let ?y = "OScalar \<lparr>ca_type = Some t, ca_values = [v]\<rparr>"
  have y: "evaluates S b (ELiteral v) t ?y" by (rule literal_evaluates)
  have ty: "operand_type x = Some t" "operand_type ?y = Some t" using x(1) y by (simp_all add: operand_type_ev)
  have d: "datum_rows (num_rows b) x ?y = num_rows b" using datum_rows_array [OF x(1) y] x(2) by simp
  have c: "is_comparison OpEq" by (simp add: is_comparison_def)
  have "kn_cmp K OpEq x ?y = Inr (map (\<lambda>i. compare_values OpEq (cell_at x i) (cell_at ?y i)) [0..<num_rows b])"
    using eval_kernels_okD(1) [OF K c _ evaluates_sized [OF x(1)] evaluates_sized [OF y]] ty d by simp
  moreover have "map (\<lambda>i. compare_values OpEq (cell_at x i) (cell_at ?y i)) [0..<num_rows b] =
      map (\<lambda>r. compare_values OpEq (sql S (batch_env b r) e) v) (brows b)"
    by (auto simp: evaluates_cell [OF x(1)] evaluates_cell [OF y] num_rows_def intro!: nth_equalityI)
  ultimately have k: "kn_cmp K OpEq x ?y = Inr (map (\<lambda>r. compare_values OpEq (sql S (batch_env b r) e) v) (brows b))" by simp
  show "in_step K x None v = Inr (Some (map (\<lambda>r. compare_values OpEq (sql S (batch_env b r) e) v) (brows b)))"
    using k ty literal_array_fits [OF v] by (simp add: in_step_def)
  show "in_step K x (Some (map f (brows b))) v =
      Inr (Some (map (\<lambda>r. kleene_or (f r) (compare_values OpEq (sql S (batch_env b r) e) v)) (brows b)))"
    using k ty literal_array_fits [OF v] eval_kernels_okD(7) [OF K, of "map f (brows b)" "map (\<lambda>r. compare_values OpEq (sql S (batch_env b r) e) v) (brows b)"]
    by (simp add: in_step_def zip_map_map map_zip_map2 zip_same_conv_map comp_def)
qed

lemma in_fold:
  assumes K: "eval_kernels_ok S K" and x: "evaluates S b e t x" "\<not> is_literal e" and v: "list_all (arrow_fits t) vs"
  shows "foldM (in_step K x) (Some (map f (brows b))) vs =
    Inr (Some (map (\<lambda>r. foldl (\<lambda>acc w. kleene_or acc (compare_values OpEq (sql S (batch_env b r) e) w)) (f r) vs) (brows b)))"
  using v by (induction vs arbitrary: f) (simp_all add: in_step_eq [OF K x])

lemma in_list_eq:
  assumes K: "eval_kernels_ok S K" and x: "evaluates S b e t x" "\<not> is_literal e" and v: "list_all (arrow_fits t) vs" "vs \<noteq> []"
  shows "foldM (in_step K x) None vs = Inr (Some (map (\<lambda>r. sql_in (sql S (batch_env b r) e) vs) (brows b)))"
proof (cases vs)
  case (Cons w ws)
  then show ?thesis
    using v in_step_eq(1) [OF K x, of w] in_fold [OF K x, of ws] by (simp add: sql_in_first)
qed (use v in simp)

lemma negate_mask_eq: "eval_kernels_ok S K \<Longrightarrow> negate_mask K neg m = Inr (map (negate_if neg) m)"
  by (cases neg) (simp_all add: negate_mask_def negate_if_def [abs_def] eval_kernels_okD(5))

lemma eval_operand_rowwise:
  assumes K: "eval_kernels_ok S K" and b: "batch_ok b" and e: "ev_type (batch_type b) e = Some t"
  shows "\<exists>x. eval_operand K b None e = Inr x \<and> evaluates S b e t x"
  using e
proof (induction e arbitrary: t)
  case (EColumn n)
  then obtain i where "index_of b n = Some i" "t = f_type (bfields b ! i)" by (auto simp: batch_type_def)
  then show ?case by (auto simp: evaluates_def operand_type_def row_values_def batch_env_def batch_column_def)
next
  case (ELiteral v)
  then show ?case using literal_own literal_evaluates by auto
next
  case (ENot e)
  from ENot.prems have t: "ev_type (batch_type b) e = Some ABoolean" "t = ABoolean" by (auto split: if_splits)
  obtain x where x: "eval_operand K b None e = Inr x" "evaluates S b e ABoolean x" using ENot.IH [OF t(1)] by blast
  then show ?case using evaluates_mask [OF K x(2)] eval_kernels_okD(5) [OF K] t(2)
    by (simp add: evaluates_def mask_array_def operand_type_def row_values_def comp_def)
next
  case (EIsNull e)
  then obtain u where t: "ev_type (batch_type b) e = Some u" "t = ABoolean" by (auto split: if_splits)
  obtain x where x: "eval_operand K b None e = Inr x" "evaluates S b e u x" using EIsNull.IH [OF t(1)] by blast
  then show ?case using evaluates_array [OF K x(2)] eval_kernels_okD(8) [OF K] t(2)
    by (simp add: evaluates_def mask_array_def operand_type_def row_values_def comp_def)
next
  case (EIsNotNull e)
  then obtain u where t: "ev_type (batch_type b) e = Some u" "t = ABoolean" by (auto split: if_splits)
  obtain x where x: "eval_operand K b None e = Inr x" "evaluates S b e u x" using EIsNotNull.IH [OF t(1)] by blast
  then show ?case using evaluates_array [OF K x(2)] eval_kernels_okD(9) [OF K] t(2)
    by (simp add: evaluates_def mask_array_def operand_type_def row_values_def comp_def)
next
  case (EInList e vs neg)
  then obtain u where t: "ev_type (batch_type b) e = Some u" "\<not> is_literal e" "vs \<noteq> []" "list_all (arrow_fits u) vs" "t = ABoolean"
    by (auto split: option.splits if_splits)
  obtain x where x: "eval_operand K b None e = Inr x" "evaluates S b e u x" using EInList.IH [OF t(1)] by blast
  then show ?case using in_list_eq [OF K x(2) t(2,4,3)] negate_mask_eq [OF K] t(5)
    by (simp add: evaluates_def mask_array_def operand_type_def row_values_def comp_def)
next
  case (EBetween e lo hi neg)
  then obtain u where t: "ev_type (batch_type b) e = Some u" "\<not> is_literal e" "arrow_fits u lo" "arrow_fits u hi" "t = ABoolean"
    by (auto split: option.splits if_splits)
  obtain x where x: "eval_operand K b None e = Inr x" "evaluates S b e u x" using EBetween.IH [OF t(1)] by blast
  have c: "is_comparison OpGtEq" "is_comparison OpLtEq" by (simp_all add: is_comparison_def)
  note l = compare_literal_eq [OF K x(2) t(2,3) c(1)] and h = compare_literal_eq [OF K x(2) t(2,4) c(2)]
  have m: "mask_of K (num_rows b) (OArray (mask_array m)) = Inr m" for m
    by (simp add: mask_of_def into_array_def mask_array_def as_mask_def)
  have "kn_and K (row_values S b (EBinary OpGtEq e (ELiteral lo))) (row_values S b (EBinary OpLtEq e (ELiteral hi))) =
      Inr (map (\<lambda>r. kleene_and (compare_values OpGtEq (sql S (batch_env b r) e) lo) (compare_values OpLtEq (sql S (batch_env b r) e) hi)) (brows b))"
    using eval_kernels_okD(6) [OF K, of "row_values S b (EBinary OpGtEq e (ELiteral lo))" "row_values S b (EBinary OpLtEq e (ELiteral hi))"] c
    by (simp add: row_values_def zip_map_map map_zip_map2 zip_same_conv_map comp_def comparison_sql)
  then show ?case using x(1) l h m negate_mask_eq [OF K] t(5)
    by (simp add: evaluates_def mask_array_def operand_type_def row_values_def comp_def)
next
  case (EBinary op l r)
  let ?goal = "\<exists>x. eval_operand K b None (EBinary op l r) = Inr x \<and> evaluates S b (EBinary op l r) t x"
  have na: "\<not> is_arithmetic op" and t: "t = ABoolean"
    using EBinary.prems by (auto split: if_splits option.splits adb_value.splits)
  have conclude: ?goal if "eval_operand K b None (EBinary op l r) = Inr (OArray (mask_array (row_values S b (EBinary op l r))))"
    using that evaluates_mask_array [of "EBinary op l r" _ S b] t by simp
  consider (logical) "is_logical op" | (like) "op = OpLike" | (cmp) "is_comparison op"
    using na by (cases op) (auto simp: is_logical_def is_arithmetic_def is_comparison_def)
  then show ?case
  proof cases
    case logical
    then have ty: "ev_type (batch_type b) l = Some ABoolean" "ev_type (batch_type b) r = Some ABoolean"
      using EBinary.prems na by (auto split: if_splits)
    obtain x y where x: "eval_operand K b None l = Inr x" "evaluates S b l ABoolean x"
      and y: "eval_operand K b None r = Inr y" "evaluates S b r ABoolean y"
      using EBinary.IH(1) [OF ty(1)] EBinary.IH(2) [OF ty(2)] by blast
    have "(if op = OpAnd then kn_and K (row_values S b l) (row_values S b r) else kn_or K (row_values S b l) (row_values S b r)) =
        Inr (row_values S b (EBinary op l r))"
      using logical eval_kernels_okD(6,7) [OF K, of "row_values S b l" "row_values S b r"]
      by (auto simp: is_logical_def row_values_def zip_map_map map_zip_map2 zip_same_conv_map comp_def sql_binary_def)
    then show ?thesis using conclude x y evaluates_mask [OF K x(2)] evaluates_mask [OF K y(2)] logical by simp
  next
    case like
    then obtain s where s: "r = ELiteral (VStr s)" "\<not> is_literal l" "ev_type (batch_type b) l = Some AUtf8"
      using EBinary.prems by (auto simp: is_arithmetic_def is_logical_def split: option.splits adb_value.splits if_splits)
    obtain x where x: "eval_operand K b None l = Inr x" "evaluates S b l AUtf8 x" using EBinary.IH(1) [OF s(3)] by blast
    have "compare_operands K op x (OScalar \<lparr>ca_type = Some AUtf8, ca_values = [VStr s]\<rparr>) =
        Inr (OArray (mask_array (row_values S b (EBinary op l r))))"
      using compare_same [OF K x(2) literal_evaluates] s like by simp
    then show ?thesis
      using conclude x like s operand_type_ev [OF x(2)] literal_array_fits [of AUtf8 "VStr s"] by (simp add: is_logical_def)
  next
    case cmp
    then have nl: "\<not> is_logical op" "op \<noteq> OpLike" by (auto simp: is_comparison_def is_logical_def)
    consider (right) v u where "r = ELiteral v" "\<not> is_literal l" "ev_type (batch_type b) l = Some u" "arrow_fits u v"
      | (left) v u where "l = ELiteral v" "\<not> is_literal r" "ev_type (batch_type b) r = Some u" "arrow_fits u v"
      | (both) u w where "\<not> is_literal l" "\<not> is_literal r" "ev_type (batch_type b) l = Some u" "ev_type (batch_type b) r = Some w"
          "u = w \<or> {Some u, Some w} = {Some AInt64, Some AFloat64}"
      using EBinary.prems na nl
      by (cases "as_literal l"; cases "as_literal r") (auto simp: is_literal_iff split: option.splits if_splits)
    then show ?thesis
    proof cases
      case right
      obtain x where x: "eval_operand K b None l = Inr x" "evaluates S b l u x" using EBinary.IH(1) [OF right(3)] by blast
      have "compare_operands K op x (OScalar \<lparr>ca_type = Some u, ca_values = [v]\<rparr>) =
          Inr (OArray (mask_array (row_values S b (EBinary op l r))))"
        using compare_same [OF K x(2) literal_evaluates] right cmp by simp
      then show ?thesis using conclude x right nl operand_type_ev [OF x(2)] literal_array_fits [OF right(4)] by simp
    next
      case left
      obtain y where y: "eval_operand K b None r = Inr y" "evaluates S b r u y" using EBinary.IH(2) [OF left(3)] by blast
      have "compare_operands K op (OScalar \<lparr>ca_type = Some u, ca_values = [v]\<rparr>) y =
          Inr (OArray (mask_array (row_values S b (EBinary op l r))))"
        using compare_same [OF K literal_evaluates y(2)] left cmp by simp
      then show ?thesis using conclude y left nl operand_type_ev [OF y(2)] literal_array_fits [OF left(4)] by simp
    next
      case both
      obtain x y where x: "eval_operand K b None l = Inr x" "evaluates S b l u x"
        and y: "eval_operand K b None r = Inr y" "evaluates S b r w y"
        using EBinary.IH(1) [OF both(3)] EBinary.IH(2) [OF both(4)] by blast
      have "compare_operands K op x y = Inr (OArray (mask_array (row_values S b (EBinary op l r))))"
      proof (cases "u = w")
        case True
        then show ?thesis using compare_same [OF K x(2)] y(2) both(1) cmp by simp
      next
        case False
        then show ?thesis using compare_mixed [OF K b cmp x(2) y(2) both(1-4)] both(5) by simp
      qed
      then show ?thesis using conclude x y both nl by simp
    qed
  qed
qed

lemma filter_batch_eq:
  assumes K: "eval_kernels_ok S K" and b: "batch_ok b" and e: "ev_type (batch_type b) e = Some ABoolean"
  shows "filter_batch K e b = Inr (b\<lparr>brows := filter (\<lambda>r. sql_holds S (batch_env b r) e) (brows b)\<rparr>)"
proof -
  obtain x where x: "eval_operand K b None e = Inr x" "evaluates S b e ABoolean x" using eval_operand_rowwise [OF K b e] by blast
  have m: "eval_bool K e b = Inr (row_values S b e)"
    using x evaluates_array [OF K x(2)] by (simp add: eval_bool_def eval_expr_def as_mask_def)
  let ?m = "if VNull \<notin> set (row_values S b e) then row_values S b e else kn_prep_null_mask K (row_values S b e)"
  have pm: "?m = map (\<lambda>v. if v = VNull then VBool False else v) (row_values S b e) \<or> ?m = row_values S b e"
    by (simp add: eval_kernels_okD(10) [OF K])
  then have len: "length ?m = num_rows b" by auto
  have z: "map fst (filter (\<lambda>(_, v). v = VBool True) (zip rs (map g (map f rs)))) = filter (\<lambda>r. f r = VBool True) rs"
    if "\<And>v. g v = VBool True \<longleftrightarrow> v = VBool True" for rs f and g :: "adb_value \<Rightarrow> adb_value"
    using that by (induction rs) auto
  have "map fst (filter (\<lambda>(_, v). v = VBool True) (zip (brows b) ?m)) = filter (\<lambda>r. sql_holds S (batch_env b r) e) (brows b)"
    using pm z [of "\<lambda>v. if v = VNull then VBool False else v" "brows b" "\<lambda>r. sql S (batch_env b r) e"]
      z [of "\<lambda>v. v" "brows b" "\<lambda>r. sql S (batch_env b r) e"]
    by (auto simp: row_values_def sql_holds_def)
  then show ?thesis using m eval_kernels_okD(11) [OF K len] by (simp add: filter_batch_def eval_predicate_def)
qed

end
