(* ===== verification/EvalTheorems.thy ===== *)
theory EvalTheorems
  imports EvalProps
begin

text \<open>Properties of evaluation, on kernels that are their documented behaviour.\<close>

definition demo_rows :: "operand \<Rightarrow> operand \<Rightarrow> nat" where
  "demo_rows x y =
     (case (x, y) of
        (OScalar _, OScalar _) \<Rightarrow> 1
      | (OArray a, _) \<Rightarrow> length (ca_values a)
      | (_, OArray a) \<Rightarrow> length (ca_values a))"

definition demo_kernels :: "sql_lib \<Rightarrow> kernel_lib" where
  "demo_kernels S =
     \<lparr>kn_cmp = \<lambda>op x y. Inr (map (\<lambda>i. compare_values op (cell_at x i) (cell_at y i)) [0..<demo_rows x y]),
      kn_like = \<lambda>x y. Inr (map (\<lambda>i. like_values (sql_like S) (cell_at x i) (cell_at y i)) [0..<demo_rows x y]),
      kn_arith = \<lambda>op x y. Inl Internal,
      kn_cast = \<lambda>a t. Inr \<lparr>ca_type = Some t, ca_values = map cast_float (ca_values a)\<rparr>,
      kn_take = \<lambda>a is. Inr (a\<lparr>ca_values := map (\<lambda>i. ca_values a ! i) is\<rparr>),
      kn_not = \<lambda>m. Inr (map kleene_not m),
      kn_and = \<lambda>m p. Inr (map2 kleene_and m p),
      kn_or = \<lambda>m p. Inr (map2 kleene_or m p),
      kn_is_null = \<lambda>a. Inr (map (\<lambda>v. VBool (v = VNull)) (ca_values a)),
      kn_is_not_null = \<lambda>a. Inr (map (\<lambda>v. VBool (v \<noteq> VNull)) (ca_values a)),
      kn_prep_null_mask = map (\<lambda>v. if v = VNull then VBool False else v),
      kn_filter = \<lambda>b m. Inr (b\<lparr>brows := map fst (filter (\<lambda>(_, v). v = VBool True) (zip (brows b) m))\<rparr>)\<rparr>"

lemma demo_rows_sized: "sized n x \<Longrightarrow> sized n y \<Longrightarrow> demo_rows x y = datum_rows n x y"
  by (auto simp: demo_rows_def datum_rows_def sized_def split: operand.splits)

lemma demo_kernels_ok: "eval_kernels_ok S (demo_kernels S)"
  unfolding eval_kernels_ok_def by (simp add: demo_kernels_def demo_rows_sized cong: conj_cong)

text \<open>
  C33: vectorised filtering is SQL filtering: on every batch the mask of a well-typed predicate is
  computed without an error and keeps exactly the rows on which the predicate is true; unknown is not
  true, through negations too.
\<close>

theorem filter_batch_exact:
  assumes "eval_kernels_ok S K" "batch_ok b" "ev_type (batch_type b) e = Some ABoolean"
  shows "filter_batch K e b = Inr (b\<lparr>brows := filter (\<lambda>r. sql_holds S (batch_env b r) e) (brows b)\<rparr>)"
  by (rule filter_batch_eq [OF assms])

theorem filter_batch_exact_witness:
  "filter_batch (demo_kernels demo_sql) (ENot (EBinary OpEq (EColumn ''country'') (ELiteral (VStr ''uae'')))) demo_batch =
   Inr (demo_batch\<lparr>brows := filter (\<lambda>r. sql_holds demo_sql (batch_env demo_batch r)
     (ENot (EBinary OpEq (EColumn ''country'') (ELiteral (VStr ''uae''))))) (brows demo_batch)\<rparr>)"
  by (rule filter_batch_exact [OF demo_kernels_ok demo_batch_ok])
    (simp add: demo_batch_def arrow_schema_def demo_schema_def new_table_def new_column_def arrow_field_def batch_type_def index_of_def
      is_arithmetic_def is_logical_def)

text \<open>
  C37: a defect: a comparison of two literals, which validation accepts, gives a mask of one element
  whatever the number of rows, so a filter such as \<open>1 = 1\<close> is not applied to every row.
\<close>

theorem literal_comparison_mask:
  assumes "eval_kernels_ok S K"
  shows "eval_predicate K (EBinary OpEq (ELiteral (VInt i)) (ELiteral (VInt j))) b = Inr [VBool (i = j)] \<and>
    check_expr L sc (EBinary OpEq (ELiteral (VInt i)) (ELiteral (VInt j))) =
      Inr (EBinary OpEq (ELiteral (VInt i)) (ELiteral (VInt j)), Some DBool)"
proof
  let ?x = "OScalar \<lparr>ca_type = Some AInt64, ca_values = [VInt i]\<rparr>" and ?y = "OScalar \<lparr>ca_type = Some AInt64, ca_values = [VInt j]\<rparr>"
  have "value_cmp (VInt i) (VInt j) = Equal \<longleftrightarrow> i = j" using value_cmp_eq [of DInt64 "VInt i" "VInt j"] by (simp add: fits_def)
  then have k: "kn_cmp K OpEq ?x ?y = Inr [VBool (i = j)]"
    using eval_kernels_okD(1) [OF assms, of OpEq ?x ?y 1]
    by (simp add: is_comparison_def operand_type_def sized_def datum_rows_def cell_at_def compare_values_def)
  have "eval_operand K b None (EBinary OpEq (ELiteral (VInt i)) (ELiteral (VInt j))) = Inr (OArray (mask_array [VBool (i = j)]))"
    using k by (simp add: is_logical_def literal_array_def literal_type_def operand_type_def compare_operands_def is_arithmetic_def)
  then show "eval_predicate K (EBinary OpEq (ELiteral (VInt i)) (ELiteral (VInt j))) b = Inr [VBool (i = j)]"
    by (simp add: eval_predicate_def eval_bool_def eval_expr_def into_array_def as_mask_def mask_array_def)
  show "check_expr L sc (EBinary OpEq (ELiteral (VInt i)) (ELiteral (VInt j))) =
      Inr (EBinary OpEq (ELiteral (VInt i)) (ELiteral (VInt j)), Some DBool)"
    by (simp add: check_sides_def is_logical_def is_arithmetic_def coerce_sides_def is_ordered_def)
qed

theorem literal_comparison_mask_witness:
  "eval_predicate (demo_kernels demo_sql) (EBinary OpEq (ELiteral (VInt 1)) (ELiteral (VInt 1))) demo_batch = Inr [VBool True]"
  using literal_comparison_mask [OF demo_kernels_ok] by simp

end
