(* ===== verification/Scan.thy ===== *)
theory Scan
  imports Eval Physical Partition
begin

text \<open>
  \<open>crates/adb-exec/src/budget.rs\<close>, \<open>scan.rs\<close>, \<open>sort.rs\<close>: what a query may cost, reading one
  partition, sorting. The counters of a budget are atomics shared by the threads of a query; the model
  reads the partitions one after the other and threads the counters through. The clock is a function
  from the number of the reading to the milliseconds elapsed.
\<close>

section \<open>Budget\<close>

record budget =
  bg_limits :: query_limits
  bg_bytes :: nat
  bg_rows :: nat
  bg_segments_read :: nat
  bg_segments_pruned :: nat
  bg_truncated :: bool
  bg_elapsed :: "nat \<Rightarrow> nat"
  bg_checks :: nat

definition new_budget :: "(nat \<Rightarrow> nat) \<Rightarrow> query_limits \<Rightarrow> budget" where
  "new_budget clock lim = \<lparr>bg_limits = lim, bg_bytes = 0, bg_rows = 0, bg_segments_read = 0, bg_segments_pruned = 0,
     bg_truncated = False, bg_elapsed = clock, bg_checks = 0\<rparr>"

definition charge_bytes :: "budget \<Rightarrow> nat \<Rightarrow> budget result" where
  "charge_bytes g n =
     (let total = (bg_bytes g + n) mod 2 ^ 64 in
      if max_bytes_scanned (bg_limits g) < total then Inl (LimitExceeded ''query:max_bytes'')
      else Inr (g\<lparr>bg_bytes := total\<rparr>))"

definition charge_rows :: "budget \<Rightarrow> nat \<Rightarrow> budget" where
  "charge_rows g n = g\<lparr>bg_rows := (bg_rows g + n) mod 2 ^ 64\<rparr>"

definition note_segment_read :: "budget \<Rightarrow> budget" where
  "note_segment_read g = g\<lparr>bg_segments_read := bg_segments_read g + 1\<rparr>"

definition note_segment_pruned :: "budget \<Rightarrow> budget" where
  "note_segment_pruned g = g\<lparr>bg_segments_pruned := bg_segments_pruned g + 1\<rparr>"

definition note_truncated :: "budget \<Rightarrow> budget" where
  "note_truncated g = g\<lparr>bg_truncated := True\<rparr>"

definition check_deadline :: "budget \<Rightarrow> budget result" where
  "check_deadline g =
     (if max_execution_time_ms (bg_limits g) = usize_max then Inr g
      else if max_execution_time_ms (bg_limits g) < bg_elapsed g (bg_checks g) then Inl (LimitExceeded ''query:max_execution_time'')
      else Inr (g\<lparr>bg_checks := bg_checks g + 1\<rparr>))"

record exec_stats =
  es_bytes_scanned :: nat
  es_rows_scanned :: nat
  es_segments_read :: nat
  es_segments_pruned :: nat
  es_rows_returned :: nat
  es_elapsed_ms :: nat
  es_truncated :: bool

definition budget_stats :: "budget \<Rightarrow> exec_stats" where
  "budget_stats g = \<lparr>es_bytes_scanned = bg_bytes g, es_rows_scanned = bg_rows g, es_segments_read = bg_segments_read g,
     es_segments_pruned = bg_segments_pruned g, es_rows_returned = 0, es_elapsed_ms = bg_elapsed g (bg_checks g),
     es_truncated = bg_truncated g\<rparr>"

section \<open>Scanning a partition\<close>

definition drop_suppressed :: "arrow_lib \<Rightarrow> batch \<Rightarrow> nat set \<Rightarrow> nat \<Rightarrow> batch result" where
  "drop_suppressed A b dead off =
     (if dead = {} \<or> num_rows b = 0 then Inr b
      else if card (dead \<inter> {off..<off + num_rows b}) = 0 then Inr b
      else let keep = filter (\<lambda>row. off + row \<notin> dead) [0..<num_rows b] in
           if length keep = num_rows b then Inr b else take_batch A b keep)"

text \<open>A sink takes a batch and says whether it wants more.\<close>

type_synonym 's sink = "'s \<Rightarrow> batch \<Rightarrow> ('s \<times> bool) result"

definition emit :: "kernel_lib \<Rightarrow> physical_plan \<Rightarrow> 's sink \<Rightarrow> 's \<Rightarrow> batch \<Rightarrow> ('s \<times> bool) result" where
  "emit K plan sink st b =
     (if num_rows b = 0 then Inr (st, True)
      else rbind (case pp_filter plan of None \<Rightarrow> Inr b | Some p \<Rightarrow> filter_batch K p b) (\<lambda>b.
           if num_rows b = 0 then Inr (st, True) else sink st b))"

record exec_lib =
  xl_arrow :: arrow_lib
  xl_kernels :: kernel_lib
  xl_lexsort :: "(sort_expr \<times> adb_value list) list \<Rightarrow> nat option \<Rightarrow> nat list result"
  xl_sum_int :: "i64 option list \<Rightarrow> i64 option"
  xl_sum_float :: "f64 option list \<Rightarrow> f64 option"

fun scan_segments ::
    "exec_lib \<Rightarrow> fs_store \<Rightarrow> table_schema \<Rightarrow> physical_plan \<Rightarrow> 's sink \<Rightarrow> budget \<Rightarrow> 's \<Rightarrow> segment_entry list \<Rightarrow> (budget \<times> 's \<times> bool) result"
where
  "scan_segments X s schema plan sink g st [] = Inr (g, st, True)"
| "scan_segments X s schema plan sink g st (e # es) =
     rbind (check_deadline g) (\<lambda>g.
     if can_skip (se_meta e) (pp_pruning plan) then scan_segments X s schema plan sink (note_segment_pruned g) st es
     else
       rbind (charge_bytes g (seg_bytes (se_meta e))) (\<lambda>g.
       rbind (read_segment (xl_arrow X) s (se_meta e) schema (Some (pp_projection plan))) (\<lambda>b.
       let g = charge_rows (note_segment_read g) (num_rows b) in
       rbind (drop_suppressed (xl_arrow X) b (se_suppressed e) 0) (\<lambda>b.
       rbind (emit (xl_kernels X) plan sink st b) (\<lambda>(st, go).
       if go then scan_segments X s schema plan sink g st es else Inr (g, st, False))))))"

fun scan_memtable ::
    "exec_lib \<Rightarrow> table_schema \<Rightarrow> physical_plan \<Rightarrow> nat set \<Rightarrow> 's sink \<Rightarrow> budget \<Rightarrow> 's \<Rightarrow> (nat \<times> batch) list \<Rightarrow> (budget \<times> 's) result"
where
  "scan_memtable X schema plan dead sink g st [] = Inr (g, st)"
| "scan_memtable X schema plan dead sink g st ((off, b) # bs) =
     rbind (check_deadline g) (\<lambda>g.
     rbind (charge_bytes g (memory_size (xl_arrow X) b)) (\<lambda>g.
     let g = charge_rows g (num_rows b) in
     rbind (project_with_backfill (xl_arrow X) b schema (pp_projection plan)) (\<lambda>p.
     rbind (drop_suppressed (xl_arrow X) p dead off) (\<lambda>l.
     rbind (emit (xl_kernels X) plan sink st l) (\<lambda>(st, go).
     if go then scan_memtable X schema plan dead sink g st bs else Inr (g, st))))))"

definition scan_partition ::
    "exec_lib \<Rightarrow> fs_store \<Rightarrow> physical_plan \<Rightarrow> 's sink \<Rightarrow> budget \<Rightarrow> 's \<Rightarrow> partition_snapshot \<Rightarrow> (budget \<times> 's) result" where
  "scan_partition X s plan sink g st sn =
     rbind (scan_segments X s (sn_schema sn) plan sink g st (sn_segments sn)) (\<lambda>(g, st, go).
     if \<not> go then Inr (g, st)
     else scan_memtable X (sn_schema sn) plan (sn_mem_suppressed sn) sink g st (with_offsets 0 (sn_memtable sn)))"

section \<open>Sorting\<close>

definition sort_batch :: "exec_lib \<Rightarrow> batch \<Rightarrow> sort_expr list \<Rightarrow> nat option \<Rightarrow> batch result" where
  "sort_batch X b ks limit =
     (if ks = [] \<or> num_rows b = 0 then
        Inr (case limit of Some n \<Rightarrow> if n < num_rows b then slice (xl_arrow X) b 0 n else b | None \<Rightarrow> b)
      else
        rbind (mapM (\<lambda>k. rmap (\<lambda>i. (k, batch_column b i)) (ok_or (NotFound ''column'') (index_of b (so_column k)))) ks) (\<lambda>cols.
        rbind (xl_lexsort X cols limit) (take_batch (xl_arrow X) b)))"

end
