(* ===== verification/ScanProps.thy ===== *)
theory ScanProps
  imports Scan EvalTheorems PartitionProps
begin

text \<open>
  Scanning a partition gives the sink exactly the visible rows the predicate accepts, projected, in
  the order they are stored, as non-empty batches; it fails only when the budget is used up or the
  sink fails.
\<close>

section \<open>What a scan emits\<close>

definition live_rows :: "nat \<Rightarrow> nat set \<Rightarrow> 'a list \<Rightarrow> 'a list" where
  "live_rows off dead rows = map ((!) rows) (filter (\<lambda>i. off + i \<notin> dead) [0..<length rows])"

definition project_row :: "table_schema \<Rightarrow> string list \<Rightarrow> row \<Rightarrow> row" where
  "project_row schema ns r = map (row_env schema r) ns"

definition accepts :: "sql_lib \<Rightarrow> physical_plan \<Rightarrow> table_schema \<Rightarrow> row \<Rightarrow> bool" where
  "accepts S plan schema r \<longleftrightarrow> (case pp_filter plan of None \<Rightarrow> True | Some p \<Rightarrow> sql_holds S (row_env schema r) p)"

definition scanned :: "sql_lib \<Rightarrow> physical_plan \<Rightarrow> table_schema \<Rightarrow> row list \<Rightarrow> row list" where
  "scanned S plan schema rows = map (project_row schema (pp_projection plan)) (filter (accepts S plan schema) rows)"

definition out_batches :: "table_schema \<Rightarrow> string list \<Rightarrow> row list \<Rightarrow> batch list" where
  "out_batches schema ns rows = (if rows = [] then [] else [\<lparr>bfields = fields_of schema ns, brows = rows\<rparr>])"

definition segment_out :: "sql_lib \<Rightarrow> physical_plan \<Rightarrow> table_schema \<Rightarrow> (nat \<Rightarrow> row list) \<Rightarrow> segment_entry \<Rightarrow> batch list" where
  "segment_out S plan schema R e =
     out_batches schema (pp_projection plan) (scanned S plan schema (live_rows 0 (se_suppressed e) (R (seg_id (se_meta e)))))"

definition memtable_out :: "sql_lib \<Rightarrow> physical_plan \<Rightarrow> table_schema \<Rightarrow> nat set \<Rightarrow> nat \<times> batch \<Rightarrow> batch list" where
  "memtable_out S plan schema dead = (\<lambda>(off, b). out_batches schema (pp_projection plan) (scanned S plan schema (live_rows off dead (brows b))))"

definition snapshot_out :: "sql_lib \<Rightarrow> physical_plan \<Rightarrow> (nat \<Rightarrow> row list) \<Rightarrow> partition_snapshot \<Rightarrow> batch list" where
  "snapshot_out S plan R sn =
     concat (map (segment_out S plan (sn_schema sn) R) (sn_segments sn)) @
     concat (map (memtable_out S plan (sn_schema sn) (sn_mem_suppressed sn)) (with_offsets 0 (sn_memtable sn)))"

fun feed :: "'s sink \<Rightarrow> 's \<Rightarrow> batch list \<Rightarrow> ('s \<times> bool) result" where
  "feed sink st [] = Inr (st, True)"
| "feed sink st (b # bs) = rbind (sink st b) (\<lambda>(st, go). if go then feed sink st bs else Inr (st, False))"

lemma feed_append:
  "feed sink st (bs @ cs) = rbind (feed sink st bs) (\<lambda>(st, go). if go then feed sink st cs else Inr (st, False))"
proof (induction bs arbitrary: st)
  case (Cons b bs)
  then show ?case by (cases "sink st b") (auto split: prod.splits)
qed simp

lemma live_rows_append: "live_rows off dead (xs @ ys) = live_rows off dead xs @ live_rows (off + length xs) dead ys"
proof -
  have "[0..<length xs + length ys] = [0..<length xs] @ [length xs..<length xs + length ys]"
    by (rule upt_add_eq_append) simp
  also have "[length xs..<length xs + length ys] = map (\<lambda>i. i + length xs) [0..<length ys]"
    unfolding map_add_upt by (simp add: add.commute)
  finally have u: "[0..<length (xs @ ys)] = [0..<length xs] @ map (\<lambda>i. i + length xs) [0..<length ys]" by simp
  have "map ((!) (xs @ ys)) (filter (\<lambda>i. off + i \<notin> dead) [0..<length xs]) = live_rows off dead xs"
    by (auto simp: live_rows_def nth_append)
  moreover have "map ((!) (xs @ ys)) (filter (\<lambda>i. off + i \<notin> dead) (map (\<lambda>i. i + length xs) [0..<length ys])) = live_rows (off + length xs) dead ys"
    by (simp add: live_rows_def filter_map comp_def nth_append ac_simps)
  ultimately show ?thesis unfolding live_rows_def [of off dead "xs @ ys"] u by simp
qed

lemma live_rows_map: "live_rows off dead (map f xs) = map f (live_rows off dead xs)"
  by (auto simp: live_rows_def)

lemma live_rows_set: "set (live_rows off dead xs) \<subseteq> set xs"
  by (auto simp: live_rows_def)

lemma live_rows_Nil [simp]: "live_rows off dead [] = []"
  by (simp add: live_rows_def)

lemma live_rows_batches:
  "concat (map (\<lambda>(off, b). live_rows off dead (brows b)) (with_offsets k bs)) = live_rows k dead (concat (map brows bs))"
  by (induction bs arbitrary: k) (simp_all add: live_rows_append num_rows_def)

lemma live_snd: "map snd (live mk rows dead) = live_rows 0 dead rows"
  by (simp add: live_def live_rows_def comp_def)

lemma drop_suppressed_eq:
  assumes "arrow_ok A" "batch_ok b"
  shows "drop_suppressed A b dead off = Inr (b\<lparr>brows := live_rows off dead (brows b)\<rparr>)"
proof -
  let ?keep = "filter (\<lambda>i. off + i \<notin> dead) [0..<num_rows b]"
  have all: "b\<lparr>brows := live_rows off dead (brows b)\<rparr> = b" if "?keep = [0..<num_rows b]"
    using that by (simp add: live_rows_def num_rows_def map_nth)
  consider (none) "dead = {} \<or> num_rows b = 0" | (range) "dead \<inter> {off..<off + num_rows b} = {}"
    | (len) "length ?keep = num_rows b" | (take) "\<not> (dead = {} \<or> num_rows b = 0)" "dead \<inter> {off..<off + num_rows b} \<noteq> {}" "length ?keep \<noteq> num_rows b"
    by argo
  then show ?thesis
  proof cases
    case none
    then show ?thesis using all by (auto simp: drop_suppressed_def filter_id_conv)
  next
    case range
    then have "?keep = [0..<num_rows b]" by (auto simp: filter_id_conv)
    then show ?thesis using all range by (simp add: drop_suppressed_def)
  next
    case len
    then have "?keep = [0..<num_rows b]"
      using length_filter_less [of _ "[0..<num_rows b]" "\<lambda>i. off + i \<notin> dead"] by (auto simp: filter_id_conv)
    then show ?thesis using all by (simp add: drop_suppressed_def Let_def)
  next
    case take
    have "take_batch A b ?keep = Inr (b\<lparr>brows := map (\<lambda>i. brows b ! i) ?keep\<rparr>)" by (rule arrow_take [OF assms]) simp
    then show ?thesis using take by (simp add: drop_suppressed_def Let_def live_rows_def num_rows_def)
  qed
qed

section \<open>Filtering projected rows\<close>

definition table_type :: "table_schema \<Rightarrow> string \<Rightarrow> arrow_type option" where
  "table_type s n = map_option (\<lambda>c. arrow_type_of (col_type c)) (column s n)"

lemma ev_type_cong: "(\<And>n. n \<in> expr_columns e \<Longrightarrow> T n = T' n) \<Longrightarrow> ev_type T e = ev_type T' e"
proof (induction e)
  case (EBinary op l r)
  then have eq: "ev_type T l = ev_type T' l" "ev_type T r = ev_type T' r" by simp_all
  show ?case by (simp only: ev_type.simps eq)
qed (auto split: option.splits)

lemma index_in_fields:
  assumes "n \<in> set ns" "\<forall>n \<in> set ns. column s n \<noteq> None"
  obtains i where "position (\<lambda>f. f_name f = n) (fields_of s ns) = Some i" "i < length ns" "ns ! i = n"
proof -
  have nm: "f_name (arrow_field (the (column s m))) = m" if "m \<in> set ns" for m
    using assms(2) that find_Some_set [of "\<lambda>c. col_name c = m" "columns s"] by (fastforce simp: column_def arrow_field_def)
  have "position (\<lambda>f. f_name f = n) (fields_of s ns) \<noteq> None"
    using assms nm by (induction ns) (auto simp: fields_of_def)
  then obtain i where i: "position (\<lambda>f. f_name f = n) (fields_of s ns) = Some i" by blast
  then have "i < length (fields_of s ns)" "f_name (fields_of s ns ! i) = n" using position_Some by fastforce+
  then show ?thesis using that i nm by (simp add: fields_of_def)
qed

lemma projected_env:
  assumes "n \<in> set ns" "\<forall>n \<in> set ns. column s n \<noteq> None"
  shows "batch_env \<lparr>bfields = fields_of s ns, brows = rs\<rparr> (project_row s ns r) n = row_env s r n"
    "batch_type \<lparr>bfields = fields_of s ns, brows = rs\<rparr> n = table_type s n"
  using index_in_fields [OF assms] assms
  by (force simp: batch_env_def batch_type_def index_of_def project_row_def fields_of_def table_type_def arrow_field_def)+

lemma emit_eq:
  assumes K: "eval_kernels_ok S K" and ns: "\<forall>n \<in> set (pp_projection plan). column s n \<noteq> None"
    and b: "batch_ok \<lparr>bfields = fields_of s (pp_projection plan), brows = map (project_row s (pp_projection plan)) rs\<rparr>"
    and p: "\<And>p. pp_filter plan = Some p \<Longrightarrow> ev_type (table_type s) p = Some ABoolean \<and> expr_columns p \<subseteq> set (pp_projection plan)"
  shows "emit K plan sink st \<lparr>bfields = fields_of s (pp_projection plan), brows = map (project_row s (pp_projection plan)) rs\<rparr> =
    feed sink st (out_batches s (pp_projection plan) (scanned S plan s rs))"
proof -
  let ?ns = "pp_projection plan"
  let ?b = "\<lparr>bfields = fields_of s ?ns, brows = map (project_row s ?ns) rs\<rparr>"
  have one: "feed sink st [c] = sink st c" for c by (cases "sink st c") (auto split: prod.splits)
  have f: "(case pp_filter plan of None \<Rightarrow> Inr ?b | Some p \<Rightarrow> filter_batch K p ?b) = Inr (?b\<lparr>brows := scanned S plan s rs\<rparr>)"
  proof (cases "pp_filter plan")
    case None
    then show ?thesis by (simp add: scanned_def accepts_def [abs_def])
  next
    case (Some p)
    have e: "sql_holds S (batch_env ?b (project_row s ?ns r)) p = sql_holds S (row_env s r) p" for r
      unfolding sql_holds_def using assms(4) [OF Some] projected_env(1) [OF _ ns] by (subst sql_cong [of p _ "row_env s r"]) auto
    have "ev_type (batch_type ?b) p = Some ABoolean"
      using assms(4) [OF Some] projected_env(2) [OF _ ns] by (subst ev_type_cong [of p _ "table_type s"]) auto
    then have "filter_batch K p ?b = Inr (?b\<lparr>brows := filter (\<lambda>r. sql_holds S (batch_env ?b r) p) (brows ?b)\<rparr>)"
      by (rule filter_batch_eq [OF K b])
    then show ?thesis using Some e by (simp add: scanned_def accepts_def [abs_def] filter_map comp_def)
  qed
  show ?thesis
  proof (cases "rs = []")
    case True
    then show ?thesis by (simp add: emit_def num_rows_def scanned_def out_batches_def)
  next
    case False
    then show ?thesis using f one by (auto simp: emit_def num_rows_def out_batches_def)
  qed
qed

section \<open>Reading projected batches\<close>

lemma row_env_backfill:
  assumes "schema_ok s" "n \<in> set (column_names s)"
  shows "row_env s (backfill_row fs (column_names s) r) n = (case position (\<lambda>f. f_name f = n) fs of Some i \<Rightarrow> r ! i | None \<Rightarrow> VNull)"
proof -
  have d: "distinct (map col_name (columns s))" using assms(1) by (simp add: schema_ok_def)
  obtain i where i: "i < length (columns s)" "n = col_name (columns s ! i)" using assms(2) by (auto simp: column_names_def in_set_conv_nth)
  show ?thesis unfolding i(2) row_env_nth(1) [OF d i(1)] using i(1) by (simp add: backfill_row_def column_names_def)
qed

lemma backfill_project:
  assumes "schema_ok s" "set ns \<subseteq> set (column_names s)"
  shows "backfill_row fs ns r = project_row s ns (backfill_row fs (column_names s) r)"
  unfolding project_row_def backfill_row_def [of fs ns] using row_env_backfill [OF assms(1)] assms(2) by (intro map_cong) auto

lemma projected_ok:
  assumes "batch_ok b" "covers s (bfields b)" "ns \<noteq> []" "set ns \<subseteq> set (column_names s)"
  shows "batch_ok \<lparr>bfields = fields_of s ns, brows = map (backfill_row (bfields b) ns) (brows b)\<rparr>"
proof -
  have "\<forall>n \<in> set ns. column s n \<noteq> None" using assms(4) column_names_exist by blast
  then have "columns_ok (fields_of s ns) (num_rows b) (map (backfill_column b) ns)" using backfill_columns_ok [OF assms(1-3)] by blast
  then have "list_all (row_ok (fields_of s ns)) (map (backfill_row (bfields b) ns) (brows b))"
    using columns_ok_rows rows_of_backfill [of b ns] unfolding list_all_iff by metis
  then show ?thesis using assms(3) by (simp add: batch_ok_def fields_of_def)
qed

definition plan_fits :: "physical_plan \<Rightarrow> table_schema \<Rightarrow> bool" where
  "plan_fits plan s \<longleftrightarrow> pp_projection plan \<noteq> [] \<and> set (pp_projection plan) \<subseteq> set (column_names s) \<and>
     (case pp_filter plan of
        None \<Rightarrow> pp_pruning plan = []
      | Some p \<Rightarrow> ev_type (table_type s) p = Some ABoolean \<and> expr_columns p \<subseteq> set (pp_projection plan) \<and>
          pp_pruning plan = extract_prune_atoms p \<and> prunable s p)"

definition snapshot_ok :: "storage_lib \<Rightarrow> fs_store \<Rightarrow> (nat \<Rightarrow> row list) \<Rightarrow> partition_snapshot \<Rightarrow> bool" where
  "snapshot_ok L s R sn \<longleftrightarrow> schema_ok (sn_schema sn) \<and> list_all (batch_fits (sn_schema sn)) (sn_memtable sn) \<and>
     (\<forall>e \<in> set (sn_segments sn). stored L s (sn_schema sn) R (se_meta e) \<and> object_key (seg_key (se_meta e)))"

definition stats_ok :: "(nat \<Rightarrow> row list) \<Rightarrow> partition_snapshot \<Rightarrow> bool" where
  "stats_ok R sn \<longleftrightarrow> (\<forall>e \<in> set (sn_segments sn). \<forall>r \<in> set (R (seg_id (se_meta e))).
     summarised (se_meta e) (type_of_column (sn_schema sn)) (row_env (sn_schema sn) r))"

definition exec_ok :: "sql_lib \<Rightarrow> storage_lib \<Rightarrow> exec_lib \<Rightarrow> bool" where
  "exec_ok S L X \<longleftrightarrow> storage_ok L \<and> xl_arrow X = sl_arrow L \<and> eval_kernels_ok S (xl_kernels X)"

text \<open>
  A query fails on its limits only when the clock passed the time it has, or when the bytes it may
  read are limited at all.
\<close>

definition limit_hit :: "query_limits \<Rightarrow> (nat \<Rightarrow> nat) \<Rightarrow> adb_error \<Rightarrow> bool" where
  "limit_hit lim clock e \<longleftrightarrow>
     e = LimitExceeded ''query:max_execution_time'' \<and> max_execution_time_ms lim \<noteq> usize_max \<and> (\<exists>i. max_execution_time_ms lim < clock i) \<or>
     e = LimitExceeded ''query:max_bytes'' \<and> max_bytes_scanned lim < usize_max"

definition budget_of :: "query_limits \<Rightarrow> (nat \<Rightarrow> nat) \<Rightarrow> budget \<Rightarrow> bool" where
  "budget_of lim clock g \<longleftrightarrow> bg_limits g = lim \<and> bg_elapsed g = clock \<and> \<not> bg_truncated g"

lemma new_budget_of [simp]: "budget_of lim clock (new_budget clock lim)"
  by (simp add: budget_of_def new_budget_def)

lemma budget_of_notes [simp]:
  "budget_of lim clock (charge_rows g n) = budget_of lim clock g"
  "budget_of lim clock (note_segment_read g) = budget_of lim clock g"
  "budget_of lim clock (note_segment_pruned g) = budget_of lim clock g"
  by (simp_all add: budget_of_def charge_rows_def note_segment_read_def note_segment_pruned_def)

lemma check_deadline_cases:
  assumes "budget_of lim clock g"
  shows "check_deadline g = Inl e \<Longrightarrow> limit_hit lim clock e" "check_deadline g = Inr g' \<Longrightarrow> budget_of lim clock g'"
  using assms by (auto simp: check_deadline_def budget_of_def limit_hit_def split: if_splits)

lemma charge_bytes_cases:
  assumes "budget_of lim clock g"
  shows "charge_bytes g n = Inl e \<Longrightarrow> limit_hit lim clock e" "charge_bytes g n = Inr g' \<Longrightarrow> budget_of lim clock g'"
proof -
  have "(bg_bytes g + n) mod 2 ^ 64 \<le> usize_max" by (simp add: usize_max_def less_Suc_eq_le [symmetric])
  then show "charge_bytes g n = Inl e \<Longrightarrow> limit_hit lim clock e" "charge_bytes g n = Inr g' \<Longrightarrow> budget_of lim clock g'"
    using assms by (auto simp: charge_bytes_def budget_of_def limit_hit_def Let_def split: if_splits)
qed

text \<open>A scan's result against what its sink should be fed.\<close>

fun scan_agrees :: "query_limits \<Rightarrow> (nat \<Rightarrow> nat) \<Rightarrow> (budget \<times> 's \<times> bool) result \<Rightarrow> ('s \<times> bool) result \<Rightarrow> bool" where
  "scan_agrees lim clock (Inr (g, st, go)) f = (budget_of lim clock g \<and> f = Inr (st, go))"
| "scan_agrees lim clock (Inl e) f = (limit_hit lim clock e \<or> f = Inl e)"

fun ended_agrees :: "query_limits \<Rightarrow> (nat \<Rightarrow> nat) \<Rightarrow> (budget \<times> 's) result \<Rightarrow> ('s \<times> bool) result \<Rightarrow> bool" where
  "ended_agrees lim clock (Inr (g, st)) f = (budget_of lim clock g \<and> (\<exists>go. f = Inr (st, go)))"
| "ended_agrees lim clock (Inl e) f = (limit_hit lim clock e \<or> f = Inl e)"

lemma ended_agrees_rbind:
  "ended_agrees lim clock r f \<Longrightarrow> budget_of lim clock g \<Longrightarrow> ended_agrees lim clock (if go then r else Inr (g, st)) (if go then f else Inr (st, False))"
  by (cases go) auto

lemma ended_agrees_Nil [simp]: "budget_of lim clock g \<Longrightarrow> ended_agrees lim clock (Inr (g, st)) (Inr (st, go))"
  by auto

lemma skipped_empty:
  assumes "plan_fits plan s" "\<forall>r \<in> set rows. summarised m (type_of_column s) (row_env s r)" "can_skip m (pp_pruning plan)"
  shows "scanned S plan s (live_rows 0 dead rows) = []"
proof -
  have False if r: "r \<in> set rows" "accepts S plan s r" for r
  proof (cases "pp_filter plan")
    case None
    then have "pp_pruning plan = []" using assms(1) by (simp add: plan_fits_def)
    then have "row_count m = 0" using assms(3) by (simp add: can_skip_def)
    then show False using assms(2) r(1) by (simp add: summarised_def)
  next
    case (Some p)
    then have p: "pp_pruning plan = extract_prune_atoms p" "prunable s p" using assms(1) by (simp_all add: plan_fits_def)
    have "\<not> can_skip m (extract_prune_atoms p)"
      by (rule skip_sound) (use assms(2) r p(2) Some in \<open>auto simp: accepts_def prunable_def list_all_iff\<close>)
    then show False using assms(3) p(1) by simp
  qed
  then show ?thesis using live_rows_set [of 0 dead rows] by (auto simp: scanned_def filter_empty_conv)
qed

lemma emit_live:
  assumes X: "exec_ok S L X" and plan: "plan_fits plan s" and s: "schema_ok s"
    and b: "batch_ok b" "covers s (bfields b)" "rows = map (backfill_row (bfields b) (column_names s)) (brows b)"
  shows "rbind (drop_suppressed (xl_arrow X) \<lparr>bfields = fields_of s (pp_projection plan), brows = map (backfill_row (bfields b) (pp_projection plan)) (brows b)\<rparr> dead off)
      (emit (xl_kernels X) plan sink st) =
    feed sink st (out_batches s (pp_projection plan) (scanned S plan s (live_rows off dead rows)))"
proof -
  let ?ns = "pp_projection plan"
  have ns: "?ns \<noteq> []" "set ?ns \<subseteq> set (column_names s)" using plan by (simp_all add: plan_fits_def)
  have A: "arrow_ok (xl_arrow X)" and K: "eval_kernels_ok S (xl_kernels X)" using X by (simp_all add: exec_ok_def storage_ok_def)
  have pr: "map (backfill_row (bfields b) ?ns) (brows b) = map (project_row s ?ns) rows"
    by (simp add: b(3) backfill_project [OF s ns(2)] del: map_eq_conv) (simp add: backfill_project [OF s ns(2)])
  let ?b = "\<lparr>bfields = fields_of s ?ns, brows = map (project_row s ?ns) rows\<rparr>"
  have ok: "batch_ok ?b" using projected_ok [OF b(1,2) ns] unfolding pr .
  have d: "drop_suppressed (xl_arrow X) ?b dead off = Inr (?b\<lparr>brows := live_rows off dead (brows ?b)\<rparr>)" by (rule drop_suppressed_eq [OF A ok])
  have "batch_ok (?b\<lparr>brows := live_rows off dead (brows ?b)\<rparr>)" by (rule batch_ok_rows [OF ok live_rows_set])
  then have ok': "batch_ok \<lparr>bfields = fields_of s ?ns, brows = map (project_row s ?ns) (live_rows off dead rows)\<rparr>"
    by (simp add: live_rows_map)
  have "\<forall>n \<in> set ?ns. column s n \<noteq> None" using ns(2) column_names_exist by blast
  then have "emit (xl_kernels X) plan sink st \<lparr>bfields = fields_of s ?ns, brows = map (project_row s ?ns) (live_rows off dead rows)\<rparr> =
      feed sink st (out_batches s ?ns (scanned S plan s (live_rows off dead rows)))"
    by (rule emit_eq [OF K _ ok']) (use plan in \<open>auto simp: plan_fits_def\<close>)
  then show ?thesis using d by (simp add: pr live_rows_map)
qed

lemma scan_segments_agrees:
  assumes X: "exec_ok S L X" and plan: "plan_fits plan schema" and schema: "schema_ok schema" and s: "store_ok s"
    and es: "\<forall>e \<in> set es. stored L s schema R (se_meta e) \<and> object_key (seg_key (se_meta e)) \<and>
      (\<forall>r \<in> set (R (seg_id (se_meta e))). summarised (se_meta e) (type_of_column schema) (row_env schema r))"
    and g: "budget_of lim clock g"
  shows "scan_agrees lim clock (scan_segments X s schema plan sink g st es) (feed sink st (concat (map (segment_out S plan schema R) es)))"
  using es g
proof (induction es arbitrary: g st)
  case (Cons e es)
  have ns: "pp_projection plan \<noteq> []" "set (pp_projection plan) \<subseteq> set (column_names schema)" using plan by (simp_all add: plan_fits_def)
  have ar: "xl_arrow X = sl_arrow L" and L: "storage_ok L" using X by (simp_all add: exec_ok_def)
  have e: "stored L s schema R (se_meta e)" "object_key (seg_key (se_meta e))"
      "\<forall>r \<in> set (R (seg_id (se_meta e))). summarised (se_meta e) (type_of_column schema) (row_env schema r)"
    using Cons.prems by auto
  have IH: "scan_agrees lim clock (scan_segments X s schema plan sink g st es) (feed sink st (concat (map (segment_out S plan schema R) es)))"
    if "budget_of lim clock g" for g st
    using Cons that by simp
  show ?case
  proof (cases "check_deadline g")
    case (Inl err)
    then show ?thesis using check_deadline_cases(1) [OF Cons.prems(2)] by auto
  next
    case (Inr g1)
    have g1: "budget_of lim clock g1" by (rule check_deadline_cases(2) [OF Cons.prems(2) Inr])
    show ?thesis
    proof (cases "can_skip (se_meta e) (pp_pruning plan)")
      case True
      then have "segment_out S plan schema R e = []"
        using skipped_empty [OF plan e(3)] by (simp add: segment_out_def out_batches_def)
      then show ?thesis using Inr True IH g1 by simp
    next
      case False
      show ?thesis
      proof (cases "charge_bytes g1 (seg_bytes (se_meta e))")
        case (Inl err)
        then show ?thesis using Inr False charge_bytes_cases(1) [OF g1] by auto
      next
        case (Inr g2)
        have g2: "budget_of lim clock g2" by (rule charge_bytes_cases(2) [OF g1 Inr])
        obtain b where b: "batch_ok b" "covers schema (bfields b)"
            "read_segment (sl_arrow L) s (se_meta e) schema (Some (pp_projection plan)) =
               Inr \<lparr>bfields = fields_of schema (pp_projection plan), brows = map (backfill_row (bfields b) (pp_projection plan)) (brows b)\<rparr>"
            "R (seg_id (se_meta e)) = map (backfill_row (bfields b) (column_names schema)) (brows b)"
          using read_stored [OF L s e(1,2) ns] by metis
        note E = emit_live [OF X plan schema b(1,2,4), of "se_suppressed e" 0 sink st]
        let ?r = "feed sink st (segment_out S plan schema R e)"
        have step: "scan_segments X s schema plan sink g st (e # es) =
            rbind ?r (\<lambda>(st, go). if go then scan_segments X s schema plan sink (charge_rows (note_segment_read g2) (length (brows b))) st es
              else Inr (charge_rows (note_segment_read g2) (length (brows b)), st, False))"
          using \<open>check_deadline g = Inr g1\<close> False Inr b(3) E
          by (simp add: ar Let_def num_rows_def segment_out_def rbind_assoc [symmetric] cong: if_cong)
        show ?thesis
        proof (cases ?r)
          case (Inl err)
          then show ?thesis by (simp add: step feed_append del: scan_segments.simps)
        next
          case (Inr y)
          then show ?thesis using IH g2 by (cases y) (auto simp: step feed_append simp del: scan_segments.simps)
        qed
      qed
    qed
  qed
qed simp

lemma scan_memtable_agrees:
  assumes X: "exec_ok S L X" and plan: "plan_fits plan schema" and schema: "schema_ok schema"
    and bs: "\<forall>(off, b) \<in> set bs. batch_fits schema b" and g: "budget_of lim clock g"
  shows "ended_agrees lim clock (scan_memtable X schema plan dead sink g st bs) (feed sink st (concat (map (memtable_out S plan schema dead) bs)))"
  using bs g
proof (induction bs arbitrary: g st)
  case (Cons x bs)
  obtain off b where x: "x = (off, b)" by (cases x)
  have ns: "pp_projection plan \<noteq> []" "set (pp_projection plan) \<subseteq> set (column_names schema)" using plan by (simp_all add: plan_fits_def)
  have ar: "arrow_ok (xl_arrow X)" using X by (simp add: exec_ok_def storage_ok_def)
  have d: "distinct (map col_name (columns schema))" using schema by (simp add: schema_ok_def)
  have b: "batch_ok b" "bfields b = arrow_schema schema" "covers schema (bfields b)"
    using Cons.prems x covers_own [OF d] by (simp_all add: batch_fits_def)
  have "length r = length (columns schema)" if "r \<in> set (brows b)" for r
    using b(1,2) that row_ok_length by (fastforce simp: batch_ok_def list_all_iff arrow_schema_def)
  then have rows: "brows b = map (backfill_row (bfields b) (column_names schema)) (brows b)"
    using backfill_own [OF d] b(2) by (simp add: map_idI)
  have pr: "project_with_backfill (xl_arrow X) b schema (pp_projection plan) =
      Inr \<lparr>bfields = fields_of schema (pp_projection plan), brows = map (backfill_row (bfields b) (pp_projection plan)) (brows b)\<rparr>"
    using project_backfill_eq [OF ar b(1,3) ns(1)] ns(2) column_names_exist by blast
  note E = emit_live [OF X plan schema b(1,3) rows, of dead off sink st]
  let ?r = "feed sink st (memtable_out S plan schema dead x)"
  show ?case
  proof (cases "check_deadline g")
    case (Inl err)
    then show ?thesis using check_deadline_cases(1) [OF Cons.prems(2)] x by auto
  next
    case (Inr g1)
    have g1: "budget_of lim clock g1" by (rule check_deadline_cases(2) [OF Cons.prems(2) Inr])
    show ?thesis
    proof (cases "charge_bytes g1 (memory_size (xl_arrow X) b)")
      case (Inl err)
      then show ?thesis using Inr charge_bytes_cases(1) [OF g1] x by auto
    next
      case (Inr g2)
      have g2: "budget_of lim clock g2" by (rule charge_bytes_cases(2) [OF g1 Inr])
      have step: "scan_memtable X schema plan dead sink g st (x # bs) =
          rbind ?r (\<lambda>(st, go). if go then scan_memtable X schema plan dead sink (charge_rows g2 (num_rows b)) st bs
            else Inr (charge_rows g2 (num_rows b), st))"
        using \<open>check_deadline g = Inr g1\<close> Inr pr E by (simp add: x Let_def memtable_out_def rbind_assoc [symmetric] cong: if_cong)
      have IH: "ended_agrees lim clock (scan_memtable X schema plan dead sink g st bs) (feed sink st (concat (map (memtable_out S plan schema dead) bs)))"
        if "budget_of lim clock g" for g st
        using Cons that by simp
      show ?thesis
      proof (cases ?r)
        case (Inl err)
        then show ?thesis by (simp add: step feed_append del: scan_memtable.simps)
      next
        case (Inr y)
        then show ?thesis using ended_agrees_rbind [OF IH] g2
          by (cases y) (simp add: step feed_append del: scan_memtable.simps)
      qed
    qed
  qed
qed auto

lemma with_offsets_snd: "(off, b) \<in> set (with_offsets k bs) \<Longrightarrow> b \<in> set bs"
  by (induction bs arbitrary: k) auto

lemma scan_partition_agrees:
  assumes X: "exec_ok S L X" and plan: "plan_fits plan (sn_schema sn)" and s: "store_ok s"
    and sn: "snapshot_ok L s R sn" "stats_ok R sn" and g: "budget_of lim clock g"
  shows "ended_agrees lim clock (scan_partition X s plan sink g st sn) (feed sink st (snapshot_out S plan R sn))"
proof -
  let ?schema = "sn_schema sn"
  have schema: "schema_ok ?schema" using sn(1) by (simp add: snapshot_ok_def)
  have segs: "scan_agrees lim clock (scan_segments X s ?schema plan sink g st (sn_segments sn))
      (feed sink st (concat (map (segment_out S plan ?schema R) (sn_segments sn))))"
    by (rule scan_segments_agrees [OF X plan schema s]) (use sn g in \<open>auto simp: snapshot_ok_def stats_ok_def\<close>)
  show ?thesis
  proof (cases "scan_segments X s ?schema plan sink g st (sn_segments sn)")
    case (Inl e)
    then show ?thesis using segs by (auto simp: scan_partition_def snapshot_out_def feed_append)
  next
    case (Inr y)
    obtain g' st' go where y: "y = (g', st', go)" by (cases y)
    then have f: "feed sink st (concat (map (segment_out S plan ?schema R) (sn_segments sn))) = Inr (st', go)" and g': "budget_of lim clock g'"
      using segs Inr by simp_all
    have bs: "\<forall>(off, b) \<in> set (with_offsets 0 (sn_memtable sn)). batch_fits ?schema b"
      using sn(1) with_offsets_snd by (fastforce simp: snapshot_ok_def list_all_iff)
    show ?thesis
      using scan_memtable_agrees [OF X plan schema bs g', where dead = "sn_mem_suppressed sn" and sink = sink and st = st'] Inr y f g'
      by (cases go) (auto simp: scan_partition_def snapshot_out_def feed_append)
  qed
qed

section \<open>The rows of a scan\<close>

definition snapshot_rows :: "(nat \<Rightarrow> row list) \<Rightarrow> partition_snapshot \<Rightarrow> row list" where
  "snapshot_rows R sn =
     concat (map (\<lambda>e. live_rows 0 (se_suppressed e) (R (seg_id (se_meta e)))) (sn_segments sn)) @
     live_rows 0 (sn_mem_suppressed sn) (concat (map brows (sn_memtable sn)))"

lemma scanned_append [simp]: "scanned S plan s (xs @ ys) = scanned S plan s xs @ scanned S plan s ys"
  by (simp add: scanned_def)

lemma scanned_concat: "scanned S plan s (concat xss) = concat (map (scanned S plan s) xss)"
  by (induction xss) (simp_all, simp add: scanned_def)

lemma out_batches_rows [simp]: "concat (map brows (out_batches s ns rows)) = rows"
  by (simp add: out_batches_def)

lemma concat_rows: "concat (map brows (concat (map f xs))) = concat (map (\<lambda>x. concat (map brows (f x))) xs)"
  by (induction xs) simp_all

lemma snapshot_out_rows:
  "concat (map brows (snapshot_out S plan R sn)) = scanned S plan (sn_schema sn) (snapshot_rows R sn)"
proof -
  have seg: "concat (map (\<lambda>e. concat (map brows (segment_out S plan (sn_schema sn) R e))) (sn_segments sn)) =
      scanned S plan (sn_schema sn) (concat (map (\<lambda>e. live_rows 0 (se_suppressed e) (R (seg_id (se_meta e)))) (sn_segments sn)))"
    by (simp add: scanned_concat segment_out_def comp_def)
  have "concat (map (\<lambda>x. concat (map brows (memtable_out S plan (sn_schema sn) (sn_mem_suppressed sn) x))) (with_offsets 0 (sn_memtable sn))) =
      scanned S plan (sn_schema sn) (live_rows 0 (sn_mem_suppressed sn) (concat (map brows (sn_memtable sn))))"
    unfolding live_rows_batches [symmetric] scanned_concat map_map
    by (intro arg_cong [where f = concat] map_cong) (auto simp: memtable_out_def)
  then show ?thesis by (simp add: snapshot_out_def snapshot_rows_def concat_rows seg)
qed

lemma snapshot_out_shape:
  assumes "b \<in> set (snapshot_out S plan R sn)"
  shows "bfields b = fields_of (sn_schema sn) (pp_projection plan) \<and> brows b \<noteq> []"
  using assms by (auto simp: snapshot_out_def segment_out_def memtable_out_def out_batches_def split: if_splits prod.splits)

lemma snapshot_of_partition:
  assumes "part_inv L s p R"
  shows "snapshot_ok L s R (snapshot p)" "snapshot_rows R (snapshot p) = partition_rows L (s, p)"
proof -
  note I = part_invD [OF assms]
  note st = st_invD [OF I(5)]
  have "stored L s (ps_schema (pt_state p)) R (se_meta e) \<and> object_key (seg_key (se_meta e))" if "e \<in> set (ps_segments (pt_state p))" for e
  proof -
    have m: "se_meta e \<in> set (map se_meta (ps_segments (pt_state p)))" using that by simp
    then show ?thesis using segs_okD(2,3) [OF st(3) m] plain_object [OF seg_key_object [OF I(3)]] by simp
  qed
  then show "snapshot_ok L s R (snapshot p)"
    using st(1,2) by (simp add: snapshot_ok_def snapshot_def Let_def memtable_ok_def)
  show "snapshot_rows R (snapshot p) = partition_rows L (s, p)"
    unfolding partition_rows_eq [OF assms]
    by (simp add: snapshot_rows_def snapshot_def Let_def contents_def seg_part_def mem_part_def seg_visible_def seg_live_def
      map_concat live_snd comp_def mem_rows_def)
qed

end
