(* ===== verification/Aggregate.thy ===== *)
theory Aggregate
  imports Scan
begin

text \<open>
  \<open>crates/adb-exec/src/aggregate.rs\<close>: hash aggregation, a partial result per partition that the
  coordinator merges. The hash table is the position of a key among the groups, which are kept in the
  order they were first seen; on the values of one column type the equality of keys is that of HOL
  (\<open>value_cmp_eq\<close>). Sums of whole Arrow columns are kernels.
\<close>

section \<open>States\<close>

datatype agg_state =
    ACount "64 word"
  | ASumInt i64 bool
  | ASumFloat f64 bool
  | AAvg f64 "64 word"
  | AMin "adb_value option"
  | AMax "adb_value option"

definition saturating_add_i64 :: "i64 \<Rightarrow> i64 \<Rightarrow> i64" where
  "saturating_add_i64 a b = word_of_int (max i64_min (min i64_max (sint a + sint b)))"

fun agg_new :: "aggregate_func \<Rightarrow> data_type option \<Rightarrow> agg_state" where
  "agg_new FCount _ = ACount 0"
| "agg_new FSum ty = (if ty = Some DInt64 then ASumInt 0 False else ASumFloat (F64 0) False)"
| "agg_new FAvg _ = AAvg (F64 0) 0"
| "agg_new FMin _ = AMin None"
| "agg_new FMax _ = AMax None"

definition keep_min :: "adb_value option \<Rightarrow> adb_value \<Rightarrow> adb_value option" where
  "keep_min cur v = (case cur of None \<Rightarrow> Some v | Some c \<Rightarrow> if value_cmp v c = Less then Some v else cur)"

definition keep_max :: "adb_value option \<Rightarrow> adb_value \<Rightarrow> adb_value option" where
  "keep_max cur v = (case cur of None \<Rightarrow> Some v | Some c \<Rightarrow> if value_cmp v c = Greater then Some v else cur)"

definition opt_value :: "('a \<Rightarrow> 'b option) \<Rightarrow> 'a option \<Rightarrow> 'b option" where
  "opt_value f v = Option.bind v f"

fun agg_update :: "agg_state \<Rightarrow> adb_value option \<Rightarrow> agg_state" where
  "agg_update (ACount n) v = ACount (if v = Some VNull then n else n + 1)"
| "agg_update (ASumInt acc any) v =
     (case opt_value as_i64 v of Some i \<Rightarrow> ASumInt (saturating_add_i64 acc i) True | None \<Rightarrow> ASumInt acc any)"
| "agg_update (ASumFloat acc any) v =
     (case opt_value as_f64 v of Some f \<Rightarrow> ASumFloat (f64_add acc f) True | None \<Rightarrow> ASumFloat acc any)"
| "agg_update (AAvg tot count) v =
     (case opt_value as_f64 v of Some f \<Rightarrow> AAvg (f64_add tot f) (count + 1) | None \<Rightarrow> AAvg tot count)"
| "agg_update (AMin cur) v = AMin (case v of Some w \<Rightarrow> if is_null w then cur else keep_min cur w | None \<Rightarrow> cur)"
| "agg_update (AMax cur) v = AMax (case v of Some w \<Rightarrow> if is_null w then cur else keep_max cur w | None \<Rightarrow> cur)"

fun agg_merge :: "agg_state \<Rightarrow> agg_state \<Rightarrow> agg_state result" where
  "agg_merge (ACount a) (ACount b) = Inr (ACount (a + b))"
| "agg_merge (ASumInt a x) (ASumInt b y) = Inr (ASumInt (saturating_add_i64 a b) (x \<or> y))"
| "agg_merge (ASumFloat a x) (ASumFloat b y) = Inr (ASumFloat (f64_add a b) (x \<or> y))"
| "agg_merge (AAvg a n) (AAvg b m) = Inr (AAvg (f64_add a b) (n + m))"
| "agg_merge (AMin a) (AMin b) = Inr (AMin (case b of None \<Rightarrow> a | Some v \<Rightarrow> keep_min a v))"
| "agg_merge (AMax a) (AMax b) = Inr (AMax (case b of None \<Rightarrow> a | Some v \<Rightarrow> keep_max a v))"
| "agg_merge _ _ = Inl Internal"

fun agg_finish :: "agg_state \<Rightarrow> adb_value" where
  "agg_finish (ACount n) = VInt (ucast n)"
| "agg_finish (ASumInt acc any) = (if any then VInt acc else VNull)"
| "agg_finish (ASumFloat acc any) = (if any then VFloat acc else VNull)"
| "agg_finish (AAvg tot count) = (if count = 0 then VNull else VFloat (f64_div tot (f64_of_int (uint count))))"
| "agg_finish (AMin v) = (case v of Some w \<Rightarrow> w | None \<Rightarrow> VNull)"
| "agg_finish (AMax v) = (case v of Some w \<Rightarrow> w | None \<Rightarrow> VNull)"

section \<open>Whole columns\<close>

definition non_null :: "adb_value list \<Rightarrow> nat" where
  "non_null vs = length (filter (\<lambda>v. \<not> is_null v) vs)"

definition fallback_rows :: "agg_state \<Rightarrow> adb_value list \<Rightarrow> agg_state" where
  "fallback_rows st vs = foldl (\<lambda>st v. agg_update st (Some v)) st vs"

fun as_int_cell :: "adb_value \<Rightarrow> i64 option" where
  "as_int_cell (VInt i) = Some i"
| "as_int_cell _ = None"

fun as_float_cell :: "adb_value \<Rightarrow> f64 option" where
  "as_float_cell (VFloat f) = Some f"
| "as_float_cell _ = None"

fun accumulate_column :: "exec_lib \<Rightarrow> agg_state \<Rightarrow> carray option \<Rightarrow> nat \<Rightarrow> agg_state" where
  "accumulate_column X (ACount n) None rows = ACount (n + of_nat rows)"
| "accumulate_column X st None rows = st"
| "accumulate_column X (ACount n) (Some a) rows = ACount (n + of_nat (non_null (ca_values a)))"
| "accumulate_column X (ASumInt acc any) (Some a) rows =
     (if ca_type a = Some AInt64 then
        (case xl_sum_int X (map as_int_cell (ca_values a)) of
           Some s \<Rightarrow> ASumInt (saturating_add_i64 acc s) True | None \<Rightarrow> ASumInt acc any)
      else fallback_rows (ASumInt acc any) (ca_values a))"
| "accumulate_column X (ASumFloat acc any) (Some a) rows =
     (if ca_type a = Some AFloat64 then
        (case xl_sum_float X (map as_float_cell (ca_values a)) of
           Some s \<Rightarrow> ASumFloat (f64_add acc s) True | None \<Rightarrow> ASumFloat acc any)
      else fallback_rows (ASumFloat acc any) (ca_values a))"
| "accumulate_column X (AAvg tot count) (Some a) rows =
     (if ca_type a = Some AFloat64 then
        AAvg (case xl_sum_float X (map as_float_cell (ca_values a)) of Some s \<Rightarrow> f64_add tot s | None \<Rightarrow> tot)
          (count + of_nat (non_null (ca_values a)))
      else if ca_type a = Some AInt64 then
        AAvg (case xl_sum_int X (map as_int_cell (ca_values a)) of Some s \<Rightarrow> f64_add tot (i64_as_f64 s) | None \<Rightarrow> tot)
          (count + of_nat (non_null (ca_values a)))
      else fallback_rows (AAvg tot count) (ca_values a))"
| "accumulate_column X (AMin v) (Some a) rows = fallback_rows (AMin v) (ca_values a)"
| "accumulate_column X (AMax v) (Some a) rows = fallback_rows (AMax v) (ca_values a)"

section \<open>Aggregators\<close>

type_synonym agg_group = "adb_value list \<times> agg_state list"

record aggregator =
  gr_spec :: agg_spec
  gr_types :: "data_type option list"
  gr_groups :: "agg_group list"
  gr_output :: output_schema

definition new_aggregator :: "agg_spec \<Rightarrow> output_schema \<Rightarrow> output_schema \<Rightarrow> aggregator" where
  "new_aggregator sp inp out =
     \<lparr>gr_spec = sp,
      gr_types = map (\<lambda>a. map_option cm_type (Option.bind (ag_column a) (out_column inp))) (as_aggregates sp),
      gr_groups = [], gr_output = out\<rparr>"

definition is_grouped :: "aggregator \<Rightarrow> bool" where
  "is_grouped g \<longleftrightarrow> as_group_by (gr_spec g) \<noteq> []"

definition fresh_states :: "aggregator \<Rightarrow> agg_state list" where
  "fresh_states g = map2 (\<lambda>a ty. agg_new (ag_func a) ty) (as_aggregates (gr_spec g)) (gr_types g)"

definition column_by_name :: "batch \<Rightarrow> string \<Rightarrow> carray result" where
  "column_by_name b n =
     rmap (\<lambda>i. \<lparr>ca_type = Some (f_type (bfields b ! i)), ca_values = batch_column b i\<rparr>) (ok_or (NotFound ''column'') (index_of b n))"

text \<open>One row goes to the group of its key, which is opened when the key is new.\<close>

definition update_row :: "agg_state list \<Rightarrow> agg_group list \<Rightarrow> adb_value list \<times> adb_value option list \<Rightarrow> agg_group list" where
  "update_row fresh gs = (\<lambda>(k, args).
     case position (\<lambda>(k', _). k' = k) gs of
       Some i \<Rightarrow> gs[i := (fst (gs ! i), map2 agg_update (snd (gs ! i)) args)]
     | None \<Rightarrow> gs @ [(k, map2 agg_update fresh args)])"

definition update_aggregator :: "exec_lib \<Rightarrow> aggregator \<Rightarrow> batch \<Rightarrow> aggregator result" where
  "update_aggregator X g b =
     (if num_rows b = 0 then Inr g
      else
        rbind (mapM (column_by_name b) (as_group_by (gr_spec g))) (\<lambda>gcols.
        rbind (mapM (\<lambda>a. case ag_column a of None \<Rightarrow> Inr None | Some n \<Rightarrow> rmap Some (column_by_name b n)) (as_aggregates (gr_spec g))) (\<lambda>vcols.
        if gcols = [] then
          (let gs = (if gr_groups g = [] then [([], fresh_states g)] else gr_groups g);
               st = map2 (\<lambda>st a. accumulate_column X st a (num_rows b)) (snd (hd gs)) vcols in
           Inr (g\<lparr>gr_groups := (fst (hd gs), st) # tl gs\<rparr>))
        else
          Inr (g\<lparr>gr_groups := foldl (update_row (fresh_states g)) (gr_groups g)
            (map (\<lambda>i. (map (\<lambda>c. ca_values c ! i) gcols, map (map_option (\<lambda>c. ca_values c ! i)) vcols)) [0..<num_rows b])\<rparr>))))"

fun merge_states :: "agg_state list \<Rightarrow> agg_state list \<Rightarrow> agg_state list result" where
  "merge_states (a # as) (b # bs) = rbind (agg_merge a b) (\<lambda>c. rmap ((#) c) (merge_states as bs))"
| "merge_states as bs = Inr as"

definition merge_group :: "agg_group list \<Rightarrow> agg_group \<Rightarrow> agg_group list result" where
  "merge_group gs = (\<lambda>(k, sts).
     case position (\<lambda>(k', _). k' = k) gs of
       Some i \<Rightarrow> rmap (\<lambda>new. gs[i := (fst (gs ! i), new)]) (merge_states (snd (gs ! i)) sts)
     | None \<Rightarrow> Inr (gs @ [(k, sts)]))"

definition merge_aggregator :: "aggregator \<Rightarrow> aggregator \<Rightarrow> aggregator result" where
  "merge_aggregator g h = rmap (\<lambda>gs. g\<lparr>gr_groups := gs\<rparr>) (foldM merge_group (gr_groups g) (gr_groups h))"

section \<open>The result\<close>

definition build_cell :: "data_type \<Rightarrow> adb_value \<Rightarrow> adb_value result" where
  "build_cell ty v =
     (if is_null v then Inr VNull
      else case ty of
        DBool \<Rightarrow> rmap VBool (ok_or TypeMismatch (as_bool v))
      | DInt64 \<Rightarrow> rmap VInt (ok_or TypeMismatch (as_i64 v))
      | DFloat64 \<Rightarrow> rmap VFloat (ok_or TypeMismatch (as_f64 v))
      | DTimestamp \<Rightarrow> rmap VTimestamp (ok_or TypeMismatch (as_i64 v))
      | DDate \<Rightarrow> rmap (\<lambda>d. VDate (ucast d)) (ok_or TypeMismatch (as_i64 v))
      | _ \<Rightarrow> rmap VStr (ok_or TypeMismatch (as_str v)))"

definition build_array :: "adb_value list \<Rightarrow> data_type \<Rightarrow> adb_value list result" where
  "build_array vs ty = mapM (build_cell ty) vs"

definition out_field :: "bool \<Rightarrow> column_meta \<Rightarrow> field" where
  "out_field null m = \<lparr>f_name = cm_name m, f_type = arrow_type_of (cm_type m), f_nullable = null\<rparr>"

text \<open>An output column the plan does not have is an index out of range, a panic; the model fails with \<open>Internal\<close>.\<close>

definition nth_column :: "output_schema \<Rightarrow> nat \<Rightarrow> column_meta result" where
  "nth_column sc i = (if i < length sc then Inr (sc ! i) else Inl Internal)"

definition finish_aggregator :: "exec_lib \<Rightarrow> aggregator \<Rightarrow> batch result" where
  "finish_aggregator X g =
     (let gs = (if gr_groups g = [] \<and> \<not> is_grouped g then [([], fresh_states g)] else gr_groups g);
          nk = length (as_group_by (gr_spec g)) in
      rbind (mapM (\<lambda>i. rbind (nth_column (gr_output g) i) (\<lambda>m. build_array (map (\<lambda>(k, _). k ! i) gs) (cm_type m))) [0..<nk]) (\<lambda>kcols.
      rbind (mapM (\<lambda>i. rbind (nth_column (gr_output g) (nk + i)) (\<lambda>m.
               build_array (map (\<lambda>(_, sts). agg_finish (sts ! i)) gs) (cm_type m))) [0..<length (as_aggregates (gr_spec g))]) (\<lambda>vcols.
      try_new (xl_arrow X) (map (out_field True) (gr_output g)) (kcols @ vcols))))"

end
