(* ===== verification/Exec.thy ===== *)
theory Exec
  imports Aggregate
begin

text \<open>
  \<open>crates/adb-exec/src/lib.rs\<close>: running a physical plan over the snapshots of the partitions of a
  table. The code scans the partitions on threads of their own and collects the results in partition
  order; the model scans them in that order. A warning keeps its number.
\<close>

datatype exec_warning = ResultTruncated nat

record query_result =
  qr_batch :: batch
  qr_stats :: exec_stats
  qr_warnings :: "exec_warning list"

section \<open>Scans\<close>

fun run_per_partition :: "(budget \<Rightarrow> partition_snapshot \<Rightarrow> (budget \<times> 'a) result) \<Rightarrow> budget \<Rightarrow> partition_snapshot list \<Rightarrow> (budget \<times> 'a list) result" where
  "run_per_partition work g [] = Inr (g, [])"
| "run_per_partition work g (sn # sns) =
     rbind (work g sn) (\<lambda>(g, x). rmap (\<lambda>(g, xs). (g, x # xs)) (run_per_partition work g sns))"

definition collect_sink :: "nat option \<Rightarrow> (batch list \<times> nat) sink" where
  "collect_sink cap = (\<lambda>(bs, rows) b.
     let rows = rows + num_rows b in
     Inr ((bs @ [b], rows), case cap of Some c \<Rightarrow> rows < c | None \<Rightarrow> True))"

definition concat_or_empty :: "exec_lib \<Rightarrow> physical_plan \<Rightarrow> batch list \<Rightarrow> batch result" where
  "concat_or_empty X plan bs =
     (case bs of
        [] \<Rightarrow> Inr \<lparr>bfields = map (\<lambda>m. out_field (cm_nullable m) m) (pp_output plan), brows = []\<rparr>
      | [b] \<Rightarrow> Inr b
      | b # _ \<Rightarrow> concat_batches (xl_arrow X) (bfields b) bs)"

definition run_scan :: "exec_lib \<Rightarrow> fs_store \<Rightarrow> physical_plan \<Rightarrow> budget \<Rightarrow> partition_snapshot list \<Rightarrow> (budget \<times> batch) result" where
  "run_scan X s plan g sns =
     (let cap = (if is_streaming_limit plan then fetch_rows plan else None) in
      rbind (run_per_partition (\<lambda>g sn. rmap (\<lambda>(g, bs, _). (g, bs)) (scan_partition X s plan (collect_sink cap) g ([], 0) sn)) g sns) (\<lambda>(g, collected).
      rbind (check_deadline g) (\<lambda>g.
      rmap (Pair g) (concat_or_empty X plan (concat collected)))))"

section \<open>Aggregates\<close>

definition scan_output_schema :: "physical_plan \<Rightarrow> partition_snapshot list \<Rightarrow> output_schema result" where
  "scan_output_schema plan sns =
     (case sns of
        [] \<Rightarrow> Inl Internal
      | sn # _ \<Rightarrow> mapM (\<lambda>n. rmap (\<lambda>c. \<lparr>cm_name = col_name c, cm_type = col_type c, cm_nullable = nullable c\<rparr>)
          (require_column (sn_schema sn) n)) (pp_projection plan))"

definition aggregate_sink :: "exec_lib \<Rightarrow> (aggregator \<times> bool) sink" where
  "aggregate_sink X = (\<lambda>(a, _) b. rmap (\<lambda>a. ((a, True), True)) (update_aggregator X a b))"

definition partial_aggregate ::
    "exec_lib \<Rightarrow> fs_store \<Rightarrow> physical_plan \<Rightarrow> aggregator \<Rightarrow> budget \<Rightarrow> partition_snapshot \<Rightarrow> (budget \<times> aggregator option) result" where
  "partial_aggregate X s plan fresh g sn =
     rmap (\<lambda>(g, a, saw). (g, if saw \<or> \<not> is_grouped a then Some a else None))
       (scan_partition X s plan (aggregate_sink X) g (fresh, False) sn)"

fun merge_partials :: "budget \<Rightarrow> aggregator option \<Rightarrow> aggregator list \<Rightarrow> (budget \<times> aggregator option) result" where
  "merge_partials g acc [] = Inr (g, acc)"
| "merge_partials g acc (p # ps) =
     rbind (check_deadline g) (\<lambda>g.
     rbind (case acc of None \<Rightarrow> Inr p | Some a \<Rightarrow> merge_aggregator a p) (\<lambda>a. merge_partials g (Some a) ps))"

definition run_aggregate ::
    "exec_lib \<Rightarrow> fs_store \<Rightarrow> physical_plan \<Rightarrow> agg_spec \<Rightarrow> budget \<Rightarrow> partition_snapshot list \<Rightarrow> (budget \<times> batch) result" where
  "run_aggregate X s plan sp g sns =
     rbind (scan_output_schema plan sns) (\<lambda>inp.
     let fresh = new_aggregator sp inp (pp_output plan) in
     rbind (run_per_partition (partial_aggregate X s plan fresh) g sns) (\<lambda>(g, partials).
     rbind (merge_partials g None (List.map_filter (\<lambda>x. x) partials)) (\<lambda>(g, merged).
     rbind (check_deadline g) (\<lambda>g.
     rmap (Pair g) (finish_aggregator X (case merged of Some a \<Rightarrow> a | None \<Rightarrow> fresh))))))"

definition try_metadata_count :: "exec_lib \<Rightarrow> physical_plan \<Rightarrow> partition_snapshot list \<Rightarrow> batch option result" where
  "try_metadata_count X plan sns =
     (case pp_aggregate plan of
        None \<Rightarrow> Inr None
      | Some sp \<Rightarrow>
          if pp_filter plan \<noteq> None \<or> as_group_by sp \<noteq> [] then Inr None
          else (case as_aggregates sp of
            [a] \<Rightarrow>
              if ag_func a \<noteq> FCount \<or> ag_column a \<noteq> None then Inr None
              else let total = sum_list (map visible_rows sns) in
                rbind (build_array [VInt (of_nat total)] DInt64) (\<lambda>col.
                rmap Some (try_new (xl_arrow X) [\<lparr>f_name = ag_alias a, f_type = AInt64, f_nullable = False\<rparr>] [col]))
          | _ \<Rightarrow> Inr None))"

section \<open>The rest of the pipeline\<close>

definition apply_rename :: "exec_lib \<Rightarrow> physical_plan \<Rightarrow> batch \<Rightarrow> batch result" where
  "apply_rename X plan b =
     (case pp_rename plan of
        None \<Rightarrow> Inr b
      | Some m \<Rightarrow>
          if num_rows b = 0 \<and> num_columns b = length (pp_output plan) then Inr b
          else rbind (mapM (\<lambda>(s, a). rmap (\<lambda>i. ((bfields b ! i)\<lparr>f_name := a\<rparr>, batch_column b i)) (ok_or (NotFound ''column'') (index_of b s))) m) (\<lambda>cols.
               try_new (xl_arrow X) (map fst cols) (map snd cols)))"

definition apply_offset_limit :: "exec_lib \<Rightarrow> physical_plan \<Rightarrow> budget \<Rightarrow> batch \<Rightarrow> budget \<times> batch" where
  "apply_offset_limit X plan g b =
     (let rows = num_rows b;
          skip = min (pp_offset plan) rows;
          remaining = rows - skip in
      case pp_limit plan of
        Some n \<Rightarrow> (g, slice (xl_arrow X) b skip (min n remaining))
      | None \<Rightarrow>
          let budgeted = min (max_rows (bg_limits g)) remaining in
          (if budgeted < remaining then note_truncated g else g, slice (xl_arrow X) b skip budgeted))"

definition align_output :: "exec_lib \<Rightarrow> output_schema \<Rightarrow> batch \<Rightarrow> batch result" where
  "align_output X out b =
     (if map f_name (bfields b) = out_names out then Inr b
      else project_batch (xl_arrow X) b (out_names out))"

definition execute_with_budget :: "exec_lib \<Rightarrow> fs_store \<Rightarrow> physical_plan \<Rightarrow> partition_snapshot list \<Rightarrow> budget \<Rightarrow> query_result result" where
  "execute_with_budget X s plan sns g =
     rbind (try_metadata_count X plan sns) (\<lambda>counted.
     case counted of
       Some b \<Rightarrow> Inr \<lparr>qr_batch = b, qr_stats = (budget_stats g)\<lparr>es_rows_returned := num_rows b\<rparr>, qr_warnings = []\<rparr>
     | None \<Rightarrow>
         rbind (case pp_aggregate plan of Some sp \<Rightarrow> run_aggregate X s plan sp g sns | None \<Rightarrow> run_scan X s plan g sns) (\<lambda>(g, combined).
         rbind (apply_rename X plan combined) (\<lambda>renamed_b.
         rbind (check_deadline g) (\<lambda>g.
         rbind (sort_batch X renamed_b (pp_sort plan) (fetch_rows plan)) (\<lambda>sorted_b.
         let (g, limited) = apply_offset_limit X plan g sorted_b in
         rbind (align_output X (pp_output plan) limited) (\<lambda>aligned.
         Inr \<lparr>qr_batch = aligned, qr_stats = (budget_stats g)\<lparr>es_rows_returned := num_rows aligned\<rparr>,
              qr_warnings = (if bg_truncated g then [ResultTruncated (max_rows (bg_limits g))] else [])\<rparr>))))))"

definition execute :: "exec_lib \<Rightarrow> fs_store \<Rightarrow> (nat \<Rightarrow> nat) \<Rightarrow> physical_plan \<Rightarrow> partition_snapshot list \<Rightarrow> query_limits \<Rightarrow> query_result result" where
  "execute X s clock plan sns lim = execute_with_budget X s plan sns (new_budget clock lim)"

end
