(* ===== verification/SelectProps.thy ===== *)
theory SelectProps
  imports ScanProps Exec LowerTheorems
begin

text \<open>
  Executing a plan without an aggregate. A batch stands for the list of its rows read by column name
  (\<open>row_envs\<close>); every step of the executor after the scan is an operation on that list.
\<close>

section \<open>Batches as rows of names\<close>

definition row_envs :: "batch \<Rightarrow> env list" where
  "row_envs b = map (batch_env b) (brows b)"

lemma batch_env_rows [simp]: "batch_env (b\<lparr>brows := rs\<rparr>) = batch_env b"
  by (rule ext)+ (simp add: batch_env_def index_of_def)

lemma row_envs_update [simp]: "row_envs (b\<lparr>brows := rs\<rparr>) = map (batch_env b) rs"
  by (simp add: row_envs_def)

lemma row_envs_length [simp]: "length (row_envs b) = num_rows b"
  by (simp add: row_envs_def num_rows_def)

lemma position_map: "position P (map f xs) = position (\<lambda>x. P (f x)) xs"
  by (induction xs) simp_all

text \<open>Choosing columns by index, under fields of the same types.\<close>

definition chosen :: "batch \<Rightarrow> field list \<Rightarrow> nat list \<Rightarrow> batch" where
  "chosen b fs is = \<lparr>bfields = fs, brows = map (\<lambda>r. map ((!) r) is) (brows b)\<rparr>"

definition same_kind :: "field \<Rightarrow> field \<Rightarrow> bool" where
  "same_kind f g \<longleftrightarrow> f_type f = f_type g \<and> f_nullable f = f_nullable g"

lemma choose_columns:
  assumes A: "arrow_ok A" and b: "batch_ok b" and ne: "is \<noteq> []"
    and sel: "list_all2 (\<lambda>f i. i < length (bfields b) \<and> same_kind f (bfields b ! i)) fs is"
  shows "try_new A fs (map (batch_column b) is) = Inr (chosen b fs is)" "batch_ok (chosen b fs is)"
proof -
  have len: "length fs = length is" using sel by (rule list_all2_lengthD)
  have at: "is ! k < length (bfields b)" "same_kind (fs ! k) (bfields b ! (is ! k))" if "k < length is" for k
    using list_all2_nthD2 [OF sel that] by simp_all
  have cell: "field_fits (bfields b ! i) (r ! i)" if "r \<in> set (brows b)" "i < length (bfields b)" for r i
    using b that by (auto simp: batch_ok_def row_ok_def list_all_iff list_all2_conv_all_nth)
  have cols: "columns_ok fs (num_rows b) (map (batch_column b) is)"
    using at cell len ne by (force simp: columns_ok_def batch_column_def num_rows_def field_fits_def same_kind_def)
  have "rows_of_columns (num_rows b) (map (batch_column b) is) = map (\<lambda>r. map ((!) r) is) (brows b)"
    by (rule nth_equalityI) (auto simp: rows_of_columns_def batch_column_def num_rows_def)
  then show new: "try_new A fs (map (batch_column b) is) = Inr (chosen b fs is)"
    using arrow_try_new [OF A cols] by (simp add: chosen_def)
  show "batch_ok (chosen b fs is)"
    using at cell len ne
    by (auto simp: chosen_def batch_ok_def list_all_iff row_ok_def list_all2_conv_all_nth field_fits_def same_kind_def)
qed

lemma chosen_rows [simp]: "num_rows (chosen b fs is) = num_rows b"
  by (simp add: chosen_def num_rows_def)

lemma index_of_name:
  assumes "n \<in> set (map f_name (bfields b))"
  obtains i where "index_of b n = Some i" "i < length (bfields b)" "f_name (bfields b ! i) = n"
proof -
  have "index_of b n \<noteq> None" using assms by (auto simp: index_of_def position_None)
  then obtain i where i: "index_of b n = Some i" by blast
  then show ?thesis using that position_Some [of _ "bfields b" i] by (auto simp: index_of_def)
qed

section \<open>Renaming\<close>

text \<open>The result of the scan and of its renaming, by the names of its columns.\<close>

lemma rename_columns:
  assumes A: "arrow_ok (xl_arrow X)" and b: "batch_ok b" and m: "pp_rename plan = Some m" "m \<noteq> []"
    and names: "set (map fst m) \<subseteq> set (map f_name (bfields b))" and rows: "num_rows b \<noteq> 0"
  obtains b' where "apply_rename X plan b = Inr b'" "batch_ok b'" "map f_name (bfields b') = map snd m"
    "row_envs b' = map (rename_env m) (row_envs b)"
proof -
  let ?ix = "\<lambda>s. the (index_of b s)"
  let ?fs = "map (\<lambda>(s, a). (bfields b ! ?ix s)\<lparr>f_name := a\<rparr>) m" and ?is = "map (\<lambda>(s, a). ?ix s) m"
  have ix: "index_of b s = Some (?ix s) \<and> ?ix s < length (bfields b)" if "(s, a) \<in> set m" for s a
  proof -
    have "s \<in> set (map f_name (bfields b))" using names that by force
    then show ?thesis using index_of_name [of s b] by force
  qed
  have cols: "mapM (\<lambda>(s, a). rmap (\<lambda>i. ((bfields b ! i)\<lparr>f_name := a\<rparr>, batch_column b i)) (ok_or (NotFound ''column'') (index_of b s))) m =
      Inr (map (\<lambda>(s, a). ((bfields b ! ?ix s)\<lparr>f_name := a\<rparr>, batch_column b (?ix s))) m)"
  proof (intro mapM_Inr_map, clarify)
    fix s a
    assume "(s, a) \<in> set m"
    then obtain j where "index_of b s = Some j" using ix by blast
    then show "rmap (\<lambda>i. ((bfields b ! i)\<lparr>f_name := a\<rparr>, batch_column b i)) (ok_or (NotFound ''column'') (index_of b s)) =
        Inr ((bfields b ! ?ix s)\<lparr>f_name := a\<rparr>, batch_column b (?ix s))" by simp
  qed
  have l: "list_all2 (\<lambda>f i. i < length (bfields b) \<and> same_kind f (bfields b ! i)) ?fs ?is"
    using ix by (auto simp: list_all2_conv_all_nth same_kind_def split: prod.splits) (metis nth_mem)
  have "apply_rename X plan b = try_new (xl_arrow X) ?fs (map (batch_column b) ?is)"
    using rows cols m(1) by (simp add: apply_rename_def case_prod_unfold comp_def)
  also have "\<dots> = Inr (chosen b ?fs ?is)" by (rule choose_columns [OF A b _ l]) (simp add: m(2))
  finally have r: "apply_rename X plan b = Inr (chosen b ?fs ?is)" .
  have env: "batch_env (chosen b ?fs ?is) (map ((!) r) ?is) n = rename_env m (batch_env b r) n" for r n
  proof (cases "position (\<lambda>(s, a). a = n) m")
    case None
    then have "source_of m n = None" by (simp add: source_of_def position_find case_prod_unfold)
    then show ?thesis using None
      by (simp add: batch_env_def index_of_def chosen_def position_map rename_env_def case_prod_unfold)
  next
    case (Some k)
    then have k: "k < length m" "snd (m ! k) = n" using position_Some [OF Some] by (auto simp: case_prod_unfold)
    have "source_of m n = Some (fst (m ! k))" using Some by (simp add: source_of_def position_find case_prod_unfold)
    moreover obtain j where "index_of b (fst (m ! k)) = Some j" using ix [of "fst (m ! k)" "snd (m ! k)"] k(1) by auto
    moreover have "index_of (chosen b ?fs ?is) n = Some k"
      using Some by (simp add: index_of_def chosen_def position_map case_prod_unfold)
    ultimately show ?thesis using k by (simp add: batch_env_def rename_env_def case_prod_unfold)
  qed
  have "row_envs (chosen b ?fs ?is) = map (rename_env m) (row_envs b)"
    unfolding row_envs_def using env by (simp add: chosen_def [of b ?fs ?is] fun_eq_iff flip: chosen_def)
  then show ?thesis using that [OF r choose_columns(2) [OF A b _ l]] m(2) by (simp add: chosen_def case_prod_unfold comp_def)
qed

section \<open>Sorting\<close>

text \<open>
  \<open>lexsort_to_indices\<close>: a permutation of the rows that is sorted by the keys, ties in any order, of
  which a limit keeps the front.
\<close>

fun rows_cmp :: "(sort_expr \<times> adb_value list) list \<Rightarrow> nat \<Rightarrow> nat \<Rightarrow> ordering" where
  "rows_cmp [] i j = Equal"
| "rows_cmp ((k, vs) # cols) i j = (case key_cmp k (vs ! i) (vs ! j) of Equal \<Rightarrow> rows_cmp cols i j | c \<Rightarrow> c)"

definition front :: "nat option \<Rightarrow> 'a list \<Rightarrow> 'a list" where
  "front lim xs = (case lim of None \<Rightarrow> xs | Some n \<Rightarrow> take n xs)"

definition lexsort_ok :: "exec_lib \<Rightarrow> bool" where
  "lexsort_ok X \<longleftrightarrow> (\<forall>cols n lim. cols \<noteq> [] \<longrightarrow>
     (\<forall>(k, vs) \<in> set cols. length vs = n \<and> (\<exists>ty. list_all (arrow_fits ty) vs)) \<longrightarrow>
     (\<exists>perm. xl_lexsort X cols lim = Inr (front lim perm) \<and> mset perm = mset [0..<n] \<and>
        sorted_wrt (\<lambda>i j. rows_cmp cols i j \<noteq> Greater) perm))"

lemma front_map [simp]: "front lim (map f xs) = map f (front lim xs)"
  by (simp add: front_def take_map split: option.split)

lemma front_set: "set (front lim xs) \<subseteq> set xs"
  by (auto simp: front_def dest: in_set_takeD split: option.splits)

lemma keys_rows_cmp:
  assumes "list_all2 (\<lambda>k (k', vs). k' = k \<and> (\<exists>c. index_of b (so_column k) = Some c \<and> vs = batch_column b c)) ks cols"
    and "i < num_rows b" "j < num_rows b"
  shows "keys_cmp ks (batch_env b (brows b ! i)) (batch_env b (brows b ! j)) = rows_cmp cols i j"
  using assms(1)
proof (induction ks cols rule: list_all2_induct)
  case (Cons k ks x cols)
  then show ?case using assms(2,3) by (auto simp: batch_env_def batch_column_def num_rows_def split: prod.splits cong: ordering.case_cong)
qed simp

lemma sort_columns:
  assumes X: "arrow_ok (xl_arrow X)" "lexsort_ok X" and b: "batch_ok b"
    and names: "num_rows b \<noteq> 0 \<Longrightarrow> so_column ` set ks \<subseteq> set (map f_name (bfields b))"
  obtains b' out where "sort_batch X b ks lim = Inr b'" "batch_ok b'" "bfields b' = bfields b"
    "out \<in> sort_answers ks (row_envs b)" "row_envs b' = front lim out"
proof (cases "ks = [] \<or> num_rows b = 0")
  case True
  let ?b = "case lim of Some n \<Rightarrow> if n < num_rows b then slice (xl_arrow X) b 0 n else b | None \<Rightarrow> b"
  have b': "?b = b\<lparr>brows := front lim (brows b)\<rparr>"
    using arrow_slice [OF X(1), of 0 _ b] by (auto simp: front_def num_rows_def split: option.split)
  have s: "sort_batch X b ks lim = Inr ?b" using True by (simp only: sort_batch_def if_True)
  have "row_envs b \<in> sort_answers ks (row_envs b)" using True by (auto simp: sort_answers_def sorted_by_def row_envs_def num_rows_def)
  moreover have "row_envs ?b = front lim (row_envs b)" unfolding b' by (simp add: row_envs_def)
  moreover have "batch_ok ?b" "bfields ?b = bfields b" unfolding b' using batch_ok_rows [OF b front_set] by simp_all
  ultimately show ?thesis using that [OF s] by blast
next
  case False
  then have ks: "ks \<noteq> []" and n: "num_rows b \<noteq> 0" by simp_all
  let ?cols = "map (\<lambda>k. (k, batch_column b (the (index_of b (so_column k))))) ks"
  have ix: "\<exists>c. index_of b (so_column k) = Some c \<and> c < length (bfields b)" if "k \<in> set ks" for k
  proof -
    have "so_column k \<in> set (map f_name (bfields b))" using names [OF n] that by force
    then show ?thesis using index_of_name [of "so_column k" b] by metis
  qed
  have m: "mapM (\<lambda>k. rmap (\<lambda>i. (k, batch_column b i)) (ok_or (NotFound ''column'') (index_of b (so_column k)))) ks = Inr ?cols"
  proof (rule mapM_Inr_map)
    fix k
    assume "k \<in> set ks"
    then show "rmap (\<lambda>i. (k, batch_column b i)) (ok_or (NotFound ''column'') (index_of b (so_column k))) =
        Inr (k, batch_column b (the (index_of b (so_column k))))" using ix by fastforce
  qed
  have l: "list_all2 (\<lambda>k (k', vs). k' = k \<and> (\<exists>c. index_of b (so_column k) = Some c \<and> vs = batch_column b c)) ks ?cols"
    unfolding list.rel_map list_all2_same using ix by fastforce
  have t: "list_all (arrow_fits (f_type (bfields b ! c))) (batch_column b c)" if "c < length (bfields b)" for c
    using b that by (auto simp: batch_ok_def row_ok_def list_all_iff list_all2_conv_all_nth field_fits_def batch_column_def)
  have "\<forall>(k, vs) \<in> set ?cols. length vs = num_rows b \<and> (\<exists>ty. list_all (arrow_fits ty) vs)"
  proof clarsimp
    fix k
    assume "k \<in> set ks"
    then obtain c where c: "index_of b (so_column k) = Some c" "c < length (bfields b)" using ix by blast
    then show "length (batch_column b (the (index_of b (so_column k)))) = num_rows b \<and>
        (\<exists>ty. list_all (arrow_fits ty) (batch_column b (the (index_of b (so_column k)))))"
      using t [OF c(2)] by (auto simp: batch_column_def num_rows_def)
  qed
  moreover have "?cols \<noteq> []" using ks by simp
  ultimately obtain perm where p: "xl_lexsort X ?cols lim = Inr (front lim perm)" "mset perm = mset [0..<num_rows b]"
      "sorted_wrt (\<lambda>i j. rows_cmp ?cols i j \<noteq> Greater) perm"
    using X(2) unfolding lexsort_ok_def by meson
  have sp: "set perm = {0..<num_rows b}" using mset_eq_setD [OF p(2)] by simp
  have tk: "take_batch (xl_arrow X) b (front lim perm) = Inr (b\<lparr>brows := map (\<lambda>i. brows b ! i) (front lim perm)\<rparr>)"
    by (rule arrow_take [OF X(1) b]) (use front_set [of lim perm] sp in auto)
  let ?b = "b\<lparr>brows := map (\<lambda>i. brows b ! i) (front lim perm)\<rparr>" and ?out = "map (\<lambda>i. batch_env b (brows b ! i)) perm"
  have s: "sort_batch X b ks lim = Inr ?b" using ks n m p(1) tk by (simp add: sort_batch_def)
  have "set (map (\<lambda>i. brows b ! i) (front lim perm)) \<subseteq> set (brows b)" using front_set [of lim perm] sp by (auto simp: num_rows_def)
  then have ok: "batch_ok ?b" by (rule batch_ok_rows [OF b])
  have "mset ?out = image_mset (\<lambda>i. batch_env b (brows b ! i)) (mset [0..<num_rows b])" using p(2) by (simp flip: p(2))
  also have "\<dots> = mset (map (\<lambda>i. batch_env b (brows b ! i)) [0..<num_rows b])" by simp
  also have "map (\<lambda>i. batch_env b (brows b ! i)) [0..<num_rows b] = row_envs b"
    unfolding row_envs_def by (rule nth_equalityI) (simp_all add: num_rows_def)
  finally have "mset ?out = mset (row_envs b)" .
  moreover have "sorted_by ks ?out"
    unfolding sorted_by_def sorted_wrt_map
    by (rule sorted_wrt_mono_rel [OF _ p(3)]) (use keys_rows_cmp [OF l] sp in auto)
  ultimately have "?out \<in> sort_answers ks (row_envs b)" using ks by (simp add: sort_answers_def)
  then show ?thesis by (rule that [OF s ok, rotated]) (simp_all add: comp_def)
qed

section \<open>Offset, limit and the output columns\<close>

definition budgeted :: "query_limits \<Rightarrow> nat option \<Rightarrow> 'a list \<Rightarrow> 'a list" where
  "budgeted lim n xs = (if n = None then take (max_rows lim) xs else xs)"

lemma offset_limit_columns:
  assumes "arrow_ok (xl_arrow X)" "batch_ok b"
  obtains g' b' where "apply_offset_limit X plan g b = (g', b')" "batch_ok b'" "bfields b' = bfields b"
    "row_envs b' = budgeted (bg_limits g) (pp_limit plan) (window (pp_limit plan) (pp_offset plan) (row_envs b))"
    "bg_limits g' = bg_limits g"
    "bg_truncated g' \<longleftrightarrow> bg_truncated g \<or>
      (pp_limit plan = None \<and> max_rows (bg_limits g) < length (window None (pp_offset plan) (row_envs b)))"
proof -
  let ?skip = "min (pp_offset plan) (num_rows b)"
  have cut: "slice (xl_arrow X) b ?skip (min n (num_rows b - ?skip)) = b\<lparr>brows := take n (drop (pp_offset plan) (brows b))\<rparr>" for n
  proof -
    have "take (min n (num_rows b - ?skip)) (drop ?skip (brows b)) = take n (drop (pp_offset plan) (brows b))"
      by (cases "pp_offset plan \<le> num_rows b") (auto simp: num_rows_def min_def)
    then show ?thesis using arrow_slice [OF assms(1), of ?skip "min n (num_rows b - ?skip)" b] by simp
  qed
  have ok: "batch_ok (b\<lparr>brows := take n (drop k (brows b))\<rparr>)" for n k
    by (rule batch_ok_rows [OF assms(2)]) (use in_set_takeD in_set_dropD in fastforce)
  show ?thesis
  proof (cases "pp_limit plan")
    case (Some n)
    then have "apply_offset_limit X plan g b = (g, b\<lparr>brows := take n (drop (pp_offset plan) (brows b))\<rparr>)"
      using cut by (simp add: apply_offset_limit_def Let_def)
    then show ?thesis by (rule that) (simp_all add: ok Some budgeted_def window_def row_envs_def take_map drop_map)
  next
    case None
    let ?k = "max_rows (bg_limits g)"
    have "apply_offset_limit X plan g b =
        (if min ?k (num_rows b - ?skip) < num_rows b - ?skip then note_truncated g else g,
         b\<lparr>brows := take ?k (drop (pp_offset plan) (brows b))\<rparr>)"
      using None cut [of ?k] by (simp add: apply_offset_limit_def Let_def)
    then show ?thesis
      by (rule that)
        (auto simp: ok None budgeted_def window_def row_envs_def take_map drop_map note_truncated_def num_rows_def min_def)
  qed
qed

lemma align_columns:
  assumes "arrow_ok (xl_arrow X)" "batch_ok b" "out_names out \<noteq> []" "set (out_names out) \<subseteq> set (map f_name (bfields b))"
    "distinct (out_names out)"
  obtains b' where "align_output X out b = Inr b'" "map f_name (bfields b') = out_names out"
    "brows b' = rendered (out_names out) (row_envs b)"
proof (cases "map f_name (bfields b) = out_names out")
  case True
  have "map (batch_env b r) (out_names out) = r" if "r \<in> set (brows b)" for r
  proof (rule nth_equalityI)
    have len: "length r = length (bfields b)" using assms(2) that row_ok_length by (fastforce simp: batch_ok_def list_all_iff)
    then show "length (map (batch_env b r) (out_names out)) = length r" using arg_cong [OF True, of length] by simp
    fix i
    assume "i < length (map (batch_env b r) (out_names out))"
    then have i: "i < length (bfields b)" using arg_cong [OF True, of length] by simp
    have nm: "out_names out ! i = f_name (bfields b ! i)" using i by (simp flip: True)
    have "index_of b (f_name (bfields b ! i)) = Some i"
      unfolding index_of_def by (rule position_nth_distinct) (use True assms(5) i in simp_all)
    then show "map (batch_env b r) (out_names out) ! i = r ! i"
      using i nm arg_cong [OF True, of length] by (simp add: batch_env_def)
  qed
  then have "rendered (out_names out) (row_envs b) = brows b" by (simp add: rendered_def row_envs_def map_idI)
  then show ?thesis using that [of b] True by (simp add: align_output_def)
next
  case False
  let ?ix = "\<lambda>n. the (index_of b n)"
  have ix: "\<exists>i. index_of b n = Some i \<and> i < length (bfields b) \<and> f_name (bfields b ! i) = n" if "n \<in> set (out_names out)" for n
    using assms(4) that index_of_name [of n b] by blast
  let ?is = "map ?ix (out_names out)"
  have m: "mapM (\<lambda>n. ok_or (NotFound ''column'') (index_of b n)) (out_names out) = Inr ?is"
    using ix by (intro mapM_Inr_map) fastforce
  have l: "list_all2 (\<lambda>f i. i < length (bfields b) \<and> same_kind f (bfields b ! i)) (map (\<lambda>i. bfields b ! i) ?is) ?is"
    unfolding list.rel_map list_all2_same using ix by (fastforce simp: same_kind_def)
  have "align_output X out b = Inr (chosen b (map (\<lambda>i. bfields b ! i) ?is) ?is)"
    using False m choose_columns(1) [OF assms(1,2) _ l] assms(3) by (simp add: align_output_def project_batch_def)
  moreover have "map f_name (bfields (chosen b (map (\<lambda>i. bfields b ! i) ?is) ?is)) = out_names out"
    using ix by (fastforce simp: chosen_def intro: map_idI)
  moreover have "brows (chosen b (map (\<lambda>i. bfields b ! i) ?is) ?is) = rendered (out_names out) (row_envs b)"
    using ix by (fastforce simp: chosen_def rendered_def row_envs_def batch_env_def)
  ultimately show ?thesis by (rule that)
qed

section \<open>Collecting the batches of a scan\<close>

lemma feed_collect:
  "\<exists>k go. feed (collect_sink cap) (cs, n) bs = Inr ((cs @ take k bs, n + length (concat (map brows (take k bs)))), go) \<and>
     (k < length bs \<longrightarrow> (\<exists>c. cap = Some c \<and> c \<le> n + length (concat (map brows (take k bs)))))"
proof (induction bs arbitrary: cs n)
  case (Cons b bs)
  let ?n = "n + num_rows b"
  show ?case
  proof (cases "case cap of Some c \<Rightarrow> ?n < c | None \<Rightarrow> True")
    case True
    obtain k go where "feed (collect_sink cap) (cs @ [b], ?n) bs = Inr (((cs @ [b]) @ take k bs, ?n + length (concat (map brows (take k bs)))), go)"
        "k < length bs \<longrightarrow> (\<exists>c. cap = Some c \<and> c \<le> ?n + length (concat (map brows (take k bs))))"
      using Cons.IH [of "cs @ [b]" ?n] by blast
    then show ?thesis using True
      by (intro exI [of _ "Suc k"] exI [of _ go]) (simp add: collect_sink_def Let_def num_rows_def add.assoc cong: option.case_cong)
  next
    case False
    then obtain c where "cap = Some c" "c \<le> ?n" by (auto split: option.splits)
    then show ?thesis
      by (intro exI [of _ 1] exI [of _ False]) (simp add: collect_sink_def Let_def num_rows_def)
  qed
qed (auto intro: exI [of _ 0])

lemma front_concat:
  assumes "list_all2 (\<lambda>p f. \<exists>k. p = take k f \<and> (k < length f \<longrightarrow> c \<le> length p)) ps fs"
  shows "take c (concat ps) = take c (concat fs)"
  using assms
proof (induction rule: list_all2_induct)
  case (Cons p ps f fs)
  then obtain k where k: "p = take k f" "k < length f \<longrightarrow> c \<le> length p" by blast
  show ?case
  proof (cases "k < length f")
    case True
    then show ?thesis using k by (auto simp: min_def)
  next
    case False
    have "take (c - length f) (concat ps) = take (c - length f) (concat fs)"
      using arg_cong [OF Cons.IH, of "take (c - length f)"] by simp
    then show ?thesis using False k by simp
  qed
qed simp

end
