(* ===== verification/SelectAnswers.thy ===== *)
theory SelectAnswers
  imports SelectProps TableTheorems
begin

text \<open>
  The answer of a query without an aggregate, from the rows of the partitions to the returned batch.
\<close>

section \<open>The rows a snapshot gives\<close>

definition source_ok :: "storage_lib \<Rightarrow> fs_store \<Rightarrow> table_schema \<Rightarrow> partition_snapshot \<Rightarrow> row list \<Rightarrow> bool" where
  "source_ok L s t sn rows \<longleftrightarrow>
     (\<exists>R. snapshot_ok L s R sn \<and> stats_ok R sn \<and> sn_schema sn = t \<and> snapshot_rows R sn = rows)"

lemma rows_projectable:
  assumes "storage_ok L" "snapshot_ok L s R sn" "ns \<noteq> []" "set ns \<subseteq> set (column_names (sn_schema sn))" "r \<in> set (snapshot_rows R sn)"
  shows "row_ok (fields_of (sn_schema sn) ns) (project_row (sn_schema sn) ns r)"
proof -
  let ?t = "sn_schema sn"
  have t: "schema_ok ?t" and d: "distinct (map col_name (columns ?t))" using assms(2) by (simp_all add: snapshot_ok_def schema_ok_def)
  have base: "row_ok (fields_of ?t ns) (project_row ?t ns r)"
    if b: "batch_ok b" "covers ?t (bfields b)" "rows = map (backfill_row (bfields b) (column_names ?t)) (brows b)" "r \<in> set rows" for b rows
  proof -
    obtain r0 where r0: "r0 \<in> set (brows b)" "r = backfill_row (bfields b) (column_names ?t) r0" using b(3,4) by auto
    have "row_ok (fields_of ?t ns) (backfill_row (bfields b) ns r0)"
      using projected_ok [OF b(1,2) assms(3,4)] r0(1) by (simp add: batch_ok_def list_all_iff)
    then show ?thesis using backfill_project [OF t assms(4)] r0(2) by metis
  qed
  have "r \<in> set (concat (map (\<lambda>e. live_rows 0 (se_suppressed e) (R (seg_id (se_meta e)))) (sn_segments sn))) \<or>
      r \<in> set (live_rows 0 (sn_mem_suppressed sn) (concat (map brows (sn_memtable sn))))"
    using assms(5) by (simp add: snapshot_rows_def)
  then consider (seg) e where "e \<in> set (sn_segments sn)" "r \<in> set (R (seg_id (se_meta e)))"
    | (mem) b where "b \<in> set (sn_memtable sn)" "r \<in> set (brows b)"
    using live_rows_set by fastforce
  then show ?thesis
  proof cases
    case seg
    then obtain b where "batch_ok b" "covers ?t (bfields b)" "R (seg_id (se_meta e)) = map (backfill_row (bfields b) (column_names ?t)) (brows b)"
      using assms(2) by (auto simp: snapshot_ok_def stored_def)
    then show ?thesis using base seg(2) by blast
  next
    case mem
    then have b: "batch_ok b" "bfields b = arrow_schema ?t" using assms(2) by (auto simp: snapshot_ok_def list_all_iff batch_fits_def)
    have "length r = length (columns ?t)" if "r \<in> set (brows b)" for r
      using b that row_ok_length by (fastforce simp: batch_ok_def list_all_iff arrow_schema_def)
    then have "brows b = map (backfill_row (bfields b) (column_names ?t)) (brows b)"
      using backfill_own [OF d] b(2) by (simp add: map_idI)
    then show ?thesis using base [OF b(1) _ _ mem(2)] covers_own [OF d] b(2) by simp
  qed
qed

text \<open>A batch of the rows a scan gives.\<close>

definition scan_batch :: "physical_plan \<Rightarrow> table_schema \<Rightarrow> batch \<Rightarrow> bool" where
  "scan_batch plan t b \<longleftrightarrow> batch_ok b \<and> bfields b = fields_of t (pp_projection plan) \<and> brows b \<noteq> []"

definition collected :: "sql_lib \<Rightarrow> physical_plan \<Rightarrow> table_schema \<Rightarrow> nat option \<Rightarrow> batch list \<Rightarrow> row list \<Rightarrow> bool" where
  "collected S plan t cap bs rows \<longleftrightarrow> list_all (scan_batch plan t) bs \<and>
     (\<exists>k. concat (map brows bs) = take k (scanned S plan t rows) \<and>
        (k < length (scanned S plan t rows) \<longrightarrow> (\<exists>c. cap = Some c \<and> c \<le> length (concat (map brows bs)))))"

lemma take_concat_take: "concat (take k xss) = take (length (concat (take k xss))) (concat xss)"
proof -
  have "concat xss = concat (take k xss) @ concat (drop k xss)" by (metis append_take_drop_id concat_append)
  then show ?thesis by simp
qed

lemma snapshot_out_ok:
  assumes X: "exec_ok S L X" and plan: "plan_fits plan t"
    and R: "snapshot_ok L s R sn" "sn_schema sn = t" "snapshot_rows R sn = rows" and b: "b \<in> set (snapshot_out S plan R sn)"
  shows "scan_batch plan t b"
proof -
  have ns: "pp_projection plan \<noteq> []" "set (pp_projection plan) \<subseteq> set (column_names t)" using plan by (simp_all add: plan_fits_def)
  have f: "bfields b = fields_of t (pp_projection plan)" "brows b \<noteq> []" using snapshot_out_shape [OF b] R(2) by simp_all
  have "row_ok (fields_of t (pp_projection plan)) r" if r: "r \<in> set (brows b)" for r
  proof -
    have "r \<in> set (concat (map brows (snapshot_out S plan R sn)))" using b r by auto
    then have "r \<in> set (scanned S plan t rows)" unfolding snapshot_out_rows R(2,3) .
    then obtain r0 where "r0 \<in> set rows" "r = project_row t (pp_projection plan) r0" by (auto simp: scanned_def)
    then show ?thesis using rows_projectable [of L s R sn "pp_projection plan" r0] X R ns by (simp add: exec_ok_def)
  qed
  then show ?thesis using f ns(1) by (simp add: scan_batch_def batch_ok_def list_all_iff fields_of_def)
qed

lemma scan_collected:
  assumes X: "exec_ok S L X" and s: "store_ok s" and plan: "plan_fits plan t" and src: "source_ok L s t sn rows"
    and g: "budget_of lim clock g" and run: "scan_partition X s plan (collect_sink cap) g ([], 0) sn = Inr (g', bs, n)"
  shows "budget_of lim clock g' \<and> collected S plan t cap bs rows"
proof -
  obtain R where R: "snapshot_ok L s R sn" "stats_ok R sn" "sn_schema sn = t" "snapshot_rows R sn = rows"
    using src by (auto simp: source_ok_def)
  let ?out = "snapshot_out S plan R sn"
  obtain k go where k: "feed (collect_sink cap) ([], 0) ?out = Inr (([] @ take k ?out, 0 + length (concat (map brows (take k ?out)))), go)"
      "k < length ?out \<longrightarrow> (\<exists>c. cap = Some c \<and> c \<le> 0 + length (concat (map brows (take k ?out))))"
    using feed_collect by blast
  have "ended_agrees lim clock (Inr (g', bs, n)) (feed (collect_sink cap) ([], 0) ?out)"
    using scan_partition_agrees [OF X _ s R(1,2) g, of plan "collect_sink cap" "([], 0)"] plan R(3) run by simp
  then have bs: "bs = take k ?out" and g': "budget_of lim clock g'" using k(1) by auto
  have rows_out: "concat (map brows ?out) = scanned S plan t rows" using snapshot_out_rows R(3,4) by simp
  have "scan_batch plan t b" if b: "b \<in> set ?out" for b by (rule snapshot_out_ok [OF X plan R(1,3,4) b])
  then have "list_all (scan_batch plan t) bs" unfolding bs by (auto simp: list_all_iff dest: in_set_takeD)
  moreover have tk: "concat (map brows bs) = take (length (concat (map brows bs))) (scanned S plan t rows)"
    unfolding bs take_map [symmetric] rows_out [symmetric] by (rule take_concat_take)
  moreover have "\<exists>c. cap = Some c \<and> c \<le> length (concat (map brows bs))" if "length (concat (map brows bs)) < length (scanned S plan t rows)"
  proof -
    have "k < length ?out" using that rows_out bs by (metis leI nat_less_le take_all)
    then show ?thesis using k(2) bs by simp
  qed
  ultimately show ?thesis using g' unfolding collected_def by blast
qed

lemma scan_limited:
  assumes X: "exec_ok S L X" and s: "store_ok s" and plan: "plan_fits plan t" and src: "source_ok L s t sn rows"
    and g: "budget_of lim clock g" and run: "scan_partition X s plan (collect_sink cap) g ([], 0) sn = Inl e"
  shows "limit_hit lim clock e"
proof -
  obtain R where R: "snapshot_ok L s R sn" "stats_ok R sn" "sn_schema sn = t" "snapshot_rows R sn = rows"
    using src by (auto simp: source_ok_def)
  have "ended_agrees lim clock (Inl e) (feed (collect_sink cap) ([], 0) (snapshot_out S plan R sn))"
    using scan_partition_agrees [OF X _ s R(1,2) g, of plan "collect_sink cap" "([], 0)"] plan R(3) run by simp
  then show ?thesis using feed_collect [of cap "[]" 0 "snapshot_out S plan R sn"] by auto
qed

section \<open>All partitions\<close>

definition collecting :: "exec_lib \<Rightarrow> fs_store \<Rightarrow> physical_plan \<Rightarrow> nat option \<Rightarrow> budget \<Rightarrow> partition_snapshot \<Rightarrow> (budget \<times> batch list) result" where
  "collecting X s plan cap g sn = rmap (\<lambda>(g, bs, _). (g, bs)) (scan_partition X s plan (collect_sink cap) g ([], 0) sn)"

lemma partitions_collected:
  assumes X: "exec_ok S L X" and s: "store_ok s" and plan: "plan_fits plan t"
    and src: "list_all2 (source_ok L s t) sns rss" and g: "budget_of lim clock g"
  shows "case run_per_partition (collecting X s plan cap) g sns of
      Inl e \<Rightarrow> limit_hit lim clock e
    | Inr (g', bss) \<Rightarrow> budget_of lim clock g' \<and> list_all2 (collected S plan t cap) bss rss"
  using src g
proof (induction sns rss arbitrary: g rule: list_all2_induct)
  case Nil
  then show ?case by simp
next
  case (Cons sn sns rows rss)
  show ?case
  proof (cases "scan_partition X s plan (collect_sink cap) g ([], 0) sn")
    case (Inl e)
    then show ?thesis using scan_limited [OF X s plan Cons.hyps(1) Cons.prems Inl] by (simp add: collecting_def)
  next
    case (Inr y)
    obtain g1 bs n where y: "y = (g1, bs, n)" by (cases y)
    have one: "budget_of lim clock g1" "collected S plan t cap bs rows"
      using scan_collected [OF X s plan Cons.hyps(1) Cons.prems Inr [unfolded y]] by simp_all
    show ?thesis using Cons.IH [of g1] Inr one
      by (auto simp: collecting_def y split: sum.splits)
  qed
qed

lemma collected_front:
  assumes "list_all2 (collected S plan t (Some c)) bss rss"
  shows "take c (concat (map brows (concat bss))) = take c (scanned S plan t (concat rss))"
proof -
  have "list_all2 (\<lambda>p f. \<exists>k. p = take k f \<and> (k < length f \<longrightarrow> c \<le> length p))
      (map (\<lambda>bs. concat (map brows bs)) bss) (map (scanned S plan t) rss)"
    unfolding list_all2_map1 list_all2_map2 using assms by (rule list_all2_mono) (auto simp: collected_def)
  then have "take c (concat (map (\<lambda>bs. concat (map brows bs)) bss)) = take c (concat (map (scanned S plan t) rss))"
    by (rule front_concat)
  moreover have "concat (map brows (concat bss)) = concat (map (\<lambda>bs. concat (map brows bs)) bss)" by (induction bss) simp_all
  ultimately show ?thesis by (simp add: scanned_concat)
qed

lemma collected_all:
  assumes "list_all2 (collected S plan t None) bss rss"
  shows "concat (map brows (concat bss)) = scanned S plan t (concat rss)"
  using assms
proof (induction rule: list_all2_induct)
  case (Cons bs bss rows rss)
  then show ?case by (auto simp: collected_def)
qed (simp add: scanned_def)

section \<open>The combined batch\<close>

definition select_shape :: "physical_plan \<Rightarrow> bool" where
  "select_shape p \<longleftrightarrow> pp_aggregate p = None \<and> out_names (pp_output p) \<noteq> [] \<and> distinct (out_names (pp_output p)) \<and>
     so_column ` set (pp_sort p) \<subseteq> set (out_names (pp_output p)) \<and>
     (case pp_rename p of
        None \<Rightarrow> set (out_names (pp_output p)) \<subseteq> set (pp_projection p)
      | Some m \<Rightarrow> out_names (pp_output p) = map snd m \<and> set (map fst m) \<subseteq> set (pp_projection p))"

lemma fields_of_names: "set ns \<subseteq> set (column_names t) \<Longrightarrow> map f_name (fields_of t ns) = ns"
proof -
  assume "set ns \<subseteq> set (column_names t)"
  then have "f_name (arrow_field (the (column t n))) = n" if "n \<in> set ns" for n
    using that column_names_exist find_Some_set [of "\<lambda>c. col_name c = n" "columns t"]
    by (fastforce simp: column_def arrow_field_def)
  then show ?thesis by (simp add: fields_of_def map_idI)
qed

lemma projected_envs:
  assumes "set ns \<subseteq> set (column_names t)"
  shows "row_envs \<lparr>bfields = fields_of t ns, brows = map (project_row t ns) rs\<rparr> = map (\<lambda>r. restrict_env ns (row_env t r)) rs"
proof -
  have "batch_env \<lparr>bfields = fields_of t ns, brows = bs\<rparr> (project_row t ns r) n = restrict_env ns (row_env t r) n" for bs r n
  proof (cases "n \<in> set ns")
    case True
    have "\<forall>n \<in> set ns. column t n \<noteq> None" using assms column_names_exist by blast
    then show ?thesis using projected_env(1) [OF True] True by (simp add: restrict_env_def)
  next
    case False
    then have "position (\<lambda>f. f_name f = n) (fields_of t ns) = None"
      using arg_cong [OF fields_of_names [OF assms], of set] by (auto simp: position_None)
    then show ?thesis using False by (simp add: batch_env_def index_of_def restrict_env_def)
  qed
  then show ?thesis by (simp add: row_envs_def fun_eq_iff)
qed

lemma scanned_envs:
  assumes "plan_fits plan t"
  shows "row_envs \<lparr>bfields = fields_of t (pp_projection plan), brows = scanned S plan t rows\<rparr> =
    filtered S (pp_filter plan) (map (restrict_env (pp_projection plan)) (map (row_env t) rows))"
proof -
  let ?ns = "pp_projection plan"
  have ns: "set ?ns \<subseteq> set (column_names t)" and p: "opt_columns (pp_filter plan) \<subseteq> set ?ns"
    using assms by (auto simp: plan_fits_def opt_columns_def split: option.splits)
  have "row_envs \<lparr>bfields = fields_of t ?ns, brows = scanned S plan t rows\<rparr> =
      map (restrict_env ?ns) (map (row_env t) (filter (accepts S plan t) rows))"
    using projected_envs [OF ns] by (simp add: scanned_def)
  also have "map (row_env t) (filter (accepts S plan t) rows) = filtered S (pp_filter plan) (map (row_env t) rows)"
    by (cases "pp_filter plan") (simp_all add: filtered_def accepts_def [abs_def] filter_map comp_def)
  finally show ?thesis by (simp only: filtered_restrict [OF p])
qed

text \<open>What \<open>run_scan\<close> returns: a prefix of the accepted rows, all of them unless the plan streams a limit.\<close>

definition stream_cap :: "physical_plan \<Rightarrow> nat option" where
  "stream_cap plan = (if is_streaming_limit plan then fetch_rows plan else None)"

definition combined :: "sql_lib \<Rightarrow> physical_plan \<Rightarrow> table_schema \<Rightarrow> row list \<Rightarrow> batch \<Rightarrow> bool" where
  "combined S plan t rows b \<longleftrightarrow> batch_ok b \<and>
     (if brows b = [] then map f_name (bfields b) = out_names (pp_output plan) else bfields b = fields_of t (pp_projection plan)) \<and>
     (case stream_cap plan of None \<Rightarrow> brows b = scanned S plan t rows | Some c \<Rightarrow> take c (brows b) = take c (scanned S plan t rows))"

lemma concat_or_empty_eq:
  assumes A: "arrow_ok (xl_arrow X)" and bs: "list_all (scan_batch plan t) bs" and out: "out_names (pp_output plan) \<noteq> []"
  obtains b where "concat_or_empty X plan bs = Inr b" "batch_ok b" "brows b = concat (map brows bs)"
    "if brows b = [] then map f_name (bfields b) = out_names (pp_output plan) else bfields b = fields_of t (pp_projection plan)"
proof (cases bs)
  case Nil
  let ?b = "\<lparr>bfields = map (\<lambda>m. out_field (cm_nullable m) m) (pp_output plan), brows = []\<rparr>"
  have "concat_or_empty X plan bs = Inr ?b" using Nil by (simp add: concat_or_empty_def)
  then show ?thesis by (rule that) (use Nil out in \<open>simp_all add: batch_ok_def out_names_def out_field_def comp_def\<close>)
next
  case (Cons b cs)
  have all: "batch_ok c \<and> bfields c = fields_of t (pp_projection plan) \<and> brows c \<noteq> []" if "c \<in> set bs" for c
    using bs that by (auto simp: list_all_iff scan_batch_def)
  show ?thesis
  proof (cases cs)
    case Nil
    then show ?thesis using that [of b] Cons all [of b] by (simp add: concat_or_empty_def)
  next
    case (Cons c ds)
    have f: "bfields b = fields_of t (pp_projection plan)" using all [of b] \<open>bs = b # cs\<close> by simp
    have "concat_batches (xl_arrow X) (bfields b) bs = Inr \<lparr>bfields = bfields b, brows = concat (map brows bs)\<rparr>"
      by (rule arrow_concat [OF A]) (use all f \<open>bs = b # cs\<close> in auto)
    moreover have "concat_or_empty X plan bs = concat_batches (xl_arrow X) (bfields b) bs"
      using Cons \<open>bs = b # cs\<close> by (simp add: concat_or_empty_def)
    moreover have "batch_ok \<lparr>bfields = bfields b, brows = concat (map brows bs)\<rparr>"
    proof -
      have "row_ok (bfields b) r" if c: "c \<in> set bs" "r \<in> set (brows c)" for c r
      proof -
        have "batch_ok c" "bfields c = bfields b" using all [OF c(1)] f by simp_all
        then show ?thesis using c(2) by (auto simp: batch_ok_def list_all_iff)
      qed
      moreover have "bfields b \<noteq> []" using all [of b] \<open>bs = b # cs\<close> by (auto simp: batch_ok_def)
      ultimately show ?thesis by (auto simp: batch_ok_def list_all_iff)
    qed
    moreover have "brows b \<noteq> []" using all [of b] \<open>bs = b # cs\<close> by simp
    ultimately show ?thesis using that f \<open>bs = b # cs\<close> by simp
  qed
qed

lemma run_scan_combined:
  assumes X: "exec_ok S L X" and s: "store_ok s" and plan: "plan_fits plan t" and out: "out_names (pp_output plan) \<noteq> []"
    and src: "list_all2 (source_ok L s t) sns rss" and g: "budget_of lim clock g"
  shows "case run_scan X s plan g sns of
      Inl e \<Rightarrow> limit_hit lim clock e
    | Inr (g', b) \<Rightarrow> budget_of lim clock g' \<and> combined S plan t (concat rss) b"
proof -
  let ?cap = "stream_cap plan"
  have A: "arrow_ok (xl_arrow X)" using X by (simp add: exec_ok_def storage_ok_def)
  have eq: "run_scan X s plan g sns = rbind (run_per_partition (collecting X s plan ?cap) g sns) (\<lambda>(g, bss).
      rbind (check_deadline g) (\<lambda>g. rmap (Pair g) (concat_or_empty X plan (concat bss))))"
    by (simp add: run_scan_def stream_cap_def collecting_def [abs_def])
  show ?thesis
  proof (cases "run_per_partition (collecting X s plan ?cap) g sns")
    case (Inl e)
    then show ?thesis using partitions_collected [OF X s plan src g, where cap = ?cap] by (simp add: eq)
  next
    case (Inr y)
    obtain g1 bss where y: "y = (g1, bss)" by (cases y)
    have c: "budget_of lim clock g1" "list_all2 (collected S plan t ?cap) bss rss"
      using partitions_collected [OF X s plan src g, where cap = ?cap] Inr y by simp_all
    show ?thesis
    proof (cases "check_deadline g1")
      case (Inl e)
      then show ?thesis using Inr y check_deadline_cases(1) [OF c(1)] by (auto simp: eq)
    next
      case (Inr g2)
      have l: "list_all (scan_batch plan t) (concat bss)"
        using c(2) by (induction rule: list_all2_induct) (auto simp: collected_def)
      obtain b where b: "concat_or_empty X plan (concat bss) = Inr b" "batch_ok b" "brows b = concat (map brows (concat bss))"
          "if brows b = [] then map f_name (bfields b) = out_names (pp_output plan) else bfields b = fields_of t (pp_projection plan)"
        using concat_or_empty_eq [OF A l out] by blast
      have "combined S plan t (concat rss) b"
      proof (cases ?cap)
        case None
        then have "brows b = scanned S plan t (concat rss)" using b(3) c(2) collected_all by simp
        then show ?thesis using b(2,4) None by (simp only: combined_def option.case simp_thms)
      next
        case (Some k)
        then have "take k (brows b) = take k (scanned S plan t (concat rss))" using b(3) c(2) collected_front by simp
        then show ?thesis using b(2,4) Some by (simp only: combined_def option.case simp_thms)
      qed
      moreover have "budget_of lim clock g2" by (rule check_deadline_cases(2) [OF c(1) Inr])
      ultimately show ?thesis using Inr y b(1) \<open>run_per_partition (collecting X s plan ?cap) g sns = Inr y\<close> by (simp add: eq)
    qed
  qed
qed

section \<open>After the scan\<close>

lemma take_window:
  assumes "length xs \<le> usize_max"
  shows "take n (drop k (take (saturating_add n k) xs)) = take n (drop k xs)"
proof -
  have "take n (drop k (take m xs)) = take n (drop k xs)" if "n + k \<le> m \<or> length xs \<le> m" for m
    using that by (auto simp: drop_take min_def)
  then show ?thesis using assms by (simp add: saturating_add_def min_def)
qed

text \<open>The rows the pipeline sorts.\<close>

definition unsorted :: "sql_lib \<Rightarrow> physical_plan \<Rightarrow> env list \<Rightarrow> env list" where
  "unsorted S p es = renamed (pp_rename p) (filtered S (pp_filter p) (map (restrict_env (pp_projection p)) es))"

lemma select_pipeline:
  "pp_aggregate p = None \<Longrightarrow> pipeline S F p es = window (pp_limit p) (pp_offset p) ` sort_answers (pp_sort p) (unsorted S p es)"
  by (simp add: pipeline_def unsorted_def aggregated_def)

lemma unsorted_length: "length (unsorted S p es) \<le> length es"
  by (auto simp: unsorted_def renamed_def filtered_def intro: le_trans [OF length_filter_le] split: option.split)

lemma rename_combined:
  assumes X: "arrow_ok (xl_arrow X)" and plan: "plan_fits plan t" "select_shape plan" and b: "combined S plan t rows b"
  obtains b' where "apply_rename X plan b = Inr b'" "batch_ok b'" "set (out_names (pp_output plan)) \<subseteq> set (map f_name (bfields b'))"
    "case stream_cap plan of
       None \<Rightarrow> row_envs b' = unsorted S plan (map (row_env t) rows)
     | Some c \<Rightarrow> take c (row_envs b') = take c (unsorted S plan (map (row_env t) rows))"
proof -
  let ?ns = "pp_projection plan" and ?E = "unsorted S plan (map (row_env t) rows)"
  let ?B = "\<lambda>rs. \<lparr>bfields = fields_of t ?ns, brows = rs\<rparr>"
  have ns: "set ?ns \<subseteq> set (column_names t)" using plan(1) by (simp add: plan_fits_def)
  have ok: "batch_ok b" using b by (simp add: combined_def)
  have E: "?E = renamed (pp_rename plan) (row_envs (?B (scanned S plan t rows)))"
    using scanned_envs [OF plan(1), of S rows] by (simp add: unsorted_def)
  have tk: "take c (renamed (pp_rename plan) (row_envs (?B rs))) = renamed (pp_rename plan) (row_envs (?B (take c rs)))" for c rs
    by (simp add: renamed_def row_envs_def take_map batch_env_def [abs_def] index_of_def split: option.split)
  have pre: "case stream_cap plan of None \<Rightarrow> renamed (pp_rename plan) (row_envs (?B (brows b))) = ?E
      | Some c \<Rightarrow> take c (renamed (pp_rename plan) (row_envs (?B (brows b)))) = take c ?E"
    using b by (simp add: E tk combined_def split: option.splits)
  show ?thesis
  proof (cases "brows b = []")
    case True
    then have names: "map f_name (bfields b) = out_names (pp_output plan)" using b by (simp add: combined_def)
    have "length (bfields b) = length (pp_output plan)" using arg_cong [OF names, of length] by (simp add: out_names_def)
    then have "apply_rename X plan b = Inr b"
      using True by (simp add: apply_rename_def num_rows_def num_columns_def split: option.split)
    moreover have eq: "row_envs b = renamed (pp_rename plan) (row_envs (?B (brows b)))"
      using True by (simp add: row_envs_def renamed_def split: option.split)
    ultimately show ?thesis using that [OF _ ok _ pre [folded eq]] names by simp
  next
    case False
    then have f: "bfields b = fields_of t ?ns" using b by (simp add: combined_def)
    then have bB: "b = ?B (brows b)" by simp
    have names: "map f_name (bfields b) = ?ns" using fields_of_names [OF ns] f by simp
    show ?thesis
    proof (cases "pp_rename plan")
      case None
      then have "apply_rename X plan b = Inr b" by (simp add: apply_rename_def)
      moreover have eq: "row_envs b = renamed (pp_rename plan) (row_envs (?B (brows b)))"
        unfolding None renamed_def option.case by (rule arg_cong [OF bB])
      ultimately show ?thesis using that [OF _ ok _ pre [folded eq]] names plan(2) None by (simp add: select_shape_def)
    next
      case (Some m)
      then have m: "out_names (pp_output plan) = map snd m" "set (map fst m) \<subseteq> set ?ns" "m \<noteq> []"
        using plan(2) by (auto simp: select_shape_def)
      obtain b' where b': "apply_rename X plan b = Inr b'" "batch_ok b'" "map f_name (bfields b') = map snd m"
          "row_envs b' = map (rename_env m) (row_envs b)"
        using rename_columns [OF X ok Some m(3)] m(2) names False by (auto simp: num_rows_def)
      have eq: "row_envs b' = renamed (pp_rename plan) (row_envs (?B (brows b)))"
        unfolding Some renamed_def option.case b'(4) by (rule arg_cong [OF bB])
      show ?thesis using that [OF b'(1,2) _ pre [folded eq]] b'(3) m(1) by simp
    qed
  qed
qed

section \<open>The whole query\<close>

definition answered :: "sql_lib \<Rightarrow> agg_lib \<Rightarrow> physical_plan \<Rightarrow> query_limits \<Rightarrow> (nat \<Rightarrow> nat) \<Rightarrow> env list \<Rightarrow> query_result result \<Rightarrow> bool" where
  "answered S F p lim clock es r \<longleftrightarrow>
     (case r of
        Inl e \<Rightarrow> limit_hit lim clock e
      | Inr q \<Rightarrow> \<exists>out \<in> pipeline S F p es.
          map f_name (bfields (qr_batch q)) = out_names (pp_output p) \<and>
          brows (qr_batch q) = rendered (out_names (pp_output p)) (budgeted lim (pp_limit p) out) \<and>
          qr_warnings q = (if pp_limit p = None \<and> max_rows lim < length out then [ResultTruncated (max_rows lim)] else []))"

text \<open>What follows the scan, the aggregate and the renaming.\<close>

definition conclude :: "exec_lib \<Rightarrow> physical_plan \<Rightarrow> budget \<Rightarrow> batch \<Rightarrow> query_result result" where
  "conclude X plan g b =
     rbind (sort_batch X b (pp_sort plan) (fetch_rows plan)) (\<lambda>sorted_b.
     let (g, limited) = apply_offset_limit X plan g sorted_b in
     rbind (align_output X (pp_output plan) limited) (\<lambda>aligned.
     Inr \<lparr>qr_batch = aligned, qr_stats = (budget_stats g)\<lparr>es_rows_returned := num_rows aligned\<rparr>,
          qr_warnings = (if bg_truncated g then [ResultTruncated (max_rows (bg_limits g))] else [])\<rparr>))"

lemma execute_conclude:
  assumes "try_metadata_count X plan sns = Inr None"
  shows "execute X s clock plan sns lim =
    rbind (case pp_aggregate plan of Some sp \<Rightarrow> run_aggregate X s plan sp (new_budget clock lim) sns | None \<Rightarrow> run_scan X s plan (new_budget clock lim) sns) (\<lambda>(g, combined).
    rbind (apply_rename X plan combined) (\<lambda>b. rbind (check_deadline g) (\<lambda>g. conclude X plan g b)))"
  using assms by (simp add: execute_def execute_with_budget_def conclude_def)

lemma conclude_answers:
  assumes A: "arrow_ok (xl_arrow X)" "lexsort_ok X" and g: "budget_of lim clock g"
    and out: "out_names (pp_output plan) \<noteq> []" "distinct (out_names (pp_output plan))" "so_column ` set (pp_sort plan) \<subseteq> set (out_names (pp_output plan))"
    and b: "batch_ok b" "set (out_names (pp_output plan)) \<subseteq> set (map f_name (bfields b))"
    and rows: "case stream_cap plan of None \<Rightarrow> row_envs b = E | Some c \<Rightarrow> take c (row_envs b) = take c E" and small: "length E \<le> usize_max"
  obtains q full where "conclude X plan g b = Inr q" "full \<in> sort_answers (pp_sort plan) E"
    "map f_name (bfields (qr_batch q)) = out_names (pp_output plan)"
    "brows (qr_batch q) = rendered (out_names (pp_output plan)) (budgeted lim (pp_limit plan) (window (pp_limit plan) (pp_offset plan) full))"
    "qr_warnings q = (if pp_limit plan = None \<and> max_rows lim < length (window (pp_limit plan) (pp_offset plan) full) then [ResultTruncated (max_rows lim)] else [])"
proof -
  let ?out = "pp_output plan"
  have g2: "bg_limits g = lim" "\<not> bg_truncated g" using g by (simp_all add: budget_of_def)
  obtain b2 out0 where b2: "sort_batch X b (pp_sort plan) (fetch_rows plan) = Inr b2" "batch_ok b2" "bfields b2 = bfields b"
      "out0 \<in> sort_answers (pp_sort plan) (row_envs b)" "row_envs b2 = front (fetch_rows plan) out0"
    using sort_columns [OF A b(1), of "pp_sort plan" "fetch_rows plan"] out(3) b(2) by blast
  obtain full where full: "full \<in> sort_answers (pp_sort plan) E" "front (fetch_rows plan) out0 = front (fetch_rows plan) full"
  proof (cases "stream_cap plan")
    case None
    then show ?thesis using that [of out0] b2(4) rows by simp
  next
    case (Some c)
    then have c: "fetch_rows plan = Some c" "pp_sort plan = []" by (auto simp: stream_cap_def is_streaming_limit_def split: if_splits)
    then show ?thesis using that [of E] b2(4) rows Some by (simp add: sort_answers_def front_def)
  qed
  have "mset full = mset E" using full(1) by (auto simp: sort_answers_def split: if_splits)
  then have len: "length full \<le> usize_max" using small by (metis size_mset)
  have win: "window (pp_limit plan) (pp_offset plan) (row_envs b2) = window (pp_limit plan) (pp_offset plan) full"
    using b2(5) full(2) take_window [OF len] by (simp add: window_def fetch_rows_def front_def split: option.splits)
  obtain g3 b3 where b3: "apply_offset_limit X plan g b2 = (g3, b3)" "batch_ok b3" "bfields b3 = bfields b2"
      "row_envs b3 = budgeted lim (pp_limit plan) (window (pp_limit plan) (pp_offset plan) full)" "bg_limits g3 = lim"
      "bg_truncated g3 \<longleftrightarrow> pp_limit plan = None \<and> max_rows lim < length (window None (pp_offset plan) (row_envs b2))"
    using offset_limit_columns [OF A(1) b2(2), of plan g] win g2 by metis
  have tr: "bg_truncated g3 \<longleftrightarrow> pp_limit plan = None \<and> max_rows lim < length (window (pp_limit plan) (pp_offset plan) full)"
    using b3(6) win by auto
  obtain b4 where b4: "align_output X ?out b3 = Inr b4" "map f_name (bfields b4) = out_names ?out"
      "brows b4 = rendered (out_names ?out) (row_envs b3)"
    using align_columns [OF A(1) b3(2) out(1) _ out(2)] b(2) b2(3) b3(3) by metis
  let ?q = "\<lparr>qr_batch = b4, qr_stats = (budget_stats g3)\<lparr>es_rows_returned := num_rows b4\<rparr>,
    qr_warnings = (if bg_truncated g3 then [ResultTruncated (max_rows lim)] else [])\<rparr>"
  have ex: "conclude X plan g b = Inr ?q" using b2(1) b3(1,5) b4(1) by (simp add: conclude_def)
  show ?thesis by (rule that [OF ex full(1)]) (use b4 b3(4) tr in simp_all)
qed

lemma execute_select:
  assumes X: "exec_ok S L X" "lexsort_ok X" and s: "store_ok s" and plan: "plan_fits plan t" "select_shape plan"
    and src: "list_all2 (source_ok L s t) sns rss" and small: "length (concat rss) \<le> usize_max"
  shows "answered S F plan lim clock (map (row_env t) (concat rss)) (execute X s clock plan sns lim)"
proof -
  let ?E = "unsorted S plan (map (row_env t) (concat rss))" and ?out = "pp_output plan"
  let ?g = "new_budget clock lim"
  have A: "arrow_ok (xl_arrow X)" using X(1) by (simp add: exec_ok_def storage_ok_def)
  have agg: "pp_aggregate plan = None" and out: "out_names ?out \<noteq> []" "distinct (out_names ?out)" "so_column ` set (pp_sort plan) \<subseteq> set (out_names ?out)"
    using plan(2) by (simp_all add: select_shape_def)
  have "try_metadata_count X plan sns = Inr None" by (simp add: try_metadata_count_def agg)
  note ex = execute_conclude [OF this, of s clock lim, unfolded agg option.case]
  note run = run_scan_combined [OF X(1) s plan(1) out(1) src new_budget_of [of lim clock]]
  show ?thesis
  proof (cases "run_scan X s plan ?g sns")
    case (Inl e)
    then show ?thesis using run by (simp add: answered_def ex)
  next
    case (Inr y)
    obtain g1 b where y: "y = (g1, b)" by (cases y)
    then have b: "budget_of lim clock g1" "combined S plan t (concat rss) b" using run Inr by simp_all
    obtain b1 where b1: "apply_rename X plan b = Inr b1" "batch_ok b1" "set (out_names ?out) \<subseteq> set (map f_name (bfields b1))"
        "case stream_cap plan of None \<Rightarrow> row_envs b1 = ?E | Some c \<Rightarrow> take c (row_envs b1) = take c ?E"
      using rename_combined [OF A plan b(2)] by blast
    show ?thesis
    proof (cases "check_deadline g1")
      case (Inl e)
      then show ?thesis using \<open>run_scan X s plan ?g sns = Inr y\<close> y b1(1) check_deadline_cases(1) [OF b(1)] by (simp add: answered_def ex)
    next
      case (Inr g2)
      have len: "length ?E \<le> usize_max" using unsorted_length [of S plan "map (row_env t) (concat rss)"] small by simp
      obtain q full where q: "conclude X plan g2 b1 = Inr q" "full \<in> sort_answers (pp_sort plan) ?E"
          "map f_name (bfields (qr_batch q)) = out_names ?out"
          "brows (qr_batch q) = rendered (out_names ?out) (budgeted lim (pp_limit plan) (window (pp_limit plan) (pp_offset plan) full))"
          "qr_warnings q = (if pp_limit plan = None \<and> max_rows lim < length (window (pp_limit plan) (pp_offset plan) full) then [ResultTruncated (max_rows lim)] else [])"
        using conclude_answers [OF A X(2) check_deadline_cases(2) [OF b(1) Inr] out b1(2-4) len] by blast
      have "execute X s clock plan sns lim = Inr q"
        using \<open>run_scan X s plan ?g sns = Inr y\<close> y b1(1) Inr q(1) by (simp add: ex)
      moreover have "window (pp_limit plan) (pp_offset plan) full \<in> pipeline S F plan (map (row_env t) (concat rss))"
        using q(2) by (simp add: select_pipeline [OF agg])
      ultimately show ?thesis unfolding answered_def using q(3-5) by auto
    qed
  qed
qed

end
