(* ===== verification/AggProps.thy ===== *)
theory AggProps
  imports SelectAnswers
begin

text \<open>
  Aggregation in parts: the partial results of the partitions, merged in partition order, are the
  result of going through all rows once. This holds for the aggregates whose states merge exactly:
  count, min, max, and integer sums that do not overflow; not for sums of floats and averages, which
  round, and not for sums that overflow, which the code saturates or wraps depending on the path.
\<close>

section \<open>States that merge\<close>

locale mergeable =
  fixes init :: 's
    and upd :: "'s \<Rightarrow> 'a \<Rightarrow> 's"
    and merge :: "'s \<Rightarrow> 's \<Rightarrow> 's result"
    and exact :: "'a list \<Rightarrow> bool"
  assumes exact_part: "exact (xs @ ys) \<Longrightarrow> exact xs \<and> exact ys"
    and merge_init: "exact xs \<Longrightarrow> merge (foldl upd init xs) init = Inr (foldl upd init xs)"
    and merge_step: "exact (xs @ ys @ [y]) \<Longrightarrow>
      merge (foldl upd init xs) (foldl upd init (ys @ [y])) = rmap (\<lambda>s. upd s y) (merge (foldl upd init xs) (foldl upd init ys))"
begin

lemma merge_runs: "exact (xs @ ys) \<Longrightarrow> merge (foldl upd init xs) (foldl upd init ys) = Inr (foldl upd init (xs @ ys))"
proof (induction ys rule: rev_induct)
  case Nil
  then show ?case using merge_init [of xs] by simp
next
  case (snoc y ys)
  have "exact (xs @ ys)" using exact_part [of "xs @ ys" "[y]"] snoc.prems by simp
  then have "merge (foldl upd init xs) (foldl upd init ys) = Inr (foldl upd init (xs @ ys))" by (rule snoc.IH)
  then show ?case unfolding merge_step [OF snoc.prems] by simp
qed

lemma merge_parts: "exact (xs @ concat xss) \<Longrightarrow>
  foldM merge (foldl upd init xs) (map (foldl upd init) xss) = Inr (foldl upd init (xs @ concat xss))"
proof (induction xss arbitrary: xs)
  case (Cons ys xss)
  have "merge (foldl upd init xs) (foldl upd init ys) = Inr (foldl upd init (xs @ ys))"
    by (rule merge_runs) (use exact_part [of "xs @ ys" "concat xss"] Cons.prems in simp)
  then show ?case using Cons.IH [of "xs @ ys"] Cons.prems by simp
qed simp

end

section \<open>The aggregates that merge exactly\<close>

definition int_part :: "adb_value option \<Rightarrow> int" where
  "int_part v = (case opt_value as_i64 v of Some i \<Rightarrow> sint i | None \<Rightarrow> 0)"

fun agg_exact :: "aggregate_func \<Rightarrow> data_type option \<Rightarrow> adb_value option list \<Rightarrow> bool" where
  "agg_exact FCount ty vs \<longleftrightarrow> True"
| "agg_exact FSum ty vs \<longleftrightarrow> ty = Some DInt64 \<and> sum_list (map (\<lambda>v. \<bar>int_part v\<bar>) vs) \<le> i64_max"
| "agg_exact FAvg ty vs \<longleftrightarrow> False"
| "agg_exact FMin ty vs \<longleftrightarrow> (\<exists>d. \<forall>v \<in> set vs. \<forall>w. v = Some w \<longrightarrow> fits d w)"
| "agg_exact FMax ty vs \<longleftrightarrow> (\<exists>d. \<forall>v \<in> set vs. \<forall>w. v = Some w \<longrightarrow> fits d w)"

lemma sum_list_nonneg: "(\<And>x. x \<in> set xs \<Longrightarrow> 0 \<le> f x) \<Longrightarrow> (0 :: int) \<le> sum_list (map f xs)"
  by (induction xs) auto

lemma sum_list_filter_le: "(\<And>x. 0 \<le> f x) \<Longrightarrow> sum_list (map f (filter P xs)) \<le> (sum_list (map f xs) :: int)"
  by (induction xs) (auto intro: order_trans)

lemma abs_sum_list: "\<bar>sum_list (map f xs)\<bar> \<le> (sum_list (map (\<lambda>x. \<bar>f x\<bar>) xs) :: int)"
  by (induction xs) auto

lemma agg_exact_part: "agg_exact f ty (xs @ ys) \<Longrightarrow> agg_exact f ty xs \<and> agg_exact f ty ys"
  using sum_list_nonneg [of xs "\<lambda>v. \<bar>int_part v\<bar>"] sum_list_nonneg [of ys "\<lambda>v. \<bar>int_part v\<bar>"]
  by (cases f) auto

lemma agg_exact_filter: "agg_exact f ty (map g xs) \<Longrightarrow> agg_exact f ty (map g (filter P xs))"
  using sum_list_filter_le [of "\<lambda>x. \<bar>int_part (g x)\<bar>" P xs] by (cases f) (auto simp: comp_def)

subsection \<open>Minimum and maximum\<close>

definition pick :: "(adb_value \<Rightarrow> adb_value \<Rightarrow> bool) \<Rightarrow> adb_value option \<Rightarrow> adb_value option \<Rightarrow> adb_value option" where
  "pick lt cur v = (case v of None \<Rightarrow> cur | Some w \<Rightarrow> (case cur of None \<Rightarrow> Some w | Some c \<Rightarrow> if lt w c then Some w else cur))"

definition picked :: "(adb_value \<Rightarrow> adb_value \<Rightarrow> bool) \<Rightarrow> adb_value option list \<Rightarrow> adb_value option" where
  "picked lt vs = foldl (pick lt) None (filter (\<lambda>v. v \<noteq> Some VNull) vs)"

lemma keep_pick: "keep_min cur v = pick (\<lambda>a b. value_cmp a b = Less) cur (Some v)"
  "keep_max cur v = pick (\<lambda>a b. value_cmp a b = Greater) cur (Some v)"
  by (simp_all add: keep_min_def keep_max_def pick_def split: option.splits)

lemma min_runs: "foldl agg_update (AMin cur) vs = AMin (foldl (pick (\<lambda>a b. value_cmp a b = Less)) cur (filter (\<lambda>v. v \<noteq> Some VNull) vs))"
proof (induction vs arbitrary: cur)
  case (Cons v vs)
  then show ?case by (cases v) (auto simp: keep_pick pick_def is_null_iff split: option.splits)
qed simp

lemma max_runs: "foldl agg_update (AMax cur) vs = AMax (foldl (pick (\<lambda>a b. value_cmp a b = Greater)) cur (filter (\<lambda>v. v \<noteq> Some VNull) vs))"
proof (induction vs arbitrary: cur)
  case (Cons v vs)
  then show ?case by (cases v) (auto simp: keep_pick pick_def is_null_iff split: option.splits)
qed simp

lemma picked_fits: "\<forall>v \<in> set vs. \<forall>w. v = Some w \<longrightarrow> fits d w \<Longrightarrow> foldl (pick lt) cur vs = Some w \<Longrightarrow> (\<And>c. cur = Some c \<Longrightarrow> fits d c) \<Longrightarrow> fits d w"
proof (induction vs arbitrary: cur)
  case (Cons v vs)
  show ?case
    by (rule Cons.IH [of "pick lt cur v"]) (use Cons.prems in \<open>auto simp: pick_def split: option.splits if_splits\<close>)
qed simp

lemma runs_fit: "\<forall>v \<in> set vs. \<forall>w. v = Some w \<longrightarrow> fits d w \<Longrightarrow> foldl (pick lt) None (filter P vs) = Some w \<Longrightarrow> fits d w"
  by (rule picked_fits [of "filter P vs" d lt None]) auto

text \<open>Picking is associative on the values of one type.\<close>

lemma pick_assoc:
  assumes lt: "lt = (\<lambda>a b. value_cmp a b = Less) \<or> lt = (\<lambda>a b. value_cmp a b = Greater)"
    and fits: "\<And>w. a = Some w \<or> b = Some w \<or> y = Some w \<Longrightarrow> fits d w"
  shows "pick lt a (pick lt b y) = pick lt (pick lt a b) y"
proof (cases "a = None \<or> b = None \<or> y = None")
  case True
  then show ?thesis by (auto simp: pick_def split: option.splits)
next
  case False
  then obtain u v w where v: "a = Some u" "b = Some v" "y = Some w" by auto
  then have f: "fits d u" "fits d v" "fits d w" using fits by auto
  have trans: "lt w u" if "lt w v" "lt v u"
    using lt that value_order.cmp_trans [OF f(3,2,1)] value_order.cmp_trans [OF f] value_order.cmp_gt_iff [OF f(3,2)]
      value_order.cmp_gt_iff [OF f(2,1)] value_order.cmp_gt_iff [OF f(3,1)] by auto
  have skip: "\<not> lt w u" if "\<not> lt w v" "\<not> lt v u"
    using lt that value_order.le_trans [OF f] value_order.le_trans [OF f(3,2,1)] value_order.not_less_iff [OF f(3,2)]
      value_order.not_less_iff [OF f(2,1)] value_order.not_less_iff [OF f(3,1)] by auto
  show ?thesis using trans skip by (auto simp: v pick_def)
qed

subsection \<open>Integer sums\<close>

lemma saturating_add_exact:
  "i64_min \<le> sint a + sint b \<Longrightarrow> sint a + sint b \<le> i64_max \<Longrightarrow> saturating_add_i64 a b = a + b"
  by (simp add: saturating_add_i64_def)

definition int_sum :: "adb_value option list \<Rightarrow> int" where
  "int_sum vs = sum_list (map int_part vs)"

definition some_int :: "adb_value option list \<Rightarrow> bool" where
  "some_int vs \<longleftrightarrow> (\<exists>v \<in> set vs. opt_value as_i64 v \<noteq> None)"

lemma int_sum_simps [simp]: "int_sum [] = 0" "int_sum (xs @ ys) = int_sum xs + int_sum ys" "int_sum [v] = int_part v"
  by (simp_all add: int_sum_def)

lemma some_int_simps [simp]: "\<not> some_int []" "some_int (xs @ ys) \<longleftrightarrow> some_int xs \<or> some_int ys" "some_int [v] \<longleftrightarrow> opt_value as_i64 v \<noteq> None"
  by (auto simp: some_int_def)

lemma int_sum_bound: "agg_exact FSum ty vs \<Longrightarrow> \<bar>int_sum vs\<bar> \<le> i64_max"
  using abs_sum_list [of int_part vs] by (simp add: int_sum_def)

lemma i64_of_bounded: "\<bar>n\<bar> \<le> i64_max \<Longrightarrow> sint (word_of_int n :: i64) = n"
  using signed_take_bit_int_eq_self [of 63 n] by (simp add: i64_max_def signed_of_int abs_le_iff)

lemma saturating_add_sums:
  assumes "\<bar>m\<bar> \<le> i64_max" "\<bar>n\<bar> \<le> i64_max" "\<bar>m + n\<bar> \<le> i64_max"
  shows "saturating_add_i64 (word_of_int m) (word_of_int n) = word_of_int (m + n)"
  using assms saturating_add_exact [of "word_of_int m" "word_of_int n"]
  by (simp add: i64_of_bounded i64_min_def i64_max_def)

lemma sum_runs: "agg_exact FSum ty vs \<Longrightarrow> foldl agg_update (ASumInt 0 False) vs = ASumInt (word_of_int (int_sum vs)) (some_int vs)"
proof (induction vs rule: rev_induct)
  case (snoc v vs)
  have e: "agg_exact FSum ty vs" using agg_exact_part [OF snoc.prems] by simp
  have "\<bar>int_part v\<bar> \<le> i64_max" using int_sum_bound [of ty "[v]"] agg_exact_part [OF snoc.prems] by simp
  then show ?case
    using snoc.IH [OF e] int_sum_bound [OF e] int_sum_bound [OF snoc.prems] saturating_add_sums [of "int_sum vs" "int_part v"]
    by (cases "opt_value as_i64 v") (simp_all add: int_part_def)
qed simp

interpretation agg: mergeable "agg_new f ty" agg_update agg_merge "agg_exact f ty" for f ty
proof
  fix xs ys
  assume "agg_exact f ty (xs @ ys)"
  then show "agg_exact f ty xs \<and> agg_exact f ty ys" by (rule agg_exact_part)
next
  fix xs
  assume e: "agg_exact f ty xs"
  show "agg_merge (foldl agg_update (agg_new f ty) xs) (agg_new f ty) = Inr (foldl agg_update (agg_new f ty) xs)"
  proof (cases f)
    case FCount
    have "\<exists>n. foldl agg_update (ACount m) xs = ACount n" for m by (induction xs arbitrary: m) auto
    then show ?thesis using FCount by (metis add.right_neutral agg_merge.simps(1) agg_new.simps(1))
  next
    case FSum
    then have "agg_exact FSum ty xs" "ty = Some DInt64" using e by simp_all
    then show ?thesis using sum_runs saturating_add_sums [OF int_sum_bound, of ty xs 0] int_sum_bound [of ty xs]
      by (simp add: FSum i64_max_def)
  qed (use e in \<open>simp_all add: min_runs max_runs\<close>)
next
  fix xs ys y
  assume e: "agg_exact f ty (xs @ ys @ [y])"
  let ?run = "foldl agg_update (agg_new f ty)"
  show "agg_merge (?run xs) (?run (ys @ [y])) = rmap (\<lambda>s. agg_update s y) (agg_merge (?run xs) (?run ys))"
  proof (cases f)
    case FCount
    have "\<exists>n. foldl agg_update (ACount m) xs = ACount n" for m xs by (induction xs arbitrary: m) auto
    then obtain n m where "?run xs = ACount n" "?run ys = ACount m" using FCount by (metis agg_new.simps(1))
    then show ?thesis by simp
  next
    case FSum
    then have E: "agg_exact FSum ty (xs @ ys @ [y])" and ty: "ty = Some DInt64" using e by simp_all
    have E': "agg_exact FSum ty xs" "agg_exact FSum ty (ys @ [y])" "agg_exact FSum ty ys" "agg_exact FSum ty [y]" "agg_exact FSum ty (xs @ ys)"
      using agg_exact_part [OF E] agg_exact_part [of FSum ty ys "[y]"] agg_exact_part [of FSum ty "xs @ ys" "[y]"] E by (simp_all del: agg_exact.simps)
    note B = E [THEN int_sum_bound] E' [THEN int_sum_bound]
    show ?thesis
      using B saturating_add_sums [of "int_sum xs" "int_sum ys + int_part y"] saturating_add_sums [of "int_sum xs" "int_sum ys"]
        saturating_add_sums [of "int_sum xs + int_sum ys" "int_part y"]
      by (cases "opt_value as_i64 y")
        (simp_all add: FSum ty sum_runs [OF E'(1), unfolded ty] sum_runs [OF E'(2), unfolded ty] sum_runs [OF E'(3), unfolded ty]
          int_part_def add.assoc del: foldl_append)
  next
    case FAvg
    then show ?thesis using e by simp
  next
    case FMin
    then obtain d where d: "\<forall>v \<in> set (xs @ ys @ [y]). \<forall>w. v = Some w \<longrightarrow> fits d w" using e by auto
    let ?lt = "\<lambda>a b. value_cmp a b = Less" and ?nn = "filter (\<lambda>v. v \<noteq> Some VNull)"
    have fit: "fits d w" if "foldl (pick ?lt) None (?nn xs) = Some w \<or> foldl (pick ?lt) None (?nn ys) = Some w \<or> y = Some w" for w
      using that d runs_fit [of xs d ?lt "\<lambda>v. v \<noteq> Some VNull" w] runs_fit [of ys d ?lt "\<lambda>v. v \<noteq> Some VNull" w] by fastforce
    have "pick ?lt (foldl (pick ?lt) None (?nn xs)) (pick ?lt (foldl (pick ?lt) None (?nn ys)) y) =
        pick ?lt (pick ?lt (foldl (pick ?lt) None (?nn xs)) (foldl (pick ?lt) None (?nn ys))) y"
      by (rule pick_assoc [OF _ fit]) simp
    then show ?thesis by (cases y) (auto simp: FMin min_runs keep_pick pick_def is_null_iff split: option.splits)
  next
    case FMax
    then obtain d where d: "\<forall>v \<in> set (xs @ ys @ [y]). \<forall>w. v = Some w \<longrightarrow> fits d w" using e by auto
    let ?lt = "\<lambda>a b. value_cmp a b = Greater" and ?nn = "filter (\<lambda>v. v \<noteq> Some VNull)"
    have fit: "fits d w" if "foldl (pick ?lt) None (?nn xs) = Some w \<or> foldl (pick ?lt) None (?nn ys) = Some w \<or> y = Some w" for w
      using that d runs_fit [of xs d ?lt "\<lambda>v. v \<noteq> Some VNull" w] runs_fit [of ys d ?lt "\<lambda>v. v \<noteq> Some VNull" w] by fastforce
    have "pick ?lt (foldl (pick ?lt) None (?nn xs)) (pick ?lt (foldl (pick ?lt) None (?nn ys)) y) =
        pick ?lt (pick ?lt (foldl (pick ?lt) None (?nn xs)) (foldl (pick ?lt) None (?nn ys))) y"
      by (rule pick_assoc [OF _ fit]) simp
    then show ?thesis by (cases y) (auto simp: FMax max_runs keep_pick pick_def is_null_iff split: option.splits)
  qed
qed

section \<open>Groups\<close>

lemma first_occurrences_simps [simp]:
  "first_occurrences [] = []" "set (first_occurrences xs) = set xs" "distinct (first_occurrences xs)"
  "first_occurrences (xs @ [x]) = (if x \<in> set xs then first_occurrences xs else first_occurrences xs @ [x])"
  by (simp_all add: first_occurrences_def)

lemma first_occurrences_append: "first_occurrences (xs @ ys) = first_occurrences xs @ filter (\<lambda>y. y \<notin> set xs) (first_occurrences ys)"
proof (induction ys rule: rev_induct)
  case (snoc y ys)
  then show ?case using first_occurrences_simps(4) [of "xs @ ys" y] by (auto simp flip: append_assoc)
qed simp

lemma map_list_update:
  assumes "distinct ks" "i < length ks"
  shows "(map f ks)[i := y] = map (\<lambda>k. if k = ks ! i then y else f k) ks"
  using assms by (auto intro!: nth_equalityI simp: nth_list_update nth_eq_iff_index_eq)

definition key_of :: "agg_spec \<Rightarrow> env \<Rightarrow> adb_value list" where
  "key_of sp e = map e (as_group_by sp)"

definition arg_of :: "agg_expr \<Rightarrow> env \<Rightarrow> adb_value option" where
  "arg_of a e = map_option e (ag_column a)"

definition group_states :: "agg_spec \<Rightarrow> data_type option list \<Rightarrow> env list \<Rightarrow> agg_state list" where
  "group_states sp tys es = map2 (\<lambda>a ty. foldl agg_update (agg_new (ag_func a) ty) (map (arg_of a) es)) (as_aggregates sp) tys"

definition part_groups :: "agg_spec \<Rightarrow> data_type option list \<Rightarrow> env list \<Rightarrow> agg_group list" where
  "part_groups sp tys es = map (\<lambda>k. (k, group_states sp tys (filter (\<lambda>e. key_of sp e = k) es))) (first_occurrences (map (key_of sp) es))"

definition spec_exact :: "agg_spec \<Rightarrow> data_type option list \<Rightarrow> env list \<Rightarrow> bool" where
  "spec_exact sp tys es \<longleftrightarrow> list_all2 (\<lambda>a ty. agg_exact (ag_func a) ty (map (arg_of a) es)) (as_aggregates sp) tys"

lemma part_groups_Nil [simp]: "part_groups sp tys [] = []"
  by (simp add: part_groups_def)

lemma spec_exact_part: "spec_exact sp tys (xs @ ys) \<Longrightarrow> spec_exact sp tys xs \<and> spec_exact sp tys ys"
  unfolding spec_exact_def by (auto elim!: list_all2_mono dest: agg_exact_part)

lemma spec_exact_filter: "spec_exact sp tys es \<Longrightarrow> spec_exact sp tys (filter P es)"
  unfolding spec_exact_def by (auto elim!: list_all2_mono intro: agg_exact_filter)

lemma merge_group_states:
  "spec_exact sp tys (xs @ ys) \<Longrightarrow> merge_states (group_states sp tys xs) (group_states sp tys ys) = Inr (group_states sp tys (xs @ ys))"
proof -
  have "list_all2 (\<lambda>a ty. agg_exact (ag_func a) ty (map (arg_of a) (xs @ ys))) as tys \<Longrightarrow>
      merge_states (map2 (\<lambda>a ty. foldl agg_update (agg_new (ag_func a) ty) (map (arg_of a) xs)) as tys)
        (map2 (\<lambda>a ty. foldl agg_update (agg_new (ag_func a) ty) (map (arg_of a) ys)) as tys) =
      Inr (map2 (\<lambda>a ty. foldl agg_update (agg_new (ag_func a) ty) (map (arg_of a) (xs @ ys))) as tys)" for as
  proof (induction rule: list_all2_induct)
    case (Cons a as ty tys)
    then show ?case using agg.merge_runs [of "ag_func a" ty "map (arg_of a) xs" "map (arg_of a) ys"] by simp
  qed simp
  then show "spec_exact sp tys (xs @ ys) \<Longrightarrow> ?thesis" by (simp only: spec_exact_def group_states_def)
qed

lemma group_states_snoc:
  assumes "length tys = length (as_aggregates sp)"
  shows "map2 agg_update (group_states sp tys es) (map (\<lambda>a. arg_of a e) (as_aggregates sp)) = group_states sp tys (es @ [e])"
proof -
  have "length tys = length as \<Longrightarrow>
      map2 agg_update (map2 (\<lambda>a ty. foldl agg_update (agg_new (ag_func a) ty) (map (arg_of a) es)) as tys) (map (\<lambda>a. arg_of a e) as) =
      map2 (\<lambda>a ty. foldl agg_update (agg_new (ag_func a) ty) (map (arg_of a) (es @ [e]))) as tys" for as
    by (induction tys as rule: list_induct2) simp_all
  then show ?thesis using assms by (simp add: group_states_def)
qed

text \<open>Putting a group in its place.\<close>

lemma position_key: "position (\<lambda>(k', _). k' = k) (map (\<lambda>k. (k, f k)) ks) = position (\<lambda>k'. k' = k) ks"
  by (simp add: position_map)

lemma update_row_groups:
  assumes "length tys = length (as_aggregates sp)"
  shows "update_row (group_states sp tys []) (part_groups sp tys es) (key_of sp e, map (\<lambda>a. arg_of a e) (as_aggregates sp)) =
    part_groups sp tys (es @ [e])"
proof -
  let ?ks = "first_occurrences (map (key_of sp) es)" and ?f = "\<lambda>k. (k, group_states sp tys (filter (\<lambda>e. key_of sp e = k) es))"
  show ?thesis
  proof (cases "position (\<lambda>k'. k' = key_of sp e) ?ks")
    case None
    then have "key_of sp e \<notin> set (map (key_of sp) es)" by (auto simp: position_None)
    moreover from this have "filter (\<lambda>e'. key_of sp e' = key_of sp e) es = []" by (auto simp: filter_empty_conv image_iff)
    ultimately show ?thesis
      using None group_states_snoc [OF assms, of "[]" e] by (auto simp: update_row_def part_groups_def position_key)
  next
    case (Some i)
    note i = position_Some [OF Some]
    have "key_of sp e \<in> set (map (key_of sp) es)" using i nth_mem [of i ?ks] by simp
    then show ?thesis
      using Some i map_list_update [of ?ks i ?f] group_states_snoc [OF assms, of "filter (\<lambda>e'. key_of sp e' = key_of sp e) es" e]
      by (auto simp: update_row_def part_groups_def position_key)
  qed
qed

lemma update_rows_groups:
  assumes "length tys = length (as_aggregates sp)"
  shows "foldl (update_row (group_states sp tys [])) (part_groups sp tys es) (map (\<lambda>e. (key_of sp e, map (\<lambda>a. arg_of a e) (as_aggregates sp))) fs) =
    part_groups sp tys (es @ fs)"
  by (induction fs rule: rev_induct) (simp_all add: update_row_groups [OF assms] flip: append_assoc)

lemma merge_some_groups:
  assumes exact: "spec_exact sp tys (xs @ ys)" and K: "distinct K"
  shows "foldM merge_group (part_groups sp tys xs) (map (\<lambda>k. (k, group_states sp tys (filter (\<lambda>e. key_of sp e = k) ys))) K) =
    Inr (map (\<lambda>k. (k, group_states sp tys (filter (\<lambda>e. key_of sp e = k) xs @ (if k \<in> set K then filter (\<lambda>e. key_of sp e = k) ys else []))))
      (first_occurrences (map (key_of sp) xs) @ filter (\<lambda>k. k \<notin> set (map (key_of sp) xs)) K))"
  using K
proof (induction K rule: rev_induct)
  case Nil
  then show ?case by (simp add: part_groups_def)
next
  case (snoc k K)
  let ?F = "\<lambda>k. filter (\<lambda>e. key_of sp e = k) xs" and ?G = "\<lambda>k. filter (\<lambda>e. key_of sp e = k) ys"
  let ?keys = "set (map (key_of sp) xs)"
  let ?ks = "first_occurrences (map (key_of sp) xs) @ filter (\<lambda>k. k \<notin> ?keys) K"
  let ?f = "\<lambda>k. (k, group_states sp tys (?F k @ (if k \<in> set K then ?G k else [])))"
  have k: "k \<notin> set K" "distinct K" using snoc.prems by simp_all
  have dist: "distinct ?ks" using k by auto
  have merged: "merge_states (group_states sp tys (?F k)) (group_states sp tys (?G k)) = Inr (group_states sp tys (?F k @ ?G k))"
    by (rule merge_group_states) (use spec_exact_filter [OF exact, of "\<lambda>e. key_of sp e = k"] in simp)
  have step: "foldM merge_group (part_groups sp tys xs) (map (\<lambda>k. (k, group_states sp tys (?G k))) (K @ [k])) =
      merge_group (map ?f ?ks) (k, group_states sp tys (?G k))"
    using snoc.IH [OF k(2)] by (simp only: map_append foldM_append rbind.simps foldM.simps list.map) simp
  show ?case
  proof (cases "position (\<lambda>k'. k' = k) ?ks")
    case None
    then have new: "k \<notin> ?keys" "?F k = []" by (auto simp: position_None filter_empty_conv)
    have "merge_group (map ?f ?ks) (k, group_states sp tys (?G k)) = Inr (map ?f ?ks @ [(k, group_states sp tys (?G k))])"
      unfolding merge_group_def prod.case position_key None by simp
    then show ?thesis unfolding step using new k by auto
  next
    case (Some i)
    note i = position_Some [OF Some]
    have old: "k \<in> ?keys" using i nth_mem [of i ?ks] k(1) by auto
    have at: "map ?f ?ks ! i = (k, group_states sp tys (?F k))" unfolding nth_map [OF i [THEN conjunct1]] using i k(1) by simp
    have "merge_group (map ?f ?ks) (k, group_states sp tys (?G k)) = Inr ((map ?f ?ks)[i := (k, group_states sp tys (?F k @ ?G k))])"
      unfolding merge_group_def prod.case position_key Some option.case at by (simp add: merged)
    also have "(map ?f ?ks)[i := (k, group_states sp tys (?F k @ ?G k))] =
        map (\<lambda>k'. if k' = k then (k, group_states sp tys (?F k @ ?G k)) else ?f k') ?ks"
      using map_list_update [OF dist, of i ?f] i by simp
    finally show ?thesis unfolding step using old by auto
  qed
qed

lemma merge_part_groups:
  assumes "spec_exact sp tys (xs @ ys)"
  shows "foldM merge_group (part_groups sp tys xs) (part_groups sp tys ys) = Inr (part_groups sp tys (xs @ ys))"
proof -
  have "filter (\<lambda>e. key_of sp e = k) xs @ (if k \<in> set (map (key_of sp) ys) then filter (\<lambda>e. key_of sp e = k) ys else []) =
      filter (\<lambda>e. key_of sp e = k) (xs @ ys)" for k
    using filter_empty_conv [of "\<lambda>e. key_of sp e = k" ys] by auto
  then show ?thesis
    using merge_some_groups [OF assms, of "first_occurrences (map (key_of sp) ys)"]
    by (simp add: part_groups_def first_occurrences_append)
qed

end
