(* ===== verification/AggAnswers.thy ===== *)
theory AggAnswers
  imports AggProps
begin

text \<open>
  Executing a plan with an aggregate: the partial aggregators of the partitions, their merge and the
  batch it gives.
\<close>

section \<open>A batch into an aggregator\<close>

text \<open>The sum of an Arrow integer column wraps and is absent when the column is all NULL.\<close>

definition sum_kernel_ok :: "exec_lib \<Rightarrow> bool" where
  "sum_kernel_ok X \<longleftrightarrow> (\<forall>vs. xl_sum_int X vs = (case List.map_filter (\<lambda>x. x) vs of [] \<Rightarrow> None | xs \<Rightarrow> Some (sum_list xs)))"

definition arg_types :: "table_schema \<Rightarrow> agg_spec \<Rightarrow> data_type option list" where
  "arg_types t sp = map (\<lambda>a. map_option (type_of_column t) (ag_column a)) (as_aggregates sp)"

lemma arg_types_length [simp]: "length (arg_types t sp) = length (as_aggregates sp)"
  by (simp add: arg_types_def)

lemma column_by_name_eq:
  assumes "n \<in> set (map f_name (bfields b))"
  obtains i where "index_of b n = Some i" "i < length (bfields b)" "f_name (bfields b ! i) = n"
    "column_by_name b n = Inr \<lparr>ca_type = Some (f_type (bfields b ! i)), ca_values = map (\<lambda>e. e n) (row_envs b)\<rparr>"
proof -
  obtain i where i: "index_of b n = Some i" "i < length (bfields b)" "f_name (bfields b ! i) = n" using index_of_name [OF assms] by blast
  then have "batch_column b i = map (\<lambda>e. e n) (row_envs b)" by (simp add: batch_column_def row_envs_def batch_env_def)
  then show ?thesis using that [OF i] i(1) by (simp add: column_by_name_def)
qed

lemma int_cells:
  assumes "list_all (arrow_fits AInt64) vs"
  shows "List.map_filter (\<lambda>x. x) (map as_int_cell vs) = map word_of_int (map (\<lambda>v. int_part (Some v)) (filter (\<lambda>v. v \<noteq> VNull) vs))"
    "sum_list (map (\<lambda>v. int_part (Some v)) (filter (\<lambda>v. v \<noteq> VNull) vs)) = int_sum (map Some vs)"
    "filter (\<lambda>v. v \<noteq> VNull) vs = [] \<longleftrightarrow> \<not> some_int (map Some vs)"
proof -
  have cell: "v = VNull \<or> (\<exists>i. v = VInt i)" if "v \<in> set vs" for v
    using assms that by (cases v) (auto simp: list_all_iff)
  show "List.map_filter (\<lambda>x. x) (map as_int_cell vs) = map word_of_int (map (\<lambda>v. int_part (Some v)) (filter (\<lambda>v. v \<noteq> VNull) vs))"
    using cell
  proof (induction vs)
    case (Cons v vs)
    have IH: "List.map_filter (\<lambda>x. x) (map as_int_cell vs) = map word_of_int (map (\<lambda>v. int_part (Some v)) (filter (\<lambda>v. v \<noteq> VNull) vs))"
      using Cons by simp
    consider "v = VNull" | i where "v = VInt i" using Cons.prems [of v] by auto
    then show ?case by cases (use IH in \<open>simp_all add: map_filter_simps int_part_def opt_value_def\<close>)
  qed (simp add: map_filter_simps)
  show "sum_list (map (\<lambda>v. int_part (Some v)) (filter (\<lambda>v. v \<noteq> VNull) vs)) = int_sum (map Some vs)"
    using cell by (induction vs) (auto simp: int_sum_def int_part_def opt_value_def)
  show "filter (\<lambda>v. v \<noteq> VNull) vs = [] \<longleftrightarrow> \<not> some_int (map Some vs)"
    using cell by (fastforce simp: filter_empty_conv some_int_def opt_value_def)
qed

lemma word_sum_list: "sum_list (map word_of_int xs) = (word_of_int (sum_list xs) :: i64)"
  by (induction xs) simp_all

lemma fallback_runs: "fallback_rows st vs = foldl agg_update st (map Some vs)"
  by (simp add: fallback_rows_def foldl_map)

lemma count_runs: "foldl agg_update (ACount n) vs = ACount (n + of_nat (length (filter (\<lambda>v. v \<noteq> Some VNull) vs)))"
  by (induction vs arbitrary: n) (simp_all add: add.assoc)

lemma accumulate_exact:
  assumes X: "sum_kernel_ok X" and exact: "agg_exact f ty (xs @ map Some (ca_values c))"
    and int: "ca_type c = Some AInt64 \<Longrightarrow> list_all (arrow_fits AInt64) (ca_values c)"
  shows "accumulate_column X (foldl agg_update (agg_new f ty) xs) (Some c) n = foldl agg_update (agg_new f ty) (xs @ map Some (ca_values c))"
proof (cases f)
  case FCount
  have "non_null (ca_values c) = length (filter (\<lambda>v. v \<noteq> Some VNull) (map Some (ca_values c)))"
    by (simp add: non_null_def filter_map comp_def)
  then show ?thesis by (simp add: FCount count_runs add.assoc)
next
  case FSum
  then have E: "agg_exact FSum ty (xs @ map Some (ca_values c))" and ty: "ty = Some DInt64" using exact by simp_all
  have E': "agg_exact FSum ty xs" "agg_exact FSum ty (map Some (ca_values c))" using agg_exact_part [OF E] by simp_all
  note run = sum_runs [OF E'(1), unfolded ty]
  show ?thesis
  proof (cases "ca_type c = Some AInt64")
    case True
    note cells = int_cells [OF int [OF True]]
    let ?nn = "filter (\<lambda>v. v \<noteq> VNull) (ca_values c)"
    have sum: "xl_sum_int X (map as_int_cell (ca_values c)) =
        (if some_int (map Some (ca_values c)) then Some (word_of_int (int_sum (map Some (ca_values c)))) else None)"
    proof (cases "?nn")
      case Nil
      then show ?thesis using cells X by (simp add: sum_kernel_ok_def)
    next
      case (Cons v vs)
      have "xl_sum_int X (map as_int_cell (ca_values c)) = Some (sum_list (map word_of_int (map (\<lambda>v. int_part (Some v)) ?nn)))"
        unfolding X [unfolded sum_kernel_ok_def, rule_format] cells(1) unfolding Cons by simp
      then show ?thesis using cells Cons by (simp only: word_sum_list) simp
    qed
    have zero: "int_sum (map Some (ca_values c)) = 0" if "\<not> some_int (map Some (ca_values c))" using cells(2,3) that by simp
    show ?thesis
      using sum True zero saturating_add_sums [OF int_sum_bound [OF E'(1)] int_sum_bound [OF E'(2)]] int_sum_bound [OF E]
      by (simp add: FSum ty run sum_runs [OF E, unfolded ty] del: foldl_append)
  next
    case False
    then show ?thesis by (simp add: FSum ty run fallback_runs)
  qed
next
  case FAvg
  then show ?thesis using exact by simp
qed (simp_all add: fallback_runs min_runs max_runs)

lemma accumulate_rows:
  assumes "agg_exact f ty (xs @ replicate n None)"
  shows "accumulate_column X (foldl agg_update (agg_new f ty) xs) None n = foldl agg_update (agg_new f ty) (xs @ replicate n None)"
proof (cases f)
  case FSum
  then have E: "agg_exact FSum ty (xs @ replicate n None)" and ty: "ty = Some DInt64" using assms by simp_all
  have E': "agg_exact FSum ty xs" using agg_exact_part [OF E] by simp
  have "int_sum (replicate n None) = 0" "\<not> some_int (replicate n None)" by (induction n) (simp_all add: int_sum_def int_part_def opt_value_def some_int_def)
  then show ?thesis by (simp add: FSum ty sum_runs [OF E, unfolded ty] sum_runs [OF E', unfolded ty] del: foldl_append)
next
  case FMin
  have "foldl (pick lt) a (replicate n None) = a" for lt a by (induction n arbitrary: a) (simp_all add: pick_def)
  then show ?thesis by (simp add: FMin min_runs)
next
  case FMax
  have "foldl (pick lt) a (replicate n None) = a" for lt a by (induction n arbitrary: a) (simp_all add: pick_def)
  then show ?thesis by (simp add: FMax max_runs)
qed (use assms in \<open>simp_all add: count_runs add.assoc\<close>)

text \<open>What an aggregator holds after some rows.\<close>

definition holding :: "agg_spec \<Rightarrow> data_type option list \<Rightarrow> output_schema \<Rightarrow> env list \<Rightarrow> aggregator" where
  "holding sp tys out es = \<lparr>gr_spec = sp, gr_types = tys, gr_groups = part_groups sp tys es, gr_output = out\<rparr>"

lemma holding_fresh: "fresh_states (holding sp tys out es) = group_states sp tys []"
  by (simp add: fresh_states_def holding_def group_states_def)

lemma first_occurrences_const: "first_occurrences (map (\<lambda>_. k) es) = (if es = [] then [] else [k])"
  by (induction es rule: rev_induct) (auto simp: image_constant_conv)

lemma ungrouped_part: "as_group_by sp = [] \<Longrightarrow> part_groups sp tys es = (if es = [] then [] else [([], group_states sp tys es)])"
  using first_occurrences_const [of "[] :: adb_value list" es] by (simp add: part_groups_def key_of_def [abs_def])

lemma update_holding:
  assumes X: "sum_kernel_ok X" and b: "batch_ok b" "brows b \<noteq> []" and names: "spec_columns sp \<subseteq> set (map f_name (bfields b))"
    and tys: "length tys = length (as_aggregates sp)" and exact: "as_group_by sp = [] \<Longrightarrow> spec_exact sp tys (es @ row_envs b)"
  shows "update_aggregator X (holding sp tys out es) b = Inr (holding sp tys out (es @ row_envs b))"
proof -
  let ?g = "holding sp tys out es" and ?as = "as_aggregates sp"
  let ?col = "\<lambda>n. \<lparr>ca_type = Some (f_type (bfields b ! the (index_of b n))), ca_values = map (\<lambda>e. e n) (row_envs b)\<rparr>"
  have col: "column_by_name b n = Inr (?col n)" "the (index_of b n) < length (bfields b)" if "n \<in> spec_columns sp" for n
  proof -
    have n: "n \<in> set (map f_name (bfields b))" using names that by blast
    obtain i where "index_of b n = Some i" "i < length (bfields b)"
        "column_by_name b n = Inr \<lparr>ca_type = Some (f_type (bfields b ! i)), ca_values = map (\<lambda>e. e n) (row_envs b)\<rparr>"
      by (rule column_by_name_eq [OF n])
    then show "column_by_name b n = Inr (?col n)" "the (index_of b n) < length (bfields b)" by simp_all
  qed
  have gcols: "mapM (column_by_name b) (as_group_by sp) = Inr (map ?col (as_group_by sp))"
    by (rule mapM_Inr_map) (rule col, simp add: spec_columns_def)
  let ?vcol = "\<lambda>a. map_option ?col (ag_column a)"
  have vcols: "mapM (\<lambda>a. case ag_column a of None \<Rightarrow> Inr None | Some n \<Rightarrow> rmap Some (column_by_name b n)) ?as = Inr (map ?vcol ?as)"
  proof (rule mapM_Inr_map)
    fix a
    assume a: "a \<in> set ?as"
    show "(case ag_column a of None \<Rightarrow> Inr None | Some n \<Rightarrow> rmap Some (column_by_name b n)) = Inr (?vcol a)"
    proof (cases "ag_column a")
      case (Some n)
      then have "n \<in> spec_columns sp" using a by (auto simp: spec_columns_def)
      then show ?thesis using Some col(1) by simp
    qed simp
  qed
  have n: "num_rows b \<noteq> 0" "row_envs b \<noteq> []" using b(2) by (simp_all add: num_rows_def row_envs_def)
  have upd: "update_aggregator X ?g b =
      (if as_group_by sp = [] then
        (let gs = (if part_groups sp tys es = [] then [([], group_states sp tys [])] else part_groups sp tys es);
             st = map2 (\<lambda>st a. accumulate_column X st a (num_rows b)) (snd (hd gs)) (map ?vcol ?as) in
         Inr (?g\<lparr>gr_groups := (fst (hd gs), st) # tl gs\<rparr>))
       else Inr (?g\<lparr>gr_groups := foldl (update_row (group_states sp tys [])) (part_groups sp tys es)
            (map (\<lambda>i. (map (\<lambda>c. ca_values c ! i) (map ?col (as_group_by sp)), map (map_option (\<lambda>c. ca_values c ! i)) (map ?vcol ?as))) [0..<num_rows b])\<rparr>))"
    unfolding update_aggregator_def holding_fresh using n(1) gcols vcols by (simp add: holding_def)
  show ?thesis
  proof (cases "as_group_by sp = []")
    case True
    have one: "accumulate_column X (foldl agg_update (agg_new (ag_func a) ty) (map (arg_of a) es)) (?vcol a) (num_rows b) =
        foldl agg_update (agg_new (ag_func a) ty) (map (arg_of a) (es @ row_envs b))"
      if a: "a \<in> set ?as" and e: "agg_exact (ag_func a) ty (map (arg_of a) (es @ row_envs b))" for a ty
    proof (cases "ag_column a")
      case None
      then have r: "map (arg_of a) (row_envs b) = replicate (num_rows b) None"
        by (simp add: arg_of_def [abs_def] map_replicate_const)
      show ?thesis using accumulate_rows [of "ag_func a" ty "map (arg_of a) es" "num_rows b" X] e None r by simp
    next
      case (Some m)
      then have m: "m \<in> spec_columns sp" using a by (auto simp: spec_columns_def)
      have r: "map (arg_of a) (row_envs b) = map Some (ca_values (?col m))" using Some by (simp add: arg_of_def)
      have cells: "list_all (arrow_fits (f_type (bfields b ! the (index_of b m)))) (ca_values (?col m))"
      proof -
        have "m \<in> set (map f_name (bfields b))" using names m by blast
        then obtain k where k: "index_of b m = Some k" using index_of_name [of m b] by blast
        then have "arrow_fits (f_type (bfields b ! the (index_of b m))) (batch_env b r m)" if "r \<in> set (brows b)" for r
          using batch_env_fits [OF b(1) that, of m "f_type (bfields b ! k)"] by (simp add: batch_type_def)
        then show ?thesis by (simp add: list_all_iff row_envs_def)
      qed
      show ?thesis
        unfolding map_append r Some option.map
        by (rule accumulate_exact [OF X e [unfolded map_append r]]) (use cells in simp)
    qed
    have all: "list_all2 (\<lambda>a ty. agg_exact (ag_func a) ty (map (arg_of a) (es @ row_envs b))) as tys \<Longrightarrow> set as \<subseteq> set ?as \<Longrightarrow>
        map2 (\<lambda>st a. accumulate_column X st a (num_rows b))
          (map2 (\<lambda>a ty. foldl agg_update (agg_new (ag_func a) ty) (map (arg_of a) es)) as tys) (map ?vcol as) =
        map2 (\<lambda>a ty. foldl agg_update (agg_new (ag_func a) ty) (map (arg_of a) (es @ row_envs b))) as tys" for as
      by (induction rule: list_all2_induct) (use one in simp_all)
    have "map2 (\<lambda>st a. accumulate_column X st a (num_rows b)) (group_states sp tys es) (map ?vcol ?as) = group_states sp tys (es @ row_envs b)"
      using all [of ?as] exact [OF True] by (simp only: spec_exact_def group_states_def subset_refl)
    then show ?thesis using True n(2) unfolding upd by (auto simp: ungrouped_part holding_def Let_def)
  next
    case False
    have "map (\<lambda>i. (map (\<lambda>c. ca_values c ! i) (map ?col (as_group_by sp)), map (map_option (\<lambda>c. ca_values c ! i)) (map ?vcol ?as))) [0..<num_rows b] =
        map (\<lambda>e. (key_of sp e, map (\<lambda>a. arg_of a e) ?as)) (row_envs b)"
      by (rule nth_equalityI) (auto simp: key_of_def arg_of_def option.map_comp comp_def intro: option.map_cong)
    then show ?thesis using False update_rows_groups [OF tys, of es "row_envs b"] unfolding upd by (simp add: holding_def)
  qed
qed

section \<open>A partition into an aggregator\<close>

lemma feed_holding:
  assumes X: "sum_kernel_ok X" and tys: "length tys = length (as_aggregates sp)"
    and bs: "\<And>b. b \<in> set bs \<Longrightarrow> batch_ok b \<and> brows b \<noteq> [] \<and> spec_columns sp \<subseteq> set (map f_name (bfields b))"
    and exact: "as_group_by sp = [] \<Longrightarrow> spec_exact sp tys (es @ concat (map row_envs bs))"
  shows "feed (aggregate_sink X) (holding sp tys out es, saw) bs =
    Inr ((holding sp tys out (es @ concat (map row_envs bs)), saw \<or> bs \<noteq> []), True)"
  using bs exact
proof (induction bs arbitrary: es saw)
  case (Cons b bs)
  have b: "batch_ok b" "brows b \<noteq> []" "spec_columns sp \<subseteq> set (map f_name (bfields b))" using Cons.prems(1) [of b] by simp_all
  have "as_group_by sp = [] \<Longrightarrow> spec_exact sp tys (es @ row_envs b)"
    using Cons.prems(2) spec_exact_part [of sp tys "es @ row_envs b" "concat (map row_envs bs)"] by simp
  then have "aggregate_sink X (holding sp tys out es, saw) b = Inr ((holding sp tys out (es @ row_envs b), True), True)"
    using update_holding [OF X b(1,2,3) tys, of es out] by (simp add: aggregate_sink_def)
  moreover have "feed (aggregate_sink X) (holding sp tys out (es @ row_envs b), True) bs =
      Inr ((holding sp tys out ((es @ row_envs b) @ concat (map row_envs bs)), True \<or> bs \<noteq> []), True)"
    by (rule Cons.IH) (use Cons.prems in simp_all)
  ultimately show ?case by simp
qed simp

text \<open>The rows a partition contributes, by name.\<close>

definition scan_envs :: "sql_lib \<Rightarrow> physical_plan \<Rightarrow> table_schema \<Rightarrow> row list \<Rightarrow> env list" where
  "scan_envs S plan t rows = row_envs \<lparr>bfields = fields_of t (pp_projection plan), brows = scanned S plan t rows\<rparr>"

lemma scan_envs_append [simp]: "scan_envs S plan t (xs @ ys) = scan_envs S plan t xs @ scan_envs S plan t ys"
  by (simp add: scan_envs_def row_envs_def batch_env_def [abs_def] index_of_def)

lemma scan_envs_Nil [simp]: "scan_envs S plan t [] = []"
  by (simp add: scan_envs_def row_envs_def scanned_def)

lemma envs_of_batches:
  assumes "\<And>b. b \<in> set bs \<Longrightarrow> bfields b = fs"
  shows "concat (map row_envs bs) = row_envs \<lparr>bfields = fs, brows = concat (map brows bs)\<rparr>"
proof -
  have "row_envs b = map (batch_env \<lparr>bfields = fs, brows = []\<rparr>) (brows b)" if "bfields b = fs" for b
    using that by (simp add: row_envs_def batch_env_def [abs_def] index_of_def)
  then have "map row_envs bs = map (\<lambda>b. map (batch_env \<lparr>bfields = fs, brows = []\<rparr>) (brows b)) bs" using assms by simp
  moreover have "row_envs \<lparr>bfields = fs, brows = concat (map brows bs)\<rparr> = map (batch_env \<lparr>bfields = fs, brows = []\<rparr>) (concat (map brows bs))"
    by (simp add: row_envs_def batch_env_def [abs_def] index_of_def)
  ultimately show ?thesis by (simp only: map_concat map_map comp_def)
qed

text \<open>The plan reads the columns of its aggregate.\<close>

definition agg_plan :: "physical_plan \<Rightarrow> table_schema \<Rightarrow> agg_spec \<Rightarrow> bool" where
  "agg_plan plan t sp \<longleftrightarrow> plan_fits plan t \<and> pp_aggregate plan = Some sp \<and> spec_columns sp \<subseteq> set (pp_projection plan)"

definition partial_result :: "agg_spec \<Rightarrow> data_type option list \<Rightarrow> output_schema \<Rightarrow> env list \<Rightarrow> aggregator option" where
  "partial_result sp tys out es = (if es \<noteq> [] \<or> as_group_by sp = [] then Some (holding sp tys out es) else None)"

lemma partition_partial:
  assumes X: "exec_ok S L X" "sum_kernel_ok X" and s: "store_ok s" and plan: "agg_plan plan t sp" and src: "source_ok L s t sn rows"
    and tys: "length tys = length (as_aggregates sp)" and g: "budget_of lim clock g"
    and exact: "as_group_by sp = [] \<Longrightarrow> spec_exact sp tys (scan_envs S plan t rows)"
  shows "case partial_aggregate X s plan (holding sp tys out []) g sn of
      Inl e \<Rightarrow> limit_hit lim clock e
    | Inr (g', p) \<Rightarrow> budget_of lim clock g' \<and> p = partial_result sp tys out (scan_envs S plan t rows)"
proof -
  obtain R where R: "snapshot_ok L s R sn" "stats_ok R sn" "sn_schema sn = t" "snapshot_rows R sn = rows"
    using src by (auto simp: source_ok_def)
  let ?out = "snapshot_out S plan R sn"
  have fits: "plan_fits plan t" and cols: "spec_columns sp \<subseteq> set (pp_projection plan)" using plan by (simp_all add: agg_plan_def)
  have ns: "set (pp_projection plan) \<subseteq> set (column_names t)" using fits by (simp add: plan_fits_def)
  have ok: "scan_batch plan t b" if "b \<in> set ?out" for b by (rule snapshot_out_ok [OF X(1) fits R(1,3,4) that])
  have envs: "concat (map row_envs ?out) = scan_envs S plan t rows"
    using envs_of_batches [of ?out "fields_of t (pp_projection plan)"] ok snapshot_out_rows [of S plan R sn] R(3,4)
    by (simp add: scan_batch_def scan_envs_def)
  have b: "batch_ok b \<and> brows b \<noteq> [] \<and> spec_columns sp \<subseteq> set (map f_name (bfields b))" if "b \<in> set ?out" for b
    using ok [OF that] fields_of_names [OF ns] cols by (simp add: scan_batch_def)
  have "row_envs b \<noteq> []" if "b \<in> set ?out" for b using b [OF that] by (simp add: row_envs_def)
  then have empty: "?out = [] \<longleftrightarrow> scan_envs S plan t rows = []" unfolding envs [symmetric] by (cases ?out) auto
  have feed: "feed (aggregate_sink X) (holding sp tys out [], False) ?out =
      Inr ((holding sp tys out (scan_envs S plan t rows), ?out \<noteq> []), True)"
    using feed_holding [OF X(2) tys b, of ?out "[]" out False] exact by (simp add: envs)
  have agrees: "ended_agrees lim clock (scan_partition X s plan (aggregate_sink X) g (holding sp tys out [], False) sn)
      (feed (aggregate_sink X) (holding sp tys out [], False) ?out)"
    by (rule scan_partition_agrees [OF X(1) _ s R(1,2) g]) (use fits R(3) in simp)
  show ?thesis
  proof (cases "scan_partition X s plan (aggregate_sink X) g (holding sp tys out [], False) sn")
    case (Inl e)
    then show ?thesis using agrees feed by (simp add: partial_aggregate_def)
  next
    case (Inr y)
    obtain g' a saw where "y = (g', a, saw)" by (cases y)
    then show ?thesis using agrees feed Inr empty
      by (auto simp: partial_aggregate_def partial_result_def is_grouped_def holding_def)
  qed
qed

lemma partitions_partial:
  assumes X: "exec_ok S L X" "sum_kernel_ok X" and s: "store_ok s" and plan: "agg_plan plan t sp"
    and src: "list_all2 (source_ok L s t) sns rss" and tys: "length tys = length (as_aggregates sp)" and g: "budget_of lim clock g"
    and exact: "spec_exact sp tys (scan_envs S plan t (concat rss))"
  shows "case run_per_partition (partial_aggregate X s plan (holding sp tys out [])) g sns of
      Inl e \<Rightarrow> limit_hit lim clock e
    | Inr (g', ps) \<Rightarrow> budget_of lim clock g' \<and> ps = map (\<lambda>rows. partial_result sp tys out (scan_envs S plan t rows)) rss"
  using src g exact
proof (induction sns rss arbitrary: g rule: list_all2_induct)
  case Nil
  then show ?case by simp
next
  case (Cons sn sns rows rss)
  have e: "spec_exact sp tys (scan_envs S plan t rows)" "spec_exact sp tys (scan_envs S plan t (concat rss))"
    using spec_exact_part [of sp tys "scan_envs S plan t rows" "scan_envs S plan t (concat rss)"] Cons.prems(2) by simp_all
  note one = partition_partial [OF X s plan Cons.hyps(1) tys Cons.prems(1) e(1), of out]
  show ?case
  proof (cases "partial_aggregate X s plan (holding sp tys out []) g sn")
    case (Inl err)
    then show ?thesis using one by simp
  next
    case (Inr y)
    obtain g1 p where y: "y = (g1, p)" by (cases y)
    then show ?thesis using Cons.IH [OF _ e(2), of g1] one Inr by (auto split: sum.splits)
  qed
qed

section \<open>Merging the partitions\<close>

lemma merge_holding:
  "spec_exact sp tys (xs @ ys) \<Longrightarrow> merge_aggregator (holding sp tys out xs) (holding sp tys out ys) = Inr (holding sp tys out (xs @ ys))"
  using merge_part_groups [of sp tys xs ys] by (simp add: merge_aggregator_def holding_def)

lemma merge_partials_holding:
  assumes "budget_of lim clock g" "spec_exact sp tys (es @ concat ess)" "acc = Some (holding sp tys out es) \<or> (acc = None \<and> es = [])"
  shows "case merge_partials g acc (map (holding sp tys out) ess) of
      Inl e \<Rightarrow> limit_hit lim clock e
    | Inr (g', merged) \<Rightarrow> budget_of lim clock g' \<and>
        (case merged of Some a \<Rightarrow> a | None \<Rightarrow> holding sp tys out []) = holding sp tys out (es @ concat ess)"
  using assms
proof (induction ess arbitrary: g acc es)
  case (Cons xs ess)
  show ?case
  proof (cases "check_deadline g")
    case (Inl e)
    then show ?thesis using check_deadline_cases(1) [OF Cons.prems(1) Inl] by simp
  next
    case (Inr g1)
    have "spec_exact sp tys (es @ xs)" using spec_exact_part [of sp tys "es @ xs" "concat ess"] Cons.prems(2) by simp
    then have "(case acc of None \<Rightarrow> Inr (holding sp tys out xs) | Some a \<Rightarrow> merge_aggregator a (holding sp tys out xs)) = Inr (holding sp tys out (es @ xs))"
      using Cons.prems(3) merge_holding by auto
    moreover have eq: "(es @ xs) @ concat ess = es @ concat (xs # ess)" by simp
    ultimately show ?thesis
      using Inr Cons.IH [OF check_deadline_cases(2) [OF Cons.prems(1) Inr], of "es @ xs" "Some (holding sp tys out (es @ xs))"] Cons.prems(2)
      unfolding eq by simp
  qed
qed auto

lemma partial_results:
  "List.map_filter (\<lambda>x. x) (map (\<lambda>rows. partial_result sp tys out (f rows)) rss) =
     map (holding sp tys out) (filter (\<lambda>es. es \<noteq> [] \<or> as_group_by sp = []) (map f rss))"
  by (induction rss) (auto simp: map_filter_simps partial_result_def)

lemma concat_kept: "concat (filter (\<lambda>es. es \<noteq> [] \<or> P) xss) = concat xss"
  by (induction xss) auto

section \<open>The batch of the groups\<close>

text \<open>What an aggregate that merges exactly is of the arguments of a group.\<close>

definition agg_value :: agg_lib where
  "agg_value a vs =
     (case ag_func a of
        FCount \<Rightarrow> VInt (of_nat (length (filter (\<lambda>v. v \<noteq> Some VNull) vs)))
      | FSum \<Rightarrow> if some_int vs then VInt (word_of_int (int_sum vs)) else VNull
      | FMin \<Rightarrow> (case picked (\<lambda>a b. value_cmp a b = Less) vs of Some v \<Rightarrow> v | None \<Rightarrow> VNull)
      | FMax \<Rightarrow> (case picked (\<lambda>a b. value_cmp a b = Greater) vs of Some v \<Rightarrow> v | None \<Rightarrow> VNull)
      | FAvg \<Rightarrow> VNull)"

lemma agg_value_finish:
  assumes "agg_exact (ag_func a) ty vs"
  shows "agg_finish (foldl agg_update (agg_new (ag_func a) ty) vs) = agg_value a vs"
proof (cases "ag_func a")
  case FCount
  then show ?thesis by (simp add: agg_value_def count_runs)
next
  case FSum
  then have E: "agg_exact FSum ty vs" and ty: "ty = Some DInt64" using assms by simp_all
  then show ?thesis by (simp add: FSum agg_value_def sum_runs [OF E, unfolded ty])
qed (use assms in \<open>simp_all add: agg_value_def min_runs max_runs picked_def\<close>)

lemma picked_in: "picked lt vs = Some w \<Longrightarrow> Some w \<in> set vs"
proof -
  have "foldl (pick lt) cur us = Some w \<Longrightarrow> cur = Some w \<or> Some w \<in> set us" for cur us
  proof (induction us arbitrary: cur)
    case (Cons u us)
    have "pick lt cur u = cur \<or> pick lt cur u = u" by (auto simp: pick_def split: option.split)
    then show ?case using Cons.IH [of "pick lt cur u"] Cons.prems by auto
  qed simp
  from this [of None "filter (\<lambda>v. v \<noteq> Some VNull) vs"] show "picked lt vs = Some w \<Longrightarrow> Some w \<in> set vs" by (simp add: picked_def)
qed

lemma agg_value_fits:
  assumes "agg_exact (ag_func a) ty vs" "\<And>w. Some w \<in> set vs \<Longrightarrow> \<exists>d. ty = Some d \<and> arrow_fits (arrow_type_of d) w"
  shows "arrow_fits (arrow_type_of (output_type (ag_func a) ty)) (agg_value a vs)"
proof (cases "ag_func a")
  case FMin
  then show ?thesis using assms(2) picked_in [of _ vs] by (fastforce simp: agg_value_def split: option.splits)
next
  case FMax
  then show ?thesis using assms(2) picked_in [of _ vs] by (fastforce simp: agg_value_def split: option.splits)
qed (use assms(1) in \<open>simp_all add: agg_value_def\<close>)

lemma date_cast: "ucast (scast (d :: 32 word) :: i64) = d"
  by (rule bit_word_eqI) (simp add: bit_simps)

lemma build_cell_fits: "arrow_fits (arrow_type_of ty) v \<Longrightarrow> build_cell ty v = Inr v"
  by (cases ty; cases v) (simp_all add: build_cell_def date_cast)

lemma build_array_fits: "list_all (arrow_fits (arrow_type_of ty)) vs \<Longrightarrow> build_array vs ty = Inr vs"
  unfolding build_array_def by (subst mapM_Inr_map [of _ _ "\<lambda>v. v"]) (auto simp: list_all_iff build_cell_fits)

text \<open>The names and types of the output columns of an aggregate.\<close>

definition spec_outputs :: "table_schema \<Rightarrow> agg_spec \<Rightarrow> (string \<times> data_type) list" where
  "spec_outputs t sp =
     map (\<lambda>k. (k, type_of_column t k)) (as_group_by sp) @
     map (\<lambda>a. (ag_alias a, output_type (ag_func a) (map_option (type_of_column t) (ag_column a)))) (as_aggregates sp)"

definition typed_rows :: "table_schema \<Rightarrow> agg_spec \<Rightarrow> env list \<Rightarrow> bool" where
  "typed_rows t sp es \<longleftrightarrow> (\<forall>e \<in> set es. \<forall>n \<in> spec_columns sp. arrow_fits (arrow_type_of (type_of_column t n)) (e n))"

definition group_keys :: "agg_spec \<Rightarrow> env list \<Rightarrow> adb_value list list" where
  "group_keys sp es = (if as_group_by sp = [] then [[]] else first_occurrences (map (key_of sp) es))"

definition group_row :: "agg_spec \<Rightarrow> env list \<Rightarrow> adb_value list \<Rightarrow> row" where
  "group_row sp es k = k @ map (\<lambda>a. agg_value a (map (arg_of a) (filter (\<lambda>e. key_of sp e = k) es))) (as_aggregates sp)"

lemma group_keys_length: "k \<in> set (group_keys sp es) \<Longrightarrow> length k = length (as_group_by sp)"
  by (auto simp: group_keys_def key_of_def split: if_splits)

lemma group_row_length: "k \<in> set (group_keys sp es) \<Longrightarrow> length (group_row sp es k) = length (spec_outputs t sp)"
  by (simp add: group_row_def spec_outputs_def group_keys_length)

lemma group_row_fits:
  assumes t: "typed_rows t sp es" and exact: "spec_exact sp (arg_types t sp) es" and k: "k \<in> set (group_keys sp es)"
  shows "list_all2 (\<lambda>(n, ty) v. arrow_fits (arrow_type_of ty) v) (spec_outputs t sp) (group_row sp es k)"
proof -
  have "list_all2 (\<lambda>n v. arrow_fits (arrow_type_of (type_of_column t n)) v) (as_group_by sp) k"
  proof (cases "as_group_by sp = []")
    case True
    then show ?thesis using k by (simp add: group_keys_def)
  next
    case False
    then obtain e where e: "e \<in> set es" "k = map e (as_group_by sp)" using k by (auto simp: group_keys_def key_of_def)
    then show ?thesis using t by (auto simp: typed_rows_def spec_columns_def list.rel_map intro!: list.rel_refl_strong)
  qed
  moreover have "arrow_fits (arrow_type_of (output_type (ag_func a) (map_option (type_of_column t) (ag_column a))))
      (agg_value a (map (arg_of a) (filter (\<lambda>e. key_of sp e = k) es)))" if a: "a \<in> set (as_aggregates sp)" for a
  proof (rule agg_value_fits)
    have "agg_exact (ag_func a) (map_option (type_of_column t) (ag_column a)) (map (arg_of a) es)"
      using exact a by (auto simp: spec_exact_def arg_types_def list.rel_map list.rel_eq list_all2_same)
    then show "agg_exact (ag_func a) (map_option (type_of_column t) (ag_column a)) (map (arg_of a) (filter (\<lambda>e. key_of sp e = k) es))"
      by (rule agg_exact_filter)
  next
    fix w
    assume "Some w \<in> set (map (arg_of a) (filter (\<lambda>e. key_of sp e = k) es))"
    then obtain e where "e \<in> set es" "arg_of a e = Some w" by auto
    then obtain n where "e \<in> set es" "ag_column a = Some n" "w = e n" by (cases "ag_column a") (auto simp: arg_of_def)
    then show "\<exists>d. map_option (type_of_column t) (ag_column a) = Some d \<and> arrow_fits (arrow_type_of d) w"
      using t a by (auto simp: typed_rows_def spec_columns_def)
  qed
  ultimately show ?thesis
    by (auto simp: spec_outputs_def group_row_def list.rel_map list_all2_same intro!: list_all2_appendI)
qed

lemma group_states_finish:
  assumes "spec_exact sp (arg_types t sp) es"
  shows "map agg_finish (group_states sp (arg_types t sp) es) = map (\<lambda>a. agg_value a (map (arg_of a) es)) (as_aggregates sp)"
proof -
  have "list_all2 (\<lambda>a ty. agg_exact (ag_func a) ty (map (arg_of a) es)) as tys \<Longrightarrow>
      map agg_finish (map2 (\<lambda>a ty. foldl agg_update (agg_new (ag_func a) ty) (map (arg_of a) es)) as tys) =
      map (\<lambda>a. agg_value a (map (arg_of a) es)) as" for as tys
    by (induction rule: list_all2_induct) (simp_all add: agg_value_finish)
  then show ?thesis using assms by (simp only: spec_exact_def group_states_def)
qed

lemma finished_groups:
  "(if part_groups sp tys es = [] \<and> as_group_by sp = [] then [([], group_states sp tys [])] else part_groups sp tys es) =
     map (\<lambda>k. (k, group_states sp tys (filter (\<lambda>e. key_of sp e = k) es))) (group_keys sp es)"
proof (cases "as_group_by sp = []")
  case True
  then show ?thesis by (simp add: ungrouped_part group_keys_def key_of_def [abs_def])
next
  case False
  then show ?thesis by (simp add: group_keys_def part_groups_def)
qed

lemma map_upt_add: "map f [0..<m] @ map (\<lambda>i. f (m + i)) [0..<n] = map f [0..<m + n]"
  by (rule nth_equalityI) (auto simp: nth_append)

lemma nth_column_ok: "i < length out \<Longrightarrow> nth_column out i = Inr (out ! i)"
  by (simp add: nth_column_def)

lemma group_env:
  assumes names: "map f_name (bfields b) = map fst (spec_outputs t sp)" "distinct (map fst (spec_outputs t sp))"
    and k: "length k = length (as_group_by sp)"
  shows "batch_env b (group_row sp es k) = agg_env agg_value sp k (filter (\<lambda>e. key_of sp e = k) es)"
proof
  fix n
  let ?gs = "as_group_by sp" and ?as = "as_aggregates sp"
  have nm: "map f_name (bfields b) = ?gs @ map ag_alias ?as" using names(1) by (simp add: spec_outputs_def comp_def)
  have d: "distinct (?gs @ map ag_alias ?as)" using names by (simp add: spec_outputs_def comp_def)
  have len: "length (bfields b) = length ?gs + length ?as" using arg_cong [OF nm, of length] by simp
  have at: "index_of b n = Some i" if "i < length (bfields b)" "map f_name (bfields b) ! i = n" for i
  proof -
    have "f_name (bfields b ! i) = n" using that by simp
    then show ?thesis
      unfolding index_of_def using position_nth_distinct [of f_name "bfields b" i] d that(1) by (simp only: nm [symmetric])
  qed
  consider (key) i where "i < length ?gs" "?gs ! i = n" | (agg) j where "j < length ?as" "ag_alias (?as ! j) = n" "n \<notin> set ?gs"
    | (other) "n \<notin> set ?gs" "\<forall>a \<in> set ?as. ag_alias a \<noteq> n"
    by (metis in_set_conv_nth)
  then show "batch_env b (group_row sp es k) n = agg_env agg_value sp k (filter (\<lambda>e. key_of sp e = k) es) n"
  proof cases
    case key
    then have "index_of b n = Some i" using at [of i] len nm by (simp add: nth_append)
    moreover have "map_of (zip ?gs k) n = Some (k ! i)" using map_of_zip_nth [of ?gs k i] key d k by simp
    ultimately show ?thesis using key k by (simp add: batch_env_def agg_env_def group_row_def nth_append)
  next
    case agg
    then have "index_of b n = Some (length ?gs + j)" using at [of "length ?gs + j"] len nm by (simp add: nth_append)
    moreover have "map_of (zip ?gs k) n = None" using agg(3) k by (simp add: map_of_zip_is_None)
    moreover have "find (\<lambda>a. ag_alias a = n) ?as = Some (?as ! j)" using find_unique [of ag_alias ?as "?as ! j"] agg d by simp
    ultimately show ?thesis using agg(1) k by (simp add: batch_env_def agg_env_def group_row_def nth_append arg_of_def [abs_def] del: map_of_zip_is_None)
  next
    case other
    then have "n \<notin> set (map f_name (bfields b))" unfolding nm by auto
    then have "index_of b n = None" by (auto simp: index_of_def position_None)
    moreover have "map_of (zip ?gs k) n = None" using other(1) k by (simp add: map_of_zip_is_None)
    moreover have "find (\<lambda>a. ag_alias a = n) ?as = None" using other(2) by (simp add: find_None_all)
    ultimately show ?thesis by (simp add: batch_env_def agg_env_def del: map_of_zip_is_None)
  qed
qed

lemma finish_holding:
  assumes A: "arrow_ok (xl_arrow X)" and out: "map (\<lambda>m. (cm_name m, cm_type m)) out = spec_outputs t sp" "distinct (out_names out)" "out \<noteq> []"
    and t: "typed_rows t sp es" and exact: "spec_exact sp (arg_types t sp) es"
  obtains b where "finish_aggregator X (holding sp (arg_types t sp) out es) = Inr b" "batch_ok b" "map f_name (bfields b) = out_names out"
    "row_envs b = agg_rows agg_value sp es"
proof -
  let ?gs = "as_group_by sp" and ?as = "as_aggregates sp" and ?ks = "group_keys sp es"
  let ?nk = "length ?gs" and ?na = "length ?as" and ?row = "group_row sp es" and ?fs = "map (out_field True) out"
  let ?col = "\<lambda>j. map (\<lambda>k. ?row k ! j) ?ks"
  have len: "length out = ?nk + ?na" using arg_cong [OF out(1), of length] by (simp add: spec_outputs_def)
  have cell: "arrow_fits (arrow_type_of (cm_type (out ! j))) (?row k ! j)" if "k \<in> set ?ks" "j < length out" for k j
  proof -
    have l: "length (spec_outputs t sp) = length out" using arg_cong [OF out(1), of length] by simp
    have "spec_outputs t sp ! j = (cm_name (out ! j), cm_type (out ! j))" using that(2) by (simp flip: out(1))
    then show ?thesis using list_all2_nthD [OF group_row_fits [OF t exact that(1)], of j] l that(2) by simp
  qed
  have arr: "rbind (nth_column out j) (\<lambda>m. build_array (?col j) (cm_type m)) = Inr (?col j)" if "j < length out" for j
    using build_array_fits [of "cm_type (out ! j)" "?col j"] cell [OF _ that] that by (simp add: nth_column_ok list_all_iff)
  have gs: "(if gr_groups (holding sp (arg_types t sp) out es) = [] \<and> \<not> is_grouped (holding sp (arg_types t sp) out es)
      then [([], fresh_states (holding sp (arg_types t sp) out es))] else gr_groups (holding sp (arg_types t sp) out es)) =
      map (\<lambda>k. (k, group_states sp (arg_types t sp) (filter (\<lambda>e. key_of sp e = k) es))) ?ks"
    unfolding finished_groups [symmetric] holding_fresh by (simp add: holding_def is_grouped_def)
  have keycol: "map (\<lambda>(k, _). k ! i) (map (\<lambda>k. (k, group_states sp (arg_types t sp) (filter (\<lambda>e. key_of sp e = k) es))) ?ks) = ?col i"
    if "i < ?nk" for i
    using that by (auto simp: group_row_def nth_append group_keys_length)
  have aggcol: "map (\<lambda>(_, sts). agg_finish (sts ! i)) (map (\<lambda>k. (k, group_states sp (arg_types t sp) (filter (\<lambda>e. key_of sp e = k) es))) ?ks) = ?col (?nk + i)"
    if i: "i < ?na" for i
  proof -
    have "agg_finish (group_states sp (arg_types t sp) (filter (\<lambda>e. key_of sp e = k) es) ! i) = ?row k ! (?nk + i)" if k: "k \<in> set ?ks" for k
    proof -
      have "length (group_states sp (arg_types t sp) (filter (\<lambda>e. key_of sp e = k) es)) = ?na" by (simp add: group_states_def)
      then have "agg_finish (group_states sp (arg_types t sp) (filter (\<lambda>e. key_of sp e = k) es) ! i) =
          map agg_finish (group_states sp (arg_types t sp) (filter (\<lambda>e. key_of sp e = k) es)) ! i" using i by simp
      then show ?thesis
        unfolding group_states_finish [OF spec_exact_filter [OF exact]] using i group_keys_length [OF k] by (simp add: group_row_def nth_append)
    qed
    then show ?thesis by simp
  qed
  have kcols: "mapM (\<lambda>i. rbind (nth_column out i) (\<lambda>m. build_array (map (\<lambda>(k, _). k ! i)
      (map (\<lambda>k. (k, group_states sp (arg_types t sp) (filter (\<lambda>e. key_of sp e = k) es))) ?ks)) (cm_type m))) [0..<?nk] = Inr (map ?col [0..<?nk])"
  proof (rule mapM_Inr_map)
    fix i
    assume "i \<in> set [0..<?nk]"
    then have i: "i < ?nk" by simp
    show "rbind (nth_column out i) (\<lambda>m. build_array (map (\<lambda>(k, _). k ! i)
        (map (\<lambda>k. (k, group_states sp (arg_types t sp) (filter (\<lambda>e. key_of sp e = k) es))) ?ks)) (cm_type m)) = Inr (?col i)"
      unfolding keycol [OF i] by (rule arr) (use i len in simp)
  qed
  have vcols: "mapM (\<lambda>i. rbind (nth_column out (?nk + i)) (\<lambda>m. build_array (map (\<lambda>(_, sts). agg_finish (sts ! i))
      (map (\<lambda>k. (k, group_states sp (arg_types t sp) (filter (\<lambda>e. key_of sp e = k) es))) ?ks)) (cm_type m))) [0..<?na] = Inr (map (\<lambda>i. ?col (?nk + i)) [0..<?na])"
  proof (rule mapM_Inr_map)
    fix i
    assume "i \<in> set [0..<?na]"
    then have i: "i < ?na" by simp
    show "rbind (nth_column out (?nk + i)) (\<lambda>m. build_array (map (\<lambda>(_, sts). agg_finish (sts ! i))
        (map (\<lambda>k. (k, group_states sp (arg_types t sp) (filter (\<lambda>e. key_of sp e = k) es))) ?ks)) (cm_type m)) = Inr (?col (?nk + i))"
      unfolding aggcol [OF i] by (rule arr) (use i len in simp)
  qed
  have cols: "map ?col [0..<?nk] @ map (\<lambda>i. ?col (?nk + i)) [0..<?na] = map ?col [0..<length out]"
    unfolding len by (rule map_upt_add)
  have ok: "columns_ok ?fs (length ?ks) (map ?col [0..<length out])"
    using out(3) cell by (auto simp: columns_ok_def field_fits_def out_field_def)
  have rows: "rows_of_columns (length ?ks) (map ?col [0..<length out]) = map ?row ?ks"
    unfolding rows_of_columns_def
    by (rule nth_equalityI) (auto simp: len group_row_def group_keys_length group_keys_length [OF nth_mem] intro!: nth_equalityI)
  let ?b = "\<lparr>bfields = ?fs, brows = map ?row ?ks\<rparr>"
  have fin: "finish_aggregator X (holding sp (arg_types t sp) out es) = Inr ?b"
    using arrow_try_new [OF A ok] kcols vcols
    unfolding finish_aggregator_def gs Let_def rows by (simp add: holding_def cols)
  have names: "map f_name ?fs = out_names out" by (simp add: out_field_def out_names_def)
  have outn: "out_names out = map fst (spec_outputs t sp)" by (simp add: out_names_def flip: out(1))
  have "row_ok ?fs (?row k)" if k: "k \<in> set ?ks" for k
    using cell [OF k] group_row_length [OF k, of t] len
    by (auto simp: row_ok_def list_all2_conv_all_nth field_fits_def out_field_def spec_outputs_def)
  then have bok: "batch_ok ?b" using out(3) by (simp add: batch_ok_def list_all_iff)
  have "row_envs ?b = agg_rows agg_value sp es"
  proof -
    have "batch_env ?b (?row k) = agg_env agg_value sp k (filter (\<lambda>e. key_of sp e = k) es)" if "k \<in> set ?ks" for k
      by (rule group_env [where t = t]) (use names outn out(2) group_keys_length [OF that] in \<open>simp_all add: comp_def\<close>)
    then have "row_envs ?b = map (\<lambda>k. agg_env agg_value sp k (filter (\<lambda>e. key_of sp e = k) es)) ?ks" by (simp add: row_envs_def)
    then show ?thesis by (simp add: agg_rows_def group_keys_def key_of_def [abs_def])
  qed
  then show ?thesis using that [OF fin bok] names by simp
qed

section \<open>The whole query\<close>

lemma scan_output_types:
  assumes "schema_ok t" "set (pp_projection plan) \<subseteq> set (column_names t)" "sns \<noteq> []" "sn_schema (hd sns) = t"
  obtains inp where "scan_output_schema plan sns = Inr inp"
    "\<And>n. n \<in> set (pp_projection plan) \<Longrightarrow> map_option cm_type (out_column inp n) = Some (type_of_column t n)"
proof -
  let ?meta = "\<lambda>n. \<lparr>cm_name = n, cm_type = type_of_column t n, cm_nullable = nullable (the (column t n))\<rparr>"
  have col: "\<exists>c. column t n = Some c \<and> col_name c = n" if "n \<in> set (pp_projection plan)" for n
    using assms(2) that column_names_exist find_Some_set [of "\<lambda>c. col_name c = n" "columns t"] by (fastforce simp: column_def)
  obtain sn rest where sns: "sns = sn # rest" "sn_schema sn = t" using assms(3,4) by (cases sns) auto
  have "scan_output_schema plan sns = Inr (map ?meta (pp_projection plan))"
    unfolding scan_output_schema_def sns(1) list.case sns(2)
  proof (rule mapM_Inr_map)
    fix n
    assume "n \<in> set (pp_projection plan)"
    then show "rmap (\<lambda>c. \<lparr>cm_name = col_name c, cm_type = col_type c, cm_nullable = nullable c\<rparr>) (require_column t n) = Inr (?meta n)"
      using col by (fastforce simp: require_column_def type_of_column_def)
  qed
  moreover have "n \<in> set ns \<Longrightarrow> map_option cm_type (out_column (map ?meta ns) n) = Some (type_of_column t n)" for ns n
    by (induction ns) (auto simp: out_column_def)
  ultimately show ?thesis by (rule that)
qed

lemma new_holding:
  assumes "\<And>n. n \<in> spec_columns sp \<Longrightarrow> map_option cm_type (out_column inp n) = Some (type_of_column t n)"
  shows "new_aggregator sp inp out = holding sp (arg_types t sp) out []"
proof -
  have "map_option cm_type (Option.bind (ag_column a) (out_column inp)) = map_option (type_of_column t) (ag_column a)"
    if "a \<in> set (as_aggregates sp)" for a
    using assms that by (cases "ag_column a") (auto simp: spec_columns_def)
  then show ?thesis by (simp add: new_aggregator_def holding_def arg_types_def)
qed

text \<open>A plan with an aggregate and no projection above it.\<close>

definition agg_shape :: "physical_plan \<Rightarrow> table_schema \<Rightarrow> agg_spec \<Rightarrow> bool" where
  "agg_shape p t sp \<longleftrightarrow> agg_plan p t sp \<and> pp_rename p = None \<and> pp_output p \<noteq> [] \<and> distinct (out_names (pp_output p)) \<and>
     map (\<lambda>m. (cm_name m, cm_type m)) (pp_output p) = spec_outputs t sp \<and> so_column ` set (pp_sort p) \<subseteq> set (out_names (pp_output p))"

lemma scan_envs_eq:
  "plan_fits plan t \<Longrightarrow> scan_envs S plan t rows = filtered S (pp_filter plan) (map (restrict_env (pp_projection plan)) (map (row_env t) rows))"
  unfolding scan_envs_def by (rule scanned_envs)

lemma source_typed:
  assumes X: "exec_ok S L X" and plan: "agg_plan plan t sp" and src: "list_all2 (source_ok L s t) sns rss"
  shows "typed_rows t sp (scan_envs S plan t (concat rss))"
proof -
  let ?ns = "pp_projection plan"
  have fits: "plan_fits plan t" and cols: "spec_columns sp \<subseteq> set ?ns" using plan by (simp_all add: agg_plan_def)
  have ns: "?ns \<noteq> []" "set ?ns \<subseteq> set (column_names t)" using fits by (simp_all add: plan_fits_def)
  have ex: "\<forall>n \<in> set ?ns. column t n \<noteq> None" using ns(2) column_names_exist by blast
  have row: "row_ok (fields_of t ?ns) r" if r: "r \<in> set (scanned S plan t (concat rss))" for r
  proof -
    obtain rows r0 where r0: "rows \<in> set rss" "r0 \<in> set rows" "r = project_row t ?ns r0" using r by (auto simp: scanned_def)
    obtain sn where "source_ok L s t sn rows" using src r0(1) by (metis in_set_conv_nth list_all2_conv_all_nth)
    then obtain R where R: "snapshot_ok L s R sn" "sn_schema sn = t" "snapshot_rows R sn = rows" by (auto simp: source_ok_def)
    then show ?thesis using rows_projectable [OF _ R(1) ns(1), of r0] X ns(2) r0(2,3) by (simp add: exec_ok_def)
  qed
  let ?b = "\<lparr>bfields = fields_of t ?ns, brows = scanned S plan t (concat rss)\<rparr>"
  have b: "batch_ok ?b" using row ns(1) by (simp add: batch_ok_def list_all_iff fields_of_def)
  show ?thesis
    unfolding typed_rows_def
  proof (intro ballI)
    fix e n
    assume "e \<in> set (scan_envs S plan t (concat rss))" and n: "n \<in> spec_columns sp"
    then obtain r where r: "r \<in> set (brows ?b)" "e = batch_env ?b r" by (auto simp: scan_envs_def row_envs_def)
    obtain i where i: "position (\<lambda>f. f_name f = n) (fields_of t ?ns) = Some i" "i < length ?ns" "?ns ! i = n"
      using index_in_fields [OF _ ex] n cols by blast
    obtain c where "column t n = Some c" using ex cols n by blast
    then have "f_type (fields_of t ?ns ! i) = arrow_type_of (type_of_column t n)"
      using i by (simp add: fields_of_def arrow_field_def type_of_column_def)
    then have "batch_type ?b n = Some (arrow_type_of (type_of_column t n))" using i(1) by (simp add: batch_type_def index_of_def)
    then show "arrow_fits (arrow_type_of (type_of_column t n)) (e n)" using batch_env_fits [OF b r(1)] r(2) by simp
  qed
qed

lemma run_aggregate_rows:
  assumes X: "exec_ok S L X" "sum_kernel_ok X" and s: "store_ok s" and t: "schema_ok t" and plan: "agg_shape plan t sp"
    and src: "list_all2 (source_ok L s t) sns rss" "sns \<noteq> []" and g: "budget_of lim clock g"
    and exact: "spec_exact sp (arg_types t sp) (scan_envs S plan t (concat rss))"
  shows "case run_aggregate X s plan sp g sns of
      Inl e \<Rightarrow> limit_hit lim clock e
    | Inr (g', b) \<Rightarrow> budget_of lim clock g' \<and> batch_ok b \<and> map f_name (bfields b) = out_names (pp_output plan) \<and>
        row_envs b = agg_rows agg_value sp (scan_envs S plan t (concat rss))"
proof -
  let ?E = "scan_envs S plan t" and ?tys = "arg_types t sp" and ?out = "pp_output plan"
  let ?fresh = "holding sp ?tys ?out []"
  have A: "arrow_ok (xl_arrow X)" using X(1) by (simp add: exec_ok_def storage_ok_def)
  have p: "agg_plan plan t sp" "set (pp_projection plan) \<subseteq> set (column_names t)" "spec_columns sp \<subseteq> set (pp_projection plan)"
    using plan by (simp_all add: agg_shape_def agg_plan_def plan_fits_def)
  have "sn_schema (hd sns) = t" using src by (cases sns) (auto simp: list_all2_Cons1 source_ok_def)
  then obtain inp where inp: "scan_output_schema plan sns = Inr inp"
      "\<And>n. n \<in> set (pp_projection plan) \<Longrightarrow> map_option cm_type (out_column inp n) = Some (type_of_column t n)"
    using scan_output_types [OF t p(2) src(2)] by blast
  have new: "new_aggregator sp inp ?out = ?fresh" by (rule new_holding) (use inp(2) p(3) in blast)
  have run: "run_aggregate X s plan sp g sns =
      rbind (run_per_partition (partial_aggregate X s plan ?fresh) g sns) (\<lambda>(g, partials).
      rbind (merge_partials g None (List.map_filter (\<lambda>x. x) partials)) (\<lambda>(g, merged).
      rbind (check_deadline g) (\<lambda>g. rmap (Pair g) (finish_aggregator X (case merged of Some a \<Rightarrow> a | None \<Rightarrow> ?fresh)))))"
    by (simp only: run_aggregate_def inp(1) rbind.simps Let_def new)
  note parts = partitions_partial [OF X s p(1) src(1) _ g exact, of ?out]
  show ?thesis
  proof (cases "run_per_partition (partial_aggregate X s plan ?fresh) g sns")
    case (Inl e)
    then show ?thesis using parts by (simp add: run)
  next
    case (Inr y)
    obtain g1 ps where y: "y = (g1, ps)" by (cases y)
    let ?ess = "filter (\<lambda>es. es \<noteq> [] \<or> as_group_by sp = []) (map ?E rss)"
    have g1: "budget_of lim clock g1" and ps: "List.map_filter (\<lambda>x. x) ps = map (holding sp ?tys ?out) ?ess"
      using parts Inr y partial_results [of sp ?tys ?out ?E rss] by simp_all
    have total: "concat ?ess = ?E (concat rss)"
      unfolding concat_kept by (induction rss) simp_all
    note merged = merge_partials_holding [OF g1, of sp ?tys "[]" ?ess None ?out, unfolded append_Nil total, OF exact]
    note r1 = Inr [unfolded y]
    show ?thesis
    proof (cases "merge_partials g1 None (map (holding sp ?tys ?out) ?ess)")
      case (Inl e)
      then show ?thesis using merged r1 by (simp add: run ps)
    next
      case (Inr z)
      obtain g2 m where z: "z = (g2, m)" by (cases z)
      have g2: "budget_of lim clock g2" and m: "(case m of Some a \<Rightarrow> a | None \<Rightarrow> ?fresh) = holding sp ?tys ?out (?E (concat rss))"
        using merged Inr z by simp_all
      note r2 = Inr [unfolded z]
      show ?thesis
      proof (cases "check_deadline g2")
        case (Inl e)
        then show ?thesis using r1 r2 check_deadline_cases(1) [OF g2 Inl] by (simp add: run ps)
      next
        case (Inr g3)
        obtain b where b: "finish_aggregator X (holding sp ?tys ?out (?E (concat rss))) = Inr b" "batch_ok b"
            "map f_name (bfields b) = out_names ?out" "row_envs b = agg_rows agg_value sp (?E (concat rss))"
        proof (rule finish_holding [OF A _ _ _ source_typed [OF X(1) p(1) src(1)] exact])
          show "map (\<lambda>m. (cm_name m, cm_type m)) ?out = spec_outputs t sp" "distinct (out_names ?out)" "?out \<noteq> []"
            using plan by (simp_all add: agg_shape_def)
        qed
        then show ?thesis using r1 r2 Inr check_deadline_cases(2) [OF g2 Inr] m by (simp add: run ps)
      qed
    qed
  qed
qed

end
