(* ===== verification/ExecDemo.thy ===== *)
theory ExecDemo
  imports SelectAnswers
begin

text \<open>
  The sorting hypothesis can hold: an insertion sort of row indices satisfies it. With the demo codecs
  and kernels it makes a concrete \<open>exec_lib\<close>, and a partition with rows in its memtable.
\<close>

section \<open>Sort keys are ordered\<close>

lemma key_cmp_flip: "key_cmp k b a = flip_ord (key_cmp k a b)"
  by (simp add: key_cmp_def value_cmp_flip [of a b]) (metis flip_ord.simps(2) value_cmp_flip)

interpretation key_order: cmp_order "key_cmp k" "fits ty" for k ty
proof
  fix a b c
  assume f: "fits ty a" "fits ty b"
  then show "key_cmp k a b = Equal \<longleftrightarrow> a = b"
    using value_cmp_eq [OF f] value_cmp_eq [OF f(2,1)] by (auto simp: key_cmp_def)
  show "key_cmp k b a = flip_ord (key_cmp k a b)" by (rule key_cmp_flip)
  assume "fits ty c" "key_cmp k a b = Less" "key_cmp k b c = Less"
  then show "key_cmp k a c = Less"
    using f value_order.cmp_trans [of ty a b c] value_order.cmp_trans [of ty c b a] by (auto simp: key_cmp_def split: if_splits)
qed

lemma rows_cmp_flip: "rows_cmp cols j i = flip_ord (rows_cmp cols i j)"
proof (induction cols)
  case (Cons x cols)
  obtain k vs where "x = (k, vs)" by (cases x)
  then show ?case using Cons key_cmp_flip [of k "vs ! j" "vs ! i"] by (cases "key_cmp k (vs ! i) (vs ! j)") simp_all
qed simp

definition typed_columns :: "(sort_expr \<times> adb_value list) list \<Rightarrow> nat \<Rightarrow> bool" where
  "typed_columns cols n \<longleftrightarrow> (\<forall>(k, vs) \<in> set cols. length vs = n \<and> (\<exists>ty. list_all (fits ty) vs))"

lemma rows_cmp_trans:
  assumes "typed_columns cols n" "h < n" "i < n" "j < n" "rows_cmp cols h i \<noteq> Greater" "rows_cmp cols i j \<noteq> Greater"
  shows "rows_cmp cols h j \<noteq> Greater"
  using assms
proof (induction cols)
  case (Cons x cols)
  obtain k vs where x: "x = (k, vs)" by (cases x)
  obtain ty where "length vs = n" "list_all (fits ty) vs" using Cons.prems(1) x by (auto simp: typed_columns_def)
  then have t: "fits ty (vs ! h)" "fits ty (vs ! i)" "fits ty (vs ! j)" using Cons.prems(2-4) by (simp_all add: list_all_length)
  have IH: "rows_cmp cols h i \<noteq> Greater \<Longrightarrow> rows_cmp cols i j \<noteq> Greater \<Longrightarrow> rows_cmp cols h j \<noteq> Greater"
    using Cons.IH Cons.prems(1-4) by (simp add: typed_columns_def)
  show ?case
    using Cons.prems(5,6) IH key_order.cmp_eq [OF t(1,2), of k] key_order.cmp_eq [OF t(2,3), of k] key_order.cmp_trans [OF t, of k]
    by (cases "key_cmp k (vs ! h) (vs ! i)"; cases "key_cmp k (vs ! i) (vs ! j)") (auto simp: x split: ordering.splits)
qed simp

section \<open>An insertion sort\<close>

fun insert_by :: "('a \<Rightarrow> 'a \<Rightarrow> bool) \<Rightarrow> 'a \<Rightarrow> 'a list \<Rightarrow> 'a list" where
  "insert_by le x [] = [x]"
| "insert_by le x (y # ys) = (if le x y then x # y # ys else y # insert_by le x ys)"

definition sort_by :: "('a \<Rightarrow> 'a \<Rightarrow> bool) \<Rightarrow> 'a list \<Rightarrow> 'a list" where
  "sort_by le xs = foldr (insert_by le) xs []"

lemma insert_by_mset [simp]: "mset (insert_by le x ys) = add_mset x (mset ys)"
  by (induction ys) simp_all

lemma insert_by_set [simp]: "set (insert_by le x ys) = insert x (set ys)"
  by (induction ys) auto

lemma insert_by_sorted:
  assumes "sorted_wrt le ys" "\<And>a b c. {a, b, c} \<subseteq> insert x (set ys) \<Longrightarrow> le a b \<Longrightarrow> le b c \<Longrightarrow> le a c"
    and "\<And>a b. {a, b} \<subseteq> insert x (set ys) \<Longrightarrow> le a b \<or> le b a"
  shows "sorted_wrt le (insert_by le x ys)"
  using assms
proof (induction ys)
  case (Cons y ys)
  have IH: "sorted_wrt le (insert_by le x ys)"
    by (rule Cons.IH) (use Cons.prems(1) in simp, (rule Cons.prems(2,3); auto)+)
  show ?case
  proof (cases "le x y")
    case True
    have "le x z" if "z \<in> set ys" for z by (rule Cons.prems(2) [of x y z]) (use True that Cons.prems(1) in auto)
    then show ?thesis using Cons.prems(1) True by simp
  next
    case False
    then have "le y x" using Cons.prems(3) [of x y] by simp
    then show ?thesis using IH Cons.prems(1) False by simp
  qed
qed simp

lemma sort_by_sorted:
  assumes "\<And>a b c. {a, b, c} \<subseteq> set xs \<Longrightarrow> le a b \<Longrightarrow> le b c \<Longrightarrow> le a c" "\<And>a b. {a, b} \<subseteq> set xs \<Longrightarrow> le a b \<or> le b a"
  shows "mset (sort_by le xs) = mset xs \<and> sorted_wrt le (sort_by le xs)"
  using assms
proof (induction xs)
  case (Cons x xs)
  have IH: "mset (sort_by le xs) = mset xs \<and> sorted_wrt le (sort_by le xs)"
    by (rule Cons.IH; rule Cons.prems; auto)
  then have set: "set (sort_by le xs) = set xs" by (metis mset_eq_setD)
  have "sorted_wrt le (insert_by le x (sort_by le xs))"
    by (rule insert_by_sorted) (use IH in simp, (rule Cons.prems; use set in auto)+)
  then show ?case using IH by (simp add: sort_by_def)
qed (simp add: sort_by_def)

section \<open>Concrete libraries\<close>

definition demo_exec :: exec_lib where
  "demo_exec =
     \<lparr>xl_arrow = demo_arrow, xl_kernels = demo_kernels demo_sql,
      xl_lexsort = \<lambda>cols lim. Inr (front lim (sort_by (\<lambda>i j. rows_cmp cols i j \<noteq> Greater) [0..<length (snd (hd cols))])),
      xl_sum_int = \<lambda>vs. (case List.map_filter (\<lambda>x. x) vs of [] \<Rightarrow> None | xs \<Rightarrow> Some (sum_list xs)),
      xl_sum_float = \<lambda>vs. (case List.map_filter (\<lambda>x. x) vs of [] \<Rightarrow> None | x # xs \<Rightarrow> Some (foldl f64_add x xs))\<rparr>"

lemma arrow_type_surj: "\<exists>ty. arrow_type_of ty = t"
  by (cases t) (metis arrow_type_of.simps)+

lemma demo_lexsort_ok: "lexsort_ok demo_exec"
  unfolding lexsort_ok_def
proof (intro allI impI)
  fix cols :: "(sort_expr \<times> adb_value list) list" and n lim
  assume ne: "cols \<noteq> []" and cols: "\<forall>(k, vs) \<in> set cols. length vs = n \<and> (\<exists>ty. list_all (arrow_fits ty) vs)"
  have t: "typed_columns cols n"
    unfolding typed_columns_def
  proof clarify
    fix k vs
    assume "(k, vs) \<in> set cols"
    then obtain at where "length vs = n" "list_all (arrow_fits at) vs" using cols by blast
    moreover obtain ty where "arrow_type_of ty = at" using arrow_type_surj by blast
    ultimately show "length vs = n \<and> (\<exists>ty. list_all (fits ty) vs)" by (auto simp: fits_arrow list_all_iff intro!: exI [of _ ty])
  qed
  have n: "length (snd (hd cols)) = n" using cols ne by (cases cols) auto
  let ?le = "\<lambda>i j. rows_cmp cols i j \<noteq> Greater" and ?perm = "sort_by (\<lambda>i j. rows_cmp cols i j \<noteq> Greater) [0..<n]"
  have "mset ?perm = mset [0..<n] \<and> sorted_wrt ?le ?perm"
  proof (rule sort_by_sorted)
    fix h i j
    assume "{h, i, j} \<subseteq> set [0..<n]" "?le h i" "?le i j"
    then show "?le h j" using rows_cmp_trans [OF t, of h i j] by simp
  next
    fix i j
    show "?le i j \<or> ?le j i" using rows_cmp_flip [of cols i j] by (cases "rows_cmp cols j i") auto
  qed
  then show "\<exists>perm. xl_lexsort demo_exec cols lim = Inr (front lim perm) \<and> mset perm = mset [0..<n] \<and>
      sorted_wrt (\<lambda>i j. rows_cmp cols i j \<noteq> Greater) perm"
    by (intro exI [of _ ?perm]) (simp add: demo_exec_def n)
qed

lemma demo_exec_ok: "exec_ok demo_sql demo_lib demo_exec"
  using demo_lib_ok demo_kernels_ok by (simp add: exec_ok_def demo_exec_def demo_lib_def)

section \<open>A table with rows\<close>

definition filled_part :: partition where
  "filled_part = (snd demo_part)\<lparr>pt_state := apply_rows demo_arrow demo_batch 1 (pt_state (snd demo_part))\<rparr>"

definition filled_table :: table_store where
  "filled_table = \<lparr>ts_tenant = ''acme'', ts_database = ''shop'', ts_schema = demo_schema,
     ts_partitions = [filled_part], ts_config = demo_config\<rparr>"

lemma demo_batch_fits: "batch_fits demo_schema demo_batch"
  using demo_batch_ok by (simp add: batch_fits_def demo_batch_def value_finite_def)

lemma filled_inv: "part_inv demo_lib (fst demo_part) filled_part (\<lambda>_. [])"
  and filled_schema: "ps_schema (pt_state filled_part) = demo_schema"
  and filled_segments: "ps_segments (pt_state filled_part) = []"
proof -
  have I: "part_inv demo_lib (fst demo_part) (snd demo_part) (\<lambda>_. [])" using durableD(1) [OF demo_durable] .
  have st: "st_inv demo_lib (fst demo_part) (pt_segment_key (snd demo_part)) (\<lambda>_. []) (pt_state (snd demo_part))"
    using part_invD(5) [OF I] .
  have b: "batch_fits (ps_schema (pt_state (snd demo_part))) demo_batch" using demo_batch_fits by (simp add: demo_fields)
  note new = apply_rows_inv(1) [OF st b, of demo_arrow 1]
  show s: "ps_schema (pt_state filled_part) = demo_schema"
    using demo_fields(1) by (simp add: filled_part_def)
  have "map se_meta (ps_segments (pt_state filled_part)) = map se_meta (ps_segments (pt_state (snd demo_part)))"
    by (simp add: filled_part_def)
  then show "ps_segments (pt_state filled_part) = []" by (simp add: demo_part_def fresh_partition_def)
  show "part_inv demo_lib (fst demo_part) filled_part (\<lambda>_. [])"
    using I new s unfolding part_inv_def filled_part_def by (simp add: names_ok_def demo_fields pt_segment_key_def [abs_def])
qed

lemma filled_rows: "table_rows demo_lib (fst demo_part, filled_table) = [[VInt 1, VStr ''uae''], [VInt 5, VNull], [VInt 3, VStr ''usa'']]"
proof -
  let ?st = "pt_state (snd demo_part)"
  have st: "st_inv demo_lib (fst demo_part) (pt_segment_key (snd demo_part)) (\<lambda>_. []) ?st"
    using part_invD(5) [OF durableD(1) [OF demo_durable]] .
  have b: "batch_fits (ps_schema ?st) demo_batch" using demo_batch_fits by (simp add: demo_fields)
  have pk: "pk_indices demo_schema = [0]" by code_simp
  have empty: "seg_part (\<lambda>_. []) ?st = []" "mem_part (mem_rows (ps_memtable ?st)) ?st = []"
    by (simp_all add: demo_part_def fresh_partition_def seg_part_def mem_part_def mt_new_def mem_rows_def live_def)
  have "partition_rows demo_lib (fst demo_part, filled_part) =
      contents (\<lambda>_. []) (mem_rows (ps_memtable (pt_state filled_part))) (pt_state filled_part)"
    by (rule partition_rows_eq [OF filled_inv])
  also have "\<dots> = spec_append [0] [] (brows demo_batch)"
    using apply_rows_inv(2,3) [OF st b, of demo_arrow 1] by (simp add: contents_def filled_part_def demo_fields pk empty)
  also have "\<dots> = [[VInt 1, VStr ''uae''], [VInt 5, VNull], [VInt 3, VStr ''usa'']]"
    by (simp add: spec_append_def spec_upsert_row_def row_key_def demo_batch_def)
  finally show ?thesis by (simp add: table_rows_def filled_table_def)
qed

end
