(* ===== verification/SelectTheorems.thy ===== *)
theory SelectTheorems
  imports ExecDemo
begin

text \<open>Queries without an aggregate, from the request to the returned batch, over a table of partitions.\<close>

definition filter_fits :: "table_schema \<Rightarrow> physical_plan \<Rightarrow> bool" where
  "filter_fits t p \<longleftrightarrow> (case pp_filter p of None \<Rightarrow> True | Some e \<Rightarrow> ev_type (table_type t) e = Some ABoolean \<and> prunable t e)"

text \<open>A table whose partitions are sound and whose segment statistics hold for their rows.\<close>

definition queryable :: "storage_lib \<Rightarrow> fs_store \<Rightarrow> table_store \<Rightarrow> bool" where
  "queryable L s tb \<longleftrightarrow> store_ok s \<and> validate_schema (ts_schema tb) = Inr () \<and> ts_partitions tb \<noteq> [] \<and>
     (\<forall>p \<in> set (ts_partitions tb). ps_schema (pt_state p) = ts_schema tb \<and> (\<exists>R. part_inv L s p R \<and> stats_ok R (snapshot p))) \<and>
     length (table_rows L (s, tb)) \<le> usize_max"

lemma queryable_sources:
  assumes "queryable L s tb"
  shows "list_all2 (source_ok L s (ts_schema tb)) (table_snapshots tb) (map (\<lambda>p. partition_rows L (s, p)) (ts_partitions tb))"
proof -
  have "source_ok L s (ts_schema tb) (snapshot p) (partition_rows L (s, p))" if "p \<in> set (ts_partitions tb)" for p
  proof -
    have "ps_schema (pt_state p) = ts_schema tb \<and> (\<exists>R. part_inv L s p R \<and> stats_ok R (snapshot p))"
      using assms that unfolding queryable_def by blast
    then obtain R where R: "part_inv L s p R" "stats_ok R (snapshot p)" "ps_schema (pt_state p) = ts_schema tb" by blast
    have "sn_schema (snapshot p) = ts_schema tb" using R(3) by (simp add: snapshot_def Let_def)
    then show ?thesis using snapshot_of_partition [OF R(1)] R(2) by (auto simp: source_ok_def)
  qed
  then show ?thesis by (simp add: table_snapshots_def list.rel_map list_all2_same)
qed

text \<open>The shape of a plan built from a validated query.\<close>

lemma built_plan_shape:
  assumes "validate_schema t = Inr ()" "validate L t lim q0 = Inr v" "build_plan v = Inr p" "flat_limits (vq_query v)"
  shows "pp_projection p \<noteq> []" "set (pp_projection p) \<subseteq> set (column_names t)"
    "opt_columns (pp_filter p) \<subseteq> set (pp_projection p)" "opt_spec_columns (pp_aggregate p) \<subseteq> set (pp_projection p)"
    "pp_pruning p = (case pp_filter p of None \<Rightarrow> [] | Some e \<Rightarrow> extract_prune_atoms e)"
    "pp_aggregate p = None \<Longrightarrow> select_shape p" "pp_output p = vq_schema v"
proof -
  have t: "schema_ok t" using assms(1) by (simp add: validate_schema_iff)
  obtain ws where w: "walk_plan L t lim q0 = Inr (vq_query v, vq_schema v, ws)" "vq_schema v \<noteq> []"
    using assms(2) by (auto simp: validate_def result_simps split: if_splits)
  obtain st tr needed where b: "foldM lower_node lo_start (rev (nodes_from (vq_query v))) = Inr st" "needed_columns st = Inr needed"
      "pushed_projection (lo_columns st) needed = Inr (pp_projection p)" "pp_filter p = lo_filter st" "pp_aggregate p = lo_aggregate st"
      "pp_rename p = lo_rename st" "pp_sort p = lo_sort st" "pp_output p = vq_schema v"
      "pp_pruning p = (case lo_filter st of None \<Rightarrow> [] | Some e \<Rightarrow> extract_prune_atoms e)"
    using assms(3) by (rule build_plan_cases)
  have I: "lower_inv st (vq_query v) (vq_schema v)" using lower_walk [OF w(1) assms(4) b(1)] by simp
  note N = needed_within [OF I b(2)] and P = pushed_projection_cases [OF b(3) needed_within(1) [OF I b(2)]]
  obtain ns where ns: "scan_request (vq_query v) = Some ns" "scan_names t (scan_request q0) = Inr ns" using walk_request [OF w(1)] by blast
  have cols: "set (lo_columns st) \<subseteq> set (column_names t)" using I ns scan_names_ok [OF t ns(2)] by (simp add: lower_inv_def column_names_def)
  show "pp_projection p \<noteq> []" using P(2) .
  show "set (pp_projection p) \<subseteq> set (column_names t)" using P(4) cols by blast
  show "opt_columns (pp_filter p) \<subseteq> set (pp_projection p)" "opt_spec_columns (pp_aggregate p) \<subseteq> set (pp_projection p)"
    using N(2,3) P(3) b(4,5) by auto
  show "pp_pruning p = (case pp_filter p of None \<Rightarrow> [] | Some e \<Rightarrow> extract_prune_atoms e)" using b(4,9) by simp
  show "pp_output p = vq_schema v" by (rule b(8))
  assume agg: "pp_aggregate p = None"
  have d: "distinct (out_names (vq_schema v))" "vq_schema v \<noteq> []" using walk_names [OF t w(1)] w(2) by simp_all
  have "case lo_rename st of None \<Rightarrow> set (out_names (vq_schema v)) \<subseteq> set (pp_projection p)
      | Some m \<Rightarrow> out_names (vq_schema v) = map snd m \<and> set (map fst m) \<subseteq> set (pp_projection p)"
  proof (cases "lo_rename st")
    case None
    then have "set (out_names (vq_schema v)) = set (lo_columns st)" using I agg b(5) by (simp add: lower_inv_def LowerProps.names_ok_def)
    then show ?thesis using None N(5) P(3) agg b(5) by auto
  next
    case (Some m)
    then show ?thesis using I N(4) [OF _ Some] P(3) agg b(5) by (auto simp: lower_inv_def LowerProps.names_ok_def)
  qed
  then show "select_shape p"
    using I agg b(5-7) d by (simp add: select_shape_def lower_inv_def b(8) out_names_def cong: option.case_cong)
qed

lemma built_plan_fits:
  assumes "validate_schema t = Inr ()" "validate L t lim q0 = Inr v" "build_plan v = Inr p" "flat_limits (vq_query v)" "filter_fits t p"
  shows "plan_fits p t"
  using built_plan_shape(1-3,5) [OF assms(1-4)] assms(5)
  by (auto simp: plan_fits_def filter_fits_def opt_columns_def split: option.splits)

lemma select_executed:
  assumes "validate V (ts_schema tb) planned q0 = Inr v" "build_plan v = Inr p" "pp_aggregate p = None"
    and "flat_limits (vq_query v)" "filter_fits (ts_schema tb) p"
    and "exec_ok S L X" "lexsort_ok X" "queryable L s tb"
  shows "case execute X s clock p (table_snapshots tb) lim of
      Inl e \<Rightarrow> limit_hit lim clock e
    | Inr q \<Rightarrow> \<exists>out \<in> answers S F (map (row_env (ts_schema tb)) (table_rows L (s, tb))) (vq_query v).
        map f_name (bfields (qr_batch q)) = out_names (vq_schema v) \<and>
        brows (qr_batch q) = rendered (out_names (vq_schema v)) (if pp_limit p = None then take (max_rows lim) out else out) \<and>
        qr_warnings q = (if pp_limit p = None \<and> max_rows lim < length out then [ResultTruncated (max_rows lim)] else [])"
proof -
  let ?t = "ts_schema tb" and ?rows = "table_rows L (s, tb)"
  have t: "validate_schema ?t = Inr ()" "store_ok s" "length ?rows \<le> usize_max" using assms(8) by (simp_all add: queryable_def)
  note shape = built_plan_shape(6,7) [OF t(1) assms(1,2,4)]
  have rows: "concat (map (\<lambda>p. partition_rows L (s, p)) (ts_partitions tb)) = ?rows" by (simp add: table_rows_def)
  have a: "answered S F p lim clock (map (row_env ?t) ?rows) (execute X s clock p (table_snapshots tb) lim)"
    using execute_select [OF assms(6,7) t(2) built_plan_fits [OF t(1) assms(1,2,4,5)] shape(1) [OF assms(3)] queryable_sources [OF assms(8)]] t(3)
    unfolding rows by simp
  have p: "pipeline S F p (map (row_env ?t) ?rows) = answers S F (map (row_env ?t) ?rows) (vq_query v)"
    by (rule lower_pipeline [OF assms(1,2,4)])
  show ?thesis using a unfolding answered_def budgeted_def shape(2) p .
qed

section \<open>The property\<close>


lemma filled_queryable: "queryable demo_lib (fst demo_part) filled_table"
proof -
  have "stats_ok (\<lambda>_. []) (snapshot filled_part)" by (simp add: stats_ok_def)
  then show ?thesis
    using filled_inv filled_schema filled_rows demo_schema_ok part_invD(2) [OF filled_inv]
    by (auto simp: queryable_def filled_table_def usize_max_def)
qed

lemma demo_filter_fits: "filter_fits demo_schema demo_plan"
  by (simp add: filter_fits_def demo_plan_def demo_checked_def table_type_def column_def demo_schema_def new_table_def new_column_def
    is_arithmetic_def is_logical_def prunable_def extract_prune_atoms_def is_comparison_def comparison_atoms_def atom_typed_def
    atom_binary_def atom_unary_def type_of_column_def fits_def)

lemma demo_answers:
  "\<forall>out \<in> answers demo_sql (\<lambda>_ _. VNull) (map (row_env demo_schema) (table_rows demo_lib (fst demo_part, filled_table))) (vq_query demo_validated).
     rendered (out_names (vq_schema demo_validated)) out = [[VInt 3, VStr ''usa'']]"
  unfolding filled_rows demo_validated_def demo_checked_def
    by (simp add: sql_and out_names_def rendered_def window_def)
      (simp add: sql_holds_def sql_binary_def is_comparison_def compare_values_def row_env_def restrict_env_def demo_names)


end
