(* ===== verification/AggPlans.thy ===== *)
theory AggPlans
  imports AggAnswers SelectTheorems
begin

text \<open>The plans validation and lowering build for an aggregate: the types and names of their output columns.\<close>

definition agg_inv :: "table_schema \<Rightarrow> lowering \<Rightarrow> output_schema \<Rightarrow> bool" where
  "agg_inv t st sc \<longleftrightarrow>
     (case lo_aggregate st of
        None \<Rightarrow> \<forall>m \<in> set sc. cm_type m = type_of_column t (case lo_rename st of None \<Rightarrow> cm_name m | Some r \<Rightarrow> the (source_of r (cm_name m)))
      | Some sp \<Rightarrow> as_aggregates sp \<noteq> [] \<and>
          (lo_rename st = None \<longrightarrow> map (\<lambda>m. (cm_name m, cm_type m)) sc = spec_outputs t sp \<and> so_column ` set (lo_sort st) \<subseteq> set (out_names sc)))"

lemma agg_inv_update [simp]:
  "agg_inv t (st\<lparr>lo_stage := s\<rparr>) sc = agg_inv t st sc" "agg_inv t (st\<lparr>lo_limit := n\<rparr>) sc = agg_inv t st sc"
  "agg_inv t (st\<lparr>lo_offset := k\<rparr>) sc = agg_inv t st sc" "agg_inv t (st\<lparr>lo_filter := p\<rparr>) sc = agg_inv t st sc"
  by (simp_all add: agg_inv_def cong: option.case_cong)

lemma scan_types:
  assumes "mapM (\<lambda>n. rmap meta_of (require_column t n)) ns = Inr sc" "m \<in> set sc"
  shows "cm_type m = type_of_column t (cm_name m)"
proof -
  obtain n where n: "rmap meta_of (require_column t n) = Inr m" using mapM_Inr_set [OF assms] by blast
  then obtain c where c: "column t n = Some c" "m = meta_of c" by (auto simp: require_column_def result_simps)
  then have "col_name c = n" using find_Some_set [of "\<lambda>c. col_name c = n" "columns t"] by (simp add: column_def)
  then show ?thesis using c by (simp add: meta_of_def type_of_column_def)
qed

lemma check_project_types:
  "check_project sc seen es = Inr rs \<Longrightarrow> m \<in> set (map snd rs) \<Longrightarrow>
   \<exists>src m0. source_of (project_map es) (cm_name m) = Some src \<and> out_column sc src = Some m0 \<and> cm_type m = cm_type m0"
proof (induction es arbitrary: seen rs)
  case (Cons x es)
  obtain e a where x: "x = (e, a)" by (cases x)
  from Cons.prems(1) obtain src m0 rest where c: "as_column e = Some src" "out_column sc src = Some m0" "check_project sc (a # seen) es = Inr rest"
      "rs = ((EColumn src, a), m0\<lparr>cm_name := a\<rparr>) # rest"
    by (auto simp: x result_simps split: if_splits)
  have a: "cm_name m' \<noteq> a" if "m' \<in> set (map snd rest)" for m'
  proof -
    have "cm_name m' \<in> set (out_names (map snd rest))" using that by (auto simp: out_names_def)
    moreover have "out_names (map snd rest) = map snd es" "set (map snd es) \<inter> set (a # seen) = {}" using check_project_names [OF c(3)] by blast+
    ultimately show ?thesis by auto
  qed
  show ?case
  proof (cases "m \<in> set (map snd rest)")
    case True
    then show ?thesis using Cons.IH [OF c(3)] a [OF True] c(1) by (auto simp: x project_map_def source_of_def)
  next
    case False
    then have "m = m0\<lparr>cm_name := a\<rparr>" using Cons.prems(2) c(4) by auto
    then show ?thesis using c(1,2) by (auto simp: x project_map_def source_of_def)
  qed
qed simp

lemma source_of_map: "source_of (map (\<lambda>(s, a). (f s, a)) m) n = map_option f (source_of m n)"
  by (induction m) (auto simp: source_of_def)

lemma compose_source:
  assumes "\<And>ex. old = Some ex \<Longrightarrow> set (map fst m) \<subseteq> set (map snd ex)" "source_of m n = Some s"
  shows "the (source_of (compose_rename old m) n) = (case old of None \<Rightarrow> s | Some ex \<Rightarrow> the (source_of ex s))"
proof (cases old)
  case None
  then show ?thesis using assms(2) by (simp add: compose_rename_def)
next
  case (Some ex)
  have "s \<in> set (map snd ex)" using assms(1) [OF Some] source_of_Some [OF assms(2)] by force
  then obtain b where b: "source_of ex s = Some b" using source_of_in by blast
  then show ?thesis using Some assms(2) source_of_map [of "\<lambda>s. case source_of ex s of Some base \<Rightarrow> base | None \<Rightarrow> s" m n]
    by (simp add: compose_rename_def)
qed

lemma check_aggregates_metas:
  assumes "\<And>n m. out_column sc n = Some m \<Longrightarrow> cm_type m = type_of_column t n"
  shows "check_aggregates u sc seen as = Inr bs \<Longrightarrow>
    map (\<lambda>m. (cm_name m, cm_type m)) (map (agg_meta sc) bs) =
    map (\<lambda>a. (ag_alias a, output_type (ag_func a) (map_option (type_of_column t) (ag_column a)))) bs"
proof -
  assume c: "check_aggregates u sc seen as = Inr bs"
  have "map_option cm_type (Option.bind (ag_column b) (out_column sc)) = map_option (type_of_column t) (ag_column b)" if b: "b \<in> set bs" for b
  proof (cases "ag_column b")
    case (Some n)
    then have "out_column sc n \<noteq> None" using check_aggregates_columns [OF c b] out_column_None by blast
    then show ?thesis using Some assms by auto
  qed simp
  then show ?thesis by (simp add: agg_meta_def)
qed

lemma agg_walk:
  assumes "schema_ok t" "walk_plan L t lim q0 = Inr (q, sc, ws)" "flat_limits q" "foldM lower_node lo_start (rev (nodes_from q)) = Inr st"
  shows "agg_inv t st sc"
  using assms(2-4)
proof (induction q0 arbitrary: q sc ws st)
  case (QScan tr cols)
  from QScan.prems(1) have c: "check_scan t tr cols = Inr (q, sc)" by (auto simp: result_simps)
  obtain ns where n: "q = QScan tr (Some ns)" "mapM (\<lambda>n. rmap meta_of (require_column t n)) ns = Inr sc"
    using c by (rule check_scan_cases)
  then have "st = lo_start\<lparr>lo_table := Some tr, lo_columns := ns\<rparr>"
    using QScan.prems(3) by (auto simp: lower_node_Inr lo_start_def max_def stage_le)
  then show ?case using scan_types [OF n(2)] by (simp add: agg_inv_def lo_start_def)
next
  case (QFilter q1 p0)
  from QFilter.prems(1) obtain r p ty where w: "walk_plan L t lim q1 = Inr (r, sc, ws)" "q = QFilter r p"
    by (auto simp: result_simps split: if_splits)
  from QFilter.prems(3) obtain u st' where u: "foldM lower_node lo_start (rev (nodes_from r)) = Inr u"
      "lower_filter u p = Inr st'" "st = st'\<lparr>lo_stage := max (lo_stage st') SFilter\<rparr>"
    by (auto simp: w(2) foldM_snoc lower_node_Inr)
  have "flat_limits r" using QFilter.prems(2) w(2) by simp
  then have "agg_inv t u sc" using QFilter.IH [OF w(1) _ u(1)] by simp
  then show ?case using u(2,3) by (auto simp: lower_filter_def result_simps)
next
  case (QProject q1 es)
  from QProject.prems(1) obtain r sc0 rs where w: "walk_plan L t lim q1 = Inr (r, sc0, ws)" "check_project sc0 [] es = Inr rs"
      "q = QProject r (map fst rs)" "sc = map snd rs"
    by (auto simp: result_simps split: if_splits)
  from QProject.prems(3) obtain u st' where u: "foldM lower_node lo_start (rev (nodes_from r)) = Inr u"
      "lower_project u es = Inr st'" "st = st'\<lparr>lo_stage := max (lo_stage st') SRename\<rparr>"
    using check_project_names [OF w(2)] by (auto simp: w(3) foldM_snoc lower_node_Inr)
  have f: "flat_limits r" using QProject.prems(2) w(3) by simp
  have I: "agg_inv t u sc0" using QProject.IH [OF w(1) f u(1)] .
  have st': "st' = u\<lparr>lo_rename := Some (compose_rename (lo_rename u) (project_map es))\<rparr>"
    using u(2) by (auto simp: lower_project_def result_simps dest: project_sources)
  have nm: "LowerProps.names_ok u sc0" using lower_walk [OF w(1) f u(1)] by (simp add: lower_inv_def)
  show ?case
  proof (cases "lo_aggregate u")
    case None
    have ex: "set (map fst (project_map es)) \<subseteq> set (map snd ex)" if "lo_rename u = Some ex" for ex
      using check_project_sources [OF w(2)] nm that by (simp add: LowerProps.names_ok_def)
    have "cm_type m = type_of_column t (the (source_of (compose_rename (lo_rename u) (project_map es)) (cm_name m)))" if m: "m \<in> set sc" for m
    proof -
      obtain src m0 where s: "source_of (project_map es) (cm_name m) = Some src" "out_column sc0 src = Some m0" "cm_type m = cm_type m0"
        using check_project_types [OF w(2)] m w(4) by metis
      have "m0 \<in> set sc0" "cm_name m0 = src" using out_column_name [OF s(2)] by simp_all
      then have "cm_type m0 = type_of_column t (case lo_rename u of None \<Rightarrow> src | Some r \<Rightarrow> the (source_of r src))"
        using I None by (auto simp: agg_inv_def)
      then show ?thesis using compose_source [OF ex s(1)] s(3) by simp
    qed
    then show ?thesis using u(3) st' None by (simp add: agg_inv_def)
  next
    case (Some sp)
    then show ?thesis using I u(3) st' by (simp add: agg_inv_def)
  qed
next
  case (QAggregate q1 gs as)
  from QAggregate.prems(1) obtain r sc0 ms bs where w: "walk_plan L t lim q1 = Inr (r, sc0, ws)" "check_groups sc0 [] gs = Inr ms"
      "check_aggregates t sc0 (rev gs) as = Inr bs" "q = QAggregate r gs bs" "sc = ms @ map (agg_meta sc0) bs" "as \<noteq> []"
    by (auto simp: result_simps split: if_splits)
  from QAggregate.prems(3) obtain u st' where u: "foldM lower_node lo_start (rev (nodes_from r)) = Inr u" "stage_allowed u SAggregate"
      "lower_aggregate u gs bs = Inr st'" "st = st'\<lparr>lo_stage := max (lo_stage st') SAggregate\<rparr>"
    by (auto simp: w(4) foldM_snoc lower_node_Inr)
  have f: "flat_limits r" using QAggregate.prems(2) w(4) by simp
  have I: "agg_inv t u sc0" using QAggregate.IH [OF w(1) f u(1)] .
  have L: "lower_inv u r sc0" using lower_walk [OF w(1) f u(1)] by simp
  have sort: "lo_sort u = []" using allowed_early [OF L u(2)] by (simp add: stage_le)
  have n: "lo_aggregate u = None" and id: "\<And>m. lo_rename u = Some m \<Longrightarrow> \<forall>(s, a) \<in> set m. s = a"
    and st': "st' = u\<lparr>lo_rename := None, lo_aggregate := Some \<lparr>as_group_by = gs, as_aggregates = bs\<rparr>\<rparr>"
    using u(3) by (auto simp: lower_aggregate_def list_ex_iff result_simps split: option.splits if_splits)
  have type: "cm_type m = type_of_column t (cm_name m)" if m: "m \<in> set sc0" for m
  proof (cases "lo_rename u")
    case None
    then show ?thesis using I n m by (simp add: agg_inv_def)
  next
    case (Some r')
    have "out_names sc0 = map snd r'" using L Some by (simp add: lower_inv_def LowerProps.names_ok_def)
    moreover have "cm_name m \<in> set (out_names sc0)" using m by (simp add: out_names_def)
    ultimately have "source_of r' (cm_name m) = Some (cm_name m)" using source_of_id [OF id [OF Some]] by simp
    then show ?thesis using I n m Some by (simp add: agg_inv_def)
  qed
  have oc: "cm_type m = type_of_column t n" if "out_column sc0 n = Some m" for n m
    using out_column_name [OF that] type [of m] by simp
  have G: "out_names ms = gs" "\<forall>m \<in> set ms. m \<in> set sc0" using check_groups_names [OF w(2)] by simp_all
  have "map (\<lambda>m. (cm_name m, cm_type m)) ms = map (\<lambda>k. (k, type_of_column t k)) (out_names ms)"
    using G(2) type by (simp add: out_names_def)
  moreover have "map (\<lambda>m. (cm_name m, cm_type m)) (map (agg_meta sc0) bs) =
      map (\<lambda>a. (ag_alias a, output_type (ag_func a) (map_option (type_of_column t) (ag_column a)))) bs"
    by (rule check_aggregates_metas [OF oc w(3)])
  moreover have "bs \<noteq> []" using check_aggregates_names [OF w(3)] w(6) by auto
  ultimately show ?case using u(4) st' sort G(1) by (simp add: agg_inv_def w(5) spec_outputs_def)
next
  case (QSort q1 ks)
  from QSort.prems(1) obtain r js where w: "walk_plan L t lim q1 = Inr (r, sc, ws)" "mapM (check_sort sc) ks = Inr js" "q = QSort r js"
    by (auto simp: result_simps split: if_splits)
  from QSort.prems(3) obtain u where u: "foldM lower_node lo_start (rev (nodes_from r)) = Inr u"
      "st = u\<lparr>lo_sort := js, lo_stage := max (lo_stage u) SSort\<rparr>"
    by (auto simp: w(3) foldM_snoc lower_node_Inr)
  have f: "flat_limits r" using QSort.prems(2) w(3) by simp
  have "agg_inv t u sc" using QSort.IH [OF w(1) f u(1)] .
  moreover have "so_column ` set js \<subseteq> set (out_names sc)" using check_sort_columns [OF w(2)] check_sort_idem [OF w(2)] by simp
  ultimately show ?case using u(2) by (simp add: agg_inv_def split: option.splits)
next
  case (QLimit q1 n0 k)
  from QLimit.prems(1) obtain r ws0 n where w: "walk_plan L t lim q1 = Inr (r, sc, ws0)" "q = QLimit r n k"
    by (auto simp: result_simps split: if_splits)
  from QLimit.prems(3) obtain u where u: "foldM lower_node lo_start (rev (nodes_from r)) = Inr u"
      "st = u\<lparr>lo_limit := Some (case lo_limit u of None \<Rightarrow> n | Some m \<Rightarrow> min m n),
               lo_offset := saturating_add (lo_offset u) k, lo_stage := max (lo_stage u) SLimit\<rparr>"
    by (auto simp: w(2) foldM_snoc lower_node_Inr)
  have f: "flat_limits r" using QLimit.prems(2) w(2) by simp
  show ?case using QLimit.IH [OF w(1) f u(1)] u(2) by simp
next
  case (QJoin l r p)
  from QJoin.prems(1) show ?case by simp
qed

lemma built_agg_shape:
  assumes "validate_schema t = Inr ()" "validate L t lim q0 = Inr v" "build_plan v = Inr p" "flat_limits (vq_query v)" "filter_fits t p"
    and "pp_aggregate p = Some sp" "pp_rename p = None"
  shows "agg_shape p t sp"
proof -
  have t: "schema_ok t" using assms(1) by (simp add: validate_schema_iff)
  obtain ws where w: "walk_plan L t lim q0 = Inr (vq_query v, vq_schema v, ws)" "vq_schema v \<noteq> []"
    using assms(2) by (auto simp: validate_def result_simps split: if_splits)
  obtain st tr needed where b: "foldM lower_node lo_start (rev (nodes_from (vq_query v))) = Inr st"
      "pp_aggregate p = lo_aggregate st" "pp_rename p = lo_rename st" "pp_sort p = lo_sort st" "pp_output p = vq_schema v"
    using assms(3) by (rule build_plan_cases)
  have "agg_inv t st (vq_schema v)" by (rule agg_walk [OF t w(1) assms(4) b(1)])
  moreover have "spec_columns sp \<subseteq> set (pp_projection p)"
    using built_plan_shape(4) [OF assms(1-4)] assms(6) by (simp add: opt_spec_columns_def)
  ultimately show ?thesis
    using built_plan_fits [OF assms(1-5)] assms(6,7) b(2-5) w(2) walk_names [OF t w(1)]
    by (simp add: agg_shape_def agg_plan_def agg_inv_def)
qed

end
