(* ===== verification/AggTheorems.thy ===== *)
theory AggTheorems
  imports AggPlans
begin

text \<open>Queries with an aggregate, from the request to the returned batch, over a table of partitions.\<close>

section \<open>Executing\<close>

text \<open>The count a plan takes from the metadata of the segments, without reading rows.\<close>

definition counts_only :: "physical_plan \<Rightarrow> bool" where
  "counts_only p \<longleftrightarrow> pp_filter p = None \<and>
     (case pp_aggregate p of
        None \<Rightarrow> False
      | Some sp \<Rightarrow> as_group_by sp = [] \<and> (case as_aggregates sp of [a] \<Rightarrow> ag_func a = FCount \<and> ag_column a = None | _ \<Rightarrow> False))"

lemma metadata_skipped: "\<not> counts_only p \<Longrightarrow> try_metadata_count X p sns = Inr None"
  by (auto simp: counts_only_def try_metadata_count_def split: option.splits list.splits)

lemma metadata_counted:
  assumes A: "arrow_ok (xl_arrow X)" and p: "counts_only p"
  obtains sp a where "pp_aggregate p = Some sp" "as_group_by sp = []" "as_aggregates sp = [a]" "ag_func a = FCount" "ag_column a = None" "pp_filter p = None"
    "try_metadata_count X p sns = Inr (Some \<lparr>bfields = [\<lparr>f_name = ag_alias a, f_type = AInt64, f_nullable = False\<rparr>],
       brows = [[VInt (of_nat (sum_list (map visible_rows sns)))]]\<rparr>)"
proof -
  obtain sp a where a: "pp_aggregate p = Some sp" "as_group_by sp = []" "as_aggregates sp = [a]" "ag_func a = FCount" "ag_column a = None" "pp_filter p = None"
    using p by (auto simp: counts_only_def split: option.splits list.splits)
  let ?n = "VInt (of_nat (sum_list (map visible_rows sns)))" and ?f = "\<lparr>f_name = ag_alias a, f_type = AInt64, f_nullable = False\<rparr>"
  have "columns_ok [?f] 1 [[?n]]" by (simp add: columns_ok_def field_fits_def)
  from arrow_try_new [OF A this] have "try_new (xl_arrow X) [?f] [[?n]] = Inr \<lparr>bfields = [?f], brows = [[?n]]\<rparr>" by (simp add: rows_of_columns_def)
  then have "try_metadata_count X p sns = Inr (Some \<lparr>bfields = [?f], brows = [[?n]]\<rparr>)"
    using a by (simp add: try_metadata_count_def Let_def build_array_def build_cell_def)
  then show ?thesis using that a by blast
qed

lemma agg_pipeline:
  assumes "agg_shape p t sp"
  shows "pipeline S agg_value p (map (row_env t) rows) =
    window (pp_limit p) (pp_offset p) ` sort_answers (pp_sort p) (agg_rows agg_value sp (scan_envs S p t rows))"
  using assms scan_envs_eq [of p t S rows] by (simp add: pipeline_def renamed_def aggregated_def agg_shape_def agg_plan_def)

lemma restricted_exact:
  assumes "spec_columns sp \<subseteq> set ns"
  shows "spec_exact sp tys (map (restrict_env ns) es) \<longleftrightarrow> spec_exact sp tys es"
proof -
  have "arg_of a (restrict_env ns e) = arg_of a e" if "a \<in> set (as_aggregates sp)" for a e
    using assms that by (cases "ag_column a") (auto simp: arg_of_def spec_columns_def)
  then show ?thesis
    by (auto simp: spec_exact_def list_all2_conv_all_nth comp_def cong: map_cong)
qed

lemma scan_exact:
  assumes "agg_plan p t sp" "spec_exact sp tys (filtered S (pp_filter p) (map (row_env t) rows))"
  shows "spec_exact sp tys (scan_envs S p t rows)"
proof -
  have p: "plan_fits p t" "spec_columns sp \<subseteq> set (pp_projection p)" "opt_columns (pp_filter p) \<subseteq> set (pp_projection p)"
    using assms(1) by (auto simp: agg_plan_def plan_fits_def opt_columns_def split: option.splits)
  show ?thesis
    unfolding scan_envs_eq [OF p(1)] filtered_restrict [OF p(3)] restricted_exact [OF p(2)] by (rule assms(2))
qed

lemma agg_rows_length: "length (agg_rows F sp es) \<le> max 1 (length es)"
proof -
  have "length (first_occurrences xs) \<le> length xs" for xs :: "'a list" by (induction xs rule: rev_induct) auto
  from this [of "map (\<lambda>e. map e (as_group_by sp)) es"] show ?thesis by (simp add: agg_rows_def le_max_iff_disj)
qed

lemma execute_aggregate:
  assumes X: "exec_ok S L X" "lexsort_ok X" "sum_kernel_ok X" and s: "store_ok s" and t: "schema_ok t" and plan: "agg_shape p t sp" "\<not> counts_only p"
    and src: "list_all2 (source_ok L s t) sns rss" "sns \<noteq> []" and small: "length (concat rss) \<le> usize_max"
    and exact: "spec_exact sp (arg_types t sp) (filtered S (pp_filter p) (map (row_env t) (concat rss)))"
  shows "answered S agg_value p lim clock (map (row_env t) (concat rss)) (execute X s clock p sns lim)"
proof -
  let ?E = "agg_rows agg_value sp (scan_envs S p t (concat rss))" and ?out = "pp_output p" and ?g = "new_budget clock lim"
  have A: "arrow_ok (xl_arrow X)" using X(1) by (simp add: exec_ok_def storage_ok_def)
  have P: "agg_plan p t sp" "pp_aggregate p = Some sp" "pp_rename p = None"
    and out: "out_names ?out \<noteq> []" "distinct (out_names ?out)" "so_column ` set (pp_sort p) \<subseteq> set (out_names ?out)"
    using plan(1) by (simp_all add: agg_shape_def agg_plan_def out_names_def)
  note ex = execute_conclude [OF metadata_skipped [OF plan(2)], where X = X and sns = sns and s = s and clock = clock and lim = lim, unfolded P(2) option.case]
  note run = run_aggregate_rows [OF X(1,3) s t plan(1) src new_budget_of [of lim clock] scan_exact [OF P(1) exact]]
  show ?thesis
  proof (cases "run_aggregate X s p sp ?g sns")
    case (Inl e)
    then show ?thesis using run by (simp add: answered_def ex)
  next
    case (Inr y)
    obtain g1 b where y: "y = (g1, b)" by (cases y)
    then have b: "budget_of lim clock g1" "batch_ok b" "map f_name (bfields b) = out_names ?out" "row_envs b = ?E" using run Inr by simp_all
    have ren: "apply_rename X p b = Inr b" using P(3) by (simp add: apply_rename_def)
    show ?thesis
    proof (cases "check_deadline g1")
      case (Inl e)
      then show ?thesis using \<open>run_aggregate X s p sp ?g sns = Inr y\<close> y ren check_deadline_cases(1) [OF b(1)] by (simp add: answered_def ex)
    next
      case (Inr g2)
      have "length (scan_envs S p t (concat rss)) \<le> length (concat rss)"
        by (simp add: scan_envs_def row_envs_def scanned_def)
      then have len: "length ?E \<le> usize_max" using agg_rows_length [of agg_value sp "scan_envs S p t (concat rss)"] small by (simp add: usize_max_def)
      have rows: "case stream_cap p of None \<Rightarrow> row_envs b = ?E | Some c \<Rightarrow> take c (row_envs b) = take c ?E"
        using b(4) by (simp split: option.split)
      obtain q full where q: "conclude X p g2 b = Inr q" "full \<in> sort_answers (pp_sort p) ?E"
          "map f_name (bfields (qr_batch q)) = out_names ?out"
          "brows (qr_batch q) = rendered (out_names ?out) (budgeted lim (pp_limit p) (window (pp_limit p) (pp_offset p) full))"
          "qr_warnings q = (if pp_limit p = None \<and> max_rows lim < length (window (pp_limit p) (pp_offset p) full) then [ResultTruncated (max_rows lim)] else [])"
        using conclude_answers [OF A X(2) check_deadline_cases(2) [OF b(1) Inr] out b(2) _ rows len] b(3) by auto
      have "execute X s clock p sns lim = Inr q"
        using \<open>run_aggregate X s p sp ?g sns = Inr y\<close> y ren Inr q(1) by (simp add: ex)
      moreover have "window (pp_limit p) (pp_offset p) full \<in> pipeline S agg_value p (map (row_env t) (concat rss))"
        using q(2) by (simp add: agg_pipeline [OF plan(1)])
      ultimately show ?thesis unfolding answered_def using q(3-5) by auto
    qed
  qed
qed

section \<open>The properties\<close>

text \<open>
  C3: aggregates are computed as if all rows were read once: for counts, minima, maxima and integer
  sums that stay in range, executing the plan of a validated query that groups and aggregates over
  the snapshots of a table fails only on a limit of the request, or returns one of the answers of the
  query over the rows of the table, whatever the partitions, segments and order in which partial
  results are merged. Groups appear in the order of their first row when the query does not sort.
\<close>

theorem aggregate_exact:
  assumes "validate V (ts_schema tb) planned q0 = Inr v" "build_plan v = Inr p" "pp_aggregate p = Some sp" "pp_rename p = None"
    and "flat_limits (vq_query v)" "filter_fits (ts_schema tb) p" "\<not> counts_only p"
    and "exec_ok S L X" "lexsort_ok X" "sum_kernel_ok X" "queryable L s tb"
    and "spec_exact sp (arg_types (ts_schema tb) sp) (filtered S (pp_filter p) (map (row_env (ts_schema tb)) (table_rows L (s, tb))))"
  shows "case execute X s clock p (table_snapshots tb) lim of
      Inl e \<Rightarrow> limit_hit lim clock e
    | Inr q \<Rightarrow> \<exists>out \<in> answers S agg_value (map (row_env (ts_schema tb)) (table_rows L (s, tb))) (vq_query v).
        map f_name (bfields (qr_batch q)) = out_names (vq_schema v) \<and>
        brows (qr_batch q) = rendered (out_names (vq_schema v)) (if pp_limit p = None then take (max_rows lim) out else out) \<and>
        qr_warnings q = (if pp_limit p = None \<and> max_rows lim < length out then [ResultTruncated (max_rows lim)] else [])"
proof -
  let ?t = "ts_schema tb" and ?rows = "table_rows L (s, tb)"
  have t: "validate_schema ?t = Inr ()" "store_ok s" "length ?rows \<le> usize_max" "table_snapshots tb \<noteq> []"
    using assms(11) by (simp_all add: queryable_def table_snapshots_def)
  have rows: "concat (map (\<lambda>p. partition_rows L (s, p)) (ts_partitions tb)) = ?rows" by (simp add: table_rows_def)
  have out: "pp_output p = vq_schema v" by (rule built_plan_shape(7) [OF t(1) assms(1,2,5)])
  have ok: "schema_ok ?t" using t(1) by (simp add: validate_schema_iff)
  have a: "answered S agg_value p lim clock (map (row_env ?t) ?rows) (execute X s clock p (table_snapshots tb) lim)"
    using execute_aggregate [OF assms(8,9,10) t(2) ok built_agg_shape [OF t(1) assms(1,2,5,6,3,4)] assms(7) queryable_sources [OF assms(11)] t(4)]
      t(3) assms(12) unfolding rows by simp
  have p: "pipeline S agg_value p (map (row_env ?t) ?rows) = answers S agg_value (map (row_env ?t) ?rows) (vq_query v)"
    by (rule lower_pipeline [OF assms(1,2,5)])
  show ?thesis using a unfolding answered_def budgeted_def out p .
qed

text \<open>The demo query groups by country.\<close>

definition grouped_query :: query where
  "grouped_query = QAggregate (QScan \<lparr>tr_database = None, tr_table = tname demo_schema\<rparr> None) [''country'']
     [\<lparr>ag_func = FCount, ag_column = None, ag_alias = ''n''\<rparr>, \<lparr>ag_func = FMax, ag_column = Some ''id'', ag_alias = ''top''\<rparr>,
      \<lparr>ag_func = FSum, ag_column = Some ''id'', ag_alias = ''total''\<rparr>]"

definition grouped_spec :: agg_spec where
  "grouped_spec = \<lparr>as_group_by = [''country''], as_aggregates =
     [\<lparr>ag_func = FCount, ag_column = None, ag_alias = ''n''\<rparr>, \<lparr>ag_func = FMax, ag_column = Some ''id'', ag_alias = ''top''\<rparr>,
      \<lparr>ag_func = FSum, ag_column = Some ''id'', ag_alias = ''total''\<rparr>]\<rparr>"

definition grouped_validated :: validated_query where
  "grouped_validated =
     \<lparr>vq_query = QAggregate (QScan \<lparr>tr_database = None, tr_table = tname demo_schema\<rparr> (Some [''id'', ''country''])) [''country''] (as_aggregates grouped_spec),
      vq_schema = [\<lparr>cm_name = ''country'', cm_type = DUtf8, cm_nullable = True\<rparr>, \<lparr>cm_name = ''n'', cm_type = DInt64, cm_nullable = False\<rparr>,
        \<lparr>cm_name = ''top'', cm_type = DInt64, cm_nullable = True\<rparr>, \<lparr>cm_name = ''total'', cm_type = DInt64, cm_nullable = True\<rparr>],
      vq_warnings = []\<rparr>"

definition grouped_plan :: physical_plan where
  "grouped_plan = \<lparr>pp_table = \<lparr>tr_database = None, tr_table = tname demo_schema\<rparr>, pp_projection = [''id'', ''country''],
    pp_pruning = [], pp_filter = None, pp_aggregate = Some grouped_spec, pp_rename = None,
    pp_sort = [], pp_limit = None, pp_offset = 0, pp_output = vq_schema grouped_validated\<rparr>"

lemma alias_idents: "validate_ident ''n'' = Inr ()" "validate_ident ''top'' = Inr ()" "validate_ident ''total'' = Inr ()"
  by (simp_all add: validate_ident_def max_ident_len_def ident_char_def is_ascii_lowercase_def is_ascii_digit_def)

lemma demo_id_column: "column demo_schema ''id'' = Some ((new_column ''id'' DInt64)\<lparr>nullable := False\<rparr>)"
  by (simp add: column_def demo_schema_def new_table_def new_column_def)

lemma grouped_validate: "validate Values.demo_lib demo_schema demo_limits grouped_query = Inr grouped_validated"
  by (simp add: validate_def grouped_query_def demo_scan_checked out_column_def is_ordered_def check_aggregate_def Let_def alias_idents
    agg_meta_def is_additive_def demo_id_column new_column_def grouped_validated_def grouped_spec_def)

lemma grouped_build: "build_plan grouped_validated = Inr grouped_plan"
  by (simp add: build_plan_def grouped_validated_def grouped_spec_def grouped_plan_def lower_node_def stage_allowed_def lo_start_def lower_aggregate_def
    stage_less stage_le max_def needed_columns_def Let_def insert_all_def set_insert_def pushed_projection_def map_filter_simps)

lemma demo_sum_kernel: "sum_kernel_ok demo_exec"
  by (simp add: sum_kernel_ok_def demo_exec_def)

lemma grouped_exact: "spec_exact grouped_spec (arg_types demo_schema grouped_spec)
    (map (row_env demo_schema) [[VInt 1, VStr ''uae''], [VInt 5, VNull], [VInt 3, VStr ''usa'']])"
proof -
  have "type_of_column demo_schema ''id'' = DInt64" by (simp add: type_of_column_def demo_id_column new_column_def)
  moreover have "\<exists>d. fits d (VInt 1) \<and> fits d (VInt 5) \<and> fits d (VInt 3)" by (intro exI [of _ DInt64]) (simp add: fits_def)
  ultimately show ?thesis
    by (simp add: spec_exact_def grouped_spec_def arg_types_def arg_of_def [abs_def] row_env_def demo_names int_part_def opt_value_def i64_max_def)
qed

theorem aggregate_exact_witness:
  "\<exists>q. execute demo_exec (fst demo_part) (\<lambda>_. 0) grouped_plan (table_snapshots filled_table) (demo_limits\<lparr>max_bytes_scanned := usize_max\<rparr>) = Inr q \<and>
     brows (qr_batch q) = [[VStr ''uae'', VInt 1, VInt 1, VInt 1], [VNull, VInt 1, VInt 5, VInt 5], [VStr ''usa'', VInt 1, VInt 3, VInt 3]]"
proof -
  let ?lim = "demo_limits\<lparr>max_bytes_scanned := usize_max\<rparr>"
  let ?rows = "map (row_env demo_schema) (table_rows demo_lib (fst demo_part, filled_table))"
  have t: "ts_schema filled_table = demo_schema" and f: "pp_filter grouped_plan = None" by (simp_all add: filled_table_def grouped_plan_def)
  have "\<forall>out \<in> answers demo_sql agg_value ?rows (vq_query grouped_validated).
      rendered (out_names (vq_schema grouped_validated)) out =
        [[VStr ''uae'', VInt 1, VInt 1, VInt 1], [VNull, VInt 1, VInt 5, VInt 5], [VStr ''usa'', VInt 1, VInt 3, VInt 3]] \<and> length out = 3"
    unfolding filled_rows grouped_validated_def grouped_spec_def
    by (simp add: out_names_def rendered_def agg_rows_def row_env_def restrict_env_def demo_names first_occurrences_def)
      (simp add: agg_env_def agg_value_def picked_def pick_def int_sum_def int_part_def some_int_def opt_value_def row_env_def demo_names)
  moreover have "case execute demo_exec (fst demo_part) (\<lambda>_. 0) grouped_plan (table_snapshots filled_table) ?lim of
      Inl e \<Rightarrow> limit_hit ?lim (\<lambda>_. 0) e
    | Inr q \<Rightarrow> \<exists>out \<in> answers demo_sql agg_value (map (row_env (ts_schema filled_table)) (table_rows demo_lib (fst demo_part, filled_table))) (vq_query grouped_validated).
        map f_name (bfields (qr_batch q)) = out_names (vq_schema grouped_validated) \<and>
        brows (qr_batch q) = rendered (out_names (vq_schema grouped_validated)) (if pp_limit grouped_plan = None then take (max_rows ?lim) out else out) \<and>
        qr_warnings q = (if pp_limit grouped_plan = None \<and> max_rows ?lim < length out then [ResultTruncated (max_rows ?lim)] else [])"
    by (rule aggregate_exact [where V = Values.demo_lib and ?q0.0 = grouped_query and planned = demo_limits and sp = grouped_spec,
        OF _ grouped_build _ _ _ _ _ demo_exec_ok demo_lexsort_ok demo_sum_kernel filled_queryable])
      (simp_all add: t f grouped_validate filled_rows filtered_def grouped_exact [simplified],
       simp_all add: grouped_plan_def grouped_validated_def filter_fits_def counts_only_def grouped_spec_def)
  ultimately show ?thesis by (auto simp: t limit_hit_def demo_limits_def split: sum.splits)
qed

section \<open>Counting from the metadata\<close>

lemma snapshots_length:
  assumes "queryable L s tb"
  shows "sum_list (map visible_rows (table_snapshots tb)) = length (table_rows L (s, tb))"
proof -
  have "visible_rows (snapshot p) = length (partition_rows L (s, p))" if "p \<in> set (ts_partitions tb)" for p
    using assms that snapshot_length unfolding queryable_def by blast
  then have "map visible_rows (table_snapshots tb) = map (\<lambda>p. length (partition_rows L (s, p))) (ts_partitions tb)"
    by (simp add: table_snapshots_def)
  then show ?thesis by (simp add: table_rows_def length_concat comp_def)
qed

lemma count_executed:
  assumes "arrow_ok (xl_arrow X)" "counts_only p" "queryable L s tb"
  obtains q where "execute X s clock p (table_snapshots tb) lim = Inr q"
    "brows (qr_batch q) = [[VInt (of_nat (length (table_rows L (s, tb))))]]" "es_bytes_scanned (qr_stats q) = 0"
proof -
  obtain b where b: "try_metadata_count X p (table_snapshots tb) = Inr (Some b)" "brows b = [[VInt (of_nat (sum_list (map visible_rows (table_snapshots tb))))]]"
    using metadata_counted [OF assms(1,2), of "table_snapshots tb"] by (metis batch.select_convs(2))
  have ex: "execute X s clock p (table_snapshots tb) lim =
      Inr \<lparr>qr_batch = b, qr_stats = (budget_stats (new_budget clock lim))\<lparr>es_rows_returned := num_rows b\<rparr>, qr_warnings = []\<rparr>"
    by (simp add: execute_def execute_with_budget_def b(1))
  show ?thesis by (rule that [OF ex]) (simp_all add: b(2) snapshots_length [OF assms(3)] budget_stats_def new_budget_def)
qed

text \<open>
  Remark: a count of all rows of a table is answered from the metadata of its segments and the sizes of
  its memtables, without reading a row: it is the number of rows of the table, deletions and
  overwrites taken into account, and never runs into a limit of the request.
\<close>

theorem count_star_exact:
  assumes "build_plan v = Inr p" "counts_only p" "arrow_ok (xl_arrow X)" "queryable L s tb"
  shows "\<exists>q. execute X s clock p (table_snapshots tb) lim = Inr q \<and>
    brows (qr_batch q) = [[VInt (of_nat (length (table_rows L (s, tb))))]] \<and> es_bytes_scanned (qr_stats q) = 0"
  using count_executed [OF assms(3,2,4)] by blast

definition counting_query :: query where
  "counting_query = QLimit (QAggregate (QScan \<lparr>tr_database = None, tr_table = tname demo_schema\<rparr> None) []
     [\<lparr>ag_func = FCount, ag_column = None, ag_alias = ''n''\<rparr>]) 0 0"

definition counting_validated :: validated_query where
  "counting_validated =
     \<lparr>vq_query = QLimit (QAggregate (QScan \<lparr>tr_database = None, tr_table = tname demo_schema\<rparr> (Some [''id'', ''country''])) []
        [\<lparr>ag_func = FCount, ag_column = None, ag_alias = ''n''\<rparr>]) 0 0,
      vq_schema = [\<lparr>cm_name = ''n'', cm_type = DInt64, cm_nullable = False\<rparr>], vq_warnings = []\<rparr>"

definition counting_plan :: physical_plan where
  "counting_plan =
     \<lparr>pp_table = \<lparr>tr_database = None, tr_table = tname demo_schema\<rparr>, pp_projection = [''id''],
      pp_pruning = [], pp_filter = None, pp_aggregate = Some \<lparr>as_group_by = [], as_aggregates = [\<lparr>ag_func = FCount, ag_column = None, ag_alias = ''n''\<rparr>]\<rparr>,
      pp_rename = None, pp_sort = [], pp_limit = Some 0, pp_offset = 0, pp_output = vq_schema counting_validated\<rparr>"

lemma counting_validate: "validate Values.demo_lib demo_schema demo_limits counting_query = Inr counting_validated"
  by (simp add: validate_def counting_query_def demo_scan_checked check_aggregate_def Let_def alias_idents agg_meta_def counting_validated_def)

lemma counting_build: "build_plan counting_validated = Inr counting_plan"
  by (simp add: build_plan_def counting_validated_def counting_plan_def lower_node_def stage_allowed_def lo_start_def lower_aggregate_def
    stage_less stage_le max_def needed_columns_def Let_def insert_all_def set_insert_def pushed_projection_def map_filter_simps saturating_add_def usize_max_def)

lemma counting_only: "counts_only counting_plan"
  by (simp add: counts_only_def counting_plan_def)

lemma demo_arrow_exec: "arrow_ok (xl_arrow demo_exec)"
  using demo_exec_ok by (simp add: exec_ok_def storage_ok_def)

theorem count_star_exact_witness:
  "\<exists>q. execute demo_exec (fst demo_part) (\<lambda>_. 0) counting_plan (table_snapshots filled_table) demo_limits = Inr q \<and> brows (qr_batch q) = [[VInt 3]]"
  using count_star_exact [OF counting_build counting_only demo_arrow_exec filled_queryable, of "\<lambda>_. 0" demo_limits] by (auto simp: filled_rows)

lemma sorted_single: "sort_answers ks [e] = {[e]}"
  by (auto simp: sort_answers_def sorted_by_def)

text \<open>
  C35: this shortcut ignores the limit and the offset of the query. A count with a limit of zero, or
  with an offset, has the empty answer; the code returns a row with the count.
\<close>

theorem count_ignores_window:
  assumes "validate V (ts_schema tb) planned q0 = Inr v" "build_plan v = Inr p" "flat_limits (vq_query v)" "counts_only p"
    and "pp_limit p = Some 0 \<or> 0 < pp_offset p" "arrow_ok (xl_arrow X)" "queryable L s tb"
  shows "answers S F (map (row_env (ts_schema tb)) (table_rows L (s, tb))) (vq_query v) = {[]} \<and>
    (\<exists>q. execute X s clock p (table_snapshots tb) lim = Inr q \<and> num_rows (qr_batch q) = 1)"
proof
  let ?es = "map (row_env (ts_schema tb)) (table_rows L (s, tb))"
  obtain sp where sp: "pp_aggregate p = Some sp" "as_group_by sp = []" "pp_filter p = None"
    using assms(4) by (auto simp: counts_only_def split: option.splits)
  define out where "out = renamed (pp_rename p) (aggregated F (pp_aggregate p) (filtered S (pp_filter p) (map (restrict_env (pp_projection p)) ?es)))"
  have "length out = 1" by (simp add: out_def renamed_def sp aggregated_def agg_rows_def split: option.split)
  then obtain e where "out = [e]" by (cases out) auto
  then have "pipeline S F p ?es = {window (pp_limit p) (pp_offset p) [e]}" unfolding pipeline_def out_def [symmetric] by (simp add: sorted_single)
  moreover have "window (pp_limit p) (pp_offset p) [e] = []" using assms(5) by (cases "pp_limit p") (auto simp: window_def)
  ultimately show "answers S F ?es (vq_query v) = {[]}" by (simp only: lower_pipeline [OF assms(1-3)])
  obtain q where q: "execute X s clock p (table_snapshots tb) lim = Inr q" "brows (qr_batch q) = [[VInt (of_nat (length (table_rows L (s, tb))))]]"
    using count_executed [OF assms(6,4,7), of clock lim] by blast
  have "num_rows (qr_batch q) = 1" by (simp add: num_rows_def q(2))
  then show "\<exists>q. execute X s clock p (table_snapshots tb) lim = Inr q \<and> num_rows (qr_batch q) = 1" using q(1) by blast
qed

theorem count_ignores_window_witness:
  "\<exists>q. execute demo_exec (fst demo_part) (\<lambda>_. 0) counting_plan (table_snapshots filled_table) demo_limits = Inr q \<and> num_rows (qr_batch q) = 1"
proof -
  have v: "validate Values.demo_lib (ts_schema filled_table) demo_limits counting_query = Inr counting_validated"
    using counting_validate by (simp add: filled_table_def)
  have f: "flat_limits (vq_query counting_validated)" by (simp add: counting_validated_def)
  have w: "pp_limit counting_plan = Some 0 \<or> 0 < pp_offset counting_plan" by (simp add: counting_plan_def)
  show ?thesis
    using count_ignores_window [OF v counting_build f counting_only w demo_arrow_exec filled_queryable, of demo_sql agg_value "\<lambda>_. 0" demo_limits] by blast
qed

end
