(* ===== verification/Request.thy ===== *)
theory Request
  imports Query
begin

text \<open>
  \<open>crates/adb-query/src/plan.rs\<close>: the structured request a client or the language rules may send,
  and its translation to the logical plan. A machine integer of a request is a number below \<open>2 ^ 64\<close>.
\<close>

section \<open>The shape of a request\<close>

datatype operation = SelectRows | AggregateRows

datatype filter_op =
    FoEq | FoNe | FoLt | FoLte | FoGt | FoGte | FoIn | FoNotIn | FoBetween | FoLike | FoIsNull | FoIsNotNull

fun filter_binary :: "filter_op \<Rightarrow> binary_op option" where
  "filter_binary FoEq = Some OpEq"
| "filter_binary FoNe = Some OpNotEq"
| "filter_binary FoLt = Some OpLt"
| "filter_binary FoLte = Some OpLtEq"
| "filter_binary FoGt = Some OpGt"
| "filter_binary FoGte = Some OpGtEq"
| "filter_binary FoLike = Some OpLike"
| "filter_binary _ = None"

fun filter_op_str :: "filter_op \<Rightarrow> string" where
  "filter_op_str FoEq = ''eq''"
| "filter_op_str FoNe = ''ne''"
| "filter_op_str FoLt = ''lt''"
| "filter_op_str FoLte = ''lte''"
| "filter_op_str FoGt = ''gt''"
| "filter_op_str FoGte = ''gte''"
| "filter_op_str FoIn = ''in''"
| "filter_op_str FoNotIn = ''not_in''"
| "filter_op_str FoBetween = ''between''"
| "filter_op_str FoLike = ''like''"
| "filter_op_str FoIsNull = ''is_null''"
| "filter_op_str FoIsNotNull = ''is_not_null''"

record filter_spec =
  fs_column :: string
  fs_op :: filter_op
  fs_value :: "json option"
  fs_values :: "json list"

definition filter_new :: "string \<Rightarrow> filter_op \<Rightarrow> json \<Rightarrow> filter_spec" where
  "filter_new c op v = \<lparr>fs_column = c, fs_op = op, fs_value = Some v, fs_values = []\<rparr>"

definition filter_unary :: "string \<Rightarrow> filter_op \<Rightarrow> filter_spec" where
  "filter_unary c op = \<lparr>fs_column = c, fs_op = op, fs_value = None, fs_values = []\<rparr>"

definition filter_list :: "string \<Rightarrow> filter_op \<Rightarrow> json list \<Rightarrow> filter_spec" where
  "filter_list c op vs = \<lparr>fs_column = c, fs_op = op, fs_value = None, fs_values = vs\<rparr>"

record metric_spec =
  ms_function :: aggregate_func
  ms_column :: "string option"
  ms_alias :: "string option"

definition metric_new :: "aggregate_func \<Rightarrow> string option \<Rightarrow> string option \<Rightarrow> metric_spec" where
  "metric_new f c a = \<lparr>ms_function = f, ms_column = c, ms_alias = a\<rparr>"

definition metric_count :: metric_spec where
  "metric_count = \<lparr>ms_function = FCount, ms_column = None, ms_alias = None\<rparr>"

datatype direction = Asc | Desc

record order_spec =
  od_column :: string
  od_direction :: direction

definition order_desc :: "string \<Rightarrow> order_spec" where
  "order_desc c = \<lparr>od_column = c, od_direction = Desc\<rparr>"

definition order_asc :: "string \<Rightarrow> order_spec" where
  "order_asc c = \<lparr>od_column = c, od_direction = Asc\<rparr>"

record plan_request =
  pr_operation :: operation
  pr_table :: string
  pr_columns :: "string list option"
  pr_filters :: "filter_spec list"
  pr_group_by :: "string list"
  pr_metrics :: "metric_spec list"
  pr_order_by :: "order_spec list"
  pr_limit :: "nat option"
  pr_offset :: "nat option"

definition request_for :: "operation \<Rightarrow> string \<Rightarrow> plan_request" where
  "request_for op t = \<lparr>pr_operation = op, pr_table = t, pr_columns = None, pr_filters = [], pr_group_by = [], pr_metrics = [],
     pr_order_by = [], pr_limit = None, pr_offset = None\<rparr>"

definition request_select :: "string \<Rightarrow> plan_request" where
  "request_select = request_for SelectRows"

definition request_aggregate :: "string \<Rightarrow> plan_request" where
  "request_aggregate = request_for AggregateRows"

definition with_filter :: "plan_request \<Rightarrow> filter_spec \<Rightarrow> plan_request" where
  "with_filter r f = r\<lparr>pr_filters := pr_filters r @ [f]\<rparr>"

definition with_metric :: "plan_request \<Rightarrow> metric_spec \<Rightarrow> plan_request" where
  "with_metric r m = r\<lparr>pr_metrics := pr_metrics r @ [m]\<rparr>"

definition grouped_by :: "plan_request \<Rightarrow> string \<Rightarrow> plan_request" where
  "grouped_by r c = r\<lparr>pr_group_by := pr_group_by r @ [c]\<rparr>"

definition ordered_by :: "plan_request \<Rightarrow> order_spec \<Rightarrow> plan_request" where
  "ordered_by r k = r\<lparr>pr_order_by := pr_order_by r @ [k]\<rparr>"

definition with_limit :: "plan_request \<Rightarrow> nat \<Rightarrow> plan_request" where
  "with_limit r n = r\<lparr>pr_limit := Some n\<rparr>"

section \<open>Filters\<close>

fun json_to_value :: "json \<Rightarrow> adb_value result" where
  "json_to_value JNull = Inr VNull"
| "json_to_value (JBool b) = Inr (VBool b)"
| "json_to_value (JNumber n) = (case as_i64_num n of Some i \<Rightarrow> Inr (VInt i) | None \<Rightarrow> rmap VFloat (ok_or BadRequest (as_f64_num n)))"
| "json_to_value (JString s) = Inr (VStr s)"
| "json_to_value _ = Inl BadRequest"

definition filter_to_expr :: "filter_spec \<Rightarrow> expr result" where
  "filter_to_expr f =
     (let column = EColumn (fs_column f);
          single = rbind (ok_or BadRequest (fs_value f)) json_to_value in
      case filter_binary (fs_op f) of
        Some op \<Rightarrow> rmap (\<lambda>v. EBinary op column (ELiteral v)) single
      | None \<Rightarrow>
          (case fs_op f of
             FoIsNull \<Rightarrow> Inr (EIsNull column)
           | FoIsNotNull \<Rightarrow> Inr (EIsNotNull column)
           | FoIn \<Rightarrow> if fs_values f = [] then Inl BadRequest else rmap (\<lambda>vs. EInList column vs False) (mapM json_to_value (fs_values f))
           | FoNotIn \<Rightarrow> if fs_values f = [] then Inl BadRequest else rmap (\<lambda>vs. EInList column vs True) (mapM json_to_value (fs_values f))
           | FoBetween \<Rightarrow>
               (case fs_values f of
                  [lo, hi] \<Rightarrow> rbind (json_to_value lo) (\<lambda>lo. rmap (\<lambda>hi. EBetween column lo hi False) (json_to_value hi))
                | _ \<Rightarrow> Inl BadRequest)
           | _ \<Rightarrow> Inl Internal))"

definition predicate :: "plan_request \<Rightarrow> expr option result" where
  "predicate r = rmap all_of (mapM filter_to_expr (pr_filters r))"

section \<open>The logical plan\<close>

definition request_table :: "string \<Rightarrow> table_ref" where
  "request_table t = \<lparr>tr_database = None, tr_table = t\<rparr>"

definition request_scan :: "plan_request \<Rightarrow> query" where
  "request_scan r =
     (case (pr_columns r, pr_operation r) of
        (Some cs, SelectRows) \<Rightarrow> QScan (request_table (pr_table r)) (if cs \<noteq> [] then Some cs else None)
      | _ \<Rightarrow> QScan (request_table (pr_table r)) None)"

definition metric_expr :: "metric_spec \<Rightarrow> agg_expr" where
  "metric_expr m =
     \<lparr>ag_func = ms_function m, ag_column = ms_column m,
      ag_alias = (case ms_alias m of Some a \<Rightarrow> a | None \<Rightarrow> default_alias (ms_function m) (ms_column m))\<rparr>"

definition order_expr :: "order_spec \<Rightarrow> sort_expr" where
  "order_expr k = (case od_direction k of Asc \<Rightarrow> sort_asc (od_column k) | Desc \<Rightarrow> sort_desc (od_column k))"

definition to_ir :: "plan_request \<Rightarrow> query result" where
  "to_ir r =
     rbind (validate_ident (pr_table r)) (\<lambda>_.
     rbind (predicate r) (\<lambda>p.
     let q = (case p of Some p \<Rightarrow> QFilter (request_scan r) p | None \<Rightarrow> request_scan r) in
     rbind (case pr_operation r of
              AggregateRows \<Rightarrow>
                if pr_metrics r = [] then Inl BadRequest
                else Inr (QAggregate q (pr_group_by r) (map metric_expr (pr_metrics r)))
            | SelectRows \<Rightarrow> if pr_metrics r \<noteq> [] \<or> pr_group_by r \<noteq> [] then Inl BadRequest else Inr q) (\<lambda>q.
     let q = (if pr_order_by r \<noteq> [] then QSort q (map order_expr (pr_order_by r)) else q) in
     case pr_limit r of
       Some n \<Rightarrow> Inr (QLimit q n (case pr_offset r of Some k \<Rightarrow> k | None \<Rightarrow> 0))
     | None \<Rightarrow> (case pr_offset r of Some k \<Rightarrow> if 0 < k then Inl BadRequest else Inr q | None \<Rightarrow> Inr q))))"

section \<open>The advertised schema\<close>

definition jstr :: "string \<Rightarrow> json" where "jstr s = JString s"

definition jnat :: "nat \<Rightarrow> json" where "jnat n = json_of_i64 (of_nat n)"

definition string_array :: "string option \<Rightarrow> json" where
  "string_array d = JObject ([(''type'', jstr ''array''), (''items'', JObject [(''type'', jstr ''string'')])] @
     (case d of Some d \<Rightarrow> [(''description'', jstr d)] | None \<Rightarrow> []))"

definition closed_object :: "string list \<Rightarrow> (string \<times> json) list \<Rightarrow> json" where
  "closed_object req props =
     JObject [(''type'', jstr ''object''), (''required'', JArray (map jstr req)), (''additionalProperties'', JBool False),
       (''properties'', JObject props)]"

definition filter_ops_schema :: "string list" where
  "filter_ops_schema = [''eq'', ''ne'', ''lt'', ''lte'', ''gt'', ''gte'', ''in'', ''not_in'', ''between'', ''like'', ''is_null'', ''is_not_null'']"

definition json_schema :: json where
  "json_schema =
     closed_object [''table'']
       [(''operation'', JObject
          [(''type'', jstr ''string''), (''enum'', JArray [jstr ''select'', jstr ''aggregate'']),
           (''description'', jstr ''select returns rows; aggregate returns grouped metrics''), (''default'', jstr ''select'')]),
        (''table'', JObject [(''type'', jstr ''string''), (''description'', jstr ''table to read'')]),
        (''columns'', string_array (Some ''columns to return for a select; omit for all non-sensitive columns'')),
        (''filters'', JObject
          [(''type'', jstr ''array''), (''description'', jstr ''conditions, combined with AND''),
           (''items'', closed_object [''column'', ''op'']
              [(''column'', JObject [(''type'', jstr ''string'')]),
               (''op'', JObject [(''type'', jstr ''string''), (''enum'', JArray (map jstr filter_ops_schema))]),
               (''value'', JObject [(''description'', jstr ''operand for the comparison operators; dates as ISO-8601 strings'')]),
               (''values'', JObject [(''type'', jstr ''array''), (''description'', jstr ''operands for in, not_in and between (exactly two)'')])])]),
        (''group_by'', string_array None),
        (''metrics'', JObject
          [(''type'', jstr ''array''),
           (''items'', closed_object [''function'']
              [(''function'', JObject [(''type'', jstr ''string''), (''enum'', JArray [jstr ''count'', jstr ''sum'', jstr ''avg'', jstr ''min'', jstr ''max''])]),
               (''column'', JObject [(''type'', jstr ''string''), (''description'', jstr ''omit only for count, which counts rows'')]),
               (''alias'', JObject [(''type'', jstr ''string'')])])]),
        (''order_by'', JObject
          [(''type'', jstr ''array''),
           (''items'', closed_object [''column'']
              [(''column'', JObject [(''type'', jstr ''string'')]),
               (''direction'', JObject [(''type'', jstr ''string''), (''enum'', JArray [jstr ''asc'', jstr ''desc'']), (''default'', jstr ''asc'')])])]),
        (''limit'', JObject [(''type'', jstr ''integer''), (''minimum'', jnat 1)]),
        (''offset'', JObject [(''type'', jstr ''integer''), (''minimum'', jnat 0)])]"

end
