(* ===== verification/RequestProps.thy ===== *)
theory RequestProps
  imports Request AggTheorems
begin

text \<open>
  A structured request becomes a plan of fixed shape, whose filter is a conjunction of conditions on
  single columns; such a plan always lowers, and its filter always evaluates.
\<close>

section \<open>Filters on single columns\<close>

fun simple_filter :: "expr \<Rightarrow> bool" where
  "simple_filter (EBinary op l r) \<longleftrightarrow>
     (if op = OpAnd then simple_filter l \<and> simple_filter r
      else (is_comparison op \<or> op = OpLike) \<and> (case (l, r) of (EColumn _, ELiteral _) \<Rightarrow> True | _ \<Rightarrow> False))"
| "simple_filter (EIsNull e) \<longleftrightarrow> (case e of EColumn _ \<Rightarrow> True | _ \<Rightarrow> False)"
| "simple_filter (EIsNotNull e) \<longleftrightarrow> (case e of EColumn _ \<Rightarrow> True | _ \<Rightarrow> False)"
| "simple_filter (EInList e _ _) \<longleftrightarrow> (case e of EColumn _ \<Rightarrow> True | _ \<Rightarrow> False)"
| "simple_filter (EBetween e _ _ _) \<longleftrightarrow> (case e of EColumn _ \<Rightarrow> True | _ \<Rightarrow> False)"
| "simple_filter _ \<longleftrightarrow> False"

lemma filter_binary_cases: "filter_binary op = Some b \<Longrightarrow> (is_comparison b \<or> b = OpLike) \<and> b \<noteq> OpAnd"
  by (cases op) (auto simp: is_comparison_def)

lemma filter_expr_simple:
  assumes "filter_to_expr f = Inr e"
  shows "simple_filter e \<and> expr_columns e = {fs_column f}"
proof (cases "filter_binary (fs_op f)")
  case (Some b)
  then obtain v where "e = EBinary b (EColumn (fs_column f)) (ELiteral v)" using assms by (auto simp: filter_to_expr_def Let_def result_simps)
  then show ?thesis using filter_binary_cases [OF Some] by auto
next
  case None
  then show ?thesis using assms
    by (cases "fs_op f") (auto simp: filter_to_expr_def Let_def result_simps split: if_splits list.splits)
qed

lemma foldl_and_simple:
  "simple_filter e \<Longrightarrow> list_all simple_filter es \<Longrightarrow> simple_filter (foldl (EBinary OpAnd) e es) \<and>
     expr_columns (foldl (EBinary OpAnd) e es) = expr_columns e \<union> \<Union> (expr_columns ` set es)"
  by (induction es arbitrary: e) auto

lemma predicate_simple:
  assumes "predicate r = Inr (Some p)"
  shows "simple_filter p \<and> expr_columns p = fs_column ` set (pr_filters r)"
proof -
  obtain es where es: "mapM filter_to_expr (pr_filters r) = Inr es" "all_of es = Some p"
    using assms by (auto simp: predicate_def result_simps)
  have l: "list_all2 (\<lambda>f e. filter_to_expr f = Inr e) (pr_filters r) es" using es(1) by (simp add: mapM_Inr_iff)
  then have s: "list_all simple_filter es" and c: "\<Union> (expr_columns ` set es) = fs_column ` set (pr_filters r)"
    by (induction rule: list_all2_induct) (auto dest: filter_expr_simple)
  obtain e es' where e: "es = e # es'" "p = foldl (EBinary OpAnd) e es'" using es(2) by (cases es) (auto simp: all_of_def)
  then show ?thesis using foldl_and_simple [of e es'] s c by auto
qed

text \<open>A checked condition on a column of the table evaluates to a mask.\<close>

definition columns_of :: "table_schema \<Rightarrow> output_schema \<Rightarrow> bool" where
  "columns_of t sc \<longleftrightarrow> (\<forall>n m. out_column sc n = Some m \<longrightarrow> table_type t n = Some (arrow_type_of (cm_type m)))"

lemma scan_columns:
  assumes "check_scan t tr cols = Inr (q, sc)"
  shows "columns_of t sc"
  unfolding columns_of_def
proof (intro allI impI)
  fix n m
  assume o: "out_column sc n = Some m"
  obtain ns where ns: "mapM (\<lambda>n. rmap meta_of (require_column t n)) ns = Inr sc" using assms by (rule check_scan_cases)
  obtain k where k: "rmap meta_of (require_column t k) = Inr m" using mapM_Inr_set [OF ns, of m] out_column_name [OF o] by auto
  then obtain c where c: "column t k = Some c" "m = meta_of c" by (auto simp: require_column_def result_simps)
  have "col_name c = k" using find_Some_set [OF c(1) [unfolded column_def]] by simp
  then have "k = n" using out_column_name [OF o] c(2) by (simp add: meta_of_def)
  then show "table_type t n = Some (arrow_type_of (cm_type m))" using c by (simp add: table_type_def meta_of_def)
qed

lemma compared_column:
  assumes "check_sides L op (EColumn n, Some T) (ELiteral v, data_type_of v) = Inr (e', ty)" "is_comparison op \<or> op = OpLike" "A n = Some (arrow_type_of T)"
  shows "ev_type A e' = Some ABoolean"
  using assms(1)
proof (cases rule: check_sides_cases)
  case logical
  then show ?thesis using assms(2) by (auto simp: is_logical_def is_comparison_def)
next
  case (like s)
  have "arrow_type_of T = AUtf8" using like(5) by auto
  then show ?thesis using like assms(3) by (simp add: is_arithmetic_def is_logical_def)
next
  case arith
  then show ?thesis using assms(2) by (auto simp: is_arithmetic_def is_comparison_def)
next
  case (comparison l' r')
  have o: "\<not> is_logical op" "\<not> is_arithmetic op" "op \<noteq> OpLike" using comparison(1) by (auto simp: is_comparison_def is_logical_def is_arithmetic_def)
  obtain w where w: "coerce_literal L v T = Inr w" "l' = (EColumn n, Some T)" "r' = (ELiteral w, Some T)"
    using comparison(2) by (auto simp: coerce_sides_def result_simps)
  have "arrow_fits (arrow_type_of T) w" using coerce_to_fits [of L T v w] w(1) by (simp add: coerce_to_def fits_arrow)
  then show ?thesis using w comparison(3) o assms(3) by simp
qed

lemma checked_column: "check_expr L sc (EColumn n) = Inr x \<longleftrightarrow> (\<exists>m. out_column sc n = Some m \<and> x = (EColumn n, Some (cm_type m)))"
  by (auto simp: result_simps)

lemma check_simple:
  assumes "simple_filter e" "check_expr L sc e = Inr (e', ty)" "columns_of t sc"
  shows "ev_type (table_type t) e' = Some ABoolean"
  using assms(1,2)
proof (induction e arbitrary: e' ty)
  case (EBinary op l r)
  obtain l1 r1 where lr: "check_expr L sc l = Inr l1" "check_expr L sc r = Inr r1" and c: "check_sides L op l1 r1 = Inr (e', ty)"
    using EBinary.prems(2) by (auto simp: result_simps)
  show ?case
  proof (cases "op = OpAnd")
    case True
    then have s: "simple_filter l" "simple_filter r" using EBinary.prems(1) by simp_all
    have "e' = EBinary OpAnd (fst l1) (fst r1)" using c True by (simp add: check_sides_def is_logical_def result_simps)
    moreover have "ev_type (table_type t) (fst l1) = Some ABoolean" by (rule EBinary.IH(1) [OF s(1), of _ "snd l1"]) (simp add: lr)
    moreover have "ev_type (table_type t) (fst r1) = Some ABoolean" by (rule EBinary.IH(2) [OF s(2), of _ "snd r1"]) (simp add: lr)
    ultimately show ?thesis by (simp add: is_arithmetic_def is_logical_def)
  next
    case False
    then have op: "is_comparison op \<or> op = OpLike" and nv: "case (l, r) of (EColumn _, ELiteral _) \<Rightarrow> True | _ \<Rightarrow> False"
      using EBinary.prems(1) by simp_all
    obtain n v where n: "l = EColumn n" "r = ELiteral v" using nv by (cases l; cases r) simp_all
    obtain m where m: "out_column sc n = Some m" "l1 = (EColumn n, Some (cm_type m))" using lr(1) unfolding n checked_column by blast
    have r1: "r1 = (ELiteral v, data_type_of v)" using lr(2) by (simp add: n)
    have T: "table_type t n = Some (arrow_type_of (cm_type m))" using assms(3) m(1) by (simp add: columns_of_def)
    show ?thesis using compared_column [where A = "table_type t", OF c [unfolded m(2) r1] op T] by simp
  qed
next
  case (EInList e vs neg)
  obtain n where n: "e = EColumn n" using EInList.prems(1) by (cases e) simp_all
  obtain m ws where m: "out_column sc n = Some m" "vs \<noteq> []" "mapM (coerce_to L (Some (cm_type m))) vs = Inr ws" "e' = EInList (EColumn n) ws neg"
    using EInList.prems(2) by (auto simp: n result_simps split: if_splits)
  have "list_all2 (\<lambda>v w. coerce_to L (Some (cm_type m)) v = Inr w) vs ws" using m(3) by (simp add: mapM_Inr_iff)
  then have "list_all (arrow_fits (arrow_type_of (cm_type m))) ws \<and> length ws = length vs"
    by (induction rule: list_all2_induct) (auto simp: fits_arrow dest: coerce_to_fits)
  then have "list_all (arrow_fits (arrow_type_of (cm_type m))) ws" "ws \<noteq> []" using m(2) by auto
  then show ?case using m(1,4) assms(3) by (simp add: columns_of_def)
next
  case (EBetween e lo hi neg)
  obtain n where n: "e = EColumn n" using EBetween.prems(1) by (cases e) simp_all
  obtain m lo' hi' where m: "out_column sc n = Some m" "coerce_to L (Some (cm_type m)) lo = Inr lo'"
      "coerce_to L (Some (cm_type m)) hi = Inr hi'" "e' = EBetween (EColumn n) lo' hi' neg"
    using EBetween.prems(2) by (auto simp: n result_simps split: if_splits)
  have "arrow_fits (arrow_type_of (cm_type m)) lo'" "arrow_fits (arrow_type_of (cm_type m)) hi'"
    using coerce_to_fits [OF m(2)] coerce_to_fits [OF m(3)] by (simp_all add: fits_arrow)
  then show ?case using m(1,4) assms(3) by (simp add: columns_of_def)
next
  case (EIsNull e)
  obtain n where n: "e = EColumn n" using EIsNull.prems(1) by (cases e) simp_all
  obtain m where "out_column sc n = Some m" "e' = EIsNull (EColumn n)" using EIsNull.prems(2) by (auto simp: n result_simps)
  then show ?case using assms(3) by (simp add: columns_of_def)
next
  case (EIsNotNull e)
  obtain n where n: "e = EColumn n" using EIsNotNull.prems(1) by (cases e) simp_all
  obtain m where "out_column sc n = Some m" "e' = EIsNotNull (EColumn n)" using EIsNotNull.prems(2) by (auto simp: n result_simps)
  then show ?case using assms(3) by (simp add: columns_of_def)
qed simp_all

section \<open>The shape of the plan\<close>

definition filtered_plan :: "query \<Rightarrow> expr option \<Rightarrow> query" where
  "filtered_plan q pf = (case pf of Some p \<Rightarrow> QFilter q p | None \<Rightarrow> q)"

definition aggregated_plan :: "query \<Rightarrow> agg_spec option \<Rightarrow> query" where
  "aggregated_plan q ag = (case ag of Some sp \<Rightarrow> QAggregate q (as_group_by sp) (as_aggregates sp) | None \<Rightarrow> q)"

definition sorted_plan :: "query \<Rightarrow> sort_expr list \<Rightarrow> query" where
  "sorted_plan q ks = (if ks \<noteq> [] then QSort q ks else q)"

definition limited_plan :: "query \<Rightarrow> (nat \<times> nat) option \<Rightarrow> query" where
  "limited_plan q w = (case w of Some (n, k) \<Rightarrow> QLimit q n k | None \<Rightarrow> q)"

definition layered :: "table_ref \<Rightarrow> string list option \<Rightarrow> expr option \<Rightarrow> agg_spec option \<Rightarrow> sort_expr list \<Rightarrow> (nat \<times> nat) option \<Rightarrow> query" where
  "layered tr cols pf ag ks w = limited_plan (sorted_plan (aggregated_plan (filtered_plan (QScan tr cols) pf) ag) ks) w"

definition request_window :: "plan_request \<Rightarrow> (nat \<times> nat) option" where
  "request_window r = map_option (\<lambda>n. (n, case pr_offset r of Some k \<Rightarrow> k | None \<Rightarrow> 0)) (pr_limit r)"

definition request_spec :: "plan_request \<Rightarrow> agg_spec option" where
  "request_spec r = (case pr_operation r of SelectRows \<Rightarrow> None
     | AggregateRows \<Rightarrow> Some \<lparr>as_group_by = pr_group_by r, as_aggregates = map metric_expr (pr_metrics r)\<rparr>)"

definition request_columns :: "plan_request \<Rightarrow> string list option" where
  "request_columns r = (case (pr_columns r, pr_operation r) of (Some cs, SelectRows) \<Rightarrow> if cs \<noteq> [] then Some cs else None | _ \<Rightarrow> None)"

lemma request_scan_eq: "request_scan r = QScan (request_table (pr_table r)) (request_columns r)"
  by (simp add: request_scan_def request_columns_def split: option.splits operation.splits)

lemma to_ir_shape:
  "to_ir r = Inr q \<longleftrightarrow>
     validate_ident (pr_table r) = Inr () \<and>
     (if pr_operation r = SelectRows then pr_metrics r = [] \<and> pr_group_by r = [] else pr_metrics r \<noteq> []) \<and>
     (pr_limit r = None \<longrightarrow> pr_offset r = None \<or> pr_offset r = Some 0) \<and>
     (\<exists>pf. predicate r = Inr pf \<and>
        q = layered (request_table (pr_table r)) (request_columns r) pf (request_spec r) (map order_expr (pr_order_by r)) (request_window r))"
  by (cases "predicate r"; cases "pr_operation r"; cases "pr_limit r")
    (auto simp: to_ir_def result_simps layered_def limited_plan_def sorted_plan_def aggregated_plan_def filtered_plan_def request_scan_eq
      request_window_def request_spec_def Let_def split: if_splits option.splits)

section \<open>Validating and lowering a layered plan\<close>

lemma walk_layered:
  assumes "walk_plan L t lim (layered tr cols pf ag ks w) = Inr (q, sc, ws)"
  obtains ns sc0 pf' ag' where "q = layered tr (Some ns) pf' ag' ks (map_option (\<lambda>(n, k). (min n (max_rows lim), k)) w)"
    "check_scan t tr cols = Inr (QScan tr (Some ns), sc0)" "(ag' = None) = (ag = None)" "ag = None \<longrightarrow> sc = sc0"
    "case pf of None \<Rightarrow> pf' = None | Some p \<Rightarrow> \<exists>p' ty. pf' = Some p' \<and> check_expr L sc0 p = Inr (p', ty)"
proof -
  let ?q1 = "filtered_plan (QScan tr cols) pf"
  let ?q2 = "aggregated_plan ?q1 ag"
  let ?q3 = "sorted_plan ?q2 ks"
  obtain r3 ws3 where r3: "walk_plan L t lim ?q3 = Inr (r3, sc, ws3)" "q = limited_plan r3 (map_option (\<lambda>(n, k). (min n (max_rows lim), k)) w)"
    using assms by (cases w) (auto simp: layered_def limited_plan_def result_simps min_def split: if_splits prod.splits)
  obtain r2 ws2 where r2: "walk_plan L t lim ?q2 = Inr (r2, sc, ws2)" "r3 = sorted_plan r2 ks"
    using r3(1) by (auto simp: sorted_plan_def result_simps dest: check_sort_idem split: if_splits)
  obtain r1 sc1 ws1 ag' where r1: "walk_plan L t lim ?q1 = Inr (r1, sc1, ws1)" "r2 = aggregated_plan r1 ag'" "(ag' = None) = (ag = None)" "ag = None \<longrightarrow> sc = sc1"
  proof (cases ag)
    case None
    then show ?thesis using that [of r2 sc ws2 None] r2(1) by (simp add: aggregated_plan_def)
  next
    case (Some sp)
    then obtain r1 sc1 ws1 as where "walk_plan L t lim ?q1 = Inr (r1, sc1, ws1)" "r2 = QAggregate r1 (as_group_by sp) as"
      using r2(1) by (auto simp: aggregated_plan_def result_simps split: if_splits)
    then show ?thesis using that [of r1 sc1 ws1 "Some \<lparr>as_group_by = as_group_by sp, as_aggregates = as\<rparr>"] Some by (simp add: aggregated_plan_def)
  qed
  obtain r0 pf' where r0: "check_scan t tr cols = Inr (r0, sc1)" "r1 = filtered_plan r0 pf'"
      "case pf of None \<Rightarrow> pf' = None | Some p \<Rightarrow> \<exists>p' ty. pf' = Some p' \<and> check_expr L sc1 p = Inr (p', ty)"
  proof (cases pf)
    case None
    then show ?thesis using that [of r1 None] r1(1) by (auto simp: filtered_plan_def result_simps)
  next
    case (Some p)
    then obtain r0 p' ty where "check_scan t tr cols = Inr (r0, sc1)" "check_expr L sc1 p = Inr (p', ty)" "r1 = QFilter r0 p'"
      using r1(1) by (auto simp: filtered_plan_def result_simps split: if_splits)
    then show ?thesis using that [of r0 "Some p'"] Some by (simp add: filtered_plan_def)
  qed
  obtain ns where ns: "r0 = QScan tr (Some ns)" using r0(1) by (rule check_scan_cases)
  show ?thesis
    by (rule that [of ns pf' ag' sc1]) (use r3(2) r2(2) r1(2-4) r0 ns in \<open>simp_all add: layered_def\<close>)
qed

lemma layered_flat: "flat_limits (layered tr cols pf ag ks w) \<longleftrightarrow> (case w of None \<Rightarrow> True | Some (n, k) \<Rightarrow> k \<le> usize_max)"
  by (cases pf; cases ag; cases w) (auto simp: layered_def limited_plan_def sorted_plan_def aggregated_plan_def filtered_plan_def)

definition layer_state :: "table_ref \<Rightarrow> string list \<Rightarrow> expr option \<Rightarrow> agg_spec option \<Rightarrow> sort_expr list \<Rightarrow> (nat \<times> nat) option \<Rightarrow> stage \<Rightarrow> lowering" where
  "layer_state tr ns pf ag ks w s =
     \<lparr>lo_table = Some tr, lo_columns = ns, lo_filter = pf, lo_aggregate = ag, lo_rename = None, lo_sort = ks, lo_limit = map_option fst w,
      lo_offset = (case w of None \<Rightarrow> 0 | Some (n, k) \<Rightarrow> k), lo_stage = s\<rparr>"

lemma layer_stage [simp]: "lo_stage (layer_state tr ns pf ag ks w s) = s"
  by (simp add: layer_state_def)

lemma stage_reached: "lo_stage st \<le> u \<Longrightarrow> stage_allowed st u" "s \<le> u \<Longrightarrow> max s u = u" for s u :: stage
  by (simp_all add: stage_allowed_def max_def stage_less stage_le)

lemma layered_lowers:
  assumes "case w of None \<Rightarrow> True | Some (n, k) \<Rightarrow> k \<le> usize_max"
  shows "\<exists>s. foldM lower_node lo_start (rev (nodes_from (layered tr (Some ns) pf ag ks w))) = Inr (layer_state tr ns pf ag ks w s)"
proof -
  define run where "run q = foldM lower_node lo_start (rev (nodes_from q))" for q
  let ?q1 = "filtered_plan (QScan tr (Some ns)) pf"
  let ?q2 = "aggregated_plan ?q1 ag"
  let ?q3 = "sorted_plan ?q2 ks"
  obtain s1 where s1: "s1 \<le> SFilter" "run ?q1 = Inr (layer_state tr ns pf None [] None s1)"
  proof (cases pf)
    case None
    then show ?thesis using that [of SScan]
      by (simp add: run_def filtered_plan_def lower_node_def lo_start_def layer_state_def stage_allowed_def result_simps stage_le stage_less max_def)
  next
    case (Some p)
    then show ?thesis using that [of SFilter]
      by (simp add: run_def filtered_plan_def lower_node_def lo_start_def layer_state_def stage_allowed_def lower_filter_def result_simps stage_le stage_less max_def)
  qed
  obtain s2 where s2: "s2 \<le> SAggregate" "run ?q2 = Inr (layer_state tr ns pf ag [] None s2)"
  proof (cases ag)
    case None
    then show ?thesis using that [of s1] s1 by (simp add: aggregated_plan_def stage_le)
  next
    case (Some sp)
    have a: "stage_allowed (layer_state tr ns pf None [] None s1) SAggregate" "max s1 SAggregate = SAggregate"
      by (rule stage_reached; use s1(1) in \<open>simp add: stage_le\<close>)+
    have "lower_node (layer_state tr ns pf None [] None s1) (QAggregate ?q1 (as_group_by sp) (as_aggregates sp)) =
        Inr (layer_state tr ns pf ag [] None SAggregate)"
      using a by (simp add: lower_node_Inr lower_aggregate_def) (simp add: layer_state_def Some)
    then show ?thesis using that [of SAggregate] s1(2) Some by (simp add: run_def aggregated_plan_def foldM_append result_simps)
  qed
  obtain s3 where s3: "s3 \<le> SSort" "run ?q3 = Inr (layer_state tr ns pf ag ks None s3)"
  proof (cases "ks = []")
    case True
    then show ?thesis using that [of s2] s2 by (simp add: sorted_plan_def stage_le)
  next
    case False
    have a: "stage_allowed (layer_state tr ns pf ag [] None s2) SSort" "max s2 SSort = SSort"
      by (rule stage_reached; use s2(1) in \<open>simp add: stage_le\<close>)+
    have "lower_node (layer_state tr ns pf ag [] None s2) (QSort ?q2 ks) = Inr (layer_state tr ns pf ag ks None SSort)"
      using a by (simp add: lower_node_Inr) (simp add: layer_state_def)
    then show ?thesis using that [of SSort] s2(2) False by (simp add: run_def sorted_plan_def foldM_append result_simps)
  qed
  show ?thesis
  proof (cases w)
    case None
    then show ?thesis using s3(2) by (auto simp: layered_def limited_plan_def run_def)
  next
    case (Some nk)
    obtain n k where nk: "nk = (n, k)" by (cases nk)
    have a: "stage_allowed (layer_state tr ns pf ag ks None s3) SLimit" "max s3 SLimit = SLimit"
      by (rule stage_reached; use s3(1) in \<open>simp add: stage_le\<close>)+
    have "lower_node (layer_state tr ns pf ag ks None s3) (QLimit ?q3 n k) = Inr (layer_state tr ns pf ag ks w SLimit)"
      using a assms by (simp add: lower_node_Inr Some nk) (simp add: layer_state_def Some nk saturating_add_def)
    then show ?thesis using s3(2) Some nk by (auto simp: layered_def limited_plan_def run_def foldM_append result_simps)
  qed
qed

lemma layered_plans:
  assumes "case w of None \<Rightarrow> True | Some (n, k) \<Rightarrow> k \<le> usize_max" "ns \<noteq> []" "vq_query v = layered tr (Some ns) pf ag ks w"
  shows "\<exists>p. build_plan v = Inr p \<and> pp_filter p = pf \<and> pp_aggregate p = ag \<and> pp_rename p = None \<and> pp_sort p = ks \<and> pp_limit p = map_option fst w \<and>
    pp_offset p = (case w of None \<Rightarrow> 0 | Some (n, k) \<Rightarrow> k)"
proof -
  obtain s where s: "foldM lower_node lo_start (rev (nodes_from (vq_query v))) = Inr (layer_state tr ns pf ag ks w s)"
    using layered_lowers [OF assms(1)] assms(3) by fastforce
  have "mapM (sort_source None) ks = Inr (map so_column ks)" by (induction ks) (simp_all add: sort_source_def result_simps)
  then obtain needed where n: "needed_columns (layer_state tr ns pf ag ks w s) = Inr needed"
    by (cases ag) (simp_all add: needed_columns_def layer_state_def Let_def result_simps)
  obtain P where P: "pushed_projection ns needed = Inr P"
    using assms(2) that by (cases "filter (\<lambda>c. c \<in> set needed) ns"; cases ns) (simp_all add: pushed_projection_def Let_def del: filter.simps)
  show ?thesis using s n P by (simp add: build_plan_def result_simps) (simp add: layer_state_def)
qed

end
