(* ===== verification/RequestTheorems.thy ===== *)
theory RequestTheorems
  imports RequestProps
begin

text \<open>Structured requests, from the request to the returned batch.\<close>

section \<open>What is refused\<close>

definition operands_ok :: "filter_spec \<Rightarrow> bool" where
  "operands_ok f \<longleftrightarrow>
     (if filter_binary (fs_op f) \<noteq> None then (\<exists>j. fs_value f = Some j \<and> (\<exists>v. json_to_value j = Inr v))
      else fs_op f \<in> {FoIsNull, FoIsNotNull} \<or>
        fs_values f \<noteq> [] \<and> (fs_op f = FoBetween \<longrightarrow> length (fs_values f) = 2) \<and> (\<forall>j \<in> set (fs_values f). \<exists>v. json_to_value j = Inr v))"

lemma rmap_Inl_iff: "rmap f m = Inl e \<longleftrightarrow> m = Inl e"
  by (cases m) auto

lemma json_value_error: "json_to_value j = Inl e \<Longrightarrow> e = BadRequest"
  by (cases j) (auto simp: result_simps rmap_Inl_iff split: option.splits)

lemma mapM_error: "mapM f xs = Inl e \<Longrightarrow> \<exists>x \<in> set xs. f x = Inl e"
  by (induction xs) (auto simp: result_simps)

lemma filter_expr_accepted: "(\<exists>e. filter_to_expr f = Inr e) \<longleftrightarrow> operands_ok f"
proof -
  have m: "(\<exists>vs. mapM json_to_value js = Inr vs) \<longleftrightarrow> (\<forall>j \<in> set js. \<exists>v. json_to_value j = Inr v)" for js
    by (induction js) (auto simp: result_simps)
  show ?thesis
    by (cases "fs_op f"; cases "fs_value f"; cases "fs_values f" rule: remdups_adj.cases)
      (auto simp: filter_to_expr_def operands_ok_def Let_def result_simps m simp del: json_to_value.simps mapM.simps split: list.splits)
qed

lemma filter_expr_error: "filter_to_expr f = Inl e \<Longrightarrow> e = BadRequest"
  by (cases "fs_op f"; cases "fs_value f")
    (auto simp: filter_to_expr_def Let_def result_simps rmap_Inl_iff split: if_splits list.splits dest!: mapM_error dest: json_value_error)

lemma predicate_accepted: "(\<exists>pf. predicate r = Inr pf) \<longleftrightarrow> list_all operands_ok (pr_filters r)"
proof -
  have "(\<exists>es. mapM filter_to_expr fs = Inr es) \<longleftrightarrow> list_all operands_ok fs" for fs
    by (induction fs) (simp_all add: result_simps filter_expr_accepted [symmetric], blast)
  then show ?thesis by (auto simp: predicate_def result_simps)
qed

lemma ident_error: "validate_ident s = Inl e \<Longrightarrow> e = InvalidIdentifier"
  by (auto simp: validate_ident_def split: if_splits)

lemma predicate_error: "predicate r = Inl e \<Longrightarrow> e = BadRequest"
  by (auto simp: predicate_def rmap_Inl_iff dest!: mapM_error dest: filter_expr_error)

definition request_ok :: "plan_request \<Rightarrow> bool" where
  "request_ok r \<longleftrightarrow>
     ident_ok (pr_table r) \<and> list_all operands_ok (pr_filters r) \<and>
     (if pr_operation r = SelectRows then pr_metrics r = [] \<and> pr_group_by r = [] else pr_metrics r \<noteq> []) \<and>
     (pr_limit r = None \<longrightarrow> pr_offset r = None \<or> pr_offset r = Some 0)"

text \<open>
  C34: a structured request is refused exactly when its table is not an identifier, a filter lacks the
  operands its operator takes or has one that is no scalar, a select has metrics or groups, an
  aggregate has no metric, or it skips rows without a limit; the error is always the caller's, never
  an internal one.
\<close>

theorem request_refused:
  "case to_ir r of Inr q \<Rightarrow> request_ok r | Inl e \<Rightarrow> \<not> request_ok r \<and> (e = BadRequest \<or> e = InvalidIdentifier \<and> \<not> ident_ok (pr_table r))"
proof (cases "to_ir r")
  case (Inr q)
  then have "request_ok r" using predicate_accepted [of r] unfolding to_ir_shape request_ok_def ident_ok_def by blast
  then show ?thesis by (simp add: Inr)
next
  case (Inl e)
  have "\<not> request_ok r"
  proof
    assume "request_ok r"
    then have a: "validate_ident (pr_table r) = Inr ()" "list_all operands_ok (pr_filters r)"
        "if pr_operation r = SelectRows then pr_metrics r = [] \<and> pr_group_by r = [] else pr_metrics r \<noteq> []"
        "pr_limit r = None \<longrightarrow> pr_offset r = None \<or> pr_offset r = Some 0"
      by (simp_all add: request_ok_def ident_ok_def)
    obtain pf where "predicate r = Inr pf" using a(2) predicate_accepted [of r] by blast
    then have "to_ir r = Inr (layered (request_table (pr_table r)) (request_columns r) pf (request_spec r) (map order_expr (pr_order_by r)) (request_window r))"
      unfolding to_ir_shape using a(1,3,4) by blast
    then show False using Inl by simp
  qed
  moreover have "e = BadRequest \<or> e = InvalidIdentifier \<and> \<not> ident_ok (pr_table r)"
  proof (cases "validate_ident (pr_table r)")
    case (Inl e')
    then show ?thesis using \<open>to_ir r = Inl e\<close> ident_error [OF Inl] by (simp add: to_ir_def ident_ok_def)
  next
    case i: (Inr u)
    show ?thesis
    proof (cases "predicate r")
      case (Inl e')
      then show ?thesis using \<open>to_ir r = Inl e\<close> i predicate_error [OF Inl] by (simp add: to_ir_def)
    next
      case (Inr pf)
      then show ?thesis using \<open>to_ir r = Inl e\<close> i
        by (cases "pr_operation r"; cases "pr_limit r"; cases "pr_offset r") (simp_all add: to_ir_def Let_def split: if_splits)
    qed
  qed
  ultimately show ?thesis by (simp add: Inl)
qed

section \<open>What is planned\<close>

lemma conjuncts_columns: "d \<in> set (conjuncts e) \<Longrightarrow> expr_columns d \<subseteq> expr_columns e"
  by (induction e rule: conjuncts.induct) auto

lemma atom_column: "a \<in> set (conjunct_atoms d) \<Longrightarrow> pa_column a \<in> expr_columns d"
  by (induction d rule: conjunct_atoms.induct)
    (auto dest!: comparison_atom simp: atom_binary_def atom_unary_def split: option.splits if_splits elim!: as_column.elims)

lemma prune_atom_column: "a \<in> set (extract_prune_atoms e) \<Longrightarrow> pa_column a \<in> expr_columns e"
  using conjuncts_columns atom_column by (fastforce simp: extract_prune_atoms_def)

lemma validated_walk:
  assumes "validate V t lim q0 = Inr v"
  obtains ws where "walk_plan V t lim q0 = Inr (vq_query v, vq_schema v, ws)" "vq_schema v \<noteq> []"
  using assms by (auto simp: validate_def result_simps split: if_splits)

text \<open>Every filter of the request is on a column whose statistics order its values as the filter does.\<close>

definition filters_plain :: "table_schema \<Rightarrow> plan_request \<Rightarrow> bool" where
  "filters_plain t r \<longleftrightarrow> (\<forall>f \<in> set (pr_filters r). type_of_column t (fs_column f) \<noteq> DJson)"

definition request_small :: "plan_request \<Rightarrow> bool" where
  "request_small r \<longleftrightarrow> (case pr_offset r of None \<Rightarrow> True | Some k \<Rightarrow> k \<le> usize_max)"

definition scanned_schema :: "table_schema \<Rightarrow> string list \<Rightarrow> output_schema" where
  "scanned_schema t ns = map (\<lambda>n. meta_of (the (column t n))) ns"

lemma scanned_columns: "mapM (\<lambda>n. rmap meta_of (require_column t n)) ns = Inr sc \<Longrightarrow> sc = scanned_schema t ns"
  by (induction ns arbitrary: sc) (auto simp: scanned_schema_def result_simps require_column_def)

text \<open>The columns a select returns, and the rows its conditions accept.\<close>

definition request_names :: "table_schema \<Rightarrow> plan_request \<Rightarrow> string list" where
  "request_names t r = (case request_columns r of Some cs \<Rightarrow> cs | None \<Rightarrow> default_projection t)"

definition condition_holds :: "ext_lib \<Rightarrow> sql_lib \<Rightarrow> output_schema \<Rightarrow> env \<Rightarrow> expr \<Rightarrow> bool" where
  "condition_holds V S sc env e = (case check_expr V sc e of Inl _ \<Rightarrow> False | Inr (e', _) \<Rightarrow> sql_holds S env e')"

definition passes :: "ext_lib \<Rightarrow> sql_lib \<Rightarrow> output_schema \<Rightarrow> plan_request \<Rightarrow> env \<Rightarrow> bool" where
  "passes V S sc r env \<longleftrightarrow>
     list_all (\<lambda>f. case filter_to_expr f of Inl _ \<Rightarrow> False | Inr e \<Rightarrow> condition_holds V S sc env e) (pr_filters r)"

definition request_answers :: "ext_lib \<Rightarrow> sql_lib \<Rightarrow> query_limits \<Rightarrow> table_schema \<Rightarrow> plan_request \<Rightarrow> env list \<Rightarrow> env list set" where
  "request_answers V S lim t r rows =
     (let ns = request_names t r in
      window (map_option (min (max_rows lim)) (pr_limit r)) (case pr_offset r of Some k \<Rightarrow> k | None \<Rightarrow> 0) `
        sort_answers (map order_expr (pr_order_by r))
          (map (restrict_env ns) (filter (passes V S (scanned_schema t ns) r) rows)))"

lemma check_and: "check_expr V sc (EBinary OpAnd l r) = Inr (e', ty) \<Longrightarrow>
    \<exists>l' tl r' tr. check_expr V sc l = Inr (l', tl) \<and> check_expr V sc r = Inr (r', tr) \<and> e' = EBinary OpAnd l' r'"
  by (auto simp: result_simps check_sides_def is_logical_def)

lemma conjunction_holds:
  assumes "check_expr V sc (foldl (EBinary OpAnd) e es) = Inr (e', ty)"
  shows "sql_holds S env e' \<longleftrightarrow> (\<forall>x \<in> set (e # es). condition_holds V S sc env x)"
  using assms
proof (induction es arbitrary: e' ty rule: rev_induct)
  case Nil
  then show ?case by (simp add: condition_holds_def)
next
  case (snoc x es)
  obtain l' tl x' tx where c: "check_expr V sc (foldl (EBinary OpAnd) e es) = Inr (l', tl)" "check_expr V sc x = Inr (x', tx)" "e' = EBinary OpAnd l' x'"
    using check_and snoc.prems by (metis foldl_append foldl_Cons foldl_Nil)
  then show ?case using snoc.IH [OF c(1)] by (auto simp: condition_holds_def)
qed

lemma predicate_passes:
  assumes "predicate r = Inr pf" "case pf of None \<Rightarrow> pf' = None | Some p \<Rightarrow> \<exists>p' ty. pf' = Some p' \<and> check_expr V sc p = Inr (p', ty)"
  shows "filtered S pf' es = filter (passes V S sc r) es"
proof -
  obtain xs where xs: "mapM filter_to_expr (pr_filters r) = Inr xs" "all_of xs = pf" using assms(1) by (auto simp: predicate_def result_simps)
  have "list_all2 (\<lambda>f e. filter_to_expr f = Inr e) (pr_filters r) xs" using xs(1) by (simp add: mapM_Inr_iff)
  then have p: "passes V S sc r env \<longleftrightarrow> (\<forall>x \<in> set xs. condition_holds V S sc env x)" for env
    unfolding passes_def by (induction rule: list_all2_induct) auto
  show ?thesis
  proof (cases xs)
    case Nil
    then show ?thesis using assms(2) xs(2) by (auto simp: all_of_def filtered_def p)
  next
    case (Cons e ys)
    then obtain p' ty where p': "pf' = Some p'" "check_expr V sc (foldl (EBinary OpAnd) e ys) = Inr (p', ty)"
      using assms(2) xs(2) by (auto simp: all_of_def)
    have "sql_holds S env p' \<longleftrightarrow> passes V S sc r env" for env using conjunction_holds [OF p'(2)] p Cons by simp
    then show ?thesis by (simp add: filtered_def p'(1))
  qed
qed

lemma layered_answers:
  "answers S F es (layered tr (Some ns) pf ag ks w) =
     window (map_option fst w) (case w of None \<Rightarrow> 0 | Some (n, k) \<Rightarrow> k) ` sort_answers ks (aggregated F ag (filtered S pf (map (restrict_env ns) es)))"
proof -
  have a: "\<lparr>as_group_by = as_group_by sp, as_aggregates = as_aggregates sp\<rparr> = sp" for sp :: agg_spec by (cases sp) simp
  let ?q2 = "aggregated_plan (filtered_plan (QScan tr (Some ns)) pf) ag"
  have "answers S F es ?q2 = {aggregated F ag (filtered S pf (map (restrict_env ns) es))}"
    by (cases pf; cases ag) (simp_all add: aggregated_plan_def filtered_plan_def aggregated_def filtered_def a)
  then have "answers S F es (sorted_plan ?q2 ks) = sort_answers ks (aggregated F ag (filtered S pf (map (restrict_env ns) es)))"
    by (simp add: sorted_plan_def sort_answers_def)
  then show ?thesis by (cases w) (auto simp: layered_def limited_plan_def window_def)
qed

lemma request_plan:
  assumes r: "to_ir r = Inr q0" "request_small r" "filters_plain t r" and t: "validate_schema t = Inr ()" "default_projection t \<noteq> []"
    and v: "validate V t lim q0 = Inr v"
  shows "flat_limits (vq_query v) \<and> (\<exists>p. build_plan v = Inr p \<and> filter_fits t p \<and> pp_rename p = None \<and>
      (pp_aggregate p = None \<longleftrightarrow> pr_operation r = SelectRows) \<and> pp_limit p = map_option (min (max_rows lim)) (pr_limit r)) \<and>
    (pr_operation r = SelectRows \<longrightarrow> vq_schema v = scanned_schema t (request_names t r) \<and> out_names (vq_schema v) = request_names t r \<and>
      answers S F es (vq_query v) = request_answers V S lim t r es)"
proof -
  let ?tr = "request_table (pr_table r)" and ?w = "request_window r"
  have ok: "schema_ok t" using t(1) by (simp add: validate_schema_iff)
  obtain pf where pf: "predicate r = Inr pf" "q0 = layered ?tr (request_columns r) pf (request_spec r) (map order_expr (pr_order_by r)) ?w"
    using r(1) unfolding to_ir_shape by blast
  have o: "pr_limit r = None \<longrightarrow> pr_offset r = None \<or> pr_offset r = Some 0" using r(1) by (simp add: to_ir_shape)
  obtain ws where w: "walk_plan V t lim q0 = Inr (vq_query v, vq_schema v, ws)" using v by (rule validated_walk)
  obtain ns sc0 pf' ag' where q: "vq_query v = layered ?tr (Some ns) pf' ag' (map order_expr (pr_order_by r)) (map_option (\<lambda>(n, k). (min n (max_rows lim), k)) ?w)"
    and scan: "check_scan t ?tr (request_columns r) = Inr (QScan ?tr (Some ns), sc0)" and ag: "(ag' = None) = (request_spec r = None)"
    and sc: "request_spec r = None \<longrightarrow> vq_schema v = sc0"
    and f: "case pf of None \<Rightarrow> pf' = None | Some p \<Rightarrow> \<exists>p' ty. pf' = Some p' \<and> check_expr V sc0 p = Inr (p', ty)"
    using w unfolding pf(2) by (rule walk_layered)
  let ?w' = "map_option (\<lambda>(n, k). (min n (max_rows lim), k)) ?w"
  have small: "case ?w' of None \<Rightarrow> True | Some (n, k) \<Rightarrow> k \<le> usize_max"
    using r(2) by (auto simp: request_window_def request_small_def split: option.splits)
  have s: "scan_names t (request_columns r) = Inr ns" "out_names sc0 = ns" "sc0 = scanned_schema t ns"
    by (rule check_scan_cases [OF scan]; simp add: scanned_columns)+
  have ns: "ns \<noteq> []" "ns = request_names t r"
    using s(1) t(2) by (auto simp: scan_names_def request_names_def result_simps split: option.splits if_splits)
  obtain p where p: "build_plan v = Inr p" "pp_filter p = pf'" "pp_aggregate p = ag'" "pp_rename p = None" "pp_limit p = map_option fst ?w'"
    using layered_plans [OF small ns(1) q] by blast
  have cols: "opt_columns pf' \<subseteq> set ns"
    using f check_expr_columns s(2) by (cases pf) (auto simp: opt_columns_def, blast)
  have "filter_fits t p"
  proof (cases pf)
    case None
    then show ?thesis using f p(2) by (simp add: filter_fits_def)
  next
    case (Some e)
    then obtain e' ty where e: "pf' = Some e'" "check_expr V sc0 e = Inr (e', ty)" using f by auto
    have s: "simple_filter e" "expr_columns e = fs_column ` set (pr_filters r)" using predicate_simple [of r e] pf(1) Some by simp_all
    have ty: "ev_type (table_type t) e' = Some ABoolean" by (rule check_simple [OF s(1) e(2) scan_columns [OF scan]])
    have "atom_typed (type_of_column t) a" if a: "a \<in> set (extract_prune_atoms e')" for a
    proof -
      have "pa_column a \<in> expr_columns e'" using a by (rule prune_atom_column)
      then have "type_of_column t (pa_column a) \<noteq> DJson" using check_expr_columns [OF e(2)] s(2) r(3) by (auto simp: filters_plain_def)
      then show ?thesis using checked_atoms [OF scan e(2)] a by (simp add: atom_typed_def)
    qed
    then have "prunable t e'" by (simp add: prunable_def list_all_iff)
    then show ?thesis using ty p(2) e(1) by (simp add: filter_fits_def)
  qed
  moreover have op: "pr_operation r = SelectRows \<longleftrightarrow> request_spec r = None" by (cases "pr_operation r") (simp_all add: request_spec_def)
  moreover have l: "map_option fst ?w' = map_option (min (max_rows lim)) (pr_limit r)"
    by (cases "pr_limit r") (simp_all add: request_window_def min.commute)
  moreover have "flat_limits (vq_query v)" unfolding q layered_flat by (rule small)
  moreover have "answers S F es (vq_query v) = request_answers V S lim t r es" if "pr_operation r = SelectRows"
  proof -
    have "ag' = None" using that op ag by simp
    moreover have "filtered S pf' (map (restrict_env ns) es) = map (restrict_env ns) (filter (passes V S sc0 r) es)"
      using filtered_restrict [OF cols] predicate_passes [OF pf(1) f] by simp
    moreover have "(case ?w' of None \<Rightarrow> 0 | Some (n, k) \<Rightarrow> k) = (case pr_offset r of Some k \<Rightarrow> k | None \<Rightarrow> 0)"
      using o by (auto simp: request_window_def split: option.splits)
    ultimately show ?thesis
      unfolding q layered_answers l request_answers_def Let_def s(3) ns(2) by (simp add: aggregated_def)
  qed
  ultimately show ?thesis using p ag s ns sc by auto
qed

section \<open>What is answered\<close>


definition demo_request :: plan_request where
  "demo_request = with_limit (with_filter (with_filter (request_select (tname demo_schema)) (filter_new ''id'' FoGt (jnat 2))) (filter_unary ''country'' FoIsNotNull)) 500"

definition demo_request_query :: query where
  "demo_request_query = QLimit (QFilter (QScan \<lparr>tr_database = None, tr_table = tname demo_schema\<rparr> None)
     (EBinary OpAnd (EBinary OpGt (EColumn ''id'') (ELiteral (VInt 2))) (EIsNotNull (EColumn ''country'')))) 500 0"

lemma demo_table_ident: "validate_ident (tname demo_schema) = Inr ()"
  by (simp add: demo_schema_def new_table_def validate_ident_def max_ident_len_def ident_char_def is_ascii_lowercase_def is_ascii_digit_def)

lemma demo_request_ir: "to_ir demo_request = Inr demo_request_query"
  by (simp add: to_ir_def demo_request_def with_limit_def with_filter_def request_select_def request_for_def filter_new_def filter_unary_def
    jnat_def json_of_i64_def demo_table_ident predicate_def filter_to_expr_def all_of_def request_scan_def request_table_def demo_request_query_def)

lemma demo_request_validate:
  assumes "max_rows lim = 100"
  shows "validate Values.demo_lib demo_schema lim demo_request_query = Inr demo_validated"
  by (simp add: validate_def demo_request_query_def demo_scan_checked assms out_column_def check_sides_def is_logical_def is_arithmetic_def is_comparison_def
    coerce_sides_def is_ordered_def expect_bool_def demo_validated_def demo_checked_def)


end
