(* ===== verification/Engine.thy ===== *)
theory Engine
  imports Request Exec Table Catalog Context "HOL-Library.Product_Lexorder"
begin

text \<open>
  \<open>crates/adb-engine/src/engine.rs\<close>: one data directory with its catalog, the log of catalog
  changes and the open tables. An operation is one step; it returns its result and the engine it
  leaves, also on the error paths. Outside the repository, so fields of \<open>engine_lib\<close>: the JSON form of
  a catalog change (serde). The lock file of the directory is the operating system's.
\<close>

section \<open>State\<close>

type_synonym table_key = "string \<times> string \<times> string"

record engine =
  en_store :: fs_store
  en_catalog :: catalog_snapshot
  en_log :: file_log
  en_tables :: "(table_key, table_store) btree"
  en_config :: storage_config

record engine_lib =
  el_storage :: storage_lib
  el_ext :: ext_lib
  el_exec :: exec_lib
  ddl_json :: "ddl_mutation \<Rightarrow> string option"
  ddl_parse :: "string \<Rightarrow> ddl_mutation option"

type_synonym 'a engine_op = "engine \<Rightarrow> 'a result \<times> engine"

definition lift :: "'a result \<Rightarrow> 'a engine_op" where
  "lift r e = (r, e)"

definition asks :: "(engine \<Rightarrow> 'a result) \<Rightarrow> 'a engine_op" where
  "asks f e = (f e, e)"

definition updates :: "(engine \<Rightarrow> engine) \<Rightarrow> unit engine_op" where
  "updates f e = (Inr (), f e)"

definition ebind :: "'a engine_op \<Rightarrow> ('a \<Rightarrow> 'b engine_op) \<Rightarrow> 'b engine_op" where
  "ebind m f e = (case m e of (Inl err, e') \<Rightarrow> (Inl err, e') | (Inr x, e') \<Rightarrow> f x e')"

section \<open>Catalog changes\<close>

definition ddl_record :: "engine_lib \<Rightarrow> ddl_mutation \<Rightarrow> mutation result" where
  "ddl_record E m = rmap MDdl (ok_or Internal (ddl_json E m))"

definition as_ddl :: "engine_lib \<Rightarrow> mutation \<Rightarrow> ddl_mutation result" where
  "as_ddl E m = (case m of MDdl j \<Rightarrow> ok_or Corruption (ddl_parse E j) | _ \<Rightarrow> Inl Internal)"

definition log_ddl :: "engine_lib \<Rightarrow> mutation \<Rightarrow> unit engine_op" where
  "log_ddl E r e =
     (case log_append (sl_wal (el_storage E)) (en_store e, en_log e) r of
        (x, s, lg) \<Rightarrow> (rmap (\<lambda>_. ()) x, e\<lparr>en_store := s, en_log := lg\<rparr>))"

definition commit_ddl :: "engine_lib \<Rightarrow> ddl_mutation \<Rightarrow> unit engine_op" where
  "commit_ddl E m =
     ebind (asks (\<lambda>e. apply_ddl (en_catalog e) m)) (\<lambda>_.
     ebind (lift (ddl_record E m)) (\<lambda>r.
     ebind (log_ddl E r) (\<lambda>_.
     ebind (asks (\<lambda>e. apply_ddl (en_catalog e) m)) (\<lambda>c.
     updates (\<lambda>e. e\<lparr>en_catalog := c\<rparr>)))))"

definition delete_files :: "string \<Rightarrow> unit engine_op" where
  "delete_files pre e =
     (case store_delete_prefix (en_store e) pre of Inl err \<Rightarrow> (Inl err, e) | Inr s \<Rightarrow> (Inr (), e\<lparr>en_store := s\<rparr>))"

section \<open>Databases\<close>

definition create_database :: "engine_lib \<Rightarrow> request_context \<Rightarrow> string \<Rightarrow> unit engine_op" where
  "create_database E ctx n =
     ebind (lift (require_scope ctx DatabaseWrite)) (\<lambda>_. commit_ddl E (CreateDatabase (ctx_tenant ctx) n))"

definition list_databases :: "request_context \<Rightarrow> string list engine_op" where
  "list_databases ctx =
     ebind (lift (require_scope ctx DatabaseRead)) (\<lambda>_. asks (\<lambda>e. Inr (databases (en_catalog e) (ctx_tenant ctx))))"

definition drop_database :: "engine_lib \<Rightarrow> request_context \<Rightarrow> string \<Rightarrow> bool \<Rightarrow> nat engine_op" where
  "drop_database E ctx n cascade =
     ebind (lift (require_scope ctx DatabaseWrite)) (\<lambda>_.
     ebind (asks (\<lambda>e. list_tables (en_catalog e) (ctx_tenant ctx) n)) (\<lambda>ts.
     if ts \<noteq> [] \<and> \<not> cascade then lift (Inl BadRequest)
     else
       ebind (commit_ddl E (DropDatabase (ctx_tenant ctx) n)) (\<lambda>_.
       ebind (updates (\<lambda>e. e\<lparr>en_tables := foldl (\<lambda>m s. bt_remove (ctx_tenant ctx, n, tname s) m) (en_tables e) ts\<rparr>)) (\<lambda>_.
       ebind (delete_files (database_prefix (ctx_tenant ctx) n)) (\<lambda>_. lift (Inr (length ts)))))))"

section \<open>Tables\<close>

definition open_one :: "engine_lib \<Rightarrow> table_key \<Rightarrow> table_schema \<Rightarrow> unit engine_op" where
  "open_one E k schema e =
     (case k of (t, d, n) \<Rightarrow>
        (case table_open (el_storage E) (en_store e) t d schema (en_config e) of
           Inl err \<Rightarrow> (Inl err, e)
         | Inr (s, tb) \<Rightarrow> (Inr (), e\<lparr>en_store := s, en_tables := bt_insert k tb (en_tables e)\<rparr>)))"

definition create_table :: "engine_lib \<Rightarrow> request_context \<Rightarrow> table_schema \<Rightarrow> table_schema engine_op" where
  "create_table E ctx schema =
     ebind (lift (require_scope ctx SchemaWrite)) (\<lambda>_.
     ebind (lift (require_database ctx)) (\<lambda>d.
     ebind (lift (validate_schema schema)) (\<lambda>_.
     ebind (commit_ddl E (CreateTable (ctx_tenant ctx) d schema)) (\<lambda>_.
     ebind (asks (\<lambda>e. lookup_table (en_catalog e) (ctx_tenant ctx) d (tname schema))) (\<lambda>created.
     ebind (open_one E (ctx_tenant ctx, d, tname schema) created) (\<lambda>_.
     lift (Inr created)))))))"

definition engine_list_tables :: "request_context \<Rightarrow> table_schema list engine_op" where
  "engine_list_tables ctx =
     ebind (lift (require_scope ctx SchemaRead)) (\<lambda>_.
     ebind (lift (require_database ctx)) (\<lambda>d. asks (\<lambda>e. list_tables (en_catalog e) (ctx_tenant ctx) d)))"

definition describe_for_query :: "request_context \<Rightarrow> string \<Rightarrow> table_schema engine_op" where
  "describe_for_query ctx n =
     ebind (lift (require_database ctx)) (\<lambda>d. asks (\<lambda>e. lookup_table (en_catalog e) (ctx_tenant ctx) d n))"

definition describe_table :: "request_context \<Rightarrow> string \<Rightarrow> table_schema engine_op" where
  "describe_table ctx n = ebind (lift (require_scope ctx SchemaRead)) (\<lambda>_. describe_for_query ctx n)"

text \<open>The registry entry of a table, and an operation of \<open>TableStore\<close> run on it.\<close>

definition open_table :: "request_context \<Rightarrow> string \<Rightarrow> (table_key \<times> table_store) engine_op" where
  "open_table ctx n =
     ebind (lift (require_database ctx)) (\<lambda>d. let k = (ctx_tenant ctx, d, n) in
     asks (\<lambda>e. rmap (Pair k) (ok_or (NotFound ''table'') (bt_get (en_tables e) k))))"

definition on_table :: "table_key \<Rightarrow> (table_st \<Rightarrow> 'a result \<times> table_st) \<Rightarrow> 'a engine_op" where
  "on_table k f e =
     (case bt_get (en_tables e) k of
        None \<Rightarrow> (Inl (NotFound ''table''), e)
      | Some tb \<Rightarrow> (case f (en_store e, tb) of
          (r, s, tb') \<Rightarrow> (r, e\<lparr>en_store := s, en_tables := bt_insert k tb' (en_tables e)\<rparr>)))"

definition update_schema :: "engine_lib \<Rightarrow> request_context \<Rightarrow> table_schema \<Rightarrow> table_schema engine_op" where
  "update_schema E ctx schema =
     ebind (lift (require_scope ctx SchemaWrite)) (\<lambda>_.
     ebind (lift (require_database ctx)) (\<lambda>d.
     ebind (commit_ddl E (UpdateSchema (ctx_tenant ctx) d schema)) (\<lambda>_.
     ebind (asks (\<lambda>e. lookup_table (en_catalog e) (ctx_tenant ctx) d (tname schema))) (\<lambda>updated.
     ebind (open_table ctx (tname schema)) (\<lambda>(k, _).
     ebind (on_table k (table_set_schema (el_storage E) updated)) (\<lambda>_.
     lift (Inr updated)))))))"

text \<open>The registry's \<open>Arc\<close> is the last one, since no other operation is under way: \<open>destroy\<close> runs.\<close>

definition remove_table :: "table_key \<Rightarrow> unit engine_op" where
  "remove_table k e =
     (case k of (t, d, n) \<Rightarrow>
        (let e' = e\<lparr>en_tables := bt_remove k (en_tables e)\<rparr> in
         case bt_get (en_tables e) k of
           None \<Rightarrow> delete_files (table_prefix t d n) e'
         | Some tb \<Rightarrow> (case table_destroy (en_store e, tb) of Inl err \<Rightarrow> (Inl err, e') | Inr s \<Rightarrow> (Inr (), e'\<lparr>en_store := s\<rparr>))))"

definition drop_table :: "engine_lib \<Rightarrow> request_context \<Rightarrow> string \<Rightarrow> unit engine_op" where
  "drop_table E ctx n =
     ebind (lift (require_scope ctx SchemaWrite)) (\<lambda>_.
     ebind (lift (require_database ctx)) (\<lambda>d.
     ebind (asks (\<lambda>e. lookup_table (en_catalog e) (ctx_tenant ctx) d n)) (\<lambda>_.
     ebind (commit_ddl E (DropTable (ctx_tenant ctx) d n)) (\<lambda>_. remove_table (ctx_tenant ctx, d, n)))))"

record table_stats =
  st_table :: string
  st_rows :: nat
  st_bytes :: nat
  st_partitions :: nat
  st_segments :: nat
  st_schema_version :: u32

definition engine_table_stats :: "request_context \<Rightarrow> string \<Rightarrow> table_stats engine_op" where
  "engine_table_stats ctx n =
     ebind (lift (require_scope ctx SchemaRead)) (\<lambda>_.
     ebind (open_table ctx n) (\<lambda>(k, tb). let sns = table_snapshots tb in
     lift (Inr \<lparr>st_table = n, st_rows = sum_list (map visible_rows sns), st_bytes = stored_bytes tb, st_partitions = length sns,
       st_segments = sum_list (map (\<lambda>sn. length (sn_segments sn)) sns), st_schema_version = version (ts_schema tb)\<rparr>)))"

section \<open>Data\<close>

definition write_rows :: "engine_lib \<Rightarrow> request_context \<Rightarrow> string \<Rightarrow> json_row list \<Rightarrow> bool \<Rightarrow> write_outcome engine_op" where
  "write_rows E ctx n rs upsert =
     (if max_write_rows (ctx_limits ctx) < length rs then lift (Inl (LimitExceeded ''write:max_rows''))
      else
        ebind (open_table ctx n) (\<lambda>(k, tb).
        ebind (lift (batch_from_json_rows (el_ext E) (sl_arrow (el_storage E)) (ts_schema tb) rs)) (\<lambda>b.
        on_table k (table_write (el_storage E) b upsert))))"

definition insert_rows :: "engine_lib \<Rightarrow> request_context \<Rightarrow> string \<Rightarrow> json_row list \<Rightarrow> write_outcome engine_op" where
  "insert_rows E ctx n rs = ebind (lift (require_scope ctx DataInsert)) (\<lambda>_. write_rows E ctx n rs False)"

definition upsert_rows :: "engine_lib \<Rightarrow> request_context \<Rightarrow> string \<Rightarrow> json_row list \<Rightarrow> write_outcome engine_op" where
  "upsert_rows E ctx n rs = ebind (lift (require_scope ctx DataUpdate)) (\<lambda>_. write_rows E ctx n rs True)"

definition key_value :: "ext_lib \<Rightarrow> table_schema \<Rightarrow> json \<Rightarrow> string \<Rightarrow> adb_value result" where
  "key_value V schema j c = rbind (require_column schema c) (\<lambda>col. from_json V j (col_type col))"

fun parse_key :: "ext_lib \<Rightarrow> table_schema \<Rightarrow> json \<Rightarrow> row_key result" where
  "parse_key V schema (JObject fs) =
     mapM (\<lambda>c. rbind (ok_or BadRequest (map_of fs c)) (\<lambda>j. key_value V schema j c)) (primary_key schema)"
| "parse_key V schema (JArray js) =
     (if length js \<noteq> length (primary_key schema) then Inl BadRequest
      else mapM (\<lambda>(j, c). key_value V schema j c) (zip js (primary_key schema)))"
| "parse_key V schema j =
     (case primary_key schema of
        [c] \<Rightarrow> rmap (\<lambda>v. [v]) (key_value V schema j c)
      | _ \<Rightarrow> Inl BadRequest)"

definition parse_keys :: "ext_lib \<Rightarrow> table_schema \<Rightarrow> json list \<Rightarrow> row_key list result" where
  "parse_keys V schema ks = (if is_append_only schema then Inl BadRequest else mapM (parse_key V schema) ks)"

definition delete_rows :: "engine_lib \<Rightarrow> request_context \<Rightarrow> string \<Rightarrow> json list \<Rightarrow> nat engine_op" where
  "delete_rows E ctx n ks =
     ebind (lift (require_scope ctx DataDelete)) (\<lambda>_.
     ebind (open_table ctx n) (\<lambda>(k, tb).
     ebind (lift (parse_keys (el_ext E) (ts_schema tb) ks)) (\<lambda>parsed.
     on_table k (table_delete (el_storage E) parsed))))"

definition get_rows :: "engine_lib \<Rightarrow> request_context \<Rightarrow> string \<Rightarrow> json list \<Rightarrow> json_row list engine_op" where
  "get_rows E ctx n ks =
     ebind (lift (require_scope ctx DatabaseRead)) (\<lambda>_.
     ebind (open_table ctx n) (\<lambda>(k, tb).
     ebind (lift (parse_keys (el_ext E) (ts_schema tb) ks)) (\<lambda>parsed.
     ebind (asks (\<lambda>e. table_get (el_storage E) parsed (en_store e, tb))) (\<lambda>b.
     lift (Inr (batch_to_json_rows (el_ext E) b))))))"

definition flush_table :: "engine_lib \<Rightarrow> request_context \<Rightarrow> string \<Rightarrow> nat engine_op" where
  "flush_table E ctx n =
     ebind (lift (require_scope ctx DataInsert)) (\<lambda>_.
     ebind (open_table ctx n) (\<lambda>(k, _). on_table k (table_flush (el_storage E))))"

definition compact_table :: "engine_lib \<Rightarrow> request_context \<Rightarrow> string \<Rightarrow> nat engine_op" where
  "compact_table E ctx n =
     ebind (lift (require_scope ctx DataInsert)) (\<lambda>_.
     ebind (open_table ctx n) (\<lambda>(k, _). on_table k (table_compact (el_storage E))))"

text \<open>At shutdown every table is flushed; the error of one table does not stop the others.\<close>

definition checkpoint_all :: "engine_lib \<Rightarrow> nat engine_op" where
  "checkpoint_all E e =
     (let (n, e) = foldl (\<lambda>(n, e) k. case on_table k (table_flush (el_storage E)) e of
          (Inr m, e) \<Rightarrow> (n + m, e) | (Inl _, e) \<Rightarrow> (n, e)) (0, e) (bt_keys (en_tables e))
      in (Inr n, e))"

section \<open>Queries\<close>

datatype engine_warning = PlanWarning warning | RunWarning exec_warning

record query_outcome =
  qo_rows :: "json_row list"
  qo_schema :: output_schema
  qo_stats :: exec_stats
  qo_warnings :: "engine_warning list"
  qo_plan :: plan_request

definition run_plan :: "engine_lib \<Rightarrow> request_context \<Rightarrow> (nat \<Rightarrow> nat) \<Rightarrow> string \<Rightarrow> table_schema \<Rightarrow> query \<Rightarrow> plan_request \<Rightarrow> query_outcome engine_op" where
  "run_plan E ctx clock n schema ir request =
     ebind (lift (validate (el_ext E) schema (ctx_limits ctx) ir)) (\<lambda>v.
     ebind (lift (build_plan v)) (\<lambda>p.
     ebind (open_table ctx n) (\<lambda>(k, tb).
     ebind (asks (\<lambda>e. execute (el_exec E) (en_store e) clock p (table_snapshots tb) (ctx_limits ctx))) (\<lambda>q.
     lift (Inr \<lparr>qo_rows = batch_to_json_rows (el_ext E) (qr_batch q), qo_schema = vq_schema v, qo_stats = qr_stats q,
       qo_warnings = map PlanWarning (vq_warnings v) @ map RunWarning (qr_warnings q), qo_plan = request\<rparr>)))))"

definition query_plan :: "engine_lib \<Rightarrow> request_context \<Rightarrow> (nat \<Rightarrow> nat) \<Rightarrow> plan_request \<Rightarrow> query_outcome engine_op" where
  "query_plan E ctx clock r =
     ebind (lift (require_scope ctx DatabaseRead)) (\<lambda>_.
     ebind (lift (validate_ident (pr_table r))) (\<lambda>_.
     ebind (describe_for_query ctx (pr_table r)) (\<lambda>schema.
     ebind (lift (to_ir r)) (\<lambda>ir.
     run_plan E ctx clock (pr_table r) schema ir r))))"

definition explain_plan :: "engine_lib \<Rightarrow> request_context \<Rightarrow> plan_request \<Rightarrow> physical_plan engine_op" where
  "explain_plan E ctx r =
     ebind (lift (require_scope ctx DatabaseRead)) (\<lambda>_.
     ebind (lift (validate_ident (pr_table r))) (\<lambda>_.
     ebind (describe_for_query ctx (pr_table r)) (\<lambda>schema.
     ebind (lift (to_ir r)) (\<lambda>ir.
     ebind (lift (validate (el_ext E) schema (ctx_limits ctx) ir)) (\<lambda>v. lift (build_plan v))))))"

section \<open>Opening\<close>

definition catalog_tables :: "catalog_snapshot \<Rightarrow> (table_key \<times> table_schema) list" where
  "catalog_tables c =
     concat (map (\<lambda>(t, dbs). concat (map (\<lambda>(d, db). map (\<lambda>(n, schema). ((t, d, n), schema)) (tables db)) dbs)) (tenants c))"

fun open_tables :: "engine_lib \<Rightarrow> (table_key \<times> table_schema) list \<Rightarrow> unit engine_op" where
  "open_tables E [] = lift (Inr ())"
| "open_tables E ((k, schema) # ks) = ebind (open_one E k schema) (\<lambda>_. open_tables E ks)"

text \<open>The table directory \<open>tenants/t/databases/d/tables/n\<close> an object lies in.\<close>

definition table_directory :: "string \<Rightarrow> string option" where
  "table_directory key =
     (let parts = split_on CHR ''/'' key in
      if length parts < 6 \<or> parts ! 2 \<noteq> ''databases'' \<or> parts ! 4 \<noteq> ''tables'' then None
      else Some (join_with ''/'' (take 6 parts)))"

definition orphans :: "catalog_snapshot \<Rightarrow> string list \<Rightarrow> string list" where
  "orphans c ks =
     remdups (filter (\<lambda>p. p \<notin> (\<lambda>((t, d, n), _). table_prefix t d n) ` set (catalog_tables c)) (List.map_filter table_directory ks))"

definition remove_orphaned_data :: "unit engine_op" where
  "remove_orphaned_data e =
     (case rbind (store_list (en_store e) ''tenants'') (\<lambda>ks. foldM store_delete_prefix (en_store e) (orphans (en_catalog e) ks)) of
        Inl err \<Rightarrow> (Inl err, e)
      | Inr s \<Rightarrow> (Inr (), e\<lparr>en_store := s\<rparr>))"

definition logged_ddl :: "engine_lib \<Rightarrow> log_entry list \<Rightarrow> ddl_mutation list result" where
  "logged_ddl E es = mapM (\<lambda>e. case entry_mutation e of MDdl _ \<Rightarrow> as_ddl E (entry_mutation e) | _ \<Rightarrow> Inl Corruption) es"

definition engine_open :: "engine_lib \<Rightarrow> fs_store \<Rightarrow> storage_config \<Rightarrow> engine result" where
  "engine_open E s cfg =
     rbind (log_open (sl_wal (el_storage E)) s system_wal) (\<lambda>(s, recovered).
     rbind (logged_ddl E (rec_entries recovered)) (\<lambda>ms.
     rbind (replay_ddl ms) (\<lambda>c.
     let e = \<lparr>en_store = s, en_catalog = c, en_log = rec_store recovered, en_tables = [], en_config = cfg\<rparr> in
     case ebind (open_tables E (catalog_tables c)) (\<lambda>_. remove_orphaned_data) e of
       (Inl err, _) \<Rightarrow> Inl err
     | (Inr _, e) \<Rightarrow> Inr e)))"

end
