(* ===== verification/TableEvolve.thy ===== *)
theory TableEvolve
  imports TableTheorems
begin

text \<open>
  Changing the schema of a table: the memtables are flushed, then every partition takes the new
  schema and publishes it. Files written before are read under the new schema, with the added
  columns filled with NULL.
\<close>

section \<open>Rows under a new schema\<close>

definition widen :: "table_schema \<Rightarrow> table_schema \<Rightarrow> row \<Rightarrow> row" where
  "widen old new r = backfill_row (arrow_schema old) (column_names new) r"

abbreviation evolves :: "table_schema \<Rightarrow> table_schema \<Rightarrow> bool" where
  "evolves old new \<equiv> check_evolution old new = Inr ()"

lemma evolvesD:
  assumes "evolves old new"
  shows "schema_ok new" "tname new = tname old" "primary_key new = primary_key old" "partitions new = partitions old"
    "is_append_only new = is_append_only old" "set (column_names old) \<subseteq> set (column_names new)"
proof -
  show new: "schema_ok new" "tname new = tname old" "primary_key new = primary_key old" "partitions new = partitions old"
    using assms unfolding check_evolution_iff by blast+
  show "is_append_only new = is_append_only old" by (simp add: is_append_only_def new(3))
  have "\<exists>d \<in> set (columns new). col_name d = col_name c" if "c \<in> set (columns old)" for c
    using assms that column_set unfolding check_evolution_iff by metis
  then show "set (column_names old) \<subseteq> set (column_names new)" 
    unfolding column_names_def set_map by (metis image_eqI image_subsetI)
qed

lemma widen_backfill:
  assumes "distinct (column_names old)" "set (map f_name fs) \<subseteq> set (column_names old)"
  shows "widen old new (backfill_row fs (column_names old) r) = backfill_row fs (column_names new) r"
proof -
  have "(case position (\<lambda>f. f_name f = n) (arrow_schema old) of Some i \<Rightarrow> backfill_row fs (column_names old) r ! i | None \<Rightarrow> VNull) =
      (case position (\<lambda>f. f_name f = n) fs of Some i \<Rightarrow> r ! i | None \<Rightarrow> VNull)" for n
  proof (cases "position (\<lambda>f. f_name f = n) (arrow_schema old)")
    case None
    then have "n \<notin> set (column_names old)"
      by (auto simp: position_None arrow_schema_def arrow_field_def column_names_def)
    then have "position (\<lambda>f. f_name f = n) fs = None" using assms(2) by (auto simp: position_None)
    then show ?thesis using None by simp
  next
    case (Some i)
    then have "i < length (columns old)" "column_names old ! i = n"
      using position_Some [OF Some] by (auto simp: arrow_schema_def arrow_field_def column_names_def)
    then show ?thesis using Some by (simp add: backfill_row_def column_names_def)
  qed
  then show ?thesis
    unfolding widen_def backfill_row_def [of "arrow_schema old"] backfill_row_def [of fs "column_names new"] by simp
qed

lemma widen_key:
  assumes "evolves old new" "schema_ok old" "length r = length (columns old)"
  shows "row_key (pk_indices new) (widen old new r) = row_key (pk_indices old) r"
proof -
  note E = evolvesD [OF assms(1)]
  have d: "distinct (map col_name (columns old))" using assms(2) by (simp add: schema_ok_def)
  show ?thesis
    using backfill_key [OF E(1), of "arrow_schema old" r] backfill_key [OF assms(2), of "arrow_schema old" r]
      backfill_own [OF d assms(3)] by (simp add: widen_def E(3))
qed

lemma covers_evolve:
  assumes "evolves old new" "covers old fs" "set (map f_name fs) \<subseteq> set (column_names old)"
  shows "covers new fs"
  unfolding covers_def list_all_iff
proof
  fix c assume c: "c \<in> set (columns new)"
  have ev: "\<And>c0. c0 \<in> set (columns old) \<Longrightarrow> \<exists>d. column new (col_name c0) = Some d \<and> col_type d = col_type c0 \<and> nullable d = nullable c0"
    and added: "column old (col_name c) = None \<Longrightarrow> nullable c"
    using assms(1) c unfolding check_evolution_iff by blast+
  have own: "column new (col_name c) = Some c"
    using find_by_name [OF _ c] evolvesD(1) [OF assms(1)] by (simp add: schema_ok_def)
  have same: "arrow_field c = arrow_field c0" if "c0 \<in> set (columns old)" "col_name c0 = col_name c" for c0
    using ev [OF that(1)] own that(2) by (auto simp: arrow_field_def)
  have old: "case find (\<lambda>f. f_name f = col_name c0) fs of Some f \<Rightarrow> f = arrow_field c0 | None \<Rightarrow> nullable c0" if "c0 \<in> set (columns old)" for c0
    using assms(2) that by (simp add: covers_def list_all_iff)
  show "case find (\<lambda>f. f_name f = col_name c) fs of Some f \<Rightarrow> f = arrow_field c | None \<Rightarrow> nullable c"
  proof (cases "find (\<lambda>f. f_name f = col_name c) fs")
    case None
    show ?thesis
    proof (cases "column old (col_name c)")
      case (Some c0)
      then have c0: "c0 \<in> set (columns old)" "col_name c0 = col_name c" using column_set by blast+
      then have "nullable c0" using old [OF c0(1)] None by simp
      then show ?thesis using None same [OF c0] by (simp add: arrow_field_def)
    qed (use added None in simp)
  next
    case (Some f)
    then have "col_name c \<in> set (column_names old)" using assms(3) find_Some_set [OF Some] by auto
    then obtain c0 where c0: "c0 \<in> set (columns old)" "col_name c0 = col_name c" by (auto simp: column_names_def)
    then show ?thesis using old [OF c0(1)] same [OF c0] Some by simp
  qed
qed

lemma stored_evolve:
  assumes "evolves old new" "schema_ok old" "stored L s old R m"
  shows "stored L s new (\<lambda>i. map (widen old new) (R i)) m"
proof -
  obtain bs b where b: "map_of (files s) (seg_key m) = Some bs" "read_batches (sl_arrow L) bs = Inr b" "batch_ok b"
    "covers old (bfields b)" "set (map f_name (bfields b)) \<subseteq> set (column_names old)" "list_all (list_all value_finite) (brows b)"
    "R (seg_id m) = map (backfill_row (bfields b) (column_names old)) (brows b)" "row_count m = num_rows b"
    using assms(3) unfolding stored_def by blast
  have d: "distinct (column_names old)" using assms(2) by (simp add: schema_ok_def column_names_def)
  have "map (widen old new) (R (seg_id m)) = map (backfill_row (bfields b) (column_names new)) (brows b)"
    unfolding b(7) by (simp add: widen_backfill [OF d b(5)])
  moreover have "set (map f_name (bfields b)) \<subseteq> set (column_names new)" using b(5) evolvesD(6) [OF assms(1)] by blast
  moreover have "meta_plain m" using assms(3) by (simp add: stored_def)
  ultimately show ?thesis unfolding stored_def using b covers_evolve [OF assms(1) b(4,5)] by blast
qed

lemma stored_row_length: "stored L s schema R m \<Longrightarrow> r \<in> set (R (seg_id m)) \<Longrightarrow> length r = length (columns schema)"
  by (auto simp: stored_def backfill_row_def column_names_def)

section \<open>A partition with nothing to replay\<close>

definition quiet :: "partition \<Rightarrow> bool" where
  "quiet p \<longleftrightarrow> mt_batches (ps_memtable (pt_state p)) = [] \<and> ps_last_lsn (pt_state p) = ps_applied_lsn (pt_state p)"

lemma compact_locked_fields:
  "compact_locked L ids st = (r, st') \<Longrightarrow> ps_memtable (pt_state (snd st')) = ps_memtable (pt_state (snd st)) \<and>
     ps_last_lsn (pt_state (snd st')) = ps_last_lsn (pt_state (snd st)) \<and> ps_applied_lsn (pt_state (snd st')) = ps_applied_lsn (pt_state (snd st))"
  by (auto simp: compact_locked_def Let_def replace_inputs_def with_state_def split: prod.splits sum.splits if_splits)

lemma checkpoint_quiet:
  assumes "checkpoint L c st = (Inr r, st')" "mt_batches (ps_memtable (pt_state (snd st))) = []"
  shows "quiet (snd st')"
  using assms
  by (auto simp: checkpoint_def auto_compaction_def quiet_def with_state_def Let_def
      split: prod.splits sum.splits if_splits dest!: compact_locked_fields)

lemma flush_quiet: "flush_locked L st = (Inr r, st') \<Longrightarrow> quiet (snd st')"
  by (auto simp: flush_locked_def Let_def with_state_def clear_memtable_def mt_clear_def mt_concat_def quiet_def result_simps
      split: prod.splits sum.splits option.splits if_splits list.splits dest: checkpoint_quiet elim!: checkpoint_quiet [unfolded quiet_def])


lemma live_map: "live mk (map f rows) dead = map (\<lambda>(l, r). (l, f r)) (live mk rows dead)"
  by (simp add: live_def)

lemma seg_visible_map: "seg_visible (\<lambda>i. map f (R i)) es = map (\<lambda>(l, r). (l, f r)) (seg_visible R es)"
  by (induction es) (simp_all add: seg_live_def live_map)

lemma index_ok_map:
  assumes "index_ok pk V m" "\<And>l r. (l, r) \<in> set V \<Longrightarrow> row_key pk' (f r) = row_key pk r"
  shows "index_ok pk' (map (\<lambda>(l, r). (l, f r)) V) m"
proof -
  have "(\<exists>r'. (l, r') \<in> set (map (\<lambda>(l, r). (l, f r)) V) \<and> row_key pk' r' = k) \<longleftrightarrow> (\<exists>r. (l, r) \<in> set V \<and> row_key pk r = k)" for l k
    using assms(2) by force
  then show ?thesis using assms(1) by (simp add: index_ok_def)
qed

definition evolved :: "table_schema \<Rightarrow> partition \<Rightarrow> partition" where
  "evolved schema p = with_state p ((pt_state p)\<lparr>ps_schema := schema, ps_memtable := mt_set_schema (ps_memtable (pt_state p)) schema\<rparr>)"

lemma evolved_fields [simp]:
  "pt_log (evolved c p) = pt_log p" "pt_manifest_key (evolved c p) = pt_manifest_key p" "pt_segment_key (evolved c p) = pt_segment_key p"
  "ps_schema (pt_state (evolved c p)) = c" "ps_segments (pt_state (evolved c p)) = ps_segments (pt_state p)"
  "ps_mem_suppressed (pt_state (evolved c p)) = ps_mem_suppressed (pt_state p)"
  "ps_applied_lsn (pt_state (evolved c p)) = ps_applied_lsn (pt_state p)" "ps_last_lsn (pt_state (evolved c p)) = ps_last_lsn (pt_state p)"
  "ps_next_segment (pt_state (evolved c p)) = ps_next_segment (pt_state p)" "ps_key_index (pt_state (evolved c p)) = ps_key_index (pt_state p)"
  "names_ok (evolved c p) = names_ok p" "pt_table (evolved c p) = pt_table p" "own_keys (evolved c p) = own_keys p"
  "mem_rows (ps_memtable (pt_state (evolved c p))) = mem_rows (ps_memtable (pt_state p))"
  "same_names p (evolved c p)" "quiet (evolved c p) = quiet p"
  by (simp_all add: evolved_def with_state_def names_ok_def mt_set_schema_def mem_rows_def fun_eq_iff pt_segment_key_def own_keys_def same_names_def quiet_def)

lemma quiet_row_length:
  assumes inv: "part_inv L s p R" and q: "quiet p" and r: "r \<in> set (partition_rows L (s, p))"
  shows "length r = length (columns (ps_schema (pt_state p)))"
proof -
  have "mem_rows (ps_memtable (pt_state p)) = []" using q by (simp add: quiet_def mem_rows_def)
  then obtain l where "(l, r) \<in> set (seg_visible R (ps_segments (pt_state p)))"
    using r by (auto simp: partition_rows_eq [OF inv] contents_def mem_part_def seg_part_def)
  then obtain e where e: "e \<in> set (ps_segments (pt_state p))" "r \<in> set (R (seg_id (se_meta e)))"
    by (auto simp: in_seg_visible)
  show ?thesis
    by (rule stored_row_length [OF segs_okD(2) [OF st_invD(3) [OF part_invD(5) [OF inv]]] e(2)]) (use e(1) in simp)
qed

lemma evolved_inv:
  assumes inv: "part_inv L s p R" and ev: "evolves (ps_schema (pt_state p)) new" and q: "quiet p"
  shows "part_inv L s (evolved new p) (\<lambda>i. map (widen (ps_schema (pt_state p)) new) (R i))" (is "part_inv _ _ _ ?R")
proof -
  let ?old = "ps_schema (pt_state p)" and ?st = "pt_state p"
  note I = part_invD [OF inv]
  note S = st_invD [OF I(5)]
  note E = evolvesD [OF ev]
  have mem: "mem_rows (ps_memtable ?st) = []" using q by (simp add: quiet_def mem_rows_def)
  have "memtable_ok new (ps_memtable (pt_state (evolved new p)))"
    using S(2) q by (simp add: memtable_ok_def quiet_def evolved_def with_state_def mt_set_schema_def mem_rows_def)
  moreover have "segs_ok L s new (pt_segment_key p) (ps_next_segment ?st) ?R (map se_meta (ps_segments ?st))"
    using S(3) stored_evolve [OF ev S(1)] by (simp add: segs_ok_def)
  moreover have "state_ok (pk_indices new) ?R [] (pt_state (evolved new p))"
  proof -
    have addr: "addr_ok R [] ?st" and idx: "if pk_indices ?old = [] then ps_key_index ?st = []
        else index_ok (pk_indices ?old) (visible R [] ?st) (ps_key_index ?st)"
      using S(4) by (simp_all add: state_ok_def mem)
    have vis: "visible ?R [] (pt_state (evolved new p)) = map (\<lambda>(l, r). (l, widen ?old new r)) (visible R [] ?st)"
      by (simp add: visible_def seg_visible_map)
    have len: "length r = length (columns ?old)" if lr: "(l, r) \<in> set (visible R [] ?st)" for l r
    proof -
      have "r \<in> set (partition_rows L (s, p))"
        using lr by (force simp: partition_rows_eq [OF inv] contents_def mem mem_part_def seg_part_def visible_def)
      then show ?thesis by (rule quiet_row_length [OF inv q])
    qed
    have pk: "(pk_indices new = []) = (pk_indices ?old = [])" using E(5) by (simp add: pk_nil_iff [OF E(1)] pk_nil_iff [OF S(1)])
    have "index_ok (pk_indices new) (visible ?R [] (pt_state (evolved new p))) (ps_key_index ?st)" if "pk_indices ?old \<noteq> []"
      unfolding vis by (rule index_ok_map) (use that idx widen_key [OF ev S(1) len] in simp_all)
    then show ?thesis using addr idx pk by (simp add: state_ok_def addr_ok_def)
  qed
  ultimately show ?thesis using I E(1,2) mem by (simp add: part_inv_def st_inv_def)
qed

lemma set_schema_ok:
  assumes dur: "durable L s p R vs es" and ev: "evolves (ps_schema (pt_state p)) new" and q: "quiet p"
  obtains s' where "set_partition_schema L new (s, p) = (Inr (), (s', evolved new p))" "sound L (s', evolved new p)"
    "partition_rows L (s', evolved new p) = map (widen (ps_schema (pt_state p)) new) (partition_rows L (s, p))"
    "others_same (own_keys p) s s'"
proof -
  let ?p = "evolved new p" and ?R = "\<lambda>i. map (widen (ps_schema (pt_state p)) new) (R i)"
  note d = durableD [OF dur]
  note K = pt_keys [OF part_invD(3) [OF d(1)]]
  note inv = evolved_inv [OF d(1) ev q]
  have mem: "mem_rows (ps_memtable (pt_state p)) = []" using q by (simp add: quiet_def mem_rows_def)
  obtain s' vs' where c: "commit_manifest L (s, ?p) = Inr s'" "store_ok s'" "others_same {pt_manifest_key p} s s'" "part_inv L s' ?p ?R"
    "published L s' (pt_manifest_key p) (ps_applied_lsn (pt_state p)) (ps_next_segment (pt_state p)) vs'"
    "same_entries (ps_segments (pt_state p)) vs'"
    by (rule commit_manifest_ok [OF inv]) (rule that; simp)
  have "map_of (files s') (log_key (pt_log p)) = map_of (files s) (log_key (pt_log p))"
    by (rule others_sameD [OF c(3) _ K(7)]) (use K(4) in simp)
  then have log: "log_holds (sl_wal L) (s', pt_log ?p) es" using d(2) c(2) by (simp add: log_holds_def)
  have ops: "live_ops (ps_applied_lsn (pt_state ?p)) es = []"
    by (rule live_ops_none) (use d(7) q in \<open>simp add: quiet_def\<close>)
  have "durable L s' ?p ?R vs' es"
    by (rule published_durable [OF c(4) log _ _ published_plain [OF c(5)] refl refl])
      (use c(5,6) d(7-9) ops mem in \<open>simp_all add: untouched_def mem_part_def\<close>)
  then have sd: "sound L (s', ?p)" by (rule soundI)
  have "partition_rows L (s', ?p) = map (widen (ps_schema (pt_state p)) new) (partition_rows L (s, p))"
    by (simp add: partition_rows_eq [OF c(4)] partition_rows_eq [OF d(1)] contents_def mem mem_part_def seg_part_def seg_visible_map comp_def case_prod_unfold)
  moreover have "others_same (own_keys p) s s'"
    by (rule others_same_mono [OF c(3)]) (use own_keys_of [OF part_invD(3) [OF d(1)]] in simp)
  moreover have "set_partition_schema L new (s, p) = (Inr (), (s', ?p))"
    using c(1) by (simp add: set_partition_schema_def Let_def flip: evolved_def)
  ultimately show ?thesis using that sd by blast
qed

section \<open>All partitions\<close>

text \<open>What a step leaves when it succeeds holds of every partition it ran on.\<close>

lemma run_steps_each:
  assumes "run_steps steps acc st = (Inr m, st')" "\<And>i f x r x'. (i, f) \<in> set steps \<Longrightarrow> f x = (Inr r, x') \<Longrightarrow> Q (snd x')"
    "i < length (ts_partitions (snd st))"
  shows "(i \<in> fst ` set steps \<longrightarrow> Q (ts_partitions (snd st') ! i)) \<and>
    (i \<notin> fst ` set steps \<longrightarrow> ts_partitions (snd st') ! i = ts_partitions (snd st) ! i)"
  using assms
proof (induction steps arbitrary: acc st)
  case (Cons x steps)
  obtain j f where x: "x = (j, f)" by (cases x)
  obtain r s1 p1 where f: "f (fst st, ts_partitions (snd st) ! j) = (r, (s1, p1))" by (metis prod_cases3)
  let ?t = "(snd st)\<lparr>ts_partitions := (ts_partitions (snd st))[j := p1]\<rparr>"
  have on: "on_partition j f st = (r, (s1, ?t))" using f by (cases st) (simp add: on_partition_def)
  obtain n where n: "r = Inr n" "run_steps steps (acc + n) (s1, ?t) = (Inr m, st')"
    using Cons.prems(1) on by (cases r) (simp_all add: x)
  have "Q p1" using Cons.prems(2) [of j f "(fst st, ts_partitions (snd st) ! j)" n "(s1, p1)"] f n(1) by (simp add: x)
  moreover note Cons.IH [OF n(2)]
  ultimately show ?case using Cons.prems(2,3) by (cases "i = j") (force simp: x)+
qed simp

lemma flush_all_quiet:
  assumes "table_flush L (s, t) = (Inr n, (s', t'))" "i < length (ts_partitions t)"
  shows "quiet (ts_partitions t' ! i)"
proof -
  have q: "(i, f) \<in> set (map (\<lambda>i. (i, \<lambda>ps. count_some (flush_locked L ps))) (all_partitions t)) \<Longrightarrow> f x = (Inr r, x') \<Longrightarrow> quiet (snd x')"
    for i f x r x'
    using flush_quiet [of L x] by (cases "flush_locked L x") (auto simp: count_some_def result_simps)
  show ?thesis
    using run_steps_each [where Q = quiet and i = i, OF assms(1) [unfolded table_flush_def snd_conv] q] assms(2)
    by (simp add: all_partitions_def image_image)
qed

lemma set_schema_steps:
  assumes "distinct is" "set is \<subseteq> {..<length (ts_partitions t)}"
    "\<And>i. i < length (ts_partitions t) \<Longrightarrow> sound L (s, ts_partitions t ! i)"
    "\<And>i. i \<in> set is \<Longrightarrow> quiet (ts_partitions t ! i) \<and> evolves (ps_schema (pt_state (ts_partitions t ! i))) new"
    "\<And>i j. i < length (ts_partitions t) \<Longrightarrow> j < length (ts_partitions t) \<Longrightarrow> i \<noteq> j \<Longrightarrow>
      own_keys (ts_partitions t ! i) \<inter> own_keys (ts_partitions t ! j) = {}"
  obtains s' ps where
    "run_steps (map (\<lambda>i. (i, \<lambda>ps. no_count (set_partition_schema L new ps))) is) acc (s, t) = (Inr acc, (s', t\<lparr>ts_partitions := ps\<rparr>))"
    "length ps = length (ts_partitions t)" "others_same (\<Union>i \<in> set is. own_keys (ts_partitions t ! i)) s s'"
    "\<And>i. i < length ps \<Longrightarrow> sound L (s', ps ! i)"
    "\<And>i. i < length ps \<Longrightarrow> i \<in> set is \<Longrightarrow> ps ! i = evolved new (ts_partitions t ! i) \<and>
      partition_rows L (s', ps ! i) = map (widen (ps_schema (pt_state (ts_partitions t ! i))) new) (partition_rows L (s, ts_partitions t ! i))"
    "\<And>i. i < length ps \<Longrightarrow> i \<notin> set is \<Longrightarrow> ps ! i = ts_partitions t ! i \<and>
      partition_rows L (s', ps ! i) = partition_rows L (s, ts_partitions t ! i)"
  using assms
proof (induction "is" arbitrary: s t thesis)
  case Nil
  show ?case by (rule Nil.prems(1) [of s "ts_partitions t"]) (use Nil.prems(4) in \<open>simp_all add: others_same_def\<close>)
next
  case (Cons i "is")
  let ?p = "ts_partitions t ! i" and ?n = "length (ts_partitions t)"
  have i: "i < ?n" using Cons.prems(3) by simp
  obtain R vs es where "durable L s ?p R vs es" using soundE [OF Cons.prems(4) [OF i]] by blast
  moreover have "evolves (ps_schema (pt_state ?p)) new" "quiet ?p" using Cons.prems(5) [of i] by simp_all
  ultimately obtain s1 where one: "set_partition_schema L new (s, ?p) = (Inr (), (s1, evolved new ?p))" "sound L (s1, evolved new ?p)"
    "partition_rows L (s1, evolved new ?p) = map (widen (ps_schema (pt_state ?p)) new) (partition_rows L (s, ?p))"
    "others_same (own_keys ?p) s s1"
    by (rule set_schema_ok)
  let ?t = "t\<lparr>ts_partitions := (ts_partitions t)[i := evolved new ?p]\<rparr>"
  have other: "sound L (s1, ts_partitions t ! j)" "partition_rows L (s1, ts_partitions t ! j) = partition_rows L (s, ts_partitions t ! j)"
    if "j < ?n" "j \<noteq> i" for j
    using sound_frame [OF Cons.prems(4) [OF that(1)] sound_store [OF one(2)] one(4) Cons.prems(6) [OF that(1) i that(2)]] by simp_all
  have own: "own_keys (ts_partitions ?t ! j) = own_keys (ts_partitions t ! j)" if "j < ?n" for j
    using that by (cases "j = i") simp_all
  obtain s' ps where IH:
    "run_steps (map (\<lambda>i. (i, \<lambda>ps. no_count (set_partition_schema L new ps))) is) acc (s1, ?t) = (Inr acc, (s', ?t\<lparr>ts_partitions := ps\<rparr>))"
    "length ps = length (ts_partitions ?t)" "others_same (\<Union>j \<in> set is. own_keys (ts_partitions ?t ! j)) s1 s'"
    "\<And>j. j < length ps \<Longrightarrow> sound L (s', ps ! j)"
    "\<And>j. j < length ps \<Longrightarrow> j \<in> set is \<Longrightarrow> ps ! j = evolved new (ts_partitions ?t ! j) \<and>
      partition_rows L (s', ps ! j) = map (widen (ps_schema (pt_state (ts_partitions ?t ! j))) new) (partition_rows L (s1, ts_partitions ?t ! j))"
    "\<And>j. j < length ps \<Longrightarrow> j \<notin> set is \<Longrightarrow> ps ! j = ts_partitions ?t ! j \<and>
      partition_rows L (s', ps ! j) = partition_rows L (s1, ts_partitions ?t ! j)"
  proof (rule Cons.IH [where s = s1 and t = ?t])
    show "distinct is" "set is \<subseteq> {..<length (ts_partitions ?t)}" using Cons.prems(2,3) by simp_all
    show "sound L (s1, ts_partitions ?t ! j)" if "j < length (ts_partitions ?t)" for j
      using one(2) other(1) that by (cases "j = i") simp_all
    show "quiet (ts_partitions ?t ! j) \<and> evolves (ps_schema (pt_state (ts_partitions ?t ! j))) new" if "j \<in> set is" for j
      using Cons.prems(2,5) that by (cases "j = i") auto
    show "own_keys (ts_partitions ?t ! j) \<inter> own_keys (ts_partitions ?t ! k) = {}"
      if "j < length (ts_partitions ?t)" "k < length (ts_partitions ?t)" "j \<noteq> k" for j k
      using own Cons.prems(6) that by simp
  qed (rule that; assumption)
  have sub: "set is \<subseteq> {..<?n}" "i \<notin> set is" using Cons.prems(2,3) by simp_all
  show ?case
  proof (rule Cons.prems(1))
    show "run_steps (map (\<lambda>i. (i, \<lambda>ps. no_count (set_partition_schema L new ps))) (i # is)) acc (s, t) = (Inr acc, (s', t\<lparr>ts_partitions := ps\<rparr>))"
      using IH(1) one(1) by (simp add: on_partition_def no_count_def)
    show "length ps = ?n" using IH(2) by simp
    have "(\<Union>j \<in> set is. own_keys (ts_partitions ?t ! j)) = (\<Union>j \<in> set is. own_keys (ts_partitions t ! j))"
      using own sub(1) by auto
    then show "others_same (\<Union>j \<in> set (i # is). own_keys (ts_partitions t ! j)) s s'"
      using one(4) IH(3) by (simp add: others_same_def)
    show "sound L (s', ps ! j)" if "j < length ps" for j using IH(4) that .
    show "ps ! j = evolved new (ts_partitions t ! j) \<and> partition_rows L (s', ps ! j) =
        map (widen (ps_schema (pt_state (ts_partitions t ! j))) new) (partition_rows L (s, ts_partitions t ! j))"
      if "j < length ps" "j \<in> set (i # is)" for j
      using IH(2) IH(5) [OF that(1)] IH(6) [OF that(1)] that one(3) other(2) [of j] sub(2) by (cases "j = i") auto
    show "ps ! j = ts_partitions t ! j \<and> partition_rows L (s', ps ! j) = partition_rows L (s, ts_partitions t ! j)"
      if "j < length ps" "j \<notin> set (i # is)" for j
      using IH(2) IH(6) [OF that(1)] that other(2) [of j] by auto
  qed
qed

section \<open>The table\<close>

lemma table_evolve:
  assumes inv: "table_sound L (s, t)" and ev: "evolves (ts_schema t) new"
  obtains s' t' where "table_set_schema L new (s, t) = (Inr (), (s', t'))" "table_sound L (s', t')"
    "ts_schema t' = new" "ts_tenant t' = ts_tenant t" "ts_database t' = ts_database t"
    "length (ts_partitions t') = length (ts_partitions t)"
    "mset (table_rows L (s', t')) = mset (map (widen (ts_schema t) new) (table_rows L (s, t)))"
    "others_same (dir_of t) s s'"
proof -
  let ?w = "widen (ts_schema t) new"
  note E = evolvesD [OF ev]
  obtain n s1 t1 where fl: "table_flush L (s, t) = (Inr n, (s1, t1))" "table_sound L (s1, t1)" "same_shape t t1"
    "mset (table_rows L (s1, t1)) = mset (table_rows L (s, t))"
    by (rule table_flush_ok [OF inv])
  have dir1: "others_same (dir_of t) s s1" using within_flush [OF inv] fl(1) by (simp add: within_dir_def)
  have shape: "ts_schema t1 = ts_schema t" "length (ts_partitions t1) = length (ts_partitions t)" "ts_tenant t1 = ts_tenant t"
    "ts_database t1 = ts_database t" using fl(3) by (simp_all add: same_shape_def)
  have P: "placed L s1 t1 i" if "i < length (ts_partitions t1)" for i using fl(2) that by (simp add: table_sound_def)
  have quiet: "quiet (ts_partitions t1 ! i)" if "i < length (ts_partitions t1)" for i
    using flush_all_quiet [OF fl(1)] that shape by simp
  have d: "distinct (all_partitions t1)" "set (all_partitions t1) \<subseteq> {..<length (ts_partitions t1)}"
    by (auto simp: all_partitions_def)
  have apart: "own_keys (ts_partitions t1 ! i) \<inter> own_keys (ts_partitions t1 ! j) = {}"
    if "i < length (ts_partitions t1)" "j < length (ts_partitions t1)" "i \<noteq> j" for i j
    by (rule own_keys_disjoint) (use placedD(2-5) [OF P [OF that(1)]] placedD(2-5) [OF P [OF that(2)]] that(3) in simp_all)
  have ready: "quiet (ts_partitions t1 ! i) \<and> evolves (ps_schema (pt_state (ts_partitions t1 ! i))) new" if "i \<in> set (all_partitions t1)" for i
    using quiet placedD(6) [OF P] ev that shape by (simp add: all_partitions_def)
  have all: "i \<in> set (all_partitions t1)" if "i < length (ts_partitions t1)" for i using that by (simp add: all_partitions_def)
  obtain s2 ps where r: "run_steps (map (\<lambda>i. (i, \<lambda>ps. no_count (set_partition_schema L new ps))) (all_partitions t1)) 0 (s1, t1) =
      (Inr 0, (s2, t1\<lparr>ts_partitions := ps\<rparr>))"
    "length ps = length (ts_partitions t1)" "others_same (\<Union>i \<in> set (all_partitions t1). own_keys (ts_partitions t1 ! i)) s1 s2"
    "\<And>i. i < length ps \<Longrightarrow> sound L (s2, ps ! i)"
    "\<And>i. i < length ps \<Longrightarrow> i \<in> set (all_partitions t1) \<Longrightarrow> ps ! i = evolved new (ts_partitions t1 ! i) \<and>
      partition_rows L (s2, ps ! i) = map (widen (ps_schema (pt_state (ts_partitions t1 ! i))) new) (partition_rows L (s1, ts_partitions t1 ! i))"
    by (rule set_schema_steps [OF d placedD(1) [OF P] ready apart, of 0]) (assumption | (rule that; assumption))+
  let ?t = "t1\<lparr>ts_partitions := ps, ts_schema := new\<rparr>"
  have at_both: "ps ! i = evolved new (ts_partitions t1 ! i) \<and> partition_rows L (s2, ps ! i) = map ?w (partition_rows L (s1, ts_partitions t1 ! i))"
    if i: "i < length ps" for i
  proof -
    have i1: "i < length (ts_partitions t1)" using i r(2) by simp
    show ?thesis using r(5) [OF i all [OF i1]] unfolding placedD(6) [OF P [OF i1]] shape .
  qed
  note at = at_both [THEN conjunct1] at_both [THEN conjunct2]
  have key: "row_key (pk_indices new) (?w v) = key_of_row t v" if i: "i < length ps" and v: "v \<in> set (partition_rows L (s1, ts_partitions t1 ! i))" for i v
  proof -
    have i1: "i < length (ts_partitions t1)" using i r(2) by simp
    obtain R vs es where "durable L s1 (ts_partitions t1 ! i) R vs es" using soundE [OF placedD(1) [OF P [OF i1]]] by blast
    then have pi: "part_inv L s1 (ts_partitions t1 ! i) R" by (rule durableD(1))
    have ok: "schema_ok (ts_schema t)" using st_invD(1) [OF part_invD(5) [OF pi]] placedD(6) [OF P [OF i1]] shape by simp
    show ?thesis
      by (rule widen_key [OF ev ok]) (use quiet_row_length [OF pi quiet [OF i1] v] placedD(6) [OF P [OF i1]] shape in simp)
  qed
  have "placed L s2 ?t i" if i: "i < length ps" for i
  proof -
    have i1: "i < length (ts_partitions t1)" using i r(2) by simp
    have "target (length ps) (row_key (pk_indices new) v) = i" if na: "\<not> is_append_only new" and v: "v \<in> set (partition_rows L (s2, ps ! i))" for v
    proof -
      obtain v0 where v0: "v = ?w v0" "v0 \<in> set (partition_rows L (s1, ts_partitions t1 ! i))" using v at(2) [OF i] by auto
      then show ?thesis using placedD(7) [OF P [OF i1] _ v0(2)] na r(2) shape key [OF i v0(2)] E(5) by simp
    qed
    moreover have "same_names (ts_partitions t1 ! i) (ps ! i)" "ps_schema (pt_state (ps ! i)) = new" by (simp_all add: at(1) [OF i])
    ultimately show ?thesis
      using r(4) [OF i] placedD(2-5) [OF P [OF i1]] E(2) shape by (simp add: placed_def Let_def same_names_def)
  qed
  then have sound2: "table_sound L (s2, ?t)" using fl(2) r(2) by (auto simp: table_sound_def)
  have own: "(\<Union>i \<in> set (all_partitions t1). own_keys (ts_partitions t1 ! i)) \<subseteq> dir_of t"
  proof -
    have "own_keys (ts_partitions t1 ! i) \<subseteq> dir_of t" if "i < length (ts_partitions t1)" for i
      using own_keys_dir [of "ts_partitions t1 ! i"] placedD(3-5) [OF P [OF that]] shape by simp
    then show ?thesis by (intro UN_least) (simp add: all_partitions_def)
  qed
  have "table_rows L (s2, ?t) = map ?w (table_rows L (s1, t1))"
    unfolding table_rows_parts map_concat map_map snd_conv
    by (intro arg_cong [where f = concat] map_cong) (use at(2) r(2) in \<open>simp_all add: part_rows_def\<close>)
  then have rows: "mset (table_rows L (s2, ?t)) = mset (map ?w (table_rows L (s, t)))" using fl(4) by simp
  have "others_same (dir_of t) s s2" using others_same_trans [OF dir1 others_same_mono [OF r(3) own]] by simp
  moreover have "table_set_schema L new (s, t) = (Inr (), (s2, ?t))" using ev fl(1) r(1) by (simp add: table_set_schema_def)
  ultimately show ?thesis using sound2 rows shape r(2) by (intro that [of s2 ?t]) simp_all
qed

section \<open>Properties\<close>

definition wide_schema :: table_schema where
  "wide_schema = two_schema\<lparr>columns := new_column ''note'' DUtf8 # columns two_schema\<rparr>"

lemma wide_evolves: "evolves two_schema wide_schema"
  using demo_schema_ok unfolding check_evolution_iff validate_schema_iff
  by (simp add: wide_schema_def two_schema_def schema_ok_def max_partitions_def demo_schema_def new_table_def new_column_def
    column_ok_def key_column_ok_def column_def max_columns_def ident_ok_iff max_ident_len_def ident_char_def is_ascii_lowercase_def)

lemma wide_row: "widen two_schema wide_schema [k, c] = [VNull, k, c]"
  by (simp add: widen_def backfill_row_def arrow_schema_def column_names_def wide_schema_def two_schema_def demo_schema_def
    new_table_def new_column_def arrow_field_def)

text \<open>
  C10: changing the schema of a sound table succeeds exactly when the new schema is a legal evolution
  of the old one; the table is sound under the new schema, with every row carried over by column
  name, wherever the column stands in the new schema, and NULL in the added columns. A refused change
  leaves the table as it was.
\<close>

theorem schema_change_exact:
  assumes "table_sound L st"
  shows "case table_set_schema L new st of (r, st') \<Rightarrow>
    r = check_evolution (ts_schema (snd st)) new \<and> table_sound L st' \<and>
    (if r = Inr () then ts_schema (snd st') = new \<and>
       mset (table_rows L st') = mset (map (widen (ts_schema (snd st)) new) (table_rows L st))
     else st' = st)"
proof (cases "check_evolution (ts_schema (snd st)) new")
  case (Inl e)
  then show ?thesis using assms by (simp add: table_set_schema_def)
next
  case (Inr u)
  obtain s t where st: "st = (s, t)" by (cases st)
  have inv: "table_sound L (s, t)" and ev: "evolves (ts_schema t) new" using assms Inr by (simp_all add: st)
  show ?thesis by (rule table_evolve [OF inv ev]) (simp add: st ev)
qed

theorem schema_change_exact_witness:
  "case table_write demo_lib demo_rows_batch True two_table of (w, st) \<Rightarrow>
     (case table_set_schema demo_lib wide_schema st of (r, st') \<Rightarrow> r = Inr () \<and> table_sound demo_lib st' \<and>
        (is_ok w \<longrightarrow> mset (table_rows demo_lib st') = {#[VNull, VInt 1, VStr ''uae''], [VNull, VInt 5, VNull]#}))"
proof -
  have P: "\<forall>(i, sub) \<in> set (write_plan demo_rows_batch (snd two_table)). batch_loggable demo_lib (fst two_table, ts_partitions (snd two_table) ! i) sub True"
    using two_loggable [of True] by (simp add: plan_loggable_def)
  have F: "batch_fits (ts_schema (snd two_table)) demo_rows_batch" using two_fit by (simp add: two_fields)
  have *: "table_sound demo_lib st \<and> ts_schema (snd st) = two_schema \<and> (is_ok w \<longrightarrow>
      mset (table_rows demo_lib st) = {#[VInt 1, VStr ''uae''], [VInt 5, VNull]#})"
    if "table_write demo_lib demo_rows_batch True two_table = (w, st)" for w st
    by (cases rule: table_write_cases [OF two_sound' F P])
      (use that two_sound in \<open>(cases w; auto simp: two_fields two_table_rows same_shape_def two_schema_ok spec_append_def spec_upsert_row_def row_key_def
         demo_rows_batch_def num_rows_def)+\<close>)
  obtain w st where w: "table_write demo_lib demo_rows_batch True two_table = (w, st)" by (cases "table_write demo_lib demo_rows_batch True two_table")
  have W: "table_sound demo_lib st" "ts_schema (snd st) = two_schema"
    "is_ok w \<Longrightarrow> mset (table_rows demo_lib st) = {#[VInt 1, VStr ''uae''], [VInt 5, VNull]#}"
    using * [OF w] by simp_all
  obtain r st' where r: "table_set_schema demo_lib wide_schema st = (r, st')" by (cases "table_set_schema demo_lib wide_schema st")
  have X: "r = Inr ()" "table_sound demo_lib st'" "mset (table_rows demo_lib st') = mset (map (widen two_schema wide_schema) (table_rows demo_lib st))"
    using schema_change_exact [OF W(1), of wide_schema] r wide_evolves by (simp_all add: W(2))
  show ?thesis using w r X W(3) by (simp add: wide_row)
qed

end
