(* ===== verification/EngineDisk.thy ===== *)
theory EngineDisk
  imports Engine TableEvolve
begin

text \<open>
  What a data directory holds: the log of catalog changes and, for every table of the catalog, the
  files of its partitions. Opening the directory gives an engine with that catalog and those rows.
\<close>

section \<open>Directories\<close>

lemma under_prefix: "under p k \<longleftrightarrow> prefix (split_on CHR ''/'' p) (split_on CHR ''/'' k)"
proof
  assume "prefix (split_on CHR ''/'' p) (split_on CHR ''/'' k)"
  then obtain r where r: "split_on CHR ''/'' k = split_on CHR ''/'' p @ r" by (auto simp: prefix_def)
  have k: "k = join_with ''/'' (split_on CHR ''/'' p @ r)" by (simp add: join_split flip: r)
  show "under p k"
  proof (cases "r = []")
    case True
    then show ?thesis using k by (simp add: join_split under_def)
  next
    case False
    then have "k = p @ ''/'' @ join_with ''/'' r" using k join_with_append [of "split_on CHR ''/'' p" r "CHR ''/''"] by (simp add: join_split)
    then show ?thesis by (auto simp: under_def prefix_def)
  qed
qed (rule under_split)

definition space_of :: "table_key \<Rightarrow> string set" where
  "space_of k = (case k of (t, d, n) \<Rightarrow> table_dir t d n)"

definition key_idents :: "table_key \<Rightarrow> bool" where
  "key_idents k \<longleftrightarrow> (case k of (t, d, n) \<Rightarrow> ident_ok t \<and> ident_ok d \<and> ident_ok n)"

definition dir_prefix :: "table_key \<Rightarrow> string" where
  "dir_prefix k = (case k of (t, d, n) \<Rightarrow> table_prefix t d n)"

lemma space_disjoint: "k \<noteq> k' \<Longrightarrow> space_of k \<inter> space_of k' = {}"
  using table_dir_disjoint by (fastforce simp: space_of_def split: prod.splits)

lemma space_under: "key_idents k \<Longrightarrow> space_of k = {j. under (dir_prefix k) j}"
  by (auto simp: space_of_def key_idents_def dir_prefix_def table_dir_def under_prefix split_key split: prod.splits)

lemma database_under:
  assumes "ident_ok t" "ident_ok d"
  shows "under (database_prefix t d) j \<longleftrightarrow> prefix [''tenants'', t, ''databases'', d] (split_on CHR ''/'' j)"
  using split_key(2) [OF assms assms(2)] by (simp add: under_prefix)

lemma system_wal_key: "plain_key system_wal" "object_key system_wal" "system_wal \<notin> space_of k" "\<not> under (dir_prefix k) system_wal"
proof -
  have sp: "split_on CHR ''/'' system_wal = [''system'', ''wal'', ''current.log'']" by (simp add: system_wal_def)
  show plain: "plain_key system_wal"
    by (rule plain_keyI [of _ "[''system'', ''wal'']" "''current''"]) (auto simp: sp plain_part_def)
  then show "object_key system_wal" by (rule plain_object)
  show "system_wal \<notin> space_of k" by (auto simp: space_of_def table_dir_def sp key_parts_def split: prod.splits)
  show "\<not> under (dir_prefix k) system_wal"
    by (auto simp: under_def system_wal_def dir_prefix_def table_prefix_def database_prefix_def prefix_def split: prod.splits)
qed

section \<open>The tables of a catalog\<close>

definition catalog_schema :: "catalog_snapshot \<Rightarrow> table_key \<Rightarrow> table_schema option" where
  "catalog_schema c k = (case k of (t, d, n) \<Rightarrow> (case lookup_table c t d n of Inl _ \<Rightarrow> None | Inr schema \<Rightarrow> Some schema))"

lemma catalog_schema_abs:
  "catalog_schema c (t, d, n) = (case catalog_abs c (t, d) of None \<Rightarrow> None | Some T \<Rightarrow> T n)"
proof (cases "database c t d")
  case (Inr db)
  then show ?thesis by (cases "bt_get (tables db) n") (simp_all add: catalog_schema_def lookup_table_def catalog_abs_def)
qed (simp add: catalog_schema_def lookup_table_def catalog_abs_def)

lemma catalog_schema_ok: "catalog_ok c \<Longrightarrow> catalog_schema c (t, d, n) = Some schema \<Longrightarrow> tname schema = n \<and> schema_ok schema"
  by (auto simp: catalog_schema_def lookup_table_def result_simps database_ok_def table_entry_ok_def
      split: sum.splits dest!: database_wf)

lemma in_catalog_tables:
  assumes "catalog_ok c"
  shows "(k, schema) \<in> set (catalog_tables c) \<longleftrightarrow> catalog_schema c k = Some schema"
proof -
  obtain t d n where k: "k = (t, d, n)" by (cases k)
  have T: "bt_ok (tenants c)" and D: "\<And>t dbs. bt_get (tenants c) t = Some dbs \<Longrightarrow> bt_ok dbs"
    and B: "\<And>t dbs d db. bt_get (tenants c) t = Some dbs \<Longrightarrow> bt_get dbs d = Some db \<Longrightarrow> bt_ok (tables db)"
    using assms by (auto simp: catalog_ok_def database_ok_def)
  have "(k, schema) \<in> set (catalog_tables c) \<longleftrightarrow>
      (\<exists>dbs db. (t, dbs) \<in> set (tenants c) \<and> (d, db) \<in> set dbs \<and> (n, schema) \<in> set (tables db))"
    by (force simp: k catalog_tables_def)
  also have "\<dots> \<longleftrightarrow> (\<exists>dbs db. bt_get (tenants c) t = Some dbs \<and> bt_get dbs d = Some db \<and> bt_get (tables db) n = Some schema)"
    using bt_set_get [OF T] bt_set_get [OF D] bt_set_get [OF B] by metis
  also have "\<dots> \<longleftrightarrow> (\<exists>db. database c t d = Inr db \<and> bt_get (tables db) n = Some schema)" by (auto simp: database_Inr)
  also have "\<dots> \<longleftrightarrow> catalog_schema c k = Some schema"
  proof (cases "database c t d")
    case (Inr db)
    then show ?thesis by (cases "bt_get (tables db) n") (simp_all add: k catalog_schema_def lookup_table_def)
  qed (simp add: k catalog_schema_def lookup_table_def)
  finally show ?thesis .
qed

lemma distinct_nested:
  assumes "distinct (map fst xs)" "\<And>a ys. (a, ys) \<in> set xs \<Longrightarrow> distinct (map fst (f ys))"
  shows "distinct (map fst (concat (map (\<lambda>(a, ys). map (\<lambda>(b, y). ((a, b), y)) (f ys)) xs)))"
proof -
  have eq: "map fst (concat (map (\<lambda>(a, ys). map (\<lambda>(b, y). ((a, b), y)) (f ys)) xs)) =
      concat (map (\<lambda>(a, ys). map (Pair a) (map fst (f ys))) xs)"
    by (induction xs) (auto simp: comp_def case_prod_unfold)
  have "distinct (concat (map (\<lambda>(a, ys). map (Pair a) (map fst (f ys))) xs))"
    using assms
  proof (induction xs)
    case (Cons x xs)
    obtain a ys where x: "x = (a, ys)" by (cases x)
    have "distinct (map (Pair a) (map fst (f ys)))" using Cons.prems(2) [of a ys] unfolding x by (subst distinct_map) (simp add: inj_on_def)
    moreover have "p \<notin> set (map (Pair a) (map fst (f ys)))" if "p \<in> set (concat (map (\<lambda>(a, ys). map (Pair a) (map fst (f ys))) xs))" for p
      using that Cons.prems(1) by (force simp: x)
    moreover have "distinct (concat (map (\<lambda>(a, ys). map (Pair a) (map fst (f ys))) xs))"
      by (rule Cons.IH) (use Cons.prems in \<open>auto simp: x\<close>)
    ultimately show ?case unfolding x list.map concat.simps prod.case distinct_append by blast
  qed simp
  then show ?thesis by (simp only: eq)
qed

lemma distinct_catalog_tables:
  assumes "catalog_ok c"
  shows "distinct (map fst (catalog_tables c))"
proof -
  let ?in = "\<lambda>dbs. concat (map (\<lambda>(d, db). map (\<lambda>(n, schema). ((d, n), schema)) (tables db)) dbs)"
  have eq: "catalog_tables c = concat (map (\<lambda>(t, dbs). map (\<lambda>(dn, schema). ((t, dn), schema)) (?in dbs)) (tenants c))"
    unfolding catalog_tables_def
    by (intro arg_cong [where f = concat] map_cong) (auto simp: map_concat comp_def case_prod_unfold)
  have T: "bt_ok (tenants c)" using assms by (simp add: catalog_ok_def)
  show ?thesis
    unfolding eq
  proof (rule distinct_nested)
    show "distinct (map fst (tenants c))" by (rule bt_ok_distinct [OF T])
    fix t dbs assume t: "(t, dbs) \<in> set (tenants c)"
    then have dbs: "bt_ok dbs" "\<And>d db. bt_get dbs d = Some db \<Longrightarrow> database_ok db"
      using assms bt_set_get [OF T] by (auto simp: catalog_ok_def)
    show "distinct (map fst (?in dbs))"
    proof (rule distinct_nested)
      show "distinct (map fst dbs)" by (rule bt_ok_distinct [OF dbs(1)])
      fix d db assume "(d, db) \<in> set dbs"
      then have "database_ok db" using dbs(2) bt_set_get [OF dbs(1)] by blast
      then show "distinct (map fst (tables db))" by (intro bt_ok_distinct) (simp add: database_ok_def)
    qed
  qed
qed

section \<open>A table on disk\<close>

definition parts_disk ::
    "storage_lib \<Rightarrow> fs_store \<Rightarrow> string \<Rightarrow> string \<Rightarrow> table_schema \<Rightarrow> (nat \<Rightarrow> partition) \<Rightarrow> (nat \<Rightarrow> row list) \<Rightarrow> bool" where
  "parts_disk L s t d schema q W \<longleftrightarrow>
     (\<forall>i < partitions schema. on_disk L s (q i) (W i) \<and> part_of t d schema i (q i)) \<and>
     (\<not> is_append_only schema \<longrightarrow> (\<forall>i < partitions schema. \<forall>r \<in> set (W i).
        target (partitions schema) (row_key (pk_indices schema) r) = i))"

definition table_disk :: "storage_lib \<Rightarrow> fs_store \<Rightarrow> table_key \<Rightarrow> table_schema \<Rightarrow> row list \<Rightarrow> bool" where
  "table_disk L s k schema V \<longleftrightarrow> (case k of (t, d, n) \<Rightarrow> tname schema = n \<and> schema_ok schema \<and>
     (\<exists>q W. V = concat (map W [0..<partitions schema]) \<and> parts_disk L s t d schema q W))"

lemma table_diskI:
  "schema_ok schema \<Longrightarrow> V = concat (map W [0..<partitions schema]) \<Longrightarrow> parts_disk L s t d schema q W \<Longrightarrow>
   k = (t, d, tname schema) \<Longrightarrow> table_disk L s k schema V"
  by (auto simp: table_disk_def)

lemma table_diskE:
  assumes "table_disk L s k schema V"
  obtains t d q W where "k = (t, d, tname schema)" "schema_ok schema" "V = concat (map W [0..<partitions schema])"
    "parts_disk L s t d schema q W"
  using assms unfolding table_disk_def by (cases k) auto

definition settled :: "storage_lib \<Rightarrow> fs_store \<Rightarrow> table_key \<Rightarrow> table_store \<Rightarrow> bool" where
  "settled L s k tb \<longleftrightarrow> table_sound L (s, tb) \<and> k = (ts_tenant tb, ts_database tb, tname (ts_schema tb)) \<and>
     length (ts_partitions tb) = partitions (ts_schema tb)"

lemma settled_dir: "settled L s k tb \<Longrightarrow> dir_of tb = space_of k"
  by (simp add: settled_def space_of_def)

lemma settled_disk:
  assumes "settled L s k tb"
  shows "table_disk L s k (ts_schema tb) (table_rows L (s, tb))"
proof -
  have inv: "table_sound L (s, tb)" and k: "k = (ts_tenant tb, ts_database tb, tname (ts_schema tb))"
    and n: "length (ts_partitions tb) = partitions (ts_schema tb)" using assms by (simp_all add: settled_def)
  note T = table_facts [OF inv]
  have P: "parts_disk L s (ts_tenant tb) (ts_database tb) (ts_schema tb) (\<lambda>i. ts_partitions tb ! i) (part_rows L (s, tb))"
    using placedD [OF T(2)] n sound_on_disk T(7) by (simp add: parts_disk_def part_of_def part_rows_def)
  show ?thesis by (rule table_diskI [OF T(5) _ P k]) (simp add: table_rows_parts n)
qed

lemma table_disk_frame:
  assumes "table_disk L s k schema V" "store_ok s'" "others_same K s s'" "space_of k \<inter> K = {}"
  shows "table_disk L s' k schema V"
proof -
  obtain t d q W where W: "k = (t, d, tname schema)" "schema_ok schema" "V = concat (map W [0..<partitions schema])"
    "parts_disk L s t d schema q W" by (rule table_diskE [OF assms(1)])
  have "on_disk L s' (q i) (W i)" if i: "i < partitions schema" for i
  proof -
    have q: "on_disk L s (q i) (W i)" "part_of t d schema i (q i)" using W(4) i by (simp_all add: parts_disk_def)
    have "own_keys (q i) \<inter> K = {}" using own_keys_dir [of "q i"] q(2) assms(4) by (auto simp: part_of_def space_of_def W(1))
    then show ?thesis by (rule on_disk_frame [OF q(1) assms(2,3)])
  qed
  then show ?thesis by (intro table_diskI [OF W(2,3) _ W(1), where q = q]) (use W(4) in \<open>simp add: parts_disk_def\<close>)
qed

lemma settled_frame:
  assumes "settled L s k tb" "store_ok s'" "others_same K s s'" "space_of k \<inter> K = {}"
  shows "settled L s' k tb" "table_rows L (s', tb) = table_rows L (s, tb)"
  using table_frame [OF _ assms(2,3)] assms(1,4) by (auto simp: settled_def space_of_def)

lemma vacant_frame: "vacant s K \<Longrightarrow> others_same K' s s' \<Longrightarrow> K \<inter> K' = {} \<Longrightarrow> vacant s' K"
  by (auto simp: vacant_def others_same_def)

lemma fresh_disk:
  assumes "storage_ok L" "store_ok s" "schema_ok schema" "key_idents k" "vacant s (space_of k)" "snd (snd k) = tname schema"
  shows "table_disk L s k schema []"
proof -
  obtain t d where k: "k = (t, d, tname schema)" using assms(6) by (cases k) simp
  have "on_disk L s (fresh_partition t d schema i undefined) [] \<and> part_of t d schema i (fresh_partition t d schema i undefined)" for i
    by (rule vacant_disk [OF assms(1-3)]) (use assms(4,5) in \<open>simp_all add: k key_idents_def space_of_def\<close>)
  then show ?thesis
    by (intro table_diskI [OF assms(3) _ _ k, where W = "\<lambda>_. []" and q = "\<lambda>i. fresh_partition t d schema i undefined"])
      (simp_all add: parts_disk_def)
qed

lemma open_one_ok:
  assumes disk: "table_disk (el_storage E) (en_store e) k schema V" and s: "store_ok (en_store e)"
  obtains s' tb where "open_one E k schema e = (Inr (), e\<lparr>en_store := s', en_tables := bt_insert k tb (en_tables e)\<rparr>)"
    "settled (el_storage E) s' k tb" "ts_schema tb = schema" "table_rows (el_storage E) (s', tb) = V"
    "others_same (space_of k) (en_store e) s'"
proof -
  let ?L = "el_storage E"
  obtain t d q W where k: "k = (t, d, tname schema)" and W: "schema_ok schema" "V = concat (map W [0..<partitions schema])"
    "parts_disk ?L (en_store e) t d schema q W" by (rule table_diskE [OF disk])
  have q: "\<And>i. i < partitions schema \<Longrightarrow> on_disk ?L (en_store e) (q i) (W i) \<and> part_of t d schema i (q i)"
    and route: "\<And>i r. \<not> is_append_only schema \<Longrightarrow> i < partitions schema \<Longrightarrow> r \<in> set (W i) \<Longrightarrow>
       target (partitions schema) (row_key (pk_indices schema) r) = i"
    using W(3) by (simp_all add: parts_disk_def)
  obtain s' tb where o: "table_open ?L (en_store e) t d schema (en_config e) = Inr (s', tb)" "table_sound ?L (s', tb)"
    "ts_tenant tb = t" "ts_database tb = d" "ts_schema tb = schema" "length (ts_partitions tb) = partitions schema"
    "table_rows ?L (s', tb) = concat (map W [0..<partitions schema])" "ts_config tb = en_config e"
    "others_same (table_dir t d (tname schema)) (en_store e) s'"
    by (rule table_open_disk [OF s W(1) q route, where cfg = "en_config e"]) (assumption | (rule that; assumption))+
  show ?thesis
    by (rule that [of tb s']) (use o W(2) in \<open>simp_all add: open_one_def k settled_def space_of_def\<close>)
qed

section \<open>A data directory and an engine\<close>

definition engine_lib_ok :: "engine_lib \<Rightarrow> bool" where
  "engine_lib_ok E \<longleftrightarrow> storage_ok (el_storage E) \<and> (\<forall>m j. ddl_json E m = Some j \<longrightarrow> ddl_parse E j = Some m)"

definition logs_catalog :: "engine_lib \<Rightarrow> log_entry list \<Rightarrow> catalog_snapshot \<Rightarrow> bool" where
  "logs_catalog E es c \<longleftrightarrow> (\<exists>ms. logged_ddl E es = Inr ms \<and> replay_ddl ms = Inr c)"

text \<open>\<open>engine_disk E s c V\<close>: the log in \<open>s\<close> replays to the catalog \<open>c\<close>, whose tables hold the rows \<open>V\<close>.\<close>

definition engine_disk :: "engine_lib \<Rightarrow> fs_store \<Rightarrow> catalog_snapshot \<Rightarrow> (table_key \<Rightarrow> row list) \<Rightarrow> bool" where
  "engine_disk E s c V \<longleftrightarrow> engine_lib_ok E \<and> store_ok s \<and>
     (\<exists>es. log_disk (sl_wal (el_storage E)) s system_wal es \<and> logs_catalog E es c) \<and>
     (\<forall>k schema. catalog_schema c k = Some schema \<longrightarrow> key_idents k \<and> table_disk (el_storage E) s k schema (V k)) \<and>
     (\<forall>k. \<not> key_idents k \<longrightarrow> vacant s (space_of k))"

text \<open>
  The invariant of a running engine: its log replays to its catalog, the open tables are those of the
  catalog, each sound and under its own directory, and no other table directory has files.
\<close>

definition engine_inv :: "engine_lib \<Rightarrow> engine \<Rightarrow> bool" where
  "engine_inv E e \<longleftrightarrow> engine_lib_ok E \<and> store_ok (en_store e) \<and> log_key (en_log e) = system_wal \<and>
     (\<exists>es. log_holds (sl_wal (el_storage E)) (en_store e, en_log e) es \<and> logs_catalog E es (en_catalog e)) \<and>
     bt_ok (en_tables e) \<and>
     (\<forall>k. catalog_schema (en_catalog e) k = map_option ts_schema (bt_get (en_tables e) k)) \<and>
     (\<forall>k tb. bt_get (en_tables e) k = Some tb \<longrightarrow> key_idents k \<and> settled (el_storage E) (en_store e) k tb) \<and>
     (\<forall>k. bt_get (en_tables e) k = None \<longrightarrow> vacant (en_store e) (space_of k))"

definition engine_rows :: "engine_lib \<Rightarrow> engine \<Rightarrow> table_key \<Rightarrow> row list" where
  "engine_rows E e k = (case bt_get (en_tables e) k of None \<Rightarrow> [] | Some tb \<Rightarrow> table_rows (el_storage E) (en_store e, tb))"

lemma engine_invD:
  assumes "engine_inv E e"
  shows "engine_lib_ok E" "store_ok (en_store e)" "log_key (en_log e) = system_wal" "bt_ok (en_tables e)"
    "catalog_schema (en_catalog e) k = map_option ts_schema (bt_get (en_tables e) k)"
    "bt_get (en_tables e) k = Some tb \<Longrightarrow> key_idents k" "bt_get (en_tables e) k = Some tb \<Longrightarrow> settled (el_storage E) (en_store e) k tb"
    "bt_get (en_tables e) k = None \<Longrightarrow> vacant (en_store e) (space_of k)"
  using assms unfolding engine_inv_def by blast+

lemma engine_inv_log:
  assumes "engine_inv E e"
  obtains es where "log_holds (sl_wal (el_storage E)) (en_store e, en_log e) es" "logs_catalog E es (en_catalog e)"
  using assms unfolding engine_inv_def by blast

lemma logs_catalog_ok: "logs_catalog E es c \<Longrightarrow> catalog_ok c"
  unfolding logs_catalog_def replay_ddl_def by (auto dest: ddl.replay_ok)

lemma engine_catalog_ok: "engine_inv E e \<Longrightarrow> catalog_ok (en_catalog e)"
  using logs_catalog_ok by (blast elim: engine_inv_log)

lemma inv_disk:
  assumes inv: "engine_inv E e"
  shows "engine_disk E (en_store e) (en_catalog e) (engine_rows E e)"
proof -
  note I = engine_invD [OF inv]
  obtain es where es: "log_holds (sl_wal (el_storage E)) (en_store e, en_log e) es" "logs_catalog E es (en_catalog e)"
    by (rule engine_inv_log [OF inv])
  have "key_idents k \<and> table_disk (el_storage E) (en_store e) k schema (engine_rows E e k)"
    if c: "catalog_schema (en_catalog e) k = Some schema" for k schema
  proof -
    obtain tb where tb: "bt_get (en_tables e) k = Some tb" "ts_schema tb = schema" using c I(5) [of k] by auto
    show ?thesis using I(6) [OF tb(1)] settled_disk [OF I(7) [OF tb(1)]] tb by (simp add: engine_rows_def)
  qed
  moreover have "vacant (en_store e) (space_of k)" if "\<not> key_idents k" for k
    using I(6,8) [of k] that by (cases "bt_get (en_tables e) k") auto
  moreover have "log_disk (sl_wal (el_storage E)) (en_store e) system_wal es" using holds_log_disk [OF es(1)] I(3) by simp
  ultimately show ?thesis using I(1,2) es(2) unfolding engine_disk_def by blast
qed

section \<open>Opening\<close>

lemma open_tables_ok:
  assumes "distinct (map fst ks)" "\<And>k schema. (k, schema) \<in> set ks \<Longrightarrow> table_disk (el_storage E) (en_store e) k schema (V k)"
    "store_ok (en_store e)" "bt_ok (en_tables e)"
  obtains e' where "open_tables E ks e = (Inr (), e')" "en_catalog e' = en_catalog e" "en_log e' = en_log e"
    "store_ok (en_store e')" "bt_ok (en_tables e')"
    "others_same (\<Union>k \<in> fst ` set ks. space_of k) (en_store e) (en_store e')"
    "\<And>k schema. (k, schema) \<in> set ks \<Longrightarrow> \<exists>tb. bt_get (en_tables e') k = Some tb \<and> ts_schema tb = schema \<and>
       settled (el_storage E) (en_store e') k tb \<and> table_rows (el_storage E) (en_store e', tb) = V k"
    "\<And>k. k \<notin> fst ` set ks \<Longrightarrow> bt_get (en_tables e') k = bt_get (en_tables e) k" "en_config e' = en_config e"
  using assms
proof (induction ks arbitrary: e thesis)
  case Nil
  show ?case by (rule Nil.prems(1) [of e]) (use Nil.prems(4,5) in \<open>simp_all add: lift_def others_same_def\<close>)
next
  case (Cons x ks)
  let ?L = "el_storage E"
  obtain k schema where x: "x = (k, schema)" by (cases x)
  have disk: "table_disk ?L (en_store e) k schema (V k)" by (rule Cons.prems(3)) (simp add: x)
  obtain s1 tb where o: "open_one E k schema e = (Inr (), e\<lparr>en_store := s1, en_tables := bt_insert k tb (en_tables e)\<rparr>)"
    "settled ?L s1 k tb" "ts_schema tb = schema" "table_rows ?L (s1, tb) = V k" "others_same (space_of k) (en_store e) s1"
    by (rule open_one_ok [OF disk Cons.prems(4)]) (rule that; assumption)
  let ?e = "e\<lparr>en_store := s1, en_tables := bt_insert k tb (en_tables e)\<rparr>"
  have s1: "store_ok s1" using table_facts(4) [of ?L s1 tb] o(2) by (simp add: settled_def)
  have rest: "table_disk ?L (en_store ?e) k' schema' (V k')" if "(k', schema') \<in> set ks" for k' schema'
  proof -
    have "k' \<noteq> k" using that Cons.prems(2) by (force simp: x)
    then show ?thesis
      using table_disk_frame [OF Cons.prems(3) [of k' schema'] s1 o(5)] that space_disjoint by simp
  qed
  obtain e' where IH: "open_tables E ks ?e = (Inr (), e')" "en_catalog e' = en_catalog ?e" "en_log e' = en_log ?e"
    "store_ok (en_store e')" "bt_ok (en_tables e')"
    "others_same (\<Union>k \<in> fst ` set ks. space_of k) (en_store ?e) (en_store e')"
    "\<And>k schema. (k, schema) \<in> set ks \<Longrightarrow> \<exists>tb. bt_get (en_tables e') k = Some tb \<and> ts_schema tb = schema \<and>
       settled ?L (en_store e') k tb \<and> table_rows ?L (en_store e', tb) = V k"
    "\<And>k. k \<notin> fst ` set ks \<Longrightarrow> bt_get (en_tables e') k = bt_get (en_tables ?e) k" "en_config e' = en_config ?e"
    by (rule Cons.IH [where e = ?e]) (use Cons.prems(2,5) rest s1 bt_ok_insert in \<open>simp_all add: x\<close>)
  have new: "k \<notin> fst ` set ks" using Cons.prems(2) by (simp add: x)
  then have "space_of k \<inter> (\<Union>k \<in> fst ` set ks. space_of k) = {}" using space_disjoint by blast
  note fr = settled_frame [OF o(2) IH(4) _ this]
  have this_one: "bt_get (en_tables e') k = Some tb" using IH(8) [OF new] bt_get_insert [OF Cons.prems(5)] by simp
  show ?case
  proof (rule Cons.prems(1) [of e'])
    show "open_tables E (x # ks) e = (Inr (), e')" using o(1) IH(1) by (simp add: x ebind_def)
    show "others_same (\<Union>k \<in> fst ` set (x # ks). space_of k) (en_store e) (en_store e')"
      using others_same_trans [OF o(5)] IH(6) by (simp add: x)
    show "\<exists>tb. bt_get (en_tables e') k' = Some tb \<and> ts_schema tb = schema' \<and>
       settled ?L (en_store e') k' tb \<and> table_rows ?L (en_store e', tb) = V k'" if "(k', schema') \<in> set (x # ks)" for k' schema'
      using that IH(7) [of k' schema'] this_one fr IH(6) o(3,4) by (auto simp: x)
    show "bt_get (en_tables e') k' = bt_get (en_tables e) k'" if "k' \<notin> fst ` set (x # ks)" for k'
      using that IH(8) [of k'] bt_get_insert [OF Cons.prems(5)] by (simp add: x)
  qed (use IH in simp_all)
qed

section \<open>Orphaned directories\<close>

lemma dir_prefix_split: "key_idents (t, d, n) \<Longrightarrow> split_on CHR ''/'' (dir_prefix (t, d, n)) = key_parts t d n"
  by (simp add: key_idents_def dir_prefix_def split_key)

lemma dir_prefix_ok:
  assumes "key_idents k"
  shows "CHR ''.'' \<notin> set (dir_prefix k)" "validate_key (dir_prefix k) = Inr ()"
proof -
  obtain t d n where k: "k = (t, d, n)" by (cases k)
  have idents: "ident_ok t" "ident_ok d" "ident_ok n" using assms by (simp_all add: k key_idents_def)
  note sp = dir_prefix_split [OF assms [unfolded k]]
  have plain: "list_all plain_part (key_parts t d n)" using idents [THEN ident_plain] by (auto simp: key_parts_def plain_part_def)
  show dot: "CHR ''.'' \<notin> set (dir_prefix k)"
    using idents [THEN ident_ok_no_dot] by (simp add: k dir_prefix_def table_prefix_def database_prefix_def)
  have "dir_prefix k \<noteq> []" by (simp add: k dir_prefix_def table_prefix_def database_prefix_def)
  moreover have "\<forall>c \<in> set (key_parts t d n). c \<noteq> [] \<and> c \<noteq> ''.'' \<and> c \<noteq> ''..''"
    using plain by (fastforce simp: list_all_iff plain_part_def)
  ultimately show "validate_key (dir_prefix k) = Inr ()" using sp by (simp add: validate_key_iff k)
qed

lemma dir_prefix_inj: "key_idents k \<Longrightarrow> key_idents k' \<Longrightarrow> dir_prefix k = dir_prefix k' \<Longrightarrow> k = k'"
proof -
  assume k: "key_idents k" "key_idents k'" "dir_prefix k = dir_prefix k'"
  obtain t d n t' d' n' where eq: "k = (t, d, n)" "k' = (t', d', n')" by (cases k; cases k') blast
  have "key_parts t d n = key_parts t' d' n'"
    using dir_prefix_split [of t d n] dir_prefix_split [of t' d' n'] k by (simp add: eq)
  then show "k = k'" by (simp add: key_parts_def eq)
qed

lemma delete_dir:
  assumes "store_ok s" "key_idents k"
  obtains s' where "store_delete_prefix s (dir_prefix k) = Inr s'" "store_ok s'"
    "\<And>j. map_of (files s') j = (if j \<in> space_of k then None else map_of (files s) j)"
proof -
  note p = dir_prefix_ok [OF assms(2)]
  have "\<not> is_file s (dir_prefix k)"
    using assms(1) p(1) object_key_dot by (force simp: is_file_def store_ok_def dest: map_of_SomeD)
  then have "\<exists>s'. store_delete_prefix s (dir_prefix k) = Inr s'" using p(2) by (simp add: store_delete_prefix_def)
  then obtain s' where s': "store_delete_prefix s (dir_prefix k) = Inr s'" by blast
  show ?thesis
    by (rule that [OF s']) (use delete_prefix_spec [OF assms(1) p(1) s'] space_under [OF assms(2)] in simp_all)
qed

lemma delete_dirs:
  assumes "store_ok s" "\<forall>k \<in> set ks. key_idents k"
  obtains s' where "foldM store_delete_prefix s (map dir_prefix ks) = Inr s'" "store_ok s'"
    "\<And>j. map_of (files s') j = (if \<exists>k \<in> set ks. j \<in> space_of k then None else map_of (files s) j)"
  using assms
proof (induction ks arbitrary: s thesis)
  case (Cons k ks)
  have ki: "key_idents k" using Cons.prems(3) by simp
  obtain s1 where s1: "store_delete_prefix s (dir_prefix k) = Inr s1" "store_ok s1"
    "\<And>j. map_of (files s1) j = (if j \<in> space_of k then None else map_of (files s) j)"
    by (rule delete_dir [OF Cons.prems(2) ki]) (rule that; assumption)
  obtain s' where s': "foldM store_delete_prefix s1 (map dir_prefix ks) = Inr s'" "store_ok s'"
    "\<And>j. map_of (files s') j = (if \<exists>k \<in> set ks. j \<in> space_of k then None else map_of (files s1) j)"
    using Cons.IH [OF _ s1(2)] Cons.prems(3) by (metis list.set_intros(2))
  show ?case by (rule Cons.prems(1) [OF _ s'(2)]) (use s1(1,3) s'(1,3) in simp_all)
qed simp

text \<open>An object below a table directory.\<close>

lemma table_directory_space:
  assumes "j \<in> space_of k" "key_idents k"
  shows "table_directory j = Some (dir_prefix k)"
proof -
  obtain t d n where k: "k = (t, d, n)" by (cases k)
  obtain r where r: "split_on CHR ''/'' j = key_parts t d n @ r" using assms(1) by (auto simp: k space_of_def table_dir_def prefix_def)
  have "join_with ''/'' (key_parts t d n) = dir_prefix k"
    using dir_prefix_split [of t d n] assms(2) join_split [of "CHR ''/''" "dir_prefix k"] by (simp add: k)
  then show ?thesis using r by (simp add: table_directory_def Let_def key_parts_def)
qed

lemma table_directory_key:
  assumes "table_directory j = Some p" "under ''tenants'' j"
  obtains k where "j \<in> space_of k"
proof -
  let ?cs = "split_on CHR ''/'' j"
  have cs: "6 \<le> length ?cs" "?cs ! 2 = ''databases''" "?cs ! 4 = ''tables''"
    using assms(1) by (auto simp: table_directory_def Let_def split: if_splits)
  have "prefix (split_on CHR ''/'' ''tenants'') ?cs" using assms(2) by (rule under_split)
  then have "prefix [''tenants''] ?cs" by simp
  then have hd: "?cs ! 0 = ''tenants''" by (auto simp: prefix_def)
  have "take 6 ?cs = [?cs ! 0, ?cs ! 1, ?cs ! 2, ?cs ! 3, ?cs ! 4, ?cs ! 5]"
    using cs(1) by (intro nth_equalityI) (auto simp: less_Suc_eq numeral_eq_Suc)
  then have "take 6 ?cs = key_parts (?cs ! 1) (?cs ! 3) (?cs ! 5)" using cs(2,3) hd by (simp add: key_parts_def)
  then have "prefix (key_parts (?cs ! 1) (?cs ! 3) (?cs ! 5)) ?cs" by (metis take_is_prefix)
  then show ?thesis by (intro that [of "(?cs ! 1, ?cs ! 3, ?cs ! 5)"]) (simp add: space_of_def table_dir_def)
qed

lemma tenants_dir: "validate_key ''tenants'' = Inr ()" "CHR ''.'' \<notin> set ''tenants''" "j \<in> space_of k \<Longrightarrow> under ''tenants'' j"
proof -
  show "validate_key ''tenants'' = Inr ()" "CHR ''.'' \<notin> set ''tenants''" by (simp_all add: validate_key_iff)
  assume "j \<in> space_of k"
  then have "prefix [''tenants''] (split_on CHR ''/'' j)" by (auto simp: space_of_def table_dir_def key_parts_def prefix_def split: prod.splits)
  then show "under ''tenants'' j" by (simp add: under_prefix)
qed

lemma remove_orphaned_ok:
  assumes s: "store_ok (en_store e)" and c: "catalog_ok (en_catalog e)"
    and idents: "\<And>k schema. catalog_schema (en_catalog e) k = Some schema \<Longrightarrow> key_idents k"
    and named: "\<And>k. \<not> key_idents k \<Longrightarrow> vacant (en_store e) (space_of k)"
  obtains s' where "remove_orphaned_data e = (Inr (), e\<lparr>en_store := s'\<rparr>)" "store_ok s'"
    "others_same {j. \<exists>k. catalog_schema (en_catalog e) k = None \<and> j \<in> space_of k} (en_store e) s'"
    "\<And>k. catalog_schema (en_catalog e) k = None \<Longrightarrow> vacant s' (space_of k)"
proof -
  let ?s = "en_store e" and ?c = "en_catalog e"
  obtain ks where ks: "store_list ?s ''tenants'' = Inr ks" by (rule store_list_ok [OF s tenants_dir(1,2)])
  have listed: "j \<in> set ks \<longleftrightarrow> map_of (files ?s) j \<noteq> None \<and> plain_key j \<and> under ''tenants'' j" for j
    using store_list_spec [OF s ks] by blast
  let ?known = "(\<lambda>((t, d, n), _). table_prefix t d n) ` set (catalog_tables ?c)"
  have known: "p \<in> ?known \<longleftrightarrow> (\<exists>k schema. catalog_schema ?c k = Some schema \<and> p = dir_prefix k)" for p
    using in_catalog_tables [OF c] by (force simp: dir_prefix_def image_iff)
  have orphan: "\<exists>k. key_idents k \<and> catalog_schema ?c k = None \<and> p = dir_prefix k" if p: "p \<in> set (orphans ?c ks)" for p
  proof -
    obtain j where j: "j \<in> set ks" "table_directory j = Some p" "p \<notin> ?known"
      using p by (auto simp: orphans_def map_filter_def)
    obtain k where k: "j \<in> space_of k" using table_directory_key j listed by metis
    then have "\<not> vacant ?s (space_of k)" using j(1) listed by (auto simp: vacant_def)
    then have ki: "key_idents k" using named by blast
    then have "p = dir_prefix k" using table_directory_space [OF k] j(2) by simp
    moreover have "catalog_schema ?c k = None"
      using known [of p] j(3) calculation by (cases "catalog_schema ?c k") blast+
    ultimately show ?thesis using ki by blast
  qed
  then obtain f where f: "\<And>p. p \<in> set (orphans ?c ks) \<Longrightarrow> key_idents (f p) \<and> catalog_schema ?c (f p) = None \<and> p = dir_prefix (f p)" by metis
  let ?os = "map f (orphans ?c ks)"
  have os: "map dir_prefix ?os = orphans ?c ks" unfolding map_map by (rule map_idI) (metis comp_apply f)
  have os_ok: "\<forall>k \<in> set ?os. key_idents k \<and> catalog_schema ?c k = None" using f by simp
  then have os_idents: "\<forall>k \<in> set ?os. key_idents k" by blast
  obtain s' where s': "foldM store_delete_prefix ?s (map dir_prefix ?os) = Inr s'" "store_ok s'"
    "\<And>j. map_of (files s') j = (if \<exists>k \<in> set ?os. j \<in> space_of k then None else map_of (files ?s) j)"
    by (rule delete_dirs [OF s os_idents]) (rule that; assumption)
  show ?thesis
  proof (rule that [OF _ s'(2)])
    show "remove_orphaned_data e = (Inr (), e\<lparr>en_store := s'\<rparr>)" using ks s'(1) [unfolded os] by (simp add: remove_orphaned_data_def)
    show "others_same {j. \<exists>k. catalog_schema ?c k = None \<and> j \<in> space_of k} ?s s'"
      unfolding others_same_def s'(3) using os_ok by (metis (mono_tags, lifting) mem_Collect_eq)
    fix k assume none: "catalog_schema ?c k = None"
    show "vacant s' (space_of k)"
      unfolding vacant_def
    proof (intro ballI impI, rule ccontr)
      fix j assume j: "j \<in> space_of k" "plain_key j" "map_of (files s') j \<noteq> None"
      then have there: "map_of (files ?s) j \<noteq> None" and out: "k \<notin> set ?os" using s'(3) by (auto split: if_splits)
      have ki: "key_idents k" by (rule ccontr) (use named [of k] there j(1,2) in \<open>simp add: vacant_def\<close>)
      have "j \<in> set ks" using listed there j(2) tenants_dir(3) [OF j(1)] by blast
      moreover have "dir_prefix k \<notin> ?known" using known idents none dir_prefix_inj [OF ki] by (metis option.distinct(1))
      ultimately have p: "dir_prefix k \<in> set (orphans ?c ks)"
        using table_directory_space [OF j(1) ki] by (force simp: orphans_def map_filter_def)
      then have "f (dir_prefix k) = k" using f [OF p] dir_prefix_inj [OF ki] by metis
      then show False using out p by (metis image_eqI set_map)
    qed
  qed
qed

section \<open>The engine\<close>

lemma engine_open_ok:
  assumes disk: "engine_disk E s c V"
  obtains e where "engine_open E s cfg = Inr e" "engine_inv E e" "en_catalog e = c" "en_config e = cfg"
    "engine_rows E e = (\<lambda>k. if catalog_schema c k = None then [] else V k)"
proof -
  let ?L = "el_storage E"
  obtain es where D: "engine_lib_ok E" "store_ok s" "log_disk (sl_wal ?L) s system_wal es" "logs_catalog E es c"
    "\<And>k schema. catalog_schema c k = Some schema \<Longrightarrow> key_idents k \<and> table_disk ?L s k schema (V k)"
    "\<And>k. \<not> key_idents k \<Longrightarrow> vacant s (space_of k)"
    using disk unfolding engine_disk_def by blast
  have c: "catalog_ok c" by (rule logs_catalog_ok [OF D(4)])
  have W: "wal_lib_ok (sl_wal ?L)" using D(1) storage_okD(2) by (simp add: engine_lib_ok_def)
  obtain s1 r where l: "log_open (sl_wal ?L) s system_wal = Inr (s1, r)" "rec_entries r = es" "log_key (rec_store r) = system_wal"
    "log_holds (sl_wal ?L) (s1, rec_store r) es" "\<And>k. k \<noteq> system_wal \<Longrightarrow> map_of (files s1) k = map_of (files s) k"
    by (rule log_open_disk [OF W D(2) system_wal_key(2) D(3)]) (rule that; assumption)
  have s1: "store_ok s1" using l(4) by (simp add: log_holds_def)
  have oth1: "others_same {system_wal} s s1" using l(5) by (simp add: others_same_def)
  have no_wal: "space_of k \<inter> {system_wal} = {}" for k using system_wal_key(3) by blast
  let ?e1 = "\<lparr>en_store = s1, en_catalog = c, en_log = rec_store r, en_tables = [], en_config = cfg\<rparr>"
  have ready: "table_disk ?L (en_store ?e1) k schema (V k)" if "(k, schema) \<in> set (catalog_tables c)" for k schema
    using table_disk_frame [OF _ s1 oth1 no_wal] D(5) in_catalog_tables [OF c] that by simp
  obtain e2 where o: "open_tables E (catalog_tables c) ?e1 = (Inr (), e2)" "en_catalog e2 = en_catalog ?e1" "en_log e2 = en_log ?e1"
    "store_ok (en_store e2)" "bt_ok (en_tables e2)"
    "others_same (\<Union>k \<in> fst ` set (catalog_tables c). space_of k) (en_store ?e1) (en_store e2)"
    "\<And>k schema. (k, schema) \<in> set (catalog_tables c) \<Longrightarrow> \<exists>tb. bt_get (en_tables e2) k = Some tb \<and> ts_schema tb = schema \<and>
       settled ?L (en_store e2) k tb \<and> table_rows ?L (en_store e2, tb) = V k"
    "\<And>k. k \<notin> fst ` set (catalog_tables c) \<Longrightarrow> bt_get (en_tables e2) k = bt_get (en_tables ?e1) k" "en_config e2 = en_config ?e1"
    by (rule open_tables_ok [OF distinct_catalog_tables [OF c] ready]) (assumption | simp add: s1 | (rule that; assumption))+
  have keys: "k \<in> fst ` set (catalog_tables c) \<longleftrightarrow> catalog_schema c k \<noteq> None" for k
  proof
    assume "catalog_schema c k \<noteq> None"
    then obtain schema where "(k, schema) \<in> set (catalog_tables c)" using in_catalog_tables [OF c] by auto
    then show "k \<in> fst ` set (catalog_tables c)" by force
  qed (auto simp: in_catalog_tables [OF c])
  have opened: "\<exists>tb. bt_get (en_tables e2) k = Some tb \<and> ts_schema tb = schema \<and> settled ?L (en_store e2) k tb \<and>
      table_rows ?L (en_store e2, tb) = V k" if "catalog_schema c k = Some schema" for k schema
    using o(7) in_catalog_tables [OF c] that by blast
  have closed: "bt_get (en_tables e2) k = None" if "catalog_schema c k = None" for k using o(8) keys that by simp
  have named: "vacant (en_store e2) (space_of k)" if "\<not> key_idents k" for k
  proof -
    have "space_of k \<inter> space_of k' = {}" if k': "k' \<in> fst ` set (catalog_tables c)" for k'
    proof (rule space_disjoint)
      obtain schema where "catalog_schema c k' = Some schema" using k' keys by auto
      then show "k \<noteq> k'" using D(5) \<open>\<not> key_idents k\<close> by blast
    qed
    then have "space_of k \<inter> (\<Union>k \<in> fst ` set (catalog_tables c). space_of k) = {}" by blast
    then show ?thesis using vacant_frame [OF vacant_frame [OF D(6) [OF that] oth1 no_wal]] o(6) by simp
  qed
  obtain s3 where x: "remove_orphaned_data e2 = (Inr (), e2\<lparr>en_store := s3\<rparr>)" "store_ok s3"
    "others_same {j. \<exists>k. catalog_schema c k = None \<and> j \<in> space_of k} (en_store e2) s3"
    "\<And>k. catalog_schema c k = None \<Longrightarrow> vacant s3 (space_of k)"
    using remove_orphaned_ok [of e2] o(2,4) c D(5) named by auto
  let ?e = "e2\<lparr>en_store := s3\<rparr>"
  have apart: "space_of k \<inter> {j. \<exists>k. catalog_schema c k = None \<and> j \<in> space_of k} = {}" if k: "catalog_schema c k = Some schema" for k schema
  proof -
    have "j \<notin> space_of k'" if "j \<in> space_of k" "catalog_schema c k' = None" for j k'
      using space_disjoint [of k k'] that k by (cases "k = k'") auto
    then show ?thesis by blast
  qed
  have open_now: "\<exists>tb. bt_get (en_tables e2) k = Some tb \<and> ts_schema tb = schema \<and> settled ?L s3 k tb \<and> table_rows ?L (s3, tb) = V k"
    if "catalog_schema c k = Some schema" for k schema
    using opened [OF that] settled_frame [OF _ x(2,3) apart [OF that]] by metis
  have wal: "map_of (files s3) system_wal = map_of (files s1) system_wal"
  proof -
    have "map_of (files (en_store e2)) system_wal = map_of (files s1) system_wal"
      using others_sameD [OF o(6) _ system_wal_key(1)] system_wal_key(3) by simp
    then show ?thesis using others_sameD [OF x(3) _ system_wal_key(1)] system_wal_key(3) by simp
  qed
  then have log: "log_holds (sl_wal ?L) (s3, rec_store r) es" using l(3,4) x(2) by (simp add: log_holds_def)
  have "engine_inv E ?e"
    unfolding engine_inv_def
  proof (intro conjI allI impI)
    show "\<exists>es. log_holds (sl_wal ?L) (en_store ?e, en_log ?e) es \<and> logs_catalog E es (en_catalog ?e)"
      using log D(4) o(2,3) by auto
    show "catalog_schema (en_catalog ?e) k = map_option ts_schema (bt_get (en_tables ?e) k)" for k
      using opened [of k] closed [of k] o(2) by (cases "catalog_schema c k") auto
    fix k
    show "key_idents k" "settled ?L (en_store ?e) k tb" if "bt_get (en_tables ?e) k = Some tb" for tb
      using D(5) [of k] open_now [of k] closed [of k] that by (cases "catalog_schema c k"; simp)+
    show "vacant (en_store ?e) (space_of k)" if "bt_get (en_tables ?e) k = None"
      using x(4) [of k] opened [of k] that by (cases "catalog_schema c k") auto
  qed (use D(1) x(2) o(3,5) l(3) in simp_all)
  moreover have "engine_rows E ?e = (\<lambda>k. if catalog_schema c k = None then [] else V k)"
    using open_now closed by (fastforce simp: engine_rows_def split: option.splits)
  moreover obtain ms where "logged_ddl E es = Inr ms" "replay_ddl ms = Inr c" using D(4) by (auto simp: logs_catalog_def)
  then have "engine_open E s cfg = Inr ?e" using l(1,2) o(1) x(1) by (simp add: engine_open_def ebind_def Let_def)
  ultimately show ?thesis using o(2,9) by (intro that [of ?e]) simp_all
qed

end
