(* ===== verification/EngineOps.thy ===== *)
theory EngineOps
  imports EngineDisk
begin

text \<open>
  Every operation of the engine keeps its invariant and leaves the databases and tables it does not
  name as they were, in the catalog, in their rows and in their files.
\<close>

section \<open>The parts of the invariant\<close>

definition ddl_logged :: "engine_lib \<Rightarrow> fs_store \<Rightarrow> file_log \<Rightarrow> catalog_snapshot \<Rightarrow> bool" where
  "ddl_logged E s lg c \<longleftrightarrow> engine_lib_ok E \<and> store_ok s \<and> log_key lg = system_wal \<and>
     (\<exists>es. log_holds (sl_wal (el_storage E)) (s, lg) es \<and> logs_catalog E es c)"

definition tables_inv :: "storage_lib \<Rightarrow> fs_store \<Rightarrow> (table_key, table_store) btree \<Rightarrow> bool" where
  "tables_inv L s tbs \<longleftrightarrow> bt_ok tbs \<and>
     (\<forall>k tb. bt_get tbs k = Some tb \<longrightarrow> key_idents k \<and> settled L s k tb) \<and>
     (\<forall>k. bt_get tbs k = None \<longrightarrow> vacant s (space_of k))"

definition registered :: "catalog_snapshot \<Rightarrow> (table_key, table_store) btree \<Rightarrow> bool" where
  "registered c tbs \<longleftrightarrow> (\<forall>k. catalog_schema c k = map_option ts_schema (bt_get tbs k))"

definition rows_in :: "storage_lib \<Rightarrow> fs_store \<Rightarrow> (table_key, table_store) btree \<Rightarrow> table_key \<Rightarrow> row list" where
  "rows_in L s tbs k = (case bt_get tbs k of None \<Rightarrow> [] | Some tb \<Rightarrow> table_rows L (s, tb))"

lemma engine_inv_parts:
  "engine_inv E e \<longleftrightarrow> ddl_logged E (en_store e) (en_log e) (en_catalog e) \<and>
     tables_inv (el_storage E) (en_store e) (en_tables e) \<and> registered (en_catalog e) (en_tables e)"
  unfolding engine_inv_def ddl_logged_def tables_inv_def registered_def by blast

lemma tables_invD:
  assumes "tables_inv L s tbs"
  shows "bt_ok tbs" "bt_get tbs k = Some tb \<Longrightarrow> key_idents k" "bt_get tbs k = Some tb \<Longrightarrow> settled L s k tb"
    "bt_get tbs k = None \<Longrightarrow> vacant s (space_of k)"
  using assms unfolding tables_inv_def by blast+

lemma tables_invI:
  assumes "bt_ok tbs" "\<And>k tb. bt_get tbs k = Some tb \<Longrightarrow> key_idents k \<and> settled L s k tb"
    "\<And>k. bt_get tbs k = None \<Longrightarrow> vacant s (space_of k)"
  shows "tables_inv L s tbs"
  using assms unfolding tables_inv_def by blast

lemma engine_rows_parts: "engine_rows E e = rows_in (el_storage E) (en_store e) (en_tables e)"
  by (simp add: engine_rows_def rows_in_def fun_eq_iff)

lemma ddl_logged_ok: "ddl_logged E s lg c \<Longrightarrow> catalog_ok c"
  using logs_catalog_ok unfolding ddl_logged_def by blast

lemma ddl_logged_frame:
  assumes "ddl_logged E s lg c" "store_ok s'" "others_same K s s'" "system_wal \<notin> K"
  shows "ddl_logged E s' lg c"
proof -
  have "map_of (files s') system_wal = map_of (files s) system_wal"
    by (rule others_sameD [OF assms(3,4) system_wal_key(1)])
  then show ?thesis using assms(1,2) by (auto simp: ddl_logged_def log_holds_def)
qed

lemma wal_apart: "system_wal \<notin> (\<Union>k \<in> K. space_of k)"
  using system_wal_key(3) by blast

lemma tables_inv_wal:
  assumes "tables_inv L s tbs" "store_ok s'" "others_same {system_wal} s s'"
  shows "tables_inv L s' tbs" "rows_in L s' tbs = rows_in L s tbs"
proof -
  have a: "space_of k \<inter> {system_wal} = {}" for k using system_wal_key(3) by blast
  have f: "settled L s' k tb \<and> table_rows L (s', tb) = table_rows L (s, tb)" if "bt_get tbs k = Some tb" for k tb
    using settled_frame [OF tables_invD(3) [OF assms(1) that] assms(2,3) a] by blast
  show "tables_inv L s' tbs"
    by (rule tables_invI) (use tables_invD [OF assms(1)] f vacant_frame [OF _ assms(3) a] in blast)+
  show "rows_in L s' tbs = rows_in L s tbs" using f by (auto simp: rows_in_def fun_eq_iff split: option.splits)
qed

lemma tables_inv_insert:
  assumes "tables_inv L s tbs" "store_ok s'" "others_same (space_of k) s s'" "key_idents k" "settled L s' k tb"
  shows "tables_inv L s' (bt_insert k tb tbs)"
    "rows_in L s' (bt_insert k tb tbs) = (rows_in L s tbs)(k := table_rows L (s', tb))"
proof -
  have ok: "bt_ok tbs" using assms(1) by (simp add: tables_inv_def)
  note get = bt_get_insert [OF ok]
  have f: "settled L s' k' tb' \<and> table_rows L (s', tb') = table_rows L (s, tb')" if "bt_get tbs k' = Some tb'" "k' \<noteq> k" for k' tb'
    using settled_frame [OF tables_invD(3) [OF assms(1) that(1)] assms(2,3) space_disjoint [OF that(2)]] by blast
  have v: "vacant s' (space_of k')" if "bt_get tbs k' = None" "k' \<noteq> k" for k'
    using vacant_frame [OF tables_invD(4) [OF assms(1) that(1)] assms(3) space_disjoint [OF that(2)]] .
  show "tables_inv L s' (bt_insert k tb tbs)"
    by (rule tables_invI) (use tables_invD [OF assms(1)] assms(4,5) f v bt_ok_insert [OF ok] in \<open>auto simp: get split: if_splits\<close>)
  show "rows_in L s' (bt_insert k tb tbs) = (rows_in L s tbs)(k := table_rows L (s', tb))"
    using f by (auto simp: rows_in_def get fun_eq_iff split: option.splits)
qed

text \<open>Everything below the directories of the tables \<open>K\<close> is deleted, and these tables are closed.\<close>

definition emptied :: "table_key set \<Rightarrow> string set \<Rightarrow> fs_store \<Rightarrow> fs_store \<Rightarrow> bool" where
  "emptied K J s s' \<longleftrightarrow> store_ok s' \<and> (\<forall>j. map_of (files s') j = (if j \<in> J then None else map_of (files s) j)) \<and>
     (\<forall>k. (k \<in> K \<longrightarrow> space_of k \<subseteq> J) \<and> (k \<notin> K \<longrightarrow> space_of k \<inter> J = {}))"

lemma emptied_others: "emptied K J s s' \<Longrightarrow> others_same J s s'"
  by (simp add: emptied_def others_same_def)

lemma tables_inv_delete:
  assumes "tables_inv L s tbs" and del: "emptied K J s s'"
    and tbs: "bt_ok tbs'" "\<And>k. bt_get tbs' k = (if k \<in> K then None else bt_get tbs k)"
  shows "tables_inv L s' tbs'" "rows_in L s' tbs' = (\<lambda>k. if k \<in> K then [] else rows_in L s tbs k)"
proof -
  note oth = emptied_others [OF del]
  have s': "store_ok s'" and apart: "\<And>k. k \<notin> K \<Longrightarrow> space_of k \<inter> J = {}" using del unfolding emptied_def by blast+
  have f: "settled L s' k tb \<and> table_rows L (s', tb) = table_rows L (s, tb)" if "bt_get tbs k = Some tb" "k \<notin> K" for k tb
    using settled_frame [OF tables_invD(3) [OF assms(1) that(1)] s' oth apart [OF that(2)]] by blast
  have v: "vacant s' (space_of k)" if k: "k \<in> K \<or> bt_get tbs k = None" for k
  proof (cases "k \<in> K")
    case True
    then have "space_of k \<subseteq> J" using del unfolding emptied_def by blast
    then show ?thesis using del by (auto simp: vacant_def emptied_def)
  next
    case False
    have "bt_get tbs k = None" using k False by simp
    then show ?thesis by (rule vacant_frame [OF tables_invD(4) [OF assms(1)] oth apart [OF False]])
  qed
  show "tables_inv L s' tbs'"
    by (rule tables_invI) (use tables_invD [OF assms(1)] tbs(1) f v in \<open>auto simp: tbs(2) split: if_splits\<close>)
  show "rows_in L s' tbs' = (\<lambda>k. if k \<in> K then [] else rows_in L s tbs k)"
    using f by (auto simp: rows_in_def tbs(2) fun_eq_iff split: option.splits)
qed

section \<open>What an operation may change\<close>

text \<open>
  \<open>keeps E D K e e'\<close>: \<open>e'\<close> satisfies the invariant and differs from \<open>e\<close> at most in the schemas of the
  databases \<open>D\<close>, the rows of the tables \<open>K\<close> and files outside the directories of all other tables.
\<close>

definition touched :: "table_key set \<Rightarrow> string set" where
  "touched K = {j. \<forall>k. j \<in> space_of k \<longrightarrow> k \<in> K}"

lemma touched_simps [simp]: "system_wal \<in> touched K" "k \<in> K \<Longrightarrow> space_of k \<subseteq> touched K"
proof -
  show "system_wal \<in> touched K" using system_wal_key(3) by (simp add: touched_def)
  have "k' \<in> K" if "k \<in> K" "j \<in> space_of k" "j \<in> space_of k'" for j k'
    using space_disjoint [of k k'] that by (cases "k = k'") auto
  then show "k \<in> K \<Longrightarrow> space_of k \<subseteq> touched K" by (auto simp: touched_def simp del: split_paired_All)
qed

lemma touched_mono: "K \<subseteq> K' \<Longrightarrow> touched K \<subseteq> touched K'"
  by (auto simp: touched_def)

definition keeps :: "engine_lib \<Rightarrow> (string \<times> string) set \<Rightarrow> table_key set \<Rightarrow> engine \<Rightarrow> engine \<Rightarrow> bool" where
  "keeps E D K e e' \<longleftrightarrow> engine_inv E e' \<and>
     (\<forall>x. x \<notin> D \<longrightarrow> catalog_abs (en_catalog e') x = catalog_abs (en_catalog e) x) \<and>
     (\<forall>k. k \<notin> K \<longrightarrow> engine_rows E e' k = engine_rows E e k) \<and>
     others_same (touched K) (en_store e) (en_store e')"

lemma keepsI:
  assumes "engine_inv E e'" "\<And>x. x \<notin> D \<Longrightarrow> catalog_abs (en_catalog e') x = catalog_abs (en_catalog e) x"
    "\<And>k. k \<notin> K \<Longrightarrow> engine_rows E e' k = engine_rows E e k"
    "others_same K' (en_store e) (en_store e')" "K' \<subseteq> touched K"
  shows "keeps E D K e e'"
  unfolding keeps_def using assms(1-3) others_same_mono [OF assms(4,5)] by blast

lemma keeps_refl: "engine_inv E e \<Longrightarrow> keeps E D K e e"
  by (simp add: keeps_def others_same_def)

lemma keeps_mono: "keeps E D K e e' \<Longrightarrow> D \<subseteq> D' \<Longrightarrow> K \<subseteq> K' \<Longrightarrow> keeps E D' K' e e'"
  unfolding keeps_def using others_same_mono [OF _ touched_mono [of K K']] by blast

lemma keeps_inv: "keeps E D K e e' \<Longrightarrow> engine_inv E e'"
  by (simp add: keeps_def)

lemma keeps_trans: "keeps E D K e e' \<Longrightarrow> keeps E D K e' e'' \<Longrightarrow> keeps E D K e e''"
  unfolding keeps_def using others_same_trans by fastforce

section \<open>Logging a catalog change\<close>

definition ddl_small :: "engine_lib \<Rightarrow> ddl_mutation \<Rightarrow> engine \<Rightarrow> bool" where
  "ddl_small E m e \<longleftrightarrow> (case ddl_record E m of Inl _ \<Rightarrow> True | Inr r \<Rightarrow> loggable (sl_wal (el_storage E)) (en_store e, en_log e) r)"

lemma as_ddl_record: "engine_lib_ok E \<Longrightarrow> ddl_record E m = Inr r \<Longrightarrow> \<exists>j. r = MDdl j \<and> as_ddl E r = Inr m"
  by (auto simp: ddl_record_def as_ddl_def engine_lib_ok_def result_simps)

lemma logs_catalog_snoc:
  assumes "logs_catalog E es c" "apply_ddl c m = Inr c'" "as_ddl E (entry_mutation x) = Inr m" "entry_mutation x = MDdl j"
  shows "logs_catalog E (es @ [x]) c'"
proof -
  obtain ms where ms: "logged_ddl E es = Inr ms" "replay_ddl ms = Inr c" using assms(1) by (auto simp: logs_catalog_def)
  have "logged_ddl E (es @ [x]) = Inr (ms @ [m])" using ms(1) assms(3,4) by (simp add: logged_ddl_def mapM_append)
  moreover have "replay_ddl (ms @ [m]) = Inr c'" using ddl.replay_snoc assms(2) ms(2) by (simp add: replay_ddl_def)
  ultimately show ?thesis by (auto simp: logs_catalog_def)
qed

lemma commit_ddl_cases:
  assumes lg: "ddl_logged E (en_store e) (en_log e) (en_catalog e)" and small: "ddl_small E m e"
  obtains (refused) err log' where "commit_ddl E m e = (Inl err, e\<lparr>en_log := log'\<rparr>)" "ddl_logged E (en_store e) log' (en_catalog e)"
  | (logged) s' log' c' where "commit_ddl E m e = (Inr (), e\<lparr>en_store := s', en_log := log', en_catalog := c'\<rparr>)"
    "apply_ddl (en_catalog e) m = Inr c'" "ddl_logged E s' log' c'" "others_same {system_wal} (en_store e) s'"
proof -
  let ?W = "sl_wal (el_storage E)"
  obtain es where L: "engine_lib_ok E" "store_ok (en_store e)" "log_key (en_log e) = system_wal"
    "log_holds ?W (en_store e, en_log e) es" "logs_catalog E es (en_catalog e)"
    using lg unfolding ddl_logged_def by blast
  show ?thesis
  proof (cases "apply_ddl (en_catalog e) m")
    case (Inl err)
    then have "commit_ddl E m e = (Inl err, e\<lparr>en_log := en_log e\<rparr>)" by (simp add: commit_ddl_def ebind_def asks_def)
    then show ?thesis by (rule refused [OF _ lg])
  next
    case (Inr c')
    show ?thesis
    proof (cases "ddl_record E m")
      case (Inl err)
      then have "commit_ddl E m e = (Inl err, e\<lparr>en_log := en_log e\<rparr>)"
        using Inr by (simp add: commit_ddl_def ebind_def asks_def lift_def)
      then show ?thesis by (rule refused [OF _ lg])
    next
      fix r assume r: "ddl_record E m = Inr r"
      obtain j where j: "r = MDdl j" "as_ddl E r = Inr m" using as_ddl_record [OF L(1) r] by blast
      have sm: "loggable ?W (en_store e, en_log e) r" using small r by (simp add: ddl_small_def)
      let ?x = "\<lparr>lsn = next_lsn (en_log e), entry_mutation = r\<rparr>"
      note app = log_append_cases [OF L(4) sm]
      show ?thesis
      proof (cases "fits_record ?W ?x")
        case False
        let ?log = "(en_log e)\<lparr>next_lsn := next_lsn (en_log e) + 1\<rparr>"
        have "commit_ddl E m e = (Inl BadRequest, e\<lparr>en_log := ?log\<rparr>)"
          using Inr r app False by (simp add: commit_ddl_def log_ddl_def ebind_def asks_def lift_def)
        moreover have "ddl_logged E (en_store e) ?log (en_catalog e)"
          using L unfolding ddl_logged_def by (auto simp: log_holds_def)
        ultimately show ?thesis by (rule refused)
      next
        case True
        let ?s = "sys_write (en_store e) (log_key (en_log e)) (wal_magic @ image ?W (es @ [?x]))"
        let ?log = "(en_log e)\<lparr>next_lsn := next_lsn (en_log e) + 1, last_lsn := next_lsn (en_log e)\<rparr>"
        have h: "log_holds ?W (?s, ?log) (es @ [?x])" by (rule holds_append [OF L(4) True])
        have done_it: "commit_ddl E m e = (Inr (), e\<lparr>en_store := ?s, en_log := ?log, en_catalog := c'\<rparr>)"
          using Inr r app True by (simp add: commit_ddl_def log_ddl_def ebind_def asks_def lift_def updates_def)
        have "logs_catalog E (es @ [?x]) c'" by (rule logs_catalog_snoc [OF L(5) Inr]) (use j in simp_all)
        moreover have "store_ok ?s" "log_key ?log = system_wal" using h L(3) by (simp_all add: log_holds_def)
        ultimately have "ddl_logged E ?s ?log c'" using h L(1) unfolding ddl_logged_def by blast
        moreover have "others_same {system_wal} (en_store e) ?s" using L(3) by (simp add: others_same_def)
        ultimately show ?thesis by (rule logged [OF done_it Inr])
      qed
    qed
  qed
qed

section \<open>Operations on one table\<close>

lemma engine_invI:
  assumes "ddl_logged E s lg c" "tables_inv (el_storage E) s tbs" "registered c tbs"
    "en_store e = s" "en_log e = lg" "en_catalog e = c" "en_tables e = tbs"
  shows "engine_inv E e"
  using assms by (simp add: engine_inv_parts)

text \<open>A table is replaced by a later state of it, with the files outside its directory as they were.\<close>

lemma replace_table:
  assumes inv: "engine_inv E e" and tb: "bt_get (en_tables e) k = Some tb"
    and new: "settled (el_storage E) s' k tb'" "ts_schema tb' = ts_schema tb" "others_same (space_of k) (en_store e) s'"
  defines "e' \<equiv> e\<lparr>en_store := s', en_tables := bt_insert k tb' (en_tables e)\<rparr>"
  shows "keeps E {} {k} e e'" "engine_rows E e' k = table_rows (el_storage E) (s', tb')"
proof -
  let ?L = "el_storage E"
  have P: "ddl_logged E (en_store e) (en_log e) (en_catalog e)" "tables_inv ?L (en_store e) (en_tables e)"
    "registered (en_catalog e) (en_tables e)" using inv by (simp_all add: engine_inv_parts)
  have s': "store_ok s'" using table_facts(4) [of ?L s' tb'] new(1) by (simp add: settled_def)
  note T = tables_inv_insert [OF P(2) s' new(3) tables_invD(2) [OF P(2) tb] new(1)]
  have "registered (en_catalog e) (bt_insert k tb' (en_tables e))"
    unfolding registered_def
  proof
    fix k' show "catalog_schema (en_catalog e) k' = map_option ts_schema (bt_get (bt_insert k tb' (en_tables e)) k')"
      using P(3) [unfolded registered_def, rule_format, of k'] bt_get_insert [OF tables_invD(1) [OF P(2)], of k tb' k'] tb new(2) by simp
  qed
  then have inv': "engine_inv E e'"
    using ddl_logged_frame [OF P(1) s' new(3) system_wal_key(3)] T(1) by (intro engine_invI) (simp_all add: e'_def)
  have rows: "engine_rows E e' = (engine_rows E e)(k := table_rows ?L (s', tb'))"
    using T(2) by (simp add: engine_rows_parts e'_def)
  have oth: "others_same (space_of k) (en_store e) (en_store e')" and cat: "en_catalog e' = en_catalog e"
    using new(3) by (simp_all add: e'_def)
  show "keeps E {} {k} e e'"
    by (rule keepsI [OF inv' _ _ oth]) (auto simp: rows cat)
  show "engine_rows E e' k = table_rows ?L (s', tb')" by (simp add: rows)
qed

lemma within_settled:
  assumes "settled L s k tb" "within_dir L (s, tb) (r, (s', tb'))"
  shows "settled L s' k tb'" "ts_schema tb' = ts_schema tb" "others_same (space_of k) s s'"
  using assms settled_dir [OF assms(1)] by (auto simp: within_dir_def settled_def same_shape_def)

lemma on_table_keeps:
  assumes inv: "engine_inv E e"
    and f: "\<And>tb. bt_get (en_tables e) k = Some tb \<Longrightarrow> within_dir (el_storage E) (en_store e, tb) (f (en_store e, tb))"
    and run: "on_table k f e = (r, e')"
  shows "keeps E {} {k} e e'"
proof (cases "bt_get (en_tables e) k")
  case None
  then show ?thesis using run keeps_refl [OF inv] by (simp add: on_table_def)
next
  case (Some tb)
  obtain r1 s' tb' where f1: "f (en_store e, tb) = (r1, (s', tb'))" by (metis prod_cases3)
  have w: "within_dir (el_storage E) (en_store e, tb) (r1, (s', tb'))" using f [OF Some] f1 by simp
  note W = within_settled [OF engine_invD(7) [OF inv Some] w]
  show ?thesis using replace_table(1) [OF inv Some W] run Some f1 by (simp add: on_table_def)
qed

text \<open>The context of a request and the names in it have been validated.\<close>

definition context_ok :: "request_context \<Rightarrow> bool" where
  "context_ok ctx \<longleftrightarrow> ident_ok (ctx_tenant ctx) \<and> (\<forall>d. ctx_database ctx = Some d \<longrightarrow> ident_ok d)"

lemma require_database_ok: "context_ok ctx \<Longrightarrow> require_database ctx = Inr d \<Longrightarrow> ident_ok d \<and> ctx_database ctx = Some d"
  by (auto simp: context_ok_def require_database_def result_simps split: option.splits)

lemma ebind_lift: "ebind (lift r) f e = (case r of Inl err \<Rightarrow> (Inl err, e) | Inr x \<Rightarrow> f x e)"
  by (cases r) (simp_all add: ebind_def lift_def)

lemma ebind_asks: "ebind (asks g) f e = (case g e of Inl err \<Rightarrow> (Inl err, e) | Inr x \<Rightarrow> f x e)"
  by (cases "g e") (simp_all add: ebind_def asks_def)

lemma lift_simps [simp]: "lift r e = (r, e)" "asks g e = (g e, e)" "updates h e = (Inr (), h e)"
  by (simp_all add: lift_def asks_def updates_def)

lemma refused_keeps:
  assumes "engine_inv E e" "ddl_logged E (en_store e) lg (en_catalog e)"
  shows "keeps E D K e (e\<lparr>en_log := lg\<rparr>)"
  using assms by (simp add: keeps_def engine_inv_parts engine_rows_parts others_same_def)

section \<open>Creating and dropping tables\<close>

text \<open>After a catalog change is logged: the tables are untouched.\<close>

lemma logged_parts:
  assumes "engine_inv E e" "ddl_logged E s' lg c'" "others_same {system_wal} (en_store e) s'"
  shows "tables_inv (el_storage E) s' (en_tables e)" "rows_in (el_storage E) s' (en_tables e) = engine_rows E e"
proof -
  have T: "tables_inv (el_storage E) (en_store e) (en_tables e)" using assms(1) by (simp add: engine_inv_parts)
  have s': "store_ok s'" using assms(2) by (simp add: ddl_logged_def)
  show "tables_inv (el_storage E) s' (en_tables e)" "rows_in (el_storage E) s' (en_tables e) = engine_rows E e"
    using tables_inv_wal [OF T s' assms(3)] by (simp_all add: engine_rows_parts)
qed

lemma apply_ddl_spec: "catalog_ok c \<Longrightarrow> apply_ddl c m = Inr c' \<Longrightarrow> ddl_spec (catalog_abs c) m = Inr (catalog_abs c')"
  using apply_ddl_refines [of c m] by simp

lemma schema_frame:
  assumes "catalog_abs c' (t, d) = catalog_abs c (t, d)"
  shows "catalog_schema c' (t, d, n) = catalog_schema c (t, d, n)"
  using assms by (simp add: catalog_schema_abs)

lemma create_database_keeps:
  assumes inv: "engine_inv E e" and small: "ddl_small E (CreateDatabase (ctx_tenant ctx) n) e"
    and run: "create_database E ctx n e = (r, e')"
  shows "keeps E {(ctx_tenant ctx, n)} {} e e'"
proof (cases "require_scope ctx DatabaseWrite")
  case (Inl err)
  then show ?thesis using run keeps_refl [OF inv] by (simp add: create_database_def ebind_lift)
next
  case (Inr u)
  let ?m = "CreateDatabase (ctx_tenant ctx) n"
  have P: "ddl_logged E (en_store e) (en_log e) (en_catalog e)" "registered (en_catalog e) (en_tables e)"
    using inv by (simp_all add: engine_inv_parts)
  have run: "commit_ddl E ?m e = (r, e')" using run Inr by (simp add: create_database_def ebind_lift)
  show ?thesis
  proof (cases rule: commit_ddl_cases [OF P(1) small])
    case (1 err lg)
    then show ?thesis using run refused_keeps [OF inv 1(2)] by simp
  next
    case (2 s' lg c')
    have sp: "ddl_spec (catalog_abs (en_catalog e)) ?m = Inr (catalog_abs c')" by (rule apply_ddl_spec [OF engine_catalog_ok [OF inv] 2(2)])
    then have abs: "catalog_abs c' = (catalog_abs (en_catalog e))((ctx_tenant ctx, n) \<mapsto> \<lambda>_. None)" "catalog_abs (en_catalog e) (ctx_tenant ctx, n) = None"
      by (auto split: if_splits)
    have same: "catalog_schema c' k = catalog_schema (en_catalog e) k" for k
      by (cases k) (simp add: catalog_schema_abs abs)
    have "engine_inv E e'"
      using run 2(1,3) logged_parts(1) [OF inv 2(3,4)] P(2) by (auto simp: engine_inv_parts registered_def same)
    moreover have "catalog_abs c' x = catalog_abs (en_catalog e) x" if "x \<noteq> (ctx_tenant ctx, n)" for x
      using ddl_spec_frame [OF sp] that by simp
    moreover have "engine_rows E e' = engine_rows E e" using run 2(1) logged_parts(2) [OF inv 2(3,4)] by (auto simp: engine_rows_parts)
    moreover have "others_same {system_wal} (en_store e) (en_store e')" "en_catalog e' = c'" using run 2(1,4) by auto
    ultimately show ?thesis by (intro keepsI [where K' = "{system_wal}"]) simp_all
  qed
qed

lemma create_table_keeps:
  assumes inv: "engine_inv E e" and ctx: "context_ok ctx" and name: "ident_ok (tname schema)"
    and small: "\<And>d. ctx_database ctx = Some d \<Longrightarrow> ddl_small E (CreateTable (ctx_tenant ctx) d schema) e"
    and run: "create_table E ctx schema e = (r, e')"
  shows "(\<exists>err. r = Inl err \<and> keeps E {} {} e e') \<or>
    (\<exists>d. ctx_database ctx = Some d \<and> r = Inr schema \<and> keeps E {(ctx_tenant ctx, d)} {(ctx_tenant ctx, d, tname schema)} e e' \<and>
       catalog_schema (en_catalog e') (ctx_tenant ctx, d, tname schema) = Some schema \<and>
       engine_rows E e' (ctx_tenant ctx, d, tname schema) = [])"
proof (cases "require_scope ctx SchemaWrite")
  case (Inl err)
  then show ?thesis using run keeps_refl [OF inv] by (auto simp: create_table_def ebind_lift)
next
  case (Inr u)
  note scope = Inr
  show ?thesis
  proof (cases "require_database ctx")
    case (Inl err)
    then show ?thesis using run keeps_refl [OF inv] scope by (auto simp: create_table_def ebind_lift)
  next
    case (Inr d)
    note db = Inr
    have d: "ident_ok d" "ctx_database ctx = Some d" using require_database_ok [OF ctx Inr] by simp_all
    let ?t = "ctx_tenant ctx" and ?m = "CreateTable (ctx_tenant ctx) d schema" and ?k = "(ctx_tenant ctx, d, tname schema)"
    let ?L = "el_storage E"
    have ki: "key_idents ?k" using ctx d(1) name by (simp add: key_idents_def context_ok_def)
    have P: "ddl_logged E (en_store e) (en_log e) (en_catalog e)" "registered (en_catalog e) (en_tables e)"
      using inv by (simp_all add: engine_inv_parts)
    show ?thesis
    proof (cases "validate_schema schema")
      case (Inl err)
      then show ?thesis using run keeps_refl [OF inv] scope db by (auto simp: create_table_def ebind_lift)
    next
      case (Inr w)
      then have valid: "schema_ok schema" by (simp add: validate_schema_iff)
      show ?thesis
      proof (cases rule: commit_ddl_cases [OF P(1) small [OF d(2)]])
        case (1 err lg)
        then show ?thesis using run refused_keeps [OF inv 1(2)] scope db Inr by (auto simp: create_table_def ebind_lift ebind_def)
      next
        case (2 s' lg c')
        let ?e1 = "e\<lparr>en_store := s', en_log := lg, en_catalog := c'\<rparr>"
        have sp: "ddl_spec (catalog_abs (en_catalog e)) ?m = Inr (catalog_abs c')" by (rule apply_ddl_spec [OF engine_catalog_ok [OF inv] 2(2)])
        then obtain T where abs: "catalog_abs (en_catalog e) (?t, d) = Some T" "T (tname schema) = None"
          "catalog_abs c' = (catalog_abs (en_catalog e))((?t, d) \<mapsto> T(tname schema \<mapsto> schema))"
          by (auto simp: result_simps split: option.splits if_splits)
        have cs: "catalog_schema c' k = (if k = ?k then Some schema else catalog_schema (en_catalog e) k)" for k
          by (cases k) (auto simp: catalog_schema_abs abs(3) abs(1) split: if_splits)
        have "catalog_schema (en_catalog e) ?k = None" by (simp add: catalog_schema_abs abs)
        then have none: "bt_get (en_tables e) ?k = None" using P(2) by (simp add: registered_def)
        note LP = logged_parts [OF inv 2(3,4)]
        have s': "store_ok s'" and lib: "storage_ok ?L" using 2(3) by (simp_all add: ddl_logged_def engine_lib_ok_def)
        have disk: "table_disk ?L (en_store ?e1) ?k schema []" and ok1: "store_ok (en_store ?e1)"
          using fresh_disk [OF lib s' valid ki tables_invD(4) [OF LP(1) none]] s' by simp_all
        obtain s2 tb where o: "open_one E ?k schema ?e1 = (Inr (), ?e1\<lparr>en_store := s2, en_tables := bt_insert ?k tb (en_tables ?e1)\<rparr>)"
          "settled ?L s2 ?k tb" "ts_schema tb = schema" "table_rows ?L (s2, tb) = []" "others_same (space_of ?k) (en_store ?e1) s2"
          by (rule open_one_ok [OF disk ok1])
        let ?e2 = "?e1\<lparr>en_store := s2, en_tables := bt_insert ?k tb (en_tables ?e1)\<rparr>"
        have s2: "store_ok s2" using table_facts(4) [of ?L s2 tb] o(2) by (simp add: settled_def)
        have oth: "others_same (space_of ?k) s' s2" using o(5) by simp
        note T = tables_inv_insert [OF LP(1) s2 oth ki o(2)]
        have "lookup_table c' ?t d (tname schema) = Inr schema"
          using cs [of ?k] by (auto simp: catalog_schema_def split: sum.splits)
        then have r: "r = Inr schema" "e' = ?e2" using run scope db Inr 2(1) o(1) by (simp_all add: create_table_def ebind_lift ebind_def)
        have reg: "registered c' (bt_insert ?k tb (en_tables e))"
          unfolding registered_def cs bt_get_insert [OF tables_invD(1) [OF LP(1)]] using P(2) o(3) by (simp add: registered_def)
        have "engine_inv E e'"
          unfolding r(2) by (rule engine_invI [OF ddl_logged_frame [OF 2(3) s2 oth system_wal_key(3)] T(1) reg]) simp_all
        moreover have rows: "engine_rows E e' = (engine_rows E e)(?k := [])" using T(2) LP(2) o(4) by (simp add: engine_rows_parts r(2))
        moreover have "catalog_abs (en_catalog e') x = catalog_abs (en_catalog e) x" if "x \<notin> {(?t, d)}" for x
          using ddl_spec_frame [OF sp] that by (simp add: r(2))
        moreover have "others_same ({system_wal} \<union> space_of ?k) (en_store e) (en_store e')"
          using others_same_trans [OF 2(4) oth] by (simp add: r(2))
        ultimately have "keeps E {(?t, d)} {?k} e e'" by (intro keepsI [where K' = "{system_wal} \<union> space_of ?k"]) auto
        moreover have "catalog_schema (en_catalog e') ?k = Some schema" by (simp add: r(2) cs)
        ultimately show ?thesis using r(1) d(2) rows by simp
      qed
    qed
  qed
qed

text \<open>Removing the tables \<open>K\<close> with everything below their directories, after the change is logged.\<close>

lemma remove_tables:
  assumes inv: "engine_inv E e" and lg: "ddl_logged E s1 lg c'" "others_same {system_wal} (en_store e) s1"
    and abs: "\<And>x. x \<notin> D \<Longrightarrow> catalog_abs c' x = catalog_abs (en_catalog e) x"
    and gone: "\<And>k. catalog_schema c' k = (if k \<in> K then None else catalog_schema (en_catalog e) k)"
    and del: "emptied K J s1 s2" "system_wal \<notin> J"
    and tbs: "bt_ok tbs" "\<And>k. bt_get tbs k = (if k \<in> K then None else bt_get (en_tables e) k)"
    and e': "en_store e' = s2" "en_log e' = lg" "en_catalog e' = c'" "en_tables e' = tbs"
  shows "keeps E D K e e'" "k \<in> K \<Longrightarrow> vacant (en_store e') (space_of k)"
proof -
  note LP = logged_parts [OF inv lg]
  note T = tables_inv_delete [OF LP(1) del(1) tbs]
  note oth = emptied_others [OF del(1)]
  have s2: "store_ok s2" using del(1) by (simp add: emptied_def)
  have "registered c' tbs"
    unfolding registered_def gone tbs(2) using engine_invD(5) [OF inv] by simp
  then have inv': "engine_inv E e'"
    using ddl_logged_frame [OF lg(1) s2 oth del(2)] T(1) e' by (intro engine_invI)
  have rows: "engine_rows E e' = (\<lambda>k. if k \<in> K then [] else engine_rows E e k)"
    using T(2) unfolding LP(2) by (simp add: engine_rows_parts [of E e'] e')
  have "j \<in> touched K" if "j \<in> J" for j
  proof -
    have "k \<in> K" if "j \<in> space_of k" for k using del(1) that \<open>j \<in> J\<close> unfolding emptied_def by blast
    then show ?thesis by (simp add: touched_def)
  qed
  then have sub: "{system_wal} \<union> J \<subseteq> touched K" by auto
  have all: "others_same ({system_wal} \<union> J) (en_store e) (en_store e')"
    using others_same_trans [OF lg(2) oth] by (simp add: e')
  show "keeps E D K e e'" by (rule keepsI [OF inv' _ _ all sub]) (use abs in \<open>auto simp: rows e'\<close>)
  show "vacant (en_store e') (space_of k)" if "k \<in> K"
    using engine_invD(8) [OF inv', of k] that by (simp add: e' tbs(2))
qed

lemma drop_table_keeps:
  assumes inv: "engine_inv E e" and ctx: "context_ok ctx" and name: "ident_ok n"
    and small: "\<And>d. ctx_database ctx = Some d \<Longrightarrow> ddl_small E (DropTable (ctx_tenant ctx) d n) e"
    and run: "drop_table E ctx n e = (r, e')"
  shows "(\<exists>err. r = Inl err \<and> keeps E {} {} e e') \<or>
    (\<exists>d. ctx_database ctx = Some d \<and> r = Inr () \<and> keeps E {(ctx_tenant ctx, d)} {(ctx_tenant ctx, d, n)} e e' \<and>
       catalog_schema (en_catalog e') (ctx_tenant ctx, d, n) = None \<and> vacant (en_store e') (space_of (ctx_tenant ctx, d, n)))"
proof (cases "require_scope ctx SchemaWrite")
  case (Inl err)
  then have "r = Inl err" "e' = e" using run by (simp_all add: drop_table_def ebind_lift)
  then show ?thesis using keeps_refl [OF inv] by simp
next
  case (Inr u)
  note scope = Inr
  show ?thesis
  proof (cases "require_database ctx")
    case (Inl err)
    then have "r = Inl err" "e' = e" using run scope by (simp_all add: drop_table_def ebind_lift)
    then show ?thesis using keeps_refl [OF inv] by simp
  next
    case (Inr d)
    note db = Inr
    have d: "ident_ok d" "ctx_database ctx = Some d" using require_database_ok [OF ctx Inr] by simp_all
    let ?t = "ctx_tenant ctx" and ?m = "DropTable (ctx_tenant ctx) d n" and ?k = "(ctx_tenant ctx, d, n)"
    have ki: "key_idents ?k" using ctx d(1) name by (simp add: key_idents_def context_ok_def)
    have P: "ddl_logged E (en_store e) (en_log e) (en_catalog e)" using inv by (simp add: engine_inv_parts)
    show ?thesis
    proof (cases "lookup_table (en_catalog e) ?t d n")
      case (Inl err)
      then have "r = Inl err" "e' = e" using run scope db by (simp_all add: drop_table_def ebind_lift ebind_asks)
      then show ?thesis using keeps_refl [OF inv] by simp
    next
      case (Inr schema)
      then have "catalog_schema (en_catalog e) ?k = Some schema" by (simp add: catalog_schema_def)
      then obtain tb where tb: "bt_get (en_tables e) ?k = Some tb" using engine_invD(5) [OF inv, of ?k] by auto
      have home: "table_prefix (ts_tenant tb) (ts_database tb) (tname (ts_schema tb)) = dir_prefix ?k"
        using engine_invD(7) [OF inv tb] by (simp add: settled_def dir_prefix_def)
      show ?thesis
      proof (cases rule: commit_ddl_cases [OF P small [OF d(2)]])
        case (1 err lg)
        then have "r = Inl err" "e' = e\<lparr>en_log := lg\<rparr>"
          using run scope db Inr by (simp_all add: drop_table_def ebind_lift ebind_asks) (simp_all add: ebind_def)
        then show ?thesis using refused_keeps [OF inv 1(2)] by simp
      next
        case (2 s1 lg c')
        have sp: "ddl_spec (catalog_abs (en_catalog e)) ?m = Inr (catalog_abs c')" by (rule apply_ddl_spec [OF engine_catalog_ok [OF inv] 2(2)])
        then obtain T where abs: "catalog_abs (en_catalog e) (?t, d) = Some T"
          "catalog_abs c' = (catalog_abs (en_catalog e))((?t, d) \<mapsto> T(n := None))"
          by (auto split: option.splits if_splits)
        have cs: "catalog_schema c' k = (if k \<in> {?k} then None else catalog_schema (en_catalog e) k)" for k
          by (cases k) (auto simp: catalog_schema_abs abs split: if_splits)
        obtain s2 where s2: "store_delete_prefix s1 (dir_prefix ?k) = Inr s2" "store_ok s2"
          "\<And>j. map_of (files s2) j = (if j \<in> space_of ?k then None else map_of (files s1) j)"
          using delete_dir [OF _ ki, of s1] 2(3) by (auto simp: ddl_logged_def)
        have get: "bt_get (bt_remove ?k (en_tables e)) k = (if k \<in> {?k} then None else bt_get (en_tables e) k)" for k
          by (simp add: bt_get_remove)
        have e': "r = Inr ()" "e' = e\<lparr>en_log := lg, en_catalog := c', en_tables := bt_remove ?k (en_tables e), en_store := s2\<rparr>"
          using run scope db Inr 2(1) tb s2(1) home
          by (simp_all add: drop_table_def ebind_lift ebind_asks) (simp_all add: ebind_def remove_table_def table_destroy_def Let_def)
        have emp: "emptied {?k} (space_of ?k) s1 s2" using s2(2,3) space_disjoint by (simp add: emptied_def)
        have "keeps E {(?t, d)} {?k} e e'"
          by (rule remove_tables(1) [OF inv 2(3,4) _ cs emp system_wal_key(3) bt_ok_remove [OF engine_invD(4) [OF inv]] get])
            (use ddl_spec_frame [OF sp] in \<open>auto simp: e'(2)\<close>)
        moreover have "vacant (en_store e') (space_of ?k)" using s2(3) by (simp add: vacant_def e'(2))
        ultimately show ?thesis using e'(1) d(2) cs [of ?k] by (simp add: e'(2))
      qed
    qed
  qed
qed

section \<open>Dropping a database\<close>

definition in_database :: "string \<Rightarrow> string \<Rightarrow> table_key set" where
  "in_database t d = {(t, d, n) | n. True}"

lemma database_space:
  assumes "ident_ok t" "ident_ok d" "under (database_prefix t d) j" "j \<in> space_of k"
  shows "k \<in> in_database t d"
  using assms(3,4) unfolding database_under [OF assms(1,2)]
  by (cases k) (auto simp: space_of_def table_dir_def key_parts_def prefix_def in_database_def)

lemma space_database: "ident_ok t \<Longrightarrow> ident_ok d \<Longrightarrow> k \<in> in_database t d \<Longrightarrow> j \<in> space_of k \<Longrightarrow> under (database_prefix t d) j"
  by (auto simp: database_under in_database_def space_of_def table_dir_def key_parts_def prefix_def)

lemma delete_database:
  assumes "store_ok s" "ident_ok t" "ident_ok d"
  obtains s' where "store_delete_prefix s (database_prefix t d) = Inr s'" "store_ok s'"
    "\<And>j. map_of (files s') j = (if under (database_prefix t d) j then None else map_of (files s) j)"
proof -
  let ?p = "database_prefix t d"
  have dot: "CHR ''.'' \<notin> set ?p" using assms(2,3) [THEN ident_ok_no_dot] by (simp add: database_prefix_def)
  have "list_all plain_part (split_on CHR ''/'' ?p)"
    using assms(2,3) [THEN ident_plain] split_key(2) [OF assms(2,3,3)] by (auto simp: plain_part_def)
  then have "\<forall>c \<in> set (split_on CHR ''/'' ?p). c \<noteq> [] \<and> c \<noteq> ''.'' \<and> c \<noteq> ''..''"
    by (fastforce simp: list_all_iff plain_part_def)
  moreover have "?p \<noteq> []" by (simp add: database_prefix_def)
  ultimately have "validate_key ?p = Inr ()" by (simp add: validate_key_iff)
  moreover have "\<not> is_file s ?p"
    using assms(1) dot object_key_dot by (force simp: is_file_def store_ok_def dest: map_of_SomeD)
  ultimately have "\<exists>s'. store_delete_prefix s ?p = Inr s'" by (simp add: store_delete_prefix_def)
  then obtain s' where s': "store_delete_prefix s ?p = Inr s'" by blast
  show ?thesis by (rule that [OF s']) (use delete_prefix_spec [OF assms(1) dot s'] in simp_all)
qed

lemma removed_tables:
  "bt_ok m \<Longrightarrow> bt_ok (foldl (\<lambda>m s. bt_remove (g s) m) m xs) \<and>
   bt_get (foldl (\<lambda>m s. bt_remove (g s) m) m xs) k = (if k \<in> g ` set xs then None else bt_get m k)"
  by (induction xs arbitrary: m) (auto simp: bt_ok_remove bt_get_remove)

lemma list_tables_set:
  assumes "catalog_ok c" "list_tables c t d = Inr ts"
  shows "n \<in> tname ` set ts \<longleftrightarrow> catalog_schema c (t, d, n) \<noteq> None"
proof -
  obtain db where db: "database c t d = Inr db" "ts = bt_values (tables db)" using assms(2) by (auto simp: list_tables_def rbind_Inr_iff)
  have ok: "bt_ok (tables db)" "\<And>n s. bt_get (tables db) n = Some s \<Longrightarrow> tname s = n"
    using database_wf [OF assms(1) db(1)] by (auto simp: database_ok_def table_entry_ok_def)
  have "n \<in> tname ` set ts \<longleftrightarrow> (\<exists>m s. bt_get (tables db) m = Some s \<and> tname s = n)"
    using bt_set_get [OF ok(1)] by (force simp: db(2) bt_values_def)
  also have "\<dots> \<longleftrightarrow> bt_get (tables db) n \<noteq> None" using ok(2) by auto
  also have "\<dots> \<longleftrightarrow> catalog_schema c (t, d, n) \<noteq> None"
    by (cases "bt_get (tables db) n") (simp_all add: catalog_schema_def lookup_table_def db(1))
  finally show ?thesis .
qed

lemma drop_database_keeps:
  assumes inv: "engine_inv E e" and ctx: "context_ok ctx" and name: "ident_ok n"
    and small: "ddl_small E (DropDatabase (ctx_tenant ctx) n) e"
    and run: "drop_database E ctx n cascade e = (r, e')"
  shows "(\<exists>err. r = Inl err \<and> keeps E {} {} e e') \<or>
    (is_ok r \<and> keeps E {(ctx_tenant ctx, n)} (in_database (ctx_tenant ctx) n) e e' \<and>
       catalog_abs (en_catalog e') (ctx_tenant ctx, n) = None \<and> (\<forall>k \<in> in_database (ctx_tenant ctx) n. vacant (en_store e') (space_of k)))"
proof (cases "require_scope ctx DatabaseWrite")
  case (Inl err)
  then have "r = Inl err" "e' = e" using run by (simp_all add: drop_database_def ebind_lift)
  then show ?thesis using keeps_refl [OF inv] by simp
next
  case (Inr u)
  note scope = Inr
  let ?t = "ctx_tenant ctx" and ?m = "DropDatabase (ctx_tenant ctx) n" and ?K = "in_database (ctx_tenant ctx) n"
  have t: "ident_ok ?t" using ctx by (simp add: context_ok_def)
  have P: "ddl_logged E (en_store e) (en_log e) (en_catalog e)" using inv by (simp add: engine_inv_parts)
  show ?thesis
  proof (cases "list_tables (en_catalog e) ?t n")
    case (Inl err)
    then have "r = Inl err" "e' = e" using run scope by (simp_all add: drop_database_def ebind_lift ebind_asks)
    then show ?thesis using keeps_refl [OF inv] by simp
  next
    case (Inr ts)
    note ts = Inr
    show ?thesis
    proof (cases "ts \<noteq> [] \<and> \<not> cascade")
      case True
      then have "r = Inl BadRequest" "e' = e" using run scope ts by (simp_all add: drop_database_def ebind_lift ebind_asks)
      then show ?thesis using keeps_refl [OF inv] by simp
    next
      case False
      show ?thesis
      proof (cases rule: commit_ddl_cases [OF P small])
        case (1 err lg)
        then have "r = Inl err" "e' = e\<lparr>en_log := lg\<rparr>"
          using run scope ts False by (auto simp: drop_database_def ebind_lift ebind_asks ebind_def [of "commit_ddl E ?m"])
        then show ?thesis using refused_keeps [OF inv 1(2)] by simp
      next
        case (2 s1 lg c')
        have sp: "ddl_spec (catalog_abs (en_catalog e)) ?m = Inr (catalog_abs c')" by (rule apply_ddl_spec [OF engine_catalog_ok [OF inv] 2(2)])
        then have abs: "catalog_abs c' = (catalog_abs (en_catalog e))((?t, n) := None)" by (auto split: if_splits)
        have cs: "catalog_schema c' k = (if k \<in> ?K then None else catalog_schema (en_catalog e) k)" for k
          by (cases k) (auto simp: catalog_schema_abs abs in_database_def)
        have s1: "store_ok s1" using 2(3) by (simp add: ddl_logged_def)
        obtain s2 where s2: "store_delete_prefix s1 (database_prefix ?t n) = Inr s2" "store_ok s2"
          "\<And>j. map_of (files s2) j = (if under (database_prefix ?t n) j then None else map_of (files s1) j)"
          by (rule delete_database [OF s1 t name]) (rule that; assumption)
        let ?g = "\<lambda>s. (?t, n, tname s)"
        let ?tbs = "foldl (\<lambda>m s. bt_remove (?g s) m) (en_tables e) ts"
        note rm = removed_tables [OF engine_invD(4) [OF inv], of ?g ts]
        have get: "bt_get ?tbs k = (if k \<in> ?K then None else bt_get (en_tables e) k)" for k
        proof -
          have "bt_get (en_tables e) (?t, n, m) = None" if "m \<notin> tname ` set ts" for m
            using list_tables_set [OF engine_catalog_ok [OF inv] ts, of m] that engine_invD(5) [OF inv, of "(?t, n, m)"] by simp
          then show ?thesis using rm [of k] by (cases k) (auto simp: in_database_def image_iff)
        qed
        have e': "r = Inr (length ts)" "e' = e\<lparr>en_log := lg, en_catalog := c', en_tables := ?tbs, en_store := s2\<rparr>"
          using run scope ts False 2(1) s2(1)
          by (auto simp: drop_database_def ebind_lift ebind_asks ebind_def [of "commit_ddl E ?m"] ebind_def [of "updates _"]
              ebind_def [of "delete_files _"] delete_files_def)
        have emp: "emptied ?K {j. under (database_prefix ?t n) j} s1 s2"
          using s2(2,3) database_space [OF t name] space_database [OF t name] unfolding emptied_def mem_Collect_eq
          by (intro conjI allI impI equals0I subsetI CollectI) (assumption | blast)+
        have wal: "system_wal \<notin> {j. under (database_prefix ?t n) j}"
          by (auto simp: under_def system_wal_def database_prefix_def prefix_def)
        have rt: "keeps E {(?t, n)} ?K e e'" "\<And>k. k \<in> ?K \<Longrightarrow> vacant (en_store e') (space_of k)"
          by (rule remove_tables [OF inv 2(3,4) _ cs emp wal rm [THEN conjunct1] get];
              use ddl_spec_frame [OF sp] in \<open>auto simp: e'(2)\<close>)+
        then show ?thesis using e' by (simp add: abs)
      qed
    qed
  qed
qed

section \<open>Changing a schema\<close>

lemma evolves_version: "evolves old new \<Longrightarrow> evolves old (new\<lparr>version := v\<rparr>)"
  unfolding check_evolution_iff by (simp add: column_def)

lemma open_table_some:
  assumes "require_database ctx = Inr d" "bt_get (en_tables e) (ctx_tenant ctx, d, n) = Some tb"
  shows "open_table ctx n e = (Inr ((ctx_tenant ctx, d, n), tb), e)"
  unfolding open_table_def ebind_lift using assms by (simp add: Let_def)

lemma update_schema_keeps:
  assumes inv: "engine_inv E e" and ctx: "context_ok ctx"
    and small: "\<And>d. ctx_database ctx = Some d \<Longrightarrow> ddl_small E (UpdateSchema (ctx_tenant ctx) d schema) e"
    and run: "update_schema E ctx schema e = (r, e')"
  shows "(\<exists>err. r = Inl err \<and> keeps E {} {} e e') \<or>
    (\<exists>d old new. ctx_database ctx = Some d \<and> r = Inr new \<and> new = schema\<lparr>version := version old + 1\<rparr> \<and>
       catalog_schema (en_catalog e) (ctx_tenant ctx, d, tname schema) = Some old \<and> evolves old new \<and>
       keeps E {(ctx_tenant ctx, d)} {(ctx_tenant ctx, d, tname schema)} e e' \<and>
       catalog_schema (en_catalog e') (ctx_tenant ctx, d, tname schema) = Some new \<and>
       mset (engine_rows E e' (ctx_tenant ctx, d, tname schema)) =
         mset (map (widen old new) (engine_rows E e (ctx_tenant ctx, d, tname schema))))"
proof (cases "require_scope ctx SchemaWrite")
  case (Inl err)
  then have "r = Inl err" "e' = e" using run by (simp_all add: update_schema_def ebind_lift)
  then show ?thesis using keeps_refl [OF inv] by simp
next
  case (Inr u)
  note scope = Inr
  show ?thesis
  proof (cases "require_database ctx")
    case (Inl err)
    then have "r = Inl err" "e' = e" using run scope by (simp_all add: update_schema_def ebind_lift)
    then show ?thesis using keeps_refl [OF inv] by simp
  next
    case (Inr d)
    note db = Inr
    have d: "ctx_database ctx = Some d" using require_database_ok [OF ctx Inr] by simp
    let ?L = "el_storage E"
    let ?t = "ctx_tenant ctx" and ?m = "UpdateSchema (ctx_tenant ctx) d schema" and ?k = "(ctx_tenant ctx, d, tname schema)"
    have P: "ddl_logged E (en_store e) (en_log e) (en_catalog e)" using inv by (simp add: engine_inv_parts)
    show ?thesis
    proof (cases rule: commit_ddl_cases [OF P small [OF d]])
      case (1 err lg)
      then have "r = Inl err" "e' = e\<lparr>en_log := lg\<rparr>"
        using run scope db by (simp_all add: update_schema_def ebind_lift ebind_def [of "commit_ddl E ?m"])
      then show ?thesis using refused_keeps [OF inv 1(2)] by simp
    next
      case (2 s1 lg c')
      have sp: "ddl_spec (catalog_abs (en_catalog e)) ?m = Inr (catalog_abs c')" by (rule apply_ddl_spec [OF engine_catalog_ok [OF inv] 2(2)])
      then obtain T old where abs: "catalog_abs (en_catalog e) (?t, d) = Some T" "T (tname schema) = Some old" "evolves old schema"
        "catalog_abs c' = (catalog_abs (en_catalog e))((?t, d) \<mapsto> T(tname schema \<mapsto> schema\<lparr>version := version old + 1\<rparr>))"
        by (auto simp: rbind_Inr_iff split: option.splits)
      let ?new = "schema\<lparr>version := version old + 1\<rparr>"
      have ev: "evolves old ?new" by (rule evolves_version [OF abs(3)])
      have cs: "catalog_schema c' k = (if k = ?k then Some ?new else catalog_schema (en_catalog e) k)" for k
        by (cases k) (auto simp: catalog_schema_abs abs(1,4))
      have old: "catalog_schema (en_catalog e) ?k = Some old" by (simp add: catalog_schema_abs abs(1,2))
      then obtain tb where tb: "bt_get (en_tables e) ?k = Some tb" "ts_schema tb = old" using engine_invD(5) [OF inv, of ?k] by auto
      note LP = logged_parts [OF inv 2(3,4)]
      have st: "settled ?L s1 ?k tb" by (rule tables_invD(3) [OF LP(1) tb(1)])
      obtain s2 tb' where ts: "table_set_schema ?L ?new (s1, tb) = (Inr (), (s2, tb'))" "table_sound ?L (s2, tb')"
        "ts_schema tb' = ?new" "ts_tenant tb' = ts_tenant tb" "ts_database tb' = ts_database tb"
        "length (ts_partitions tb') = length (ts_partitions tb)"
        "mset (table_rows ?L (s2, tb')) = mset (map (widen (ts_schema tb) ?new) (table_rows ?L (s1, tb)))"
        "others_same (dir_of tb) s1 s2"
        by (rule table_evolve [of ?L s1 tb ?new]) (use st ev tb(2) in \<open>simp_all add: settled_def\<close>)
      have st2: "settled ?L s2 ?k tb'"
        using st ts(2-6) evolvesD(2,4) [OF ev] tb(2) by (simp add: settled_def)
      have oth: "others_same (space_of ?k) s1 s2" using ts(8) settled_dir [OF st] by simp
      have s2: "store_ok s2" using table_facts(4) [OF ts(2)] .
      note T = tables_inv_insert [OF LP(1) s2 oth engine_invD(6) [OF inv tb(1)] st2]
      have "lookup_table c' ?t d (tname schema) = Inr ?new"
        using cs [of ?k] by (auto simp: catalog_schema_def split: sum.splits)
      then have e': "r = Inr ?new" "e' = e\<lparr>en_log := lg, en_catalog := c', en_store := s2, en_tables := bt_insert ?k tb' (en_tables e)\<rparr>"
        using run scope db 2(1) tb(1) ts(1)
        by (simp_all add: update_schema_def ebind_lift ebind_asks ebind_def [of "commit_ddl E ?m"])
          (simp_all add: ebind_def open_table_some on_table_def)
      have ec: "en_catalog e' = c'" "en_store e' = s2" by (simp_all add: e'(2))
      have reg: "registered c' (bt_insert ?k tb' (en_tables e))"
        unfolding registered_def cs bt_get_insert [OF tables_invD(1) [OF LP(1)]] using engine_invD(5) [OF inv] ts(3) by simp
      have inv': "engine_inv E e'"
        by (rule engine_invI [OF ddl_logged_frame [OF 2(3) s2 oth system_wal_key(3)] T(1) reg]) (simp_all add: e'(2))
      have rows: "engine_rows E e' = (engine_rows E e)(?k := table_rows ?L (s2, tb'))"
        using T(2) unfolding LP(2) engine_rows_parts [of E e'] by (simp add: e'(2))
      have all: "others_same ({system_wal} \<union> space_of ?k) (en_store e) (en_store e')"
        using others_same_trans [OF 2(4) oth] by (simp add: e'(2))
      have "keeps E {(?t, d)} {?k} e e'"
        by (rule keepsI [OF inv' _ _ all]) (use ddl_spec_frame [OF sp] in \<open>auto simp: rows ec\<close>)
      moreover have "table_rows ?L (s1, tb) = engine_rows E e ?k"
        using fun_cong [OF LP(2), of ?k] tb(1) by (simp add: rows_in_def)
      ultimately show ?thesis using e'(1) d old ev cs [of ?k] rows ts(7) tb(2) by (simp add: ec)
    qed
  qed
qed

end
