(* ===== verification/Spec2Isabelle.thy ===== *)
theory Spec2Isabelle
  imports Values ObjectStore Context Catalog B64 Bloom WalRecovery Segment Compaction PartitionProps TableTheorems ValidateTheorems LowerTheorems EvalTheorems AggTheorems RequestTheorems EngineOps
begin

text \<open>
  A model of agedb, a multi-tenant embedded analytics database written in Rust
  (\<open>crates/adb-*\<close>). A tenant's databases hold tables of typed columns; a table is split into
  partitions by the hash of its primary key; a partition keeps recent rows in a memtable backed by
  a write-ahead log, older rows in immutable Parquet segments, and a manifest that publishes which
  segments are live. Queries are plans, written as JSON or derived from a question, that are
  validated, optimised, pruned against segment statistics and executed over snapshots.

  Theories, in the order of the code's layers:
  \<^item> \<open>Prelude\<close>: results, combinators, list lemmas and the generic locales \<open>cmp_order\<close> and \<open>replayed\<close>.
  \<^item> \<open>Errors\<close>, \<open>Float64\<close>, \<open>Values\<close>: \<open>adb-core/src/error.rs\<close> and \<open>types.rs\<close>; IEEE doubles by
    their bits.
  \<^item> \<open>Ids\<close>: \<open>ids.rs\<close> and \<open>adb-storage/src/paths.rs\<close>.
  \<^item> \<open>Schema\<close>, \<open>Catalog\<close>, \<open>Context\<close>: \<open>schema.rs\<close>, \<open>catalog.rs\<close>, \<open>context.rs\<close> and
    \<open>adb-mcp/src/auth.rs\<close>. \<open>Maps\<close> gives the maps of the standard library the interface \<open>finite_map\<close>.
  \<^item> \<open>Bytes\<close>, \<open>B64\<close>, \<open>Bloom\<close>, \<open>Codec\<close>: bytes and little-endian words, \<open>b64.rs\<close>, \<open>hash.rs\<close> and
    \<open>bloom.rs\<close>; concrete codecs for the witnesses.
  \<^item> \<open>ObjectStore\<close>: \<open>object_store.rs\<close> over a directory tree, with crash states.
  \<^item> \<open>Wal\<close>, \<open>WalRecovery\<close>: \<open>wal.rs\<close>.
  \<^item> \<open>Batch\<close>, \<open>Segment\<close>, \<open>Compaction\<close>, \<open>Partition\<close>: \<open>rows.rs\<close>, \<open>segment.rs\<close>, \<open>compaction.rs\<close>,
    \<open>memtable.rs\<close>, \<open>keyindex.rs\<close>, \<open>manifest.rs\<close> and \<open>table.rs\<close>.
  \<^item> \<open>PartitionView\<close>: the rows a partition state shows and the specification of upserts and deletes;
    \<open>PartitionOps\<close>: the invariant \<open>part_inv\<close> and appending; \<open>PartitionFlush\<close>, \<open>PartitionDisk\<close>,
    \<open>PartitionMerge\<close>: writing a segment, publishing a manifest, merging segments;
    \<open>PartitionRecovery\<close>: what is on disk (\<open>disk_ok\<close>, \<open>durable\<close>) and that opening restores it;
    \<open>PartitionSafety\<close>, \<open>PartitionTheorems\<close>: every operation keeps a partition durable;
    \<open>PartitionCrash\<close>: so does every prefix of its disk effects; \<open>PartitionDemo\<close>: concrete codecs and
    a concrete partition; \<open>PartitionProps\<close>: the properties.
  \<^item> \<open>Table\<close>: \<open>TableStore\<close> of \<open>table.rs\<close>; \<open>TableInv\<close>: the invariant of a table and running an operation
    on its partitions; \<open>TableWrite\<close>, \<open>TableProps\<close>, \<open>TableGet\<close>, \<open>TableOps\<close>: writes, point lookups,
    deletes and maintenance; \<open>TableDisk\<close>: opening a table from its files; \<open>TableFrame\<close>: an operation on a
    table touches only the files below the table's directory; \<open>TableTheorems\<close>: the properties, on a
    table of two partitions; \<open>TableEvolve\<close>: changing the schema of a table.
  \<^item> \<open>Expr\<close>, \<open>Query\<close>: \<open>expr.rs\<close> and \<open>ir.rs\<close> of the planner, with the three-valued SQL meaning of an
    expression on a row; \<open>Prune\<close>: \<open>optimize.rs\<close> and \<open>adb-exec/src/prune.rs\<close>, and that skipping a segment
    loses no matching row; \<open>Validate\<close>: \<open>validate.rs\<close>; \<open>ValidateProps\<close>, \<open>ValidateTheorems\<close>: typing,
    limits, output names and idempotence of validation.
  \<^item> \<open>Physical\<close>: \<open>physical.rs\<close>, lowering to the pipeline scan, filter, aggregate, rename, sort, limit;
    \<open>Meaning\<close>: the answers of a logical plan and of a pipeline over the rows of a table, a set because
    sorting leaves ties open; \<open>LowerProps\<close>, \<open>LowerTheorems\<close>: the two agree.
  \<^item> \<open>Eval\<close>, \<open>EvalProps\<close>, \<open>EvalTheorems\<close>: \<open>adb-exec/src/eval.rs\<close>, vectorised evaluation is the SQL
    meaning row by row.
  \<^item> \<open>Scan\<close>: \<open>budget.rs\<close>, \<open>scan.rs\<close>, \<open>sort.rs\<close>; \<open>ScanProps\<close>: a scan emits the visible accepted rows;
    \<open>Aggregate\<close>: \<open>aggregate.rs\<close>; \<open>Exec\<close>: \<open>adb-exec/src/lib.rs\<close>; \<open>SelectProps\<close>: renaming, sorting,
    offset and limit of a batch; \<open>SelectAnswers\<close>: the batches of all partitions, early stop included;
    \<open>ExecDemo\<close>: concrete kernels and a table with rows; \<open>SelectTheorems\<close>: a query without an aggregate
    from validation to the returned batch.
  \<^item> \<open>AggProps\<close>: aggregate states that merge exactly (the locale \<open>mergeable\<close>), groups and their merge;
    \<open>AggAnswers\<close>: partial aggregates of the partitions, their merge and the resulting batch;
    \<open>AggPlans\<close>: the output columns of an aggregate plan; \<open>AggTheorems\<close>: a query with an aggregate from
    validation to the returned batch, and the count taken from the metadata.
  \<^item> \<open>Request\<close>: \<open>adb-query/src/plan.rs\<close>, the structured request and its translation to a plan;
    \<open>RequestProps\<close>: the shape of such plans, which always lower; \<open>RequestTheorems\<close>: which requests are
    refused, and a select from the request to the returned batch.
  \<^item> \<open>Engine\<close>: \<open>adb-engine/src/engine.rs\<close>, the catalog, its log and the open tables of one data directory.

  Conventions. A fallible function returns \<open>adb_error + 'a\<close>; the prose of an error is left out, its
  variant is kept. A state-changing operation returns the new state, also on the error paths that
  leave something behind. Locks are held across the operations modelled as one step. Code outside
  the repository is a record of functions (\<open>ext_lib\<close>, \<open>wal_lib\<close>, \<open>arrow_lib\<close>, \<open>bloom_math\<close>,
  \<open>storage_lib\<close>, \<open>sql_lib\<close>, \<open>kernel_lib\<close>, \<open>exec_lib\<close>), with what the code relies on as named predicates (\<open>wal_lib_ok\<close>, \<open>arrow_ok\<close>,
  \<open>eval_kernels_ok\<close>) that
  the witnesses establish for concrete functions.
\<close>

end
